(* ===== verification/Prelude.thy ===== *)
theory Prelude
  imports Main "HOL-Library.Word" "HOL-Library.Multiset"
begin

unbundle bit_operations_syntax

section \<open>Shared types, codes and lemmas\<close>

text \<open>
  The prelude names the machine types of the kernel (\<open>uint8_t\<close> to \<open>uint64_t\<close>), the
  return codes of the K API (\<open>include/kapi.h\<close>), the fact collections of the
  development and the generic lemmas on lists, words and circular buffers that the
  components share. C \<open>int\<close> return values are HOL integers: every one of them in the
  modelled code is a small constant or an index.
\<close>

type_synonym u8 = "8 word"
type_synonym u16 = "16 word"
type_synonym u32 = "32 word"
type_synonym u64 = "64 word"

abbreviation (input) KAPI_OK :: int where "KAPI_OK \<equiv> 0"
abbreviation (input) KAPI_ERROR :: int where "KAPI_ERROR \<equiv> - 1"
abbreviation (input) KAPI_EINVAL :: int where "KAPI_EINVAL \<equiv> - 2"
abbreviation (input) KAPI_ENOMEM :: int where "KAPI_ENOMEM \<equiv> - 3"
abbreviation (input) KAPI_ENOENT :: int where "KAPI_ENOENT \<equiv> - 4"
abbreviation (input) KAPI_EBUSY :: int where "KAPI_EBUSY \<equiv> - 6"

named_theorems ring_simps \<open>index arithmetic of circular buffers\<close>

subsection \<open>Lists\<close>

lemma nth_take_drop: "i < n \<Longrightarrow> a + n \<le> length xs \<Longrightarrow> take n (drop a xs) ! i = xs ! (a + i)"
  by simp

lemma sum_list_update_nat:
  fixes xs :: "nat list"
  assumes "i < length xs"
  shows "sum_list (xs[i := v]) + xs ! i = sum_list xs + v"
  using assms
proof (induction xs arbitrary: i)
  case (Cons x xs)
  then show ?case by (cases i) auto
qed simp

lemma fold_upt_update:
  "off + n \<le> length d \<Longrightarrow>
   fold (\<lambda>i d. d[off + i := f i]) [0..<n] d = take off d @ map f [0..<n] @ drop (off + n) d"
proof (induction n)
  case 0
  then show ?case by simp
next
  case (Suc n)
  let ?r = "take off d @ map f [0..<n] @ drop (off + n) d"
  have "fold (\<lambda>i d. d[off + i := f i]) [0..<Suc n] d = ?r[off + n := f n]"
    using Suc by simp
  moreover have "drop (off + n) d = d ! (off + n) # drop (Suc (off + n)) d"
    using Suc.prems by (simp add: Cons_nth_drop_Suc)
  ultimately show ?case
    using Suc.prems by (simp add: list_update_append)
qed

subsection \<open>Words\<close>

lemma uint_inj [simp]: "uint a = uint b \<longleftrightarrow> a = b"
  by (simp add: word_uint_eq_iff)

lemma uint_eq_0 [simp]: "uint a = 0 \<longleftrightarrow> a = 0"
  by (simp add: uint_0_iff)

lemma unat_eq_0 [simp]: "unat a = 0 \<longleftrightarrow> a = 0"
  by (simp add: unat_eq_zero)

lemma unat_exp: "k < LENGTH('a) \<Longrightarrow> unat (2 ^ k :: 'a::len word) = 2 ^ k"
  using unat_of_nat[of "2 ^ k", where 'a = 'a] by simp

lemma unat_mod_pow2_mask:
  fixes x :: "'a::len word"
  shows "k < LENGTH('a) \<Longrightarrow> unat (x AND (2 ^ k - 1)) = unat x mod 2 ^ k"
  by (simp add: and_exp_eq_0_iff_not_bit
      flip: mask_eq_exp_minus_1 take_bit_eq_mask take_bit_eq_mod unsigned_take_bit_eq)

text \<open>Clearing the low bits rounds down; with the usual addition first it rounds up.\<close>

lemma and_not_mask_eq:
  fixes x :: "'a::len word"
  shows "x AND NOT (mask k) = push_bit k (drop_bit k x)"
  by (rule bit_word_eqI) (auto simp: bit_simps)

lemma unat_and_not_mask:
  fixes x :: "'a::len word"
  assumes "k < LENGTH('a)"
  shows "unat (x AND NOT (mask k)) = unat x div 2 ^ k * 2 ^ k"
proof -
  have "unat x div 2 ^ k * 2 ^ k < 2 ^ LENGTH('a)"
    by (meson le_less_trans div_times_less_eq_dividend unsigned_less)
  then show ?thesis
    using unat_exp[OF assms]
    by (simp add: and_not_mask_eq push_bit_eq_mult drop_bit_eq_div unat_mult_lem[THEN iffD1] unat_div_distrib)
qed

lemma unat_add_noof:
  fixes x y :: "'a::len word"
  shows "unat x + unat y < 2 ^ LENGTH('a) \<Longrightarrow> unat (x + y) = unat x + unat y"
  by (simp add: unat_word_ariths)

lemma of_nat_word_inj:
  assumes "m < 2 ^ LENGTH('a)" "n < 2 ^ LENGTH('a)"
  shows "(of_nat m :: 'a::len word) = of_nat n \<longleftrightarrow> m = n"
  using assms unat_of_nat[of m, where 'a = 'a] unat_of_nat[of n, where 'a = 'a] by (metis mod_less)

text \<open>Conversions between 64 and 32 bits that lose nothing.\<close>

lemma unat_ucast_small: "unat (c :: u64) < 2 ^ 32 \<Longrightarrow> unat (ucast c :: u32) = unat c"
  unfolding unsigned_ucast_eq by (rule take_bit_nat_eq_self) simp

lemma sint_eq_uint_small: "uint (c :: u64) < 2 ^ 63 \<Longrightarrow> sint c = uint c"
  unfolding sint_uint
  by (rule signed_take_bit_int_eq_self) (rule order_trans[OF _ uint_ge_0], simp, simp)

lemma sint_small:
  assumes "unat (c :: u64) < 2 ^ 32"
  shows "sint c = int (unat c)"
proof -
  have "int (unat c) < int (2 ^ 32)" using assms by (simp only: of_nat_less_iff)
  then have "uint c < 2 ^ 32" by simp
  then have "uint c < 2 ^ 63" by simp
  then have "sint c = uint c" by (rule sint_eq_uint_small)
  then show ?thesis by simp
qed

text \<open>The number of bits of a word, one bit at a time.\<close>

lemma finite_bits [simp]: "finite {i. bit (w :: 'a::len word) i}"
  by (rule finite_subset[of _ "{..<LENGTH('a)}"]) (auto dest: bit_imp_le_length)

lemma card_bits_step:
  "card {i. bit (m :: 'a::len word) i} = (if bit m 0 then 1 else 0) + card {i. bit (drop_bit 1 m) i}"
proof -
  have "{i. bit m i} = (if bit m 0 then {0} else {}) \<union> Suc ` {i. bit (drop_bit 1 m) i}"
    by (auto simp: bit_drop_bit_eq image_iff split: if_splits) (metis not0_implies_Suc)+
  moreover have "card (Suc ` {i. bit (drop_bit 1 m) i}) = card {i. bit (drop_bit 1 m) i}"
    by (simp add: card_image)
  ultimately show ?thesis
    by (simp add: card_insert_if image_iff)
qed

lemma card_bits_le: "card {i. bit (m :: 'a::len word) i} \<le> LENGTH('a)"
proof -
  have "{i. bit m i} \<subseteq> {..<LENGTH('a)}" by (auto dest: bit_imp_le_length)
  from card_mono[OF _ this] show ?thesis by simp
qed

lemma drop_bit_1_less: "m \<noteq> 0 \<Longrightarrow> unat (drop_bit 1 m) < unat (m :: 'a::len word)"
  by (simp add: drop_bit_eq_div unat_div_distrib unat_gt_0)

lemma and_1_bit: "(m :: 'a::len word) AND 1 = (if bit m 0 then 1 else 0)"
  by (simp add: and_one_eq bit_0 mod_2_eq_odd)

definition align_page :: "u64 \<Rightarrow> u64" where
  "align_page x = (x + 4096 - 1) AND NOT (4096 - 1)"

lemma unat_align_page:
  assumes "unat x + 4095 < 2 ^ 64"
  shows "unat (align_page x) = (unat x + 4095) div 4096 * 4096"
proof -
  have "x + 4096 - 1 = x + 4095" by simp
  moreover have "unat (x + 4095) = unat x + 4095"
    using assms by (subst unat_add_noof) auto
  moreover have "(4096 - 1 :: u64) = mask 12"
    by (simp add: mask_eq_exp_minus_1)
  ultimately show ?thesis
    using unat_and_not_mask[of 12 "x + 4095"] by (simp add: align_page_def add.commute)
qed

lemma align_page_ge: "unat x + 4095 < 2 ^ 64 \<Longrightarrow> unat x \<le> unat (align_page x)"
  by (simp add: unat_align_page)

lemma align_page_dvd: "unat x + 4095 < 2 ^ 64 \<Longrightarrow> 4096 dvd unat (align_page x)"
  by (simp add: unat_align_page)

subsection \<open>The first index that satisfies a condition\<close>

text \<open>The scan \<open>for (i = 0; i < n; i++) if (P(a[i])) ...\<close> of a table.\<close>

fun find_idx :: "('a \<Rightarrow> bool) \<Rightarrow> 'a list \<Rightarrow> nat option" where
  "find_idx P [] = None"
| "find_idx P (x # xs) = (if P x then Some 0 else map_option Suc (find_idx P xs))"

lemma find_idx_Some:
  "find_idx P xs = Some i \<longleftrightarrow> i < length xs \<and> P (xs ! i) \<and> (\<forall>j<i. \<not> P (xs ! j))"
proof (induction xs arbitrary: i)
  case (Cons x xs)
  show ?case
    using Cons[of "i - 1"] by (cases i) (auto simp: less_Suc_eq_0_disj)
qed simp

lemma find_idx_None: "find_idx P xs = None \<longleftrightarrow> (\<forall>x \<in> set xs. \<not> P x)"
  by (induction xs) auto

lemma find_idxD:
  assumes "find_idx P xs = Some i"
  shows "i < length xs" "P (xs ! i)" "\<And>j. j < i \<Longrightarrow> \<not> P (xs ! j)"
  using assms by (auto simp: find_idx_Some)

lemma find_idx_map: "find_idx P (map f xs) = find_idx (\<lambda>x. P (f x)) xs"
  by (induction xs) auto

lemma find_idx_replicate [simp]:
  "find_idx P (replicate n x) = (if 0 < n \<and> P x then Some 0 else None)"
  by (induction n) auto

end
