(* ===== verification/Libc_String.thy ===== *)
theory Libc_String
  imports Prelude
begin

section \<open>The kernel C library: memory blocks and strings\<close>

text \<open>
  \<open>kernel/lib/libc/string.c\<close>. An object of C memory is a byte list; a read-only pointer
  into it is the list of bytes from the pointer to the end of the object, so advancing
  the pointer is taking the tail and a returned pointer is the offset from the argument.
  A read or write past the end of the object is undefined behaviour in C: the string
  functions return \<open>None\<close> there. The destination of a write is the object and the offset
  of the pointer in it. \<open>memmove\<close> works on one flat memory, since its point is overlap.
\<close>

subsection \<open>Blocks of memory\<close>

definition memset :: "u8 list \<Rightarrow> nat \<Rightarrow> int \<Rightarrow> nat \<Rightarrow> u8 list" where
  "memset p off value num = fold (\<lambda>i p. p[off + i := word_of_int value]) [0..<num] p"

definition memcpy :: "u8 list \<Rightarrow> nat \<Rightarrow> u8 list \<Rightarrow> nat \<Rightarrow> nat \<Rightarrow> u8 list" where
  "memcpy d doff s soff num = fold (\<lambda>i d. d[doff + i := s ! (soff + i)]) [0..<num] d"

fun memchr :: "u8 list \<Rightarrow> int \<Rightarrow> nat \<Rightarrow> nat option option" where
  "memchr p value 0 = Some None"
| "memchr [] value (Suc n) = None"
| "memchr (c # p) value (Suc n) =
     (if c = word_of_int value then Some (Some 0)
      else map_option (map_option Suc) (memchr p value n))"

fun memcmp :: "u8 list \<Rightarrow> u8 list \<Rightarrow> nat \<Rightarrow> int option" where
  "memcmp p1 p2 0 = Some 0"
| "memcmp (a # p1) (b # p2) (Suc n) =
     (if a \<noteq> b then Some (uint a - uint b) else memcmp p1 p2 n)"
| "memcmp _ _ (Suc n) = None"

text \<open>
  \<open>memmove\<close> on a flat memory: upwards when the destination lies below the source,
  downwards otherwise, one byte at a time.
\<close>

fun memmove_up :: "(nat \<Rightarrow> u8) \<Rightarrow> nat \<Rightarrow> nat \<Rightarrow> nat \<Rightarrow> (nat \<Rightarrow> u8)" where
  "memmove_up m d s 0 = m"
| "memmove_up m d s (Suc n) = (let m' = memmove_up m d s n in m'(d + n := m' (s + n)))"

fun memmove_down :: "(nat \<Rightarrow> u8) \<Rightarrow> nat \<Rightarrow> nat \<Rightarrow> nat \<Rightarrow> (nat \<Rightarrow> u8)" where
  "memmove_down m d s 0 = m"
| "memmove_down m d s (Suc n) = memmove_down (m(d + n := m (s + n))) d s n"

definition memmove :: "(nat \<Rightarrow> u8) \<Rightarrow> nat \<Rightarrow> nat \<Rightarrow> nat \<Rightarrow> (nat \<Rightarrow> u8)" where
  "memmove m d s num = (if d < s then memmove_up m d s num else memmove_down m d s num)"

subsection \<open>Strings\<close>

fun strlen :: "u8 list \<Rightarrow> nat option" where
  "strlen [] = None"
| "strlen (c # s) = (if c = 0 then Some 0 else map_option Suc (strlen s))"

fun strcmp :: "u8 list \<Rightarrow> u8 list \<Rightarrow> int option" where
  "strcmp (a # s1) (b # s2) =
     (if a \<noteq> 0 \<and> a = b then strcmp s1 s2 else Some (uint a - uint b))"
| "strcmp _ _ = None"

fun strncmp :: "u8 list \<Rightarrow> u8 list \<Rightarrow> nat \<Rightarrow> int option" where
  "strncmp s1 s2 0 = Some 0"
| "strncmp (a # s1) (b # s2) (Suc n) =
     (if a \<noteq> 0 \<and> a = b then strncmp s1 s2 n else Some (uint a - uint b))"
| "strncmp _ _ (Suc n) = None"

fun strchr :: "u8 list \<Rightarrow> u8 \<Rightarrow> nat option option" where
  "strchr [] c = None"
| "strchr (a # s) c =
     (if a \<noteq> 0 then (if a = c then Some (Some 0) else map_option (map_option Suc) (strchr s c))
      else Some (if c = 0 then Some 0 else None))"

fun strrchr_loop :: "u8 list \<Rightarrow> u8 \<Rightarrow> nat \<Rightarrow> nat option \<Rightarrow> nat option option" where
  "strrchr_loop [] c i lst = None"
| "strrchr_loop (a # s) c i lst =
     (if a \<noteq> 0 then strrchr_loop s c (Suc i) (if a = c then Some i else lst)
      else Some (if c = 0 then Some i else lst))"

definition strrchr :: "u8 list \<Rightarrow> u8 \<Rightarrow> nat option option" where
  "strrchr s c = strrchr_loop s c 0 None"

text \<open>
  Writers. \<open>store\<close> is one checked byte write. \<open>strncpy_copy\<close> is the first loop of
  \<open>strncpy\<close> (it stops at the terminator or after \<open>num\<close> bytes and returns the index
  reached), the padding loop then fills with zeros.
\<close>

definition store :: "u8 list \<Rightarrow> nat \<Rightarrow> u8 \<Rightarrow> u8 list option" where
  "store d i v = (if i < length d then Some (d[i := v]) else None)"

fun strncpy_copy :: "u8 list \<Rightarrow> nat \<Rightarrow> u8 list \<Rightarrow> nat \<Rightarrow> (u8 list \<times> nat) option" where
  "strncpy_copy d i s 0 = Some (d, i)"
| "strncpy_copy d i [] (Suc n) = None"
| "strncpy_copy d i (c # s) (Suc n) =
     (if c = 0 then Some (d, i)
      else Option.bind (store d i c) (\<lambda>d'. strncpy_copy d' (Suc i) s n))"

fun zero_fill :: "u8 list \<Rightarrow> nat \<Rightarrow> nat \<Rightarrow> u8 list option" where
  "zero_fill d i 0 = Some d"
| "zero_fill d i (Suc n) = Option.bind (store d i 0) (\<lambda>d'. zero_fill d' (Suc i) n)"

definition strncpy :: "u8 list \<Rightarrow> u8 list \<Rightarrow> nat \<Rightarrow> u8 list option" where
  "strncpy d s num =
     Option.bind (strncpy_copy d 0 s num) (\<lambda>(d', i). zero_fill d' i (num - i))"

definition strcpy :: "u8 list \<Rightarrow> u8 list \<Rightarrow> u8 list option" where
  "strcpy d s = Option.bind (strlen s) (\<lambda>n. strncpy d s (n + 1))"

definition strcat :: "u8 list \<Rightarrow> u8 list \<Rightarrow> u8 list option" where
  "strcat d s = Option.bind (strlen d) (\<lambda>dest_len.
     Option.bind (strlen s) (\<lambda>n.
       Option.bind (strncpy_copy d dest_len s n) (\<lambda>(d', i). store d' i 0)))"

definition strncat :: "u8 list \<Rightarrow> u8 list \<Rightarrow> nat \<Rightarrow> u8 list option" where
  "strncat d s num = Option.bind (strlen d) (\<lambda>dest_len.
     Option.bind (strncpy_copy d dest_len s num) (\<lambda>(d', i). store d' i 0))"

fun strstr_loop :: "u8 list \<Rightarrow> u8 list \<Rightarrow> nat \<Rightarrow> nat \<Rightarrow> nat option option" where
  "strstr_loop [] needle nlen i = None"
| "strstr_loop (c # p) needle nlen i =
     (if c = 0 then Some None
      else (case strncmp (c # p) needle nlen of
              None \<Rightarrow> None
            | Some r \<Rightarrow> if r = 0 then Some (Some i) else strstr_loop p needle nlen (Suc i)))"

definition strstr :: "u8 list \<Rightarrow> u8 list \<Rightarrow> nat option option" where
  "strstr haystack needle =
     (case needle of
        [] \<Rightarrow> None
      | n0 # _ \<Rightarrow>
          if n0 = 0 then Some (Some 0)
          else Option.bind (strlen needle) (\<lambda>nlen. strstr_loop haystack needle nlen 0))"

text \<open>
  The idiom \<open>strncpy(d, s, n - 1); d[n - 1] = 0\<close> by which the kernel fills a name field
  of \<open>n\<close> bytes.
\<close>

definition bounded_copy :: "u8 list \<Rightarrow> nat \<Rightarrow> u8 list \<Rightarrow> u8 list option" where
  "bounded_copy d n s = map_option (\<lambda>d'. d'[n - 1 := 0]) (strncpy d s (n - 1))"

text \<open>
  \<open>strtok\<close> keeps the static \<open>last\<close> between calls: the offset in the object of the string
  last given. Its two scans advance while the current byte is, or is not, a delimiter;
  the byte after the token is overwritten with the terminator.
\<close>

definition is_delim :: "u8 list \<Rightarrow> u8 \<Rightarrow> bool option" where
  "is_delim delimiters c = map_option (\<lambda>r. r \<noteq> None) (strchr delimiters c)"

fun strtok_scan :: "bool \<Rightarrow> u8 list \<Rightarrow> u8 list \<Rightarrow> nat \<Rightarrow> nat option" where
  "strtok_scan want delimiters [] i = None"
| "strtok_scan want delimiters (c # s) i =
     (if c = 0 then Some i
      else (case is_delim delimiters c of
              None \<Rightarrow> None
            | Some b \<Rightarrow> if b = want then strtok_scan want delimiters s (Suc i) else Some i))"

definition strtok ::
  "u8 list \<Rightarrow> nat option \<Rightarrow> nat option \<Rightarrow> u8 list \<Rightarrow> (u8 list \<times> nat option \<times> nat option) option" where
  "strtok obj lst str delimiters =
     (case (if str \<noteq> None then str else lst) of
        None \<Rightarrow> Some (obj, None, None)
      | Some l \<Rightarrow>
          if l \<ge> length obj then None
          else if obj ! l = 0 then Some (obj, Some l, None)
          else Option.bind (strtok_scan True delimiters (drop l obj) l) (\<lambda>t.
            if obj ! t = 0 then Some (obj, Some t, None)
            else Option.bind (strtok_scan False delimiters (drop t obj) t) (\<lambda>e.
              if obj ! e \<noteq> 0 then Some (obj[e := 0], Some (Suc e), Some t)
              else Some (obj, Some e, Some t))))"

subsection \<open>Facts\<close>

text \<open>The string a pointer denotes, and that it is terminated inside its object.\<close>

definition cstr :: "u8 list \<Rightarrow> u8 list" where
  "cstr s = takeWhile (\<lambda>c. c \<noteq> 0) s"

abbreviation terminated :: "u8 list \<Rightarrow> bool" where
  "terminated s \<equiv> 0 \<in> set s"

lemma cstr_simps [simp]:
  "cstr [] = []" "cstr (c # s) = (if c = 0 then [] else c # cstr s)"
  by (auto simp: cstr_def)

lemma zero_notin_cstr [simp]: "0 \<notin> set (cstr s)"
  by (auto simp: cstr_def dest: set_takeWhileD)

lemma cstr_append_zero [simp]: "0 \<notin> set xs \<Longrightarrow> cstr (xs @ 0 # ys) = xs"
  by (induction xs) auto

lemma terminated_split: "terminated s \<Longrightarrow> \<exists>t. s = cstr s @ 0 # t"
  by (induction s) auto

lemma length_memset [simp]: "length (memset p off v n) = length p"
  unfolding memset_def by (induction n) auto

lemma length_memcpy [simp]: "length (memcpy d doff s soff n) = length d"
  unfolding memcpy_def by (induction n) auto

lemma memset_eq:
  "off + n \<le> length p \<Longrightarrow>
   memset p off v n = take off p @ replicate n (word_of_int v) @ drop (off + n) p"
  unfolding memset_def by (subst fold_upt_update) (auto simp: map_replicate_const)

lemma map_nth_upt: "soff + n \<le> length s \<Longrightarrow> map (\<lambda>i. s ! (soff + i)) [0..<n] = take n (drop soff s)"
  by (rule nth_equalityI) auto

lemma memcpy_eq:
  "doff + n \<le> length d \<Longrightarrow> soff + n \<le> length s \<Longrightarrow>
   memcpy d doff s soff n = take doff d @ take n (drop soff s) @ drop (doff + n) d"
  unfolding memcpy_def by (subst fold_upt_update) (auto simp: map_nth_upt)

lemma memcpy_0 [simp]: "memcpy d doff s soff 0 = d"
  by (simp add: memcpy_def)

text \<open>Overlapping moves: after either loop every destination byte is the old source byte.\<close>

lemma memmove_up_apply:
  "d < s \<Longrightarrow> memmove_up m d s n i = (if d \<le> i \<and> i < d + n then m (s + (i - d)) else m i)"
proof (induction n arbitrary: i)
  case (Suc n)
  then show ?case by (auto simp: Let_def)
qed auto

lemma memmove_down_apply:
  "s \<le> d \<Longrightarrow> memmove_down m d s n i = (if d \<le> i \<and> i < d + n then m (s + (i - d)) else m i)"
proof (induction n arbitrary: m i)
  case (Suc n)
  then show ?case by auto
qed auto

lemma memmove_apply:
  "memmove m d s n i = (if d \<le> i \<and> i < d + n then m (s + (i - d)) else m i)"
  by (simp add: memmove_def memmove_up_apply memmove_down_apply)

lemma strlen_terminated: "terminated s \<Longrightarrow> strlen s = Some (length (cstr s))"
  by (induction s) auto

lemma strlen_unterminated: "\<not> terminated s \<Longrightarrow> strlen s = None"
  by (induction s) auto

lemma strcmp_total: "terminated s \<Longrightarrow> terminated t \<Longrightarrow> \<exists>r. strcmp s t = Some r"
  by (induction s t rule: strcmp.induct) auto

lemma strcmp_eq_0: "strcmp s t = Some 0 \<longleftrightarrow> terminated s \<and> terminated t \<and> cstr s = cstr t"
proof (induction s t rule: strcmp.induct)
  case (1 a s b t)
  then show ?case by auto
qed auto

lemma strncmp_eq_0:
  "n \<le> length (cstr t) \<Longrightarrow> terminated s \<Longrightarrow>
   strncmp s t n = Some 0 \<longleftrightarrow> take n (cstr s) = take n (cstr t)"
proof (induction s t n rule: strncmp.induct)
  case (2 a s b t n)
  then show ?case by (auto split: if_splits)
qed (auto split: if_splits)

lemma strncmp_total:
  "n \<le> length (cstr t) \<Longrightarrow> terminated s \<Longrightarrow> \<exists>r. strncmp s t n = Some r"
  by (induction s t n rule: strncmp.induct) (auto split: if_splits)

text \<open>Between terminated strings \<open>strncmp\<close> compares the first \<open>n\<close> characters, whatever \<open>n\<close> is.\<close>

lemma strncmp_terminated:
  "terminated s \<Longrightarrow> terminated t \<Longrightarrow>
   \<exists>r. strncmp s t n = Some r \<and> (r = 0 \<longleftrightarrow> take n (cstr s) = take n (cstr t))"
  by (induction s t n rule: strncmp.induct) auto

text \<open>Writers: what \<open>strncpy\<close>, \<open>strcpy\<close> and \<open>strcat\<close> leave in the destination object.\<close>

lemma strncpy_copy_eq:
  "terminated s \<or> n \<le> length (cstr s) \<Longrightarrow> i + min n (length (cstr s)) \<le> length d \<Longrightarrow>
   strncpy_copy d i s n =
     Some (take i d @ take n (cstr s) @ drop (i + min n (length (cstr s))) d,
           i + min n (length (cstr s)))"
proof (induction d i s n rule: strncpy_copy.induct)
  case (3 d i c s n)
  show ?case
  proof (cases "c = 0")
    case False
    with 3 have "i < length d" by auto
    with 3 False show ?thesis
      by (auto simp: store_def take_Suc_conv_app_nth[of i "d[i := c]"])
  qed simp
qed auto

lemma zero_fill_eq:
  "i + n \<le> length d \<Longrightarrow> zero_fill d i n = Some (take i d @ replicate n 0 @ drop (i + n) d)"
proof (induction n arbitrary: d i)
  case (Suc n)
  then show ?case
    by (auto simp: store_def take_Suc_conv_app_nth[of i "d[i := 0]"])
qed simp

lemma strncpy_eq:
  assumes "terminated s \<or> n \<le> length (cstr s)" and "n \<le> length d"
  shows "strncpy d s n = Some (take n (cstr s @ replicate n 0) @ drop n d)"
proof -
  let ?k = "min n (length (cstr s))"
  have "strncpy_copy d 0 s n = Some (take n (cstr s) @ drop ?k d, ?k)"
    using assms strncpy_copy_eq[of s n 0 d] by simp
  moreover have "zero_fill (take n (cstr s) @ drop ?k d) ?k (n - ?k) =
      Some (take n (cstr s) @ replicate (n - ?k) 0 @ drop n d)"
    using assms(2) by (subst zero_fill_eq) (auto simp: min_def)
  ultimately show ?thesis
    by (simp add: strncpy_def min_def)
qed

lemma strncpy_length:
  assumes "strncpy d s n = Some d'"
  shows "length d' = length d"
proof -
  have copy: "\<And>d i s n d' j. strncpy_copy d i s n = Some (d', j) \<Longrightarrow> length d' = length d"
  proof -
    fix d i s n d' j
    show "strncpy_copy d i s n = Some (d', j) \<Longrightarrow> length d' = length d"
      by (induction d i s n rule: strncpy_copy.induct)
        (auto simp: store_def Option.bind_eq_Some_conv split: if_splits)
  qed
  have fill: "\<And>d i n d'. zero_fill d i n = Some d' \<Longrightarrow> length d' = length d"
  proof -
    fix d i n d'
    show "zero_fill d i n = Some d' \<Longrightarrow> length d' = length d"
      by (induction d i n rule: zero_fill.induct)
        (auto simp: store_def Option.bind_eq_Some_conv split: if_splits)
  qed
  show ?thesis
    using assms by (auto simp: strncpy_def Option.bind_eq_Some_conv dest!: copy fill)
qed

lemma bounded_copy_eq:
  assumes "terminated s" "0 < n" "n \<le> length d"
  shows "\<exists>d'. bounded_copy d n s = Some d' \<and> length d' = length d \<and> cstr d' = take (n - 1) (cstr s)"
proof -
  let ?p = "take (n - 1) (cstr s @ replicate (n - 1) 0)"
  have e: "bounded_copy d n s = Some ((?p @ drop (n - 1) d)[n - 1 := 0])"
    using strncpy_eq[of s "n - 1" d] assms by (simp add: bounded_copy_def)
  have lp: "length ?p = n - 1"
    by simp
  have "drop (n - 1) d = d ! (n - 1) # drop n d"
    using assms Cons_nth_drop_Suc[of "n - 1" d] by simp
  then have l: "(?p @ drop (n - 1) d)[n - 1 := 0] = ?p @ 0 # drop n d"
    using list_update_length[of ?p "d ! (n - 1)" "drop n d" 0] lp by (simp only:)
  have z: "cstr (xs @ replicate k 0 @ 0 # ys) = xs" if "0 \<notin> set xs" for xs ys :: "u8 list" and k
    using that by (cases k) (simp_all add: replicate_app_Cons_same)
  have "0 \<notin> set (take (n - 1) (cstr s))"
    by (meson in_set_takeD zero_notin_cstr)
  from z[OF this, of "n - 1 - length (cstr s)" "drop n d"]
  have "cstr (?p @ 0 # drop n d) = take (n - 1) (cstr s)"
    by simp
  then show ?thesis
    using e l assms by auto
qed

lemma strcpy_eq:
  assumes "terminated s" and "length (cstr s) < length d"
  shows "strcpy d s = Some (cstr s @ 0 # drop (Suc (length (cstr s))) d)"
  using assms strncpy_eq[of s "length (cstr s) + 1" d]
  by (simp add: strcpy_def strlen_terminated)

lemma strcat_eq:
  assumes "terminated s" and "terminated d" and "length (cstr d) + length (cstr s) < length d"
  shows "strcat d s = Some (cstr d @ cstr s @ 0 # drop (Suc (length (cstr d) + length (cstr s))) d)"
proof -
  let ?a = "length (cstr d)" and ?b = "length (cstr s)"
  have td: "take ?a d = cstr d"
    unfolding cstr_def by (rule takeWhile_eq_take[symmetric])
  have "strncpy_copy d ?a s ?b = Some (cstr d @ cstr s @ drop (?a + ?b) d, ?a + ?b)"
    using strncpy_copy_eq[of s ?b ?a d] assms(1,3) td by simp
  moreover have "drop (?a + ?b) d = d ! (?a + ?b) # drop (Suc (?a + ?b)) d"
    using assms(3) by (simp add: Cons_nth_drop_Suc)
  ultimately show ?thesis
    using assms by (simp add: strcat_def strlen_terminated store_def list_update_append)
qed

text \<open>\<open>strstr\<close> finds the first occurrence.\<close>

definition occurs_at :: "u8 list \<Rightarrow> u8 list \<Rightarrow> nat \<Rightarrow> bool" where
  "occurs_at h n i \<longleftrightarrow> i + length n \<le> length h \<and> take (length n) (drop i h) = n"

lemma take_eq_length_le: "take (length ys) xs = ys \<Longrightarrow> length ys \<le> length xs"
  by (metis length_take min.cobounded1)

lemma strncmp_occurs:
  assumes "terminated p"
  shows "strncmp p n (length (cstr n)) = Some 0 \<longleftrightarrow> occurs_at (cstr p) (cstr n) 0"
  unfolding strncmp_eq_0[OF order_refl assms] occurs_at_def
  using take_eq_length_le[of "cstr n" "cstr p"] by auto

lemma strstr_loop_eq:
  assumes "n \<noteq> []" "n = cstr nd" "terminated p"
  shows "strstr_loop p nd (length n) i =
    Some (if \<exists>k. occurs_at (cstr p) n k then Some (i + (LEAST k. occurs_at (cstr p) n k)) else None)"
  using assms(3)
proof (induction p arbitrary: i)
  case (Cons c p)
  have cons: "occurs_at (c # h) n (Suc k) = occurs_at h n k" for k h
    by (simp add: occurs_at_def)
  show ?case
  proof (cases "c = 0")
    case True
    with assms(1) show ?thesis by (auto simp: occurs_at_def)
  next
    case False
    note nz = False
    show ?thesis
    proof (cases "occurs_at (cstr (c # p)) n 0")
      case True
      then have "strncmp (c # p) nd (length n) = Some 0"
        by (simp only: assms(2) strncmp_occurs[OF Cons.prems])
      moreover have "(LEAST k. occurs_at (cstr (c # p)) n k) = 0"
        using True by (simp add: Least_equality)
      moreover have "\<exists>k. occurs_at (cstr (c # p)) n k"
        using True by blast
      ultimately show ?thesis using nz by (simp only: strstr_loop.simps) simp
    next
      case False
      obtain r where r1: "strncmp (c # p) nd (length n) = Some r"
        using strncmp_total[OF eq_imp_le[OF arg_cong[OF assms(2), of length]] Cons.prems] by blast
      moreover have "r \<noteq> 0"
      proof
        assume "r = 0"
        with r1 have "strncmp (c # p) nd (length (cstr nd)) = Some 0"
          by (simp only: assms(2))
        then have "occurs_at (cstr (c # p)) (cstr nd) 0"
          by (simp only: strncmp_occurs[OF Cons.prems] simp_thms)
        with False show False by (simp only: assms(2) simp_thms)
      qed
      ultimately have r: "strncmp (c # p) nd (length n) = Some r" "r \<noteq> 0"
        by blast+
      have ex: "(\<exists>k. occurs_at (cstr (c # p)) n k) = (\<exists>k. occurs_at (cstr p) n k)"
      proof -
        have "occurs_at (cstr (c # p)) n k \<Longrightarrow> \<exists>k'. occurs_at (cstr p) n k'" for k
          using False nz cons[of "cstr p"] by (cases k) auto
        moreover have "occurs_at (cstr p) n k \<Longrightarrow> occurs_at (cstr (c # p)) n (Suc k)" for k
          using nz cons[of "cstr p"] by simp
        ultimately show ?thesis by blast
      qed
      have least: "occurs_at (cstr p) n k \<Longrightarrow>
        (LEAST k. occurs_at (cstr (c # p)) n k) = Suc (LEAST k. occurs_at (cstr p) n k)" for k
        using Least_Suc[of "occurs_at (cstr (c # p)) n" "Suc k"] False nz cons[of "cstr p"] by simp
      have "strstr_loop (c # p) nd (length n) i = strstr_loop p nd (length n) (Suc i)"
        using r nz by simp
      also have "\<dots> = Some (if \<exists>k. occurs_at (cstr p) n k
          then Some (Suc i + (LEAST k. occurs_at (cstr p) n k)) else None)"
        using Cons nz by simp
      finally show ?thesis
        unfolding ex using least by (cases "\<exists>k. occurs_at (cstr p) n k") (auto simp del: cstr_simps)
    qed
  qed
qed simp

lemma strstr_eq:
  assumes "terminated h" and "terminated n"
  shows "strstr h n =
    Some (if \<exists>k. occurs_at (cstr h) (cstr n) k then Some (LEAST k. occurs_at (cstr h) (cstr n) k) else None)"
proof (cases "cstr n = []")
  case True
  with assms(2) obtain t where "n = 0 # t"
    using terminated_split[of n] by auto
  moreover have "occurs_at (cstr h) [] 0"
    by (simp add: occurs_at_def)
  ultimately show ?thesis
    by (auto simp: strstr_def Least_equality)
next
  case False
  then obtain c t where "n = c # t" "c \<noteq> 0"
    by (cases n) (auto split: if_splits)
  then show ?thesis
    using assms False strstr_loop_eq[of "cstr n" n h 0] strlen_terminated[of n]
    by (simp add: strstr_def)
qed

text \<open>\<open>memcmp\<close> is a total preorder on keys of the compared length.\<close>

lemma memcmp_total: "n \<le> length p \<Longrightarrow> n \<le> length q \<Longrightarrow> \<exists>r. memcmp p q n = Some r"
  by (induction p q n rule: memcmp.induct) auto

lemma memcmp_eq_0:
  "n \<le> length p \<Longrightarrow> n \<le> length q \<Longrightarrow> memcmp p q n = Some 0 \<longleftrightarrow> take n p = take n q"
  by (induction p q n rule: memcmp.induct) auto

lemma memcmp_antisym: "memcmp p q n = Some r \<Longrightarrow> memcmp q p n = Some (- r)"
  by (induction p q n rule: memcmp.induct) (auto split: if_splits)

lemma memcmp_trans:
  "memcmp p q n = Some r \<Longrightarrow> memcmp q t n = Some r' \<Longrightarrow> r \<le> 0 \<Longrightarrow> r' \<le> 0 \<Longrightarrow>
   \<exists>r''. memcmp p t n = Some r'' \<and> r'' \<le> 0"
proof (induction p q n arbitrary: t rule: memcmp.induct)
  case (2 a p b q n)
  then show ?case by (cases t) (auto split: if_splits)
qed auto

subsection \<open>Properties\<close>

text \<open>\<open>memmove\<close> is right for overlapping ranges, whatever their order: every byte of the
  destination range becomes what the source range held before the call, and every byte
  outside the destination range is unchanged.\<close>
theorem memmove_overlap:
  "map (memmove m d s n) [d..<d + n] = map m [s..<s + n] \<and>
   (i < d \<or> d + n \<le> i \<longrightarrow> memmove m d s n i = m i)"
  by (auto simp: memmove_apply intro!: nth_equalityI)

theorem memmove_overlap_witness:
  "map (memmove (\<lambda>i. of_nat i) 2 1 3) [2, 3, 4] = [1, 2, 3] \<and>
   memmove (\<lambda>i. of_nat i) 2 1 3 7 = 7"
  using memmove_overlap[of "\<lambda>i. of_nat i" 2 1 3 7] by (simp add: upt_rec)

text \<open>\<open>strstr\<close> on terminated strings always returns, and returns the first position at
  which the needle occurs in the haystack, or \<open>NULL\<close> when it occurs nowhere.\<close>
theorem strstr_first_occurrence:
  assumes "terminated h" and "terminated n"
  shows "case strstr h n of
      Some (Some k) \<Rightarrow> occurs_at (cstr h) (cstr n) k \<and> (\<forall>j. occurs_at (cstr h) (cstr n) j \<longrightarrow> k \<le> j)
    | Some None \<Rightarrow> \<forall>j. \<not> occurs_at (cstr h) (cstr n) j
    | None \<Rightarrow> False"
  using strstr_eq[OF assms]
  by (cases "\<exists>k. occurs_at (cstr h) (cstr n) k") (auto intro: LeastI_ex Least_le)

theorem strstr_first_occurrence_witness:
  "strstr [97, 98, 97, 99, 0] [97, 99, 0] = Some (Some 2) \<and>
   occurs_at (cstr [97, 98, 97, 99, 0]) (cstr [97, 99, 0]) 2"
proof -
  have r: "strstr [97, 98, 97, 99, 0] [97, 99, 0] = Some (Some 2)"
    by (simp add: strstr_def)
  show ?thesis
    using strstr_first_occurrence[of "[97, 98, 97, 99, 0]" "[97, 99, 0]"] r by simp
qed

text \<open>Copying and appending: when the destination object has room, \<open>strcpy\<close> leaves the
  source string in it and a following \<open>strcat\<close> leaves the concatenation; neither changes the
  size of the object, and \<open>strlen\<close> of the result is the sum of the two lengths.\<close>
theorem strcpy_strcat:
  assumes "terminated s" "terminated t" "length (cstr s) + length (cstr t) < length d"
  shows "\<exists>d1 d2. strcpy d s = Some d1 \<and> cstr d1 = cstr s \<and>
    strcat d1 t = Some d2 \<and> cstr d2 = cstr s @ cstr t \<and>
    strlen d2 = Some (length (cstr s) + length (cstr t)) \<and> length d2 = length d"
proof -
  let ?d1 = "cstr s @ 0 # drop (Suc (length (cstr s))) d"
  let ?d2 = "cstr s @ cstr t @ 0 # drop (Suc (length (cstr s) + length (cstr t))) ?d1"
  have c1: "cstr ?d1 = cstr s" and t1: "terminated ?d1"
    by simp_all
  have c2: "cstr ?d2 = cstr s @ cstr t"
    using cstr_append_zero[of "cstr s @ cstr t"] by simp
  have "strcpy d s = Some ?d1"
    using assms by (intro strcpy_eq) auto
  moreover have "strcat ?d1 t = Some ?d2"
    using strcat_eq[OF assms(2) t1] assms(3) unfolding c1 by simp
  moreover have "strlen ?d2 = Some (length (cstr s) + length (cstr t))"
    using strlen_terminated[of ?d2] c2 by simp
  ultimately show ?thesis
    using c1 c2 assms(3) by auto
qed

theorem strcpy_strcat_witness:
  "\<exists>d1 d2. strcpy (replicate 8 7) [97, 0] = Some d1 \<and> strcat d1 [98, 99, 0] = Some d2 \<and>
     cstr d2 = [97, 98, 99] \<and> strlen d2 = Some 3"
  using strcpy_strcat[of "[97, 0]" "[98, 99, 0]" "replicate 8 7"] by auto

end
