(* ===== verification/Memory_Pool.thy ===== *)
theory Memory_Pool
  imports Libc_String
begin

section \<open>The kernel memory pool and virtual memory areas\<close>

text \<open>
  \<open>kernel/arch/x86_64/memory.c\<close>: the block pool behind \<open>memory_alloc\<close> and
  \<open>memory_free\<close> (the globals \<open>memory_pool\<close> and \<open>memory_start\<close> are the record
  \<open>memory_state\<close>) and the table of VMA regions. A pointer is a 64-bit address, \<open>NULL\<close>
  is 0. Addresses and sizes keep their width: the size computation of
  \<open>memory_alloc\<close> wraps where the C wraps.
\<close>

subsection \<open>Virtual memory areas\<close>

text \<open>A \<open>vma_t*\<close> argument is an option: \<open>None\<close> is the \<open>NULL\<close> that each operation rejects.\<close>

record vma_region =
  vr_start :: u64
  vr_end :: u64
  vr_flags :: u64
  vr_type :: u64
  vr_name :: "u8 list"

record vma =
  regions :: "vma_region list"
  vma_count :: nat
  heap_start :: u64
  heap_end :: u64
  stack_top :: u64

definition VMA_MAX_REGIONS :: nat where "VMA_MAX_REGIONS = 128"

definition empty_region :: vma_region where
  "empty_region = \<lparr>vr_start = 0, vr_end = 0, vr_flags = 0, vr_type = 0, vr_name = replicate 32 0\<rparr>"

definition vma_init :: "vma option \<Rightarrow> vma option" where
  "vma_init v = map_option (\<lambda>_. \<lparr>regions = replicate VMA_MAX_REGIONS empty_region, vma_count = 0,
     heap_start = 0xFFFFFFFF80000000 + 0x100000, heap_end = 0xFFFFFFFF80000000 + 0x100000,
     stack_top = 0xFFFFFFFFA0000000\<rparr>) v"

text \<open>
  The name field: \<open>strncpy\<close> of at most 31 bytes and a terminator, or just a terminator
  when no name is given. The result is \<open>None\<close> when the caller's name is not a string.
\<close>

definition region_name :: "u8 list \<Rightarrow> u8 list option \<Rightarrow> u8 list option" where
  "region_name old nm =
     (case nm of
        None \<Rightarrow> Some (old[0 := 0])
      | Some s \<Rightarrow> map_option (\<lambda>d. d[31 := 0]) (strncpy old s 31))"

definition vma_map ::
  "vma option \<Rightarrow> u64 \<Rightarrow> u64 \<Rightarrow> u64 \<Rightarrow> u8 list option \<Rightarrow> (int \<times> vma option) option" where
  "vma_map vp start fin flags nm =
     (case vp of
        None \<Rightarrow> Some (- 1, None)
      | Some v \<Rightarrow>
          if vma_count v \<ge> VMA_MAX_REGIONS then Some (- 1, Some v)
          else if start \<ge> fin then Some (- 1, Some v)
          else map_option (\<lambda>name'.
              (0, Some (v\<lparr>regions := (regions v)[vma_count v :=
                     \<lparr>vr_start = start, vr_end = fin, vr_flags = flags, vr_type = 0, vr_name = name'\<rparr>],
                   vma_count := vma_count v + 1\<rparr>)))
            (region_name (vr_name (regions v ! vma_count v)) nm))"

definition vma_unmap :: "vma option \<Rightarrow> u64 \<Rightarrow> u64 \<Rightarrow> int \<times> vma option" where
  "vma_unmap vp start fin =
     (case vp of
        None \<Rightarrow> (- 1, None)
      | Some v \<Rightarrow>
          (case find_idx (\<lambda>r. vr_start r = start \<and> vr_end r = fin)
                  (take (vma_count v) (regions v)) of
             None \<Rightarrow> (- 1, Some v)
           | Some i \<Rightarrow>
               (0, Some (v\<lparr>regions := (if i < vma_count v - 1
                     then (regions v)[i := regions v ! (vma_count v - 1)] else regions v),
                   vma_count := vma_count v - 1\<rparr>))))"

definition vma_find :: "vma option \<Rightarrow> u64 \<Rightarrow> nat option" where
  "vma_find vp addr =
     (case vp of
        None \<Rightarrow> None
      | Some v \<Rightarrow> find_idx (\<lambda>r. vr_start r \<le> addr \<and> addr < vr_end r)
                    (take (vma_count v) (regions v)))"

definition vma_alloc_range :: "vma option \<Rightarrow> u64 \<Rightarrow> u64 \<Rightarrow> u64 \<times> vma option" where
  "vma_alloc_range vp sz align =
     (case vp of
        None \<Rightarrow> (0, None)
      | Some v \<Rightarrow>
          if vma_count v \<ge> VMA_MAX_REGIONS then (0, Some v)
          else let addr = (if align > 4096 then (heap_end v + align - 1) AND NOT (align - 1)
                           else heap_end v)
            in (addr, Some (v\<lparr>heap_end := addr + sz\<rparr>)))"

subsection \<open>The block pool\<close>

record memory_block =
  mb_address :: u64
  mb_size :: u64
  mb_used :: bool
  mb_order :: u8

record memory_state =
  blocks :: "memory_block list"
  total_size :: u64
  used_size :: u64
  alloc_count :: u64
  free_count :: u64
  memory_start :: u64
  kernel_vma :: vma

definition MEMORY_POOL_SIZE :: nat where "MEMORY_POOL_SIZE = 2048"

definition memory_init :: "memory_state \<Rightarrow> memory_state" where
  "memory_init st = st\<lparr>blocks := replicate MEMORY_POOL_SIZE
       \<lparr>mb_address = 0, mb_size = 0, mb_used = False, mb_order = 0\<rparr>,
     total_size := 0, used_size := 0, alloc_count := 0, free_count := 0,
     kernel_vma := the (vma_init (Some (kernel_vma st)))\<rparr>"

subsection \<open>Allocation\<close>

text \<open>The order loop \<open>while (s > MEMORY_BLOCK_SIZE) { s >>= 1; order++; }\<close>.\<close>

function block_order :: "nat \<Rightarrow> nat" where
  "block_order s = (if s > 4096 then Suc (block_order (s div 2)) else 0)"
  by pat_completeness auto
termination
  by (relation "measure id") auto

declare block_order.simps [simp del]

text \<open>
  \<open>memory_alloc\<close>: reuse the first free block that is large enough, otherwise carve a new
  block at \<open>memory_start\<close> into the first unused slot.
\<close>

definition memory_reuse :: "memory_state \<Rightarrow> nat \<Rightarrow> memory_state" where
  "memory_reuse st i = st\<lparr>blocks := (blocks st)[i := (blocks st ! i)\<lparr>mb_used := True\<rparr>],
     used_size := used_size st + mb_size (blocks st ! i),
     alloc_count := alloc_count st + 1\<rparr>"

definition memory_carve :: "memory_state \<Rightarrow> nat \<Rightarrow> u64 \<Rightarrow> memory_state" where
  "memory_carve st i aligned = st\<lparr>blocks := (blocks st)[i :=
       \<lparr>mb_address = memory_start st, mb_size = aligned, mb_used = True,
        mb_order = of_nat (block_order (unat aligned))\<rparr>],
     memory_start := memory_start st + aligned,
     total_size := total_size st + aligned,
     used_size := used_size st + aligned,
     alloc_count := alloc_count st + 1\<rparr>"

definition memory_alloc :: "memory_state \<Rightarrow> u64 \<Rightarrow> u64 \<times> memory_state" where
  "memory_alloc st sz =
     (if sz = 0 then (0, st)
      else let aligned = align_page sz in
        case find_idx (\<lambda>b. \<not> mb_used b \<and> aligned \<le> mb_size b) (blocks st) of
          Some i \<Rightarrow> (mb_address (blocks st ! i), memory_reuse st i)
        | None \<Rightarrow>
            if memory_start st + aligned > 0x100000000 then (0, st)
            else case find_idx (\<lambda>b. \<not> mb_used b) (blocks st) of
                Some i \<Rightarrow> (memory_start st, memory_carve st i aligned)
              | None \<Rightarrow> (0, st))"

definition memory_free :: "memory_state \<Rightarrow> u64 \<Rightarrow> memory_state" where
  "memory_free st p =
     (if p = 0 then st
      else case find_idx (\<lambda>b. mb_address b = p) (blocks st) of
          None \<Rightarrow> st
        | Some i \<Rightarrow> st\<lparr>used_size := used_size st - mb_size (blocks st ! i),
            blocks := (blocks st)[i := (blocks st ! i)\<lparr>mb_used := False\<rparr>],
            free_count := free_count st + 1\<rparr>)"

definition memory_get_free :: "memory_state \<Rightarrow> u64" where
  "memory_get_free st = total_size st - used_size st"

definition memory_get_total :: "memory_state \<Rightarrow> u64" where
  "memory_get_total st = total_size st"

definition memory_alloc_aligned :: "memory_state \<Rightarrow> u64 \<Rightarrow> u64 \<Rightarrow> u64 \<times> memory_state" where
  "memory_alloc_aligned st sz alignment =
     (if alignment \<le> 4096 then memory_alloc st sz
      else let (raw, st') = memory_alloc st (sz + alignment + 4096) in
        if raw = 0 then (0, st')
        else ((raw + 4096 + alignment - 1) AND NOT (alignment - 1), st'))"

text \<open>
  \<open>memory_zalloc\<close> and \<open>memory_realloc\<close> also write the flat memory \<open>m\<close>: the former
  clears the block, the latter copies the old contents before freeing them.
\<close>

definition memory_zalloc ::
  "(nat \<Rightarrow> u8) \<Rightarrow> memory_state \<Rightarrow> u64 \<Rightarrow> u64 \<times> (nat \<Rightarrow> u8) \<times> memory_state" where
  "memory_zalloc m st sz =
     (let (p, st') = memory_alloc st sz in
      (p, if p \<noteq> 0 then (\<lambda>a. if unat p \<le> a \<and> a < unat p + unat sz then 0 else m a) else m, st'))"

definition memory_realloc ::
  "(nat \<Rightarrow> u8) \<Rightarrow> memory_state \<Rightarrow> u64 \<Rightarrow> u64 \<Rightarrow> u64 \<Rightarrow> u64 \<times> (nat \<Rightarrow> u8) \<times> memory_state" where
  "memory_realloc m st p old_size new_size =
     (if p = 0 then (let (q, st') = memory_alloc st new_size in (q, m, st'))
      else if new_size = 0 then (0, m, memory_free st p)
      else let (q, st') = memory_alloc st new_size in
        if q = 0 then (0, m, st')
        else (q, memmove_up m (unat q) (unat p) (unat (if old_size < new_size then old_size else new_size)),
              memory_free st' p))"

definition memory_alloc_physical :: "memory_state \<Rightarrow> u64 \<Rightarrow> u64 \<times> memory_state" where
  "memory_alloc_physical st cnt = memory_alloc st (cnt * 4096)"

definition memory_free_physical :: "memory_state \<Rightarrow> u64 \<Rightarrow> u64 \<Rightarrow> memory_state" where
  "memory_free_physical st addr cnt = memory_free st addr"

definition memory_get_stats :: "memory_state \<Rightarrow> u64 \<times> u64 \<times> u64 \<times> u64" where
  "memory_get_stats st = (total_size st, total_size st - used_size st, alloc_count st, free_count st)"

subsection \<open>The pool invariant\<close>

text \<open>
  Blocks that were ever carved lie between \<open>0x100000\<close> and \<open>memory_start\<close>, do not
  overlap and are page sized; the two counters are the sums they claim to be. Slots
  never carved have size 0 and are free. Ranges are read as natural numbers.
\<close>

abbreviation blo :: "memory_block \<Rightarrow> nat" where "blo b \<equiv> unat (mb_address b)"
abbreviation bsz :: "memory_block \<Rightarrow> nat" where "bsz b \<equiv> unat (mb_size b)"

definition used_bytes :: "memory_block \<Rightarrow> nat" where
  "used_bytes b = (if mb_used b then bsz b else 0)"

definition block_ok :: "nat \<Rightarrow> memory_block \<Rightarrow> bool" where
  "block_ok hi b \<longleftrightarrow>
     (if mb_size b = 0 then mb_address b = 0 \<and> \<not> mb_used b
      else 0x100000 \<le> blo b \<and> 4096 dvd blo b \<and> 4096 dvd bsz b \<and> blo b + bsz b \<le> hi)"

definition apart :: "memory_block \<Rightarrow> memory_block \<Rightarrow> bool" where
  "apart b c \<longleftrightarrow> bsz b = 0 \<or> bsz c = 0 \<or> blo b + bsz b \<le> blo c \<or> blo c + bsz c \<le> blo b"

definition pool_inv :: "memory_state \<Rightarrow> bool" where
  "pool_inv st \<longleftrightarrow>
     length (blocks st) = MEMORY_POOL_SIZE \<and>
     (\<forall>b \<in> set (blocks st). block_ok (unat (memory_start st)) b) \<and>
     (\<forall>i < length (blocks st). \<forall>j < length (blocks st). i \<noteq> j \<longrightarrow> apart (blocks st ! i) (blocks st ! j)) \<and>
     0x100000 \<le> unat (memory_start st) \<and> unat (memory_start st) \<le> 2 ^ 32 \<and>
     4096 dvd unat (memory_start st) \<and>
     unat (total_size st) = unat (memory_start st) - 0x100000 \<and>
     sum_list (map bsz (blocks st)) \<le> unat (total_size st) \<and>
     unat (used_size st) = sum_list (map used_bytes (blocks st))"

lemma apart_commute: "apart b c \<longleftrightarrow> apart c b"
  by (auto simp: apart_def)

lemma apart_used [simp]: "apart (b\<lparr>mb_used := u\<rparr>) c = apart b c" "apart c (b\<lparr>mb_used := u\<rparr>) = apart c b"
  by (auto simp: apart_def)

lemma pool_inv_init:
  "memory_start st = 0x100000 \<Longrightarrow> pool_inv (memory_init st)"
  by (simp add: pool_inv_def memory_init_def block_ok_def apart_def used_bytes_def sum_list_replicate)

lemma used_le_sizes: "sum_list (map used_bytes bs) \<le> sum_list (map bsz bs)"
  by (induction bs) (auto simp: used_bytes_def)

lemma sum_update_used:
  assumes "i < length bs"
  shows "sum_list (map f (bs[i := b])) + f (bs ! i) = sum_list (map f bs) + (f b :: nat)"
  using sum_list_update_nat[of i "map f bs" "f b"] assms by (simp add: map_update)

text \<open>A free slot may be taken again: only its \<open>used\<close> bit and the counters change.\<close>

lemma pool_inv_reuse:
  assumes inv: "pool_inv st" and i: "i < length (blocks st)"
    and free: "\<not> mb_used (blocks st ! i)" and nz: "mb_size (blocks st ! i) \<noteq> 0"
  shows "pool_inv (memory_reuse st i)"
proof -
  let ?b = "blocks st ! i" and ?bs = "blocks st"
  let ?bs' = "?bs[i := ?b\<lparr>mb_used := True\<rparr>]"
  have sizes: "map bsz ?bs' = map bsz ?bs"
    by (rule nth_equalityI) (auto simp: nth_list_update i)
  have used: "sum_list (map used_bytes ?bs') = sum_list (map used_bytes ?bs) + bsz ?b"
    using sum_update_used[OF i, of used_bytes "?b\<lparr>mb_used := True\<rparr>"] free
    by (simp add: used_bytes_def)
  have "sum_list (map used_bytes ?bs') \<le> sum_list (map bsz ?bs)"
    using used_le_sizes[of ?bs'] sizes by simp
  also have "\<dots> < 2 ^ 64"
    using inv by (auto simp: pool_inv_def)
  finally have "unat (used_size st + mb_size ?b) = sum_list (map used_bytes ?bs')"
    using used inv by (subst unat_add_noof) (auto simp: pool_inv_def)
  moreover have "block_ok (unat (memory_start st)) (?b\<lparr>mb_used := True\<rparr>)"
    using inv i nz by (auto simp: pool_inv_def block_ok_def)
  ultimately show ?thesis
    using inv i sizes
    by (auto simp: pool_inv_def memory_reuse_def nth_list_update dest!: subsetD[OF set_update_subset_insert])
qed

text \<open>A new block is carved at the top: above every block, below 4 GiB.\<close>

lemma pool_inv_carve:
  assumes inv: "pool_inv st" and i: "i < length (blocks st)" and free: "\<not> mb_used (blocks st ! i)"
    and al: "4096 dvd unat a" "a \<noteq> 0" and fits: "unat (memory_start st) + unat a \<le> 2 ^ 32"
  shows "pool_inv (memory_carve st i a)"
proof -
  let ?bs = "blocks st" and ?s = "memory_start st"
  let ?n = "\<lparr>mb_address = ?s, mb_size = a, mb_used = True, mb_order = of_nat (block_order (unat a))\<rparr>"
  let ?bs' = "?bs[i := ?n]"
  have top: "unat (?s + a) = unat ?s + unat a"
    using fits by (subst unat_add_noof) auto
  have sizes: "sum_list (map bsz ?bs') + bsz (?bs ! i) = sum_list (map bsz ?bs) + unat a"
    using sum_update_used[OF i, of bsz ?n] by simp
  have used: "sum_list (map used_bytes ?bs') = sum_list (map used_bytes ?bs) + unat a"
    using sum_update_used[OF i, of used_bytes ?n] free by (simp add: used_bytes_def)
  have tot: "unat (total_size st + a) = unat (total_size st) + unat a"
    using inv fits by (subst unat_add_noof) (auto simp: pool_inv_def)
  have le: "sum_list (map used_bytes ?bs) \<le> unat (total_size st)"
    using inv used_le_sizes[of ?bs] by (simp add: pool_inv_def)
  then have us: "unat (used_size st + a) = unat (used_size st) + unat a"
    using inv fits by (subst unat_add_noof) (auto simp: pool_inv_def)
  have old: "block_ok (unat ?s + unat a) b" if "b \<in> set ?bs" for b
    using inv that by (auto simp: pool_inv_def block_ok_def split: if_splits)
  have new: "block_ok (unat ?s + unat a) ?n"
    using inv al by (auto simp: pool_inv_def block_ok_def)
  have ap: "apart ?n (?bs ! j)" if "j < length ?bs" for j
  proof -
    have "block_ok (unat ?s) (?bs ! j)"
      using inv that by (simp add: pool_inv_def)
    then show ?thesis
      by (auto simp: apart_def block_ok_def split: if_splits)
  qed
  have "apart (?bs' ! k) (?bs' ! j)" if "k < length ?bs" "j < length ?bs" "k \<noteq> j" for k j
    using that ap[of k] ap[of j] inv i apart_commute[of _ ?n]
    by (cases "k = i"; cases "j = i") (auto simp: pool_inv_def)
  moreover have "block_ok (unat (?s + a)) b" if "b \<in> set ?bs'" for b
    using subsetD[OF set_update_subset_insert that] old new top by auto
  ultimately show ?thesis
    using inv fits top tot us sizes used al
    by (auto simp: pool_inv_def memory_carve_def)
qed

text \<open>What one successful allocation does, on both of its paths.\<close>

lemma memory_alloc_cases:
  assumes inv: "pool_inv st" and sz: "sz \<noteq> 0" "unat sz \<le> 2 ^ 32"
  obtains (fail) "memory_alloc st sz = (0, st)"
  | (take) i where "i < length (blocks st)" "\<not> mb_used (blocks st ! i)"
      "align_page sz \<le> mb_size (blocks st ! i)" "mb_size (blocks st ! i) \<noteq> 0"
      "memory_alloc st sz = (mb_address (blocks st ! i), memory_reuse st i)"
  | (carve) i where "i < length (blocks st)" "\<not> mb_used (blocks st ! i)"
      "unat (memory_start st) + unat (align_page sz) \<le> 2 ^ 32"
      "\<And>j. j < length (blocks st) \<Longrightarrow> \<not> mb_used (blocks st ! j) \<Longrightarrow> mb_size (blocks st ! j) < align_page sz"
      "memory_alloc st sz = (memory_start st, memory_carve st i (align_page sz))"
proof -
  let ?a = "align_page sz"
  let ?P = "\<lambda>b. \<not> mb_used b \<and> ?a \<le> mb_size b"
  have "unat sz \<le> unat ?a"
    using sz by (intro align_page_ge) auto
  then have nz: "?a \<noteq> 0"
    using sz by auto
  have "unat ?a \<le> 2 ^ 32 + 4095"
    using sz unat_align_page[of sz] by simp
  then have sum: "unat (memory_start st + ?a) = unat (memory_start st) + unat ?a"
    using inv by (subst unat_add_noof) (auto simp: pool_inv_def)
  show thesis
  proof (cases "find_idx ?P (blocks st)")
    case (Some i)
    have "0 < mb_size (blocks st ! i)"
      using find_idxD(2)[OF Some] nz unat_gt_0[of ?a] by (auto simp: word_less_nat_alt word_le_nat_alt)
    then show thesis
      using find_idxD[OF Some] Some sz take by (auto simp: memory_alloc_def Let_def)
  next
    case None
    then have small: "\<And>j. j < length (blocks st) \<Longrightarrow> \<not> mb_used (blocks st ! j) \<Longrightarrow> mb_size (blocks st ! j) < ?a"
      by (auto simp: find_idx_None not_le)
    show thesis
    proof (cases "memory_start st + ?a > 0x100000000")
      case True
      then show thesis
        using None sz fail by (simp add: memory_alloc_def Let_def)
    next
      case False
      then have fits: "unat (memory_start st) + unat ?a \<le> 2 ^ 32"
        using sum by (simp add: word_le_nat_alt not_less)
      show thesis
      proof (cases "find_idx (\<lambda>b. \<not> mb_used b) (blocks st)")
        case None
        then show thesis
          using \<open>find_idx ?P (blocks st) = None\<close> False sz fail by (simp add: memory_alloc_def Let_def)
      next
        case (Some i)
        show thesis
        proof (rule carve)
          show "memory_alloc st sz = (memory_start st, memory_carve st i ?a)"
            using Some None False sz by (simp add: memory_alloc_def Let_def)
        qed (use find_idxD[OF Some] fits small in auto)
      qed
    qed
  qed
qed

lemma memory_alloc_inv:
  assumes "pool_inv st" and "unat sz \<le> 2 ^ 32"
  shows "pool_inv (snd (memory_alloc st sz))"
proof (cases "sz = 0")
  case True
  then show ?thesis using assms by (simp add: memory_alloc_def)
next
  case False
  have al: "4096 dvd unat (align_page sz)" "align_page sz \<noteq> 0"
    using assms(2) False align_page_dvd[of sz] align_page_ge[of sz] by auto
  from assms(1) False assms(2) show ?thesis
    by (cases rule: memory_alloc_cases) (use assms(1) al pool_inv_reuse pool_inv_carve in auto)
qed

text \<open>
  The block handed out: it was free, it is used afterwards, it is large enough, and every
  block that was in use before is untouched and lies elsewhere.
\<close>

lemma memory_alloc_block:
  assumes inv: "pool_inv st" and sz: "unat sz \<le> 2 ^ 32"
    and ret: "memory_alloc st sz = (p, st')" and nn: "p \<noteq> 0"
  obtains i where "i < length (blocks st)" "\<not> mb_used (blocks st ! i)"
    "mb_used (blocks st' ! i)" "mb_address (blocks st' ! i) = p" "unat sz \<le> bsz (blocks st' ! i)"
    "\<And>j. j < length (blocks st) \<Longrightarrow> j \<noteq> i \<Longrightarrow> blocks st' ! j = blocks st ! j"
    "length (blocks st') = length (blocks st)"
    "used_size st' = used_size st + mb_size (blocks st' ! i)"
proof -
  have nz: "sz \<noteq> 0"
    using ret nn by (auto simp: memory_alloc_def)
  have ge: "unat sz \<le> unat (align_page sz)"
    using sz by (intro align_page_ge) auto
  from inv nz sz show thesis
  proof (cases rule: memory_alloc_cases)
    case fail
    then show thesis using ret nn by simp
  next
    case (take i)
    then show thesis
      using ret ge by (intro that[of i]) (auto simp: memory_reuse_def word_le_nat_alt)
  next
    case (carve i)
    then show thesis
      using ret ge by (intro that[of i]) (auto simp: memory_carve_def)
  qed
qed

text \<open>Freeing a block in use gives its bytes back and keeps the invariant.\<close>

lemma memory_free_inv:
  assumes inv: "pool_inv st" and i: "i < length (blocks st)" and used: "mb_used (blocks st ! i)"
  defines "st' \<equiv> memory_free st (mb_address (blocks st ! i))"
  shows "pool_inv st'" "unat (used_size st') = unat (used_size st) - bsz (blocks st ! i)"
    "\<not> mb_used (blocks st' ! i)" "\<And>j. j \<noteq> i \<Longrightarrow> blocks st' ! j = blocks st ! j"
proof -
  let ?b = "blocks st ! i" and ?bs = "blocks st"
  let ?bs' = "?bs[i := ?b\<lparr>mb_used := False\<rparr>]"
  have ok: "\<And>j. j < length ?bs \<Longrightarrow> block_ok (unat (memory_start st)) (?bs ! j)"
    using inv by (auto simp: pool_inv_def)
  have b: "mb_size ?b \<noteq> 0" "mb_address ?b \<noteq> 0"
    using ok[OF i] used by (auto simp: block_ok_def split: if_splits)
  have "mb_address (?bs ! j) \<noteq> mb_address ?b" if "j < length ?bs" "j \<noteq> i" for j
    using inv that i b ok[OF that(1)]
    by (fastforce simp: pool_inv_def apart_def block_ok_def split: if_splits)
  then have find: "find_idx (\<lambda>c. mb_address c = mb_address ?b) ?bs = Some i"
    using i by (auto simp: find_idx_Some)
  then have st': "st' = st\<lparr>used_size := used_size st - mb_size ?b, blocks := ?bs',
      free_count := free_count st + 1\<rparr>"
    using b by (simp add: st'_def memory_free_def)
  have sizes: "map bsz ?bs' = map bsz ?bs"
    by (rule nth_equalityI) (auto simp: nth_list_update i)
  have su: "sum_list (map used_bytes ?bs') + bsz ?b = sum_list (map used_bytes ?bs)"
    using sum_update_used[OF i, of used_bytes "?b\<lparr>mb_used := False\<rparr>"] used
    by (simp add: used_bytes_def)
  then have us: "unat (used_size st - mb_size ?b) = sum_list (map used_bytes ?bs')"
    using inv by (subst unat_sub) (auto simp: pool_inv_def word_le_nat_alt)
  have "block_ok (unat (memory_start st)) (?b\<lparr>mb_used := False\<rparr>)"
    using ok[OF i] by (auto simp: block_ok_def split: if_splits)
  then show "pool_inv st'"
    using inv i sizes us
    by (auto simp: st' pool_inv_def nth_list_update dest!: subsetD[OF set_update_subset_insert])
  show "unat (used_size st') = unat (used_size st) - bsz ?b"
    using us su inv by (simp add: st' pool_inv_def)
  show "\<not> mb_used (blocks st' ! i)" and "\<And>j. j \<noteq> i \<Longrightarrow> blocks st' ! j = ?bs ! j"
    using i by (auto simp: st')
qed

text \<open>Two blocks in use never overlap.\<close>

lemma pool_used_apart:
  assumes "pool_inv st" "i < length (blocks st)" "j < length (blocks st)" "i \<noteq> j"
    and "mb_used (blocks st ! i)" "mb_used (blocks st ! j)"
  shows "blo (blocks st ! i) + bsz (blocks st ! i) \<le> blo (blocks st ! j) \<or>
         blo (blocks st ! j) + bsz (blocks st ! j) \<le> blo (blocks st ! i)"
proof -
  have "apart (blocks st ! i) (blocks st ! j)"
    using assms(1-4) by (simp add: pool_inv_def)
  moreover have "block_ok (unat (memory_start st)) (blocks st ! i)"
    "block_ok (unat (memory_start st)) (blocks st ! j)"
    using assms(1-3) by (simp_all add: pool_inv_def)
  ultimately show ?thesis
    using assms(5,6) by (auto simp: apart_def block_ok_def split: if_splits)
qed

subsection \<open>Properties\<close>

definition boot_memory :: memory_state where
  "boot_memory = memory_init \<lparr>blocks = [], total_size = 0, used_size = 0, alloc_count = 0,
     free_count = 0, memory_start = 0x100000,
     kernel_vma = \<lparr>regions = [], vma_count = 0, heap_start = 0, heap_end = 0, stack_top = 0\<rparr>\<rparr>"

lemma boot_memory_inv: "pool_inv boot_memory"
  by (simp add: boot_memory_def pool_inv_init)

lemma boot_memory_alloc:
  "memory_alloc boot_memory 5000 = (0x100000, memory_carve boot_memory 0 8192)"
  by (simp add: memory_alloc_def boot_memory_def memory_init_def MEMORY_POOL_SIZE_def align_page_def)

lemma boot_memory_alloc4:
  "memory_alloc boot_memory 4 = (0x100000, memory_carve boot_memory 0 4096)"
proof -
  have "align_page 4 = 4096" by (simp add: align_page_def)
  then show ?thesis
    by (simp add: memory_alloc_def boot_memory_def memory_init_def MEMORY_POOL_SIZE_def)
qed

text \<open>
  C4. A successful \<open>memory_alloc\<close> of at most 4 GiB keeps the pool invariant and hands out a
  block that was free, is now marked used, starts at the returned address and holds the
  requested size; every block that was in use before the call is unchanged and its range
  does not meet the range handed out.
\<close>

theorem memory_alloc_fresh:
  assumes "pool_inv st" and "unat sz \<le> 2 ^ 32" and "memory_alloc st sz = (p, st')" and "p \<noteq> 0"
  shows "pool_inv st' \<and>
    (\<exists>i < length (blocks st). \<not> mb_used (blocks st ! i) \<and> mb_used (blocks st' ! i) \<and>
       mb_address (blocks st' ! i) = p \<and> unat sz \<le> bsz (blocks st' ! i) \<and>
       (\<forall>j < length (blocks st). mb_used (blocks st ! j) \<longrightarrow>
          blocks st' ! j = blocks st ! j \<and>
          (unat p + bsz (blocks st' ! i) \<le> blo (blocks st ! j) \<or>
           blo (blocks st ! j) + bsz (blocks st ! j) \<le> unat p)))"
proof -
  have inv': "pool_inv st'"
    using memory_alloc_inv[OF assms(1,2)] assms(3) by simp
  obtain i where i: "i < length (blocks st)" "\<not> mb_used (blocks st ! i)"
    "mb_used (blocks st' ! i)" "mb_address (blocks st' ! i) = p" "unat sz \<le> bsz (blocks st' ! i)"
    "\<And>j. j < length (blocks st) \<Longrightarrow> j \<noteq> i \<Longrightarrow> blocks st' ! j = blocks st ! j"
    "length (blocks st') = length (blocks st)"
    using memory_alloc_block[OF assms] by metis
  have "blocks st' ! j = blocks st ! j \<and>
      (unat p + bsz (blocks st' ! i) \<le> blo (blocks st ! j) \<or>
       blo (blocks st ! j) + bsz (blocks st ! j) \<le> unat p)"
    if j: "j < length (blocks st)" "mb_used (blocks st ! j)" for j
  proof -
    have ne: "i \<noteq> j" using i(2) j(2) by blast
    then have same: "blocks st' ! j = blocks st ! j" using i(6) j(1) by simp
    show ?thesis
      using pool_used_apart[OF inv' _ _ ne] i(1,3,4,7) j same by simp
  qed
  then show ?thesis
    using inv' i(1-5) by blast
qed

theorem memory_alloc_fresh_witness:
  "pool_inv boot_memory \<and> unat (5000 :: u64) \<le> 2 ^ 32 \<and>
   memory_alloc boot_memory 5000 = (0x100000, memory_carve boot_memory 0 8192) \<and>
   pool_inv (memory_carve boot_memory 0 8192)"
  using memory_alloc_fresh[OF boot_memory_inv _ boot_memory_alloc] boot_memory_inv boot_memory_alloc
  by simp

text \<open>
  Freeing what \<open>memory_alloc\<close> returned gives the bytes back: the used-byte counter is
  again what it was before the allocation, the invariant holds, and every block that was
  in use before the allocation is still there unchanged.
\<close>

theorem memory_alloc_free_roundtrip:
  assumes "pool_inv st" and "unat sz \<le> 2 ^ 32" and "memory_alloc st sz = (p, st')" and "p \<noteq> 0"
  shows "pool_inv (memory_free st' p) \<and> used_size (memory_free st' p) = used_size st \<and>
    (\<forall>j < length (blocks st). mb_used (blocks st ! j) \<longrightarrow>
       blocks (memory_free st' p) ! j = blocks st ! j)"
proof -
  have inv': "pool_inv st'"
    using memory_alloc_inv[OF assms(1,2)] assms(3) by simp
  obtain i where i: "i < length (blocks st)" "\<not> mb_used (blocks st ! i)"
    "mb_used (blocks st' ! i)" "mb_address (blocks st' ! i) = p"
    "\<And>j. j < length (blocks st) \<Longrightarrow> j \<noteq> i \<Longrightarrow> blocks st' ! j = blocks st ! j"
    "length (blocks st') = length (blocks st)" "used_size st' = used_size st + mb_size (blocks st' ! i)"
    using memory_alloc_block[OF assms] by metis
  have il: "i < length (blocks st')" using i by simp
  note f = memory_free_inv[OF inv' il i(3), unfolded i(4)]
  have "bsz (blocks st' ! i) \<le> unat (used_size st')"
  proof -
    have "used_bytes (blocks st' ! i) \<le> sum_list (map used_bytes (blocks st'))"
      using il by (intro member_le_sum_list) auto
    then show ?thesis
      using inv' i(3) by (simp add: pool_inv_def used_bytes_def)
  qed
  then have "unat (used_size (memory_free st' p)) = unat (used_size st' - mb_size (blocks st' ! i))"
    using f(2) by (simp add: unat_sub word_le_nat_alt)
  then have "used_size (memory_free st' p) = used_size st"
    using i(7) by (simp add: word_unat_eq_iff)
  moreover have "blocks (memory_free st' p) ! j = blocks st ! j"
    if "j < length (blocks st)" "mb_used (blocks st ! j)" for j
    using that f(4)[of j] i(2) i(5)[of j] by (cases "j = i") auto
  ultimately show ?thesis
    using f(1) by blast
qed

theorem memory_alloc_free_roundtrip_witness:
  "memory_alloc boot_memory 5000 = (0x100000, memory_carve boot_memory 0 8192) \<and>
   used_size (memory_free (memory_carve boot_memory 0 8192) 0x100000) = used_size boot_memory"
  using memory_alloc_free_roundtrip[OF boot_memory_inv _ boot_memory_alloc] boot_memory_alloc
  by simp

end
