(* ===== verification/Byte_Queue.thy ===== *)
theory Byte_Queue
  imports Libc_String
begin

section \<open>Bounded byte queues: the contract and circular buffers\<close>

text \<open>
  Two components of the kernel keep bytes in a circular buffer: the K API fifo
  (\<open>kapi_kfifo.c\<close>) and the pipe (\<open>fifo.c\<close>). This theory states once what such a
  component promises (the locale \<open>byte_queue\<close>), proves once what a client may conclude
  from it (no byte is lost, duplicated or reordered over any sequence of puts and gets)
  and holds the index lemmas of a copy that wraps around the end of the buffer.
\<close>

subsection \<open>Reading and writing around the end\<close>

definition ring_read :: "'a list \<Rightarrow> nat \<Rightarrow> nat \<Rightarrow> 'a list" where
  "ring_read a s n = map (\<lambda>i. a ! ((s + i) mod length a)) [0..<n]"

lemma length_ring_read [simp]: "length (ring_read a s n) = n"
  by (simp add: ring_read_def)

lemma ring_read_0 [simp]: "ring_read a s 0 = []"
  by (simp add: ring_read_def)

lemma ring_read_mod [ring_simps]: "ring_read a (s mod length a) n = ring_read a s n"
  by (simp add: ring_read_def mod_add_left_eq)

lemma nth_ring_read: "i < n \<Longrightarrow> ring_read a s n ! i = a ! ((s + i) mod length a)"
  by (simp add: ring_read_def)

lemma take_ring_read [ring_simps]: "k \<le> n \<Longrightarrow> take k (ring_read a s n) = ring_read a s k"
  by (simp add: ring_read_def take_map)

lemma drop_ring_read [ring_simps]: "drop k (ring_read a s n) = ring_read a (s + k) (n - k)"
  by (rule nth_equalityI) (auto simp: nth_ring_read add.assoc)

text \<open>The two copies of a wrapped read deliver the ring contents in order.\<close>

lemma ring_read_split:
  assumes "s < length a" "l \<le> length a"
  shows "ring_read a s l =
    (if s + l > length a then drop s a @ take (l - (length a - s)) a else take l (drop s a))"
proof (rule nth_equalityI)
  fix i assume "i < length (ring_read a s l)"
  then have i: "i < l" by simp
  have wrap: "(s + i) mod length a = s + i - length a" if "s + i \<ge> length a"
    using that assms i by (simp add: mod_if)
  show "ring_read a s l ! i =
    (if s + l > length a then drop s a @ take (l - (length a - s)) a else take l (drop s a)) ! i"
  proof (cases "s + i < length a")
    case True
    then show ?thesis using i assms by (auto simp: nth_ring_read nth_append)
  next
    case False
    then show ?thesis using i assms wrap by (auto simp: nth_ring_read nth_append add.commute)
  qed
qed (use assms in auto)

text \<open>The two copies of a wrapped write, and what each position of the buffer holds after them.\<close>

definition ring_write :: "u8 list \<Rightarrow> nat \<Rightarrow> u8 list \<Rightarrow> nat \<Rightarrow> u8 list" where
  "ring_write a s xs l =
     (if s + l > length a
      then memcpy (memcpy a s xs 0 (length a - s)) 0 xs (length a - s) (l - (length a - s))
      else memcpy a s xs 0 l)"

lemma length_ring_write [simp]: "length (ring_write a s xs l) = length a"
  by (simp add: ring_write_def)

lemma nth_ring_write:
  assumes s: "s < length a" and l: "l \<le> length a" "l \<le> length xs" and j: "j < length a"
  shows "ring_write a s xs l ! ((s + j) mod length a) =
    (if j < l then xs ! j else a ! ((s + j) mod length a))"
proof -
  let ?n = "length a"
  have pos: "(s + j) mod ?n = (if s + j < ?n then s + j else s + j - ?n)"
    using s j by (simp add: mod_if)
  show ?thesis
  proof (cases "s + l > ?n")
    case True
    have "memcpy a s xs 0 (?n - s) = take s a @ take (?n - s) xs"
      using True s l by (subst memcpy_eq) auto
    then have w: "ring_write a s xs l =
        take (l - (?n - s)) (drop (?n - s) xs) @ drop (l - (?n - s)) (take s a @ take (?n - s) xs)"
      using True s l by (simp add: ring_write_def) (subst memcpy_eq, auto)
    show ?thesis
      unfolding w pos using True s l j by (auto simp: nth_append)
  next
    case False
    then have w: "ring_write a s xs l = take s a @ take l xs @ drop (s + l) a"
      using s l by (simp add: ring_write_def memcpy_eq)
    show ?thesis
      unfolding w pos using False s l j by (auto simp: nth_append)
  qed
qed

lemma ring_read_write:
  assumes "length a \<noteq> 0" "n + l \<le> length a" "l \<le> length xs"
  shows "ring_read (ring_write a ((r + n) mod length a) xs l) r (n + l) = ring_read a r n @ take l xs"
proof (rule nth_equalityI)
  let ?N = "length a" and ?s = "(r + n) mod length a"
  fix i assume "i < length (ring_read (ring_write a ?s xs l) r (n + l))"
  then have i: "i < n + l" by simp
  have s: "?s < ?N" using assms(1) by simp
  show "ring_read (ring_write a ?s xs l) r (n + l) ! i = (ring_read a r n @ take l xs) ! i"
  proof (cases "i < n")
    case True
    let ?j = "?N - n + i"
    have "(?s + ?j) mod ?N = (r + n + ?j) mod ?N"
      by (simp add: mod_add_left_eq)
    also have "r + n + ?j = r + i + ?N"
      using assms True by simp
    finally have pos: "(r + i) mod ?N = (?s + ?j) mod ?N"
      by simp
    show ?thesis
      using nth_ring_write[OF s, of l xs ?j] True i assms pos
      by (auto simp: nth_ring_read nth_append)
  next
    case False
    have pos: "(r + i) mod ?N = (?s + (i - n)) mod ?N"
      using False mod_add_left_eq[of "r + n" ?N "i - n"] by simp
    show ?thesis
      using nth_ring_write[OF s, of l xs "i - n"] False i assms pos
      by (auto simp: nth_ring_read nth_append)
  qed
qed (use assms in auto)

subsection \<open>The contract\<close>

text \<open>
  A put offers a list and says how many elements were taken; a get asks for a number and
  returns what it got. Requests are below \<open>limit\<close> (the range of the length argument).
\<close>

datatype 'a queue_op = Put "'a list" | Get nat

fun queue_run ::
  "('q \<Rightarrow> 'a list \<Rightarrow> nat \<times> 'q) \<Rightarrow> ('q \<Rightarrow> nat \<Rightarrow> 'a list \<times> 'q) \<Rightarrow> 'q \<Rightarrow> 'a queue_op list \<Rightarrow>
   'a list \<times> 'a list \<times> 'q" where
  "queue_run enq deq q [] = ([], [], q)"
| "queue_run enq deq q (Put xs # ops) =
     (let (n, q') = enq q xs; (ins, outs, q'') = queue_run enq deq q' ops
      in (take n xs @ ins, outs, q''))"
| "queue_run enq deq q (Get n # ops) =
     (let (ys, q') = deq q n; (ins, outs, q'') = queue_run enq deq q' ops
      in (ins, ys @ outs, q''))"

fun op_len :: "'a queue_op \<Rightarrow> nat" where
  "op_len (Put xs) = length xs"
| "op_len (Get n) = n"

locale byte_queue =
  fixes invar :: "'q \<Rightarrow> bool"
    and contents :: "'q \<Rightarrow> 'a list"
    and capacity :: "'q \<Rightarrow> nat"
    and limit :: nat
    and enq :: "'q \<Rightarrow> 'a list \<Rightarrow> nat \<times> 'q"
    and deq :: "'q \<Rightarrow> nat \<Rightarrow> 'a list \<times> 'q"
  assumes bounded: "invar q \<Longrightarrow> length (contents q) \<le> capacity q"
    and enq_count: "invar q \<Longrightarrow> length xs < limit \<Longrightarrow>
      fst (enq q xs) = min (length xs) (capacity q - length (contents q))"
    and enq_contents: "invar q \<Longrightarrow> length xs < limit \<Longrightarrow>
      contents (snd (enq q xs)) = contents q @ take (fst (enq q xs)) xs"
    and enq_invar: "invar q \<Longrightarrow> length xs < limit \<Longrightarrow> invar (snd (enq q xs))"
    and deq_data: "invar q \<Longrightarrow> n < limit \<Longrightarrow> fst (deq q n) = take n (contents q)"
    and deq_contents: "invar q \<Longrightarrow> n < limit \<Longrightarrow> contents (snd (deq q n)) = drop n (contents q)"
    and deq_invar: "invar q \<Longrightarrow> n < limit \<Longrightarrow> invar (snd (deq q n))"
begin

lemma run_invar:
  "invar q \<Longrightarrow> \<forall>x \<in> set ops. op_len x < limit \<Longrightarrow> invar (snd (snd (queue_run enq deq q ops)))"
proof (induction ops arbitrary: q)
  case (Cons x ops)
  show ?case
  proof (cases x)
    case (Put xs)
    then show ?thesis
      using Cons.IH[of "snd (enq q xs)"] Cons.prems enq_invar[of q xs]
      by (auto simp: split_beta Let_def)
  next
    case (Get n)
    then show ?thesis
      using Cons.IH[of "snd (deq q n)"] Cons.prems deq_invar[of q n]
      by (auto simp: split_beta Let_def)
  qed
qed simp

text \<open>First in, first out: what came out, then what is still inside, is what went in.\<close>

lemma run_fifo:
  "invar q \<Longrightarrow> \<forall>x \<in> set ops. op_len x < limit \<Longrightarrow> queue_run enq deq q ops = (ins, outs, q') \<Longrightarrow>
   outs @ contents q' = contents q @ ins"
proof (induction ops arbitrary: q ins outs q')
  case (Cons x ops)
  show ?case
  proof (cases x)
    case (Put xs)
    obtain ins' outs' q'' where r: "queue_run enq deq (snd (enq q xs)) ops = (ins', outs', q'')"
      by (metis prod_cases3)
    show ?thesis
      using Cons.IH[OF _ _ r] Cons.prems Put r enq_invar[of q xs] enq_contents[of q xs]
      by (auto simp: split_beta Let_def)
  next
    case (Get n)
    obtain ins' outs' q'' where r: "queue_run enq deq (snd (deq q n)) ops = (ins', outs', q'')"
      by (metis prod_cases3)
    show ?thesis
      using Cons.IH[OF _ _ r] Cons.prems Get r deq_invar[of q n] deq_contents[of q n] deq_data[of q n]
        append_take_drop_id[of n "contents q"]
      by (auto simp: split_beta Let_def)
  qed
qed simp

lemma deq_after_enq:
  assumes "invar q" "length xs < limit" "length xs \<le> capacity q" "contents q = []"
  shows "fst (deq (snd (enq q xs)) (length xs)) = xs"
  using assms enq_count[of q xs] enq_contents[of q xs] enq_invar[of q xs]
    deq_data[of "snd (enq q xs)" "length xs"]
  by simp

end

end
