(* ===== verification/Kfifo.thy ===== *)
theory Kfifo
  imports Byte_Queue Memory_Pool
begin

section \<open>The K API fifo\<close>

text \<open>
  \<open>kernel/api/kapi_kfifo.c\<close>. The indices \<open>in\<close> and \<open>out\<close> are free-running 32-bit
  counters: only their difference and their low bits are used. The buffer is the address
  \<open>memory_alloc\<close> returned with the bytes stored there; a \<open>kapi_kfifo_t*\<close> or \<open>void*\<close>
  argument is an option, \<open>None\<close> being \<open>NULL\<close>.
\<close>

subsection \<open>Operations\<close>

record kapi_kfifo =
  kf_buffer :: "(u64 \<times> u8 list) option"
  kf_size :: u32
  kf_in :: u32
  kf_out :: u32

definition kapi_kfifo_len :: "kapi_kfifo option \<Rightarrow> u32" where
  "kapi_kfifo_len fp = (case fp of None \<Rightarrow> 0 | Some f \<Rightarrow> kf_in f - kf_out f)"

definition kapi_kfifo_avail :: "kapi_kfifo option \<Rightarrow> u32" where
  "kapi_kfifo_avail fp = (case fp of None \<Rightarrow> 0 | Some f \<Rightarrow> kf_size f - (kf_in f - kf_out f))"

definition kapi_kfifo_is_empty :: "kapi_kfifo option \<Rightarrow> bool" where
  "kapi_kfifo_is_empty fp = (case fp of None \<Rightarrow> True | Some f \<Rightarrow> kf_in f = kf_out f)"

definition kapi_kfifo_is_full :: "kapi_kfifo option \<Rightarrow> bool" where
  "kapi_kfifo_is_full fp = (case fp of None \<Rightarrow> False | Some f \<Rightarrow> kf_in f - kf_out f \<ge> kf_size f)"

definition kapi_kfifo_reset :: "kapi_kfifo option \<Rightarrow> kapi_kfifo option" where
  "kapi_kfifo_reset fp = map_option (\<lambda>f. f\<lparr>kf_in := 0, kf_out := 0\<rparr>) fp"

text \<open>
  The buffer is not cleared: its first contents are whatever the memory \<open>m\<close> holds at the
  address handed out.
\<close>

definition kapi_kfifo_init ::
  "(nat \<Rightarrow> u8) \<Rightarrow> memory_state \<Rightarrow> kapi_kfifo option \<Rightarrow> u32 \<Rightarrow> int \<times> kapi_kfifo option \<times> memory_state" where
  "kapi_kfifo_init m st fp sz =
     (case fp of
        None \<Rightarrow> (KAPI_EINVAL, None, st)
      | Some f \<Rightarrow>
          if sz = 0 then (KAPI_EINVAL, Some f, st)
          else let (p, st') = memory_alloc st (ucast sz) in
            if p = 0 then (KAPI_ENOMEM, Some (f\<lparr>kf_buffer := None\<rparr>), st')
            else (KAPI_OK,
                  Some \<lparr>kf_buffer = Some (p, map (\<lambda>i. m (unat p + i)) [0..<unat sz]),
                        kf_size = sz, kf_in = 0, kf_out = 0\<rparr>, st'))"

definition kapi_kfifo_free ::
  "memory_state \<Rightarrow> kapi_kfifo option \<Rightarrow> kapi_kfifo option \<times> memory_state" where
  "kapi_kfifo_free st fp =
     (case fp of
        None \<Rightarrow> (None, st)
      | Some f \<Rightarrow>
          (Some \<lparr>kf_buffer = None, kf_size = 0, kf_in = 0, kf_out = 0\<rparr>,
           case kf_buffer f of None \<Rightarrow> st | Some (p, _) \<Rightarrow> memory_free st p))"

definition kapi_kfifo_in ::
  "kapi_kfifo option \<Rightarrow> u8 list option \<Rightarrow> u32 \<Rightarrow> u32 \<times> kapi_kfifo option" where
  "kapi_kfifo_in fp buf len =
     (case (fp, buf) of
        (Some f, Some src) \<Rightarrow>
          (case kf_buffer f of
             None \<Rightarrow> (0, fp)
           | Some (p, a) \<Rightarrow>
               let avail = kapi_kfifo_avail fp;
                   l = (if len > avail then avail else len);
                   off = kf_in f AND (kf_size f - 1);
                   a' = (if off + l > kf_size f
                         then let first = kf_size f - off in
                           memcpy (memcpy a (unat off) src 0 (unat first))
                             0 src (unat first) (unat (l - first))
                         else memcpy a (unat off) src 0 (unat l))
               in (l, Some (f\<lparr>kf_buffer := Some (p, a'), kf_in := kf_in f + l\<rparr>)))
      | _ \<Rightarrow> (0, fp))"

definition kapi_kfifo_out ::
  "kapi_kfifo option \<Rightarrow> u8 list option \<Rightarrow> u32 \<Rightarrow> u32 \<times> u8 list option \<times> kapi_kfifo option" where
  "kapi_kfifo_out fp buf len =
     (case (fp, buf) of
        (Some f, Some dst) \<Rightarrow>
          (case kf_buffer f of
             None \<Rightarrow> (0, buf, fp)
           | Some (p, a) \<Rightarrow>
               let used = kapi_kfifo_len fp;
                   l = (if len > used then used else len);
                   off = kf_out f AND (kf_size f - 1);
                   dst' = (if off + l > kf_size f
                           then let first = kf_size f - off in
                             memcpy (memcpy dst 0 a (unat off) (unat first))
                               (unat first) a 0 (unat (l - first))
                           else memcpy dst 0 a (unat off) (unat l))
               in (l, Some dst', Some (f\<lparr>kf_out := kf_out f + l\<rparr>)))
      | _ \<Rightarrow> (0, buf, fp))"

subsection \<open>Invariant and abstraction\<close>

text \<open>
  The masks \<open>in & (size - 1)\<close> are positions in the buffer only when the size is a power
  of two; \<open>kapi_kfifo_init\<close> does not check that, so it is part of the invariant.
\<close>

definition kfifo_inv :: "kapi_kfifo \<Rightarrow> bool" where
  "kfifo_inv f \<longleftrightarrow>
     (\<exists>k < 32. kf_size f = 2 ^ k) \<and>
     (case kf_buffer f of None \<Rightarrow> False | Some (p, a) \<Rightarrow> length a = unat (kf_size f)) \<and>
     unat (kf_in f - kf_out f) \<le> unat (kf_size f)"

definition kfifo_bytes :: "kapi_kfifo \<Rightarrow> u8 list" where
  "kfifo_bytes f = (case kf_buffer f of None \<Rightarrow> []
     | Some (p, a) \<Rightarrow> ring_read a (unat (kf_out f)) (unat (kf_in f - kf_out f)))"

definition kfifo_put :: "kapi_kfifo \<Rightarrow> u8 list \<Rightarrow> nat \<times> kapi_kfifo" where
  "kfifo_put f xs = (let (n, f') = kapi_kfifo_in (Some f) (Some xs) (of_nat (length xs)) in (unat n, the f'))"

definition kfifo_get :: "kapi_kfifo \<Rightarrow> nat \<Rightarrow> u8 list \<times> kapi_kfifo" where
  "kfifo_get f n =
     (let (l, buf, f') = kapi_kfifo_out (Some f) (Some (replicate n 0)) (of_nat n)
      in (take (unat l) (the buf), the f'))"

lemma kfifo_invE:
  assumes "kfifo_inv f"
  obtains k p a where "k < 32" "kf_size f = 2 ^ k" "unat (kf_size f) = 2 ^ k"
    "kf_buffer f = Some (p, a)" "length a = 2 ^ k" "unat (kf_in f - kf_out f) \<le> 2 ^ k"
proof -
  obtain k where k: "k < 32" "kf_size f = 2 ^ k"
    using assms by (auto simp: kfifo_inv_def)
  have "unat (kf_size f) = 2 ^ k"
    using k by (simp add: unat_exp)
  with k assms that show thesis
    by (fastforce simp: kfifo_inv_def split: option.splits)
qed

text \<open>Free-running counters: the low bits of a sum do not see the 32-bit wrap-around.\<close>

lemma unat_add_mod_pow2:
  fixes x y :: u32
  assumes "k < 32"
  shows "unat (x + y) mod 2 ^ k = (unat x + unat y) mod 2 ^ k"
proof -
  have "(2::nat) ^ k dvd 2 ^ LENGTH(32)"
    using assms by (intro le_imp_power_dvd) simp
  then show ?thesis
    unfolding unat_word_ariths by (rule mod_mod_cancel)
qed

lemma kfifo_in_pos:
  assumes "k < 32"
  shows "unat (kf_in f) mod 2 ^ k = (unat (kf_out f) + unat (kf_in f - kf_out f)) mod 2 ^ k"
  using unat_add_mod_pow2[OF assms, of "kf_out f" "kf_in f - kf_out f"] by simp

text \<open>Offset plus length never wraps in 32 bits: both are at most half of the range.\<close>

lemma off_plus_len:
  fixes off l :: u32
  assumes "k < 32" "unat off < 2 ^ k" "unat l \<le> 2 ^ k"
  shows "unat (off + l) = unat off + unat l"
proof (rule unat_add_noof)
  have "(2::nat) ^ k \<le> 2 ^ 31"
    using assms(1) by (intro power_increasing) auto
  then show "unat off + unat l < 2 ^ LENGTH(32)"
    using assms(2,3) by simp
qed

text \<open>One put and one get on the concrete fifo, in terms of the ring.\<close>

lemma kfifo_in_eq:
  assumes inv: "kfifo_inv f" and len: "unat len \<le> length src"
  defines "l \<equiv> min (unat len) (unat (kf_size f) - length (kfifo_bytes f))"
  obtains f' where "kapi_kfifo_in (Some f) (Some src) len = (of_nat l, Some f')"
    "kfifo_inv f'" "kfifo_bytes f' = kfifo_bytes f @ take l src" "kf_size f' = kf_size f"
    "unat (of_nat l :: u32) = l"
proof -
  from inv obtain k p a where k: "k < 32" "kf_size f = 2 ^ k" "unat (kf_size f) = 2 ^ k"
    and b: "kf_buffer f = Some (p, a)" "length a = 2 ^ k"
    and u: "unat (kf_in f - kf_out f) \<le> 2 ^ k"
    by (rule kfifo_invE)
  let ?n = "unat (kf_in f - kf_out f)"
  have bytes: "kfifo_bytes f = ring_read a (unat (kf_out f)) ?n"
    using b by (simp add: kfifo_bytes_def)
  have l: "l = min (unat len) (2 ^ k - ?n)"
    using bytes k by (simp add: l_def)
  define lw where "lw = (if len > kapi_kfifo_avail (Some f) then kapi_kfifo_avail (Some f) else len)"
  have av: "unat (kapi_kfifo_avail (Some f)) = 2 ^ k - ?n"
    using k u by (simp add: kapi_kfifo_avail_def unat_sub word_le_nat_alt)
  have lw: "unat lw = l"
    using av l by (auto simp: lw_def word_less_nat_alt)
  then have lw': "lw = of_nat l"
    by (simp flip: lw)
  define off where "off = kf_in f AND (kf_size f - 1)"
  have off: "unat off = unat (kf_in f) mod 2 ^ k"
    using k by (simp add: off_def unat_mod_pow2_mask)
  have offlt: "unat off < 2 ^ k" by (simp add: off)
  have lle: "l \<le> 2 ^ k" using l by simp
  have sum: "unat (off + lw) = unat off + l"
    using off_plus_len[OF k(1) offlt, of lw] lw lle by simp
  have first: "unat (kf_size f - off) = 2 ^ k - unat off"
    using k offlt by (simp add: unat_sub word_le_nat_alt)
  have rest: "unat off + l > 2 ^ k \<Longrightarrow> unat (lw - (kf_size f - off)) = l - (2 ^ k - unat off)"
    using first lw offlt by (simp add: unat_sub word_le_nat_alt)
  define f' where "f' = f\<lparr>kf_buffer := Some (p, ring_write a (unat off) src l), kf_in := kf_in f + lw\<rparr>"
  have arr: "(if off + lw > kf_size f
      then memcpy (memcpy a (unat off) src 0 (unat (kf_size f - off)))
             0 src (unat (kf_size f - off)) (unat (lw - (kf_size f - off)))
      else memcpy a (unat off) src 0 (unat lw)) = ring_write a (unat off) src l"
    using b k(3) sum first rest lw by (simp add: ring_write_def word_less_nat_alt)
  have run: "kapi_kfifo_in (Some f) (Some src) len = (lw, Some f')"
    unfolding f'_def arr[symmetric]
    by (simp only: kapi_kfifo_in_def b(1) Let_def prod.case option.case lw_def off_def)
  have d: "kf_in f' - kf_out f' = (kf_in f - kf_out f) + lw"
    by (simp add: f'_def)
  have "?n + l < 2 ^ 32"
  proof -
    have "(2::nat) ^ k < 2 ^ 32" using k(1) by (intro power_strict_increasing) auto
    then show ?thesis using l u by simp
  qed
  then have n': "unat (kf_in f' - kf_out f') = ?n + l"
    unfolding d using lw by (subst unat_add_noof) auto
  have pos: "unat off = (unat (kf_out f) + ?n) mod length a"
    using off kfifo_in_pos[OF k(1), of f] b by simp
  have "kfifo_bytes f' = ring_read (ring_write a (unat off) src l) (unat (kf_out f)) (?n + l)"
    using n' by (simp add: kfifo_bytes_def f'_def)
  also have "\<dots> = ring_read a (unat (kf_out f)) ?n @ take l src"
    unfolding pos using b l u len by (intro ring_read_write) auto
  finally have "kfifo_bytes f' = kfifo_bytes f @ take l src"
    using bytes by simp
  moreover have "kfifo_inv f'"
    using n' k b l u by (auto simp: kfifo_inv_def f'_def)
  ultimately show thesis
    using that[of f'] run lw lw' by (simp add: f'_def)
qed

lemma kfifo_out_eq:
  assumes inv: "kfifo_inv f" and len: "unat len \<le> length dst"
  defines "l \<equiv> min (unat len) (length (kfifo_bytes f))"
  obtains f' where
    "kapi_kfifo_out (Some f) (Some dst) len =
       (of_nat l, Some (take l (kfifo_bytes f) @ drop l dst), Some f')"
    "kfifo_inv f'" "kfifo_bytes f' = drop l (kfifo_bytes f)" "kf_size f' = kf_size f"
    "unat (of_nat l :: u32) = l"
proof -
  from inv obtain k p a where k: "k < 32" "kf_size f = 2 ^ k" "unat (kf_size f) = 2 ^ k"
    and b: "kf_buffer f = Some (p, a)" "length a = 2 ^ k"
    and u: "unat (kf_in f - kf_out f) \<le> 2 ^ k"
    by (rule kfifo_invE)
  let ?n = "unat (kf_in f - kf_out f)"
  have bytes: "kfifo_bytes f = ring_read a (unat (kf_out f)) ?n"
    using b by (simp add: kfifo_bytes_def)
  have l: "l = min (unat len) ?n"
    using bytes by (simp add: l_def)
  define lw where "lw = (if len > kapi_kfifo_len (Some f) then kapi_kfifo_len (Some f) else len)"
  have lw: "unat lw = l"
    using l by (auto simp: lw_def word_less_nat_alt kapi_kfifo_len_def)
  then have lw': "lw = of_nat l"
    by (simp flip: lw)
  define off where "off = kf_out f AND (kf_size f - 1)"
  have off: "unat off = unat (kf_out f) mod 2 ^ k"
    using k by (simp add: off_def unat_mod_pow2_mask)
  have offlt: "unat off < 2 ^ k" by (simp add: off)
  have lle: "l \<le> 2 ^ k" using l u by simp
  have sum: "unat (off + lw) = unat off + l"
    using off_plus_len[OF k(1) offlt, of lw] lw lle by simp
  have first: "unat (kf_size f - off) = 2 ^ k - unat off"
    using k offlt by (simp add: unat_sub word_le_nat_alt)
  have rest: "unat off + l > 2 ^ k \<Longrightarrow> unat (lw - (kf_size f - off)) = l - (2 ^ k - unat off)"
    using first lw offlt by (simp add: unat_sub word_le_nat_alt)
  have ld: "l \<le> length dst" using l len by simp
  have data: "ring_read a (unat off) l = take l (kfifo_bytes f)"
    unfolding bytes off b(2)[symmetric] ring_read_mod using l by (simp add: take_ring_read)
  have split: "(if unat off + l > 2 ^ k
      then memcpy (memcpy dst 0 a (unat off) (2 ^ k - unat off)) (2 ^ k - unat off) a 0 (l - (2 ^ k - unat off))
      else memcpy dst 0 a (unat off) l) = ring_read a (unat off) l @ drop l dst"
  proof (cases "unat off + l > 2 ^ k")
    case True
    have "memcpy dst 0 a (unat off) (2 ^ k - unat off) = drop (unat off) a @ drop (2 ^ k - unat off) dst"
      using True b ld offlt by (subst memcpy_eq) auto
    then show ?thesis
      using True b ld offlt lle ring_read_split[of "unat off" a l] by (simp add: memcpy_eq)
  next
    case False
    then show ?thesis
      using b ld offlt lle ring_read_split[of "unat off" a l] by (simp add: memcpy_eq)
  qed
  define f' where "f' = f\<lparr>kf_out := kf_out f + lw\<rparr>"
  have arr: "(if off + lw > kf_size f
      then memcpy (memcpy dst 0 a (unat off) (unat (kf_size f - off)))
             (unat (kf_size f - off)) a 0 (unat (lw - (kf_size f - off)))
      else memcpy dst 0 a (unat off) (unat lw)) = take l (kfifo_bytes f) @ drop l dst"
    unfolding data[symmetric] split[symmetric]
    using k(3) sum first rest lw by (simp add: word_less_nat_alt)
  have run: "kapi_kfifo_out (Some f) (Some dst) len =
      (lw, Some (take l (kfifo_bytes f) @ drop l dst), Some f')"
    unfolding f'_def arr[symmetric]
    by (simp only: kapi_kfifo_out_def b(1) Let_def prod.case option.case lw_def off_def)
  have d: "kf_in f' - kf_out f' = (kf_in f - kf_out f) - lw"
    by (simp add: f'_def)
  have n': "unat (kf_in f' - kf_out f') = ?n - l"
    unfolding d using lw l by (subst unat_sub) (auto simp: word_le_nat_alt)
  have "(unat (kf_out f + lw)) mod 2 ^ k = (unat (kf_out f) + l) mod 2 ^ k"
    using unat_add_mod_pow2[OF k(1), of "kf_out f" lw] lw by simp
  then have "kfifo_bytes f' = drop l (kfifo_bytes f)"
    using n' b bytes ring_read_mod[of a "unat (kf_out f + lw)"] ring_read_mod[of a "unat (kf_out f) + l"]
    by (simp add: kfifo_bytes_def f'_def drop_ring_read)
  moreover have "kfifo_inv f'"
    using n' k b l u by (auto simp: kfifo_inv_def f'_def)
  ultimately show thesis
    using that[of f'] run lw lw' by (simp add: f'_def)
qed

subsection \<open>The fifo is a byte queue\<close>

lemma kfifo_put_eq:
  assumes "kfifo_inv f" "length xs < 2 ^ 32"
  shows "fst (kfifo_put f xs) = min (length xs) (unat (kf_size f) - length (kfifo_bytes f))"
    and "kfifo_bytes (snd (kfifo_put f xs)) = kfifo_bytes f @ take (fst (kfifo_put f xs)) xs"
    and "kfifo_inv (snd (kfifo_put f xs))"
proof -
  have len: "unat (of_nat (length xs) :: u32) = length xs"
    using assms(2) by (simp add: unat_of_nat)
  obtain f' where f': "kapi_kfifo_in (Some f) (Some xs) (of_nat (length xs)) =
        (of_nat (min (length xs) (unat (kf_size f) - length (kfifo_bytes f))), Some f')"
    "kfifo_inv f'"
    "kfifo_bytes f' = kfifo_bytes f @ take (min (length xs) (unat (kf_size f) - length (kfifo_bytes f))) xs"
    "unat (of_nat (min (length xs) (unat (kf_size f) - length (kfifo_bytes f))) :: u32) =
       min (length xs) (unat (kf_size f) - length (kfifo_bytes f))"
    using kfifo_in_eq[OF assms(1), of "of_nat (length xs)" xs] unfolding len by auto
  then show "fst (kfifo_put f xs) = min (length xs) (unat (kf_size f) - length (kfifo_bytes f))"
    and "kfifo_bytes (snd (kfifo_put f xs)) = kfifo_bytes f @ take (fst (kfifo_put f xs)) xs"
    and "kfifo_inv (snd (kfifo_put f xs))"
    by (simp_all only: kfifo_put_def Let_def prod.case fst_conv snd_conv option.sel)
qed

lemma kfifo_get_eq:
  assumes "kfifo_inv f" "n < 2 ^ 32"
  shows "fst (kfifo_get f n) = take n (kfifo_bytes f)"
    and "kfifo_bytes (snd (kfifo_get f n)) = drop n (kfifo_bytes f)"
    and "kfifo_inv (snd (kfifo_get f n))"
proof -
  let ?l = "min n (length (kfifo_bytes f))"
  have len: "unat (of_nat n :: u32) = n"
    using assms(2) by (simp add: unat_of_nat)
  obtain f' where f': "kapi_kfifo_out (Some f) (Some (replicate n 0)) (of_nat n) =
        (of_nat ?l, Some (take ?l (kfifo_bytes f) @ drop ?l (replicate n 0)), Some f')"
    "kfifo_inv f'" "kfifo_bytes f' = drop ?l (kfifo_bytes f)" "unat (of_nat ?l :: u32) = ?l"
    using kfifo_out_eq[OF assms(1), of "of_nat n" "replicate n 0"] unfolding len by auto
  have r: "kfifo_get f n = (take ?l (take ?l (kfifo_bytes f) @ drop ?l (replicate n 0)), f')"
    by (simp only: kfifo_get_def f' Let_def prod.case option.sel)
  show "fst (kfifo_get f n) = take n (kfifo_bytes f)"
    and "kfifo_bytes (snd (kfifo_get f n)) = drop n (kfifo_bytes f)"
    and "kfifo_inv (snd (kfifo_get f n))"
    using f' by (auto simp: r min_def)
qed

lemma kfifo_bounded: "kfifo_inv f \<Longrightarrow> length (kfifo_bytes f) \<le> unat (kf_size f)"
  by (auto simp: kfifo_inv_def kfifo_bytes_def split: option.splits)

interpretation kf: byte_queue kfifo_inv kfifo_bytes "\<lambda>f. unat (kf_size f)" "2 ^ 32" kfifo_put kfifo_get
  by unfold_locales (auto simp: kfifo_bounded kfifo_put_eq kfifo_get_eq)

lemma kfifo_init_inv:
  assumes "k < 32" "kapi_kfifo_init m st (Some f0) (2 ^ k) = (KAPI_OK, Some f, st')"
  shows "kfifo_inv f" "kfifo_bytes f = []" "kf_size f = 2 ^ k"
  using assms
  by (auto simp: kapi_kfifo_init_def kfifo_inv_def kfifo_bytes_def split_beta Let_def split: if_splits)

subsection \<open>Properties\<close>

text \<open>C2. A fifo set up by \<open>kapi_kfifo_init\<close> with a power-of-two size is first in, first
  out over every sequence of \<open>kapi_kfifo_in\<close> and \<open>kapi_kfifo_out\<close> calls: the bytes that
  came out followed by the bytes still inside are exactly the bytes accepted, whatever the
  wrap-around of the 32-bit counters and of the buffer, and the fill level never passes the
  size.\<close>
theorem kfifo_first_in_first_out:
  assumes "k < 32" "kapi_kfifo_init m st (Some f0) (2 ^ k) = (KAPI_OK, Some f, st')"
    and "\<forall>x \<in> set ops. op_len x < 2 ^ 32"
    and "queue_run kfifo_put kfifo_get f ops = (ins, outs, f')"
  shows "outs @ kfifo_bytes f' = ins \<and> kfifo_inv f' \<and> length (kfifo_bytes f') \<le> unat (kf_size f')"
  using kf.run_fifo[OF _ assms(3,4)] kf.run_invar[OF _ assms(3)] kfifo_init_inv[OF assms(1,2)] assms(4)
  by (metis append_Nil kfifo_bounded snd_conv)

theorem kfifo_first_in_first_out_witness:
  "let (r, fp, st) = kapi_kfifo_init (\<lambda>_. 0) boot_memory
         (Some \<lparr>kf_buffer = None, kf_size = 0, kf_in = 0, kf_out = 0\<rparr>) 4;
       (ins, outs, f') = queue_run kfifo_put kfifo_get (the fp) [Put [1, 2, 3], Get 2, Put [4, 5, 6]]
   in r = KAPI_OK \<and> outs @ kfifo_bytes f' = ins"
proof -
  let ?f0 = "\<lparr>kf_buffer = None, kf_size = 0, kf_in = 0, kf_out = 0\<rparr> :: kapi_kfifo"
  obtain f st' where i: "kapi_kfifo_init (\<lambda>_. 0) boot_memory (Some ?f0) (2 ^ 2) = (KAPI_OK, Some f, st')"
    by (simp add: kapi_kfifo_init_def boot_memory_alloc4)
  obtain ins outs f' where r: "queue_run kfifo_put kfifo_get f [Put [1, 2, 3], Get 2, Put [4, 5, 6]] = (ins, outs, f')"
    by (metis prod_cases3)
  have "outs @ kfifo_bytes f' = ins"
    using kfifo_first_in_first_out[OF _ i _ r] by simp
  with i r show ?thesis by simp
qed

text \<open>The observers agree with the contents: \<open>kapi_kfifo_len\<close> is the number of bytes
  inside, \<open>kapi_kfifo_avail\<close> the room left, and \<open>kapi_kfifo_is_empty\<close> and
  \<open>kapi_kfifo_is_full\<close> hold exactly for no byte and for \<open>size\<close> bytes.\<close>
theorem kfifo_observers:
  assumes "kfifo_inv f"
  shows "unat (kapi_kfifo_len (Some f)) = length (kfifo_bytes f)
    \<and> unat (kapi_kfifo_avail (Some f)) = unat (kf_size f) - length (kfifo_bytes f)
    \<and> (kapi_kfifo_is_empty (Some f) \<longleftrightarrow> kfifo_bytes f = [])
    \<and> (kapi_kfifo_is_full (Some f) \<longleftrightarrow> length (kfifo_bytes f) = unat (kf_size f))"
proof -
  have n: "length (kfifo_bytes f) = unat (kf_in f - kf_out f)"
    using assms by (auto simp: kfifo_inv_def kfifo_bytes_def split: option.splits)
  have le: "kf_in f - kf_out f \<le> kf_size f"
    using assms by (simp add: kfifo_inv_def word_le_nat_alt)
  have "unat (kapi_kfifo_avail (Some f)) = unat (kf_size f) - length (kfifo_bytes f)"
    using le n by (simp add: kapi_kfifo_avail_def unat_sub)
  moreover have "kapi_kfifo_is_empty (Some f) \<longleftrightarrow> kfifo_bytes f = []"
    using n by (simp add: kapi_kfifo_is_empty_def flip: length_0_conv)
  moreover have "kapi_kfifo_is_full (Some f) \<longleftrightarrow> length (kfifo_bytes f) = unat (kf_size f)"
    using n le by (auto simp: kapi_kfifo_is_full_def word_le_nat_alt)
  ultimately show ?thesis
    using n by (simp add: kapi_kfifo_len_def)
qed

theorem kfifo_observers_witness:
  "kfifo_inv \<lparr>kf_buffer = Some (4096, [7, 8]), kf_size = 2, kf_in = 0, kf_out = - 1\<rparr> \<and>
   unat (kapi_kfifo_len (Some \<lparr>kf_buffer = Some (4096, [7, 8]), kf_size = 2, kf_in = 0, kf_out = - 1\<rparr>)) =
   length (kfifo_bytes \<lparr>kf_buffer = Some (4096, [7, 8]), kf_size = 2, kf_in = 0, kf_out = - 1\<rparr>)"
proof -
  have i: "kfifo_inv \<lparr>kf_buffer = Some (4096, [7, 8]), kf_size = 2, kf_in = 0, kf_out = - 1\<rparr>"
    unfolding kfifo_inv_def by (simp, rule exI[of _ 1], simp)
  then show ?thesis
    using kfifo_observers[OF i] by simp
qed

end
