(* ===== verification/Process.thy ===== *)
theory Process
  imports Libc_String
begin

section \<open>The process table and the scheduler\<close>

text \<open>
  \<open>kernel/kernel/process.c\<close>. The table \<open>processes[]\<close>, its length and the running
  process are one record; the array is a list of \<open>PROCESS_MAX\<close> entries and an index into
  it is a natural number, an identifier (\<open>proc->id\<close>, a \<open>pid\<close>) a 64-bit word. The saved
  registers are the 23 words of \<open>process_context_t\<close> in their order, so \<open>rsp\<close> is word 18
  (byte offset 144 in \<open>process_switch\<close>). Fields that no modelled function reads are left
  out of the record. Addresses of code and stacks are words; what \<open>kzalloc\<close> answered is an
  argument of \<open>process_create_ex\<close>.
\<close>

subsection \<open>State\<close>

record process =
  p_id :: u64
  p_parent_id :: u64
  p_state :: u64
  p_priority :: u64
  p_flags :: u64
  p_name :: "u8 list"
  p_context :: "u64 list"
  p_stack :: u64
  p_entry :: u64
  p_entry_arg :: u64
  p_sched_count :: u64
  p_pending_signals :: u64
  p_signal_mask :: u64
  p_signal_data :: u64

record process_state =
  processes :: "process list"
  process_count :: nat
  current_process :: nat

definition PROCESS_MAX :: nat where "PROCESS_MAX = 256"

abbreviation (input) PROCESS_READY :: u64 where "PROCESS_READY \<equiv> 1"
abbreviation (input) PROCESS_RUNNING :: u64 where "PROCESS_RUNNING \<equiv> 2"
abbreviation (input) PROCESS_WAITING :: u64 where "PROCESS_WAITING \<equiv> 4"
abbreviation (input) PROCESS_ZOMBIE :: u64 where "PROCESS_ZOMBIE \<equiv> 5"
abbreviation (input) PROCESS_STOPPED :: u64 where "PROCESS_STOPPED \<equiv> 6"
abbreviation (input) PROCESS_DEAD :: u64 where "PROCESS_DEAD \<equiv> 7"
abbreviation (input) PROCESS_UNUSED :: u64 where "PROCESS_UNUSED \<equiv> 8"

definition state_of :: "'a process_state_scheme \<Rightarrow> nat \<Rightarrow> u64" where
  "state_of st i = p_state (processes st ! i)"

definition set_state :: "'a process_state_scheme \<Rightarrow> nat \<Rightarrow> u64 \<Rightarrow> 'a process_state_scheme" where
  "set_state st i s = st\<lparr>processes := (processes st)[i := (processes st ! i)\<lparr>p_state := s\<rparr>]\<rparr>"

subsection \<open>Creation and exit\<close>

definition process_init :: "'a process_state_scheme \<Rightarrow> 'a process_state_scheme" where
  "process_init st = st\<lparr>processes := map (\<lambda>p. p\<lparr>p_state := PROCESS_UNUSED\<rparr>) (processes st),
     process_count := 0, current_process := 0\<rparr>"

text \<open>\<open>if (name) { strncpy(proc->name, name, 31); proc->name[31] = 0; }\<close>\<close>

definition process_name :: "u8 list \<Rightarrow> u8 list option \<Rightarrow> u8 list option" where
  "process_name old nm = (case nm of None \<Rightarrow> Some old | Some s \<Rightarrow> bounded_copy old 32 s)"

definition process_create ::
  "'a process_state_scheme \<Rightarrow> u8 list option \<Rightarrow> u64 \<Rightarrow> u64 \<Rightarrow> (u64 \<times> 'a process_state_scheme) option" where
  "process_create st nm entry priority =
     (if process_count st \<ge> PROCESS_MAX then Some (0, st)
      else let i = process_count st; p = processes st ! i in
        map_option (\<lambda>name'.
          (of_nat i,
           st\<lparr>processes := (processes st)[i := p\<lparr>p_id := of_nat i, p_priority := priority,
                p_state := PROCESS_READY, p_entry := entry, p_stack := 0,
                p_context := replicate 23 0, p_name := name'\<rparr>],
              process_count := Suc i\<rparr>)) (process_name (p_name p) nm))"

definition process_exit :: "'a process_state_scheme \<Rightarrow> u64 \<Rightarrow> 'a process_state_scheme" where
  "process_exit st code =
     (if current_process st < PROCESS_MAX then set_state st (current_process st) PROCESS_DEAD else st)"

definition PROCESS_STACK_SIZE :: u64 where "PROCESS_STACK_SIZE = 16384"

text \<open>
  The new stack holds the address of the trampoline in its top word; the saved stack
  pointer leaves room for the six registers that \<open>process_switch\<close> pops.
\<close>

definition process_create_ex ::
  "'a process_state_scheme \<Rightarrow> u64 \<Rightarrow> u8 list option \<Rightarrow> u64 \<Rightarrow> u64 \<Rightarrow> u64 \<Rightarrow> u32 \<Rightarrow> u64 \<Rightarrow>
   (u64 \<times> 'a process_state_scheme) option" where
  "process_create_ex st stack nm entry arg priority flags parent =
     (case find_idx (\<lambda>p. p_state p = PROCESS_UNUSED) (processes st) of
        None \<Rightarrow> Some (- 1, st)
      | Some i \<Rightarrow>
          map_option (\<lambda>name'.
            let p = \<lparr>p_id = of_nat i, p_parent_id = parent, p_state = PROCESS_READY,
                  p_priority = priority, p_flags = ucast flags, p_name = name',
                  p_context = replicate 23 0, p_stack = stack, p_entry = entry,
                  p_entry_arg = arg, p_sched_count = 0, p_pending_signals = 0,
                  p_signal_mask = 0, p_signal_data = 0\<rparr>
            in if stack = 0
               then (- 1, st\<lparr>processes := (processes st)[i := p\<lparr>p_state := PROCESS_UNUSED\<rparr>]\<rparr>)
               else (of_nat i,
                 st\<lparr>processes := (processes st)[i :=
                      p\<lparr>p_context := (replicate 23 0)[18 := stack + PROCESS_STACK_SIZE - 8 - 48]\<rparr>],
                    process_count := (if i \<ge> process_count st then Suc i else process_count st)\<rparr>))
            (process_name (replicate 32 0) nm))"

definition thread_create ::
  "'a process_state_scheme \<Rightarrow> u64 \<Rightarrow> u64 \<Rightarrow> u64 \<Rightarrow> (int \<times> 'a process_state_scheme) option" where
  "thread_create st stack entry arg =
     map_option (\<lambda>(tid, st'). if tid = - 1 then (- 1, st') else (sint (ucast tid :: u32), st'))
       (process_create_ex st stack (Some [116, 104, 114, 101, 97, 100, 0]) entry arg 2 0
          (of_nat (current_process st)))"

subsection \<open>Lookup and wake-up\<close>

definition process_get_current_id :: "'a process_state_scheme \<Rightarrow> u64" where
  "process_get_current_id st = of_nat (current_process st)"

definition process_get :: "'a process_state_scheme \<Rightarrow> u64 \<Rightarrow> nat option" where
  "process_get st pid =
     (if unat pid < PROCESS_MAX \<and> state_of st (unat pid) \<noteq> PROCESS_UNUSED then Some (unat pid) else None)"

definition process_wakeup :: "'a process_state_scheme \<Rightarrow> u64 \<Rightarrow> 'a process_state_scheme" where
  "process_wakeup st pid =
     (if unat pid < PROCESS_MAX \<and> state_of st (unat pid) = PROCESS_WAITING
      then set_state st (unat pid) PROCESS_READY else st)"

definition enqueue_process :: "'a process_state_scheme \<Rightarrow> u64 \<Rightarrow> 'a process_state_scheme" where
  "enqueue_process st pid =
     (if unat pid < PROCESS_MAX \<and> state_of st (unat pid) \<noteq> PROCESS_UNUSED \<and>
         state_of st (unat pid) \<noteq> PROCESS_DEAD
      then set_state st (unat pid) PROCESS_READY else st)"

subsection \<open>The round-robin scheduler\<close>

text \<open>
  \<open>process_yield\<close> up to the switch: the first ready process after the running one, in
  cyclic order, becomes the running one. \<open>process_yield\<close> is a whole yield as the next
  process sees it: that process was suspended in its own call of \<open>process_yield\<close> and
  executes the statements after \<open>process_switch\<close>. A process that runs for the first time starts at its entry point instead;
  its state is the same, but its \<open>sched_count\<close> is then one less than in the model.
\<close>

definition process_next :: "'a process_state_scheme \<Rightarrow> nat" where
  "process_next st =
     (let prev = current_process st in
      case find_idx (\<lambda>i. state_of st ((prev + i) mod PROCESS_MAX) = PROCESS_READY) [1..<PROCESS_MAX] of
        None \<Rightarrow> prev
      | Some j \<Rightarrow> (prev + [1..<PROCESS_MAX] ! j) mod PROCESS_MAX)"

definition process_yield :: "'a process_state_scheme \<Rightarrow> 'a process_state_scheme" where
  "process_yield st =
     (if process_count st \<le> 1 then st
      else let prev = current_process st; nxt = process_next st;
          st' = (if nxt \<noteq> prev
                 then (let st1 = set_state (set_state st prev PROCESS_READY) nxt PROCESS_RUNNING;
                           st2 = st1\<lparr>current_process := nxt\<rparr>
                       in set_state st2 (current_process st2) PROCESS_RUNNING)
                 else st);
          c = current_process st'
        in st'\<lparr>processes := (processes st')[c :=
             (processes st' ! c)\<lparr>p_sched_count := p_sched_count (processes st' ! c) + 1\<rparr>]\<rparr>)"

definition thread_yield :: "'a process_state_scheme \<Rightarrow> 'a process_state_scheme" where
  "thread_yield st = process_yield st"

subsection \<open>Invariant\<close>

text \<open>
  The entries in use are exactly those below \<open>process_count\<close>, each carries its index as
  identifier, and only the current process can be marked running.
\<close>

definition process_inv :: "'a process_state_scheme \<Rightarrow> bool" where
  "process_inv st \<longleftrightarrow> length (processes st) = PROCESS_MAX \<and> current_process st < PROCESS_MAX \<and>
     process_count st \<le> PROCESS_MAX \<and>
     (\<forall>i < PROCESS_MAX. (state_of st i \<noteq> PROCESS_UNUSED \<longleftrightarrow> i < process_count st) \<and>
        (i < process_count st \<longrightarrow> p_id (processes st ! i) = of_nat i) \<and>
        (state_of st i = PROCESS_RUNNING \<longrightarrow> i = current_process st) \<and>
        length (p_name (processes st ! i)) = 32)"

lemma set_state_simps [simp]:
  "length (processes (set_state st i s)) = length (processes st)"
  "process_count (set_state st i s) = process_count st"
  "current_process (set_state st i s) = current_process st"
  "process_state.more (set_state st i s) = process_state.more st"
  by (simp_all add: set_state_def)

lemma state_of_set_state [simp]:
  "i < length (processes st) \<Longrightarrow> state_of (set_state st i s) j = (if i = j then s else state_of st j)"
  by (auto simp: state_of_def set_state_def nth_list_update)

lemma p_id_set_state [simp]: "p_id (processes (set_state st i s) ! j) = p_id (processes st ! j)"
  by (cases "i < length (processes st)") (auto simp: set_state_def nth_list_update list_update_beyond)

lemma p_name_set_state [simp]: "p_name (processes (set_state st i s) ! j) = p_name (processes st ! j)"
  by (cases "i < length (processes st)") (auto simp: set_state_def nth_list_update list_update_beyond)

lemma state_of_current_upd [simp]: "state_of (st\<lparr>current_process := c\<rparr>) i = state_of st i"
  by (simp add: state_of_def)

lemma process_invD:
  assumes "process_inv st"
  shows "length (processes st) = PROCESS_MAX" "current_process st < PROCESS_MAX"
    "process_count st \<le> PROCESS_MAX"
    and "i < PROCESS_MAX \<Longrightarrow> state_of st i \<noteq> PROCESS_UNUSED \<longleftrightarrow> i < process_count st"
    and "i < process_count st \<Longrightarrow> p_id (processes st ! i) = of_nat i"
    and "i < PROCESS_MAX \<Longrightarrow> state_of st i = PROCESS_RUNNING \<Longrightarrow> i = current_process st"
    and "i < PROCESS_MAX \<Longrightarrow> length (p_name (processes st ! i)) = 32"
  using assms by (auto simp: process_inv_def)

text \<open>Any change of state of a used entry that does not mark another process running is harmless.\<close>

lemma process_inv_set_state:
  assumes "process_inv st" "i < process_count st" "s \<noteq> PROCESS_UNUSED"
    and "s = PROCESS_RUNNING \<Longrightarrow> i = current_process st"
  shows "process_inv (set_state st i s)"
  using assms by (auto simp: process_inv_def)

lemma process_inv_set_current:
  assumes "process_inv st" "state_of st (current_process st) \<noteq> PROCESS_RUNNING" "c < PROCESS_MAX"
  shows "process_inv (st\<lparr>current_process := c\<rparr>)"
  using assms by (auto simp: process_inv_def state_of_def)

lemma process_init_inv:
  assumes "length (processes st) = PROCESS_MAX" "\<forall>p \<in> set (processes st). length (p_name p) = 32"
  shows "process_inv (process_init st)"
  using assms by (auto simp: process_inv_def process_init_def state_of_def PROCESS_MAX_def)

lemma process_name_length:
  "process_name old nm = Some d \<Longrightarrow> length d = length old"
  by (auto simp: process_name_def bounded_copy_def strncpy_length split: option.splits)

lemma process_inv_new:
  assumes "process_inv st" "i = process_count st" "i < PROCESS_MAX" "p_id p = of_nat i"
    "p_state p = PROCESS_READY" "length (p_name p) = 32"
  shows "process_inv (st\<lparr>processes := (processes st)[i := p], process_count := Suc i\<rparr>)"
  using assms by (auto simp: process_inv_def state_of_def nth_list_update less_Suc_eq)

lemma process_inv_unused:
  assumes "process_inv st" "i = process_count st" "i < PROCESS_MAX" "p_state p = PROCESS_UNUSED" "length (p_name p) = 32"
  shows "process_inv (st\<lparr>processes := (processes st)[i := p]\<rparr>)"
  using assms by (auto simp: process_inv_def state_of_def nth_list_update)

lemma process_create_inv:
  assumes "process_inv st" "process_create st nm entry priority = Some (pid, st')"
  shows "process_inv st'"
  using assms process_name_length[of "p_name (processes st ! process_count st)" nm]
    process_invD(7)[OF assms(1), of "process_count st"]
  by (auto simp: process_create_def Let_def split: if_splits intro!: process_inv_new)

lemma process_first_unused:
  assumes "process_inv st"
  shows "find_idx (\<lambda>p. p_state p = PROCESS_UNUSED) (processes st) =
    (if process_count st < PROCESS_MAX then Some (process_count st) else None)"
  using assms
  by (auto simp: find_idx_Some find_idx_None process_inv_def state_of_def in_set_conv_nth)

lemma process_create_ex_inv:
  assumes "process_inv st" "process_create_ex st stack nm entry arg priority flags parent = Some (pid, st')"
  shows "process_inv st'"
  using assms process_name_length[of "replicate 32 0" nm]
  unfolding process_create_ex_def process_first_unused[OF assms(1)]
  by (auto simp: Let_def split: if_splits intro!: process_inv_new process_inv_unused)

lemma enqueue_process_inv: "process_inv st \<Longrightarrow> process_inv (enqueue_process st pid)"
  unfolding enqueue_process_def by (auto intro!: process_inv_set_state simp: process_invD)

lemma process_wakeup_inv: "process_inv st \<Longrightarrow> process_inv (process_wakeup st pid)"
  using process_invD(4)[of st "unat pid"]
  unfolding process_wakeup_def by (auto intro!: process_inv_set_state)

lemma process_exit_inv:
  "process_inv st \<Longrightarrow> current_process st < process_count st \<Longrightarrow> process_inv (process_exit st code)"
  unfolding process_exit_def by (auto intro!: process_inv_set_state)

subsection \<open>The choice of the next process\<close>

lemma process_next_None:
  assumes "\<forall>i \<in> {1..<PROCESS_MAX}. state_of st ((current_process st + i) mod PROCESS_MAX) \<noteq> PROCESS_READY"
  shows "process_next st = current_process st"
proof -
  have "find_idx (\<lambda>i. state_of st ((current_process st + i) mod PROCESS_MAX) = PROCESS_READY) [1..<PROCESS_MAX] = None"
    using assms by (auto simp: find_idx_None)
  then show ?thesis by (simp add: process_next_def)
qed

lemma process_next_Some:
  assumes "d \<in> {1..<PROCESS_MAX}" "state_of st ((current_process st + d) mod PROCESS_MAX) = PROCESS_READY"
  obtains e where "e \<in> {1..d}" "process_next st = (current_process st + e) mod PROCESS_MAX"
    "state_of st (process_next st) = PROCESS_READY"
    "\<forall>i \<in> {1..<e}. state_of st ((current_process st + i) mod PROCESS_MAX) \<noteq> PROCESS_READY"
proof -
  let ?P = "\<lambda>i. state_of st ((current_process st + i) mod PROCESS_MAX) = PROCESS_READY"
  have n: "[1..<PROCESS_MAX] ! j = Suc j" if "j < PROCESS_MAX - 1" for j
    using that by simp
  obtain j where j: "find_idx ?P [1..<PROCESS_MAX] = Some j"
    using assms by (cases "find_idx ?P [1..<PROCESS_MAX]") (auto simp: find_idx_None)
  then have j': "j < PROCESS_MAX - 1" "?P (Suc j)" "\<forall>i<j. \<not> ?P (Suc i)"
    by (auto simp: find_idx_Some)
  have "Suc j \<le> d"
  proof (rule ccontr)
    assume "\<not> Suc j \<le> d"
    then have "d - 1 < j" using assms(1) by auto
    with j'(3) have "\<not> ?P (Suc (d - 1))" by blast
    moreover have "Suc (d - 1) = d" using assms(1) by simp
    ultimately show False using assms(2) by simp
  qed
  moreover have "process_next st = (current_process st + Suc j) mod PROCESS_MAX"
    using j j'(1) by (simp add: process_next_def)
  moreover have "\<forall>i \<in> {1..<Suc j}. \<not> ?P i"
  proof
    fix i assume i: "i \<in> {1..<Suc j}"
    then have "Suc (i - 1) = i" "i - 1 < j" by auto
    with j'(3) show "\<not> ?P i" by metis
  qed
  ultimately show thesis
    using that[of "Suc j"] j'(2) by auto
qed

text \<open>A yield seen from outside: who runs next, and every state after it.\<close>

lemma process_yield_count [simp]: "process_count (process_yield st) = process_count st"
  by (simp add: process_yield_def Let_def)

lemma process_yield_current:
  "process_count st > 1 \<Longrightarrow> current_process (process_yield st) = process_next st"
  by (simp add: process_yield_def Let_def)

lemma state_of_sched_count [simp]:
  "state_of (st\<lparr>processes := (processes st)[c := (processes st ! c)\<lparr>p_sched_count := v\<rparr>]\<rparr>) i = state_of st i"
  by (cases "c < length (processes st)") (auto simp: state_of_def nth_list_update list_update_beyond)

lemma process_next_less: "process_inv st \<Longrightarrow> process_next st < PROCESS_MAX"
  by (auto simp: process_next_def Let_def PROCESS_MAX_def process_inv_def split: option.splits)

lemma process_yield_states:
  assumes "process_inv st" "process_count st > 1"
  shows "state_of (process_yield st) i =
    (if process_next st = current_process st then state_of st i
     else if i = process_next st then PROCESS_RUNNING
     else if i = current_process st then PROCESS_READY else state_of st i)"
  using assms(2) process_invD(1,2)[OF assms(1)] process_next_less[OF assms(1)]
  by (simp add: process_yield_def Let_def)

lemma process_next_ready:
  assumes "process_next st \<noteq> current_process st"
  shows "state_of st (process_next st) = PROCESS_READY"
proof -
  obtain d where "d \<in> {1..<PROCESS_MAX}" "state_of st ((current_process st + d) mod PROCESS_MAX) = PROCESS_READY"
    using process_next_None[of st] assms by blast
  then show ?thesis
    by (rule process_next_Some)
qed

lemma process_inv_sched_count:
  "process_inv (st\<lparr>processes := (processes st)[c := (processes st ! c)\<lparr>p_sched_count := v\<rparr>]\<rparr>) \<longleftrightarrow> process_inv st"
proof -
  have "p_id ((processes st)[c := (processes st ! c)\<lparr>p_sched_count := v\<rparr>] ! i) = p_id (processes st ! i)"
    "length (p_name ((processes st)[c := (processes st ! c)\<lparr>p_sched_count := v\<rparr>] ! i)) =
     length (p_name (processes st ! i))" for i
    by (cases "c < length (processes st)"; auto simp: nth_list_update list_update_beyond)+
  then show ?thesis
    by (simp add: process_inv_def)
qed

lemma process_yield_inv:
  assumes "process_inv st" "current_process st < process_count st"
  shows "process_inv (process_yield st)" "current_process (process_yield st) < process_count st"
proof -
  let ?n = "process_next st" and ?c = "current_process st"
  have n: "?n < process_count st"
    using process_next_ready[of st] process_invD(4)[OF assms(1), of ?n]
      process_next_less[OF assms(1)] assms(2) by (cases "?n = ?c") auto
  have "process_count st \<le> 1 \<Longrightarrow> process_yield st = st"
    by (simp add: process_yield_def)
  then show "current_process (process_yield st) < process_count st"
    using n assms(2) process_yield_current[of st] by (cases "process_count st > 1") auto
  have s1: "process_inv (set_state st ?c PROCESS_READY)"
    using assms by (intro process_inv_set_state) auto
  have s2: "process_inv ((set_state st ?c PROCESS_READY)\<lparr>current_process := ?n\<rparr>)"
    using process_invD(1,2)[OF assms(1)] process_next_less[OF assms(1)]
    by (intro process_inv_set_current s1) auto
  have s3: "process_inv (set_state ((set_state st ?c PROCESS_READY)\<lparr>current_process := ?n\<rparr>) ?n PROCESS_RUNNING)"
    using n by (intro process_inv_set_state s2) auto
  have e: "(set_state (set_state st ?c PROCESS_READY) ?n PROCESS_RUNNING)\<lparr>current_process := ?n\<rparr> =
      set_state ((set_state st ?c PROCESS_READY)\<lparr>current_process := ?n\<rparr>) ?n PROCESS_RUNNING"
    by (simp add: set_state_def)
  have s4: "process_inv (set_state (set_state ((set_state st ?c PROCESS_READY)\<lparr>current_process := ?n\<rparr>) ?n PROCESS_RUNNING) ?n PROCESS_RUNNING)"
    using n by (intro process_inv_set_state s3) auto
  show "process_inv (process_yield st)"
    using assms(1) s4 unfolding process_yield_def Let_def
    by (simp add: process_inv_sched_count e)
qed

subsection \<open>Bounded waiting\<close>

definition cyc_dist :: "nat \<Rightarrow> nat \<Rightarrow> nat" where
  "cyc_dist c q = (q + PROCESS_MAX - c) mod PROCESS_MAX"

lemma mod_wrap: "a < 2 * m \<Longrightarrow> a mod m = (if a < m then a else a - m)" for a m :: nat
  by (simp add: le_mod_geq)

lemma cyc_dist_eq:
  assumes "c < PROCESS_MAX" "q < PROCESS_MAX"
  shows "cyc_dist c q = (if c \<le> q then q - c else q + PROCESS_MAX - c)"
  using assms mod_wrap[of "q + PROCESS_MAX - c" PROCESS_MAX] by (auto simp: cyc_dist_def)

lemma cyc_dist_pos: "c < PROCESS_MAX \<Longrightarrow> q < PROCESS_MAX \<Longrightarrow> c \<noteq> q \<Longrightarrow> cyc_dist c q \<in> {1..<PROCESS_MAX}"
  by (auto simp: cyc_dist_eq)

lemma cyc_dist_add: "c < PROCESS_MAX \<Longrightarrow> q < PROCESS_MAX \<Longrightarrow> (c + cyc_dist c q) mod PROCESS_MAX = q"
  by (simp add: cyc_dist_eq)

lemma cyc_dist_step:
  assumes "c < PROCESS_MAX" "q < PROCESS_MAX" "e \<le> cyc_dist c q"
  shows "cyc_dist ((c + e) mod PROCESS_MAX) q = cyc_dist c q - e"
proof -
  have e: "c + e < 2 * PROCESS_MAX"
    using assms by (auto simp: cyc_dist_eq split: if_splits)
  have "(c + e) mod PROCESS_MAX < PROCESS_MAX"
    using assms(1) by simp
  then show ?thesis
    using assms mod_wrap[OF e] by (auto simp: cyc_dist_eq split: if_splits)
qed

lemma ready_runs_within:
  assumes "process_inv st" "current_process st < process_count st" "process_count st > 1"
    "q < PROCESS_MAX" "state_of st q = PROCESS_READY \<or> q = current_process st"
  shows "\<exists>k \<le> cyc_dist (current_process st) q. current_process ((process_yield ^^ k) st) = q"
  using assms
proof (induction "cyc_dist (current_process st) q" arbitrary: st rule: less_induct)
  case less
  let ?c = "current_process st"
  show ?case
  proof (cases "q = ?c")
    case True
    then show ?thesis by (intro exI[of _ 0]) simp
  next
    case False
    have c: "?c < PROCESS_MAX" using process_invD(2)[OF less.prems(1)] .
    have d: "cyc_dist ?c q \<in> {1..<PROCESS_MAX}" "(?c + cyc_dist ?c q) mod PROCESS_MAX = q"
      using False c less.prems(4) cyc_dist_pos cyc_dist_add by blast+
    obtain e where e: "e \<in> {1..cyc_dist ?c q}" "process_next st = (?c + e) mod PROCESS_MAX"
      using process_next_Some[OF d(1)] d(2) less.prems(5) False by metis
    let ?st = "process_yield st"
    have cur: "current_process ?st = process_next st"
      using less.prems(3) by (rule process_yield_current)
    have dist: "cyc_dist (current_process ?st) q = cyc_dist ?c q - e"
      unfolding cur e(2) using e(1) c less.prems(4) by (intro cyc_dist_step) auto
    have lt: "cyc_dist (current_process ?st) q < cyc_dist ?c q"
      using dist e(1) d(1) by auto
    have q: "state_of ?st q = PROCESS_READY \<or> q = current_process ?st"
      using process_yield_states[OF less.prems(1,3), of q] less.prems(5) False cur by auto
    have cnt: "current_process ?st < process_count ?st" "process_count ?st > 1"
      using process_yield_inv(2)[OF less.prems(1,2)] less.prems(3) by simp_all
    obtain k where k: "k \<le> cyc_dist (current_process ?st) q" "current_process ((process_yield ^^ k) ?st) = q"
      using less.hyps[OF lt process_yield_inv(1)[OF less.prems(1,2)] cnt less.prems(4) q] by blast
    have "current_process ((process_yield ^^ Suc k) st) = q"
      using k(2) by (simp only: funpow_Suc_right comp_apply)
    moreover have "Suc k \<le> cyc_dist ?c q"
      using k(1) lt by linarith
    ultimately show ?thesis by blast
  qed
qed

subsection \<open>A booted table\<close>

definition boot_processes :: process_state where
  "boot_processes = process_init \<lparr>processes = replicate PROCESS_MAX
     \<lparr>p_id = 0, p_parent_id = 0, p_state = 0, p_priority = 0, p_flags = 0, p_name = replicate 32 0,
      p_context = replicate 23 0, p_stack = 0, p_entry = 0, p_entry_arg = 0, p_sched_count = 0,
      p_pending_signals = 0, p_signal_mask = 0, p_signal_data = 0\<rparr>,
     process_count = 0, current_process = 0\<rparr>"

lemma boot_processes_inv: "process_inv boot_processes" "process_count boot_processes = 0"
    "current_process boot_processes = 0"
  unfolding boot_processes_def by (auto intro!: process_init_inv) (simp_all add: process_init_def)

lemma process_create_None:
  assumes "process_inv st" "process_count st < PROCESS_MAX"
  obtains st' where "process_create st None entry priority = Some (of_nat (process_count st), st')"
    "process_inv st'" "process_count st' = Suc (process_count st)"
    "current_process st' = current_process st"
    "\<And>i. state_of st' i = (if i = process_count st then PROCESS_READY else state_of st i)"
proof -
  obtain st' where c: "process_create st None entry priority = Some (of_nat (process_count st), st')"
    using assms(2) by (simp add: process_create_def process_name_def Let_def)
  then have "process_count st' = Suc (process_count st)" "current_process st' = current_process st"
    "\<And>i. state_of st' i = (if i = process_count st then PROCESS_READY else state_of st i)"
    using assms process_invD(1)[OF assms(1)]
    by (auto simp: process_create_def process_name_def Let_def state_of_def nth_list_update)
  with c process_create_inv[OF assms(1) c] that show thesis by blast
qed

definition two_processes :: process_state where
  "two_processes = snd (the (process_create (snd (the (process_create boot_processes None 0x1000 2))) None 0x2000 2))"

lemma two_processes_inv: "process_inv two_processes" "process_count two_processes = 2"
    "current_process two_processes = 0" "state_of two_processes 0 = PROCESS_READY"
    "state_of two_processes 1 = PROCESS_READY"
proof -
  obtain st1 where 1: "process_create boot_processes None 0x1000 2 = Some (of_nat (process_count boot_processes), st1)"
    "process_inv st1" "process_count st1 = Suc (process_count boot_processes)"
    "current_process st1 = current_process boot_processes"
    "\<And>i. state_of st1 i = (if i = process_count boot_processes then PROCESS_READY else state_of boot_processes i)"
    using boot_processes_inv(2)
    by (rule_tac process_create_None[OF boot_processes_inv(1)]) (auto simp: PROCESS_MAX_def)
  obtain st2 where 2: "process_create st1 None 0x2000 2 = Some (of_nat (process_count st1), st2)"
    "process_inv st2" "process_count st2 = Suc (process_count st1)"
    "current_process st2 = current_process st1"
    "\<And>i. state_of st2 i = (if i = process_count st1 then PROCESS_READY else state_of st1 i)"
    using 1(3) boot_processes_inv(2)
    by (rule_tac process_create_None[OF 1(2)]) (auto simp: PROCESS_MAX_def)
  have "two_processes = st2"
    by (simp add: two_processes_def 1(1) 2(1))
  with 1 2 boot_processes_inv show "process_inv two_processes" "process_count two_processes = 2"
    "current_process two_processes = 0" "state_of two_processes 0 = PROCESS_READY"
    "state_of two_processes 1 = PROCESS_READY"
    by simp_all
qed

subsection \<open>Properties\<close>

text \<open>C10. Bounded waiting: under the round-robin choice of \<open>process_yield\<close> a ready process
  becomes the current one after at most as many yields as its distance from the current
  process in the cyclic order of the table, so after fewer than \<open>PROCESS_MAX\<close> yields.\<close>
theorem yield_bounded_waiting:
  assumes "process_inv st" "current_process st < process_count st" "1 < process_count st"
    and "q < PROCESS_MAX" "state_of st q = PROCESS_READY"
  shows "\<exists>k < PROCESS_MAX. k \<le> cyc_dist (current_process st) q \<and>
    current_process ((process_yield ^^ k) st) = q"
proof -
  have "cyc_dist (current_process st) q < PROCESS_MAX"
    by (simp add: cyc_dist_def PROCESS_MAX_def)
  then show ?thesis
    using ready_runs_within[OF assms(1-4)] assms(5) by (meson le_less_trans)
qed

theorem yield_bounded_waiting_witness:
  "\<exists>k < PROCESS_MAX. k \<le> cyc_dist (current_process two_processes) 1 \<and>
     current_process ((process_yield ^^ k) two_processes) = 1"
  using yield_bounded_waiting[of two_processes 1] two_processes_inv by (simp add: PROCESS_MAX_def)

text \<open>The process table stays well formed through \<open>process_yield\<close>: used entries are those
  below \<open>process_count\<close> and carry their index, and at most the current process is marked
  running. The process switched to was ready, and every process that is neither the old nor
  the new current one keeps its state.\<close>
theorem yield_keeps_table:
  assumes "process_inv st" "current_process st < process_count st"
  shows "process_inv (process_yield st) \<and>
    current_process (process_yield st) < process_count (process_yield st) \<and>
    (current_process (process_yield st) \<noteq> current_process st \<longrightarrow>
       state_of st (current_process (process_yield st)) = PROCESS_READY \<and>
       state_of (process_yield st) (current_process (process_yield st)) = PROCESS_RUNNING) \<and>
    (\<forall>i. i \<noteq> current_process st \<and> i \<noteq> current_process (process_yield st) \<longrightarrow>
       state_of (process_yield st) i = state_of st i)"
proof (cases "process_count st > 1")
  case True
  show ?thesis
    using process_yield_inv[OF assms] process_yield_states[OF assms(1) True] process_next_ready[of st]
    by (simp add: process_yield_current[OF True])
next
  case False
  then show ?thesis
    using assms by (simp add: process_yield_def)
qed

theorem yield_keeps_table_witness:
  "process_inv two_processes \<and> process_inv (process_yield two_processes)"
  using yield_keeps_table[of two_processes] two_processes_inv by simp

text \<open>\<open>process_create_ex\<close> takes the first unused entry, which is entry \<open>process_count\<close>, and
  returns its index; the new process is ready, \<open>process_get\<close> finds it, its name is the
  given one cut to 31 bytes, its stack pointer is 56 bytes below the top of its stack, and
  no other entry changes. With a full table, or when no stack could be allocated, it returns
  \<open>-1\<close> and the table has the same processes as before.\<close>
theorem process_create_ex_spec:
  assumes "process_inv st" "terminated nm"
  shows "\<exists>pid st'. process_create_ex st stack (Some nm) entry arg priority flags parent = Some (pid, st') \<and>
    process_inv st' \<and> current_process st' = current_process st \<and>
    (\<forall>i. i \<noteq> process_count st \<longrightarrow> processes st' ! i = processes st ! i) \<and>
    (if process_count st < PROCESS_MAX \<and> stack \<noteq> 0
     then pid = of_nat (process_count st) \<and> process_count st' = Suc (process_count st) \<and>
       process_get st' pid = Some (process_count st) \<and>
       state_of st' (process_count st) = PROCESS_READY \<and>
       cstr (p_name (processes st' ! process_count st)) = take 31 (cstr nm) \<and>
       p_context (processes st' ! process_count st) ! 18 = stack + PROCESS_STACK_SIZE - 56
     else pid = - 1 \<and> process_count st' = process_count st \<and>
       (\<forall>i < PROCESS_MAX. state_of st' i = state_of st i))"
proof -
  obtain d where d: "process_name (replicate 32 0) (Some nm) = Some d" "length d = 32"
    "cstr d = take 31 (cstr nm)"
    using bounded_copy_eq[OF assms(2), of 32 "replicate 32 0"] by (auto simp: process_name_def)
  obtain pid st' where r: "process_create_ex st stack (Some nm) entry arg priority flags parent = Some (pid, st')"
    unfolding process_create_ex_def process_first_unused[OF assms(1)] using d
    by (cases "process_count st < PROCESS_MAX"; cases "stack = 0") (auto simp: Let_def)
  have u: "unat (of_nat (process_count st) :: u64) = process_count st"
    using process_invD(3)[OF assms(1)] by (simp add: unat_of_nat PROCESS_MAX_def)
  have "process_count st < PROCESS_MAX \<Longrightarrow> state_of st (process_count st) = PROCESS_UNUSED"
    using process_invD(4)[OF assms(1), of "process_count st"] by simp
  then show ?thesis
    using process_create_ex_inv[OF assms(1) r] r d u process_invD(1,3)[OF assms(1)]
    unfolding process_create_ex_def process_first_unused[OF assms(1)]
    by (auto simp: process_get_def state_of_def Let_def nth_list_update split: if_splits)
qed

theorem process_create_ex_spec_witness:
  "\<exists>pid st'. process_create_ex two_processes 0x8000 (Some [105, 110, 105, 116, 0]) 0x3000 0 2 0 0 = Some (pid, st') \<and>
     pid = 2 \<and> cstr (p_name (processes st' ! 2)) = [105, 110, 105, 116]"
  using process_create_ex_spec[OF two_processes_inv(1), of "[105, 110, 105, 116, 0]" "0x8000" "0x3000" 0 2 0 0]
  by (auto simp: two_processes_inv PROCESS_MAX_def)

text \<open>
  The wait protocol of the kernel marks a process waiting and calls \<open>process_yield\<close>. The
  yield overwrites that mark: as soon as another process is ready, the waiting process is
  ready again without anybody having woken it.
\<close>

lemma process_yield_forgets_waiting:
  assumes "process_inv st" "1 < process_count st" "state_of st (current_process st) = PROCESS_WAITING"
    and "d \<in> {1..<PROCESS_MAX}" "state_of st ((current_process st + d) mod PROCESS_MAX) = PROCESS_READY"
  shows "state_of (process_yield st) (current_process st) = PROCESS_READY"
proof -
  obtain e where "e \<in> {1..d}" "process_next st = (current_process st + e) mod PROCESS_MAX"
      "state_of st (process_next st) = PROCESS_READY"
    using process_next_Some[OF assms(4,5)] by metis
  then show ?thesis
    using process_yield_states[OF assms(1,2)] assms(3) by auto
qed

end
