(* ===== verification/Timer.thy ===== *)
theory Timer
  imports Process
begin

section \<open>Timers\<close>

text \<open>
  The conversions between ticks and milliseconds of \<open>kernel/kernel/timer.c\<close>, which the timed
  waits of \<open>Wait_Queue\<close> and \<open>Sync\<close> use; the wheel itself is in \<open>Timer_Wheel\<close>.
\<close>

subsection \<open>Ticks and milliseconds\<close>

definition TIMER_TICK_MS :: u64 where "TIMER_TICK_MS = 1"

definition timer_jiffies_to_ms :: "u64 \<Rightarrow> u64" where
  "timer_jiffies_to_ms jiffies = jiffies * TIMER_TICK_MS"

definition timer_ms_to_jiffies :: "u64 \<Rightarrow> u64" where
  "timer_ms_to_jiffies ms = (if ms = 0 then 1 else (ms + TIMER_TICK_MS - 1) div TIMER_TICK_MS)"

end
