(* ===== verification/Wait_Queue.thy ===== *)
theory Wait_Queue
  imports Timer "HOL-Library.Sublist"
begin

section \<open>Wait queues\<close>

text \<open>
  \<open>kernel/kernel/wait.c\<close>. A wait queue is a doubly linked list of nodes that live on the
  stacks of the waiting processes. The model keeps the pointers: \<open>wait_nodes\<close> is the
  memory of the nodes by address, 0 is \<open>NULL\<close>, and \<open>node->proc\<close> is an index of the process
  table. Spin locks protect each operation and are not represented: an operation is one
  step, and a call that waits is split at its call of \<open>process_yield\<close>. A traversal of a
  queue whose links form a cycle does not end; it has the value \<open>None\<close>.
\<close>

subsection \<open>Data\<close>

record wait_queue_node =
  wn_proc :: "nat option"
  wn_next :: u64
  wn_prev :: u64

record wait_queue =
  wq_head :: u64
  wq_tail :: u64

record kernel_state = process_state +
  wait_nodes :: "u64 \<Rightarrow> wait_queue_node"

definition wait_queue_init :: wait_queue where
  "wait_queue_init = \<lparr>wq_head = 0, wq_tail = 0\<rparr>"

subsection \<open>Linking and unlinking\<close>

definition set_next :: "(u64 \<Rightarrow> wait_queue_node) \<Rightarrow> u64 \<Rightarrow> u64 \<Rightarrow> (u64 \<Rightarrow> wait_queue_node)" where
  "set_next h a v = h(a := (h a)\<lparr>wn_next := v\<rparr>)"

definition set_prev :: "(u64 \<Rightarrow> wait_queue_node) \<Rightarrow> u64 \<Rightarrow> u64 \<Rightarrow> (u64 \<Rightarrow> wait_queue_node)" where
  "set_prev h a v = h(a := (h a)\<lparr>wn_prev := v\<rparr>)"

definition wq_add :: "kernel_state \<Rightarrow> wait_queue \<Rightarrow> u64 \<Rightarrow> kernel_state \<times> wait_queue" where
  "wq_add st wq node =
     (let h = set_prev (set_next (wait_nodes st) node 0) node (wq_tail wq);
          (h', wq') = (if wq_tail wq \<noteq> 0 then (set_next h (wq_tail wq) node, wq)
                       else (h, wq\<lparr>wq_head := node\<rparr>))
      in (st\<lparr>wait_nodes := h'\<rparr>, wq'\<lparr>wq_tail := node\<rparr>))"

definition wq_remove :: "kernel_state \<Rightarrow> wait_queue \<Rightarrow> u64 \<Rightarrow> kernel_state \<times> wait_queue" where
  "wq_remove st wq node =
     (let h = wait_nodes st;
          (h1, wq1) = (if wn_prev (h node) \<noteq> 0
                       then (set_next h (wn_prev (h node)) (wn_next (h node)), wq)
                       else (h, wq\<lparr>wq_head := wn_next (h node)\<rparr>));
          (h2, wq2) = (if wn_next (h1 node) \<noteq> 0
                       then (set_prev h1 (wn_next (h1 node)) (wn_prev (h1 node)), wq1)
                       else (h1, wq1\<lparr>wq_tail := wn_prev (h1 node)\<rparr>))
      in (st\<lparr>wait_nodes := set_next (set_prev h2 node 0) node 0\<rparr>, wq2))"

lemma wn_proc_set [simp]:
  "wn_proc (set_next h a v n) = wn_proc (h n)" "wn_proc (set_prev h a v n) = wn_proc (h n)"
  by (simp_all add: set_next_def set_prev_def)

lemma set_link_other:
  "n \<noteq> a \<Longrightarrow> set_next h a v n = h n" "n \<noteq> a \<Longrightarrow> set_prev h a v n = h n"
  by (simp_all add: set_next_def set_prev_def)

lemma set_link_simps [simp]:
  "wn_next (set_next h a v n) = (if n = a then v else wn_next (h n))"
  "wn_prev (set_next h a v n) = wn_prev (h n)"
  "wn_prev (set_prev h a v n) = (if n = a then v else wn_prev (h n))"
  "wn_next (set_prev h a v n) = wn_next (h n)"
  by (simp_all add: set_next_def set_prev_def)

subsection \<open>Waiting\<close>

text \<open>
  The first half of every wait: a fresh node for the current process is linked at the end
  and the process is marked waiting. \<open>node\<close> is the address of the caller's stack node.
\<close>

definition wait_enter :: "kernel_state \<Rightarrow> wait_queue \<Rightarrow> u64 \<Rightarrow> kernel_state \<times> wait_queue" where
  "wait_enter st wq node =
     (let st1 = st\<lparr>wait_nodes := (wait_nodes st)(node :=
             \<lparr>wn_proc = Some (current_process st), wn_next = 0, wn_prev = 0\<rparr>)\<rparr>;
          (st2, wq') = wq_add st1 wq node
      in (set_state st2 (current_process st) PROCESS_WAITING, wq'))"

definition wait_queue_wait :: "kernel_state \<Rightarrow> wait_queue \<Rightarrow> u64 \<Rightarrow> kernel_state \<times> wait_queue" where
  "wait_queue_wait st wq node =
     (let (st', wq') = wait_enter st wq node in (process_yield st', wq'))"

text \<open>\<open>wait_queue_wait_irqlock\<close> differs from it only in the kind of lock it releases.\<close>

definition wait_queue_wait_irqlock :: "kernel_state \<Rightarrow> wait_queue \<Rightarrow> u64 \<Rightarrow> kernel_state \<times> wait_queue" where
  "wait_queue_wait_irqlock st wq node =
     (let (st', wq') = wait_enter st wq node in (process_yield st', wq'))"

definition wq_linked :: "kernel_state \<Rightarrow> wait_queue \<Rightarrow> u64 \<Rightarrow> bool" where
  "wq_linked st wq node \<longleftrightarrow>
     wn_next (wait_nodes st node) \<noteq> 0 \<or> wn_prev (wait_nodes st node) \<noteq> 0 \<or> wq_head wq = node"

text \<open>
  \<open>wait_queue_wait_timeout\<close> in three parts: the entry (the deadline and the link), the body
  of its loop after \<open>process_yield\<close> has returned to process \<open>i\<close> at time \<open>jiffies\<close>, which
  gives the return value when the deadline has passed, and the exit when the process is no
  longer marked waiting.
\<close>

definition wait_timeout_enter ::
  "kernel_state \<Rightarrow> wait_queue \<Rightarrow> u64 \<Rightarrow> u64 \<Rightarrow> u64 \<Rightarrow> u64 \<times> kernel_state \<times> wait_queue" where
  "wait_timeout_enter st wq node timeout_ms jiffies =
     ((if timeout_ms > 0 then jiffies + timer_ms_to_jiffies timeout_ms else 0), wait_enter st wq node)"

definition wait_timeout_body ::
  "kernel_state \<Rightarrow> wait_queue \<Rightarrow> u64 \<Rightarrow> u64 \<Rightarrow> u64 \<Rightarrow> u64 \<Rightarrow> (int \<times> kernel_state \<times> wait_queue) option" where
  "wait_timeout_body st wq node timeout_ms deadline jiffies =
     (if timeout_ms > 0 \<and> jiffies \<ge> deadline
      then Some (if wq_linked st wq node then (- 1, wq_remove st wq node) else (0, st, wq))
      else None)"

definition wait_timeout_exit ::
  "kernel_state \<Rightarrow> wait_queue \<Rightarrow> u64 \<Rightarrow> int \<times> kernel_state \<times> wait_queue" where
  "wait_timeout_exit st wq node = (0, if wq_linked st wq node then wq_remove st wq node else (st, wq))"

subsection \<open>Waking\<close>

text \<open>\<open>node->proc && node->proc->state == PROCESS_WAITING\<close>, and what happens to such a node.\<close>

definition wn_waiting :: "kernel_state \<Rightarrow> u64 \<Rightarrow> bool" where
  "wn_waiting st node =
     (case wn_proc (wait_nodes st node) of None \<Rightarrow> False | Some i \<Rightarrow> state_of st i = PROCESS_WAITING)"

definition wq_wake_node :: "kernel_state \<Rightarrow> wait_queue \<Rightarrow> u64 \<Rightarrow> kernel_state \<times> wait_queue" where
  "wq_wake_node st wq node =
     (let (st1, wq') = wq_remove st wq node; i = the (wn_proc (wait_nodes st node));
          st2 = set_state st1 i PROCESS_READY
      in (enqueue_process st2 (p_id (processes st2 ! i)), wq'))"

partial_function (option) wake_one_loop ::
  "kernel_state \<Rightarrow> wait_queue \<Rightarrow> u64 \<Rightarrow> (kernel_state \<times> wait_queue) option" where
  "wake_one_loop st wq node =
     (if node = 0 then Some (st, wq)
      else if wn_waiting st node then Some (wq_wake_node st wq node)
      else wake_one_loop st wq (wn_next (wait_nodes st node)))"

definition wait_queue_wake_one :: "kernel_state \<Rightarrow> wait_queue \<Rightarrow> (kernel_state \<times> wait_queue) option" where
  "wait_queue_wake_one st wq = wake_one_loop st wq (wq_head wq)"

partial_function (option) wake_all_loop ::
  "kernel_state \<Rightarrow> wait_queue \<Rightarrow> u64 \<Rightarrow> (kernel_state \<times> wait_queue) option" where
  "wake_all_loop st wq node =
     (if node = 0 then Some (st, wq)
      else let nxt = wn_next (wait_nodes st node) in
        if wn_waiting st node
        then (let (st', wq') = wq_wake_node st wq node in wake_all_loop st' wq' nxt)
        else wake_all_loop st wq nxt)"

definition wait_queue_wake_all :: "kernel_state \<Rightarrow> wait_queue \<Rightarrow> (kernel_state \<times> wait_queue) option" where
  "wait_queue_wake_all st wq = wake_all_loop st wq (wq_head wq)"

subsection \<open>Doubly linked segments\<close>

text \<open>
  \<open>dseg h prv cur xs nxt lst\<close>: the nodes \<open>xs\<close> are linked in this order, from \<open>cur\<close> on; \<open>prv\<close>
  is before them, \<open>nxt\<close> after them, and \<open>lst\<close> is the last of \<open>prv\<close> and \<open>xs\<close>.
\<close>

fun dseg :: "(u64 \<Rightarrow> wait_queue_node) \<Rightarrow> u64 \<Rightarrow> u64 \<Rightarrow> u64 list \<Rightarrow> u64 \<Rightarrow> u64 \<Rightarrow> bool" where
  "dseg h prv cur [] nxt lst \<longleftrightarrow> cur = nxt \<and> lst = prv"
| "dseg h prv cur (x # xs) nxt lst \<longleftrightarrow>
     cur = x \<and> x \<noteq> 0 \<and> wn_prev (h x) = prv \<and> dseg h x (wn_next (h x)) xs nxt lst"

definition wq_list :: "kernel_state \<Rightarrow> wait_queue \<Rightarrow> u64 list \<Rightarrow> bool" where
  "wq_list st wq xs \<longleftrightarrow> dseg (wait_nodes st) 0 (wq_head wq) xs 0 (wq_tail wq) \<and> distinct xs"

lemma dseg_append:
  "dseg h p c (xs @ ys) n l \<longleftrightarrow> (\<exists>c' l'. dseg h p c xs c' l' \<and> dseg h l' c' ys n l)"
  by (induction xs arbitrary: p c) auto

lemma dseg_frame [simp]:
  "a \<notin> set xs \<Longrightarrow> dseg (h(a := v)) p c xs n l = dseg h p c xs n l"
  "a \<notin> set xs \<Longrightarrow> dseg (set_next h a w) p c xs n l = dseg h p c xs n l"
  "a \<notin> set xs \<Longrightarrow> dseg (set_prev h a w) p c xs n l = dseg h p c xs n l"
  by (induction xs arbitrary: p c) auto

lemma dseg_cong:
  "(\<And>x. x \<in> set xs \<Longrightarrow> wn_next (h x) = wn_next (h' x) \<and> wn_prev (h x) = wn_prev (h' x)) \<Longrightarrow>
   dseg h p c xs n l = dseg h' p c xs n l"
  by (induction xs arbitrary: p c) auto

lemma dseg_set_next:
  "dseg h p c (xs @ [x]) n l \<Longrightarrow> x \<notin> set xs \<Longrightarrow> dseg (set_next h x n') p c (xs @ [x]) n' l"
  by (auto simp: dseg_append)

lemma dseg_set_prev:
  "dseg h p c (x # xs) n l \<Longrightarrow> x \<notin> set xs \<Longrightarrow> dseg (set_prev h x p') p' c (x # xs) n l"
  by auto

lemma dseg_notnull: "dseg h p c xs n l \<Longrightarrow> 0 \<notin> set xs"
  by (induction xs arbitrary: p c) auto

lemma dseg_last: "dseg h p c xs n l \<Longrightarrow> l = (if xs = [] then p else last xs)"
  by (induction xs arbitrary: p c) auto

lemma dseg_first: "dseg h p c xs n l \<Longrightarrow> c = (if xs = [] then n else hd xs)"
  by (cases xs) auto

lemma wq_list_init [simp]: "wq_list st wait_queue_init xs \<longleftrightarrow> xs = []"
  by (cases xs) (auto simp: wq_list_def wait_queue_init_def)

lemma wq_list_unique: "wq_list st wq xs \<Longrightarrow> wq_list st wq ys \<Longrightarrow> xs = ys"
proof -
  have "dseg h p c xs 0 l \<Longrightarrow> dseg h p c ys 0 l' \<Longrightarrow> xs = ys" for h p c l l'
    by (induction xs arbitrary: ys p c) (case_tac ys; auto)+
  then show "wq_list st wq xs \<Longrightarrow> wq_list st wq ys \<Longrightarrow> xs = ys"
    by (auto simp: wq_list_def)
qed

text \<open>\<open>__wq_add\<close> appends, \<open>__wq_remove\<close> deletes; both leave every node outside the queue alone.\<close>

lemma wq_add_list:
  assumes "wq_list st wq xs" "node \<noteq> 0" "node \<notin> set xs"
  shows "wq_list (fst (wq_add st wq node)) (snd (wq_add st wq node)) (xs @ [node])"
proof (cases xs rule: rev_cases)
  case Nil
  then show ?thesis
    using assms by (auto simp: wq_list_def wq_add_def)
next
  case (snoc ys t)
  let ?h = "set_prev (set_next (wait_nodes st) node 0) node (wq_tail wq)"
  have d: "dseg (wait_nodes st) 0 (wq_head wq) (ys @ [t]) 0 (wq_tail wq)" "distinct (ys @ [t])"
    using assms(1) snoc by (auto simp: wq_list_def)
  have t: "wq_tail wq = t" "t \<noteq> 0"
    using dseg_last[OF d(1)] dseg_notnull[OF d(1)] by auto
  have n: "node \<noteq> t" "node \<notin> set ys" "t \<notin> set ys"
    using assms(3) snoc d(2) by auto
  have "dseg ?h 0 (wq_head wq) (ys @ [t]) 0 t"
    using d(1) n t by simp
  then have "dseg (set_next ?h t node) 0 (wq_head wq) (ys @ [t]) node t"
    by (rule dseg_set_next[OF _ n(3)])
  then have "dseg (set_next ?h t node) 0 (wq_head wq) ((ys @ [t]) @ [node]) 0 node"
    unfolding dseg_append[of _ _ _ "ys @ [t]"] using n t assms(2) by auto
  then show ?thesis
    using t n d(2) assms snoc by (simp add: wq_list_def wq_add_def Let_def)
qed

lemma wq_remove_list:
  assumes "wq_list st wq (as @ node # bs)"
  shows "wq_list (fst (wq_remove st wq node)) (snd (wq_remove st wq node)) (as @ bs)"
proof -
  let ?h = "wait_nodes st"
  obtain c' l' where a: "dseg ?h 0 (wq_head wq) as c' l'" "dseg ?h l' c' (node # bs) 0 (wq_tail wq)"
    and dis: "distinct (as @ node # bs)"
    using assms by (auto simp: wq_list_def dseg_append)
  then have n: "c' = node" "node \<noteq> 0" "wn_prev (?h node) = l'" "node \<notin> set as" "node \<notin> set bs"
    and b: "dseg ?h node (wn_next (?h node)) bs 0 (wq_tail wq)"
    by auto
  define x where "x = wn_next (?h node)"
  define h1 where "h1 = (if l' \<noteq> 0 then set_next ?h l' x else ?h)"
  define hd1 where "hd1 = (if l' \<noteq> 0 then wq_head wq else x)"
  have l': "l' = (if as = [] then 0 else last as)" using dseg_last[OF a(1)] .
  have ln: "l' \<noteq> node" using l' n by (auto split: if_splits)
  have h1n: "h1 node = ?h node" using ln by (simp add: h1_def set_next_def)
  have A: "dseg h1 0 hd1 as x l'"
  proof (cases as rule: rev_cases)
    case Nil
    then show ?thesis using a(1) l' by (simp add: hd1_def)
  next
    case (snoc ys t)
    then have "l' = t" "t \<noteq> 0" "t \<notin> set ys"
      using l' dseg_notnull[OF a(1)] dis by auto
    then show ?thesis
      using dseg_set_next[of ?h 0 "wq_head wq" ys t c' l' x] a(1) snoc by (simp add: h1_def hd1_def)
  qed
  have B: "dseg h1 node x bs 0 (wq_tail wq)"
  proof -
    have "as \<noteq> [] \<Longrightarrow> last as \<notin> set bs"
      using dis by (metis disjoint_iff distinct_append last_in_set list.set_intros(2))
    then show ?thesis
      using b l' by (auto simp: h1_def x_def)
  qed
  define h2 where "h2 = (if x \<noteq> 0 then set_prev h1 x l' else h1)"
  define tl2 where "tl2 = (if x \<noteq> 0 then wq_tail wq else l')"
  have x: "x = (if bs = [] then 0 else hd bs)" using dseg_first[OF B] .
  have xa: "x \<notin> set as" and xn: "x \<noteq> node"
    using x dis dseg_notnull[OF a(1)] n by (auto split: if_splits)
  have A2: "dseg h2 0 hd1 as x l'" using A xa by (cases "x = 0") (auto simp: h2_def)
  have B2: "dseg h2 l' x bs 0 tl2"
  proof (cases bs)
    case Nil
    then show ?thesis using x by (simp add: tl2_def)
  next
    case (Cons y ys)
    then have "x = y" "y \<noteq> 0" "y \<notin> set ys"
      using x dseg_notnull[OF b] dis by auto
    then show ?thesis
      using dseg_set_prev[of h1 node x y ys 0 "wq_tail wq" l'] B Cons by (simp add: h2_def tl2_def)
  qed
  have r: "wq_remove st wq node =
      (st\<lparr>wait_nodes := set_next (set_prev h2 node 0) node 0\<rparr>, \<lparr>wq_head = hd1, wq_tail = tl2\<rparr>)"
    using h1n n(3) by (auto simp: wq_remove_def Let_def h2_def h1_def hd1_def tl2_def x_def)
  have "dseg (set_next (set_prev h2 node 0) node 0) 0 hd1 (as @ bs) 0 tl2"
    using A2 B2 n by (auto simp: dseg_append)
  then show ?thesis
    using r dis by (simp add: wq_list_def)
qed

lemma wq_remove_outside:
  assumes "wq_list st wq (as @ node # bs)" "n \<notin> set (as @ node # bs)"
  shows "wait_nodes (fst (wq_remove st wq node)) n = wait_nodes st n"
proof -
  let ?h = "wait_nodes st"
  obtain c' l' where a: "dseg ?h 0 (wq_head wq) as c' l'" "dseg ?h l' c' (node # bs) 0 (wq_tail wq)"
    using assms(1) by (auto simp: wq_list_def dseg_append)
  have p: "wn_prev (?h node) = (if as = [] then 0 else last as)"
    using dseg_last[OF a(1)] a(2) by simp
  have x: "wn_next (?h node) = (if bs = [] then 0 else hd bs)"
  proof -
    have "dseg ?h node (wn_next (?h node)) bs 0 (wq_tail wq)" using a(2) by simp
    then show ?thesis by (rule dseg_first)
  qed
  define h1 where "h1 = (if wn_prev (?h node) \<noteq> 0 then set_next ?h (wn_prev (?h node)) (wn_next (?h node)) else ?h)"
  define h2 where "h2 = (if wn_next (h1 node) \<noteq> 0 then set_prev h1 (wn_next (h1 node)) (wn_prev (h1 node)) else h1)"
  have r: "wait_nodes (fst (wq_remove st wq node)) = set_next (set_prev h2 node 0) node 0"
    by (simp add: wq_remove_def h1_def h2_def Let_def)
  have pn: "wn_prev (?h node) \<noteq> 0 \<Longrightarrow> wn_prev (?h node) \<noteq> n \<and> wn_prev (?h node) \<noteq> node"
    using p assms by (auto simp: wq_list_def split: if_splits)
  then have h1: "h1 n = ?h n" "h1 node = ?h node"
    by (auto simp: h1_def set_link_other)
  have "wn_next (?h node) \<noteq> 0 \<Longrightarrow> wn_next (?h node) \<noteq> n"
    using x assms(2) by (auto split: if_splits)
  then have "h2 n = ?h n"
    using h1 by (auto simp: h2_def set_link_other)
  moreover have "n \<noteq> node"
    using assms(2) by auto
  ultimately show ?thesis
    unfolding r by (simp add: set_link_other)
qed

subsection \<open>What waking a node does\<close>

text \<open>Every node of the queue belongs to a process of the table.\<close>

definition wq_procs_ok :: "kernel_state \<Rightarrow> u64 list \<Rightarrow> bool" where
  "wq_procs_ok st xs \<longleftrightarrow> (\<forall>n \<in> set xs. \<forall>i. wn_proc (wait_nodes st n) = Some i \<longrightarrow> i < process_count st)"

lemma wq_remove_frame:
  "processes (fst (wq_remove st wq node)) = processes st"
  "process_count (fst (wq_remove st wq node)) = process_count st"
  "current_process (fst (wq_remove st wq node)) = current_process st"
  "wn_proc (wait_nodes (fst (wq_remove st wq node)) n) = wn_proc (wait_nodes st n)"
  by (simp_all add: wq_remove_def Let_def split_beta)

lemma wq_add_frame:
  "processes (fst (wq_add st wq node)) = processes st"
  "process_count (fst (wq_add st wq node)) = process_count st"
  "current_process (fst (wq_add st wq node)) = current_process st"
  "wn_proc (wait_nodes (fst (wq_add st wq node)) n) = wn_proc (wait_nodes st n)"
  by (simp_all add: wq_add_def Let_def split_beta)

lemma wait_nodes_set_state [simp]: "wait_nodes (set_state st i s) = wait_nodes st"
  by (simp add: set_state_def)

lemma wait_nodes_enqueue [simp]:
  "wait_nodes (enqueue_process st pid) = wait_nodes st"
  "process_count (enqueue_process st pid) = process_count st"
  "current_process (enqueue_process st pid) = current_process st"
  by (simp_all add: enqueue_process_def)

lemma wq_list_set_state [simp]: "wq_list (set_state st i s) wq xs = wq_list st wq xs"
  by (simp add: wq_list_def)

lemma wq_list_enqueue [simp]: "wq_list (enqueue_process st pid) wq xs = wq_list st wq xs"
  by (simp add: wq_list_def)

lemma process_inv_nodes:
  assumes "processes st = processes st'" "process_count st = process_count st'" "current_process st = current_process st'"
  shows "process_inv st = process_inv st'"
  using assms by (simp add: process_inv_def state_of_def)

lemma wq_wake_node_effect:
  assumes inv: "process_inv st" and w: "wn_proc (wait_nodes st node) = Some i" "i < process_count st"
    and r: "wq_wake_node st wq node = (st', wq')"
  shows "process_inv st'" "process_count st' = process_count st" "current_process st' = current_process st"
    and "wait_nodes st' = wait_nodes (fst (wq_remove st wq node))" "wq' = snd (wq_remove st wq node)"
    and "state_of st' j = (if j = i then PROCESS_READY else state_of st j)"
proof -
  let ?s1 = "fst (wq_remove st wq node)"
  let ?s2 = "set_state ?s1 i PROCESS_READY"
  have i1: "process_inv ?s1"
    using inv process_inv_nodes[of ?s1 st] by (simp add: wq_remove_frame)
  have i2: "process_inv ?s2"
    using w(2) by (intro process_inv_set_state i1) (auto simp: wq_remove_frame)
  have st': "st' = enqueue_process ?s2 (p_id (processes ?s2 ! i))" "wq' = snd (wq_remove st wq node)"
    using r w(1) by (auto simp: wq_wake_node_def Let_def split_beta)
  have id: "unat (p_id (processes ?s2 ! i)) = i"
    using process_invD(5)[OF i2, of i] w(2) process_invD(3)[OF inv]
    by (simp add: wq_remove_frame unat_of_nat PROCESS_MAX_def)
  have len: "i < length (processes ?s1)"
    using process_invD(1,3)[OF inv] w(2) by (simp add: wq_remove_frame)
  show "process_inv st'" unfolding st' by (rule enqueue_process_inv[OF i2])
  show "process_count st' = process_count st" "current_process st' = current_process st"
    "wait_nodes st' = wait_nodes ?s1" "wq' = snd (wq_remove st wq node)"
    using st' by (simp_all add: wq_remove_frame)
  show "state_of st' j = (if j = i then PROCESS_READY else state_of st j)"
    using len id by (auto simp: st' enqueue_process_def state_of_def set_state_def wq_remove_frame nth_list_update)
qed

lemma dseg_next: "dseg h p c (x # xs) 0 l \<Longrightarrow> wn_next (h x) = (if xs = [] then 0 else hd xs)"
  using dseg_first[of h x "wn_next (h x)" xs 0 l] by simp

lemma wq_list_next:
  assumes "wq_list st wq (as @ x # bs)"
  shows "wn_next (wait_nodes st x) = (if bs = [] then 0 else hd bs)" "x \<noteq> 0"
proof -
  obtain c l where "dseg (wait_nodes st) l c (x # bs) 0 (wq_tail wq)"
    using assms by (auto simp only: wq_list_def dseg_append)
  then show "wn_next (wait_nodes st x) = (if bs = [] then 0 else hd bs)" "x \<noteq> 0"
    by (rule dseg_next) (use \<open>dseg (wait_nodes st) l c (x # bs) 0 (wq_tail wq)\<close> in simp)
qed

subsection \<open>Waking as an operation on the list of waiters\<close>

lemma wake_one_loop_list:
  "wq_list st wq (as @ bs) \<Longrightarrow>
   wake_one_loop st wq (if bs = [] then 0 else hd bs) =
     Some (case List.find (wn_waiting st) bs of None \<Rightarrow> (st, wq) | Some n \<Rightarrow> wq_wake_node st wq n)"
proof (induction bs arbitrary: as)
  case Nil
  then show ?case by (subst wake_one_loop.simps) simp
next
  case (Cons x bs)
  have nx: "wn_next (wait_nodes st x) = (if bs = [] then 0 else hd bs)" "x \<noteq> 0"
    using wq_list_next[OF Cons.prems] .
  have "wake_one_loop st wq (wn_next (wait_nodes st x)) =
      Some (case List.find (wn_waiting st) bs of None \<Rightarrow> (st, wq) | Some n \<Rightarrow> wq_wake_node st wq n)"
    unfolding nx(1) using Cons.prems by (intro Cons.IH[of "as @ [x]"]) simp
  then show ?case
    by (subst wake_one_loop.simps) (simp add: nx(2))
qed

lemma wq_list_head: "wq_list st wq xs \<Longrightarrow> wq_head wq = (if xs = [] then 0 else hd xs)"
  unfolding wq_list_def by (rule dseg_first) (erule conjunct1)

lemma wake_one_list:
  assumes "wq_list st wq xs"
  shows "wait_queue_wake_one st wq =
    Some (case List.find (wn_waiting st) xs of None \<Rightarrow> (st, wq) | Some n \<Rightarrow> wq_wake_node st wq n)"
  unfolding wait_queue_wake_one_def wq_list_head[OF assms]
  using assms by (intro wake_one_loop_list[of _ _ "[]"]) simp

lemma wake_all_loop_list:
  assumes "process_inv st" "wq_list st wq (as @ bs)" "wq_procs_ok st (as @ bs)"
    and "\<forall>n \<in> set as. \<not> wn_waiting st n"
  shows "\<exists>st' wq' ys. wake_all_loop st wq (if bs = [] then 0 else hd bs) = Some (st', wq') \<and>
    wq_list st' wq' ys \<and> subseq ys (as @ bs) \<and> (\<forall>n \<in> set ys. \<not> wn_waiting st' n) \<and>
    process_inv st' \<and> process_count st' = process_count st \<and> current_process st' = current_process st \<and>
    (\<forall>n. n \<notin> set (as @ bs) \<longrightarrow> wait_nodes st' n = wait_nodes st n) \<and>
    (\<forall>n. wn_proc (wait_nodes st' n) = wn_proc (wait_nodes st n)) \<and>
    (\<forall>i. state_of st' i = (if state_of st i = PROCESS_WAITING \<and> (\<exists>n \<in> set bs. wn_proc (wait_nodes st n) = Some i)
                           then PROCESS_READY else state_of st i))"
  using assms
proof (induction bs arbitrary: as st wq)
  case Nil
  have "wake_all_loop st wq 0 = Some (st, wq)"
    by (subst wake_all_loop.simps) simp
  with Nil show ?case
    by (intro exI[of _ st] exI[of _ wq] exI[of _ as]) simp
next
  case (Cons x bs)
  note inv = Cons.prems(1) and lst = Cons.prems(2) and ok = Cons.prems(3) and nw = Cons.prems(4)
  have nx: "wn_next (wait_nodes st x) = (if bs = [] then 0 else hd bs)" "x \<noteq> 0"
    using wq_list_next[OF lst] .
  show ?case
  proof (cases "wn_waiting st x")
    case False
    have e: "wake_all_loop st wq x = wake_all_loop st wq (if bs = [] then 0 else hd bs)"
      using False by (subst wake_all_loop.simps) (simp only: nx if_False Let_def)
    have l: "wq_list st wq ((as @ [x]) @ bs)" "wq_procs_ok st ((as @ [x]) @ bs)"
      "\<forall>n \<in> set (as @ [x]). \<not> wn_waiting st n"
      using lst ok nw False by auto
    have x: "wn_proc (wait_nodes st x) = Some i \<Longrightarrow> state_of st i \<noteq> PROCESS_WAITING" for i
      using False by (simp add: wn_waiting_def)
    have s: "(if state_of st i = PROCESS_WAITING \<and> (\<exists>n \<in> set (x # bs). wn_proc (wait_nodes st n) = Some i)
               then PROCESS_READY else state_of st i) =
             (if state_of st i = PROCESS_WAITING \<and> (\<exists>n \<in> set bs. wn_proc (wait_nodes st n) = Some i)
               then PROCESS_READY else state_of st i)" for i
      using x[of i] by (cases "wn_proc (wait_nodes st x) = Some i") simp_all
    show ?thesis
      using Cons.IH[OF inv l] unfolding s by (simp add: e)
  next
    case True
    then obtain i where i: "wn_proc (wait_nodes st x) = Some i" "state_of st i = PROCESS_WAITING"
      by (auto simp: wn_waiting_def split: option.splits)
    have ic: "i < process_count st" using ok i by (auto simp: wq_procs_ok_def)
    obtain st1 wq1 where w: "wq_wake_node st wq x = (st1, wq1)"
      by (cases "wq_wake_node st wq x")
    note ef = wq_wake_node_effect[OF inv i(1) ic w]
    have e: "wake_all_loop st wq x = wake_all_loop st1 wq1 (if bs = [] then 0 else hd bs)"
      using True w by (subst wake_all_loop.simps) (simp only: nx if_False if_True Let_def prod.case)
    have pr: "wn_proc (wait_nodes st1 n) = wn_proc (wait_nodes st n)" for n
      by (simp add: ef(4) wq_remove_frame)
    have l: "wq_list st1 wq1 (as @ bs)"
      using wq_remove_list[OF lst] ef(4,5) by (simp add: wq_list_def)
    have ok1: "wq_procs_ok st1 (as @ bs)"
      using ok by (auto simp: wq_procs_ok_def pr ef(2))
    have nw1: "\<forall>n \<in> set as. \<not> wn_waiting st1 n"
      using nw by (auto simp: wn_waiting_def pr ef(6) split: option.splits)
    obtain st' wq' ys where r: "wake_all_loop st1 wq1 (if bs = [] then 0 else hd bs) = Some (st', wq')"
      "wq_list st' wq' ys" "subseq ys (as @ bs)" "\<forall>n \<in> set ys. \<not> wn_waiting st' n" "process_inv st'"
      "process_count st' = process_count st1" "current_process st' = current_process st1"
      "\<forall>n. n \<notin> set (as @ bs) \<longrightarrow> wait_nodes st' n = wait_nodes st1 n"
      "\<forall>n. wn_proc (wait_nodes st' n) = wn_proc (wait_nodes st1 n)"
      "\<forall>j. state_of st' j = (if state_of st1 j = PROCESS_WAITING \<and> (\<exists>n \<in> set bs. wn_proc (wait_nodes st1 n) = Some j)
                             then PROCESS_READY else state_of st1 j)"
      using Cons.IH[OF ef(1) l ok1 nw1] by blast
    have "subseq (as @ bs) (as @ x # bs)"
      by (simp add: list_emb_append_mono subseq_Cons')
    then have sub: "subseq ys (as @ x # bs)"
      using r(3) subseq_order.order_trans by blast
    have sts: "\<forall>j. state_of st' j = (if state_of st j = PROCESS_WAITING \<and> (\<exists>n \<in> set (x # bs). wn_proc (wait_nodes st n) = Some j)
                             then PROCESS_READY else state_of st j)"
    proof
      fix j
      show "state_of st' j = (if state_of st j = PROCESS_WAITING \<and> (\<exists>n \<in> set (x # bs). wn_proc (wait_nodes st n) = Some j)
                             then PROCESS_READY else state_of st j)"
        using i by (cases "j = i") (simp_all add: r(10) pr ef(6))
    qed
    have run: "wake_all_loop st wq (if x # bs = [] then 0 else hd (x # bs)) = Some (st', wq')"
      using e r(1) by simp
    have rest: "process_count st' = process_count st" "current_process st' = current_process st"
      "\<forall>n. wn_proc (wait_nodes st' n) = wn_proc (wait_nodes st n)"
      using r(6,7,9) ef(2,3) pr by simp_all
    have frame: "\<forall>n. n \<notin> set (as @ x # bs) \<longrightarrow> wait_nodes st' n = wait_nodes st n"
      using r(8) wq_remove_outside[OF lst] ef(4) by simp
    show ?thesis
      using run r(2) sub r(4,5) rest sts frame by blast
  qed
qed

lemma wake_all_list:
  assumes "process_inv st" "wq_list st wq xs" "wq_procs_ok st xs"
  obtains st' wq' ys where "wait_queue_wake_all st wq = Some (st', wq')" "wq_list st' wq' ys"
    "subseq ys xs" "\<forall>n \<in> set ys. \<not> wn_waiting st' n"
    "process_inv st'" "process_count st' = process_count st" "current_process st' = current_process st"
    "\<forall>n. n \<notin> set xs \<longrightarrow> wait_nodes st' n = wait_nodes st n"
    "\<forall>n. wn_proc (wait_nodes st' n) = wn_proc (wait_nodes st n)"
    "\<forall>i. state_of st' i = (if state_of st i = PROCESS_WAITING \<and> (\<exists>n \<in> set xs. wn_proc (wait_nodes st n) = Some i)
                           then PROCESS_READY else state_of st i)"
proof -
  have "wq_list st wq ([] @ xs)" "wq_procs_ok st ([] @ xs)" "\<forall>n \<in> set []. \<not> wn_waiting st n"
    using assms by simp_all
  from wake_all_loop_list[OF assms(1) this] show thesis
    unfolding wait_queue_wake_all_def[symmetric] wq_list_head[OF assms(2), symmetric] append_Nil
    using that by blast
qed

lemma wn_waitingE:
  assumes "wn_waiting st n" "wq_procs_ok st xs" "n \<in> set xs"
  obtains i where "wn_proc (wait_nodes st n) = Some i" "state_of st i = PROCESS_WAITING" "i < process_count st"
  using assms by (auto simp: wn_waiting_def wq_procs_ok_def split: option.splits)

lemma wake_one_effect:
  assumes "process_inv st" "wq_list st wq xs" "wq_procs_ok st xs"
    and f: "List.find (wn_waiting st) xs = Some n"
  obtains st' wq' i where "wait_queue_wake_one st wq = Some (st', wq')" "wq_list st' wq' (remove1 n xs)"
    "wn_proc (wait_nodes st n) = Some i" "state_of st i = PROCESS_WAITING" "i < process_count st"
    "process_inv st'" "process_count st' = process_count st" "current_process st' = current_process st"
    "\<forall>m. wn_proc (wait_nodes st' m) = wn_proc (wait_nodes st m)"
    "\<forall>j. state_of st' j = (if j = i then PROCESS_READY else state_of st j)"
proof -
  obtain k where k: "k < length xs" "wn_waiting st (xs ! k)" "n = xs ! k"
    using f by (auto simp: find_Some_iff)
  then have n: "n \<in> set xs" "wn_waiting st n" by auto
  then obtain i where i: "wn_proc (wait_nodes st n) = Some i" "state_of st i = PROCESS_WAITING" "i < process_count st"
    using wn_waitingE[OF _ assms(3)] by metis
  obtain as bs where xs: "xs = as @ n # bs" "n \<notin> set as"
    using split_list_first[OF n(1)] by blast
  obtain st' wq' where w: "wq_wake_node st wq n = (st', wq')"
    by (cases "wq_wake_node st wq n")
  note ef = wq_wake_node_effect[OF assms(1) i(1,3) w]
  have "wq_list st' wq' (as @ bs)"
    using wq_remove_list[of st wq as n bs] assms(2) xs(1) ef(4,5) by (simp add: wq_list_def)
  moreover have "remove1 n xs = as @ bs"
    using xs by (simp add: remove1_append)
  moreover have "wait_queue_wake_one st wq = Some (st', wq')"
    using wake_one_list[OF assms(2)] f w by simp
  ultimately show thesis
    using that[of st' wq' i] i ef by (simp add: wq_remove_frame)
qed

lemma wait_enter_list:
  assumes "wq_list st wq xs" "node \<noteq> 0" "node \<notin> set xs"
  shows "wq_list (fst (wait_enter st wq node)) (snd (wait_enter st wq node)) (xs @ [node])"
proof -
  let ?st = "st\<lparr>wait_nodes := (wait_nodes st)(node := \<lparr>wn_proc = Some (current_process st), wn_next = 0, wn_prev = 0\<rparr>)\<rparr>"
  have "wq_list ?st wq xs"
    using assms by (simp add: wq_list_def)
  then show ?thesis
    using wq_add_list[of ?st wq xs node] assms by (simp add: wait_enter_def Let_def split_beta)
qed

lemma wait_enter_frame:
  "process_count (fst (wait_enter st wq node)) = process_count st"
  "current_process (fst (wait_enter st wq node)) = current_process st"
  "wn_proc (wait_nodes (fst (wait_enter st wq node)) n) =
     (if n = node then Some (current_process st) else wn_proc (wait_nodes st n))"
  by (simp_all add: wait_enter_def Let_def split_beta wq_add_frame)

lemma wait_enter_states:
  assumes "process_inv st" "current_process st < process_count st"
  shows "state_of (fst (wait_enter st wq node)) i =
      (if i = current_process st then PROCESS_WAITING else state_of st i)"
    and "process_inv (fst (wait_enter st wq node))"
proof -
  let ?s0 = "st\<lparr>wait_nodes := (wait_nodes st)(node := \<lparr>wn_proc = Some (current_process st), wn_next = 0, wn_prev = 0\<rparr>)\<rparr>"
  let ?s1 = "fst (wq_add ?s0 wq node)"
  have e: "fst (wait_enter st wq node) = set_state ?s1 (current_process st) PROCESS_WAITING"
    by (simp add: wait_enter_def Let_def split_beta)
  have i1: "process_inv ?s1"
    using assms process_inv_nodes[of ?s1 st] by (simp add: wq_add_frame)
  show "process_inv (fst (wait_enter st wq node))"
    unfolding e using assms(2) by (intro process_inv_set_state i1) (auto simp: wq_add_frame)
  have "state_of ?s1 i = state_of st i" "current_process st < length (processes ?s1)"
    using process_invD(1,2)[OF assms(1)] by (simp_all add: state_of_def wq_add_frame)
  then show "state_of (fst (wait_enter st wq node)) i =
      (if i = current_process st then PROCESS_WAITING else state_of st i)"
    unfolding e by simp
qed

subsection \<open>A waiting process\<close>

definition boot_kernel :: kernel_state where
  "boot_kernel = process_state.extend two_processes
     (kernel_state.fields (\<lambda>_. \<lparr>wn_proc = None, wn_next = 0, wn_prev = 0\<rparr>))"

lemma boot_kernel_inv: "process_inv boot_kernel" "process_count boot_kernel = 2"
    "current_process boot_kernel = 0" "state_of boot_kernel 0 = PROCESS_READY"
    "state_of boot_kernel 1 = PROCESS_READY"
proof -
  have e: "processes boot_kernel = processes two_processes" "process_count boot_kernel = process_count two_processes"
    "current_process boot_kernel = current_process two_processes"
    by (simp_all add: boot_kernel_def process_state.defs kernel_state.defs)
  show "process_inv boot_kernel"
    using process_inv_nodes[OF e] two_processes_inv(1) by simp
  show "process_count boot_kernel = 2" "current_process boot_kernel = 0"
    "state_of boot_kernel 0 = PROCESS_READY" "state_of boot_kernel 1 = PROCESS_READY"
    using e two_processes_inv by (simp_all add: state_of_def)
qed

definition waiting_kernel :: kernel_state where
  "waiting_kernel = fst (wait_enter boot_kernel wait_queue_init 0x9000)"

definition waiting_queue :: wait_queue where
  "waiting_queue = snd (wait_enter boot_kernel wait_queue_init 0x9000)"

lemma waiting_kernel_ok: "process_inv waiting_kernel" "wq_list waiting_kernel waiting_queue [0x9000]"
    "wq_procs_ok waiting_kernel [0x9000]" "wn_waiting waiting_kernel 0x9000"
    "state_of waiting_kernel 0 = PROCESS_WAITING" "wn_proc (wait_nodes waiting_kernel 0x9000) = Some 0"
proof -
  note inv = boot_kernel_inv
  show "process_inv waiting_kernel"
    unfolding waiting_kernel_def by (rule wait_enter_states) (simp_all add: inv)
  have "wq_list waiting_kernel waiting_queue ([] @ [0x9000])"
    unfolding waiting_kernel_def waiting_queue_def by (rule wait_enter_list) simp_all
  then show "wq_list waiting_kernel waiting_queue [0x9000]" by simp
  show p: "wn_proc (wait_nodes waiting_kernel 0x9000) = Some 0"
    by (simp add: waiting_kernel_def wait_enter_frame inv)
  then show "wq_procs_ok waiting_kernel [0x9000]"
    by (simp add: wq_procs_ok_def waiting_kernel_def wait_enter_frame inv)
  show s: "state_of waiting_kernel 0 = PROCESS_WAITING"
    using wait_enter_states(1)[of boot_kernel wait_queue_init "0x9000" 0]
    by (simp add: waiting_kernel_def inv)
  show "wn_waiting waiting_kernel 0x9000"
    by (simp add: wn_waiting_def p s)
qed

subsection \<open>Properties\<close>

text \<open>C14. \<open>wait_queue_wake_one\<close> on a well-formed queue returns and wakes the longest-waiting
  process: the first queued node whose process is still waiting leaves the queue, the others
  keep their order, exactly that process becomes ready, and the pointers still form a doubly
  linked list. When no queued process is waiting, nothing changes.\<close>
theorem wake_one_wakes_first:
  assumes "process_inv st" "wq_list st wq xs" "wq_procs_ok st xs"
  shows "\<exists>st' wq'. wait_queue_wake_one st wq = Some (st', wq') \<and> process_inv st' \<and>
    (case List.find (wn_waiting st) xs of
       None \<Rightarrow> st' = st \<and> wq' = wq
     | Some n \<Rightarrow> wq_list st' wq' (remove1 n xs) \<and>
         (\<exists>i. wn_proc (wait_nodes st n) = Some i \<and> state_of st i = PROCESS_WAITING \<and>
            (\<forall>j. state_of st' j = (if j = i then PROCESS_READY else state_of st j))))"
proof (cases "List.find (wn_waiting st) xs")
  case None
  then show ?thesis
    using wake_one_list[OF assms(2)] assms(1) by simp
next
  case (Some n)
  then show ?thesis
    unfolding Some option.case by - (rule wake_one_effect[OF assms Some], blast)
qed

theorem wake_one_wakes_first_witness:
  "\<exists>st' wq'. wait_queue_wake_one waiting_kernel waiting_queue = Some (st', wq') \<and>
     wq_list st' wq' [] \<and> state_of st' 0 = PROCESS_READY"
  using wake_one_wakes_first[OF waiting_kernel_ok(1-3)] waiting_kernel_ok(4,6) by auto

text \<open>\<open>wait_queue_wake_all\<close> on a well-formed queue returns; afterwards every process that
  was waiting with a node in the queue is ready, no other process has changed state, the
  remaining nodes are queued in their old order and none of them is waiting.\<close>
theorem wake_all_wakes_everyone:
  assumes "process_inv st" "wq_list st wq xs" "wq_procs_ok st xs"
  shows "\<exists>st' wq' ys. wait_queue_wake_all st wq = Some (st', wq') \<and> process_inv st' \<and>
    wq_list st' wq' ys \<and> subseq ys xs \<and> (\<forall>n \<in> set ys. \<not> wn_waiting st' n) \<and>
    (\<forall>i. state_of st' i = (if state_of st i = PROCESS_WAITING \<and> (\<exists>n \<in> set xs. wn_proc (wait_nodes st n) = Some i)
                           then PROCESS_READY else state_of st i))"
  by (rule wake_all_list[OF assms]) blast

theorem wake_all_wakes_everyone_witness:
  "\<exists>st' wq'. wait_queue_wake_all waiting_kernel waiting_queue = Some (st', wq') \<and>
     state_of st' 0 = PROCESS_READY"
  using wake_all_wakes_everyone[OF waiting_kernel_ok(1-3)] waiting_kernel_ok(5,6) by auto

end
