(* ===== verification/Sync.thy ===== *)
theory Sync
  imports Wait_Queue
begin

section \<open>Semaphores, mutexes, condition variables, completions and barriers\<close>

text \<open>
  \<open>kernel/kernel/sync.c\<close>. Each function links and unlinks wait nodes with the statements of
  \<open>__wq_add\<close>, \<open>__wq_remove\<close> and the two wake loops of \<open>wait.c\<close> written out again; the model
  calls the definitions of those. A function that can suspend its caller is split at
  \<open>process_yield\<close>: the first part ends with the yield, and a definition of its own is what
  the caller executes once it is scheduled again. \<open>node\<close> is the address of the wait node on
  the caller's stack. A traversal of a corrupted queue does not return; it is \<open>None\<close>.
  The counter of a semaphore (\<open>int32_t\<close>) is an integer: it stays in range as long as fewer
  than \<open>2 ^ 31\<close> processes wait.
\<close>

subsection \<open>Semaphores\<close>

record semaphore =
  sem_count :: int
  sem_waiters :: wait_queue

definition semaphore_init :: "int \<Rightarrow> semaphore" where
  "semaphore_init initial = \<lparr>sem_count = initial, sem_waiters = wait_queue_init\<rparr>"

definition semaphore_down :: "kernel_state \<Rightarrow> semaphore \<Rightarrow> u64 \<Rightarrow> kernel_state \<times> semaphore" where
  "semaphore_down st sem node =
     (let sem1 = sem\<lparr>sem_count := sem_count sem - 1\<rparr> in
      if sem_count sem1 < 0
      then (let (st', wq') = wait_enter st (sem_waiters sem1) node
            in (process_yield st', sem1\<lparr>sem_waiters := wq'\<rparr>))
      else (st, sem1))"

text \<open>
  With a timeout: the entry returns at once (\<open>None\<close>) or waits with a deadline; the body of
  the wait loop, run after each yield while the caller is still marked waiting, gives up
  (result \<open>-1\<close>) once the deadline has passed. Leaving the loop otherwise returns 0.
\<close>

definition semaphore_down_timeout_enter ::
  "kernel_state \<Rightarrow> semaphore \<Rightarrow> u64 \<Rightarrow> u64 \<Rightarrow> u64 \<Rightarrow> u64 option \<times> kernel_state \<times> semaphore" where
  "semaphore_down_timeout_enter st sem node ms jiffies =
     (let sem1 = sem\<lparr>sem_count := sem_count sem - 1\<rparr> in
      if sem_count sem1 < 0
      then (let deadline = (if ms > 0 then jiffies + timer_ms_to_jiffies ms else 0);
                (st', wq') = wait_enter st (sem_waiters sem1) node
            in (Some deadline, st', sem1\<lparr>sem_waiters := wq'\<rparr>))
      else (None, st, sem1))"

definition semaphore_down_timeout_body ::
  "kernel_state \<Rightarrow> semaphore \<Rightarrow> u64 \<Rightarrow> u64 \<Rightarrow> u64 \<Rightarrow> u64 \<Rightarrow> (kernel_state \<times> semaphore) option" where
  "semaphore_down_timeout_body st sem node ms deadline jiffies =
     (if ms > 0 \<and> jiffies \<ge> deadline
      then (let (st', wq') = (if wq_linked st (sem_waiters sem) node
                              then wq_remove st (sem_waiters sem) node else (st, sem_waiters sem))
            in Some (st', \<lparr>sem_count = sem_count sem + 1, sem_waiters = wq'\<rparr>))
      else None)"

definition semaphore_up :: "kernel_state \<Rightarrow> semaphore \<Rightarrow> (kernel_state \<times> semaphore) option" where
  "semaphore_up st sem =
     (let sem1 = sem\<lparr>sem_count := sem_count sem + 1\<rparr> in
      if sem_count sem1 \<le> 0
      then map_option (\<lambda>(st', wq'). (st', sem1\<lparr>sem_waiters := wq'\<rparr>)) (wait_queue_wake_one st (sem_waiters sem1))
      else Some (st, sem1))"

definition semaphore_get_value :: "semaphore \<Rightarrow> int" where
  "semaphore_get_value sem = sem_count sem"

subsection \<open>Mutexes\<close>

record mutex =
  mtx_locked :: u32
  mtx_owner :: u64
  mtx_recurse_count :: u32
  mtx_waiters :: wait_queue

definition mutex_init :: mutex where
  "mutex_init = \<lparr>mtx_locked = 0, mtx_owner = - 1, mtx_recurse_count = 0, mtx_waiters = wait_queue_init\<rparr>"

definition self_id :: "kernel_state \<Rightarrow> u64" where
  "self_id st = p_id (processes st ! current_process st)"

text \<open>
  One turn of \<open>while (mtx->locked)\<close> with what follows the loop. The boolean says that
  \<open>mutex_lock\<close> has returned; otherwise the caller has yielded and makes another turn,
  with the same \<open>self\<close>, when it runs again.
\<close>

definition mutex_lock_turn ::
  "kernel_state \<Rightarrow> mutex \<Rightarrow> u64 \<Rightarrow> u64 \<Rightarrow> bool \<times> kernel_state \<times> mutex" where
  "mutex_lock_turn st m self node =
     (if mtx_locked m \<noteq> 0
      then (let (st', wq') = wait_enter st (mtx_waiters m) node
            in (False, process_yield st', m\<lparr>mtx_waiters := wq'\<rparr>))
      else (True, st, m\<lparr>mtx_locked := 1, mtx_owner := self, mtx_recurse_count := 1\<rparr>))"

definition mutex_lock :: "kernel_state \<Rightarrow> mutex \<Rightarrow> u64 \<Rightarrow> bool \<times> kernel_state \<times> mutex" where
  "mutex_lock st m node =
     (let self = self_id st in
      if mtx_locked m \<noteq> 0 \<and> mtx_owner m = self
      then (True, st, m\<lparr>mtx_recurse_count := mtx_recurse_count m + 1\<rparr>)
      else mutex_lock_turn st m self node)"

definition mutex_trylock :: "kernel_state \<Rightarrow> mutex \<Rightarrow> int \<times> mutex" where
  "mutex_trylock st m =
     (let self = self_id st in
      if mtx_locked m = 0 then (1, m\<lparr>mtx_locked := 1, mtx_owner := self, mtx_recurse_count := 1\<rparr>)
      else if mtx_owner m = self then (1, m\<lparr>mtx_recurse_count := mtx_recurse_count m + 1\<rparr>)
      else (0, m))"

definition mutex_unlock :: "kernel_state \<Rightarrow> mutex \<Rightarrow> (kernel_state \<times> mutex) option" where
  "mutex_unlock st m =
     (if mtx_locked m = 0 then Some (st, m)
      else let m1 = m\<lparr>mtx_recurse_count := mtx_recurse_count m - 1\<rparr> in
        if mtx_recurse_count m1 > 0 then Some (st, m1)
        else map_option (\<lambda>(st', wq'). (st', m1\<lparr>mtx_locked := 0, mtx_owner := - 1, mtx_waiters := wq'\<rparr>))
               (wait_queue_wake_one st (mtx_waiters m1)))"

definition mutex_is_locked :: "mutex \<Rightarrow> u32" where
  "mutex_is_locked m = mtx_locked m"

subsection \<open>Condition variables\<close>

record condvar =
  cv_waiters :: wait_queue

definition condvar_init :: condvar where
  "condvar_init = \<lparr>cv_waiters = wait_queue_init\<rparr>"

text \<open>
  \<open>condvar_wait\<close> up to its yield; the caller then calls \<open>mutex_lock\<close> when it runs again.
\<close>

definition condvar_wait ::
  "kernel_state \<Rightarrow> condvar \<Rightarrow> mutex \<Rightarrow> u64 \<Rightarrow> (kernel_state \<times> condvar \<times> mutex) option" where
  "condvar_wait st cv m node =
     (let (st1, wq') = wait_enter st (cv_waiters cv) node in
      map_option (\<lambda>(st2, m'). (process_yield st2, cv\<lparr>cv_waiters := wq'\<rparr>, m')) (mutex_unlock st1 m))"

definition condvar_wait_timeout_enter ::
  "kernel_state \<Rightarrow> condvar \<Rightarrow> mutex \<Rightarrow> u64 \<Rightarrow> u64 \<Rightarrow> u64 \<Rightarrow> (u64 \<times> kernel_state \<times> condvar \<times> mutex) option" where
  "condvar_wait_timeout_enter st cv m node ms jiffies =
     (let deadline = (if ms > 0 then jiffies + timer_ms_to_jiffies ms else 0);
          (st1, wq') = wait_enter st (cv_waiters cv) node in
      map_option (\<lambda>(st2, m'). (deadline, st2, cv\<lparr>cv_waiters := wq'\<rparr>, m')) (mutex_unlock st1 m))"

text \<open>
  The loop body once the yield has returned: past the deadline the node is unlinked and the
  caller goes on to \<open>mutex_lock\<close> and returns \<open>-1\<close>.
\<close>

definition condvar_wait_timeout_body ::
  "kernel_state \<Rightarrow> condvar \<Rightarrow> u64 \<Rightarrow> u64 \<Rightarrow> u64 \<Rightarrow> u64 \<Rightarrow> (kernel_state \<times> condvar) option" where
  "condvar_wait_timeout_body st cv node ms deadline jiffies =
     (if ms > 0 \<and> jiffies \<ge> deadline
      then (let (st', wq') = (if wq_linked st (cv_waiters cv) node
                              then wq_remove st (cv_waiters cv) node else (st, cv_waiters cv))
            in Some (st', cv\<lparr>cv_waiters := wq'\<rparr>))
      else None)"

definition condvar_signal :: "kernel_state \<Rightarrow> condvar \<Rightarrow> (kernel_state \<times> condvar) option" where
  "condvar_signal st cv =
     map_option (\<lambda>(st', wq'). (st', cv\<lparr>cv_waiters := wq'\<rparr>)) (wait_queue_wake_one st (cv_waiters cv))"

definition condvar_broadcast :: "kernel_state \<Rightarrow> condvar \<Rightarrow> (kernel_state \<times> condvar) option" where
  "condvar_broadcast st cv =
     map_option (\<lambda>(st', wq'). (st', cv\<lparr>cv_waiters := wq'\<rparr>)) (wait_queue_wake_all st (cv_waiters cv))"

subsection \<open>Completions\<close>

record completion =
  c_done :: bool
  c_waiters :: wait_queue

definition completion_init :: completion where
  "completion_init = \<lparr>c_done = False, c_waiters = wait_queue_init\<rparr>"

definition completion_wait :: "kernel_state \<Rightarrow> completion \<Rightarrow> u64 \<Rightarrow> kernel_state \<times> completion" where
  "completion_wait st c node =
     (if c_done c then (st, c)
      else let (st', wq') = wait_enter st (c_waiters c) node
        in (process_yield st', c\<lparr>c_waiters := wq'\<rparr>))"

definition completion_complete :: "kernel_state \<Rightarrow> completion \<Rightarrow> (kernel_state \<times> completion) option" where
  "completion_complete st c =
     (if c_done c then Some (st, c)
      else map_option (\<lambda>(st', wq'). (st', \<lparr>c_done = True, c_waiters = wq'\<rparr>))
             (wait_queue_wake_all st (c_waiters c)))"

subsection \<open>Barriers\<close>

record barrier =
  b_count :: u32
  b_waiting :: u32
  b_threshold :: u32
  b_waiters :: wait_queue

definition barrier_init :: "u32 \<Rightarrow> barrier" where
  "barrier_init threshold =
     \<lparr>b_count = 0, b_waiting = 0, b_threshold = threshold, b_waiters = wait_queue_init\<rparr>"

definition barrier_wait :: "kernel_state \<Rightarrow> barrier \<Rightarrow> u64 \<Rightarrow> (kernel_state \<times> barrier) option" where
  "barrier_wait st b node =
     (let b1 = b\<lparr>b_count := b_count b + 1\<rparr> in
      if b_count b1 \<ge> b_threshold b1
      then map_option (\<lambda>(st', wq'). (st', b1\<lparr>b_count := 0, b_waiters := \<lparr>wq_head = 0, wq_tail = 0\<rparr>\<rparr>))
             (wait_queue_wake_all st (b_waiters b1))
      else let (st', wq') = wait_enter st (b_waiters b1) node
        in Some (process_yield st', b1\<lparr>b_waiters := wq'\<rparr>))"

subsection \<open>Kernel states the primitives keep\<close>

text \<open>
  A well-formed process table, a current process in it, and no wait node that names a
  process outside it. Every primitive keeps this, even on a queue with broken links.
\<close>

definition kernel_ok :: "kernel_state \<Rightarrow> bool" where
  "kernel_ok st \<longleftrightarrow> process_inv st \<and> current_process st < process_count st \<and>
     (\<forall>n i. wn_proc (wait_nodes st n) = Some i \<longrightarrow> i < process_count st)"

lemma kernel_okD:
  assumes "kernel_ok st"
  shows "process_inv st" "current_process st < process_count st"
    "wn_proc (wait_nodes st n) = Some i \<Longrightarrow> i < process_count st"
  using assms by (auto simp: kernel_ok_def)

lemma boot_kernel_ok: "kernel_ok boot_kernel"
  by (simp add: kernel_ok_def boot_kernel_inv)
    (simp add: boot_kernel_def process_state.defs kernel_state.defs)

lemma wait_enter_ok: "kernel_ok st \<Longrightarrow> kernel_ok (fst (wait_enter st wq node))"
  by (auto simp: kernel_ok_def wait_enter_frame wait_enter_states split: if_splits)

lemma wait_nodes_yield [simp]: "wait_nodes (process_yield st) = wait_nodes st"
  by (simp add: process_yield_def Let_def)

lemma process_yield_ok: "kernel_ok st \<Longrightarrow> kernel_ok (process_yield st)"
  using process_yield_inv[of st] by (simp add: kernel_ok_def)

lemma wait_yield_ok: "kernel_ok st \<Longrightarrow> kernel_ok (process_yield (fst (wait_enter st wq node)))"
  by (rule process_yield_ok[OF wait_enter_ok])

lemma wq_wake_node_ok:
  assumes "kernel_ok st" "wn_waiting st node" "wq_wake_node st wq node = (st', wq')"
  shows "kernel_ok st' \<and> current_process st' = current_process st"
proof -
  obtain i where i: "wn_proc (wait_nodes st node) = Some i"
    using assms(2) by (auto simp: wn_waiting_def split: option.splits)
  note ef = wq_wake_node_effect[OF kernel_okD(1)[OF assms(1)] i kernel_okD(3)[OF assms(1) i] assms(3)]
  show ?thesis
    using assms(1) ef by (auto simp: kernel_ok_def wq_remove_frame)
qed

lemma wake_one_ok:
  assumes "wait_queue_wake_one st wq = Some (st', wq')" "kernel_ok st"
  shows "kernel_ok st' \<and> current_process st' = current_process st"
proof -
  have "\<And>y. wake_one_loop st wq (wq_head wq) = Some y \<Longrightarrow>
    kernel_ok st \<longrightarrow> kernel_ok (fst y) \<and> current_process (fst y) = current_process st"
  proof (rule wake_one_loop.raw_induct[rotated], assumption)
    fix loop :: "kernel_state \<Rightarrow> wait_queue \<Rightarrow> u64 \<Rightarrow> (kernel_state \<times> wait_queue) option" and st wq node y
    assume IH: "\<And>st wq node y. loop st wq node = Some y \<Longrightarrow>
        kernel_ok st \<longrightarrow> kernel_ok (fst y) \<and> current_process (fst y) = current_process st"
      and r: "(if node = 0 then Some (st, wq) else if wn_waiting st node then Some (wq_wake_node st wq node)
        else loop st wq (wn_next (wait_nodes st node))) = Some y"
    show "kernel_ok st \<longrightarrow> kernel_ok (fst y) \<and> current_process (fst y) = current_process st"
      using r IH wq_wake_node_ok[of st node wq "fst y" "snd y"] by (auto split: if_splits)
  qed
  then show ?thesis
    using assms by (fastforce simp: wait_queue_wake_one_def)
qed

subsection \<open>The mutex protocol\<close>

text \<open>
  Where each process is with respect to one mutex: outside, suspended in \<open>mutex_lock\<close>, or
  holding it \<open>n\<close> times. A step is one uninterrupted piece of a call made by the current
  process, or anything else the kernel does that leaves the mutex alone. Callers unlock only
  what they hold and nest fewer than \<open>2 ^ 32\<close> times; \<open>mutex_unlock\<close> itself checks neither.
\<close>

datatype mutex_pc = Outside | Suspended | Holds nat

type_synonym mutex_sys = "kernel_state \<times> mutex \<times> (nat \<Rightarrow> mutex_pc)"

fun held :: "mutex_pc \<Rightarrow> nat" where
  "held (Holds n) = n"
| "held _ = 0"

inductive mutex_step :: "mutex_sys \<Rightarrow> mutex_sys \<Rightarrow> bool" where
  lock: "pc (current_process st) \<noteq> Suspended \<Longrightarrow> held (pc (current_process st)) + 1 < 2 ^ 32 \<Longrightarrow>
    mutex_lock st m node = (r, st', m') \<Longrightarrow>
    mutex_step (st, m, pc)
      (st', m', pc(current_process st := (if r then Holds (held (pc (current_process st)) + 1) else Suspended)))"
| retry: "pc (current_process st) = Suspended \<Longrightarrow>
    mutex_lock_turn st m (self_id st) node = (r, st', m') \<Longrightarrow>
    mutex_step (st, m, pc) (st', m', pc(current_process st := (if r then Holds 1 else Suspended)))"
| trylock: "pc (current_process st) \<noteq> Suspended \<Longrightarrow> held (pc (current_process st)) + 1 < 2 ^ 32 \<Longrightarrow>
    mutex_trylock st m = (r, m') \<Longrightarrow>
    mutex_step (st, m, pc)
      (st, m', pc(current_process st :=
        (if r = 1 then Holds (held (pc (current_process st)) + 1) else pc (current_process st))))"
| unlock: "pc (current_process st) = Holds (Suc n) \<Longrightarrow> mutex_unlock st m = Some (st', m') \<Longrightarrow>
    mutex_step (st, m, pc) (st', m', pc(current_process st := (if n = 0 then Outside else Holds n)))"
| other: "kernel_ok st' \<Longrightarrow> mutex_step (st, m, pc) (st', m, pc)"

inductive_cases mutex_stepE: "mutex_step (st, m, pc) (st', m', pc')"

definition mutex_inv :: "mutex_sys \<Rightarrow> bool" where
  "mutex_inv = (\<lambda>(st, m, pc). kernel_ok st \<and>
     (if mtx_locked m = 0 then (\<forall>p. held (pc p) = 0 \<and> pc p \<noteq> Holds 0)
      else \<exists>p < PROCESS_MAX. pc p = Holds (unat (mtx_recurse_count m)) \<and> mtx_recurse_count m \<noteq> 0 \<and>
        mtx_owner m = of_nat p \<and> (\<forall>q. q \<noteq> p \<longrightarrow> held (pc q) = 0 \<and> pc q \<noteq> Holds 0)))"

lemma self_id_eq: "kernel_ok st \<Longrightarrow> self_id st = of_nat (current_process st)"
  using process_invD(5)[of st "current_process st"] by (simp add: self_id_def kernel_ok_def)

lemma of_nat_pid_inj: "p < PROCESS_MAX \<Longrightarrow> q < PROCESS_MAX \<Longrightarrow> (of_nat p :: u64) = of_nat q \<longleftrightarrow> p = q"
  by (rule of_nat_word_inj) (auto simp: PROCESS_MAX_def)

lemma kernel_ok_current: "kernel_ok st \<Longrightarrow> current_process st < PROCESS_MAX"
  using process_invD(2) by (auto simp: kernel_ok_def)

lemma mutex_inv_free:
  "mtx_locked m = 0 \<Longrightarrow> mutex_inv (st, m, pc) \<longleftrightarrow> kernel_ok st \<and> (\<forall>p. held (pc p) = 0 \<and> pc p \<noteq> Holds 0)"
  by (simp add: mutex_inv_def)

lemma mutex_inv_taken:
  assumes "mtx_locked m \<noteq> 0"
  shows "mutex_inv (st, m, pc) \<longleftrightarrow> kernel_ok st \<and>
    (\<exists>p < PROCESS_MAX. pc p = Holds (unat (mtx_recurse_count m)) \<and> mtx_recurse_count m \<noteq> 0 \<and>
       mtx_owner m = of_nat p \<and> (\<forall>q. q \<noteq> p \<longrightarrow> held (pc q) = 0 \<and> pc q \<noteq> Holds 0))"
  using assms by (simp add: mutex_inv_def)

text \<open>Taking a free mutex, and going to sleep on a taken one.\<close>

lemma mutex_inv_acquire:
  assumes "mutex_inv (st, m, pc)" "mtx_locked m = 0" "mtx_locked m' \<noteq> 0"
    "mtx_owner m' = self_id st" "mtx_recurse_count m' = 1"
  shows "mutex_inv (st, m', pc(current_process st := Holds 1))"
proof -
  have k: "kernel_ok st" "\<forall>p. held (pc p) = 0 \<and> pc p \<noteq> Holds 0"
    using assms(1) mutex_inv_free[OF assms(2)] by auto
  then show ?thesis
    using assms(3-5) self_id_eq[OF k(1)] kernel_ok_current[OF k(1)]
    by (simp add: mutex_inv_taken)
qed

lemma mutex_inv_sleep:
  assumes "mutex_inv (st, m, pc)" "mtx_locked m \<noteq> 0" "held (pc (current_process st)) = 0"
    "kernel_ok st'" "mtx_locked m' = mtx_locked m" "mtx_owner m' = mtx_owner m"
    "mtx_recurse_count m' = mtx_recurse_count m"
  shows "mutex_inv (st', m', pc(current_process st := Suspended))"
proof -
  obtain p where p: "p < PROCESS_MAX" "pc p = Holds (unat (mtx_recurse_count m))" "mtx_recurse_count m \<noteq> 0"
    "mtx_owner m = of_nat p" "\<forall>q. q \<noteq> p \<longrightarrow> held (pc q) = 0 \<and> pc q \<noteq> Holds 0"
    using assms(1) mutex_inv_taken[OF assms(2)] by auto
  then have "p \<noteq> current_process st"
    using assms(3) by auto
  then show ?thesis
    using p assms(2,4-7) by (simp add: mutex_inv_taken) (rule exI[of _ p], simp)
qed

text \<open>The owner of a taken mutex is the one process that holds it.\<close>

lemma mutex_owner_current:
  assumes "mutex_inv (st, m, pc)" "mtx_locked m \<noteq> 0"
  shows "mtx_owner m = self_id st \<longleftrightarrow> held (pc (current_process st)) \<noteq> 0"
    and "mtx_owner m = self_id st \<Longrightarrow> pc (current_process st) = Holds (unat (mtx_recurse_count m))"
proof -
  obtain p where p: "p < PROCESS_MAX" "pc p = Holds (unat (mtx_recurse_count m))" "mtx_recurse_count m \<noteq> 0"
    "mtx_owner m = of_nat p" "\<forall>q. q \<noteq> p \<longrightarrow> held (pc q) = 0 \<and> pc q \<noteq> Holds 0" and k: "kernel_ok st"
    using assms(1) mutex_inv_taken[OF assms(2)] by auto
  have "mtx_owner m = self_id st \<longleftrightarrow> p = current_process st"
    using p(4) self_id_eq[OF k] of_nat_pid_inj[OF p(1) kernel_ok_current[OF k]] by simp
  then show "mtx_owner m = self_id st \<longleftrightarrow> held (pc (current_process st)) \<noteq> 0"
    and "mtx_owner m = self_id st \<Longrightarrow> pc (current_process st) = Holds (unat (mtx_recurse_count m))"
    using p by (auto simp: unat_gt_0)
qed

lemma mutex_inv_nest:
  assumes "mutex_inv (st, m, pc)" "mtx_locked m \<noteq> 0" "mtx_owner m = self_id st"
    "held (pc (current_process st)) + 1 < 2 ^ 32"
  shows "mutex_inv (st, m\<lparr>mtx_recurse_count := mtx_recurse_count m + 1\<rparr>,
    pc(current_process st := Holds (held (pc (current_process st)) + 1)))"
proof -
  have c: "pc (current_process st) = Holds (unat (mtx_recurse_count m))"
    using mutex_owner_current(2)[OF assms(1-3)] .
  have u: "unat (mtx_recurse_count m + 1) = unat (mtx_recurse_count m) + 1"
    using assms(4) c by (subst unat_add_noof) auto
  then have nz: "mtx_recurse_count m + 1 \<noteq> 0"
    by (metis Suc_eq_plus1 nat.distinct(1) unat_0)
  obtain p where p: "p < PROCESS_MAX" "pc p = Holds (unat (mtx_recurse_count m))" "mtx_recurse_count m \<noteq> 0"
    "mtx_owner m = of_nat p" "\<forall>q. q \<noteq> p \<longrightarrow> held (pc q) = 0 \<and> pc q \<noteq> Holds 0" and k: "kernel_ok st"
    using assms(1) mutex_inv_taken[OF assms(2)] by auto
  have "p = current_process st"
    using p(5) mutex_owner_current(1)[OF assms(1,2)] assms(3) by auto
  then show ?thesis
    using p k c u nz assms(2) by (simp add: mutex_inv_taken)
qed

lemma mutex_inv_release:
  assumes "mutex_inv (st, m, pc)" "pc (current_process st) = Holds (Suc n)" "mutex_unlock st m = Some (st', m')"
  shows "mutex_inv (st', m', pc(current_process st := (if n = 0 then Outside else Holds n)))"
proof -
  have taken: "mtx_locked m \<noteq> 0"
  proof
    assume "mtx_locked m = 0"
    then have "held (pc (current_process st)) = 0"
      using assms(1) mutex_inv_free by blast
    then show False using assms(2) by simp
  qed
  have own: "mtx_owner m = self_id st"
    using mutex_owner_current(1)[OF assms(1) taken] assms(2) by simp
  have rc: "unat (mtx_recurse_count m) = Suc n"
    using mutex_owner_current(2)[OF assms(1) taken own] assms(2) by simp
  have nz: "mtx_recurse_count m \<noteq> 0"
    using rc by auto
  have u: "unat (mtx_recurse_count m - 1) = n"
    using rc nz by (metis diff_Suc_1 unat_minus_one)
  obtain p where p: "p < PROCESS_MAX" "mtx_owner m = of_nat p"
    "\<forall>q. q \<noteq> p \<longrightarrow> held (pc q) = 0 \<and> pc q \<noteq> Holds 0" and k: "kernel_ok st"
    using assms(1) mutex_inv_taken[OF taken] by auto
  have pc: "p = current_process st"
    using p(3) assms(2) by (metis held.simps(1) nat.distinct(1))
  show ?thesis
  proof (cases "n = 0")
    case True
    then have "mtx_recurse_count m - 1 = 0" using u by simp
    then obtain wq' where w: "wait_queue_wake_one st (mtx_waiters m) = Some (st', wq')"
      and m': "m' = m\<lparr>mtx_recurse_count := 0, mtx_locked := 0, mtx_owner := - 1, mtx_waiters := wq'\<rparr>"
      using assms(3) taken by (auto simp: mutex_unlock_def Let_def)
    show ?thesis
      using True p(3) pc m' wake_one_ok[OF w k] by (auto simp: mutex_inv_free)
  next
    case False
    then have "mtx_recurse_count m - 1 > 0" using u by (metis unat_0 word_gt_0)
    then have m': "st' = st" "m' = m\<lparr>mtx_recurse_count := mtx_recurse_count m - 1\<rparr>"
      using assms(3) taken by (auto simp: mutex_unlock_def Let_def)
    have "mtx_recurse_count m \<noteq> 1"
      using \<open>mtx_recurse_count m - 1 > 0\<close> by auto
    then show ?thesis
      using False p pc k m' taken u by (simp add: mutex_inv_taken)
  qed
qed

lemma mutex_inv_step:
  assumes "mutex_step s s'" "mutex_inv s"
  shows "mutex_inv s'"
  using assms
proof (cases rule: mutex_step.cases)
  case (lock pc st m node r st' m')
  note inv = assms(2)[unfolded lock(1)]
  have k: "kernel_ok st" using inv by (simp add: mutex_inv_def)
  consider "mtx_locked m = 0" | "mtx_locked m \<noteq> 0" "mtx_owner m = self_id st"
    | "mtx_locked m \<noteq> 0" "mtx_owner m \<noteq> self_id st" by blast
  then show ?thesis
  proof cases
    case 1
    then have "held (pc (current_process st)) = 0"
      using inv mutex_inv_free by blast
    then show ?thesis
      using lock(2,5) 1 mutex_inv_acquire[OF inv 1, of m']
      by (auto simp: mutex_lock_def mutex_lock_turn_def Let_def)
  next
    case 2
    then show ?thesis
      using lock(2,4,5) mutex_inv_nest[OF inv 2] by (auto simp: mutex_lock_def Let_def)
  next
    case 3
    then have "held (pc (current_process st)) = 0"
      using mutex_owner_current(1)[OF inv 3(1)] by simp
    then show ?thesis
      using lock(2,5) 3 mutex_inv_sleep[OF inv 3(1), of st' m'] wait_yield_ok[OF k]
      by (auto simp: mutex_lock_def mutex_lock_turn_def Let_def split_beta)
  qed
next
  case (retry pc st m node r st' m')
  note inv = assms(2)[unfolded retry(1)]
  have k: "kernel_ok st" using inv by (simp add: mutex_inv_def)
  show ?thesis
  proof (cases "mtx_locked m = 0")
    case True
    then show ?thesis
      using retry(2,4) mutex_inv_acquire[OF inv True, of m'] by (auto simp: mutex_lock_turn_def)
  next
    case False
    then show ?thesis
      using retry mutex_inv_sleep[OF inv False, of st' m'] wait_yield_ok[OF k]
      by (auto simp: mutex_lock_turn_def split_beta)
  qed
next
  case (trylock pc st m r m')
  note inv = assms(2)[unfolded trylock(1)]
  show ?thesis
  proof (cases "mtx_locked m = 0")
    case True
    then have "held (pc (current_process st)) = 0"
      using inv mutex_inv_free by blast
    then show ?thesis
      using trylock(2,5) True mutex_inv_acquire[OF inv True, of m'] by (auto simp: mutex_trylock_def Let_def)
  next
    case False
    then show ?thesis
      using trylock(2,4,5) mutex_inv_nest[OF inv False] inv
      by (cases "mtx_owner m = self_id st") (auto simp: mutex_trylock_def Let_def)
  qed
next
  case (unlock pc st n m st' m')
  then show ?thesis
    using mutex_inv_release assms(2) by simp
next
  case (other st' st m pc)
  then show ?thesis
    using assms(2) by (auto simp: mutex_inv_def)
qed

lemma mutex_inv_init: "kernel_ok st \<Longrightarrow> mutex_inv (st, mutex_init, \<lambda>_. Outside)"
  by (simp add: mutex_inv_def mutex_init_def)

lemma mutex_inv_reachable:
  assumes "mutex_step\<^sup>*\<^sup>* s s'" "mutex_inv s"
  shows "mutex_inv s'"
  using assms by (induction rule: rtranclp_induct) (auto intro: mutex_inv_step)

subsection \<open>Properties\<close>

text \<open>C1. Mutual exclusion: in every state reachable from a freshly initialised mutex, by any
  interleaving of \<open>mutex_lock\<close>, \<open>mutex_trylock\<close> and \<open>mutex_unlock\<close> calls of the processes with
  anything else the kernel does, at most one process holds the mutex; it is the recorded
  owner, \<open>recurse_count\<close> is how many times it holds it, and the mutex is marked locked.\<close>
theorem mutex_mutual_exclusion:
  assumes "kernel_ok st0" "mutex_step\<^sup>*\<^sup>* (st0, mutex_init, \<lambda>_. Outside) (st, m, pc)"
    and "pc p = Holds n" "pc q = Holds k"
  shows "p = q \<and> mtx_locked m \<noteq> 0 \<and> mtx_owner m = of_nat p \<and> unat (mtx_recurse_count m) = n"
proof -
  have inv: "mutex_inv (st, m, pc)"
    using mutex_inv_reachable[OF assms(2) mutex_inv_init[OF assms(1)]] .
  have taken: "mtx_locked m \<noteq> 0"
    using inv assms(3) mutex_inv_free[of m st pc] by (metis held.simps(1))
  then obtain o' where "pc o' = Holds (unat (mtx_recurse_count m))" "mtx_owner m = of_nat o'"
    "\<forall>q. q \<noteq> o' \<longrightarrow> held (pc q) = 0 \<and> pc q \<noteq> Holds 0"
    using inv mutex_inv_taken by blast
  then show ?thesis
    using assms(3,4) taken by (metis held.simps(1) mutex_pc.inject)
qed

theorem mutex_mutual_exclusion_witness:
  "\<exists>m. mutex_lock boot_kernel mutex_init 0x9000 = (True, boot_kernel, m) \<and> mtx_owner m = of_nat 0 \<and>
     unat (mtx_recurse_count m) = 1"
proof -
  let ?m = "mutex_init\<lparr>mtx_locked := 1, mtx_owner := self_id boot_kernel, mtx_recurse_count := 1\<rparr>"
  have l: "mutex_lock boot_kernel mutex_init 0x9000 = (True, boot_kernel, ?m)"
    by (simp add: mutex_lock_def mutex_lock_turn_def mutex_init_def Let_def)
  have s: "mutex_step (boot_kernel, mutex_init, \<lambda>_. Outside) (boot_kernel, ?m, (\<lambda>_. Outside)(0 := Holds 1))"
    using mutex_step.lock[OF _ _ l, of "\<lambda>_. Outside"] by (simp add: boot_kernel_inv)
  show ?thesis
    using mutex_mutual_exclusion[OF boot_kernel_ok r_into_rtranclp[of mutex_step, OF s], where p = 0 and q = 0 and n = 1 and k = 1] l
    by simp
qed

text \<open>\<open>semaphore_up\<close> on a well-formed semaphore returns, adds one to the counter, and hands
  the unit over when somebody waits: with a negative counter the first process still waiting
  in the queue, and no other, becomes ready and leaves the queue; with a counter of 0 or more
  no process and no queue changes.\<close>
theorem semaphore_up_wakes_first:
  assumes "process_inv st" "wq_list st (sem_waiters sem) xs" "wq_procs_ok st xs"
  shows "\<exists>st' sem'. semaphore_up st sem = Some (st', sem') \<and> sem_count sem' = sem_count sem + 1 \<and>
    (if sem_count sem < 0
     then (case List.find (wn_waiting st) xs of
         None \<Rightarrow> st' = st \<and> sem_waiters sem' = sem_waiters sem
       | Some n \<Rightarrow> wq_list st' (sem_waiters sem') (remove1 n xs) \<and>
           (\<exists>i. wn_proc (wait_nodes st n) = Some i \<and> state_of st i = PROCESS_WAITING \<and>
              (\<forall>j. state_of st' j = (if j = i then PROCESS_READY else state_of st j))))
     else st' = st \<and> sem_waiters sem' = sem_waiters sem)"
proof (cases "List.find (wn_waiting st) xs")
  case None
  then show ?thesis
    using wake_one_list[OF assms(2)] by (auto simp: semaphore_up_def Let_def)
next
  case (Some n)
  obtain st' wq' i where "wait_queue_wake_one st (sem_waiters sem) = Some (st', wq')" "wq_list st' wq' (remove1 n xs)"
    "wn_proc (wait_nodes st n) = Some i" "state_of st i = PROCESS_WAITING"
    "\<forall>j. state_of st' j = (if j = i then PROCESS_READY else state_of st j)"
    by (rule wake_one_effect[OF assms Some]) blast
  then show ?thesis
    using Some by (auto simp: semaphore_up_def Let_def)
qed

theorem semaphore_up_wakes_first_witness:
  "\<exists>st' sem'. semaphore_up waiting_kernel \<lparr>sem_count = - 1, sem_waiters = waiting_queue\<rparr> = Some (st', sem') \<and>
     sem_count sem' = 0 \<and> state_of st' 0 = PROCESS_READY"
  using semaphore_up_wakes_first[of waiting_kernel "\<lparr>sem_count = - 1, sem_waiters = waiting_queue\<rparr>" "[0x9000]"]
    waiting_kernel_ok by auto

text \<open>\<open>completion_complete\<close> releases everybody, once and for all: it returns, marks the
  completion done, makes every process that waits in its queue ready and changes no other
  process; from then on \<open>completion_wait\<close> returns at once and \<open>completion_complete\<close> changes
  nothing.\<close>
theorem completion_releases_all:
  assumes "process_inv st" "wq_list st (c_waiters c) xs" "wq_procs_ok st xs" "\<not> c_done c"
  shows "\<exists>st' c'. completion_complete st c = Some (st', c') \<and> c_done c' \<and>
    (\<forall>i. state_of st' i = (if state_of st i = PROCESS_WAITING \<and> (\<exists>n \<in> set xs. wn_proc (wait_nodes st n) = Some i)
                           then PROCESS_READY else state_of st i)) \<and>
    (\<forall>st2 node. completion_wait st2 c' node = (st2, c')) \<and>
    (\<forall>st2. completion_complete st2 c' = Some (st2, c'))"
proof -
  obtain st' wq' where "wait_queue_wake_all st (c_waiters c) = Some (st', wq')"
    "\<forall>i. state_of st' i = (if state_of st i = PROCESS_WAITING \<and> (\<exists>n \<in> set xs. wn_proc (wait_nodes st n) = Some i)
                           then PROCESS_READY else state_of st i)"
    by (rule wake_all_list[OF assms(1-3)]) blast
  then show ?thesis
    using assms(4) by (simp add: completion_complete_def completion_wait_def)
qed

theorem completion_releases_all_witness:
  "\<exists>st' c'. completion_complete waiting_kernel \<lparr>c_done = False, c_waiters = waiting_queue\<rparr> = Some (st', c') \<and>
     c_done c' \<and> state_of st' 0 = PROCESS_READY"
  using completion_releases_all[of waiting_kernel "\<lparr>c_done = False, c_waiters = waiting_queue\<rparr>" "[0x9000]"]
    waiting_kernel_ok by auto

text \<open>A barrier of threshold \<open>t\<close> releases its processes in groups of \<open>t\<close>: an arrival that
  is not the last of its group only raises the count, queues the caller at the end and changes
  no other waiter; the last one resets the count, empties the queue and makes every process
  that was waiting in it ready. The count stays below the threshold.\<close>
theorem barrier_releases_groups:
  assumes "kernel_ok st" "wq_list st (b_waiters b) xs" "b_count b < b_threshold b"
    and "node \<noteq> 0" "node \<notin> set xs"
  shows "\<exists>st' b'. barrier_wait st b node = Some (st', b') \<and> b_threshold b' = b_threshold b \<and>
    b_count b' < b_threshold b' \<and>
    (if b_count b + 1 = b_threshold b
     then b_count b' = 0 \<and> wq_list st' (b_waiters b') [] \<and>
       (\<forall>i. state_of st' i = (if state_of st i = PROCESS_WAITING \<and> (\<exists>n \<in> set xs. wn_proc (wait_nodes st n) = Some i)
                              then PROCESS_READY else state_of st i))
     else b_count b' = b_count b + 1 \<and> wq_list st' (b_waiters b') (xs @ [node]) \<and>
       wn_proc (wait_nodes st' node) = Some (current_process st))"
proof -
  have ge: "b_count b + 1 \<ge> b_threshold b \<longleftrightarrow> b_count b + 1 = b_threshold b"
    using inc_le[OF assms(3)] by (auto intro: order_antisym)
  show ?thesis
  proof (cases "b_count b + 1 = b_threshold b")
    case True
    have ok: "wq_procs_ok st xs"
      using kernel_okD(3)[OF assms(1)] by (simp add: wq_procs_ok_def)
    obtain st' wq' where "wait_queue_wake_all st (b_waiters b) = Some (st', wq')"
      "\<forall>i. state_of st' i = (if state_of st i = PROCESS_WAITING \<and> (\<exists>n \<in> set xs. wn_proc (wait_nodes st n) = Some i)
                             then PROCESS_READY else state_of st i)"
      by (rule wake_all_list[OF kernel_okD(1)[OF assms(1)] assms(2) ok]) blast
    moreover have "0 < b_threshold b"
      by (rule le_less_trans[OF _ assms(3)]) simp
    moreover have "wq_list st' \<lparr>wq_head = 0, wq_tail = 0\<rparr> []"
      by (simp add: wq_list_def)
    ultimately show ?thesis
      using True by (simp add: barrier_wait_def Let_def)
  next
    case False
    have "b_count b + 1 < b_threshold b"
      using inc_le[OF assms(3)] False by simp
    then show ?thesis
      using False ge wait_enter_list[OF assms(2,4,5)] wait_enter_frame(3)[of st "b_waiters b" node node]
      by (simp add: barrier_wait_def Let_def split_beta wq_list_def)
  qed
qed

theorem barrier_releases_groups_witness:
  "\<exists>st' b'. barrier_wait boot_kernel (barrier_init 2) 0x9000 = Some (st', b') \<and> b_count b' = 1 \<and>
     wq_list st' (b_waiters b') [0x9000]"
  using barrier_releases_groups[OF boot_kernel_ok, of "barrier_init 2" "[]" "0x9000"]
  by (auto simp: barrier_init_def)

text \<open>
  A semaphore does not exclude: \<open>semaphore_down\<close> has no loop around its wait, and the yield
  inside makes the caller ready again as soon as another process is ready. The caller is
  then scheduled within fewer than \<open>PROCESS_MAX\<close> yields and returns from \<open>semaphore_down\<close>,
  although the counter was not positive and nobody called \<open>semaphore_up\<close>.
\<close>

lemma semaphore_down_returns_without_up:
  assumes "kernel_ok st" "1 < process_count st" "sem_count sem \<le> 0"
    and "d \<in> {1..<PROCESS_MAX}" "state_of st ((current_process st + d) mod PROCESS_MAX) = PROCESS_READY"
    and "(current_process st + d) mod PROCESS_MAX \<noteq> current_process st"
    and "semaphore_down st sem node = (st', sem')"
  shows "state_of st' (current_process st) = PROCESS_READY \<and>
    (\<exists>k < PROCESS_MAX. current_process ((process_yield ^^ k) st') = current_process st)"
proof -
  let ?s = "fst (wait_enter st (sem_waiters sem) node)"
  have ok: "kernel_ok ?s" using wait_enter_ok[OF assms(1)] .
  have st': "st' = process_yield ?s"
    using assms(3,7) by (simp add: semaphore_down_def Let_def split_beta)
  note w = wait_enter_states(1)[OF kernel_okD(1,2)[OF assms(1)]] wait_enter_frame
  have r: "state_of st' (current_process st) = PROCESS_READY"
    unfolding st' using process_yield_forgets_waiting[of ?s d] kernel_okD(1)[OF ok] assms w by simp
  have "kernel_ok st'" unfolding st' by (rule process_yield_ok[OF ok])
  then obtain k where "k \<le> cyc_dist (current_process st') (current_process st)"
    "current_process ((process_yield ^^ k) st') = current_process st"
    using ready_runs_within[of st' "current_process st"] r kernel_okD(1,2)[of st'] assms(2)
      kernel_ok_current[OF assms(1)] by (auto simp: st' w)
  moreover have "cyc_dist (current_process st') (current_process st) < PROCESS_MAX"
    by (simp add: cyc_dist_def PROCESS_MAX_def)
  ultimately show ?thesis
    using r by (meson le_less_trans)
qed

end
