(* ===== verification/Fifo_Pipe.thy ===== *)
theory Fifo_Pipe
  imports Byte_Queue Sync
begin

section \<open>Pipes\<close>

text \<open>
  \<open>kernel/kernel/fifo.c\<close>: a 4096-byte ring shared by a reader and a writer. One call of
  \<open>fifo_read\<close> or \<open>fifo_write\<close> is a loop that copies, wakes the other side and waits; the
  model runs the loop until the call returns or has to wait (\<open>Must_Wait\<close> with the bytes
  moved so far), and continues it from there when the caller runs again. The loop of
  \<open>fifo_read\<close> does not end for some sizes, so it has fuel; \<open>None\<close> means that the fuel ran
  out or that a wake-up loop did not end. Pointers that the code checks for \<open>NULL\<close> are options.
\<close>

subsection \<open>Operations\<close>

definition FIFO_PIPE_SIZE :: u32 where "FIFO_PIPE_SIZE = 4096"
definition FIFO_READER_CLOSED :: u32 where "FIFO_READER_CLOSED = 1"
definition FIFO_WRITER_CLOSED :: u32 where "FIFO_WRITER_CLOSED = 2"

record fifo_pipe =
  fp_data :: "u8 list"
  fp_read_pos :: u32
  fp_write_pos :: u32
  fp_bytes :: u32
  fp_read_waiters :: wait_queue
  fp_write_waiters :: wait_queue
  fp_ref_count :: u32
  fp_flags :: u32

text \<open>\<open>p\<close> is the address that \<open>kmalloc\<close> answered.\<close>

definition fifo_create :: "u64 \<Rightarrow> fifo_pipe option" where
  "fifo_create p =
     (if p = 0 then None
      else Some \<lparr>fp_data = replicate (unat FIFO_PIPE_SIZE) 0, fp_read_pos = 0, fp_write_pos = 0,
             fp_bytes = 0, fp_read_waiters = wait_queue_init, fp_write_waiters = wait_queue_init,
             fp_ref_count = 2, fp_flags = 0\<rparr>)"

datatype fifo_outcome = Returned int | Must_Wait nat

text \<open>The copy out of the ring and the copy into it, in one piece or around the end.\<close>

definition fifo_copy_out :: "fifo_pipe \<Rightarrow> u8 list \<Rightarrow> nat \<Rightarrow> u32 \<Rightarrow> u8 list \<times> fifo_pipe" where
  "fifo_copy_out p dst tot to_copy =
     (let contiguous = FIFO_PIPE_SIZE - fp_read_pos p in
      if contiguous \<ge> to_copy
      then (memcpy dst tot (fp_data p) (unat (fp_read_pos p)) (unat to_copy),
            p\<lparr>fp_read_pos := fp_read_pos p + to_copy, fp_bytes := fp_bytes p - to_copy\<rparr>)
      else let first_chunk = contiguous in
        (memcpy (memcpy dst tot (fp_data p) (unat (fp_read_pos p)) (unat first_chunk))
           (tot + unat first_chunk) (fp_data p) 0 (unat (to_copy - first_chunk)),
         p\<lparr>fp_read_pos := to_copy - first_chunk, fp_bytes := fp_bytes p - to_copy\<rparr>))"

definition fifo_copy_in :: "fifo_pipe \<Rightarrow> u8 list \<Rightarrow> nat \<Rightarrow> u32 \<Rightarrow> fifo_pipe" where
  "fifo_copy_in p src tot to_copy =
     (let contiguous = FIFO_PIPE_SIZE - fp_write_pos p in
      if contiguous \<ge> to_copy
      then p\<lparr>fp_data := memcpy (fp_data p) (unat (fp_write_pos p)) src tot (unat to_copy),
             fp_write_pos := fp_write_pos p + to_copy, fp_bytes := fp_bytes p + to_copy\<rparr>
      else let first_chunk = contiguous in
        p\<lparr>fp_data := memcpy (memcpy (fp_data p) (unat (fp_write_pos p)) src tot (unat first_chunk))
             0 src (tot + unat first_chunk) (unat (to_copy - first_chunk)),
          fp_write_pos := to_copy - first_chunk, fp_bytes := fp_bytes p + to_copy\<rparr>)"

fun fifo_read_loop ::
  "nat \<Rightarrow> kernel_state \<Rightarrow> fifo_pipe \<Rightarrow> u8 list \<Rightarrow> nat \<Rightarrow> u64 \<Rightarrow>
   (fifo_outcome \<times> kernel_state \<times> fifo_pipe \<times> u8 list) option" where
  "fifo_read_loop 0 st p dst tot cnt = None"
| "fifo_read_loop (Suc fuel) st p dst tot cnt =
     (if \<not> int tot < sint cnt then Some (Returned (int tot), st, p, dst)
      else if fp_bytes p = 0
      then (if fp_flags p AND FIFO_WRITER_CLOSED \<noteq> 0
            then Some (Returned (if tot > 0 then int tot else 0), st, p, dst)
            else Some (Must_Wait tot, st, p, dst))
      else let want = ucast cnt - of_nat tot;
               to_copy = (if want > fp_bytes p then fp_bytes p else want);
               was_full = (fp_bytes p = FIFO_PIPE_SIZE);
               (dst', p') = fifo_copy_out p dst tot to_copy;
               tot' = tot + unat to_copy
           in if was_full
              then (case wait_queue_wake_all st (fp_write_waiters p') of
                      None \<Rightarrow> None
                    | Some (st', wq') \<Rightarrow>
                        fifo_read_loop fuel st' (p'\<lparr>fp_write_waiters := wq'\<rparr>) dst' tot' cnt)
              else fifo_read_loop fuel st p' dst' tot' cnt)"

fun fifo_write_loop ::
  "nat \<Rightarrow> kernel_state \<Rightarrow> fifo_pipe \<Rightarrow> u8 list \<Rightarrow> nat \<Rightarrow> u32 \<Rightarrow>
   (fifo_outcome \<times> kernel_state \<times> fifo_pipe) option" where
  "fifo_write_loop 0 st p src tot remaining = None"
| "fifo_write_loop (Suc fuel) st p src tot remaining =
     (if \<not> remaining > 0 then Some (Returned (int tot), st, p)
      else if fp_flags p AND FIFO_READER_CLOSED \<noteq> 0
      then Some (Returned (if tot > 0 then int tot else - 1), st, p)
      else let space = FIFO_PIPE_SIZE - fp_bytes p in
        if space = 0 then Some (Must_Wait tot, st, p)
        else let to_copy = (if remaining > space then space else remaining);
                 was_empty = (fp_bytes p = 0);
                 p' = fifo_copy_in p src tot to_copy;
                 tot' = tot + unat to_copy;
                 remaining' = remaining - to_copy
             in if was_empty
                then (case wait_queue_wake_all st (fp_read_waiters p') of
                        None \<Rightarrow> None
                      | Some (st', wq') \<Rightarrow>
                          fifo_write_loop fuel st' (p'\<lparr>fp_read_waiters := wq'\<rparr>) src tot' remaining')
                else fifo_write_loop fuel st p' src tot' remaining')"

definition fifo_read ::
  "nat \<Rightarrow> kernel_state \<Rightarrow> fifo_pipe option \<Rightarrow> u8 list option \<Rightarrow> u64 \<Rightarrow>
   (fifo_outcome \<times> kernel_state \<times> fifo_pipe option \<times> u8 list option) option" where
  "fifo_read fuel st pp buf cnt =
     (case (pp, buf) of
        (Some p, Some dst) \<Rightarrow>
          if cnt = 0 then Some (Returned (- 1), st, pp, buf)
          else map_option (\<lambda>(r, st', p', dst'). (r, st', Some p', Some dst')) (fifo_read_loop fuel st p dst 0 cnt)
      | _ \<Rightarrow> Some (Returned (- 1), st, pp, buf))"

definition fifo_write ::
  "nat \<Rightarrow> kernel_state \<Rightarrow> fifo_pipe option \<Rightarrow> u8 list option \<Rightarrow> u64 \<Rightarrow>
   (fifo_outcome \<times> kernel_state \<times> fifo_pipe option) option" where
  "fifo_write fuel st pp buf cnt =
     (case (pp, buf) of
        (Some p, Some src) \<Rightarrow>
          if cnt = 0 then Some (Returned (- 1), st, pp)
          else map_option (\<lambda>(r, st', p'). (r, st', Some p')) (fifo_write_loop fuel st p src 0 (ucast cnt))
      | _ \<Rightarrow> Some (Returned (- 1), st, pp))"

text \<open>The waits inside the two loops.\<close>

definition fifo_read_wait :: "kernel_state \<Rightarrow> fifo_pipe \<Rightarrow> u64 \<Rightarrow> kernel_state \<times> fifo_pipe" where
  "fifo_read_wait st p node =
     (let (st', wq') = wait_queue_wait st (fp_read_waiters p) node in (st', p\<lparr>fp_read_waiters := wq'\<rparr>))"

definition fifo_write_wait :: "kernel_state \<Rightarrow> fifo_pipe \<Rightarrow> u64 \<Rightarrow> kernel_state \<times> fifo_pipe" where
  "fifo_write_wait st p node =
     (let (st', wq') = wait_queue_wait st (fp_write_waiters p) node in (st', p\<lparr>fp_write_waiters := wq'\<rparr>))"

definition fifo_poll :: "fifo_pipe option \<Rightarrow> u32" where
  "fifo_poll pp =
     (case pp of
        None \<Rightarrow> 0
      | Some p \<Rightarrow>
          (let e0 = 0;
               e1 = (if fp_bytes p > 0 \<or> fp_flags p AND FIFO_WRITER_CLOSED \<noteq> 0 then e0 OR 1 else e0);
               e2 = (if fp_bytes p < FIFO_PIPE_SIZE \<or> fp_flags p AND FIFO_READER_CLOSED \<noteq> 0 then e1 OR 2 else e1)
           in if fp_flags p AND (FIFO_READER_CLOSED OR FIFO_WRITER_CLOSED) \<noteq> 0 then e2 OR 4 else e2))"

text \<open>Closing an end; the result has no pipe any more when the last reference went away.\<close>

definition fifo_close_reader ::
  "kernel_state \<Rightarrow> fifo_pipe option \<Rightarrow> (kernel_state \<times> fifo_pipe option) option" where
  "fifo_close_reader st pp =
     (case pp of
        None \<Rightarrow> Some (st, None)
      | Some p \<Rightarrow>
          let p1 = p\<lparr>fp_flags := fp_flags p OR FIFO_READER_CLOSED\<rparr> in
          map_option (\<lambda>(st', wq').
              let p2 = p1\<lparr>fp_write_waiters := wq', fp_ref_count := fp_ref_count p1 - 1\<rparr>
              in (st', if fp_ref_count p2 = 0 then None else Some p2))
            (wait_queue_wake_all st (fp_write_waiters p1)))"

definition fifo_close_writer ::
  "kernel_state \<Rightarrow> fifo_pipe option \<Rightarrow> (kernel_state \<times> fifo_pipe option) option" where
  "fifo_close_writer st pp =
     (case pp of
        None \<Rightarrow> Some (st, None)
      | Some p \<Rightarrow>
          let p1 = p\<lparr>fp_flags := fp_flags p OR FIFO_WRITER_CLOSED\<rparr> in
          map_option (\<lambda>(st', wq').
              let p2 = p1\<lparr>fp_read_waiters := wq', fp_ref_count := fp_ref_count p1 - 1\<rparr>
              in (st', if fp_ref_count p2 = 0 then None else Some p2))
            (wait_queue_wake_all st (fp_read_waiters p1)))"

subsection \<open>The ring\<close>

text \<open>
  Both positions may rest at the very end of the buffer (4096), which means the same as 0.
\<close>

definition pipe_ok :: "fifo_pipe \<Rightarrow> bool" where
  "pipe_ok p \<longleftrightarrow> length (fp_data p) = 4096 \<and> unat (fp_read_pos p) \<le> 4096 \<and>
     unat (fp_write_pos p) \<le> 4096 \<and> unat (fp_bytes p) \<le> 4096 \<and>
     unat (fp_write_pos p) mod 4096 = (unat (fp_read_pos p) + unat (fp_bytes p)) mod 4096"

definition pipe_bytes :: "fifo_pipe \<Rightarrow> u8 list" where
  "pipe_bytes p = ring_read (fp_data p) (unat (fp_read_pos p)) (unat (fp_bytes p))"

lemma length_pipe_bytes [simp]: "length (pipe_bytes p) = unat (fp_bytes p)"
  by (simp add: pipe_bytes_def)

lemma pipe_size [simp]: "unat FIFO_PIPE_SIZE = 4096"
  by (simp add: FIFO_PIPE_SIZE_def)

lemma room_after:
  fixes pos :: u32
  assumes "unat pos \<le> 4096"
  shows "unat (FIFO_PIPE_SIZE - pos) = 4096 - unat pos"
  using assms by (subst unat_sub) (auto simp: word_le_nat_alt)

lemma ring_read_pieces:
  assumes "s \<le> length a" "l \<le> length a"
  shows "(if length a - s \<ge> l then take l (drop s a) else drop s a @ take (l - (length a - s)) a) = ring_read a s l"
proof (cases "s = length a")
  case True
  then have "ring_read a s l = ring_read a 0 l"
    using ring_read_mod[of a s l] by simp
  then show ?thesis
    using True assms ring_read_split[of 0 a l] by (cases "a = []") auto
next
  case False
  then have "s < length a" using assms by simp
  from ring_read_split[OF this assms(2)] show ?thesis
    using \<open>s < length a\<close> by auto
qed

lemma fifo_copy_out_eq:
  assumes ok: "pipe_ok p" and l: "unat n \<le> unat (fp_bytes p)" "tot + unat n \<le> length dst"
  obtains p' where
    "fifo_copy_out p dst tot n = (take tot dst @ take (unat n) (pipe_bytes p) @ drop (tot + unat n) dst, p')"
    "pipe_ok p'" "pipe_bytes p' = drop (unat n) (pipe_bytes p)"
    "fp_bytes p' = fp_bytes p - n" "fp_flags p' = fp_flags p"
    "fp_read_waiters p' = fp_read_waiters p" "fp_write_waiters p' = fp_write_waiters p"
proof -
  let ?a = "fp_data p" and ?s = "unat (fp_read_pos p)" and ?l = "unat n"
  have a: "length ?a = 4096" "?s \<le> 4096" "?l \<le> 4096" "unat (fp_bytes p) \<le> 4096"
    using ok l by (auto simp: pipe_ok_def)
  note room = room_after[OF a(2)]
  have n: "unat (fp_bytes p - n) = unat (fp_bytes p) - ?l"
    using l(1) by (simp add: unat_sub word_le_nat_alt)
  have t: "take ?l (pipe_bytes p) = ring_read ?a ?s ?l"
    using l(1) by (simp add: pipe_bytes_def take_ring_read)
  have fits: "FIFO_PIPE_SIZE - fp_read_pos p \<ge> n \<longleftrightarrow> ?l \<le> 4096 - ?s"
    using room by (simp add: word_le_nat_alt)
  show thesis
  proof (cases "?l \<le> 4096 - ?s")
    case True
    let ?p = "p\<lparr>fp_read_pos := fp_read_pos p + n, fp_bytes := fp_bytes p - n\<rparr>"
    have pos: "unat (fp_read_pos p + n) = ?s + ?l"
      using True a by (subst unat_add_noof) auto
    have "memcpy dst tot ?a ?s ?l = take tot dst @ take ?l (pipe_bytes p) @ drop (tot + ?l) dst"
      using True a l ring_read_pieces[of ?s ?a ?l] unfolding t by (subst memcpy_eq) auto
    moreover have "pipe_ok ?p"
      using ok n pos True a l(1) by (auto simp: pipe_ok_def)
    moreover have "pipe_bytes ?p = drop ?l (pipe_bytes p)"
      by (simp add: pipe_bytes_def drop_ring_read n pos)
    ultimately show thesis
      using that[of ?p] True fits by (simp add: fifo_copy_out_def)
  next
    case False
    let ?f = "4096 - ?s"
    let ?p = "p\<lparr>fp_read_pos := n - (FIFO_PIPE_SIZE - fp_read_pos p), fp_bytes := fp_bytes p - n\<rparr>"
    have pos: "unat (n - (FIFO_PIPE_SIZE - fp_read_pos p)) = ?l - ?f"
      using False room by (simp add: unat_sub word_le_nat_alt)
    have "memcpy dst tot ?a ?s ?f = take tot dst @ drop ?s ?a @ drop (tot + ?f) dst"
      using False a l by (subst memcpy_eq) auto
    then have "memcpy (memcpy dst tot ?a ?s ?f) (tot + ?f) ?a 0 (?l - ?f) =
        take tot dst @ (drop ?s ?a @ take (?l - ?f) ?a) @ drop (tot + ?l) dst"
      using False a l by (simp add: memcpy_eq add.commute)
    then have "memcpy (memcpy dst tot ?a ?s ?f) (tot + ?f) ?a 0 (?l - ?f) =
        take tot dst @ take ?l (pipe_bytes p) @ drop (tot + ?l) dst"
      using False a ring_read_pieces[of ?s ?a ?l] unfolding t by simp
    moreover have e: "?s + ?l = (?l - ?f) + 4096" "?l - ?f \<le> 4096"
      using False a by auto
    have md: "(?l - ?f) mod 4096 = (?s + ?l) mod 4096"
      unfolding e(1) by (simp only: mod_add_self2)
    have "?s + unat (fp_bytes p) = (?l - ?f) + (unat (fp_bytes p) - ?l) + 4096"
      using e l(1) by linarith
    then have "(?s + unat (fp_bytes p)) mod 4096 = ((?l - ?f) + (unat (fp_bytes p) - ?l)) mod 4096"
      by (simp only: mod_add_self2)
    then have "pipe_ok ?p"
      using ok a(4) e(2) unfolding pipe_ok_def by (simp add: n pos)
    moreover have "pipe_bytes ?p = drop ?l (pipe_bytes p)"
      using ring_read_mod[of ?a "?s + ?l"] ring_read_mod[of ?a "?l - ?f"] md a(1)
      by (simp add: pipe_bytes_def drop_ring_read n pos)
    ultimately show thesis
      using that[of ?p] False fits room pos by (simp add: fifo_copy_out_def)
  qed
qed

lemma ring_write_pieces:
  assumes "s \<le> length a" "l \<le> length a"
  shows "(if length a - s \<ge> l then memcpy a s xs 0 l
          else memcpy (memcpy a s xs 0 (length a - s)) 0 xs (length a - s) (l - (length a - s))) =
         ring_write a (s mod length a) xs l"
proof (cases "s = length a")
  case True
  then show ?thesis
    using assms by (auto simp: ring_write_def)
next
  case False
  then have "s < length a" using assms by simp
  then show ?thesis
    by (auto simp: ring_write_def)
qed

lemma memcpy_drop: "memcpy a d src (t + s) n = memcpy a d (drop t src) s n" if "t \<le> length src"
  using that by (simp add: memcpy_def add.assoc)

lemma fifo_copy_in_eq:
  assumes ok: "pipe_ok p" and l: "unat (fp_bytes p) + unat n \<le> 4096" "tot + unat n \<le> length src"
  obtains p' where "fifo_copy_in p src tot n = p'" "pipe_ok p'"
    "pipe_bytes p' = pipe_bytes p @ take (unat n) (drop tot src)"
    "fp_bytes p' = fp_bytes p + n" "fp_flags p' = fp_flags p"
    "fp_read_waiters p' = fp_read_waiters p" "fp_write_waiters p' = fp_write_waiters p"
proof -
  let ?a = "fp_data p" and ?s = "unat (fp_write_pos p)" and ?l = "unat n" and ?x = "drop tot src"
  have a: "length ?a = 4096" "?s \<le> 4096" "?l \<le> 4096" "unat (fp_bytes p) \<le> 4096"
    and md: "?s mod 4096 = (unat (fp_read_pos p) + unat (fp_bytes p)) mod 4096"
    using ok l by (auto simp: pipe_ok_def)
  note room = room_after[OF a(2)]
  have n: "unat (fp_bytes p + n) = unat (fp_bytes p) + ?l"
    using l(1) by (subst unat_add_noof) auto
  define np where "np = (if ?l \<le> 4096 - ?s then fp_write_pos p + n else n - (FIFO_PIPE_SIZE - fp_write_pos p))"
  have np: "unat np \<le> 4096" "unat np mod 4096 = (?s + ?l) mod 4096"
  proof (atomize (full), cases "?l \<le> 4096 - ?s")
    case True
    then have "unat (fp_write_pos p + n) = ?s + ?l"
      using a by (subst unat_add_noof) auto
    then show "unat np \<le> 4096 \<and> unat np mod 4096 = (?s + ?l) mod 4096"
      using True a by (simp add: np_def)
  next
    case False
    then have "unat np = ?l - (4096 - ?s)"
      using room by (simp add: np_def unat_sub word_le_nat_alt)
    moreover have e: "?s + ?l = (?l - (4096 - ?s)) + 4096" "?l - (4096 - ?s) \<le> 4096"
      using False a by auto
    ultimately show "unat np \<le> 4096 \<and> unat np mod 4096 = (?s + ?l) mod 4096"
      unfolding e(1) by (simp only: mod_add_self2)
  qed
  let ?p = "p\<lparr>fp_data := ring_write ?a (?s mod 4096) ?x ?l, fp_write_pos := np, fp_bytes := fp_bytes p + n\<rparr>"
  have x: "memcpy A D src tot N = memcpy A D ?x 0 N" "memcpy A D src (tot + K) N = memcpy A D ?x K N" for A D K N
    using memcpy_drop[of tot src A D 0 N] memcpy_drop[of tot src A D K N] l(2) by auto
  have d: "(if 4096 - ?s \<ge> ?l then memcpy ?a ?s src tot ?l
        else memcpy (memcpy ?a ?s src tot (4096 - ?s)) 0 src (tot + (4096 - ?s)) (?l - (4096 - ?s))) =
      ring_write ?a (?s mod 4096) ?x ?l"
    unfolding x using ring_write_pieces[of ?s ?a ?l ?x] a(2,3) unfolding a(1) by simp
  have "fifo_copy_in p src tot n = ?p"
  proof (cases "?l \<le> 4096 - ?s")
    case True
    then show ?thesis
      using d room by (simp add: fifo_copy_in_def np_def word_le_nat_alt)
  next
    case False
    then have "unat (n - (FIFO_PIPE_SIZE - fp_write_pos p)) = ?l - (4096 - ?s)"
      using room by (simp add: unat_sub word_le_nat_alt)
    then show ?thesis
      using False d room by (simp add: fifo_copy_in_def np_def word_le_nat_alt Let_def)
  qed
  moreover have "pipe_ok ?p"
  proof -
    have "(?s + ?l) mod 4096 = (unat (fp_read_pos p) + (unat (fp_bytes p) + ?l)) mod 4096"
      using mod_add_left_eq[of ?s 4096 ?l] mod_add_left_eq[of "unat (fp_read_pos p) + unat (fp_bytes p)" 4096 ?l]
      unfolding md by (simp only: add.assoc)
    then show ?thesis
      using ok np l(1) by (simp add: pipe_ok_def n)
  qed
  moreover have "pipe_bytes ?p = pipe_bytes p @ take ?l ?x"
    using ring_read_write[of ?a "unat (fp_bytes p)" ?l ?x "unat (fp_read_pos p)"] a l md
    by (simp add: pipe_bytes_def n)
  ultimately show thesis
    using that[of ?p] by simp
qed

subsection \<open>The two loops\<close>

definition waiters_ok :: "kernel_state \<Rightarrow> wait_queue \<Rightarrow> wait_queue \<Rightarrow> bool" where
  "waiters_ok st a b \<longleftrightarrow> (\<exists>xs ys. wq_list st a xs \<and> wq_list st b ys \<and> set xs \<inter> set ys = {})"

definition fifo_inv :: "kernel_state \<times> fifo_pipe \<Rightarrow> bool" where
  "fifo_inv = (\<lambda>(st, p). kernel_ok st \<and> pipe_ok p \<and> fp_flags p AND FIFO_READER_CLOSED = 0 \<and>
     waiters_ok st (fp_read_waiters p) (fp_write_waiters p))"

lemma waiters_ok_sym: "waiters_ok st a b \<Longrightarrow> waiters_ok st b a"
  by (auto simp: waiters_ok_def)

lemma wq_list_outside:
  "\<forall>n. n \<notin> set xs \<longrightarrow> wait_nodes st' n = wait_nodes st n \<Longrightarrow> set xs \<inter> set ys = {} \<Longrightarrow>
   wq_list st wq ys \<Longrightarrow> wq_list st' wq ys"
  unfolding wq_list_def using dseg_cong[of ys "wait_nodes st" "wait_nodes st'"] by (metis disjoint_iff)

lemma wake_side:
  assumes "kernel_ok st" "waiters_ok st a b"
  obtains st' a' where "wait_queue_wake_all st a = Some (st', a')" "kernel_ok st'" "waiters_ok st' a' b"
proof -
  obtain xs ys where l: "wq_list st a xs" "wq_list st b ys" "set xs \<inter> set ys = {}"
    using assms(2) by (auto simp: waiters_ok_def)
  have ok: "wq_procs_ok st xs"
    using kernel_okD(3)[OF assms(1)] by (simp add: wq_procs_ok_def)
  show thesis
  proof (rule wake_all_list[OF kernel_okD(1)[OF assms(1)] l(1) ok])
    fix st' a' zs
    assume w: "wait_queue_wake_all st a = Some (st', a')" "wq_list st' a' zs" "subseq zs xs" "process_inv st'"
      "process_count st' = process_count st" "current_process st' = current_process st"
      "\<forall>n. n \<notin> set xs \<longrightarrow> wait_nodes st' n = wait_nodes st n"
      "\<forall>n. wn_proc (wait_nodes st' n) = wn_proc (wait_nodes st n)"
    have "set zs \<inter> set ys = {}"
      using l(3) list_emb_set[OF w(3)] by blast
    then have "waiters_ok st' a' b"
      using wq_list_outside[OF w(7) l(3,2)] w(2) by (auto simp: waiters_ok_def)
    moreover have "kernel_ok st'"
      using assms(1) w(4-6,8) by (simp add: kernel_ok_def)
    ultimately show thesis using that w(1) by blast
  qed
qed

lemma fifo_invD:
  assumes "fifo_inv (st, p)"
  shows "kernel_ok st" "pipe_ok p" "fp_flags p AND FIFO_READER_CLOSED = 0"
    "waiters_ok st (fp_read_waiters p) (fp_write_waiters p)"
  using assms by (auto simp: fifo_inv_def)

lemma fifo_write_stop:
  assumes "fifo_inv (st, p)" "rem = 0 \<or> unat (fp_bytes p) = 4096"
  shows "fifo_write_loop (Suc f) st p src tot rem =
    Some (if rem = 0 then Returned (int tot) else Must_Wait tot, st, p)"
proof -
  have "unat (fp_bytes p) = 4096 \<Longrightarrow> FIFO_PIPE_SIZE - fp_bytes p = 0"
    using pipe_size by (metis diff_self word_unat_eq_iff)
  then show ?thesis
    using assms fifo_invD(3)[OF assms(1)] by (auto simp: word_gt_0)
qed

lemma fifo_write_loop_spec:
  assumes inv: "fifo_inv (st, p)" and src: "tot + unat rem \<le> length src"
  defines "k \<equiv> min (unat rem) (4096 - unat (fp_bytes p))"
  shows "\<exists>st' p'. fifo_write_loop (Suc (Suc f)) st p src tot rem =
      Some (if k = unat rem then Returned (int (tot + k)) else Must_Wait (tot + k), st', p') \<and>
    fifo_inv (st', p') \<and> pipe_bytes p' = pipe_bytes p @ take k (drop tot src)"
proof (cases "rem = 0 \<or> unat (fp_bytes p) = 4096")
  case True
  then have k: "k = 0" by (auto simp: k_def)
  have "k = unat rem \<longleftrightarrow> rem = 0" using k by auto
  then show ?thesis
    using fifo_write_stop[OF inv True, of "Suc f"] inv k by simp
next
  case False
  have b: "unat (fp_bytes p) \<le> 4096" using fifo_invD(2)[OF inv] by (simp add: pipe_ok_def)
  define space where "space = FIFO_PIPE_SIZE - fp_bytes p"
  have sp: "unat space = 4096 - unat (fp_bytes p)"
    using room_after[OF b] by (simp add: space_def)
  define n where "n = (if rem > space then space else rem)"
  have n: "unat n = k" using sp by (auto simp: n_def k_def word_less_nat_alt)
  have kle: "k \<le> unat rem" "unat (fp_bytes p) + k \<le> 4096" using b by (auto simp: k_def)
  obtain p1 where p1: "fifo_copy_in p src tot n = p1" "pipe_ok p1"
    "pipe_bytes p1 = pipe_bytes p @ take (unat n) (drop tot src)" "fp_bytes p1 = fp_bytes p + n"
    "fp_flags p1 = fp_flags p" "fp_read_waiters p1 = fp_read_waiters p" "fp_write_waiters p1 = fp_write_waiters p"
    using fifo_copy_in_eq[OF fifo_invD(2)[OF inv], of n tot src] kle src n by auto
  have rem': "unat (rem - n) = unat rem - k"
    using n kle(1) by (simp add: unat_sub word_le_nat_alt)
  have b': "unat (fp_bytes p1) = unat (fp_bytes p) + k"
    using p1(4) n kle(2) by (simp add: unat_add_noof)
  have stop: "rem - n = 0 \<or> unat (fp_bytes p1) = 4096"
    using rem' b' b by (auto simp: k_def min_def simp flip: unat_eq_0 split: if_splits)
  have r0: "rem - n = 0 \<longleftrightarrow> k = unat rem"
    using rem' kle(1) by (metis diff_is_0_eq diff_self_eq_0 le_antisym unat_eq_0)
  have go: "fifo_write_loop (Suc (Suc f)) st p src tot rem =
      (if fp_bytes p = 0
       then (case wait_queue_wake_all st (fp_read_waiters p) of None \<Rightarrow> None
             | Some (st', wq') \<Rightarrow> fifo_write_loop (Suc f) st' (p1\<lparr>fp_read_waiters := wq'\<rparr>) src (tot + k) (rem - n))
       else fifo_write_loop (Suc f) st p1 src (tot + k) (rem - n))"
  proof -
    have "space \<noteq> 0" using sp False b by (metis diff_is_0_eq le_antisym unat_0)
    moreover have "(0 = rem) = False" using False by auto
    ultimately show ?thesis
      using False fifo_invD(3)[OF inv] p1(1,6) n
      by (simp only: fifo_write_loop.simps(2)[of "Suc f"] Let_def space_def[symmetric] n_def[symmetric] word_gt_0
          not_False_eq_True if_False if_True simp_thms de_Morgan_disj)
  qed
  show ?thesis
  proof (cases "fp_bytes p = 0")
    case True
    obtain st' wq' where w: "wait_queue_wake_all st (fp_read_waiters p) = Some (st', wq')" "kernel_ok st'"
      "waiters_ok st' wq' (fp_write_waiters p)"
      by (rule wake_side[OF fifo_invD(1,4)[OF inv]])
    let ?p = "p1\<lparr>fp_read_waiters := wq'\<rparr>"
    have i: "fifo_inv (st', ?p)"
      using w p1 fifo_invD(3)[OF inv] by (simp add: fifo_inv_def pipe_ok_def)
    have "fifo_write_loop (Suc f) st' ?p src (tot + k) (rem - n) =
        Some (if rem - n = 0 then Returned (int (tot + k)) else Must_Wait (tot + k), st', ?p)"
      using stop by (intro fifo_write_stop[OF i]) simp
    then show ?thesis
      unfolding go using True w(1) r0 i p1(3) n by (simp add: pipe_bytes_def)
  next
    case False
    have i: "fifo_inv (st, p1)"
      using p1 fifo_invD[OF inv] by (simp add: fifo_inv_def)
    have "fifo_write_loop (Suc f) st p1 src (tot + k) (rem - n) =
        Some (if rem - n = 0 then Returned (int (tot + k)) else Must_Wait (tot + k), st, p1)"
      using stop by (intro fifo_write_stop[OF i]) simp
    then show ?thesis
      unfolding go using False r0 i p1(3) n by simp
  qed
qed

lemma sint_count:
  fixes cnt :: u64
  assumes "unat cnt < 2 ^ 32"
  shows "int t < sint cnt \<longleftrightarrow> t < unat cnt"
  unfolding sint_small[OF assms] by (rule of_nat_less_iff)

lemma fifo_read_stop:
  assumes "unat cnt < 2 ^ 32" "tot = unat cnt \<or> tot < unat cnt \<and> fp_bytes p = 0"
  shows "fifo_read_loop (Suc f) st p dst tot cnt =
    Some (if tot = unat cnt \<or> fp_flags p AND FIFO_WRITER_CLOSED \<noteq> 0 then Returned (int tot) else Must_Wait tot,
          st, p, dst)"
  using assms(2) unfolding fifo_read_loop.simps(2) sint_count[OF assms(1)] by auto

lemma fifo_read_loop_spec:
  assumes inv: "fifo_inv (st, p)" and cnt: "unat cnt < 2 ^ 32" "tot \<le> unat cnt" "unat cnt \<le> length dst"
  defines "k \<equiv> min (unat cnt - tot) (unat (fp_bytes p))"
  shows "\<exists>st' p'. fifo_read_loop (Suc (Suc f)) st p dst tot cnt =
      Some (if tot + k = unat cnt \<or> fp_flags p AND FIFO_WRITER_CLOSED \<noteq> 0 then Returned (int (tot + k))
            else Must_Wait (tot + k),
            st', p', take tot dst @ take k (pipe_bytes p) @ drop (tot + k) dst) \<and>
    fifo_inv (st', p') \<and> pipe_bytes p' = drop k (pipe_bytes p)"
proof -
  note sc = sint_count[OF cnt(1)]
  show ?thesis
  proof (cases "tot = unat cnt \<or> fp_bytes p = 0")
    case True
    then have k: "k = 0" by (auto simp: k_def)
    have "fifo_read_loop (Suc (Suc f)) st p dst tot cnt =
      Some (if tot = unat cnt \<or> fp_flags p AND FIFO_WRITER_CLOSED \<noteq> 0 then Returned (int tot) else Must_Wait tot,
          st, p, dst)"
      using True cnt(2) by (intro fifo_read_stop[OF cnt(1)]) auto
    then show ?thesis
      using inv k by (simp del: fifo_read_loop.simps)
  next
    case False
    define want where "want = (ucast cnt :: u32) - of_nat tot"
    have want: "unat want = unat cnt - tot"
    proof -
      have "unat (ucast cnt :: u32) = unat cnt" "unat (of_nat tot :: u32) = tot"
        using cnt by (simp_all add: unat_ucast_small unat_of_nat)
      then show ?thesis
        using cnt(2) by (simp add: want_def unat_sub word_le_nat_alt)
    qed
    define n where "n = (if want > fp_bytes p then fp_bytes p else want)"
    have n: "unat n = k" using want by (auto simp: n_def k_def word_less_nat_alt)
    have kle: "k \<le> unat (fp_bytes p)" "tot + k \<le> unat cnt" using cnt(2) by (auto simp: k_def)
    obtain p1 where p1: "fifo_copy_out p dst tot n =
        (take tot dst @ take (unat n) (pipe_bytes p) @ drop (tot + unat n) dst, p1)"
      "pipe_ok p1" "pipe_bytes p1 = drop (unat n) (pipe_bytes p)" "fp_bytes p1 = fp_bytes p - n"
      "fp_flags p1 = fp_flags p" "fp_read_waiters p1 = fp_read_waiters p" "fp_write_waiters p1 = fp_write_waiters p"
      using fifo_copy_out_eq[OF fifo_invD(2)[OF inv], of n tot dst] kle cnt(3) n by auto
    let ?d = "take tot dst @ take k (pipe_bytes p) @ drop (tot + k) dst"
    have b': "unat (fp_bytes p1) = unat (fp_bytes p) - k"
      using p1(4) n kle(1) by (simp add: unat_sub word_le_nat_alt)
    have stop: "tot + k = unat cnt \<or> tot + k < unat cnt \<and> fp_bytes p1 = 0"
      using b' kle cnt(2) by (auto simp: k_def min_def simp flip: unat_eq_0 split: if_splits)
    have go: "fifo_read_loop (Suc (Suc f)) st p dst tot cnt =
        (if fp_bytes p = FIFO_PIPE_SIZE
         then (case wait_queue_wake_all st (fp_write_waiters p) of None \<Rightarrow> None
               | Some (st', wq') \<Rightarrow> fifo_read_loop (Suc f) st' (p1\<lparr>fp_write_waiters := wq'\<rparr>) ?d (tot + k) cnt)
         else fifo_read_loop (Suc f) st p1 ?d (tot + k) cnt)"
    proof -
      have "int tot < sint cnt" using False cnt(2) by (simp add: sc)
      then show ?thesis
        using False p1(1,7) n
        by (simp only: fifo_read_loop.simps(2)[of "Suc f"] Let_def want_def[symmetric] n_def[symmetric]
            not_False_eq_True if_False if_True simp_thms de_Morgan_disj prod.case)
    qed
    show ?thesis
    proof (cases "fp_bytes p = FIFO_PIPE_SIZE")
      case True
      obtain st' wq' where w: "wait_queue_wake_all st (fp_write_waiters p) = Some (st', wq')" "kernel_ok st'"
        "waiters_ok st' wq' (fp_read_waiters p)"
        by (rule wake_side[OF fifo_invD(1)[OF inv] waiters_ok_sym[OF fifo_invD(4)[OF inv]]])
      let ?p = "p1\<lparr>fp_write_waiters := wq'\<rparr>"
      have i: "fifo_inv (st', ?p)"
        using w p1 fifo_invD(3)[OF inv] by (auto simp: fifo_inv_def pipe_ok_def intro: waiters_ok_sym)
      have "fifo_read_loop (Suc f) st' ?p ?d (tot + k) cnt =
          Some (if tot + k = unat cnt \<or> fp_flags ?p AND FIFO_WRITER_CLOSED \<noteq> 0 then Returned (int (tot + k))
                else Must_Wait (tot + k), st', ?p, ?d)"
        using stop by (intro fifo_read_stop[OF cnt(1)]) simp
      then show ?thesis
        unfolding go using True w(1) i p1(3,5) n by (simp add: pipe_bytes_def del: fifo_read_loop.simps)
    next
      case False
      have i: "fifo_inv (st, p1)"
        using p1 fifo_invD[OF inv] by (simp add: fifo_inv_def)
      have "fifo_read_loop (Suc f) st p1 ?d (tot + k) cnt =
          Some (if tot + k = unat cnt \<or> fp_flags p1 AND FIFO_WRITER_CLOSED \<noteq> 0 then Returned (int (tot + k))
                else Must_Wait (tot + k), st, p1, ?d)"
        using stop by (intro fifo_read_stop[OF cnt(1)]) simp
      then show ?thesis
        unfolding go using False i p1(3,5) n by (simp del: fifo_read_loop.simps)
    qed
  qed
qed

subsection \<open>The pipe is a byte queue\<close>

text \<open>
  A put or a get is a call run until it returns or waits; two turns of the loop always get
  there. A call with a length of 0 moves nothing.
\<close>

definition outcome_bytes :: "fifo_outcome \<Rightarrow> nat" where
  "outcome_bytes r = (case r of Returned n \<Rightarrow> nat n | Must_Wait n \<Rightarrow> n)"

definition fifo_put :: "kernel_state \<times> fifo_pipe \<Rightarrow> u8 list \<Rightarrow> nat \<times> kernel_state \<times> fifo_pipe" where
  "fifo_put q xs =
     (case fifo_write 2 (fst q) (Some (snd q)) (Some xs) (of_nat (length xs)) of
        Some (r, st', Some p') \<Rightarrow> (outcome_bytes r, st', p') | _ \<Rightarrow> (0, q))"

definition fifo_get :: "kernel_state \<times> fifo_pipe \<Rightarrow> nat \<Rightarrow> u8 list \<times> kernel_state \<times> fifo_pipe" where
  "fifo_get q n =
     (case fifo_read 2 (fst q) (Some (snd q)) (Some (replicate n 0)) (of_nat n) of
        Some (r, st', Some p', Some dst) \<Rightarrow> (take (outcome_bytes r) dst, st', p') | _ \<Rightarrow> ([], q))"

lemma outcome_bytes_if [simp]:
  "outcome_bytes (if b then Returned (int n) else Must_Wait n) = n"
  by (simp add: outcome_bytes_def)

lemma fifo_put_eq:
  assumes inv: "fifo_inv q" and len: "length xs < 2 ^ 32"
  shows "fst (fifo_put q xs) = min (length xs) (4096 - length (pipe_bytes (snd q)))"
    and "pipe_bytes (snd (snd (fifo_put q xs))) = pipe_bytes (snd q) @ take (fst (fifo_put q xs)) xs"
    and "fifo_inv (snd (fifo_put q xs))"
proof -
  obtain st p where q: "q = (st, p)" by (cases q)
  have u: "unat (of_nat (length xs) :: u64) = length xs" "unat (ucast (of_nat (length xs) :: u64) :: u32) = length xs"
    using len by (simp_all add: unat_of_nat unat_ucast_small)
  show "fst (fifo_put q xs) = min (length xs) (4096 - length (pipe_bytes (snd q)))"
    and "pipe_bytes (snd (snd (fifo_put q xs))) = pipe_bytes (snd q) @ take (fst (fifo_put q xs)) xs"
    and "fifo_inv (snd (fifo_put q xs))"
  proof (atomize (full), cases "xs = []")
    case True
    then have "fifo_put q xs = (0, q)"
      by (simp add: fifo_put_def fifo_write_def outcome_bytes_def q)
    then show "fst (fifo_put q xs) = min (length xs) (4096 - length (pipe_bytes (snd q))) \<and>
      pipe_bytes (snd (snd (fifo_put q xs))) = pipe_bytes (snd q) @ take (fst (fifo_put q xs)) xs \<and>
      fifo_inv (snd (fifo_put q xs))"
      using True inv by simp
  next
    case False
    let ?k = "min (length xs) (4096 - unat (fp_bytes p))"
    have nz: "(of_nat (length xs) :: u64) \<noteq> 0"
      using u(1) False by (metis length_0_conv unat_0)
    obtain st' p' where r: "fifo_write_loop 2 st p xs 0 (ucast (of_nat (length xs) :: u64)) =
        Some (if ?k = length xs then Returned (int ?k) else Must_Wait ?k, st', p')"
      "fifo_inv (st', p')" "pipe_bytes p' = pipe_bytes p @ take ?k xs"
      using fifo_write_loop_spec[of st p 0 "ucast (of_nat (length xs) :: u64)" xs 0] inv
      unfolding q u by (auto simp: numeral_2_eq_2 simp del: fifo_write_loop.simps)
    have "fifo_put q xs = (?k, st', p')"
      using nz r(1) by (simp add: fifo_put_def fifo_write_def q del: fifo_write_loop.simps)
    then show "fst (fifo_put q xs) = min (length xs) (4096 - length (pipe_bytes (snd q))) \<and>
      pipe_bytes (snd (snd (fifo_put q xs))) = pipe_bytes (snd q) @ take (fst (fifo_put q xs)) xs \<and>
      fifo_inv (snd (fifo_put q xs))"
      using r q by simp
  qed
qed

lemma fifo_get_eq:
  assumes inv: "fifo_inv q" and len: "n < 2 ^ 32"
  shows "fst (fifo_get q n) = take n (pipe_bytes (snd q))"
    and "pipe_bytes (snd (snd (fifo_get q n))) = drop n (pipe_bytes (snd q))"
    and "fifo_inv (snd (fifo_get q n))"
proof -
  obtain st p where q: "q = (st, p)" by (cases q)
  have u: "unat (of_nat n :: u64) = n"
    using len by (simp add: unat_of_nat)
  show "fst (fifo_get q n) = take n (pipe_bytes (snd q))"
    and "pipe_bytes (snd (snd (fifo_get q n))) = drop n (pipe_bytes (snd q))"
    and "fifo_inv (snd (fifo_get q n))"
  proof (atomize (full), cases "n = 0")
    case True
    then have "fifo_get q n = ([], q)"
      by (simp add: fifo_get_def fifo_read_def outcome_bytes_def q)
    then show "fst (fifo_get q n) = take n (pipe_bytes (snd q)) \<and>
      pipe_bytes (snd (snd (fifo_get q n))) = drop n (pipe_bytes (snd q)) \<and> fifo_inv (snd (fifo_get q n))"
      using True inv by simp
  next
    case False
    let ?k = "min n (unat (fp_bytes p))"
    have nz: "(of_nat n :: u64) \<noteq> 0"
      using u False by (metis unat_0)
    obtain st' p' where r: "fifo_read_loop 2 st p (replicate n 0) 0 (of_nat n) =
        Some (if ?k = n \<or> fp_flags p AND FIFO_WRITER_CLOSED \<noteq> 0 then Returned (int ?k) else Must_Wait ?k,
              st', p', take ?k (pipe_bytes p) @ drop ?k (replicate n 0))"
      "fifo_inv (st', p')" "pipe_bytes p' = drop ?k (pipe_bytes p)"
      using fifo_read_loop_spec[of st p "of_nat n" 0 "replicate n 0" 0] inv len
      unfolding q u by (auto simp: numeral_2_eq_2 simp del: fifo_read_loop.simps)
    have "fifo_get q n = (take ?k (take ?k (pipe_bytes p) @ drop ?k (replicate n 0)), st', p')"
      using nz r(1) by (simp add: fifo_get_def fifo_read_def q del: fifo_read_loop.simps)
    then show "fst (fifo_get q n) = take n (pipe_bytes (snd q)) \<and>
      pipe_bytes (snd (snd (fifo_get q n))) = drop n (pipe_bytes (snd q)) \<and> fifo_inv (snd (fifo_get q n))"
      using r q by (auto simp: min_def)
  qed
qed

lemma fifo_bounded: "fifo_inv q \<Longrightarrow> unat (fp_bytes (snd q)) \<le> 4096"
  by (cases q) (simp add: fifo_inv_def pipe_ok_def)

interpretation fp: byte_queue fifo_inv "\<lambda>q. pipe_bytes (snd q)" "\<lambda>_. 4096" "2 ^ 32" fifo_put fifo_get
  by unfold_locales (simp_all add: fifo_bounded fifo_put_eq fifo_get_eq)

lemma fifo_create_inv:
  assumes "fifo_create a = Some p" "kernel_ok st"
  shows "fifo_inv (st, p)" "pipe_bytes p = []"
proof -
  have p: "p = \<lparr>fp_data = replicate 4096 0, fp_read_pos = 0, fp_write_pos = 0,
             fp_bytes = 0, fp_read_waiters = wait_queue_init, fp_write_waiters = wait_queue_init,
             fp_ref_count = 2, fp_flags = 0\<rparr>"
    using assms(1) by (simp add: fifo_create_def split: if_splits)
  have "waiters_ok st wait_queue_init wait_queue_init"
    unfolding waiters_ok_def by (rule exI[of _ "[]"], rule exI[of _ "[]"]) simp
  then show "fifo_inv (st, p)" "pipe_bytes p = []"
    using assms(2) by (simp_all add: p fifo_inv_def pipe_ok_def pipe_bytes_def)
qed

subsection \<open>Properties\<close>

text \<open>C8. A pipe is first in, first out: from \<open>fifo_create\<close> on, over every sequence of writes and
  reads, each run until it returns or has to wait, the bytes read followed by the bytes still
  in the pipe are the bytes written, across every wrap-around of the ring and with the
  wake-ups of the other side; never more than 4096 bytes are inside.\<close>
theorem pipe_first_in_first_out:
  assumes "fifo_create a = Some p" "kernel_ok st" "\<forall>x \<in> set ops. op_len x < 2 ^ 32"
    and "queue_run fifo_put fifo_get (st, p) ops = (ins, outs, st', p')"
  shows "outs @ pipe_bytes p' = ins \<and> fifo_inv (st', p') \<and> length (pipe_bytes p') \<le> 4096"
  using fp.run_fifo[OF fifo_create_inv(1)[OF assms(1,2)] assms(3,4)] fifo_create_inv(2)[OF assms(1,2)]
    fp.run_invar[OF fifo_create_inv(1)[OF assms(1,2)] assms(3)] assms(4) fifo_bounded[of "(st', p')"]
  by simp

theorem pipe_first_in_first_out_witness:
  "\<exists>p ins outs st' p'. fifo_create 0x5000 = Some p \<and>
     queue_run fifo_put fifo_get (boot_kernel, p) [Put [1, 2, 3], Get 2] = (ins, outs, st', p') \<and>
     outs @ pipe_bytes p' = ins"
proof -
  obtain p where p: "fifo_create 0x5000 = Some p"
    by (simp add: fifo_create_def)
  obtain ins outs st' p' where r: "queue_run fifo_put fifo_get (boot_kernel, p) [Put [1, 2, 3], Get 2] = (ins, outs, st', p')"
    by (metis prod_cases4)
  show ?thesis
    using pipe_first_in_first_out[OF p boot_kernel_ok _ r] p r by auto
qed

text \<open>C34. \<open>fifo_read\<close> of 1 to \<open>2 ^ 32 - 1\<close> bytes comes to an end within two turns of its loop:
  it delivers the oldest bytes of the pipe, as many as asked for and available, and returns
  their number, unless the pipe ran empty before the request was met and the writer is open;
  exactly then it has to wait, with those bytes delivered. It returns 0 only at end of file.\<close>
theorem fifo_read_outcome:
  assumes "fifo_inv (st, p)" "0 < unat cnt" "unat cnt < 2 ^ 32" "unat cnt \<le> length dst"
  defines "k \<equiv> min (unat cnt) (length (pipe_bytes p))"
  shows "\<exists>st' p'. fifo_read (Suc (Suc f)) st (Some p) (Some dst) cnt =
      Some (if k = unat cnt \<or> fp_flags p AND FIFO_WRITER_CLOSED \<noteq> 0 then Returned (int k) else Must_Wait k,
            st', Some p', Some (take k (pipe_bytes p) @ drop k dst)) \<and>
    fifo_inv (st', p') \<and> pipe_bytes p' = drop k (pipe_bytes p)"
proof -
  have "cnt \<noteq> 0" using assms(2) by auto
  then show ?thesis
    using fifo_read_loop_spec[OF assms(1,3) _ assms(4), of 0 f]
    by (auto simp: fifo_read_def k_def simp del: fifo_read_loop.simps)
qed

theorem fifo_read_outcome_witness:
  "\<exists>p st' p'. fifo_create 0x5000 = Some p \<and>
     fifo_read (Suc (Suc 0)) boot_kernel (Some p) (Some [0, 0]) 2 = Some (Must_Wait 0, st', Some p', Some [0, 0])"
proof -
  obtain p where p: "fifo_create 0x5000 = Some p" and e: "fp_flags p = 0"
    by (simp add: fifo_create_def)
  show ?thesis
    using fifo_read_outcome[OF fifo_create_inv(1)[OF p boot_kernel_ok], of 2 "[0, 0]" 0]
      fifo_create_inv(2)[OF p boot_kernel_ok] p e by auto
qed

text \<open>After \<open>fifo_close_reader\<close> every \<open>fifo_write\<close> to the pipe fails at once with \<open>-1\<close> and
  writes nothing, and the pipe itself is freed exactly when the writer had been closed too
  (the last of the two references).\<close>
theorem closed_pipe_refuses_writes:
  assumes "fifo_inv (st, p)" "fp_ref_count p \<noteq> 0"
  shows "\<exists>st' pp. fifo_close_reader st (Some p) = Some (st', pp) \<and>
    (pp = None \<longleftrightarrow> fp_ref_count p = 1) \<and>
    (\<forall>p' src cnt st2 f. pp = Some p' \<and> (ucast cnt :: u32) \<noteq> 0 \<longrightarrow>
       fifo_write (Suc f) st2 (Some p') (Some src) cnt = Some (Returned (- 1), st2, Some p'))"
proof -
  obtain st' wq' where w: "wait_queue_wake_all st (fp_write_waiters p) = Some (st', wq')"
    by (rule wake_side[OF fifo_invD(1)[OF assms(1)] waiters_ok_sym[OF fifo_invD(4)[OF assms(1)]]])
  have flag: "(x OR FIFO_READER_CLOSED) AND FIFO_READER_CLOSED \<noteq> 0" for x
    by (simp add: bit.conj_disj_distrib2 FIFO_READER_CLOSED_def bit_eq_iff bit_simps)
      (rule exI[of _ 0], simp)
  have "(ucast cnt :: u32) \<noteq> 0 \<Longrightarrow> cnt \<noteq> 0" for cnt :: u64
    by auto
  then show ?thesis
    using w flag by (auto simp: fifo_close_reader_def fifo_write_def word_gt_0 Let_def)
qed

theorem closed_pipe_refuses_writes_witness:
  "\<exists>p st' pp. fifo_create 0x5000 = Some p \<and> fifo_close_reader boot_kernel (Some p) = Some (st', pp) \<and> pp \<noteq> None"
proof -
  obtain p where p: "fifo_create 0x5000 = Some p" and e: "fp_ref_count p = 2"
    by (simp add: fifo_create_def)
  show ?thesis
    using closed_pipe_refuses_writes[OF fifo_create_inv(1)[OF p boot_kernel_ok]] p e by auto
qed

text \<open>
  A read of exactly \<open>2 ^ 32\<close> bytes from a pipe that holds some never ends: the 32-bit
  difference of count and total is 0, so every turn of the loop copies nothing.
\<close>

lemma fifo_read_4gib_spins:
  assumes "pipe_ok p" "fp_bytes p \<noteq> 0" "fp_bytes p \<noteq> FIFO_PIPE_SIZE"
  shows "fifo_read_loop fuel st p dst 0 (2 ^ 32) = None"
proof (induction fuel)
  case (Suc fuel)
  have "fifo_copy_out p dst 0 0 = (dst, p)"
    using assms(1) by (simp add: fifo_copy_out_def)
  moreover have "(ucast (2 ^ 32 :: u64) :: u32) - of_nat 0 = 0"
    by simp
  moreover have "int 0 < sint (2 ^ 32 :: u64)" "\<not> (0 :: u32) > fp_bytes p"
    by simp_all
  ultimately show ?case
    unfolding fifo_read_loop.simps(2) Let_def using assms(2,3) Suc
    by (simp only: if_True if_False not_True_eq_False prod.case unat_0 add_0)
qed simp

end
