(* ===== verification/Ipc_Sysv.thy ===== *)
theory Ipc_Sysv
  imports Libc_String
begin

section \<open>System V style IPC: shared memory, message queues, semaphore sets\<close>

text \<open>
  \<open>kernel/kernel/ipc.c\<close>, lines 25 to 487. The three tables are arrays of fixed length with a
  count of the entries in use; each table with its count is a record. An identifier is the
  index of an entry. \<open>cur\<close> is \<open>current_process\<close>, and what \<open>kzalloc\<close> answered is an argument.
  Every operation runs under one lock and is one step; a call that would block releases the
  lock, yields and tries again, which is the result \<open>Yield\<close>: the state is unchanged and the
  call is repeated when the process runs again. \<open>shm_at\<close> and \<open>shm_dt\<close> are not modelled: they
  only pass the segment on to the mmap layer.
\<close>

datatype ipc_result = Ret int | Yield

definition IPC_CREAT :: u32 where "IPC_CREAT = 0x200"
definition IPC_NOWAIT :: u32 where "IPC_NOWAIT = 0x800"

text \<open>The lookup \<open>for (i = 0; i < count; i++) if (table[i].key == key)\<close> shared by the three tables.\<close>

definition key_index :: "('a \<Rightarrow> u64) \<Rightarrow> nat \<Rightarrow> 'a list \<Rightarrow> u64 \<Rightarrow> nat option" where
  "key_index key_of n tab key = find_idx (\<lambda>e. key_of e = key) (take n tab)"

subsection \<open>Shared memory segments\<close>

definition SHM_MAX :: nat where "SHM_MAX = 64"

record shm_segment =
  sg_id :: u32
  sg_key :: u64
  sg_mode :: u16
  sg_phys_addr :: u64
  sg_size :: u64
  sg_ref_count :: u32
  sg_creator_pid :: u32
  sg_flags :: u32
  sg_mapped_vaddr :: "u64 list"

record shm_state =
  shm_table :: "shm_segment list"
  shm_count :: nat

definition empty_segment :: shm_segment where
  "empty_segment = \<lparr>sg_id = 0, sg_key = 0, sg_mode = 0, sg_phys_addr = 0, sg_size = 0,
     sg_ref_count = 0, sg_creator_pid = 0, sg_flags = 0, sg_mapped_vaddr = replicate 64 0\<rparr>"

definition shm_init :: shm_state where
  "shm_init = \<lparr>shm_table = replicate SHM_MAX empty_segment, shm_count = 0\<rparr>"

text \<open>\<open>alloc sz\<close> is the address \<open>kzalloc\<close> returns for a size.\<close>

definition shm_get ::
  "(u64 \<Rightarrow> u64) \<Rightarrow> u64 \<Rightarrow> shm_state \<Rightarrow> u64 \<Rightarrow> u64 \<Rightarrow> u32 \<Rightarrow> int \<times> nat option \<times> shm_state" where
  "shm_get alloc cur s key sz flags =
     (case (if key \<noteq> 0 then key_index sg_key (shm_count s) (shm_table s) key else None) of
        Some i \<Rightarrow> (0, Some i, s)
      | None \<Rightarrow>
          if key \<noteq> 0 \<and> flags AND IPC_CREAT = 0 then (- 1, None, s)
          else if shm_count s \<ge> SHM_MAX then (- 1, None, s)
          else let i = shm_count s; asz = align_page sz;
                   seg = (shm_table s ! i)\<lparr>sg_id := of_nat i, sg_key := key, sg_mode := 0x1B6,
                     sg_size := asz, sg_phys_addr := alloc asz\<rparr>
               in if sg_phys_addr seg = 0 then (- 1, None, s\<lparr>shm_table := (shm_table s)[i := seg]\<rparr>)
                  else (0, Some i, s\<lparr>shm_table := (shm_table s)[i := seg\<lparr>sg_ref_count := 0,
                          sg_creator_pid := ucast cur, sg_flags := 0, sg_mapped_vaddr := replicate 64 0\<rparr>],
                        shm_count := Suc i\<rparr>))"

definition shm_ctl :: "shm_state \<Rightarrow> nat \<Rightarrow> int \<Rightarrow> int \<times> shm_segment option \<times> shm_state" where
  "shm_ctl s i cmd =
     (if i \<ge> shm_count s then (- 1, None, s)
      else let seg = shm_table s ! i in
        if cmd = 0
        then (0, None, s\<lparr>shm_table := (shm_table s)[i :=
               (if sg_ref_count seg = 0 then seg\<lparr>sg_phys_addr := 0, sg_size := 0\<rparr>
                else seg\<lparr>sg_flags := sg_flags seg OR 0x200\<rparr>)]\<rparr>)
        else if cmd = 1 then (0, Some seg, s)
        else (- 1, None, s))"

subsection \<open>Message queues\<close>

definition MSG_MAX :: nat where "MSG_MAX = 64"
definition MSG_TEXT_MAX :: u64 where "MSG_TEXT_MAX = 4096"

record msg_queue =
  mq_id :: u32
  mq_key :: u64
  mq_mode :: u16
  mq_msg_count :: u32
  mq_current_bytes :: u64
  mq_max_bytes :: u64
  mq_creator_pid :: u32

record msg_entry =
  mtype :: int
  msize :: u64
  mtext :: "u8 list"

text \<open>\<open>msg_entries[i]\<close> is the linked list of the messages of queue \<open>i\<close>, oldest first.\<close>

record msg_state =
  msg_queues :: "msg_queue list"
  msg_entries :: "msg_entry list list"
  msg_count :: nat

definition empty_queue :: msg_queue where
  "empty_queue = \<lparr>mq_id = 0, mq_key = 0, mq_mode = 0, mq_msg_count = 0, mq_current_bytes = 0,
     mq_max_bytes = 0, mq_creator_pid = 0\<rparr>"

definition msg_init :: msg_state where
  "msg_init = \<lparr>msg_queues = replicate MSG_MAX empty_queue, msg_entries = replicate MSG_MAX [], msg_count = 0\<rparr>"

definition msg_get :: "u64 \<Rightarrow> msg_state \<Rightarrow> u64 \<Rightarrow> u32 \<Rightarrow> int \<times> nat option \<times> msg_state" where
  "msg_get cur s key flags =
     (case (if key \<noteq> 0 then key_index mq_key (msg_count s) (msg_queues s) key else None) of
        Some i \<Rightarrow> (0, Some i, s)
      | None \<Rightarrow>
          if key \<noteq> 0 \<and> flags AND IPC_CREAT = 0 then (- 1, None, s)
          else if msg_count s \<ge> MSG_MAX then (- 1, None, s)
          else let i = msg_count s in
            (0, Some i,
             s\<lparr>msg_queues := (msg_queues s)[i := (msg_queues s ! i)\<lparr>mq_id := of_nat i, mq_key := key,
                  mq_mode := 0x1B6, mq_msg_count := 0, mq_current_bytes := 0, mq_max_bytes := 65536,
                  mq_creator_pid := ucast cur\<rparr>],
               msg_entries := (msg_entries s)[i := []], msg_count := Suc i\<rparr>))"

text \<open>
  The message pointed to by \<open>msgp\<close> is its type and its text; \<open>ok\<close> says that \<open>kzalloc\<close> gave
  an entry, whose text is zero beyond the message.
\<close>

definition msg_send ::
  "bool \<Rightarrow> msg_state \<Rightarrow> nat \<Rightarrow> int \<Rightarrow> u8 list \<Rightarrow> u64 \<Rightarrow> u32 \<Rightarrow> ipc_result \<times> msg_state" where
  "msg_send ok s i ty body sz flags =
     (if i \<ge> msg_count s then (Ret (- 1), s)
      else if sz > MSG_TEXT_MAX then (Ret (- 1), s)
      else let mq = msg_queues s ! i in
        if mq_current_bytes mq + sz > mq_max_bytes mq
        then (if flags AND IPC_NOWAIT \<noteq> 0 then (Ret (- 1), s) else (Yield, s))
        else if \<not> ok then (Ret (- 1), s)
        else let entry = \<lparr>mtype = ty, msize = sz, mtext = memcpy (replicate 4096 0) 0 body 0 (unat sz)\<rparr>
          in (Ret 0, s\<lparr>msg_entries := (msg_entries s)[i := msg_entries s ! i @ [entry]],
               msg_queues := (msg_queues s)[i := mq\<lparr>mq_msg_count := mq_msg_count mq + 1,
                 mq_current_bytes := mq_current_bytes mq + sz\<rparr>]\<rparr>))"

definition msg_matches :: "int \<Rightarrow> msg_entry \<Rightarrow> bool" where
  "msg_matches ty e \<longleftrightarrow> ty = 0 \<or> mtype e = ty \<or> (ty < 0 \<and> mtype e \<le> - ty)"

text \<open>The result is the type and the bytes copied to the caller, with their number. Types are integers; the negation of the
  type asked for fits into a \<open>long\<close> unless it is \<open>LONG_MIN\<close>, for which the code has undefined behaviour.\<close>

definition msg_recv ::
  "msg_state \<Rightarrow> nat \<Rightarrow> u64 \<Rightarrow> int \<Rightarrow> u32 \<Rightarrow> ipc_result \<times> (int \<times> u8 list) option \<times> msg_state" where
  "msg_recv s i sz ty flags =
     (if i \<ge> msg_count s then (Ret (- 1), None, s)
      else let es = msg_entries s ! i in
        if es = [] then (if flags AND IPC_NOWAIT \<noteq> 0 then (Ret (- 1), None, s) else (Yield, None, s))
        else case find_idx (msg_matches ty) es of
            None \<Rightarrow> (Ret (- 1), None, s)
          | Some j \<Rightarrow>
              let entry = es ! j; mq = msg_queues s ! i;
                  copy_size = (if msize entry < sz then msize entry else sz)
              in (Ret (int (unat copy_size)), Some (mtype entry, take (unat copy_size) (mtext entry)),
                  s\<lparr>msg_entries := (msg_entries s)[i := take j es @ drop (Suc j) es],
                    msg_queues := (msg_queues s)[i := mq\<lparr>mq_msg_count := mq_msg_count mq - 1,
                      mq_current_bytes := mq_current_bytes mq - msize entry\<rparr>]\<rparr>))"

definition msg_ctl :: "msg_state \<Rightarrow> nat \<Rightarrow> int \<Rightarrow> int \<times> msg_queue option \<times> msg_state" where
  "msg_ctl s i cmd =
     (if i \<ge> msg_count s then (- 1, None, s)
      else if cmd = 0
      then (0, None, s\<lparr>msg_entries := (msg_entries s)[i := []], msg_queues := (msg_queues s)[i := empty_queue]\<rparr>)
      else if cmd = 1 then (0, Some (msg_queues s ! i), s)
      else (- 1, None, s))"

subsection \<open>Semaphore sets\<close>

definition SEM_MAX :: nat where "SEM_MAX = 64"
definition SEM_SET_MAX :: nat where "SEM_SET_MAX = 16"

record sem_set =
  ss_id :: u32
  ss_key :: u64
  ss_mode :: u16
  ss_nsems :: u16
  ss_values :: "16 word list"
  ss_creator_pid :: u32

record sem_state =
  sem_table :: "sem_set list"
  sem_count :: nat

record sembuf =
  sem_num :: u16
  sem_opv :: "16 word"
  sem_flg :: "16 word"

definition empty_sem_set :: sem_set where
  "empty_sem_set = \<lparr>ss_id = 0, ss_key = 0, ss_mode = 0, ss_nsems = 0, ss_values = replicate 16 0, ss_creator_pid = 0\<rparr>"

definition sem_init :: sem_state where
  "sem_init = \<lparr>sem_table = replicate SEM_MAX empty_sem_set, sem_count = 0\<rparr>"

definition sem_get :: "u64 \<Rightarrow> sem_state \<Rightarrow> u64 \<Rightarrow> int \<Rightarrow> u32 \<Rightarrow> int \<times> nat option \<times> sem_state" where
  "sem_get cur s key nsems flags =
     (if nsems < 1 \<or> nsems > int SEM_SET_MAX then (- 1, None, s)
      else case (if key \<noteq> 0 then key_index ss_key (sem_count s) (sem_table s) key else None) of
          Some i \<Rightarrow> (0, Some i, s)
        | None \<Rightarrow>
            if key \<noteq> 0 \<and> flags AND IPC_CREAT = 0 then (- 1, None, s)
            else if sem_count s \<ge> SEM_MAX then (- 1, None, s)
            else let i = sem_count s in
              (0, Some i, s\<lparr>sem_table := (sem_table s)[i := (sem_table s ! i)\<lparr>ss_id := of_nat i, ss_key := key,
                    ss_mode := 0x1B6, ss_nsems := word_of_int nsems, ss_values := replicate 16 0,
                    ss_creator_pid := ucast cur\<rparr>], sem_count := Suc i\<rparr>))"

text \<open>
  The loop over the operations of one \<open>sem_op\<close> call, from the operation the call has reached.
  Each operation takes effect at once; when one would block, \<open>Yield\<close> comes with the operations
  still to do, and the call goes on from there.
\<close>

fun sem_op_loop :: "sem_set \<Rightarrow> sembuf list \<Rightarrow> ipc_result \<times> sembuf list \<times> sem_set" where
  "sem_op_loop ss [] = (Ret 0, [], ss)"
| "sem_op_loop ss (b # ops) =
     (if sem_num b \<ge> ss_nsems ss then (Ret (- 1), b # ops, ss)
      else let num = unat (sem_num b); val = sint (ss_values ss ! num) + sint (sem_opv b) in
        if val < 0
        then (if sem_flg b AND ucast IPC_NOWAIT \<noteq> 0 then (Ret (- 1), b # ops, ss) else (Yield, b # ops, ss))
        else sem_op_loop (ss\<lparr>ss_values := (ss_values ss)[num := word_of_int val]\<rparr>) ops)"

definition sem_op :: "sem_state \<Rightarrow> nat \<Rightarrow> sembuf list \<Rightarrow> ipc_result \<times> sembuf list \<times> sem_state" where
  "sem_op s i ops =
     (if i \<ge> sem_count s then (Ret (- 1), ops, s)
      else let (r, rest, ss) = sem_op_loop (sem_table s ! i) ops
        in (r, rest, s\<lparr>sem_table := (sem_table s)[i := ss]\<rparr>))"

text \<open>\<open>arg\<close> is the value behind the argument pointer, \<open>None\<close> for \<open>NULL\<close>; the second result is what is written back.\<close>

definition sem_ctl ::
  "sem_state \<Rightarrow> nat \<Rightarrow> int \<Rightarrow> int \<Rightarrow> int option \<Rightarrow> int \<times> int list option \<times> sem_state" where
  "sem_ctl s i semnum cmd arg =
     (if i \<ge> sem_count s then (- 1, None, s)
      else let ss = sem_table s ! i; num = unat (word_of_int semnum :: u32) in
        if cmd = 0 then (0, None, s\<lparr>sem_table := (sem_table s)[i := empty_sem_set]\<rparr>)
        else if cmd = 1
        then (case arg of
                Some v \<Rightarrow> (0, None, if num < unat (ss_nsems ss)
                   then s\<lparr>sem_table := (sem_table s)[i := ss\<lparr>ss_values := (ss_values ss)[num := word_of_int v]\<rparr>]\<rparr>
                   else s)
              | None \<Rightarrow> (0, None, s))
        else if cmd = 2
        then (0, if arg \<noteq> None \<and> num < unat (ss_nsems ss) then Some [sint (ss_values ss ! num)] else None, s)
        else if cmd = 3
        then (0, if arg \<noteq> None then Some (map sint (take (unat (ss_nsems ss)) (ss_values ss))) else None, s)
        else (- 1, None, s))"

subsection \<open>Tables with keys\<close>

text \<open>
  What the three \<open>get\<close> functions promise: a key other than \<open>IPC_PRIVATE\<close> (0) names at most one
  entry, which is found again; a new entry is the next free one and leaves the others alone.
  \<open>used\<close> is the number of entries and \<open>key_at\<close> the key of an entry.
\<close>

locale key_table =
  fixes invar :: "'s \<Rightarrow> bool"
    and used :: "'s \<Rightarrow> nat"
    and key_at :: "'s \<Rightarrow> nat \<Rightarrow> u64"
    and get :: "'s \<Rightarrow> u64 \<Rightarrow> bool \<Rightarrow> nat option \<times> 's"
  assumes get_found: "invar s \<Longrightarrow> key \<noteq> 0 \<Longrightarrow> i < used s \<Longrightarrow> key_at s i = key \<Longrightarrow>
      (\<And>j. j < i \<Longrightarrow> key_at s j \<noteq> key) \<Longrightarrow> get s key c = (Some i, s)"
    and get_cases: "invar s \<Longrightarrow> get s key c = (Some i, s') \<Longrightarrow>
      (i < used s \<and> s' = s \<and> key \<noteq> 0 \<and> key_at s i = key \<and> (\<forall>j < i. key_at s j \<noteq> key)) \<or>
      (i = used s \<and> used s' = Suc i \<and> key_at s' i = key \<and> (\<forall>j < i. key_at s' j = key_at s j) \<and>
       (key \<noteq> 0 \<longrightarrow> (\<forall>j < i. key_at s j \<noteq> key)))"
    and get_invar: "invar s \<Longrightarrow> get s key c = (r, s') \<Longrightarrow> invar s'"
begin

lemma get_again:
  assumes "invar s" "get s key c = (Some i, s')" "key \<noteq> 0"
  shows "get s' key c' = (Some i, s')"
proof (rule get_found)
  show "invar s'" by (rule get_invar[OF assms(1,2)])
  show "key \<noteq> 0" by (rule assms(3))
  show "i < used s'" "key_at s' i = key" "\<And>j. j < i \<Longrightarrow> key_at s' j \<noteq> key"
    using get_cases[OF assms(1,2)] assms(3) by auto
qed

lemma get_other:
  assumes "invar s" "get s key c = (Some i, s1)" "get s1 key' c' = (Some j, s2)" "key \<noteq> 0" "key' \<noteq> key"
  shows "i \<noteq> j \<and> get s2 key c'' = (Some i, s2)"
proof -
  have i1: "invar s1" and i2: "invar s2"
    using get_invar assms(1-3) by blast+
  have f: "i < used s1" "key_at s1 i = key" "\<forall>j < i. key_at s1 j \<noteq> key"
    using get_cases[OF assms(1,2)] assms(4) by auto
  have c: "(j < used s1 \<and> s2 = s1 \<and> key_at s1 j = key') \<or>
      (j = used s1 \<and> used s2 = Suc j \<and> (\<forall>k < j. key_at s2 k = key_at s1 k))"
    using get_cases[OF i1 assms(3)] by blast
  then have "i \<noteq> j" using f assms(5) by auto
  moreover have "i < used s2" "key_at s2 i = key" "\<And>k. k < i \<Longrightarrow> key_at s2 k \<noteq> key"
    using c f by auto
  then have "get s2 key c'' = (Some i, s2)"
    by (intro get_found[OF i2 assms(4)])
  ultimately show ?thesis by blast
qed

end

definition ipc_flags :: "bool \<Rightarrow> u32" where
  "ipc_flags c = (if c then IPC_CREAT else 0)"

lemma ipc_flags_0 [simp]: "ipc_flags c AND IPC_CREAT = 0 \<longleftrightarrow> \<not> c"
  by (simp add: ipc_flags_def IPC_CREAT_def)

lemma key_index_Some:
  "n \<le> length tab \<Longrightarrow> key_index f n tab key = Some i \<longleftrightarrow> i < n \<and> f (tab ! i) = key \<and> (\<forall>j<i. f (tab ! j) \<noteq> key)"
  by (auto simp: key_index_def find_idx_Some)

lemma key_index_None:
  "n \<le> length tab \<Longrightarrow> key_index f n tab key = None \<longleftrightarrow> (\<forall>j<n. f (tab ! j) \<noteq> key)"
  by (simp add: key_index_def find_idx_None all_set_conv_all_nth)

definition key_lookup :: "('a \<Rightarrow> u64) \<Rightarrow> nat \<Rightarrow> 'a list \<Rightarrow> u64 \<Rightarrow> nat option" where
  "key_lookup f n tab key = (if key \<noteq> 0 then key_index f n tab key else None)"

lemma key_lookup_Some:
  "n \<le> length tab \<Longrightarrow> key_lookup f n tab key = Some i \<Longrightarrow>
   key \<noteq> 0 \<and> i < n \<and> f (tab ! i) = key \<and> (\<forall>j<i. f (tab ! j) \<noteq> key)"
  by (simp add: key_lookup_def key_index_Some split: if_splits)

lemma key_lookup_None:
  "n \<le> length tab \<Longrightarrow> key_lookup f n tab key = None \<Longrightarrow> key \<noteq> 0 \<longrightarrow> (\<forall>j<n. f (tab ! j) \<noteq> key)"
  by (simp add: key_lookup_def key_index_None split: if_splits)

definition shm_ok :: "shm_state \<Rightarrow> bool" where
  "shm_ok s \<longleftrightarrow> length (shm_table s) = SHM_MAX \<and> shm_count s \<le> SHM_MAX"

definition msg_len_ok :: "msg_state \<Rightarrow> bool" where
  "msg_len_ok s \<longleftrightarrow> length (msg_queues s) = MSG_MAX \<and> length (msg_entries s) = MSG_MAX \<and> msg_count s \<le> MSG_MAX"

definition sem_len_ok :: "sem_state \<Rightarrow> bool" where
  "sem_len_ok s \<longleftrightarrow> length (sem_table s) = SEM_MAX \<and> sem_count s \<le> SEM_MAX"

interpretation shm: key_table shm_ok shm_count "\<lambda>s i. sg_key (shm_table s ! i)"
  "\<lambda>s key c. snd (shm_get alloc cur s key sz (ipc_flags c))"
proof
  fix s key i c assume "shm_ok s" "key \<noteq> 0" "i < shm_count s" "sg_key (shm_table s ! i) = key"
    "\<And>j. j < i \<Longrightarrow> sg_key (shm_table s ! j) \<noteq> key"
  then show "snd (shm_get alloc cur s key sz (ipc_flags c)) = (Some i, s)"
    using key_index_Some[of "shm_count s" "shm_table s" sg_key key i] by (simp add: shm_get_def shm_ok_def)
next
  fix s key c i s' assume a: "shm_ok s" "snd (shm_get alloc cur s key sz (ipc_flags c)) = (Some i, s')"
  have len: "shm_count s \<le> length (shm_table s)" using a(1) by (simp add: shm_ok_def)
  show "(i < shm_count s \<and> s' = s \<and> key \<noteq> 0 \<and> sg_key (shm_table s ! i) = key \<and> (\<forall>j < i. sg_key (shm_table s ! j) \<noteq> key)) \<or>
      (i = shm_count s \<and> shm_count s' = Suc i \<and> sg_key (shm_table s' ! i) = key \<and>
       (\<forall>j < i. sg_key (shm_table s' ! j) = sg_key (shm_table s ! j)) \<and>
       (key \<noteq> 0 \<longrightarrow> (\<forall>j < i. sg_key (shm_table s ! j) \<noteq> key)))"
  proof (cases "key_lookup sg_key (shm_count s) (shm_table s) key")
    case (Some k)
    moreover have "i = k" "s' = s"
      using a(2) Some by (simp_all add: shm_get_def key_lookup_def)
    ultimately show ?thesis
      using key_lookup_Some[OF len Some] by simp
  next
    case None
    then show ?thesis
      using a key_lookup_None[OF len None]
      by (simp add: shm_get_def shm_ok_def key_lookup_def[symmetric] Let_def split: if_splits) auto
  qed
next
  fix s key c r s' assume "shm_ok s" "snd (shm_get alloc cur s key sz (ipc_flags c)) = (r, s')"
  then show "shm_ok s'"
    by (cases "key_lookup sg_key (shm_count s) (shm_table s) key")
      (auto simp: shm_get_def shm_ok_def key_lookup_def[symmetric] Let_def split: if_splits)
qed

interpretation msg: key_table msg_len_ok msg_count "\<lambda>s i. mq_key (msg_queues s ! i)"
  "\<lambda>s key c. snd (msg_get cur s key (ipc_flags c))"
proof
  fix s key i c assume "msg_len_ok s" "key \<noteq> 0" "i < msg_count s" "mq_key (msg_queues s ! i) = key"
    "\<And>j. j < i \<Longrightarrow> mq_key (msg_queues s ! j) \<noteq> key"
  then show "snd (msg_get cur s key (ipc_flags c)) = (Some i, s)"
    using key_index_Some[of "msg_count s" "msg_queues s" mq_key key i] by (simp add: msg_get_def msg_len_ok_def)
next
  fix s key c i s' assume a: "msg_len_ok s" "snd (msg_get cur s key (ipc_flags c)) = (Some i, s')"
  have len: "msg_count s \<le> length (msg_queues s)" using a(1) by (simp add: msg_len_ok_def)
  show "(i < msg_count s \<and> s' = s \<and> key \<noteq> 0 \<and> mq_key (msg_queues s ! i) = key \<and> (\<forall>j < i. mq_key (msg_queues s ! j) \<noteq> key)) \<or>
      (i = msg_count s \<and> msg_count s' = Suc i \<and> mq_key (msg_queues s' ! i) = key \<and>
       (\<forall>j < i. mq_key (msg_queues s' ! j) = mq_key (msg_queues s ! j)) \<and>
       (key \<noteq> 0 \<longrightarrow> (\<forall>j < i. mq_key (msg_queues s ! j) \<noteq> key)))"
  proof (cases "key_lookup mq_key (msg_count s) (msg_queues s) key")
    case (Some k)
    moreover have "i = k" "s' = s"
      using a(2) Some by (simp_all add: msg_get_def key_lookup_def)
    ultimately show ?thesis
      using key_lookup_Some[OF len Some] by simp
  next
    case None
    then show ?thesis
      using a key_lookup_None[OF len None]
      by (simp add: msg_get_def msg_len_ok_def key_lookup_def[symmetric] Let_def split: if_splits) auto
  qed
next
  fix s key c r s' assume "msg_len_ok s" "snd (msg_get cur s key (ipc_flags c)) = (r, s')"
  then show "msg_len_ok s'"
    by (cases "key_lookup mq_key (msg_count s) (msg_queues s) key")
      (auto simp: msg_get_def msg_len_ok_def key_lookup_def[symmetric] Let_def split: if_splits)
qed

interpretation sem: key_table sem_len_ok sem_count "\<lambda>s i. ss_key (sem_table s ! i)"
  "\<lambda>s key c. snd (sem_get cur s key 1 (ipc_flags c))"
proof
  fix s key i c assume "sem_len_ok s" "key \<noteq> 0" "i < sem_count s" "ss_key (sem_table s ! i) = key"
    "\<And>j. j < i \<Longrightarrow> ss_key (sem_table s ! j) \<noteq> key"
  then show "snd (sem_get cur s key 1 (ipc_flags c)) = (Some i, s)"
    using key_index_Some[of "sem_count s" "sem_table s" ss_key key i]
    by (simp add: sem_get_def sem_len_ok_def SEM_SET_MAX_def)
next
  fix s key c i s' assume a: "sem_len_ok s" "snd (sem_get cur s key 1 (ipc_flags c)) = (Some i, s')"
  have len: "sem_count s \<le> length (sem_table s)" using a(1) by (simp add: sem_len_ok_def)
  show "(i < sem_count s \<and> s' = s \<and> key \<noteq> 0 \<and> ss_key (sem_table s ! i) = key \<and> (\<forall>j < i. ss_key (sem_table s ! j) \<noteq> key)) \<or>
      (i = sem_count s \<and> sem_count s' = Suc i \<and> ss_key (sem_table s' ! i) = key \<and>
       (\<forall>j < i. ss_key (sem_table s' ! j) = ss_key (sem_table s ! j)) \<and>
       (key \<noteq> 0 \<longrightarrow> (\<forall>j < i. ss_key (sem_table s ! j) \<noteq> key)))"
  proof (cases "key_lookup ss_key (sem_count s) (sem_table s) key")
    case (Some k)
    moreover have "i = k" "s' = s"
      using a(2) Some by (simp_all add: sem_get_def key_lookup_def SEM_SET_MAX_def)
    ultimately show ?thesis
      using key_lookup_Some[OF len Some] by simp
  next
    case None
    then show ?thesis
      using a key_lookup_None[OF len None]
      by (simp add: sem_get_def sem_len_ok_def key_lookup_def[symmetric] Let_def SEM_SET_MAX_def split: if_splits) auto
  qed
next
  fix s key c r s' assume "sem_len_ok s" "snd (sem_get cur s key 1 (ipc_flags c)) = (r, s')"
  then show "sem_len_ok s'"
    by (cases "key_lookup ss_key (sem_count s) (sem_table s) key")
      (auto simp: sem_get_def sem_len_ok_def key_lookup_def[symmetric] Let_def SEM_SET_MAX_def split: if_splits)
qed

subsection \<open>Accounting of the message queues\<close>

definition queue_ok :: "msg_queue \<Rightarrow> msg_entry list \<Rightarrow> bool" where
  "queue_ok q es \<longleftrightarrow> mq_msg_count q = of_nat (length es) \<and>
     unat (mq_current_bytes q) = sum_list (map (\<lambda>e. unat (msize e)) es) \<and>
     mq_current_bytes q \<le> mq_max_bytes q \<and> unat (mq_max_bytes q) \<le> 65536 \<and>
     (\<forall>e \<in> set es. length (mtext e) = 4096 \<and> unat (msize e) \<le> 4096)"

definition msg_ok :: "msg_state \<Rightarrow> bool" where
  "msg_ok s \<longleftrightarrow> msg_len_ok s \<and> (\<forall>i < msg_count s. queue_ok (msg_queues s ! i) (msg_entries s ! i))"

lemma msg_okD:
  assumes "msg_ok s"
  shows "length (msg_queues s) = MSG_MAX" "length (msg_entries s) = MSG_MAX" "msg_count s \<le> MSG_MAX"
    "i < msg_count s \<Longrightarrow> queue_ok (msg_queues s ! i) (msg_entries s ! i)"
  using assms by (auto simp: msg_ok_def msg_len_ok_def)

lemma msg_ok_update:
  assumes "msg_ok s" "i < msg_count s" "queue_ok q es"
  shows "msg_ok (s\<lparr>msg_entries := (msg_entries s)[i := es], msg_queues := (msg_queues s)[i := q]\<rparr>)"
  using assms by (auto simp: msg_ok_def msg_len_ok_def nth_list_update)

lemma queue_ok_send:
  assumes "queue_ok q es" "\<not> mq_current_bytes q + sz > mq_max_bytes q" "\<not> sz > MSG_TEXT_MAX"
    "msize e = sz" "length (mtext e) = 4096"
  shows "queue_ok (q\<lparr>mq_msg_count := mq_msg_count q + 1, mq_current_bytes := mq_current_bytes q + sz\<rparr>) (es @ [e])"
proof -
  have z: "unat sz \<le> 4096"
    using assms(3) by (simp add: MSG_TEXT_MAX_def word_less_nat_alt)
  have "unat (mq_current_bytes q) \<le> 65536"
    using assms(1) by (auto simp: queue_ok_def word_le_nat_alt)
  then have "unat (mq_current_bytes q + sz) = unat (mq_current_bytes q) + unat sz"
    using z by (subst unat_add_noof) auto
  then show ?thesis
    using assms z by (auto simp: queue_ok_def)
qed

lemma sum_list_remove_nth:
  fixes f :: "'a \<Rightarrow> nat"
  assumes "j < length es"
  shows "sum_list (map f (take j es @ drop (Suc j) es)) + f (es ! j) = sum_list (map f es)"
proof -
  have "es = take j es @ es ! j # drop (Suc j) es"
    using assms by (simp add: id_take_nth_drop)
  then have "sum_list (map f es) = sum_list (map f (take j es @ es ! j # drop (Suc j) es))"
    by simp
  then show ?thesis by simp
qed

lemma queue_ok_recv:
  assumes "queue_ok q es" "j < length es"
  shows "queue_ok (q\<lparr>mq_msg_count := mq_msg_count q - 1,
      mq_current_bytes := mq_current_bytes q - msize (es ! j)\<rparr>) (take j es @ drop (Suc j) es)"
proof -
  let ?f = "\<lambda>e. unat (msize e)"
  have sum: "sum_list (map ?f (take j es @ drop (Suc j) es)) + ?f (es ! j) = unat (mq_current_bytes q)"
    using sum_list_remove_nth[OF assms(2), of ?f] assms(1) by (simp add: queue_ok_def)
  then have le: "msize (es ! j) \<le> mq_current_bytes q"
    by (simp add: word_le_nat_alt)
  then have u: "unat (mq_current_bytes q - msize (es ! j)) = sum_list (map ?f (take j es @ drop (Suc j) es))"
    using sum by (simp add: unat_sub)
  have le2: "mq_current_bytes q - msize (es ! j) \<le> mq_max_bytes q"
    using assms(1) le u sum by (simp add: queue_ok_def word_le_nat_alt)
  have l: "length es = Suc (length (take j es @ drop (Suc j) es))"
    using assms(2) by simp
  have "mq_msg_count q = of_nat (Suc (length (take j es @ drop (Suc j) es)))"
    using assms(1) l by (metis queue_ok_def)
  then have "mq_msg_count q - 1 = of_nat (length (take j es @ drop (Suc j) es))"
    by simp
  moreover have "\<forall>e \<in> set (take j es @ drop (Suc j) es). length (mtext e) = 4096 \<and> unat (msize e) \<le> 4096"
    using assms(1) by (auto simp: queue_ok_def dest: in_set_takeD in_set_dropD)
  ultimately show ?thesis
    using assms(1) u le2 by (simp add: queue_ok_def)
qed

lemma queue_ok_empty: "queue_ok empty_queue []"
  by (simp add: queue_ok_def empty_queue_def)

lemma msg_get_ok:
  assumes "msg_ok s"
  shows "msg_ok (snd (snd (msg_get cur s key flags)))"
proof (cases "key_lookup mq_key (msg_count s) (msg_queues s) key")
  case None
  then show ?thesis
    using assms by (auto simp: msg_get_def key_lookup_def[symmetric] Let_def msg_ok_def msg_len_ok_def
        nth_list_update less_Suc_eq queue_ok_def)
next
  case (Some i)
  then show ?thesis
    using assms by (simp add: msg_get_def key_lookup_def[symmetric])
qed

lemma msg_send_ok: "msg_ok s \<Longrightarrow> msg_ok (snd (msg_send ok s i ty body sz flags))"
  using msg_okD(4)[of s i] by (auto simp: msg_send_def Let_def intro!: msg_ok_update queue_ok_send)

lemma msg_recv_ok:
  assumes "msg_ok s"
  shows "msg_ok (snd (snd (msg_recv s i sz ty flags)))"
proof (cases "find_idx (msg_matches ty) (msg_entries s ! i)")
  case None
  then show ?thesis
    using assms by (simp add: msg_recv_def Let_def)
next
  case (Some j)
  then have "j < length (msg_entries s ! i)"
    by (simp add: find_idx_Some)
  then show ?thesis
    using Some assms msg_okD(4)[OF assms, of i]
    by (auto simp: msg_recv_def Let_def intro!: msg_ok_update queue_ok_recv)
qed

lemma msg_ctl_ok: "msg_ok s \<Longrightarrow> msg_ok (snd (snd (msg_ctl s i cmd)))"
  by (auto simp: msg_ctl_def intro!: msg_ok_update queue_ok_empty)

lemma msg_init_ok: "msg_ok msg_init"
  by (simp add: msg_ok_def msg_len_ok_def msg_init_def)

lemma find_idx_append_last:
  "\<forall>x \<in> set xs. \<not> P x \<Longrightarrow> P y \<Longrightarrow> find_idx P (xs @ [y]) = Some (length xs)"
  by (induction xs) auto

text \<open>The state a first \<open>msg_get\<close> leaves: one empty queue.\<close>

definition one_queue :: msg_state where
  "one_queue = snd (snd (msg_get 3 msg_init 7 IPC_CREAT))"

lemma one_queue_simps: "msg_ok one_queue" "msg_count one_queue = 1" "msg_entries one_queue ! 0 = []"
  "mq_current_bytes (msg_queues one_queue ! 0) = 0" "mq_max_bytes (msg_queues one_queue ! 0) = 65536"
proof -
  show "msg_ok one_queue"
    unfolding one_queue_def by (rule msg_get_ok[OF msg_init_ok])
  have "key_lookup mq_key 0 (msg_queues msg_init) 7 = None"
    by (simp add: key_lookup_def key_index_def)
  then show "msg_count one_queue = 1" "msg_entries one_queue ! 0 = []"
    "mq_current_bytes (msg_queues one_queue ! 0) = 0" "mq_max_bytes (msg_queues one_queue ! 0) = 65536"
    by (simp_all add: one_queue_def msg_get_def key_index_def msg_init_def IPC_CREAT_def MSG_MAX_def Let_def)
qed

subsection \<open>Properties\<close>

text \<open>Keys are names: a message queue obtained by \<open>msg_get\<close> with a key other than
  \<open>IPC_PRIVATE\<close> is found again under the same identifier by every later \<open>msg_get\<close> with that
  key, also after a queue with a different key was obtained, and that other queue has a
  different identifier. The same holds of \<open>shm_get\<close> and of \<open>sem_get\<close>.\<close>
theorem ipc_keys_are_names:
  assumes "key \<noteq> 0" "key' \<noteq> key"
  shows "(msg_len_ok m \<and> msg_get cur m key (ipc_flags c) = (r, Some i, m1) \<and>
        msg_get cur m1 key' (ipc_flags c') = (r', Some j, m2) \<longrightarrow>
      i \<noteq> j \<and> snd (msg_get cur m1 key (ipc_flags c'')) = (Some i, m1) \<and>
      snd (msg_get cur m2 key (ipc_flags c'')) = (Some i, m2)) \<and>
    (shm_ok h \<and> shm_get alloc cur h key sz (ipc_flags c) = (r, Some i, h1) \<and>
        shm_get alloc cur h1 key' sz (ipc_flags c') = (r', Some j, h2) \<longrightarrow>
      i \<noteq> j \<and> snd (shm_get alloc cur h1 key sz (ipc_flags c'')) = (Some i, h1) \<and>
      snd (shm_get alloc cur h2 key sz (ipc_flags c'')) = (Some i, h2)) \<and>
    (sem_len_ok s \<and> sem_get cur s key 1 (ipc_flags c) = (r, Some i, s1) \<and>
        sem_get cur s1 key' 1 (ipc_flags c') = (r', Some j, s2) \<longrightarrow>
      i \<noteq> j \<and> snd (sem_get cur s1 key 1 (ipc_flags c'')) = (Some i, s1) \<and>
      snd (sem_get cur s2 key 1 (ipc_flags c'')) = (Some i, s2))"
  using msg.get_other[of m cur key c i m1 key' c' j m2 c''] msg.get_again[of m cur key c i m1 c'']
    shm.get_other[of h alloc cur key sz c i h1 key' c' j h2 c''] shm.get_again[of h alloc cur key sz c i h1 c'']
    sem.get_other[of s cur key c i s1 key' c' j s2 c''] sem.get_again[of s cur key c i s1 c''] assms
  by simp

theorem ipc_keys_are_names_witness:
  "\<exists>r r' i j m1 m2. msg_get 3 msg_init 7 (ipc_flags True) = (r, Some i, m1) \<and>
     msg_get 3 m1 9 (ipc_flags True) = (r', Some j, m2) \<and> i \<noteq> j \<and>
     snd (msg_get 3 m2 7 (ipc_flags False)) = (Some i, m2)"
proof -
  obtain m1 where 1: "msg_get 3 msg_init 7 (ipc_flags True) = (0, Some 0, m1)"
    by (simp add: msg_get_def key_index_def msg_init_def MSG_MAX_def Let_def)
  have one: "take (Suc 0) (xs[0 := a]) = [a]" if "xs \<noteq> []" for xs :: "msg_queue list" and a
    using that by (cases xs) auto
  obtain m2 where 2: "msg_get 3 m1 9 (ipc_flags True) = (0, Some 1, m2)"
    using 1 by (auto simp: msg_get_def key_index_def msg_init_def MSG_MAX_def Let_def one)
  have "msg_len_ok msg_init"
    by (simp add: msg_len_ok_def msg_init_def)
  then show ?thesis
    using ipc_keys_are_names[of 7 9 msg_init 3 True 0 0 m1 True 0 1 m2 False] 1 2 by simp
qed

text \<open>C17. Bookkeeping of message queues: through every \<open>msg_get\<close>, \<open>msg_send\<close>, \<open>msg_recv\<close> and
  \<open>msg_ctl\<close>, for every queue \<open>msg_count\<close> is the number of messages queued and
  \<open>current_bytes\<close> the sum of their sizes, which never exceeds \<open>max_bytes\<close>.\<close>
theorem msg_queues_accounted:
  assumes "msg_ok s"
  shows "msg_ok (snd (snd (msg_get cur s key flags))) \<and> msg_ok (snd (msg_send ok s i ty body sz flags)) \<and>
    msg_ok (snd (snd (msg_recv s i sz ty flags))) \<and> msg_ok (snd (snd (msg_ctl s i cmd)))"
  using assms msg_get_ok msg_send_ok msg_recv_ok msg_ctl_ok by blast

theorem msg_queues_accounted_witness:
  "msg_ok one_queue \<and> msg_ok (snd (msg_send True one_queue 0 1 [65, 66] 2 0))"
  using msg_queues_accounted[OF one_queue_simps(1), of 0 0 0 True 0 1 "[65, 66]" 2] one_queue_simps(1) by blast

text \<open>A message is received as it was sent: when no message of the queue matches the type
  asked for yet and there is room, a \<open>msg_send\<close> followed by a \<open>msg_recv\<close> of that type into a
  buffer that is large enough returns the size, the type and the text sent, and leaves the
  other messages of the queue as they were.\<close>
theorem msg_send_recv_roundtrip:
  assumes "msg_ok s" "i < msg_count s" "sz \<le> MSG_TEXT_MAX" "unat sz \<le> length body"
    and "mq_current_bytes (msg_queues s ! i) + sz \<le> mq_max_bytes (msg_queues s ! i)"
    and "\<forall>e \<in> set (msg_entries s ! i). \<not> msg_matches ty e" "ty > 0" "sz \<le> bufsz"
  shows "\<exists>s1 s2. msg_send True s i ty body sz flags = (Ret 0, s1) \<and>
    msg_recv s1 i bufsz ty flags' = (Ret (int (unat sz)), Some (ty, take (unat sz) body), s2) \<and>
    msg_entries s2 = msg_entries s \<and> msg_ok s2"
proof -
  let ?es = "msg_entries s ! i" and ?q = "msg_queues s ! i"
  define e where "e = \<lparr>mtype = ty, msize = sz, mtext = memcpy (replicate 4096 0) 0 body 0 (unat sz)\<rparr>"
  define s1 where "s1 = s\<lparr>msg_entries := (msg_entries s)[i := ?es @ [e]],
       msg_queues := (msg_queues s)[i := ?q\<lparr>mq_msg_count := mq_msg_count ?q + 1,
         mq_current_bytes := mq_current_bytes ?q + sz\<rparr>]\<rparr>"
  have z: "unat sz \<le> 4096"
    using assms(3) by (simp add: MSG_TEXT_MAX_def word_le_nat_alt)
  have text_eq: "take (unat sz) (mtext e) = take (unat sz) body"
    using z assms(4) by (simp add: e_def memcpy_eq)
  have il: "i < length (msg_entries s)" "i < length (msg_queues s)"
    using assms(2) msg_okD(1,2,3)[OF assms(1)] by auto
  have send: "msg_send True s i ty body sz flags = (Ret 0, s1)"
    using assms(2,3,5) by (simp add: msg_send_def Let_def s1_def e_def not_less)
  have f: "find_idx (msg_matches ty) (?es @ [e]) = Some (length ?es)"
    using assms(6) by (intro find_idx_append_last) (auto simp: msg_matches_def e_def)
  have cs: "(if msize e < bufsz then msize e else bufsz) = sz"
    using assms(8) by (auto simp: e_def)
  obtain s2 where recv: "msg_recv s1 i bufsz ty flags' = (Ret (int (unat sz)), Some (ty, take (unat sz) body), s2)"
    and s2: "msg_entries s2 = (msg_entries s1)[i := ?es]"
    using assms(2) il f cs text_eq by (simp add: msg_recv_def Let_def s1_def) (use text_eq in \<open>simp add: e_def\<close>)
  have "msg_ok s1"
    using msg_send_ok[OF assms(1), of True i ty body sz flags] send by simp
  then have "msg_ok s2"
    using msg_recv_ok[of s1 i bufsz ty flags'] recv by simp
  moreover have "msg_entries s2 = msg_entries s"
    using s2 il by (simp add: s1_def)
  ultimately show ?thesis
    using send recv by blast
qed

theorem msg_send_recv_roundtrip_witness:
  "\<exists>s1 s2. msg_send True one_queue 0 1 [65, 66] 2 0 = (Ret 0, s1) \<and>
     msg_recv s1 0 16 1 0 = (Ret 2, Some (1, [65, 66]), s2)"
  using msg_send_recv_roundtrip[OF one_queue_simps(1), of 0 2 "[65, 66]" 1 16 0 0]
  by (auto simp: one_queue_simps MSG_TEXT_MAX_def)

end
