(* ===== verification/Futex.thy ===== *)
theory Futex
  imports Process
begin

section \<open>Futexes\<close>

text \<open>
  \<open>kernel/kernel/ipc.c\<close>, lines 489 to 601. Each of the 128 hash queues is the list of its
  waiters, head first; a waiter carries the address \<open>kzalloc\<close> gave for it, which is its
  identity. \<open>futex_frees\<close> records the addresses handed to \<open>kfree\<close>. A call holds \<open>futex_lock\<close>
  and is one step; \<open>futex_wait\<close> is the step up to \<open>process_yield\<close> and the step after it.
\<close>

abbreviation (input) PROCESS_SLEEPING :: u64 where "PROCESS_SLEEPING \<equiv> 3"

record futex_waiter =
  fw_node :: u64
  fw_pid :: u64
  fw_uaddr :: u64

record futex_state = process_state +
  futex_queues :: "futex_waiter list list"
  futex_frees :: "u64 list"

definition FUTEX_MAX_QUEUES :: nat where "FUTEX_MAX_QUEUES = 128"

definition futex_hash :: "u64 \<Rightarrow> nat" where
  "futex_hash uaddr = unat (ucast (drop_bit 4 uaddr) :: u32) mod FUTEX_MAX_QUEUES"

text \<open>
  \<open>current\<close> is the word read at \<open>uaddr\<close> before the lock is taken and \<open>node\<close> the answer of
  \<open>kzalloc\<close>. \<open>Inl\<close> is a return value; \<open>Inr\<close> is the waiter with which the call goes to sleep.
\<close>

definition futex_wait_enter ::
  "u32 \<Rightarrow> u64 \<Rightarrow> futex_state \<Rightarrow> u64 \<Rightarrow> u32 \<Rightarrow> (int + u64) \<times> futex_state" where
  "futex_wait_enter current node st uaddr val =
     (if current \<noteq> val then (Inl 0, st)
      else if node = 0 then (Inl (- 1), st)
      else let w = \<lparr>fw_node = node, fw_pid = of_nat (current_process st), fw_uaddr = uaddr\<rparr>;
               h = futex_hash uaddr
        in (Inr node, set_state (st\<lparr>futex_queues := (futex_queues st)[h := w # futex_queues st ! h]\<rparr>)
                 (current_process st) PROCESS_SLEEPING))"

text \<open>After the yield the waiter is unlinked from the queue it was put on, if it is there, and freed.\<close>

fun unlink_node :: "u64 \<Rightarrow> futex_waiter list \<Rightarrow> futex_waiter list" where
  "unlink_node node [] = []"
| "unlink_node node (w # ws) = (if fw_node w = node then ws else w # unlink_node node ws)"

definition futex_wait_leave :: "u64 \<Rightarrow> futex_state \<Rightarrow> u64 \<Rightarrow> int \<times> futex_state" where
  "futex_wait_leave node st uaddr =
     (let h = futex_hash uaddr
      in (0, st\<lparr>futex_queues := (futex_queues st)[h := unlink_node node (futex_queues st ! h)],
                futex_frees := futex_frees st @ [node]\<rparr>))"

text \<open>The loop of \<open>futex_wake\<close>: the waiters from \<open>*pp\<close> on; the result is what they become.\<close>

fun futex_wake_loop ::
  "u64 \<Rightarrow> nat \<Rightarrow> nat \<Rightarrow> futex_waiter list \<Rightarrow> futex_state \<Rightarrow> futex_waiter list \<times> nat \<times> futex_state" where
  "futex_wake_loop uaddr cnt woken [] st = ([], woken, st)"
| "futex_wake_loop uaddr cnt woken (w # ws) st =
     (if woken \<ge> cnt then (w # ws, woken, st)
      else if fw_uaddr w = uaddr
      then let pid = unat (fw_pid w);
               st1 = (if pid < PROCESS_MAX \<and> state_of st pid = PROCESS_SLEEPING
                      then set_state st pid PROCESS_READY else st)
        in futex_wake_loop uaddr cnt (Suc woken) ws (st1\<lparr>futex_frees := futex_frees st1 @ [fw_node w]\<rparr>)
      else let (ws', n, st') = futex_wake_loop uaddr cnt woken ws st in (w # ws', n, st'))"

definition futex_wake :: "futex_state \<Rightarrow> u64 \<Rightarrow> u32 \<Rightarrow> nat \<times> futex_state" where
  "futex_wake st uaddr cnt =
     (if cnt = 0 then (0, st)
      else let h = futex_hash uaddr;
               (ws, n, st') = futex_wake_loop uaddr (unat cnt) 0 (futex_queues st ! h) st
        in (n, st'\<lparr>futex_queues := (futex_queues st')[h := ws]\<rparr>))"

text \<open>
  The loop of \<open>futex_requeue\<close>. The first queue is split at \<open>pp\<close> into what is before it and
  what is from it on. A moved waiter goes to the head of the second queue; when both queues are
  one (\<open>same\<close>) that is the head of the first part, or the place \<open>pp\<close> points to when that part is
  empty, and \<open>q2\<close> is not used.
\<close>

function futex_requeue_loop ::
  "bool \<Rightarrow> u64 \<Rightarrow> u64 \<Rightarrow> nat \<Rightarrow> nat \<Rightarrow> futex_waiter list \<Rightarrow> futex_waiter list \<Rightarrow> futex_waiter list \<Rightarrow>
   futex_waiter list \<times> futex_waiter list \<times> nat" where
  "futex_requeue_loop same uaddr uaddr2 cnt moved pre [] q2 = (pre, q2, moved)"
| "futex_requeue_loop same uaddr uaddr2 cnt moved pre (w # ws) q2 =
     (if moved \<ge> cnt then (pre @ w # ws, q2, moved)
      else if fw_uaddr w = uaddr
      then let w' = w\<lparr>fw_uaddr := uaddr2\<rparr> in
        if same
        then (if pre = [] then futex_requeue_loop same uaddr uaddr2 cnt (Suc moved) [] (w' # ws) q2
              else futex_requeue_loop same uaddr uaddr2 cnt (Suc moved) (w' # pre) ws q2)
        else futex_requeue_loop same uaddr uaddr2 cnt (Suc moved) pre ws (w' # q2)
      else futex_requeue_loop same uaddr uaddr2 cnt moved (pre @ [w]) ws q2)"
  by pat_completeness auto
termination
  by (relation "measure (\<lambda>(_, _, _, cnt, moved, _, rest, _). (cnt - moved) + length rest)") auto

definition futex_requeue :: "futex_state \<Rightarrow> u64 \<Rightarrow> u64 \<Rightarrow> u32 \<Rightarrow> nat \<times> futex_state" where
  "futex_requeue st uaddr uaddr2 cnt =
     (let h1 = futex_hash uaddr; h2 = futex_hash uaddr2; same = (h1 = h2);
          (q1, q2, moved) = futex_requeue_loop same uaddr uaddr2 (unat cnt) 0 []
             (futex_queues st ! h1) (futex_queues st ! h2)
      in (moved, st\<lparr>futex_queues := (if same then (futex_queues st)[h1 := q1]
                                     else (futex_queues st)[h1 := q1, h2 := q2])\<rparr>))"

subsection \<open>The contract\<close>

text \<open>
  Seen from outside, the futex table gives for each address the processes that wait on it, the
  most recent first. A waiter is only found on the queue of its address.
\<close>

definition on_addr :: "u64 \<Rightarrow> futex_waiter list \<Rightarrow> u64 list" where
  "on_addr a ws = map fw_pid (filter (\<lambda>w. fw_uaddr w = a) ws)"

definition futex_waiters :: "futex_state \<Rightarrow> u64 \<Rightarrow> u64 list" where
  "futex_waiters st a = on_addr a (futex_queues st ! futex_hash a)"

definition futex_ok :: "futex_state \<Rightarrow> bool" where
  "futex_ok st \<longleftrightarrow> length (processes st) = PROCESS_MAX \<and> current_process st < PROCESS_MAX \<and>
     length (futex_queues st) = FUTEX_MAX_QUEUES \<and>
     (\<forall>h < FUTEX_MAX_QUEUES. \<forall>w \<in> set (futex_queues st ! h). futex_hash (fw_uaddr w) = h)"

definition woken_states :: "u64 list \<Rightarrow> (nat \<Rightarrow> u64) \<Rightarrow> nat \<Rightarrow> u64" where
  "woken_states pids f i =
     (if i < PROCESS_MAX \<and> f i = PROCESS_SLEEPING \<and> i \<in> unat ` set pids then PROCESS_READY else f i)"

lemma futex_hash_less [simp]: "futex_hash a < FUTEX_MAX_QUEUES"
  by (simp add: futex_hash_def FUTEX_MAX_QUEUES_def)

lemma on_addr_simps [simp]:
  "on_addr a [] = []"
  "on_addr a (w # ws) = (if fw_uaddr w = a then fw_pid w # on_addr a ws else on_addr a ws)"
  "on_addr a (us @ ws) = on_addr a us @ on_addr a ws"
  by (simp_all add: on_addr_def)

lemma set_state_futex [simp]:
  "futex_queues (set_state st i s) = futex_queues st" "futex_frees (set_state st i s) = futex_frees st"
  by (simp_all add: set_state_def)

lemma state_of_futex [simp]:
  "state_of (st\<lparr>futex_queues := q\<rparr>) i = state_of st i" "state_of (st\<lparr>futex_frees := fr\<rparr>) i = state_of st i"
  by (simp_all add: state_of_def)

lemma min_diff_Suc: "m < c \<Longrightarrow> min (c - m) (Suc n) = Suc (min (c - Suc m) n)"
  by auto

lemma woken_states_twice: "woken_states p (woken_states [q] f) = woken_states (q # p) f"
  by (auto simp: woken_states_def fun_eq_iff)

lemma woken_states_Nil [simp]: "woken_states [] f = f"
  by (simp add: woken_states_def fun_eq_iff)

lemma futex_wake_loop_spec:
  assumes "futex_wake_loop a cnt woken ws st = (ws', n, st')" "length (processes st) = PROCESS_MAX"
    "k = min (cnt - woken) (length (on_addr a ws))"
  shows "n = woken + k \<and> on_addr a ws' = drop k (on_addr a ws) \<and> (\<forall>b. b \<noteq> a \<longrightarrow> on_addr b ws' = on_addr b ws) \<and>
    set ws' \<subseteq> set ws \<and> futex_queues st' = futex_queues st \<and>
    length (processes st') = PROCESS_MAX \<and> current_process st' = current_process st \<and>
    state_of st' = woken_states (take k (on_addr a ws)) (state_of st)"
  using assms
proof (induction ws arbitrary: woken st ws' k)
  case Nil
  then show ?case by auto
next
  case (Cons w ws)
  consider "woken \<ge> cnt" | "woken < cnt" "fw_uaddr w = a" | "woken < cnt" "fw_uaddr w \<noteq> a"
    by linarith
  then show ?case
  proof cases
    case 1
    then show ?thesis using Cons.prems by auto
  next
    case 2
    define pid where "pid = unat (fw_pid w)"
    define st1 where "st1 = (if pid < PROCESS_MAX \<and> state_of st pid = PROCESS_SLEEPING
        then set_state st pid PROCESS_READY else st)"
    define st2 where "st2 = st1\<lparr>futex_frees := futex_frees st1 @ [fw_node w]\<rparr>"
    have rec: "futex_wake_loop a cnt (Suc woken) ws st2 = (ws', n, st')"
      using Cons.prems(1) 2 by (auto simp: st2_def st1_def pid_def Let_def split: if_splits)
    have st2: "length (processes st2) = PROCESS_MAX" "futex_queues st2 = futex_queues st"
      "current_process st2 = current_process st" "state_of st2 = woken_states [fw_pid w] (state_of st)"
      using Cons.prems(2) by (auto simp: st2_def st1_def pid_def woken_states_def fun_eq_iff)
    show ?thesis
      using Cons.IH[OF rec st2(1) refl] Cons.prems(3) 2
      by (simp add: st2(2-4) woken_states_twice min_diff_Suc) blast
  next
    case 3
    obtain ws1 where ws1: "futex_wake_loop a cnt woken ws st = (ws1, n, st')" "ws' = w # ws1"
      using Cons.prems(1) 3 by (auto simp: split_beta prod_eq_iff)
    show ?thesis
      using Cons.IH[OF ws1(1) Cons.prems(2) refl] Cons.prems(3) ws1(2) 3 by auto
  qed
qed

lemma futex_requeue_loop_other:
  assumes "futex_requeue_loop same a b cnt moved pre rest q2 = (q1, q2', n)" "\<not> same"
    "on_addr a pre = []" "k = min (cnt - moved) (length (on_addr a rest))"
  shows "n = moved + k \<and> on_addr a q1 = drop k (on_addr a rest) \<and>
    on_addr b q2' = rev (take k (on_addr a rest)) @ on_addr b q2 \<and>
    (\<forall>c. c \<noteq> a \<longrightarrow> on_addr c q1 = on_addr c pre @ on_addr c rest) \<and>
    (\<forall>c. c \<noteq> b \<longrightarrow> on_addr c q2' = on_addr c q2) \<and>
    set q1 \<subseteq> set pre \<union> set rest \<and> fw_uaddr ` set q2' \<subseteq> insert b (fw_uaddr ` set q2)"
  using assms
proof (induction same a b cnt moved pre rest q2 arbitrary: k rule: futex_requeue_loop.induct)
  case (1 same uaddr uaddr2 cnt moved pre q2)
  then show ?case by auto
next
  case (2 same uaddr uaddr2 cnt moved pre w ws q2)
  consider "moved \<ge> cnt" | "moved < cnt" "fw_uaddr w = uaddr" | "moved < cnt" "fw_uaddr w \<noteq> uaddr"
    by linarith
  then show ?case
  proof cases
    case 1
    then show ?thesis using "2.prems" by auto
  next
    case m: 2
    have "futex_requeue_loop same uaddr uaddr2 cnt (Suc moved) pre ws (w\<lparr>fw_uaddr := uaddr2\<rparr> # q2) = (q1, q2', n)"
      using "2.prems"(1,2) m by (simp add: Let_def)
    from "2.IH"(3)[OF _ m(2) refl "2.prems"(2) this "2.prems"(2,3) refl] m(1)
    show ?thesis
      using "2.prems"(4) m by (simp add: min_diff_Suc) auto
  next
    case m: 3
    have "futex_requeue_loop same uaddr uaddr2 cnt moved (pre @ [w]) ws q2 = (q1, q2', n)"
      using "2.prems"(1) m by simp
    from "2.IH"(4)[OF _ m(2) this "2.prems"(2) _ refl] "2.prems"(3) m
    show ?thesis
      using "2.prems"(4) m by auto
  qed
qed

lemma futex_requeue_loop_same:
  assumes "futex_requeue_loop same a b cnt moved pre rest q2 = (q1, q2', n)" same "a \<noteq> b"
    "on_addr a pre = []" "k = min (cnt - moved) (length (on_addr a rest))"
  shows "n = moved + k \<and> on_addr a q1 = drop k (on_addr a rest) \<and>
    on_addr b q1 = rev (take k (on_addr a rest)) @ on_addr b pre @ on_addr b rest \<and>
    (\<forall>c. c \<noteq> a \<longrightarrow> c \<noteq> b \<longrightarrow> on_addr c q1 = on_addr c pre @ on_addr c rest) \<and>
    fw_uaddr ` set q1 \<subseteq> insert b (fw_uaddr ` (set pre \<union> set rest))"
  using assms
proof (induction same a b cnt moved pre rest q2 arbitrary: k rule: futex_requeue_loop.induct)
  case (1 same uaddr uaddr2 cnt moved pre q2)
  then show ?case by auto
next
  case (2 same uaddr uaddr2 cnt moved pre w ws q2)
  let ?w = "w\<lparr>fw_uaddr := uaddr2\<rparr>"
  consider "moved \<ge> cnt" | "moved < cnt" "fw_uaddr w = uaddr" "pre = []" | "moved < cnt" "fw_uaddr w = uaddr" "pre \<noteq> []"
    | "moved < cnt" "fw_uaddr w \<noteq> uaddr"
    by linarith
  then show ?case
  proof cases
    case 1
    then show ?thesis using "2.prems" by auto
  next
    case m: 2
    have "futex_requeue_loop same uaddr uaddr2 cnt (Suc moved) [] (?w # ws) q2 = (q1, q2', n)"
      using "2.prems"(1,2) m by (simp add: Let_def)
    from "2.IH"(1)[OF _ m(2) refl "2.prems"(2) m(3) this "2.prems"(2,3) _ refl] m(1)
    show ?thesis
      using "2.prems"(3,5) m by (simp add: min_diff_Suc) auto
  next
    case m: 3
    have "futex_requeue_loop same uaddr uaddr2 cnt (Suc moved) (?w # pre) ws q2 = (q1, q2', n)"
      using "2.prems"(1,2) m by (simp add: Let_def)
    from "2.IH"(2)[OF _ m(2) refl "2.prems"(2) m(3) this "2.prems"(2,3) _ refl] m(1)
    show ?thesis
      using "2.prems"(3-5) m by (simp add: min_diff_Suc) auto
  next
    case m: 4
    have "futex_requeue_loop same uaddr uaddr2 cnt moved (pre @ [w]) ws q2 = (q1, q2', n)"
      using "2.prems"(1) m by simp
    from "2.IH"(4)[OF _ m(2) this "2.prems"(2,3) _ refl] "2.prems"(4) m
    show ?thesis
      using "2.prems"(5) m by auto
  qed
qed

subsection \<open>Every call implements the contract\<close>

lemma futex_ok_update:
  assumes "futex_ok st" "h < FUTEX_MAX_QUEUES" "fw_uaddr ` set q \<subseteq> {a. futex_hash a = h}"
  shows "futex_ok (st\<lparr>futex_queues := (futex_queues st)[h := q]\<rparr>)"
  using assms unfolding futex_ok_def by (auto simp: nth_list_update split: if_splits)

lemma futex_ok_queue:
  "futex_ok st \<Longrightarrow> h < FUTEX_MAX_QUEUES \<Longrightarrow> fw_uaddr ` set (futex_queues st ! h) \<subseteq> {a. futex_hash a = h}"
  by (auto simp: futex_ok_def)

lemma on_addr_empty: "fw_uaddr ` set q \<subseteq> {a. futex_hash a = h} \<Longrightarrow> futex_hash a \<noteq> h \<Longrightarrow> on_addr a q = []"
  by (auto simp: on_addr_def filter_empty_conv)

lemma futex_wait_enter_refines:
  assumes "futex_ok st" "futex_wait_enter current node st a v = (r, st')"
  shows "futex_ok st' \<and> (case r of Inl c \<Rightarrow> st' = st
     | Inr n \<Rightarrow> futex_waiters st' = (futex_waiters st)(a := of_nat (current_process st) # futex_waiters st a))"
proof (cases "current = v \<and> node \<noteq> 0")
  case False
  then show ?thesis using assms by (auto simp: futex_wait_enter_def split: if_splits)
next
  case True
  let ?w = "\<lparr>fw_node = node, fw_pid = of_nat (current_process st), fw_uaddr = a\<rparr>"
  let ?q = "?w # futex_queues st ! futex_hash a"
  define st1 where "st1 = st\<lparr>futex_queues := (futex_queues st)[futex_hash a := ?q]\<rparr>"
  have st': "r = Inr node" "st' = set_state st1 (current_process st) PROCESS_SLEEPING"
    using True assms(2) by (auto simp: futex_wait_enter_def Let_def st1_def)
  have "futex_ok st1"
    unfolding st1_def using futex_ok_queue[OF assms(1) futex_hash_less[of a]]
    by (intro futex_ok_update[OF assms(1)]) auto
  then have "futex_ok st'"
    by (simp add: st' futex_ok_def)
  moreover have "length (futex_queues st) = FUTEX_MAX_QUEUES"
    using assms(1) by (simp add: futex_ok_def)
  then have "futex_waiters st' = (futex_waiters st)(a := of_nat (current_process st) # futex_waiters st a)"
    by (auto simp: fun_eq_iff futex_waiters_def st' st1_def nth_list_update)
  ultimately show ?thesis by (simp add: st')
qed

lemma futex_wake_refines:
  assumes "futex_ok st" "futex_wake st a c = (n, st')"
  shows "futex_ok st' \<and> n = min (unat c) (length (futex_waiters st a)) \<and>
    futex_waiters st' = (futex_waiters st)(a := drop n (futex_waiters st a)) \<and>
    state_of st' = woken_states (take n (futex_waiters st a)) (state_of st)"
proof (cases "c = 0")
  case True
  then show ?thesis using assms by (simp add: futex_wake_def)
next
  case False
  let ?h = "futex_hash a" and ?q = "futex_queues st ! futex_hash a"
  obtain ws st1 where l: "futex_wake_loop a (unat c) 0 ?q st = (ws, n, st1)"
      and st': "st' = st1\<lparr>futex_queues := (futex_queues st1)[?h := ws]\<rparr>"
    using assms(2) False by (auto simp: futex_wake_def Let_def split: prod.splits)
  have len: "length (processes st) = PROCESS_MAX" "length (futex_queues st) = FUTEX_MAX_QUEUES"
    using assms(1) by (simp_all add: futex_ok_def)
  have n: "n = min (unat c - 0) (length (on_addr a ?q))"
    using futex_wake_loop_spec[OF l len(1) refl] by simp
  note s = futex_wake_loop_spec[OF l len(1) n]
  have ok1: "futex_ok st1" using assms(1) s by (simp add: futex_ok_def)
  have "fw_uaddr ` set ws \<subseteq> {b. futex_hash b = ?h}"
    using s futex_ok_queue[OF assms(1) futex_hash_less[of a]] by blast
  then have "futex_ok st'"
    unfolding st' by (intro futex_ok_update[OF ok1]) simp_all
  moreover have "futex_waiters st' b = ((futex_waiters st)(a := drop n (futex_waiters st a))) b" for b
    using s len(2) by (simp add: futex_waiters_def st' nth_list_update)
  moreover have "state_of st' = woken_states (take n (futex_waiters st a)) (state_of st)"
    using s by (simp add: futex_waiters_def st' fun_eq_iff)
  ultimately show ?thesis
    using n by (simp add: futex_waiters_def fun_eq_iff)
qed

lemma futex_requeue_refines:
  assumes "futex_ok st" "a \<noteq> b" "futex_requeue st a b c = (n, st')"
  shows "futex_ok st' \<and> n = min (unat c) (length (futex_waiters st a)) \<and>
    futex_waiters st' = (futex_waiters st)(a := drop n (futex_waiters st a),
       b := rev (take n (futex_waiters st a)) @ futex_waiters st b) \<and> state_of st' = state_of st"
proof -
  let ?h = "futex_hash a" and ?g = "futex_hash b"
  let ?q = "futex_queues st ! ?h"
  obtain q1 q2 where l: "futex_requeue_loop (?h = ?g) a b (unat c) 0 [] ?q (futex_queues st ! ?g) = (q1, q2, n)"
      and st': "st' = st\<lparr>futex_queues := (if ?h = ?g then (futex_queues st)[?h := q1]
          else (futex_queues st)[?h := q1, ?g := q2])\<rparr>"
    using assms(3) by (auto simp: futex_requeue_def Let_def split: prod.splits)
  have len: "length (futex_queues st) = FUTEX_MAX_QUEUES"
    using assms(1) by (simp add: futex_ok_def)
  note qa = futex_ok_queue[OF assms(1) futex_hash_less[of a]] and qb = futex_ok_queue[OF assms(1) futex_hash_less[of b]]
  have state: "state_of st' = state_of st"
    by (simp add: st' fun_eq_iff)
  show ?thesis
  proof (cases "?h = ?g")
    case True
    have n: "n = min (unat c - 0) (length (on_addr a ?q))"
      using futex_requeue_loop_same[OF l True assms(2) _ refl] by simp
    note s = futex_requeue_loop_same[OF l True assms(2) on_addr_simps(1) n]
    have "fw_uaddr ` set q1 \<subseteq> {d. futex_hash d = ?h}"
      by (rule order_trans[of _ "insert b (fw_uaddr ` set ?q)"]) (use s qa True in simp_all)
    then have "futex_ok st'"
      using True futex_ok_update[OF assms(1) futex_hash_less] by (simp add: st')
    moreover have "futex_waiters st' d = ((futex_waiters st)(a := drop n (futex_waiters st a),
       b := rev (take n (futex_waiters st a)) @ futex_waiters st b)) d" for d
      using s len True assms(2) by (simp add: futex_waiters_def st' nth_list_update)
    ultimately show ?thesis using n state by (simp add: futex_waiters_def fun_eq_iff)
  next
    case False
    have n: "n = min (unat c - 0) (length (on_addr a ?q))"
      using futex_requeue_loop_other[OF l False _ refl] by simp
    note s = futex_requeue_loop_other[OF l False on_addr_simps(1) n]
    have q1: "fw_uaddr ` set q1 \<subseteq> {d. futex_hash d = ?h}"
      by (rule order_trans[of _ "fw_uaddr ` set ?q"]) (use s qa in auto)
    have q2: "fw_uaddr ` set q2 \<subseteq> {d. futex_hash d = ?g}"
      by (rule order_trans[of _ "insert b (fw_uaddr ` set (futex_queues st ! ?g))"]) (use s qb in auto)
    have "futex_ok (st\<lparr>futex_queues := (futex_queues st)[?h := q1]\<rparr>)"
      by (rule futex_ok_update[OF assms(1) futex_hash_less q1])
    from futex_ok_update[OF this futex_hash_less q2] have "futex_ok st'"
      using False by (simp add: st')
    moreover have "futex_waiters st' d = ((futex_waiters st)(a := drop n (futex_waiters st a),
       b := rev (take n (futex_waiters st a)) @ futex_waiters st b)) d" for d
    proof -
      have "on_addr b q1 = on_addr b (futex_queues st ! ?h)" using s assms(2) by simp
      then show ?thesis
        using s len False assms(2) by (simp add: futex_waiters_def st' nth_list_update)
    qed
    ultimately show ?thesis using n state by (simp add: futex_waiters_def fun_eq_iff)
  qed
qed

lemma futex_wait_leave_ok: "futex_ok st \<Longrightarrow> futex_ok (snd (futex_wait_leave node st a))"
proof -
  assume ok: "futex_ok st"
  have "set (unlink_node node q) \<subseteq> set q" for q
    by (induction q) auto
  then have "fw_uaddr ` set (unlink_node node (futex_queues st ! futex_hash a)) \<subseteq> {b. futex_hash b = futex_hash a}"
    using futex_ok_queue[OF ok futex_hash_less[of a]] by blast
  from futex_ok_update[OF ok futex_hash_less this]
  show ?thesis by (simp add: futex_wait_leave_def futex_ok_def Let_def)
qed

text \<open>
  After the yield \<open>futex_wait\<close> looks for its node on the queue it was put on. If it is there, that waiter leaves the list of its
  address; otherwise no list changes.
\<close>

lemma unlink_node_split:
  "(\<forall>w \<in> set q. fw_node w \<noteq> node) \<and> unlink_node node q = q \<or>
   (\<exists>us w vs. q = us @ w # vs \<and> fw_node w = node \<and> (\<forall>u \<in> set us. fw_node u \<noteq> node) \<and> unlink_node node q = us @ vs)"
proof (induction q)
  case (Cons w q)
  show ?case
  proof (cases "fw_node w = node")
    case False
    from Cons show ?thesis
    proof (elim disjE exE conjE)
      fix us v vs assume "q = us @ v # vs" "fw_node v = node" "\<forall>u \<in> set us. fw_node u \<noteq> node" "unlink_node node q = us @ vs"
      then show ?thesis using False by (intro disjI2 exI[of _ "w # us"] exI[of _ v] exI[of _ vs]) simp
    qed (use False in simp)
  qed fastforce
qed simp

lemma futex_wait_leave_refines:
  assumes ok: "futex_ok st" and r: "futex_wait_leave node st a = (r, st')"
  shows "r = 0 \<and> futex_ok st' \<and> futex_frees st' = futex_frees st @ [node] \<and> state_of st' = state_of st \<and>
    (if \<exists>w \<in> set (futex_queues st ! futex_hash a). fw_node w = node
     then \<exists>w us vs. w \<in> set (futex_queues st ! futex_hash a) \<and> fw_node w = node \<and> futex_waiters st (fw_uaddr w) = us @ fw_pid w # vs \<and>
       futex_waiters st' = (futex_waiters st)(fw_uaddr w := us @ vs)
     else futex_waiters st' = futex_waiters st)"
proof -
  let ?h = "futex_hash a" and ?q = "futex_queues st ! futex_hash a"
  have st': "r = 0" "st' = st\<lparr>futex_queues := (futex_queues st)[?h := unlink_node node ?q], futex_frees := futex_frees st @ [node]\<rparr>"
    using r by (simp_all add: futex_wait_leave_def Let_def)
  have len: "length (futex_queues st) = FUTEX_MAX_QUEUES" using ok by (simp add: futex_ok_def)
  have w': "futex_waiters st' b = (if futex_hash b = ?h then on_addr b (unlink_node node ?q) else futex_waiters st b)" for b
    using len by (simp add: futex_waiters_def st' nth_list_update)
  have common: "r = 0" "futex_ok st'" "futex_frees st' = futex_frees st @ [node]" "state_of st' = state_of st"
    using futex_wait_leave_ok[OF ok, of node a] r st' by (auto simp: state_of_def fun_eq_iff)
  from unlink_node_split[of ?q node] show ?thesis
  proof (elim disjE exE conjE)
    assume "\<forall>w \<in> set ?q. fw_node w \<noteq> node" "unlink_node node ?q = ?q"
    then show ?thesis using common w' by (auto simp: fun_eq_iff futex_waiters_def)
  next
    fix us w vs assume q: "?q = us @ w # vs" "fw_node w = node" "unlink_node node ?q = us @ vs"
    let ?b = "fw_uaddr w"
    have w: "w \<in> set ?q" using q(1) by simp
    then have "futex_hash ?b = ?h" using ok by (simp add: futex_ok_def)
    then have "futex_waiters st ?b = on_addr ?b us @ fw_pid w # on_addr ?b vs" "futex_waiters st' = (futex_waiters st)(?b := on_addr ?b us @ on_addr ?b vs)"
      using q w' by (auto simp: futex_waiters_def fun_eq_iff)
    then show ?thesis using common w q(2) by auto
  qed
qed

text \<open>Moving waiters to the address they are on may change their order, and nothing else.\<close>

lemma futex_requeue_loop_self:
  assumes "futex_requeue_loop same a a' cnt moved pre rest q2 = (q1, q2', n)" "same" "a' = a"
  shows "mset q1 = mset pre + mset rest \<and> (\<forall>b. b \<noteq> a \<longrightarrow> on_addr b q1 = on_addr b pre @ on_addr b rest)"
  using assms
proof (induction same a a' cnt moved pre rest q2 rule: futex_requeue_loop.induct)
  case (2 same a a' cnt moved pre w ws q2)
  have same: "w\<lparr>fw_uaddr := a\<rparr> = w" if "fw_uaddr w = a" using that by (cases w) simp
  consider "moved \<ge> cnt" | "moved < cnt" "fw_uaddr w \<noteq> a" | "moved < cnt" "fw_uaddr w = a" "pre = []" | "moved < cnt" "fw_uaddr w = a" "pre \<noteq> []"
    by linarith
  then show ?case
  proof cases
    case 1 then show ?thesis using 2(5-7) by auto
  next
    case c: 2 then show ?thesis using 2(4)[OF _ c(2)] 2(5-7) by auto
  next
    case c: 3 then show ?thesis using 2(1)[OF _ c(2) refl 2(6) c(3)] 2(5-7) same by (simp add: Let_def)
  next
    case c: 4 then show ?thesis using 2(2)[OF _ c(2) refl 2(6) c(3)] 2(5-7) same by (auto simp: Let_def)
  qed
qed auto

lemma futex_requeue_self:
  assumes ok: "futex_ok st" and r: "futex_requeue st a a c = (n, st')"
  shows "futex_ok st' \<and> (\<forall>b. mset (futex_waiters st' b) = mset (futex_waiters st b)) \<and> (\<forall>b. b \<noteq> a \<longrightarrow> futex_waiters st' b = futex_waiters st b) \<and>
    state_of st' = state_of st"
proof -
  let ?h = "futex_hash a" and ?q = "futex_queues st ! futex_hash a"
  obtain q1 q2 where l: "futex_requeue_loop True a a (unat c) 0 [] ?q ?q = (q1, q2, n)" and st': "st' = st\<lparr>futex_queues := (futex_queues st)[?h := q1]\<rparr>"
    using r by (auto simp: futex_requeue_def Let_def split: prod.splits)
  note s = futex_requeue_loop_self[OF l TrueI refl]
  have len: "length (futex_queues st) = FUTEX_MAX_QUEUES" using ok by (simp add: futex_ok_def)
  have "set q1 = set ?q" using s by (metis add_0 mset.simps(1) mset_eq_setD)
  then have "futex_ok st'" using futex_ok_update[OF ok futex_hash_less, of q1] futex_ok_queue[OF ok futex_hash_less[of a]] by (simp add: st')
  moreover have "mset (on_addr b q1) = mset (on_addr b ?q)" for b using s by (simp add: on_addr_def)
  moreover have "on_addr b q1 = on_addr b ?q" if "b \<noteq> a" for b using s that by simp
  ultimately show ?thesis using len by (auto simp: futex_waiters_def st' nth_list_update fun_eq_iff)
qed

subsection \<open>Properties\<close>

definition boot_futex :: futex_state where
  "boot_futex = \<lparr>processes = processes two_processes, process_count = process_count two_processes,
     current_process = current_process two_processes, futex_queues = replicate 128 [], futex_frees = []\<rparr>"

lemma boot_futex_ok: "futex_ok boot_futex"
  using process_invD(1,2)[OF two_processes_inv(1)]
  by (simp add: futex_ok_def boot_futex_def FUTEX_MAX_QUEUES_def)

text \<open>C22. The futex calls implement a table of waiters per address, however the addresses hash.
  \<open>futex_wait\<close> puts the caller in front of the waiters of its address; when it runs again it takes its waiter off the table if that is
  still on the queue it was put on, changes no list otherwise, and frees it in either case. \<open>futex_wake\<close> takes the first
  \<open>count\<close> waiters (or all), makes those asleep ready and returns how many it took. \<open>futex_requeue\<close> moves the first \<open>count\<close> to another
  address; when both addresses are the same it keeps the waiters but not their order. The waiters of every other address
  and the states of every other process stay as they were.\<close>
theorem futex_refines:
  assumes "futex_ok st"
  shows "(\<forall>r st'. futex_wait_enter current node st a v = (r, st') \<longrightarrow>
        futex_ok st' \<and> (case r of Inl e \<Rightarrow> st' = st
          | Inr w \<Rightarrow> futex_waiters st' = (futex_waiters st)(a := of_nat (current_process st) # futex_waiters st a))) \<and>
    (\<forall>r st'. futex_wait_leave node st a = (r, st') \<longrightarrow>
        r = 0 \<and> futex_ok st' \<and> futex_frees st' = futex_frees st @ [node] \<and> state_of st' = state_of st \<and>
        (if \<exists>w \<in> set (futex_queues st ! futex_hash a). fw_node w = node
         then \<exists>w us vs. w \<in> set (futex_queues st ! futex_hash a) \<and> fw_node w = node \<and> futex_waiters st (fw_uaddr w) = us @ fw_pid w # vs \<and>
           futex_waiters st' = (futex_waiters st)(fw_uaddr w := us @ vs)
         else futex_waiters st' = futex_waiters st)) \<and>
    (\<forall>n st'. futex_wake st a c = (n, st') \<longrightarrow>
        futex_ok st' \<and> n = min (unat c) (length (futex_waiters st a)) \<and>
        futex_waiters st' = (futex_waiters st)(a := drop n (futex_waiters st a)) \<and>
        state_of st' = woken_states (take n (futex_waiters st a)) (state_of st)) \<and>
    (\<forall>n st'. a \<noteq> b \<and> futex_requeue st a b c = (n, st') \<longrightarrow>
        futex_ok st' \<and> n = min (unat c) (length (futex_waiters st a)) \<and>
        futex_waiters st' = (futex_waiters st)(a := drop n (futex_waiters st a),
          b := rev (take n (futex_waiters st a)) @ futex_waiters st b) \<and> state_of st' = state_of st) \<and>
    (\<forall>n st'. futex_requeue st a a c = (n, st') \<longrightarrow>
        futex_ok st' \<and> (\<forall>b. mset (futex_waiters st' b) = mset (futex_waiters st b)) \<and> (\<forall>b. b \<noteq> a \<longrightarrow> futex_waiters st' b = futex_waiters st b) \<and>
        state_of st' = state_of st)"
proof (intro conjI, goal_cases)
  case 1 show ?case using futex_wait_enter_refines[OF assms] by blast
next
  case 2 show ?case using futex_wait_leave_refines[OF assms] by blast
next
  case 3 show ?case using futex_wake_refines[OF assms] by blast
next
  case 4 show ?case using futex_requeue_refines[OF assms] by blast
next
  case 5 show ?case using futex_requeue_self[OF assms] by blast
qed

theorem futex_refines_witness:
  "\<exists>w st1 st2. futex_wait_enter 5 0x1000 boot_futex 0x40 5 = (Inr w, st1) \<and> futex_wake st1 0x40 3 = (1, st2) \<and>
     futex_waiters st2 0x40 = [] \<and> futex_waiters (snd (futex_wait_leave w st2 0x40)) 0x40 = []"
proof -
  have e: "futex_waiters boot_futex 0x40 = []"
    by (simp add: futex_waiters_def boot_futex_def futex_hash_def FUTEX_MAX_QUEUES_def)
  obtain w st1 where 1: "futex_wait_enter 5 0x1000 boot_futex 0x40 5 = (Inr w, st1)"
    by (simp add: futex_wait_enter_def Let_def)
  then have st1: "futex_ok st1" "length (futex_waiters st1 0x40) = 1"
    using futex_refines[OF boot_futex_ok, where current = 5 and node = "0x1000" and a = "0x40" and v = 5] e by auto
  obtain n st2 where 2: "futex_wake st1 0x40 3 = (n, st2)" by fastforce
  then have "n = 1" "futex_waiters st2 0x40 = []"
    using futex_refines[OF st1(1), where a = "0x40" and c = 3] st1(2) by auto
  moreover have "futex_waiters (snd (futex_wait_leave w st2 0x40)) 0x40 = []"
  proof -
    have ok2: "futex_ok st2" using futex_refines[OF st1(1), where a = "0x40" and c = 3] 2 by blast
    obtain st3 where 3: "futex_wait_leave w st2 0x40 = (0, st3)" by (simp add: futex_wait_leave_def Let_def)
    have "if \<exists>u \<in> set (futex_queues st2 ! futex_hash 0x40). fw_node u = w
       then \<exists>u us vs. u \<in> set (futex_queues st2 ! futex_hash 0x40) \<and> fw_node u = w \<and> futex_waiters st2 (fw_uaddr u) = us @ fw_pid u # vs \<and>
         futex_waiters st3 = (futex_waiters st2)(fw_uaddr u := us @ vs)
       else futex_waiters st3 = futex_waiters st2"
      using futex_refines[OF ok2, where node = w and a = "0x40"] 3 by blast
    then have "futex_waiters st3 0x40 = []" using calculation(2) by (auto split: if_splits)
    then show ?thesis using 3 by simp
  qed
  ultimately show ?thesis using 1 2 by blast
qed

text \<open>A waiter that is woken is freed twice: \<open>futex_wake\<close> frees the node it unlinks, and the
  woken \<open>futex_wait\<close> frees the same node again when it runs, though it is on no queue any more.\<close>
theorem futex_wait_frees_twice:
  assumes "futex_wait_enter v node st a v = (Inr w, st1)" "futex_wake st1 a 1 = (n, st2)"
    "length (futex_queues st) = FUTEX_MAX_QUEUES"
  shows "futex_frees (snd (futex_wait_leave w st2 a)) = futex_frees st @ [node, node]"
proof -
  have stop: "futex_wake_loop a (Suc 0) (Suc 0) ws s = (ws, Suc 0, s)" for ws s
    by (cases ws) simp_all
  have w: "w = node" "futex_frees st1 = futex_frees st"
    and q: "futex_queues st1 ! futex_hash a = \<lparr>fw_node = node, fw_pid = of_nat (current_process st), fw_uaddr = a\<rparr> # futex_queues st ! futex_hash a"
    using assms(1,3) by (auto simp: futex_wait_enter_def Let_def split: if_splits)
  have "futex_frees st2 = futex_frees st @ [node]"
    using assms(2) by (auto simp: futex_wake_def Let_def q stop w split: if_splits)
  then show ?thesis by (simp add: futex_wait_leave_def Let_def w)
qed

theorem futex_wait_frees_twice_witness:
  "\<exists>w st1 n st2. futex_wait_enter 5 0x1000 boot_futex 0x40 5 = (Inr w, st1) \<and> futex_wake st1 0x40 1 = (n, st2) \<and>
     futex_frees (snd (futex_wait_leave w st2 0x40)) = [0x1000, 0x1000]"
proof -
  obtain w st1 where 1: "futex_wait_enter 5 0x1000 boot_futex 0x40 5 = (Inr w, st1)"
    by (simp add: futex_wait_enter_def Let_def)
  obtain n st2 where 2: "futex_wake st1 0x40 1 = (n, st2)" by fastforce
  have "length (futex_queues boot_futex) = FUTEX_MAX_QUEUES" "futex_frees boot_futex = []"
    by (simp_all add: boot_futex_def FUTEX_MAX_QUEUES_def)
  with futex_wait_frees_twice[OF 1 2] show ?thesis using 1 2 by auto
qed

text \<open>A waiter moved to an address of another queue is freed while it is on that queue: after the yield \<open>futex_wait\<close> only looks
  at the queue it was put on.\<close>

lemma requeued_waiter_freed_while_queued:
  assumes ok: "futex_ok st" and e: "futex_wait_enter v node st a v = (Inr w, st1)" and m: "futex_requeue st1 a b 1 = (n, st2)"
    and h: "futex_hash a \<noteq> futex_hash b" and fresh: "\<forall>u \<in> set (futex_queues st ! futex_hash a). fw_node u \<noteq> node"
  shows "node \<in> set (futex_frees (snd (futex_wait_leave w st2 a))) \<and>
    (\<exists>u \<in> set (futex_queues (snd (futex_wait_leave w st2 a)) ! futex_hash b). fw_node u = node \<and> fw_uaddr u = b)"
proof -
  let ?q = "futex_queues st ! futex_hash a" and ?u = "\<lparr>fw_node = node, fw_pid = of_nat (current_process st), fw_uaddr = a\<rparr>"
  have len: "length (futex_queues st) = FUTEX_MAX_QUEUES" using ok by (simp add: futex_ok_def)
  have w: "w = node" and q1: "futex_queues st1 = (futex_queues st)[futex_hash a := ?u # ?q]"
    using e by (auto simp: futex_wait_enter_def Let_def split: if_splits)
  have stop: "futex_requeue_loop False a b (Suc 0) (Suc 0) pre ws q2 = (pre @ ws, q2, Suc 0)" for pre ws q2 by (cases ws) simp_all
  have "futex_queues st2 = (futex_queues st1)[futex_hash a := ?q, futex_hash b := ?u\<lparr>fw_uaddr := b\<rparr> # futex_queues st1 ! futex_hash b]"
    using m h len by (auto simp: futex_requeue_def Let_def q1 stop)
  then have "futex_queues (snd (futex_wait_leave w st2 a)) ! futex_hash b = ?u\<lparr>fw_uaddr := b\<rparr> # futex_queues st1 ! futex_hash b"
    using len h by (simp add: futex_wait_leave_def Let_def q1)
  then show ?thesis by (simp add: futex_wait_leave_def Let_def w)
qed

end
