(* ===== verification/Ipc_Message.thy ===== *)
theory Ipc_Message
  imports Process
begin

section \<open>Kernel messages between processes\<close>

text \<open>
  The message ring of \<open>kernel/kernel/ipc.c\<close>, lines 663 to 741: an array of 64 messages with
  \<open>ipc_head\<close>, \<open>ipc_tail\<close> and \<open>ipc_count\<close>, beside the process table that \<open>ipc_send\<close> wakes its
  receiver in. The three counters stay below 65, so they are natural numbers.
\<close>

definition IPC_MAX_MESSAGES :: nat where "IPC_MAX_MESSAGES = 64"
definition IPC_MAX_SIZE :: u64 where "IPC_MAX_SIZE = 256"

record ipc_message =
  im_source :: u64
  im_destination :: u64
  im_type :: u64
  im_size :: u64
  im_data :: "u8 list"

record ipc_state = process_state +
  ipc_buffer :: "ipc_message list"
  ipc_head :: nat
  ipc_tail :: nat
  ipc_count :: nat

definition empty_message :: ipc_message where
  "empty_message = \<lparr>im_source = 0, im_destination = 0, im_type = 0, im_size = 0, im_data = replicate 256 0\<rparr>"

text \<open>\<open>ipc_init\<close> without the three calls that initialise the System V tables.\<close>

definition ipc_init :: "ipc_state \<Rightarrow> ipc_state" where
  "ipc_init st = st\<lparr>ipc_buffer := replicate IPC_MAX_MESSAGES empty_message, ipc_head := 0, ipc_tail := 0, ipc_count := 0\<rparr>"

definition ipc_send :: "ipc_state \<Rightarrow> u64 \<Rightarrow> u64 \<Rightarrow> u8 list option \<Rightarrow> u64 \<Rightarrow> int \<times> ipc_state" where
  "ipc_send st destination type data sz =
     (if sz > IPC_MAX_SIZE then (- 1, st)
      else if ipc_count st \<ge> IPC_MAX_MESSAGES then (- 1, st)
      else let old = ipc_buffer st ! ipc_tail st;
               m = \<lparr>im_source = of_nat (current_process st), im_destination = destination, im_type = type, im_size = sz,
                    im_data = (case data of Some d \<Rightarrow> if sz > 0 then memcpy (im_data old) 0 d 0 (unat sz) else im_data old
                       | None \<Rightarrow> im_data old)\<rparr>;
               st1 = st\<lparr>ipc_buffer := (ipc_buffer st)[ipc_tail st := m],
                        ipc_tail := (ipc_tail st + 1) mod IPC_MAX_MESSAGES, ipc_count := ipc_count st + 1\<rparr>
        in (0, if unat destination < PROCESS_MAX then process_wakeup st1 destination else st1))"

text \<open>
  \<open>has_data\<close> says that \<open>data\<close> is not \<open>NULL\<close> and \<open>szp\<close> is \<open>*size\<close>, \<open>None\<close> for a null pointer.
  A received message is its type, the bytes copied to \<open>data\<close> and the new \<open>*size\<close>.
\<close>

definition ipc_matches :: "u64 \<Rightarrow> u64 \<Rightarrow> ipc_message \<Rightarrow> bool" where
  "ipc_matches cur source m \<longleftrightarrow> im_destination m = cur \<and> (source = - 1 \<or> im_source m = source)"

definition ipc_delivery :: "ipc_message \<Rightarrow> bool \<Rightarrow> u64 option \<Rightarrow> u64 \<times> u8 list \<times> u64 option" where
  "ipc_delivery m has_data szp =
     (case szp of
        None \<Rightarrow> (im_type m, [], None)
      | Some sz \<Rightarrow>
          if has_data \<and> sz > 0
          then let copy_size = (if im_size m < sz then im_size m else sz)
               in (im_type m, take (unat copy_size) (im_data m), Some copy_size)
          else (im_type m, [], Some (im_size m)))"

definition ipc_receive ::
  "ipc_state \<Rightarrow> u64 \<Rightarrow> bool \<Rightarrow> u64 option \<Rightarrow> int \<times> (u64 \<times> u8 list \<times> u64 option) option \<times> ipc_state" where
  "ipc_receive st source has_data szp =
     (let slots = map (\<lambda>i. (ipc_head st + i) mod IPC_MAX_MESSAGES) [0..<ipc_count st] in
      case find_idx (\<lambda>idx. ipc_matches (of_nat (current_process st)) source (ipc_buffer st ! idx)) slots of
        None \<Rightarrow> (- 1, None, st)
      | Some i \<Rightarrow>
          let idx = slots ! i; m = ipc_buffer st ! idx;
              tail_idx = (ipc_head st + ipc_count st - 1) mod IPC_MAX_MESSAGES;
              buf = (if idx \<noteq> tail_idx then (ipc_buffer st)[idx := ipc_buffer st ! tail_idx] else ipc_buffer st)
          in (0, Some (ipc_delivery m has_data szp), st\<lparr>ipc_buffer := buf, ipc_count := ipc_count st - 1\<rparr>))"

subsection \<open>The messages in the ring\<close>

definition ipc_window :: "ipc_state \<Rightarrow> ipc_message list" where
  "ipc_window st = map (\<lambda>i. ipc_buffer st ! ((ipc_head st + i) mod IPC_MAX_MESSAGES)) [0..<ipc_count st]"

definition ipc_ok :: "ipc_state \<Rightarrow> bool" where
  "ipc_ok st \<longleftrightarrow> length (ipc_buffer st) = IPC_MAX_MESSAGES \<and> ipc_head st < IPC_MAX_MESSAGES \<and>
     ipc_tail st < IPC_MAX_MESSAGES \<and> ipc_count st \<le> IPC_MAX_MESSAGES \<and>
     (\<forall>m \<in> set (ipc_buffer st). length (im_data m) = 256)"

text \<open>The tail is where the next message belongs; true until the first \<open>ipc_receive\<close>.\<close>

definition ipc_aligned :: "ipc_state \<Rightarrow> bool" where
  "ipc_aligned st \<longleftrightarrow> ipc_ok st \<and> ipc_tail st = (ipc_head st + ipc_count st) mod IPC_MAX_MESSAGES"

lemma ring_slot_inj:
  "i < IPC_MAX_MESSAGES \<Longrightarrow> j < IPC_MAX_MESSAGES \<Longrightarrow>
   (h + i) mod IPC_MAX_MESSAGES = (h + j) mod IPC_MAX_MESSAGES \<longleftrightarrow> i = j"
proof
  assume "i < IPC_MAX_MESSAGES" "j < IPC_MAX_MESSAGES" "(h + i) mod IPC_MAX_MESSAGES = (h + j) mod IPC_MAX_MESSAGES"
  moreover from this(3) have "i mod IPC_MAX_MESSAGES = j mod IPC_MAX_MESSAGES"
    by (simp add: nat_mod_eq_iff add.assoc)
  ultimately show "i = j" by simp
qed simp

lemma length_ipc_window [simp]: "length (ipc_window st) = ipc_count st"
  by (simp add: ipc_window_def)

lemma ipc_window_nth:
  "i < ipc_count st \<Longrightarrow> ipc_window st ! i = ipc_buffer st ! ((ipc_head st + i) mod IPC_MAX_MESSAGES)"
  by (simp add: ipc_window_def)

text \<open>A receive takes the first matching message and puts the last one in its place.\<close>

lemma ipc_receive_window:
  assumes "ipc_ok st"
  shows "case find_idx (ipc_matches (of_nat (current_process st)) source) (ipc_window st) of
      None \<Rightarrow> ipc_receive st source has_data szp = (- 1, None, st)
    | Some i \<Rightarrow> \<exists>st'. ipc_receive st source has_data szp = (0, Some (ipc_delivery (ipc_window st ! i) has_data szp), st') \<and>
        ipc_window st' = butlast ((ipc_window st)[i := last (ipc_window st)]) \<and> ipc_ok st' \<and>
        ipc_tail st' = ipc_tail st \<and> ipc_head st' = ipc_head st \<and> ipc_count st' = ipc_count st - 1 \<and>
        ipc_buffer st' ! ((ipc_head st + ipc_count st - 1) mod IPC_MAX_MESSAGES) = last (ipc_window st)"
proof -
  let ?m = "ipc_matches (of_nat (current_process st)) source"
  let ?slot = "\<lambda>i. (ipc_head st + i) mod IPC_MAX_MESSAGES"
  have f: "find_idx ?m (ipc_window st) = find_idx (\<lambda>idx. ?m (ipc_buffer st ! idx)) (map ?slot [0..<ipc_count st])"
    by (simp add: ipc_window_def find_idx_map comp_def)
  show ?thesis
  proof (cases "find_idx ?m (ipc_window st)")
    case None
    then show ?thesis by (simp add: ipc_receive_def f Let_def)
  next
    case (Some i)
    then have i: "i < ipc_count st" by (simp add: find_idx_Some)
    let ?n = "ipc_count st - 1"
    define buf where "buf = (if ?slot i \<noteq> ?slot ?n then (ipc_buffer st)[?slot i := ipc_buffer st ! ?slot ?n] else ipc_buffer st)"
    define st' where "st' = st\<lparr>ipc_buffer := buf, ipc_count := ?n\<rparr>"
    have len: "length (ipc_buffer st) = IPC_MAX_MESSAGES" "ipc_count st \<le> IPC_MAX_MESSAGES" "0 < IPC_MAX_MESSAGES"
      using assms by (auto simp: ipc_ok_def IPC_MAX_MESSAGES_def)
    have n: "ipc_head st + ipc_count st - 1 = ipc_head st + ?n" "?n < ipc_count st"
      using i by auto
    have last: "last (ipc_window st) = ipc_buffer st ! ?slot ?n"
      using i n by (subst last_conv_nth) (auto simp: ipc_window_nth simp flip: length_greater_0_conv)
    have r: "ipc_receive st source has_data szp = (0, Some (ipc_delivery (ipc_window st ! i) has_data szp), st')"
      using Some i unfolding ipc_receive_def f[symmetric] Let_def n(1)
      by (simp add: st'_def buf_def ipc_window_nth)
    have eq: "?slot i = ?slot j \<longleftrightarrow> i = j" if "j < ipc_count st" for j
      using that i len by (intro ring_slot_inj) auto
    have bj: "buf ! ?slot j = (if j = i then ipc_buffer st ! ?slot ?n else ipc_buffer st ! ?slot j)" if "j < ipc_count st" for j
      using that eq[OF that] eq[OF n(2)] len by (auto simp: buf_def nth_list_update)
    have "ipc_window st' = butlast ((ipc_window st)[i := last (ipc_window st)])"
    proof (rule nth_equalityI)
      fix j assume "j < length (ipc_window st')"
      then have j: "j < ?n" by (simp add: st'_def)
      then show "ipc_window st' ! j = butlast ((ipc_window st)[i := last (ipc_window st)]) ! j"
        using bj[of j] i by (simp add: nth_butlast nth_list_update last ipc_window_nth st'_def)
    qed (simp add: st'_def)
    moreover have "set buf \<subseteq> set (ipc_buffer st)"
      using len by (auto simp: buf_def dest!: set_update_subset_insert[THEN subsetD] split: if_splits)
    then have "ipc_ok st'"
      using assms by (auto simp: ipc_ok_def st'_def buf_def)
    moreover have "ipc_buffer st' ! ?slot ?n = last (ipc_window st)"
      using bj[OF n(2)] by (simp add: st'_def last)
    ultimately show ?thesis using Some r n(1) by (auto simp: st'_def)
  qed
qed

definition ipc_accepts :: "ipc_state \<Rightarrow> u64 \<Rightarrow> bool" where
  "ipc_accepts st sz \<longleftrightarrow> sz \<le> IPC_MAX_SIZE \<and> ipc_count st < IPC_MAX_MESSAGES"

lemma process_wakeup_ipc [simp]:
  "ipc_buffer (process_wakeup st p) = ipc_buffer st" "ipc_head (process_wakeup st p) = ipc_head st"
  "ipc_tail (process_wakeup st p) = ipc_tail st" "ipc_count (process_wakeup st p) = ipc_count st"
  "current_process (process_wakeup st p) = current_process st"
  by (simp_all add: process_wakeup_def set_state_def)

text \<open>What a send writes, and where.\<close>

lemma ipc_send_effect:
  assumes "ipc_ok st" "ipc_accepts st sz" "\<forall>d. data = Some d \<longrightarrow> unat sz \<le> length d"
  shows "\<exists>m st'. ipc_send st dst ty data sz = (0, st') \<and> ipc_buffer st' = (ipc_buffer st)[ipc_tail st := m] \<and>
    ipc_head st' = ipc_head st \<and> ipc_tail st' = (ipc_tail st + 1) mod IPC_MAX_MESSAGES \<and>
    ipc_count st' = ipc_count st + 1 \<and> current_process st' = current_process st \<and> ipc_ok st' \<and>
    im_source m = of_nat (current_process st) \<and> im_destination m = dst \<and> im_type m = ty \<and> im_size m = sz \<and>
    (\<forall>d. data = Some d \<longrightarrow> take (unat sz) (im_data m) = take (unat sz) d)"
proof -
  let ?old = "ipc_buffer st ! ipc_tail st"
  define m where "m = \<lparr>im_source = of_nat (current_process st), im_destination = dst, im_type = ty, im_size = sz,
      im_data = (case data of Some d \<Rightarrow> if sz > 0 then memcpy (im_data ?old) 0 d 0 (unat sz) else im_data ?old
                       | None \<Rightarrow> im_data ?old)\<rparr>"
  define st1 where "st1 = st\<lparr>ipc_buffer := (ipc_buffer st)[ipc_tail st := m],
      ipc_tail := (ipc_tail st + 1) mod IPC_MAX_MESSAGES, ipc_count := ipc_count st + 1\<rparr>"
  define st' where "st' = (if unat dst < PROCESS_MAX then process_wakeup st1 dst else st1)"
  have s: "ipc_send st dst ty data sz = (0, st')"
    using assms(2) unfolding ipc_send_def ipc_accepts_def
    by (simp add: Let_def st'_def st1_def m_def not_less not_le)
  have old: "length (im_data ?old) = 256"
    using assms(1) by (auto simp: ipc_ok_def)
  have sz: "unat sz \<le> 256"
    using assms(2) by (simp add: ipc_accepts_def IPC_MAX_SIZE_def word_le_nat_alt)
  have mdata: "im_data m = take (unat sz) d @ drop (unat sz) (im_data ?old)" if "data = Some d" for d
    using that sz old assms(3) by (auto simp: m_def memcpy_eq word_gt_0)
  have lm: "length (im_data m) = 256"
  proof (cases data)
    case None
    then show ?thesis using old by (simp add: m_def)
  next
    case (Some d)
    then show ?thesis using old sz assms(3) mdata[OF Some] by simp
  qed
  have "ipc_ok st1"
    using assms(1,2) lm by (auto simp: ipc_ok_def ipc_accepts_def st1_def dest!: set_update_subset_insert[THEN subsetD])
  then have "ipc_ok st'"
    by (simp add: st'_def ipc_ok_def)
  moreover have "take (unat sz) (im_data m) = take (unat sz) d" if "data = Some d" for d
    using mdata[OF that] assms(3) that by simp
  ultimately show ?thesis
    using s by (intro exI[of _ m] exI[of _ st']) (auto simp: st'_def st1_def m_def)
qed

lemma ipc_send_aligned:
  assumes "ipc_aligned st" "ipc_accepts st sz" "\<forall>d. data = Some d \<longrightarrow> unat sz \<le> length d"
  shows "\<exists>m st'. ipc_send st dst ty data sz = (0, st') \<and> ipc_window st' = ipc_window st @ [m] \<and> ipc_aligned st' \<and>
    current_process st' = current_process st \<and>
    im_source m = of_nat (current_process st) \<and> im_destination m = dst \<and> im_type m = ty \<and> im_size m = sz \<and>
    (\<forall>d. data = Some d \<longrightarrow> take (unat sz) (im_data m) = take (unat sz) d)"
proof -
  have ok: "ipc_ok st" and t: "ipc_tail st = (ipc_head st + ipc_count st) mod IPC_MAX_MESSAGES"
    using assms(1) by (simp_all add: ipc_aligned_def)
  obtain m st' where s: "ipc_send st dst ty data sz = (0, st')" "ipc_buffer st' = (ipc_buffer st)[ipc_tail st := m]"
      "ipc_head st' = ipc_head st" "ipc_tail st' = (ipc_tail st + 1) mod IPC_MAX_MESSAGES"
      "ipc_count st' = ipc_count st + 1" "current_process st' = current_process st" "ipc_ok st'"
      "im_source m = of_nat (current_process st)" "im_destination m = dst" "im_type m = ty" "im_size m = sz"
      "\<forall>d. data = Some d \<longrightarrow> take (unat sz) (im_data m) = take (unat sz) d"
    using ipc_send_effect[OF ok assms(2,3), of dst ty] by blast
  have c: "ipc_count st < IPC_MAX_MESSAGES" and len: "length (ipc_buffer st) = IPC_MAX_MESSAGES" "0 < IPC_MAX_MESSAGES"
    using assms(2) ok by (auto simp: ipc_accepts_def ipc_ok_def)
  have "ipc_window st' = ipc_window st @ [m]"
  proof (rule nth_equalityI)
    fix j assume "j < length (ipc_window st')"
    then have j: "j < Suc (ipc_count st)" by (simp add: s(5))
    then have "(ipc_head st + ipc_count st) mod IPC_MAX_MESSAGES = (ipc_head st + j) mod IPC_MAX_MESSAGES \<longleftrightarrow> ipc_count st = j"
      using c by (intro ring_slot_inj) auto
    with j show "ipc_window st' ! j = (ipc_window st @ [m]) ! j"
      using len by (auto simp: ipc_window_nth s nth_append t nth_list_update less_Suc_eq)
  qed (simp add: s)
  moreover have "ipc_aligned st'"
    using s(7) by (simp add: ipc_aligned_def s t mod_Suc_eq)
  ultimately show ?thesis using s by blast
qed

subsection \<open>Properties\<close>

definition boot_ipc :: ipc_state where
  "boot_ipc = ipc_init \<lparr>processes = processes two_processes, process_count = process_count two_processes,
     current_process = current_process two_processes, ipc_buffer = [], ipc_head = 0, ipc_tail = 0, ipc_count = 0\<rparr>"

lemma boot_ipc_aligned: "ipc_aligned boot_ipc" "ipc_count boot_ipc = 0" "current_process boot_ipc = 0"
  by (auto simp: boot_ipc_def ipc_init_def ipc_aligned_def ipc_ok_def IPC_MAX_MESSAGES_def empty_message_def two_processes_inv)

text \<open>As long as nothing was received, a message that is sent comes behind all others, and a
  receive delivers to the calling process the oldest message addressed to it from the sender asked
  for, with the type, size and bytes sent, or fails when there is none.\<close>
theorem ipc_send_then_receive:
  assumes "ipc_aligned st" "ipc_accepts st sz" "unat sz \<le> length d"
    and "find_idx (ipc_matches (of_nat (current_process st)) src) (ipc_window st) = None"
    and "src = - 1 \<or> src = of_nat (current_process st)" "0 < sz" "sz \<le> bufsz"
  shows "\<exists>st1 st2. ipc_send st (of_nat (current_process st)) ty (Some d) sz = (0, st1) \<and>
    ipc_receive st src has_data szp = (- 1, None, st) \<and>
    ipc_receive st1 src True (Some bufsz) = (0, Some (ty, take (unat sz) d, Some sz), st2) \<and>
    ipc_window st1 = ipc_window st @ [last (ipc_window st1)] \<and> ipc_window st2 = ipc_window st"
proof -
  let ?c = "of_nat (current_process st)"
  obtain m st1 where s: "ipc_send st ?c ty (Some d) sz = (0, st1)" "ipc_window st1 = ipc_window st @ [m]" "ipc_aligned st1"
      "current_process st1 = current_process st" "im_source m = ?c" "im_destination m = ?c" "im_type m = ty" "im_size m = sz"
      "take (unat sz) (im_data m) = take (unat sz) d"
    using ipc_send_aligned[OF assms(1,2), of "Some d" ?c ty] assms(3) by auto
  have no: "ipc_receive st src has_data szp = (- 1, None, st)"
    using ipc_receive_window[of st src has_data szp] assms(1,4) by (simp add: ipc_aligned_def)
  have app: "find_idx P xs = None \<Longrightarrow> P m \<Longrightarrow> find_idx P (xs @ [m]) = Some (length xs)" for P xs
    by (induction xs) (auto split: if_splits)
  have f: "find_idx (ipc_matches (of_nat (current_process st1)) src) (ipc_window st1) = Some (ipc_count st)"
    using app[OF assms(4)] assms(5) s by (auto simp: ipc_matches_def)
  obtain st2 where r: "ipc_receive st1 src True (Some bufsz) = (0, Some (ipc_delivery (ipc_window st1 ! ipc_count st) True (Some bufsz)), st2)"
      "ipc_window st2 = butlast ((ipc_window st1)[ipc_count st := last (ipc_window st1)])"
    using ipc_receive_window[of st1 src True "Some bufsz"] s(3) f by (auto simp: ipc_aligned_def)
  have "ipc_window st1 ! ipc_count st = m"
    by (simp add: s(2) nth_append)
  moreover have "ipc_delivery m True (Some bufsz) = (ty, take (unat sz) d, Some sz)"
    using assms(6,7) s(7-9) by (auto simp: ipc_delivery_def Let_def)
  moreover have "ipc_window st2 = ipc_window st"
    using r(2) by (simp add: s(2) list_update_append)
  ultimately show ?thesis
    using s(1,2) r(1) no by simp
qed

theorem ipc_send_then_receive_witness:
  "\<exists>st1 st2. ipc_send boot_ipc 0 7 (Some [65, 66]) 2 = (0, st1) \<and>
     ipc_receive st1 (- 1) True (Some 16) = (0, Some (7, [65, 66], Some 2), st2)"
proof -
  have "find_idx (ipc_matches (of_nat (current_process boot_ipc)) (- 1)) (ipc_window boot_ipc) = None"
    by (simp add: ipc_window_def boot_ipc_aligned)
  moreover have "ipc_accepts boot_ipc 2"
    by (simp add: ipc_accepts_def boot_ipc_aligned IPC_MAX_SIZE_def IPC_MAX_MESSAGES_def)
  ultimately show ?thesis
    using ipc_send_then_receive[OF boot_ipc_aligned(1), of 2 "[65, 66]" "- 1" 16 7 True None] boot_ipc_aligned(3) by auto
qed

text \<open>The first message sent after a receive is lost: \<open>ipc_receive\<close> shortens the ring but leaves
  \<open>ipc_tail\<close>, so the new message is stored outside the ring and what appears in its place is the
  message that was last before the receive, which is delivered a second time.\<close>
theorem ipc_send_after_receive_lost:
  assumes "ipc_aligned st" "ipc_count st < IPC_MAX_MESSAGES"
    and "ipc_receive st src has_data szp = (0, r, st1)" "ipc_send st1 dst ty data sz = (0, st2)"
    and "\<forall>d. data = Some d \<longrightarrow> unat sz \<le> length d"
  shows "ipc_window st2 = ipc_window st1 @ [last (ipc_window st)]"
proof -
  have ok: "ipc_ok st" and t: "ipc_tail st = (ipc_head st + ipc_count st) mod IPC_MAX_MESSAGES"
    using assms(1) by (simp_all add: ipc_aligned_def)
  obtain i where i: "find_idx (ipc_matches (of_nat (current_process st)) src) (ipc_window st) = Some i"
    using ipc_receive_window[OF ok, of src has_data szp] assms(3) by (auto split: option.splits)
  then have pos: "0 < ipc_count st" by (auto simp: find_idx_Some)
  have st1: "ipc_ok st1" "ipc_tail st1 = ipc_tail st" "ipc_head st1 = ipc_head st" "ipc_count st1 = ipc_count st - 1"
      "ipc_buffer st1 ! ((ipc_head st + ipc_count st - 1) mod IPC_MAX_MESSAGES) = last (ipc_window st)"
    using ipc_receive_window[OF ok, of src has_data szp] assms(3) i by auto
  have acc: "ipc_accepts st1 sz"
    using assms(4) by (auto simp: ipc_send_def ipc_accepts_def split: if_splits)
  obtain m where s: "ipc_buffer st2 = (ipc_buffer st1)[ipc_tail st1 := m]" "ipc_head st2 = ipc_head st1"
      "ipc_count st2 = ipc_count st1 + 1"
    using ipc_send_effect[OF st1(1) acc assms(5), of dst ty] assms(4) by auto
  have nt: "ipc_buffer st2 ! ((ipc_head st + j) mod IPC_MAX_MESSAGES) = ipc_buffer st1 ! ((ipc_head st + j) mod IPC_MAX_MESSAGES)"
    if "j < ipc_count st" for j
  proof -
    have "(ipc_head st + ipc_count st) mod IPC_MAX_MESSAGES \<noteq> (ipc_head st + j) mod IPC_MAX_MESSAGES"
      using that assms(2) by (subst ring_slot_inj) auto
    then show ?thesis by (simp add: s(1) st1(2) t nth_list_update)
  qed
  have e: "ipc_head st + ipc_count st - 1 = ipc_head st + (ipc_count st - 1)" using pos by simp
  show ?thesis
  proof (rule nth_equalityI)
    fix j assume "j < length (ipc_window st2)"
    then have j: "j < ipc_count st" using pos by (simp add: s st1)
    show "ipc_window st2 ! j = (ipc_window st1 @ [last (ipc_window st)]) ! j"
    proof (cases "j < ipc_count st - 1")
      case True
      then show ?thesis using nt[OF j] pos by (simp add: ipc_window_nth s st1 nth_append)
    next
      case False
      then have "j = ipc_count st - 1" using j by simp
      then show ?thesis using nt[OF j] pos st1(5) by (simp add: ipc_window_nth s st1 nth_append e)
    qed
  qed (use pos in \<open>simp add: s st1\<close>)
qed

theorem ipc_send_after_receive_lost_witness:
  "\<exists>st1 r st2 st3. ipc_send boot_ipc 0 7 (Some [65, 66]) 2 = (0, st1) \<and> ipc_receive st1 (- 1) True (Some 16) = (0, r, st2) \<and>
     ipc_send st2 0 9 (Some [67, 68]) 2 = (0, st3) \<and> ipc_window st3 = ipc_window st2 @ [last (ipc_window st1)]"
proof -
  have acc: "ipc_accepts boot_ipc 2"
    by (simp add: ipc_accepts_def boot_ipc_aligned IPC_MAX_SIZE_def IPC_MAX_MESSAGES_def)
  obtain m st1 where 1: "ipc_send boot_ipc 0 7 (Some [65, 66]) 2 = (0, st1)" "ipc_window st1 = ipc_window boot_ipc @ [m]"
      "ipc_aligned st1" "current_process st1 = 0" "im_destination m = 0"
    using ipc_send_aligned[OF boot_ipc_aligned(1) acc, of "Some [65, 66]" 0 7] boot_ipc_aligned(3) by auto
  have w: "ipc_window st1 = [m]" using 1(2) by (simp add: ipc_window_def[of boot_ipc] boot_ipc_aligned)
  then have c: "ipc_count st1 = 1" by (metis length_ipc_window One_nat_def length_Cons list.size(3))
  obtain r st2 where 2: "ipc_receive st1 (- 1) True (Some 16) = (0, r, st2)" "ipc_ok st2" "ipc_count st2 = 0"
    using ipc_receive_window[of st1 "- 1" True "Some 16"] 1 c by (auto simp: w ipc_matches_def ipc_aligned_def)
  have acc2: "ipc_accepts st2 2"
    using 2(3) by (simp add: ipc_accepts_def IPC_MAX_SIZE_def IPC_MAX_MESSAGES_def)
  obtain st3 where 3: "ipc_send st2 0 9 (Some [67, 68]) 2 = (0, st3)"
    using ipc_send_effect[OF 2(2) acc2, of "Some [67, 68]" 0 9] by auto
  show ?thesis
    using ipc_send_after_receive_lost[OF 1(3) _ 2(1) 3] c 1(1) 2(1) 3 by (auto simp: IPC_MAX_MESSAGES_def)
qed

end
