(* ===== verification/Route.thy ===== *)
theory Route
  imports Prelude
begin

section \<open>The routing tables\<close>

text \<open>
  \<open>kernel/arch/x86_64/route.c\<close>. A route table is its identifier (0 when the slot is free), the
  list of its entries and their count; the forwarding base is the array of 256 tables. \<open>ok\<close> says
  that \<open>kmalloc\<close> gave an entry. \<open>RTN_HOST\<close>, the type given to host routes, is defined in no header
  of the tree and is a parameter.
\<close>

record route_entry =
  re_dst :: u32
  re_mask :: u32
  re_gw :: u32
  re_if_index :: int
  re_metric :: u32
  re_mtu :: u32
  re_type :: u16
  re_flags :: u16
  re_ifname :: "u8 list"

record route_table =
  tb_id :: u32
  rt_entries :: "route_entry list"
  rt_count :: u32

record fib_table =
  fib_tables :: "route_table list"
  fib_table_count :: u32

definition FIB_TABLE_MAX :: nat where "FIB_TABLE_MAX = 256"
definition FIB_ENTRY_MAX :: u32 where "FIB_ENTRY_MAX = 1024"

definition RTF_UP :: u16 where "RTF_UP = 1"
definition RTF_GATEWAY :: u16 where "RTF_GATEWAY = 2"

function mask_bits :: "u32 \<Rightarrow> u32 \<Rightarrow> u32" where
  "mask_bits msk prefix = (if msk = 0 then prefix else mask_bits (drop_bit 1 msk) (prefix + (msk AND 1)))"
  by pat_completeness auto
termination
proof (relation "measure (unat \<circ> fst)", simp)
  fix msk prefix :: u32 assume "msk \<noteq> 0"
  then show "((drop_bit 1 msk, prefix + (msk AND 1)), msk, prefix) \<in> measure (unat \<circ> fst)"
    using drop_bit_1_less by simp
qed

declare mask_bits.simps [simp del]

definition mask_to_prefix :: "u32 \<Rightarrow> u32" where
  "mask_to_prefix msk = mask_bits msk 0"

definition route_table_get :: "fib_table \<Rightarrow> u32 \<Rightarrow> nat option" where
  "route_table_get f table_id = find_idx (\<lambda>t. tb_id t = table_id) (fib_tables f)"

definition route_table_create :: "fib_table \<Rightarrow> u32 \<Rightarrow> int \<times> fib_table" where
  "route_table_create f table_id =
     (case find_idx (\<lambda>t. tb_id t = 0) (fib_tables f) of
        None \<Rightarrow> (- 1, f)
      | Some i \<Rightarrow> (0, f\<lparr>fib_tables := (fib_tables f)[i := \<lparr>tb_id = table_id, rt_entries = [], rt_count = 0\<rparr>],
                       fib_table_count := fib_table_count f + 1\<rparr>))"

fun route_insert_sorted :: "route_entry \<Rightarrow> route_entry list \<Rightarrow> route_entry list" where
  "route_insert_sorted e [] = [e]"
| "route_insert_sorted e (c # cs) =
     (if mask_to_prefix (re_mask e) > mask_to_prefix (re_mask c) then e # c # cs
      else if mask_to_prefix (re_mask e) = mask_to_prefix (re_mask c) \<and> re_metric e < re_metric c then e # c # cs
      else c # route_insert_sorted e cs)"

text \<open>
  The entry is fresh memory in which the code writes only \<open>ifname[0]\<close>. The bytes behind this null character are not read
  (\<open>route_forward\<close> tests \<open>ifname[0]\<close> first); the model has them zero too.
\<close>

definition route_entry_new :: "u16 \<Rightarrow> u32 \<Rightarrow> u32 \<Rightarrow> u32 \<Rightarrow> int \<Rightarrow> u32 \<Rightarrow> route_entry" where
  "route_entry_new rtn_host dst msk gw if_index metric =
     \<lparr>re_dst = dst AND msk, re_mask = msk, re_gw = gw, re_if_index = if_index, re_metric = metric, re_mtu = 1500,
      re_type = (if msk = 0xffffffff then rtn_host else 1),
      re_flags = (if gw \<noteq> 0 then RTF_UP OR RTF_GATEWAY else RTF_UP), re_ifname = replicate 16 0\<rparr>"

definition route_add_to :: "bool \<Rightarrow> fib_table \<Rightarrow> nat \<Rightarrow> route_entry \<Rightarrow> int \<times> fib_table" where
  "route_add_to ok f i e =
     (let t = fib_tables f ! i in
      if rt_count t \<ge> FIB_ENTRY_MAX \<or> \<not> ok then (- 1, f)
      else (0, f\<lparr>fib_tables := (fib_tables f)[i := t\<lparr>rt_entries := route_insert_sorted e (rt_entries t),
                                                   rt_count := rt_count t + 1\<rparr>]\<rparr>))"

definition route_add ::
  "u16 \<Rightarrow> bool \<Rightarrow> fib_table \<Rightarrow> u32 \<Rightarrow> u32 \<Rightarrow> u32 \<Rightarrow> u32 \<Rightarrow> int \<Rightarrow> u32 \<Rightarrow> int \<times> fib_table" where
  "route_add rtn_host ok f table_id dst msk gw if_index metric =
     (let e = route_entry_new rtn_host dst msk gw if_index metric in
      case route_table_get f table_id of
        Some i \<Rightarrow> route_add_to ok f i e
      | None \<Rightarrow>
          let (r, f') = route_table_create f table_id in
          if r \<noteq> 0 then (- 1, f')
          else (case route_table_get f' table_id of None \<Rightarrow> (- 1, f') | Some i \<Rightarrow> route_add_to ok f' i e))"

fun route_remove :: "u32 \<Rightarrow> u32 \<Rightarrow> route_entry list \<Rightarrow> route_entry list option" where
  "route_remove dst msk [] = None"
| "route_remove dst msk (c # cs) =
     (if re_dst c = dst AND msk \<and> re_mask c = msk then Some cs
      else map_option ((#) c) (route_remove dst msk cs))"

definition route_del :: "fib_table \<Rightarrow> u32 \<Rightarrow> u32 \<Rightarrow> u32 \<Rightarrow> int \<times> fib_table" where
  "route_del f table_id dst msk =
     (case route_table_get f table_id of
        None \<Rightarrow> (- 1, f)
      | Some i \<Rightarrow>
          let t = fib_tables f ! i in
          case route_remove dst msk (rt_entries t) of
            None \<Rightarrow> (- 1, f)
          | Some es \<Rightarrow> (0, f\<lparr>fib_tables := (fib_tables f)[i := t\<lparr>rt_entries := es, rt_count := rt_count t - 1\<rparr>]\<rparr>))"

text \<open>The scan of one table carries the best entry so far and its prefix length.\<close>

fun route_scan :: "u32 \<Rightarrow> route_entry list \<Rightarrow> route_entry option \<times> u32 \<Rightarrow> route_entry option \<times> u32" where
  "route_scan dst [] acc = acc"
| "route_scan dst (e # es) (best, best_prefix) =
     (if dst AND re_mask e = re_dst e \<and> mask_to_prefix (re_mask e) > best_prefix
      then route_scan dst es (Some e, mask_to_prefix (re_mask e))
      else route_scan dst es (best, best_prefix))"

fun route_scan_tables :: "u32 \<Rightarrow> route_table list \<Rightarrow> route_entry option \<times> u32 \<Rightarrow> route_entry option \<times> u32" where
  "route_scan_tables dst [] acc = acc"
| "route_scan_tables dst (t # ts) acc =
     route_scan_tables dst ts (if tb_id t = 0 then acc else route_scan dst (rt_entries t) acc)"

definition route_lookup :: "fib_table \<Rightarrow> u32 \<Rightarrow> route_entry option" where
  "route_lookup f dst = fst (route_scan_tables dst (fib_tables f) (None, 0))"

definition route_flush :: "fib_table \<Rightarrow> u32 \<Rightarrow> fib_table" where
  "route_flush f table_id =
     (case route_table_get f table_id of
        None \<Rightarrow> f
      | Some i \<Rightarrow> f\<lparr>fib_tables := (fib_tables f)[i := (fib_tables f ! i)\<lparr>rt_entries := [], rt_count := 0\<rparr>]\<rparr>)"

definition route_flush_all :: "fib_table \<Rightarrow> fib_table" where
  "route_flush_all f =
     f\<lparr>fib_tables := map (\<lambda>t. if tb_id t = 0 then t else t\<lparr>rt_entries := [], rt_count := 0\<rparr>) (fib_tables f)\<rparr>"

text \<open>The results are the return value, the next hop, the interface and the caller's name buffer.\<close>

definition copy_ifname :: "u8 list \<Rightarrow> u8 list \<Rightarrow> u8 list" where
  "copy_ifname src dst =
     (if src ! 0 = 0 then dst
      else let s = takeWhile (\<lambda>c. c \<noteq> 0) (take 16 src) in (s @ drop (length s) dst)[15 := 0])"

definition route_forward :: "fib_table \<Rightarrow> u32 \<Rightarrow> u8 list \<Rightarrow> int \<times> (u32 \<times> int) option \<times> u8 list" where
  "route_forward f dst_ip ifname =
     (case route_lookup f dst_ip of
        None \<Rightarrow> (- 1, None, ifname)
      | Some e \<Rightarrow> (0, Some (if re_flags e AND RTF_GATEWAY \<noteq> 0 then re_gw e else dst_ip, re_if_index e),
                   copy_ifname (re_ifname e) ifname))"

definition route_empty :: fib_table where
  "route_empty = \<lparr>fib_tables = replicate FIB_TABLE_MAX \<lparr>tb_id = 0, rt_entries = [], rt_count = 0\<rparr>, fib_table_count = 0\<rparr>"

definition route_init :: "u16 \<Rightarrow> bool \<Rightarrow> fib_table" where
  "route_init rtn_host ok =
     (let f1 = snd (route_table_create route_empty 255);
          f2 = snd (route_table_create f1 254);
          f3 = snd (route_table_create f2 253);
          f4 = snd (route_add rtn_host ok f3 255 0x7f000001 0xffffffff 0 1 0)
      in snd (route_add rtn_host ok f4 255 0x7f000000 0xff000000 0 1 0))"

subsection \<open>The prefix length\<close>

lemma mask_bits_eq: "mask_bits m p = p + of_nat (card {i. bit m i})"
proof (induction m p rule: mask_bits.induct)
  case (1 m p)
  show ?case
  proof (cases "m = 0")
    case True
    then show ?thesis by (simp add: mask_bits.simps)
  next
    case False
    show ?thesis
      using 1[OF False] False card_bits_step[of m] by (subst mask_bits.simps) (simp add: and_1_bit)
  qed
qed

lemma mask_to_prefix_eq: "mask_to_prefix m = of_nat (card {i. bit m i})"
  by (simp add: mask_to_prefix_def mask_bits_eq)

lemma unat_mask_to_prefix: "unat (mask_to_prefix m) = card {i. bit m i}"
  using card_bits_le[of m] by (simp add: mask_to_prefix_eq unat_of_nat)

lemma mask_to_prefix_0: "mask_to_prefix m = 0 \<longleftrightarrow> m = 0"
proof -
  have "(\<forall>i. \<not> bit m i) \<longleftrightarrow> m = 0"
    using bit_eqI[of m 0] by auto
  then show ?thesis
    using unat_mask_to_prefix[of m] by (metis card_0_eq empty_Collect_eq finite_bits unat_eq_0)
qed

subsection \<open>Well-formed tables\<close>

definition route_before :: "route_entry \<Rightarrow> route_entry \<Rightarrow> bool" where
  "route_before a b \<longleftrightarrow> mask_to_prefix (re_mask a) > mask_to_prefix (re_mask b) \<or>
     (mask_to_prefix (re_mask a) = mask_to_prefix (re_mask b) \<and> re_metric a \<le> re_metric b)"

definition table_ok :: "route_table \<Rightarrow> bool" where
  "table_ok t \<longleftrightarrow> sorted_wrt route_before (rt_entries t) \<and> unat (rt_count t) = length (rt_entries t) \<and>
     rt_count t \<le> FIB_ENTRY_MAX \<and> (\<forall>e \<in> set (rt_entries t). re_dst e = re_dst e AND re_mask e)"

definition fib_ok :: "fib_table \<Rightarrow> bool" where
  "fib_ok f \<longleftrightarrow> length (fib_tables f) = FIB_TABLE_MAX \<and> (\<forall>t \<in> set (fib_tables f). table_ok t)"

lemma set_route_insert [simp]: "set (route_insert_sorted e es) = insert e (set es)"
  by (induction es) auto

lemma length_route_insert [simp]: "length (route_insert_sorted e es) = Suc (length es)"
  by (induction es) auto

lemma route_insert_sorted_wrt:
  "sorted_wrt route_before es \<Longrightarrow> sorted_wrt route_before (route_insert_sorted e es)"
  by (induction es) (auto simp: route_before_def)

lemma route_remove_Some:
  "route_remove dst msk es = Some es' \<Longrightarrow>
   (\<exists>pre e post. es = pre @ e # post \<and> es' = pre @ post \<and> re_dst e = dst AND msk \<and> re_mask e = msk \<and>
      (\<forall>c \<in> set pre. \<not> (re_dst c = dst AND msk \<and> re_mask c = msk)))"
proof (induction es arbitrary: es')
  case (Cons c cs)
  show ?case
  proof (cases "re_dst c = dst AND msk \<and> re_mask c = msk")
    case True
    then show ?thesis using Cons.prems by (intro exI[of _ "[]"]) auto
  next
    case False
    then obtain es1 where "route_remove dst msk cs = Some es1" "es' = c # es1"
      using Cons.prems by auto
    with Cons.IH[OF this(1)] False show ?thesis
      by (metis (no_types, lifting) Cons_eq_appendI set_ConsD)
  qed
qed simp

lemma fib_ok_update:
  "fib_ok f \<Longrightarrow> table_ok t \<Longrightarrow> fib_ok (f\<lparr>fib_tables := (fib_tables f)[i := t]\<rparr>)"
  by (auto simp: fib_ok_def dest!: set_update_subset_insert[THEN subsetD])

lemma fib_ok_count [simp]: "fib_ok (f\<lparr>fib_table_count := n\<rparr>) = fib_ok f"
  by (simp add: fib_ok_def)

lemma fib_ok_nth: "fib_ok f \<Longrightarrow> i < FIB_TABLE_MAX \<Longrightarrow> table_ok (fib_tables f ! i)"
  by (auto simp: fib_ok_def)

lemma route_table_getD:
  "route_table_get f tid = Some i \<Longrightarrow> i < length (fib_tables f) \<and> tb_id (fib_tables f ! i) = tid"
  by (simp add: route_table_get_def find_idx_Some)

lemma table_ok_empty [simp]: "table_ok \<lparr>tb_id = tid, rt_entries = [], rt_count = 0\<rparr>"
  by (simp add: table_ok_def)

lemma route_table_create_ok: "fib_ok f \<Longrightarrow> fib_ok (snd (route_table_create f tid))"
  by (auto simp: route_table_create_def fib_ok_update split: option.splits)

lemma table_ok_insert:
  assumes "table_ok t" "rt_count t < FIB_ENTRY_MAX" "re_dst e = re_dst e AND re_mask e"
  shows "table_ok (t\<lparr>rt_entries := route_insert_sorted e (rt_entries t), rt_count := rt_count t + 1\<rparr>)"
proof -
  have "unat (rt_count t + 1) = Suc (unat (rt_count t))"
    using assms(2) by (subst unat_add_noof) (auto simp: FIB_ENTRY_MAX_def word_less_nat_alt)
  then show ?thesis
    using assms route_insert_sorted_wrt by (auto simp: table_ok_def FIB_ENTRY_MAX_def word_le_nat_alt word_less_nat_alt)
qed

lemma route_entry_new_masked [simp]:
  "re_dst (route_entry_new h d m g i n) = re_dst (route_entry_new h d m g i n) AND re_mask (route_entry_new h d m g i n)"
  by (simp add: route_entry_new_def and.assoc)

lemma route_add_to_ok:
  assumes "fib_ok f" "i < FIB_TABLE_MAX" "re_dst e = re_dst e AND re_mask e"
  shows "fib_ok (snd (route_add_to ok f i e))"
  using assms fib_ok_nth[OF assms(1,2)]
  by (auto simp: route_add_to_def Let_def not_le intro!: fib_ok_update table_ok_insert)

lemma route_add_ok:
  assumes "fib_ok f"
  shows "fib_ok (snd (route_add h ok f tid d m g i n))"
proof (cases "route_table_get f tid")
  case (Some k)
  then have "k < FIB_TABLE_MAX" using route_table_getD assms by (fastforce simp: fib_ok_def)
  then show ?thesis
    using Some route_add_to_ok[OF assms _ route_entry_new_masked] by (simp add: route_add_def Let_def)
next
  case None
  obtain r f' where c: "route_table_create f tid = (r, f')" by fastforce
  have ok': "fib_ok f'" using route_table_create_ok[OF assms, of tid] c by simp
  have "fib_ok (snd (route_add_to ok f' k (route_entry_new h d m g i n)))" if "route_table_get f' tid = Some k" for k
  proof (rule route_add_to_ok[OF ok' _ route_entry_new_masked])
    show "k < FIB_TABLE_MAX" using route_table_getD[OF that] ok' by (simp add: fib_ok_def)
  qed
  then show ?thesis
    using None c ok' by (auto simp: route_add_def Let_def split: option.splits)
qed

lemma route_del_ok:
  assumes "fib_ok f"
  shows "fib_ok (snd (route_del f tid d m))"
proof (cases "route_table_get f tid")
  case (Some k)
  let ?t = "fib_tables f ! k"
  have k: "k < FIB_TABLE_MAX" using route_table_getD[OF Some] assms by (simp add: fib_ok_def)
  note t = fib_ok_nth[OF assms k]
  show ?thesis
  proof (cases "route_remove d m (rt_entries ?t)")
    case (Some es)
    from route_remove_Some[OF Some] obtain pre e post where es: "rt_entries ?t = pre @ e # post" "es = pre @ post"
      by blast
    have "unat (rt_count ?t - 1) = unat (rt_count ?t) - 1"
      using t es by (subst unat_sub) (auto simp: table_ok_def word_le_nat_alt)
    then have "table_ok (?t\<lparr>rt_entries := es, rt_count := rt_count ?t - 1\<rparr>)"
      using t es by (auto simp: table_ok_def sorted_wrt_append word_le_nat_alt)
    then show ?thesis
      using \<open>route_table_get f tid = Some k\<close> Some fib_ok_update[OF assms] by (simp add: route_del_def Let_def)
  qed (use \<open>route_table_get f tid = Some k\<close> assms in \<open>simp add: route_del_def Let_def\<close>)
qed (use assms in \<open>simp add: route_del_def\<close>)

lemma route_flush_ok: "fib_ok f \<Longrightarrow> fib_ok (route_flush f tid)"
  by (auto simp: route_flush_def table_ok_def intro!: fib_ok_update split: option.splits)

lemma route_flush_all_ok: "fib_ok f \<Longrightarrow> fib_ok (route_flush_all f)"
  by (auto simp: route_flush_all_def fib_ok_def table_ok_def)

lemma route_init_ok: "fib_ok (route_init h ok)"
proof -
  have "fib_ok route_empty" by (simp add: fib_ok_def route_empty_def)
  then show ?thesis
    unfolding route_init_def Let_def by (intro route_add_ok route_table_create_ok)
qed

subsection \<open>The lookup\<close>

abbreviation (input) matches :: "u32 \<Rightarrow> route_entry \<Rightarrow> bool" where
  "matches d e \<equiv> d AND re_mask e = re_dst e"

abbreviation (input) prefix_len :: "route_entry \<Rightarrow> u32" where
  "prefix_len e \<equiv> mask_to_prefix (re_mask e)"

text \<open>\<open>e\<close> is the best entry for \<open>d\<close> in a list: the longest prefix, and the least metric among these.\<close>

definition best_in :: "u32 \<Rightarrow> route_entry list \<Rightarrow> route_entry \<Rightarrow> bool" where
  "best_in d es e \<longleftrightarrow> e \<in> set es \<and> matches d e \<and> (\<forall>e' \<in> set es. matches d e' \<longrightarrow>
     prefix_len e' < prefix_len e \<or> (prefix_len e' = prefix_len e \<and> re_metric e \<le> re_metric e'))"

lemma route_scan_spec:
  assumes "sorted_wrt route_before es" "route_scan d es (b, bp) = (b', bp')"
  shows "bp \<le> bp' \<and> (\<forall>e \<in> set es. matches d e \<longrightarrow> prefix_len e \<le> bp') \<and>
    ((b', bp') = (b, bp) \<or> (\<exists>e. b' = Some e \<and> bp' = prefix_len e \<and> bp < bp' \<and> best_in d es e))"
  using assms
proof (induction es arbitrary: b bp)
  case Nil
  then show ?case by simp
next
  case (Cons e es)
  have srt: "sorted_wrt route_before es" "\<forall>e' \<in> set es. route_before e e'"
    using Cons.prems(1) by simp_all
  show ?case
  proof (cases "matches d e \<and> prefix_len e > bp")
    case True
    then have "route_scan d es (Some e, prefix_len e) = (b', bp')"
      using Cons.prems(2) by simp
    note IH = Cons.IH[OF srt(1) this]
    have "best_in d (e # es) e" if "(b', bp') = (Some e, prefix_len e)"
      using that IH True srt(2) by (auto simp: best_in_def route_before_def)
    moreover have "best_in d (e # es) e'" if "bp' = prefix_len e'" "prefix_len e < bp'" "best_in d es e'" for e'
      using that True by (auto simp: best_in_def)
    ultimately show ?thesis
      using IH True by auto
  next
    case False
    then have "route_scan d es (b, bp) = (b', bp')"
      using Cons.prems(2) by (cases "matches d e") auto
    note IH = Cons.IH[OF srt(1) this]
    have "best_in d (e # es) e'" if "bp' = prefix_len e'" "bp < bp'" "best_in d es e'" for e'
      using that False by (auto simp: best_in_def)
    then show ?thesis
      using IH False by auto
  qed
qed

lemma route_scan_tables_spec:
  assumes "\<forall>t \<in> set ts. table_ok t" "route_scan_tables d ts (b, bp) = (b', bp')"
  shows "bp \<le> bp' \<and> (\<forall>t \<in> set ts. tb_id t \<noteq> 0 \<longrightarrow> (\<forall>e \<in> set (rt_entries t). matches d e \<longrightarrow> prefix_len e \<le> bp')) \<and>
    ((b', bp') = (b, bp) \<or>
     (\<exists>t \<in> set ts. \<exists>e. tb_id t \<noteq> 0 \<and> b' = Some e \<and> bp' = prefix_len e \<and> bp < bp' \<and> best_in d (rt_entries t) e))"
  using assms
proof (induction ts arbitrary: b bp)
  case Nil
  then show ?case by simp
next
  case (Cons t ts)
  obtain b1 bp1 where 1: "(if tb_id t = 0 then (b, bp) else route_scan d (rt_entries t) (b, bp)) = (b1, bp1)"
    by fastforce
  have "route_scan_tables d ts (b1, bp1) = (b', bp')"
    using Cons.prems(2) 1 by simp
  note IH = Cons.IH[OF _ this]
  show ?case
  proof (cases "tb_id t = 0")
    case True
    then show ?thesis using IH 1 Cons.prems(1) by auto
  next
    case False
    have "sorted_wrt route_before (rt_entries t)"
      using Cons.prems(1) by (simp add: table_ok_def)
    from route_scan_spec[OF this, of d b bp b1 bp1] 1 False
    have t: "bp \<le> bp1" "\<forall>e \<in> set (rt_entries t). matches d e \<longrightarrow> prefix_len e \<le> bp1"
      "(b1, bp1) = (b, bp) \<or> (\<exists>e. b1 = Some e \<and> bp1 = prefix_len e \<and> bp < bp1 \<and> best_in d (rt_entries t) e)"
      by simp_all
    have ih: "bp1 \<le> bp'" "\<forall>t \<in> set ts. tb_id t \<noteq> 0 \<longrightarrow> (\<forall>e \<in> set (rt_entries t). matches d e \<longrightarrow> prefix_len e \<le> bp')"
      "(b', bp') = (b1, bp1) \<or> (\<exists>t \<in> set ts. \<exists>e. tb_id t \<noteq> 0 \<and> b' = Some e \<and> bp' = prefix_len e \<and> bp1 < bp' \<and> best_in d (rt_entries t) e)"
      using IH Cons.prems(1) by simp_all
    have "\<forall>e \<in> set (rt_entries t). matches d e \<longrightarrow> prefix_len e \<le> bp'"
      using t(2) ih(1) by (meson order_trans)
    moreover have "(b', bp') = (b, bp) \<or> (\<exists>t \<in> set (t # ts). \<exists>e. tb_id t \<noteq> 0 \<and> b' = Some e \<and> bp' = prefix_len e \<and> bp < bp' \<and> best_in d (rt_entries t) e)"
      using t(1,3) ih(3) False by (auto intro: order.strict_trans1)
    ultimately show ?thesis
      using ih(1,2) t(1) by (auto intro: order_trans)
  qed
qed

lemma route_remove_insert:
  assumes "\<forall>c \<in> set es. \<not> (re_dst c = d AND m \<and> re_mask c = m)" "re_dst e = d AND m" "re_mask e = m"
  shows "route_remove d m (route_insert_sorted e es) = Some es"
  using assms by (induction es) auto

subsection \<open>Properties\<close>

text \<open>C27. Longest prefix match: on well-formed tables \<open>route_lookup\<close> returns an entry of a table in
  use that matches the destination and whose prefix is at least as long as that of every matching
  entry of every table; within its table no matching entry of the same length has a smaller metric.
  It returns nothing exactly when no matching entry has a prefix of at least one bit.\<close>
theorem route_lookup_longest_prefix:
  assumes "fib_ok f"
  shows "case route_lookup f d of
      Some e \<Rightarrow> (\<exists>t \<in> set (fib_tables f). tb_id t \<noteq> 0 \<and> best_in d (rt_entries t) e) \<and> 0 < prefix_len e \<and>
        (\<forall>t \<in> set (fib_tables f). tb_id t \<noteq> 0 \<longrightarrow> (\<forall>e' \<in> set (rt_entries t). matches d e' \<longrightarrow> prefix_len e' \<le> prefix_len e))
    | None \<Rightarrow> (\<forall>t \<in> set (fib_tables f). tb_id t \<noteq> 0 \<longrightarrow> (\<forall>e' \<in> set (rt_entries t). matches d e' \<longrightarrow> re_mask e' = 0))"
proof -
  obtain b p where s: "route_scan_tables d (fib_tables f) (None, 0) = (b, p)" by fastforce
  have "\<forall>t \<in> set (fib_tables f). table_ok t" using assms by (simp add: fib_ok_def)
  note sp = route_scan_tables_spec[OF this s]
  have b: "route_lookup f d = b" using s by (simp add: route_lookup_def)
  show ?thesis
  proof (cases b)
    case None
    then have "p = 0" using sp by auto
    then show ?thesis using sp None b by (simp add: mask_to_prefix_0)
  next
    case (Some e)
    then show ?thesis using sp b by auto
  qed
qed

definition loopback_fib :: fib_table where
  "loopback_fib = snd (route_add 9 True route_empty 255 0x7f000001 0xffffffff 0 1 0)"

lemma loopback_fib_simps:
  "fib_ok loopback_fib"
  "fib_tables loopback_fib = \<lparr>tb_id = 255, rt_entries = [route_entry_new 9 0x7f000001 0xffffffff 0 1 0], rt_count = 1\<rparr>
     # replicate 255 \<lparr>tb_id = 0, rt_entries = [], rt_count = 0\<rparr>"
proof -
  have e: "fib_tables route_empty = \<lparr>tb_id = 0, rt_entries = [], rt_count = 0\<rparr> # replicate 255 \<lparr>tb_id = 0, rt_entries = [], rt_count = 0\<rparr>"
    by (simp add: route_empty_def FIB_TABLE_MAX_def flip: replicate_Suc)
  show "fib_tables loopback_fib = \<lparr>tb_id = 255, rt_entries = [route_entry_new 9 0x7f000001 0xffffffff 0 1 0], rt_count = 1\<rparr>
     # replicate 255 \<lparr>tb_id = 0, rt_entries = [], rt_count = 0\<rparr>"
    unfolding loopback_fib_def route_add_def
    by (simp add: route_table_get_def route_table_create_def e route_add_to_def FIB_ENTRY_MAX_def Let_def)
  have "fib_ok route_empty" by (simp add: fib_ok_def route_empty_def)
  then show "fib_ok loopback_fib" unfolding loopback_fib_def by (rule route_add_ok)
qed

theorem route_lookup_longest_prefix_witness:
  "\<exists>e. route_lookup loopback_fib 0x7f000001 = Some e \<and> 0 < prefix_len e \<and>
     (\<exists>t \<in> set (fib_tables loopback_fib). tb_id t \<noteq> 0 \<and> best_in 0x7f000001 (rt_entries t) e)"
proof -
  have "route_lookup loopback_fib 0x7f000001 \<noteq> None"
    using route_lookup_longest_prefix[OF loopback_fib_simps(1), of "0x7f000001"]
    by (cases "route_lookup loopback_fib 0x7f000001") (auto simp: loopback_fib_simps(2) route_entry_new_def)
  then show ?thesis
    using route_lookup_longest_prefix[OF loopback_fib_simps(1), of "0x7f000001"] by (auto split: option.splits)
qed

text \<open>The routing tables stay well formed under every operation: entries sorted by falling prefix
  length and then by rising metric, the count equal to their number and at most \<open>FIB_ENTRY_MAX\<close>, and
  every destination masked. The tables \<open>route_init\<close> builds are well formed.\<close>
theorem route_tables_invariant:
  "fib_ok (route_init h ok) \<and> (fib_ok f \<longrightarrow> fib_ok (snd (route_table_create f tid)) \<and>
     fib_ok (snd (route_add h ok f tid d m g i n)) \<and> fib_ok (snd (route_del f tid d m)) \<and>
     fib_ok (route_flush f tid) \<and> fib_ok (route_flush_all f))"
  by (simp add: route_init_ok route_table_create_ok route_add_ok route_del_ok route_flush_ok route_flush_all_ok)

theorem route_tables_invariant_witness:
  "fib_ok loopback_fib \<and> fib_ok (snd (route_del loopback_fib 255 0x7f000001 0xffffffff))"
  using route_tables_invariant[of 9 True loopback_fib] loopback_fib_simps(1) by blast

text \<open>The loop of \<open>mask_to_prefix\<close> counts the bits of the mask; on the netmask with \<open>k\<close> leading ones
  it gives \<open>k\<close>.\<close>
theorem mask_to_prefix_counts_bits:
  "unat (mask_to_prefix m) = card {i. bit m i} \<and> unat (mask_to_prefix (NOT (mask (32 - k)))) = min k 32"
proof -
  have "{i. bit (NOT (mask (32 - k)) :: u32) i} = {32 - k..<32}"
    by (auto simp: bit_not_iff bit_mask_iff)
  then show ?thesis by (simp add: unat_mask_to_prefix)
qed

text \<open>\<open>route_del\<close> undoes \<open>route_add\<close>: adding a route to an existing table that has room and no
  route for the same network, and then deleting it, gives back the same tables.\<close>
theorem route_add_del_roundtrip:
  assumes "fib_ok f" "route_table_get f tid = Some i" "rt_count (fib_tables f ! i) < FIB_ENTRY_MAX"
    and "\<forall>c \<in> set (rt_entries (fib_tables f ! i)). \<not> (re_dst c = d AND m \<and> re_mask c = m)"
  shows "\<exists>f'. route_add h True f tid d m g k n = (0, f') \<and> route_del f' tid d m = (0, f)"
proof -
  let ?t = "fib_tables f ! i" and ?e = "route_entry_new h d m g k n"
  let ?t' = "?t\<lparr>rt_entries := route_insert_sorted ?e (rt_entries ?t), rt_count := rt_count ?t + 1\<rparr>"
  define f' where "f' = f\<lparr>fib_tables := (fib_tables f)[i := ?t']\<rparr>"
  have i: "i < length (fib_tables f)" "tb_id ?t = tid" "\<forall>j<i. tb_id (fib_tables f ! j) \<noteq> tid"
    using assms(2) by (auto simp: route_table_get_def find_idx_Some)
  have "route_add h True f tid d m g k n = (0, f')"
    using assms(2,3) by (simp add: route_add_def route_add_to_def Let_def f'_def not_le)
  moreover have "route_table_get f' tid = Some i"
    using i by (simp add: route_table_get_def find_idx_Some f'_def nth_list_update)
  moreover have "route_remove d m (route_insert_sorted ?e (rt_entries ?t)) = Some (rt_entries ?t)"
    using assms(4) by (intro route_remove_insert) (simp_all add: route_entry_new_def)
  ultimately show ?thesis
    using i(1) by (auto simp: route_del_def f'_def)
qed

theorem route_add_del_roundtrip_witness:
  "\<exists>f'. route_add 9 True loopback_fib 255 0x0a000000 0xff000000 1 2 0 = (0, f') \<and>
     route_del f' 255 0x0a000000 0xff000000 = (0, loopback_fib)"
  by (rule route_add_del_roundtrip[OF loopback_fib_simps(1), of 255 0])
    (simp_all add: route_table_get_def loopback_fib_simps(2) FIB_ENTRY_MAX_def route_entry_new_def)

end
