(* ===== verification/Vlan.thy ===== *)
theory Vlan
  imports Libc_String
begin

section \<open>VLAN devices and tags\<close>

text \<open>
  \<open>kernel/arch/x86_64/vlan.c\<close> and the tag macros of \<open>arch/vlan.h\<close>. The linked list of devices is
  a list, newest first, and a pointer to a device is its index. A frame is a flat memory from its
  first byte on. Names passed in are strings that end inside their object, on which \<open>strcmp\<close> is
  defined; a null pointer is \<open>None\<close>. \<open>ok\<close> says that \<open>kmalloc\<close> gave a device.
\<close>

record vlan_device =
  vd_name :: "u8 list"
  vd_parent :: "u8 list"
  vd_vlan_id :: u16
  vd_flags :: u32
  vd_rx_packets :: u32
  vd_tx_packets :: u32
  vd_rx_bytes :: u32
  vd_tx_bytes :: u32
  vd_rx_drops :: u32
  vd_tx_drops :: u32

record vlan_table =
  vt_devices :: "vlan_device list"
  vt_count :: u32

type_synonym frame = "nat \<Rightarrow> u8"

definition VLAN_MAX_ID :: u16 where "VLAN_MAX_ID = 4094"
definition VLAN_VID_MASK :: u16 where "VLAN_VID_MASK = 0x0FFF"
definition VLAN_ETHERTYPE :: u16 where "VLAN_ETHERTYPE = 0x8100"
definition VLAN_MAX_DEVICES :: u32 where "VLAN_MAX_DEVICES = 64"
definition VLAN_NAME_MAX :: nat where "VLAN_NAME_MAX = 16"

abbreviation (input) ETH_HLEN :: u64 where "ETH_HLEN \<equiv> 14"
abbreviation (input) VLAN_TAG_INSERT_SIZE :: u64 where "VLAN_TAG_INSERT_SIZE \<equiv> 4"

definition vlan_htons :: "u16 \<Rightarrow> u16" where
  "vlan_htons v = drop_bit 8 v OR push_bit 8 v"

definition vlan_ntohs :: "u16 \<Rightarrow> u16" where
  "vlan_ntohs v = vlan_htons v"

text \<open>The \<open>type\<close> field of \<open>eth_header_t\<close>: bytes 12 and 13, least significant first.\<close>

definition eth_type :: "frame \<Rightarrow> u16" where
  "eth_type m = ucast (m 12) OR push_bit 8 (ucast (m 13))"

definition set_eth_type :: "frame \<Rightarrow> u16 \<Rightarrow> frame" where
  "set_eth_type m v = m(12 := ucast v, 13 := ucast (drop_bit 8 v))"

definition be16 :: "u8 \<Rightarrow> u8 \<Rightarrow> u16" where
  "be16 hi lo = push_bit 8 (ucast hi) OR ucast lo"

definition name_eq :: "u8 list \<Rightarrow> u8 list \<Rightarrow> bool" where
  "name_eq a b \<longleftrightarrow> strcmp a b = Some 0"

definition vlan_init :: vlan_table where
  "vlan_init = \<lparr>vt_devices = [], vt_count = 0\<rparr>"

definition vlan_add_device ::
  "bool \<Rightarrow> vlan_table \<Rightarrow> u8 list option \<Rightarrow> u16 \<Rightarrow> u8 list option \<Rightarrow> (vlan_device option \<times> vlan_table) option" where
  "vlan_add_device ok t parent vlan_id nm =
     (case (parent, nm) of
        (Some p, Some n) \<Rightarrow>
          if vlan_id = 0 \<or> vlan_id > VLAN_MAX_ID then Some (None, t)
          else if vt_count t \<ge> VLAN_MAX_DEVICES then Some (None, t)
          else if \<exists>v \<in> set (vt_devices t). name_eq (vd_name v) n \<or> (name_eq (vd_parent v) p \<and> vd_vlan_id v = vlan_id)
          then Some (None, t)
          else if \<not> ok then Some (None, t)
          else Option.bind (bounded_copy (replicate 16 0) VLAN_NAME_MAX n) (\<lambda>n'.
               Option.bind (bounded_copy (replicate 16 0) VLAN_NAME_MAX p) (\<lambda>p'.
               let v = \<lparr>vd_name = n', vd_parent = p', vd_vlan_id = vlan_id, vd_flags = 1, vd_rx_packets = 0,
                 vd_tx_packets = 0, vd_rx_bytes = 0, vd_tx_bytes = 0, vd_rx_drops = 0, vd_tx_drops = 0\<rparr>
               in Some (Some v, t\<lparr>vt_devices := v # vt_devices t, vt_count := vt_count t + 1\<rparr>)))
      | _ \<Rightarrow> Some (None, t))"

definition vlan_find_device :: "vlan_table \<Rightarrow> u8 list option \<Rightarrow> nat option" where
  "vlan_find_device t nm =
     (case nm of None \<Rightarrow> None | Some n \<Rightarrow> find_idx (\<lambda>v. name_eq (vd_name v) n) (vt_devices t))"

definition vlan_del_device :: "vlan_table \<Rightarrow> u8 list option \<Rightarrow> int \<times> vlan_table" where
  "vlan_del_device t nm =
     (case nm of
        None \<Rightarrow> (- 1, t)
      | Some n \<Rightarrow>
          case find_idx (\<lambda>v. name_eq (vd_name v) n) (vt_devices t) of
            None \<Rightarrow> (- 1, t)
          | Some i \<Rightarrow> (0, t\<lparr>vt_devices := take i (vt_devices t) @ drop (Suc i) (vt_devices t),
                          vt_count := vt_count t - 1\<rparr>))"

definition vlan_find_by_vid :: "vlan_table \<Rightarrow> u8 list option \<Rightarrow> u16 \<Rightarrow> nat option" where
  "vlan_find_by_vid t parent vlan_id =
     (case parent of None \<Rightarrow> None
      | Some p \<Rightarrow> find_idx (\<lambda>v. name_eq (vd_parent v) p \<and> vd_vlan_id v = vlan_id) (vt_devices t))"

definition vlan_rx :: "vlan_table \<Rightarrow> frame option \<Rightarrow> u64 \<Rightarrow> u8 list option \<Rightarrow> int \<times> vlan_table" where
  "vlan_rx t fr len parent =
     (case fr of
        None \<Rightarrow> (- 1, t)
      | Some m \<Rightarrow>
          if parent = None then (- 1, t)
          else if len < ETH_HLEN + VLAN_TAG_INSERT_SIZE then (- 1, t)
          else if vlan_ntohs (eth_type m) \<noteq> VLAN_ETHERTYPE then (- 1, t)
          else let tci = be16 (m 14) (m 15); vid = tci AND VLAN_VID_MASK in
            case vlan_find_by_vid t parent vid of
              None \<Rightarrow> (- 1, t)
            | Some i \<Rightarrow>
                let d = vt_devices t ! i; inner_len = len - ETH_HLEN - VLAN_TAG_INSERT_SIZE
                in (0, t\<lparr>vt_devices := (vt_devices t)[i := d\<lparr>vd_rx_packets := vd_rx_packets d + 1,
                       vd_rx_bytes := vd_rx_bytes d + ucast inner_len\<rparr>]\<rparr>))"

definition tx_drop :: "vlan_table \<Rightarrow> nat \<Rightarrow> vlan_table" where
  "tx_drop t i = t\<lparr>vt_devices := (vt_devices t)[i := (vt_devices t ! i)\<lparr>vd_tx_drops := vd_tx_drops (vt_devices t ! i) + 1\<rparr>]\<rparr>"

text \<open>The results are the return value, the frame and \<open>*len\<close> after the call, and the table.\<close>

definition vlan_tx ::
  "vlan_table \<Rightarrow> frame option \<Rightarrow> u64 \<Rightarrow> u64 \<Rightarrow> u8 list option \<Rightarrow> u16 \<Rightarrow> int \<times> frame option \<times> u64 \<times> vlan_table" where
  "vlan_tx t fr len max_len vlan_name proto =
     (case fr of
        None \<Rightarrow> (- 1, fr, len, t)
      | Some m \<Rightarrow>
          case vlan_find_device t vlan_name of
            None \<Rightarrow> (- 1, fr, len, t)
          | Some i \<Rightarrow>
              let d = vt_devices t ! i in
              if vd_flags d = 0 then (- 1, fr, len, tx_drop t i)
              else if len + VLAN_TAG_INSERT_SIZE > max_len then (- 1, fr, len, tx_drop t i)
              else if len < ETH_HLEN then (- 1, fr, len, t)
              else let payload_len = len - ETH_HLEN;
                       m1 = memmove m 18 14 (unat payload_len);
                       tci = vd_vlan_id d AND VLAN_VID_MASK;
                       m2 = m1(14 := ucast (drop_bit 8 tci), 15 := ucast (tci AND 0xff),
                               16 := ucast (drop_bit 8 proto), 17 := ucast (proto AND 0xff));
                       m3 = set_eth_type m2 (vlan_htons VLAN_ETHERTYPE);
                       len' = len + VLAN_TAG_INSERT_SIZE
                in (0, Some m3, len',
                    t\<lparr>vt_devices := (vt_devices t)[i := d\<lparr>vd_tx_packets := vd_tx_packets d + 1,
                       vd_tx_bytes := vd_tx_bytes d + ucast len'\<rparr>]\<rparr>))"

definition vlan_device_count :: "vlan_table \<Rightarrow> u32" where
  "vlan_device_count t = vt_count t"

text \<open>The tag macros of the header; \<open>len\<close> and the outputs keep their values when nothing is done.\<close>

definition VLAN_TAG_INSERT :: "frame \<Rightarrow> u64 \<Rightarrow> u64 \<Rightarrow> u16 \<Rightarrow> u16 \<Rightarrow> u16 \<Rightarrow> frame \<times> u64" where
  "VLAN_TAG_INSERT p l m vid prio proto =
     (if l + VLAN_TAG_INSERT_SIZE \<le> m \<and> l \<ge> ETH_HLEN
      then let p1 = memmove p 18 14 (unat (l - ETH_HLEN));
               tci = (vid AND VLAN_VID_MASK) OR push_bit 13 prio;
               p2 = p1(14 := ucast (drop_bit 8 tci), 15 := ucast (tci AND 0xff),
                       16 := ucast (drop_bit 8 proto), 17 := ucast (proto AND 0xff))
           in (set_eth_type p2 0x8100, l + VLAN_TAG_INSERT_SIZE)
      else (p, l))"

definition VLAN_TAG_STRIP :: "frame \<Rightarrow> u64 \<Rightarrow> u16 \<Rightarrow> u16 \<Rightarrow> frame \<times> u64 \<times> u16 \<times> u16" where
  "VLAN_TAG_STRIP p l vid_out proto_out =
     (if l \<ge> ETH_HLEN + VLAN_TAG_INSERT_SIZE \<and> eth_type p = 0x8100
      then (memmove p 14 18 (unat (l - ETH_HLEN - VLAN_TAG_INSERT_SIZE)), l - VLAN_TAG_INSERT_SIZE,
            be16 (p 14) (p 15) AND VLAN_VID_MASK, be16 (p 16) (p 17))
      else (p, l, vid_out, proto_out))"

subsection \<open>Bytes of 16-bit words\<close>

lemma be16_split: "be16 (ucast (drop_bit 8 v)) (ucast (v AND 0xff)) = v"
proof (rule bit_word_eqI)
  fix n assume n: "n < LENGTH(16)"
  have b: "v AND 0xff = take_bit 8 v" by (simp add: take_bit_eq_mask mask_eq_exp_minus_1)
  show "bit (be16 (ucast (drop_bit 8 v)) (ucast (v AND 0xff))) n = bit v n"
    unfolding be16_def b using n by (cases "n < 8") (auto simp: bit_simps not_less)
qed

lemma vlan_htons_invol: "vlan_ntohs (vlan_htons v) = v"
proof (rule bit_word_eqI)
  fix n assume "n < LENGTH(16)"
  then show "bit (vlan_ntohs (vlan_htons v)) n = bit v n"
    unfolding vlan_ntohs_def vlan_htons_def by (cases "n < 8") (simp_all add: bit_simps not_less)
qed

lemma eth_type_set [simp]: "eth_type (set_eth_type m v) = v"
  unfolding eth_type_def set_eth_type_def by (rule bit_word_eqI) (auto simp: bit_simps)

lemma set_eth_type_apply: "i \<noteq> 12 \<Longrightarrow> i \<noteq> 13 \<Longrightarrow> set_eth_type m v i = m i"
  by (simp add: set_eth_type_def)

subsection \<open>The table of devices\<close>

definition vlan_ok :: "vlan_table \<Rightarrow> bool" where
  "vlan_ok t \<longleftrightarrow> unat (vt_count t) = length (vt_devices t) \<and> vt_count t \<le> VLAN_MAX_DEVICES \<and>
     (\<forall>v \<in> set (vt_devices t). terminated (vd_name v) \<and> terminated (vd_parent v) \<and>
        0 < vd_vlan_id v \<and> vd_vlan_id v \<le> VLAN_MAX_ID)"

lemma vid_mask: "VLAN_VID_MASK = mask 12"
  by (simp add: VLAN_VID_MASK_def mask_eq_exp_minus_1)

lemma vlan_id_masked: "v \<le> VLAN_MAX_ID \<Longrightarrow> v AND VLAN_VID_MASK = v"
proof -
  assume "v \<le> VLAN_MAX_ID"
  then have "unat v < 2 ^ 12" by (simp add: VLAN_MAX_ID_def word_le_nat_alt)
  then have "take_bit 12 v = v"
    by (simp add: word_unat_eq_iff unsigned_take_bit_eq take_bit_nat_eq_self)
  then show ?thesis by (simp add: take_bit_eq_mask vid_mask)
qed

lemma bounded_copy_terminated:
  assumes "bounded_copy d n s = Some d'" "0 < n" "n \<le> length d"
  shows "terminated d'"
proof -
  have "length d' = length d"
    using assms(1) by (auto simp: bounded_copy_def strncpy_length)
  then show ?thesis
    using assms by (auto simp: bounded_copy_def set_update_memI)
qed

lemma vlan_add_device_ok:
  assumes "vlan_ok t" "vlan_add_device ok t p vid n = Some (r, t')"
  shows "vlan_ok t'"
proof (cases "t' = t")
  case False
  define new where "new n' p' = \<lparr>vd_name = n', vd_parent = p', vd_vlan_id = vid, vd_flags = 1, vd_rx_packets = 0,
      vd_tx_packets = 0, vd_rx_bytes = 0, vd_tx_bytes = 0, vd_rx_drops = 0, vd_tx_drops = 0\<rparr>" for n' p'
  obtain p0 n0 where "p = Some p0" "n = Some n0"
    using False assms(2) by (auto simp: vlan_add_device_def split: option.splits)
  then obtain n' p' where v: "0 < unat vid" "vid \<le> VLAN_MAX_ID" "vt_count t < VLAN_MAX_DEVICES"
      "bounded_copy (replicate 16 0) VLAN_NAME_MAX n0 = Some n'" "bounded_copy (replicate 16 0) VLAN_NAME_MAX p0 = Some p'"
      "t' = t\<lparr>vt_devices := new n' p' # vt_devices t, vt_count := vt_count t + 1\<rparr>"
    using False assms(2)
    by (auto simp: vlan_add_device_def Let_def bind_eq_Some_conv not_le not_less unat_gt_0 new_def split: if_splits)
  have "unat (vt_count t + 1) = Suc (unat (vt_count t))"
    using v(3) by (subst unat_add_noof) (auto simp: VLAN_MAX_DEVICES_def word_less_nat_alt)
  moreover have "terminated n'" "terminated p'"
    using bounded_copy_terminated v(4,5) by (simp_all add: VLAN_NAME_MAX_def)
  ultimately show ?thesis
    using assms(1) v by (auto simp: vlan_ok_def new_def VLAN_MAX_DEVICES_def word_less_nat_alt word_le_nat_alt)
qed (use assms in simp)

lemma vlan_del_device_ok: "vlan_ok t \<Longrightarrow> vlan_ok (snd (vlan_del_device t n))"
proof -
  assume ok: "vlan_ok t"
  have "vlan_ok (t\<lparr>vt_devices := take i (vt_devices t) @ drop (Suc i) (vt_devices t), vt_count := vt_count t - 1\<rparr>)"
    if "i < length (vt_devices t)" for i
  proof -
    have "unat (vt_count t - 1) = unat (vt_count t) - 1"
      using ok that by (subst unat_sub) (auto simp: vlan_ok_def word_le_nat_alt)
    then show ?thesis
      using ok that by (auto simp: vlan_ok_def word_le_nat_alt VLAN_MAX_DEVICES_def dest: in_set_takeD in_set_dropD)
  qed
  then show ?thesis
    using ok by (auto simp: vlan_del_device_def find_idx_Some split: option.splits)
qed

text \<open>A name that fits its field is found again.\<close>

lemma vlan_find_added:
  assumes "vlan_add_device True t (Some p) vid (Some n) = Some (Some v, t')"
    "terminated n" "length (cstr n) < VLAN_NAME_MAX"
  shows "vlan_find_device t' (Some n) = Some 0"
proof -
  obtain n' where "bounded_copy (replicate 16 0) VLAN_NAME_MAX n = Some n'" "vd_name v = n'" "vt_devices t' = v # vt_devices t"
    using assms(1) by (auto simp: vlan_add_device_def Let_def bind_eq_Some_conv split: if_splits)
  moreover from this(1) have "cstr n' = cstr n" "terminated n'"
    using bounded_copy_eq[of n VLAN_NAME_MAX "replicate 16 0"] bounded_copy_terminated assms(2,3)
    by (auto simp: VLAN_NAME_MAX_def)
  ultimately show ?thesis
    using assms(2) by (simp add: vlan_find_device_def name_eq_def strcmp_eq_0)
qed

text \<open>
  \<open>VLAN_TAG_STRIP\<close> recovers from a frame tagged by \<open>VLAN_TAG_INSERT\<close> the identifier, the protocol,
  the length and every byte but the type field, which keeps \<open>0x8100\<close>. That macro stores the type in
  host order, so \<open>vlan_rx\<close> does not recognise its frames.
\<close>

lemma vlan_macros_roundtrip:
  assumes "14 \<le> l" "unat l + 4 < 2 ^ 64" "l + 4 \<le> m" "vid \<le> VLAN_MAX_ID"
    "VLAN_TAG_INSERT p l m vid prio proto = (p1, l1)" "VLAN_TAG_STRIP p1 l1 v0 q0 = (p2, l2, vid', proto')"
  shows "l2 = l \<and> vid' = vid \<and> proto' = proto \<and> eth_type p2 = 0x8100 \<and>
    (\<forall>i < unat l. i \<noteq> 12 \<longrightarrow> i \<noteq> 13 \<longrightarrow> p2 i = p i)"
proof -
  let ?tci = "(vid AND VLAN_VID_MASK) OR push_bit 13 prio"
  define q where "q = (memmove p 18 14 (unat (l - 14)))(14 := ucast (drop_bit 8 ?tci), 15 := ucast (?tci AND 0xff),
        16 := ucast (drop_bit 8 proto), 17 := ucast (proto AND 0xff))"
  have p1: "p1 = set_eth_type q 0x8100" "l1 = l + 4"
    using assms(1,3,5) by (simp_all add: VLAN_TAG_INSERT_def q_def Let_def)
  have plen: "unat (l - 14) = unat l - 14"
    using assms(1) by (subst unat_sub) (auto simp: word_le_nat_alt)
  have "18 \<le> l + 4"
    using assms(1,2) by (simp add: word_le_nat_alt unat_add_noof)
  then have p2: "p2 = memmove p1 14 18 (unat (l - 14))" "l2 = l"
    "vid' = be16 (p1 14) (p1 15) AND VLAN_VID_MASK" "proto' = be16 (p1 16) (p1 17)"
    using assms(6) by (auto simp: VLAN_TAG_STRIP_def p1)
  have "(vid AND VLAN_VID_MASK OR push_bit 13 prio) AND VLAN_VID_MASK = vid AND VLAN_VID_MASK"
    unfolding vid_mask by (rule bit_word_eqI) (auto simp: bit_simps)
  moreover have "be16 (p1 14) (p1 15) = ?tci"
    unfolding p1 q_def by (simp add: set_eth_type_apply be16_split del: drop_bit_or)
  ultimately have "vid' = vid"
    using vlan_id_masked[OF assms(4)] by (simp only: p2)
  moreover have "proto' = proto"
    by (simp add: p2 p1 q_def set_eth_type_apply be16_split)
  moreover have "eth_type p2 = 0x8100"
    using eth_type_set[of q "0x8100"] by (simp add: eth_type_def p2 p1 memmove_apply)
  moreover have "\<forall>i < unat l. i \<noteq> 12 \<longrightarrow> i \<noteq> 13 \<longrightarrow> p2 i = p i"
    by (auto simp: p2 p1 q_def set_eth_type_apply memmove_apply plen)
  ultimately show ?thesis using p2(2) by blast
qed

lemma vlan_macro_tag_not_received:
  assumes "14 \<le> l" "l + 4 \<le> m" "VLAN_TAG_INSERT p l m vid prio proto = (p1, l1)"
  shows "vlan_rx t (Some p1) l1 parent = (- 1, t)"
proof -
  have "eth_type p1 = 0x8100"
    using assms by (auto simp: VLAN_TAG_INSERT_def Let_def)
  then have "vlan_ntohs (eth_type p1) \<noteq> VLAN_ETHERTYPE"
    by (simp add: vlan_ntohs_def vlan_htons_def VLAN_ETHERTYPE_def)
  then show ?thesis by (simp add: vlan_rx_def)
qed

subsection \<open>Properties\<close>

text \<open>A frame sent through a VLAN device is received for that VLAN: \<open>vlan_tx\<close> keeps the
  addresses and moves the payload behind the tag, \<open>VLAN_ETHERTYPE\<close>, the identifier of the device
  and the protocol appear in network order, and \<open>vlan_rx\<close> on the result, for the parent of the
  device, succeeds and counts the frame for a device with that parent and identifier.\<close>
theorem vlan_tx_rx_roundtrip:
  assumes "vlan_ok t" "vlan_find_device t (Some n) = Some i" "d = vt_devices t ! i" "vd_flags d \<noteq> 0"
    and "14 \<le> len" "unat len + 4 < 2 ^ 64" "len + 4 \<le> max_len"
  shows "\<exists>m' t1 t2 j. vlan_tx t (Some m) len max_len (Some n) proto = (0, Some m', len + 4, t1) \<and>
    (\<forall>k < 12. m' k = m k) \<and> (\<forall>k. 14 \<le> k \<and> k < unat len \<longrightarrow> m' (k + 4) = m k) \<and>
    be16 (m' 12) (m' 13) = VLAN_ETHERTYPE \<and> be16 (m' 14) (m' 15) = vd_vlan_id d \<and> be16 (m' 16) (m' 17) = proto \<and>
    vlan_rx t1 (Some m') (len + 4) (Some (vd_parent d)) = (0, t2) \<and> j < length (vt_devices t) \<and>
    cstr (vd_parent (vt_devices t ! j)) = cstr (vd_parent d) \<and> vd_vlan_id (vt_devices t ! j) = vd_vlan_id d \<and>
    vd_rx_packets (vt_devices t2 ! j) = vd_rx_packets (vt_devices t ! j) + 1"
proof -
  have i: "i < length (vt_devices t)" using assms(2) by (simp add: vlan_find_device_def find_idx_Some)
  have d: "vd_vlan_id d \<le> VLAN_MAX_ID" "terminated (vd_parent d)"
    using assms(1,3) i by (auto simp: vlan_ok_def)
  define m1 where "m1 = memmove m 18 14 (unat (len - 14))"
  define m2 where "m2 = m1(14 := ucast (drop_bit 8 (vd_vlan_id d)), 15 := ucast (vd_vlan_id d AND 0xff),
        16 := ucast (drop_bit 8 proto), 17 := ucast (proto AND 0xff))"
  define m' where "m' = set_eth_type m2 (vlan_htons VLAN_ETHERTYPE)"
  define t1 where "t1 = t\<lparr>vt_devices := (vt_devices t)[i := d\<lparr>vd_tx_packets := vd_tx_packets d + 1,
        vd_tx_bytes := vd_tx_bytes d + ucast (len + 4)\<rparr>]\<rparr>"
  have tx: "vlan_tx t (Some m) len max_len (Some n) proto = (0, Some m', len + 4, t1)"
    using assms(2-7) vlan_id_masked[OF d(1)]
    by (simp add: vlan_tx_def m'_def m2_def m1_def t1_def Let_def not_le not_less)
  have plen: "unat (len - 14) = unat len - 14"
    using assms(5) by (subst unat_sub) (auto simp: word_le_nat_alt)
  have low: "\<forall>k < 12. m' k = m k"
    by (auto simp: m'_def m2_def m1_def set_eth_type_apply memmove_apply)
  have high: "\<forall>k. 14 \<le> k \<and> k < unat len \<longrightarrow> m' (k + 4) = m k"
    by (auto simp: m'_def m2_def m1_def set_eth_type_apply memmove_apply plen)
  have tag: "be16 (m' 14) (m' 15) = vd_vlan_id d" "be16 (m' 16) (m' 17) = proto"
    by (simp_all add: m'_def m2_def set_eth_type_apply be16_split)
  have ty: "be16 (m' 12) (m' 13) = VLAN_ETHERTYPE"
    unfolding m'_def set_eth_type_def be16_def vlan_htons_def VLAN_ETHERTYPE_def by simp
  have et: "vlan_ntohs (eth_type m') = VLAN_ETHERTYPE"
    by (simp add: m'_def vlan_htons_invol)
  have dev: "vd_parent (vt_devices t1 ! k) = vd_parent (vt_devices t ! k)" "vd_vlan_id (vt_devices t1 ! k) = vd_vlan_id (vt_devices t ! k)"
    "vd_rx_packets (vt_devices t1 ! k) = vd_rx_packets (vt_devices t ! k)" for k
    using i assms(3) by (auto simp: t1_def nth_list_update)
  have lt1: "length (vt_devices t1) = length (vt_devices t)" by (simp add: t1_def)
  let ?P = "\<lambda>v. name_eq (vd_parent v) (vd_parent d) \<and> vd_vlan_id v = vd_vlan_id d"
  have "?P (vt_devices t1 ! i)"
    using d(2) assms(3) by (simp add: dev name_eq_def strcmp_eq_0)
  then have "find_idx ?P (vt_devices t1) \<noteq> None"
    using i lt1 by (auto simp: find_idx_None)
  then obtain j where j: "find_idx ?P (vt_devices t1) = Some j" by blast
  then have j': "j < length (vt_devices t)" "?P (vt_devices t1 ! j)"
    using lt1 by (auto simp: find_idx_Some)
  have len4: "\<not> len + 4 < 18"
    using assms(5,6) by (simp add: word_less_nat_alt word_le_nat_alt unat_add_noof)
  obtain t2 where t2: "vlan_rx t1 (Some m') (len + 4) (Some (vd_parent d)) = (0, t2)"
      "vd_rx_packets (vt_devices t2 ! j) = vd_rx_packets (vt_devices t1 ! j) + 1"
    using j j'(1) lt1 et len4 vlan_id_masked[OF d(1)]
    by (simp add: vlan_rx_def tag vlan_find_by_vid_def Let_def)
  show ?thesis
    using tx low high ty tag t2 j' dev by (auto simp: name_eq_def strcmp_eq_0)
qed

definition eth_vlan :: "vlan_table option" where
  "eth_vlan = map_option snd (vlan_add_device True vlan_init (Some [101, 0]) 5 (Some [118, 0]))"

theorem vlan_tx_rx_roundtrip_witness:
  "\<exists>t i m' t1 t2. eth_vlan = Some t \<and> vlan_find_device t (Some [118, 0]) = Some i \<and>
     vlan_tx t (Some (\<lambda>k. of_nat k)) 60 1500 (Some [118, 0]) 0x0800 = (0, Some m', 64, t1) \<and>
     be16 (m' 14) (m' 15) = 5 \<and> vlan_rx t1 (Some m') 64 (Some (vd_parent (vt_devices t ! i))) = (0, t2)"
proof -
  obtain v t where t: "vlan_add_device True vlan_init (Some [101, 0]) 5 (Some [118, 0]) = Some (Some v, t)"
      "vt_devices t = [v]" "vd_flags v = 1" "vd_vlan_id v = 5"
    using bounded_copy_eq[of "[118, 0]" VLAN_NAME_MAX "replicate 16 0"] bounded_copy_eq[of "[101, 0]" VLAN_NAME_MAX "replicate 16 0"]
    by (auto simp: Let_def vlan_add_device_def vlan_init_def VLAN_MAX_ID_def VLAN_MAX_DEVICES_def VLAN_NAME_MAX_def)
  have ok: "vlan_ok t"
    by (rule vlan_add_device_ok[OF _ t(1)]) (simp add: vlan_ok_def vlan_init_def)
  have f: "vlan_find_device t (Some [118, 0]) = Some 0"
    by (rule vlan_find_added[OF t(1)]) (simp_all add: VLAN_NAME_MAX_def)
  from vlan_tx_rx_roundtrip[OF ok f refl, of 60 1500 "\<lambda>k. of_nat k" "0x0800"] t
  show ?thesis by (auto simp: eth_vlan_def f)
qed

end
