(* ===== verification/Bitmap.thy ===== *)
theory Bitmap
  imports Prelude
begin

section \<open>Bitmaps\<close>

text \<open>
  \<open>include/kapi_bitmap.h\<close>. A bitmap is the list of its 64-bit words; bit numbers are natural
  numbers below \<open>2 ^ 32\<close>, and the number of words for \<open>n\<close> bits is computed in 64 bits, so nothing
  wraps. The loops over words and bits are recursive functions.
\<close>

type_synonym bitmap = "u64 list"

definition KAPI_BITS_PER_LONG :: nat where "KAPI_BITS_PER_LONG = 64"

definition bitmap_longs :: "nat \<Rightarrow> nat" where
  "bitmap_longs nbits = (nbits + KAPI_BITS_PER_LONG - 1) div KAPI_BITS_PER_LONG"

definition kapi_bitmap_set :: "bitmap \<Rightarrow> nat \<Rightarrow> bitmap" where
  "kapi_bitmap_set bm i =
     bm[i div KAPI_BITS_PER_LONG := bm ! (i div KAPI_BITS_PER_LONG) OR push_bit (i mod KAPI_BITS_PER_LONG) 1]"

definition kapi_bitmap_clear :: "bitmap \<Rightarrow> nat \<Rightarrow> bitmap" where
  "kapi_bitmap_clear bm i =
     bm[i div KAPI_BITS_PER_LONG := bm ! (i div KAPI_BITS_PER_LONG) AND NOT (push_bit (i mod KAPI_BITS_PER_LONG) 1)]"

definition kapi_bitmap_test :: "bitmap \<Rightarrow> nat \<Rightarrow> bool" where
  "kapi_bitmap_test bm i \<longleftrightarrow> drop_bit (i mod KAPI_BITS_PER_LONG) (bm ! (i div KAPI_BITS_PER_LONG)) AND 1 = 1"

definition kapi_bitmap_set_all :: "bitmap \<Rightarrow> nat \<Rightarrow> bitmap" where
  "kapi_bitmap_set_all bm nbits = fold (\<lambda>i bm. bm[i := NOT 0]) [0..<bitmap_longs nbits] bm"

definition kapi_bitmap_clear_all :: "bitmap \<Rightarrow> nat \<Rightarrow> bitmap" where
  "kapi_bitmap_clear_all bm nbits = fold (\<lambda>i bm. bm[i := 0]) [0..<bitmap_longs nbits] bm"

text \<open>
  The two searches differ in the test only: \<open>v\<close> is the word with no interesting bit, which is
  skipped, and \<open>want\<close> the value of the bit looked for.
\<close>

function find_in_word :: "bool \<Rightarrow> u64 \<Rightarrow> nat \<Rightarrow> nat \<Rightarrow> nat \<Rightarrow> nat option" where
  "find_in_word want val offset nbits j =
     (if j < KAPI_BITS_PER_LONG \<and> offset + j < nbits
      then if (val AND push_bit j 1 \<noteq> 0) = want then Some (offset + j) else find_in_word want val offset nbits (Suc j)
      else None)"
  by pat_completeness auto
termination
  by (relation "measure (\<lambda>(_, _, _, _, j). KAPI_BITS_PER_LONG - j)") auto

declare find_in_word.simps [simp del]

fun find_in_words :: "bool \<Rightarrow> u64 \<Rightarrow> nat \<Rightarrow> u64 list \<Rightarrow> nat \<Rightarrow> int" where
  "find_in_words want v nbits [] i = - 1"
| "find_in_words want v nbits (w # ws) i =
     (if w \<noteq> v
      then (case find_in_word want w (i * KAPI_BITS_PER_LONG) nbits 0 of
              Some k \<Rightarrow> int k
            | None \<Rightarrow> find_in_words want v nbits ws (Suc i))
      else find_in_words want v nbits ws (Suc i))"

definition kapi_bitmap_find_first :: "bitmap \<Rightarrow> nat \<Rightarrow> int" where
  "kapi_bitmap_find_first bm nbits = find_in_words True 0 nbits (take (bitmap_longs nbits) bm) 0"

definition kapi_bitmap_find_first_zero :: "bitmap \<Rightarrow> nat \<Rightarrow> int" where
  "kapi_bitmap_find_first_zero bm nbits = find_in_words False (NOT 0) nbits (take (bitmap_longs nbits) bm) 0"

function count_bits :: "u64 \<Rightarrow> u32 \<Rightarrow> u32" where
  "count_bits val cnt = (if val = 0 then cnt else count_bits (drop_bit 1 val) (cnt + ucast (val AND 1)))"
  by pat_completeness auto
termination
proof (relation "measure (unat \<circ> fst)", simp)
  fix val :: u64 and cnt :: u32 assume "val \<noteq> 0"
  then show "((drop_bit 1 val, cnt + ucast (val AND 1)), val, cnt) \<in> measure (unat \<circ> fst)"
    using drop_bit_1_less by simp
qed

declare count_bits.simps [simp del]

definition kapi_bitmap_count :: "bitmap \<Rightarrow> nat \<Rightarrow> u32" where
  "kapi_bitmap_count bm nbits = fold (\<lambda>i cnt. count_bits (bm ! i) cnt) [0..<bitmap_longs nbits] 0"

subsection \<open>A bitmap as a set of numbers\<close>

definition bitmap_bit :: "bitmap \<Rightarrow> nat \<Rightarrow> bool" where
  "bitmap_bit bm i \<longleftrightarrow> bit (bm ! (i div 64)) (i mod 64)"

lemma kapi_bitmap_test_bit: "kapi_bitmap_test bm i = bitmap_bit bm i"
  by (simp add: kapi_bitmap_test_def bitmap_bit_def KAPI_BITS_PER_LONG_def and_one_eq bit_iff_odd_drop_bit mod_2_eq_odd)

lemma bitmap_bit_set:
  assumes "i < 64 * length bm"
  shows "bitmap_bit (kapi_bitmap_set bm i) j = (j = i \<or> bitmap_bit bm j)"
proof -
  have "i div 64 < length bm" using assms by (simp add: less_mult_imp_div_less mult.commute)
  moreover have "j = i" if "j div 64 = i div 64" "j mod 64 = i mod 64"
    using that by (metis div_mult_mod_eq)
  ultimately show ?thesis
    by (auto simp: bitmap_bit_def kapi_bitmap_set_def KAPI_BITS_PER_LONG_def nth_list_update bit_simps)
qed

lemma bitmap_bit_clear:
  assumes "i < 64 * length bm"
  shows "bitmap_bit (kapi_bitmap_clear bm i) j = (j \<noteq> i \<and> bitmap_bit bm j)"
proof -
  have "i div 64 < length bm" using assms by (simp add: less_mult_imp_div_less mult.commute)
  moreover have "j = i" if "j div 64 = i div 64" "j mod 64 = i mod 64"
    using that by (metis div_mult_mod_eq)
  ultimately show ?thesis
    by (auto simp: bitmap_bit_def kapi_bitmap_clear_def KAPI_BITS_PER_LONG_def nth_list_update bit_simps)
qed

lemma length_bitmap_ops [simp]:
  "length (kapi_bitmap_set bm i) = length bm" "length (kapi_bitmap_clear bm i) = length bm"
  by (simp_all add: kapi_bitmap_set_def kapi_bitmap_clear_def)

lemma bitmap_longs_bound: "i < nbits \<Longrightarrow> i div 64 < bitmap_longs nbits"
  by (simp add: bitmap_longs_def KAPI_BITS_PER_LONG_def)

lemma fold_words_eq:
  "n \<le> length bm \<Longrightarrow> fold (\<lambda>i bm. bm[i := v]) [0..<n] bm = replicate n v @ drop n bm"
  using fold_upt_update[of 0 n bm "\<lambda>_. v"] by (simp add: map_replicate_const)

lemma bitmap_bit_set_all:
  assumes "bitmap_longs nbits \<le> length bm" "i < nbits"
  shows "bitmap_bit (kapi_bitmap_set_all bm nbits) i"
  using assms bitmap_longs_bound[OF assms(2)]
  by (simp add: kapi_bitmap_set_all_def fold_words_eq bitmap_bit_def nth_append bit_simps)

lemma bitmap_bit_clear_all:
  assumes "bitmap_longs nbits \<le> length bm" "i < nbits"
  shows "\<not> bitmap_bit (kapi_bitmap_clear_all bm nbits) i"
  using assms bitmap_longs_bound[OF assms(2)]
  by (simp add: kapi_bitmap_clear_all_def fold_words_eq bitmap_bit_def nth_append)

subsection \<open>Searching\<close>

lemma find_in_word_step:
  "find_in_word want val off nbits j =
     (if j < 64 \<and> off + j < nbits then if bit val j = want then Some (off + j) else find_in_word want val off nbits (Suc j)
      else None)"
  by (subst find_in_word.simps) (simp add: KAPI_BITS_PER_LONG_def and_exp_eq_0_iff_not_bit)

lemma find_in_word_None:
  "find_in_word want val off nbits j = None \<longleftrightarrow> (\<forall>i. j \<le> i \<and> i < 64 \<and> off + i < nbits \<longrightarrow> bit val i \<noteq> want)"
proof (induction "64 - j" arbitrary: j)
  case 0
  then show ?case by (subst find_in_word_step) auto
next
  case (Suc d)
  then have IH: "find_in_word want val off nbits (Suc j) = None \<longleftrightarrow>
      (\<forall>i. Suc j \<le> i \<and> i < 64 \<and> off + i < nbits \<longrightarrow> bit val i \<noteq> want)"
    by simp
  have split: "(\<forall>i. j \<le> i \<and> i < 64 \<and> off + i < nbits \<longrightarrow> P i) \<longleftrightarrow>
      (j < 64 \<and> off + j < nbits \<longrightarrow> P j) \<and> (\<forall>i. Suc j \<le> i \<and> i < 64 \<and> off + i < nbits \<longrightarrow> P i)" for P
    by (auto simp: Suc_le_eq) (metis le_neq_implies_less)
  have "(\<forall>i. Suc j \<le> i \<and> i < 64 \<and> off + i < nbits \<longrightarrow> bit val i \<noteq> want)" if "\<not> (j < 64 \<and> off + j < nbits)"
    using that by auto
  then show ?case
    using IH unfolding split by (subst find_in_word_step) auto
qed

lemma find_in_word_Some:
  "find_in_word want val off nbits j = Some k \<Longrightarrow>
   \<exists>i. k = off + i \<and> j \<le> i \<and> i < 64 \<and> k < nbits \<and> bit val i = want \<and> (\<forall>i'. j \<le> i' \<and> i' < i \<longrightarrow> bit val i' \<noteq> want)"
proof (induction "64 - j" arbitrary: j)
  case 0
  then show ?case by (subst (asm) find_in_word_step) simp
next
  case (Suc d)
  show ?case
  proof (cases "bit val j = want")
    case True
    then show ?thesis
      using Suc.prems by (subst (asm) find_in_word_step) (auto split: if_splits)
  next
    case False
    then have "find_in_word want val off nbits (Suc j) = Some k"
      using Suc.prems by (subst (asm) find_in_word_step) (auto split: if_splits)
    moreover have "d = 64 - Suc j" using Suc.hyps(2) by simp
    ultimately obtain i where i: "k = off + i" "Suc j \<le> i" "i < 64" "k < nbits"
        "bit val i = want" "\<forall>i'. Suc j \<le> i' \<and> i' < i \<longrightarrow> bit val i' \<noteq> want"
      using Suc.hyps(1) by blast
    then have "\<forall>i'. j \<le> i' \<and> i' < i \<longrightarrow> bit val i' \<noteq> want"
      using False by (metis Suc_leI le_neq_implies_less)
    then show ?thesis using i by auto
  qed
qed

text \<open>The result of a search: the least position below the limit whose bit is \<open>want\<close>, or \<open>-1\<close>.\<close>

definition first_bit :: "bool \<Rightarrow> (nat \<Rightarrow> bool) \<Rightarrow> nat \<Rightarrow> int \<Rightarrow> bool" where
  "first_bit want f nbits r \<longleftrightarrow>
     (case find (\<lambda>i. f i = want) [0..<nbits] of None \<Rightarrow> r = - 1 | Some k \<Rightarrow> r = int k)"

lemma first_bitI:
  assumes "(r = - 1 \<and> (\<forall>i < nbits. f i \<noteq> want)) \<or> (\<exists>k < nbits. r = int k \<and> f k = want \<and> (\<forall>i < k. f i \<noteq> want))"
  shows "first_bit want f nbits r"
proof (cases "find (\<lambda>i. f i = want) [0..<nbits]")
  case None
  then have "\<forall>i < nbits. f i \<noteq> want" by (auto simp: find_None_iff)
  then show ?thesis using assms None by (auto simp: first_bit_def)
next
  case (Some k)
  then have k: "k < nbits" "f k = want" "\<forall>i < k. f i \<noteq> want"
    by (auto simp: find_Some_iff)
  then have "r = int k" using assms by (metis linorder_neqE_nat)
  then show ?thesis using Some by (simp add: first_bit_def)
qed

lemma find_in_words_spec:
  assumes "\<forall>i < 64. bit v i \<noteq> want" "\<And>k. k < length ws \<Longrightarrow> ws ! k = bm ! (n + k)"
    "\<forall>i < nbits. i div 64 < n + length ws" "\<forall>i < nbits. i < 64 * n \<longrightarrow> bitmap_bit bm i \<noteq> want"
  shows "first_bit want (bitmap_bit bm) nbits (find_in_words want v nbits ws n)"
  using assms
proof (induction ws arbitrary: n)
  case Nil
  have "bitmap_bit bm i \<noteq> want" if "i < nbits" for i
  proof -
    have "i div 64 < n" using Nil(3) that by simp
    then have "i < 64 * n" by (simp add: div_less_iff_less_mult mult.commute)
    then show ?thesis using Nil(4) that by blast
  qed
  then show ?case by (intro first_bitI) simp
next
  case (Cons w ws)
  have w: "w = bm ! n" using Cons.prems(2)[of 0] by simp
  have bits: "bitmap_bit bm (n * 64 + i) = bit w i" if "i < 64" for i
    using that by (simp add: bitmap_bit_def w)
  have rest: "first_bit want (bitmap_bit bm) nbits (find_in_words want v nbits ws (Suc n))"
    if "\<forall>i < 64. n * 64 + i < nbits \<longrightarrow> bit w i \<noteq> want"
  proof (rule Cons.IH[OF assms(1)])
    show "ws ! k = bm ! (Suc n + k)" if "k < length ws" for k
      using Cons.prems(2)[of "Suc k"] that by simp
    show "\<forall>i < nbits. i div 64 < Suc n + length ws" using Cons.prems(3) by simp
    show "\<forall>i < nbits. i < 64 * Suc n \<longrightarrow> bitmap_bit bm i \<noteq> want"
    proof (intro allI impI)
      fix i assume i: "i < nbits" "i < 64 * Suc n"
      show "bitmap_bit bm i \<noteq> want"
      proof (cases "i < 64 * n")
        case False
        then obtain j where "i = n * 64 + j" "j < 64"
          using i(2) by (metis add_less_cancel_left le_add_diff_inverse mult.commute mult_Suc_right not_less add.commute)
        then show ?thesis using bits that i(1) by auto
      qed (use Cons.prems(4) i in blast)
    qed
  qed
  show ?case
  proof (cases "w = v")
    case True
    then show ?thesis using rest assms(1) by simp
  next
    case False
    show ?thesis
    proof (cases "find_in_word want w (n * KAPI_BITS_PER_LONG) nbits 0")
      case None
      then show ?thesis
        using False rest find_in_word_None[of want w "n * KAPI_BITS_PER_LONG" nbits 0] by (simp add: KAPI_BITS_PER_LONG_def)
    next
      case (Some k)
      then obtain i where i: "k = n * 64 + i" "i < 64" "k < nbits" "bit w i = want" "\<forall>i' < i. bit w i' \<noteq> want"
        using find_in_word_Some[of want w "n * KAPI_BITS_PER_LONG" nbits 0 k] by (auto simp: KAPI_BITS_PER_LONG_def)
      have "bitmap_bit bm j \<noteq> want" if "j < k" for j
      proof (cases "j < 64 * n")
        case False
        then have "n * 64 + (j - n * 64) = j" "j - n * 64 < i" using that i(1) by auto
        then show ?thesis using bits[of "j - n * 64"] i by auto
      qed (use Cons.prems(4) that i(3) in auto)
      then show ?thesis
        using Some False i bits[OF i(2)] by (intro first_bitI) auto
    qed
  qed
qed

subsection \<open>Counting\<close>

lemma count_bits_eq: "count_bits v c = c + of_nat (card {i. bit v i})"
proof (induction v c rule: count_bits.induct)
  case (1 v c)
  show ?case
  proof (cases "v = 0")
    case True
    then show ?thesis by (simp add: count_bits.simps)
  next
    case False
    show ?thesis
      using 1[OF False] False card_bits_step[of v] by (subst count_bits.simps) (simp add: and_1_bit)
  qed
qed

text \<open>
  The count is over whole words: bits of the last word beyond \<open>nbits\<close> are counted too, which after
  \<open>kapi_bitmap_set_all\<close> are set as well.
\<close>

lemma kapi_bitmap_count_eq:
  "kapi_bitmap_count bm nbits = of_nat (\<Sum>i < bitmap_longs nbits. card {j. bit (bm ! i) j})"
proof -
  have "fold (\<lambda>i cnt. count_bits (bm ! i) cnt) [0..<n] 0 = of_nat (\<Sum>i < n. card {j. bit (bm ! i) j})" for n
    by (induction n) (simp_all add: count_bits_eq add.commute)
  then show ?thesis by (simp add: kapi_bitmap_count_def)
qed

lemma kapi_bitmap_count_overshoots: "kapi_bitmap_count (kapi_bitmap_set_all [0] 10) 10 = 64"
proof -
  have l: "bitmap_longs 10 = 1" by (simp add: bitmap_longs_def KAPI_BITS_PER_LONG_def)
  have "{j. bit (- 1 :: u64) j} = {..<64}"
    by (auto simp: bit_simps)
  then show ?thesis
    by (simp add: kapi_bitmap_count_eq kapi_bitmap_set_all_def l)
qed

subsection \<open>Properties\<close>

text \<open>The word-wise searches are the bit-wise ones: \<open>kapi_bitmap_find_first\<close> returns the least
  position below \<open>nbits\<close> whose bit is set, \<open>kapi_bitmap_find_first_zero\<close> the least one whose bit is
  clear, and \<open>-1\<close> exactly when there is none, although whole words are skipped and the last word
  may extend beyond \<open>nbits\<close>.\<close>
theorem bitmap_find_first_equiv:
  assumes "bitmap_longs nbits \<le> length bm"
  shows "first_bit True (kapi_bitmap_test bm) nbits (kapi_bitmap_find_first bm nbits) \<and>
    first_bit False (kapi_bitmap_test bm) nbits (kapi_bitmap_find_first_zero bm nbits)"
proof -
  have t: "kapi_bitmap_test bm = bitmap_bit bm" by (rule ext) (rule kapi_bitmap_test_bit)
  have b: "\<forall>i < nbits. i div 64 < 0 + length (take (bitmap_longs nbits) bm)"
    using bitmap_longs_bound assms by auto
  have "first_bit True (bitmap_bit bm) nbits (find_in_words True 0 nbits (take (bitmap_longs nbits) bm) 0)"
    by (rule find_in_words_spec) (use b in auto)
  moreover have "first_bit False (bitmap_bit bm) nbits (find_in_words False (NOT 0) nbits (take (bitmap_longs nbits) bm) 0)"
    by (rule find_in_words_spec) (use b in \<open>auto simp: bit_simps\<close>)
  ultimately show ?thesis
    by (simp add: t kapi_bitmap_find_first_def kapi_bitmap_find_first_zero_def)
qed

theorem bitmap_find_first_equiv_witness:
  "first_bit False (kapi_bitmap_test [NOT 0, 5]) 70 (kapi_bitmap_find_first_zero [NOT 0, 5] 70)"
  using bitmap_find_first_equiv[of 70 "[NOT 0, 5]"] by (simp add: bitmap_longs_def KAPI_BITS_PER_LONG_def)

end
