(* ===== verification/Idr.thy ===== *)
theory Idr
  imports Bitmap
begin

section \<open>Identifier allocation\<close>

text \<open>
  \<open>kernel/api/kapi_idr.c\<close>. An identifier table is the array of 1024 pointers (0 is \<open>NULL\<close>), its
  bitmap, which the code updates with the expressions of \<open>kapi_bitmap_set\<close> and
  \<open>kapi_bitmap_clear\<close>, and the identifier to try next. A null \<open>idr\<close> is \<open>None\<close>.
\<close>

definition KAPI_IDR_MAX :: nat where "KAPI_IDR_MAX = 1024"

record kapi_idr =
  idr_ptr :: "u64 list"
  idr_bitmap :: bitmap
  idr_next_id :: nat

definition kapi_idr_init :: "kapi_idr option \<Rightarrow> int \<times> kapi_idr option" where
  "kapi_idr_init idr =
     (case idr of
        None \<Rightarrow> (KAPI_EINVAL, None)
      | Some s \<Rightarrow> (KAPI_OK, Some (s\<lparr>idr_ptr := replicate KAPI_IDR_MAX 0, idr_bitmap := replicate 16 0, idr_next_id := 0\<rparr>)))"

definition kapi_idr_destroy :: "kapi_idr option \<Rightarrow> kapi_idr option" where
  "kapi_idr_destroy idr =
     map_option (\<lambda>s. s\<lparr>idr_ptr := replicate KAPI_IDR_MAX 0, idr_bitmap := replicate 16 0, idr_next_id := 0\<rparr>) idr"

definition kapi_idr_alloc :: "kapi_idr option \<Rightarrow> u64 \<Rightarrow> int \<times> kapi_idr option" where
  "kapi_idr_alloc idr p =
     (case idr of
        None \<Rightarrow> (KAPI_EINVAL, idr)
      | Some s \<Rightarrow>
          if p = 0 then (KAPI_EINVAL, idr)
          else let ids = map (\<lambda>i. (idr_next_id s + i) mod KAPI_IDR_MAX) [0..<KAPI_IDR_MAX] in
            case find (\<lambda>i. idr_ptr s ! i = 0) ids of
              None \<Rightarrow> (KAPI_ERROR, idr)
            | Some i \<Rightarrow> (int i, Some (s\<lparr>idr_ptr := (idr_ptr s)[i := p], idr_bitmap := kapi_bitmap_set (idr_bitmap s) i,
                           idr_next_id := (i + 1) mod KAPI_IDR_MAX\<rparr>)))"

definition kapi_idr_free :: "kapi_idr option \<Rightarrow> int \<Rightarrow> kapi_idr option" where
  "kapi_idr_free idr i =
     (case idr of
        None \<Rightarrow> None
      | Some s \<Rightarrow>
          if i < 0 \<or> i \<ge> int KAPI_IDR_MAX then idr
          else Some (s\<lparr>idr_ptr := (idr_ptr s)[nat i := 0], idr_bitmap := kapi_bitmap_clear (idr_bitmap s) (nat i)\<rparr>))"

definition kapi_idr_find :: "kapi_idr option \<Rightarrow> int \<Rightarrow> u64" where
  "kapi_idr_find idr i =
     (case idr of None \<Rightarrow> 0 | Some s \<Rightarrow> if i < 0 \<or> i \<ge> int KAPI_IDR_MAX then 0 else idr_ptr s ! nat i)"

definition kapi_idr_alloc_fixed :: "kapi_idr option \<Rightarrow> int \<Rightarrow> u64 \<Rightarrow> int \<times> kapi_idr option" where
  "kapi_idr_alloc_fixed idr i p =
     (case idr of
        None \<Rightarrow> (KAPI_EINVAL, idr)
      | Some s \<Rightarrow>
          if p = 0 \<or> i < 0 \<or> i \<ge> int KAPI_IDR_MAX then (KAPI_EINVAL, idr)
          else if idr_ptr s ! nat i \<noteq> 0 then (KAPI_EBUSY, idr)
          else (i, Some (s\<lparr>idr_ptr := (idr_ptr s)[nat i := p], idr_bitmap := kapi_bitmap_set (idr_bitmap s) (nat i)\<rparr>)))"

subsection \<open>The contract of an identifier table\<close>

text \<open>
  A table maps identifiers to objects, 0 meaning that the identifier is free. Allocation answers
  with a free identifier or, when there is none, with an error; releasing makes one free. What a
  client builds on this is that identifiers in use are never handed out again.
\<close>

fun alloc_all :: "('s \<Rightarrow> u64 \<Rightarrow> int \<times> 's) \<Rightarrow> 's \<Rightarrow> u64 list \<Rightarrow> int list \<times> 's" where
  "alloc_all alloc s [] = ([], s)"
| "alloc_all alloc s (p # ps) = (let (i, s1) = alloc s p; (is, s2) = alloc_all alloc s1 ps in (i # is, s2))"

locale id_table =
  fixes invar :: "'s \<Rightarrow> bool"
    and look :: "'s \<Rightarrow> int \<Rightarrow> u64"
    and alloc :: "'s \<Rightarrow> u64 \<Rightarrow> int \<times> 's"
    and release :: "'s \<Rightarrow> int \<Rightarrow> 's"
    and ids :: "int set"
  assumes alloc_ok: "invar s \<Longrightarrow> p \<noteq> 0 \<Longrightarrow> i \<in> ids \<Longrightarrow> look s i = 0 \<Longrightarrow>
      \<exists>j s'. alloc s p = (j, s') \<and> j \<in> ids \<and> look s j = 0 \<and> invar s' \<and> look s' = (look s)(j := p)"
    and alloc_full: "invar s \<Longrightarrow> \<forall>i \<in> ids. look s i \<noteq> 0 \<Longrightarrow> \<exists>e. e < 0 \<and> alloc s p = (e, s)"
    and release_look: "invar s \<Longrightarrow> i \<in> ids \<Longrightarrow> invar (release s i) \<and> look (release s i) = (look s)(i := 0)"
    and ids_nonneg: "i \<in> ids \<Longrightarrow> 0 \<le> i"
begin

text \<open>As long as identifiers remain, a run of allocations gives distinct ones that lead to their objects.\<close>

lemma alloc_all_distinct:
  assumes "invar s" "0 \<notin> set ps" "finite ids" "length ps \<le> card {i \<in> ids. look s i = 0}"
  shows "\<exists>is s'. alloc_all alloc s ps = (is, s') \<and> invar s' \<and> distinct is \<and> set is \<subseteq> {i \<in> ids. look s i = 0} \<and>
    map (look s') is = ps \<and> (\<forall>i. i \<notin> set is \<longrightarrow> look s' i = look s i)"
  using assms
proof (induction ps arbitrary: s)
  case Nil
  then show ?case by auto
next
  case (Cons p ps)
  have "{i \<in> ids. look s i = 0} \<noteq> {}"
  proof
    assume "{i \<in> ids. look s i = 0} = {}"
    then have "card {i \<in> ids. look s i = 0} = 0" by (simp only: card.empty)
    then show False using Cons.prems(4) by simp
  qed
  then obtain i where "i \<in> ids" "look s i = 0" by blast
  moreover have "p \<noteq> 0" using Cons.prems(2) by auto
  ultimately obtain j s1 where
    j: "alloc s p = (j, s1)" "j \<in> ids" "look s j = 0" "invar s1" "look s1 = (look s)(j := p)"
    using alloc_ok[OF Cons.prems(1)] by blast
  have free: "{i \<in> ids. look s1 i = 0} = {i \<in> ids. look s i = 0} - {j}"
    using j(5) Cons.prems(2) by auto
  have "length ps \<le> card {i \<in> ids. look s1 i = 0}"
    unfolding free using Cons.prems(3,4) j(2,3) by (simp add: card_Diff_singleton)
  with Cons.IH[OF j(4)] Cons.prems(2,3) obtain ks s2 where
    k: "alloc_all alloc s1 ps = (ks, s2)" "invar s2" "distinct ks" "set ks \<subseteq> {i \<in> ids. look s1 i = 0}"
      "map (look s2) ks = ps" "\<forall>i. i \<notin> set ks \<longrightarrow> look s2 i = look s1 i"
    by auto
  have "j \<notin> set ks" using k(4) unfolding free by blast
  then show ?case
    using j k unfolding free by (auto simp: subset_iff)
qed

end

subsection \<open>The table of the kernel is one\<close>

definition idr_ok :: "kapi_idr option \<Rightarrow> bool" where
  "idr_ok idr \<longleftrightarrow> (\<exists>s. idr = Some s \<and> length (idr_ptr s) = KAPI_IDR_MAX \<and> length (idr_bitmap s) = 16 \<and>
     idr_next_id s < KAPI_IDR_MAX \<and> (\<forall>i < KAPI_IDR_MAX. kapi_bitmap_test (idr_bitmap s) i \<longleftrightarrow> idr_ptr s ! i \<noteq> 0))"

lemma idr_okE:
  assumes "idr_ok idr"
  obtains s where "idr = Some s" "length (idr_ptr s) = KAPI_IDR_MAX" "length (idr_bitmap s) = 16"
    "idr_next_id s < KAPI_IDR_MAX" "\<And>i. i < KAPI_IDR_MAX \<Longrightarrow> bitmap_bit (idr_bitmap s) i \<longleftrightarrow> idr_ptr s ! i \<noteq> 0"
  using assms by (auto simp: idr_ok_def kapi_bitmap_test_bit)

lemma idr_ok_init: "idr_ok (snd (kapi_idr_init (Some s)))"
  by (auto simp: idr_ok_def kapi_idr_init_def KAPI_IDR_MAX_def kapi_bitmap_test_bit bitmap_bit_def)

lemma idr_ok_set:
  assumes "idr_ok (Some s)" "i < KAPI_IDR_MAX" "p \<noteq> 0" "n < KAPI_IDR_MAX"
  shows "idr_ok (Some (s\<lparr>idr_ptr := (idr_ptr s)[i := p], idr_bitmap := kapi_bitmap_set (idr_bitmap s) i, idr_next_id := n\<rparr>))"
  using assms by (auto simp: idr_ok_def kapi_bitmap_test_bit bitmap_bit_set KAPI_IDR_MAX_def nth_list_update)

lemma idr_ok_clear:
  assumes "idr_ok (Some s)" "i < KAPI_IDR_MAX"
  shows "idr_ok (Some (s\<lparr>idr_ptr := (idr_ptr s)[i := 0], idr_bitmap := kapi_bitmap_clear (idr_bitmap s) i\<rparr>))"
  using assms by (auto simp: idr_ok_def kapi_bitmap_test_bit bitmap_bit_clear KAPI_IDR_MAX_def nth_list_update)

lemma idr_find_update:
  assumes "length (idr_ptr s) = KAPI_IDR_MAX" "i < KAPI_IDR_MAX" "idr_ptr s' = (idr_ptr s)[i := p]"
  shows "kapi_idr_find (Some s') = (kapi_idr_find (Some s))(int i := p)"
  using assms by (auto simp: fun_eq_iff kapi_idr_find_def nth_list_update)

text \<open>The cyclic scan visits every identifier.\<close>

lemma cyclic_scan:
  assumes "n < KAPI_IDR_MAX"
  shows "set (map (\<lambda>i. (n + i) mod KAPI_IDR_MAX) [0..<KAPI_IDR_MAX]) = {..<KAPI_IDR_MAX}"
proof -
  have "i \<in> (\<lambda>i. (n + i) mod KAPI_IDR_MAX) ` {0..<KAPI_IDR_MAX}" if "i < KAPI_IDR_MAX" for i
  proof (cases "n \<le> i")
    case True
    then show ?thesis using that by (intro image_eqI[of _ _ "i - n"]) auto
  next
    case False
    then have "(n + (KAPI_IDR_MAX - n + i)) mod KAPI_IDR_MAX = i" using that assms by simp
    then show ?thesis using False assms by (intro image_eqI[of _ _ "KAPI_IDR_MAX - n + i"]) auto
  qed
  then show ?thesis by (auto simp: KAPI_IDR_MAX_def)
qed

lemma idr_alloc_spec:
  assumes "idr_ok idr" "p \<noteq> 0" "i < KAPI_IDR_MAX" "kapi_idr_find idr (int i) = 0"
  shows "\<exists>j s'. kapi_idr_alloc idr p = (int j, s') \<and> j < KAPI_IDR_MAX \<and> kapi_idr_find idr (int j) = 0 \<and>
    idr_ok s' \<and> kapi_idr_find s' = (kapi_idr_find idr)(int j := p)"
  using assms(1)
proof (rule idr_okE)
  fix s assume s: "idr = Some s" "length (idr_ptr s) = KAPI_IDR_MAX" "length (idr_bitmap s) = 16" "idr_next_id s < KAPI_IDR_MAX"
  let ?ids = "map (\<lambda>i. (idr_next_id s + i) mod KAPI_IDR_MAX) [0..<KAPI_IDR_MAX]"
  note ids = cyclic_scan[OF s(4)]
  have "idr_ptr s ! i = 0" using assms(3,4) s(1) by (simp add: kapi_idr_find_def)
  then have "find (\<lambda>i. idr_ptr s ! i = 0) ?ids \<noteq> None"
    using assms(3) ids unfolding find_None_iff by blast
  then obtain j where f: "find (\<lambda>i. idr_ptr s ! i = 0) ?ids = Some j" by blast
  then have "j \<in> set ?ids" "idr_ptr s ! j = 0"
    unfolding find_Some_iff by (metis nth_mem)+
  then have j: "j < KAPI_IDR_MAX" "idr_ptr s ! j = 0" using ids by blast+
  let ?s = "s\<lparr>idr_ptr := (idr_ptr s)[j := p], idr_bitmap := kapi_bitmap_set (idr_bitmap s) j, idr_next_id := (j + 1) mod KAPI_IDR_MAX\<rparr>"
  have "kapi_idr_alloc idr p = (int j, Some ?s)"
    using f assms(2) s(1) by (simp add: kapi_idr_alloc_def Let_def)
  moreover have "idr_ok (Some ?s)"
    using assms(1,2) s(1) j(1) by (intro idr_ok_set) (auto simp: KAPI_IDR_MAX_def)
  moreover have "kapi_idr_find (Some ?s) = (kapi_idr_find idr)(int j := p)"
    unfolding s(1) by (rule idr_find_update[OF s(2) j(1)]) simp
  moreover have "kapi_idr_find idr (int j) = 0"
    using j s(1) by (simp add: kapi_idr_find_def)
  ultimately show ?thesis using j(1) by blast
qed

lemma idr_alloc_full:
  assumes "idr_ok idr" "\<forall>i < KAPI_IDR_MAX. kapi_idr_find idr (int i) \<noteq> 0"
  shows "\<exists>e. e < 0 \<and> kapi_idr_alloc idr p = (e, idr)"
  using assms(1)
proof (rule idr_okE)
  fix s assume s: "idr = Some s" "length (idr_ptr s) = KAPI_IDR_MAX" "idr_next_id s < KAPI_IDR_MAX"
  let ?ids = "map (\<lambda>i. (idr_next_id s + i) mod KAPI_IDR_MAX) [0..<KAPI_IDR_MAX]"
  have "find (\<lambda>i. idr_ptr s ! i = 0) ?ids = None"
    using assms(2) cyclic_scan[OF s(3)] s(1) unfolding find_None_iff by (auto simp: kapi_idr_find_def simp del: set_map)
  then show ?thesis using s(1) by (simp add: kapi_idr_alloc_def Let_def)
qed

interpretation idr: id_table idr_ok kapi_idr_find kapi_idr_alloc kapi_idr_free "int ` {..<KAPI_IDR_MAX}"
proof
  fix s p i assume "idr_ok s" "(p :: u64) \<noteq> 0" "i \<in> int ` {..<KAPI_IDR_MAX}" "kapi_idr_find s i = 0"
  then show "\<exists>j s'. kapi_idr_alloc s p = (j, s') \<and> j \<in> int ` {..<KAPI_IDR_MAX} \<and> kapi_idr_find s j = 0 \<and>
      idr_ok s' \<and> kapi_idr_find s' = (kapi_idr_find s)(j := p)"
    using idr_alloc_spec[of s p] by auto blast
next
  fix s p assume "idr_ok s" "\<forall>i \<in> int ` {..<KAPI_IDR_MAX}. kapi_idr_find s i \<noteq> 0"
  then show "\<exists>e < 0. kapi_idr_alloc s p = (e, s)"
    using idr_alloc_full[of s p] by auto
next
  fix s i assume ok: "idr_ok s" and "i \<in> int ` {..<KAPI_IDR_MAX}"
  then obtain k where k: "i = int k" "k < KAPI_IDR_MAX" by auto
  from ok show "idr_ok (kapi_idr_free s i) \<and> kapi_idr_find (kapi_idr_free s i) = (kapi_idr_find s)(i := 0)"
  proof (rule idr_okE)
    fix t assume t: "s = Some t" "length (idr_ptr t) = KAPI_IDR_MAX"
    let ?t = "t\<lparr>idr_ptr := (idr_ptr t)[k := 0], idr_bitmap := kapi_bitmap_clear (idr_bitmap t) k\<rparr>"
    have "kapi_idr_free s i = Some ?t"
      using k t(1) by (simp add: kapi_idr_free_def)
    moreover have "idr_ok (Some ?t)"
      using ok t(1) k(2) by (intro idr_ok_clear) auto
    moreover have "kapi_idr_find (Some ?t) = (kapi_idr_find (Some t))(int k := 0)"
      by (rule idr_find_update[OF t(2) k(2)]) simp
    ultimately show ?thesis using t(1) k(1) by simp
  qed
qed auto

lemma kapi_idr_alloc_fixed_spec:
  assumes "idr_ok idr"
  shows "kapi_idr_alloc_fixed idr i p =
    (if p = 0 \<or> i < 0 \<or> int KAPI_IDR_MAX \<le> i then (KAPI_EINVAL, idr)
     else if kapi_idr_find idr i \<noteq> 0 then (KAPI_EBUSY, idr) else (i, snd (kapi_idr_alloc_fixed idr i p))) \<and>
    idr_ok (snd (kapi_idr_alloc_fixed idr i p))"
  using assms
proof (rule idr_okE)
  fix s assume s: "idr = Some s" "idr_next_id s < KAPI_IDR_MAX"
  have "idr_ok (Some (s\<lparr>idr_ptr := (idr_ptr s)[nat i := p], idr_bitmap := kapi_bitmap_set (idr_bitmap s) (nat i)\<rparr>))"
    if "p \<noteq> 0" "0 \<le> i" "i < int KAPI_IDR_MAX"
    using idr_ok_set[of s "nat i" p "idr_next_id s"] that assms s by simp
  then show ?thesis
    using assms s(1) by (auto simp: kapi_idr_alloc_fixed_def kapi_idr_find_def)
qed

subsection \<open>Properties\<close>

text \<open>C29. Identifiers are unique: from a well-formed table, any run of allocations of non-null
  objects that fits the free identifiers returns pairwise different identifiers, each of which was
  free and now leads to its own object, and every other identifier keeps its object. The bitmap
  and the pointers agree before and after.\<close>
theorem idr_unique_ids:
  assumes "idr_ok s" "0 \<notin> set ps" "length ps \<le> card {i \<in> int ` {..<KAPI_IDR_MAX}. kapi_idr_find s i = 0}"
  shows "\<exists>is s'. alloc_all kapi_idr_alloc s ps = (is, s') \<and> idr_ok s' \<and> distinct is \<and>
    set is \<subseteq> {i \<in> int ` {..<KAPI_IDR_MAX}. kapi_idr_find s i = 0} \<and>
    map (kapi_idr_find s') is = ps \<and> (\<forall>i. i \<notin> set is \<longrightarrow> kapi_idr_find s' i = kapi_idr_find s i)"
  using idr.alloc_all_distinct[OF assms(1,2) _ assms(3)] by simp

theorem idr_unique_ids_witness:
  "\<exists>is s'. alloc_all kapi_idr_alloc (snd (kapi_idr_init (Some \<lparr>idr_ptr = [], idr_bitmap = [], idr_next_id = 0\<rparr>))) [10, 20] = (is, s') \<and>
     distinct is \<and> map (kapi_idr_find s') is = [10, 20]"
proof -
  let ?s = "snd (kapi_idr_init (Some \<lparr>idr_ptr = [], idr_bitmap = [], idr_next_id = 0\<rparr>))"
  have "{i \<in> int ` {..<KAPI_IDR_MAX}. kapi_idr_find ?s i = 0} = int ` {..<KAPI_IDR_MAX}"
    by (auto simp: kapi_idr_init_def kapi_idr_find_def)
  then have "length [10, 20 :: u64] \<le> card {i \<in> int ` {..<KAPI_IDR_MAX}. kapi_idr_find ?s i = 0}"
    by (simp add: card_image KAPI_IDR_MAX_def)
  from idr_unique_ids[OF idr_ok_init _ this] show ?thesis by auto
qed

end
