(* ===== verification/Cpumask.thy ===== *)
theory Cpumask
  imports Bitmap
begin

section \<open>CPU masks\<close>

text \<open>
  \<open>kernel/api/kapi_cpumask.c\<close>. A mask is the list of its words, a null pointer is \<open>None\<close>, and
  a CPU number is an integer that is checked against \<open>KAPI_NR_CPUS\<close>; \<open>cpu >> 6\<close> and \<open>cpu & 63\<close> of
  a checked number are its quotient and remainder by 64.
\<close>

definition KAPI_NR_CPUS :: nat where "KAPI_NR_CPUS = 64"

type_synonym kapi_cpumask = "u64 list option"

definition cpu_ok :: "int \<Rightarrow> bool" where
  "cpu_ok cpu \<longleftrightarrow> cpu \<ge> 0 \<and> cpu < int KAPI_NR_CPUS"

definition kapi_cpumask_clear :: "kapi_cpumask \<Rightarrow> kapi_cpumask" where
  "kapi_cpumask_clear m = map_option (\<lambda>bits. map (\<lambda>_. 0) bits) m"

definition kapi_cpumask_set_cpu :: "int \<Rightarrow> kapi_cpumask \<Rightarrow> kapi_cpumask" where
  "kapi_cpumask_set_cpu cpu m =
     (case m of None \<Rightarrow> None
      | Some bits \<Rightarrow> if cpu_ok cpu then Some (bits[nat cpu div 64 := bits ! (nat cpu div 64) OR push_bit (nat cpu mod 64) 1]) else m)"

definition kapi_cpumask_clear_cpu :: "int \<Rightarrow> kapi_cpumask \<Rightarrow> kapi_cpumask" where
  "kapi_cpumask_clear_cpu cpu m =
     (case m of None \<Rightarrow> None
      | Some bits \<Rightarrow> if cpu_ok cpu then Some (bits[nat cpu div 64 := bits ! (nat cpu div 64) AND NOT (push_bit (nat cpu mod 64) 1)]) else m)"

definition kapi_cpumask_test_cpu :: "int \<Rightarrow> kapi_cpumask \<Rightarrow> bool" where
  "kapi_cpumask_test_cpu cpu m =
     (case m of None \<Rightarrow> False
      | Some bits \<Rightarrow> cpu_ok cpu \<and> drop_bit (nat cpu mod 64) (bits ! (nat cpu div 64)) AND 1 = 1)"

text \<open>The loop \<open>for (i = from; i < KAPI_NR_CPUS; i++)\<close> that looks for a CPU in the mask.\<close>

function cpumask_scan :: "int \<Rightarrow> kapi_cpumask \<Rightarrow> int" where
  "cpumask_scan i m =
     (if i < int KAPI_NR_CPUS then if kapi_cpumask_test_cpu i m then i else cpumask_scan (i + 1) m else int KAPI_NR_CPUS)"
  by pat_completeness auto
termination
  by (relation "measure (\<lambda>(i, _). nat (int KAPI_NR_CPUS - i))") auto

declare cpumask_scan.simps [simp del]

definition kapi_cpumask_first :: "kapi_cpumask \<Rightarrow> int" where
  "kapi_cpumask_first m = (if m = None then int KAPI_NR_CPUS else cpumask_scan 0 m)"

definition kapi_cpumask_next :: "int \<Rightarrow> kapi_cpumask \<Rightarrow> int" where
  "kapi_cpumask_next cpu m = (if m = None then int KAPI_NR_CPUS else cpumask_scan (cpu + 1) m)"

definition kapi_cpumask_empty :: "kapi_cpumask \<Rightarrow> bool" where
  "kapi_cpumask_empty m =
     (case m of None \<Rightarrow> True | Some bits \<Rightarrow> \<not> list_ex (\<lambda>i. bits ! i \<noteq> 0) [0..<KAPI_NR_CPUS div 64])"

definition kapi_cpumask_full :: "kapi_cpumask \<Rightarrow> bool" where
  "kapi_cpumask_full m = (m \<noteq> None \<and> list_all (\<lambda>i. kapi_cpumask_test_cpu (int i) m) [0..<KAPI_NR_CPUS])"

definition kapi_cpumask_weight :: "kapi_cpumask \<Rightarrow> nat" where
  "kapi_cpumask_weight m =
     (if m = None then 0
      else fold (\<lambda>i w. if kapi_cpumask_test_cpu (int i) m then w + 1 else w) [0..<KAPI_NR_CPUS] 0)"

definition kapi_cpumask_setall :: "kapi_cpumask \<Rightarrow> kapi_cpumask" where
  "kapi_cpumask_setall m = map_option (\<lambda>bits. map (\<lambda>_. NOT 0) bits) m"

definition cpumask_op :: "(u64 \<Rightarrow> u64 \<Rightarrow> u64) \<Rightarrow> kapi_cpumask \<Rightarrow> kapi_cpumask \<Rightarrow> kapi_cpumask \<Rightarrow> kapi_cpumask" where
  "cpumask_op f dst src1 src2 =
     (case (dst, src1, src2) of
        (Some d, Some a, Some b) \<Rightarrow> Some (fold (\<lambda>i d. d[i := f (a ! i) (b ! i)]) [0..<KAPI_NR_CPUS div 64] d)
      | _ \<Rightarrow> dst)"

definition kapi_cpumask_and :: "kapi_cpumask \<Rightarrow> kapi_cpumask \<Rightarrow> kapi_cpumask \<Rightarrow> kapi_cpumask" where
  "kapi_cpumask_and dst src1 src2 = cpumask_op (AND) dst src1 src2"

definition kapi_cpumask_or :: "kapi_cpumask \<Rightarrow> kapi_cpumask \<Rightarrow> kapi_cpumask \<Rightarrow> kapi_cpumask" where
  "kapi_cpumask_or dst src1 src2 = cpumask_op (OR) dst src1 src2"

subsection \<open>A mask is a set of CPUs\<close>

definition cpumask_ok :: "kapi_cpumask \<Rightarrow> bool" where
  "cpumask_ok m \<longleftrightarrow> (\<exists>bits. m = Some bits \<and> length bits = KAPI_NR_CPUS div 64)"

definition cpus :: "kapi_cpumask \<Rightarrow> int set" where
  "cpus m = {i. kapi_cpumask_test_cpu i m}"

lemma test_cpu_bit: "kapi_cpumask_test_cpu i (Some bits) \<longleftrightarrow> cpu_ok i \<and> bitmap_bit bits (nat i)"
  by (simp add: kapi_cpumask_test_cpu_def bitmap_bit_def and_one_eq bit_iff_odd_drop_bit mod_2_eq_odd)

lemma cpus_Some: "cpus (Some bits) = {i. cpu_ok i \<and> bitmap_bit bits (nat i)}"
  by (simp add: cpus_def test_cpu_bit)

lemma cpus_cpu_ok: "i \<in> cpus m \<Longrightarrow> cpu_ok i"
  by (cases m) (auto simp: cpus_def kapi_cpumask_test_cpu_def)

lemma cpus_image: "cpus m = int ` {i. i < KAPI_NR_CPUS \<and> int i \<in> cpus m}"
proof -
  have "x \<in> int ` {i. i < KAPI_NR_CPUS \<and> int i \<in> cpus m}" if "x \<in> cpus m" for x
    using that cpus_cpu_ok[OF that] by (intro image_eqI[of _ _ "nat x"]) (auto simp: cpu_ok_def)
  then show ?thesis by blast
qed

lemma finite_cpus [simp]: "finite (cpus m)"
  by (rule finite_subset[of _ "{0..<int KAPI_NR_CPUS}"]) (auto dest: cpus_cpu_ok simp: cpu_ok_def)

lemma cpus_set_cpu:
  assumes "cpumask_ok m"
  shows "cpumask_ok (kapi_cpumask_set_cpu i m) \<and> cpus (kapi_cpumask_set_cpu i m) = cpus m \<union> {j. j = i \<and> cpu_ok i}"
proof -
  obtain bits where b: "m = Some bits" "length bits = KAPI_NR_CPUS div 64" using assms by (auto simp: cpumask_ok_def)
  have e: "kapi_cpumask_set_cpu i (Some bits) = Some (if cpu_ok i then kapi_bitmap_set bits (nat i) else bits)"
    by (simp add: kapi_cpumask_set_cpu_def kapi_bitmap_set_def KAPI_BITS_PER_LONG_def)
  show ?thesis
    using b(2) unfolding b(1) e cpus_Some
    by (auto simp: cpumask_ok_def bitmap_bit_set cpu_ok_def KAPI_NR_CPUS_def)
qed

lemma cpus_clear_cpu:
  assumes "cpumask_ok m"
  shows "cpumask_ok (kapi_cpumask_clear_cpu i m) \<and> cpus (kapi_cpumask_clear_cpu i m) = cpus m - {i}"
proof -
  obtain bits where b: "m = Some bits" "length bits = KAPI_NR_CPUS div 64" using assms by (auto simp: cpumask_ok_def)
  have e: "kapi_cpumask_clear_cpu i (Some bits) = Some (if cpu_ok i then kapi_bitmap_clear bits (nat i) else bits)"
    by (simp add: kapi_cpumask_clear_cpu_def kapi_bitmap_clear_def KAPI_BITS_PER_LONG_def)
  show ?thesis
    using b(2) unfolding b(1) e cpus_Some
    by (auto simp: cpumask_ok_def bitmap_bit_clear cpu_ok_def KAPI_NR_CPUS_def)
qed

lemma cpus_op:
  assumes "cpumask_ok d" "cpumask_ok a" "cpumask_ok b" "\<And>x y k. bit (f x y) k = g (bit x k) (bit y k)"
  shows "cpumask_ok (cpumask_op f d a b) \<and>
    cpus (cpumask_op f d a b) = {i. cpu_ok i \<and> g (i \<in> cpus a) (i \<in> cpus b)}"
proof -
  obtain ds as bs where v: "d = Some ds" "a = Some as" "b = Some bs" "length ds = 1" "length as = 1" "length bs = 1"
    using assms(1-3) by (auto simp: cpumask_ok_def KAPI_NR_CPUS_def)
  have e: "cpumask_op f (Some ds) (Some as) (Some bs) = Some [f (as ! 0) (bs ! 0)]"
    using v(4-6) by (cases ds) (auto simp: cpumask_op_def KAPI_NR_CPUS_def)
  show ?thesis
    unfolding v(1-3) e cpus_Some by (auto simp: cpumask_ok_def KAPI_NR_CPUS_def bitmap_bit_def cpu_ok_def assms(4))
qed

lemma cpus_const:
  assumes "cpumask_ok m"
  shows "cpus (kapi_cpumask_clear m) = {}" "cpus (kapi_cpumask_setall m) = {i. cpu_ok i}"
    "cpumask_ok (kapi_cpumask_clear m)" "cpumask_ok (kapi_cpumask_setall m)"
  using assms by (auto simp: cpumask_ok_def cpus_Some kapi_cpumask_clear_def kapi_cpumask_setall_def bitmap_bit_def
      cpu_ok_def KAPI_NR_CPUS_def bit_simps)

lemma cpumask_scan_spec:
  "cpumask_scan i m = (if \<exists>j \<in> cpus m. i \<le> j then Min {j \<in> cpus m. i \<le> j} else int KAPI_NR_CPUS)"
proof (induction i m rule: cpumask_scan.induct)
  case (1 i m)
  have none: "\<not> (\<exists>j \<in> cpus m. i \<le> j)" if "\<not> i < int KAPI_NR_CPUS"
    using that cpus_cpu_ok[of _ m] by (force simp: cpu_ok_def)
  show ?case
  proof (cases "kapi_cpumask_test_cpu i m")
    case True
    then have i: "i \<in> cpus m" by (simp add: cpus_def)
    then have "Min {j \<in> cpus m. i \<le> j} = i" by (intro Min_eqI) auto
    moreover have "i < int KAPI_NR_CPUS" using cpus_cpu_ok[OF i] by (simp add: cpu_ok_def)
    ultimately show ?thesis using True i by (subst cpumask_scan.simps) auto
  next
    case False
    then have "i \<notin> cpus m" by (simp add: cpus_def)
    then have "{j \<in> cpus m. i \<le> j} = {j \<in> cpus m. i + 1 \<le> j}"
      by (auto simp: add1_zle_eq order_le_less)
    moreover from this have "(\<exists>j \<in> cpus m. i \<le> j) \<longleftrightarrow> (\<exists>j \<in> cpus m. i + 1 \<le> j)" by blast
    ultimately show ?thesis
      using 1 False none by (subst cpumask_scan.simps) auto
  qed
qed

lemma cpus_weight: "m \<noteq> None \<Longrightarrow> kapi_cpumask_weight m = card (cpus m)"
proof -
  assume m: "m \<noteq> None"
  have "fold (\<lambda>i w. if kapi_cpumask_test_cpu (int i) m then w + 1 else w) [0..<n] 0 = card {i. i < n \<and> int i \<in> cpus m}" for n
  proof (induction n)
    case (Suc n)
    have "{i. i < Suc n \<and> int i \<in> cpus m} = {i. i < n \<and> int i \<in> cpus m} \<union> (if int n \<in> cpus m then {n} else {})"
      by (auto simp: less_Suc_eq)
    then show ?case using Suc by (simp add: cpus_def)
  qed simp
  moreover have "card (cpus m) = card {i. i < KAPI_NR_CPUS \<and> int i \<in> cpus m}"
    by (subst cpus_image) (simp add: card_image)
  ultimately show ?thesis using m unfolding kapi_cpumask_weight_def by (simp del: not_None_eq)
qed

lemma cpus_empty_full:
  assumes "cpumask_ok m"
  shows "kapi_cpumask_empty m \<longleftrightarrow> cpus m = {}" "kapi_cpumask_full m \<longleftrightarrow> cpus m = {i. cpu_ok i}"
proof -
  obtain w where w: "m = Some [w]"
    using assms by (auto simp: cpumask_ok_def KAPI_NR_CPUS_def length_Suc_conv)
  have "i < KAPI_NR_CPUS \<and> int i \<in> cpus m \<longleftrightarrow> bit w i" for i
    using bit_imp_le_length[of w i] unfolding w cpus_Some by (auto simp: bitmap_bit_def cpu_ok_def KAPI_NR_CPUS_def)
  then have "cpus m = int ` {i. bit w i}"
    by (subst cpus_image) simp
  moreover have "w = 0 \<longleftrightarrow> {i. bit w i} = {}"
    using bit_eqI[of w 0] by auto
  ultimately show "kapi_cpumask_empty m \<longleftrightarrow> cpus m = {}"
    by (simp add: kapi_cpumask_empty_def w KAPI_NR_CPUS_def)
  have "cpus m = {i. cpu_ok i} \<longleftrightarrow> (\<forall>i < KAPI_NR_CPUS. int i \<in> cpus m)"
    using cpus_cpu_ok[of _ m] by (auto simp: cpu_ok_def) (metis int_nat_eq nat_less_iff)
  then show "kapi_cpumask_full m \<longleftrightarrow> cpus m = {i. cpu_ok i}"
    by (simp add: kapi_cpumask_full_def w list_all_iff cpus_def Ball_def)
qed

subsection \<open>Properties\<close>

text \<open>CPU masks are sets of CPU numbers: clearing, setting all, setting or clearing one CPU,
  intersection and union act on the set of CPUs in the mask as their names say (a number out of
  range changes nothing), the tests for empty and full and the weight are those of the set, and
  \<open>first\<close> and \<open>next\<close> give its least element, at all or above the given one, or \<open>KAPI_NR_CPUS\<close>.\<close>
theorem cpumask_refines_sets:
  assumes "cpumask_ok m" "cpumask_ok a" "cpumask_ok b"
  shows "cpus (kapi_cpumask_clear m) = {} \<and> cpus (kapi_cpumask_setall m) = {i. cpu_ok i} \<and>
    cpus (kapi_cpumask_set_cpu i m) = cpus m \<union> {j. j = i \<and> cpu_ok i} \<and>
    cpus (kapi_cpumask_clear_cpu i m) = cpus m - {i} \<and>
    cpus (kapi_cpumask_and m a b) = cpus a \<inter> cpus b \<and> cpus (kapi_cpumask_or m a b) = cpus a \<union> cpus b \<and>
    (kapi_cpumask_empty m \<longleftrightarrow> cpus m = {}) \<and> (kapi_cpumask_full m \<longleftrightarrow> cpus m = {i. cpu_ok i}) \<and>
    kapi_cpumask_weight m = card (cpus m) \<and>
    kapi_cpumask_first m = (if cpus m = {} then int KAPI_NR_CPUS else Min (cpus m)) \<and>
    kapi_cpumask_next i m = (if \<exists>j \<in> cpus m. i < j then Min {j \<in> cpus m. i < j} else int KAPI_NR_CPUS)"
proof -
  have "cpus (kapi_cpumask_and m a b) = {i. cpu_ok i \<and> (i \<in> cpus a \<and> i \<in> cpus b)}"
    unfolding kapi_cpumask_and_def using cpus_op[OF assms, of "(AND)" "(\<and>)"] by (simp add: bit_simps)
  moreover have "cpus (kapi_cpumask_or m a b) = {i. cpu_ok i \<and> (i \<in> cpus a \<or> i \<in> cpus b)}"
    unfolding kapi_cpumask_or_def using cpus_op[OF assms, of "(OR)" "(\<or>)"] by (simp add: bit_simps)
  moreover have "m \<noteq> None" using assms(1) by (auto simp: cpumask_ok_def)
  moreover have "{j \<in> cpus m. 0 \<le> j} = cpus m" using cpus_cpu_ok[of _ m] by (auto simp: cpu_ok_def)
  then have "kapi_cpumask_first m = (if cpus m = {} then int KAPI_NR_CPUS else Min (cpus m))"
    using \<open>m \<noteq> None\<close> cpumask_scan_spec[of 0 m] by (auto simp: kapi_cpumask_first_def)
  moreover have "kapi_cpumask_next i m = (if \<exists>j \<in> cpus m. i < j then Min {j \<in> cpus m. i < j} else int KAPI_NR_CPUS)"
    using \<open>m \<noteq> None\<close> cpumask_scan_spec[of "i + 1" m] unfolding kapi_cpumask_next_def by (simp add: add1_zle_eq del: not_None_eq)
  moreover have "cpus a \<inter> cpus b = {i. cpu_ok i \<and> (i \<in> cpus a \<and> i \<in> cpus b)}"
    "cpus a \<union> cpus b = {i. cpu_ok i \<and> (i \<in> cpus a \<or> i \<in> cpus b)}"
    using cpus_cpu_ok by blast+
  ultimately show ?thesis
    using cpus_const[OF assms(1)] cpus_set_cpu[OF assms(1), of i] cpus_clear_cpu[OF assms(1), of i]
      cpus_empty_full[OF assms(1)] cpus_weight by simp
qed

theorem cpumask_refines_sets_witness:
  "cpumask_ok (Some [6]) \<and> kapi_cpumask_weight (Some [6]) = card (cpus (Some [6])) \<and>
   cpus (kapi_cpumask_set_cpu 9 (Some [6])) = cpus (Some [6]) \<union> {j. j = 9 \<and> cpu_ok 9}"
proof -
  have "cpumask_ok (Some [6])" by (simp add: cpumask_ok_def KAPI_NR_CPUS_def)
  from cpumask_refines_sets[OF this this this, of 9] this show ?thesis by (simp only: simp_thms)
qed

end
