(* ===== verification/Kapi_Sort.thy ===== *)
theory Kapi_Sort
  imports Libc_String
begin

section \<open>Sorting\<close>

text \<open>
  \<open>kernel/api/kapi_sort.c\<close>. The array \<open>base\<close> of \<open>num\<close> elements is the list of its elements, the
  element \<open>i\<close> standing for the \<open>size\<close> bytes at \<open>base + i * size\<close>; \<open>kapi_swap\<close> is modelled on bytes
  and shown to exchange two elements. A null base or comparison function is \<open>None\<close>. The
  partitioning loop and the recursion of quicksort are partial functions, \<open>None\<close> when they do not
  return.
\<close>

subsection \<open>Swapping\<close>

function kapi_swap :: "u8 list \<Rightarrow> nat \<Rightarrow> nat \<Rightarrow> nat \<Rightarrow> u8 list" where
  "kapi_swap mem a b sz =
     (if sz > 0
      then let chunk = (if sz > 256 then 256 else sz);
               tmp = memcpy (replicate 256 0) 0 mem a chunk;
               mem1 = memcpy mem a mem b chunk;
               mem2 = memcpy mem1 b tmp 0 chunk
           in kapi_swap mem2 (a + chunk) (b + chunk) (sz - chunk)
      else mem)"
  by pat_completeness auto
termination
  by (relation "measure (\<lambda>(_, _, _, sz). sz)") auto

declare kapi_swap.simps [simp del]

definition swap_elems :: "'a list \<Rightarrow> nat \<Rightarrow> nat \<Rightarrow> 'a list" where
  "swap_elems xs i j = xs[i := xs ! j, j := xs ! i]"

subsection \<open>Heap sort\<close>

function kapi_sift_down :: "('a \<Rightarrow> 'a \<Rightarrow> int) \<Rightarrow> 'a list \<Rightarrow> nat \<Rightarrow> nat \<Rightarrow> 'a list" where
  "kapi_sift_down cmp xs root num =
     (let child = 2 * root + 1 in
      if child \<ge> num then xs
      else let c = (if child + 1 < num \<and> cmp (xs ! (child + 1)) (xs ! child) > 0 then child + 1 else child) in
        if cmp (xs ! c) (xs ! root) \<le> 0 then xs
        else kapi_sift_down cmp (swap_elems xs root c) c num)"
  by pat_completeness auto
termination
  by (relation "measure (\<lambda>(_, _, root, num). num - root)") (auto simp: Let_def)

declare kapi_sift_down.simps [simp del]

definition kapi_heapsort :: "('a \<Rightarrow> 'a \<Rightarrow> int) option \<Rightarrow> 'a list option \<Rightarrow> 'a list option" where
  "kapi_heapsort cmpf base =
     (case (cmpf, base) of
        (Some cmp, Some xs) \<Rightarrow>
          if length xs < 2 then base
          else let num = length xs;
                   xs1 = fold (\<lambda>i xs. kapi_sift_down cmp xs (i - 1) num) (rev [1..<Suc (num div 2)]) xs
            in Some (fold (\<lambda>i xs. kapi_sift_down cmp (swap_elems xs 0 i) 0 i) (rev [1..<num]) xs1)
      | _ \<Rightarrow> base)"

subsection \<open>Quicksort\<close>

function qsort_scan_up :: "('a \<Rightarrow> 'a \<Rightarrow> int) \<Rightarrow> nat \<Rightarrow> nat \<Rightarrow> 'a list \<Rightarrow> nat \<Rightarrow> nat" where
  "qsort_scan_up cmp pivot high xs i =
     (if i \<le> high \<and> cmp (xs ! i) (xs ! pivot) \<le> 0 then qsort_scan_up cmp pivot high xs (i + 1) else i)"
  by pat_completeness auto
termination
  by (relation "measure (\<lambda>(_, _, high, _, i). Suc high - i)") auto

function qsort_scan_down :: "('a \<Rightarrow> 'a \<Rightarrow> int) \<Rightarrow> nat \<Rightarrow> nat \<Rightarrow> 'a list \<Rightarrow> nat \<Rightarrow> nat" where
  "qsort_scan_down cmp pivot low xs j =
     (if j > low \<and> cmp (xs ! j) (xs ! pivot) > 0 then qsort_scan_down cmp pivot low xs (j - 1) else j)"
  by pat_completeness auto
termination
  by (relation "measure (\<lambda>(_, _, _, _, j). j)") auto

declare qsort_scan_up.simps [simp del] qsort_scan_down.simps [simp del]

partial_function (option) qsort_partition ::
  "('a \<Rightarrow> 'a \<Rightarrow> int) \<Rightarrow> nat \<Rightarrow> nat \<Rightarrow> 'a list \<Rightarrow> nat \<Rightarrow> nat \<Rightarrow> ('a list \<times> nat) option" where
  "qsort_partition cmp low high xs i j =
     (if i \<le> j
      then let i' = qsort_scan_up cmp low high xs i; j' = qsort_scan_down cmp low low xs j
        in if i' < j' then qsort_partition cmp low high (swap_elems xs i' j') i' j'
           else qsort_partition cmp low high xs i' j'
      else Some (xs, j))"

partial_function (option) kapi_qsort_internal ::
  "('a \<Rightarrow> 'a \<Rightarrow> int) \<Rightarrow> 'a list \<Rightarrow> nat \<Rightarrow> nat \<Rightarrow> 'a list option" where
  "kapi_qsort_internal cmp xs low high =
     (if low \<ge> high then Some xs
      else Option.bind (qsort_partition cmp low high xs (low + 1) high) (\<lambda>(xs1, j).
        let xs2 = (if j > low then swap_elems xs1 low j else xs1) in
        Option.bind (if j > 0 then kapi_qsort_internal cmp xs2 low (j - 1) else Some xs2) (\<lambda>xs3.
          kapi_qsort_internal cmp xs3 (j + 1) high)))"

definition kapi_qsort :: "('a \<Rightarrow> 'a \<Rightarrow> int) option \<Rightarrow> 'a list option \<Rightarrow> 'a list option option" where
  "kapi_qsort cmpf base =
     (case (cmpf, base) of
        (Some cmp, Some xs) \<Rightarrow>
          if length xs < 2 then Some base
          else map_option Some (kapi_qsort_internal cmp xs 0 (length xs - 1))
      | _ \<Rightarrow> Some base)"

definition kapi_sort :: "('a \<Rightarrow> 'a \<Rightarrow> int) option \<Rightarrow> 'a list option \<Rightarrow> 'a list option option" where
  "kapi_sort cmpf base = kapi_qsort cmpf base"

subsection \<open>Insertion sort\<close>

fun insert_shift :: "('a \<Rightarrow> 'a \<Rightarrow> int) \<Rightarrow> 'a \<Rightarrow> 'a list \<Rightarrow> nat \<Rightarrow> 'a list \<times> nat" where
  "insert_shift cmp tmp xs 0 = (xs, 0)"
| "insert_shift cmp tmp xs (Suc j) =
     (if cmp (xs ! j) tmp > 0 then insert_shift cmp tmp (xs[Suc j := xs ! j]) j else (xs, Suc j))"

definition insert_step :: "('a \<Rightarrow> 'a \<Rightarrow> int) \<Rightarrow> nat \<Rightarrow> 'a list \<Rightarrow> 'a list" where
  "insert_step cmp i xs = (let tmp = xs ! i; (xs', j) = insert_shift cmp tmp xs i in xs'[j := tmp])"

text \<open>
  Unlike \<open>kapi_swap\<close>, \<open>kapi_insertsort\<close> copies an element of \<open>size\<close> bytes into its 256-byte \<open>tmp\<close> in one piece; for a
  larger element the copy runs over the stack, which is the outer \<open>None\<close>.
\<close>

definition kapi_insertsort :: "nat \<Rightarrow> ('a \<Rightarrow> 'a \<Rightarrow> int) option \<Rightarrow> 'a list option \<Rightarrow> 'a list option option" where
  "kapi_insertsort sz cmpf base =
     (case (cmpf, base) of
        (Some cmp, Some xs) \<Rightarrow>
          if length xs < 2 then Some base
          else if sz > 256 then None
          else Some (Some (fold (insert_step cmp) [1..<length xs] xs))
      | _ \<Rightarrow> Some base)"

definition kapi_list_sort :: "'h \<Rightarrow> 'h" where
  "kapi_list_sort head = head"

subsection \<open>Exchanging elements\<close>

lemma length_swap_elems [simp]: "length (swap_elems xs i j) = length xs"
  by (simp add: swap_elems_def)

lemma nth_swap_elems:
  "i < length xs \<Longrightarrow> j < length xs \<Longrightarrow>
   swap_elems xs i j ! k = (if k = j then xs ! i else if k = i then xs ! j else xs ! k)"
  by (auto simp: swap_elems_def nth_list_update)

lemma mset_swap_elems [simp]: "i < length xs \<Longrightarrow> j < length xs \<Longrightarrow> mset (swap_elems xs i j) = mset xs"
  by (simp add: swap_elems_def mset_swap)

text \<open>\<open>kapi_swap\<close> exchanges two blocks of any length that do not overlap, 256 bytes at a time.\<close>

lemma nth_memcpy:
  assumes "doff + n \<le> length d" "soff + n \<le> length s" "k < length d"
  shows "memcpy d doff s soff n ! k = (if doff \<le> k \<and> k < doff + n then s ! (soff + (k - doff)) else d ! k)"
  using assms by (auto simp: memcpy_eq nth_append)

lemma nth_kapi_swap:
  assumes "a + sz \<le> b" "b + sz \<le> length mem" "k < length mem"
  shows "kapi_swap mem a b sz ! k =
    (if a \<le> k \<and> k < a + sz then mem ! (b + (k - a)) else if b \<le> k \<and> k < b + sz then mem ! (a + (k - b)) else mem ! k)"
  using assms
proof (induction mem a b sz rule: kapi_swap.induct)
  case (1 mem a b sz)
  show ?case
  proof (cases "sz > 0")
    case False
    then show ?thesis by (subst kapi_swap.simps) auto
  next
    case True
    define c where "c = (if sz > 256 then 256 else sz)"
    have c: "0 < c" "c \<le> sz" "c \<le> 256" using True by (auto simp: c_def)
    define mem2 where "mem2 = memcpy (memcpy mem a mem b c) b (memcpy (replicate 256 0) 0 mem a c) 0 c"
    have mem2: "mem2 ! i = (if a \<le> i \<and> i < a + c then mem ! (b + (i - a)) else if b \<le> i \<and> i < b + c then mem ! (a + (i - b)) else mem ! i)"
      if "i < length mem" for i
      using that c "1.prems"(1,2) by (auto simp: mem2_def nth_memcpy)
    have step: "kapi_swap mem a b sz = kapi_swap mem2 (a + c) (b + c) (sz - c)"
      using True by (subst kapi_swap.simps) (simp add: Let_def c_def mem2_def)
    have le: "a + c + (sz - c) \<le> b + c" "b + c + (sz - c) \<le> length mem2" "k < length mem2"
      using c "1.prems" by (simp_all add: mem2_def)
    have "kapi_swap mem2 (a + c) (b + c) (sz - c) ! k =
      (if a + c \<le> k \<and> k < a + c + (sz - c) then mem2 ! (b + c + (k - (a + c)))
       else if b + c \<le> k \<and> k < b + c + (sz - c) then mem2 ! (a + c + (k - (b + c))) else mem2 ! k)"
      by (rule "1.IH"[OF True c_def refl refl mem2_def le])
    note r = this
    consider "a \<le> k" "k < a + c" | "a + c \<le> k" "k < a + sz" | "b \<le> k" "k < b + c" | "b + c \<le> k" "k < b + sz"
      | "k < a \<or> (a + sz \<le> k \<and> k < b) \<or> b + sz \<le> k" by linarith
    then show ?thesis
    proof cases
      case 1
      then show ?thesis using c "1.prems" r unfolding step by (simp add: mem2)
    next
      case 2
      then have e: "b + c + (k - (a + c)) = b + (k - a)" by simp
      have "\<not> (a \<le> b + (k - a) \<and> b + (k - a) < a + c)" "\<not> (b \<le> b + (k - a) \<and> b + (k - a) < b + c)" "b + (k - a) < length mem"
        using 2 c "1.prems" by linarith+
      then have "mem2 ! (b + (k - a)) = mem ! (b + (k - a))" by (simp only: mem2 if_False)
      then show ?thesis using 2 c r unfolding step e by simp
    next
      case 3
      then show ?thesis using c "1.prems" r unfolding step by (simp add: mem2)
    next
      case 4
      then have e: "a + c + (k - (b + c)) = a + (k - b)" by simp
      have "\<not> (a \<le> a + (k - b) \<and> a + (k - b) < a + c)" "\<not> (b \<le> a + (k - b) \<and> a + (k - b) < b + c)" "a + (k - b) < length mem"
        using 4 c "1.prems" by linarith+
      then have "mem2 ! (a + (k - b)) = mem ! (a + (k - b))" by (simp only: mem2 if_False)
      moreover have "\<not> (a \<le> k \<and> k < a + sz)" using 4 "1.prems" by linarith
      moreover have "\<not> (a + c \<le> k \<and> k < a + c + (sz - c))" "b + c \<le> k \<and> k < b + c + (sz - c)" "b \<le> k \<and> k < b + sz"
        using 4 c "1.prems" by linarith+
      ultimately show ?thesis using r unfolding step e by (simp only: if_True if_False simp_thms)
    next
      case 5
      have n: "\<not> (a \<le> k \<and> k < a + sz)" "\<not> (b \<le> k \<and> k < b + sz)" "\<not> (a \<le> k \<and> k < a + c)" "\<not> (b \<le> k \<and> k < b + c)"
        "\<not> (a + c \<le> k \<and> k < a + c + (sz - c))" "\<not> (b + c \<le> k \<and> k < b + c + (sz - c))"
        using 5 c "1.prems" by linarith+
      then have "mem2 ! k = mem ! k" using "1.prems" by (simp only: mem2 if_False)
      then show ?thesis using r unfolding step by (simp only: n if_False)
    qed
  qed
qed

lemma length_kapi_swap [simp]: "length (kapi_swap mem a b sz) = length mem"
proof (induction mem a b sz rule: kapi_swap.induct)
  case (1 mem a b sz)
  then show ?case by (subst kapi_swap.simps) (simp add: Let_def)
qed

definition elements :: "u8 list \<Rightarrow> nat \<Rightarrow> nat \<Rightarrow> u8 list list" where
  "elements mem sz num = map (\<lambda>i. map (\<lambda>k. mem ! (i * sz + k)) [0..<sz]) [0..<num]"

lemma elements_kapi_swap:
  assumes "i < j" "j < num" "num * sz \<le> length mem"
  shows "elements (kapi_swap mem (i * sz) (j * sz) sz) sz num = swap_elems (elements mem sz num) i j"
proof (rule nth_equalityI)
  have ij: "i * sz + sz \<le> j * sz" "j * sz + sz \<le> length mem"
    using mult_le_mono1[of "Suc i" j sz] mult_le_mono1[of "Suc j" num sz] assms by (simp_all add: add.commute)
  fix e assume "e < length (elements (kapi_swap mem (i * sz) (j * sz) sz) sz num)"
  then have e: "e < num" by (simp add: elements_def)
  then have le: "e * sz + sz \<le> length mem"
    using mult_le_mono1[of "Suc e" num sz] assms(3) by (simp add: add.commute)
  have blk: "i' * sz \<le> e * sz + k \<and> e * sz + k < i' * sz + sz \<longleftrightarrow> e = i'" if "k < sz" for i' k
  proof -
    have "(e * sz + k) div sz = e" using that by simp
    then show ?thesis
      using that by (metis div_nat_eqI mult.commute add.commute le_add1 add_less_cancel_left mult_Suc)
  qed
  have "kapi_swap mem (i * sz) (j * sz) sz ! (e * sz + k) = (if e = i then mem ! (j * sz + k) else if e = j then mem ! (i * sz + k) else mem ! (e * sz + k))"
    if "k < sz" for k
    using that nth_kapi_swap[OF ij, of "e * sz + k"] le blk[OF that, of i] blk[OF that, of j] by auto
  then show "elements (kapi_swap mem (i * sz) (j * sz) sz) sz num ! e = swap_elems (elements mem sz num) i j ! e"
    using e assms(1,2) by (auto simp: elements_def nth_swap_elems)
qed (simp add: elements_def)

subsection \<open>What a comparison function promises\<close>

text \<open>
  The callers' side of the interface: on the elements at hand the sign of \<open>cmp\<close> is a total
  preorder. The lemmas of the three algorithms are proved from this alone.
\<close>

locale comparator =
  fixes carrier :: "'a set"
    and cmp :: "'a \<Rightarrow> 'a \<Rightarrow> int"
  assumes cmp_refl: "x \<in> carrier \<Longrightarrow> cmp x x \<le> 0"
    and cmp_total: "x \<in> carrier \<Longrightarrow> y \<in> carrier \<Longrightarrow> cmp x y > 0 \<Longrightarrow> cmp y x \<le> 0"
    and cmp_trans: "x \<in> carrier \<Longrightarrow> y \<in> carrier \<Longrightarrow> z \<in> carrier \<Longrightarrow> cmp x y \<le> 0 \<Longrightarrow> cmp y z \<le> 0 \<Longrightarrow> cmp x z \<le> 0"
begin

text \<open>Insertion sort: shifting keeps everything and stops at the place of the element.\<close>

lemma insert_shift_spec:
  assumes "j < length xs" "insert_shift cmp t xs j = (xs', k)"
  shows "k \<le> j \<and> xs'[k := t] = take k xs @ t # take (j - k) (drop k xs) @ drop (Suc j) xs \<and>
    (\<forall>i. k \<le> i \<and> i < j \<longrightarrow> cmp (xs ! i) t > 0) \<and> (0 < k \<longrightarrow> cmp (xs ! (k - 1)) t \<le> 0)"
  using assms
proof (induction j arbitrary: xs)
  case 0
  then show ?case by (cases xs) auto
next
  case (Suc j)
  show ?case
  proof (cases "cmp (xs ! j) t > 0")
    case True
    let ?ys = "xs[Suc j := xs ! j]"
    have r: "insert_shift cmp t ?ys j = (xs', k)" using Suc.prems True by simp
    have IH: "k \<le> j" "xs'[k := t] = take k ?ys @ t # take (j - k) (drop k ?ys) @ drop (Suc j) ?ys"
      "\<forall>i. k \<le> i \<and> i < j \<longrightarrow> cmp (?ys ! i) t > 0" "0 < k \<longrightarrow> cmp (?ys ! (k - 1)) t \<le> 0"
      using Suc.IH[OF _ r] Suc.prems(1) by simp_all
    have "drop (Suc j) ?ys = xs ! j # drop (Suc (Suc j)) xs"
      using Suc.prems(1) by (simp add: drop_update_swap Cons_nth_drop_Suc[symmetric])
    moreover have "take (Suc j - k) (drop k xs) = take (j - k) (drop k ?ys) @ [xs ! j]"
      using IH(1) Suc.prems(1) by (simp add: Suc_diff_le take_Suc_conv_app_nth drop_update_swap take_update_swap list_update_beyond)
    moreover have "take k ?ys = take k xs" using IH(1) by (simp add: take_update_swap list_update_beyond)
    ultimately have "xs'[k := t] = take k xs @ t # take (Suc j - k) (drop k xs) @ drop (Suc (Suc j)) xs"
      using IH(2) by simp
    moreover have "\<forall>i. k \<le> i \<and> i < Suc j \<longrightarrow> cmp (xs ! i) t > 0"
      using IH(3) True by (auto simp: less_Suc_eq)
    ultimately show ?thesis using IH(1,4) by auto
  next
    case False
    then have "k = Suc j" "xs' = xs" using Suc.prems(2) by auto
    then show ?thesis
      using False Suc.prems(1) by (simp add: upd_conv_take_nth_drop)
  qed
qed

lemma insert_step_spec:
  assumes "i < length xs" "set xs \<subseteq> carrier" "sorted_wrt (\<lambda>a b. cmp a b \<le> 0) (take i xs)"
  shows "mset (insert_step cmp i xs) = mset xs \<and> length (insert_step cmp i xs) = length xs \<and>
    sorted_wrt (\<lambda>a b. cmp a b \<le> 0) (take (Suc i) (insert_step cmp i xs))"
proof -
  let ?t = "xs ! i" and ?le = "\<lambda>a b. cmp a b \<le> 0"
  obtain xs' k where s: "insert_shift cmp ?t xs i = (xs', k)" by fastforce
  note sp = insert_shift_spec[OF assms(1) s]
  let ?p = "take k xs" and ?q = "take (i - k) (drop k xs)" and ?r = "drop (Suc i) xs"
  have st: "insert_step cmp i xs = ?p @ ?t # ?q @ ?r"
    using sp s by (simp add: insert_step_def)
  have pq: "take i xs = ?p @ ?q" using sp by (metis le_add_diff_inverse take_add)
  have xs: "xs = (?p @ ?q) @ ?t # ?r"
    unfolding pq[symmetric] using assms(1) by (simp add: id_take_nth_drop[symmetric])
  have "mset (?p @ ?t # ?q @ ?r) = mset ((?p @ ?q) @ ?t # ?r)" by simp
  then have m: "mset (insert_step cmp i xs) = mset xs" unfolding st using xs by metis
  have car: "set ?p \<subseteq> carrier" "set ?q \<subseteq> carrier" "?t \<in> carrier"
    using assms(1,2) by (auto dest!: in_set_takeD in_set_dropD)
  have srt: "sorted_wrt ?le (?p @ ?q)" using assms(3) pq by simp
  have q: "\<forall>b \<in> set ?q. ?le ?t b"
  proof
    fix b assume "b \<in> set ?q"
    then obtain n where n: "n < i - k" "b = xs ! (k + n)"
      using assms(1) by (auto simp: in_set_conv_nth)
    then have "cmp (xs ! (k + n)) ?t > 0" using sp by auto
    moreover have "k + n < length xs" using n(1) assms(1) by linarith
    then have "xs ! (k + n) \<in> carrier" using assms(2) by auto
    ultimately show "?le ?t b" using cmp_total car(3) n(2) by blast
  qed
  have p: "\<forall>a \<in> set ?p. ?le a ?t"
  proof
    fix a assume a: "a \<in> set ?p"
    then have k: "0 < k" by (cases k) auto
    have kl: "k \<le> i" using sp by blast
    have pl: "?p = take (k - 1) xs @ [xs ! (k - 1)]"
      using k kl assms(1) take_Suc_conv_app_nth[of "k - 1" xs] by simp
    have last: "?le (xs ! (k - 1)) ?t" using sp k by blast
    have "a = xs ! (k - 1) \<or> ?le a (xs ! (k - 1))"
      using a srt unfolding pl by (auto simp: sorted_wrt_append)
    moreover have "xs ! (k - 1) \<in> carrier" using pl car(1) by auto
    ultimately show "?le a ?t" using last cmp_trans car(1,3) a by blast
  qed
  have "sorted_wrt ?le (?p @ ?t # ?q)"
    using srt p q by (auto simp: sorted_wrt_append)
  moreover have "take (Suc i) (insert_step cmp i xs) = ?p @ ?t # ?q"
  proof -
    have "length (?p @ ?t # ?q) = Suc i" using sp assms(1) by simp
    then show ?thesis unfolding st by (metis append.assoc append_Cons append_eq_conv_conj)
  qed
  ultimately show ?thesis
    using m by (auto dest: mset_eq_length)
qed

lemma insertsort_spec:
  assumes "set xs \<subseteq> carrier" "sz \<le> 256"
  shows "\<exists>ys. kapi_insertsort sz (Some cmp) (Some xs) = Some (Some ys) \<and> mset ys = mset xs \<and> sorted_wrt (\<lambda>a b. cmp a b \<le> 0) ys"
proof (cases "length xs < 2")
  case True
  then have "sorted_wrt (\<lambda>a b. cmp a b \<le> 0) xs"
    by (cases xs; cases "tl xs") auto
  then show ?thesis using True by (simp add: kapi_insertsort_def)
next
  case False
  let ?le = "\<lambda>a b. cmp a b \<le> 0"
  have "mset (fold (insert_step cmp) [1..<n] xs) = mset xs \<and> sorted_wrt ?le (take n (fold (insert_step cmp) [1..<n] xs))"
    if "1 \<le> n" "n \<le> length xs" for n
    using that
  proof (induction n rule: dec_induct)
    case base
    then show ?case by (cases xs) auto
  next
    case (step n)
    let ?ys = "fold (insert_step cmp) [1..<n] xs"
    have "mset ?ys = mset xs" "sorted_wrt ?le (take n ?ys)" using step by simp_all
    moreover from this(1) have "n < length ?ys" "set ?ys \<subseteq> carrier"
      using step.prems assms(1) mset_eq_length[of ?ys xs] mset_eq_setD[of ?ys xs] by auto
    ultimately show ?case using insert_step_spec[of n ?ys] step.hyps by simp
  qed
  from this[of "length xs"] False assms(2) show ?thesis
    by (auto simp: kapi_insertsort_def dest: mset_eq_length)
qed

text \<open>
  Heap sort. \<open>heap_from r n\<close> says that every node from \<open>r\<close> on is at least its children;
  \<open>heap_but r n i\<close> leaves out the node \<open>i\<close>, whose children are still below its parent.
\<close>

definition heap_from :: "nat \<Rightarrow> nat \<Rightarrow> 'a list \<Rightarrow> bool" where
  "heap_from r n xs \<longleftrightarrow> (\<forall>i c. r \<le> i \<and> c < n \<and> (c = 2 * i + 1 \<or> c = 2 * i + 2) \<longrightarrow> cmp (xs ! c) (xs ! i) \<le> 0)"

definition heap_but :: "nat \<Rightarrow> nat \<Rightarrow> nat \<Rightarrow> 'a list \<Rightarrow> bool" where
  "heap_but r n root xs \<longleftrightarrow>
     (\<forall>i c. r \<le> i \<and> i \<noteq> root \<and> c < n \<and> (c = 2 * i + 1 \<or> c = 2 * i + 2) \<longrightarrow> cmp (xs ! c) (xs ! i) \<le> 0) \<and>
     (\<forall>i c. r \<le> i \<and> (root = 2 * i + 1 \<or> root = 2 * i + 2) \<and> c < n \<and> (c = 2 * root + 1 \<or> c = 2 * root + 2) \<longrightarrow>
        cmp (xs ! c) (xs ! i) \<le> 0)"

lemma sift_down_keeps:
  assumes "root < n" "n \<le> length xs"
  shows "mset (kapi_sift_down cmp xs root n) = mset xs \<and> length (kapi_sift_down cmp xs root n) = length xs \<and>
    (\<forall>k. n \<le> k \<and> k < length xs \<longrightarrow> kapi_sift_down cmp xs root n ! k = xs ! k)"
  using assms
proof (induction cmp xs root n rule: kapi_sift_down.induct)
  case (1 cmp xs root n)
  let ?child = "2 * root + 1"
  define c where "c = (if ?child + 1 < n \<and> cmp (xs ! (?child + 1)) (xs ! ?child) > 0 then ?child + 1 else ?child)"
  consider "?child \<ge> n \<or> cmp (xs ! c) (xs ! root) \<le> 0" | "?child < n" "cmp (xs ! c) (xs ! root) > 0"
    by linarith
  then show ?case
  proof cases
    case a: 1
    then have "kapi_sift_down cmp xs root n = xs"
      by (subst kapi_sift_down.simps) (auto simp: Let_def c_def)
    then show ?thesis by simp
  next
    case b: 2
    have c: "c < n" "root < n" using b(1) 1(2) by (auto simp: c_def)
    have "kapi_sift_down cmp xs root n = kapi_sift_down cmp (swap_elems xs root c) c n"
      using b by (subst kapi_sift_down.simps) (auto simp: Let_def c_def)
    moreover have "mset (kapi_sift_down cmp (swap_elems xs root c) c n) = mset (swap_elems xs root c) \<and>
        length (kapi_sift_down cmp (swap_elems xs root c) c n) = length (swap_elems xs root c) \<and>
        (\<forall>k. n \<le> k \<and> k < length (swap_elems xs root c) \<longrightarrow> kapi_sift_down cmp (swap_elems xs root c) c n ! k = swap_elems xs root c ! k)"
    proof (rule "1.IH"[OF refl _ c_def])
      show "\<not> n \<le> 2 * root + 1" "\<not> cmp (xs ! c) (xs ! root) \<le> 0" "c < n" "n \<le> length (swap_elems xs root c)"
        using b c(1) 1(3) by auto
    qed
    ultimately show ?thesis
      using c 1(3) by (auto simp: nth_swap_elems)
  qed
qed

lemma sift_down_heap:
  assumes "root < n" "n \<le> length xs" "set xs \<subseteq> carrier" "r \<le> root" "heap_but r n root xs"
  shows "heap_from r n (kapi_sift_down cmp xs root n)"
  using assms
proof (induction "n - root" arbitrary: xs root rule: less_induct)
  case less
  let ?child = "2 * root + 1"
  define c where "c = (if ?child + 1 < n \<and> cmp (xs ! (?child + 1)) (xs ! ?child) > 0 then ?child + 1 else ?child)"
  have car: "xs ! k \<in> carrier" if "k < n" for k using that less.prems(2,3) by auto
  have big: "cmp (xs ! k) (xs ! c) \<le> 0" if "k < n" "k = ?child \<or> k = ?child + 1" for k
    using that cmp_refl[OF car] cmp_total[of "xs ! (?child + 1)" "xs ! ?child"] car
    by (auto simp: c_def not_less)
  have cch: "c = ?child \<or> c = ?child + 1" by (simp add: c_def)
  consider "?child \<ge> n" | "?child < n" "cmp (xs ! c) (xs ! root) \<le> 0" | "?child < n" "cmp (xs ! c) (xs ! root) > 0"
    by linarith
  then show ?case
  proof cases
    case 1
    then have "kapi_sift_down cmp xs root n = xs" by (subst kapi_sift_down.simps) (simp add: Let_def)
    then show ?thesis using less.prems(5) 1 by (auto simp: heap_from_def heap_but_def)
  next
    case 2
    then have s: "kapi_sift_down cmp xs root n = xs" by (subst kapi_sift_down.simps) (auto simp: Let_def c_def split: if_splits)
    have "c < n" using 2 by (auto simp: c_def)
    have "cmp (xs ! k) (xs ! root) \<le> 0" if "k < n" "k = 2 * root + 1 \<or> k = 2 * root + 2" for k
      using cmp_trans[of "xs ! k" "xs ! c" "xs ! root"] big[of k] 2(2) car that \<open>c < n\<close> less.prems(1) by auto
    then show ?thesis using less.prems(5) unfolding s by (auto simp: heap_from_def heap_but_def)
  next
    case 3
    let ?ys = "swap_elems xs root c"
    have c: "c < n" using 3 by (auto simp: c_def)
    have s: "kapi_sift_down cmp xs root n = kapi_sift_down cmp ?ys c n"
      using 3 by (subst kapi_sift_down.simps) (auto simp: Let_def c_def)
    have nth: "?ys ! k = (if k = c then xs ! root else if k = root then xs ! c else xs ! k)" for k
      using c less.prems(1,2) by (simp add: nth_swap_elems)
    have rc: "cmp (xs ! root) (xs ! c) \<le> 0"
      using cmp_total[OF car[OF c] car[OF less.prems(1)] 3(2)] .
    have hb: "heap_but r n root xs" by (rule less.prems(5))
    have "heap_but r n c ?ys"
      unfolding heap_but_def
    proof (intro conjI allI impI)
      fix i k assume a: "r \<le> i \<and> i \<noteq> c \<and> k < n \<and> (k = 2 * i + 1 \<or> k = 2 * i + 2)"
      show "cmp (?ys ! k) (?ys ! i) \<le> 0"
      proof (cases "i = root")
        case True
        then have "?ys ! i = xs ! c" using cch nth by auto
        moreover have "?ys ! k = (if k = c then xs ! root else xs ! k)" using a True nth by auto
        ultimately show ?thesis using rc big[of k] a True by auto
      next
        case False
        then have i: "?ys ! i = xs ! i" using a nth by simp
        show ?thesis
        proof (cases "k = root")
          case True
          then have "cmp (xs ! c) (xs ! i) \<le> 0"
            using hb a c cch unfolding heap_but_def by auto
          then show ?thesis using True i nth[of k] cch by auto
        next
          case kn: False
          have "k \<noteq> c" using a cch False by auto
          then show ?thesis using hb a False kn i nth[of k] unfolding heap_but_def by auto
        qed
      qed
    next
      fix i k assume a: "r \<le> i \<and> (c = 2 * i + 1 \<or> c = 2 * i + 2) \<and> k < n \<and> (k = 2 * c + 1 \<or> k = 2 * c + 2)"
      then have "i = root" using cch by auto
      moreover have "cmp (xs ! k) (xs ! c) \<le> 0"
        using hb a cch less.prems(4) unfolding heap_but_def by auto
      ultimately show "cmp (?ys ! k) (?ys ! i) \<le> 0" using nth[of k] nth[of i] a cch by auto
    qed
    moreover have "set ?ys \<subseteq> carrier"
      using less.prems(1-3) c mset_eq_setD[OF mset_swap_elems[of root xs c]] by auto
    ultimately show ?thesis
      unfolding s using c less.prems(1,2,4) cch by (intro less.hyps) auto
  qed
qed

lemma heap_max:
  assumes "heap_from 0 n xs" "set xs \<subseteq> carrier" "n \<le> length xs" "k < n"
  shows "cmp (xs ! k) (xs ! 0) \<le> 0"
  using assms(4)
proof (induction k rule: less_induct)
  case (less k)
  have car: "xs ! i \<in> carrier" if "i < n" for i using that assms(2,3) by auto
  show ?case
  proof (cases k)
    case 0
    then show ?thesis using cmp_refl car less.prems by simp
  next
    case (Suc m)
    define i where "i = m div 2"
    have i: "i < k" "k = 2 * i + 1 \<or> k = 2 * i + 2" using Suc by (auto simp: i_def)
    have "cmp (xs ! k) (xs ! i) \<le> 0"
      using assms(1) i(2) less.prems unfolding heap_from_def by blast
    moreover have "cmp (xs ! i) (xs ! 0) \<le> 0" using less i(1) by simp
    ultimately show ?thesis
      using cmp_trans[of "xs ! k" "xs ! i" "xs ! 0"] car less.prems i(1) by simp
  qed
qed

lemma build_heap_step:
  assumes "root < n" "n \<le> length xs" "set xs \<subseteq> carrier" "heap_from (Suc root) n xs"
  shows "heap_from root n (kapi_sift_down cmp xs root n)"
  using assms by (intro sift_down_heap) (auto simp: heap_but_def heap_from_def)

lemma build_heap:
  assumes "n = length xs" "k \<le> n div 2" "set xs \<subseteq> carrier" "heap_from k n xs"
  shows "heap_from 0 n (fold (\<lambda>i xs. kapi_sift_down cmp xs (i - 1) n) (rev [1..<Suc k]) xs) \<and>
    mset (fold (\<lambda>i xs. kapi_sift_down cmp xs (i - 1) n) (rev [1..<Suc k]) xs) = mset xs"
  using assms
proof (induction k arbitrary: xs)
  case 0
  then show ?case by simp
next
  case (Suc k)
  let ?ys = "kapi_sift_down cmp xs k n"
  have k: "k < n" using Suc.prems(2) by simp
  have keep: "mset ?ys = mset xs" "length ?ys = length xs"
    using sift_down_keeps[of k n xs] k Suc.prems(1) by simp_all
  have "heap_from k n ?ys"
    using Suc.prems k by (intro build_heap_step) auto
  moreover have "set ?ys \<subseteq> carrier" using keep(1) Suc.prems(3) mset_eq_setD by blast
  ultimately show ?case
    using Suc.IH[of ?ys] keep Suc.prems(1,2) by simp
qed

text \<open>The second phase: the heap shrinks, and behind it grows the sorted rest, all of it above the heap.\<close>

definition heap_sorted :: "nat \<Rightarrow> 'a list \<Rightarrow> bool" where
  "heap_sorted n xs \<longleftrightarrow> heap_from 0 n xs \<and>
     (\<forall>i j. n \<le> j \<and> i < j \<and> j < length xs \<longrightarrow> cmp (xs ! i) (xs ! j) \<le> 0)"

lemma extract_max_step:
  assumes "0 < i" "i < length xs" "set xs \<subseteq> carrier" "heap_sorted (Suc i) xs"
  shows "heap_sorted i (kapi_sift_down cmp (swap_elems xs 0 i) 0 i)"
    and "mset (kapi_sift_down cmp (swap_elems xs 0 i) 0 i) = mset xs"
proof -
  let ?ys = "swap_elems xs 0 i"
  let ?zs = "kapi_sift_down cmp ?ys 0 i"
  have l: "length ?ys = length xs" by simp
  have m: "mset ?ys = mset xs" using assms(1,2) by (intro mset_swap_elems) auto
  have keep: "mset ?zs = mset ?ys" "length ?zs = length xs" "\<forall>k. i \<le> k \<and> k < length xs \<longrightarrow> ?zs ! k = ?ys ! k"
    using sift_down_keeps[of 0 i ?ys] assms(1,2) by simp_all
  show mz: "mset ?zs = mset xs" using keep(1) m by simp
  have nth: "?ys ! k = (if k = i then xs ! 0 else if k = 0 then xs ! i else xs ! k)" for k
    using nth_swap_elems[of 0 xs i k] assms(1,2) by (metis less_trans)
  have h: "heap_from 0 (Suc i) xs" and srt: "\<forall>a b. Suc i \<le> b \<and> a < b \<and> b < length xs \<longrightarrow> cmp (xs ! a) (xs ! b) \<le> 0"
    using assms(4) by (auto simp: heap_sorted_def)
  have cy: "set ?ys \<subseteq> carrier" using m assms(3) mset_eq_setD by blast
  have "heap_but 0 i 0 ?ys"
    using h unfolding heap_but_def heap_from_def by (auto simp: nth)
  then have hz: "heap_from 0 i ?zs"
    using assms(1,2) cy by (intro sift_down_heap) auto
  have small: "?zs ! a \<in> (\<lambda>k. ?ys ! k) ` {..<i}" if "a < i" for a
  proof -
    have "drop i ?zs = drop i ?ys"
      by (rule nth_equalityI) (use keep(2,3) l assms(2) in auto)
    moreover have "mset (take i ?zs @ drop i ?zs) = mset (take i ?ys @ drop i ?ys)"
      using keep(1) by (simp only: append_take_drop_id)
    ultimately have "mset (take i ?zs) = mset (take i ?ys)" by (simp only: mset_append) simp
    then have "set (take i ?zs) = set (take i ?ys)" by (rule mset_eq_setD)
    moreover have "?zs ! a \<in> set (take i ?zs)"
      using that keep(2) assms(2) by (auto simp: in_set_conv_nth intro!: exI[of _ a])
    moreover have "set (take i ?ys) = (\<lambda>k. ?ys ! k) ` {..<i}"
      using assms(2) l nth_image[of i ?ys] by (simp add: lessThan_atLeast0)
    ultimately show ?thesis by simp
  qed
  have "cmp (?zs ! a) (?zs ! b) \<le> 0" if ab: "i \<le> b" "a < b" "b < length xs" for a b
  proof -
    obtain k where k: "k < b" "?zs ! a = ?ys ! k" "a < i \<longrightarrow> k < i" "\<not> a < i \<longrightarrow> k = a"
      using small[of a] keep(3) ab by (cases "a < i") auto
    have zb: "?zs ! b = ?ys ! b" using keep(3) ab by simp
    show ?thesis
    proof (cases "b = i")
      case True
      then have "?ys ! k = xs ! (if k = 0 then i else k)" "(if k = 0 then i else k) < Suc i"
        using k(1) nth[of k] by auto
      moreover have "?ys ! b = xs ! 0" using True nth by simp
      moreover have "Suc i \<le> length xs" using assms(2) by simp
      ultimately show ?thesis
        using heap_max[OF h assms(3), of "if k = 0 then i else k"] k(2) zb by simp
    next
      case False
      then have b: "Suc i \<le> b" using ab by simp
      then have "?ys ! b = xs ! b" using nth[of b] by simp
      moreover obtain k' where "?ys ! k = xs ! k'" "k' < b"
        using nth[of k] k(1) b by (cases "k = i"; cases "k = 0") auto
      ultimately show ?thesis using srt b ab(3) k(2) zb by simp
    qed
  qed
  then show "heap_sorted i ?zs" using hz keep(2) by (simp add: heap_sorted_def)
qed

lemma heapsort_phase2:
  assumes "n \<le> length xs" "0 < n" "set xs \<subseteq> carrier" "heap_sorted n xs"
  shows "heap_sorted 1 (fold (\<lambda>i xs. kapi_sift_down cmp (swap_elems xs 0 i) 0 i) (rev [1..<n]) xs) \<and>
    mset (fold (\<lambda>i xs. kapi_sift_down cmp (swap_elems xs 0 i) 0 i) (rev [1..<n]) xs) = mset xs"
  using assms
proof (induction n arbitrary: xs)
  case 0
  then show ?case by simp
next
  case (Suc n)
  show ?case
  proof (cases "n = 0")
    case True
    then show ?thesis using Suc.prems(4) by simp
  next
    case False
    let ?ys = "kapi_sift_down cmp (swap_elems xs 0 n) 0 n"
    have s: "heap_sorted n ?ys" "mset ?ys = mset xs"
      using extract_max_step[of n xs] False Suc.prems by auto
    then have "set ?ys \<subseteq> carrier" "length ?ys = length xs"
      using Suc.prems(3) mset_eq_setD mset_eq_length by blast+
    then show ?thesis using Suc.IH[of ?ys] s False Suc.prems(1) by simp
  qed
qed

lemma heapsort_spec:
  assumes "set xs \<subseteq> carrier"
  shows "\<exists>ys. kapi_heapsort (Some cmp) (Some xs) = Some ys \<and> mset ys = mset xs \<and> sorted_wrt (\<lambda>a b. cmp a b \<le> 0) ys"
proof (cases "length xs < 2")
  case True
  then have "sorted_wrt (\<lambda>a b. cmp a b \<le> 0) xs"
    by (cases xs; cases "tl xs") auto
  then show ?thesis using True by (simp add: kapi_heapsort_def)
next
  case False
  let ?n = "length xs"
  define xs1 where "xs1 = fold (\<lambda>i xs. kapi_sift_down cmp xs (i - 1) ?n) (rev [1..<Suc (?n div 2)]) xs"
  define ys where "ys = fold (\<lambda>i xs. kapi_sift_down cmp (swap_elems xs 0 i) 0 i) (rev [1..<?n]) xs1"
  have "heap_from (?n div 2) ?n xs" by (auto simp: heap_from_def)
  then have x1: "heap_from 0 ?n xs1" "mset xs1 = mset xs"
    unfolding xs1_def using build_heap[of ?n xs "?n div 2"] assms by simp_all
  have l1: "length xs1 = ?n" using mset_eq_length[OF x1(2)] .
  have "heap_sorted ?n xs1" using x1 l1 by (simp add: heap_sorted_def)
  moreover have "set xs1 \<subseteq> carrier" using mset_eq_setD[OF x1(2)] assms by simp
  moreover have "0 < ?n" "?n \<le> length xs1" using False l1 by linarith+
  ultimately have y: "heap_sorted 1 ys" "mset ys = mset xs1"
    unfolding ys_def using heapsort_phase2[of ?n xs1] by blast+
  have "sorted_wrt (\<lambda>a b. cmp a b \<le> 0) ys"
    unfolding sorted_wrt_iff_nth_less using y(1) by (auto simp: heap_sorted_def)
  moreover have "kapi_heapsort (Some cmp) (Some xs) = Some ys"
    using False by (simp add: kapi_heapsort_def Let_def ys_def xs1_def)
  ultimately show ?thesis using y(2) x1(2) by simp
qed

text \<open>Quicksort. The two scans stop at the first element on the wrong side, or at the border.\<close>

lemma scan_up_spec:
  "i \<le> qsort_scan_up cmp p high xs i \<and>
   (\<forall>k. i \<le> k \<and> k < qsort_scan_up cmp p high xs i \<longrightarrow> cmp (xs ! k) (xs ! p) \<le> 0) \<and>
   (qsort_scan_up cmp p high xs i \<le> high \<longrightarrow> cmp (xs ! qsort_scan_up cmp p high xs i) (xs ! p) > 0) \<and>
   (i \<le> Suc high \<longrightarrow> qsort_scan_up cmp p high xs i \<le> Suc high)"
proof (induction cmp p high xs i rule: qsort_scan_up.induct)
  case (1 cmp p high xs i)
  show ?case
  proof (cases "i \<le> high \<and> cmp (xs ! i) (xs ! p) \<le> 0")
    case True
    have e: "qsort_scan_up cmp p high xs i = qsort_scan_up cmp p high xs (i + 1)"
      using True by (subst qsort_scan_up.simps) simp
    let ?n = "qsort_scan_up cmp p high xs (i + 1)"
    have IH: "i + 1 \<le> ?n" "\<forall>k. i + 1 \<le> k \<and> k < ?n \<longrightarrow> cmp (xs ! k) (xs ! p) \<le> 0"
      "?n \<le> high \<longrightarrow> cmp (xs ! ?n) (xs ! p) > 0" "?n \<le> Suc high"
      using 1[OF True] True by simp_all
    have "cmp (xs ! k) (xs ! p) \<le> 0" if "i \<le> k" "k < ?n" for k
      using that IH(2) True by (cases "k = i") auto
    then show ?thesis
      using IH unfolding e by simp
  next
    case False
    then have "qsort_scan_up cmp p high xs i = i" by (subst qsort_scan_up.simps) auto
    then show ?thesis using False by auto
  qed
qed

lemma scan_down_spec:
  "qsort_scan_down cmp p low xs j \<le> j \<and>
   (\<forall>k. qsort_scan_down cmp p low xs j < k \<and> k \<le> j \<longrightarrow> cmp (xs ! k) (xs ! p) > 0) \<and>
   (low < qsort_scan_down cmp p low xs j \<longrightarrow> cmp (xs ! qsort_scan_down cmp p low xs j) (xs ! p) \<le> 0) \<and>
   (low \<le> j \<longrightarrow> low \<le> qsort_scan_down cmp p low xs j)"
proof (induction cmp p low xs j rule: qsort_scan_down.induct)
  case (1 cmp p low xs j)
  show ?case
  proof (cases "j > low \<and> cmp (xs ! j) (xs ! p) > 0")
    case True
    have e: "qsort_scan_down cmp p low xs j = qsort_scan_down cmp p low xs (j - 1)"
      using True by (subst qsort_scan_down.simps) simp
    have "k = j \<or> k \<le> j - 1" if "k \<le> j" for k using that by linarith
    then show ?thesis
      using 1[OF True] True unfolding e by (auto intro: order_trans)
  next
    case False
    then have "qsort_scan_down cmp p low xs j = j" by (subst qsort_scan_down.simps) auto
    then show ?thesis using False by auto
  qed
qed

definition same_outside :: "nat \<Rightarrow> nat \<Rightarrow> 'a list \<Rightarrow> 'a list \<Rightarrow> bool" where
  "same_outside a b xs ys \<longleftrightarrow> mset ys = mset xs \<and> length ys = length xs \<and> (\<forall>k. k < a \<or> b < k \<longrightarrow> ys ! k = xs ! k)"

lemma same_outside_trans:
  "same_outside a b xs ys \<Longrightarrow> same_outside c d ys zs \<Longrightarrow> a \<le> c \<Longrightarrow> d \<le> b \<Longrightarrow> same_outside a b xs zs"
  by (auto simp: same_outside_def)

lemma same_outside_swap:
  "a \<le> i \<Longrightarrow> i \<le> b \<Longrightarrow> a \<le> j \<Longrightarrow> j \<le> b \<Longrightarrow> b < length xs \<Longrightarrow> same_outside a b xs (swap_elems xs i j)"
  by (auto simp: same_outside_def nth_swap_elems)

text \<open>Elements inside the range come from the range.\<close>

lemma same_outside_inside:
  assumes "same_outside a b xs ys" "a \<le> k" "k \<le> b" "b < length xs"
  shows "\<exists>m. a \<le> m \<and> m \<le> b \<and> ys ! k = xs ! m"
proof -
  have l: "length ys = length xs" using assms(1) by (simp add: same_outside_def)
  let ?seg = "\<lambda>zs. take (Suc b - a) (drop a zs)"
  have dec: "zs = take a zs @ ?seg zs @ drop (Suc b) zs" for zs :: "'a list"
    using assms(2,3) by (metis append_take_drop_id drop_drop le_add_diff_inverse2 le_SucI order_trans)
  have "take a ys = take a xs" "drop (Suc b) ys = drop (Suc b) xs"
    using assms(1) l by (auto simp: same_outside_def intro!: nth_equalityI)
  moreover have "mset (take a ys @ ?seg ys @ drop (Suc b) ys) = mset (take a xs @ ?seg xs @ drop (Suc b) xs)"
    using assms(1) dec unfolding same_outside_def by metis
  ultimately have "mset (?seg ys) = mset (?seg xs)" by (simp only: mset_append) simp
  then have "set (?seg ys) = set (?seg xs)" by (rule mset_eq_setD)
  moreover have "ys ! k \<in> set (?seg ys)"
    using assms(2-4) l by (auto simp: in_set_conv_nth intro!: exI[of _ "k - a"])
  ultimately obtain n where "n < Suc b - a" "ys ! k = xs ! (a + n)"
    using assms(2-4) by (auto simp: in_set_conv_nth)
  then show ?thesis using assms(2,3) by (intro exI[of _ "a + n"]) linarith
qed

definition split_ok :: "nat \<Rightarrow> nat \<Rightarrow> 'a list \<Rightarrow> nat \<Rightarrow> nat \<Rightarrow> bool" where
  "split_ok low high xs i j \<longleftrightarrow> low < i \<and> i \<le> Suc high \<and> low \<le> j \<and> j \<le> high \<and> i \<le> Suc j \<and> high < length xs \<and>
     (\<forall>k. low < k \<and> k < i \<longrightarrow> cmp (xs ! k) (xs ! low) \<le> 0) \<and>
     (\<forall>k. j < k \<and> k \<le> high \<longrightarrow> cmp (xs ! k) (xs ! low) > 0)"

lemma partition_spec:
  assumes "split_ok low high xs i j"
  shows "\<exists>ys j'. qsort_partition cmp low high xs i j = Some (ys, j') \<and> same_outside (Suc low) high xs ys \<and>
    split_ok low high ys (Suc j') j'"
  using assms
proof (induction "2 * (Suc j - i) + (if cmp (xs ! i) (xs ! low) > 0 then 1 else 0)" arbitrary: xs i j rule: less_induct)
  case less
  note ok = less.prems[unfolded split_ok_def]
  show ?case
  proof (cases "i \<le> j")
    case False
    then have "i = Suc j" using ok by simp
    moreover have "qsort_partition cmp low high xs i j = Some (xs, j)"
      using False by (subst qsort_partition.simps) simp
    ultimately show ?thesis using less.prems by (auto simp: same_outside_def)
  next
    case True
    define i' where "i' = qsort_scan_up cmp low high xs i"
    define j' where "j' = qsort_scan_down cmp low low xs j"
    have up: "i \<le> i'" "\<forall>k. i \<le> k \<and> k < i' \<longrightarrow> cmp (xs ! k) (xs ! low) \<le> 0" "i' \<le> high \<longrightarrow> cmp (xs ! i') (xs ! low) > 0" "i' \<le> Suc high"
      using scan_up_spec[of i low high xs] ok unfolding i'_def by auto
    have down: "j' \<le> j" "\<forall>k. j' < k \<and> k \<le> j \<longrightarrow> cmp (xs ! k) (xs ! low) > 0" "low < j' \<longrightarrow> cmp (xs ! j') (xs ! low) \<le> 0" "low \<le> j'"
      using scan_down_spec[of low low xs j] ok unfolding j'_def by auto
    have le: "\<forall>k. low < k \<and> k < i' \<longrightarrow> cmp (xs ! k) (xs ! low) \<le> 0"
      using up(2) ok by (metis not_less)
    have gt: "\<forall>k. j' < k \<and> k \<le> high \<longrightarrow> cmp (xs ! k) (xs ! low) > 0"
      using down(2) ok by (metis not_less)
    have ij: "i' \<le> Suc j'"
    proof (rule ccontr)
      assume a: "\<not> i' \<le> Suc j'"
      then have "low < Suc j'" "Suc j' < i'" "Suc j' \<le> high" using down(4) up(4) by linarith+
      then show False using le gt by (metis lessI not_less)
    qed
    show ?thesis
    proof (cases "i' < j'")
      case lt: True
      let ?ys = "swap_elems xs i' j'"
      have b: "low < i'" "i' < length xs" "j' < length xs" "j' \<le> high" using ok up(1) down(1) lt by linarith+
      have nth: "?ys ! k = (if k = j' then xs ! i' else if k = i' then xs ! j' else xs ! k)" for k
        using b by (simp add: nth_swap_elems)
      have low: "?ys ! low = xs ! low" using b lt nth by simp
      have big: "cmp (xs ! i') (xs ! low) > 0" using up(3) lt b by simp
      have small: "cmp (xs ! j') (xs ! low) \<le> 0" using down(3,4) lt b by simp
      have s: "split_ok low high ?ys i' j'"
        unfolding split_ok_def low using ok up(1,4) down(1,4) lt b ij le gt big small by (auto simp: nth)
      have step: "qsort_partition cmp low high xs i j = qsort_partition cmp low high ?ys i' j'"
        using True lt by (subst qsort_partition.simps) (simp add: Let_def i'_def j'_def)
      have "2 * (Suc j' - i') + (if cmp (?ys ! i') (?ys ! low) > 0 then 1 else 0) <
            2 * (Suc j - i) + (if cmp (xs ! i) (xs ! low) > 0 then 1 else (0::nat))"
      proof -
        have "\<not> cmp (?ys ! i') (?ys ! low) > 0" using nth low small lt by simp
        moreover have "cmp (xs ! i) (xs ! low) > 0" if "i' = i" using that big by simp
        ultimately show ?thesis using up(1) down(1) lt by (cases "i' = i") auto
      qed
      from less.hyps[OF this s] obtain zs k where z: "qsort_partition cmp low high ?ys i' j' = Some (zs, k)"
          "same_outside (Suc low) high ?ys zs" "split_ok low high zs (Suc k) k" by blast
      moreover have "same_outside (Suc low) high xs ?ys"
        using b lt ok by (intro same_outside_swap) auto
      ultimately show ?thesis using step same_outside_trans[of "Suc low" high xs ?ys "Suc low" high zs] by auto
    next
      case False
      have "i' \<noteq> j'"
      proof
        assume e: "i' = j'"
        then have "low < j'" "i' \<le> high" using up(1) down(1) ok by linarith+
        then show False using up(3) down(3) e by simp
      qed
      then have e: "i' = Suc j'" using False ij by simp
      have step: "qsort_partition cmp low high xs i j = Some (xs, j')"
        using True False e by (subst qsort_partition.simps, simp add: Let_def i'_def[symmetric] j'_def[symmetric])
          (subst qsort_partition.simps, simp)
      moreover have "split_ok low high xs (Suc j') j'"
        unfolding split_ok_def using ok e le gt up(1) down(1,4) by auto
      ultimately show ?thesis by (auto simp: same_outside_def)
    qed
  qed
qed

definition sorted_on :: "nat \<Rightarrow> nat \<Rightarrow> 'a list \<Rightarrow> bool" where
  "sorted_on low high xs \<longleftrightarrow> (\<forall>a b. low \<le> a \<and> a \<le> b \<and> b < high \<longrightarrow> cmp (xs ! a) (xs ! b) \<le> 0)"

text \<open>Two sorted parts around an element that lies between them.\<close>

lemma sorted_on_join:
  assumes "sorted_on low j ys" "sorted_on (Suc j) (Suc high) ys" "set ys \<subseteq> carrier" "high < length ys" "j \<le> high"
    and "\<forall>a. low \<le> a \<and> a < j \<longrightarrow> cmp (ys ! a) (ys ! j) \<le> 0" "\<forall>b. j < b \<and> b \<le> high \<longrightarrow> cmp (ys ! j) (ys ! b) \<le> 0"
  shows "sorted_on low (Suc high) ys"
  unfolding sorted_on_def
proof (intro allI impI)
  fix a b assume ab: "low \<le> a \<and> a \<le> b \<and> b < Suc high"
  have car: "ys ! k \<in> carrier" if "k \<le> high" for k using that assms(3,4) by auto
  consider "b < j" | "j < a" | "a = j" "b = j" | "a < j" "b = j" | "a = j" "j < b" | "a < j" "j < b" using ab by linarith
  then show "cmp (ys ! a) (ys ! b) \<le> 0"
  proof cases
    case 6
    then have "cmp (ys ! a) (ys ! j) \<le> 0" "cmp (ys ! j) (ys ! b) \<le> 0"
      using assms(6,7) ab by auto
    then show ?thesis using cmp_trans[of "ys ! a" "ys ! j" "ys ! b"] car ab assms(5) by auto
  qed (use ab assms cmp_refl car in \<open>auto simp: sorted_on_def\<close>)
qed

lemma qsort_internal_spec:
  assumes "set xs \<subseteq> carrier" "high < length xs"
  shows "\<exists>ys. kapi_qsort_internal cmp xs low high = Some ys \<and> same_outside low high xs ys \<and> sorted_on low (Suc high) ys"
  using assms
proof (induction "high - low" arbitrary: xs low high rule: less_induct)
  case less
  show ?case
  proof (cases "low \<ge> high")
    case True
    then have "kapi_qsort_internal cmp xs low high = Some xs" by (subst kapi_qsort_internal.simps) simp
    moreover have "sorted_on low (Suc high) xs"
    proof -
      have "a = b \<and> xs ! a \<in> carrier" if "low \<le> a \<and> a \<le> b \<and> b < Suc high" for a b
        using that True less.prems by auto
      then show ?thesis unfolding sorted_on_def using cmp_refl by blast
    qed
    ultimately show ?thesis by (auto simp: same_outside_def)
  next
    case False
    have "split_ok low high xs (low + 1) high"
      using False less.prems(2) by (auto simp: split_ok_def)
    from partition_spec[OF this] obtain xs1 j where p: "qsort_partition cmp low high xs (low + 1) high = Some (xs1, j)"
        "same_outside (Suc low) high xs xs1" "split_ok low high xs1 (Suc j) j" by blast
    note ok = p(3)[unfolded split_ok_def]
    define xs2 where "xs2 = (if j > low then swap_elems xs1 low j else xs1)"
    have o2: "same_outside low high xs1 xs2"
      unfolding xs2_def using ok by (auto intro: same_outside_swap) (simp add: same_outside_def)
    have o12: "same_outside low high xs xs2"
      using same_outside_trans[of low high xs xs1 low high xs2] p(2) o2 by (auto simp: same_outside_def)
    have nth2: "xs2 ! k = (if k = j then xs1 ! low else if k = low then xs1 ! j else xs1 ! k)" for k
      using ok by (auto simp: xs2_def nth_swap_elems)
    have c2: "set xs2 \<subseteq> carrier" "length xs2 = length xs"
      using o12 less.prems(1) mset_eq_setD[of xs2 xs] by (auto simp: same_outside_def)
    have left: "\<forall>a. low \<le> a \<and> a < j \<longrightarrow> cmp (xs2 ! a) (xs2 ! j) \<le> 0"
      using ok nth2 by auto
    have right: "\<forall>b. j < b \<and> b \<le> high \<longrightarrow> cmp (xs2 ! j) (xs2 ! b) \<le> 0"
    proof (intro allI impI)
      fix b assume b: "j < b \<and> b \<le> high"
      then have "cmp (xs2 ! b) (xs2 ! j) > 0" using ok nth2 by auto
      moreover have "xs2 ! b \<in> carrier" "xs2 ! j \<in> carrier" using c2 b less.prems(2) by auto
      ultimately show "cmp (xs2 ! j) (xs2 ! b) \<le> 0" using cmp_total by blast
    qed
    obtain xs3 where x3: "(if j > 0 then kapi_qsort_internal cmp xs2 low (j - 1) else Some xs2) = Some xs3"
        "mset xs3 = mset xs2" "length xs3 = length xs2" "\<forall>k. k < low \<or> j \<le> k \<longrightarrow> xs3 ! k = xs2 ! k" "sorted_on low j xs3"
        "\<forall>a. low \<le> a \<and> a < j \<longrightarrow> (\<exists>m. low \<le> m \<and> m < j \<and> xs3 ! a = xs2 ! m)"
    proof (cases "j > 0")
      case True
      have "j - 1 - low < high - low" "j - 1 < length xs2" using False ok c2(2) less.prems(2) by auto
      from less.hyps[OF this(1) c2(1) this(2)] obtain zs where z: "kapi_qsort_internal cmp xs2 low (j - 1) = Some zs"
        "same_outside low (j - 1) xs2 zs" "sorted_on low (Suc (j - 1)) zs" by blast
      have "\<exists>m. low \<le> m \<and> m < j \<and> zs ! a = xs2 ! m" if "low \<le> a" "a < j" for a
        using same_outside_inside[OF z(2), of a] that ok c2(2) less.prems(2) True by force
      then show ?thesis
        using that[of zs] z True by (auto simp: same_outside_def)
    next
      case j0: False
      then show ?thesis using that[of xs2] by (auto simp: sorted_on_def)
    qed
    have c3: "set xs3 \<subseteq> carrier" "high < length xs3"
      using x3(2,3) c2 less.prems(2) mset_eq_setD[of xs3 xs2] by auto
    have "high - (j + 1) < high - low" using False ok by auto
    from less.hyps[OF this c3] obtain ys where y: "kapi_qsort_internal cmp xs3 (j + 1) high = Some ys"
        "same_outside (j + 1) high xs3 ys" "sorted_on (j + 1) (Suc high) ys" by blast
    have ylow: "ys ! k = xs3 ! k" if "k \<le> j" for k using y(2) that by (auto simp: same_outside_def)
    have res: "kapi_qsort_internal cmp xs low high = Some ys"
      by (subst kapi_qsort_internal.simps)
        (simp only: False if_False p(1) x3(1) y(1) xs2_def[symmetric] bind.simps prod.case Let_def)
    have o3: "same_outside low high xs2 ys"
      unfolding same_outside_def
    proof (intro conjI allI impI)
      fix k assume "k < low \<or> high < k"
      then show "ys ! k = xs2 ! k" using x3(4) y(2) ok by (auto simp: same_outside_def)
    qed (use x3(2,3) y(2) in \<open>simp_all add: same_outside_def\<close>)
    have "sorted_on low (Suc high) ys"
    proof (rule sorted_on_join)
      show "sorted_on low j ys" using x3(5) ylow by (auto simp: sorted_on_def)
      show "sorted_on (Suc j) (Suc high) ys" using y(3) by simp
      show "set ys \<subseteq> carrier" "high < length ys" "j \<le> high"
        using o3 c2 less.prems(2) ok mset_eq_setD[of ys xs2] by (auto simp: same_outside_def)
      show "\<forall>a. low \<le> a \<and> a < j \<longrightarrow> cmp (ys ! a) (ys ! j) \<le> 0"
      proof (intro allI impI)
        fix a assume a: "low \<le> a \<and> a < j"
        then obtain m where m: "low \<le> m" "m < j" "xs3 ! a = xs2 ! m" using x3(6) by blast
        have "ys ! j = xs2 ! j" using ylow x3(4) by simp
        then show "cmp (ys ! a) (ys ! j) \<le> 0" using left m a ylow by simp
      qed
      show "\<forall>b. j < b \<and> b \<le> high \<longrightarrow> cmp (ys ! j) (ys ! b) \<le> 0"
      proof (intro allI impI)
        fix b assume b: "j < b \<and> b \<le> high"
        then obtain m where m: "j + 1 \<le> m" "m \<le> high" "ys ! b = xs3 ! m"
          using same_outside_inside[OF y(2), of b] c3(2) by auto
        then have "ys ! b = xs2 ! m" "ys ! j = xs2 ! j" using x3(4) ylow by auto
        then show "cmp (ys ! j) (ys ! b) \<le> 0" using right m by simp
      qed
    qed
    then show ?thesis
      using res same_outside_trans[OF o12 o3] by blast
  qed
qed

lemma qsort_spec:
  assumes "set xs \<subseteq> carrier"
  shows "\<exists>ys. kapi_qsort (Some cmp) (Some xs) = Some (Some ys) \<and> mset ys = mset xs \<and> sorted_wrt (\<lambda>a b. cmp a b \<le> 0) ys"
proof (cases "length xs < 2")
  case True
  then have "sorted_wrt (\<lambda>a b. cmp a b \<le> 0) xs"
    by (cases xs; cases "tl xs") auto
  then show ?thesis using True by (simp add: kapi_qsort_def)
next
  case False
  then have "length xs - 1 < length xs" by simp
  from qsort_internal_spec[OF assms this, of 0] obtain ys where y: "kapi_qsort_internal cmp xs 0 (length xs - 1) = Some ys"
    "same_outside 0 (length xs - 1) xs ys" "sorted_on 0 (Suc (length xs - 1)) ys" by blast
  have "sorted_wrt (\<lambda>a b. cmp a b \<le> 0) ys"
    unfolding sorted_wrt_iff_nth_less using y(2,3) False by (auto simp: sorted_on_def same_outside_def)
  then show ?thesis
    using y(1,2) False by (auto simp: kapi_qsort_def same_outside_def)
qed

end

subsection \<open>Byte blocks compared by memcmp\<close>

lemma memcmp_refl: "length x = n \<Longrightarrow> memcmp x x n = Some 0"
proof (induction n arbitrary: x)
  case (Suc n)
  then show ?case by (cases x) auto
qed simp

lemma memcmp_swap: "length x = n \<Longrightarrow> length y = n \<Longrightarrow> memcmp y x n = map_option uminus (memcmp x y n)"
  by (induction x y n rule: memcmp.induct) auto

lemma memcmp_of_total: "length x = n \<Longrightarrow> length y = n \<Longrightarrow> \<exists>r. memcmp x y n = Some r"
  by (induction x y n rule: memcmp.induct) auto

lemma memcmp_of_trans:
  assumes "length x = n" "length y = n" "length z = n" "memcmp x y n = Some r" "memcmp y z n = Some s" "r \<le> 0" "s \<le> 0"
  shows "\<exists>t \<le> 0. memcmp x z n = Some t"
  using assms
proof (induction x y n arbitrary: z rule: memcmp.induct)
  case (2 a x b y n)
  then obtain c zs where z: "z = c # zs" by (cases z) auto
  show ?case
    using 2 unfolding z by (cases "a = b"; cases "b = c") (auto split: if_splits)
qed auto

definition memcmp_of :: "nat \<Rightarrow> u8 list \<Rightarrow> u8 list \<Rightarrow> int" where
  "memcmp_of n a b = (case memcmp a b n of Some r \<Rightarrow> r | None \<Rightarrow> 0)"

interpretation bytes: comparator "{b. length b = n}" "memcmp_of n"
proof
  fix x :: "u8 list" assume "x \<in> {b. length b = n}"
  then show "memcmp_of n x x \<le> 0" by (simp add: memcmp_of_def memcmp_refl)
next
  fix x y :: "u8 list" assume "x \<in> {b. length b = n}" "y \<in> {b. length b = n}" "memcmp_of n x y > 0"
  then show "memcmp_of n y x \<le> 0"
    using memcmp_of_total[of x n y] by (auto simp: memcmp_of_def memcmp_swap[of x n y])
next
  fix x y z :: "u8 list"
  assume l: "x \<in> {b. length b = n}" "y \<in> {b. length b = n}" "z \<in> {b. length b = n}" and c: "memcmp_of n x y \<le> 0" "memcmp_of n y z \<le> 0"
  obtain r where r: "memcmp x y n = Some r" using memcmp_of_total[of x n y] l by auto
  obtain s where s: "memcmp y z n = Some s" using memcmp_of_total[of y n z] l by auto
  from r s have "\<exists>t \<le> 0. memcmp x z n = Some t"
    using memcmp_of_trans[of x n y z r s] l c by (simp add: memcmp_of_def)
  then show "memcmp_of n x z \<le> 0" by (auto simp: memcmp_of_def)
qed

subsection \<open>Properties\<close>

lemma insertsort_overruns_tmp: "256 < sz \<Longrightarrow> 2 \<le> length xs \<Longrightarrow> kapi_insertsort sz (Some cmp) (Some xs) = None"
  by (simp add: kapi_insertsort_def)

text \<open>C13. The three sorting routines sort: for every comparison function that is a total preorder on
  the elements, \<open>kapi_sort\<close> (quicksort), \<open>kapi_heapsort\<close> and, for elements of at most 256 bytes,
  \<open>kapi_insertsort\<close> return, and leave in the array a permutation of its elements in ascending order.\<close>
theorem kapi_sorts_sort:
  assumes "comparator A cmp" "set xs \<subseteq> A"
  shows "(\<exists>ys. kapi_sort (Some cmp) (Some xs) = Some (Some ys) \<and> mset ys = mset xs \<and> sorted_wrt (\<lambda>a b. cmp a b \<le> 0) ys) \<and>
    (\<exists>ys. kapi_heapsort (Some cmp) (Some xs) = Some ys \<and> mset ys = mset xs \<and> sorted_wrt (\<lambda>a b. cmp a b \<le> 0) ys) \<and>
    (sz \<le> 256 \<longrightarrow> (\<exists>ys. kapi_insertsort sz (Some cmp) (Some xs) = Some (Some ys) \<and> mset ys = mset xs \<and> sorted_wrt (\<lambda>a b. cmp a b \<le> 0) ys))"
  using comparator.qsort_spec[OF assms] comparator.heapsort_spec[OF assms] comparator.insertsort_spec[OF assms, of sz]
  by (simp add: kapi_sort_def)

theorem kapi_sorts_sort_witness:
  "(\<exists>ys. kapi_sort (Some (memcmp_of 2)) (Some [[3, 1], [1, 2], [3, 0]]) = Some (Some ys) \<and>
     mset ys = mset [[3, 1], [1, 2], [3, 0]] \<and> sorted_wrt (\<lambda>a b. memcmp_of 2 a b \<le> 0) ys) \<and>
   (\<exists>ys. kapi_insertsort 2 (Some (memcmp_of 2)) (Some [[3, 1], [1, 2], [3, 0]]) = Some (Some ys) \<and>
     mset ys = mset [[3, 1], [1, 2], [3, 0]] \<and> sorted_wrt (\<lambda>a b. memcmp_of 2 a b \<le> 0) ys)"
proof -
  have "set [[3, 1], [1, 2], [3, 0 :: u8]] \<subseteq> {b. length b = 2}" by simp
  from kapi_sorts_sort[OF bytes.comparator_axioms this, of 2] show ?thesis by simp
qed

end
