(* ===== verification/Timer_Wheel.thy ===== *)
theory Timer_Wheel
  imports Timer
begin

section \<open>The timer wheel and high-resolution timers\<close>

text \<open>
  The rest of \<open>kernel/kernel/timer.c\<close>. The wheel has four levels of 256 lists; a list holds the
  addresses of its timers in order, and \<open>tw_timers\<close> gives the object at an address. An enqueued
  timer goes to the end of its list. The state extends the process table, which the callback of
  \<open>msleep\<close> changes; every callback that is called is recorded in \<open>tw_fired\<close> with its timer, newest last. Removing a
  timer works on the \<open>next\<close> and \<open>prev\<close> pointers and is modelled on those.
\<close>

datatype timer_callback = Msleep_Wakeup | Callback u64

record timer_entry =
  te_expires :: u64
  te_callback :: "timer_callback option"
  te_arg :: u64
  te_flags :: u32
  te_state :: u32

record hrtimer =
  hr_callback :: "u64 option"
  hr_arg :: u64
  hr_start_ns :: u64
  hr_expire_ns :: u64
  hr_active :: bool
  hr_oneshot :: bool

record timer_state = process_state +
  tw_lists :: "nat \<Rightarrow> nat \<Rightarrow> u64 list"
  tw_timers :: "u64 \<Rightarrow> timer_entry"
  tw_jiffies :: u64
  tw_next_expire :: u64
  tw_fired :: "(u64 \<times> timer_callback \<times> u64) list"
  hr_list :: "u64 list"
  hr_timers :: "u64 \<Rightarrow> hrtimer"
  hr_fired :: "(u64 \<times> u64) list"

definition TIMER_WHEEL_BITS :: nat where "TIMER_WHEEL_BITS = 8"
definition TIMER_WHEEL_MASK :: u64 where "TIMER_WHEEL_MASK = 0xff"
definition TIMER_WHEEL_LEVELS :: nat where "TIMER_WHEEL_LEVELS = 4"
definition TIMER_FLAG_ONESHOT :: u32 where "TIMER_FLAG_ONESHOT = 1"

abbreviation (input) TIMER_INACTIVE :: u32 where "TIMER_INACTIVE \<equiv> 0"
abbreviation (input) TIMER_ACTIVE :: u32 where "TIMER_ACTIVE \<equiv> 1"
abbreviation (input) TIMER_EXPIRED :: u32 where "TIMER_EXPIRED \<equiv> 2"

subsection \<open>The wheel\<close>

definition timer_wheel_init :: "timer_state \<Rightarrow> timer_state" where
  "timer_wheel_init st = st\<lparr>tw_lists := \<lambda>_ _. [], tw_jiffies := 0, tw_next_expire := - 1\<rparr>"

definition timer_get_jiffies :: "timer_state \<Rightarrow> u64" where
  "timer_get_jiffies st = tw_jiffies st"

definition calc_index :: "u64 \<Rightarrow> u64 \<Rightarrow> nat \<times> nat" where
  "calc_index expires now =
     (let delta = expires - now;
          level = (if delta < push_bit (TIMER_WHEEL_BITS * 1) 1 then 0
                   else if delta < push_bit (TIMER_WHEEL_BITS * 2) 1 then 1
                   else if delta < push_bit (TIMER_WHEEL_BITS * 3) 1 then 2 else 3)
      in (level, unat (drop_bit (TIMER_WHEEL_BITS * level) expires AND TIMER_WHEEL_MASK)))"

definition set_timer :: "timer_state \<Rightarrow> u64 \<Rightarrow> timer_entry \<Rightarrow> timer_state" where
  "set_timer st t e = st\<lparr>tw_timers := (tw_timers st)(t := e)\<rparr>"

definition set_list :: "timer_state \<Rightarrow> nat \<Rightarrow> nat \<Rightarrow> u64 list \<Rightarrow> timer_state" where
  "set_list st l i ts = st\<lparr>tw_lists := (tw_lists st)(l := (tw_lists st l)(i := ts))\<rparr>"

definition timer_enqueue :: "timer_state \<Rightarrow> u64 \<Rightarrow> timer_state" where
  "timer_enqueue st t =
     (let e = tw_timers st t; (level, idx) = calc_index (te_expires e) (tw_jiffies st);
          st1 = set_list st level idx (tw_lists st level idx @ [t]);
          st2 = set_timer st1 t (e\<lparr>te_state := TIMER_ACTIVE\<rparr>)
      in if te_expires e < tw_next_expire st then st2\<lparr>tw_next_expire := te_expires e\<rparr> else st2)"

definition cascade :: "timer_state \<Rightarrow> nat \<Rightarrow> timer_state" where
  "cascade st level =
     (if level \<ge> TIMER_WHEEL_LEVELS - 1 then st
      else let idx = unat (drop_bit (TIMER_WHEEL_BITS * (level + 1)) (tw_jiffies st) AND TIMER_WHEEL_MASK);
               ts = tw_lists st (level + 1) idx
        in fold (\<lambda>t st. timer_enqueue st t) ts (set_list st (level + 1) idx []))"

text \<open>The argument of the callback of \<open>msleep\<close> is the index of the sleeping process.\<close>

definition run_callback :: "u64 \<Rightarrow> timer_callback \<Rightarrow> u64 \<Rightarrow> timer_state \<Rightarrow> timer_state" where
  "run_callback t cb arg st =
     (let st1 = st\<lparr>tw_fired := tw_fired st @ [(t, cb, arg)]\<rparr>
      in case cb of Msleep_Wakeup \<Rightarrow> set_state st1 (unat arg) PROCESS_READY | Callback _ \<Rightarrow> st1)"

definition expire_one :: "timer_state \<Rightarrow> u64 \<Rightarrow> timer_state" where
  "expire_one st t =
     (let st1 = set_timer st t ((tw_timers st t)\<lparr>te_state := TIMER_EXPIRED\<rparr>);
          st2 = (case te_callback (tw_timers st1 t) of None \<Rightarrow> st1
                 | Some cb \<Rightarrow> run_callback t cb (te_arg (tw_timers st1 t)) st1);
          e = tw_timers st2 t
      in if te_flags e AND TIMER_FLAG_ONESHOT = 0
         then timer_enqueue (set_timer st2 t (e\<lparr>te_expires := te_expires e + timer_ms_to_jiffies 1\<rparr>)) t
         else st2)"

definition expire_level0 :: "timer_state \<Rightarrow> timer_state" where
  "expire_level0 st =
     (let idx = unat (tw_jiffies st AND TIMER_WHEEL_MASK); ts = tw_lists st 0 idx;
          st1 = fold (\<lambda>t st. expire_one st t) ts (set_list st 0 idx [])
      in if idx = 0 then cascade st1 0 else st1)"

text \<open>The part of \<open>timer_tick\<close> under \<open>tw.lock\<close>. Callbacks are code outside the wheel: their calls are recorded in order,
  and the model describes callbacks that do not start or cancel timers.\<close>

definition wheel_tick :: "timer_state \<Rightarrow> timer_state" where
  "wheel_tick st =
     (let st1 = expire_level0 (st\<lparr>tw_jiffies := tw_jiffies st + 1\<rparr>);
          busy = list_ex (\<lambda>l. tw_lists st1 l (unat (drop_bit (TIMER_WHEEL_BITS * l) (tw_jiffies st1) AND TIMER_WHEEL_MASK)) \<noteq> [])
                   [0..<TIMER_WHEEL_LEVELS]
      in st1\<lparr>tw_next_expire := (if busy then tw_jiffies st1 else - 1)\<rparr>)"

definition timer_add ::
  "timer_state \<Rightarrow> u64 \<Rightarrow> u64 \<Rightarrow> timer_callback option \<Rightarrow> u64 \<Rightarrow> int \<times> timer_state" where
  "timer_add st t expires_ms cb arg =
     (if t = 0 \<or> cb = None then (- 1, st)
      else (0, timer_enqueue (set_timer st t \<lparr>te_expires = tw_jiffies st + timer_ms_to_jiffies expires_ms,
                  te_callback = cb, te_arg = arg, te_flags = 0, te_state = 0\<rparr>) t))"

definition timer_add_oneshot ::
  "timer_state \<Rightarrow> u64 \<Rightarrow> u64 \<Rightarrow> timer_callback option \<Rightarrow> u64 \<Rightarrow> int \<times> timer_state" where
  "timer_add_oneshot st t expires_ms cb arg =
     (let (ret, st1) = timer_add st t expires_ms cb arg
      in (ret, if ret = 0 then set_timer st1 t ((tw_timers st1 t)\<lparr>te_flags := te_flags (tw_timers st1 t) OR TIMER_FLAG_ONESHOT\<rparr>)
               else st1))"

definition timer_pending :: "timer_state \<Rightarrow> u64 \<Rightarrow> bool" where
  "timer_pending st t \<longleftrightarrow> t \<noteq> 0 \<and> te_state (tw_timers st t) = TIMER_ACTIVE"

text \<open>\<open>msleep\<close> up to the yield; \<open>t\<close> is the address of the timer on the caller's stack.\<close>

definition msleep_enter :: "timer_state \<Rightarrow> u64 \<Rightarrow> u64 \<Rightarrow> timer_state" where
  "msleep_enter st t ms =
     set_state (snd (timer_add_oneshot st t ms (Some Msleep_Wakeup) (of_nat (current_process st)))) (current_process st) 3"

definition usleep_enter :: "timer_state \<Rightarrow> u64 \<Rightarrow> u64 \<Rightarrow> timer_state" where
  "usleep_enter st t us = msleep_enter st t ((us + 999) div 1000)"

subsection \<open>Removal from the wheel\<close>

text \<open>
  \<open>links\<close> gives the \<open>next\<close> and \<open>prev\<close> pointers of each timer. The result is \<open>None\<close> when a null
  pointer is dereferenced; otherwise it says whether the bucket of the timer was emptied.
\<close>

type_synonym links = "u64 \<Rightarrow> u64 \<times> u64"

definition timer_dequeue :: "links \<Rightarrow> u64 \<Rightarrow> (bool \<times> links) option" where
  "timer_dequeue ln t =
     (let nx = fst (ln t); pv = snd (ln t) in
      if nx = t then Some (True, ln(t := (0, 0)))
      else if pv = 0 then None
      else let ln1 = ln(pv := (nx, snd (ln pv))) in
        if fst (ln1 t) = 0 then None
        else let nx1 = fst (ln1 t); ln2 = ln1(nx1 := (fst (ln1 nx1), snd (ln1 t)))
          in Some (False, ln2(t := (0, 0))))"

definition timer_del :: "links \<Rightarrow> timer_state \<Rightarrow> u64 \<Rightarrow> (int \<times> links \<times> timer_state) option" where
  "timer_del ln st t =
     (if t = 0 \<or> te_state (tw_timers st t) \<noteq> TIMER_ACTIVE then Some (- 1, ln, st)
      else map_option (\<lambda>(_, ln'). (0, ln', set_timer st t ((tw_timers st t)\<lparr>te_state := TIMER_INACTIVE\<rparr>))) (timer_dequeue ln t))"

subsection \<open>High-resolution timers\<close>

fun hrtimer_insert :: "(u64 \<Rightarrow> hrtimer) \<Rightarrow> u64 \<Rightarrow> u64 list \<Rightarrow> u64 list" where
  "hrtimer_insert tm t [] = [t]"
| "hrtimer_insert tm t (c # cs) =
     (if hr_expire_ns (tm c) < hr_expire_ns (tm t) then c # hrtimer_insert tm t cs else t # c # cs)"

text \<open>\<open>now\<close> is the value of \<open>hpet_get_ticks\<close>; \<open>None\<close> means that the loop does not end.\<close>

partial_function (option) hrtimer_expire :: "u64 \<Rightarrow> timer_state \<Rightarrow> timer_state option" where
  "hrtimer_expire now st =
     (case hr_list st of
        [] \<Rightarrow> Some st
      | t # ts \<Rightarrow>
          let tm = hr_timers st t in
          if hr_expire_ns tm > now then Some st
          else let st1 = st\<lparr>hr_list := ts, hr_timers := (hr_timers st)(t := tm\<lparr>hr_active := False\<rparr>)\<rparr>;
                   st2 = (case hr_callback tm of None \<Rightarrow> st1 | Some cb \<Rightarrow> st1\<lparr>hr_fired := hr_fired st1 @ [(cb, hr_arg tm)]\<rparr>);
                   tm2 = hr_timers st2 t;
                   tms = (hr_timers st2)(t := tm2\<lparr>hr_start_ns := now, hr_expire_ns := now + (hr_expire_ns tm2 - hr_start_ns tm2), hr_active := True\<rparr>);
                   st3 = (if hr_oneshot tm2 then st2 else st2\<lparr>hr_timers := tms, hr_list := hrtimer_insert tms t (hr_list st2)\<rparr>)
            in hrtimer_expire now st3)"

definition timer_tick :: "u64 \<Rightarrow> timer_state \<Rightarrow> timer_state option" where
  "timer_tick now st = hrtimer_expire now (wheel_tick st)"

definition hrtimer_start :: "u64 \<Rightarrow> timer_state \<Rightarrow> u64 \<Rightarrow> u64 \<Rightarrow> u64 option \<Rightarrow> u64 \<Rightarrow> int \<times> timer_state" where
  "hrtimer_start now st t ns cb arg =
     (if t = 0 \<or> cb = None \<or> ns = 0 then (- 1, st)
      else let tms = (hr_timers st)(t := \<lparr>hr_callback = cb, hr_arg = arg, hr_start_ns = now, hr_expire_ns = now + ns,
                        hr_active = True, hr_oneshot = True\<rparr>)
        in (0, st\<lparr>hr_timers := tms, hr_list := hrtimer_insert tms t (hr_list st)\<rparr>))"

definition hrtimer_cancel :: "timer_state \<Rightarrow> u64 \<Rightarrow> int \<times> timer_state" where
  "hrtimer_cancel st t =
     (if t = 0 then (- 1, st)
      else if t \<in> set (hr_list st)
      then (0, st\<lparr>hr_list := remove1 t (hr_list st), hr_timers := (hr_timers st)(t := (hr_timers st t)\<lparr>hr_active := False\<rparr>)\<rparr>)
      else (0, st))"

definition hrtimer_get_resolution :: u64 where
  "hrtimer_get_resolution = 1000"

subsection \<open>One timer among the others\<close>

text \<open>
  \<open>waits_in st t l b\<close>: the timer is on the list \<open>b\<close> of level \<open>l\<close>, once, and on no other list.
  \<open>fired_of st t\<close> are the calls of its callback so far.
\<close>

definition waits_in :: "timer_state \<Rightarrow> u64 \<Rightarrow> nat \<Rightarrow> nat \<Rightarrow> bool" where
  "waits_in st t l b \<longleftrightarrow> (\<forall>l' i. count_list (tw_lists st l' i) t = (if l' = l \<and> i = b then 1 else 0))"

definition idle :: "timer_state \<Rightarrow> u64 \<Rightarrow> bool" where
  "idle st t \<longleftrightarrow> (\<forall>l i. t \<notin> set (tw_lists st l i))"

definition fired_of :: "timer_state \<Rightarrow> u64 \<Rightarrow> (timer_callback \<times> u64) list" where
  "fired_of st t = map snd (filter (\<lambda>e. fst e = t) (tw_fired st))"

definition unmoved :: "u64 \<Rightarrow> timer_state \<Rightarrow> timer_state \<Rightarrow> bool" where
  "unmoved t st st' \<longleftrightarrow> (\<forall>l i. count_list (tw_lists st' l i) t = count_list (tw_lists st l i) t) \<and>
     tw_timers st' t = tw_timers st t \<and> fired_of st' t = fired_of st t \<and> tw_jiffies st' = tw_jiffies st"

lemma unmoved_refl [simp]: "unmoved t st st"
  by (simp add: unmoved_def)

lemma unmoved_trans: "unmoved t a b \<Longrightarrow> unmoved t b c \<Longrightarrow> unmoved t a c"
  by (simp add: unmoved_def)

lemma set_list_simps [simp]:
  "tw_timers (set_list st l i ts) = tw_timers st" "tw_jiffies (set_list st l i ts) = tw_jiffies st"
  "tw_fired (set_list st l i ts) = tw_fired st" "tw_next_expire (set_list st l i ts) = tw_next_expire st"
  "tw_lists (set_list st l i ts) l' i' = (if l' = l \<and> i' = i then ts else tw_lists st l' i')"
  by (auto simp: set_list_def)

lemma set_timer_simps [simp]:
  "tw_timers (set_timer st t e) t' = (if t' = t then e else tw_timers st t')" "tw_jiffies (set_timer st t e) = tw_jiffies st"
  "tw_fired (set_timer st t e) = tw_fired st" "tw_lists (set_timer st t e) = tw_lists st"
  "tw_next_expire (set_timer st t e) = tw_next_expire st"
  by (auto simp: set_timer_def)

lemma set_state_timer [simp]:
  "tw_timers (set_state st i s) = tw_timers st" "tw_jiffies (set_state st i s) = tw_jiffies st"
  "tw_fired (set_state st i s) = tw_fired st" "tw_lists (set_state st i s) = tw_lists st"
  "tw_next_expire (set_state st i s) = tw_next_expire st"
  by (simp_all add: set_state_def)

lemma timer_enqueue_simps:
  "tw_lists (timer_enqueue st t) l i =
     (if (l, i) = calc_index (te_expires (tw_timers st t)) (tw_jiffies st) then tw_lists st l i @ [t] else tw_lists st l i)"
  "tw_timers (timer_enqueue st t) t' = (if t' = t then (tw_timers st t)\<lparr>te_state := TIMER_ACTIVE\<rparr> else tw_timers st t')"
  "tw_jiffies (timer_enqueue st t) = tw_jiffies st" "tw_fired (timer_enqueue st t) = tw_fired st"
  by (auto simp: timer_enqueue_def Let_def split: prod.splits)

lemma enqueue_unmoved: "t' \<noteq> t \<Longrightarrow> unmoved t st (timer_enqueue st t')"
  by (simp add: unmoved_def timer_enqueue_simps fired_of_def)

lemma run_callback_simps [simp]:
  "tw_lists (run_callback t cb arg st) = tw_lists st" "tw_timers (run_callback t cb arg st) = tw_timers st"
  "tw_jiffies (run_callback t cb arg st) = tw_jiffies st" "tw_fired (run_callback t cb arg st) = tw_fired st @ [(t, cb, arg)]"
  by (simp_all add: run_callback_def Let_def split: timer_callback.splits)

lemma expire_one_unmoved: "t' \<noteq> t \<Longrightarrow> unmoved t st (expire_one st t')"
  by (auto simp: expire_one_def Let_def unmoved_def timer_enqueue_simps fired_of_def split: option.splits)

lemma fold_unmoved:
  assumes "\<And>t' s. t' \<noteq> t \<Longrightarrow> unmoved t s (f t' s)" "t \<notin> set ts"
  shows "unmoved t st (fold f ts st)"
  using assms(2)
proof (induction ts arbitrary: st)
  case (Cons t' ts)
  then show ?case using unmoved_trans[OF assms(1)[of t' st] Cons.IH] by auto
qed simp

lemma expire_one_oneshot:
  assumes "te_flags (tw_timers st t) AND TIMER_FLAG_ONESHOT \<noteq> 0" "te_callback (tw_timers st t) = Some cb"
  shows "tw_lists (expire_one st t) = tw_lists st" "fired_of (expire_one st t) t = fired_of st t @ [(cb, te_arg (tw_timers st t))]"
    "tw_timers (expire_one st t) t = (tw_timers st t)\<lparr>te_state := TIMER_EXPIRED\<rparr>" "tw_jiffies (expire_one st t) = tw_jiffies st"
  using assms by (simp_all add: expire_one_def Let_def fired_of_def)

lemma cascade_unmoved:
  assumes "\<And>i. t \<notin> set (tw_lists st (Suc level) i)"
  shows "unmoved t st (cascade st level)"
proof (cases "level \<ge> TIMER_WHEEL_LEVELS - 1")
  case False
  let ?idx = "unat (drop_bit (TIMER_WHEEL_BITS * (level + 1)) (tw_jiffies st) AND TIMER_WHEEL_MASK)"
  have "unmoved t st (set_list st (Suc level) ?idx [])"
    using assms by (auto simp: unmoved_def fired_of_def count_list_0_iff)
  moreover have "unmoved t (set_list st (Suc level) ?idx []) (fold (\<lambda>t st. timer_enqueue st t) (tw_lists st (Suc level) ?idx) (set_list st (Suc level) ?idx []))"
    using assms by (intro fold_unmoved enqueue_unmoved)
  ultimately have "unmoved t st (fold (\<lambda>t st. timer_enqueue st t) (tw_lists st (Suc level) ?idx) (set_list st (Suc level) ?idx []))"
    by (rule unmoved_trans)
  then show ?thesis using False by (simp add: cascade_def Let_def)
qed (simp add: cascade_def)

lemma waits_in_notin: "waits_in st t l b \<Longrightarrow> (l', i) \<noteq> (l, b) \<Longrightarrow> t \<notin> set (tw_lists st l' i)"
  by (auto simp: waits_in_def count_list_0_iff[symmetric])

lemma unmoved_waits_in: "unmoved t st st' \<Longrightarrow> waits_in st t l b \<Longrightarrow> waits_in st' t l b"
  by (simp add: unmoved_def waits_in_def)

lemma unmoved_idle: "unmoved t st st' \<Longrightarrow> idle st t \<Longrightarrow> idle st' t"
  by (simp add: unmoved_def idle_def count_list_0_iff[symmetric])

text \<open>A tick for another list leaves the timer alone; the tick for its list fires it.\<close>

lemma wheel_tick_other:
  assumes "waits_in st t 0 b" "unat ((tw_jiffies st + 1) AND TIMER_WHEEL_MASK) \<noteq> b"
  shows "waits_in (wheel_tick st) t 0 b" "fired_of (wheel_tick st) t = fired_of st t"
    "tw_timers (wheel_tick st) t = tw_timers st t" "tw_jiffies (wheel_tick st) = tw_jiffies st + 1"
proof -
  define s0 where "s0 = st\<lparr>tw_jiffies := tw_jiffies st + 1\<rparr>"
  let ?idx = "unat (tw_jiffies s0 AND TIMER_WHEEL_MASK)"
  define s1 where "s1 = fold (\<lambda>t st. expire_one st t) (tw_lists s0 0 ?idx) (set_list s0 0 ?idx [])"
  have w0: "waits_in s0 t 0 b" "fired_of s0 t = fired_of st t" "tw_timers s0 t = tw_timers st t" "tw_jiffies s0 = tw_jiffies st + 1"
    using assms(1) by (simp_all add: s0_def waits_in_def fired_of_def)
  have n: "t \<notin> set (tw_lists s0 0 ?idx)"
    using assms(2) w0(1) by (intro waits_in_notin[OF w0(1)]) (auto simp: s0_def)
  have "unmoved t s0 (set_list s0 0 ?idx [])"
    using n by (auto simp: unmoved_def fired_of_def count_list_0_iff)
  then have u1: "unmoved t s0 s1"
    unfolding s1_def using fold_unmoved[OF _ n, of "\<lambda>t st. expire_one st t"] expire_one_unmoved unmoved_trans by blast
  then have w1: "waits_in s1 t 0 b" using w0(1) unmoved_waits_in by blast
  have "unmoved t s1 (if ?idx = 0 then cascade s1 0 else s1)"
    using cascade_unmoved[of t s1 0] waits_in_notin[OF w1] by simp
  then have u: "unmoved t s0 (expire_level0 s0)"
    using u1 unmoved_trans unfolding expire_level0_def Let_def s1_def by blast
  have "unmoved t s0 (wheel_tick st)"
    using u by (simp add: wheel_tick_def Let_def s0_def[symmetric] unmoved_def fired_of_def)
  then show "waits_in (wheel_tick st) t 0 b" "fired_of (wheel_tick st) t = fired_of st t"
    "tw_timers (wheel_tick st) t = tw_timers st t" "tw_jiffies (wheel_tick st) = tw_jiffies st + 1"
    using w0 unmoved_waits_in[of t s0 "wheel_tick st"] by (simp_all add: unmoved_def)
qed

lemma wheel_tick_due:
  assumes "waits_in st t 0 b" "unat ((tw_jiffies st + 1) AND TIMER_WHEEL_MASK) = b"
    "te_flags (tw_timers st t) AND TIMER_FLAG_ONESHOT \<noteq> 0" "te_callback (tw_timers st t) = Some cb"
  shows "idle (wheel_tick st) t" "fired_of (wheel_tick st) t = fired_of st t @ [(cb, te_arg (tw_timers st t))]"
    "\<not> timer_pending (wheel_tick st) t"
proof -
  define s0 where "s0 = st\<lparr>tw_jiffies := tw_jiffies st + 1\<rparr>"
  have b: "unat (tw_jiffies s0 AND TIMER_WHEEL_MASK) = b" using assms(2) by (simp add: s0_def)
  have w0: "waits_in s0 t 0 b" "fired_of s0 t = fired_of st t" "tw_timers s0 t = tw_timers st t"
    using assms(1) by (simp_all add: s0_def waits_in_def fired_of_def)
  have "count_list (tw_lists s0 0 b) t = 1" using w0(1) by (simp add: waits_in_def)
  then have "t \<in> set (tw_lists s0 0 b)" by (metis count_list_0_iff zero_neq_one)
  then obtain xs ys where l: "tw_lists s0 0 b = xs @ t # ys" "t \<notin> set xs"
    by (meson split_list_first)
  moreover have "t \<notin> set ys"
    using \<open>count_list (tw_lists s0 0 b) t = 1\<close> l by (simp add: count_list_append count_list_0_iff[symmetric])
  ultimately have n: "t \<notin> set xs" "t \<notin> set ys" by blast+
  let ?e = "\<lambda>t st. expire_one st t"
  define s1 where "s1 = fold ?e xs (set_list s0 0 b [])"
  have i0: "idle (set_list s0 0 b []) t"
    using waits_in_notin[OF w0(1)] by (auto simp: idle_def)
  have u1: "unmoved t (set_list s0 0 b []) s1"
    unfolding s1_def using n(1) by (intro fold_unmoved expire_one_unmoved)
  have s1: "idle s1 t" "fired_of s1 t = fired_of st t" "tw_timers s1 t = tw_timers st t"
    using u1 unmoved_idle[OF u1 i0] w0 by (simp_all add: unmoved_def fired_of_def)
  define s2 where "s2 = expire_one s1 t"
  have s2: "idle s2 t" "fired_of s2 t = fired_of st t @ [(cb, te_arg (tw_timers st t))]"
    "tw_timers s2 t = (tw_timers st t)\<lparr>te_state := TIMER_EXPIRED\<rparr>"
    using expire_one_oneshot[of s1 t cb] assms(3,4) s1 by (simp_all add: s2_def idle_def)
  define s3 where "s3 = fold ?e ys s2"
  have u3: "unmoved t s2 s3"
    unfolding s3_def using n(2) by (intro fold_unmoved expire_one_unmoved)
  have "idle s3 t" using unmoved_idle[OF u3 s2(1)] .
  then have "unmoved t s3 (if b = 0 then cascade s3 0 else s3)"
    using cascade_unmoved[of t s3 0] by (simp add: idle_def)
  moreover have "expire_level0 s0 = (if b = 0 then cascade s3 0 else s3)"
    unfolding expire_level0_def Let_def b l(1) by (simp add: s3_def s2_def s1_def)
  ultimately have u: "unmoved t s2 (expire_level0 s0)" using unmoved_trans[OF u3] by (simp only:)
  have "unmoved t s2 (wheel_tick st)"
    using u by (simp add: wheel_tick_def Let_def s0_def[symmetric] unmoved_def fired_of_def)
  then show "idle (wheel_tick st) t" "fired_of (wheel_tick st) t = fired_of st t @ [(cb, te_arg (tw_timers st t))]"
    "\<not> timer_pending (wheel_tick st) t"
    using s2 unmoved_idle[of t s2 "wheel_tick st"] by (simp_all add: unmoved_def timer_pending_def)
qed

lemma wheel_index: "unat (x AND TIMER_WHEEL_MASK) = unat x mod 256"
  using unat_mod_pow2_mask[of 8 x] by (simp add: TIMER_WHEEL_MASK_def)

lemma unat_add_mod_256: "unat (x + of_nat k :: u64) mod 256 = (unat x + k) mod 256"
proof -
  have d: "(256 :: nat) dvd 2 ^ 64" by simp
  have "unat (x + of_nat k) = (unat x + k) mod 2 ^ 64"
    by (simp add: unat_word_ariths unat_of_nat mod_add_right_eq)
  then show ?thesis by (simp only: mod_mod_cancel[OF d])
qed

lemma wheel_ticks_waiting:
  assumes "waits_in st t 0 b" "b = (unat (tw_jiffies st) + d) mod 256" "d < 256" "k < d"
  shows "waits_in ((wheel_tick ^^ k) st) t 0 b \<and> fired_of ((wheel_tick ^^ k) st) t = fired_of st t \<and>
    tw_timers ((wheel_tick ^^ k) st) t = tw_timers st t \<and> tw_jiffies ((wheel_tick ^^ k) st) = tw_jiffies st + of_nat k"
  using assms(4)
proof (induction k)
  case 0
  then show ?case using assms(1) by simp
next
  case (Suc k)
  let ?s = "(wheel_tick ^^ k) st"
  have IH: "waits_in ?s t 0 b" "fired_of ?s t = fired_of st t" "tw_timers ?s t = tw_timers st t" "tw_jiffies ?s = tw_jiffies st + of_nat k"
    using Suc by simp_all
  have j: "tw_jiffies ?s + 1 = tw_jiffies st + of_nat (Suc k)" using IH(4) by (simp add: algebra_simps)
  have "(unat (tw_jiffies st) + Suc k) mod 256 \<noteq> (unat (tw_jiffies st) + d) mod 256"
  proof
    assume "(unat (tw_jiffies st) + Suc k) mod 256 = (unat (tw_jiffies st) + d) mod 256"
    then have "Suc k mod 256 = d mod 256" by (simp add: nat_mod_eq_iff add.assoc)
    then show False using Suc.prems assms(3) by simp
  qed
  then have "unat ((tw_jiffies ?s + 1) AND TIMER_WHEEL_MASK) \<noteq> b"
    using assms(2) unat_add_mod_256[of "tw_jiffies st" "Suc k"] unfolding j wheel_index by simp
  from wheel_tick_other[OF IH(1) this] IH show ?case
    by (simp add: algebra_simps)
qed

lemma timer_add_oneshot_waits:
  assumes "idle st t" "t \<noteq> 0" "0 < ms" "unat ms < 256"
  shows "\<exists>st1. timer_add_oneshot st t ms (Some cb) arg = (0, st1) \<and>
    waits_in st1 t 0 ((unat (tw_jiffies st) + unat ms) mod 256) \<and> tw_jiffies st1 = tw_jiffies st \<and> fired_of st1 t = fired_of st t \<and>
    te_flags (tw_timers st1 t) AND TIMER_FLAG_ONESHOT \<noteq> 0 \<and> te_callback (tw_timers st1 t) = Some cb \<and>
    te_arg (tw_timers st1 t) = arg \<and> timer_pending st1 t"
proof -
  let ?e = "\<lparr>te_expires = tw_jiffies st + timer_ms_to_jiffies ms, te_callback = Some cb, te_arg = arg, te_flags = 0, te_state = 0\<rparr>"
  let ?s = "timer_enqueue (set_timer st t ?e) t"
  define st1 where "st1 = set_timer ?s t ((tw_timers ?s t)\<lparr>te_flags := te_flags (tw_timers ?s t) OR TIMER_FLAG_ONESHOT\<rparr>)"
  have ms: "timer_ms_to_jiffies ms = ms"
    using assms(3) by (auto simp: timer_ms_to_jiffies_def TIMER_TICK_MS_def)
  have "ms < 256" using assms(4) by (simp add: word_less_nat_alt)
  then have "calc_index (tw_jiffies st + ms) (tw_jiffies st) = (0, (unat (tw_jiffies st) + unat ms) mod 256)"
    using unat_add_mod_256[of "tw_jiffies st" "unat ms"]
    by (simp add: calc_index_def Let_def TIMER_WHEEL_BITS_def wheel_index)
  then have "waits_in st1 t 0 ((unat (tw_jiffies st) + unat ms) mod 256)"
    using assms(1) by (auto simp: waits_in_def st1_def timer_enqueue_simps ms idle_def count_list_append count_list_0_iff)
  moreover have "timer_add_oneshot st t ms (Some cb) arg = (0, st1)"
    using assms(2) by (simp add: timer_add_oneshot_def timer_add_def st1_def Let_def)
  ultimately show ?thesis
    using assms(2) by (simp add: st1_def timer_enqueue_simps fired_of_def timer_pending_def TIMER_FLAG_ONESHOT_def)
qed

text \<open>A timer due at the first tick of a round comes from level 1 too late: its list at level 0 was just served.\<close>

lemma timer_cascade_late:
  assumes "waits_in st t 1 b" "e = te_expires (tw_timers st t)" "b = unat (drop_bit 8 e AND TIMER_WHEEL_MASK)"
    "tw_jiffies st + 1 = e" "unat e mod 256 = 0"
  shows "fired_of (wheel_tick st) t = fired_of st t \<and> waits_in (wheel_tick st) t 0 0"
proof -
  define s0 where "s0 = st\<lparr>tw_jiffies := tw_jiffies st + 1\<rparr>"
  have idx: "unat (tw_jiffies s0 AND TIMER_WHEEL_MASK) = 0" using assms(4,5) by (simp add: s0_def wheel_index)
  have w0: "waits_in s0 t 1 b" "fired_of s0 t = fired_of st t" "tw_timers s0 t = tw_timers st t" "tw_jiffies s0 = e"
    using assms(1,4) by (simp_all add: s0_def waits_in_def fired_of_def)
  define s1 where "s1 = fold (\<lambda>t st. expire_one st t) (tw_lists s0 0 0) (set_list s0 0 0 [])"
  have n: "t \<notin> set (tw_lists s0 0 0)" by (rule waits_in_notin[OF w0(1)]) simp
  have "unmoved t s0 (set_list s0 0 0 [])"
    using n by (auto simp: unmoved_def fired_of_def count_list_0_iff)
  moreover have "unmoved t (set_list s0 0 0 []) s1"
    unfolding s1_def by (rule fold_unmoved[OF expire_one_unmoved n])
  ultimately have u1: "unmoved t s0 s1" by (rule unmoved_trans)
  have w1: "waits_in s1 t 1 b" by (rule unmoved_waits_in[OF u1 w0(1)])
  have s1: "tw_jiffies s1 = e" "tw_timers s1 t = tw_timers st t" "fired_of s1 t = fired_of st t"
    using u1 w0 by (simp_all add: unmoved_def)
  have b: "unat (drop_bit (TIMER_WHEEL_BITS * (0 + 1)) (tw_jiffies s1) AND TIMER_WHEEL_MASK) = b"
    using assms(3) s1(1) by (simp add: TIMER_WHEEL_BITS_def)
  have c1: "count_list (tw_lists s1 1 b) t = 1" using w1 by (simp add: waits_in_def)
  then have "t \<in> set (tw_lists s1 1 b)" by (metis count_list_0_iff zero_neq_one)
  then obtain xs ys where l: "tw_lists s1 1 b = xs @ t # ys" "t \<notin> set xs" by (meson split_list_first)
  have ny: "t \<notin> set ys" using c1 l by (simp add: count_list_append count_list_0_iff[symmetric])
  let ?q = "\<lambda>t st. timer_enqueue st t"
  define s2 where "s2 = fold ?q xs (set_list s1 1 b [])"
  have i: "idle (set_list s1 1 b []) t" using waits_in_notin[OF w1] by (auto simp: idle_def)
  have u2: "unmoved t (set_list s1 1 b []) s2"
    unfolding s2_def by (rule fold_unmoved[OF enqueue_unmoved l(2)])
  have s2: "idle s2 t" "tw_jiffies s2 = e" "tw_timers s2 t = tw_timers st t" "fired_of s2 t = fired_of st t"
    using unmoved_idle[OF u2 i] u2 s1 by (simp_all add: unmoved_def fired_of_def)
  have "calc_index e e = (0, 0)"
    using assms(5) by (simp add: calc_index_def Let_def TIMER_WHEEL_BITS_def wheel_index)
  then have w3: "waits_in (timer_enqueue s2 t) t 0 0" "fired_of (timer_enqueue s2 t) t = fired_of st t"
    using s2 assms(2) by (auto simp: waits_in_def timer_enqueue_simps idle_def fired_of_def count_list_append count_list_0_iff)
  have u3: "unmoved t (timer_enqueue s2 t) (fold ?q ys (timer_enqueue s2 t))"
    by (rule fold_unmoved[OF enqueue_unmoved ny])
  have "cascade s1 0 = fold ?q ys (timer_enqueue s2 t)"
    unfolding cascade_def Let_def b using l(1) by (simp add: TIMER_WHEEL_LEVELS_def s2_def)
  then have "expire_level0 s0 = fold ?q ys (timer_enqueue s2 t)"
    unfolding expire_level0_def Let_def idx by (simp add: s1_def)
  then have "waits_in (expire_level0 s0) t 0 0" "fired_of (expire_level0 s0) t = fired_of st t"
    using unmoved_waits_in[OF u3 w3(1)] u3 w3(2) by (simp_all add: unmoved_def)
  then show ?thesis
    by (simp add: wheel_tick_def Let_def s0_def[symmetric] waits_in_def fired_of_def)
qed

text \<open>Removing the last timer of a list, or the only one, dereferences a null pointer.\<close>

lemma timer_dequeue_last_faults:
  assumes "fst (ln t) = 0" "t \<noteq> 0"
  shows "timer_dequeue ln t = None"
  using assms by (auto simp: timer_dequeue_def Let_def)

subsection \<open>High-resolution timers\<close>

definition hr_sorted :: "timer_state \<Rightarrow> bool" where
  "hr_sorted st \<longleftrightarrow> sorted_wrt (\<lambda>a b. hr_expire_ns (hr_timers st a) \<le> hr_expire_ns (hr_timers st b)) (hr_list st) \<and> distinct (hr_list st)"

lemma set_hrtimer_insert [simp]: "set (hrtimer_insert tm t cs) = insert t (set cs)"
  by (induction cs) auto

lemma distinct_hrtimer_insert: "distinct cs \<Longrightarrow> t \<notin> set cs \<Longrightarrow> distinct (hrtimer_insert tm t cs)"
  by (induction cs) auto

lemma hrtimer_insert_sorted:
  "sorted_wrt (\<lambda>a b. hr_expire_ns (tm a) \<le> hr_expire_ns (tm b)) cs \<Longrightarrow>
   sorted_wrt (\<lambda>a b. hr_expire_ns (tm a) \<le> hr_expire_ns (tm b)) (hrtimer_insert tm t cs)"
  by (induction cs) (auto simp: not_less)

lemma sorted_wrt_cong_on: "(\<And>a b. a \<in> set xs \<Longrightarrow> b \<in> set xs \<Longrightarrow> P a b = Q a b) \<Longrightarrow> sorted_wrt P xs = sorted_wrt Q xs"
  by (induction xs) auto

lemma hrtimer_start_sorted:
  assumes "hr_sorted st" "t \<notin> set (hr_list st)" "hrtimer_start now st t ns cb arg = (r, st')"
  shows "hr_sorted st'"
proof (cases "t = 0 \<or> cb = None \<or> ns = 0")
  case True
  then show ?thesis using assms by (simp add: hrtimer_start_def)
next
  case False
  define tms where "tms = (hr_timers st)(t := \<lparr>hr_callback = cb, hr_arg = arg, hr_start_ns = now, hr_expire_ns = now + ns,
      hr_active = True, hr_oneshot = True\<rparr>)"
  have "sorted_wrt (\<lambda>a b. hr_expire_ns (tms a) \<le> hr_expire_ns (tms b)) (hr_list st)"
    using assms(1,2) by (subst sorted_wrt_cong_on[where Q = "\<lambda>a b. hr_expire_ns (hr_timers st a) \<le> hr_expire_ns (hr_timers st b)"])
      (auto simp: hr_sorted_def tms_def)
  then show ?thesis
    using assms False hrtimer_insert_sorted[of tms "hr_list st" t] distinct_hrtimer_insert[of "hr_list st" t tms]
    by (auto simp: hrtimer_start_def hr_sorted_def Let_def tms_def)
qed

text \<open>The calls that the due one-shot timers of a list give.\<close>

definition hr_calls :: "(u64 \<Rightarrow> hrtimer) \<Rightarrow> u64 list \<Rightarrow> (u64 \<times> u64) list" where
  "hr_calls tm ts = concat (map (\<lambda>t. case hr_callback (tm t) of None \<Rightarrow> [] | Some cb \<Rightarrow> [(cb, hr_arg (tm t))]) ts)"

lemma hrtimer_expire_oneshot:
  assumes "hr_sorted st" "\<forall>t \<in> set (hr_list st). hr_oneshot (hr_timers st t)"
  shows "\<exists>st'. hrtimer_expire now st = Some st' \<and> hr_sorted st' \<and>
    hr_list st' = filter (\<lambda>t. now < hr_expire_ns (hr_timers st t)) (hr_list st) \<and>
    hr_fired st' = hr_fired st @ hr_calls (hr_timers st) (filter (\<lambda>t. hr_expire_ns (hr_timers st t) \<le> now) (hr_list st)) \<and>
    hr_timers st' = (\<lambda>a. if a \<in> set (hr_list st) \<and> hr_expire_ns (hr_timers st a) \<le> now
       then (hr_timers st a)\<lparr>hr_active := False\<rparr> else hr_timers st a)"
  using assms
proof (induction "hr_list st" arbitrary: st)
  case Nil
  then show ?case by (subst hrtimer_expire.simps) (simp add: hr_calls_def Nil.hyps[symmetric])
next
  case (Cons t ts)
  let ?tm = "hr_timers st t"
  note l = Cons.hyps(2)[symmetric]
  show ?case
  proof (cases "hr_expire_ns ?tm > now")
    case True
    then have "\<forall>a \<in> set (hr_list st). now < hr_expire_ns (hr_timers st a)"
      using Cons.prems(1) l by (auto simp: hr_sorted_def)
    then have "filter (\<lambda>t. now < hr_expire_ns (hr_timers st t)) (hr_list st) = hr_list st"
      "filter (\<lambda>t. hr_expire_ns (hr_timers st t) \<le> now) (hr_list st) = []"
      by (auto simp: filter_empty_conv not_le)
    moreover have "hrtimer_expire now st = Some st"
      using True by (subst hrtimer_expire.simps) (simp add: l Let_def)
    ultimately show ?thesis
      using Cons.prems(1) \<open>\<forall>a \<in> set (hr_list st). now < hr_expire_ns (hr_timers st a)\<close> by (auto simp: hr_calls_def fun_eq_iff)
  next
    case False
    define s1 where "s1 = st\<lparr>hr_list := ts, hr_timers := (hr_timers st)(t := ?tm\<lparr>hr_active := False\<rparr>)\<rparr>"
    define s2 where "s2 = (case hr_callback ?tm of None \<Rightarrow> s1 | Some cb \<Rightarrow> s1\<lparr>hr_fired := hr_fired s1 @ [(cb, hr_arg ?tm)]\<rparr>)"
    have s2: "hr_list s2 = ts" "hr_timers s2 = (hr_timers st)(t := ?tm\<lparr>hr_active := False\<rparr>)"
      "hr_fired s2 = hr_fired st @ hr_calls (hr_timers st) [t]"
      by (simp_all add: s2_def s1_def hr_calls_def split: option.splits)
    have one: "hr_oneshot ?tm" and n: "t \<notin> set ts" using Cons.prems l by (auto simp: hr_sorted_def)
    have step: "hrtimer_expire now st = hrtimer_expire now s2"
      using False one by (subst hrtimer_expire.simps, cases "hr_callback ?tm") (simp_all add: l Let_def s1_def s2_def)
    have eq: "hr_expire_ns (hr_timers s2 a) = hr_expire_ns (hr_timers st a)" "hr_oneshot (hr_timers s2 a) = hr_oneshot (hr_timers st a)"
      "hr_callback (hr_timers s2 a) = hr_callback (hr_timers st a)" "hr_arg (hr_timers s2 a) = hr_arg (hr_timers st a)" for a
      by (simp_all add: s2(2))
    have srt: "hr_sorted s2" using Cons.prems(1) l unfolding hr_sorted_def by (simp add: eq s2(1))
    have one2: "\<forall>a \<in> set (hr_list s2). hr_oneshot (hr_timers s2 a)" using Cons.prems(2) l by (simp add: eq s2(1))
    obtain st' where st': "hrtimer_expire now s2 = Some st'" "hr_sorted st'"
      "hr_list st' = filter (\<lambda>t. now < hr_expire_ns (hr_timers s2 t)) (hr_list s2)"
      "hr_fired st' = hr_fired s2 @ hr_calls (hr_timers s2) (filter (\<lambda>t. hr_expire_ns (hr_timers s2 t) \<le> now) (hr_list s2))"
      "hr_timers st' = (\<lambda>a. if a \<in> set (hr_list s2) \<and> hr_expire_ns (hr_timers s2 a) \<le> now
         then (hr_timers s2 a)\<lparr>hr_active := False\<rparr> else hr_timers s2 a)"
      using Cons.hyps(1)[OF s2(1)[symmetric] srt one2] by blast
    have calls: "hr_calls (hr_timers s2) as = hr_calls (hr_timers st) as" for as
      by (induction as) (simp_all add: hr_calls_def eq split: option.splits)
    have app: "hr_calls tm (a # as) = hr_calls tm [a] @ hr_calls tm as" for tm a as
      by (simp add: hr_calls_def)
    have f: "filter (\<lambda>t. now < hr_expire_ns (hr_timers st t)) (hr_list st) = filter (\<lambda>t. now < hr_expire_ns (hr_timers st t)) ts"
      "filter (\<lambda>t. hr_expire_ns (hr_timers st t) \<le> now) (hr_list st) = t # filter (\<lambda>t. hr_expire_ns (hr_timers st t) \<le> now) ts"
      using False by (simp_all add: l not_less)
    have "hr_timers st' = (\<lambda>a. if a \<in> set (hr_list st) \<and> hr_expire_ns (hr_timers st a) \<le> now
       then (hr_timers st a)\<lparr>hr_active := False\<rparr> else hr_timers st a)"
      unfolding st'(5) eq s2(1) using False n by (auto simp: l s2(2) fun_eq_iff not_less)
    moreover have "hr_fired st' = hr_fired st @ hr_calls (hr_timers st) (filter (\<lambda>t. hr_expire_ns (hr_timers st t) \<le> now) (hr_list st))"
      unfolding st'(4) f(2) s2(1,3) calls eq app[of "hr_timers st" t "filter (\<lambda>t. hr_expire_ns (hr_timers st t) \<le> now) ts"] by simp
    moreover have "hr_list st' = filter (\<lambda>t. now < hr_expire_ns (hr_timers st t)) (hr_list st)"
      unfolding st'(3) f(1) s2(1) eq ..
    ultimately show ?thesis
      using st'(1,2) step by (intro exI[of _ st']) (simp only: simp_thms)
  qed
qed

subsection \<open>Properties\<close>

definition boot_timers :: timer_state where
  "boot_timers = timer_wheel_init \<lparr>processes = processes two_processes, process_count = process_count two_processes,
     current_process = current_process two_processes, tw_lists = \<lambda>_ _. [], tw_timers = \<lambda>_. \<lparr>te_expires = 0, te_callback = None,
     te_arg = 0, te_flags = 0, te_state = 0\<rparr>, tw_jiffies = 0, tw_next_expire = 0, tw_fired = [], hr_list = [],
     hr_timers = \<lambda>_. \<lparr>hr_callback = None, hr_arg = 0, hr_start_ns = 0, hr_expire_ns = 0, hr_active = False, hr_oneshot = True\<rparr>,
     hr_fired = []\<rparr>"

text \<open>C16. A one-shot timer of less than 256 ticks fires at its time and once: added to a wheel it is
  not in, it is pending and its callback has not been called after any smaller number of ticks; at
  the tick of its expiry the callback is called once, with its argument, and the timer is no longer
  on any list nor pending, whatever other timers the wheel holds.\<close>
theorem timer_fires_on_time:
  assumes "idle st t" "t \<noteq> 0" "0 < ms" "unat ms < 256"
    and "timer_add_oneshot st t ms (Some cb) arg = (r, st1)"
  shows "r = 0 \<and> (\<forall>k < unat ms. fired_of ((wheel_tick ^^ k) st1) t = fired_of st t \<and> timer_pending ((wheel_tick ^^ k) st1) t) \<and>
    fired_of ((wheel_tick ^^ unat ms) st1) t = fired_of st t @ [(cb, arg)] \<and>
    idle ((wheel_tick ^^ unat ms) st1) t \<and> \<not> timer_pending ((wheel_tick ^^ unat ms) st1) t"
proof -
  let ?b = "(unat (tw_jiffies st) + unat ms) mod 256"
  have st1: "r = 0" "waits_in st1 t 0 ?b" "tw_jiffies st1 = tw_jiffies st" "fired_of st1 t = fired_of st t"
    "te_flags (tw_timers st1 t) AND TIMER_FLAG_ONESHOT \<noteq> 0" "te_callback (tw_timers st1 t) = Some cb"
    "te_arg (tw_timers st1 t) = arg" "timer_pending st1 t"
    using timer_add_oneshot_waits[OF assms(1-4), of cb arg] assms(5) by auto
  have before: "waits_in ((wheel_tick ^^ k) st1) t 0 ?b \<and> fired_of ((wheel_tick ^^ k) st1) t = fired_of st1 t \<and>
      tw_timers ((wheel_tick ^^ k) st1) t = tw_timers st1 t \<and> tw_jiffies ((wheel_tick ^^ k) st1) = tw_jiffies st1 + of_nat k"
    if "k < unat ms" for k
    using wheel_ticks_waiting[OF st1(2) _ assms(4) that] st1(3) by simp
  define n where "n = unat ms - 1"
  have n: "unat ms = Suc n" "n < unat ms" using assms(3) by (simp_all add: n_def unat_gt_0 word_gt_0)
  let ?s = "(wheel_tick ^^ n) st1"
  note bn = before[OF n(2)]
  have "tw_jiffies ?s + 1 = tw_jiffies st + of_nat (unat ms)" using bn st1(3) n(1) by (simp add: algebra_simps)
  then have "unat ((tw_jiffies ?s + 1) AND TIMER_WHEEL_MASK) = ?b"
    using unat_add_mod_256[of "tw_jiffies st" "unat ms"] by (simp add: wheel_index)
  from wheel_tick_due[OF _ this, of t cb] bn st1
  have "idle (wheel_tick ?s) t" "fired_of (wheel_tick ?s) t = fired_of st t @ [(cb, arg)]" "\<not> timer_pending (wheel_tick ?s) t"
    by simp_all
  moreover have "timer_pending ((wheel_tick ^^ k) st1) t" if "k < unat ms" for k
    using before[OF that] st1(8) by (simp add: timer_pending_def)
  ultimately show ?thesis
    using st1(1,4) before by (simp add: n(1))
qed

theorem timer_fires_on_time_witness:
  "fired_of ((wheel_tick ^^ 3) (snd (timer_add_oneshot boot_timers 0x5000 3 (Some (Callback 7)) 1))) 0x5000 = [(Callback 7, 1)]"
proof -
  obtain r st1 where a: "timer_add_oneshot boot_timers 0x5000 3 (Some (Callback 7)) 1 = (r, st1)" by fastforce
  have "idle boot_timers 0x5000" "fired_of boot_timers 0x5000 = []"
    by (simp_all add: idle_def fired_of_def boot_timers_def timer_wheel_init_def)
  with timer_fires_on_time[OF _ _ _ _ a] show ?thesis by (simp add: a)
qed

text \<open>High-resolution timers expire in order: on a list sorted by expiry of one-shot timers,
  \<open>__hrtimer_expire\<close> ends, calls the callbacks of exactly the timers whose time has come, earliest first, takes
  them off the list and marks them inactive, and leaves the others as they were; \<open>hrtimer_start\<close> keeps
  the list sorted.\<close>
theorem hrtimers_expire_in_order:
  assumes "hr_sorted st" "\<forall>t \<in> set (hr_list st). hr_oneshot (hr_timers st t)"
  shows "(\<exists>st'. hrtimer_expire now st = Some st' \<and> hr_sorted st' \<and>
      hr_list st' = filter (\<lambda>t. now < hr_expire_ns (hr_timers st t)) (hr_list st) \<and>
      hr_fired st' = hr_fired st @ hr_calls (hr_timers st) (filter (\<lambda>t. hr_expire_ns (hr_timers st t) \<le> now) (hr_list st)) \<and>
      hr_timers st' = (\<lambda>a. if a \<in> set (hr_list st) \<and> hr_expire_ns (hr_timers st a) \<le> now
         then (hr_timers st a)\<lparr>hr_active := False\<rparr> else hr_timers st a)) \<and>
    (t \<notin> set (hr_list st) \<longrightarrow> hr_sorted (snd (hrtimer_start now st t ns cb arg)))"
  by (intro conjI impI hrtimer_expire_oneshot[OF assms] hrtimer_start_sorted[OF assms(1) _ prod.collapse[symmetric]])

theorem hrtimers_expire_in_order_witness:
  "\<exists>st'. hrtimer_expire 100 (snd (hrtimer_start 10 boot_timers 0x6000 50 (Some 8) 2)) = Some st' \<and>
     hr_fired st' = [(8, 2)] \<and> hr_list st' = []"
proof -
  let ?s = "snd (hrtimer_start 10 boot_timers 0x6000 50 (Some 8) 2)"
  have "hr_sorted ?s" "\<forall>t \<in> set (hr_list ?s). hr_oneshot (hr_timers ?s t)" "hr_list ?s = [0x6000]" "hr_fired ?s = []"
      "hr_expire_ns (hr_timers ?s 0x6000) = 60" "hr_callback (hr_timers ?s 0x6000) = Some 8" "hr_arg (hr_timers ?s 0x6000) = 2"
    by (simp_all add: hr_sorted_def hrtimer_start_def boot_timers_def timer_wheel_init_def Let_def)
  with hrtimers_expire_in_order[of ?s 100 0 0 None 0] show ?thesis
    by (auto simp: hr_calls_def)
qed

end
