(* ===== verification/Signal.thy ===== *)
theory Signal
  imports Process
begin

section \<open>Signals\<close>

text \<open>
  \<open>kernel/kernel/signal.c\<close> and \<open>signal.h\<close>. A signal set is one 64-bit word
  (\<open>SIG_WORDS\<close> is 1). The structures behind \<open>proc->signal_data\<close> live in a store indexed by
  their address; a call that dereferences an address without a structure, \<open>NULL\<close> included,
  answers \<open>None\<close>. What \<open>kzalloc\<close> answered is an argument. The stack frames that
  \<open>__signal_setup_frame\<close> writes are kept as records, newest first, and \<open>sig_suspended\<close> holds
  the locals of the processes that sleep inside \<open>signal_sigsuspend\<close>, which is modelled as
  the part up to its yield and the part after it.
\<close>

subsection \<open>Signal sets\<close>

definition SIG_MAX :: int where "SIG_MAX = 64"
definition SIGRTMIN :: int where "SIGRTMIN = 32"
definition SIGQUEUE_MAX :: nat where "SIGQUEUE_MAX = 8"

abbreviation (input) SIGKILL :: int where "SIGKILL \<equiv> 9"
abbreviation (input) SIGCHLD :: int where "SIGCHLD \<equiv> 17"
abbreviation (input) SIGCONT :: int where "SIGCONT \<equiv> 18"
abbreviation (input) SIGSTOP :: int where "SIGSTOP \<equiv> 19"
abbreviation (input) SIGTSTP :: int where "SIGTSTP \<equiv> 20"
abbreviation (input) SIGTTIN :: int where "SIGTTIN \<equiv> 21"
abbreviation (input) SIGTTOU :: int where "SIGTTOU \<equiv> 22"
abbreviation (input) SIGURG :: int where "SIGURG \<equiv> 23"
abbreviation (input) SIGWINCH :: int where "SIGWINCH \<equiv> 28"
abbreviation (input) SIGIO :: int where "SIGIO \<equiv> 29"
abbreviation (input) PROCESS_ASLEEP :: u64 where "PROCESS_ASLEEP \<equiv> 3"

type_synonym sigset = u64

definition sigaddset :: "sigset \<Rightarrow> int \<Rightarrow> sigset" where
  "sigaddset s sig =
     (if sig > 0 \<and> sig \<le> SIG_MAX then s OR push_bit (nat ((sig - 1) mod 64)) 1 else s)"

definition sigdelset :: "sigset \<Rightarrow> int \<Rightarrow> sigset" where
  "sigdelset s sig =
     (if sig > 0 \<and> sig \<le> SIG_MAX then s AND NOT (push_bit (nat ((sig - 1) mod 64)) 1) else s)"

definition sigismember :: "sigset \<Rightarrow> int \<Rightarrow> bool" where
  "sigismember s sig =
     (if sig > 0 \<and> sig \<le> SIG_MAX then drop_bit (nat ((sig - 1) mod 64)) s AND 1 \<noteq> 0 else False)"

subsection \<open>State\<close>

record siginfo =
  si_signo :: int
  si_code :: int
  si_errno :: int
  si_addr :: u64
  si_uid :: int
  si_pid :: int
  si_value :: u64

record sigaction =
  sa_handler :: u64
  sa_sigaction :: u64
  sa_mask :: sigset
  sa_flags :: u32

record signal_struct =
  sg_actions :: "sigaction list"
  sg_blocked :: sigset
  sg_pending :: sigset
  sg_shared_pending :: sigset
  sg_queues :: "siginfo list list"
  sg_flags :: u64

record signal_frame =
  fr_ucontext :: u64
  fr_sigmask :: sigset
  fr_context :: "u64 list"
  fr_siginfo :: u64
  fr_info :: siginfo

record signal_state = process_state +
  sig_store :: "u64 \<Rightarrow> signal_struct option"
  sig_frames :: "signal_frame list"
  sig_suspended :: "nat \<Rightarrow> (u64 \<times> sigset) option"

definition zero_info :: siginfo where
  "zero_info = \<lparr>si_signo = 0, si_code = 0, si_errno = 0, si_addr = 0, si_uid = 0, si_pid = 0, si_value = 0\<rparr>"

definition zero_action :: sigaction where
  "zero_action = \<lparr>sa_handler = 0, sa_sigaction = 0, sa_mask = 0, sa_flags = 0\<rparr>"

text \<open>\<open>processes[current_process].signal_data\<close>\<close>

definition cur_sig :: "'a signal_state_scheme \<Rightarrow> u64" where
  "cur_sig st = p_signal_data (processes st ! current_process st)"

definition sig_write :: "'a signal_state_scheme \<Rightarrow> u64 \<Rightarrow> signal_struct \<Rightarrow> 'a signal_state_scheme" where
  "sig_write st a sd = st\<lparr>sig_store := (sig_store st)(a \<mapsto> sd)\<rparr>"

subsection \<open>Names and structures\<close>

definition signal_names :: "string list" where
  "signal_names = ['''', ''HUP'', ''INT'', ''QUIT'', ''ILL'', ''TRAP'', ''ABRT'', ''BUS'', ''FPE'',
     ''KILL'', ''USR1'', ''SEGV'', ''USR2'', ''PIPE'', ''ALRM'', ''TERM'', ''STKFLT'', ''CHLD'',
     ''CONT'', ''STOP'', ''TSTP'', ''TTIN'', ''TTOU'', ''URG'', ''XCPU'', ''XFSZ'', ''VTALRM'',
     ''PROF'', ''WINCH'', ''IO'', ''PWR'', ''SYS'']"

definition signal_name :: "int \<Rightarrow> string" where
  "signal_name sig = (if sig \<ge> 1 \<and> sig \<le> 31 then signal_names ! nat sig
     else if sig \<ge> SIGRTMIN \<and> sig \<le> 63 then ''RT'' else ''UNKNOWN'')"

text \<open>The loop of \<open>signal_init\<close> and \<open>signal_create\<close> clears handler and flags only.\<close>

definition default_actions :: "sigaction list \<Rightarrow> sigaction list" where
  "default_actions acts =
     ((map (\<lambda>act. act\<lparr>sa_handler := 0, sa_flags := 0\<rparr>) acts)
        [8 := (acts ! 8)\<lparr>sa_handler := 0, sa_flags := 0\<rparr>])
        [18 := (acts ! 18)\<lparr>sa_handler := 0, sa_flags := 0\<rparr>]"

definition signal_create ::
  "'a signal_state_scheme \<Rightarrow> u64 \<Rightarrow> u64 \<times> 'a signal_state_scheme" where
  "signal_create st a =
     (if a = 0 then (0, st)
      else (a, sig_write st a \<lparr>sg_actions = default_actions (replicate 64 zero_action), sg_blocked = 0,
                 sg_pending = 0, sg_shared_pending = 0, sg_queues = replicate 64 [], sg_flags = 0\<rparr>))"

definition signal_init :: "'a signal_state_scheme \<Rightarrow> u64 \<Rightarrow> 'a signal_state_scheme option" where
  "signal_init st a =
     (let (p, st1) =
        (if cur_sig st = 0
         then let (p, st') = signal_create st a; c = current_process st in
           (p, st'\<lparr>processes := (processes st')[c := (processes st' ! c)\<lparr>p_signal_data := p\<rparr>]\<rparr>)
         else (cur_sig st, st))
      in if p = 0 then None else
        map_option (\<lambda>sd. sig_write st1 p
            (sd\<lparr>sg_actions := default_actions (sg_actions sd), sg_queues := map (\<lambda>_. []) (sg_queues sd),
                sg_blocked := 0, sg_pending := 0, sg_shared_pending := 0, sg_flags := 0\<rparr>))
          (sig_store st1 p))"

definition signal_destroy :: "'a signal_state_scheme \<Rightarrow> u64 \<Rightarrow> 'a signal_state_scheme option" where
  "signal_destroy st p =
     (if p = 0 then Some st
      else map_option (\<lambda>_. st\<lparr>sig_store := (sig_store st)(p := None)\<rparr>) (sig_store st p))"

definition signal_blocked :: "signal_struct \<Rightarrow> int \<Rightarrow> bool" where
  "signal_blocked sd signo = sigismember (sg_blocked sd) signo"

subsection \<open>Default actions and sending\<close>

definition signal_default :: "int \<Rightarrow> nat \<Rightarrow> 'a process_state_scheme \<Rightarrow> 'a process_state_scheme" where
  "signal_default sig pid st =
     (if sig = SIGCHLD \<or> sig = SIGURG \<or> sig = SIGWINCH \<or> sig = SIGIO then st
      else if sig = SIGSTOP \<or> sig = SIGTSTP \<or> sig = SIGTTIN \<or> sig = SIGTTOU
      then set_state st pid PROCESS_STOPPED
      else if sig = SIGCONT
      then if state_of st pid = PROCESS_STOPPED then set_state st pid PROCESS_READY else st
      else set_state st pid PROCESS_DEAD)"

definition queue_info :: "int \<Rightarrow> siginfo option \<Rightarrow> siginfo" where
  "queue_info sig info = (case info of None \<Rightarrow> zero_info | Some i \<Rightarrow> i)\<lparr>si_signo := sig\<rparr>"

text \<open>\<open>sig_data\<close> after the signal was queued and marked pending; \<open>None\<close> when no entry could be
  allocated for a real-time signal.\<close>

definition signal_post :: "signal_struct \<Rightarrow> int \<Rightarrow> siginfo option \<Rightarrow> bool \<Rightarrow> signal_struct option" where
  "signal_post sd sig info ok =
     (if sig \<ge> SIGRTMIN
      then if \<not> ok then None
        else let q = sg_queues sd ! nat (sig - 1) in
          if length q < SIGQUEUE_MAX
          then Some (sd\<lparr>sg_queues := (sg_queues sd)[nat (sig - 1) := q @ [queue_info sig info]],
                        sg_pending := sigaddset (sg_pending sd) sig\<rparr>)
          else Some sd
      else Some (sd\<lparr>sg_pending := sigaddset (sg_pending sd) sig\<rparr>))"

definition signal_wake :: "nat \<Rightarrow> 'a process_state_scheme \<Rightarrow> 'a process_state_scheme" where
  "signal_wake pid st =
     (if state_of st pid = PROCESS_ASLEEP \<or> state_of st pid = PROCESS_WAITING
      then set_state st pid PROCESS_READY else st)"

definition signal_send ::
  "'a signal_state_scheme \<Rightarrow> u64 \<Rightarrow> int \<Rightarrow> siginfo option \<Rightarrow> bool \<Rightarrow> (int \<times> 'a signal_state_scheme) option" where
  "signal_send st target sig info ok =
     (if sig < 1 \<or> sig > SIG_MAX then Some (- 1, st)
      else if unat target \<ge> PROCESS_MAX then Some (- 1, st)
      else let pid = unat target in
        if state_of st pid = PROCESS_DEAD then Some (- 1, st)
        else if sig = SIGKILL then Some (0, set_state st pid PROCESS_DEAD)
        else let a = p_signal_data (processes st ! pid) in
          if a = 0 then Some (- 1, st)
          else case sig_store st a of
              None \<Rightarrow> None
            | Some sd \<Rightarrow>
                (case signal_post sd sig info ok of
                   None \<Rightarrow> Some (- 1, st)
                 | Some sd' \<Rightarrow> Some (0, signal_wake pid (sig_write st a sd'))))"

definition signal_send_info ::
  "'a signal_state_scheme \<Rightarrow> u64 \<Rightarrow> int \<Rightarrow> int \<Rightarrow> u64 \<Rightarrow> bool \<Rightarrow> (int \<times> 'a signal_state_scheme) option" where
  "signal_send_info st target sig code addr ok =
     signal_send st target sig
       (Some (zero_info\<lparr>si_signo := sig, si_code := code, si_addr := addr,
                        si_pid := int (current_process st)\<rparr>)) ok"

definition signal_send_group ::
  "'a signal_state_scheme \<Rightarrow> u64 \<Rightarrow> int \<Rightarrow> bool \<Rightarrow> (int \<times> 'a signal_state_scheme) option" where
  "signal_send_group st target sig ok = signal_send st target sig None ok"

subsection \<open>Delivery\<close>

text \<open>
  The frame: \<open>sizeof(k_ucontext_t)\<close> is 208 and \<open>sizeof(k_siginfo_t)\<close> is 40. Words 9, 10, 11,
  15 and 18 of the context are \<open>rdi\<close>, \<open>rsi\<close>, \<open>rdx\<close>, \<open>rip\<close> and \<open>rsp\<close>.
\<close>

definition SA_SIGINFO :: u32 where "SA_SIGINFO = 0x00000004"
definition SA_NODEFER :: u32 where "SA_NODEFER = 0x40000000"

definition signal_setup_frame ::
  "int \<Rightarrow> sigaction \<Rightarrow> signal_struct \<Rightarrow> 'a signal_state_scheme \<Rightarrow> 'a signal_state_scheme" where
  "signal_setup_frame sig act sd st =
     (let c = current_process st;
          p = processes st ! c;
          uc = (p_context p ! 18 AND NOT 0xF) - 208;
          si = uc - 40;
          rsp = si - 8;
          ctx = (p_context p)[18 := rsp, 15 := sa_handler act, 9 := of_int sig];
          ctx' = (if sa_flags act AND SA_SIGINFO \<noteq> 0 then ctx[10 := si, 11 := uc] else ctx)
      in st\<lparr>processes := (processes st)[c := p\<lparr>p_context := ctx'\<rparr>],
            sig_frames := \<lparr>fr_ucontext = uc, fr_sigmask = sg_blocked sd, fr_context = p_context p,
                           fr_siginfo = si,
                           fr_info = zero_info\<lparr>si_signo := sig, si_pid := int c\<rparr>\<rparr> # sig_frames st\<rparr>)"

text \<open>\<open>sigdelset(&sig_data->pending, sig)\<close> and the removal of the first queued entry.\<close>

definition signal_take :: "signal_struct \<Rightarrow> int \<Rightarrow> signal_struct" where
  "signal_take sd sig =
     sd\<lparr>sg_pending := sigdelset (sg_pending sd) sig,
        sg_queues := (if sig \<ge> SIGRTMIN \<and> sg_queues sd ! nat (sig - 1) \<noteq> []
                      then (sg_queues sd)[nat (sig - 1) := tl (sg_queues sd ! nat (sig - 1))]
                      else sg_queues sd)\<rparr>"

definition unblock_kill_stop :: "sigset \<Rightarrow> sigset" where
  "unblock_kill_stop s = sigdelset (sigdelset s SIGKILL) SIGSTOP"

definition handler_mask :: "signal_struct \<Rightarrow> sigaction \<Rightarrow> int \<Rightarrow> sigset" where
  "handler_mask sd act sig =
     (let b = sg_blocked sd OR sa_mask act
      in unblock_kill_stop (if sa_flags act AND SA_NODEFER = 0 then sigaddset b sig else b))"

fun signal_pending_loop ::
  "int list \<Rightarrow> signal_struct \<Rightarrow> 'a signal_state_scheme \<Rightarrow> signal_struct \<times> 'a signal_state_scheme" where
  "signal_pending_loop [] sd st = (sd, st)"
| "signal_pending_loop (sig # sigs) sd st =
     (if \<not> sigismember (sg_pending sd) sig then signal_pending_loop sigs sd st
      else if signal_blocked sd sig then signal_pending_loop sigs sd st
      else let act = sg_actions sd ! nat (sig - 1) in
        if sa_handler act = 1 then signal_pending_loop sigs (signal_take sd sig) st
        else if sa_handler act = 0
        then signal_pending_loop sigs (signal_take sd sig) (signal_default sig (current_process st) st)
        else let sd' = (signal_take sd sig)\<lparr>sg_blocked := handler_mask sd act sig\<rparr>
          in (sd', signal_setup_frame sig act sd' st))"

definition signal_do_pending :: "'a signal_state_scheme \<Rightarrow> 'a signal_state_scheme option" where
  "signal_do_pending st =
     (if cur_sig st = 0 then Some st
      else map_option (\<lambda>sd. case signal_pending_loop [1..SIG_MAX] sd st of
                          (sd', st') \<Rightarrow> sig_write st' (cur_sig st) sd')
             (sig_store st (cur_sig st)))"

subsection \<open>The system calls\<close>

definition signal_sigaction ::
  "'a signal_state_scheme \<Rightarrow> int \<Rightarrow> sigaction option \<Rightarrow> (int \<times> sigaction option \<times> 'a signal_state_scheme) option" where
  "signal_sigaction st sig act =
     (if sig < 1 \<or> sig > SIG_MAX then Some (- 1, None, st)
      else if sig = SIGKILL \<or> sig = SIGSTOP then Some (- 1, None, st)
      else if cur_sig st = 0 then Some (- 1, None, st)
      else map_option (\<lambda>sd.
          (0, Some (sg_actions sd ! nat (sig - 1)),
           case act of None \<Rightarrow> st
           | Some x \<Rightarrow> sig_write st (cur_sig st) (sd\<lparr>sg_actions := (sg_actions sd)[nat (sig - 1) := x]\<rparr>)))
        (sig_store st (cur_sig st)))"

definition mask_change :: "int \<Rightarrow> sigset \<Rightarrow> sigset \<Rightarrow> sigset option" where
  "mask_change how b s =
     (if how = 0 then Some (b OR s) else if how = 1 then Some (b AND NOT s)
      else if how = 2 then Some s else None)"

definition signal_sigprocmask ::
  "'a signal_state_scheme \<Rightarrow> int \<Rightarrow> sigset option \<Rightarrow> (int \<times> sigset option \<times> 'a signal_state_scheme) option" where
  "signal_sigprocmask st how set' =
     (if cur_sig st = 0 then Some (- 1, None, st)
      else map_option (\<lambda>sd.
          (case set' of None \<Rightarrow> (0, Some (sg_blocked sd), st)
           | Some s \<Rightarrow>
               (case mask_change how (sg_blocked sd) s of
                  None \<Rightarrow> (- 1, Some (sg_blocked sd), st)
                | Some b \<Rightarrow> (0, Some (sg_blocked sd),
                    sig_write st (cur_sig st) (sd\<lparr>sg_blocked := unblock_kill_stop b\<rparr>)))))
        (sig_store st (cur_sig st)))"

definition signal_sigpending :: "'a signal_state_scheme \<Rightarrow> bool \<Rightarrow> (int \<times> sigset option) option" where
  "signal_sigpending st has_set =
     (if cur_sig st = 0 \<or> \<not> has_set then Some (- 1, None)
      else map_option (\<lambda>sd. (0, Some (sg_pending sd))) (sig_store st (cur_sig st)))"

text \<open>\<open>signal_sigsuspend\<close>: up to \<open>process_yield()\<close>, and after it.\<close>

definition sigsuspend_enter ::
  "'a signal_state_scheme \<Rightarrow> sigset option \<Rightarrow> (int \<times> 'a signal_state_scheme) option" where
  "sigsuspend_enter st m =
     (if cur_sig st = 0 then Some (- 1, st)
      else case m of None \<Rightarrow> Some (- 1, st)
      | Some s \<Rightarrow>
          map_option (\<lambda>sd. let c = current_process st in
              (0, set_state ((sig_write st (cur_sig st) (sd\<lparr>sg_blocked := unblock_kill_stop s\<rparr>))
                    \<lparr>sig_suspended := (sig_suspended st)(c \<mapsto> (cur_sig st, sg_blocked sd))\<rparr>)
                  c PROCESS_ASLEEP))
            (sig_store st (cur_sig st)))"

definition sigsuspend_leave :: "'a signal_state_scheme \<Rightarrow> 'a signal_state_scheme option" where
  "sigsuspend_leave st =
     (case sig_suspended st (current_process st) of
        None \<Rightarrow> Some st
      | Some (a, old) \<Rightarrow>
          map_option (\<lambda>sd. (sig_write st a (sd\<lparr>sg_blocked := old\<rparr>))
                         \<lparr>sig_suspended := (sig_suspended st)(current_process st := None)\<rparr>)
            (sig_store st a))"

subsection \<open>Reachable states\<close>

text \<open>
  Every interleaving of the calls. Between them the other parts of the kernel may replace
  the process table and the running process at will.
\<close>

inductive signal_step :: "signal_state \<Rightarrow> signal_state \<Rightarrow> bool" where
  step_create: "sig_store st a = None \<Longrightarrow> signal_step st (snd (signal_create st a))"
| step_init: "sig_store st a = None \<Longrightarrow> signal_init st a = Some st' \<Longrightarrow> signal_step st st'"
| step_destroy: "signal_destroy st p = Some st' \<Longrightarrow> signal_step st st'"
| step_send: "signal_send st target sig info ok = Some (r, st') \<Longrightarrow> signal_step st st'"
| step_pending: "signal_do_pending st = Some st' \<Longrightarrow> signal_step st st'"
| step_action: "signal_sigaction st sig act = Some (r, old, st') \<Longrightarrow> signal_step st st'"
| step_mask: "signal_sigprocmask st how s = Some (r, old, st') \<Longrightarrow> signal_step st st'"
| step_suspend: "sigsuspend_enter st m = Some (r, st') \<Longrightarrow> signal_step st st'"
| step_resume: "sigsuspend_leave st = Some st' \<Longrightarrow> signal_step st st'"
| step_other: "signal_step st (st\<lparr>processes := ps, process_count := n, current_process := c\<rparr>)"

definition signal_boot :: "signal_state \<Rightarrow> bool" where
  "signal_boot st \<longleftrightarrow> sig_store st = (\<lambda>_. None) \<and> sig_suspended st = (\<lambda>_. None)"

inductive signal_reachable :: "signal_state \<Rightarrow> bool" where
  reach_boot: "signal_boot st \<Longrightarrow> signal_reachable st"
| reach_step: "signal_reachable st \<Longrightarrow> signal_step st st' \<Longrightarrow> signal_reachable st'"

definition signal_ok :: "signal_struct \<Rightarrow> bool" where
  "signal_ok sd \<longleftrightarrow> length (sg_actions sd) = 64 \<and> length (sg_queues sd) = 64 \<and>
     (\<forall>i<64. length (sg_queues sd ! i) \<le> SIGQUEUE_MAX \<and>
        (\<forall>e\<in>set (sg_queues sd ! i). si_signo e = int i + 1) \<and>
        (i < 31 \<longrightarrow> sg_queues sd ! i = [])) \<and>
     sa_handler (sg_actions sd ! 8) = 0 \<and> sa_handler (sg_actions sd ! 18) = 0 \<and>
     \<not> sigismember (sg_blocked sd) SIGKILL \<and> \<not> sigismember (sg_blocked sd) SIGSTOP"

definition signals_ok :: "signal_state \<Rightarrow> bool" where
  "signals_ok st \<longleftrightarrow> (\<forall>a sd. sig_store st a = Some sd \<longrightarrow> signal_ok sd) \<and>
     (\<forall>c a old. sig_suspended st c = Some (a, old) \<longrightarrow>
        \<not> sigismember old SIGKILL \<and> \<not> sigismember old SIGSTOP)"

text \<open>A pending signal that is not blocked and has a handler of the program.\<close>

definition handled :: "signal_struct \<Rightarrow> int \<Rightarrow> bool" where
  "handled sd s \<longleftrightarrow> sigismember (sg_pending sd) s \<and> \<not> signal_blocked sd s \<and>
     sa_handler (sg_actions sd ! nat (s - 1)) \<noteq> 0 \<and> sa_handler (sg_actions sd ! nat (s - 1)) \<noteq> 1"

subsection \<open>Lemmas on signal sets\<close>

lemma sigismember_bit:
  "sigismember s sig \<longleftrightarrow> 0 < sig \<and> sig \<le> 64 \<and> bit s (nat (sig - 1))"
  by (auto simp: sigismember_def SIG_MAX_def and_1_bit bit_simps)

lemma sigismember_add:
  "sigismember (sigaddset s sig) n \<longleftrightarrow> sigismember s n \<or> n = sig \<and> 0 < n \<and> n \<le> 64"
  by (auto simp: sigismember_bit sigaddset_def SIG_MAX_def bit_simps nat_eq_iff)

lemma sigismember_del:
  "sigismember (sigdelset s sig) n \<longleftrightarrow> sigismember s n \<and> n \<noteq> sig"
  by (auto simp: sigismember_bit sigdelset_def SIG_MAX_def bit_simps nat_eq_iff)

lemma sigismember_or: "sigismember (s OR t) n \<longleftrightarrow> sigismember s n \<or> sigismember t n"
  by (auto simp: sigismember_bit bit_simps)

lemma sigismember_unblock:
  "sigismember (unblock_kill_stop s) n \<longleftrightarrow> sigismember s n \<and> n \<noteq> SIGKILL \<and> n \<noteq> SIGSTOP"
  by (auto simp: unblock_kill_stop_def sigismember_del)

lemmas sigset_simps = sigismember_add sigismember_del sigismember_or sigismember_unblock

subsection \<open>The invariant\<close>

lemma default_actions_ok:
  assumes "length acts = 64"
  shows "length (default_actions acts) = 64"
    and "i < 64 \<Longrightarrow> sa_handler (default_actions acts ! i) = 0"
  using assms by (auto simp: default_actions_def nth_list_update)

lemma sigismember_0 [simp]: "\<not> sigismember 0 n"
  by (simp add: sigismember_bit)

lemma signal_ok_cleared:
  assumes "length acts = 64" "length qs = 64" "\<And>i. i < 64 \<Longrightarrow> qs ! i = []"
  shows "signal_ok (sd\<lparr>sg_actions := default_actions acts, sg_queues := qs, sg_blocked := 0,
    sg_pending := 0, sg_shared_pending := 0, sg_flags := 0\<rparr>)"
  using assms default_actions_ok[OF assms(1)] by (simp add: signal_ok_def SIGQUEUE_MAX_def)

lemma signal_ok_new:
  "signal_ok \<lparr>sg_actions = default_actions (replicate 64 zero_action), sg_blocked = 0,
     sg_pending = 0, sg_shared_pending = 0, sg_queues = replicate 64 [], sg_flags = 0\<rparr>"
  using default_actions_ok[of "replicate 64 zero_action"]
  by (simp add: signal_ok_def SIGQUEUE_MAX_def)

lemma signal_ok_blocked:
  assumes "signal_ok sd"
  shows "signal_ok (sd\<lparr>sg_blocked := unblock_kill_stop b\<rparr>)"
  using assms by (simp add: signal_ok_def sigismember_unblock)

lemma signal_ok_old_blocked:
  assumes "signal_ok sd" "\<not> sigismember b SIGKILL" "\<not> sigismember b SIGSTOP"
  shows "signal_ok (sd\<lparr>sg_blocked := b\<rparr>)"
  using assms by (simp add: signal_ok_def)

lemma signal_ok_pending: "signal_ok (sd\<lparr>sg_pending := p\<rparr>) \<longleftrightarrow> signal_ok sd"
  by (simp add: signal_ok_def)

lemma signal_ok_action:
  assumes "signal_ok sd" "1 \<le> sig" "sig \<le> 64" "sig \<noteq> SIGKILL" "sig \<noteq> SIGSTOP"
  shows "signal_ok (sd\<lparr>sg_actions := (sg_actions sd)[nat (sig - 1) := x]\<rparr>)"
  using assms by (simp add: signal_ok_def nth_list_update nat_eq_iff)

lemma signal_ok_queue:
  assumes ok: "signal_ok sd" and i: "31 \<le> i" "i < 64"
    and q: "length q \<le> SIGQUEUE_MAX" "\<And>e. e \<in> set q \<Longrightarrow> si_signo e = int i + 1"
  shows "signal_ok (sd\<lparr>sg_queues := (sg_queues sd)[i := q]\<rparr>)"
  using assms by (simp add: signal_ok_def nth_list_update)

lemma signal_ok_queueD:
  assumes "signal_ok sd" "i < 64"
  shows "length (sg_queues sd ! i) \<le> SIGQUEUE_MAX" "e \<in> set (sg_queues sd ! i) \<Longrightarrow> si_signo e = int i + 1"
  using assms by (auto simp: signal_ok_def)

lemma signal_ok_post:
  assumes ok: "signal_ok sd" and sig: "1 \<le> sig" "sig \<le> 64" and post: "signal_post sd sig info b = Some sd'"
  shows "signal_ok sd'"
proof (cases "sig \<ge> SIGRTMIN \<and> length (sg_queues sd ! nat (sig - 1)) < SIGQUEUE_MAX")
  case True
  then have i: "31 \<le> nat (sig - 1)" "nat (sig - 1) < 64"
    using sig by (auto simp: SIGRTMIN_def)
  let ?q = "sg_queues sd ! nat (sig - 1) @ [queue_info sig info]"
  have "signal_ok (sd\<lparr>sg_queues := (sg_queues sd)[nat (sig - 1) := ?q]\<rparr>)"
    using True signal_ok_queueD(2)[OF ok i(2)] sig
    by (intro signal_ok_queue[OF ok i]) (auto simp: queue_info_def)
  then have "signal_ok (sd\<lparr>sg_queues := (sg_queues sd)[nat (sig - 1) := ?q],
      sg_pending := sigaddset (sg_pending sd) sig\<rparr>)"
    by (simp add: signal_ok_def)
  then show ?thesis
    using True post by (auto simp: signal_post_def Let_def split: if_splits)
next
  case False
  then show ?thesis
    using post ok by (auto simp: signal_post_def Let_def signal_ok_pending split: if_splits)
qed

lemma signal_ok_take:
  assumes ok: "signal_ok sd" and sig: "1 \<le> sig" "sig \<le> 64"
  shows "signal_ok (signal_take sd sig)"
proof (cases "sig \<ge> SIGRTMIN \<and> sg_queues sd ! nat (sig - 1) \<noteq> []")
  case True
  then have i: "31 \<le> nat (sig - 1)" "nat (sig - 1) < 64"
    using sig by (auto simp: SIGRTMIN_def)
  have tl: "set (tl (sg_queues sd ! nat (sig - 1))) \<subseteq> set (sg_queues sd ! nat (sig - 1))"
    using True by (simp add: list.set_sel(2) subsetI)
  have "signal_ok (sd\<lparr>sg_queues := (sg_queues sd)[nat (sig - 1) := tl (sg_queues sd ! nat (sig - 1))]\<rparr>)"
    using signal_ok_queueD[OF ok i(2)] tl by (intro signal_ok_queue[OF ok i]) fastforce+
  then show ?thesis
    using True by (simp add: signal_take_def signal_ok_def)
next
  case False
  then show ?thesis
    using ok by (auto simp: signal_take_def signal_ok_def)
qed

lemma signal_pending_loop_ok:
  assumes "signal_ok sd" "\<forall>s\<in>set sigs. 1 \<le> s \<and> s \<le> 64"
  shows "signal_ok (fst (signal_pending_loop sigs sd st))"
  using assms
proof (induction sigs sd st rule: signal_pending_loop.induct)
  case (2 sig sigs sd st)
  then show ?case
    by (simp add: Let_def signal_ok_take handler_mask_def signal_ok_blocked)
qed simp

lemma set_state_contexts [simp]: "map p_context (processes (set_state st i x)) = map p_context (processes st)"
proof (cases "i < length (processes st)")
  case True
  then have "p_context (processes st ! i) = map p_context (processes st) ! i" by simp
  then show ?thesis by (simp add: set_state_def map_update)
next
  case False
  then show ?thesis by (simp add: set_state_def list_update_beyond)
qed

lemma set_state_signal [simp]:
  "sig_store (set_state st i x) = sig_store st" "sig_suspended (set_state st i x) = sig_suspended st"
  "sig_frames (set_state st i x) = sig_frames st"
  by (simp_all add: set_state_def)

lemma signal_default_frame [simp]:
  "sig_store (signal_default sig pid st) = sig_store st"
  "sig_suspended (signal_default sig pid st) = sig_suspended st"
  "sig_frames (signal_default sig pid st) = sig_frames st"
  "current_process (signal_default sig pid st) = current_process st"
  "map p_context (processes (signal_default sig pid st)) = map p_context (processes st)"
  for st :: "'a signal_state_scheme"
  by (simp_all add: signal_default_def)

lemma signal_pending_loop_frame [simp]:
  "sig_store (snd (signal_pending_loop sigs sd st)) = sig_store st"
  "sig_suspended (snd (signal_pending_loop sigs sd st)) = sig_suspended st"
  "current_process (snd (signal_pending_loop sigs sd st)) = current_process st"
  by (induction sigs sd st rule: signal_pending_loop.induct)
     (simp_all add: Let_def signal_setup_frame_def)

lemma signals_okD: "signals_ok st \<Longrightarrow> sig_store st a = Some sd \<Longrightarrow> signal_ok sd"
  by (simp add: signals_ok_def)

lemma signals_ok_write:
  "signals_ok st \<Longrightarrow> signal_ok sd \<Longrightarrow> signals_ok (sig_write st a sd)"
  by (simp add: signals_ok_def sig_write_def)

lemma signals_ok_cong:
  "sig_store st' = sig_store st \<Longrightarrow> sig_suspended st' = sig_suspended st \<Longrightarrow> signals_ok st' = signals_ok st"
  by (simp add: signals_ok_def)

lemma signals_ok_processes [simp]:
  "signals_ok (set_state st i x) = signals_ok st"
  "signals_ok (st\<lparr>processes := ps\<rparr>) = signals_ok st"
  "signals_ok (st\<lparr>processes := ps, process_count := n, current_process := c\<rparr>) = signals_ok st"
  by (rule signals_ok_cong; simp)+

lemma signal_create_ok: "signals_ok st \<Longrightarrow> signals_ok (snd (signal_create st a))"
  by (simp add: signal_create_def signals_ok_write signal_ok_new)

lemma signal_init_ok:
  assumes ok: "signals_ok st" and init: "signal_init st a = Some st'"
  shows "signals_ok st'"
proof -
  define new where "new = (let (p, st'') = signal_create st a; c = current_process st in
           (p, st''\<lparr>processes := (processes st'')[c := (processes st'' ! c)\<lparr>p_signal_data := p\<rparr>]\<rparr>))"
  define r where "r = (if cur_sig st = 0 then new else (cur_sig st, st))"
  obtain p st1 where r: "r = (p, st1)" by (cases r)
  have st1: "signals_ok st1"
    using r ok signal_create_ok[OF ok, of a]
    by (auto simp: r_def new_def Let_def split: if_splits prod.splits)
  obtain sd where sd: "sig_store st1 p = Some sd"
    and st': "st' = sig_write st1 p (sd\<lparr>sg_actions := default_actions (sg_actions sd),
        sg_queues := map (\<lambda>_. []) (sg_queues sd), sg_blocked := 0, sg_pending := 0,
        sg_shared_pending := 0, sg_flags := 0\<rparr>)"
    using init r[unfolded r_def new_def] unfolding signal_init_def by (auto simp: Let_def split: if_splits)
  have "length (sg_actions sd) = 64" "length (sg_queues sd) = 64"
    using signals_okD[OF st1 sd] by (simp_all add: signal_ok_def)
  then show ?thesis
    unfolding st' by (intro signals_ok_write[OF st1] signal_ok_cleared) simp_all
qed

lemma signal_send_ok:
  assumes ok: "signals_ok st" and send: "signal_send st target sig info b = Some (r, st')"
  shows "signals_ok st'"
proof -
  have "signals_ok (sig_write st a sd')"
    if "1 \<le> sig" "sig \<le> 64" "sig_store st a = Some sd" "signal_post sd sig info b = Some sd'" for a sd sd'
    using that signals_ok_write[OF ok] signal_ok_post signals_okD[OF ok] by blast
  then show ?thesis
    using send ok by (auto simp: signal_send_def SIG_MAX_def Let_def signal_wake_def split: if_splits option.splits)
qed

lemma signal_do_pending_ok:
  assumes ok: "signals_ok st" and pend: "signal_do_pending st = Some st'"
  shows "signals_ok st'"
proof (cases "cur_sig st = 0")
  case False
  then obtain sd where sd: "sig_store st (cur_sig st) = Some sd"
    and st': "st' = sig_write (snd (signal_pending_loop [1..SIG_MAX] sd st)) (cur_sig st)
        (fst (signal_pending_loop [1..SIG_MAX] sd st))"
    using pend by (auto simp: signal_do_pending_def case_prod_beta)
  have "signals_ok (snd (signal_pending_loop [1..SIG_MAX] sd st))"
    using ok by (subst signals_ok_cong[of _ st]) simp_all
  then show ?thesis
    unfolding st'
    by (rule signals_ok_write) (rule signal_pending_loop_ok[OF signals_okD[OF ok sd]], simp add: SIG_MAX_def)
qed (use ok pend in \<open>simp add: signal_do_pending_def\<close>)

lemma signal_sigaction_ok:
  assumes ok: "signals_ok st" and act: "signal_sigaction st sig act = Some (r, old, st')"
  shows "signals_ok st'"
  using act ok
  by (auto simp: signal_sigaction_def SIG_MAX_def split: if_splits option.splits
      intro!: signals_ok_write signal_ok_action dest: signals_okD)

lemma signal_sigprocmask_ok:
  assumes ok: "signals_ok st" and m: "signal_sigprocmask st how s = Some (r, old, st')"
  shows "signals_ok st'"
  using m ok
  by (auto simp: signal_sigprocmask_def split: if_splits option.splits
      intro!: signals_ok_write signal_ok_blocked dest: signals_okD)

lemma sigsuspend_enter_ok:
  assumes ok: "signals_ok st" and m: "sigsuspend_enter st s = Some (r, st')"
  shows "signals_ok st'"
proof -
  have "signals_ok ((sig_write st a (sd\<lparr>sg_blocked := unblock_kill_stop b\<rparr>))
      \<lparr>sig_suspended := (sig_suspended st)(c \<mapsto> (a', sg_blocked sd))\<rparr>)"
    if "sig_store st a = Some sd" for a a' sd b c
    using ok signal_ok_blocked[OF signals_okD[OF ok that]] signals_okD[OF ok that]
    by (simp add: signals_ok_def sig_write_def) (simp add: signal_ok_def)
  then show ?thesis
    using m ok by (auto simp: sigsuspend_enter_def Let_def split: if_splits option.splits)
qed

lemma sigsuspend_leave_ok:
  assumes ok: "signals_ok st" and m: "sigsuspend_leave st = Some st'"
  shows "signals_ok st'"
proof (cases "sig_suspended st (current_process st)")
  case (Some x)
  then obtain a old sd where x: "sig_suspended st (current_process st) = Some (a, old)"
    and sd: "sig_store st a = Some sd"
    and st': "st' = (sig_write st a (sd\<lparr>sg_blocked := old\<rparr>))
                         \<lparr>sig_suspended := (sig_suspended st)(current_process st := None)\<rparr>"
    using m by (cases x) (auto simp: sigsuspend_leave_def)
  have "\<not> sigismember old SIGKILL" "\<not> sigismember old SIGSTOP"
    using ok x by (auto simp: signals_ok_def)
  then have "signal_ok (sd\<lparr>sg_blocked := old\<rparr>)"
    using signal_ok_old_blocked signals_okD[OF ok sd] by blast
  then show ?thesis
    using ok unfolding st' by (simp add: signals_ok_def sig_write_def)
qed (use ok m in \<open>simp add: sigsuspend_leave_def\<close>)

lemma signal_step_ok: "signal_step st st' \<Longrightarrow> signals_ok st \<Longrightarrow> signals_ok st'"
proof (induction rule: signal_step.induct)
  case (step_destroy st p st')
  then show ?case
    by (auto simp: signal_destroy_def signals_ok_def split: if_splits)
qed (auto intro: signal_create_ok signal_init_ok signal_send_ok signal_do_pending_ok signal_sigaction_ok
      signal_sigprocmask_ok sigsuspend_enter_ok sigsuspend_leave_ok)

lemma signal_reachable_signals_ok: "signal_reachable st \<Longrightarrow> signals_ok st"
proof (induction rule: signal_reachable.induct)
  case (reach_boot st)
  then show ?case by (simp add: signal_boot_def signals_ok_def)
qed (rule signal_step_ok)

subsection \<open>Delivery\<close>

lemma signal_take_simps [simp]:
  "sg_actions (signal_take sd sig) = sg_actions sd" "sg_blocked (signal_take sd sig) = sg_blocked sd"
  "signal_blocked (signal_take sd sig) n = signal_blocked sd n"
  "sigismember (sg_pending (signal_take sd sig)) n \<longleftrightarrow> sigismember (sg_pending sd) n \<and> n \<noteq> sig"
  by (simp_all add: signal_take_def signal_blocked_def sigismember_del)

lemma handled_take: "n \<noteq> sig \<Longrightarrow> handled (signal_take sd sig) n = handled sd n"
  by (simp add: handled_def)

lemma signal_pending_loop_pending:
  assumes "sorted_wrt (<) sigs"
  shows "sigismember (sg_pending (fst (signal_pending_loop sigs sd st))) n \<longleftrightarrow>
    sigismember (sg_pending sd) n \<and> (n \<notin> set sigs \<or> signal_blocked sd n \<or> (\<exists>s\<in>set sigs. s < n \<and> handled sd s))"
  using assms
proof (induction sigs sd st rule: signal_pending_loop.induct)
  case (2 sig sigs sd st)
  have sorted: "sorted_wrt (<) sigs" and less: "\<And>s. s \<in> set sigs \<Longrightarrow> sig < s"
    using "2.prems" by simp_all
  have tk: "(\<exists>s\<in>set sigs. s < n \<and> handled (signal_take sd sig) s) = (\<exists>s\<in>set sigs. s < n \<and> handled sd s)"
    using less handled_take by (metis less_irrefl)
  consider (skip) "\<not> sigismember (sg_pending sd) sig \<or> signal_blocked sd sig"
    | (drop) "sigismember (sg_pending sd) sig" "\<not> signal_blocked sd sig" "\<not> handled sd sig"
    | (run) "handled sd sig"
    by blast
  then show ?case
  proof cases
    case skip
    then have "\<not> handled sd sig" by (auto simp: handled_def)
    with skip "2.IH"(1,2) sorted show ?thesis by auto
  next
    case drop
    then have h: "sa_handler (sg_actions sd ! nat (sig - 1)) = 1 \<or> sa_handler (sg_actions sd ! nat (sig - 1)) = 0"
      by (auto simp: handled_def)
    have "sigismember (sg_pending (fst (signal_pending_loop (sig # sigs) sd st))) n \<longleftrightarrow>
        (sigismember (sg_pending sd) n \<and> n \<noteq> sig) \<and>
        (n \<notin> set sigs \<or> signal_blocked sd n \<or> (\<exists>s\<in>set sigs. s < n \<and> handled sd s))"
      using h drop(1,2) "2.IH"(3)[OF _ _ refl _ sorted] "2.IH"(4)[OF _ _ refl _ _ sorted]
      by (elim disjE) (simp_all add: Let_def tk)
    then show ?thesis using drop by (auto dest: less)
  next
    case run
    then show ?thesis
      by (auto simp: handled_def Let_def dest: less)
  qed
qed simp

lemma signal_pending_loop_first:
  assumes "distinct sigs"
  shows "case find (handled sd) sigs of
      None \<Rightarrow> sg_blocked (fst (signal_pending_loop sigs sd st)) = sg_blocked sd \<and>
        sig_frames (snd (signal_pending_loop sigs sd st)) = sig_frames st
    | Some s \<Rightarrow> \<exists>st1 sd1. let act = sg_actions sd ! nat (s - 1) in
        current_process st1 = current_process st \<and> sig_frames st1 = sig_frames st \<and>
        map p_context (processes st1) = map p_context (processes st) \<and>
        fst (signal_pending_loop sigs sd st) = sd1 \<and> sg_blocked sd1 = handler_mask sd act s \<and>
        snd (signal_pending_loop sigs sd st) = signal_setup_frame s act sd1 st1"
  using assms
proof (induction sigs sd st rule: signal_pending_loop.induct)
  case (2 sig sigs sd st)
  have dist: "distinct sigs" and nin: "sig \<notin> set sigs"
    using "2.prems" by simp_all
  have tk: "find (handled (signal_take sd sig)) sigs = find (handled sd) sigs"
    using nin handled_take by (intro find_cong refl) metis
  have hm: "handler_mask (signal_take sd sig) act s = handler_mask sd act s" for act s
    by (simp add: handler_mask_def)
  consider (skip) "\<not> sigismember (sg_pending sd) sig \<or> signal_blocked sd sig" "\<not> handled sd sig"
    | (ign) "sigismember (sg_pending sd) sig" "\<not> signal_blocked sd sig" "\<not> handled sd sig"
        "sa_handler (sg_actions sd ! nat (sig - 1)) = 1"
    | (dfl) "sigismember (sg_pending sd) sig" "\<not> signal_blocked sd sig" "\<not> handled sd sig"
        "sa_handler (sg_actions sd ! nat (sig - 1)) = 0"
    | (run) "handled sd sig"
    by (auto simp: handled_def)
  then show ?case
  proof cases
    case skip
    then have "signal_pending_loop (sig # sigs) sd st = signal_pending_loop sigs sd st"
      "find (handled sd) (sig # sigs) = find (handled sd) sigs" by auto
    then show ?thesis using "2.IH"(1,2) dist skip by metis
  next
    case ign
    then show ?thesis
      using "2.IH"(3)[OF _ _ refl _ dist] by (cases "find (handled sd) sigs") (simp_all add: tk hm)
  next
    case dfl
    then show ?thesis
      using "2.IH"(4)[OF _ _ refl _ _ dist] by (cases "find (handled sd) sigs") (simp_all add: tk hm)
  next
    case run
    then show ?thesis
      by (auto simp: handled_def Let_def intro!: exI[of _ st])
  qed
qed simp

lemma signal_setup_frame_effect:
  assumes "current_process st < length (processes st)" "length (p_context (processes st ! current_process st)) = 23"
  shows "p_context (processes (signal_setup_frame s act sd st) ! current_process st) ! 15 = sa_handler act"
    and "p_context (processes (signal_setup_frame s act sd st) ! current_process st) ! 9 = of_int s"
    and "fr_context (hd (sig_frames (signal_setup_frame s act sd st))) = p_context (processes st ! current_process st)"
    and "tl (sig_frames (signal_setup_frame s act sd st)) = sig_frames st"
    and "fr_sigmask (hd (sig_frames (signal_setup_frame s act sd st))) = sg_blocked sd"
  using assms by (simp_all add: signal_setup_frame_def Let_def)

lemma find_least:
  assumes "s \<in> set sigs" "P s" "sorted_wrt (<) sigs" "\<And>n. n < s \<Longrightarrow> \<not> P n"
  shows "find P sigs = Some s"
  using assms by (induction sigs) auto

lemma sorted_signals: "sorted_wrt (<) [1..SIG_MAX]"
  by (simp add: strict_sorted_iff)

lemma sigismember_range: "sigismember m s \<Longrightarrow> s \<in> set [1..SIG_MAX]"
  by (simp add: sigismember_def split: if_splits)

lemma handled_range: "handled sd s \<Longrightarrow> s \<in> set [1..SIG_MAX]"
  unfolding handled_def using sigismember_range by blast

lemma signal_do_pending_run:
  assumes c: "cur_sig st \<noteq> 0" "sig_store st (cur_sig st) = Some sd"
  obtains sd' st' where "signal_pending_loop [1..SIG_MAX] sd st = (sd', st')"
    "signal_do_pending st = Some (sig_write st' (cur_sig st) sd')"
  using c by (cases "signal_pending_loop [1..SIG_MAX] sd st") (simp add: signal_do_pending_def)

lemma sigs_after_pending:
  assumes "signal_pending_loop [1..SIG_MAX] sd st = (sd', st')"
  shows "sigismember (sg_pending sd') n \<longleftrightarrow>
    sigismember (sg_pending sd) n \<and> (signal_blocked sd n \<or> (\<exists>s<n. handled sd s))"
  using signal_pending_loop_pending[OF sorted_signals, of sd st n, unfolded assms fst_conv]
    handled_range[of sd] sigismember_range[of "sg_pending sd" n] by blast

lemma mask_after_pending:
  assumes run: "signal_pending_loop [1..SIG_MAX] sd st = (sd', st')"
    and cur: "current_process st < length (processes st)" "length (p_context (processes st ! current_process st)) = 23"
    and s: "handled sd s" "\<And>n. n < s \<Longrightarrow> \<not> handled sd n"
  shows "sg_blocked sd' = handler_mask sd (sg_actions sd ! nat (s - 1)) s"
    and "p_context (processes st' ! current_process st) ! 15 = sa_handler (sg_actions sd ! nat (s - 1))"
    and "p_context (processes st' ! current_process st) ! 9 = of_int s"
    and "fr_context (hd (sig_frames st')) = p_context (processes st ! current_process st)"
    and "tl (sig_frames st') = sig_frames st"
    and "fr_sigmask (hd (sig_frames st')) = sg_blocked sd'"
proof -
  let ?act = "sg_actions sd ! nat (s - 1)"
  have "find (handled sd) [1..SIG_MAX] = Some s"
    using s sorted_signals handled_range by (intro find_least) auto
  moreover have "distinct [1..SIG_MAX]" by simp
  ultimately obtain st1 where st1: "current_process st1 = current_process st" "sig_frames st1 = sig_frames st"
      "map p_context (processes st1) = map p_context (processes st)"
    and b: "sg_blocked sd' = handler_mask sd ?act s" and st': "st' = signal_setup_frame s ?act sd' st1"
    using signal_pending_loop_first[of "[1..SIG_MAX]" sd st] run by (auto simp: Let_def)
  have len: "length (processes st1) = length (processes st)"
    using st1(3) by (rule map_eq_imp_length_eq)
  have ctx: "p_context (processes st1 ! current_process st) = p_context (processes st ! current_process st)"
    using st1(3) cur(1) len by (metis nth_map)
  note eff = signal_setup_frame_effect[of st1 s ?act sd', unfolded st1(1) len ctx, OF cur, folded st']
  show "sg_blocked sd' = handler_mask sd ?act s" by (rule b)
  show "p_context (processes st' ! current_process st) ! 15 = sa_handler ?act"
    "p_context (processes st' ! current_process st) ! 9 = of_int s"
    "fr_context (hd (sig_frames st')) = p_context (processes st ! current_process st)"
    "tl (sig_frames st') = sig_frames st" "fr_sigmask (hd (sig_frames st')) = sg_blocked sd'"
    using eff st1(2) by simp_all
qed

lemma quiet_after_pending:
  assumes run: "signal_pending_loop [1..SIG_MAX] sd st = (sd', st')" and none: "\<And>n. \<not> handled sd n"
  shows "sg_blocked sd' = sg_blocked sd" "sig_frames st' = sig_frames st"
proof -
  have "find (handled sd) [1..SIG_MAX] = None"
    using none by (simp add: find_None_iff)
  then show "sg_blocked sd' = sg_blocked sd" "sig_frames st' = sig_frames st"
    using signal_pending_loop_first[of "[1..SIG_MAX]" sd st] run by simp_all
qed

subsection \<open>Properties\<close>

text \<open>
  C28. In every state that interleavings of the signal calls reach, every signal structure
  is well formed: 64 actions and 64 queues, at most \<open>SIGQUEUE_MAX\<close> entries in a queue, each
  of them for the signal of its queue, none queued for an ordinary signal; and \<open>SIGKILL\<close> and
  \<open>SIGSTOP\<close> have their default action and are not blocked, whatever actions and masks the
  processes install, handlers running and \<open>signal_sigsuspend\<close> included.
\<close>

theorem signal_structs_well_formed:
  assumes "signal_reachable st" "sig_store st a = Some sd"
  shows "length (sg_actions sd) = 64 \<and> length (sg_queues sd) = 64 \<and>
    (\<forall>i<64. length (sg_queues sd ! i) \<le> SIGQUEUE_MAX \<and>
       (\<forall>e\<in>set (sg_queues sd ! i). si_signo e = int i + 1) \<and> (i < 31 \<longrightarrow> sg_queues sd ! i = [])) \<and>
    (\<forall>sig\<in>{SIGKILL, SIGSTOP}. sa_handler (sg_actions sd ! nat (sig - 1)) = 0 \<and> \<not> signal_blocked sd sig)"
  using signals_okD[OF signal_reachable_signals_ok[OF assms(1)] assms(2)]
  by (simp add: signal_ok_def signal_blocked_def)

definition quiet_state :: signal_state where
  "quiet_state = \<lparr>processes = [], process_count = 0, current_process = 0,
     sig_store = (\<lambda>_. None), sig_frames = [], sig_suspended = (\<lambda>_. None)\<rparr>"

theorem signal_structs_well_formed_witness:
  "\<exists>sd. sig_store (snd (signal_create quiet_state 0x1000)) 0x1000 = Some sd \<and>
     length (sg_actions sd) = 64 \<and> \<not> signal_blocked sd SIGSTOP"
proof -
  have "signal_reachable quiet_state"
    by (rule reach_boot) (simp add: signal_boot_def quiet_state_def)
  moreover have "signal_step quiet_state (snd (signal_create quiet_state 0x1000))"
    by (rule step_create) (simp add: quiet_state_def)
  ultimately have reach: "signal_reachable (snd (signal_create quiet_state 0x1000))"
    by (rule reach_step)
  obtain sd where sd: "sig_store (snd (signal_create quiet_state 0x1000)) 0x1000 = Some sd"
    by (simp add: signal_create_def sig_write_def)
  then show ?thesis
    using signal_structs_well_formed[OF reach sd] by simp
qed

text \<open>
  C31. \<open>signal_do_pending\<close> delivers to the lowest pending, unblocked signal with a handler: the
  saved context becomes a call of that handler with the signal as its argument, the old
  context is in the frame on the stack, and the mask is the old one with the action's mask
  and the signal added. Blocked signals and those above the delivered one stay pending, all
  other ones are consumed; with no handler to call, mask and frames are unchanged.
\<close>

theorem signal_do_pending_delivers:
  assumes "cur_sig st \<noteq> 0" "sig_store st (cur_sig st) = Some sd"
    and "current_process st < length (processes st)"
    and "length (p_context (processes st ! current_process st)) = 23"
  shows "\<exists>st' sd'. signal_do_pending st = Some st' \<and> sig_store st' (cur_sig st) = Some sd' \<and>
    (\<forall>n. sigismember (sg_pending sd') n \<longleftrightarrow>
       sigismember (sg_pending sd) n \<and> (signal_blocked sd n \<or> (\<exists>s<n. handled sd s))) \<and>
    (\<forall>s. handled sd s \<and> (\<forall>n. n < s \<longrightarrow> \<not> handled sd n) \<longrightarrow>
       p_context (processes st' ! current_process st) ! 15 = sa_handler (sg_actions sd ! nat (s - 1)) \<and>
       p_context (processes st' ! current_process st) ! 9 = of_int s \<and>
       fr_context (hd (sig_frames st')) = p_context (processes st ! current_process st) \<and>
       tl (sig_frames st') = sig_frames st \<and>
       sg_blocked sd' = handler_mask sd (sg_actions sd ! nat (s - 1)) s) \<and>
    ((\<forall>s. \<not> handled sd s) \<longrightarrow> sg_blocked sd' = sg_blocked sd \<and> sig_frames st' = sig_frames st)"
proof -
  obtain sd' st1 where run: "signal_pending_loop [1..SIG_MAX] sd st = (sd', st1)"
    and st': "signal_do_pending st = Some (sig_write st1 (cur_sig st) sd')"
    by (rule signal_do_pending_run[OF assms(1,2)])
  show ?thesis
    by (rule exI[of _ "sig_write st1 (cur_sig st) sd'"], rule exI[of _ sd'])
       (simp add: st' sig_write_def sigs_after_pending[OF run] mask_after_pending[OF run assms(3,4)]
         quiet_after_pending[OF run], use mask_after_pending(4,5)[OF run assms(3,4)] in blast)
qed

definition usr1_pending :: signal_struct where
  "usr1_pending = \<lparr>sg_actions = (replicate 64 zero_action)[9 := zero_action\<lparr>sa_handler := 0x400000\<rparr>],
     sg_blocked = 0, sg_pending = sigaddset 0 10, sg_shared_pending = 0,
     sg_queues = replicate 64 [], sg_flags = 0\<rparr>"

definition usr1_state :: signal_state where
  "usr1_state = \<lparr>processes = [\<lparr>p_id = 0, p_parent_id = 0, p_state = PROCESS_RUNNING, p_priority = 2,
       p_flags = 0, p_name = replicate 32 0, p_context = (replicate 23 0)[18 := 0x8000], p_stack = 0,
       p_entry = 0, p_entry_arg = 0, p_sched_count = 0, p_pending_signals = 0, p_signal_mask = 0,
       p_signal_data = 0x1000\<rparr>], process_count = 1, current_process = 0,
     sig_store = (\<lambda>_. None)(0x1000 \<mapsto> usr1_pending), sig_frames = [], sig_suspended = (\<lambda>_. None)\<rparr>"

lemma usr1_handled: "handled usr1_pending s \<longleftrightarrow> s = 10"
  by (auto simp: handled_def usr1_pending_def sigismember_add signal_blocked_def)

theorem signal_do_pending_delivers_witness:
  "\<exists>st'. signal_do_pending usr1_state = Some st' \<and> p_context (processes st' ! 0) ! 15 = 0x400000 \<and>
     p_context (processes st' ! 0) ! 9 = 10"
proof -
  have st: "cur_sig usr1_state = 0x1000" "sig_store usr1_state 0x1000 = Some usr1_pending"
    "current_process usr1_state = 0" "length (processes usr1_state) = 1"
    "length (p_context (processes usr1_state ! 0)) = 23"
    by (simp_all add: cur_sig_def usr1_state_def)
  have "sa_handler (sg_actions usr1_pending ! 9) = 0x400000"
    by (simp add: usr1_pending_def)
  then show ?thesis
    using signal_do_pending_delivers[of usr1_state usr1_pending] by (simp add: st usr1_handled) blast
qed

subsection \<open>Divergences\<close>

text \<open>When the structure cannot be allocated, \<open>signal_init\<close> writes through a null pointer.\<close>

lemma signal_init_no_memory: "cur_sig st = 0 \<Longrightarrow> signal_init st 0 = None"
  by (simp add: signal_init_def signal_create_def Let_def)

text \<open>
  Of two queued instances of a real-time signal only the first is delivered: taking it clears
  the pending bit although the queue still holds the second.
\<close>

lemma signal_queue_stuck:
  assumes "SIGRTMIN \<le> sig" "sig \<le> 64" "length (sg_queues sd) = 64" "sg_queues sd ! nat (sig - 1) = []"
    "signal_post sd sig i1 True = Some sd1" "signal_post sd1 sig i2 True = Some sd2"
  shows "\<not> sigismember (sg_pending (signal_take sd2 sig)) sig"
    and "sg_queues (signal_take sd2 sig) ! nat (sig - 1) = [queue_info sig i2]"
  using assms
  by (auto simp: signal_post_def Let_def SIGQUEUE_MAX_def SIGRTMIN_def signal_take_def sigismember_del)

text \<open>
  Sending \<open>SIGCONT\<close>, or any other signal but \<open>SIGKILL\<close>, leaves a stopped process stopped, and a
  stopped process is not scheduled to run \<open>signal_do_pending\<close> for itself.
\<close>

lemma signal_send_leaves_stopped:
  assumes "state_of st (unat target) = PROCESS_STOPPED" "sig \<noteq> SIGKILL"
    "signal_send st target sig info b = Some (r, st')"
  shows "state_of st' (unat target) = PROCESS_STOPPED"
  using assms
  by (auto simp: signal_send_def Let_def signal_wake_def sig_write_def state_of_def split: if_splits option.splits)

text \<open>The mask saved in the frame is the handler's mask, not the interrupted one.\<close>

lemma signal_frame_saves_handler_mask:
  assumes "signal_pending_loop [1..SIG_MAX] sd st = (sd', st')"
    and "current_process st < length (processes st)" "length (p_context (processes st ! current_process st)) = 23"
    and "handled sd s" "\<And>n. n < s \<Longrightarrow> \<not> handled sd n"
  shows "fr_sigmask (hd (sig_frames st')) = handler_mask sd (sg_actions sd ! nat (s - 1)) s"
  using mask_after_pending[OF assms] by simp

end
