(* ===== verification/Libc_Time.thy ===== *)
theory Libc_Time
  imports Libc_String "HOL-Library.Signed_Division"
begin

section \<open>The kernel C library: dates\<close>

text \<open>
  \<open>kernel/lib/libc/time.c\<close>. The registers of the clock chip are a function from register
  number to byte, and the uptime in milliseconds is an argument: both are hardware. C's
  division truncates, so \<open>/\<close> and \<open>%\<close> on signed values are \<open>sdiv\<close> and \<open>smod\<close>; C's \<open>int\<close> is
  an integer. The static buffers that \<open>localtime\<close>, \<open>gmtime\<close> and \<open>asctime\<close> return are
  modelled by their contents. A read or write outside an array answers \<open>None\<close>.
\<close>

record tm =
  tm_sec :: int
  tm_min :: int
  tm_hour :: int
  tm_mday :: int
  tm_mon :: int
  tm_year :: int
  tm_wday :: int
  tm_yday :: int
  tm_isdst :: int

subsection \<open>The calendar\<close>

definition TIMEZONE_OFFSET :: int where "TIMEZONE_OFFSET = 8 * 3600"

definition days_in_month :: "int list" where
  "days_in_month = [31, 28, 31, 30, 31, 30, 31, 31, 30, 31, 30, 31]"

definition bcd_to_bin :: "u8 \<Rightarrow> u8" where
  "bcd_to_bin bcd = drop_bit 4 bcd * 10 + (bcd AND 0x0F)"

definition is_leap_year :: "int \<Rightarrow> bool" where
  "is_leap_year year \<longleftrightarrow> year smod 4 = 0 \<and> year smod 100 \<noteq> 0 \<or> year smod 400 = 0"

text \<open>\<open>for (int m = 0; m < month - 1; m++)\<close>: the sum over the given months.\<close>

fun month_days :: "int \<Rightarrow> int list \<Rightarrow> int option" where
  "month_days year [] = Some 0"
| "month_days year (m # ms) =
     (if m \<ge> int (length days_in_month) then None
      else map_option (\<lambda>r. days_in_month ! nat m + (if m = 1 \<and> is_leap_year year then 1 else 0) + r)
             (month_days year ms))"

definition days_since_epoch :: "int \<Rightarrow> int \<Rightarrow> int \<Rightarrow> int option" where
  "days_since_epoch year month day =
     map_option (\<lambda>ms. (\<Sum>y\<leftarrow>[1970..year - 1]. if is_leap_year y then 366 else 365) + ms + (day - 1))
       (month_days year [0..month - 2])"

definition clock :: "u64 \<Rightarrow> int" where
  "clock ms = sint ms"

definition time :: "u64 \<Rightarrow> int" where
  "time ms = sint (ms div 1000)"

definition difftime :: "int \<Rightarrow> int \<Rightarrow> int" where
  "difftime time1 time0 = time1 - time0"

subsection \<open>Reading the clock chip\<close>

abbreviation (input) RTC_SECONDS :: u8 where "RTC_SECONDS \<equiv> 0x00"
abbreviation (input) RTC_MINUTES :: u8 where "RTC_MINUTES \<equiv> 0x02"
abbreviation (input) RTC_HOURS :: u8 where "RTC_HOURS \<equiv> 0x04"
abbreviation (input) RTC_DAY :: u8 where "RTC_DAY \<equiv> 0x07"
abbreviation (input) RTC_MONTH :: u8 where "RTC_MONTH \<equiv> 0x08"
abbreviation (input) RTC_YEAR :: u8 where "RTC_YEAR \<equiv> 0x09"
abbreviation (input) RTC_CENTURY :: u8 where "RTC_CENTURY \<equiv> 0x32"
abbreviation (input) RTC_STATUS_B :: u8 where "RTC_STATUS_B \<equiv> 0x0B"

definition zeller_wday :: "int \<Rightarrow> int \<Rightarrow> int \<Rightarrow> int" where
  "zeller_wday full_year mon day =
     (let (m, y) = (if mon < 3 then (mon + 12, full_year - 1) else (mon, full_year));
          k = y smod 100;
          j = y sdiv 100;
          wday = (day + (13 * (m + 1)) sdiv 5 + k + k sdiv 4 + j sdiv 4 + 5 * j) smod 7
      in (wday + 5) smod 7)"

text \<open>\<open>while (total_sec >= 86400)\<close>, with the count of days.\<close>

function day_overflow :: "int \<Rightarrow> int \<Rightarrow> int \<times> int" where
  "day_overflow total_sec mday =
     (if total_sec \<ge> 86400 then day_overflow (total_sec - 86400) (mday + 1) else (total_sec, mday))"
  by pat_completeness auto
termination by (relation "measure (\<lambda>(t, _). nat t)") auto

declare day_overflow.simps [simp del]

definition add_zone :: "tm \<Rightarrow> tm" where
  "add_zone t =
     (let (total_sec, mday) =
        day_overflow (tm_hour t * 3600 + tm_min t * 60 + tm_sec t + TIMEZONE_OFFSET) (tm_mday t)
      in t\<lparr>tm_mday := mday, tm_hour := total_sec sdiv 3600, tm_min := (total_sec smod 3600) sdiv 60,
           tm_sec := total_sec smod 60\<rparr>)"

definition rtc_to_tm :: "(u8 \<Rightarrow> u8) \<Rightarrow> bool \<Rightarrow> tm option" where
  "rtc_to_tm rtc local =
     (let status_b = rtc RTC_STATUS_B;
          bcd_mode = (status_b AND 0x04 = 0);
          hour_12 = (status_b AND 0x02 = 0);
          conv = (\<lambda>b. if bcd_mode then bcd_to_bin b else b);
          sec = conv (rtc RTC_SECONDS);
          min' = conv (rtc RTC_MINUTES);
          hour = conv (rtc RTC_HOURS);
          day = uint (conv (rtc RTC_DAY));
          mon = uint (conv (rtc RTC_MONTH));
          year = conv (rtc RTC_YEAR);
          cent = conv (rtc RTC_CENTURY);
          hour' = (if hour_12 \<and> hour AND 0x80 \<noteq> 0 then (hour AND 0x7F) mod 12 + 12 else hour);
          full_year = uint cent * 100 + uint year
      in case (days_since_epoch full_year mon day, days_since_epoch full_year 1 1) of
           (Some d, Some d1) \<Rightarrow>
             let t = \<lparr>tm_sec = uint sec, tm_min = uint min', tm_hour = uint hour', tm_mday = day,
                   tm_mon = mon - 1, tm_year = full_year - 1900,
                   tm_wday = zeller_wday full_year mon day, tm_yday = d - d1, tm_isdst = 0\<rparr>
             in Some (if local then add_zone t else t)
         | _ \<Rightarrow> None)"

definition localtime :: "(u8 \<Rightarrow> u8) \<Rightarrow> int \<Rightarrow> tm option" where
  "localtime rtc timer = rtc_to_tm rtc True"

definition gmtime :: "(u8 \<Rightarrow> u8) \<Rightarrow> int \<Rightarrow> tm option" where
  "gmtime rtc timer = rtc_to_tm rtc False"

definition mktime :: "tm \<Rightarrow> int option" where
  "mktime t =
     map_option (\<lambda>days. days * 86400 + tm_hour t * 3600 + tm_min t * 60 + tm_sec t)
       (days_since_epoch (tm_year t + 1900) (tm_mon t + 1) (tm_mday t))"

subsection \<open>Formatting\<close>

definition chars :: "string \<Rightarrow> u8 list" where
  "chars s = map of_char s"

definition wday_names :: "u8 list list" where
  "wday_names = map chars [''Sun'', ''Mon'', ''Tue'', ''Wed'', ''Thu'', ''Fri'', ''Sat'']"

definition mon_names :: "u8 list list" where
  "mon_names = map chars [''Jan'', ''Feb'', ''Mar'', ''Apr'', ''May'', ''Jun'',
     ''Jul'', ''Aug'', ''Sep'', ''Oct'', ''Nov'', ''Dec'']"

definition wday_text :: "tm \<Rightarrow> u8 list" where
  "wday_text t = (if tm_wday t \<ge> 0 \<and> tm_wday t \<le> 6 then wday_names ! nat (tm_wday t) else chars ''???'')"

definition mon_text :: "tm \<Rightarrow> u8 list" where
  "mon_text t = (if tm_mon t \<ge> 0 \<and> tm_mon t \<le> 11 then mon_names ! nat (tm_mon t) else chars ''???'')"

text \<open>\<open>'0' + (v / 10)\<close> and \<open>'0' + (v % 10)\<close>, and the four digits of a year.\<close>

definition digits2 :: "int \<Rightarrow> u8 list" where
  "digits2 v = [word_of_int (48 + v sdiv 10), word_of_int (48 + v smod 10)]"

definition digits4 :: "int \<Rightarrow> u8 list" where
  "digits4 v = [word_of_int (48 + v sdiv 1000), word_of_int (48 + (v sdiv 100) smod 10),
     word_of_int (48 + (v sdiv 10) smod 10), word_of_int (48 + v smod 10)]"

definition asctime :: "tm option \<Rightarrow> u8 list option" where
  "asctime t = map_option (\<lambda>t. wday_text t @ [32] @ mon_text t @ [32] @ digits2 (tm_mday t) @ [32] @
     digits2 (tm_hour t) @ [58] @ digits2 (tm_min t) @ [58] @ digits2 (tm_sec t) @ [32] @
     digits4 (tm_year t + 1900) @ [10, 0]) t"

definition ctime :: "(u8 \<Rightarrow> u8) \<Rightarrow> int \<Rightarrow> u8 list option" where
  "ctime rtc timer = asctime (localtime rtc timer)"

text \<open>
  The switch of \<open>strftime\<close>: the bytes put into \<open>tmp\<close>. The sums \<open>tm_mon + 1\<close> and \<open>tm_year + 1900\<close> are those of the integers: the
  model describes calls for which they fit into an \<open>int\<close>, as every date from the clock does.
\<close>

definition conversion :: "tm \<Rightarrow> u8 \<Rightarrow> u8 list" where
  "conversion t c =
     (if c = of_char (CHR ''a'') then wday_text t
      else if c = of_char (CHR ''b'') then mon_text t
      else if c = of_char (CHR ''d'') then digits2 (tm_mday t)
      else if c = of_char (CHR ''H'') then digits2 (tm_hour t)
      else if c = of_char (CHR ''M'') then digits2 (tm_min t)
      else if c = of_char (CHR ''m'') then digits2 (tm_mon t + 1)
      else if c = of_char (CHR ''S'') then digits2 (tm_sec t)
      else if c = of_char (CHR ''Y'') then digits4 (tm_year t + 1900)
      else [c])"

text \<open>\<open>for (int j = 0; j < len && i < max - 1; j++) s[i++] = tmp[j];\<close>\<close>

fun copy_tmp :: "nat \<Rightarrow> u8 list \<Rightarrow> nat \<Rightarrow> u8 list \<Rightarrow> (nat \<times> u8 list) option" where
  "copy_tmp mx [] i s = Some (i, s)"
| "copy_tmp mx (c # tmp) i s =
     (if i < mx - 1
      then case store s i c of None \<Rightarrow> None | Some s' \<Rightarrow> copy_tmp mx tmp (i + 1) s'
      else Some (i, s))"

fun strftime_loop :: "tm \<Rightarrow> nat \<Rightarrow> u8 list \<Rightarrow> nat \<Rightarrow> u8 list \<Rightarrow> (nat \<times> u8 list) option" where
  "strftime_loop t mx [] i s = None"
| "strftime_loop t mx (c # f) i s =
     (if c = 0 \<or> \<not> i < mx - 1 then Some (i, s)
      else if c \<noteq> 37
      then (case store s i c of None \<Rightarrow> None | Some s' \<Rightarrow> strftime_loop t mx f (i + 1) s')
      else (case f of
              [] \<Rightarrow> None
            | d # f' \<Rightarrow>
                if d = 0 then Some (i, s)
                else (case copy_tmp mx (conversion t d) i s of
                        None \<Rightarrow> None
                      | Some (i', s') \<Rightarrow> strftime_loop t mx f' i' s')))"

definition strftime ::
  "u8 list option \<Rightarrow> nat \<Rightarrow> u8 list option \<Rightarrow> tm option \<Rightarrow> (nat \<times> u8 list option) option" where
  "strftime s mx format t =
     (case (s, format, t) of
        (Some s0, Some f, Some t0) \<Rightarrow>
          if mx = 0 then Some (0, s)
          else (case strftime_loop t0 mx f 0 s0 of
                  None \<Rightarrow> None
                | Some (i, s1) \<Rightarrow> map_option (\<lambda>s2. (i, Some s2)) (store s1 i 0))
      | _ \<Rightarrow> Some (0, s))"

text \<open>What a format means: the text without a bound.\<close>

fun strftime_text :: "tm \<Rightarrow> u8 list \<Rightarrow> u8 list" where
  "strftime_text t [] = []"
| "strftime_text t (c # f) =
     (if c \<noteq> 37 then c # strftime_text t f
      else (case f of [] \<Rightarrow> [] | d # f' \<Rightarrow> conversion t d @ strftime_text t f'))"

subsection \<open>Calendar lemmas\<close>

definition month_length :: "int \<Rightarrow> int \<Rightarrow> int" where
  "month_length year month =
     (if month = 2 \<and> is_leap_year year then 29 else days_in_month ! nat (month - 1))"

definition next_day :: "int \<times> int \<times> int \<Rightarrow> int \<times> int \<times> int" where
  "next_day d = (case d of (year, month, day) \<Rightarrow>
     if day < month_length year month then (year, month, day + 1)
     else if month < 12 then (year, month + 1, 1) else (year + 1, 1, 1))"

lemma month_days_append:
  "month_days year (ms @ [m]) =
     (if m \<ge> 12 then None
      else map_option (\<lambda>r. r + days_in_month ! nat m + (if m = 1 \<and> is_leap_year year then 1 else 0))
             (month_days year ms))"
  if "\<forall>x\<in>set ms. x < 12"
  using that by (induction ms) (auto simp: days_in_month_def option.map_comp comp_def algebra_simps)

lemma month_days_Some:
  assumes "\<forall>x\<in>set ms. x < 12"
  shows "\<exists>r. month_days year ms = Some r"
  using assms by (induction ms) (auto simp: days_in_month_def)

lemma days_in_year: "month_days year [0..11] = Some (if is_leap_year year then 366 else 365)"
  by (simp add: days_in_month_def upto.simps)

lemma month_days_december: "month_days year [0..10] = Some (if is_leap_year year then 335 else 334)"
  by (simp add: days_in_month_def upto.simps)

lemma days_since_epoch_year:
  assumes "1970 \<le> year" "days_since_epoch year 1 1 = Some n"
  shows "days_since_epoch (year + 1) 1 1 = Some (n + (if is_leap_year year then 366 else 365))"
  using assms upto_rec2[of 1970 year] by (auto simp: days_since_epoch_def)

lemma days_since_epoch_next_month:
  assumes "1 \<le> month" "month < 12" "days_since_epoch year month 1 = Some n"
  shows "days_since_epoch year (month + 1) 1 = Some (n + month_length year month)"
proof -
  have "[0..month - 1] = [0..month - 2] @ [month - 1]"
    using assms(1) upto_rec2[of 0 "month - 1"] by simp
  moreover have "month_days year ([0..month - 2] @ [month - 1]) =
      map_option (\<lambda>r. r + days_in_month ! nat (month - 1) + (if month - 1 = 1 \<and> is_leap_year year then 1 else 0))
        (month_days year [0..month - 2])"
    using assms(2) by (subst month_days_append) auto
  moreover have "days_in_month ! nat (month - 1) + (if month - 1 = 1 \<and> is_leap_year year then 1 else 0)
      = month_length year month"
    by (simp add: month_length_def days_in_month_def)
  ultimately show ?thesis
    using assms(3) by (auto simp: days_since_epoch_def)
qed

lemma days_since_epoch_day:
  "days_since_epoch year month day = map_option (\<lambda>n. n + (day - 1)) (days_since_epoch year month 1)"
  by (simp add: days_since_epoch_def option.map_comp comp_def)

lemma days_since_epoch_december:
  "days_since_epoch year 12 1 = Some n \<Longrightarrow> days_since_epoch year 1 1 = Some (n - (if is_leap_year year then 335 else 334))"
  using month_days_december[of year] by (auto simp: days_since_epoch_def)

lemma days_since_epoch_Some:
  assumes "month \<le> 12"
  shows "\<exists>n. days_since_epoch year month day = Some n"
  using month_days_Some[of "[0..month - 2]" year] assms by (auto simp: days_since_epoch_def)

lemma days_since_epoch_next_day:
  assumes m: "1970 \<le> year" "1 \<le> month" "month \<le> 12" and d: "day \<le> month_length year month"
    and n: "days_since_epoch year month day = Some n" and nd: "next_day (year, month, day) = (y', m', d')"
  shows "days_since_epoch y' m' d' = Some (n + 1)"
proof -
  obtain k where k: "days_since_epoch year month 1 = Some k" "n = k + (day - 1)"
    using n days_since_epoch_day[of year month day] by auto
  consider "day < month_length year month" | "day = month_length year month" "month < 12"
    | "day = month_length year month" "month = 12"
    using d m by fastforce
  then show ?thesis
  proof cases
    case 1
    then show ?thesis
      using nd k days_since_epoch_day[of year month "day + 1"] by (auto simp: next_day_def)
  next
    case 2
    then show ?thesis
      using nd k days_since_epoch_next_month[OF m(2) 2(2) k(1)] by (auto simp: next_day_def)
  next
    case 3
    then have "days_since_epoch (year + 1) 1 1 = Some (k + 31)"
      using days_since_epoch_year[OF m(1) days_since_epoch_december] k(1) by auto
    moreover have "month_length year 12 = 31" by (simp add: month_length_def days_in_month_def)
    ultimately show ?thesis
      using 3 nd k(2) by (auto simp: next_day_def)
  qed
qed

subsection \<open>Formatting lemmas\<close>

definition written :: "u8 list \<Rightarrow> nat \<Rightarrow> u8 list \<Rightarrow> u8 list" where
  "written s i ws = take i s @ ws @ drop (i + length ws) s"

lemma written_Nil [simp]: "written s i [] = s"
  by (simp add: written_def)

lemma length_written: "i + length ws \<le> length s \<Longrightarrow> length (written s i ws) = length s"
  by (simp add: written_def)

lemma written_written:
  "i + length u + length v \<le> length s \<Longrightarrow> written (written s i u) (i + length u) v = written s i (u @ v)"
  by (simp add: written_def ac_simps)

lemma store_written: "i < length s \<Longrightarrow> store s i c = Some (written s i [c])"
  by (simp add: store_def written_def upd_conv_take_nth_drop)

lemma copy_tmp_eq:
  assumes "i \<le> mx - 1" "mx - 1 < length s"
  shows "copy_tmp mx tmp i s =
    Some (i + length (take (mx - 1 - i) tmp), written s i (take (mx - 1 - i) tmp))"
  using assms
proof (induction mx tmp i s rule: copy_tmp.induct)
  case (2 mx c tmp i s)
  show ?case
  proof (cases "i < mx - 1")
    case True
    have len: "length (written s i [c]) = length s"
      using True "2.prems" by (intro length_written) simp
    have "copy_tmp mx tmp (i + 1) (written s i [c]) =
        Some (i + 1 + length (take (mx - 1 - (i + 1)) tmp), written (written s i [c]) (i + 1) (take (mx - 1 - (i + 1)) tmp))"
      using True "2.prems" len by (intro "2.IH") (simp_all add: store_written)
    moreover have "written (written s i [c]) (i + 1) (take (mx - 1 - (i + 1)) tmp) =
        written s i ([c] @ take (mx - 1 - (i + 1)) tmp)"
      using True "2.prems" written_written[of i "[c]" "take (mx - 1 - (i + 1)) tmp" s] by simp
    moreover have "take (mx - 1 - i) (c # tmp) = [c] @ take (mx - 1 - (i + 1)) tmp"
      using True by (simp add: take_Cons')
    ultimately show ?thesis
      using True "2.prems" by (simp add: store_written)
  qed (use "2.prems" in simp)
qed simp

lemma strftime_loop_eq:
  assumes "terminated f" "i \<le> mx - 1" "mx - 1 < length s"
  shows "strftime_loop t mx f i s = (let ws = take (mx - 1 - i) (strftime_text t (cstr f))
    in Some (i + length ws, written s i ws))"
  using assms
proof (induction t mx f i s rule: strftime_loop.induct)
  case (2 t mx c f i s)
  show ?case
  proof (cases "c = 0 \<or> \<not> i < mx - 1")
    case True
    then show ?thesis using "2.prems" by auto
  next
    case False
    then have i: "i < mx - 1" "c \<noteq> 0" by simp_all
    show ?thesis
    proof (cases "c = 37")
      case False
      let ?ws = "take (mx - 1 - (i + 1)) (strftime_text t (cstr f))"
      have len: "length (written s i [c]) = length s"
        using i "2.prems" by (intro length_written) simp
      have "strftime_loop t mx f (i + 1) (written s i [c]) =
          Some (i + 1 + length ?ws, written (written s i [c]) (i + 1) ?ws)"
        using i False "2.prems" len "2.IH"(1)[of "written s i [c]"] by (simp add: store_written Let_def)
      moreover have "written (written s i [c]) (i + 1) ?ws = written s i (c # ?ws)"
        using i "2.prems" written_written[of i "[c]" ?ws s] by simp
      moreover have "take (mx - 1 - i) (c # strftime_text t (cstr f)) = c # ?ws"
        using i by (simp add: take_Cons')
      ultimately show ?thesis
        using i False "2.prems" by (simp add: store_written Let_def)
    next
      case True
      then obtain d f' where f: "f = d # f'"
        using "2.prems" by (cases f) auto
      show ?thesis
      proof (cases "d = 0")
        case True
        then show ?thesis using f \<open>c = 37\<close> i by simp
      next
        case d: False
        define u where "u = take (mx - 1 - i) (conversion t d)"
        define v where "v = take (mx - 1 - (i + length u)) (strftime_text t (cstr f'))"
        have u: "i + length u \<le> mx - 1" using i by (simp add: u_def)
        have v: "i + length u + length v \<le> length s" using u "2.prems" by (simp add: v_def)
        have cp: "copy_tmp mx (conversion t d) i s = Some (i + length u, written s i u)"
          unfolding u_def using i "2.prems" by (intro copy_tmp_eq) simp_all
        have "length (written s i u) = length s"
          using v by (intro length_written) simp
        then have "strftime_loop t mx f' (i + length u) (written s i u) =
            Some (i + length u + length v, written (written s i u) (i + length u) v)"
          unfolding v_def using "2.IH"(2)[OF \<open>\<not> (c = 0 \<or> \<not> i < mx - 1)\<close> _ f d cp refl] u "2.prems" f d True
          by (simp only: Let_def) simp
        moreover have "written (written s i u) (i + length u) v = written s i (u @ v)"
          using v by (rule written_written)
        moreover have "take (mx - 1 - i) (conversion t d @ strftime_text t (cstr f')) = u @ v"
        proof (cases "length (conversion t d) \<le> mx - 1 - i")
          case True
          then have "u = conversion t d" by (simp add: u_def)
          then show ?thesis using True by (simp add: v_def)
        next
          case False
          then have "length u = mx - 1 - i" by (simp add: u_def)
          then show ?thesis using False i by (simp add: u_def v_def)
        qed
        moreover have "strftime_text t (cstr (c # f)) = conversion t d @ strftime_text t (cstr f')"
          using True f d by simp
        moreover have "strftime_loop t mx (c # f) i s = strftime_loop t mx f' (i + length u) (written s i u)"
          using i True f d cp by simp
        ultimately show ?thesis
          by (simp add: Let_def)
      qed
    qed
  qed
qed simp

subsection \<open>Properties\<close>

text \<open>
  C38. \<open>strftime\<close> stays inside its buffer: with a buffer of at least \<open>max\<close> bytes it returns an
  index below \<open>max\<close>, writes the expansion of the format cut at \<open>max - 1\<close> bytes, terminates it
  there and changes no byte behind the terminator, for every format and every date.
\<close>

theorem strftime_within_bounds:
  assumes "terminated f" "0 < mx" "mx \<le> length s"
  shows "\<exists>i s'. strftime (Some s) mx (Some f) (Some t) = Some (i, Some s') \<and> i < mx \<and>
    length s' = length s \<and> take i s' = take (mx - 1) (strftime_text t (cstr f)) \<and> s' ! i = 0 \<and>
    drop (i + 1) s' = drop (i + 1) s"
proof -
  define ws where "ws = take (mx - 1) (strftime_text t (cstr f))"
  have len: "length ws < mx" using assms(2) by (auto simp: ws_def)
  then have wl: "length (written s 0 ws) = length s"
    using assms(3) by (intro length_written) simp
  have "strftime_loop t mx f 0 s = Some (length ws, written s 0 ws)"
    using strftime_loop_eq[OF assms(1), of 0 mx s t] assms(2,3) by (simp add: ws_def Let_def)
  moreover have "store (written s 0 ws) (length ws) 0 = Some (written s 0 (ws @ [0]))"
    using len assms(3) wl written_written[of 0 ws "[0]" s] by (simp add: store_written)
  ultimately have "strftime (Some s) mx (Some f) (Some t) = Some (length ws, Some (written s 0 (ws @ [0])))"
    using assms(2) by (simp add: strftime_def)
  then show ?thesis
    unfolding ws_def[symmetric] using len assms(3) by (auto simp: written_def nth_append)
qed

definition new_year :: tm where
  "new_year = \<lparr>tm_sec = 0, tm_min = 0, tm_hour = 0, tm_mday = 1, tm_mon = 0, tm_year = 70,
     tm_wday = 4, tm_yday = 0, tm_isdst = 0\<rparr>"

theorem strftime_within_bounds_witness:
  "\<exists>i s'. strftime (Some (replicate 8 255)) 4 (Some [37, 89, 45, 37, 109, 0]) (Some new_year) = Some (i, Some s') \<and>
     i < 4 \<and> take i s' = [49, 57, 55] \<and> s' ! i = 0"
proof -
  have txt': "take 3 (strftime_text new_year (cstr [37, 89, 45, 37, 109, 0])) = [49, 57, 55]"
    by (simp add: conversion_def of_char_def digits4_def digits2_def new_year_def signed_divide_int_def signed_modulo_int_def)
  show ?thesis
    using strftime_within_bounds[of "[37, 89, 45, 37, 109, 0]" 4 "replicate 8 255" new_year] txt' by simp blast
qed

text \<open>
  \<open>mktime\<close> counts the seconds of the civil calendar: it is 0 at the start of 1970, adds the
  time of day to the midnight of its date, and grows by 86400 from each valid date to the
  next one, over the ends of months, leap days and years.
\<close>

theorem mktime_counts_seconds:
  assumes "70 \<le> tm_year t" "0 \<le> tm_mon t" "tm_mon t \<le> 11"
    and "tm_mday t \<le> month_length (tm_year t + 1900) (tm_mon t + 1)"
    and "next_day (tm_year t + 1900, tm_mon t + 1, tm_mday t) = (y, m, d)"
  shows "mktime new_year = Some 0 \<and> (\<exists>n. mktime t = Some n \<and>
    mktime (t\<lparr>tm_hour := 0, tm_min := 0, tm_sec := 0\<rparr>) =
      Some (n - (tm_hour t * 3600 + tm_min t * 60 + tm_sec t)) \<and>
    mktime (t\<lparr>tm_year := y - 1900, tm_mon := m - 1, tm_mday := d\<rparr>) = Some (n + 86400))"
proof -
  obtain k where k: "days_since_epoch (tm_year t + 1900) (tm_mon t + 1) (tm_mday t) = Some k"
    using days_since_epoch_Some[of "tm_mon t + 1"] assms(3) by fastforce
  have "days_since_epoch y m d = Some (k + 1)"
    using assms by (intro days_since_epoch_next_day[OF _ _ _ _ k]) simp_all
  moreover have "days_since_epoch 1970 1 1 = Some 0"
    by (simp add: days_since_epoch_def)
  ultimately show ?thesis
    using k by (simp add: mktime_def new_year_def)
qed

definition leap_day :: tm where
  "leap_day = \<lparr>tm_sec = 5, tm_min = 30, tm_hour = 12, tm_mday = 29, tm_mon = 1, tm_year = 124,
     tm_wday = 4, tm_yday = 59, tm_isdst = 0\<rparr>"

theorem mktime_counts_seconds_witness:
  "\<exists>n. mktime leap_day = Some n \<and>
     mktime (leap_day\<lparr>tm_year := 2024 - 1900, tm_mon := 3 - 1, tm_mday := 1\<rparr>) = Some (n + 86400)"
proof -
  have len: "month_length 2024 2 = 29"
    by (simp add: month_length_def is_leap_year_def signed_modulo_int_def)
  show ?thesis
    using mktime_counts_seconds[of leap_day 2024 3 1] len by (auto simp: leap_day_def next_day_def)
qed

subsection \<open>Divergences\<close>

text \<open>
  The first of January 1970 was a Thursday, day 4 of a week that starts with Sunday as 0.
  Zeller's congruence has Saturday as 0, so 6 and not 5 has to be added.
\<close>

lemma zeller_wday_off_by_one: "zeller_wday 1970 1 1 = 3"
  by code_simp

text \<open>Adding the time zone on the last day of a month gives day 32.\<close>

lemma add_zone_leaves_month:
  "tm_mday (add_zone (new_year\<lparr>tm_mday := 31, tm_hour := 20\<rparr>)) = 32"
  by (simp add: add_zone_def day_overflow.simps new_year_def TIMEZONE_OFFSET_def)

text \<open>One o'clock p.m. of a 12-hour BCD clock, 0x81, becomes hour 81.\<close>

lemma bcd_pm_hour: "bcd_to_bin 0x81 = 81" "(81 :: u8) AND 0x80 = 0"
  by (simp_all add: bcd_to_bin_def)

end
