(* ===== verification/Page_Table.thy ===== *)
theory Page_Table
  imports Memory_Pool
begin

section \<open>Page tables\<close>

text \<open>
  The \<open>pmap_\<close> functions of \<open>kernel/arch/x86_64/memory.c\<close> over the memory pool of the same
  file. The memory that holds page tables is a function from the address of an 8-byte entry
  to its value; the register \<open>cr3\<close> is a field. \<open>invlpg\<close> has no effect on this memory.
\<close>

record pmap_state =
  pm_pool :: memory_state
  pm_mem :: "u64 \<Rightarrow> u64"
  current_pml4 :: u64
  pm_cr3 :: u64

abbreviation (input) PAGE_PRESENT :: u64 where "PAGE_PRESENT \<equiv> 1"
abbreviation (input) PAGE_WRITABLE :: u64 where "PAGE_WRITABLE \<equiv> 2"
abbreviation (input) PAGE_SIZE_2M :: u64 where "PAGE_SIZE_2M \<equiv> 0x80"

definition PTE_FLAGS :: "u64 \<Rightarrow> u64 \<Rightarrow> u64" where
  "PTE_FLAGS addr flags = addr OR flags"

definition PTE_ADDR :: "u64 \<Rightarrow> u64" where
  "PTE_ADDR pte = pte AND 0x000FFFFFFFFFF000"

definition present :: "u64 \<Rightarrow> bool" where
  "present pte \<longleftrightarrow> pte AND PAGE_PRESENT \<noteq> 0"

text \<open>The address of \<open>table[idx]\<close>.\<close>

definition slot :: "u64 \<Rightarrow> u64 \<Rightarrow> u64" where
  "slot table idx = table + 8 * idx"

text \<open>\<open>(vaddr >> 39) & 0x1FF\<close> and so on.\<close>

definition idx_pml4 :: "u64 \<Rightarrow> u64" where "idx_pml4 vaddr = drop_bit 39 vaddr AND 0x1FF"
definition idx_pdpt :: "u64 \<Rightarrow> u64" where "idx_pdpt vaddr = drop_bit 30 vaddr AND 0x1FF"
definition idx_pd :: "u64 \<Rightarrow> u64" where "idx_pd vaddr = drop_bit 21 vaddr AND 0x1FF"
definition idx_pt :: "u64 \<Rightarrow> u64" where "idx_pt vaddr = drop_bit 12 vaddr AND 0x1FF"

text \<open>\<open>memset(table, 0, PAGE_SIZE)\<close>\<close>

definition clear_page :: "(u64 \<Rightarrow> u64) \<Rightarrow> u64 \<Rightarrow> u64 \<Rightarrow> u64" where
  "clear_page m p a = (if unat p \<le> unat a \<and> unat a < unat p + 4096 then 0 else m a)"

text \<open>\<open>memcpy(dst, src, PAGE_SIZE)\<close>\<close>

definition copy_page :: "(u64 \<Rightarrow> u64) \<Rightarrow> u64 \<Rightarrow> u64 \<Rightarrow> u64 \<Rightarrow> u64" where
  "copy_page m dst src a = (if unat dst \<le> unat a \<and> unat a < unat dst + 4096 then m (src + (a - dst)) else m a)"

definition pmap_get_or_alloc_table :: "pmap_state \<Rightarrow> u64 \<Rightarrow> u64 \<times> pmap_state" where
  "pmap_get_or_alloc_table st entry =
     (if present (pm_mem st entry) then (PTE_ADDR (pm_mem st entry), st)
      else let (table, pool') = memory_alloc_aligned (pm_pool st) 4096 4096 in
        if table = 0 then (0, st\<lparr>pm_pool := pool'\<rparr>)
        else (table, st\<lparr>pm_pool := pool',
                pm_mem := (clear_page (pm_mem st) table)(entry := PTE_FLAGS table (PAGE_PRESENT OR PAGE_WRITABLE))\<rparr>))"

definition pmap_get :: "pmap_state \<Rightarrow> u64" where
  "pmap_get st = pm_cr3 st"

definition pmap_init :: "pmap_state \<Rightarrow> pmap_state" where
  "pmap_init st = st\<lparr>current_pml4 := pmap_get st\<rparr>"

definition pmap_create :: "pmap_state \<Rightarrow> u64 \<times> pmap_state" where
  "pmap_create st =
     (let (pml4, pool') = memory_alloc_aligned (pm_pool st) 4096 4096 in
      if pml4 = 0 then (0, st\<lparr>pm_pool := pool'\<rparr>)
      else let m = clear_page (pm_mem st) pml4 in
        (pml4, st\<lparr>pm_pool := pool',
           pm_mem := (if current_pml4 st \<noteq> 0 then copy_page m pml4 (current_pml4 st) else m)\<rparr>))"

definition pmap_switch :: "pmap_state \<Rightarrow> u64 \<Rightarrow> pmap_state" where
  "pmap_switch st pml4 = (if pml4 = 0 then st else st\<lparr>current_pml4 := pml4, pm_cr3 := pml4\<rparr>)"

definition pmap_map_page :: "pmap_state \<Rightarrow> u64 \<Rightarrow> u64 \<Rightarrow> u64 \<Rightarrow> u64 \<Rightarrow> int \<times> pmap_state" where
  "pmap_map_page st pml4 vaddr paddr flags =
     (if pml4 = 0 then (- 1, st)
      else let (pdpt, st1) = pmap_get_or_alloc_table st (slot pml4 (idx_pml4 vaddr)) in
        if pdpt = 0 then (- 1, st1)
        else let (pd, st2) = pmap_get_or_alloc_table st1 (slot pdpt (idx_pdpt vaddr)) in
          if pd = 0 then (- 1, st2)
          else let (pt, st3) = pmap_get_or_alloc_table st2 (slot pd (idx_pd vaddr)) in
            if pt = 0 then (- 1, st3)
            else (0, st3\<lparr>pm_mem := (pm_mem st3)(slot pt (idx_pt vaddr) := PTE_FLAGS paddr (flags OR PAGE_PRESENT))\<rparr>))"

definition pmap_unmap_page :: "pmap_state \<Rightarrow> u64 \<Rightarrow> u64 \<Rightarrow> pmap_state" where
  "pmap_unmap_page st pml4 vaddr =
     (if pml4 = 0 then st
      else let e4 = pm_mem st (slot pml4 (idx_pml4 vaddr)) in
        if \<not> present e4 then st
        else let e3 = pm_mem st (slot (PTE_ADDR e4) (idx_pdpt vaddr)) in
          if \<not> present e3 then st
          else let e2 = pm_mem st (slot (PTE_ADDR e3) (idx_pd vaddr)) in
            if \<not> present e2 then st
            else st\<lparr>pm_mem := (pm_mem st)(slot (PTE_ADDR e2) (idx_pt vaddr) := 0)\<rparr>)"

definition pmap_get_physical :: "pmap_state \<Rightarrow> u64 \<Rightarrow> u64 \<Rightarrow> u64" where
  "pmap_get_physical st pml4 vaddr =
     (if pml4 = 0 then 0
      else let e4 = pm_mem st (slot pml4 (idx_pml4 vaddr)) in
        if \<not> present e4 then 0
        else let e3 = pm_mem st (slot (PTE_ADDR e4) (idx_pdpt vaddr)) in
          if \<not> present e3 then 0
          else let e2 = pm_mem st (slot (PTE_ADDR e3) (idx_pd vaddr)) in
            if \<not> present e2 then 0
            else if e2 AND PAGE_SIZE_2M \<noteq> 0 then PTE_ADDR e2 + (vaddr AND 0x1FFFFF)
            else let e1 = pm_mem st (slot (PTE_ADDR e2) (idx_pt vaddr)) in
              if \<not> present e1 then 0 else PTE_ADDR e1 + (vaddr AND 0xFFF))"

subsection \<open>Walks and the invariant\<close>

text \<open>
  A walk follows present entries from a table. The tables of an address space form a tree:
  every table reached by at most three indices lies in a block in use of the pool, different
  paths reach different tables, and no entry of a page directory maps a 2 MiB page.
\<close>

fun pt_walk :: "(u64 \<Rightarrow> u64) \<Rightarrow> u64 \<Rightarrow> u64 list \<Rightarrow> u64 option" where
  "pt_walk m t [] = Some t"
| "pt_walk m t (i # is) = (if present (m (slot t i)) then pt_walk m (PTE_ADDR (m (slot t i))) is else None)"

definition owned :: "memory_state \<Rightarrow> u64 \<Rightarrow> bool" where
  "owned pool t \<longleftrightarrow> 4096 dvd unat t \<and> (\<exists>j<length (blocks pool). mb_used (blocks pool ! j) \<and>
     blo (blocks pool ! j) \<le> unat t \<and> unat t + 4096 \<le> blo (blocks pool ! j) + bsz (blocks pool ! j))"

definition path :: "u64 list \<Rightarrow> bool" where
  "path p \<longleftrightarrow> length p \<le> 3 \<and> (\<forall>i\<in>set p. unat i < 512)"

definition pt_ok :: "pmap_state \<Rightarrow> u64 \<Rightarrow> bool" where
  "pt_ok st pml4 \<longleftrightarrow> pool_inv (pm_pool st) \<and>
     (\<forall>p t. path p \<and> pt_walk (pm_mem st) pml4 p = Some t \<longrightarrow> owned (pm_pool st) t) \<and>
     (\<forall>p q t. path p \<and> path q \<and> pt_walk (pm_mem st) pml4 p = Some t \<and> pt_walk (pm_mem st) pml4 q = Some t \<longrightarrow> p = q) \<and>
     (\<forall>p t i. path (p @ [i]) \<and> length p = 2 \<and> pt_walk (pm_mem st) pml4 p = Some t \<and> present (pm_mem st (slot t i)) \<longrightarrow>
        pm_mem st (slot t i) AND PAGE_SIZE_2M = 0)"

text \<open>The page table entry of a virtual address.\<close>

definition pt_entry :: "pmap_state \<Rightarrow> u64 \<Rightarrow> u64 \<Rightarrow> u64 option" where
  "pt_entry st pml4 vaddr =
     (case pt_walk (pm_mem st) pml4 [idx_pml4 vaddr, idx_pdpt vaddr, idx_pd vaddr] of
        None \<Rightarrow> None
      | Some pt \<Rightarrow> (let e = pm_mem st (slot pt (idx_pt vaddr)) in if present e then Some e else None))"

subsection \<open>Entries and addresses\<close>

lemma idx_bound: "unat (x AND 0x1FF :: u64) < 512"
proof -
  have "unat (x AND 2 ^ 9 - 1 :: u64) = unat x mod 2 ^ 9"
    by (rule unat_mod_pow2_mask) simp
  then show ?thesis by simp
qed

lemma idx_less [simp]: "unat (idx_pml4 v) < 512" "unat (idx_pdpt v) < 512" "unat (idx_pd v) < 512" "unat (idx_pt v) < 512"
  by (simp_all only: idx_pml4_def idx_pdpt_def idx_pd_def idx_pt_def idx_bound)

lemma present_0 [simp]: "\<not> present 0"
  by (simp add: present_def)

lemma present_or: "present (x OR 1)" "present (x OR (y OR 1))" "present (x OR 3)"
proof -
  have "x OR 3 = (x OR 2) OR 1" by (simp add: or.assoc)
  then show "present (x OR 1)" "present (x OR (y OR 1))" "present (x OR 3)"
    by (simp_all add: present_def and_1_bit bit_or_iff)
qed

lemma unat_slot:
  assumes "4096 dvd unat t" "unat i < 512"
  shows "unat (slot t i) = unat t + 8 * unat i"
proof -
  have i8: "unat (8 * i) = 8 * unat i"
    using assms(2) by (subst unat_mult_lem[THEN iffD1]) (auto simp: )
  obtain k where k: "unat t = 4096 * k" using assms(1) by blast
  have "unat t < 2 ^ 64" by (rule order_less_le_trans[OF unsigned_less]) simp
  then have "k < 2 ^ 52" using k by simp
  then have "unat t \<le> 2 ^ 64 - 4096" using k by simp
  then show ?thesis
    unfolding slot_def using i8 assms(2) by (subst unat_add_noof) auto
qed

lemma slot_inj:
  assumes "4096 dvd unat t" "unat i < 512" "4096 dvd unat u" "unat j < 512" "slot t i = slot u j"
  shows "t = u \<and> i = j"
proof -
  have eq: "unat t + 8 * unat i = unat u + 8 * unat j"
    using assms unat_slot by metis
  obtain a b where ab: "unat t = 4096 * a" "unat u = 4096 * b"
    using assms(1,3) by (auto elim!: dvdE)
  have "a = b" using eq ab assms(2,4) by linarith
  then show ?thesis using eq ab by (simp add: word_unat_eq_iff)
qed

lemma aligned_bits:
  fixes t :: u64
  assumes "4096 dvd unat t" "bit t n"
  shows "12 \<le> n"
proof (rule ccontr)
  assume "\<not> 12 \<le> n"
  then have "bit (take_bit 12 t) n" using assms(2) by (simp add: bit_take_bit_iff)
  moreover have "unat (take_bit 12 t) = 0" using assms(1) unfolding unsigned_take_bit_eq by (simp add: take_bit_eq_mod)
  ultimately show False by simp
qed

lemma small_bits:
  fixes t :: u64
  assumes "unat t < 2 ^ k" "bit t n"
  shows "n < k"
proof (rule ccontr)
  assume n: "\<not> n < k"
  have "unat (take_bit k t) = unat t" using assms(1) unfolding unsigned_take_bit_eq by (simp add: take_bit_eq_mod)
  then have "take_bit k t = t" by (simp add: word_unat_eq_iff)
  then show False using assms(2) n by (metis bit_take_bit_iff)
qed

lemma PTE_ADDR_table:
  assumes "4096 dvd unat t" "unat t < 2 ^ 52" "\<And>n. bit f n \<Longrightarrow> n < 12 \<or> 52 \<le> n"
  shows "PTE_ADDR (t OR f) = t"
proof -
  have m: "(0x000FFFFFFFFFF000 :: u64) = push_bit 12 (mask 40)"
    by (simp add: mask_eq_exp_minus_1 push_bit_eq_mult)
  have "bit t n \<Longrightarrow> 12 \<le> n \<and> n < 52" for n
    using aligned_bits[OF assms(1)] small_bits[OF assms(2)] by blast
  moreover have "bit (0x000FFFFFFFFFF000 :: u64) n \<longleftrightarrow> 12 \<le> n \<and> n < 52" for n
    unfolding m by (auto simp: bit_simps)
  ultimately have "bit (PTE_ADDR (t OR f)) n \<longleftrightarrow> bit t n" for n
    using assms(3)[of n] unfolding PTE_ADDR_def bit_and_iff bit_or_iff by (cases "bit f n") auto
  then show ?thesis by (intro bit_eqI) simp
qed

lemma low_flags: "bit (3 :: u64) n \<Longrightarrow> n < 12 \<or> 52 \<le> n"
proof -
  have "(3 :: u64) = mask 2" by (simp add: mask_eq_exp_minus_1)
  then show "bit (3 :: u64) n \<Longrightarrow> n < 12 \<or> 52 \<le> n" by (simp add: bit_mask_iff)
qed

lemma table_not_2M:
  assumes "4096 dvd unat t"
  shows "(t OR 3) AND PAGE_SIZE_2M = 0"
proof -
  have m: "(0x80 :: u64) = push_bit 7 1" by (simp add: push_bit_eq_mult)
  have "\<not> bit t 7" using aligned_bits[OF assms] by fastforce
  moreover have "\<not> bit (3 :: u64) 7" by simp
  moreover have "bit (0x80 :: u64) n \<longleftrightarrow> n = 7" for n
    unfolding m bit_push_bit_iff by (auto simp: bit_1_iff)
  ultimately have "\<not> bit ((t OR 3) AND 0x80) n" for n
    unfolding bit_and_iff bit_or_iff by (cases "n = 7") simp_all
  then show ?thesis by (intro bit_eqI) simp
qed

subsection \<open>Fresh tables\<close>

lemma owned_range:
  assumes "pool_inv pool" "owned pool t"
  shows "4096 dvd unat t" "t \<noteq> 0" "unat t < 2 ^ 32"
proof -
  obtain j where j: "j < length (blocks pool)" "mb_used (blocks pool ! j)" "blo (blocks pool ! j) \<le> unat t"
    "unat t + 4096 \<le> blo (blocks pool ! j) + bsz (blocks pool ! j)" and d: "4096 dvd unat t"
    using assms(2) by (auto simp: owned_def)
  have "block_ok (unat (memory_start pool)) (blocks pool ! j)"
    using assms(1) j(1) by (simp add: pool_inv_def)
  moreover have "unat (memory_start pool) \<le> 2 ^ 32"
    using assms(1) by (simp add: pool_inv_def)
  ultimately show "4096 dvd unat t" "t \<noteq> 0" "unat t < 2 ^ 32"
    using d j by (auto simp: block_ok_def split: if_splits)
qed

lemma alloc_table:
  assumes inv: "pool_inv pool" and al: "memory_alloc_aligned pool 4096 4096 = (t, pool')"
  shows "pool_inv pool'" and "t = 0 \<Longrightarrow> pool' = pool"
    and "t \<noteq> 0 \<Longrightarrow> owned pool' t"
    and "t \<noteq> 0 \<Longrightarrow> owned pool u \<Longrightarrow> owned pool' u \<and> (unat u + 4096 \<le> unat t \<or> unat t + 4096 \<le> unat u)"
proof -
  have ma: "memory_alloc pool 4096 = (t, pool')"
    using al by (simp add: memory_alloc_aligned_def)
  have sz: "(4096 :: u64) \<noteq> 0" "unat (4096 :: u64) \<le> 2 ^ 32" by simp_all
  show inv': "pool_inv pool'"
    using memory_alloc_inv[OF inv sz(2)] ma by simp
  show "t = 0 \<Longrightarrow> pool' = pool"
  proof -
    assume t: "t = 0"
    have "mb_address (blocks pool ! i) \<noteq> 0" if "i < length (blocks pool)" "mb_size (blocks pool ! i) \<noteq> 0" for i
    proof -
      have "block_ok (unat (memory_start pool)) (blocks pool ! i)"
        using inv that(1) by (simp add: pool_inv_def)
      then show ?thesis using that(2) by (auto simp: block_ok_def)
    qed
    moreover have "memory_start pool \<noteq> 0"
      using inv by (auto simp: pool_inv_def)
    ultimately show "pool' = pool"
      using ma t by (rule_tac memory_alloc_cases[OF inv sz]) auto
  qed
  assume t: "t \<noteq> 0"
  obtain i where i: "i < length (blocks pool)" "\<not> mb_used (blocks pool ! i)"
    "mb_used (blocks pool' ! i)" "mb_address (blocks pool' ! i) = t" "unat (4096 :: u64) \<le> bsz (blocks pool' ! i)"
    "\<And>j. j < length (blocks pool) \<Longrightarrow> j \<noteq> i \<Longrightarrow> blocks pool' ! j = blocks pool ! j"
    "length (blocks pool') = length (blocks pool)"
    using memory_alloc_block[OF inv sz(2) ma t] by metis
  have "block_ok (unat (memory_start pool')) (blocks pool' ! i)"
    using inv' i(1,7) by (simp add: pool_inv_def)
  then show "owned pool' t"
    using i(1,3,4,5,7) by (auto simp: owned_def block_ok_def split: if_splits intro!: exI[of _ i])
  assume "owned pool u"
  then obtain j where j: "j < length (blocks pool)" "mb_used (blocks pool ! j)" "blo (blocks pool ! j) \<le> unat u"
    "unat u + 4096 \<le> blo (blocks pool ! j) + bsz (blocks pool ! j)" and d: "4096 dvd unat u"
    by (auto simp: owned_def)
  have ne: "j \<noteq> i" using i(2) j(2) by blast
  then have same: "blocks pool' ! j = blocks pool ! j" using i(6) j(1) by simp
  have "owned pool' u"
    unfolding owned_def using d j i(7) same by (intro conjI exI[of _ j]) simp_all
  moreover have "blo (blocks pool' ! j) + bsz (blocks pool' ! j) \<le> blo (blocks pool' ! i) \<or>
      blo (blocks pool' ! i) + bsz (blocks pool' ! i) \<le> blo (blocks pool' ! j)"
    using i(1,3,7) j(1,2) ne same by (intro pool_used_apart[OF inv']) simp_all
  ultimately show "owned pool' u \<and> (unat u + 4096 \<le> unat t \<or> unat t + 4096 \<le> unat u)"
    using j(3,4) i(4,5) same by auto
qed

lemma clear_page_slot:
  assumes "4096 dvd unat u" "unat i < 512"
  shows "unat u + 4096 \<le> unat t \<or> unat t + 4096 \<le> unat u \<Longrightarrow> clear_page m t (slot u i) = m (slot u i)"
    and "clear_page m u (slot u i) = 0"
  using unat_slot[OF assms] assms(2) by (auto simp: clear_page_def)

subsection \<open>Walks\<close>

lemma pt_walk_append: "pt_walk m t (p @ q) = Option.bind (pt_walk m t p) (\<lambda>u. pt_walk m u q)"
  by (induction p arbitrary: t) auto

lemma pt_walk_snoc:
  "pt_walk m t (p @ [i]) = Some v \<longleftrightarrow>
     (\<exists>u. pt_walk m t p = Some u \<and> present (m (slot u i)) \<and> v = PTE_ADDR (m (slot u i)))"
  by (auto simp: pt_walk_append bind_eq_Some_conv)

lemma path_snoc: "path (p @ [i]) \<longleftrightarrow> length p < 3 \<and> path p \<and> unat i < 512"
  by (auto simp: path_def)

lemma pt_okD:
  assumes "pt_ok st pml4"
  shows "pool_inv (pm_pool st)"
    and "path p \<Longrightarrow> pt_walk (pm_mem st) pml4 p = Some t \<Longrightarrow> owned (pm_pool st) t"
    and "path p \<Longrightarrow> path q \<Longrightarrow> pt_walk (pm_mem st) pml4 p = Some t \<Longrightarrow> pt_walk (pm_mem st) pml4 q = Some t \<Longrightarrow> p = q"
    and "path (p @ [i]) \<Longrightarrow> length p = 2 \<Longrightarrow> pt_walk (pm_mem st) pml4 p = Some t \<Longrightarrow> present (pm_mem st (slot t i)) \<Longrightarrow>
        pm_mem st (slot t i) AND PAGE_SIZE_2M = 0"
  using assms unfolding pt_ok_def by blast+

text \<open>Distinct paths have distinct slots.\<close>

lemma pt_slot_inj:
  assumes ok: "pt_ok st pml4" and p: "path p" "pt_walk (pm_mem st) pml4 p = Some t" "unat i < 512"
    and q: "path q" "pt_walk (pm_mem st) pml4 q = Some u" "unat j < 512" and eq: "slot t i = slot u j"
  shows "p = q \<and> i = j"
proof -
  have "t = u \<and> i = j"
    using eq p(3) q(3) owned_range(1)[OF pt_okD(1)[OF ok]] pt_okD(2)[OF ok] p(1,2) q(1,2)
    by (intro slot_inj) blast+
  then show ?thesis using pt_okD(3)[OF ok p(1) q(1)] p(2) q(2) by simp
qed

subsection \<open>Adding a table\<close>

text \<open>
  The memory after a fresh table \<open>t\<close> was hung into entry \<open>i\<close> of the table \<open>u\<close> at path \<open>p\<close>.
\<close>

definition hung :: "(u64 \<Rightarrow> u64) \<Rightarrow> u64 \<Rightarrow> u64 \<Rightarrow> u64 \<Rightarrow> u64 \<Rightarrow> u64" where
  "hung m u i t = (clear_page m t)(slot u i := t OR 3)"

lemma get_or_alloc_cases:
  assumes ok: "pt_ok st pml4" and get: "pmap_get_or_alloc_table st (slot u i) = (t, st')"
  obtains (old) "present (pm_mem st (slot u i))" "t = PTE_ADDR (pm_mem st (slot u i))" "st' = st"
  | (fail) "t = 0" "st' = st"
  | (new) pool' where "\<not> present (pm_mem st (slot u i))" "memory_alloc_aligned (pm_pool st) 4096 4096 = (t, pool')"
      "t \<noteq> 0" "st' = st\<lparr>pm_pool := pool', pm_mem := hung (pm_mem st) u i t\<rparr>"
proof (cases "present (pm_mem st (slot u i))")
  case True
  then have "t = PTE_ADDR (pm_mem st (slot u i))" "st' = st"
    using get by (auto simp: pmap_get_or_alloc_table_def)
  with True show thesis by (rule old)
next
  case False
  obtain t' pool' where al: "memory_alloc_aligned (pm_pool st) 4096 4096 = (t', pool')"
    by (cases "memory_alloc_aligned (pm_pool st) 4096 4096")
  show thesis
  proof (cases "t' = 0")
    case True
    then have "pool' = pm_pool st" using alloc_table(2)[OF pt_okD(1)[OF ok] al] by simp
    then show thesis using get al False True fail by (simp add: pmap_get_or_alloc_table_def)
  next
    case nz: False
    show thesis
      using get al False nz
      by (intro new[of pool']) (auto simp: pmap_get_or_alloc_table_def hung_def PTE_FLAGS_def)
  qed
qed

lemma hung_slot:
  assumes ok: "pt_ok st pml4" and al: "memory_alloc_aligned (pm_pool st) 4096 4096 = (t, pool')" "t \<noteq> 0"
    and p: "path p" "pt_walk (pm_mem st) pml4 p = Some u" "unat i < 512"
  shows "path q \<Longrightarrow> pt_walk (pm_mem st) pml4 q = Some w \<Longrightarrow> unat j < 512 \<Longrightarrow> (q, j) \<noteq> (p, i) \<Longrightarrow>
      hung (pm_mem st) u i t (slot w j) = pm_mem st (slot w j)"
    and "hung (pm_mem st) u i t (slot u i) = t OR 3"
    and "unat j < 512 \<Longrightarrow> hung (pm_mem st) u i t (slot t j) = 0"
proof -
  note inv = pt_okD(1)[OF ok]
  note tab = alloc_table(4)[OF inv al(1) al(2)]
  show "hung (pm_mem st) u i t (slot w j) = pm_mem st (slot w j)"
    if q: "path q" "pt_walk (pm_mem st) pml4 q = Some w" "unat j < 512" "(q, j) \<noteq> (p, i)"
  proof -
    have "slot w j \<noteq> slot u i"
      using pt_slot_inj[OF ok q(1-3) p] q(4) by blast
    moreover have own: "owned (pm_pool st) w" using pt_okD(2)[OF ok q(1,2)] .
    ultimately show ?thesis
      using clear_page_slot(1)[OF owned_range(1)[OF inv own] q(3)] tab[OF own] by (simp add: hung_def)
  qed
  show "hung (pm_mem st) u i t (slot u i) = t OR 3" by (simp add: hung_def)
  have t: "4096 dvd unat t"
    using owned_range(1)[OF alloc_table(1)[OF inv al(1)] alloc_table(3)[OF inv al(1) al(2)]] .
  have own: "owned (pm_pool st) u" using pt_okD(2)[OF ok p(1,2)] .
  then have "t \<noteq> u" using tab by fastforce
  then have "slot t j \<noteq> slot u i" if "unat j < 512" for j
    using slot_inj[OF t that owned_range(1)[OF inv own] p(3)] by blast
  then show "unat j < 512 \<Longrightarrow> hung (pm_mem st) u i t (slot t j) = 0"
    using clear_page_slot(2)[OF t] by (simp add: hung_def)
qed

lemma hung_walk:
  assumes ok: "pt_ok st pml4" and al: "memory_alloc_aligned (pm_pool st) 4096 4096 = (t, pool')" "t \<noteq> 0"
    and p: "path p" "pt_walk (pm_mem st) pml4 p = Some u" "unat i < 512" and np: "\<not> present (pm_mem st (slot u i))"
    and q: "path q"
  shows "pt_walk (hung (pm_mem st) u i t) pml4 q = Some v \<longleftrightarrow>
    pt_walk (pm_mem st) pml4 q = Some v \<or> q = p @ [i] \<and> v = t"
  using q
proof (induction q arbitrary: v rule: rev_induct)
  case Nil
  then show ?case by simp
next
  case (snoc j r)
  let ?m = "pm_mem st" and ?h = "hung (pm_mem st) u i t"
  have r: "path r" "unat j < 512" using snoc.prems by (simp_all add: path_snoc)
  note inv = pt_okD(1)[OF ok]
  note slots = hung_slot[OF ok al p]
  have t: "PTE_ADDR (t OR 3) = t"
    using owned_range[OF alloc_table(1)[OF inv al(1)] alloc_table(3)[OF inv al(1) al(2)]]
    by (intro PTE_ADDR_table low_flags) simp_all
  have other: "?h (slot w j) = ?m (slot w j)" if "pt_walk ?m pml4 r = Some w" "(r, j) \<noteq> (p, i)" for w
    using slots(1)[OF r(1) that(1) r(2) that(2)] .
  have pu: "w = u" if "pt_walk ?m pml4 r = Some w" "r = p" for w
    using that p(2) by simp
  show ?case
  proof
    assume "pt_walk ?h pml4 (r @ [j]) = Some v"
    then obtain w where w: "pt_walk ?h pml4 r = Some w" "present (?h (slot w j))" "v = PTE_ADDR (?h (slot w j))"
      by (auto simp: pt_walk_snoc)
    have "pt_walk ?m pml4 r = Some w"
      using snoc.IH[OF r(1), of w] w(1,2) slots(3)[OF r(2)] by fastforce
    then show "pt_walk ?m pml4 (r @ [j]) = Some v \<or> r @ [j] = p @ [i] \<and> v = t"
      using w other[of w] pu[of w] slots(2) t by (cases "(r, j) = (p, i)") (auto simp: pt_walk_snoc)
  next
    assume "pt_walk ?m pml4 (r @ [j]) = Some v \<or> r @ [j] = p @ [i] \<and> v = t"
    then show "pt_walk ?h pml4 (r @ [j]) = Some v"
    proof
      assume "pt_walk ?m pml4 (r @ [j]) = Some v"
      then obtain w where w: "pt_walk ?m pml4 r = Some w" "present (?m (slot w j))" "v = PTE_ADDR (?m (slot w j))"
        by (auto simp: pt_walk_snoc)
      have "(r, j) \<noteq> (p, i)" using w(2) np pu[OF w(1)] by auto
      then have "?h (slot w j) = ?m (slot w j)" "pt_walk ?h pml4 r = Some w"
        using other[OF w(1)] snoc.IH[OF r(1), of w] w(1) by blast+
      then show ?thesis using w(2,3) by (simp add: pt_walk_snoc)
    next
      assume "r @ [j] = p @ [i] \<and> v = t"
      moreover have "pt_walk ?h pml4 p = Some u" if "r = p"
        using snoc.IH[OF r(1), of u] p(2) that by blast
      ultimately show ?thesis
        using slots(2) t present_or(3)[of t] by (simp add: pt_walk_snoc)
    qed
  qed
qed

lemma hung_ok:
  assumes ok: "pt_ok st pml4" and al: "memory_alloc_aligned (pm_pool st) 4096 4096 = (t, pool')" "t \<noteq> 0"
    and p: "path p" "pt_walk (pm_mem st) pml4 p = Some u" "unat i < 512" and np: "\<not> present (pm_mem st (slot u i))"
  shows "pt_ok (st\<lparr>pm_pool := pool', pm_mem := hung (pm_mem st) u i t\<rparr>) pml4"
proof -
  let ?m = "pm_mem st" and ?h = "hung (pm_mem st) u i t"
  note inv = pt_okD(1)[OF ok]
  note walk = hung_walk[OF ok al p np] and slots = hung_slot[OF ok al p]
  have fresh: "\<not> owned (pm_pool st) t" using alloc_table(4)[OF inv al(1) al(2), of t] by auto
  have own: "owned pool' v" if "path q" "pt_walk ?h pml4 q = Some v" for q v
    using that walk alloc_table(3,4)[OF inv al(1) al(2)] pt_okD(2)[OF ok] by blast
  have inj: "q = r" if "path q" "path r" "pt_walk ?h pml4 q = Some v" "pt_walk ?h pml4 r = Some v" for q r v
    using that walk fresh pt_okD(2,3)[OF ok] by metis
  have small: "?h (slot v j) AND PAGE_SIZE_2M = 0"
    if "path (q @ [j])" "length q = 2" "pt_walk ?h pml4 q = Some v" "present (?h (slot v j))" for q v j
  proof -
    have q: "path q" "unat j < 512" using that(1) by (simp_all add: path_snoc)
    have "pt_walk ?m pml4 q = Some v"
      using walk[OF q(1), of v] that(3,4) slots(3)[OF q(2)] by fastforce
    moreover have "4096 dvd unat t"
      using owned_range(1)[OF alloc_table(1)[OF inv al(1)] alloc_table(3)[OF inv al(1) al(2)]] .
    ultimately show ?thesis
      using slots(1)[OF q(1) _ q(2), of v] slots(2) table_not_2M pt_okD(4)[OF ok that(1,2), of v] that(4) p(2)
      by (cases "(q, j) = (p, i)") auto
  qed
  show ?thesis
    unfolding pt_ok_def using alloc_table(1)[OF inv al(1)] own inj small by simp blast
qed

abbreviation dir_path :: "u64 \<Rightarrow> u64 list" where
  "dir_path v \<equiv> [idx_pml4 v, idx_pdpt v, idx_pd v]"

lemma path_dir: "path (dir_path v)" "path [idx_pml4 v, idx_pdpt v]" "path [idx_pml4 v]" "path []"
  by (simp_all add: path_def)

lemma hung_entry:
  assumes ok: "pt_ok st pml4" and al: "memory_alloc_aligned (pm_pool st) 4096 4096 = (t, pool')" "t \<noteq> 0"
    and p: "path p" "length p < 3" "pt_walk (pm_mem st) pml4 p = Some u" "unat i < 512"
    and np: "\<not> present (pm_mem st (slot u i))"
  shows "pt_entry (st\<lparr>pm_pool := pool', pm_mem := hung (pm_mem st) u i t\<rparr>) pml4 v = pt_entry st pml4 v"
proof -
  let ?m = "pm_mem st" and ?h = "hung (pm_mem st) u i t"
  note walk = hung_walk[OF ok al p(1,3,4) np path_dir(1)[of v]]
  note slots = hung_slot[OF ok al p(1,3,4)]
  show ?thesis
  proof (cases "pt_walk ?m pml4 (dir_path v)")
    case (Some w)
    have "(dir_path v, idx_pt v) \<noteq> (p, i)" using p(2) by auto
    then have "?h (slot w (idx_pt v)) = ?m (slot w (idx_pt v))"
      by (rule slots(1)[OF path_dir(1) Some idx_less(4)])
    moreover have "pt_walk ?h pml4 (dir_path v) = Some w" using walk Some by blast
    ultimately show ?thesis using Some unfolding pt_entry_def by simp
  next
    case None
    have "w = t" if "pt_walk ?h pml4 (dir_path v) = Some w" for w
      using walk[of w] None that by (simp del: pt_walk.simps)
    moreover have "?h (slot t (idx_pt v)) = 0" by (rule slots(3)[OF idx_less(4)])
    ultimately show ?thesis
      using None unfolding pt_entry_def
      by (cases "pt_walk ?h pml4 (dir_path v)") (simp_all del: pt_walk.simps)
  qed
qed

lemma get_or_alloc_spec:
  assumes ok: "pt_ok st pml4" and p: "path (p @ [i])" "pt_walk (pm_mem st) pml4 p = Some u"
    and get: "pmap_get_or_alloc_table st (slot u i) = (t, st')"
  shows "pt_ok st' pml4" "pt_entry st' pml4 v = pt_entry st pml4 v"
    and "t \<noteq> 0 \<Longrightarrow> pt_walk (pm_mem st') pml4 (p @ [i]) = Some t"
proof -
  have i: "path p" "length p < 3" "unat i < 512" using p(1) by (simp_all add: path_snoc)
  have "pt_ok st' pml4 \<and> pt_entry st' pml4 v = pt_entry st pml4 v \<and>
      (t \<noteq> 0 \<longrightarrow> pt_walk (pm_mem st') pml4 (p @ [i]) = Some t)"
    using ok get
  proof (cases rule: get_or_alloc_cases)
    case old
    then show ?thesis using ok p(2) by (simp add: pt_walk_snoc)
  next
    case fail
    then show ?thesis using ok by simp
  next
    case (new pool')
    then show ?thesis
      using hung_ok[OF ok new(2,3) i(1) p(2) i(3) new(1)] hung_entry[OF ok new(2,3) i(1,2) p(2) i(3) new(1)]
        hung_walk[OF ok new(2,3) i(1) p(2) i(3) new(1) p(1)] by simp
  qed
  then show "pt_ok st' pml4" "pt_entry st' pml4 v = pt_entry st pml4 v"
    "t \<noteq> 0 \<Longrightarrow> pt_walk (pm_mem st') pml4 (p @ [i]) = Some t" by blast+
qed

subsection \<open>Writing a page table entry\<close>

definition same_page :: "u64 \<Rightarrow> u64 \<Rightarrow> bool" where
  "same_page v w \<longleftrightarrow> v AND 0x0000FFFFFFFFF000 = w AND 0x0000FFFFFFFFF000"

lemma bit_idx:
  "bit (drop_bit k v AND 0x1FF :: u64) n \<longleftrightarrow> n < 9 \<and> bit v (k + n)"
proof -
  have m: "(0x1FF :: u64) = mask 9" by (simp add: mask_eq_exp_minus_1)
  show ?thesis unfolding m by (auto simp: bit_and_iff bit_mask_iff bit_drop_bit_eq)
qed

lemma same_page_bits: "same_page v w \<longleftrightarrow> (\<forall>n. 12 \<le> n \<and> n < 48 \<longrightarrow> bit v n = bit w n)"
proof -
  have m: "(0x0000FFFFFFFFF000 :: u64) = push_bit 12 (mask 36)"
    by (simp add: mask_eq_exp_minus_1 push_bit_eq_mult)
  have b: "bit (0x0000FFFFFFFFF000 :: u64) n \<longleftrightarrow> 12 \<le> n \<and> n < 48" for n
    unfolding m by (auto simp: bit_simps)
  show ?thesis
  proof
    assume "same_page v w"
    then have "bit (v AND 0x0000FFFFFFFFF000) n = bit (w AND 0x0000FFFFFFFFF000) n" for n
      by (simp only: same_page_def)
    then show "\<forall>n. 12 \<le> n \<and> n < 48 \<longrightarrow> bit v n = bit w n" unfolding bit_and_iff b by blast
  next
    assume "\<forall>n. 12 \<le> n \<and> n < 48 \<longrightarrow> bit v n = bit w n"
    then show "same_page v w" unfolding same_page_def by (intro bit_eqI) (simp only: bit_and_iff b, blast)
  qed
qed

lemma range_split:
  fixes a b c :: nat
  assumes "a \<le> b" "b \<le> c"
  shows "(\<forall>n. a \<le> n \<and> n < c \<longrightarrow> P n) \<longleftrightarrow> (\<forall>n. b \<le> n \<and> n < c \<longrightarrow> P n) \<and> (\<forall>n. a \<le> n \<and> n < b \<longrightarrow> P n)"
  using assms by (meson le_less_trans less_le_trans not_le order.trans less_imp_le)

lemma same_page_idx:
  "same_page v w \<longleftrightarrow> idx_pml4 v = idx_pml4 w \<and> idx_pdpt v = idx_pdpt w \<and> idx_pd v = idx_pd w \<and> idx_pt v = idx_pt w"
proof -
  have i: "(drop_bit k v AND 0x1FF :: u64) = drop_bit k w AND 0x1FF \<longleftrightarrow> (\<forall>n. k \<le> n \<and> n < k + 9 \<longrightarrow> bit v n = bit w n)" for k
  proof
    assume "(drop_bit k v AND 0x1FF :: u64) = drop_bit k w AND 0x1FF"
    then have "(n < 9 \<and> bit v (k + n)) = (n < 9 \<and> bit w (k + n))" for n
      by (metis bit_idx)
    then show "\<forall>n. k \<le> n \<and> n < k + 9 \<longrightarrow> bit v n = bit w n"
      by (metis add_less_cancel_left le_Suc_ex)
  qed (auto simp: bit_eq_iff bit_idx)
  have "(\<forall>n. 12 \<le> n \<and> n < 48 \<longrightarrow> bit v n = bit w n) \<longleftrightarrow>
      (\<forall>n. 39 \<le> n \<and> n < 48 \<longrightarrow> bit v n = bit w n) \<and> (\<forall>n. 30 \<le> n \<and> n < 39 \<longrightarrow> bit v n = bit w n) \<and>
      (\<forall>n. 21 \<le> n \<and> n < 30 \<longrightarrow> bit v n = bit w n) \<and> (\<forall>n. 12 \<le> n \<and> n < (21 :: nat) \<longrightarrow> bit v n = bit w n)"
    using range_split[of 12 39 48] range_split[of 12 30 39] range_split[of 12 21 30] by simp
  then show ?thesis
    unfolding same_page_bits idx_pml4_def idx_pdpt_def idx_pd_def idx_pt_def i by simp
qed

lemma write_walk:
  assumes ok: "pt_ok st pml4" and w: "pt_walk (pm_mem st) pml4 (dir_path v) = Some pt" and q: "path q"
  shows "pt_walk ((pm_mem st)(slot pt (idx_pt v) := e)) pml4 q = pt_walk (pm_mem st) pml4 q"
  using q
proof (induction q rule: rev_induct)
  case (snoc j r)
  have r: "path r" "unat j < 512" "length r < 3" using snoc.prems by (simp_all add: path_snoc)
  have "slot u j \<noteq> slot pt (idx_pt v)" if "pt_walk (pm_mem st) pml4 r = Some u" for u
    using pt_slot_inj[OF ok r(1) that r(2) path_dir(1) w idx_less(4)] r(3) by fastforce
  then show ?case
    using snoc.IH[OF r(1)] by (cases "pt_walk (pm_mem st) pml4 r") (simp_all add: pt_walk_append)
qed simp

lemma write_ok:
  assumes ok: "pt_ok st pml4" and w: "pt_walk (pm_mem st) pml4 (dir_path v) = Some pt"
  shows "pt_ok (st\<lparr>pm_mem := (pm_mem st)(slot pt (idx_pt v) := e)\<rparr>) pml4"
proof -
  let ?m = "(pm_mem st)(slot pt (idx_pt v) := e)"
  note walk = write_walk[OF ok w]
  have "?m (slot t i) = pm_mem st (slot t i)"
    if "path (p @ [i])" "pt_walk (pm_mem st) pml4 p = Some t" for p i t
  proof -
    have p: "path p" "unat i < 512" "length p < 3" using that(1) by (simp_all add: path_snoc)
    show ?thesis using pt_slot_inj[OF ok p(1) that(2) p(2) path_dir(1) w idx_less(4)] p(3) by fastforce
  qed
  then have small: "?m (slot t i) AND PAGE_SIZE_2M = 0"
    if "path (p @ [i])" "length p = 2" "pt_walk ?m pml4 p = Some t" "present (?m (slot t i))" for p i t
    using that walk[of p] pt_okD(4)[OF ok that(1,2)] path_snoc[of p i] by metis
  have own: "owned (pm_pool st) t" if "path p" "pt_walk ?m pml4 p = Some t" for p t
    using that walk[OF that(1)] pt_okD(2)[OF ok that(1)] by simp
  have inj: "p = q" if "path p" "path q" "pt_walk ?m pml4 p = Some t" "pt_walk ?m pml4 q = Some t" for p q t
    using that walk[OF that(1)] walk[OF that(2)] pt_okD(3)[OF ok that(1,2)] by simp
  show ?thesis
    unfolding pt_ok_def using pt_okD(1)[OF ok] small own inj by (simp add: fun_upd_def[symmetric] del: fun_upd_apply) blast
qed

lemma write_entry:
  assumes ok: "pt_ok st pml4" and v: "pt_walk (pm_mem st) pml4 (dir_path v) = Some pt"
  shows "pt_entry (st\<lparr>pm_mem := (pm_mem st)(slot pt (idx_pt v) := e)\<rparr>) pml4 w =
    (if same_page w v then if present e then Some e else None else pt_entry st pml4 w)"
proof (cases "pt_walk (pm_mem st) pml4 (dir_path w)")
  case None
  then have "\<not> same_page w v" using v by (metis option.distinct(1) same_page_idx)
  then show ?thesis
    using None write_walk[OF ok v path_dir(1)[of w], of e] unfolding pt_entry_def by (simp del: pt_walk.simps)
next
  case (Some u)
  have "slot u (idx_pt w) = slot pt (idx_pt v) \<longleftrightarrow> same_page w v"
  proof
    assume "slot u (idx_pt w) = slot pt (idx_pt v)"
    then show "same_page w v"
      using pt_slot_inj[OF ok path_dir(1) Some idx_less(4) path_dir(1) v idx_less(4)] by (simp add: same_page_idx)
  next
    assume sp: "same_page w v"
    then have "u = pt" using Some v by (simp add: same_page_idx)
    then show "slot u (idx_pt w) = slot pt (idx_pt v)" using sp by (simp add: same_page_idx)
  qed
  then show ?thesis
    using Some write_walk[OF ok v path_dir(1)[of w], of e] unfolding pt_entry_def
    by (simp add: Let_def del: pt_walk.simps)
qed

lemma pmap_get_physical_entry:
  assumes ok: "pt_ok st pml4"
  shows "pmap_get_physical st pml4 v =
    (case pt_entry st pml4 v of None \<Rightarrow> 0 | Some e \<Rightarrow> PTE_ADDR e + (v AND 0xFFF))"
proof -
  have nz: "pml4 \<noteq> 0"
    using owned_range(2)[OF pt_okD(1)[OF ok] pt_okD(2)[OF ok path_dir(4)]] by simp
  have "pm_mem st (slot t (idx_pd v)) AND PAGE_SIZE_2M = 0"
    if "pt_walk (pm_mem st) pml4 [idx_pml4 v, idx_pdpt v] = Some t" "present (pm_mem st (slot t (idx_pd v)))" for t
    using pt_okD(4)[OF ok _ _ that(1) that(2)] path_dir(1)[of v] by simp
  then show ?thesis
    using nz by (simp add: pmap_get_physical_def pt_entry_def Let_def split: if_splits)
qed

lemma pmap_map_page_spec:
  assumes ok: "pt_ok st pml4" and map: "pmap_map_page st pml4 v pa f = (r, st')"
  shows "pt_ok st' pml4" and "r \<noteq> 0 \<Longrightarrow> pt_entry st' pml4 w = pt_entry st pml4 w"
    and "r = 0 \<Longrightarrow> pt_entry st' pml4 w =
      (if same_page w v then Some (PTE_FLAGS pa (f OR PAGE_PRESENT)) else pt_entry st pml4 w)"
proof -
  let ?e = "PTE_FLAGS pa (f OR PAGE_PRESENT)"
  have nz: "pml4 \<noteq> 0"
    using owned_range(2)[OF pt_okD(1)[OF ok] pt_okD(2)[OF ok path_dir(4)]] by simp
  obtain t1 st1 where g1: "pmap_get_or_alloc_table st (slot pml4 (idx_pml4 v)) = (t1, st1)" by fastforce
  obtain t2 st2 where g2: "pmap_get_or_alloc_table st1 (slot t1 (idx_pdpt v)) = (t2, st2)" by fastforce
  obtain t3 st3 where g3: "pmap_get_or_alloc_table st2 (slot t2 (idx_pd v)) = (t3, st3)" by fastforce
  have w0: "pt_walk (pm_mem st) pml4 [] = Some pml4" by simp
  note s1 = get_or_alloc_spec[OF ok, of "[]" "idx_pml4 v", unfolded append.simps, OF path_dir(3) w0 g1]
  have "pt_ok st' pml4 \<and> (r \<noteq> 0 \<longrightarrow> pt_entry st' pml4 w = pt_entry st pml4 w) \<and>
    (r = 0 \<longrightarrow> pt_entry st' pml4 w = (if same_page w v then Some ?e else pt_entry st pml4 w))"
  proof (cases "t1 = 0")
    case True
    then show ?thesis using map nz g1 s1 by (auto simp: pmap_map_page_def)
  next
    case t1: False
    note s2 = get_or_alloc_spec[OF s1(1), of "[idx_pml4 v]" "idx_pdpt v", unfolded append.simps,
        OF path_dir(2) s1(3)[OF t1] g2]
    show ?thesis
    proof (cases "t2 = 0")
      case True
      then show ?thesis using map nz g1 g2 t1 s1 s2 by (auto simp: pmap_map_page_def)
    next
      case t2: False
      note s3 = get_or_alloc_spec[OF s2(1), of "[idx_pml4 v, idx_pdpt v]" "idx_pd v", unfolded append.simps,
          OF path_dir(1) s2(3)[OF t2] g3]
      show ?thesis
      proof (cases "t3 = 0")
        case True
        then show ?thesis using map nz g1 g2 g3 t1 t2 s1 s2 s3 by (auto simp: pmap_map_page_def)
      next
        case t3: False
        then have r: "r = 0" "st' = st3\<lparr>pm_mem := (pm_mem st3)(slot t3 (idx_pt v) := ?e)\<rparr>"
          using map nz g1 g2 g3 t1 t2 by (auto simp: pmap_map_page_def)
        have "present ?e" using present_or(2) by (simp add: PTE_FLAGS_def)
        then show ?thesis
          using r write_ok[OF s3(1) s3(3)[OF t3], of ?e]
            write_entry[OF s3(1) s3(3)[OF t3], of ?e w]
            s1(2)[of w] s2(2)[of w] s3(2)[of w] by simp
      qed
    qed
  qed
  then show "pt_ok st' pml4" "r \<noteq> 0 \<Longrightarrow> pt_entry st' pml4 w = pt_entry st pml4 w"
    "r = 0 \<Longrightarrow> pt_entry st' pml4 w = (if same_page w v then Some ?e else pt_entry st pml4 w)" by blast+
qed

lemma pmap_unmap_page_spec:
  assumes ok: "pt_ok st pml4"
  shows "pt_ok (pmap_unmap_page st pml4 v) pml4"
    and "pt_entry (pmap_unmap_page st pml4 v) pml4 w = (if same_page w v then None else pt_entry st pml4 w)"
proof -
  have nz: "pml4 \<noteq> 0"
    using owned_range(2)[OF pt_okD(1)[OF ok] pt_okD(2)[OF ok path_dir(4)]] by simp
  have "pt_ok (pmap_unmap_page st pml4 v) pml4 \<and>
    pt_entry (pmap_unmap_page st pml4 v) pml4 w = (if same_page w v then None else pt_entry st pml4 w)"
  proof (cases "pt_walk (pm_mem st) pml4 (dir_path v)")
    case None
    then have "pmap_unmap_page st pml4 v = st"
      by (auto simp: pmap_unmap_page_def Let_def split: if_splits)
    moreover have "pt_entry st pml4 w = None" if "same_page w v"
      using None that unfolding pt_entry_def same_page_idx by (simp del: pt_walk.simps)
    ultimately show ?thesis using ok by simp
  next
    case (Some pt)
    then have "pmap_unmap_page st pml4 v = st\<lparr>pm_mem := (pm_mem st)(slot pt (idx_pt v) := 0)\<rparr>"
      using nz by (auto simp: pmap_unmap_page_def Let_def split: if_splits)
    then show ?thesis using write_ok[OF ok Some, of 0] write_entry[OF ok Some, of 0 w] by simp
  qed
  then show "pt_ok (pmap_unmap_page st pml4 v) pml4"
    "pt_entry (pmap_unmap_page st pml4 v) pml4 w = (if same_page w v then None else pt_entry st pml4 w)" by blast+
qed

subsection \<open>Mapping succeeds while the pool has room\<close>

definition pool_room :: "memory_state \<Rightarrow> nat \<Rightarrow> bool" where
  "pool_room pool n \<longleftrightarrow> n \<le> card {i. i < length (blocks pool) \<and> \<not> mb_used (blocks pool ! i)} \<and>
     unat (memory_start pool) + 4096 * n \<le> 2 ^ 32"

lemma free_slots_update:
  assumes "i < length bs" "mb_used b"
  shows "{j. j < length bs \<and> \<not> mb_used (bs[i := b] ! j)} = {j. j < length bs \<and> \<not> mb_used (bs ! j)} - {i}"
  using assms by (auto simp: nth_list_update)

lemma alloc_page_cases:
  assumes inv: "pool_inv pool" and room: "pool_room pool (Suc n)"
  obtains i where "i < length (blocks pool)" "\<not> mb_used (blocks pool ! i)" "mb_size (blocks pool ! i) \<noteq> 0"
      "memory_alloc pool 4096 = (mb_address (blocks pool ! i), memory_reuse pool i)"
  | i where "i < length (blocks pool)" "\<not> mb_used (blocks pool ! i)"
      "memory_alloc pool 4096 = (memory_start pool, memory_carve pool i 4096)"
proof -
  have al: "align_page 4096 = 4096" by (simp add: align_page_def)
  have ne: "\<exists>i<length (blocks pool). \<not> mb_used (blocks pool ! i)"
  proof (rule ccontr)
    assume "\<not> ?thesis"
    then have "{i. i < length (blocks pool) \<and> \<not> mb_used (blocks pool ! i)} = {}" by blast
    then show False using room unfolding pool_room_def by (simp only: card.empty) linarith
  qed
  have "unat (memory_start pool + 4096) = unat (memory_start pool) + 4096"
    using room by (subst unat_add_noof) (auto simp: pool_room_def)
  then have fits: "\<not> memory_start pool + 4096 > 0x100000000"
    using room by (simp add: word_less_nat_alt pool_room_def)
  from inv have "(4096 :: u64) \<noteq> 0" "unat (4096 :: u64) \<le> 2 ^ 32" by simp_all
  from inv this show thesis
  proof (rule memory_alloc_cases)
    assume fail: "memory_alloc pool 4096 = (0, pool)"
    have "memory_alloc pool 4096 \<noteq> (0, pool)"
    proof (cases "find_idx (\<lambda>b. \<not> mb_used b \<and> 4096 \<le> mb_size b) (blocks pool)")
      case None
      obtain i where "find_idx (\<lambda>b. \<not> mb_used b) (blocks pool) = Some i"
        using ne find_idx_None[of "\<lambda>b. \<not> mb_used b" "blocks pool"] by (cases "find_idx (\<lambda>b. \<not> mb_used b) (blocks pool)") auto
      moreover have "memory_start pool \<noteq> 0" using inv by (auto simp: pool_inv_def)
      ultimately show ?thesis using None fits al by (simp add: memory_alloc_def)
    next
      case (Some i)
      have "block_ok (unat (memory_start pool)) (blocks pool ! i)"
        using inv find_idxD(1)[OF Some] by (simp add: pool_inv_def)
      then have "mb_address (blocks pool ! i) \<noteq> 0"
        using find_idxD(2)[OF Some] by (auto simp: block_ok_def split: if_splits)
      then show ?thesis using Some al by (simp add: memory_alloc_def)
    qed
    then show thesis using fail by simp
  qed (use al that in auto)
qed

lemma alloc_room:
  assumes inv: "pool_inv pool" and room: "pool_room pool (Suc n)"
    and get: "memory_alloc_aligned pool 4096 4096 = (t, pool')"
  shows "t \<noteq> 0" "pool_room pool' n"
proof -
  have ma: "memory_alloc pool 4096 = (t, pool')"
    using get by (simp add: memory_alloc_aligned_def)
  have card: "n \<le> card {j. j < length (blocks pool) \<and> \<not> mb_used ((blocks pool)[i := b] ! j)}"
    if "i < length (blocks pool)" "\<not> mb_used (blocks pool ! i)" "mb_used b" for i b
  proof -
    have "Suc n \<le> card {j. j < length (blocks pool) \<and> \<not> mb_used (blocks pool ! j)}"
      using room by (simp add: pool_room_def)
    then show ?thesis using that by (simp add: free_slots_update card_Diff_singleton)
  qed
  have "t \<noteq> 0 \<and> pool_room pool' n"
  proof (rule alloc_page_cases[OF inv room])
    fix i assume i: "i < length (blocks pool)" "\<not> mb_used (blocks pool ! i)" "mb_size (blocks pool ! i) \<noteq> 0"
      "memory_alloc pool 4096 = (mb_address (blocks pool ! i), memory_reuse pool i)"
    have "block_ok (unat (memory_start pool)) (blocks pool ! i)"
      using inv i(1) by (simp add: pool_inv_def)
    then show ?thesis
      using i ma room card[OF i(1,2)] by (auto simp: block_ok_def memory_reuse_def pool_room_def)
  next
    fix i assume i: "i < length (blocks pool)" "\<not> mb_used (blocks pool ! i)"
      "memory_alloc pool 4096 = (memory_start pool, memory_carve pool i 4096)"
    have "unat (memory_start pool + 4096) = unat (memory_start pool) + 4096"
      using room by (subst unat_add_noof) (auto simp: pool_room_def)
    moreover have "memory_start pool \<noteq> 0" using inv by (auto simp: pool_inv_def)
    ultimately show ?thesis
      using i ma room card[OF i(1,2)] by (auto simp: memory_carve_def pool_room_def)
  qed
  then show "t \<noteq> 0" "pool_room pool' n" by blast+
qed

lemma get_or_alloc_room:
  assumes ok: "pt_ok st pml4" and p: "path (p @ [i])" "pt_walk (pm_mem st) pml4 p = Some u"
    and room: "pool_room (pm_pool st) (Suc n)"
    and get: "pmap_get_or_alloc_table st (slot u i) = (t, st')"
  shows "t \<noteq> 0" "pool_room (pm_pool st') n"
proof -
  note inv = pt_okD(1)[OF ok]
  have less: "pool_room (pm_pool st) n" using room by (simp add: pool_room_def)
  have "t \<noteq> 0 \<and> pool_room (pm_pool st') n"
  proof (cases "present (pm_mem st (slot u i))")
    case True
    then have "t = PTE_ADDR (pm_mem st (slot u i))" "st' = st"
      using get by (auto simp: pmap_get_or_alloc_table_def)
    moreover from this have "pt_walk (pm_mem st) pml4 (p @ [i]) = Some t"
      using p(2) True by (simp add: pt_walk_snoc)
    then have "owned (pm_pool st) t" using pt_okD(2)[OF ok p(1)] by blast
    ultimately show ?thesis using owned_range(2)[OF inv] less by blast
  next
    case False
    obtain t' pool' where al: "memory_alloc_aligned (pm_pool st) 4096 4096 = (t', pool')"
      by (cases "memory_alloc_aligned (pm_pool st) 4096 4096")
    then show ?thesis
      using alloc_room[OF inv room al] get False by (auto simp: pmap_get_or_alloc_table_def)
  qed
  then show "t \<noteq> 0" "pool_room (pm_pool st') n" by blast+
qed

lemma pmap_map_page_succeeds:
  assumes ok: "pt_ok st pml4" and room: "pool_room (pm_pool st) (n + 3)"
  shows "fst (pmap_map_page st pml4 v pa f) = 0" "pool_room (pm_pool (snd (pmap_map_page st pml4 v pa f))) n"
proof -
  have nz: "pml4 \<noteq> 0"
    using owned_range(2)[OF pt_okD(1)[OF ok] pt_okD(2)[OF ok path_dir(4)]] by simp
  have r3: "pool_room (pm_pool st) (Suc (Suc (Suc n)))" using room by (simp add: numeral_3_eq_3)
  have w0: "pt_walk (pm_mem st) pml4 [] = Some pml4" by simp
  obtain t1 st1 where g1: "pmap_get_or_alloc_table st (slot pml4 (idx_pml4 v)) = (t1, st1)" by fastforce
  obtain t2 st2 where g2: "pmap_get_or_alloc_table st1 (slot t1 (idx_pdpt v)) = (t2, st2)" by fastforce
  obtain t3 st3 where g3: "pmap_get_or_alloc_table st2 (slot t2 (idx_pd v)) = (t3, st3)" by fastforce
  note s1 = get_or_alloc_spec[OF ok, of "[]" "idx_pml4 v", unfolded append.simps, OF path_dir(3) w0 g1]
  note m1 = get_or_alloc_room[OF ok, of "[]" "idx_pml4 v", unfolded append.simps, OF path_dir(3) w0 r3 g1]
  note s2 = get_or_alloc_spec[OF s1(1), of "[idx_pml4 v]" "idx_pdpt v", unfolded append.simps,
      OF path_dir(2) s1(3)[OF m1(1)] g2]
  note m2 = get_or_alloc_room[OF s1(1), of "[idx_pml4 v]" "idx_pdpt v", unfolded append.simps,
      OF path_dir(2) s1(3)[OF m1(1)] m1(2) g2]
  note m3 = get_or_alloc_room[OF s2(1), of "[idx_pml4 v, idx_pdpt v]" "idx_pd v", unfolded append.simps,
      OF path_dir(1) s2(3)[OF m2(1)] m2(2) g3]
  show "fst (pmap_map_page st pml4 v pa f) = 0" "pool_room (pm_pool (snd (pmap_map_page st pml4 v pa f))) n"
    using nz g1 g2 g3 m1(1) m2(1) m3 by (simp_all add: pmap_map_page_def)
qed

subsection \<open>A new address space\<close>

lemma pmap_create_ok:
  assumes inv: "pool_inv (pm_pool st)" and cur: "current_pml4 st = 0" and new: "pmap_create st = (pml4, st')" "pml4 \<noteq> 0"
  shows "pt_ok st' pml4"
proof -
  obtain pool' where al: "memory_alloc_aligned (pm_pool st) 4096 4096 = (pml4, pool')"
    and st': "st' = st\<lparr>pm_pool := pool', pm_mem := clear_page (pm_mem st) pml4\<rparr>"
    using new cur by (cases "memory_alloc_aligned (pm_pool st) 4096 4096")
      (auto simp: pmap_create_def Let_def split: if_splits)
  note tab = alloc_table(1,3)[OF inv al]
  have "4096 dvd unat pml4" using owned_range(1)[OF tab(1) tab(2)[OF new(2)]] .
  then have only: "p = [] \<and> t = pml4" if "path p" "pt_walk (clear_page (pm_mem st) pml4) pml4 p = Some t" for p t
    using that by (cases p) (auto simp: path_def clear_page_slot(2))
  have "owned pool' t" if "path p" "pt_walk (clear_page (pm_mem st) pml4) pml4 p = Some t" for p t
    using only[OF that] tab(2)[OF new(2)] by simp
  moreover have "p = q" if "path p" "path q" "pt_walk (clear_page (pm_mem st) pml4) pml4 p = Some t"
      "pt_walk (clear_page (pm_mem st) pml4) pml4 q = Some t" for p q t
    using only[OF that(1,3)] only[OF that(2,4)] by simp
  moreover have "length p \<noteq> 2" if "path (p @ [i])" "pt_walk (clear_page (pm_mem st) pml4) pml4 p = Some t" for p t i
    using only[OF _ that(2)] that(1) by (auto simp: path_snoc)
  ultimately show ?thesis
    unfolding pt_ok_def st' using tab(1) by simp metis
qed

subsection \<open>Properties\<close>

text \<open>
  C23. The page tables implement a map from pages to frames. While the pool has three pages
  left \<open>pmap_map_page\<close> succeeds, and then \<open>pmap_get_physical\<close> answers the frame and offset for
  every address of that page and what it answered before for every other address; when it
  fails nothing is mapped or unmapped. \<open>pmap_unmap_page\<close> removes exactly that page again. The
  tree shape of the tables is kept throughout.
\<close>

theorem pmap_refines_page_map:
  assumes "pt_ok st pml4" "PTE_ADDR pa = pa" "PTE_ADDR f = 0" "pmap_map_page st pml4 v pa f = (r, st')"
  shows "pt_ok st' pml4 \<and> (pool_room (pm_pool st) 3 \<longrightarrow> r = 0) \<and>
    (\<forall>w. pmap_get_physical st' pml4 w =
       (if r = 0 \<and> same_page w v then pa + (w AND 0xFFF) else pmap_get_physical st pml4 w)) \<and>
    pt_ok (pmap_unmap_page st' pml4 v) pml4 \<and>
    (\<forall>w. pmap_get_physical (pmap_unmap_page st' pml4 v) pml4 w =
       (if same_page w v then 0 else pmap_get_physical st pml4 w))"
proof -
  note m = pmap_map_page_spec[OF assms(1,4)] and u = pmap_unmap_page_spec[OF m(1), of v]
  have "PTE_ADDR (PTE_FLAGS pa (f OR PAGE_PRESENT)) = PTE_ADDR pa OR (PTE_ADDR f OR PTE_ADDR 1)"
    by (simp only: PTE_ADDR_def PTE_FLAGS_def bit.conj_disj_distrib2)
  also have "PTE_ADDR 1 = 0" by (simp add: PTE_ADDR_def)
  finally have e: "PTE_ADDR (PTE_FLAGS pa (f OR PAGE_PRESENT)) = pa" using assms(2,3) by simp
  have "pool_room (pm_pool st) 3 \<longrightarrow> r = 0"
    using pmap_map_page_succeeds(1)[OF assms(1), of 0 v pa f] assms(4) by auto
  moreover have "pmap_get_physical st' pml4 w =
      (if r = 0 \<and> same_page w v then pa + (w AND 0xFFF) else pmap_get_physical st pml4 w)" for w
    using m(2,3)[of w] e by (cases "r = 0") (simp_all add: pmap_get_physical_entry assms(1) m(1))
  moreover have "pmap_get_physical (pmap_unmap_page st' pml4 v) pml4 w =
      (if same_page w v then 0 else pmap_get_physical st pml4 w)" for w
    using m(2,3)[of w] u(2)[of w] by (cases "r = 0") (simp_all add: pmap_get_physical_entry assms(1) u(1))
  ultimately show ?thesis using m(1) u(1) by blast
qed

definition boot_pmap :: pmap_state where
  "boot_pmap = snd (pmap_create \<lparr>pm_pool = boot_memory, pm_mem = (\<lambda>_. 0), current_pml4 = 0, pm_cr3 = 0\<rparr>)"

lemma boot_pmap_ok: "pt_ok boot_pmap 0x100000" "pool_room (pm_pool boot_pmap) 3" "pool_room (pm_pool boot_pmap) 9"
proof -
  let ?st = "\<lparr>pm_pool = boot_memory, pm_mem = (\<lambda>_. 0), current_pml4 = 0, pm_cr3 = 0\<rparr>"
  have al: "memory_alloc boot_memory 4096 = (0x100000, memory_carve boot_memory 0 4096)"
    by (simp add: memory_alloc_def boot_memory_def memory_init_def MEMORY_POOL_SIZE_def align_page_def)
  then have "fst (pmap_create ?st) = 0x100000"
    by (simp add: pmap_create_def memory_alloc_aligned_def Let_def)
  then show "pt_ok boot_pmap 0x100000"
    using boot_memory_inv unfolding boot_pmap_def
    by (intro pmap_create_ok[of ?st]) (simp_all add: prod_eq_iff)
  have "card {i. i < length (blocks boot_memory) \<and> \<not> mb_used (blocks boot_memory ! i)} = card {..<2048 :: nat}"
    by (rule arg_cong[of _ _ card]) (auto simp: boot_memory_def memory_init_def MEMORY_POOL_SIZE_def)
  then have "pool_room boot_memory 4" "pool_room boot_memory 10"
    by (simp_all add: pool_room_def) (simp_all add: boot_memory_def memory_init_def)
  then have "pool_room boot_memory (Suc 3)" "pool_room boot_memory (Suc 9)" by simp_all
  moreover have "memory_alloc_aligned boot_memory 4096 4096 = (0x100000, pm_pool boot_pmap)"
    using al by (simp add: boot_pmap_def pmap_create_def memory_alloc_aligned_def Let_def)
  ultimately show "pool_room (pm_pool boot_pmap) 3" "pool_room (pm_pool boot_pmap) 9"
    using alloc_room(2)[OF boot_memory_inv] by blast+
qed

theorem pmap_refines_page_map_witness:
  "\<exists>st'. pmap_map_page boot_pmap 0x100000 0x400000 0x200000 6 = (0, st') \<and>
     pmap_get_physical st' 0x100000 0x400123 = 0x200123 \<and>
     pmap_get_physical (pmap_unmap_page st' 0x100000 0x400000) 0x100000 0x400123 = 0"
proof -
  obtain r st' where m: "pmap_map_page boot_pmap 0x100000 0x400000 0x200000 6 = (r, st')" by fastforce
  have "PTE_ADDR 0x200000 = 0x200000" "PTE_ADDR 6 = 0" by (simp_all add: PTE_ADDR_def)
  moreover have "same_page 0x400123 0x400000" by (simp add: same_page_def)
  ultimately show ?thesis
    using pmap_refines_page_map[OF boot_pmap_ok(1) _ _ m] boot_pmap_ok(2) m by auto
qed

subsection \<open>Divergences\<close>

text \<open>
  \<open>pmap_map_page\<close> and \<open>pmap_unmap_page\<close> do not test \<open>PAGE_SIZE_2M\<close>, which \<open>pmap_get_physical\<close> does:
  under a 2 MiB page they write a word into the page itself.
\<close>

lemma pmap_unmap_page_writes_2M_page:
  assumes "pml4 \<noteq> 0" "present (pm_mem st (slot pml4 (idx_pml4 v)))"
    and "present (pm_mem st (slot (PTE_ADDR (pm_mem st (slot pml4 (idx_pml4 v)))) (idx_pdpt v)))"
    and "e = pm_mem st (slot (PTE_ADDR (pm_mem st (slot (PTE_ADDR (pm_mem st (slot pml4 (idx_pml4 v)))) (idx_pdpt v)))) (idx_pd v))"
    and "present e" "e AND PAGE_SIZE_2M \<noteq> 0"
  shows "pmap_unmap_page st pml4 v = st\<lparr>pm_mem := (pm_mem st)(slot (PTE_ADDR e) (idx_pt v) := 0)\<rparr>"
    and "pmap_get_physical st pml4 v = PTE_ADDR e + (v AND 0x1FFFFF)"
  using assms by (simp_all add: pmap_unmap_page_def pmap_get_physical_def Let_def)

end
