(* ===== verification/Rbtree.thy ===== *)
theory Rbtree
  imports Prelude "HOL-Library.Tree"
begin

section \<open>The red-black tree of the fair scheduler\<close>

text \<open>
  The tree of \<open>kernel/arch/x86_64/cfs.c\<close>: nodes with parent pointers and a sentinel for
  \<open>nil\<close>. \<open>rb_node\<close> is the first field of \<open>cfs_task_t\<close>, so a node and its task have the same
  address, and the memory is a function from addresses to tasks; the sentinel is the task
  at \<open>rb_nil\<close> of which only the links are used. What does not look at keys is stated for
  every record that extends \<open>rb_node\<close>, so that other trees with such nodes can use it. The two mirrored halves of the code (left and
  right rotation, the branches of \<open>__insert_fixup\<close>) are one definition with a direction:
  \<open>True\<close> is the half that is written first. Loops that follow pointers are partial functions:
  \<open>None\<close> means that the loop does not end.
\<close>

record rb_node =
  rb_parent :: u64
  rb_left :: u64
  rb_right :: u64
  rb_color :: int

record cfs_task = rb_node +
  vruntime :: u64
  exec_start :: u64
  sum_exec_runtime :: u64
  prev_sum_exec_runtime :: u64
  nice :: int
  load_weight :: u64
  on_rq :: u32
  task_state :: u32

record rb_tree =
  rb_root :: u64
  rb_nil :: u64

type_synonym 'a heap = "u64 \<Rightarrow> 'a rb_node_scheme"
type_synonym task_heap = "u64 \<Rightarrow> cfs_task"

definition set_parent :: "'a heap \<Rightarrow> u64 \<Rightarrow> u64 \<Rightarrow> 'a heap" where
  "set_parent h a v = h(a := (h a)\<lparr>rb_parent := v\<rparr>)"

definition set_color :: "'a heap \<Rightarrow> u64 \<Rightarrow> int \<Rightarrow> 'a heap" where
  "set_color h a v = h(a := (h a)\<lparr>rb_color := v\<rparr>)"

definition child :: "bool \<Rightarrow> 'a rb_node_scheme \<Rightarrow> u64" where
  "child d n = (if d then rb_left n else rb_right n)"

definition set_child :: "bool \<Rightarrow> 'a heap \<Rightarrow> u64 \<Rightarrow> u64 \<Rightarrow> 'a heap" where
  "set_child d h a v = h(a := (if d then (h a)\<lparr>rb_left := v\<rparr> else (h a)\<lparr>rb_right := v\<rparr>))"

subsection \<open>Rotations\<close>

text \<open>
  \<open>if (x->parent == tree->nil) tree->root = y; else if (x == x->parent->left) ...\<close>; the right
  rotation tests the right child first.
\<close>

definition relink :: "bool \<Rightarrow> 'a heap \<Rightarrow> rb_tree \<Rightarrow> u64 \<Rightarrow> u64 \<Rightarrow> 'a heap \<times> rb_tree" where
  "relink d h T x y =
     (let p = rb_parent (h x) in
      if p = rb_nil T then (h, T\<lparr>rb_root := y\<rparr>)
      else if x = child d (h p) then (set_child d h p y, T)
      else (set_child (\<not> d) h p y, T))"

definition rotate :: "bool \<Rightarrow> 'a heap \<Rightarrow> rb_tree \<Rightarrow> u64 \<Rightarrow> 'a heap \<times> rb_tree" where
  "rotate d h T x =
     (let y = child (\<not> d) (h x);
          h1 = set_child (\<not> d) h x (child d (h y));
          h2 = (if child d (h1 y) \<noteq> rb_nil T then set_parent h1 (child d (h1 y)) x else h1);
          h3 = set_parent h2 y (rb_parent (h2 x));
          (h4, T') = relink d h3 T x y;
          h5 = set_child d h4 y x
      in (set_parent h5 x y, T'))"

definition rotate_left :: "'a heap \<Rightarrow> rb_tree \<Rightarrow> u64 \<Rightarrow> 'a heap \<times> rb_tree" where
  "rotate_left h T x = rotate True h T x"

definition rotate_right :: "'a heap \<Rightarrow> rb_tree \<Rightarrow> u64 \<Rightarrow> 'a heap \<times> rb_tree" where
  "rotate_right h T y = rotate False h T y"

subsection \<open>Insertion\<close>

definition rbtree_init :: "u64 \<Rightarrow> bool \<Rightarrow> 'a heap \<Rightarrow> bool \<times> 'a heap \<times> rb_tree" where
  "rbtree_init sentinel initialized h =
     (let h' = (if \<not> initialized
                then h(sentinel := (h sentinel)\<lparr>rb_parent := 0, rb_left := 0, rb_right := 0, rb_color := 0\<rparr>)
                else h)
      in (True, h', \<lparr>rb_root = sentinel, rb_nil = sentinel\<rparr>))"

text \<open>
  One branch of the loop of \<open>__insert_fixup\<close> with the parent on side \<open>d\<close> of the
  grandparent: the new tree and the new \<open>z\<close>.
\<close>

definition fixup_side :: "bool \<Rightarrow> 'a heap \<Rightarrow> rb_tree \<Rightarrow> u64 \<Rightarrow> 'a heap \<times> rb_tree \<times> u64" where
  "fixup_side d h T z =
     (let y = child (\<not> d) (h (rb_parent (h (rb_parent (h z))))) in
      if rb_color (h y) = 1
      then (let h1 = set_color h (rb_parent (h z)) 0;
                h2 = set_color h1 y 0;
                h3 = set_color h2 (rb_parent (h2 (rb_parent (h2 z)))) 1
            in (h3, T, rb_parent (h3 (rb_parent (h3 z)))))
      else (let (h1, T1, z1) =
                  (if z = child (\<not> d) (h (rb_parent (h z)))
                   then let z' = rb_parent (h z); (h', T') = rotate d h T z' in (h', T', z')
                   else (h, T, z));
                h2 = set_color h1 (rb_parent (h1 z1)) 0;
                h3 = set_color h2 (rb_parent (h2 (rb_parent (h2 z1)))) 1;
                (h4, T4) = rotate (\<not> d) h3 T1 (rb_parent (h3 (rb_parent (h3 z1))))
            in (h4, T4, z1)))"

partial_function (option) insert_fixup :: "'a heap \<Rightarrow> rb_tree \<Rightarrow> u64 \<Rightarrow> ('a heap \<times> rb_tree) option" where
  "insert_fixup h T z =
     (if rb_color (h (rb_parent (h z))) = 1
      then (case fixup_side (rb_parent (h z) = rb_left (h (rb_parent (h (rb_parent (h z)))))) h T z of
              (h', T', z') \<Rightarrow> insert_fixup h' T' z')
      else Some (set_color h (rb_root T) 0, T))"

definition node_key :: "task_heap \<Rightarrow> u64 \<Rightarrow> u64" where
  "node_key h node = vruntime (h node)"

text \<open>\<open>while (x != tree->nil)\<close>: the last node met, \<open>y\<close>.\<close>

partial_function (option) insert_descend :: "task_heap \<Rightarrow> rb_tree \<Rightarrow> u64 \<Rightarrow> u64 \<Rightarrow> u64 \<Rightarrow> u64 option" where
  "insert_descend h T node y x =
     (if x \<noteq> rb_nil T
      then insert_descend h T node x
             (if node_key h node < node_key h x then rb_left (h x) else rb_right (h x))
      else Some y)"

definition rbtree_insert :: "task_heap \<Rightarrow> rb_tree \<Rightarrow> u64 \<Rightarrow> (task_heap \<times> rb_tree) option" where
  "rbtree_insert h T node =
     (let h1 = h(node := (h node)\<lparr>rb_left := rb_nil T, rb_right := rb_nil T, rb_color := 1\<rparr>) in
      case insert_descend h1 T node (rb_nil T) (rb_root T) of
        None \<Rightarrow> None
      | Some y \<Rightarrow>
          let h2 = set_parent h1 node y;
              (h3, T3) = (if y = rb_nil T then (h2, T\<lparr>rb_root := node\<rparr>)
                          else if node_key h2 node < node_key h2 y then (set_child True h2 y node, T)
                          else (set_child False h2 y node, T))
          in insert_fixup h3 T3 node)"

subsection \<open>Deletion and minimum\<close>

definition transplant :: "'a heap \<Rightarrow> rb_tree \<Rightarrow> u64 \<Rightarrow> u64 \<Rightarrow> 'a heap \<times> rb_tree" where
  "transplant h T u v =
     (let (h', T') = relink True h T u v in (set_parent h' v (rb_parent (h' u)), T'))"

partial_function (option) tree_min :: "'a heap \<Rightarrow> rb_tree \<Rightarrow> u64 \<Rightarrow> u64 option" where
  "tree_min h T x = (if rb_left (h x) \<noteq> rb_nil T then tree_min h T (rb_left (h x)) else Some x)"

definition rbtree_delete :: "'a heap \<Rightarrow> rb_tree \<Rightarrow> u64 \<Rightarrow> ('a heap \<times> rb_tree) option" where
  "rbtree_delete h T z =
     (if rb_left (h z) = rb_nil T then Some (transplant h T z (rb_right (h z)))
      else if rb_right (h z) = rb_nil T then Some (transplant h T z (rb_left (h z)))
      else case tree_min h T (rb_right (h z)) of
          None \<Rightarrow> None
        | Some y \<Rightarrow>
            let x = rb_right (h y);
                (h1, T1) = (if rb_parent (h y) = z then (set_parent h x y, T)
                            else let (h', T') = transplant h T y (rb_right (h y));
                                     h'' = set_child False h' y (rb_right (h' z))
                                 in (set_parent h'' (rb_right (h'' y)) y, T'));
                (h2, T2) = transplant h1 T1 z y;
                h3 = set_child True h2 y (rb_left (h2 z));
                h4 = set_parent h3 (rb_left (h3 y)) y
            in Some (set_color h4 y (rb_color (h4 z)), T2))"

definition rbtree_min :: "'a heap \<Rightarrow> rb_tree \<Rightarrow> u64 option option" where
  "rbtree_min h T = (if rb_root T = rb_nil T then Some None else map_option Some (tree_min h T (rb_root T)))"

subsection \<open>The tree in memory\<close>

text \<open>
  \<open>shape h nil par p t\<close>: the nodes below the pointer \<open>p\<close>, whose parent pointer is \<open>par\<close>, form
  the tree of addresses \<open>t\<close>. A context is the path from a hole to the root; a frame
  \<open>(d, a, s)\<close> says that the hole is below side \<open>d\<close> of node \<open>a\<close>, which has \<open>s\<close> on its other side.
\<close>

fun shape :: "'a heap \<Rightarrow> u64 \<Rightarrow> u64 \<Rightarrow> u64 \<Rightarrow> u64 tree \<Rightarrow> bool" where
  "shape h nil par p Leaf \<longleftrightarrow> p = nil"
| "shape h nil par p (Node l a r) \<longleftrightarrow> p = a \<and> a \<noteq> nil \<and> rb_parent (h a) = par \<and>
     shape h nil a (rb_left (h a)) l \<and> shape h nil a (rb_right (h a)) r"

definition mk :: "bool \<Rightarrow> u64 tree \<Rightarrow> u64 \<Rightarrow> u64 tree \<Rightarrow> u64 tree" where
  "mk d s a t = (if d then Node s a t else Node t a s)"

type_synonym ctx = "(bool \<times> u64 \<times> u64 tree) list"

fun plug :: "ctx \<Rightarrow> u64 tree \<Rightarrow> u64 tree" where
  "plug [] t = t"
| "plug ((d, a, s) # c) t = plug c (mk d t a s)"

fun ctx_parent :: "u64 \<Rightarrow> ctx \<Rightarrow> u64" where
  "ctx_parent nil [] = nil"
| "ctx_parent nil ((d, a, s) # c) = a"

fun ctx_set :: "ctx \<Rightarrow> u64 set" where
  "ctx_set [] = {}"
| "ctx_set ((d, a, s) # c) = insert a (set_tree s \<union> ctx_set c)"

text \<open>The context in memory, around a hole filled with the pointer \<open>p\<close>.\<close>

fun shape_ctx :: "'a heap \<Rightarrow> u64 \<Rightarrow> u64 \<Rightarrow> ctx \<Rightarrow> u64 \<Rightarrow> bool" where
  "shape_ctx h nil root [] p \<longleftrightarrow> root = p"
| "shape_ctx h nil root ((d, a, s) # c) p \<longleftrightarrow> a \<noteq> nil \<and> child d (h a) = p \<and>
     rb_parent (h a) = ctx_parent nil c \<and> shape h nil a (child (\<not> d) (h a)) s \<and> shape_ctx h nil root c a"

fun root_ptr :: "u64 \<Rightarrow> u64 tree \<Rightarrow> u64" where
  "root_ptr nil Leaf = nil"
| "root_ptr nil (Node l a r) = a"

definition tree_ok :: "'a heap \<Rightarrow> rb_tree \<Rightarrow> u64 tree \<Rightarrow> bool" where
  "tree_ok h T t \<longleftrightarrow> shape h (rb_nil T) (rb_nil T) (rb_root T) t \<and> distinct (inorder t)"

subsection \<open>Lemmas on shapes\<close>

lemma mk_simps [simp]:
  "mk True s a t = Node s a t" "mk False s a t = Node t a s"
  by (simp_all add: mk_def)

lemma child_simps [simp]: "child True n = rb_left n" "child False n = rb_right n"
  by (simp_all add: child_def)

lemma set_tree_mk [simp]: "set_tree (mk d s a t) = insert a (set_tree s \<union> set_tree t)"
  by (cases d) auto

lemma shape_mk [simp]:
  "shape h nil par p (mk d s a t) \<longleftrightarrow> p = a \<and> a \<noteq> nil \<and> rb_parent (h a) = par \<and>
     shape h nil a (child d (h a)) s \<and> shape h nil a (child (\<not> d) (h a)) t"
  by (cases d) auto

lemma root_ptr_mk [simp]: "root_ptr nil (mk d s a t) = a"
  by (cases d) auto

lemma shape_root: "shape h nil par p t \<Longrightarrow> p = root_ptr nil t"
  by (cases t) auto

lemma shape_root_iff: "shape h nil par p t \<longleftrightarrow> p = root_ptr nil t \<and> shape h nil par (root_ptr nil t) t"
  by (cases t) auto

lemma shape_nil: "shape h nil par p t \<Longrightarrow> nil \<notin> set_tree t"
  by (induction t arbitrary: par p) auto

lemma set_tree_plug: "set_tree (plug c t) = ctx_set c \<union> set_tree t"
  by (induction c t rule: plug.induct) auto

lemma shape_plug:
  "shape h nil nil root (plug c t) \<longleftrightarrow>
     shape_ctx h nil root c (root_ptr nil t) \<and> shape h nil (ctx_parent nil c) (root_ptr nil t) t"
proof (induction c arbitrary: t)
  case Nil
  then show ?case by (subst shape_root_iff) simp
next
  case (Cons f c)
  obtain d a s where f: "f = (d, a, s)" by (cases f)
  have q: "shape h nil a (child d (h a)) t \<longleftrightarrow> child d (h a) = root_ptr nil t \<and> shape h nil a (root_ptr nil t) t"
    by (rule shape_root_iff)
  show ?case
    by (simp add: f Cons.IH q conj_ac)
qed

lemma inorder_plug_distinct:
  "distinct (inorder (plug c t)) \<longleftrightarrow>
     distinct (inorder (plug c Leaf)) \<and> distinct (inorder t) \<and> ctx_set c \<inter> set_tree t = {}"
proof (induction c arbitrary: t)
  case (Cons f c)
  obtain d a s where f: "f = (d, a, s)" by (cases f)
  show ?case
    using Cons.IH[of "mk d t a s"] Cons.IH[of "mk d Leaf a s"] by (cases d) (auto simp: f)
qed simp

text \<open>Writes to other nodes keep a shape.\<close>

definition same_links :: "'a heap \<Rightarrow> 'a heap \<Rightarrow> u64 \<Rightarrow> bool" where
  "same_links h h' a \<longleftrightarrow> rb_parent (h' a) = rb_parent (h a) \<and> rb_left (h' a) = rb_left (h a) \<and>
     rb_right (h' a) = rb_right (h a)"

lemma shape_cong:
  "\<forall>a\<in>set_tree t. same_links h h' a \<Longrightarrow> shape h' nil par p t = shape h nil par p t"
  by (induction t arbitrary: par p) (auto simp: same_links_def)

lemma shape_ctx_cong:
  "\<forall>a\<in>ctx_set c. same_links h h' a \<Longrightarrow> shape_ctx h' nil root c p = shape_ctx h nil root c p"
proof (induction c arbitrary: p)
  case (Cons f c)
  obtain d a s where f: "f = (d, a, s)" by (cases f)
  have "shape h' nil a q s = shape h nil a q s" for q
    using Cons.prems by (intro shape_cong) (simp add: f)
  then show ?case
    using Cons by (cases d) (auto simp: f same_links_def)
qed simp

lemma shape_reparent:
  fixes h h' :: "'a heap"
  assumes "shape h nil par b B" "distinct (inorder B)"
    and "\<And>a. a \<in> set_tree B \<Longrightarrow> rb_left (h' a) = rb_left (h a) \<and> rb_right (h' a) = rb_right (h a)"
    and "\<And>a. a \<in> set_tree B \<Longrightarrow> a \<noteq> b \<Longrightarrow> rb_parent (h' a) = rb_parent (h a)"
    and "b \<noteq> nil \<Longrightarrow> rb_parent (h' b) = par'"
  shows "shape h' nil par' b B"
proof (cases B)
  case Leaf
  then show ?thesis using assms(1) by simp
next
  case (Node l a r)
  have b: "b = a" "b \<noteq> nil" using assms(1) Node by simp_all
  have "\<forall>q\<in>set_tree l. same_links h h' q" "\<forall>q\<in>set_tree r. same_links h h' q"
    using assms(2,3,4) Node b by (auto simp: same_links_def)
  then show ?thesis
    using assms(1,5) assms(3)[of a] Node b by (simp add: shape_cong)
qed

lemma links_simps [simp]:
  "rb_parent (set_child e h a v q) = rb_parent (h q)"
  "rb_left (set_child e h a v q) = (if q = a \<and> e then v else rb_left (h q))"
  "rb_right (set_child e h a v q) = (if q = a \<and> \<not> e then v else rb_right (h q))"
  "child e' (set_child e h a v q) = (if q = a \<and> e' = e then v else child e' (h q))"
  "rb_parent (set_parent h a v q) = (if q = a then v else rb_parent (h q))"
  "rb_left (set_parent h a v q) = rb_left (h q)" "rb_right (set_parent h a v q) = rb_right (h q)"
  "child e (set_parent h a v q) = child e (h q)"
  "rb_parent (set_color h a c q) = rb_parent (h q)"
  "rb_left (set_color h a c q) = rb_left (h q)" "rb_right (set_color h a c q) = rb_right (h q)"
  "child e (set_color h a c q) = child e (h q)"
  "rb_color (set_color h a c q) = (if q = a then c else rb_color (h q))"
  by (auto simp: set_child_def set_parent_def set_color_def child_def)

text \<open>What rotations never change: everything but the links.\<close>

definition data :: "'a rb_node_scheme \<Rightarrow> 'a rb_node_scheme" where
  "data n = n\<lparr>rb_parent := 0, rb_left := 0, rb_right := 0\<rparr>"

lemma data_simps [simp]:
  "data (set_child e h a v q) = data (h q)" "data (set_parent h a v q) = data (h q)"
  by (auto simp: data_def set_child_def set_parent_def)

lemma data_eqD: "data m = data n \<Longrightarrow> rb_color m = rb_color n"
proof -
  assume "data m = data n"
  then have "rb_color (data m) = rb_color (data n)" by simp
  then show ?thesis by (simp add: data_def)
qed

subsection \<open>Rotations on trees\<close>

lemma rotate_effect:
  assumes rot: "rotate d h T x = (h', T')" and y: "y = child (\<not> d) (h x)" and b: "b = child d (h y)"
    and p: "p = rb_parent (h x)" and nil: "nil = rb_nil T"
    and ne: "x \<noteq> y" "x \<noteq> b \<or> b = nil" "y \<noteq> b" "x \<noteq> p" "y \<noteq> p" "x \<noteq> nil" "y \<noteq> nil" "b \<noteq> p \<or> b = nil"
    and side: "p \<noteq> nil \<Longrightarrow> child dp (h p) = x" "p \<noteq> nil \<Longrightarrow> child (\<not> dp) (h p) \<noteq> x"
  shows "rb_parent (h' a) = (if a = x then y else if a = y then p else if a = b \<and> b \<noteq> nil then x else rb_parent (h a))"
    and "child e (h' a) = (if a = x \<and> e = (\<not> d) then b else if a = y \<and> e = d then x
           else if a = p \<and> p \<noteq> nil \<and> e = dp then y else child e (h a))"
    and "rb_nil T' = nil" "rb_root T' = (if p = nil then y else rb_root T)" "data (h' a) = data (h a)"
proof -
  define h1 where "h1 = set_child (\<not> d) h x b"
  define h2 where "h2 = (if b \<noteq> nil then set_parent h1 b x else h1)"
  define h3 where "h3 = set_parent h2 y p"
  have bx: "b \<noteq> x" if "b \<noteq> nil" using ne(2) that by blast
  have b1: "child d (h1 y) = b" using ne(1) b by (simp add: h1_def)
  have p2: "rb_parent (h2 x) = p" using bx p by (auto simp: h2_def h1_def)
  have p3: "rb_parent (h3 x) = p" using ne p2 by (simp add: h3_def)
  have c3: "child e (h3 q) = (if q = x \<and> e = (\<not> d) then b else child e (h q))" for e q
    by (simp add: h3_def h2_def h1_def)
  define h4T where "h4T = relink d h3 T x y"
  have r: "(h', T') = (set_parent (set_child d (fst h4T) y x) x y, snd h4T)"
    using rot by (simp only: rotate_def Let_def y[symmetric] b[symmetric] nil[symmetric] h1_def[symmetric] b1
        h2_def[symmetric] p2 h3_def[symmetric] h4T_def[symmetric] case_prod_beta)
  have h4: "h4T = (if p = nil then (h3, T\<lparr>rb_root := y\<rparr>) else (set_child dp h3 p y, T))"
  proof (cases "p = nil")
    case True
    then show ?thesis using p3 nil by (simp add: h4T_def relink_def)
  next
    case False
    have "child e (h3 p) = child e (h p)" for e using c3 ne(4) by simp
    then show ?thesis
      using False p3 nil side by (cases "d = dp") (auto simp: h4T_def relink_def Let_def)
  qed
  have par: "rb_parent (h3 a) = (if a = y then p else if a = b \<and> b \<noteq> nil then x else rb_parent (h a))"
    by (simp add: h3_def h2_def h1_def)
  show "rb_parent (h' a) = (if a = x then y else if a = y then p else if a = b \<and> b \<noteq> nil then x else rb_parent (h a))"
    using r h4 par by auto
  show "child e (h' a) = (if a = x \<and> e = (\<not> d) then b else if a = y \<and> e = d then x
           else if a = p \<and> p \<noteq> nil \<and> e = dp then y else child e (h a))"
    using r h4 c3 ne by auto
  show "rb_nil T' = nil" "rb_root T' = (if p = nil then y else rb_root T)"
    using r h4 nil by auto
  have "data (h3 a) = data (h a)" by (simp add: h3_def h2_def h1_def)
  then show "data (h' a) = data (h a)" using r h4 by auto
qed

text \<open>A traversal splits at the hole of a context.\<close>

fun ctx_pre :: "ctx \<Rightarrow> u64 list" where
  "ctx_pre [] = []"
| "ctx_pre ((d, a, s) # c) = ctx_pre c @ (if d then [] else inorder s @ [a])"

fun ctx_post :: "ctx \<Rightarrow> u64 list" where
  "ctx_post [] = []"
| "ctx_post ((d, a, s) # c) = (if d then a # inorder s else []) @ ctx_post c"

lemma inorder_plug: "inorder (plug c t) = ctx_pre c @ inorder t @ ctx_post c"
proof (induction c arbitrary: t)
  case (Cons f c)
  obtain d a s where f: "f = (d, a, s)" by (cases f)
  show ?case by (cases d) (simp_all add: f Cons.IH)
qed simp

lemma inorder_mk: "inorder (mk d (mk d A x B) y C) = inorder (mk d A x (mk d B y C))"
  by (cases d) simp_all

lemma task_eqI:
  "rb_parent m = rb_parent n \<Longrightarrow> (\<And>e. child e m = child e n) \<Longrightarrow> data m = data n \<Longrightarrow> m = n"
proof -
  assume a: "rb_parent m = rb_parent n" "\<And>e. child e m = child e n" "data m = data n"
  have "m = (data m)\<lparr>rb_parent := rb_parent m, rb_left := child True m, rb_right := child False m\<rparr>"
    by (simp add: data_def)
  also have "\<dots> = n" using a(1,3) a(2)[of True] a(2)[of False] by (simp add: data_def)
  finally show ?thesis .
qed

lemma same_linksI:
  "rb_parent (h' a) = rb_parent (h a) \<Longrightarrow> (\<And>e. child e (h' a) = child e (h a)) \<Longrightarrow> same_links h h' a"
  unfolding same_links_def by (metis child_simps)

lemma rotate_plug:
  assumes ok: "tree_ok h T (plug c (mk d A x (mk d B y C)))" and rot: "rotate d h T x = (h', T')"
  shows "tree_ok h' T' (plug c (mk d (mk d A x B) y C))" "rb_nil T' = rb_nil T" "data (h' a) = data (h a)"
    and "a \<notin> set_tree (plug c (mk d A x (mk d B y C))) \<Longrightarrow> h' a = h a"
proof -
  define nil where "nil = rb_nil T"
  let ?t = "mk d A x (mk d B y C)"
  define b where "b = root_ptr nil B"
  define p where "p = ctx_parent nil c"
  have sh: "shape_ctx h nil (rb_root T) c x" "shape h nil p x ?t"
    using ok by (simp_all add: tree_ok_def shape_plug nil_def p_def)
  have dist: "distinct (inorder ?t)" "ctx_set c \<inter> set_tree ?t = {}" "distinct (inorder (plug c Leaf))"
    using ok inorder_plug_distinct[of c ?t] by (auto simp: tree_ok_def)
  have x: "x \<noteq> nil" "rb_parent (h x) = p" "shape h nil x (child d (h x)) A" "child (\<not> d) (h x) = y"
    and y: "y \<noteq> nil" "rb_parent (h y) = x" "shape h nil y (child d (h y)) B" "shape h nil y (child (\<not> d) (h y)) C"
    using sh(2) by simp_all
  have by': "child d (h y) = b" using shape_root[OF y(3)] by (simp add: b_def)
  have sets: "x \<notin> set_tree A" "x \<notin> set_tree B" "x \<notin> set_tree C" "x \<noteq> y" "y \<notin> set_tree A" "y \<notin> set_tree B"
    "y \<notin> set_tree C" "set_tree A \<inter> set_tree B = {}" "set_tree A \<inter> set_tree C = {}" "set_tree B \<inter> set_tree C = {}"
    "distinct (inorder A)" "distinct (inorder B)" "distinct (inorder C)"
    using dist(1) by (cases d; auto)+
  have bB: "b \<in> set_tree B" if "b \<noteq> nil" using that by (cases B) (auto simp: b_def)
  have pc: "p \<in> ctx_set c" if "p \<noteq> nil" using that by (cases c rule: ctx_set.cases) (auto simp: p_def)
  have pn: "p \<noteq> x" "p \<noteq> y" "p \<noteq> b \<or> b = nil"
    using pc bB dist(2) x(1) y(1) by (cases "p = nil"; auto)+
  obtain dp where dp: "p \<noteq> nil \<Longrightarrow> child dp (h p) = x" "p \<noteq> nil \<Longrightarrow> child (\<not> dp) (h p) \<noteq> x"
    "\<And>e q s c'. c = (e, q, s) # c' \<Longrightarrow> e = dp"
  proof (cases c rule: ctx_set.cases)
    case 1
    then show thesis using that by (simp add: p_def)
  next
    case (2 e q s c')
    have "shape h nil q (child (\<not> e) (h q)) s" "child e (h q) = x" using sh(1) 2 by simp_all
    moreover have "x \<notin> set_tree s" using dist(2) 2 by auto
    ultimately have "child (\<not> e) (h q) \<noteq> x" using x(1) by (cases s) auto
    then show thesis using 2 \<open>child e (h q) = x\<close> by (intro that[of e]) (simp_all add: p_def)
  qed
  have ne: "x \<noteq> b \<or> b = nil" "y \<noteq> b" "b \<noteq> p \<or> b = nil"
    using bB sets(2,6) y(1) pn(3) by (cases "b = nil"; auto)+
  note eff = rotate_effect[OF rot x(4)[symmetric] by'[symmetric] x(2)[symmetric] nil_def sets(4) ne(1,2)
      pn(1)[symmetric] pn(2)[symmetric] x(1) y(1) ne(3) dp(1,2)]
  show nilT: "rb_nil T' = rb_nil T" and "data (h' a) = data (h a)"
    using eff(3,5) nil_def by blast+
  have keep: "rb_parent (h' q) = rb_parent (h q)" "child e (h' q) = child e (h q)"
    if "q \<noteq> x" "q \<noteq> y" "q \<noteq> b \<or> b = nil" "q \<noteq> p \<or> p = nil" for q e
    using that eff(1)[of q] eff(2)[of e q] by auto
  have links: "same_links h h' q" if "q \<noteq> x" "q \<noteq> y" "q \<noteq> b \<or> b = nil" "q \<noteq> p \<or> p = nil" for q
    using keep[OF that] by (intro same_linksI) blast+
  show "h' a = h a" if "a \<notin> set_tree (plug c (mk d A x (mk d B y C)))"
  proof -
    have "a \<noteq> x" "a \<noteq> y" "a \<noteq> b \<or> b = nil" "a \<noteq> p \<or> p = nil"
      using that bB pc by (auto simp: set_tree_plug)
    note k = keep[OF this]
    show ?thesis by (rule task_eqI) (rule k(1), rule k(2), rule eff(5))
  qed
  have cA: "shape h' nil x (child d (h x)) A" and cC: "shape h' nil y (child (\<not> d) (h y)) C"
  proof -
    have "same_links h h' q" if q: "q \<in> set_tree A \<union> set_tree C" for q
    proof (rule links)
      show "q \<noteq> x" "q \<noteq> y" "q \<noteq> b \<or> b = nil" using q sets(1,3,5,7,8,10) bB by blast+
      show "q \<noteq> p \<or> p = nil" using q pc dist(2) by auto
    qed
    then have "\<forall>q\<in>set_tree A. same_links h h' q" "\<forall>q\<in>set_tree C. same_links h h' q" by blast+
    then show "shape h' nil x (child d (h x)) A" "shape h' nil y (child (\<not> d) (h y)) C"
      using x(3) y(4) by (simp_all add: shape_cong)
  qed
  have cB: "shape h' nil x b B"
  proof (rule shape_reparent)
    show "shape h nil y b B" using y(3) by' by simp
    show "b \<noteq> nil \<Longrightarrow> rb_parent (h' b) = x" using eff(1)[of b] ne by auto
    fix q assume q: "q \<in> set_tree B"
    have qn: "q \<noteq> x" "q \<noteq> y" "q \<noteq> p \<or> p = nil" using q sets pc dist(2) by auto
    show "rb_left (h' q) = rb_left (h q) \<and> rb_right (h' q) = rb_right (h q)"
      using eff(2)[of True q] eff(2)[of False q] qn by auto
    show "q \<noteq> b \<Longrightarrow> rb_parent (h' q) = rb_parent (h q)" using eff(1)[of q] qn by auto
  qed (rule sets(12))
  have "shape h' nil p y (mk d (mk d A x B) y C)"
    using eff(1)[of y] eff(1)[of x] eff(2)[of d y] eff(2)[of d x] eff(2)[of "\<not> d" y] eff(2)[of "\<not> d" x]
      sets(4) x(1) y(1) pn cA cB cC by simp
  moreover have "shape_ctx h' nil (rb_root T') c y"
  proof (cases c rule: ctx_set.cases)
    case 1
    then show ?thesis using eff(4) by (simp add: p_def)
  next
    case (2 e q s c')
    have q: "q = p" "q \<noteq> nil" "e = dp" using 2 sh(1) dp(3) by (auto simp: p_def)
    have d': "q \<notin> set_tree s" "q \<notin> ctx_set c'" "set_tree s \<inter> set_tree B = {}" "ctx_set c' \<inter> set_tree B = {}"
        "x \<notin> set_tree s" "x \<notin> ctx_set c'" "y \<notin> set_tree s" "y \<notin> ctx_set c'"
      using dist(2,3) inorder_plug_distinct[of c' "mk e Leaf q s"] 2 by (cases e; auto)+
    have "\<forall>r\<in>set_tree s. same_links h h' r" "\<forall>r\<in>ctx_set c'. same_links h h' r"
      using d' bB q(1) by (auto intro!: links)
    moreover have "q \<noteq> b" using pn(3) q by auto
    ultimately show ?thesis
      using 2 q sh(1) pn eff(1)[of q] eff(2)[of e q] eff(2)[of "\<not> e" q] eff(4)
      by (simp add: shape_cong shape_ctx_cong)
  qed
  moreover have "distinct (inorder (plug c (mk d (mk d A x B) y C)))"
    using ok unfolding tree_ok_def inorder_plug inorder_mk by blast
  ultimately show "tree_ok h' T' (plug c (mk d (mk d A x B) y C))"
    using nilT by (simp add: tree_ok_def shape_plug nil_def p_def)
qed

subsection \<open>Colours\<close>

text \<open>
  \<open>rbt col n t\<close>: no red node has a red child and every path has \<open>n\<close> black nodes. \<open>rb_ctx\<close>
  says the same of a context whose hole is filled with a tree of \<open>n\<close> black nodes; its root
  is black.
\<close>

abbreviation red :: "'a heap \<Rightarrow> u64 \<Rightarrow> bool" where
  "red h a \<equiv> rb_color (h a) = 1"

fun root_red :: "(u64 \<Rightarrow> bool) \<Rightarrow> u64 tree \<Rightarrow> bool" where
  "root_red col Leaf = False"
| "root_red col (Node l a r) = col a"

fun rbt :: "(u64 \<Rightarrow> bool) \<Rightarrow> nat \<Rightarrow> u64 tree \<Rightarrow> bool" where
  "rbt col n Leaf \<longleftrightarrow> n = 0"
| "rbt col n (Node l a r) \<longleftrightarrow>
     (if col a then \<not> root_red col l \<and> \<not> root_red col r \<and> rbt col n l \<and> rbt col n r
      else 0 < n \<and> rbt col (n - 1) l \<and> rbt col (n - 1) r)"

fun ctx_red :: "(u64 \<Rightarrow> bool) \<Rightarrow> ctx \<Rightarrow> bool" where
  "ctx_red col [] = False"
| "ctx_red col ((d, a, s) # c) = col a"

fun rb_ctx :: "(u64 \<Rightarrow> bool) \<Rightarrow> nat \<Rightarrow> ctx \<Rightarrow> bool" where
  "rb_ctx col n [] \<longleftrightarrow> True"
| "rb_ctx col n ((d, a, s) # c) \<longleftrightarrow> rbt col n s \<and>
     (if col a then \<not> root_red col s \<and> c \<noteq> [] \<and> \<not> ctx_red col c \<and> rb_ctx col n c
      else rb_ctx col (Suc n) c)"

lemma root_red_mk [simp]: "root_red col (mk d s a t) = col a"
  by (cases d) auto

lemma rbt_mk [simp]:
  "rbt col n (mk d s a t) \<longleftrightarrow>
     (if col a then \<not> root_red col s \<and> \<not> root_red col t \<and> rbt col n s \<and> rbt col n t
      else 0 < n \<and> rbt col (n - 1) s \<and> rbt col (n - 1) t)"
  by (cases d) auto

lemma root_red_cong: "(\<And>a. a \<in> set_tree t \<Longrightarrow> col a = col' a) \<Longrightarrow> root_red col t = root_red col' t"
  by (cases t) auto

lemma rbt_cong: "(\<And>a. a \<in> set_tree t \<Longrightarrow> col a = col' a) \<Longrightarrow> rbt col n t = rbt col' n t"
proof (induction t arbitrary: n)
  case (Node l a r)
  have "root_red col l = root_red col' l" "root_red col r = root_red col' r"
    using Node.prems by (auto intro!: root_red_cong)
  then show ?case using Node by simp
qed simp

lemma ctx_red_cong: "(\<And>a. a \<in> ctx_set c \<Longrightarrow> col a = col' a) \<Longrightarrow> ctx_red col c = ctx_red col' c"
  by (cases c rule: ctx_set.cases) auto

lemma rb_ctx_cong: "(\<And>a. a \<in> ctx_set c \<Longrightarrow> col a = col' a) \<Longrightarrow> rb_ctx col n c = rb_ctx col' n c"
proof (induction c arbitrary: n)
  case (Cons f c)
  obtain d a s where f: "f = (d, a, s)" by (cases f)
  have "rbt col m s = rbt col' m s" "root_red col s = root_red col' s" "ctx_red col c = ctx_red col' c" for m
    using Cons.prems f by (auto intro!: rbt_cong root_red_cong ctx_red_cong)
  then show ?case using Cons f by simp
qed simp

lemma rbt_plug:
  assumes "rbt col n t" "rb_ctx col n c" "\<not> (root_red col t \<and> ctx_red col c)"
  shows "\<exists>m. rbt col m (plug c t) \<and> (c \<noteq> [] \<longrightarrow> \<not> root_red col (plug c t))"
  using assms
proof (induction c arbitrary: t n)
  case (Cons f c)
  obtain d a s where f: "f = (d, a, s)" by (cases f)
  show ?case
  proof (cases "col a")
    case True
    then show ?thesis using Cons.prems Cons.IH[of n "mk d t a s"] f by auto
  next
    case False
    then have "\<exists>m. rbt col m (plug c (mk d t a s)) \<and> (c \<noteq> [] \<longrightarrow> \<not> root_red col (plug c (mk d t a s)))"
      using Cons.prems f by (intro Cons.IH[of "Suc n"]) simp_all
    then show ?thesis using False f by (cases "c = []") auto
  qed
qed auto

lemma rbt_plugD:
  assumes "rbt col m (plug c t)" "c \<noteq> [] \<Longrightarrow> \<not> root_red col (plug c t)"
  shows "\<exists>n. rbt col n t \<and> rb_ctx col n c \<and> \<not> (root_red col t \<and> ctx_red col c)"
  using assms
proof (induction c arbitrary: t)
  case (Cons f c)
  obtain d a s where f: "f = (d, a, s)" by (cases f)
  obtain n where n: "rbt col n (mk d t a s)" "rb_ctx col n c" "\<not> (root_red col (mk d t a s) \<and> ctx_red col c)"
    using Cons.IH[of "mk d t a s"] Cons.prems f by auto
  show ?case
  proof (cases "col a")
    case True
    moreover have "c \<noteq> []"
      using Cons.prems(2) True f by auto
    ultimately show ?thesis using n f by auto
  next
    case False
    then have "rbt col (n - 1) t" "rbt col (n - 1) s" "rb_ctx col (Suc (n - 1)) c"
      using n by simp_all
    then show ?thesis using False f by (intro exI[of _ "n - 1"]) simp
  qed
qed auto

lemma rbt_size: "rbt col m t \<Longrightarrow> 2 ^ m \<le> size1 t"
proof (induction t arbitrary: m)
  case (Node l a r)
  show ?case
  proof (cases "col a")
    case True
    then have "2 ^ m \<le> size1 l" using Node by simp
    then show ?thesis by simp
  next
    case False
    then have "2 ^ (m - 1) \<le> size1 l" "2 ^ (m - 1) \<le> size1 r" "0 < m" using Node by simp_all
    then show ?thesis by (cases m) simp_all
  qed
qed simp

lemma rbt_height: "rbt col m t \<Longrightarrow> height t \<le> 2 * m + (if root_red col t then 1 else 0)"
proof (induction t arbitrary: m)
  case (Node l a r)
  show ?case
  proof (cases "col a")
    case True
    then have "height l \<le> 2 * m" "height r \<le> 2 * m" using Node.IH[of m] Node.prems by auto
    then show ?thesis using True by simp
  next
    case False
    then have "height l \<le> 2 * (m - 1) + 1" "height r \<le> 2 * (m - 1) + 1" "0 < m"
      using Node.IH[of "m - 1"] Node.prems by (fastforce split: if_splits)+
    then show ?thesis using False by simp
  qed
qed simp

lemma rbt_height_size:
  assumes "rbt col m t" "\<not> root_red col t"
  shows "2 ^ height t \<le> (size t + 1) ^ 2"
proof -
  have "2 ^ height t \<le> (2 :: nat) ^ (2 * m)" using rbt_height[OF assms(1)] assms(2) by (intro power_increasing) simp_all
  also have "\<dots> = (2 ^ m) ^ 2" by (simp add: power_mult[symmetric] mult.commute)
  also have "\<dots> \<le> (size1 t) ^ 2" using rbt_size[OF assms(1)] by (rule power_mono) simp
  finally show ?thesis by (simp add: size1_size)
qed

lemma blacken_root:
  assumes "rbt col m (Node l a r)" "distinct (inorder (Node l a r))"
  shows "\<exists>n. rbt (col(a := False)) n (Node l a r)"
proof -
  have "rbt (col(a := False)) k l = rbt col k l" "rbt (col(a := False)) k r = rbt col k r" for k
    using assms(2) by (auto intro!: rbt_cong split: if_splits)
  then show ?thesis
    using assms(1) by (cases "col a") (auto intro: exI[of _ m] exI[of _ "Suc m"])
qed

text \<open>The two repairs after an insertion, on trees: a rotation at the grandparent and a change of colours.\<close>

lemma outer_rbt:
  assumes dist: "distinct (inorder (plug c (mk e (mk e tz p s) g u)))" and z: "rbt col n tz"
    and s: "rbt col n s" "\<not> root_red col s" and u: "rbt col n u" "\<not> root_red col u" and c: "rb_ctx col (Suc n) c"
  shows "\<exists>m. rbt (col(p := False, g := True)) m (plug c (mk (\<not> e) (mk (\<not> e) u g s) p tz))"
proof -
  let ?col = "col(p := False, g := True)"
  have "ctx_set c \<inter> set_tree (mk e (mk e tz p s) g u) = {}" "distinct (inorder (mk e (mk e tz p s) g u))"
    using dist inorder_plug_distinct[of c "mk e (mk e tz p s) g u"] by simp_all
  then have away: "p \<noteq> g" "p \<notin> set_tree tz" "p \<notin> set_tree s" "p \<notin> set_tree u" "g \<notin> set_tree tz" "g \<notin> set_tree s"
      "g \<notin> set_tree u" "p \<notin> ctx_set c" "g \<notin> ctx_set c"
    by (cases e; auto)+
  have "rbt ?col n tz" "rbt ?col n s" "\<not> root_red ?col s" "rbt ?col n u" "\<not> root_red ?col u"
    using z s u away by (subst rbt_cong[of _ _ col] root_red_cong[of _ _ col]; auto)+
  then have "rbt ?col (Suc n) (mk (\<not> e) (mk (\<not> e) u g s) p tz)"
    using away(1) by simp
  moreover have "rb_ctx ?col (Suc n) c"
    using c away(8,9) by (subst rb_ctx_cong[of c _ col]) auto
  ultimately show ?thesis
    using rbt_plug[of ?col "Suc n" _ c] away(1) by auto
qed

lemma recolour_rbt:
  assumes dist: "distinct (inorder (plug c (mk e (mk d tz p s) g (Node ul w ur))))"
    and "rbt col n tz" "rbt col n s" "rbt col n (Node ul w ur)" "col w" "rb_ctx col (Suc n) c"
  defines "col' \<equiv> col(p := False, w := False, g := True)"
  shows "rbt col' (Suc n) (mk e (mk d tz p s) g (Node ul w ur))" "rb_ctx col' (Suc n) c"
proof -
  let ?u = "Node ul w ur" and ?t = "mk e (mk d tz p s) g (Node ul w ur)"
  have dt: "ctx_set c \<inter> set_tree ?t = {}" "distinct (inorder ?t)"
    using dist inorder_plug_distinct[of c ?t] by simp_all
  have "distinct (inorder (mk d tz p s))" "set_tree (mk d tz p s) \<inter> set_tree ?u = {}" "g \<notin> set_tree (mk d tz p s)"
      "g \<notin> set_tree ?u" "distinct (inorder ?u)"
    using dt(2) by (cases e; auto)+
  then have away: "p \<noteq> g" "w \<noteq> g" "p \<noteq> w" "p \<notin> set_tree tz" "p \<notin> set_tree s" "w \<notin> set_tree tz" "w \<notin> set_tree s"
      "g \<notin> set_tree tz" "g \<notin> set_tree s" "w \<notin> set_tree ul" "w \<notin> set_tree ur" "p \<notin> set_tree ul" "p \<notin> set_tree ur"
      "g \<notin> set_tree ul" "g \<notin> set_tree ur"
    by (cases d; auto)+
  have cc: "p \<notin> ctx_set c" "w \<notin> ctx_set c" "g \<notin> ctx_set c" using dt(1) by auto
  have "rbt col' n tz" "rbt col' n s" "rbt col' n ul" "rbt col' n ur"
    using assms(2-5) away unfolding col'_def by (subst rbt_cong[of _ _ col]; auto)+
  then show "rbt col' (Suc n) ?t"
    using away(1-3) by (simp add: col'_def)
  show "rb_ctx col' (Suc n) c"
    using assms(6) cc unfolding col'_def by (subst rb_ctx_cong[of c _ col]) auto
qed

subsection \<open>Pointers of a tree\<close>

lemma tree_ok_color [simp]: "tree_ok (set_color h a v) T t = tree_ok h T t"
  unfolding tree_ok_def by (subst shape_cong[of t h]) (simp_all add: same_links_def)

lemma tree_ok_parent:
  assumes "tree_ok h T (plug c t)" "t \<noteq> Leaf"
  shows "rb_parent (h (root_ptr (rb_nil T) t)) = ctx_parent (rb_nil T) c"
  using assms by (cases t) (simp_all add: tree_ok_def shape_plug)

lemma tree_ok_child:
  assumes "tree_ok h T (plug c (mk d s a t))"
  shows "child d (h a) = root_ptr (rb_nil T) s" "child (\<not> d) (h a) = root_ptr (rb_nil T) t" "a \<noteq> rb_nil T"
    and "s \<noteq> Leaf \<Longrightarrow> root_ptr (rb_nil T) s \<noteq> root_ptr (rb_nil T) t"
    and "s \<noteq> Leaf \<Longrightarrow> rb_parent (h (root_ptr (rb_nil T) s)) = a"
    and "t \<noteq> Leaf \<Longrightarrow> rb_parent (h (root_ptr (rb_nil T) t)) = a"
proof -
  let ?nil = "rb_nil T"
  have sh: "shape h ?nil a (child d (h a)) s" "shape h ?nil a (child (\<not> d) (h a)) t" "a \<noteq> ?nil"
    and dist: "distinct (inorder (mk d s a t))"
    using assms inorder_plug_distinct[of c "mk d s a t"] by (auto simp: tree_ok_def shape_plug)
  show "child d (h a) = root_ptr ?nil s" "child (\<not> d) (h a) = root_ptr ?nil t" "a \<noteq> ?nil"
    using shape_root sh by blast+
  show "root_ptr ?nil s \<noteq> root_ptr ?nil t" if "s \<noteq> Leaf"
  proof -
    have "set_tree s \<inter> set_tree t = {}" using dist by (cases d) auto
    then show ?thesis using that shape_nil[OF sh(1)] by (cases s; cases t) auto
  qed
  show "s \<noteq> Leaf \<Longrightarrow> rb_parent (h (root_ptr ?nil s)) = a" "t \<noteq> Leaf \<Longrightarrow> rb_parent (h (root_ptr ?nil t)) = a"
    using sh by (cases s; cases t; simp)+
qed

lemma tree_ok_root: "tree_ok h T t \<Longrightarrow> rb_root T = root_ptr (rb_nil T) t"
  using shape_root by (auto simp: tree_ok_def)

subsection \<open>The repair after an insertion\<close>

definition info :: "'a rb_node_scheme \<Rightarrow> 'a rb_node_scheme" where
  "info n = (data n)\<lparr>rb_color := 0\<rparr>"

lemma info_color [simp]: "info (set_color h a v q) = info (h q)"
  by (simp add: info_def data_def set_color_def)

text \<open>
  What the repair of the tree \<open>t\<close> achieves: a red-black tree with the same traversal; only
  links and colours of nodes of the tree have changed.
\<close>

definition fixed :: "'a heap \<Rightarrow> rb_tree \<Rightarrow> u64 tree \<Rightarrow> 'a heap \<Rightarrow> rb_tree \<Rightarrow> bool" where
  "fixed h T t h' T' \<longleftrightarrow> (\<exists>t' m. tree_ok h' T' t' \<and> inorder t' = inorder t \<and> rbt (red h') m t' \<and>
     \<not> root_red (red h') t' \<and> rb_nil T' = rb_nil T \<and> (\<forall>a. info (h' a) = info (h a)) \<and>
     (\<forall>a. a \<notin> set_tree t \<longrightarrow> h' a = h a))"

lemma fixed_trans:
  assumes "fixed h1 T1 t1 h' T'" "inorder t1 = inorder t" "rb_nil T1 = rb_nil T"
    and "\<And>a. info (h1 a) = info (h a)" "\<And>a. a \<notin> set_tree t \<Longrightarrow> h1 a = h a"
  shows "fixed h T t h' T'"
proof -
  have "set_tree t1 = set_tree t" using assms(2) by (metis set_inorder)
  then show ?thesis using assms unfolding fixed_def by metis
qed

lemma fixup_exit:
  assumes ok: "tree_ok h T t" "t \<noteq> Leaf" and rb: "rbt (red h) m t" and par: "\<not> red h (rb_parent (h z))"
  shows "\<exists>h' T'. insert_fixup h T z = Some (h', T') \<and> fixed h T t h' T'"
proof -
  obtain l a r where t: "t = Node l a r" using ok(2) by (cases t) auto
  have root: "rb_root T = a" using tree_ok_root[OF ok(1)] t by simp
  have col: "red (set_color h a 0) = (red h)(a := False)"
    by (auto simp: fun_eq_iff)
  have dist: "distinct (inorder t)" using ok(1) by (simp add: tree_ok_def)
  obtain n where n: "rbt ((red h)(a := False)) n t"
    using blacken_root[of "red h" m l a r] rb dist t by blast
  have "insert_fixup h T z = Some (set_color h a 0, T)"
    using par root by (simp add: insert_fixup.simps)
  moreover have "fixed h T t (set_color h a 0) T"
    unfolding fixed_def
  proof (intro exI conjI allI impI)
    show "rbt (red (set_color h a 0)) n t" using n unfolding col .
    show "\<not> root_red (red (set_color h a 0)) t" using t by simp
    show "set_color h a 0 q = h q" if "q \<notin> set_tree t" for q
      using that t by (simp add: set_color_def)
  qed (use ok(1) in simp_all)
  ultimately show ?thesis by blast
qed

lemma fixup_outer:
  assumes ok: "tree_ok h T (plug c (mk e (mk e tz p s) g u))" and z: "tz \<noteq> Leaf" "rbt (red h) n tz"
    and s: "rbt (red h) n s" "\<not> root_red (red h) s" and u: "rbt (red h) n u" "\<not> root_red (red h) u"
    and c: "rb_ctx (red h) (Suc n) c"
    and rot: "rotate (\<not> e) (set_color (set_color h p 0) g 1) T g = (h4, T4)"
  shows "\<exists>h' T'. insert_fixup h4 T4 (root_ptr (rb_nil T) tz) = Some (h', T') \<and>
    fixed h T (plug c (mk e (mk e tz p s) g u)) h' T'"
proof -
  let ?h = "set_color (set_color h p 0) g 1"
  let ?t = "plug c (mk e (mk e tz p s) g u)" and ?t' = "plug c (mk (\<not> e) (mk (\<not> e) u g s) p tz)"
  have flip: "mk e (mk e tz p s) g u = mk (\<not> e) u g (mk (\<not> e) s p tz)" by (cases e) simp_all
  have ok2: "tree_ok ?h T (plug c (mk (\<not> e) u g (mk (\<not> e) s p tz)))" using ok by (simp add: flip)
  note r = rotate_plug[OF ok2 rot]
  have dist: "distinct (inorder ?t)" using ok by (simp add: tree_ok_def)
  then have "p \<noteq> g" using inorder_plug_distinct[of c "mk e (mk e tz p s) g u"] by (cases e) auto
  then have col: "red h4 = (red h)(p := False, g := True)"
    using data_eqD[OF r(3)] by (auto simp: fun_eq_iff)
  then have "\<not> red h4 p" using \<open>p \<noteq> g\<close> by (auto simp: fun_eq_iff)
  obtain m where m: "rbt (red h4) m ?t'" unfolding col using outer_rbt[OF dist z(2) s u c] by blast
  have nil4: "rb_nil T4 = rb_nil T" by (rule r(2))
  have "rb_parent (h4 (root_ptr (rb_nil T) tz)) = p"
    using tree_ok_child(6)[OF r(1)] z(1) nil4 by simp
  then have "\<not> red h4 (rb_parent (h4 (root_ptr (rb_nil T) tz)))" using \<open>\<not> red h4 p\<close> by simp
  moreover have "?t' \<noteq> Leaf"
    using set_tree_plug[of c "mk (\<not> e) (mk (\<not> e) u g s) p tz"] by auto
  ultimately obtain h' T' where ex: "insert_fixup h4 T4 (root_ptr (rb_nil T) tz) = Some (h', T')"
    "fixed h4 T4 ?t' h' T'"
    using fixup_exit[OF r(1) _ m] by blast
  have "fixed h T ?t h' T'"
  proof (rule fixed_trans[OF ex(2)])
    show "inorder ?t' = inorder ?t"
      unfolding inorder_plug flip by (simp only: inorder_mk)
    show "info (h4 a) = info (h a)" for a
      using r(3)[of a] by (simp add: info_def) (simp add: set_color_def data_def)
    show "h4 a = h a" if "a \<notin> set_tree ?t" for a
    proof -
      have "a \<noteq> p" "a \<noteq> g" using that by (auto simp: set_tree_plug)
      then show ?thesis using r(4)[of a] that unfolding flip by (simp add: set_color_def)
    qed
  qed (rule nil4)
  with ex(1) show ?thesis by blast
qed

text \<open>The pointers around a node with a red parent.\<close>

lemma fixup_pointers:
  assumes ok: "tree_ok h T (plug c (mk e (mk d tz p s) g u))" and z: "tz \<noteq> Leaf"
  shows "rb_parent (h (root_ptr (rb_nil T) tz)) = p" "rb_parent (h p) = g"
    and "(p = rb_left (h g)) = e" "child (\<not> e) (h g) = root_ptr (rb_nil T) u"
    and "root_ptr (rb_nil T) tz = child (\<not> e) (h p) \<longleftrightarrow> d = (\<not> e)"
    and "g \<noteq> rb_nil T" "p \<noteq> rb_nil T"
proof -
  have ok1: "tree_ok h T (plug ((e, g, u) # c) (mk d tz p s))" using ok by simp
  have ne: "mk d tz p s \<noteq> Leaf" by (cases d) simp_all
  note g = tree_ok_child[OF ok] and p = tree_ok_child[OF ok1]
  show "rb_parent (h (root_ptr (rb_nil T) tz)) = p" using p(5) z by blast
  show "rb_parent (h p) = g" using g(5) ne by simp
  show "(p = rb_left (h g)) = e" using g(1,2) g(4)[OF ne] by (cases e) auto
  show "child (\<not> e) (h g) = root_ptr (rb_nil T) u" by (rule g(2))
  show "root_ptr (rb_nil T) tz = child (\<not> e) (h p) \<longleftrightarrow> d = (\<not> e)"
    using p(1,2) p(4)[OF z] by (cases "d = e") auto
  show "g \<noteq> rb_nil T" "p \<noteq> rb_nil T" by (rule g(3), rule p(3))
qed

lemma fixup_unfold:
  assumes ok: "tree_ok h T (plug c (mk e (mk d (Node l z r) p s) g u))" and red: "red h p"
  shows "insert_fixup h T z = (case fixup_side e h T z of (h', T', z') \<Rightarrow> insert_fixup h' T' z')"
proof -
  note f = fixup_pointers[OF ok, simplified]
  show ?thesis by (subst insert_fixup.simps) (simp add: f(1,2,3) red)
qed

text \<open>Red uncle: recolour and continue at the grandparent.\<close>

lemma fixup_side_red:
  assumes ok: "tree_ok h T (plug c (mk e (mk d (Node l z r) p s) g (Node ul w ur)))" and "red h w"
  shows "fixup_side e h T z = (set_color (set_color (set_color h p 0) w 0) g 1, T, g)"
proof -
  note f = fixup_pointers[OF ok, simplified]
  show ?thesis unfolding fixup_side_def Let_def by (simp add: f(1,2,4) assms(2))
qed

text \<open>Black uncle, the node on the inner side: the first rotation gives the outer case.\<close>

lemma fixup_side_inner:
  assumes ok: "tree_ok h T (plug c (mk e (mk (\<not> e) (mk e B z C) p s) g u))"
    and un: "\<not> red h (root_ptr (rb_nil T) u)" and rot: "rotate e h T p = (h1, T1)"
  shows "tree_ok h1 T1 (plug c (mk e (mk e (mk e s p B) z C) g u))" "rb_nil T1 = rb_nil T" "data (h1 a) = data (h a)"
    and "a \<notin> set_tree (plug c (mk e (mk (\<not> e) (mk e B z C) p s) g u)) \<Longrightarrow> h1 a = h a"
    and "fixup_side e h T z = (case rotate (\<not> e) (set_color (set_color h1 z 0) g 1) T1 g of (h4, T4) \<Rightarrow> (h4, T4, p))"
proof -
  have flip: "mk (\<not> e) (mk e B z C) p s = mk e s p (mk e B z C)" by (cases e) simp_all
  have ok1: "tree_ok h T (plug ((e, g, u) # c) (mk e s p (mk e B z C)))" using ok by (simp add: flip)
  note r = rotate_plug[OF ok1 rot]
  show ok2: "tree_ok h1 T1 (plug c (mk e (mk e (mk e s p B) z C) g u))" using r(1) by simp
  show nilT: "rb_nil T1 = rb_nil T" "data (h1 a) = data (h a)" by (rule r(2), rule r(3))
  show "a \<notin> set_tree (plug c (mk e (mk (\<not> e) (mk e B z C) p s) g u)) \<Longrightarrow> h1 a = h a"
    using r(4)[of a] unfolding flip by simp
  have ne: "mk e B z C \<noteq> Leaf" "mk e s p B \<noteq> Leaf" by (cases e; simp)+
  note f = fixup_pointers[OF ok ne(1), simplified] and f2 = fixup_pointers(1,2)[OF ok2 ne(2), simplified]
  show "fixup_side e h T z = (case rotate (\<not> e) (set_color (set_color h1 z 0) g 1) T1 g of (h4, T4) \<Rightarrow> (h4, T4, p))"
    unfolding fixup_side_def Let_def using un by (simp add: f(1,2,4) f(5)[symmetric] rot f2 split: prod.splits)
qed

lemma fixup_side_outer:
  assumes ok: "tree_ok h T (plug c (mk e (mk e (Node l z r) p s) g u))" and un: "\<not> red h (root_ptr (rb_nil T) u)"
  shows "fixup_side e h T z = (case rotate (\<not> e) (set_color (set_color h p 0) g 1) T g of (h4, T4) \<Rightarrow> (h4, T4, z))"
proof -
  note f = fixup_pointers[OF ok, simplified]
  have "z \<noteq> child (\<not> e) (h p)" using f(5) by simp
  then show ?thesis
    unfolding fixup_side_def Let_def using un by (simp add: f(1,2,4) split: prod.splits)
qed

lemma fixup_black_uncle:
  assumes ok: "tree_ok h T (plug c (mk e (mk d (Node l z r) p s) g u))"
    and z: "red h z" "rbt (red h) n (Node l z r)" and s: "rbt (red h) n s" "\<not> root_red (red h) s"
    and p: "red h p" and u: "rbt (red h) n u" "\<not> root_red (red h) u" and c: "rb_ctx (red h) (Suc n) c"
    and nil: "\<not> red h (rb_nil T)"
  shows "\<exists>h' T'. insert_fixup h T z = Some (h', T') \<and> fixed h T (plug c (mk e (mk d (Node l z r) p s) g u)) h' T'"
proof -
  have un: "\<not> red h (root_ptr (rb_nil T) u)" using u(2) nil by (cases u) simp_all
  note unfold = fixup_unfold[OF ok p]
  show ?thesis
  proof (cases "d = e")
    case True
    obtain h4 T4 where rot: "rotate (\<not> e) (set_color (set_color h p 0) g 1) T g = (h4, T4)" by fastforce
    have "insert_fixup h T z = insert_fixup h4 T4 z"
      unfolding unfold using fixup_side_outer[of h T c e l z r p s g u] ok un True rot by simp
    then show ?thesis
      using fixup_outer[OF ok[unfolded True] _ z(2) s u c rot] True by simp
  next
    case False
    then have d: "d = (\<not> e)" by simp
    define B C where "B = (if e then l else r)" and "C = (if e then r else l)"
    have tz: "Node l z r = mk e B z C" by (simp add: B_def C_def mk_def)
    have okB: "tree_ok h T (plug c (mk e (mk (\<not> e) (mk e B z C) p s) g u))" using ok d tz by simp
    obtain h1 T1 where rot1: "rotate e h T p = (h1, T1)" by fastforce
    note r = fixup_side_inner[OF okB un rot1]
    have col: "red h1 a = red h a" for a using data_eqD[OF r(3)[of a]] by simp
    then have red1: "red h1 = red h" by (simp add: fun_eq_iff)
    obtain h4 T4 where rot: "rotate (\<not> e) (set_color (set_color h1 z 0) g 1) T1 g = (h4, T4)" by fastforce
    have "insert_fixup h T z = insert_fixup h4 T4 p"
      unfolding unfold r(5) by (simp add: rot)
    moreover have "\<exists>h' T'. insert_fixup h4 T4 (root_ptr (rb_nil T1) (mk e s p B)) = Some (h', T') \<and>
        fixed h1 T1 (plug c (mk e (mk e (mk e s p B) z C) g u)) h' T'"
    proof (rule fixup_outer[OF r(1)])
      have zz: "rbt (red h) n (mk e B z C)" using z(2) tz by simp
      show "mk e s p B \<noteq> Leaf" by (cases e) simp_all
      show "rbt (red h1) n (mk e s p B)" "rbt (red h1) n C" "\<not> root_red (red h1) C"
        unfolding red1 using zz z(1) p s by (simp_all split: if_splits)
    qed (use u c rot in \<open>simp_all add: red1\<close>)
    ultimately obtain h' T' where res: "insert_fixup h T z = Some (h', T')"
        "fixed h1 T1 (plug c (mk e (mk e (mk e s p B) z C) g u)) h' T'" by auto
    have "fixed h T (plug c (mk e (mk (\<not> e) (mk e B z C) p s) g u)) h' T'"
    proof (rule fixed_trans[OF res(2) _ r(2) _ r(4)])
      show "inorder (plug c (mk e (mk e (mk e s p B) z C) g u)) = inorder (plug c (mk e (mk (\<not> e) (mk e B z C) p s) g u))"
        by (cases e) (simp_all add: inorder_plug)
      show "info (h1 a) = info (h a)" for a using r(3)[of a] by (simp add: info_def)
    qed
    then show ?thesis using res(1) d tz by auto
  qed
qed

lemma insert_fixup_fixed:
  assumes "tree_ok h T (plug c (Node l z r))" "red h z" "rbt (red h) n (Node l z r)" "rb_ctx (red h) n c"
    "\<not> red h (rb_nil T)"
  shows "\<exists>h' T'. insert_fixup h T z = Some (h', T') \<and> fixed h T (plug c (Node l z r)) h' T'"
  using assms
proof (induction "length c" arbitrary: c h l z r n rule: less_induct)
  case less
  note ok = less.prems(1) and z = less.prems(2,3) and c = less.prems(4) and nil = less.prems(5)
  show ?case
  proof (cases c rule: ctx_set.cases)
    case 1
    have "\<not> red h (rb_parent (h z))" using tree_ok_parent[OF ok] 1 nil by simp
    then show ?thesis using fixup_exit[OF ok _ _] z(2) 1 by simp
  next
    case (2 d p s c1)
    show ?thesis
    proof (cases "red h p")
      case False
      obtain m where "rbt (red h) m (plug c (Node l z r))"
        using rbt_plug[OF z(2) c] False 2 by auto
      moreover have "\<not> red h (rb_parent (h z))" using tree_ok_parent[OF ok] 2 False by simp
      moreover have "plug c (Node l z r) \<noteq> Leaf" using set_tree_plug[of c "Node l z r"] by auto
      ultimately show ?thesis using fixup_exit[OF ok] by blast
    next
      case True
      then obtain e g u c2 where c1: "c1 = (e, g, u) # c2" using c 2 by (cases c1 rule: ctx_set.cases) auto
      have s: "rbt (red h) n s" "\<not> root_red (red h) s" and u: "rbt (red h) n u" and c2: "rb_ctx (red h) (Suc n) c2"
        using c 2 c1 True by auto
      have ok': "tree_ok h T (plug c2 (mk e (mk d (Node l z r) p s) g u))" using ok 2 c1 by simp
      have t: "plug c (Node l z r) = plug c2 (mk e (mk d (Node l z r) p s) g u)" using 2 c1 by simp
      show ?thesis
      proof (cases "root_red (red h) u")
        case False
        show ?thesis unfolding t by (rule fixup_black_uncle[OF ok' z s True u False c2 nil])
      next
        case red: True
        then obtain ul w ur where w: "u = Node ul w ur" "red h w" by (cases u) auto
        let ?h = "set_color (set_color (set_color h p 0) w 0) g 1"
        define l' r' where "l' = (if e then mk d (Node l z r) p s else u)" and "r' = (if e then u else mk d (Node l z r) p s)"
        have node: "mk e (mk d (Node l z r) p s) g u = Node l' g r'" by (simp add: l'_def r'_def mk_def)
        have col: "red ?h = (red h)(p := False, w := False, g := True)" by (auto simp: fun_eq_iff)
        have dd: "distinct (inorder (plug c2 (mk e (mk d (Node l z r) p s) g (Node ul w ur))))"
          using ok' w(1) by (simp add: tree_ok_def)
        note rc = recolour_rbt[OF dd z(2) s(1) u[unfolded w(1)] w(2) c2, folded col]
        have nn: "\<not> red ?h (rb_nil T)" using nil fixup_pointers(6)[OF ok'] by simp
        have "\<exists>h' T'. insert_fixup ?h T g = Some (h', T') \<and> fixed ?h T (plug c2 (Node l' g r')) h' T'"
        proof (rule less.hyps)
          show "length c2 < length c" using 2 c1 by simp
          show "tree_ok ?h T (plug c2 (Node l' g r'))" using ok' node by simp
          show "rbt (red ?h) (Suc n) (Node l' g r')" using rc(1) unfolding w(1)[symmetric] node .
          show "rb_ctx (red ?h) (Suc n) c2" by (rule rc(2))
        qed (use nn in simp_all)
        then obtain h' T' where res: "insert_fixup ?h T g = Some (h', T')" "fixed ?h T (plug c2 (Node l' g r')) h' T'" by blast
        have "insert_fixup h T z = insert_fixup ?h T g"
          using fixup_unfold[OF ok' True] fixup_side_red[OF ok'[unfolded w(1)] w(2)] by simp
        moreover have "fixed h T (plug c2 (Node l' g r')) h' T'"
        proof (rule fixed_trans[OF res(2)])
          fix a assume "a \<notin> set_tree (plug c2 (Node l' g r'))"
          then have "a \<noteq> p" "a \<noteq> w" "a \<noteq> g" using w(1) unfolding node[symmetric] by (auto simp: set_tree_plug)
          then show "?h a = h a" by (simp add: set_color_def)
        qed simp_all
        ultimately show ?thesis using res(1) unfolding t node by auto
      qed
    qed
  qed
qed

subsection \<open>Insertion\<close>

lemma plug_append: "plug (c @ c') t = plug c' (plug c t)"
  by (induction c t rule: plug.induct) simp_all

lemma ctx_append:
  "ctx_pre (c @ c') = ctx_pre c' @ ctx_pre c" "ctx_post (c @ c') = ctx_post c @ ctx_post c'"
  "ctx_parent nil (c @ c') = ctx_parent (ctx_parent nil c') c"
proof -
  show "ctx_pre (c @ c') = ctx_pre c' @ ctx_pre c" by (induction c rule: ctx_pre.induct) simp_all
  show "ctx_post (c @ c') = ctx_post c @ ctx_post c'" by (induction c rule: ctx_post.induct) simp_all
  show "ctx_parent nil (c @ c') = ctx_parent (ctx_parent nil c') c" by (cases c rule: ctx_set.cases) simp_all
qed

abbreviation keys_sorted :: "task_heap \<Rightarrow> u64 list \<Rightarrow> bool" where
  "keys_sorted h xs \<equiv> sorted (map (node_key h) xs)"

text \<open>The search for the place: the innermost frame is on the side that the key chooses.\<close>

definition side_ok :: "task_heap \<Rightarrow> u64 \<Rightarrow> ctx \<Rightarrow> bool" where
  "side_ok h node c \<longleftrightarrow> (case c of [] \<Rightarrow> True | (d, a, s) # _ \<Rightarrow> d = (node_key h node < node_key h a))"

lemma insert_descend_ctx:
  assumes "shape h (rb_nil T) par x t"
  shows "\<exists>c. plug c Leaf = t \<and> insert_descend h T node y x = Some (ctx_parent y c) \<and> side_ok h node c \<and>
    (keys_sorted h (inorder t) \<longrightarrow> (\<forall>q\<in>set (ctx_pre c). node_key h q \<le> node_key h node) \<and>
       (\<forall>q\<in>set (ctx_post c). node_key h node < node_key h q))"
  using assms
proof (induction t arbitrary: par x y)
  case Leaf
  then show ?case
    by (intro exI[of _ "[]"]) (simp add: insert_descend.simps side_ok_def)
next
  case (Node l a r)
  let ?d = "node_key h node < node_key h a"
  let ?sub = "if ?d then l else r" and ?oth = "if ?d then r else l"
  have x: "x = a" "a \<noteq> rb_nil T" using Node.prems by simp_all
  have "\<exists>c. plug c Leaf = ?sub \<and> insert_descend h T node a (if ?d then rb_left (h a) else rb_right (h a)) = Some (ctx_parent a c) \<and>
      side_ok h node c \<and> (keys_sorted h (inorder ?sub) \<longrightarrow> (\<forall>q\<in>set (ctx_pre c). node_key h q \<le> node_key h node) \<and>
       (\<forall>q\<in>set (ctx_post c). node_key h node < node_key h q))"
    using Node.IH(1)[of a "rb_left (h a)" a] Node.IH(2)[of a "rb_right (h a)" a] Node.prems by (cases ?d) simp_all
  then obtain c where c: "plug c Leaf = ?sub"
      "insert_descend h T node a (if ?d then rb_left (h a) else rb_right (h a)) = Some (ctx_parent a c)" "side_ok h node c"
      "keys_sorted h (inorder ?sub) \<Longrightarrow> (\<forall>q\<in>set (ctx_pre c). node_key h q \<le> node_key h node) \<and>
         (\<forall>q\<in>set (ctx_post c). node_key h node < node_key h q)" by blast
  let ?c = "c @ [(?d, a, ?oth)]"
  have "plug ?c Leaf = Node l a r" using c(1) by (simp add: plug_append)
  moreover have "insert_descend h T node y x = Some (ctx_parent y ?c)"
    using c(2) x by (subst insert_descend.simps, cases ?d) (simp_all add: ctx_append)
  moreover have "side_ok h node ?c"
    using c(3) by (cases c rule: ctx_set.cases) (simp_all add: side_ok_def)
  moreover have "(\<forall>q\<in>set (ctx_pre ?c). node_key h q \<le> node_key h node) \<and> (\<forall>q\<in>set (ctx_post ?c). node_key h node < node_key h q)"
    if srt: "keys_sorted h (inorder (Node l a r))"
  proof -
    have parts: "keys_sorted h (inorder l)" "keys_sorted h (inorder r)"
        "\<forall>q\<in>set_tree l. node_key h q \<le> node_key h a" "\<forall>q\<in>set_tree r. node_key h a \<le> node_key h q"
      using srt by (auto simp: sorted_append)
    have "keys_sorted h (inorder ?sub)" using parts(1,2) by simp
    note cc = c(4)[OF this]
    show ?thesis
    proof (cases ?d)
      case True
      have "\<forall>q\<in>set_tree r. node_key h node < node_key h q" using parts(4) True less_le_trans by blast
      then show ?thesis using cc True by (auto simp: ctx_append)
    next
      case False
      have "\<forall>q\<in>set_tree l. node_key h q \<le> node_key h node" using parts(3) False by (meson not_le order_trans linear)
      then show ?thesis using cc False by (auto simp: ctx_append)
    qed
  qed
  ultimately show ?case by blast
qed

lemma fill_ctx:
  assumes "shape_ctx h nil root ((d, a, s) # c) p" "a \<notin> set_tree s" "a \<notin> ctx_set c"
  shows "shape_ctx (set_child d h a q) nil root ((d, a, s) # c) q"
proof -
  have "\<forall>b\<in>set_tree s. same_links h (set_child d h a q) b" "\<forall>b\<in>ctx_set c. same_links h (set_child d h a q) b"
    using assms(2,3) by (auto simp: same_links_def)
  then show ?thesis
    using assms(1) by (simp add: shape_cong shape_ctx_cong)
qed

lemma ctx_frame_distinct:
  assumes "distinct (inorder (plug ((d, a, s) # c) t))"
  shows "a \<notin> set_tree s" "a \<notin> ctx_set c"
  using assms inorder_plug_distinct[of c "mk d t a s"] by (cases d; auto)+

text \<open>Hanging the new node into the hole.\<close>

definition hang :: "task_heap \<Rightarrow> rb_tree \<Rightarrow> u64 \<Rightarrow> u64 \<Rightarrow> task_heap \<times> rb_tree" where
  "hang h T node y =
     (if y = rb_nil T then (h, T\<lparr>rb_root := node\<rparr>)
      else if node_key h node < node_key h y then (set_child True h y node, T)
      else (set_child False h y node, T))"

lemma hang_tree:
  assumes ok: "tree_ok h T (plug c Leaf)" and node: "node \<notin> ctx_set c" "node \<noteq> rb_nil T"
    and n: "rb_parent (h node) = ctx_parent (rb_nil T) c" "rb_left (h node) = rb_nil T" "rb_right (h node) = rb_nil T"
    and side: "side_ok h node c" and hg: "hang h T node (ctx_parent (rb_nil T) c) = (h', T')"
  shows "tree_ok h' T' (plug c (Node Leaf node Leaf))" "rb_nil T' = rb_nil T" "data (h' a) = data (h a)"
    and "a \<notin> ctx_set c \<Longrightarrow> h' a = h a"
proof -
  have sh: "shape_ctx h (rb_nil T) (rb_root T) c (rb_nil T)" and d0: "distinct (inorder (plug c Leaf))"
    using ok by (simp_all add: tree_ok_def shape_plug)
  have dist: "distinct (inorder (plug c (Node Leaf node Leaf)))"
    using d0 node inorder_plug_distinct[of c "Node Leaf node Leaf"] by simp
  have "tree_ok h' T' (plug c (Node Leaf node Leaf)) \<and> rb_nil T' = rb_nil T \<and> data (h' a) = data (h a) \<and>
      (a \<notin> ctx_set c \<longrightarrow> h' a = h a)"
  proof (cases c rule: ctx_set.cases)
    case 1
    then show ?thesis using hg n node by (auto simp: hang_def tree_ok_def)
  next
    case (2 e q s c')
    have q: "q \<noteq> rb_nil T" using sh 2 by simp
    have e: "e = (node_key h node < node_key h q)" using side 2 by (simp add: side_ok_def)
    have r: "h' = set_child e h q node" "T' = T"
      using hg q e unfolding 2 by (cases e; auto simp: hang_def)+
    have nq: "node \<noteq> q" using node(1) 2 by auto
    have "shape_ctx h' (rb_nil T) (rb_root T) c node"
      unfolding r 2 using fill_ctx sh[unfolded 2] ctx_frame_distinct[OF d0[unfolded 2]] by blast
    moreover have "shape h' (rb_nil T) (ctx_parent (rb_nil T) c) node (Node Leaf node Leaf)"
      using n node(2) nq r by simp
    ultimately have "tree_ok h' T' (plug c (Node Leaf node Leaf))"
      using dist r(2) by (simp add: tree_ok_def shape_plug)
    moreover have "h' a = h a" if "a \<notin> ctx_set c" using that 2 r(1) by (auto simp: set_child_def)
    ultimately show ?thesis using r by simp
  qed
  then show "tree_ok h' T' (plug c (Node Leaf node Leaf))" "rb_nil T' = rb_nil T" "data (h' a) = data (h a)"
    "a \<notin> ctx_set c \<Longrightarrow> h' a = h a" by blast+
qed

lemma tree_ok_outside:
  assumes "tree_ok h T t" "\<And>a. a \<in> set_tree t \<Longrightarrow> h' a = h a"
  shows "tree_ok h' T t"
  using assms shape_cong[of t h h'] by (simp add: tree_ok_def same_links_def)

lemma rbtree_insert_spec:
  assumes ok: "tree_ok h T t" and rb: "rbt (red h) m t" "\<not> root_red (red h) t" and nil: "\<not> red h (rb_nil T)"
    and node: "node \<notin> set_tree t" "node \<noteq> rb_nil T" and srt: "keys_sorted h (inorder t)"
  obtains h' T' t' n xs ys where "rbtree_insert h T node = Some (h', T')" "tree_ok h' T' t'"
    "inorder t = xs @ ys" "inorder t' = xs @ node # ys"
    "\<forall>x\<in>set xs. node_key h x \<le> node_key h node" "\<forall>y\<in>set ys. node_key h node < node_key h y"
    "rbt (red h') n t'" "\<not> root_red (red h') t'" "rb_nil T' = rb_nil T" "\<And>a. info (h' a) = info (h a)"
    "\<And>a. a \<notin> insert node (set_tree t) \<Longrightarrow> h' a = h a"
proof -
  let ?nil = "rb_nil T"
  define h1 where "h1 = h(node := (h node)\<lparr>rb_left := ?nil, rb_right := ?nil, rb_color := 1\<rparr>)"
  have ok1: "tree_ok h1 T t" using node(1) by (intro tree_ok_outside[OF ok]) (auto simp: h1_def)
  have key1: "node_key h1 a = node_key h a" for a by (simp add: node_key_def h1_def)
  have "shape h1 ?nil ?nil (rb_root T) t" using ok1 by (simp add: tree_ok_def)
  then obtain c where c: "plug c Leaf = t" "insert_descend h1 T node ?nil (rb_root T) = Some (ctx_parent ?nil c)"
      "side_ok h1 node c" "\<forall>q\<in>set (ctx_pre c). node_key h q \<le> node_key h node"
      "\<forall>q\<in>set (ctx_post c). node_key h node < node_key h q"
    using insert_descend_ctx[of h1 T ?nil "rb_root T" t node ?nil] srt by (auto simp: key1 cong: map_cong)
  define h2 where "h2 = set_parent h1 node (ctx_parent ?nil c)"
  have nc: "node \<notin> ctx_set c" using node(1) c(1) set_tree_plug[of c Leaf] by auto
  have "tree_ok h2 T t"
    using node(1) by (intro tree_ok_outside[OF ok1]) (auto simp: h2_def set_parent_def)
  then have ok2: "tree_ok h2 T (plug c Leaf)" using c(1) by simp
  have key2: "node_key h2 a = node_key h1 a" for a by (simp add: h2_def node_key_def set_parent_def)
  have side2: "side_ok h2 node c"
    using c(3) unfolding side_ok_def key2 .
  obtain h3 T3 where hg: "hang h2 T node (ctx_parent ?nil c) = (h3, T3)" by fastforce
  note hang = hang_tree[OF ok2 nc node(2) _ _ _ side2 hg]
  have n2: "rb_parent (h2 node) = ctx_parent ?nil c" "rb_left (h2 node) = ?nil" "rb_right (h2 node) = ?nil"
    by (simp_all add: h2_def h1_def)
  note ok3 = hang(1)[OF n2] and nil3 = hang(2)[OF n2] and data3 = hang(3)[OF n2] and out3 = hang(4)[OF n2]
  have col3: "red h3 a = (a = node \<or> red h a)" for a
    using data_eqD[OF data3[of a]] by (simp add: h2_def h1_def set_parent_def)
  obtain k where k: "rbt (red h) k Leaf" "rb_ctx (red h) k c"
    using rbt_plugD[of "red h" m c Leaf] rb c(1) by auto
  have "rb_ctx (red h3) 0 c"
    using k nc col3 by (subst rb_ctx_cong[of c _ "red h"]) auto
  then obtain h' T' where fx: "insert_fixup h3 T3 node = Some (h', T')" "fixed h3 T3 (plug c (Node Leaf node Leaf)) h' T'"
    using insert_fixup_fixed[OF ok3, of 0] col3 nil node(2) nil3 by auto
  have ins: "rbtree_insert h T node = Some (h', T')"
    using fx(1) hg c(2) unfolding rbtree_insert_def Let_def h1_def[symmetric]
    by (simp add: h2_def[symmetric] hang_def[symmetric])
  obtain t' n where t': "tree_ok h' T' t'" "inorder t' = inorder (plug c (Node Leaf node Leaf))" "rbt (red h') n t'"
      "\<not> root_red (red h') t'" "rb_nil T' = rb_nil T3" "\<And>a. info (h' a) = info (h3 a)"
      "\<And>a. a \<notin> set_tree (plug c (Node Leaf node Leaf)) \<Longrightarrow> h' a = h3 a"
    using fx(2) unfolding fixed_def by blast
  have "info (h3 a) = info (h a)" for a
    using data3[of a] by (auto simp: info_def h2_def h1_def set_parent_def data_def)
  moreover have "h3 a = h a" if "a \<notin> insert node (set_tree t)" for a
    using out3[of a] that c(1) set_tree_plug[of c Leaf] by (auto simp: h2_def h1_def set_parent_def)
  moreover have "set_tree (plug c (Node Leaf node Leaf)) = insert node (set_tree t)"
    using c(1) set_tree_plug[of c Leaf] set_tree_plug[of c "Node Leaf node Leaf"] by auto
  moreover have "inorder t = ctx_pre c @ ctx_post c" using c(1) inorder_plug[of c Leaf] by simp
  ultimately show thesis
    using t' nil3 ins c(4,5) by (intro that[of h' T' t' "ctx_pre c" "ctx_post c" n]) (simp_all add: inorder_plug)
qed

subsection \<open>Minimum\<close>

text \<open>The leftmost node, with the path of left turns to it.\<close>

lemma tree_min_ctx:
  assumes "shape h (rb_nil T) par x (Node l a r)"
  shows "\<exists>c y yr. plug c (Node Leaf y yr) = Node l a r \<and> tree_min h T x = Some y \<and> ctx_pre c = []"
  using assms
proof (induction l arbitrary: par x a r)
  case Leaf
  then show ?case
    by (intro exI[of _ "[]"] exI[of _ a] exI[of _ r]) (simp add: tree_min.simps)
next
  case (Node l1 b r1)
  have x: "x = a" "rb_left (h a) = b" "b \<noteq> rb_nil T" using Node.prems by auto
  obtain c y yr where c: "plug c (Node Leaf y yr) = Node l1 b r1" "tree_min h T b = Some y" "ctx_pre c = []"
    using Node.IH(1)[of a b b r1] Node.prems by auto
  show ?case
  proof (intro exI conjI)
    show "plug (c @ [(True, a, r)]) (Node Leaf y yr) = Node (Node l1 b r1) a r" using c(1) by (simp add: plug_append)
    show "tree_min h T x = Some y" using x c(2) by (subst tree_min.simps) simp
    show "ctx_pre (c @ [(True, a, r)]) = []" using c(3) by (simp add: ctx_append)
  qed
qed

lemma rbtree_min_spec:
  assumes "tree_ok h T t"
  shows "rbtree_min h T = Some (case inorder t of [] \<Rightarrow> None | a # _ \<Rightarrow> Some a)"
proof (cases t)
  case Leaf
  then show ?thesis using assms by (simp add: rbtree_min_def tree_ok_def)
next
  case (Node l a r)
  have sh: "shape h (rb_nil T) (rb_nil T) (rb_root T) (Node l a r)" using assms Node by (simp add: tree_ok_def)
  obtain c y yr where c: "plug c (Node Leaf y yr) = Node l a r" "tree_min h T (rb_root T) = Some y" "ctx_pre c = []"
    using tree_min_ctx[OF sh] by blast
  have "inorder t = y # inorder yr @ ctx_post c"
    using inorder_plug[of c "Node Leaf y yr"] c(1,3) Node by simp
  then show ?thesis using c(2) sh by (simp add: rbtree_min_def)
qed

subsection \<open>Deletion\<close>

text \<open>Replacing the child pointer of the context.\<close>

lemma relink_ctx:
  assumes sh: "shape_ctx h nil (rb_root T) c x" and nil: "nil = rb_nil T" and x: "x \<noteq> nil" "x \<notin> ctx_set c"
    and par: "rb_parent (h x) = ctx_parent nil c" and dist: "distinct (inorder (plug c Leaf))"
    and rl: "relink d h T x v = (h', T')"
  shows "shape_ctx h' nil (rb_root T') c v" "rb_nil T' = nil" "rb_parent (h' a) = rb_parent (h a)"
    and "data (h' a) = data (h a)" "a \<notin> ctx_set c \<Longrightarrow> h' a = h a"
proof -
  have "shape_ctx h' nil (rb_root T') c v \<and> rb_nil T' = nil \<and> rb_parent (h' a) = rb_parent (h a) \<and>
      data (h' a) = data (h a) \<and> (a \<notin> ctx_set c \<longrightarrow> h' a = h a)"
  proof (cases c rule: ctx_set.cases)
    case 1
    then show ?thesis using rl par nil by (auto simp: relink_def)
  next
    case (2 e q s c')
    have q: "q \<noteq> nil" "child e (h q) = x" "shape h nil q (child (\<not> e) (h q)) s" using sh 2 by simp_all
    have "x \<notin> set_tree s" using x(2) 2 by auto
    then have "child (\<not> e) (h q) \<noteq> x" using q(3) x(1) by (cases s) auto
    then have r: "h' = set_child e h q v" "T' = T"
      using rl par nil q(1,2) 2 by (cases "d = e"; auto simp: relink_def Let_def)+
    have "shape_ctx h' nil (rb_root T') c v"
      unfolding r 2 using fill_ctx sh[unfolded 2] ctx_frame_distinct[OF dist[unfolded 2]] by blast
    moreover have "a \<notin> ctx_set c \<longrightarrow> h' a = h a" using 2 r(1) by (auto simp: set_child_def)
    ultimately show ?thesis using r nil by simp
  qed
  then show "shape_ctx h' nil (rb_root T') c v" "rb_nil T' = nil" "rb_parent (h' a) = rb_parent (h a)"
    "data (h' a) = data (h a)" "a \<notin> ctx_set c \<Longrightarrow> h' a = h a" by blast+
qed

text \<open>Putting a tree \<open>t\<close>, with root \<open>v\<close>, in the place of the node \<open>u\<close>.\<close>

lemma transplant_ctx:
  assumes sh: "shape_ctx h nil (rb_root T) c u" and nil: "nil = rb_nil T" "nil \<notin> ctx_set c" and u: "u \<noteq> nil" "u \<notin> ctx_set c"
    and par: "rb_parent (h u) = ctx_parent nil c" and dist: "distinct (inorder (plug c Leaf))"
    and v: "v \<notin> ctx_set c" "v \<noteq> u" and tp: "transplant h T u v = (h', T')"
  shows "shape_ctx h' nil (rb_root T') c v" "rb_nil T' = nil"
    and "rb_parent (h' a) = (if a = v then ctx_parent nil c else rb_parent (h a))"
    and "data (h' a) = data (h a)" "a \<notin> ctx_set c \<Longrightarrow> a \<noteq> v \<Longrightarrow> h' a = h a"
    and "a \<notin> ctx_set c \<Longrightarrow> child e (h' a) = child e (h a)"
proof -
  obtain h1 T1 where rl: "relink True h T u v = (h1, T1)" by fastforce
  note r = relink_ctx[OF sh nil(1) u par dist rl]
  have h': "h' = set_parent h1 v (ctx_parent nil c)" "T' = T1"
    using tp rl r(3)[of u] par by (simp_all add: transplant_def)
  have "\<forall>a\<in>ctx_set c. same_links h1 h' a" using v(1) unfolding h' by (auto simp: same_links_def)
  then show "shape_ctx h' nil (rb_root T') c v" using r(1) h'(2) by (simp add: shape_ctx_cong)
  show "rb_nil T' = nil" using r(2) h' by simp
  show "rb_parent (h' a) = (if a = v then ctx_parent nil c else rb_parent (h a))" using r(3) h' by simp
  show "data (h' a) = data (h a)" using r(4) h' by simp
  show "h' a = h a" if "a \<notin> ctx_set c" "a \<noteq> v" using r(5)[OF that(1)] that(2) h' by (simp add: set_parent_def)
  show "child e (h' a) = child e (h a)" if "a \<notin> ctx_set c" using r(5)[OF that(1)] h' by simp
qed

lemma ctx_nil: "shape_ctx h nil root c p \<Longrightarrow> nil \<notin> ctx_set c"
proof (induction c arbitrary: p)
  case (Cons f c)
  obtain d a s where f: "f = (d, a, s)" by (cases f)
  show ?case using Cons shape_nil[of h nil a "child (\<not> d) (h a)" s] by (auto simp: f)
qed simp

text \<open>A node with at most one child: the other subtree takes its place.\<close>

lemma transplant_tree:
  assumes ok: "tree_ok h T (plug c (mk d Leaf u t))" and tp: "transplant h T u (child (\<not> d) (h u)) = (h', T')"
  shows "tree_ok h' T' (plug c t)" "rb_nil T' = rb_nil T" "data (h' a) = data (h a)"
    and "a \<notin> set_tree (plug c t) \<Longrightarrow> a \<noteq> rb_nil T \<Longrightarrow> h' a = h a"
proof -
  define nil where "nil = rb_nil T"
  let ?v = "child (\<not> d) (h u)"
  have sh: "shape_ctx h nil (rb_root T) c u" "shape h nil (ctx_parent nil c) u (mk d Leaf u t)"
    and dist: "distinct (inorder (plug c Leaf))" "distinct (inorder (mk d Leaf u t))" "ctx_set c \<inter> set_tree (mk d Leaf u t) = {}"
    using ok inorder_plug_distinct[of c "mk d Leaf u t"] by (simp_all add: tree_ok_def shape_plug nil_def)
  have u: "u \<noteq> nil" "rb_parent (h u) = ctx_parent nil c" "shape h nil u ?v t" "u \<notin> ctx_set c"
    using sh(2) dist(3) by simp_all
  have ut: "u \<notin> set_tree t" "distinct (inorder t)" using dist(2) by (cases d; simp)+
  have v: "?v = root_ptr nil t" using shape_root[OF u(3)] .
  have nc: "nil \<notin> ctx_set c" using ctx_nil[OF sh(1)] .
  have vt: "?v = nil \<or> ?v \<in> set_tree t" unfolding v by (cases t) auto
  then have vc: "?v \<notin> ctx_set c" "?v \<noteq> u" using nc u(1) ut(1) dist(3) by auto
  note tr = transplant_ctx[OF sh(1) nil_def nc u(1,4) u(2) dist(1) vc tp]
  have "shape h' nil (ctx_parent nil c) ?v t"
  proof (rule shape_reparent[OF u(3) ut(2)])
    fix a assume "a \<in> set_tree t"
    then have "a \<notin> ctx_set c" using dist(3) by auto
    then show "rb_left (h' a) = rb_left (h a) \<and> rb_right (h' a) = rb_right (h a)"
      using tr(6)[of a True] tr(6)[of a False] by simp
    show "a \<noteq> ?v \<Longrightarrow> rb_parent (h' a) = rb_parent (h a)" using tr(3)[of a] by simp
  qed (simp add: tr(3))
  moreover have "distinct (inorder (plug c t))"
    using inorder_plug_distinct[of c t] dist ut(2) by auto
  ultimately show "tree_ok h' T' (plug c t)"
    using tr(1,2) v by (simp add: tree_ok_def shape_plug nil_def)
  show "rb_nil T' = rb_nil T" "data (h' a) = data (h a)" using tr(2,4) nil_def by simp_all
  show "h' a = h a" if "a \<notin> set_tree (plug c t)" "a \<noteq> rb_nil T"
    using that tr(5)[of a] vt by (auto simp: set_tree_plug nil_def)
qed

text \<open>
  The node \<open>y\<close>, which already has the right subtree \<open>r\<close>, takes the place of \<open>z\<close> and its left
  subtree.
\<close>

lemma replace_node:
  assumes sh: "shape_ctx h nil (rb_root T) c z" and nil: "nil = rb_nil T"
    and z: "z \<noteq> nil" "rb_parent (h z) = ctx_parent nil c" "shape h nil z (rb_left (h z)) l"
    and y: "y \<noteq> nil" "y \<noteq> z" "shape h nil y (rb_right (h y)) r"
    and dist: "distinct (inorder (plug c Leaf))" "distinct (inorder (Node l y r))" "ctx_set c \<inter> set_tree (Node l y r) = {}"
      "z \<notin> ctx_set c" "z \<notin> set_tree (Node l y r)"
    and tp: "transplant h T z y = (h2, T2)"
    and h3: "h3 = set_child True h2 y (rb_left (h2 z))" and h4: "h4 = set_parent h3 (rb_left (h3 y)) y"
  shows "tree_ok h4 T2 (plug c (Node l y r))" "rb_nil T2 = nil" "data (h4 a) = data (h a)"
    and "a \<notin> insert z (insert nil (ctx_set c \<union> set_tree (Node l y r))) \<Longrightarrow> h4 a = h a"
proof -
  define lp where "lp = root_ptr nil l"
  have nc: "nil \<notin> ctx_set c" using ctx_nil[OF sh] .
  have yc: "y \<notin> ctx_set c" "y \<notin> set_tree l" "y \<notin> set_tree r" "set_tree l \<inter> set_tree r = {}" using dist(2,3) by auto
  note tr = transplant_ctx[OF sh nil nc z(1) dist(4) z(2) dist(1) yc(1) y(2) tp]
  have lz: "rb_left (h z) = lp" using shape_root[OF z(3)] by (simp add: lp_def)
  have "rb_left (h2 z) = lp" using tr(6)[OF dist(4), of True] lz by simp
  then have h34: "h4 = set_parent (set_child True h2 y lp) lp y" unfolding h4 h3 by simp
  have lpl: "lp = nil \<or> lp \<in> set_tree l" by (cases l) (auto simp: lp_def)
  then have lpn: "lp \<noteq> y" "lp \<notin> ctx_set c" "lp \<notin> set_tree r" "lp \<noteq> z"
    using y(1) z(1) yc nc dist(3,5) shape_nil[OF y(3)] by auto
  have par4: "rb_parent (h4 a) = (if a = lp then y else if a = y then ctx_parent nil c else rb_parent (h a))" for a
    using tr(3)[of a] by (simp add: h34)
  have ch4: "child e (h4 a) = (if a = y \<and> e then lp else child e (h a))" if "a \<notin> ctx_set c" for a e
    using tr(6)[OF that, of e] by (simp add: h34)
  have "shape h4 nil y lp l"
  proof (rule shape_reparent)
    show "shape h nil z lp l" using z(3) lz by simp
    show "distinct (inorder l)" using dist(2) by simp
    show "lp \<noteq> nil \<Longrightarrow> rb_parent (h4 lp) = y" by (simp add: par4)
    fix a assume a: "a \<in> set_tree l"
    then have "a \<notin> ctx_set c" "a \<noteq> y" using dist(3) yc by auto
    then show "rb_left (h4 a) = rb_left (h a) \<and> rb_right (h4 a) = rb_right (h a)"
      "a \<noteq> lp \<Longrightarrow> rb_parent (h4 a) = rb_parent (h a)"
      using ch4[of a True] ch4[of a False] par4[of a] by simp_all
  qed
  moreover have "shape h4 nil y (rb_right (h y)) r"
  proof (subst shape_cong)
    show "\<forall>a\<in>set_tree r. same_links h h4 a"
    proof
      fix a assume a: "a \<in> set_tree r"
      then have "a \<notin> ctx_set c" "a \<noteq> y" "a \<noteq> lp" using dist(3) yc lpn by auto
      then show "same_links h h4 a" using ch4[of a] par4[of a] by (intro same_linksI) simp_all
    qed
  qed (rule y(3))
  moreover have "rb_right (h4 y) = rb_right (h y)" "rb_left (h4 y) = lp" "rb_parent (h4 y) = ctx_parent nil c"
    using ch4[OF yc(1), of False] ch4[OF yc(1), of True] par4[of y] lpn(1) by simp_all
  ultimately have "shape h4 nil (ctx_parent nil c) y (Node l y r)" using y(1) by simp
  moreover have "shape_ctx h4 nil (rb_root T2) c y"
  proof (subst shape_ctx_cong)
    show "\<forall>a\<in>ctx_set c. same_links h2 h4 a" using yc(1) lpn(2) by (auto simp: h34 same_links_def)
  qed (rule tr(1))
  moreover have "distinct (inorder (plug c (Node l y r)))"
    using inorder_plug_distinct[of c "Node l y r"] dist by simp
  ultimately show "tree_ok h4 T2 (plug c (Node l y r))"
    using tr(2) by (simp add: tree_ok_def shape_plug)
  show "rb_nil T2 = nil" "data (h4 a) = data (h a)" using tr(2) tr(4)[of a] h34 by simp_all
  show "h4 a = h a" if "a \<notin> insert z (insert nil (ctx_set c \<union> set_tree (Node l y r)))"
  proof -
    have "a \<noteq> lp" "a \<noteq> y" "a \<notin> ctx_set c" using that lpl by auto
    then show ?thesis using tr(5)[of a] by (simp add: h34 set_parent_def set_child_def)
  qed
qed

text \<open>The state in which \<open>y\<close> is ready to take the place of \<open>z\<close>, on both ways to it.\<close>

definition ready :: "'a heap \<Rightarrow> rb_tree \<Rightarrow> ctx \<Rightarrow> u64 tree \<Rightarrow> u64 \<Rightarrow> u64 \<Rightarrow> u64 tree \<Rightarrow> bool" where
  "ready h T c l z y r \<longleftrightarrow> shape_ctx h (rb_nil T) (rb_root T) c z \<and> z \<noteq> rb_nil T \<and>
     rb_parent (h z) = ctx_parent (rb_nil T) c \<and> shape h (rb_nil T) z (rb_left (h z)) l \<and> y \<noteq> rb_nil T \<and> y \<noteq> z \<and>
     shape h (rb_nil T) y (rb_right (h y)) r \<and> distinct (inorder (plug c Leaf)) \<and> distinct (inorder (Node l y r)) \<and>
     ctx_set c \<inter> set_tree (Node l y r) = {} \<and> z \<notin> ctx_set c \<and> z \<notin> set_tree (Node l y r)"

lemma ready_direct:
  assumes ok: "tree_ok h T (plug c (Node l z (Node Leaf y r)))"
  shows "ready (set_parent h (rb_right (h y)) y) T c l z y r"
    and "rb_parent (h y) = z"
proof -
  let ?nil = "rb_nil T" and ?t = "Node l z (Node Leaf y r)"
  let ?h = "set_parent h (rb_right (h y)) y"
  have sh: "shape_ctx h ?nil (rb_root T) c z" "shape h ?nil (ctx_parent ?nil c) z ?t"
    and dist: "distinct (inorder (plug c Leaf))" "distinct (inorder ?t)" "ctx_set c \<inter> set_tree ?t = {}"
    using ok inorder_plug_distinct[of c ?t] by (simp_all add: tree_ok_def shape_plug)
  show "rb_parent (h y) = z" using sh(2) by simp
  have r: "shape h ?nil y (rb_right (h y)) r" using sh(2) by simp
  have nil: "?nil \<notin> ctx_set c" "?nil \<notin> set_tree ?t" using ctx_nil[OF sh(1)] shape_nil[OF sh(2)] by blast+
  have same: "?h a = h a" if "a \<noteq> ?nil" for a
    using r that by (cases r) (auto simp: set_parent_def)
  have sl: "same_links h ?h a" if "a \<noteq> ?nil" for a using same[OF that] by (simp only: same_links_def)
  have "\<forall>a\<in>ctx_set c. same_links h ?h a" "\<forall>a\<in>set_tree l. same_links h ?h a" "\<forall>a\<in>set_tree r. same_links h ?h a"
    using nil by (auto intro!: sl)
  then have "shape_ctx ?h ?nil (rb_root T) c z" "shape ?h ?nil z (rb_left (h z)) l" "shape ?h ?nil y (rb_right (h y)) r"
    using sh r by (simp_all add: shape_ctx_cong shape_cong)
  then show "ready ?h T c l z y r"
    using sh(2) dist same[of z] nil(2) by (auto simp: ready_def)
qed

lemma ready_deep:
  assumes ok: "tree_ok h T (plug c (Node l z r))" and y: "y \<notin> set_tree (plug c (Node l z r))" "y \<noteq> rb_nil T"
    and h1: "h1 = set_child False h y (rb_right (h z))" and h2: "h2 = set_parent h1 (rb_right (h1 y)) y"
  shows "ready h2 T c l z y r"
proof -
  let ?nil = "rb_nil T" and ?t = "Node l z r"
  have sh: "shape_ctx h ?nil (rb_root T) c z" "shape h ?nil (ctx_parent ?nil c) z ?t"
    and dist: "distinct (inorder (plug c Leaf))" "distinct (inorder ?t)" "ctx_set c \<inter> set_tree ?t = {}"
    using ok inorder_plug_distinct[of c ?t] by (simp_all add: tree_ok_def shape_plug)
  define rp where "rp = root_ptr ?nil r"
  have r: "shape h ?nil z rp r" "rb_right (h z) = rp" using sh(2) shape_root[of h ?nil z "rb_right (h z)" r] by (auto simp: rp_def)
  have rpr: "rp = ?nil \<or> rp \<in> set_tree r" by (cases r) (auto simp: rp_def)
  have nil: "?nil \<notin> ctx_set c" "?nil \<notin> set_tree ?t" using ctx_nil[OF sh(1)] shape_nil[OF sh(2)] by blast+
  have yn: "y \<notin> ctx_set c" "y \<notin> set_tree ?t" using y(1) by (auto simp: set_tree_plug)
  have h2': "h2 = set_parent (set_child False h y rp) rp y" unfolding h2 h1 r(2) by simp
  have away: "same_links h h2 a" if "a \<noteq> y" "a \<noteq> rp" for a using that by (simp add: h2' same_links_def)
  have "rp \<noteq> z" "rp \<notin> ctx_set c" "rp \<notin> set_tree l" using rpr nil dist by auto
  then have "\<forall>a\<in>ctx_set c. same_links h h2 a" "\<forall>a\<in>set_tree l. same_links h h2 a" "same_links h h2 z"
    using yn by (auto intro!: away)
  moreover from this have "rb_left (h2 z) = rb_left (h z)" "rb_parent (h2 z) = rb_parent (h z)"
    by (simp_all add: same_links_def)
  ultimately have "shape_ctx h2 ?nil (rb_root T) c z" "shape h2 ?nil z (rb_left (h2 z)) l" "rb_parent (h2 z) = ctx_parent ?nil c"
    using sh by (simp_all add: shape_ctx_cong shape_cong)
  moreover have "shape h2 ?nil y rp r"
  proof (rule shape_reparent[OF r(1)])
    show "distinct (inorder r)" using dist(2) by simp
    show "rb_parent (h2 rp) = y" by (simp add: h2')
    fix a assume "a \<in> set_tree r"
    then have "a \<noteq> y" using yn by auto
    then show "rb_left (h2 a) = rb_left (h a) \<and> rb_right (h2 a) = rb_right (h a)"
      "a \<noteq> rp \<Longrightarrow> rb_parent (h2 a) = rb_parent (h a)" by (simp_all add: h2')
  qed
  moreover have "rb_right (h2 y) = rp" by (simp add: h2')
  ultimately show ?thesis
    using sh(2) dist yn y(2) by (auto simp: ready_def)
qed

lemma ready_replace:
  assumes rd: "ready h T c l z y r"
    and del: "(let (h2, T2) = transplant h T z y; h3 = set_child True h2 y (rb_left (h2 z));
                  h4 = set_parent h3 (rb_left (h3 y)) y in (set_color h4 y (rb_color (h4 z)), T2)) = (h', T')"
  shows "tree_ok h' T' (plug c (Node l y r))" "rb_nil T' = rb_nil T" "info (h' a) = info (h a)"
    and "a \<notin> insert z (insert (rb_nil T) (ctx_set c \<union> set_tree (Node l y r))) \<Longrightarrow> h' a = h a"
proof -
  obtain h2 T2 where tp: "transplant h T z y = (h2, T2)" by fastforce
  define h3 where "h3 = set_child True h2 y (rb_left (h2 z))"
  define h4 where "h4 = set_parent h3 (rb_left (h3 y)) y"
  have h': "h' = set_color h4 y (rb_color (h4 z))" "T' = T2"
    using del tp by (auto simp: Let_def h3_def h4_def)
  note rp = replace_node[OF _ refl _ _ _ _ _ _ _ _ _ _ _ tp h3_def h4_def, of c l r]
  have rd': "shape_ctx h (rb_nil T) (rb_root T) c z" "z \<noteq> rb_nil T" "rb_parent (h z) = ctx_parent (rb_nil T) c"
    "shape h (rb_nil T) z (rb_left (h z)) l" "y \<noteq> rb_nil T" "y \<noteq> z" "shape h (rb_nil T) y (rb_right (h y)) r"
    "distinct (inorder (plug c Leaf))" "distinct (inorder (Node l y r))" "ctx_set c \<inter> set_tree (Node l y r) = {}"
    "z \<notin> ctx_set c" "z \<notin> set_tree (Node l y r)"
    using rd unfolding ready_def by blast+
  show "tree_ok h' T' (plug c (Node l y r))" "rb_nil T' = rb_nil T"
    unfolding h' using rp(1,2)[OF rd'] by simp_all
  show "info (h' a) = info (h a)" unfolding h' info_color using rp(3)[OF rd', of a] by (simp add: info_def)
  show "h' a = h a" if "a \<notin> insert z (insert (rb_nil T) (ctx_set c \<union> set_tree (Node l y r)))"
    unfolding h' using rp(4)[OF rd' that] that by (auto simp: set_color_def)
qed

text \<open>What a deletion achieves, for the tree \<open>plug c (Node l z r)\<close>.\<close>

definition deleted :: "'a heap \<Rightarrow> rb_tree \<Rightarrow> ctx \<Rightarrow> u64 tree \<Rightarrow> u64 \<Rightarrow> u64 tree \<Rightarrow> 'a heap \<Rightarrow> rb_tree \<Rightarrow> bool" where
  "deleted h T c l z r h' T' \<longleftrightarrow> (\<exists>t'. tree_ok h' T' t' \<and>
     inorder t' = ctx_pre c @ inorder l @ inorder r @ ctx_post c \<and> rb_nil T' = rb_nil T \<and>
     (\<forall>a. info (h' a) = info (h a)) \<and>
     (\<forall>a. a \<notin> insert (rb_nil T) (set_tree (plug c (Node l z r))) \<longrightarrow> h' a = h a))"

lemma info_data: "data a = data b \<Longrightarrow> info a = info b"
  by (simp add: info_def)

lemma deleted_one:
  assumes ok: "tree_ok h T (plug c (mk d Leaf z t))" and tp: "transplant h T z (child (\<not> d) (h z)) = (h', T')"
    and lr: "Node l z r = mk d Leaf z t"
  shows "deleted h T c l z r h' T'"
proof -
  note r = transplant_tree[OF ok tp]
  have "inorder l @ inorder r = inorder t" using lr by (cases d) simp_all
  then have "inorder (plug c t) = ctx_pre c @ inorder l @ inorder r @ ctx_post c" by (simp add: inorder_plug)
  moreover have "set_tree (plug c t) \<subseteq> set_tree (plug c (Node l z r))" unfolding lr set_tree_plug by auto
  ultimately show ?thesis
    unfolding deleted_def using r(1,2) r(4) info_data[OF r(3)] by (intro exI[of _ "plug c t"]) blast
qed

lemma deleted_two:
  assumes rd: "ready h1 T1 c l z y r'" and h1: "rb_nil T1 = rb_nil T" "\<And>a. data (h1 a) = data (h a)"
    "\<And>a. a \<notin> insert (rb_nil T) (set_tree (plug c (Node l z r))) \<Longrightarrow> h1 a = h a"
    and r: "inorder r = y # inorder r'"
    and fin: "(let (h2, T2) = transplant h1 T1 z y; h3 = set_child True h2 y (rb_left (h2 z));
                  h4 = set_parent h3 (rb_left (h3 y)) y in (set_color h4 y (rb_color (h4 z)), T2)) = (h', T')"
  shows "deleted h T c l z r h' T'"
proof -
  note rr = ready_replace[OF rd fin]
  have "inorder (plug c (Node l y r')) = ctx_pre c @ inorder l @ inorder r @ ctx_post c" using r by (simp add: inorder_plug)
  moreover have "set_tree r = insert y (set_tree r')" using r by (metis list.simps(15) set_inorder)
  then have "insert z (insert (rb_nil T1) (ctx_set c \<union> set_tree (Node l y r'))) = insert (rb_nil T) (set_tree (plug c (Node l z r)))"
    using h1(1) by (auto simp: set_tree_plug)
  then have "h' a = h a" if "a \<notin> insert (rb_nil T) (set_tree (plug c (Node l z r)))" for a
    using rr(4)[of a] h1(3)[OF that] that by simp
  moreover have "info (h' a) = info (h a)" for a using rr(3)[of a] info_data[OF h1(2)[of a]] by simp
  ultimately show ?thesis
    unfolding deleted_def using rr(1,2) h1(1) by (intro exI[of _ "plug c (Node l y r')"]) simp
qed

text \<open>The two ways to bring the successor \<open>y\<close> of \<open>z\<close> into position.\<close>

definition bring_up :: "'a heap \<Rightarrow> rb_tree \<Rightarrow> u64 \<Rightarrow> u64 \<Rightarrow> 'a heap \<times> rb_tree" where
  "bring_up h T z y =
     (if rb_parent (h y) = z then (set_parent h (rb_right (h y)) y, T)
      else let (h', T') = transplant h T y (rb_right (h y));
               h'' = set_child False h' y (rb_right (h' z))
           in (set_parent h'' (rb_right (h'' y)) y, T'))"

lemma bring_up_ready:
  assumes ok: "tree_ok h T (plug c (Node l z r))" and y: "plug cr (Node Leaf y yr) = r" "ctx_pre cr = []"
    and b: "bring_up h T z y = (h1, T1)"
  shows "\<exists>r'. ready h1 T1 c l z y r' \<and> inorder r = y # inorder r'" "rb_nil T1 = rb_nil T" "data (h1 a) = data (h a)"
    and "a \<notin> insert (rb_nil T) (set_tree (plug c (Node l z r))) \<Longrightarrow> h1 a = h a"
proof -
  let ?nil = "rb_nil T"
  define c0 where "c0 = cr @ (False, z, l) # c"
  have t0: "plug c (Node l z r) = plug c0 (Node Leaf y yr)" using y(1) by (simp add: c0_def plug_append)
  have ok0: "tree_ok h T (plug c0 (mk True Leaf y yr))" using ok t0 by simp
  have par: "rb_parent (h y) = ctx_parent z cr"
    using tree_ok_parent[OF ok0] by (simp add: c0_def ctx_append)
  have ir: "inorder r = y # inorder (plug cr yr)"
    using y inorder_plug[of cr "Node Leaf y yr"] inorder_plug[of cr yr] by simp
  have nil: "?nil \<notin> set_tree (plug c (Node l z r))" using ok shape_nil[of h] by (auto simp: tree_ok_def)
  have "distinct (inorder (Node l z r))" using ok inorder_plug_distinct[of c "Node l z r"] by (simp add: tree_ok_def)
  then have zr: "z \<notin> set_tree r" by simp
  have "(\<exists>r'. ready h1 T1 c l z y r' \<and> inorder r = y # inorder r') \<and> rb_nil T1 = ?nil \<and> data (h1 a) = data (h a) \<and>
      (a \<notin> insert ?nil (set_tree (plug c (Node l z r))) \<longrightarrow> h1 a = h a)"
  proof (cases cr rule: ctx_set.cases)
    case 1
    then have h1: "h1 = set_parent h (rb_right (h y)) y" "T1 = T" using b par by (simp_all add: bring_up_def)
    have r: "r = Node Leaf y yr" using y(1) 1 by simp
    have "rb_right (h y) = root_ptr ?nil yr" using tree_ok_child(2)[OF ok0] by simp
    then have "rb_right (h y) = ?nil \<or> rb_right (h y) \<in> set_tree yr" by (cases yr) auto
    then have "h1 a = h a" if "a \<notin> insert ?nil (set_tree (plug c (Node l z r)))"
      using that r by (auto simp: h1 set_parent_def set_tree_plug)
    then show ?thesis using ready_direct(1)[of h T c l z y yr] ok r h1 by auto
  next
    case (2 e q s cr')
    have "set_tree (plug cr (Node Leaf y yr)) = ctx_set cr \<union> insert y (set_tree yr)" by (simp add: set_tree_plug)
    then have "q \<in> set_tree r" using y(1) 2 by simp
    then have ne: "rb_parent (h y) \<noteq> z" using par zr 2 by auto
    obtain h0 T0 where tp: "transplant h T y (rb_right (h y)) = (h0, T0)" by fastforce
    have tp': "transplant h T y (child (\<not> True) (h y)) = (h0, T0)" using tp by simp
    note t = transplant_tree[OF ok0 tp']
    have t1: "plug c0 yr = plug c (Node l z (plug cr yr))" by (simp add: c0_def plug_append)
    define h2 where "h2 = set_child False h0 y (rb_right (h0 z))"
    have h1: "h1 = set_parent h2 (rb_right (h2 y)) y" "T1 = T0"
      using b ne tp by (simp_all add: bring_up_def h2_def Let_def)
    have dy: "y \<notin> set_tree (plug c0 yr)" "y \<noteq> ?nil"
      using ok0 inorder_plug_distinct[of c0 "Node Leaf y yr"] tree_ok_child(3)[OF ok0] by (auto simp: tree_ok_def set_tree_plug)
    have rd: "ready h1 T1 c l z y (plug cr yr)"
      using ready_deep[of h0 T0 c l z "plug cr yr" y h2 h1] t(1,2) dy h1 h2_def by (simp add: t1)
    have rt: "rb_right (h0 z) = ?nil \<or> rb_right (h0 z) \<in> set_tree (plug c0 yr)"
    proof -
      have "rb_right (h0 z) = root_ptr ?nil (plug cr yr)"
        using tree_ok_child(2)[of h0 T0 c True l z "plug cr yr"] t(1,2) t1 by simp
      then show ?thesis unfolding t1 set_tree_plug by (cases "plug cr yr") auto
    qed
    have sub: "insert y (set_tree (plug c0 yr)) = set_tree (plug c (Node l z r))" unfolding t0 by (auto simp: set_tree_plug)
    have "h1 a = h a" if "a \<notin> insert ?nil (set_tree (plug c (Node l z r)))"
    proof -
      have a: "a \<notin> set_tree (plug c0 yr)" "a \<noteq> ?nil" "a \<noteq> y" using that sub by auto
      moreover have "a \<noteq> rb_right (h0 z)" using a rt by auto
      ultimately show ?thesis using t(4)[of a] by (simp add: h1 h2_def set_parent_def set_child_def)
    qed
    moreover have "data (h1 a) = data (h a)" using t(3)[of a] by (simp add: h1 h2_def)
    ultimately show ?thesis using rd ir t(2) h1(2) by auto
  qed
  then show "\<exists>r'. ready h1 T1 c l z y r' \<and> inorder r = y # inorder r'" "rb_nil T1 = ?nil" "data (h1 a) = data (h a)"
    "a \<notin> insert ?nil (set_tree (plug c (Node l z r))) \<Longrightarrow> h1 a = h a" by blast+
qed

lemma rbtree_delete_unfold:
  assumes "rb_left (h z) \<noteq> rb_nil T" "rb_right (h z) \<noteq> rb_nil T" "tree_min h T (rb_right (h z)) = Some y"
    and "bring_up h T z y = (h1, T1)"
  shows "rbtree_delete h T z = Some (let (h2, T2) = transplant h1 T1 z y; h3 = set_child True h2 y (rb_left (h2 z));
           h4 = set_parent h3 (rb_left (h3 y)) y in (set_color h4 y (rb_color (h4 z)), T2))"
  using assms(1-3) assms(4)[unfolded bring_up_def]
  by (simp add: rbtree_delete_def case_prod_beta Let_def)

lemma rbtree_delete_spec:
  assumes ok: "tree_ok h T (plug c (Node l z r))"
  shows "\<exists>h' T'. rbtree_delete h T z = Some (h', T') \<and> deleted h T c l z r h' T'"
proof -
  let ?nil = "rb_nil T"
  have zc: "rb_left (h z) = root_ptr ?nil l" "rb_right (h z) = root_ptr ?nil r"
    using tree_ok_child(1,2)[of h T c True l z r] ok by simp_all
  have "?nil \<notin> set_tree (plug c (Node l z r))" using ok shape_nil[of h] by (auto simp: tree_ok_def)
  then have "?nil \<notin> set_tree l" "?nil \<notin> set_tree r" by (simp_all add: set_tree_plug)
  then have nonleaf: "root_ptr ?nil l = ?nil \<longleftrightarrow> l = Leaf" "root_ptr ?nil r = ?nil \<longleftrightarrow> r = Leaf"
    by (cases l; cases r; auto)+
  consider "l = Leaf" | "l \<noteq> Leaf" "r = Leaf" | "l \<noteq> Leaf" "r \<noteq> Leaf" by blast
  then show ?thesis
  proof cases
    case 1
    obtain h' T' where tp: "transplant h T z (child (\<not> True) (h z)) = (h', T')" by fastforce
    have "rbtree_delete h T z = Some (h', T')" using 1 tp zc by (simp add: rbtree_delete_def)
    then show ?thesis using deleted_one[of h T c True z r h' T' l r] ok 1 tp by simp
  next
    case 2
    obtain h' T' where tp: "transplant h T z (child (\<not> False) (h z)) = (h', T')" by fastforce
    have "rbtree_delete h T z = Some (h', T')" using 2 tp zc nonleaf by (simp add: rbtree_delete_def)
    then show ?thesis using deleted_one[of h T c False z l h' T' l r] ok 2 tp by simp
  next
    case 3
    obtain rl ra rr where r: "r = Node rl ra rr" using 3 by (cases r) auto
    have "shape h ?nil z (rb_right (h z)) (Node rl ra rr)" using ok r by (simp add: tree_ok_def shape_plug)
    then obtain cr y yr where y: "plug cr (Node Leaf y yr) = r" "tree_min h T (rb_right (h z)) = Some y" "ctx_pre cr = []"
      using tree_min_ctx r by blast
    obtain h1 T1 where b: "bring_up h T z y = (h1, T1)" by fastforce
    note br = bring_up_ready[OF ok y(1,3) b]
    obtain r' where r': "ready h1 T1 c l z y r'" "inorder r = y # inorder r'" using br(1) by blast
    obtain h' T' where fin: "(let (h2, T2) = transplant h1 T1 z y; h3 = set_child True h2 y (rb_left (h2 z));
                  h4 = set_parent h3 (rb_left (h3 y)) y in (set_color h4 y (rb_color (h4 z)), T2)) = (h', T')" by fastforce
    have "rbtree_delete h T z = Some (h', T')"
      using rbtree_delete_unfold[OF _ _ y(2) b] 3 zc nonleaf fin by simp
    then show ?thesis using deleted_two[OF r'(1) br(2,3,4) r'(2) fin] by blast
  qed
qed

end
