(* ===== verification/Cfs.thy ===== *)
theory Cfs
  imports Rbtree
begin

section \<open>The fair scheduler\<close>

text \<open>
  The run queue of \<open>kernel/arch/x86_64/cfs.c\<close> over the red-black tree. A pointer to a task is
  its address, \<open>NULL\<close> is 0. The results are options: \<open>None\<close> is a loop in the tree that does
  not end or a division by zero. The spin locks are left out.
\<close>

record cfs_rq =
  rq_tasks :: rb_tree
  rq_curr :: u64
  rq_idle :: u64
  min_vruntime :: u64
  exec_clock :: u64
  nr_running :: u32
  nr_tasks :: u32

record cfs_state =
  cf_heap :: task_heap
  cf_sentinel :: u64
  cf_initialized :: bool
  cf_global :: cfs_rq
  cf_jiffies :: u64

definition CFS_NICE_MIN :: int where "CFS_NICE_MIN = - 20"
definition CFS_NICE_MAX :: int where "CFS_NICE_MAX = 19"
definition CFS_NICE_0_LOAD :: u64 where "CFS_NICE_0_LOAD = 1024"
definition CFS_TARGET_LATENCY :: u64 where "CFS_TARGET_LATENCY = 2000000"
definition CFS_MIN_GRANULARITY :: u64 where "CFS_MIN_GRANULARITY = 1000000"
definition CFS_TICK_NSEC :: u64 where "CFS_TICK_NSEC = 1000000"

definition nice_to_weight :: "u64 list" where
  "nice_to_weight = [88761, 71755, 56483, 46273, 36291, 29154, 23254, 18705, 14949, 11916,
     9548, 7620, 6100, 4904, 3906, 3121, 2501, 1991, 1586, 1277,
     1024, 820, 655, 526, 423, 335, 272, 215, 172, 137,
     110, 87, 70, 56, 45, 36, 29, 23, 18, 15]"

definition cfs_nice_to_weight :: "int \<Rightarrow> u64" where
  "cfs_nice_to_weight n =
     (let n1 = (if n < CFS_NICE_MIN then CFS_NICE_MIN else n);
          n2 = (if n1 > CFS_NICE_MAX then CFS_NICE_MAX else n1)
      in nice_to_weight ! nat (n2 - CFS_NICE_MIN))"

definition empty_rq :: "rb_tree \<Rightarrow> cfs_rq" where
  "empty_rq T = \<lparr>rq_tasks = T, rq_curr = 0, rq_idle = 0, min_vruntime = 0, exec_clock = 0,
     nr_running = 0, nr_tasks = 0\<rparr>"

definition cfs_rq_init :: "cfs_state \<Rightarrow> cfs_state \<times> cfs_rq" where
  "cfs_rq_init st =
     (let (i, h, T) = rbtree_init (cf_sentinel st) (cf_initialized st) (cf_heap st)
      in (st\<lparr>cf_heap := h, cf_initialized := i\<rparr>, empty_rq T))"

definition cfs_init :: "cfs_state \<Rightarrow> cfs_state" where
  "cfs_init st =
     (let (i, h, T) = rbtree_init (cf_sentinel st) (cf_initialized st) (cf_heap st)
      in st\<lparr>cf_heap := h, cf_initialized := i, cf_global := empty_rq T\<rparr>)"

definition cfs_task_init :: "cfs_state \<Rightarrow> u64 \<Rightarrow> int \<Rightarrow> cfs_state" where
  "cfs_task_init st task n =
     (let zero = \<lparr>rb_parent = 0, rb_left = 0, rb_right = 0, rb_color = 0, vruntime = 0, exec_start = 0,
                  sum_exec_runtime = 0, prev_sum_exec_runtime = 0, nice = 0, load_weight = 0, on_rq = 0,
                  task_state = 0\<rparr>;
          h1 = (cf_heap st)(task := zero);
          (i, h2, T) = rbtree_init (cf_sentinel st) (cf_initialized st) h1;
          rq = (cf_global st)\<lparr>rq_tasks := T\<rparr>;
          h3 = h2(task := (h2 task)\<lparr>nice := n, load_weight := cfs_nice_to_weight n,
                                    vruntime := min_vruntime rq, on_rq := 0\<rparr>)
      in st\<lparr>cf_heap := h3, cf_initialized := i, cf_global := rq\<rparr>)"

definition cfs_enqueue_task :: "task_heap \<Rightarrow> cfs_rq \<Rightarrow> u64 \<Rightarrow> (task_heap \<times> cfs_rq) option" where
  "cfs_enqueue_task h rq task =
     (if on_rq (h task) \<noteq> 0 then Some (h, rq)
      else let lo = min_vruntime rq - CFS_TARGET_LATENCY * 4;
               h1 = (if vruntime (h task) < lo then h(task := (h task)\<lparr>vruntime := lo\<rparr>) else h)
        in case rbtree_insert h1 (rq_tasks rq) task of
             None \<Rightarrow> None
           | Some (h2, T) \<Rightarrow>
               Some (h2(task := (h2 task)\<lparr>on_rq := 1\<rparr>),
                     rq\<lparr>rq_tasks := T, nr_running := nr_running rq + 1, nr_tasks := nr_tasks rq + 1\<rparr>))"

definition cfs_dequeue_task :: "task_heap \<Rightarrow> cfs_rq \<Rightarrow> u64 \<Rightarrow> (task_heap \<times> cfs_rq) option" where
  "cfs_dequeue_task h rq task =
     (if on_rq (h task) = 0 then Some (h, rq)
      else case rbtree_delete h (rq_tasks rq) task of
          None \<Rightarrow> None
        | Some (h1, T) \<Rightarrow>
            Some (h1(task := (h1 task)\<lparr>on_rq := 0\<rparr>), rq\<lparr>rq_tasks := T, nr_running := nr_running rq - 1\<rparr>))"

definition cfs_pick_next_task :: "task_heap \<Rightarrow> cfs_rq \<Rightarrow> u64 option" where
  "cfs_pick_next_task h rq =
     map_option (\<lambda>node. case node of None \<Rightarrow> rq_idle rq | Some task \<Rightarrow> task) (rbtree_min h (rq_tasks rq))"

definition cfs_account_exec :: "task_heap \<Rightarrow> cfs_rq \<Rightarrow> u64 \<Rightarrow> u64 \<Rightarrow> (task_heap \<times> cfs_rq) option" where
  "cfs_account_exec h rq task delta_ns =
     (let w = load_weight (h task) in
      if w \<noteq> CFS_NICE_0_LOAD \<and> w = 0 then None
      else let delta_exec = (if w \<noteq> CFS_NICE_0_LOAD then delta_ns * CFS_NICE_0_LOAD div w else delta_ns)
        in Some (h(task := (h task)\<lparr>vruntime := vruntime (h task) + delta_exec,
                                    sum_exec_runtime := sum_exec_runtime (h task) + delta_ns\<rparr>),
                 rq\<lparr>exec_clock := exec_clock rq + delta_ns\<rparr>))"

definition cfs_update_min_vruntime :: "task_heap \<Rightarrow> cfs_rq \<Rightarrow> cfs_rq option" where
  "cfs_update_min_vruntime h rq =
     map_option (\<lambda>node.
        let rq1 = (case node of
                     None \<Rightarrow> rq
                   | Some task \<Rightarrow> if vruntime (h task) > min_vruntime rq
                                  then rq\<lparr>min_vruntime := vruntime (h task)\<rparr> else rq)
        in if rq_curr rq1 \<noteq> 0 \<and> vruntime (h (rq_curr rq1)) > min_vruntime rq1
           then rq1\<lparr>min_vruntime := vruntime (h (rq_curr rq1))\<rparr> else rq1)
       (rbtree_min h (rq_tasks rq))"

text \<open>
  The body of the test for a preemption is empty in the source, so the slice and the next
  task are computed without effect.
\<close>

definition cfs_scheduler_tick :: "task_heap \<Rightarrow> cfs_rq \<Rightarrow> u64 \<Rightarrow> (u64 \<times> task_heap \<times> cfs_rq) option" where
  "cfs_scheduler_tick h rq jiffies =
     (if rq_curr rq = 0 then Some (jiffies + 1, h, rq)
      else case cfs_account_exec h rq (rq_curr rq) CFS_TICK_NSEC of
          None \<Rightarrow> None
        | Some (h1, rq1) \<Rightarrow>
            (case cfs_pick_next_task h1 rq1 of
               None \<Rightarrow> None
             | Some _ \<Rightarrow> map_option (\<lambda>rq2. (jiffies + 1, h1, rq2)) (cfs_update_min_vruntime h1 rq1)))"

definition cfs_get_rq :: "cfs_state \<Rightarrow> cfs_rq" where
  "cfs_get_rq st = cf_global st"

subsection \<open>Invariants\<close>

text \<open>
  \<open>rq_ok\<close>: the tree holds the tasks in the order of their virtual run times, exactly the
  tasks marked \<open>on_rq\<close>, and \<open>nr_running\<close> counts them. \<open>rq_rb\<close>: it is a red-black tree with a
  black root.
\<close>

definition rq_ok :: "task_heap \<Rightarrow> cfs_rq \<Rightarrow> u64 tree \<Rightarrow> bool" where
  "rq_ok h rq t \<longleftrightarrow> tree_ok h (rq_tasks rq) t \<and> keys_sorted h (inorder t) \<and>
     (\<forall>a. a \<noteq> rb_nil (rq_tasks rq) \<longrightarrow> (on_rq (h a) \<noteq> 0 \<longleftrightarrow> a \<in> set_tree t)) \<and>
     nr_running rq = of_nat (size t)"

definition rq_rb :: "task_heap \<Rightarrow> cfs_rq \<Rightarrow> u64 tree \<Rightarrow> bool" where
  "rq_rb h rq t \<longleftrightarrow> (\<exists>m. rbt (red h) m t) \<and> \<not> root_red (red h) t \<and> \<not> red h (rb_nil (rq_tasks rq))"

fun enqueue_all :: "task_heap \<Rightarrow> cfs_rq \<Rightarrow> u64 list \<Rightarrow> (task_heap \<times> cfs_rq) option" where
  "enqueue_all h rq [] = Some (h, rq)"
| "enqueue_all h rq (a # as) =
     (case cfs_enqueue_task h rq a of None \<Rightarrow> None | Some (h', rq') \<Rightarrow> enqueue_all h' rq' as)"

lemma info_vruntime: "info m = info n \<Longrightarrow> vruntime m = vruntime n \<and> on_rq m = on_rq n"
proof -
  assume "info m = info n"
  then have "vruntime (info m) = vruntime (info n)" "on_rq (info m) = on_rq (info n)" by simp_all
  then show ?thesis by (simp add: info_def data_def)
qed

lemma keys_sorted_cong:
  "(\<And>a. a \<in> set xs \<Longrightarrow> vruntime (h' a) = vruntime (h a)) \<Longrightarrow> keys_sorted h' xs = keys_sorted h xs"
  by (metis (no_types, lifting) map_cong node_key_def)

lemma tree_ok_links:
  assumes "tree_ok h T t" "\<And>a. a \<in> set_tree t \<Longrightarrow> same_links h h' a"
  shows "tree_ok h' T t"
  using assms shape_cong[of t h h'] by (simp add: tree_ok_def)

lemma cfs_enqueue_spec:
  assumes ok: "rq_ok h rq t" and rb: "rq_rb h rq t" and task: "task \<noteq> rb_nil (rq_tasks rq)" "on_rq (h task) = 0"
  obtains h' rq' t' xs ys where "cfs_enqueue_task h rq task = Some (h', rq')" "rq_ok h' rq' t'" "rq_rb h' rq' t'"
    "inorder t = xs @ ys" "inorder t' = xs @ task # ys" "rb_nil (rq_tasks rq') = rb_nil (rq_tasks rq)"
    "\<And>a. a \<noteq> task \<Longrightarrow> vruntime (h' a) = vruntime (h a) \<and> on_rq (h' a) = on_rq (h a)"
proof -
  let ?T = "rq_tasks rq"
  define lo where "lo = min_vruntime rq - CFS_TARGET_LATENCY * 4"
  define h1 where "h1 = (if vruntime (h task) < lo then h(task := (h task)\<lparr>vruntime := lo\<rparr>) else h)"
  have nt: "task \<notin> set_tree t" using ok task by (auto simp: rq_ok_def)
  have out1: "h1 a = h a" if "a \<noteq> task" for a using that by (simp add: h1_def)
  have on1: "on_rq (h1 a) = on_rq (h a)" and col1: "red h1 a = red h a" for a by (simp_all add: h1_def)
  have ok0: "tree_ok h ?T t" "keys_sorted h (inorder t)" using ok by (simp_all add: rq_ok_def)
  have in1: "h1 a = h a" if "a \<in> set_tree t" for a using that nt by (intro out1) auto
  have ok1: "tree_ok h1 ?T t" by (rule tree_ok_outside[OF ok0(1) in1])
  have srt1: "keys_sorted h1 (inorder t)"
    using ok0(2) keys_sorted_cong[of "inorder t" h1 h] in1 by simp
  have red1: "red h1 = red h" using col1 by (simp add: fun_eq_iff)
  obtain m where m: "rbt (red h1) m t" "\<not> root_red (red h1) t" "\<not> red h1 (rb_nil ?T)"
    using rb col1[of "rb_nil ?T"] unfolding rq_rb_def by (simp only: red1) blast
  obtain h2 T2 t' n xs ys where ins: "rbtree_insert h1 ?T task = Some (h2, T2)" "tree_ok h2 T2 t'" "inorder t = xs @ ys"
      "inorder t' = xs @ task # ys" "\<forall>x\<in>set xs. node_key h1 x \<le> node_key h1 task" "\<forall>y\<in>set ys. node_key h1 task < node_key h1 y"
      "rbt (red h2) n t'" "\<not> root_red (red h2) t'" "rb_nil T2 = rb_nil ?T" "\<And>a. info (h2 a) = info (h1 a)"
      "\<And>a. a \<notin> insert task (set_tree t) \<Longrightarrow> h2 a = h1 a"
    by (rule rbtree_insert_spec[OF ok1 m(1,2,3) nt task(1) srt1]) (rule that)
  define h' where "h' = h2(task := (h2 task)\<lparr>on_rq := 1\<rparr>)"
  define rq' where "rq' = rq\<lparr>rq_tasks := T2, nr_running := nr_running rq + 1, nr_tasks := nr_tasks rq + 1\<rparr>"
  have enq: "cfs_enqueue_task h rq task = Some (h', rq')"
    unfolding cfs_enqueue_task_def Let_def lo_def[symmetric] h1_def[symmetric] using task(2) ins(1) by (simp add: h'_def rq'_def)
  have key': "vruntime (h' a) = vruntime (h1 a)" for a
    using info_vruntime[OF ins(10)[of a]] by (cases "a = task") (simp_all add: h'_def)
  have on': "on_rq (h' a) = (if a = task then 1 else on_rq (h a))" for a
    using info_vruntime[OF ins(10)[of a]] on1 by (cases "a = task") (simp_all add: h'_def)
  have set': "set_tree t' = insert task (set_tree t)" using ins(3,4) by (metis Un_insert_right list.simps(15) set_append set_inorder)
  have col': "red h' = red h2" by (auto simp: h'_def fun_eq_iff)
  have "tree_ok h' T2 t'" using ins(2) by (rule tree_ok_links) (simp add: h'_def same_links_def)
  moreover have "keys_sorted h' (inorder t')"
  proof -
    have "keys_sorted h1 (xs @ task # ys)"
      using srt1 ins(3,5,6) by (auto simp: sorted_append less_imp_le)
    then show ?thesis using keys_sorted_cong[of "inorder t'" h' h1] key' ins(4) by simp
  qed
  moreover have "size t' = Suc (size t)"
    using arg_cong[OF ins(4), of length] arg_cong[OF ins(3), of length] by simp
  ultimately have "rq_ok h' rq' t'"
    using ok on' set' ins(9) by (auto simp: rq_ok_def rq'_def)
  moreover have "rq_rb h' rq' t'"
  proof -
    have "\<not> red h2 (rb_nil ?T)"
      using ins(11)[of "rb_nil ?T"] task(1) m(3) ok shape_nil[of h] by (auto simp: rq_ok_def tree_ok_def)
    then have "\<not> red h' (rb_nil ?T)" using fun_cong[OF col', of "rb_nil ?T"] by simp
    then show ?thesis unfolding rq_rb_def col' using ins(7,8,9) by (auto simp: rq'_def)
  qed
  moreover have "vruntime (h' a) = vruntime (h a) \<and> on_rq (h' a) = on_rq (h a)" if "a \<noteq> task" for a
    using key'[of a] on'[of a] out1[OF that] that by simp
  moreover have "rb_nil (rq_tasks rq') = rb_nil ?T" using ins(9) by (simp add: rq'_def)
  ultimately show thesis using enq ins(3,4) by (intro that[of h' rq' t' xs ys])
qed

lemma tree_split: "a \<in> set_tree t \<Longrightarrow> \<exists>c l r. t = plug c (Node l a r)"
proof (induction t)
  case (Node l b r)
  then consider "a = b" | "a \<in> set_tree l" | "a \<in> set_tree r" by auto
  then show ?case
  proof cases
    case 1
    then show ?thesis by (intro exI[of _ "[]"]) simp
  next
    case 2
    then obtain c l' r' where "l = plug c (Node l' a r')" using Node.IH(1) by blast
    then have "Node l b r = plug (c @ [(True, b, r)]) (Node l' a r')" by (simp add: plug_append)
    then show ?thesis by blast
  next
    case 3
    then obtain c l' r' where "r = plug c (Node l' a r')" using Node.IH(2) by blast
    then have "Node l b r = plug (c @ [(False, b, l)]) (Node l' a r')" by (simp add: plug_append)
    then show ?thesis by blast
  qed
qed simp

lemma cfs_dequeue_spec:
  assumes ok: "rq_ok h rq t" and task: "task \<in> set_tree t"
  obtains h' rq' t' where "cfs_dequeue_task h rq task = Some (h', rq')" "rq_ok h' rq' t'" "inorder t' = remove1 task (inorder t)"
proof -
  let ?T = "rq_tasks rq"
  have ok0: "tree_ok h ?T t" "keys_sorted h (inorder t)" "distinct (inorder t)" using ok by (simp_all add: rq_ok_def tree_ok_def)
  have nil: "rb_nil ?T \<notin> set_tree t" using ok0(1) shape_nil[of h] by (auto simp: tree_ok_def)
  then have tn: "task \<noteq> rb_nil ?T" using task by auto
  then have on: "on_rq (h task) \<noteq> 0" using ok task by (simp add: rq_ok_def)
  obtain c l r where t: "t = plug c (Node l task r)" using tree_split[OF task] by blast
  obtain h1 T1 where del: "rbtree_delete h ?T task = Some (h1, T1)" "deleted h ?T c l task r h1 T1"
    using rbtree_delete_spec ok0(1) t by blast
  then obtain t' where t': "tree_ok h1 T1 t'" "inorder t' = ctx_pre c @ inorder l @ inorder r @ ctx_post c"
      "rb_nil T1 = rb_nil ?T" "\<And>a. info (h1 a) = info (h a)"
    unfolding deleted_def by blast
  define h' where "h' = h1(task := (h1 task)\<lparr>on_rq := 0\<rparr>)"
  define rq' where "rq' = rq\<lparr>rq_tasks := T1, nr_running := nr_running rq - 1\<rparr>"
  have deq: "cfs_dequeue_task h rq task = Some (h', rq')"
    using on del(1) by (simp add: cfs_dequeue_task_def h'_def rq'_def)
  have key': "vruntime (h' a) = vruntime (h a)" for a
    using info_vruntime[OF t'(4)[of a]] by (cases "a = task") (simp_all add: h'_def)
  have on': "on_rq (h' a) = (if a = task then 0 else on_rq (h a))" for a
    using info_vruntime[OF t'(4)[of a]] by (simp add: h'_def)
  have it: "inorder t = ctx_pre c @ inorder l @ task # inorder r @ ctx_post c" using t by (simp add: inorder_plug)
  have rem: "inorder t' = remove1 task (inorder t)"
    using ok0(3) unfolding it t'(2) by (simp add: remove1_append)
  have set': "set_tree t' = set_tree t - {task}"
    using rem ok0(3) by (metis set_inorder set_remove1_eq)
  have "keys_sorted h (inorder t')"
    using ok0(2) unfolding t'(2) it by (auto simp: sorted_append)
  then have "keys_sorted h' (inorder t')" using keys_sorted_cong[of "inorder t'" h' h] key' by simp
  moreover have "tree_ok h' T1 t'" using t'(1) by (rule tree_ok_links) (simp add: h'_def same_links_def)
  moreover have "size t = Suc (size t')"
    using arg_cong[OF it, of length] arg_cong[OF t'(2), of length] by simp
  ultimately have "rq_ok h' rq' t'"
    using ok on' set' t'(3) by (auto simp: rq_ok_def rq'_def)
  then show thesis using deq rem by (intro that[of h' rq' t'])
qed

lemma cfs_pick_spec:
  assumes "rq_ok h rq t"
  shows "cfs_pick_next_task h rq = Some (case inorder t of [] \<Rightarrow> rq_idle rq | a # _ \<Rightarrow> a)"
    and "inorder t = a # as \<Longrightarrow> b \<in> set_tree t \<Longrightarrow> vruntime (h a) \<le> vruntime (h b)"
proof -
  have ok: "tree_ok h (rq_tasks rq) t" "keys_sorted h (inorder t)" using assms by (simp_all add: rq_ok_def)
  show "cfs_pick_next_task h rq = Some (case inorder t of [] \<Rightarrow> rq_idle rq | a # _ \<Rightarrow> a)"
    using rbtree_min_spec[OF ok(1)] by (simp add: cfs_pick_next_task_def split: list.splits)
  assume a: "inorder t = a # as" and b: "b \<in> set_tree t"
  then have "b \<in> set (a # as)" by (metis set_inorder)
  then show "vruntime (h a) \<le> vruntime (h b)" using ok(2) a by (auto simp: node_key_def)
qed

lemma rq_rb_height:
  assumes "rq_rb h rq t"
  shows "2 ^ height t \<le> (size t + 1) ^ 2"
  using assms rbt_height_size by (auto simp: rq_rb_def)

lemma enqueue_all_spec:
  assumes "rq_ok h rq t" "rq_rb h rq t" "rb_nil (rq_tasks rq) \<notin> set as" "distinct as" "\<And>a. a \<in> set as \<Longrightarrow> on_rq (h a) = 0"
  shows "\<exists>h' rq' t'. enqueue_all h rq as = Some (h', rq') \<and> rq_ok h' rq' t' \<and> rq_rb h' rq' t' \<and>
    set_tree t' = set_tree t \<union> set as \<and> size t' = size t + length as"
  using assms
proof (induction as arbitrary: h rq t)
  case (Cons a as)
  obtain h1 rq1 t1 xs ys where e: "cfs_enqueue_task h rq a = Some (h1, rq1)" "rq_ok h1 rq1 t1" "rq_rb h1 rq1 t1"
    "inorder t = xs @ ys" "inorder t1 = xs @ a # ys" "rb_nil (rq_tasks rq1) = rb_nil (rq_tasks rq)"
    "\<And>b. b \<noteq> a \<Longrightarrow> vruntime (h1 b) = vruntime (h b) \<and> on_rq (h1 b) = on_rq (h b)"
    using Cons.prems by (elim cfs_enqueue_spec[of h rq t a]) auto
  have "set_tree t1 = insert a (set_tree t)" using e(4,5) by (metis Un_insert_right list.simps(15) set_append set_inorder)
  moreover have "size t1 = Suc (size t)"
    using arg_cong[OF e(4), of length] arg_cong[OF e(5), of length] by simp
  moreover have "on_rq (h1 b) = 0" if "b \<in> set as" for b
  proof -
    have "b \<noteq> a" using Cons.prems(4) that by auto
    then show ?thesis using e(7) Cons.prems(5)[of b] that by simp
  qed
  ultimately show ?case
    using Cons.IH[OF e(2,3)] Cons.prems(3,4) e(1,6) by auto
qed auto

lemma empty_rq_ok:
  assumes "rb_root T = rb_nil T" "\<And>a. a \<noteq> rb_nil T \<Longrightarrow> on_rq (h a) = 0" "rb_color (h (rb_nil T)) = 0"
  shows "rq_ok h (empty_rq T) Leaf" "rq_rb h (empty_rq T) Leaf"
  using assms by (auto simp: rq_ok_def rq_rb_def empty_rq_def tree_ok_def)

subsection \<open>Properties\<close>

text \<open>
  C11. The run queue of the fair scheduler is a queue ordered by virtual run time. From every
  search tree ordered by the keys, \<open>cfs_dequeue_task\<close> of a queued task ends and removes exactly that
  task, and \<open>cfs_pick_next_task\<close> returns a queued task with the least virtual run time, or the
  idle task when the queue is empty. From a red-black tree, \<open>cfs_enqueue_task\<close> of a task that is not queued
  ends and puts the task behind those that do not exceed its key, and the tree is a red-black
  tree again. Removing a task keeps the order but not the colours (\<open>rbtree_delete_red_root\<close>), so the
  last part need not apply any more after a removal.
\<close>

theorem cfs_refines_ordered_queue:
  assumes "rq_ok h rq t" "task \<noteq> rb_nil (rq_tasks rq)"
  shows "(rq_rb h rq t \<and> on_rq (h task) = 0 \<longrightarrow>
      (\<exists>h' rq' t' xs ys. cfs_enqueue_task h rq task = Some (h', rq') \<and> rq_ok h' rq' t' \<and> rq_rb h' rq' t' \<and>
         inorder t = xs @ ys \<and> inorder t' = xs @ task # ys)) \<and>
    (on_rq (h task) \<noteq> 0 \<longrightarrow>
      (\<exists>h' rq' t'. cfs_dequeue_task h rq task = Some (h', rq') \<and> rq_ok h' rq' t' \<and>
         inorder t' = remove1 task (inorder t))) \<and>
    (\<exists>a. cfs_pick_next_task h rq = Some a \<and>
       (if t = Leaf then a = rq_idle rq else a \<in> set_tree t \<and> (\<forall>b\<in>set_tree t. vruntime (h a) \<le> vruntime (h b))))"
proof (intro conjI impI)
  assume "rq_rb h rq t \<and> on_rq (h task) = 0"
  then show "\<exists>h' rq' t' xs ys. cfs_enqueue_task h rq task = Some (h', rq') \<and> rq_ok h' rq' t' \<and> rq_rb h' rq' t' \<and>
         inorder t = xs @ ys \<and> inorder t' = xs @ task # ys"
    using cfs_enqueue_spec[OF assms(1) _ assms(2)] by metis
next
  assume "on_rq (h task) \<noteq> 0"
  then have "task \<in> set_tree t" using assms by (simp add: rq_ok_def)
  then show "\<exists>h' rq' t'. cfs_dequeue_task h rq task = Some (h', rq') \<and> rq_ok h' rq' t' \<and>
         inorder t' = remove1 task (inorder t)"
    using cfs_dequeue_spec[OF assms(1)] by metis
next
  show "\<exists>a. cfs_pick_next_task h rq = Some a \<and>
       (if t = Leaf then a = rq_idle rq else a \<in> set_tree t \<and> (\<forall>b\<in>set_tree t. vruntime (h a) \<le> vruntime (h b)))"
  proof (cases "inorder t")
    case Nil
    then have "t = Leaf" by (cases t) simp_all
    then show ?thesis using cfs_pick_spec(1)[OF assms(1)] by simp
  next
    case (Cons a as)
    then have "t \<noteq> Leaf" "a \<in> set_tree t" by (auto simp: set_inorder[symmetric] simp del: set_inorder)
    then show ?thesis using cfs_pick_spec[OF assms(1)] Cons by simp
  qed
qed

definition idle_heap :: task_heap where
  "idle_heap = (\<lambda>_. \<lparr>rb_parent = 0, rb_left = 0, rb_right = 0, rb_color = 0, vruntime = 0, exec_start = 0,
     sum_exec_runtime = 0, prev_sum_exec_runtime = 0, nice = 0, load_weight = 1024, on_rq = 0, task_state = 0\<rparr>)"

theorem cfs_refines_ordered_queue_witness:
  "\<exists>h' rq' t'. cfs_enqueue_task idle_heap (empty_rq \<lparr>rb_root = 0x10, rb_nil = 0x10\<rparr>) 0x100 = Some (h', rq') \<and>
     rq_ok h' rq' t' \<and> inorder t' = [0x100]"
proof -
  let ?T = "\<lparr>rb_root = 0x10, rb_nil = 0x10 :: u64\<rparr>"
  have "rq_ok idle_heap (empty_rq ?T) Leaf" "rq_rb idle_heap (empty_rq ?T) Leaf"
    by (rule empty_rq_ok; simp add: idle_heap_def)+
  moreover have "(0x100 :: u64) \<noteq> rb_nil (rq_tasks (empty_rq ?T))" by (simp add: empty_rq_def)
  moreover have "on_rq (idle_heap 0x100) = 0" by (simp add: idle_heap_def)
  ultimately obtain h' rq' t' xs ys where
    "cfs_enqueue_task idle_heap (empty_rq ?T) 0x100 = Some (h', rq')" "rq_ok h' rq' t'"
    "inorder (Leaf :: u64 tree) = xs @ ys" "inorder t' = xs @ 0x100 # ys"
    using cfs_refines_ordered_queue[of idle_heap "empty_rq ?T" Leaf "0x100"] by metis
  then show ?thesis by auto
qed

text \<open>
  Starting from the empty run queue, any sequence of tasks can be enqueued: no loop in the
  tree runs forever, the queue holds exactly these tasks in order, and the height of the
  tree stays logarithmic, so each operation follows at most \<open>2 log (n + 1)\<close> pointers.
\<close>

theorem cfs_tree_stays_balanced:
  assumes "rb_root T = rb_nil T" "rb_color (h (rb_nil T)) = 0" "\<And>a. a \<noteq> rb_nil T \<Longrightarrow> on_rq (h a) = 0"
    and "rb_nil T \<notin> set as" "distinct as"
  shows "\<exists>h' rq' t. enqueue_all h (empty_rq T) as = Some (h', rq') \<and> rq_ok h' rq' t \<and> set_tree t = set as \<and>
    2 ^ height t \<le> (length as + 1) ^ 2"
proof -
  have e: "rq_ok h (empty_rq T) Leaf" "rq_rb h (empty_rq T) Leaf"
    using assms(1,2,3) by (intro empty_rq_ok; blast)+
  have nil: "rb_nil (rq_tasks (empty_rq T)) \<notin> set as" using assms(4) by (simp add: empty_rq_def)
  have off: "on_rq (h a) = 0" if "a \<in> set as" for a using assms(3,4) that by metis
  obtain h' rq' t' where r: "enqueue_all h (empty_rq T) as = Some (h', rq')" "rq_ok h' rq' t'" "rq_rb h' rq' t'"
    "set_tree t' = set_tree (Leaf :: u64 tree) \<union> set as" "size t' = size (Leaf :: u64 tree) + length as"
    using enqueue_all_spec[OF e nil assms(5) off] by blast
  show ?thesis using r rq_rb_height[OF r(3)] by auto
qed

theorem cfs_tree_stays_balanced_witness:
  "\<exists>h' rq' t. enqueue_all idle_heap (empty_rq \<lparr>rb_root = 0x10, rb_nil = 0x10\<rparr>) [0x100, 0x200, 0x300] = Some (h', rq') \<and>
     rq_ok h' rq' t \<and> set_tree t = {0x100, 0x200, 0x300}"
  using cfs_tree_stays_balanced[of "\<lparr>rb_root = 0x10, rb_nil = 0x10\<rparr>" idle_heap "[0x100, 0x200, 0x300]"]
  by (fastforce simp: idle_heap_def)

subsection \<open>Divergences\<close>

text \<open>
  On a new run queue the lower bound \<open>min_vruntime - 4 * CFS_TARGET_LATENCY\<close> wraps around: a
  task with virtual run time 0 gets one close to \<open>2 ^ 64\<close>.
\<close>

lemma cfs_enqueue_wraps:
  assumes "on_rq (h task) = 0" "vruntime (h task) = 0" "min_vruntime rq = 0"
  shows "cfs_enqueue_task h rq task =
    (case rbtree_insert (h(task := (h task)\<lparr>vruntime := - 8000000\<rparr>)) (rq_tasks rq) task of
       None \<Rightarrow> None
     | Some (h2, T) \<Rightarrow> Some (h2(task := (h2 task)\<lparr>on_rq := 1\<rparr>),
         rq\<lparr>rq_tasks := T, nr_running := nr_running rq + 1, nr_tasks := nr_tasks rq + 1\<rparr>))"
proof -
  have "(0 :: u64) < - 8000000" by (simp add: word_neq_0_conv[symmetric])
  then show ?thesis using assms by (simp add: cfs_enqueue_task_def CFS_TARGET_LATENCY_def)
qed

text \<open>\<open>cfs_task_init\<close> empties the global run queue.\<close>

lemma cfs_task_init_empties_queue:
  "rb_root (rq_tasks (cf_global (cfs_task_init st task n))) = cf_sentinel st"
  by (simp add: cfs_task_init_def rbtree_init_def Let_def)

text \<open>
  \<open>rbtree_delete\<close> has no repair step: deleting a black root with one red child leaves a red
  root. The next insertion below it finds a red parent whose parent is the sentinel, and
  reads the colour of the sentinel's child, a null pointer.
\<close>

lemma rbtree_delete_red_root:
  assumes ok: "tree_ok h T (Node Leaf z (Node Leaf y Leaf))" and y: "red h y"
  shows "\<exists>h' T'. rbtree_delete h T z = Some (h', T') \<and> rb_root T' = y \<and> red h' y \<and> rb_parent (h' y) = rb_nil T"
proof -
  have p: "rb_left (h z) = rb_nil T" "rb_right (h z) = y" "rb_parent (h z) = rb_nil T" "y \<noteq> rb_nil T"
    using ok by (simp_all add: tree_ok_def)
  then show ?thesis
    using y by (simp add: rbtree_delete_def transplant_def relink_def set_parent_def)
qed

lemma fixup_reads_null:
  assumes "rb_parent (h z) = y" "rb_parent (h y) = nil" "rb_left (h nil) = 0" "rb_right (h nil) = 0"
  shows "child d (h (rb_parent (h (rb_parent (h z))))) = 0"
  using assms by (cases d) simp_all

text \<open>
  The accounting changes the key of the running task, which \<open>cfs_pick_next_task\<close> left in the
  tree, without moving it.
\<close>

lemma cfs_account_changes_key:
  assumes "load_weight (h task) = CFS_NICE_0_LOAD"
  shows "\<exists>h' rq'. cfs_account_exec h rq task delta = Some (h', rq') \<and> rq_tasks rq' = rq_tasks rq \<and>
    node_key h' task = node_key h task + delta"
  using assms by (simp add: cfs_account_exec_def Let_def node_key_def)

end
