(* ===== verification/Kapi_Rbtree.thy ===== *)
theory Kapi_Rbtree
  imports Rbtree Kapi_Sort
begin

section \<open>The red-black tree of the K API\<close>

text \<open>
  \<open>kernel/api/kapi_rbtree.c\<close>. The nodes have the links and the colour of \<open>rb_node\<close>, 0 is
  \<open>NULL\<close>, and \<open>kapi_rb_root_t\<close>, whose only field is the root pointer, is that pointer. The
  caller's comparison \<open>cmp\<close> takes the addresses of two nodes. As in \<open>Rbtree\<close>, the mirrored halves
  of the code are one definition with a direction, \<open>True\<close> being the half that is written
  first. The memory is total, so a read through \<open>NULL\<close> gives an unknown node; the theorems
  hold for every contents of address 0 and none of the operations writes there.
\<close>

definition KAPI_RB_RED :: int where "KAPI_RB_RED = 0"
definition KAPI_RB_BLACK :: int where "KAPI_RB_BLACK = 1"

definition kapi_rb_rotate :: "bool \<Rightarrow> 'a heap \<Rightarrow> u64 \<Rightarrow> u64 \<Rightarrow> 'a heap \<times> u64" where
  "kapi_rb_rotate d h root node =
     (let y = child (\<not> d) (h node);
          parent = rb_parent (h node);
          h1 = set_child (\<not> d) h node (child d (h y));
          h2 = (if child (\<not> d) (h1 node) \<noteq> 0 then set_parent h1 (child d (h1 y)) node else h1);
          h3 = set_child d h2 y node;
          h4 = set_parent h3 y parent;
          (h5, root') =
            (if parent \<noteq> 0
             then (if node = child d (h4 parent) then set_child d h4 parent y else set_child (\<not> d) h4 parent y, root)
             else (h4, y))
      in (set_parent h5 node y, root'))"

definition kapi_rb_rotate_left :: "'a heap \<Rightarrow> u64 \<Rightarrow> u64 \<Rightarrow> 'a heap \<times> u64" where
  "kapi_rb_rotate_left h root node = kapi_rb_rotate True h root node"

definition kapi_rb_rotate_right :: "'a heap \<Rightarrow> u64 \<Rightarrow> u64 \<Rightarrow> 'a heap \<times> u64" where
  "kapi_rb_rotate_right h root node = kapi_rb_rotate False h root node"

subsection \<open>Insertion\<close>

text \<open>The pointer \<open>link\<close> to the place of the new node: \<open>&root->root\<close> or a child field.\<close>

datatype link = Root_Link | Child_Link bool u64

fun link_get :: "'a heap \<Rightarrow> u64 \<Rightarrow> link \<Rightarrow> u64" where
  "link_get h root Root_Link = root"
| "link_get h root (Child_Link d a) = child d (h a)"

fun link_put :: "'a heap \<Rightarrow> u64 \<Rightarrow> link \<Rightarrow> u64 \<Rightarrow> 'a heap \<times> u64" where
  "link_put h root Root_Link v = (h, v)"
| "link_put h root (Child_Link d a) v = (set_child d h a v, root)"

partial_function (option) kapi_rb_descend ::
  "(u64 \<Rightarrow> u64 \<Rightarrow> int) \<Rightarrow> 'a heap \<Rightarrow> u64 \<Rightarrow> u64 \<Rightarrow> u64 \<Rightarrow> link \<Rightarrow> (u64 \<times> link) option" where
  "kapi_rb_descend cmp h root node parent link =
     (if link_get h root link \<noteq> 0
      then let parent' = link_get h root link
           in kapi_rb_descend cmp h root node parent' (Child_Link (cmp node parent' < 0) parent')
      else Some (parent, link))"

text \<open>The body of the loop with the parent on side \<open>e\<close> of the grandparent: the new \<open>node\<close> and \<open>parent\<close>.\<close>

definition kapi_insert_side ::
  "bool \<Rightarrow> 'a heap \<Rightarrow> u64 \<Rightarrow> u64 \<Rightarrow> u64 \<Rightarrow> 'a heap \<times> u64 \<times> u64 \<times> u64" where
  "kapi_insert_side e h root node parent =
     (let gparent = rb_parent (h parent);
          uncle = child (\<not> e) (h gparent) in
      if uncle \<noteq> 0 \<and> rb_color (h uncle) = KAPI_RB_RED
      then let h1 = set_color h uncle KAPI_RB_BLACK;
               h2 = set_color h1 parent KAPI_RB_BLACK;
               h3 = set_color h2 gparent KAPI_RB_RED
           in (h3, root, gparent, rb_parent (h3 gparent))
      else let (h1, root1, node1, parent1) =
                 (if node = child (\<not> e) (h parent)
                  then let (h', root') = kapi_rb_rotate e h root parent in (h', root', parent, node)
                  else (h, root, node, parent));
               h2 = set_color h1 parent1 KAPI_RB_BLACK;
               h3 = set_color h2 gparent KAPI_RB_RED;
               (h4, root4) = kapi_rb_rotate (\<not> e) h3 root1 gparent
           in (h4, root4, node1, parent1))"

partial_function (option) kapi_insert_loop :: "'a heap \<Rightarrow> u64 \<Rightarrow> u64 \<Rightarrow> u64 \<Rightarrow> ('a heap \<times> u64) option" where
  "kapi_insert_loop h root node parent =
     (if parent \<noteq> 0 \<and> rb_color (h parent) = KAPI_RB_RED
      then (case kapi_insert_side (parent = rb_left (h (rb_parent (h parent)))) h root node parent of
              (h', root', node', parent') \<Rightarrow> kapi_insert_loop h' root' node' parent')
      else Some (set_color h root KAPI_RB_BLACK, root))"

definition kapi_rb_insert ::
  "(u64 \<Rightarrow> u64 \<Rightarrow> int) \<Rightarrow> 'a heap \<Rightarrow> u64 \<Rightarrow> u64 \<Rightarrow> ('a heap \<times> u64) option" where
  "kapi_rb_insert cmp h root node =
     (case kapi_rb_descend cmp h root node 0 Root_Link of
        None \<Rightarrow> None
      | Some (parent, link) \<Rightarrow>
          let h1 = h(node := (h node)\<lparr>rb_left := 0, rb_right := 0, rb_parent := parent, rb_color := KAPI_RB_RED\<rparr>);
              (h2, root2) = link_put h1 root link node
          in kapi_insert_loop h2 root2 node parent)"

subsection \<open>Removal\<close>

text \<open>
  The lines that put \<open>child\<close> in the place of \<open>node\<close> below \<open>parent\<close>; \<open>kapi_rb_erase\<close> has them
  twice. The third use, for the node that is replaced by its successor, leaves the child alone.
\<close>

definition kapi_relink :: "'a heap \<Rightarrow> u64 \<Rightarrow> u64 \<Rightarrow> u64 \<Rightarrow> u64 \<Rightarrow> 'a heap \<times> u64" where
  "kapi_relink h root node parent v =
     (if parent \<noteq> 0
      then (if rb_left (h parent) = node then set_child True h parent v else set_child False h parent v, root)
      else (h, v))"

definition kapi_splice :: "'a heap \<Rightarrow> u64 \<Rightarrow> u64 \<Rightarrow> u64 \<Rightarrow> u64 \<Rightarrow> 'a heap \<times> u64" where
  "kapi_splice h root node parent v =
     (let h1 = (if v \<noteq> 0 then set_parent h v parent else h) in kapi_relink h1 root node parent v)"

partial_function (option) kapi_leftmost :: "'a heap \<Rightarrow> u64 \<Rightarrow> u64 option" where
  "kapi_leftmost h node = (if rb_left (h node) \<noteq> 0 then kapi_leftmost h (rb_left (h node)) else Some node)"

text \<open>The successor \<open>node\<close> takes the links and the colour of \<open>old\<close>.\<close>

definition kapi_take_place :: "'a heap \<Rightarrow> u64 \<Rightarrow> u64 \<Rightarrow> u64 \<Rightarrow> 'a heap \<times> u64" where
  "kapi_take_place h root old node =
     (let h1 = set_parent h node (rb_parent (h old));
          h2 = set_color h1 node (rb_color (h1 old));
          h3 = set_child False h2 node (rb_right (h2 old));
          h4 = set_child True h3 node (rb_left (h3 old));
          (h5, root5) = kapi_relink h4 root old (rb_parent (h4 old)) node;
          h6 = set_parent h5 (rb_left (h5 old)) node
      in (if rb_right (h6 old) \<noteq> 0 then set_parent h6 (rb_right (h6 old)) node else h6, root5))"

text \<open>What is unlinked before the colours are repaired: \<open>child\<close>, \<open>parent\<close>, \<open>color\<close>.\<close>

definition kapi_unlink :: "'a heap \<Rightarrow> u64 \<Rightarrow> u64 \<Rightarrow> ('a heap \<times> u64 \<times> u64 \<times> u64 \<times> int) option" where
  "kapi_unlink h root node =
     (if rb_left (h node) = 0 \<or> rb_right (h node) = 0
      then let v = (if rb_left (h node) = 0 then rb_right (h node) else rb_left (h node));
               parent = rb_parent (h node);
               color = rb_color (h node);
               (h1, root1) = kapi_splice h root node parent v
           in Some (h1, root1, v, parent, color)
      else case kapi_leftmost h (rb_right (h node)) of
          None \<Rightarrow> None
        | Some y \<Rightarrow>
            let v = rb_right (h y);
                parent = rb_parent (h y);
                color = rb_color (h y);
                (h1, root1) = kapi_splice h root y parent v;
                parent' = (if rb_parent (h1 y) = node then y else parent);
                (h2, root2) = kapi_take_place h1 root1 node y
            in Some (h2, root2, v, parent', color))"

definition kapi_black :: "'a heap \<Rightarrow> u64 \<Rightarrow> bool" where
  "kapi_black h a \<longleftrightarrow> a = 0 \<or> rb_color (h a) = KAPI_RB_BLACK"

text \<open>
  The body of the loop for a child on side \<open>e\<close>, from the test of the children of the sibling on
  and from its start. The first component says that the loop goes on; otherwise it is left by
  \<open>break\<close> with the root as the child.
\<close>

definition kapi_erase_black ::
  "bool \<Rightarrow> 'a heap \<Rightarrow> u64 \<Rightarrow> u64 \<Rightarrow> u64 \<Rightarrow> bool \<times> 'a heap \<times> u64 \<times> u64 \<times> u64" where
  "kapi_erase_black e h1 root1 parent sibling1 =
     (if kapi_black h1 (child e (h1 sibling1)) \<and> kapi_black h1 (child (\<not> e) (h1 sibling1))
      then let h2 = set_color h1 sibling1 KAPI_RB_RED
           in (True, h2, root1, parent, rb_parent (h2 parent))
      else let (h2, root2, sibling2) =
                 (if kapi_black h1 (child (\<not> e) (h1 sibling1))
                  then let h' = set_color h1 (child e (h1 sibling1)) KAPI_RB_BLACK;
                           h'' = set_color h' sibling1 KAPI_RB_RED;
                           (h3, root3) = kapi_rb_rotate (\<not> e) h'' root1 sibling1
                       in (h3, root3, child (\<not> e) (h3 parent))
                  else (h1, root1, sibling1));
               h4 = set_color h2 sibling2 (rb_color (h2 parent));
               h5 = set_color h4 parent KAPI_RB_BLACK;
               h6 = (if child (\<not> e) (h5 sibling2) \<noteq> 0 then set_color h5 (child (\<not> e) (h5 sibling2)) KAPI_RB_BLACK else h5);
               (h7, root7) = kapi_rb_rotate e h6 root2 parent
           in (False, h7, root7, root7, parent))"

definition kapi_erase_side ::
  "bool \<Rightarrow> 'a heap \<Rightarrow> u64 \<Rightarrow> u64 \<Rightarrow> bool \<times> 'a heap \<times> u64 \<times> u64 \<times> u64" where
  "kapi_erase_side e h root parent =
     (let sibling = child (\<not> e) (h parent) in
      if rb_color (h sibling) = KAPI_RB_RED
      then let h' = set_color (set_color h sibling KAPI_RB_BLACK) parent KAPI_RB_RED;
               (h1, root1) = kapi_rb_rotate e h' root parent
           in kapi_erase_black e h1 root1 parent (child (\<not> e) (h1 parent))
      else kapi_erase_black e h root parent sibling)"

definition kapi_erase_exit :: "'a heap \<Rightarrow> u64 \<Rightarrow> u64 \<Rightarrow> 'a heap \<times> u64" where
  "kapi_erase_exit h root v = (if v \<noteq> 0 then set_color h v KAPI_RB_BLACK else h, root)"

partial_function (option) kapi_erase_loop :: "'a heap \<Rightarrow> u64 \<Rightarrow> u64 \<Rightarrow> u64 \<Rightarrow> ('a heap \<times> u64) option" where
  "kapi_erase_loop h root v parent =
     (if v \<noteq> root \<and> kapi_black h v
      then (case kapi_erase_side (v = rb_left (h parent)) h root parent of
              (go, h', root', v', parent') \<Rightarrow>
                if go then kapi_erase_loop h' root' v' parent' else Some (kapi_erase_exit h' root' v'))
      else Some (kapi_erase_exit h root v))"

definition kapi_rb_erase :: "'a heap \<Rightarrow> u64 \<Rightarrow> u64 \<Rightarrow> ('a heap \<times> u64) option" where
  "kapi_rb_erase h root node =
     (case kapi_unlink h root node of
        None \<Rightarrow> None
      | Some (h1, root1, v, parent, color) \<Rightarrow>
          if color = KAPI_RB_BLACK then kapi_erase_loop h1 root1 v parent else Some (h1, root1))"

subsection \<open>Searching\<close>

partial_function (option) kapi_find_loop ::
  "(u64 \<Rightarrow> u64 \<Rightarrow> int) \<Rightarrow> 'a heap \<Rightarrow> u64 \<Rightarrow> u64 \<Rightarrow> u64 option" where
  "kapi_find_loop cmp h key node =
     (if node \<noteq> 0
      then let c = cmp key node in
        if c < 0 then kapi_find_loop cmp h key (rb_left (h node))
        else if c > 0 then kapi_find_loop cmp h key (rb_right (h node))
        else Some node
      else Some 0)"

definition kapi_rb_find :: "(u64 \<Rightarrow> u64 \<Rightarrow> int) \<Rightarrow> 'a heap \<Rightarrow> u64 \<Rightarrow> u64 \<Rightarrow> u64 option" where
  "kapi_rb_find cmp h root key = kapi_find_loop cmp h key root"

definition kapi_rb_first :: "'a heap \<Rightarrow> u64 \<Rightarrow> u64 option" where
  "kapi_rb_first h root = (if root = 0 then Some 0 else kapi_leftmost h root)"

partial_function (option) kapi_climb :: "'a heap \<Rightarrow> u64 \<Rightarrow> u64 \<Rightarrow> u64 option" where
  "kapi_climb h node nxt =
     (if nxt \<noteq> 0 \<and> node = rb_right (h nxt) then kapi_climb h nxt (rb_parent (h nxt)) else Some nxt)"

definition kapi_rb_next :: "'a heap \<Rightarrow> u64 \<Rightarrow> u64 option" where
  "kapi_rb_next h node =
     (if rb_right (h node) \<noteq> 0 then kapi_leftmost h (rb_right (h node))
      else kapi_climb h node (rb_parent (h node)))"

subsection \<open>Rotations\<close>

text \<open>
  The tree without a sentinel is a tree of \<open>Rbtree\<close> whose \<open>nil\<close> is the null pointer. On a tree
  the rotation, which writes in another order, does what the one of \<open>cfs.c\<close> does.
\<close>

abbreviation ktree :: "u64 \<Rightarrow> rb_tree" where
  "ktree root \<equiv> \<lparr>rb_root = root, rb_nil = 0\<rparr>"

lemma set_commute:
  "set_child d (set_parent h a v) a w = set_parent (set_child d h a w) a v"
  "a \<noteq> b \<Longrightarrow> set_child d (set_child e h b v) a w = set_child e (set_child d h a w) b v"
  by (auto simp: set_child_def set_parent_def fun_eq_iff)

lemma kapi_rotate_eq:
  assumes y: "child (\<not> d) (h x) = y" and p: "rb_parent (h x) = p" and b: "child d (h y) = b"
    and ne: "x \<noteq> y" "y \<noteq> p" "b \<noteq> x \<or> b = 0" "x \<noteq> p"
    and rot: "rotate d h (ktree root) x = (h', T')"
  shows "kapi_rb_rotate d h root x = (h', rb_root T')" "rb_nil T' = 0"
proof -
  define h1 where "h1 = set_child (\<not> d) h x b"
  define h2 where "h2 = (if b \<noteq> 0 then set_parent h1 b x else h1)"
  define h3 where "h3 = set_parent h2 y p"
  have b1: "child d (h1 y) = b" "child (\<not> d) (h1 x) = b" using ne(1) b by (simp_all add: h1_def)
  have p2: "rb_parent (h2 x) = p" using ne(3) p by (auto simp: h2_def h1_def)
  have p3: "rb_parent (h3 x) = p" using ne(1) p2 by (simp add: h3_def)
  have k3: "set_parent (set_child d h2 y x) y p = set_child d h3 y x"
    by (simp add: h3_def set_commute)
  have r: "(h', T') = (case relink d h3 (ktree root) x y of (h4, T4) \<Rightarrow> (set_parent (set_child d h4 y x) x y, T4))"
    using rot by (simp only: rotate_def Let_def rb_tree.simps y b h1_def[symmetric] b1 h2_def[symmetric] p2 h3_def[symmetric])
  have "kapi_rb_rotate d h root x =
      (let (h5, root') = (if p \<noteq> 0 then (if x = child d (set_child d h3 y x p) then set_child d (set_child d h3 y x) p y
                                     else set_child (\<not> d) (set_child d h3 y x) p y, root) else (set_child d h3 y x, y))
       in (set_parent h5 x y, root'))"
    by (simp only: kapi_rb_rotate_def Let_def y b p h1_def[symmetric] b1 h2_def[symmetric] k3)
  moreover have "child d (set_child d h3 y x p) = child d (h3 p)" using ne(2) by simp
  ultimately show "kapi_rb_rotate d h root x = (h', rb_root T')" "rb_nil T' = 0"
    using r p3 ne(2) by (auto simp: relink_def Let_def set_commute split: if_splits)
qed

lemma kapi_rotate_plug:
  assumes ok: "tree_ok h (ktree root) (plug c (mk d A x (mk d B y C)))" and rot: "kapi_rb_rotate d h root x = (h', root')"
  shows "tree_ok h' (ktree root') (plug c (mk d (mk d A x B) y C))" "data (h' a) = data (h a)"
    and "a \<notin> set_tree (plug c (mk d A x (mk d B y C))) \<Longrightarrow> h' a = h a"
proof -
  let ?t = "mk d A x (mk d B y C)"
  have dist: "distinct (inorder ?t)" "ctx_set c \<inter> set_tree ?t = {}"
    using ok inorder_plug_distinct[of c ?t] by (simp_all add: tree_ok_def)
  have ok1: "tree_ok h (ktree root) (plug ((\<not> d, x, A) # c) (mk d B y C))" using ok by (cases d) simp_all
  note x = tree_ok_child[OF ok] and y = tree_ok_child[OF ok1]
  have p: "rb_parent (h x) = ctx_parent 0 c" using tree_ok_parent[OF ok] by (cases d) simp_all
  have pc: "ctx_parent 0 c = 0 \<or> ctx_parent 0 c \<in> ctx_set c" by (cases c rule: ctx_set.cases) auto
  have bB: "root_ptr 0 B = 0 \<or> root_ptr 0 B \<in> set_tree B" by (cases B) auto
  have ne: "x \<noteq> y" "y \<noteq> ctx_parent 0 c" "root_ptr 0 B \<noteq> x \<or> root_ptr 0 B = 0" "x \<noteq> ctx_parent 0 c"
    using dist pc bB x(3) y(3) by (cases d; auto)+
  obtain h1 T1 where r: "rotate d h (ktree root) x = (h1, T1)" by fastforce
  note eq = kapi_rotate_eq[OF _ p _ ne r, simplified]
  have "h1 = h'" "rb_root T1 = root'" "rb_nil T1 = 0"
    using eq x(2) y(1) rot by auto
  then have T1: "h1 = h'" "T1 = ktree root'" by auto
  note rp = rotate_plug[OF ok r, unfolded T1]
  show "tree_ok h' (ktree root') (plug c (mk d (mk d A x B) y C))" by (rule rp(1))
  show "data (h' a) = data (h a)" by (rule rp(3))
  show "a \<notin> set_tree (plug c ?t) \<Longrightarrow> h' a = h a" by (rule rp(4))
qed

subsection \<open>Colours\<close>

abbreviation kred :: "'a heap \<Rightarrow> u64 \<Rightarrow> bool" where
  "kred h a \<equiv> rb_color (h a) = KAPI_RB_RED"

text \<open>Every node of the tree has one of the two colours.\<close>

definition coloured :: "'a heap \<Rightarrow> u64 tree \<Rightarrow> bool" where
  "coloured h t \<longleftrightarrow> (\<forall>a\<in>set_tree t. rb_color (h a) = KAPI_RB_RED \<or> rb_color (h a) = KAPI_RB_BLACK)"

lemma kapi_colours [simp]:
  "KAPI_RB_RED \<noteq> KAPI_RB_BLACK" "KAPI_RB_BLACK \<noteq> KAPI_RB_RED"
  by (simp_all add: KAPI_RB_RED_def KAPI_RB_BLACK_def)

lemma kred_set_color:
  "kred (set_color h a KAPI_RB_BLACK) = (kred h)(a := False)" "kred (set_color h a KAPI_RB_RED) = (kred h)(a := True)"
  by (auto simp: fun_eq_iff)

lemma kapi_black_root:
  assumes "coloured h t" "0 \<notin> set_tree t"
  shows "kapi_black h (root_ptr 0 t) \<longleftrightarrow> \<not> root_red (kred h) t"
  using assms by (cases t) (auto simp: kapi_black_def coloured_def)

text \<open>Two heaps of which the second came from the first by changes of links and colours in a tree.\<close>

definition repainted :: "'a heap \<Rightarrow> u64 tree \<Rightarrow> 'a heap \<Rightarrow> bool" where
  "repainted h t h' \<longleftrightarrow> (\<forall>a. info (h' a) = info (h a)) \<and> (\<forall>a. a \<notin> set_tree t \<longrightarrow> h' a = h a)"

lemma repainted_refl [simp]: "repainted h t h"
  by (simp add: repainted_def)

lemma repainted_trans:
  "repainted h t h1 \<Longrightarrow> repainted h1 t' h2 \<Longrightarrow> set_tree t' = set_tree t \<Longrightarrow> repainted h t h2"
  by (simp add: repainted_def)

lemma repainted_color: "repainted h t h1 \<Longrightarrow> a \<in> set_tree t \<Longrightarrow> repainted h t (set_color h1 a v)"
  by (auto simp: repainted_def set_color_def info_def data_def)

lemma coloured_color: "coloured h t \<Longrightarrow> v = KAPI_RB_RED \<or> v = KAPI_RB_BLACK \<Longrightarrow> coloured (set_color h a v) t"
  by (auto simp: coloured_def)

lemma kapi_rotate_repaints:
  assumes ok: "tree_ok h (ktree root) (plug c (mk d A x (mk d B y C)))" and rot: "kapi_rb_rotate d h root x = (h', root')"
  shows "repainted h (plug c (mk d A x (mk d B y C))) h'" "kred h' = kred h" "coloured h' t = coloured h t"
    and "inorder (plug c (mk d (mk d A x B) y C)) = inorder (plug c (mk d A x (mk d B y C)))"
proof -
  note r = kapi_rotate_plug[OF ok rot]
  have c: "rb_color (h' a) = rb_color (h a)" for a using data_eqD[OF r(2)] .
  show "repainted h (plug c (mk d A x (mk d B y C))) h'"
    unfolding repainted_def using info_data[OF r(2)] r(3) by blast
  show "kred h' = kred h" "coloured h' t = coloured h t" by (simp_all add: c coloured_def)
  show "inorder (plug c (mk d (mk d A x B) y C)) = inorder (plug c (mk d A x (mk d B y C)))"
    by (simp only: inorder_plug inorder_mk)
qed

text \<open>What a repair of the colours of the tree \<open>t\<close> achieves.\<close>

definition krbt :: "'a heap \<Rightarrow> u64 \<Rightarrow> u64 tree \<Rightarrow> bool" where
  "krbt h root t \<longleftrightarrow> tree_ok h (ktree root) t \<and> coloured h t \<and> \<not> root_red (kred h) t \<and> (\<exists>m. rbt (kred h) m t)"

definition repaired :: "'a heap \<Rightarrow> u64 tree \<Rightarrow> 'a heap \<Rightarrow> u64 \<Rightarrow> bool" where
  "repaired h t h' root' \<longleftrightarrow> repainted h t h' \<and> (\<exists>t'. krbt h' root' t' \<and> inorder t' = inorder t)"

lemma inorder_set_tree: "inorder t = inorder t' \<Longrightarrow> set_tree t = set_tree t'"
  by (metis set_inorder)

lemma repaired_trans:
  assumes "repainted h t h1" "repaired h1 t1 h' root'" "inorder t1 = inorder t"
  shows "repaired h t h' root'"
  using assms repainted_trans[of h t h1 t1 h'] inorder_set_tree[OF assms(3)]
  unfolding repaired_def by metis

lemma blacken_repaired:
  assumes ok: "tree_ok h (ktree root) t" "coloured h t" and rb: "rbt (kred h) m t" and t: "t \<noteq> Leaf"
  shows "repaired h t (set_color h root KAPI_RB_BLACK) root"
proof -
  obtain l a r where n: "t = Node l a r" using t by (cases t) auto
  have a: "root = a" using tree_ok_root[OF ok(1)] n by simp
  obtain k where "rbt ((kred h)(a := False)) k t"
    using blacken_root[of "kred h" m l a r] rb ok(1) n by (auto simp: tree_ok_def)
  then have "krbt (set_color h a KAPI_RB_BLACK) root t"
    unfolding krbt_def kred_set_color using ok(1) n coloured_color[OF ok(2), of KAPI_RB_BLACK a] by auto
  then show ?thesis
    unfolding repaired_def a using repainted_color[OF repainted_refl, of a t h KAPI_RB_BLACK] n a by auto
qed

subsection \<open>The repair after an insertion\<close>

lemma kapi_loop_exit:
  "par = 0 \<or> \<not> kred h par \<Longrightarrow> kapi_insert_loop h root z par = Some (set_color h root KAPI_RB_BLACK, root)"
  by (subst kapi_insert_loop.simps) auto

lemma plug_not_Leaf: "t \<noteq> Leaf \<Longrightarrow> plug c t \<noteq> Leaf"
proof
  assume "t \<noteq> Leaf" "plug c t = Leaf"
  then show False using set_tree_plug[of c t] by (cases t) auto
qed

lemma mk_not_Leaf [simp]: "mk d s a t \<noteq> Leaf" "Leaf \<noteq> mk d s a t"
  by (cases d; simp)+

lemma mk_flip: "mk (\<not> e) s a t = mk e t a s"
  by (cases e) simp_all

lemma kapi_insert_outer:
  assumes ok: "tree_ok h (ktree root) (plug c (mk e (mk e tz p s) g u))" "coloured h (plug c (mk e (mk e tz p s) g u))"
    and z: "rbt (kred h) n tz" and s: "rbt (kred h) n s" "\<not> root_red (kred h) s"
    and u: "rbt (kred h) n u" "\<not> root_red (kred h) u" and c: "rb_ctx (kred h) (Suc n) c"
    and rot: "kapi_rb_rotate (\<not> e) (set_color (set_color h p KAPI_RB_BLACK) g KAPI_RB_RED) root g = (h4, root4)"
  shows "\<exists>h'. kapi_insert_loop h4 root4 v p = Some (h', root4) \<and>
    repaired h (plug c (mk e (mk e tz p s) g u)) h' root4"
proof -
  let ?h = "set_color (set_color h p KAPI_RB_BLACK) g KAPI_RB_RED"
  let ?t = "plug c (mk e (mk e tz p s) g u)" and ?t' = "plug c (mk (\<not> e) (mk (\<not> e) u g s) p tz)"
  have ok2: "tree_ok ?h (ktree root) (plug c (mk (\<not> e) u g (mk (\<not> e) s p tz)))"
    using ok(1) by (simp add: mk_flip)
  note r = kapi_rotate_plug[OF ok2 rot] and q = kapi_rotate_repaints[OF ok2 rot]
  have flip: "plug c (mk (\<not> e) u g (mk (\<not> e) s p tz)) = ?t" by (simp add: mk_flip)
  have dist: "distinct (inorder ?t)" using ok by (simp add: tree_ok_def)
  then have pg: "p \<noteq> g" using inorder_plug_distinct[of c "mk e (mk e tz p s) g u"] by (cases e) auto
  have col: "kred h4 = (kred h)(p := False, g := True)"
    unfolding q(2) kred_set_color by simp
  obtain m where m: "rbt (kred h4) m ?t'" unfolding col using outer_rbt[OF dist z s u c] by blast
  have "p \<in> set_tree ?t" "g \<in> set_tree ?t" by (simp_all add: set_tree_plug)
  then have "repainted h ?t ?h"
    by (intro repainted_color repainted_refl)
  then have rp: "repainted h ?t h4" using q(1) repainted_trans unfolding flip by blast
  have io: "inorder ?t' = inorder ?t" using q(4) unfolding flip .
  have "set_tree ?t' = set_tree ?t" using inorder_set_tree[OF io] .
  then have "coloured h4 ?t'" using q(3)[of ?t'] coloured_color ok(2) by (simp add: coloured_def)
  then have "repaired h4 ?t' (set_color h4 root4 KAPI_RB_BLACK) root4"
    using blacken_repaired[OF r(1) _ m] plug_not_Leaf by simp
  then have "repaired h ?t (set_color h4 root4 KAPI_RB_BLACK) root4"
    using repaired_trans[OF rp _ io] by blast
  moreover have "\<not> kred h4 p" using fun_cong[OF col, of p] pg by simp
  then have "kapi_insert_loop h4 root4 v p = Some (set_color h4 root4 KAPI_RB_BLACK, root4)"
    by (intro kapi_loop_exit disjI2)
  ultimately show ?thesis by blast
qed

lemma kapi_insert_black_uncle:
  assumes ok: "tree_ok h (ktree root) (plug c (mk e (mk d (Node l z r) p s) g u))"
      "coloured h (plug c (mk e (mk d (Node l z r) p s) g u))"
    and z: "kred h z" "rbt (kred h) n (Node l z r)" and s: "rbt (kred h) n s" "\<not> root_red (kred h) s"
    and p: "kred h p" and u: "rbt (kred h) n u" "\<not> root_red (kred h) u" and c: "rb_ctx (kred h) (Suc n) c"
  shows "\<exists>h' root'. kapi_insert_loop h root z p = Some (h', root') \<and>
    repaired h (plug c (mk e (mk d (Node l z r) p s) g u)) h' root'"
proof -
  note f = fixup_pointers[OF ok(1), simplified]
  have "root_ptr 0 u = 0 \<or> \<not> kred h (root_ptr 0 u)" using u(2) by (cases u) simp_all
  then have un: "(root_ptr 0 u \<noteq> 0 \<and> kred h (root_ptr 0 u)) = False" by blast
  have unfold: "kapi_insert_loop h root z p =
      (case kapi_insert_side e h root z p of (h', root', z', p') \<Rightarrow> kapi_insert_loop h' root' z' p')"
    using p f by (subst kapi_insert_loop.simps) simp
  show ?thesis
  proof (cases "d = e")
    case True
    obtain h4 root4 where rot: "kapi_rb_rotate (\<not> e) (set_color (set_color h p KAPI_RB_BLACK) g KAPI_RB_RED) root g = (h4, root4)"
      by fastforce
    have "z \<noteq> child (\<not> e) (h p)" using f(5) True by simp
    then have "kapi_insert_side e h root z p = (h4, root4, z, p)"
      using rot unfolding kapi_insert_side_def Let_def f(2,4) un by simp
    then show ?thesis
      using kapi_insert_outer[OF ok[unfolded True] z(2) s u c rot] unfolding unfold True by fastforce
  next
    case False
    then have d: "d = (\<not> e)" by simp
    define B C where "B = (if e then l else r)" and "C = (if e then r else l)"
    have tz: "Node l z r = mk e B z C" by (simp add: B_def C_def mk_def)
    have t: "plug c (mk e (mk d (Node l z r) p s) g u) = plug ((e, g, u) # c) (mk e s p (mk e B z C))"
      unfolding d tz by (simp add: mk_flip)
    obtain h1 root1 where rot1: "kapi_rb_rotate e h root p = (h1, root1)" by fastforce
    note r1 = kapi_rotate_plug[OF ok(1)[unfolded t] rot1] and q1 = kapi_rotate_repaints[OF ok(1)[unfolded t] rot1]
    obtain h4 root4 where rot: "kapi_rb_rotate (\<not> e) (set_color (set_color h1 z KAPI_RB_BLACK) g KAPI_RB_RED) root1 g = (h4, root4)"
      by fastforce
    have "z = child (\<not> e) (h p)" using f(5) d by simp
    then have side: "kapi_insert_side e h root z p = (h4, root4, p, z)"
      using rot rot1 unfolding kapi_insert_side_def Let_def f(2,4) un by simp
    have "\<exists>h'. kapi_insert_loop h4 root4 p z = Some (h', root4) \<and>
        repaired h1 (plug c (mk e (mk e (mk e s p B) z C) g u)) h' root4"
    proof (rule kapi_insert_outer)
      show "tree_ok h1 (ktree root1) (plug c (mk e (mk e (mk e s p B) z C) g u))" using r1(1) by simp
      have "set_tree (plug c (mk e (mk e (mk e s p B) z C) g u)) = set_tree (plug c (mk e (mk d (Node l z r) p s) g u))"
        unfolding tz by (auto simp: set_tree_plug)
      then show "coloured h1 (plug c (mk e (mk e (mk e s p B) z C) g u))"
        using ok(2) q1(3) by (simp add: coloured_def)
      have zz: "rbt (kred h) n (mk e B z C)" using z(2) tz by simp
      show "rbt (kred h1) n (mk e s p B)" "rbt (kred h1) n C" "\<not> root_red (kred h1) C"
        unfolding q1(2) using zz z(1) p s by (simp_all split: if_splits)
      show "rbt (kred h1) n u" "\<not> root_red (kred h1) u" "rb_ctx (kred h1) (Suc n) c" unfolding q1(2) by (rule u c)+
    qed (rule rot)
    then obtain h' where res: "kapi_insert_loop h4 root4 p z = Some (h', root4)"
        "repaired h1 (plug c (mk e (mk e (mk e s p B) z C) g u)) h' root4" by blast
    have "repaired h (plug c (mk e (mk d (Node l z r) p s) g u)) h' root4"
    proof (rule repaired_trans[OF _ res(2)])
      show "repainted h (plug c (mk e (mk d (Node l z r) p s) g u)) h1" unfolding t by (rule q1(1))
      show "inorder (plug c (mk e (mk e (mk e s p B) z C) g u)) = inorder (plug c (mk e (mk d (Node l z r) p s) g u))"
        unfolding t using q1(4) by simp
    qed
    then show ?thesis unfolding unfold side using res(1) by simp
  qed
qed

lemma kapi_insert_repaired:
  assumes "tree_ok h (ktree root) (plug c (Node l z r))" "coloured h (plug c (Node l z r))" "kred h z"
    "rbt (kred h) n (Node l z r)" "rb_ctx (kred h) n c"
  shows "\<exists>h' root'. kapi_insert_loop h root z (ctx_parent 0 c) = Some (h', root') \<and> repaired h (plug c (Node l z r)) h' root'"
  using assms
proof (induction "length c" arbitrary: c h l z r n rule: less_induct)
  case less
  note ok = less.prems(1,2) and z = less.prems(3,4) and c = less.prems(5)
  have exit: ?case if ex: "ctx_parent 0 c = 0 \<or> \<not> kred h (ctx_parent 0 c)" and nr: "\<not> ctx_red (kred h) c"
  proof -
    obtain m where m: "rbt (kred h) m (plug c (Node l z r))" using rbt_plug[OF z(2) c] nr by blast
    have "kapi_insert_loop h root z (ctx_parent 0 c) = Some (set_color h root KAPI_RB_BLACK, root)"
      using ex by (rule kapi_loop_exit)
    then show ?thesis using blacken_repaired[OF ok m] plug_not_Leaf[of "Node l z r" c] by blast
  qed
  show ?case
  proof (cases c rule: ctx_set.cases)
    case 1
    then show ?thesis using exit by simp
  next
    case (2 d p s c1)
    show ?thesis
    proof (cases "kred h p")
      case False
      then show ?thesis using exit 2 by simp
    next
      case True
      then obtain e g u c2 where c1: "c1 = (e, g, u) # c2" using c 2 by (cases c1 rule: ctx_set.cases) auto
      have s: "rbt (kred h) n s" "\<not> root_red (kred h) s" and u: "rbt (kred h) n u" and c2: "rb_ctx (kred h) (Suc n) c2"
        using c 2 c1 True by auto
      have t: "plug c (Node l z r) = plug c2 (mk e (mk d (Node l z r) p s) g u)" "ctx_parent 0 c = p" using 2 c1 by simp_all
      note ok' = ok[unfolded t]
      note f = fixup_pointers[OF ok'(1), simplified]
      show ?thesis
      proof (cases "root_red (kred h) u")
        case False
        show ?thesis unfolding t by (rule kapi_insert_black_uncle[OF ok' z s True u False c2])
      next
        case red: True
        then obtain ul w ur where w: "u = Node ul w ur" "kred h w" by (cases u) auto
        let ?h = "set_color (set_color (set_color h w KAPI_RB_BLACK) p KAPI_RB_BLACK) g KAPI_RB_RED"
        define l' r' where "l' = (if e then mk d (Node l z r) p s else u)" and "r' = (if e then u else mk d (Node l z r) p s)"
        have node: "mk e (mk d (Node l z r) p s) g u = Node l' g r'" by (simp add: l'_def r'_def mk_def)
        have ok2: "tree_ok h (ktree root) (plug c2 (Node l' g r'))" "coloured h (plug c2 (Node l' g r'))"
          using ok' unfolding node by blast+
        have dd: "distinct (inorder (plug c2 (mk e (mk d (Node l z r) p s) g (Node ul w ur))))"
          using ok'(1) w(1) by (simp add: tree_ok_def)
        have "p \<noteq> w" using dd inorder_plug_distinct[of c2 "mk e (mk d (Node l z r) p s) g (Node ul w ur)"]
          by (cases e; cases d) auto
        then have col: "kred ?h = (kred h)(p := False, w := False, g := True)"
          unfolding kred_set_color by (simp add: fun_upd_twist)
        note rc = recolour_rbt[OF dd z(2) s(1) u[unfolded w(1)] w(2) c2, folded col]
        have "\<exists>h' root'. kapi_insert_loop ?h root g (ctx_parent 0 c2) = Some (h', root') \<and>
            repaired ?h (plug c2 (Node l' g r')) h' root'"
        proof (rule less.hyps)
          show "length c2 < length c" using 2 c1 by simp
          show "tree_ok ?h (ktree root) (plug c2 (Node l' g r'))" using ok2(1) by simp
          show "coloured ?h (plug c2 (Node l' g r'))" using ok2(2) by (intro coloured_color) simp_all
          show "kred ?h g" by simp
          show "rbt (kred ?h) (Suc n) (Node l' g r')" using rc(1) unfolding w(1)[symmetric] node .
          show "rb_ctx (kred ?h) (Suc n) c2" by (rule rc(2))
        qed
        then obtain h' root' where res: "kapi_insert_loop ?h root g (ctx_parent 0 c2) = Some (h', root')"
            "repaired ?h (plug c2 (Node l' g r')) h' root'" by blast
        have w0: "w \<noteq> 0" using ok'(1) shape_nil[of h 0 0 root "plug c2 (mk e (mk d (Node l z r) p s) g u)"] w(1)
          by (auto simp: tree_ok_def set_tree_plug)
        have gp: "rb_parent (h g) = ctx_parent 0 c2" using tree_ok_parent[OF ok2(1)] by simp
        have "kapi_insert_side e h root z p = (?h, root, g, ctx_parent 0 c2)"
          using w w0 gp unfolding kapi_insert_side_def Let_def f(2,4) by simp
        then have "kapi_insert_loop h root z p = kapi_insert_loop ?h root g (ctx_parent 0 c2)"
          using True f by (subst kapi_insert_loop.simps) simp
        moreover have "repaired h (plug c2 (Node l' g r')) h' root'"
        proof (rule repaired_trans[OF _ res(2) refl])
          have "g \<in> set_tree (plug c2 (Node l' g r'))" "p \<in> set_tree (plug c2 (Node l' g r'))" "w \<in> set_tree (plug c2 (Node l' g r'))"
            unfolding node[symmetric] using w(1) by (auto simp: set_tree_plug)
          then show "repainted h (plug c2 (Node l' g r')) ?h"
            by (intro repainted_color repainted_refl)
        qed
        ultimately show ?thesis using res(1) unfolding t node by simp
      qed
    qed
  qed
qed

subsection \<open>The order of the nodes\<close>

fun ctx_link :: "link \<Rightarrow> ctx \<Rightarrow> link" where
  "ctx_link k [] = k"
| "ctx_link k ((d, a, s) # c) = Child_Link d a"

lemma ctx_link_append: "ctx_link k (c @ c') = ctx_link (ctx_link k c') c"
  by (cases c rule: ctx_set.cases) simp_all

text \<open>
  The caller's comparison of nodes: a comparator as for the sorts, whose sign turns round with
  its arguments.
\<close>

locale tree_order = comparator carrier cmp
  for carrier :: "u64 set" and cmp :: "u64 \<Rightarrow> u64 \<Rightarrow> int" +
  assumes cmp_flip: "x \<in> carrier \<Longrightarrow> y \<in> carrier \<Longrightarrow> cmp x y < 0 \<longleftrightarrow> cmp y x > 0"
begin

abbreviation ordered :: "u64 list \<Rightarrow> bool" where
  "ordered \<equiv> sorted_wrt (\<lambda>a b. cmp a b \<le> 0)"

lemma not_less_le: "x \<in> carrier \<Longrightarrow> y \<in> carrier \<Longrightarrow> \<not> cmp x y < 0 \<Longrightarrow> cmp y x \<le> 0"
  using cmp_flip by force

lemma cmp_less_le_trans:
  assumes "x \<in> carrier" "y \<in> carrier" "z \<in> carrier" "cmp x y < 0" "cmp y z \<le> 0"
  shows "cmp x z < 0"
proof (rule ccontr)
  assume "\<not> cmp x z < 0"
  then have "cmp y x \<le> 0" using cmp_trans not_less_le assms by blast
  then show False using cmp_flip assms(1,2,4) by force
qed

lemma ordered_insert:
  assumes "ordered (xs @ ys)" "\<forall>x\<in>set xs. cmp x a \<le> 0" "\<forall>y\<in>set ys. cmp a y < 0"
  shows "ordered (xs @ a # ys)"
  using assms by (force simp: sorted_wrt_append)

lemma ordered_remove: "ordered (xs @ a # ys) \<Longrightarrow> ordered (xs @ ys)"
  by (simp add: sorted_wrt_append)

lemma descend_ctx:
  assumes "shape h 0 par (link_get h root k) t" "insert node (set_tree t) \<subseteq> carrier" "ordered (inorder t)"
  shows "\<exists>c. plug c Leaf = t \<and> kapi_rb_descend cmp h root node y k = Some (ctx_parent y c, ctx_link k c) \<and>
    (\<forall>q\<in>set (ctx_pre c). cmp q node \<le> 0) \<and> (\<forall>q\<in>set (ctx_post c). cmp node q < 0)"
  using assms
proof (induction t arbitrary: par k y)
  case Leaf
  then show ?case
    by (intro exI[of _ "[]"]) (simp add: kapi_rb_descend.simps)
next
  case (Node l a r)
  let ?d = "cmp node a < 0"
  let ?sub = "if ?d then l else r" and ?oth = "if ?d then r else l" and ?k = "Child_Link ?d a"
  have x: "link_get h root k = a" "a \<noteq> 0" using Node.prems(1) by simp_all
  have parts: "ordered (inorder l)" "ordered (inorder r)" "\<forall>q\<in>set_tree l. cmp q a \<le> 0" "\<forall>q\<in>set_tree r. cmp a q \<le> 0"
      and car: "node \<in> carrier" "a \<in> carrier" "set_tree l \<subseteq> carrier" "set_tree r \<subseteq> carrier"
    using Node.prems(2,3) by (auto simp: sorted_wrt_append)
  have "\<exists>c. plug c Leaf = ?sub \<and> kapi_rb_descend cmp h root node a ?k = Some (ctx_parent a c, ctx_link ?k c) \<and>
      (\<forall>q\<in>set (ctx_pre c). cmp q node \<le> 0) \<and> (\<forall>q\<in>set (ctx_post c). cmp node q < 0)"
  proof (cases ?d)
    case True
    then show ?thesis using Node.IH(1)[of a ?k a] Node.prems(1) parts car by simp
  next
    case False
    then show ?thesis using Node.IH(2)[of a ?k a] Node.prems(1) parts car by simp
  qed
  then obtain c where c: "plug c Leaf = ?sub" "kapi_rb_descend cmp h root node a ?k = Some (ctx_parent a c, ctx_link ?k c)"
      "\<forall>q\<in>set (ctx_pre c). cmp q node \<le> 0" "\<forall>q\<in>set (ctx_post c). cmp node q < 0" by blast
  let ?c = "c @ [(?d, a, ?oth)]"
  have "plug ?c Leaf = Node l a r" using c(1) by (simp add: plug_append)
  moreover have "kapi_rb_descend cmp h root node y k = Some (ctx_parent y ?c, ctx_link k ?c)"
    using c(2) x by (subst kapi_rb_descend.simps) (simp add: ctx_append ctx_link_append)
  moreover have "(\<forall>q\<in>set (ctx_pre ?c). cmp q node \<le> 0) \<and> (\<forall>q\<in>set (ctx_post ?c). cmp node q < 0)"
  proof (cases ?d)
    case True
    have "\<forall>q\<in>set_tree r. cmp node q < 0" using cmp_less_le_trans[of node a] parts(4) car True by blast
    then show ?thesis using c(3,4) True by (auto simp: ctx_append)
  next
    case False
    have an: "cmp a node \<le> 0" using not_less_le[OF car(1,2) False] .
    have "\<forall>q\<in>set_tree l. cmp q node \<le> 0" using cmp_trans[of _ a node] parts(3) car an by blast
    then show ?thesis using c(3,4) False an by (auto simp: ctx_append)
  qed
  ultimately show ?case by blast
qed

end

subsection \<open>Insertion\<close>

lemma link_put_plug:
  assumes ok: "tree_ok h (ktree root) (plug c Leaf)" and node: "node \<notin> ctx_set c" "node \<noteq> 0"
    and n: "rb_parent (h node) = ctx_parent 0 c" "rb_left (h node) = 0" "rb_right (h node) = 0"
    and put: "link_put h root (ctx_link Root_Link c) node = (h', root')"
  shows "tree_ok h' (ktree root') (plug c (Node Leaf node Leaf))" "data (h' a) = data (h a)" "a \<notin> ctx_set c \<Longrightarrow> h' a = h a"
proof -
  have sh: "shape_ctx h 0 root c 0" and d0: "distinct (inorder (plug c Leaf))"
    using ok by (simp_all add: tree_ok_def shape_plug)
  have dist: "distinct (inorder (plug c (Node Leaf node Leaf)))"
    using d0 node inorder_plug_distinct[of c "Node Leaf node Leaf"] by simp
  have "tree_ok h' (ktree root') (plug c (Node Leaf node Leaf)) \<and> data (h' a) = data (h a) \<and> (a \<notin> ctx_set c \<longrightarrow> h' a = h a)"
  proof (cases c rule: ctx_set.cases)
    case 1
    then show ?thesis using put n node by (auto simp: tree_ok_def)
  next
    case (2 e q s c')
    have r: "h' = set_child e h q node" "root' = root" using put 2 by auto
    have nq: "node \<noteq> q" using node(1) 2 by auto
    have "shape_ctx h' 0 root c node"
      unfolding r 2 using fill_ctx sh[unfolded 2] ctx_frame_distinct[OF d0[unfolded 2]] by blast
    moreover have "shape h' 0 (ctx_parent 0 c) node (Node Leaf node Leaf)"
      using n node(2) nq r by simp
    ultimately have "tree_ok h' (ktree root') (plug c (Node Leaf node Leaf))"
      using dist r(2) by (simp add: tree_ok_def shape_plug)
    moreover have "h' a = h a" if "a \<notin> ctx_set c" using that 2 r(1) by (auto simp: set_child_def)
    ultimately show ?thesis using r by simp
  qed
  then show "tree_ok h' (ktree root') (plug c (Node Leaf node Leaf))" "data (h' a) = data (h a)" "a \<notin> ctx_set c \<Longrightarrow> h' a = h a"
    by blast+
qed

lemma kapi_rb_insert_at:
  assumes t: "krbt h root (plug c Leaf)" and node: "node \<notin> ctx_set c" "node \<noteq> 0"
    and de: "kapi_rb_descend cmp h root node 0 Root_Link = Some (ctx_parent 0 c, ctx_link Root_Link c)"
  shows "\<exists>h' root' t'. kapi_rb_insert cmp h root node = Some (h', root') \<and> krbt h' root' t' \<and>
    inorder t' = ctx_pre c @ node # ctx_post c \<and> repainted h (plug c (Node Leaf node Leaf)) h'"
proof -
  let ?t = "plug c (Node Leaf node Leaf)"
  define h1 where "h1 = h(node := (h node)\<lparr>rb_left := 0, rb_right := 0, rb_parent := ctx_parent 0 c, rb_color := KAPI_RB_RED\<rparr>)"
  obtain h2 root2 where put: "link_put h1 root (ctx_link Root_Link c) node = (h2, root2)" by fastforce
  have t': "tree_ok h (ktree root) (plug c Leaf)" "coloured h (plug c Leaf)" "\<not> root_red (kred h) (plug c Leaf)"
    using t by (simp_all add: krbt_def)
  have "tree_ok h1 (ktree root) (plug c Leaf)"
    using node(1) by (intro tree_ok_outside[OF t'(1)]) (auto simp: h1_def set_tree_plug)
  note lp = link_put_plug[OF this node _ _ _ put]
  have n1: "rb_parent (h1 node) = ctx_parent 0 c" "rb_left (h1 node) = 0" "rb_right (h1 node) = 0" by (simp_all add: h1_def)
  have col: "rb_color (h2 a) = (if a = node then KAPI_RB_RED else rb_color (h a))" for a
    using data_eqD[OF lp(2)[OF n1, of a]] by (simp add: h1_def)
  have rp2: "repainted h ?t h2"
  proof -
    have "info (h2 a) = info (h a)" for a
      using info_data[OF lp(2)[OF n1, of a]] by (auto simp: h1_def info_def data_def)
    moreover have "h2 a = h a" if "a \<notin> set_tree ?t" for a
      using lp(3)[OF n1, of a] that by (auto simp: set_tree_plug h1_def)
    ultimately show ?thesis by (simp add: repainted_def)
  qed
  obtain m where "rbt (kred h) m (plug c Leaf)" using t by (auto simp: krbt_def)
  then obtain k where k: "rbt (kred h) k Leaf" "rb_ctx (kred h) k c"
    using rbt_plugD[of "kred h" m c Leaf] t'(3) by auto
  have "rb_ctx (kred h2) 0 c"
    using k node(1) col by (subst rb_ctx_cong[of c _ "kred h"]) auto
  moreover have "coloured h2 ?t" using t'(2) col by (auto simp: coloured_def set_tree_plug)
  ultimately obtain h' root' where lo: "kapi_insert_loop h2 root2 node (ctx_parent 0 c) = Some (h', root')" "repaired h2 ?t h' root'"
    using kapi_insert_repaired[OF lp(1)[OF n1], of 0] col by auto
  have "kapi_rb_insert cmp h root node = Some (h', root')"
    using de lo(1) put by (simp add: kapi_rb_insert_def h1_def)
  moreover have "inorder ?t = ctx_pre c @ node # ctx_post c" by (simp add: inorder_plug)
  ultimately show ?thesis
    using repaired_trans[OF rp2 lo(2) refl] unfolding repaired_def by metis
qed

context tree_order
begin

lemma kapi_rb_insert_spec:
  assumes "krbt h root t" "ordered (inorder t)" "node \<notin> set_tree t" "node \<noteq> 0" "insert node (set_tree t) \<subseteq> carrier"
  shows "\<exists>h' root' t' xs ys. kapi_rb_insert cmp h root node = Some (h', root') \<and> krbt h' root' t' \<and>
    inorder t = xs @ ys \<and> inorder t' = xs @ node # ys \<and> ordered (inorder t') \<and>
    (\<forall>x\<in>set xs. cmp x node \<le> 0) \<and> (\<forall>y\<in>set ys. cmp node y < 0) \<and>
    (\<forall>a. info (h' a) = info (h a)) \<and> (\<forall>a. a \<notin> insert node (set_tree t) \<longrightarrow> h' a = h a)"
proof -
  have "shape h 0 0 (link_get h root Root_Link) t" using assms(1) by (simp add: krbt_def tree_ok_def)
  then obtain c where c: "plug c Leaf = t" "kapi_rb_descend cmp h root node 0 Root_Link = Some (ctx_parent 0 c, ctx_link Root_Link c)"
      "\<forall>q\<in>set (ctx_pre c). cmp q node \<le> 0" "\<forall>q\<in>set (ctx_post c). cmp node q < 0"
    using descend_ctx[of h 0 root Root_Link t node 0] assms(2,5) by blast
  have cs: "ctx_set c = set_tree t" "inorder t = ctx_pre c @ ctx_post c"
    using c(1) set_tree_plug[of c Leaf] inorder_plug[of c Leaf] by auto
  obtain h' root' t' where r: "kapi_rb_insert cmp h root node = Some (h', root')" "krbt h' root' t'"
      "inorder t' = ctx_pre c @ node # ctx_post c" "repainted h (plug c (Node Leaf node Leaf)) h'"
    using kapi_rb_insert_at[of h root c node cmp] assms(1,3,4) c(1,2) cs(1) by auto
  moreover have "ordered (inorder t')"
    unfolding r(3) using ordered_insert assms(2) c(3,4) unfolding cs(2) by blast
  moreover have "set_tree (plug c (Node Leaf node Leaf)) = insert node (set_tree t)"
    using cs(1) by (simp add: set_tree_plug)
  ultimately show ?thesis using c(3,4) cs(2) unfolding repainted_def by metis
qed

end

subsection \<open>The repair after a removal, on trees\<close>

text \<open>
  A subtree that lacks one black node: with a red root it is right once the root is painted
  black; with a black root it is a red-black tree of a black height one too small.
\<close>

fun deficient :: "(u64 \<Rightarrow> bool) \<Rightarrow> nat \<Rightarrow> u64 tree \<Rightarrow> bool" where
  "deficient col n Leaf \<longleftrightarrow> n = 0"
| "deficient col n (Node l a r) \<longleftrightarrow>
     (if col a then rbt (col(a := False)) (Suc n) (Node l a r) else rbt col n (Node l a r))"

lemma deficient_mk:
  "deficient col n (mk d l a r) \<longleftrightarrow>
     (if col a then rbt (col(a := False)) (Suc n) (mk d l a r) else rbt col n (mk d l a r))"
  by (cases d) (simp_all del: rbt.simps)

lemma deficient_cong: "(\<And>a. a \<in> set_tree t \<Longrightarrow> col a = col' a) \<Longrightarrow> deficient col n t = deficient col' n t"
proof (cases t)
  case (Node l a r)
  assume c: "\<And>a. a \<in> set_tree t \<Longrightarrow> col a = col' a"
  have "rbt col n t = rbt col' n t" "rbt (col(a := False)) (Suc n) t = rbt (col'(a := False)) (Suc n) t"
    by (intro rbt_cong, simp add: c)+
  then show ?thesis using c[of a] Node by (simp del: rbt.simps)
qed simp

lemma deficient_black: "\<not> root_red col t \<Longrightarrow> deficient col n t \<longleftrightarrow> rbt col n t"
  by (cases t) simp_all

lemma rbt_deficient:
  assumes "rbt col n t" "distinct (inorder t)"
  shows "deficient col n t"
proof (cases t)
  case (Node l a r)
  show ?thesis
  proof (cases "col a")
    case True
    have "rbt (col(a := False)) k l = rbt col k l" "rbt (col(a := False)) k r = rbt col k r" for k
      using assms(2) Node by (auto intro!: rbt_cong split: if_splits)
    then show ?thesis using assms(1) True Node by simp
  qed (use assms Node in simp)
qed (use assms in simp)

text \<open>Painting a node leaves the trees alone that do not have it.\<close>

lemma col_upd [simp]:
  "a \<notin> set_tree t \<Longrightarrow> rbt (col(a := v)) n t = rbt col n t" "a \<notin> set_tree t \<Longrightarrow> root_red (col(a := v)) t = root_red col t"
  "a \<notin> ctx_set c \<Longrightarrow> rb_ctx (col(a := v)) n c = rb_ctx col n c" "a \<notin> ctx_set c \<Longrightarrow> ctx_red (col(a := v)) c = ctx_red col c"
  "a \<notin> set_tree t \<Longrightarrow> deficient (col(a := v)) n t = deficient col n t"
proof -
  have eq: "(col(a := v)) q = col q" if "q \<in> S" "a \<notin> S" for q S using that by auto
  show "a \<notin> set_tree t \<Longrightarrow> rbt (col(a := v)) n t = rbt col n t" by (intro rbt_cong eq)
  show "a \<notin> set_tree t \<Longrightarrow> root_red (col(a := v)) t = root_red col t" by (intro root_red_cong eq)
  show "a \<notin> ctx_set c \<Longrightarrow> rb_ctx (col(a := v)) n c = rb_ctx col n c" by (intro rb_ctx_cong eq)
  show "a \<notin> ctx_set c \<Longrightarrow> ctx_red (col(a := v)) c = ctx_red col c" by (intro ctx_red_cong eq)
  show "a \<notin> set_tree t \<Longrightarrow> deficient (col(a := v)) n t = deficient col n t" by (intro deficient_cong eq)
qed

text \<open>The end of the loop: the root of the subtree becomes black.\<close>

definition paint_root :: "(u64 \<Rightarrow> bool) \<Rightarrow> u64 tree \<Rightarrow> u64 \<Rightarrow> bool" where
  "paint_root col t = (case t of Leaf \<Rightarrow> col | Node l a r \<Rightarrow> col(a := False))"

lemma deficient_exit:
  assumes "distinct (inorder (plug c t))" "deficient col n t" "rb_ctx col (Suc n) c" "c = [] \<or> root_red col t"
  shows "\<exists>m. rbt (paint_root col t) m (plug c t) \<and> \<not> root_red (paint_root col t) (plug c t)"
proof (cases t)
  case Leaf
  then show ?thesis using assms(4) by auto
next
  case (Node l a r)
  let ?col = "col(a := False)"
  have p: "paint_root col t = ?col" using Node by (simp add: paint_root_def)
  show ?thesis
  proof (cases "col a")
    case True
    have "a \<notin> ctx_set c" using assms(1) inorder_plug_distinct[of c t] Node by auto
    then have "rb_ctx ?col (Suc n) c" using assms(3) by (subst rb_ctx_cong[of c _ col]) auto
    moreover have "rbt ?col (Suc n) t" "\<not> root_red ?col t" using assms(2) True Node by simp_all
    ultimately show ?thesis unfolding p using rbt_plug[of ?col "Suc n" t c] by (cases "c = []") auto
  next
    case False
    then have "c = []" "?col = col" using assms(4) Node by (auto simp: fun_eq_iff)
    then show ?thesis unfolding p using assms(2) False Node by auto
  qed
qed

text \<open>The four shapes of the sibling. A red sibling is rotated to the top.\<close>

lemma plug_frame_distinct:
  assumes "distinct (inorder (plug ((e, p, s) # c) t))"
  shows "p \<notin> set_tree s" "p \<notin> set_tree t" "p \<notin> ctx_set c" "set_tree s \<inter> set_tree t = {}"
    "set_tree s \<inter> ctx_set c = {}" "set_tree t \<inter> ctx_set c = {}" "distinct (inorder s)" "distinct (inorder t)"
  using assms inorder_plug_distinct[of c "mk e t p s"] by (cases e; auto)+

lemma mk_distinct:
  assumes "distinct (inorder (mk e s1 w s2))"
  shows "w \<notin> set_tree s1" "w \<notin> set_tree s2" "set_tree s1 \<inter> set_tree s2 = {}" "distinct (inorder s1)" "distinct (inorder s2)"
  using assms by (cases e; auto)+

lemma erase_red_sibling:
  assumes dist: "distinct (inorder (plug ((e, p, mk e s1 w s2) # c) t))" and c: "rb_ctx col (Suc n) ((e, p, mk e s1 w s2) # c)"
    and w: "col w" and t: "deficient col n t"
  defines "col' \<equiv> col(w := False, p := True)"
  shows "rb_ctx col' (Suc n) ((e, p, s1) # (e, w, s2) # c)" "\<not> root_red col' s1" "s1 \<noteq> Leaf" "deficient col' n t"
    and "root_red col' t = root_red col t" "\<not> col p"
proof -
  note d = plug_frame_distinct[OF dist] and ds = mk_distinct[OF plug_frame_distinct(7)[OF dist]]
  show p: "\<not> col p" using c w by (auto split: if_splits)
  have sib: "\<not> root_red col s1" "\<not> root_red col s2" "rbt col (Suc n) s1" "rbt col (Suc n) s2" "rb_ctx col (Suc (Suc n)) c"
    using c w p by simp_all
  have w: "w \<notin> set_tree t" "w \<notin> ctx_set c" using d(4,5) by auto
  have "root_red col' s1 = root_red col s1" "rbt col' (Suc n) s1 = rbt col (Suc n) s1" "rbt col' (Suc n) s2 = rbt col (Suc n) s2"
    "rb_ctx col' (Suc (Suc n)) c = rb_ctx col (Suc (Suc n)) c"
    using d(1,3) ds(1,2) w(2) by (simp_all add: col'_def)
  moreover have "w \<noteq> p" using d(1) by auto
  then have "col' p" "\<not> col' w" by (simp_all add: col'_def)
  ultimately show "rb_ctx col' (Suc n) ((e, p, s1) # (e, w, s2) # c)" "\<not> root_red col' s1"
    using sib by simp_all
  show "s1 \<noteq> Leaf" using sib(3) by auto
  show "deficient col' n t" "root_red col' t = root_red col t" using t d(2) w(1) by (simp_all add: col'_def)
qed

text \<open>A black sibling with two black children becomes red, and the parent is deficient.\<close>

lemma erase_black_sibling:
  assumes dist: "distinct (inorder (plug ((e, p, mk e s1 w s2) # c) t))" and c: "rb_ctx col (Suc n) ((e, p, mk e s1 w s2) # c)"
    and w: "\<not> col w" and t: "rbt col n t" "\<not> root_red col t" and s: "\<not> root_red col s1" "\<not> root_red col s2"
  defines "col' \<equiv> col(w := True)"
  shows "\<exists>n'. deficient col' n' (mk e t p (mk e s1 w s2)) \<and> rb_ctx col' (Suc n') c" "col' p = col p"
proof -
  note d = plug_frame_distinct[OF dist] and ds = mk_distinct[OF plug_frame_distinct(7)[OF dist]]
  have wp: "w \<noteq> p" using d(1) by auto
  then show p: "col' p = col p" by (simp add: col'_def)
  have keep: "rbt col' k u = rbt col k u" "root_red col' u = root_red col u" if "w \<notin> set_tree u" for k u
    using that by (simp_all add: col'_def)
  have keepp: "rbt (col'(p := False)) k u = rbt col' k u" if "p \<notin> set_tree u" for k u
    using that by simp
  have wt: "w \<notin> set_tree t" "w \<notin> ctx_set c" using d(4,5) by auto
  define sib where "sib = mk e s1 w s2"
  have "rbt col n s1" "rbt col n s2" using c w by (simp_all split: if_splits)
  then have s': "rbt col' n sib" using s keep[OF ds(1)] keep[OF ds(2)] by (simp add: sib_def) (simp add: col'_def)
  have t': "rbt col' n t" using t(1) keep[OF wt(1)] by simp
  have cc: "rb_ctx col' k c = rb_ctx col k c" for k using wt(2) by (simp add: col'_def)
  show "\<exists>n'. deficient col' n' (mk e t p (mk e s1 w s2)) \<and> rb_ctx col' (Suc n') c"
    unfolding sib_def[symmetric]
  proof (cases "col p")
    case True
    have "rbt (col'(p := False)) (Suc n) (mk e t p sib)"
      using s' t' keepp[OF d(2)] keepp[OF d(1), folded sib_def] by simp
    then have "deficient col' n (mk e t p sib)" using True p by (simp add: deficient_mk)
    then show "\<exists>n'. deficient col' n' (mk e t p sib) \<and> rb_ctx col' (Suc n') c" using c True cc by auto
  next
    case False
    have "rbt col' (Suc n) (mk e t p sib)" using s' t' False p by simp
    then have "deficient col' (Suc n) (mk e t p sib)" using False p by (simp add: deficient_mk)
    then show "\<exists>n'. deficient col' n' (mk e t p sib) \<and> rb_ctx col' (Suc n') c" using c False cc by auto
  qed
qed

text \<open>A black sibling with a red child on the inner side only: a rotation brings it to the outer side.\<close>

lemma erase_inner_red:
  assumes dist: "distinct (inorder (plug ((e, p, mk e (mk e a x b) w s2) # c) t))"
    and c: "rb_ctx col (Suc n) ((e, p, mk e (mk e a x b) w s2) # c)" and w: "\<not> col w" "col x" "\<not> root_red col s2" and t: "rbt col n t"
  defines "col' \<equiv> col(x := False, w := True)"
  shows "rb_ctx col' (Suc n) ((e, p, mk e a x (mk e b w s2)) # c)" "\<not> col' x" "col' w" "rbt col' n t"
proof -
  note d = plug_frame_distinct[OF dist] and ds = mk_distinct[OF plug_frame_distinct(7)[OF dist]]
  note dx = mk_distinct[OF ds(4)]
  have xw: "x \<noteq> w" using ds(1) by auto
  have keep: "rbt col' k u = rbt col k u" "root_red col' u = root_red col u" if "w \<notin> set_tree u" "x \<notin> set_tree u" for k u
    using that by (simp_all add: col'_def)
  show x: "\<not> col' x" "col' w" using xw by (simp_all add: col'_def)
  have sib: "rbt col n a" "rbt col n b" "rbt col n s2" "\<not> root_red col a" "\<not> root_red col b"
    using c w by (simp_all split: if_splits)
  have "rbt col' n a" "rbt col' n b" "rbt col' n s2" "\<not> root_red col' b" "\<not> root_red col' s2"
    using sib w(3) keep[of a] keep[of b] keep[of s2] ds(1,2,3) dx(1,2) by auto
  then have s: "rbt col' (Suc n) (mk e a x (mk e b w s2))" using x by simp
  have wx: "w \<notin> ctx_set c" "x \<notin> ctx_set c" "w \<notin> set_tree t" "x \<notin> set_tree t" "p \<noteq> w" "p \<noteq> x"
    using d(1,4,5) by auto
  have cc: "rb_ctx col' k c = rb_ctx col k c" "ctx_red col' c = ctx_red col c" for k
    using wx by (simp_all add: col'_def)
  show "rb_ctx col' (Suc n) ((e, p, mk e a x (mk e b w s2)) # c)"
    using c s x(1) cc wx(5,6) by (simp add: col'_def split: if_splits)
  show "rbt col' n t" using t wx keep[of t] by simp
qed

text \<open>A black sibling with a red child on the outer side: a rotation at the parent makes up for the missing node.\<close>

lemma erase_outer_red:
  assumes dist: "distinct (inorder (plug ((e, p, mk e s1 w (Node zl z zr)) # c) t))"
    and c: "rb_ctx col (Suc n) ((e, p, mk e s1 w (Node zl z zr)) # c)" and w: "\<not> col w" "col z" and t: "rbt col n t"
  defines "col' \<equiv> col(w := col p, p := False, z := False)"
  shows "\<exists>m. rbt col' m (plug c (mk e (mk e t p s1) w (Node zl z zr))) \<and>
    \<not> root_red col' (plug c (mk e (mk e t p s1) w (Node zl z zr)))"
proof -
  let ?s = "Node zl z zr"
  note d = plug_frame_distinct[OF dist] and ds = mk_distinct[OF plug_frame_distinct(7)[OF dist]]
  have ne: "z \<noteq> w" "z \<noteq> p" "w \<noteq> p" "z \<notin> set_tree zl" "z \<notin> set_tree zr" "w \<notin> set_tree zl" "w \<notin> set_tree zr"
      "p \<notin> set_tree zl" "p \<notin> set_tree zr" "z \<notin> set_tree s1" "w \<notin> set_tree s1" "p \<notin> set_tree s1"
      "z \<notin> set_tree t" "w \<notin> set_tree t" "p \<notin> set_tree t" "z \<notin> ctx_set c" "w \<notin> ctx_set c" "p \<notin> ctx_set c"
    using d ds by auto
  have sib: "rbt col n s1" "rbt col n zl" "rbt col n zr" using c w by (simp_all split: if_splits)
  have r: "rbt col' n s1" "rbt col' n zl" "rbt col' n zr" "rbt col' n t"
    using sib t ne by (simp_all add: col'_def)
  have cols: "col' w = col p" "\<not> col' p" "\<not> col' z" using ne(1-3) by (simp_all add: col'_def)
  have cc: "rb_ctx col' k c = rb_ctx col k c" "ctx_red col' c = ctx_red col c" for k
    using ne by (simp_all add: col'_def)
  have kids: "rbt col' (Suc n) (mk e t p s1)" "rbt col' (Suc n) ?s" "\<not> root_red col' (mk e t p s1)" "\<not> root_red col' ?s"
    using r cols by simp_all
  show ?thesis
  proof (cases "col p")
    case True
    then have "rbt col' (Suc n) (mk e (mk e t p s1) w ?s)" using kids cols(1) by (simp del: rbt.simps)
    moreover have "rb_ctx col' (Suc n) c" "\<not> ctx_red col' c" "c \<noteq> []" using c True cc by auto
    ultimately show ?thesis using rbt_plug[of col' "Suc n" "mk e (mk e t p s1) w ?s" c] by blast
  next
    case False
    then have "rbt col' (Suc (Suc n)) (mk e (mk e t p s1) w ?s)" using kids cols(1) by (simp del: rbt.simps)
    moreover have "rb_ctx col' (Suc (Suc n)) c" using c False cc by auto
    moreover have "\<not> root_red col' (mk e (mk e t p s1) w ?s)" using cols(1) False by simp
    ultimately show ?thesis using rbt_plug[of col' "Suc (Suc n)" "mk e (mk e t p s1) w ?s" c] by (cases "c = []") auto
  qed
qed

subsection \<open>The repair after a removal, in memory\<close>

lemma sibling_pointers:
  assumes ok: "tree_ok h (ktree root) (plug ((e, p, mk e s1 w s2) # c) t)"
  shows "child e (h p) = root_ptr 0 t" "child (\<not> e) (h p) = w" "child e (h w) = root_ptr 0 s1" "child (\<not> e) (h w) = root_ptr 0 s2"
    and "rb_parent (h p) = ctx_parent 0 c" "(root_ptr 0 t = rb_left (h p)) = e" "w \<noteq> 0" "p \<noteq> 0"
proof -
  have ok1: "tree_ok h (ktree root) (plug c (mk e t p (mk e s1 w s2)))" using ok by simp
  have ok2: "tree_ok h (ktree root) (plug ((\<not> e, p, t) # c) (mk e s1 w s2))" using ok by (simp add: mk_flip)
  have ok3: "tree_ok h (ktree root) (plug c (mk (\<not> e) (mk e s1 w s2) p t))" using ok by (simp add: mk_flip)
  note a = tree_ok_child[OF ok1, simplified] and b = tree_ok_child[OF ok2, simplified] and d = tree_ok_child(4)[OF ok3, simplified]
  show "child e (h p) = root_ptr 0 t" "child (\<not> e) (h p) = w" "child e (h w) = root_ptr 0 s1" "child (\<not> e) (h w) = root_ptr 0 s2"
    by (rule a(1), rule a(2), rule b(1), rule b(2))
  show "rb_parent (h p) = ctx_parent 0 c" using tree_ok_parent[OF ok1] by simp
  show "(root_ptr 0 t = rb_left (h p)) = e" using a(1,2) d by (cases e) auto
  show "w \<noteq> 0" "p \<noteq> 0" by (rule b(3), rule a(3))
qed

lemma plug_members:
  assumes "tree_ok h (ktree root) (plug c t)"
  shows "0 \<notin> set_tree t" "0 \<notin> ctx_set c" "distinct (inorder (plug c t))"
  using assms shape_nil[of h 0 0 root "plug c t"] by (auto simp: tree_ok_def set_tree_plug)

lemma coloured_subtree: "coloured h t \<Longrightarrow> set_tree s \<subseteq> set_tree t \<Longrightarrow> coloured h s"
  by (auto simp: coloured_def)

text \<open>The last rotation, with the sibling \<open>w\<close> and its red outer child \<open>z\<close>.\<close>

lemma erase_last_rotation:
  assumes ok: "tree_ok h (ktree root) (plug ((e, p, mk e s1 w (Node zl z zr)) # c) t)"
      "coloured h (plug ((e, p, mk e s1 w (Node zl z zr)) # c) t)"
    and c: "rb_ctx (kred h) (Suc n) ((e, p, mk e s1 w (Node zl z zr)) # c)" and w: "\<not> kred h w" "kred h z" and t: "rbt (kred h) n t"
    and rot: "kapi_rb_rotate e (set_color (set_color (set_color h w (rb_color (h p))) p KAPI_RB_BLACK) z KAPI_RB_BLACK) root p = (h', root')"
  shows "repaired h (plug ((e, p, mk e s1 w (Node zl z zr)) # c) t) h' root'"
proof -
  let ?s = "Node zl z zr" and ?t = "plug ((e, p, mk e s1 w (Node zl z zr)) # c) t"
  let ?h = "set_color (set_color (set_color h w (rb_color (h p))) p KAPI_RB_BLACK) z KAPI_RB_BLACK"
  have ok2: "tree_ok ?h (ktree root) (plug c (mk e t p (mk e s1 w ?s)))" using ok(1) by simp
  note r = kapi_rotate_plug[OF ok2 rot] and q = kapi_rotate_repaints[OF ok2 rot]
  let ?t' = "plug c (mk e (mk e t p s1) w ?s)"
  have mem: "p \<in> set_tree ?t" "w \<in> set_tree ?t" "z \<in> set_tree ?t" by (auto simp: set_tree_plug)
  have "kred (set_color h w (rb_color (h p))) = (kred h)(w := kred h p)" by (auto simp: fun_eq_iff)
  then have col: "kred h' = (kred h)(w := kred h p, p := False, z := False)"
    unfolding q(2) kred_set_color by simp
  obtain m where m: "rbt (kred h') m ?t'" "\<not> root_red (kred h') ?t'"
    unfolding col using erase_outer_red[OF plug_members(3)[OF ok(1)] c w t] by blast
  have io: "inorder ?t' = inorder ?t" using q(4) by simp
  have pc: "rb_color (h p) = KAPI_RB_RED \<or> rb_color (h p) = KAPI_RB_BLACK"
    using ok(2) mem(1) by (auto simp: coloured_def)
  have "coloured ?h ?t" by (intro coloured_color ok(2)) (simp_all add: pc)
  then have "coloured h' ?t'" using q(3)[of ?t'] inorder_set_tree[OF io] by (simp add: coloured_def)
  then have "krbt h' root' ?t'" using r(1) m by (auto simp: krbt_def)
  moreover have "repainted h ?t ?h"
    by (intro repainted_color repainted_refl mem)
  then have "repainted h ?t h'" using repainted_trans[OF _ q(1), of h ?t] by simp
  ultimately show ?thesis using io unfolding repaired_def by blast
qed

text \<open>What one turn of the loop gives when it goes on.\<close>

definition climbed :: "'a heap \<Rightarrow> u64 tree \<Rightarrow> 'a heap \<Rightarrow> u64 \<Rightarrow> u64 \<Rightarrow> u64 \<Rightarrow> u64 tree \<Rightarrow> ctx \<Rightarrow> bool" where
  "climbed h t h' root' v' par' t' c' \<longleftrightarrow> v' = root_ptr 0 t' \<and> t' \<noteq> Leaf \<and> par' = ctx_parent 0 c' \<and>
     tree_ok h' (ktree root') (plug c' t') \<and> coloured h' (plug c' t') \<and> inorder (plug c' t') = inorder t \<and>
     repainted h t h' \<and> (\<exists>n'. deficient (kred h') n' t' \<and> rb_ctx (kred h') (Suc n') c')"

lemma erase_black_spec:
  assumes ok: "tree_ok h (ktree root) (plug ((e, p, mk e s1 w s2) # c) t)" "coloured h (plug ((e, p, mk e s1 w s2) # c) t)"
    and c: "rb_ctx (kred h) (Suc n) ((e, p, mk e s1 w s2) # c)" and w: "\<not> kred h w"
    and t: "rbt (kred h) n t" "\<not> root_red (kred h) t"
    and run: "kapi_erase_black e h root p w = (go, h', root', v', par')"
  shows "if go then (\<exists>t'. climbed h (plug ((e, p, mk e s1 w s2) # c) t) h' root' v' par' t' c \<and> root_red (kred h') t' = kred h p)
    else v' = root' \<and> repaired h (plug ((e, p, mk e s1 w s2) # c) t) h' root'"
proof -
  let ?t = "plug ((e, p, mk e s1 w s2) # c) t"
  note f = sibling_pointers[OF ok(1)]
  have z: "0 \<notin> set_tree s1" "0 \<notin> set_tree s2" using plug_members(2)[OF ok(1)] by simp_all
  have cs: "coloured h s1" "coloured h s2" using ok(2) by (auto simp: coloured_def set_tree_plug)
  note bl = kapi_black_root[OF cs(1) z(1)] kapi_black_root[OF cs(2) z(2)]
  note dist = plug_members(3)[OF ok(1)]
  have mem: "w \<in> set_tree ?t" "p \<in> set_tree ?t" by (simp_all add: set_tree_plug)
  show ?thesis
  proof (cases "root_red (kred h) s1 \<or> root_red (kred h) s2")
    case False
    then have r: "go" "h' = set_color h w KAPI_RB_RED" "root' = root" "v' = p" "par' = ctx_parent 0 c"
      using run f(3,4,5) bl by (auto simp: kapi_erase_black_def)
    have col: "kred h' = (kred h)(w := True)" unfolding r(2) kred_set_color ..
    have b: "\<exists>n'. deficient (kred h') n' (mk e t p (mk e s1 w s2)) \<and> rb_ctx (kred h') (Suc n') c" "kred h' p = kred h p"
      using erase_black_sibling[OF dist c w t] False fun_cong[OF col, of p] unfolding col by auto
    have "climbed h ?t h' root' v' par' (mk e t p (mk e s1 w s2)) c"
      using b(1) ok(1) coloured_color[OF ok(2), of KAPI_RB_RED w] repainted_color[OF repainted_refl mem(1)]
      unfolding climbed_def r by auto
    moreover have "root_red (kred h') (mk e t p (mk e s1 w s2)) = kred h p" using b(2) by simp
    ultimately show ?thesis using r(1) by auto
  next
    case True
    show ?thesis
    proof (cases "root_red (kred h) s2")
      case True
      then obtain zl z zr where s2: "s2 = Node zl z zr" "kred h z" by (cases s2) auto
      have z0: "z \<noteq> 0" using z(2) s2 by auto
      obtain h7 root7 where rot: "kapi_rb_rotate e (set_color (set_color (set_color h w (rb_color (h p))) p KAPI_RB_BLACK) z KAPI_RB_BLACK) root p
          = (h7, root7)" by fastforce
      have "\<not> go" "h' = h7" "root' = root7" "v' = root7"
        using run f(3,4) bl True rot s2(1) z0 by (auto simp: kapi_erase_black_def Let_def)
      then show ?thesis
        using erase_last_rotation[OF ok[unfolded s2(1)] c[unfolded s2(1)] w s2(2) t(1) rot] s2(1) by simp
    next
      case False
      then obtain l1 x r1 where x: "s1 = Node l1 x r1" "kred h x" using True by (cases s1) auto
      define a b where "a = (if e then l1 else r1)" and "b = (if e then r1 else l1)"
      have s1: "s1 = mk e a x b" using x(1) by (simp add: a_def b_def mk_def)
      let ?h = "set_color (set_color h x KAPI_RB_BLACK) w KAPI_RB_RED" and ?c = "(\<not> e, p, t) # c"
      have tr: "?t = plug ?c (mk (\<not> e) s2 w (mk (\<not> e) b x a))" unfolding s1 by (simp add: mk_flip)
      obtain h3 root3 where rot3: "kapi_rb_rotate (\<not> e) ?h root w = (h3, root3)" by fastforce
      have ok2: "tree_ok ?h (ktree root) (plug ?c (mk (\<not> e) s2 w (mk (\<not> e) b x a)))" using ok(1) unfolding tr by simp
      note r3 = kapi_rotate_plug[OF ok2 rot3] and q3 = kapi_rotate_repaints[OF ok2 rot3]
      let ?t3 = "plug ((e, p, mk e a x (mk e b w s2)) # c) t"
      have t3: "plug ?c (mk (\<not> e) (mk (\<not> e) s2 w b) x a) = ?t3" by (simp add: mk_flip)
      have io: "inorder ?t3 = inorder ?t" using q3(4) unfolding t3 tr[symmetric] .
      have ok3: "tree_ok h3 (ktree root3) ?t3" using r3(1) unfolding t3 .
      have "coloured ?h ?t" by (intro coloured_color ok(2)) simp_all
      then have col3: "coloured h3 ?t3" using q3(3)[of ?t3] inorder_set_tree[OF io] by (simp add: coloured_def)
      have kr3: "kred h3 = (kred h)(x := False, w := True)" unfolding q3(2) kred_set_color ..
      note e3 = erase_inner_red[OF dist[unfolded s1] c[unfolded s1] w x(2) False t(1), folded kr3]
      have "0 \<notin> set_tree (mk e b w s2)" using plug_members(2)[OF ok3] by simp
      then obtain zl zr where s3: "mk e b w s2 = Node zl w zr" "w \<noteq> 0" by (cases e) auto
      note f3 = sibling_pointers[OF ok3]
      obtain h7 root7 where rot: "kapi_rb_rotate e (set_color (set_color (set_color h3 x (rb_color (h3 p))) p KAPI_RB_BLACK) w KAPI_RB_BLACK)
          root3 p = (h7, root7)" by fastforce
      have "\<not> go" "h' = h7" "root' = root7" "v' = root7"
        using run f(3,4) bl True False rot3 f3(2,4) rot s3(2) x(1) by (auto simp: kapi_erase_black_def Let_def)
      moreover have "repaired h3 ?t3 h7 root7"
        using erase_last_rotation[OF ok3[unfolded s3(1)] col3[unfolded s3(1)] e3(1)[unfolded s3(1)] e3(2) e3(3) e3(4) rot]
        unfolding s3(1) .
      moreover have "repainted h ?t h3"
      proof -
        have "x \<in> set_tree ?t" unfolding s1 by (simp add: set_tree_plug)
        then have "repainted h ?t ?h" by (intro repainted_color repainted_refl mem)
        then show ?thesis using repainted_trans[OF _ q3(1)] unfolding tr by blast
      qed
      ultimately show ?thesis using repaired_trans[OF _ _ io] by simp
    qed
  qed
qed

lemma sibling_node:
  assumes "rb_ctx col (Suc n) ((e, p, s) # c)"
  obtains s1 w s2 where "s = mk e s1 w s2"
proof -
  have "rbt col (Suc n) s" using assms by (simp split: if_splits)
  then obtain l w r where "s = Node l w r" by (cases s) auto
  then have "s = mk e (if e then l else r) w (if e then r else l)" by (simp add: mk_def)
  then show thesis using that by blast
qed

lemma root_ptr_plug: "c \<noteq> [] \<Longrightarrow> root_ptr nil (plug c t) \<in> ctx_set c"
proof (induction c arbitrary: t)
  case (Cons f c)
  obtain d a s where f: "f = (d, a, s)" by (cases f)
  show ?case using Cons.IH[of "mk d t a s"] by (cases "c = []") (auto simp: f)
qed simp

lemma erase_side_spec:
  assumes ok: "tree_ok h (ktree root) (plug ((e, p, s) # c) t)" "coloured h (plug ((e, p, s) # c) t)"
    and c: "rb_ctx (kred h) (Suc n) ((e, p, s) # c)" and t: "rbt (kred h) n t" "\<not> root_red (kred h) t"
    and run: "kapi_erase_side e h root p = (go, h', root', v', par')"
  shows "if go then (\<exists>t' c'. climbed h (plug ((e, p, s) # c) t) h' root' v' par' t' c' \<and> (root_red (kred h') t' \<or> c' = c))
    else v' = root' \<and> repaired h (plug ((e, p, s) # c) t) h' root'"
proof -
  obtain s1 w s2 where s: "s = mk e s1 w s2" using sibling_node[OF c] .
  note f = sibling_pointers[OF ok(1)[unfolded s]]
  let ?t = "plug ((e, p, mk e s1 w s2) # c) t"
  show ?thesis
  proof (cases "kred h w")
    case False
    then have "kapi_erase_black e h root p w = (go, h', root', v', par')"
      using run f(2) by (simp add: kapi_erase_side_def)
    from erase_black_spec[OF ok[unfolded s] c[unfolded s] False t this] show ?thesis
      unfolding s by (cases go) auto
  next
    case True
    let ?h = "set_color (set_color h w KAPI_RB_BLACK) p KAPI_RB_RED"
    obtain h1 root1 where rot: "kapi_rb_rotate e ?h root p = (h1, root1)" by fastforce
    have ok2: "tree_ok ?h (ktree root) (plug c (mk e t p (mk e s1 w s2)))" using ok(1) s by simp
    note r1 = kapi_rotate_plug[OF ok2 rot] and q1 = kapi_rotate_repaints[OF ok2 rot]
    have kr: "kred h1 = (kred h)(w := False, p := True)" unfolding q1(2) kred_set_color ..
    have def': "deficient (kred h) n t" using t deficient_black by blast
    note e1 = erase_red_sibling[OF plug_members(3)[OF ok(1)[unfolded s]] c[unfolded s] True def', folded kr]
    obtain l1 x x1 where "s1 = Node l1 x x1" using e1(3) by (cases s1) auto
    then obtain a b where s1: "s1 = mk e a x b" by (cases e) (auto simp: mk_def)
    let ?t1 = "plug ((e, p, mk e a x b) # (e, w, s2) # c) t"
    have t1: "plug c (mk e (mk e t p s1) w s2) = ?t1" by (simp add: s1)
    have io: "inorder ?t1 = inorder ?t" using q1(4) unfolding t1 by simp
    have ok1: "tree_ok h1 (ktree root1) ?t1" using r1(1) unfolding t1 .
    have "coloured ?h ?t" using ok(2)[unfolded s] by (intro coloured_color) simp_all
    then have col1: "coloured h1 ?t1" using q1(3)[of ?t1] inorder_set_tree[OF io] by (simp add: coloured_def)
    have rp: "repainted h ?t h1"
    proof -
      have "repainted h ?t ?h" by (intro repainted_color repainted_refl) (simp_all add: set_tree_plug)
      then show ?thesis using repainted_trans[OF _ q1(1)] by simp
    qed
    have "kapi_erase_black e h1 root1 p x = (go, h', root', v', par')"
      using run rot f(2) True sibling_pointers(2)[OF ok1] by (simp add: kapi_erase_side_def)
    moreover have "\<not> kred h1 x" using e1(2) s1 by simp
    moreover have "rbt (kred h1) n t" "\<not> root_red (kred h1) t" using e1(4,5) t(2) deficient_black by blast+
    ultimately have sp: "if go then (\<exists>t'. climbed h1 ?t1 h' root' v' par' t' ((e, w, s2) # c) \<and> root_red (kred h') t' = kred h1 p)
        else v' = root' \<and> repaired h1 ?t1 h' root'"
      using erase_black_spec[OF ok1 col1 e1(1)[unfolded s1]] by blast
    show ?thesis
    proof (cases go)
      case True
      have "kred h1 p" using fun_cong[OF kr, of p] by simp
      then obtain t' where t': "climbed h1 ?t1 h' root' v' par' t' ((e, w, s2) # c)" "root_red (kred h') t'"
        using sp True by auto
      then have "climbed h ?t h' root' v' par' t' ((e, w, s2) # c)"
        using io repainted_trans[OF rp _ inorder_set_tree[OF io]] unfolding climbed_def by auto
      then show ?thesis using True t'(2) unfolding s by auto
    next
      case False
      then show ?thesis using sp repaired_trans[OF rp _ io] unfolding s by simp
    qed
  qed
qed

lemma erase_exit_repaired:
  assumes "repaired h t h' root'" "t \<noteq> Leaf"
  shows "\<exists>h''. kapi_erase_exit h' root' root' = (h'', root') \<and> repaired h t h'' root'"
proof -
  obtain t' m where t': "repainted h t h'" "krbt h' root' t'" "inorder t' = inorder t" "rbt (kred h') m t'"
    using assms(1) by (auto simp: repaired_def krbt_def)
  have nl: "t' \<noteq> Leaf" using assms(2) t'(3) by (metis inorder.simps(1) eq_inorder_Nil)
  then have "repaired h' t' (set_color h' root' KAPI_RB_BLACK) root'"
    using blacken_repaired[of h' root' t' m] t'(2,4) by (auto simp: krbt_def)
  then have "repaired h t (set_color h' root' KAPI_RB_BLACK) root'" using repaired_trans[OF t'(1) _ t'(3)] by blast
  moreover have "root' \<noteq> 0"
    using t'(2) nl tree_ok_root[of h' "ktree root'" t'] plug_members(1)[of h' root' "[]" t'] by (cases t') (auto simp: krbt_def)
  ultimately show ?thesis by (simp add: kapi_erase_exit_def)
qed

lemma paint_root_exit:
  assumes ok: "tree_ok h (ktree root) (plug c t)" "coloured h (plug c t)" and d: "deficient (kred h) n t" "rb_ctx (kred h) (Suc n) c"
    and e: "c = [] \<or> root_red (kred h) t"
  shows "\<exists>h'. kapi_erase_exit h root (root_ptr 0 t) = (h', root) \<and> repaired h (plug c t) h' root"
proof -
  let ?h = "fst (kapi_erase_exit h root (root_ptr 0 t))"
  obtain m where m: "rbt (paint_root (kred h) t) m (plug c t)" "\<not> root_red (paint_root (kred h) t) (plug c t)"
    using deficient_exit[OF plug_members(3)[OF ok(1)] d e] by blast
  have h: "?h = (if t = Leaf then h else set_color h (root_ptr 0 t) KAPI_RB_BLACK)"
    using plug_members(1)[OF ok(1)] by (cases t) (auto simp: kapi_erase_exit_def)
  have "kred ?h = paint_root (kred h) t"
    unfolding h by (cases t) (simp_all add: paint_root_def kred_set_color fun_eq_iff)
  moreover have "tree_ok ?h (ktree root) (plug c t)" "coloured ?h (plug c t)"
    unfolding h using ok coloured_color by auto
  ultimately have "krbt ?h root (plug c t)" using m unfolding krbt_def by auto
  moreover have "repainted h (plug c t) ?h"
    unfolding h by (cases t) (auto intro!: repainted_color simp: set_tree_plug)
  ultimately have "repaired h (plug c t) ?h root" by (auto simp: repaired_def)
  then show ?thesis by (auto simp: kapi_erase_exit_def)
qed

lemma kapi_erase_repaired:
  assumes "tree_ok h (ktree root) (plug c t)" "coloured h (plug c t)" "deficient (kred h) n t" "rb_ctx (kred h) (Suc n) c"
  shows "\<exists>h' root'. kapi_erase_loop h root (root_ptr 0 t) (ctx_parent 0 c) = Some (h', root') \<and> repaired h (plug c t) h' root'"
  using assms
proof (induction "length c" arbitrary: c h root t n rule: less_induct)
  case less
  note ok = less.prems(1,2) and d = less.prems(3,4)
  have ct: "coloured h t" using ok(2) by (auto simp: coloured_def set_tree_plug)
  note bl = kapi_black_root[OF ct plug_members(1)[OF ok(1)]]
  have root: "root = root_ptr 0 (plug c t)" using tree_ok_root[OF ok(1)] by simp
  show ?case
  proof (cases "c = [] \<or> root_red (kred h) t")
    case True
    then have "root_ptr 0 t = root \<or> \<not> kapi_black h (root_ptr 0 t)" using root bl by auto
    then have "kapi_erase_loop h root (root_ptr 0 t) (ctx_parent 0 c) = Some (kapi_erase_exit h root (root_ptr 0 t))"
      by (subst kapi_erase_loop.simps) auto
    then show ?thesis using paint_root_exit[OF ok d True] by auto
  next
    case False
    then obtain e p s c1 where c: "c = (e, p, s) # c1" by (cases c rule: ctx_set.cases) auto
    have t: "rbt (kred h) n t" "\<not> root_red (kred h) t" using d(1) False deficient_black by blast+
    obtain go h1 root1 v1 par1 where run: "kapi_erase_side e h root p = (go, h1, root1, v1, par1)" by (metis prod_cases5)
    note sp = erase_side_spec[OF ok[unfolded c] d(2)[unfolded c] t run, folded c]
    have nroot: "root_ptr 0 t \<noteq> root"
    proof -
      have "root \<in> ctx_set c" using root root_ptr_plug[of c 0 t] c by simp
      moreover have "root_ptr 0 t = 0 \<or> root_ptr 0 t \<in> set_tree t" by (cases t) auto
      moreover have "ctx_set c \<inter> set_tree t = {}" using plug_members(3)[OF ok(1)] inorder_plug_distinct[of c t] by blast
      ultimately show ?thesis using plug_members(2)[OF ok(1)] by auto
    qed
    have "kapi_black h (root_ptr 0 t)" using bl False by simp
    obtain s1 w s2 where s: "s = mk e s1 w s2" using sibling_node[OF d(2)[unfolded c]] .
    have "(root_ptr 0 t = rb_left (h p)) = e" using sibling_pointers(6)[OF ok(1)[unfolded c s]] .
    then have un: "kapi_erase_loop h root (root_ptr 0 t) (ctx_parent 0 c) =
        (if go then kapi_erase_loop h1 root1 v1 par1 else Some (kapi_erase_exit h1 root1 v1))"
      using nroot \<open>kapi_black h (root_ptr 0 t)\<close> c run by (subst kapi_erase_loop.simps) simp
    have nl: "plug c t \<noteq> Leaf" using plug_not_Leaf[of "mk e t p s" c1] c by simp
    show ?thesis
    proof (cases go)
      case False
      then show ?thesis using un sp erase_exit_repaired[of h "plug c t" h1 root1] nl by auto
    next
      case True
      then obtain t' c' n' where cl: "climbed h (plug c t) h1 root1 v1 par1 t' c'" "root_red (kred h1) t' \<or> c' = c1"
        "deficient (kred h1) n' t'" "rb_ctx (kred h1) (Suc n') c'"
        using sp unfolding climbed_def by auto
      have k: "v1 = root_ptr 0 t'" "par1 = ctx_parent 0 c'" "tree_ok h1 (ktree root1) (plug c' t')" "coloured h1 (plug c' t')"
          "inorder (plug c' t') = inorder (plug c t)" "repainted h (plug c t) h1" using cl(1) by (auto simp: climbed_def)
      have "\<exists>h' root'. kapi_erase_loop h1 root1 v1 par1 = Some (h', root') \<and> repaired h1 (plug c' t') h' root'"
      proof (cases "root_red (kred h1) t'")
        case True
        have "coloured h1 t'" using k(4) by (auto simp: coloured_def set_tree_plug)
        then have "\<not> kapi_black h1 v1" using kapi_black_root plug_members(1)[OF k(3)] True unfolding k(1) by blast
        then have "kapi_erase_loop h1 root1 v1 par1 = Some (kapi_erase_exit h1 root1 v1)" by (subst kapi_erase_loop.simps) simp
        then show ?thesis using paint_root_exit[OF k(3,4) cl(3,4)] True unfolding k(1) by auto
      next
        case False
        then have "length c' < length c" using cl(2) c by simp
        then show ?thesis unfolding k(1,2) by (rule less.hyps[OF _ k(3,4) cl(3,4)])
      qed
      then show ?thesis using un True repaired_trans[OF k(6) _ k(5)] by auto
    qed
  qed
qed

subsection \<open>Unlinking a node\<close>

lemma kapi_relink_eq:
  assumes "relink True h (ktree root) x v = (h', T')"
  shows "kapi_relink h root x (rb_parent (h x)) v = (h', rb_root T')" "rb_nil T' = 0"
  using assms by (auto simp: relink_def kapi_relink_def Let_def split: if_splits)

lemma color_links [simp]:
  "rb_color (set_child e h a v q) = rb_color (h q)" "rb_color (set_parent h a v q) = rb_color (h q)"
  by (simp_all add: set_child_def set_parent_def)

lemma kapi_splice_eq:
  assumes tp: "transplant h (ktree root) u v = (h', T')"
  shows "kapi_splice h root u (rb_parent (h u)) v = (h'(0 := h 0), rb_root T')" "rb_nil T' = 0"
proof -
  let ?p = "rb_parent (h u)"
  have "kapi_splice h root u ?p v = (h'(0 := h 0), rb_root T') \<and> rb_nil T' = 0"
  proof (cases "?p = 0")
    case True
    have h': "h' = set_parent h v 0" "T' = ktree v" using tp True by (auto simp: transplant_def relink_def)
    have "h'(0 := h 0) = (if v \<noteq> 0 then set_parent h v 0 else h)" unfolding h' by (auto simp: set_parent_def fun_eq_iff)
    then show ?thesis using True h'(2) by (simp add: kapi_splice_def kapi_relink_def)
  next
    case False
    define e where "e = (rb_left (h ?p) = u)"
    have h': "h' = set_parent (set_child e h ?p v) v ?p" "T' = ktree root"
      using tp False by (auto simp: transplant_def relink_def Let_def e_def split: if_splits)
    have "h'(0 := h 0) = set_child e (if v \<noteq> 0 then set_parent h v ?p else h) ?p v"
      unfolding h' using False by (auto simp: set_parent_def set_child_def fun_eq_iff)
    then show ?thesis using False h'(2) by (cases e) (simp_all add: kapi_splice_def kapi_relink_def Let_def e_def)
  qed
  then show "kapi_splice h root u ?p v = (h'(0 := h 0), rb_root T')" "rb_nil T' = 0" by blast+
qed

lemma kapi_splice_tree:
  assumes ok: "tree_ok h (ktree root) (plug c (mk d Leaf u t))"
    and sp: "kapi_splice h root u (rb_parent (h u)) (child (\<not> d) (h u)) = (h', root')"
  shows "tree_ok h' (ktree root') (plug c t)" "data (h' a) = data (h a)" "a \<notin> set_tree (plug c t) \<Longrightarrow> h' a = h a"
proof -
  obtain h1 T1 where tp: "transplant h (ktree root) u (child (\<not> d) (h u)) = (h1, T1)" by fastforce
  note tt = transplant_tree[OF ok tp]
  have e: "h' = h1(0 := h 0)" "T1 = ktree root'" using kapi_splice_eq[OF tp] sp by auto
  have "0 \<notin> set_tree (plug c t)"
    using plug_members(1,2)[OF ok] by (simp add: set_tree_plug)
  then show "tree_ok h' (ktree root') (plug c t)"
    unfolding e(1) by (intro tree_ok_outside[OF tt(1)[unfolded e(2)]]) (metis fun_upd_other)
  show "data (h' a) = data (h a)" using tt(3)[of a] e(1) by simp
  show "a \<notin> set_tree (plug c t) \<Longrightarrow> h' a = h a" using tt(4)[of a] e(1) by simp
qed

text \<open>The successor takes the place of the node, which has a left subtree.\<close>

lemma kapi_take_place_tree:
  assumes ok: "tree_ok h (ktree root) (plug c (Node l z r))" and l: "l \<noteq> Leaf"
    and y: "y \<notin> set_tree (plug c (Node l z r))" "y \<noteq> 0" and run: "kapi_take_place h root z y = (h', root')"
  shows "tree_ok h' (ktree root') (plug c (Node l y r))" "info (h' a) = info (h a)"
    and "rb_color (h' a) = (if a = y then rb_color (h z) else rb_color (h a))"
    and "a \<notin> insert y (set_tree (plug c (Node l z r))) \<Longrightarrow> h' a = h a"
proof -
  define lp rp where "lp = root_ptr 0 l" and "rp = root_ptr 0 r"
  have sh: "shape_ctx h 0 root c z" "shape h 0 (ctx_parent 0 c) z (Node l z r)"
    and dist: "distinct (inorder (plug c Leaf))" "distinct (inorder (Node l z r))" "ctx_set c \<inter> set_tree (Node l z r) = {}"
    using ok inorder_plug_distinct[of c "Node l z r"] by (simp_all add: tree_ok_def shape_plug)
  have z: "z \<noteq> 0" "rb_parent (h z) = ctx_parent 0 c" "shape h 0 z lp l" "shape h 0 z rp r" "rb_left (h z) = lp" "rb_right (h z) = rp"
    using sh(2) shape_root[of h 0 z "rb_left (h z)" l] shape_root[of h 0 z "rb_right (h z)" r] by (auto simp: lp_def rp_def)
  have yn: "y \<notin> ctx_set c" "y \<notin> set_tree l" "y \<noteq> z" "y \<notin> set_tree r" using y(1) by (auto simp: set_tree_plug)
  have zero: "0 \<notin> ctx_set c" "0 \<notin> set_tree l" "0 \<notin> set_tree r" using plug_members(1,2)[OF ok] by simp_all
  have lpl: "lp \<in> set_tree l" using l by (cases l) (auto simp: lp_def)
  have rpr: "rp = 0 \<or> rp \<in> set_tree r" by (cases r) (auto simp: rp_def)
  define h4 where "h4 = h(y := (h y)\<lparr>rb_parent := ctx_parent 0 c, rb_left := lp, rb_right := rp, rb_color := rb_color (h z)\<rparr>)"
  obtain h5 T5 where rl: "relink True h4 (ktree root) z y = (h5, T5)" by fastforce
  have z4: "h4 z = h z" using yn(3) by (simp add: h4_def)
  have sc4: "shape_ctx h4 0 root c z"
    using sh(1) yn(1) by (subst shape_ctx_cong[of c h]) (auto simp: h4_def same_links_def)
  have zc: "z \<notin> ctx_set c" using dist(3) by auto
  have p4: "rb_parent (h4 z) = ctx_parent 0 c" using z4 z(2) by simp
  have "shape_ctx h4 0 (rb_root (ktree root)) c z" "0 = rb_nil (ktree root)" using sc4 by simp_all
  note k = relink_ctx[OF this z(1) zc p4 dist(1) rl]
  have T5: "T5 = ktree (rb_root T5)" using k(2) by simp
  have h5z: "h5 z = h z" using k(5)[OF zc] z4 by simp
  define h7 where "h7 = (if rp \<noteq> 0 then set_parent (set_parent h5 lp y) rp y else set_parent h5 lp y)"
  have run': "h' = h7" "root' = rb_root T5"
  proof -
    have c4: "set_child True (set_child False (set_color (set_parent h y (ctx_parent 0 c)) y (rb_color (h z))) y rp) y lp = h4"
      by (simp add: h4_def set_child_def set_color_def set_parent_def fun_eq_iff)
    have "kapi_relink h4 root z (ctx_parent 0 c) y = (h5, rb_root T5)" using kapi_relink_eq(1)[OF rl] p4 by simp
    moreover have "lp \<noteq> z" using lpl dist(2) by auto
    then have "rb_right (set_parent h5 lp y z) = rp" "rb_left (h5 z) = lp" "rb_right (h5 z) = rp" using h5z z(5,6) by simp_all
    ultimately show "h' = h7" "root' = rb_root T5"
      using run z(2,5,6) yn(3) p4
      by (auto simp: kapi_take_place_def Let_def c4 h7_def)
  qed
  have par: "rb_parent (h7 a) = (if a = lp \<or> (a = rp \<and> rp \<noteq> 0) then y else if a = y then ctx_parent 0 c else rb_parent (h a))" for a
    using k(3)[of a] by (cases "a = y") (simp_all add: h7_def h4_def)
  have ch: "child e (h7 a) = (if a = y then (if e then lp else rp) else child e (h a))" if "a \<notin> ctx_set c" for a e
    using k(5)[OF that] by (cases e; cases "a = y") (simp_all add: h7_def h4_def)
  have sub: "shape h7 0 y q s" if "shape h 0 z q s" "distinct (inorder s)" "set_tree s \<inter> insert y (ctx_set c) = {}"
      "q = lp \<or> q = rp" "\<forall>a\<in>set_tree s. a \<noteq> q \<longrightarrow> a \<noteq> lp \<and> a \<noteq> rp" for q s
  proof (rule shape_reparent[OF that(1,2)])
    show "q \<noteq> 0 \<Longrightarrow> rb_parent (h7 q) = y" using par[of q] that(4) by auto
    fix a assume a: "a \<in> set_tree s"
    then have "a \<notin> ctx_set c" "a \<noteq> y" using that(3) by auto
    then show "rb_left (h7 a) = rb_left (h a) \<and> rb_right (h7 a) = rb_right (h a)" using ch[of a True] ch[of a False] by simp
    show "a \<noteq> q \<Longrightarrow> rb_parent (h7 a) = rb_parent (h a)" using par[of a] that(5) a \<open>a \<noteq> y\<close> by auto
  qed
  have "shape h7 0 y lp l" "shape h7 0 y rp r"
    using dist(2,3) yn lpl rpr zero by (intro sub z(3,4); auto)+
  moreover have "y \<noteq> lp" "y \<noteq> rp" using yn lpl rpr y(2) by auto
  then have "rb_parent (h7 y) = ctx_parent 0 c" "rb_left (h7 y) = lp" "rb_right (h7 y) = rp"
    using par[of y] ch[OF yn(1), of True] ch[OF yn(1), of False] by auto
  ultimately have "shape h7 0 (ctx_parent 0 c) y (Node l y r)" using y(2) by simp
  moreover have "shape_ctx h7 0 (rb_root T5) c y"
  proof (subst shape_ctx_cong[of c h5])
    show "\<forall>a\<in>ctx_set c. same_links h5 h7 a" using lpl rpr dist(3) zero(1) by (auto simp: h7_def same_links_def)
  qed (use k(1) T5 in simp)
  moreover have "distinct (inorder (plug c (Node l y r)))"
    using inorder_plug_distinct[of c "Node l y r"] dist yn by auto
  ultimately show "tree_ok h' (ktree root') (plug c (Node l y r))"
    unfolding run' by (simp add: tree_ok_def shape_plug)
  have d7: "data (h7 a) = data (h4 a)" using k(4)[of a] by (simp add: h7_def)
  show "info (h' a) = info (h a)" unfolding run' using info_data[OF d7] by (simp add: h4_def info_def data_def)
  show "rb_color (h' a) = (if a = y then rb_color (h z) else rb_color (h a))"
    unfolding run' using data_eqD[OF d7] by (simp add: h4_def)
  show "h' a = h a" if "a \<notin> insert y (set_tree (plug c (Node l z r)))"
  proof -
    have "a \<notin> ctx_set c" "a \<noteq> lp" "rp = 0 \<or> a \<noteq> rp" "a \<noteq> y" using that lpl rpr by (auto simp: set_tree_plug)
    then show ?thesis unfolding run' using k(5)[of a] by (auto simp: h7_def h4_def set_parent_def)
  qed
qed

text \<open>The leftmost node, with the path of left turns to it.\<close>

lemma leftmost_ctx:
  assumes "shape h 0 par x (Node l a r)"
  shows "\<exists>c y yr. plug c (Node Leaf y yr) = Node l a r \<and> kapi_leftmost h x = Some y \<and> ctx_pre c = []"
  using assms
proof (induction l arbitrary: par x a r)
  case Leaf
  then show ?case
    by (intro exI[of _ "[]"] exI[of _ a] exI[of _ r]) (simp add: kapi_leftmost.simps)
next
  case (Node l1 b r1)
  have x: "x = a" "rb_left (h a) = b" "b \<noteq> 0" using Node.prems by auto
  obtain c y yr where c: "plug c (Node Leaf y yr) = Node l1 b r1" "kapi_leftmost h b = Some y" "ctx_pre c = []"
    using Node.IH(1)[of a b b r1] Node.prems by auto
  show ?case
  proof (intro exI conjI)
    show "plug (c @ [(True, a, r)]) (Node Leaf y yr) = Node (Node l1 b r1) a r" using c(1) by (simp add: plug_append)
    show "kapi_leftmost h x = Some y" using x c(2) by (subst kapi_leftmost.simps) simp
    show "ctx_pre (c @ [(True, a, r)]) = []" using c(3) by (simp add: ctx_append)
  qed
qed

text \<open>A node with no left child leaves: what it was decides what is missing.\<close>

lemma unlink_colours:
  assumes "rbt col m (plug c (mk d Leaf y t))" "\<not> root_red col (plug c (mk d Leaf y t))"
  shows "rbt col 0 t" "col y \<Longrightarrow> rb_ctx col 0 c \<and> \<not> root_red col t \<and> c \<noteq> []" "\<not> col y \<Longrightarrow> rb_ctx col (Suc 0) c"
proof -
  obtain n where n: "rbt col n (mk d Leaf y t)" "rb_ctx col n c"
    using rbt_plugD[OF assms(1)] assms(2) by blast
  show "rbt col 0 t" using n(1) by (auto split: if_splits)
  show "\<not> col y \<Longrightarrow> rb_ctx col (Suc 0) c" using n by (cases n) auto
  show "rb_ctx col 0 c \<and> \<not> root_red col t \<and> c \<noteq> []" if "col y" using n that assms(2) by auto
qed

lemma rb_ctx_rename:
  assumes "y \<notin> ctx_set (cr @ (d, z, l) # c)" and col': "col' = col(y := col z)"
  shows "rb_ctx col' n (cr @ (d, y, l) # c) = rb_ctx col n (cr @ (d, z, l) # c)"
  using assms(1)
proof (induction cr arbitrary: n)
  case Nil
  then have "rbt col' n l = rbt col n l" "root_red col' l = root_red col l" "ctx_red col' c = ctx_red col c"
      "rb_ctx col' k c = rb_ctx col k c" "col' y = col z" for n k
    by (simp_all add: col')
  then show ?case by simp
next
  case (Cons f cr)
  obtain e a s where f: "f = (e, a, s)" by (cases f)
  have y: "a \<noteq> y" "y \<notin> set_tree s" "y \<notin> ctx_set (cr @ (d, z, l) # c)" using Cons.prems by (auto simp: f)
  then have "ctx_red col' (cr @ (d, y, l) # c) = ctx_red col (cr @ (d, z, l) # c)"
    by (cases cr rule: ctx_set.cases) (auto simp: col')
  moreover have "rbt col' k s = rbt col k s" "root_red col' s = root_red col s" "col' a = col a" for k
    using y by (simp_all add: col')
  ultimately show ?case using Cons.IH[OF y(3)] by (simp add: f)
qed

text \<open>What \<open>kapi_unlink\<close> leaves, for a tree with the elements \<open>xs\<close> once the node is gone.\<close>

definition unlinked :: "'a heap \<Rightarrow> u64 tree \<Rightarrow> u64 list \<Rightarrow> 'a heap \<Rightarrow> u64 \<Rightarrow> u64 \<Rightarrow> u64 \<Rightarrow> int \<Rightarrow> bool" where
  "unlinked h t xs h' root' v par color \<longleftrightarrow> (\<exists>c1 t1. tree_ok h' (ktree root') (plug c1 t1) \<and> coloured h' (plug c1 t1) \<and>
     inorder (plug c1 t1) = xs \<and> v = root_ptr 0 t1 \<and> par = ctx_parent 0 c1 \<and> repainted h t h' \<and>
     (if color = KAPI_RB_BLACK then deficient (kred h') 0 t1 \<and> rb_ctx (kred h') (Suc 0) c1 else krbt h' root' (plug c1 t1)))"

lemma unlinkedI:
  assumes ok: "tree_ok h' (ktree root') (plug c1 t1)" "coloured h' (plug c1 t1)" "inorder (plug c1 t1) = xs" "repainted h t h'"
    and v: "v = root_ptr 0 t1" "par = ctx_parent 0 c1"
    and col: "rbt (kred h') 0 t1" "color = KAPI_RB_RED \<or> color = KAPI_RB_BLACK"
      "color = KAPI_RB_RED \<Longrightarrow> rb_ctx (kred h') 0 c1 \<and> \<not> root_red (kred h') t1 \<and> c1 \<noteq> []"
      "color = KAPI_RB_BLACK \<Longrightarrow> rb_ctx (kred h') (Suc 0) c1"
  shows "unlinked h t xs h' root' v par color"
proof -
  have dist: "distinct (inorder t1)" using plug_members(3)[OF ok(1)] inorder_plug_distinct[of c1 t1] by blast
  have "deficient (kred h') 0 t1 \<and> rb_ctx (kred h') (Suc 0) c1" if "color = KAPI_RB_BLACK"
    using rbt_deficient[OF col(1) dist] col(4) that by blast
  moreover have "krbt h' root' (plug c1 t1)" if "color \<noteq> KAPI_RB_BLACK"
  proof -
    have c: "rb_ctx (kred h') 0 c1" "\<not> root_red (kred h') t1" "c1 \<noteq> []" using col(2,3) that by auto
    show ?thesis using rbt_plug[OF col(1) c(1)] c(2,3) ok(1,2) unfolding krbt_def by auto
  qed
  ultimately show ?thesis unfolding unlinked_def using ok v by (intro exI[of _ c1] exI[of _ t1]) simp
qed

lemma unlink_one:
  assumes t: "krbt h root (plug c (mk d Leaf z s))"
    and sp: "kapi_splice h root z (rb_parent (h z)) (child (\<not> d) (h z)) = (h', root')"
  shows "unlinked h (plug c (mk d Leaf z s)) (ctx_pre c @ inorder s @ ctx_post c) h' root'
    (child (\<not> d) (h z)) (rb_parent (h z)) (rb_color (h z))"
proof -
  let ?t = "plug c (mk d Leaf z s)"
  obtain m where ok: "tree_ok h (ktree root) ?t" "coloured h ?t" and rb: "rbt (kred h) m ?t" "\<not> root_red (kred h) ?t"
    using t by (auto simp: krbt_def)
  note k = kapi_splice_tree[OF ok(1) sp]
  have kr: "kred h' = kred h" using data_eqD[OF k(2)] by (simp add: fun_eq_iff)
  note u = unlink_colours[OF rb, folded kr]
  show ?thesis
  proof (rule unlinkedI[OF k(1)])
    show "coloured h' (plug c s)" using ok(2) data_eqD[OF k(2)] by (auto simp: coloured_def set_tree_plug)
    show "inorder (plug c s) = ctx_pre c @ inorder s @ ctx_post c" by (rule inorder_plug)
    show "repainted h ?t h'" using info_data[OF k(2)] k(3) by (auto simp: repainted_def set_tree_plug)
    show "child (\<not> d) (h z) = root_ptr 0 s" using tree_ok_child(2)[OF ok(1)] by simp
    show "rb_parent (h z) = ctx_parent 0 c" using tree_ok_parent[OF ok(1)] by simp
    show "rbt (kred h') 0 s" by (rule u(1))
    have "z \<in> set_tree ?t" by (simp add: set_tree_plug)
    then show "rb_color (h z) = KAPI_RB_RED \<or> rb_color (h z) = KAPI_RB_BLACK" using ok(2) unfolding coloured_def by blast
    have kz: "kred h' z = kred h z" using fun_cong[OF kr] .
    show "rb_color (h z) = KAPI_RB_RED \<Longrightarrow> rb_ctx (kred h') 0 c \<and> \<not> root_red (kred h') s \<and> c \<noteq> []" using u(2) kz by blast
    show "rb_color (h z) = KAPI_RB_BLACK \<Longrightarrow> rb_ctx (kred h') (Suc 0) c" using u(3) kz by simp
  qed
qed

lemma unlink_two:
  assumes t: "krbt h root (plug c (Node l z r))" and l: "l \<noteq> Leaf"
    and y: "plug cr (Node Leaf y yr) = r" "ctx_pre cr = []"
    and sp: "kapi_splice h root y (rb_parent (h y)) (rb_right (h y)) = (h1, root1)"
    and tp: "kapi_take_place h1 root1 z y = (h2, root2)"
  shows "unlinked h (plug c (Node l z r)) (ctx_pre c @ inorder l @ inorder r @ ctx_post c) h2 root2
    (rb_right (h y)) (if rb_parent (h1 y) = z then y else rb_parent (h y)) (rb_color (h y))"
proof -
  let ?t = "plug c (Node l z r)"
  define c0 c1 where "c0 = cr @ (False, z, l) # c" and "c1 = cr @ (False, y, l) # c"
  have t0: "?t = plug c0 (mk True Leaf y yr)" using y(1) by (simp add: c0_def plug_append)
  obtain m where ok: "tree_ok h (ktree root) ?t" "coloured h ?t" and rb: "rbt (kred h) m ?t" "\<not> root_red (kred h) ?t"
    using t by (auto simp: krbt_def)
  have sp': "kapi_splice h root y (rb_parent (h y)) (child (\<not> True) (h y)) = (h1, root1)" using sp by simp
  note k = kapi_splice_tree[OF ok(1)[unfolded t0] sp']
  have t1: "plug c0 yr = plug c (Node l z (plug cr yr))" by (simp add: c0_def plug_append)
  have dist: "distinct (inorder (plug c0 (mk True Leaf y yr)))" using plug_members(3)[OF ok(1)] t0 by simp
  then have yn: "y \<notin> ctx_set c0" "y \<notin> set_tree yr" using inorder_plug_distinct[of c0 "mk True Leaf y yr"] by auto
  have y0: "y \<noteq> 0" using plug_members(1)[OF ok(1)[unfolded t0]] by auto
  have y1: "y \<notin> set_tree (plug c (Node l z (plug cr yr)))" using yn unfolding t1[symmetric] by (simp add: set_tree_plug)
  note p = kapi_take_place_tree[OF k(1)[unfolded t1] l y1 y0 tp]
  have t2: "plug c (Node l y (plug cr yr)) = plug c1 yr" by (simp add: c1_def plug_append)
  have col: "rb_color (h2 a) = (if a = y then rb_color (h z) else rb_color (h a))" for a
    using p(3)[of a] data_eqD[OF k(2)] by simp
  then have kr: "kred h2 = (kred h)(y := kred h z)" by (auto simp: fun_eq_iff)
  note u = unlink_colours[OF rb[unfolded t0]]
  have rn: "rb_ctx (kred h2) n c1 = rb_ctx (kred h) n c0" for n
    unfolding c0_def c1_def using yn(1) by (intro rb_ctx_rename[OF _ kr]) (simp add: c0_def)
  have yr: "rbt (kred h2) n yr = rbt (kred h) n yr" "root_red (kred h2) yr = root_red (kred h) yr" for n
    unfolding kr using yn(2) by simp_all
  have sets: "set_tree (plug c1 yr) \<subseteq> set_tree ?t" "z \<in> set_tree ?t" "y \<in> set_tree ?t"
      "insert y (set_tree (plug c (Node l z (plug cr yr)))) = set_tree ?t"
    unfolding t1[symmetric] t0 by (auto simp: set_tree_plug c0_def c1_def)
       (use set_tree_plug[of "cr @ (False, y, l) # c" Leaf] set_tree_plug[of "cr @ (False, z, l) # c" Leaf]
          set_tree_plug[of cr] in \<open>auto simp: plug_append set_tree_plug\<close>)
  have par: "rb_parent (h1 y) = ctx_parent z cr" "rb_parent (h y) = ctx_parent z cr"
  proof -
    show "rb_parent (h y) = ctx_parent z cr" using tree_ok_parent[OF ok(1)[unfolded t0]] by (simp add: c0_def ctx_append)
    moreover have "h1 y = h y" using k(3)[of y] yn by (simp add: set_tree_plug)
    ultimately show "rb_parent (h1 y) = ctx_parent z cr" by simp
  qed
  show ?thesis
  proof (rule unlinkedI[OF p(1)[unfolded t2]])
    show "coloured h2 (plug c1 yr)" using ok(2) sets col by (auto simp: coloured_def)
    show "inorder (plug c1 yr) = ctx_pre c @ inorder l @ inorder r @ ctx_post c"
      unfolding t2[symmetric] using y inorder_plug[of cr "Node Leaf y yr"] by (simp add: inorder_plug)
    show "repainted h ?t h2"
    proof -
      have "info (h2 a) = info (h a)" for a using p(2)[of a] info_data[OF k(2)] by metis
      moreover have "h2 a = h a" if "a \<notin> set_tree ?t" for a
        using p(4)[of a] k(3)[of a] that unfolding sets(4)[symmetric] t1 by simp
      ultimately show ?thesis by (simp add: repainted_def)
    qed
    show "rb_right (h y) = root_ptr 0 yr" using tree_ok_child(2)[OF ok(1)[unfolded t0]] by simp
    show "(if rb_parent (h1 y) = z then y else rb_parent (h y)) = ctx_parent 0 c1"
    proof (cases cr rule: ctx_set.cases)
      case 1
      then show ?thesis using par by (simp add: c1_def)
    next
      case (2 e q s cr')
      have "z \<noteq> q" using dist inorder_plug_distinct[of c "Node l z r"] set_tree_plug[of cr "Node Leaf y yr"] y(1) t0 2 by auto
      then show ?thesis using par 2 by (simp add: c1_def)
    qed
    show "rbt (kred h2) 0 yr" using u(1) yr by simp
    show "rb_color (h y) = KAPI_RB_RED \<or> rb_color (h y) = KAPI_RB_BLACK" using ok(2) sets(3) unfolding coloured_def by blast
    show "rb_color (h y) = KAPI_RB_RED \<Longrightarrow> rb_ctx (kred h2) 0 c1 \<and> \<not> root_red (kred h2) yr \<and> c1 \<noteq> []"
      using u(2) rn yr by (simp add: c1_def)
    show "rb_color (h y) = KAPI_RB_BLACK \<Longrightarrow> rb_ctx (kred h2) (Suc 0) c1" using u(3) rn by simp
  qed
qed

lemma tree_at: "z \<in> set_tree t \<Longrightarrow> \<exists>c l r. t = plug c (Node l z r)"
proof (induction t)
  case (Node l a r)
  consider "z = a" | "z \<in> set_tree l" | "z \<in> set_tree r" using Node.prems by auto
  then show ?case
  proof cases
    case 1
    then show ?thesis by (metis plug.simps(1))
  next
    case 2
    then obtain c l' r' where "l = plug c (Node l' z r')" using Node.IH(1) by blast
    then have "Node l a r = plug (c @ [(True, a, r)]) (Node l' z r')" by (simp add: plug_append)
    then show ?thesis by blast
  next
    case 3
    then obtain c l' r' where "r = plug c (Node l' z r')" using Node.IH(2) by blast
    then have "Node l a r = plug (c @ [(False, a, l)]) (Node l' z r')" by (simp add: plug_append)
    then show ?thesis by blast
  qed
qed simp

lemma kapi_unlink_spec:
  assumes t: "krbt h root (plug c (Node l z r))"
  shows "\<exists>h' root' v par color. kapi_unlink h root z = Some (h', root', v, par, color) \<and>
    unlinked h (plug c (Node l z r)) (ctx_pre c @ inorder l @ inorder r @ ctx_post c) h' root' v par color"
proof -
  have ok: "tree_ok h (ktree root) (plug c (Node l z r))" using t by (simp add: krbt_def)
  have zc: "rb_left (h z) = root_ptr 0 l" "rb_right (h z) = root_ptr 0 r"
    using tree_ok_child(1,2)[of h "ktree root" c True l z r] ok by simp_all
  have "0 \<notin> set_tree l" "0 \<notin> set_tree r" using plug_members(1)[OF ok] by simp_all
  then have nonleaf: "root_ptr 0 l = 0 \<longleftrightarrow> l = Leaf" "root_ptr 0 r = 0 \<longleftrightarrow> r = Leaf"
    by (cases l; cases r; auto)+
  consider d s where "Node l z r = mk d Leaf z s" "(if rb_left (h z) = 0 then rb_right (h z) else rb_left (h z)) = child (\<not> d) (h z)"
      "l = Leaf \<or> r = Leaf" | "l \<noteq> Leaf" "r \<noteq> Leaf"
  proof (cases "l = Leaf")
    case True
    then show thesis using that(1)[of True r] zc by simp
  next
    case False
    then show thesis using that(1)[of False l] that(2) zc nonleaf by (cases "r = Leaf") auto
  qed
  then show ?thesis
  proof cases
    case 1
    obtain h' root' where sp: "kapi_splice h root z (rb_parent (h z)) (child (\<not> d) (h z)) = (h', root')" by fastforce
    have "kapi_unlink h root z = Some (h', root', child (\<not> d) (h z), rb_parent (h z), rb_color (h z))"
      using 1(2,3) sp zc nonleaf by (auto simp: kapi_unlink_def Let_def)
    moreover have "inorder s = inorder l @ inorder r" using 1(1) by (cases d) auto
    ultimately show ?thesis using unlink_one[of h root c d z s h' root'] t sp unfolding 1(1) by auto
  next
    case 2
    obtain rl ra rr where r: "r = Node rl ra rr" using 2 by (cases r) auto
    have "shape h 0 z (rb_right (h z)) (Node rl ra rr)" using ok r by (simp add: tree_ok_def shape_plug)
    then obtain cr y yr where y: "plug cr (Node Leaf y yr) = r" "kapi_leftmost h (rb_right (h z)) = Some y" "ctx_pre cr = []"
      using leftmost_ctx r by blast
    obtain h1 root1 where sp: "kapi_splice h root y (rb_parent (h y)) (rb_right (h y)) = (h1, root1)" by fastforce
    obtain h2 root2 where tp: "kapi_take_place h1 root1 z y = (h2, root2)" by fastforce
    have "kapi_unlink h root z = Some (h2, root2, rb_right (h y), if rb_parent (h1 y) = z then y else rb_parent (h y), rb_color (h y))"
      using 2 zc nonleaf y(2) sp tp by (simp add: kapi_unlink_def Let_def)
    then show ?thesis using unlink_two[OF t 2(1) y(1,3) sp tp] by blast
  qed
qed

lemma kapi_rb_erase_spec:
  assumes t: "krbt h root t" and z: "inorder t = xs @ z # ys"
  shows "\<exists>h' root' t'. kapi_rb_erase h root z = Some (h', root') \<and> krbt h' root' t' \<and> inorder t' = xs @ ys \<and>
    (\<forall>a. info (h' a) = info (h a)) \<and> (\<forall>a. a \<notin> set_tree t \<longrightarrow> h' a = h a)"
proof -
  have "z \<in> set_tree t" using z by (metis in_set_conv_decomp set_inorder)
  then obtain c l r where c: "t = plug c (Node l z r)"
    by (metis tree_at)
  have "distinct (inorder t)" using t by (simp add: krbt_def tree_ok_def)
  then have "z \<notin> set xs" "z \<notin> set ys" unfolding z by auto
  moreover have "xs @ z # ys = (ctx_pre c @ inorder l) @ z # (inorder r @ ctx_post c)"
    using z unfolding c inorder_plug by simp
  ultimately have xy: "xs = ctx_pre c @ inorder l" "ys = inorder r @ ctx_post c"
    by (metis append_Cons_eq_iff)+
  obtain h1 root1 v par color where u: "kapi_unlink h root z = Some (h1, root1, v, par, color)"
      "unlinked h t (xs @ ys) h1 root1 v par color"
    using kapi_unlink_spec[of h root c l z r] t xy unfolding c by auto
  then obtain c1 t1 where k: "tree_ok h1 (ktree root1) (plug c1 t1)" "coloured h1 (plug c1 t1)" "inorder (plug c1 t1) = xs @ ys"
      "v = root_ptr 0 t1" "par = ctx_parent 0 c1" "repainted h t h1"
      "color = KAPI_RB_BLACK \<Longrightarrow> deficient (kred h1) 0 t1 \<and> rb_ctx (kred h1) (Suc 0) c1"
      "color \<noteq> KAPI_RB_BLACK \<Longrightarrow> krbt h1 root1 (plug c1 t1)"
    unfolding unlinked_def by (auto split: if_splits)
  show ?thesis
  proof (cases "color = KAPI_RB_BLACK")
    case True
    then obtain h' root' where e: "kapi_erase_loop h1 root1 v par = Some (h', root')" "repaired h1 (plug c1 t1) h' root'"
      using kapi_erase_repaired[OF k(1,2)] k(4,5,7) by blast
    have "kapi_rb_erase h root z = Some (h', root')" using u(1) e(1) True by (simp add: kapi_rb_erase_def)
    moreover obtain t' where "krbt h' root' t'" "inorder t' = xs @ ys" "repainted h1 (plug c1 t1) h'"
      using e(2) k(3) by (auto simp: repaired_def)
    moreover have "set (inorder (plug c1 t1)) \<subseteq> set (inorder t)" unfolding k(3) z by auto
    then have "set_tree (plug c1 t1) \<subseteq> set_tree t" by simp
    ultimately show ?thesis using k(6) unfolding repainted_def by (intro exI[of _ h'] exI[of _ root'] exI[of _ t']) auto
  next
    case False
    then have "kapi_rb_erase h root z = Some (h1, root1)" using u(1) by (simp add: kapi_rb_erase_def)
    then show ?thesis using k(3,6) k(8)[OF False] unfolding repainted_def
      by (intro exI[of _ h1] exI[of _ root1] exI[of _ "plug c1 t1"]) auto
  qed
qed

subsection \<open>Searching\<close>

lemma kapi_rb_first_spec:
  assumes "krbt h root t"
  shows "kapi_rb_first h root = Some (case inorder t of [] \<Rightarrow> 0 | a # _ \<Rightarrow> a)"
proof (cases t)
  case Leaf
  then show ?thesis using assms by (simp add: kapi_rb_first_def krbt_def tree_ok_def)
next
  case (Node l a r)
  have sh: "shape h 0 0 root (Node l a r)" using assms Node by (simp add: krbt_def tree_ok_def)
  obtain c y yr where c: "plug c (Node Leaf y yr) = Node l a r" "kapi_leftmost h root = Some y" "ctx_pre c = []"
    using leftmost_ctx[OF sh] by blast
  have "inorder t = y # inorder yr @ ctx_post c"
    using inorder_plug[of c "Node Leaf y yr"] c(1,3) Node by simp
  then show ?thesis using c(2) sh by (simp add: kapi_rb_first_def)
qed

text \<open>Climbing out of right subtrees leads to the first node behind the context, or to \<open>NULL\<close>.\<close>

lemma kapi_climb_ctx:
  assumes "shape_ctx h 0 root c x" "x \<noteq> 0" "distinct (inorder (plug c Leaf))" "x \<notin> ctx_set c"
  shows "kapi_climb h x (ctx_parent 0 c) = Some (case ctx_post c of [] \<Rightarrow> 0 | a # _ \<Rightarrow> a)"
  using assms
proof (induction c arbitrary: x)
  case Nil
  then show ?case by (simp add: kapi_climb.simps)
next
  case (Cons f c)
  obtain d a s where f: "f = (d, a, s)" by (cases f)
  have a: "a \<noteq> 0" "child d (h a) = x" "rb_parent (h a) = ctx_parent 0 c" "shape h 0 a (child (\<not> d) (h a)) s" "shape_ctx h 0 root c a"
    using Cons.prems(1) f by simp_all
  show ?case
  proof (cases d)
    case True
    have "x \<noteq> rb_right (h a)" using a(4) True Cons.prems(2,4) f by (cases s) auto
    then show ?thesis using a True f by (simp add: kapi_climb.simps)
  next
    case False
    have "kapi_climb h a (ctx_parent 0 c) = Some (case ctx_post c of [] \<Rightarrow> 0 | a # _ \<Rightarrow> a)"
    proof (rule Cons.IH[OF a(5,1)])
      have d: "distinct (inorder (plug ((d, a, s) # c) Leaf))" using Cons.prems(3) f by simp
      then show "a \<notin> ctx_set c" by (rule ctx_frame_distinct)
      show "distinct (inorder (plug c Leaf))" using d inorder_plug_distinct[of c "mk d Leaf a s"] by simp
    qed
    then show ?thesis using a False f by (subst kapi_climb.simps) simp
  qed
qed

lemma kapi_rb_next_spec:
  assumes t: "krbt h root t" and z: "inorder t = xs @ z # ys"
  shows "kapi_rb_next h z = Some (case ys of [] \<Rightarrow> 0 | a # _ \<Rightarrow> a)"
proof -
  have "z \<in> set_tree t" using z by (metis in_set_conv_decomp set_inorder)
  then obtain c l r where c: "t = plug c (Node l z r)" using tree_at by metis
  have ok: "tree_ok h (ktree root) (plug c (Node l z r))" using t c by (simp add: krbt_def)
  have "distinct (inorder t)" using t by (simp add: krbt_def tree_ok_def)
  then have "z \<notin> set xs" "z \<notin> set ys" unfolding z by auto
  moreover have "xs @ z # ys = (ctx_pre c @ inorder l) @ z # (inorder r @ ctx_post c)"
    using z unfolding c inorder_plug by simp
  ultimately have ys: "ys = inorder r @ ctx_post c" by (metis append_Cons_eq_iff)
  have sh: "shape_ctx h 0 root c z" "shape h 0 (ctx_parent 0 c) z (Node l z r)"
    and dist: "distinct (inorder (plug c Leaf))" "ctx_set c \<inter> set_tree (Node l z r) = {}"
    using ok inorder_plug_distinct[of c "Node l z r"] by (simp_all add: tree_ok_def shape_plug)
  show ?thesis
  proof (cases r)
    case Leaf
    have "kapi_climb h z (ctx_parent 0 c) = Some (case ctx_post c of [] \<Rightarrow> 0 | a # _ \<Rightarrow> a)"
      using kapi_climb_ctx[OF sh(1) _ dist(1)] sh(2) dist(2) by simp
    then show ?thesis using Leaf sh(2) ys by (simp add: kapi_rb_next_def)
  next
    case (Node rl ra rr)
    then have "shape h 0 z (rb_right (h z)) (Node rl ra rr)" "rb_right (h z) \<noteq> 0" using sh(2) by auto
    then obtain cr y yr where y: "plug cr (Node Leaf y yr) = r" "kapi_leftmost h (rb_right (h z)) = Some y" "ctx_pre cr = []"
      using leftmost_ctx Node by blast
    have "inorder r = y # inorder yr @ ctx_post cr" using inorder_plug[of cr "Node Leaf y yr"] y(1,3) by simp
    then show ?thesis using y(2) \<open>rb_right (h z) \<noteq> 0\<close> ys by (simp add: kapi_rb_next_def)
  qed
qed

text \<open>Following \<open>kapi_rb_first\<close> and \<open>kapi_rb_next\<close> as the callers' loops do.\<close>

fun kapi_walk :: "'a heap \<Rightarrow> u64 \<Rightarrow> nat \<Rightarrow> u64 option" where
  "kapi_walk h root 0 = kapi_rb_first h root"
| "kapi_walk h root (Suc k) = (case kapi_walk h root k of None \<Rightarrow> None | Some a \<Rightarrow> kapi_rb_next h a)"

lemma kapi_walk_spec:
  assumes "krbt h root t" "k \<le> size t"
  shows "kapi_walk h root k = Some (if k < size t then inorder t ! k else 0)"
  using assms(2)
proof (induction k)
  case 0
  show ?case using kapi_rb_first_spec[OF assms(1)] by (cases "inorder t") (auto simp: length_inorder[symmetric])
next
  case (Suc k)
  then have k: "k < length (inorder t)" by simp
  have "inorder t = take k (inorder t) @ inorder t ! k # drop (Suc k) (inorder t)" using k by (rule id_take_nth_drop)
  from kapi_rb_next_spec[OF assms(1) this] have "kapi_rb_next h (inorder t ! k) =
      Some (case drop (Suc k) (inorder t) of [] \<Rightarrow> 0 | a # _ \<Rightarrow> a)" .
  moreover have "drop (Suc k) (inorder t) = inorder t ! Suc k # drop (Suc (Suc k)) (inorder t)" if "Suc k < size t"
    using that by (simp add: Cons_nth_drop_Suc)
  moreover have "kapi_walk h root (Suc k) = kapi_rb_next h (inorder t ! k)" using Suc.IH k by simp
  ultimately show ?case using k by (cases "Suc k < size t") (auto simp del: kapi_walk.simps)
qed

context tree_order
begin

lemma kapi_find_spec:
  assumes "shape h 0 par x t" "insert key (set_tree t) \<subseteq> carrier" "ordered (inorder t)"
  shows "\<exists>a. kapi_find_loop cmp h key x = Some a \<and>
    (if a = 0 then \<forall>q\<in>set_tree t. cmp key q \<noteq> 0 else a \<in> set_tree t \<and> cmp key a = 0)"
  using assms
proof (induction t arbitrary: par x)
  case Leaf
  then show ?case by (simp add: kapi_find_loop.simps)
next
  case (Node l a r)
  have x: "x = a" "a \<noteq> 0" "shape h 0 a (rb_left (h a)) l" "shape h 0 a (rb_right (h a)) r" using Node.prems(1) by simp_all
  have parts: "ordered (inorder l)" "ordered (inorder r)" "\<forall>q\<in>set_tree l. cmp q a \<le> 0" "\<forall>q\<in>set_tree r. cmp a q \<le> 0"
      and car: "key \<in> carrier" "a \<in> carrier" "set_tree l \<subseteq> carrier" "set_tree r \<subseteq> carrier"
    using Node.prems(2,3) by (auto simp: sorted_wrt_append)
  consider "cmp key a < 0" | "cmp key a > 0" | "cmp key a = 0" by linarith
  then show ?case
  proof cases
    case 1
    have "cmp key q \<noteq> 0" if "q \<in> set_tree r" for q using cmp_less_le_trans[of key a q] 1 parts(4) car that by force
    moreover obtain b where "kapi_find_loop cmp h key (rb_left (h a)) = Some b"
        "if b = 0 then \<forall>q\<in>set_tree l. cmp key q \<noteq> 0 else b \<in> set_tree l \<and> cmp key b = 0"
      using Node.IH(1)[OF x(3)] car parts(1) by auto
    ultimately show ?thesis using 1 x(1,2) by (subst kapi_find_loop.simps) (auto split: if_splits)
  next
    case 2
    have "cmp key q \<noteq> 0" if "q \<in> set_tree l" for q
    proof
      assume "cmp key q = 0"
      moreover have "cmp q a \<le> 0" using parts(3) that by blast
      ultimately have "cmp key a \<le> 0" using cmp_trans[of key q a] car that by auto
      then show False using 2 by simp
    qed
    moreover obtain b where "kapi_find_loop cmp h key (rb_right (h a)) = Some b"
        "if b = 0 then \<forall>q\<in>set_tree r. cmp key q \<noteq> 0 else b \<in> set_tree r \<and> cmp key b = 0"
      using Node.IH(2)[OF x(4)] car parts(2) by auto
    ultimately show ?thesis using 2 x(1,2) by (subst kapi_find_loop.simps) (auto split: if_splits)
  next
    case 3
    then show ?thesis using x(1,2) by (subst kapi_find_loop.simps) auto
  qed
qed

end

subsection \<open>Comparing keys as bytes\<close>

text \<open>The usual comparison: nodes by \<open>memcmp\<close> of their keys, each of \<open>n\<close> bytes.\<close>

definition key_cmp :: "(u64 \<Rightarrow> u8 list) \<Rightarrow> nat \<Rightarrow> u64 \<Rightarrow> u64 \<Rightarrow> int" where
  "key_cmp key n a b = memcmp_of n (key a) (key b)"

interpretation keyed: tree_order "{a. length (key a) = n}" "key_cmp key n"
proof
  fix x assume "x \<in> {a. length (key a) = n}"
  then show "key_cmp key n x x \<le> 0" using bytes.cmp_refl[of "key x" n] by (simp add: key_cmp_def)
next
  fix x y assume "x \<in> {a. length (key a) = n}" "y \<in> {a. length (key a) = n}" "key_cmp key n x y > 0"
  then show "key_cmp key n y x \<le> 0" using bytes.cmp_total[of "key x" n "key y"] by (simp add: key_cmp_def)
next
  fix x y z
  assume "x \<in> {a. length (key a) = n}" "y \<in> {a. length (key a) = n}" "z \<in> {a. length (key a) = n}"
    "key_cmp key n x y \<le> 0" "key_cmp key n y z \<le> 0"
  then show "key_cmp key n x z \<le> 0" using bytes.cmp_trans[of "key x" n "key y" "key z"] by (simp add: key_cmp_def)
next
  fix x y assume l: "x \<in> {a. length (key a) = n}" "y \<in> {a. length (key a) = n}"
  then obtain r where "memcmp (key x) (key y) n = Some r" using memcmp_of_total[of "key x" n "key y"] by auto
  then show "key_cmp key n x y < 0 \<longleftrightarrow> key_cmp key n y x > 0"
    using memcmp_swap[of "key x" n "key y"] l by (simp add: key_cmp_def memcmp_of_def)
qed

subsection \<open>Properties\<close>

datatype rb_op = Ins u64 | Del u64

text \<open>
  A history of calls on one root, and the nodes that are in the tree after it: \<open>None\<close> for a
  history that inserts a node twice, or \<open>NULL\<close>, or removes a node that is not there.
\<close>

fun rb_run :: "(u64 \<Rightarrow> u64 \<Rightarrow> int) \<Rightarrow> 'a heap \<Rightarrow> u64 \<Rightarrow> rb_op list \<Rightarrow> ('a heap \<times> u64) option" where
  "rb_run cmp h root [] = Some (h, root)"
| "rb_run cmp h root (Ins a # ops) =
     (case kapi_rb_insert cmp h root a of None \<Rightarrow> None | Some (h', root') \<Rightarrow> rb_run cmp h' root' ops)"
| "rb_run cmp h root (Del a # ops) =
     (case kapi_rb_erase h root a of None \<Rightarrow> None | Some (h', root') \<Rightarrow> rb_run cmp h' root' ops)"

fun rb_members :: "u64 set \<Rightarrow> rb_op list \<Rightarrow> u64 set option" where
  "rb_members S [] = Some S"
| "rb_members S (Ins a # ops) = (if a = 0 \<or> a \<in> S then None else rb_members (insert a S) ops)"
| "rb_members S (Del a # ops) = (if a \<in> S then rb_members (S - {a}) ops else None)"

fun op_node :: "rb_op \<Rightarrow> u64" where
  "op_node (Ins a) = a"
| "op_node (Del a) = a"

context tree_order
begin

lemma rb_run_spec:
  assumes "krbt h root t" "ordered (inorder t)" "set_tree t \<subseteq> carrier" "op_node ` set ops \<subseteq> carrier"
    "rb_members (set_tree t) ops = Some S"
  shows "\<exists>h' root' t'. rb_run cmp h root ops = Some (h', root') \<and> krbt h' root' t' \<and> ordered (inorder t') \<and> set_tree t' = S"
  using assms
proof (induction ops arbitrary: h root t)
  case (Cons x ops)
  show ?case
  proof (cases x)
    case (Ins a)
    have a: "a \<notin> set_tree t" "a \<noteq> 0" "insert a (set_tree t) \<subseteq> carrier" "rb_members (insert a (set_tree t)) ops = Some S"
      using Cons.prems(3-5) Ins by (auto split: if_splits)
    obtain h1 root1 t1 xs ys where r: "kapi_rb_insert cmp h root a = Some (h1, root1)" "krbt h1 root1 t1" "inorder t = xs @ ys"
        "inorder t1 = xs @ a # ys" "ordered (inorder t1)"
      using kapi_rb_insert_spec[OF Cons.prems(1,2) a(1-3)] by blast
    have "set_tree t1 = insert a (set_tree t)" unfolding set_inorder[symmetric] r(3,4) by auto
    then show ?thesis using Cons.IH[OF r(2,5)] a(3,4) Cons.prems(4) r(1) Ins by auto
  next
    case (Del a)
    have a: "a \<in> set_tree t" "rb_members (set_tree t - {a}) ops = Some S"
      using Cons.prems(5) Del by (auto split: if_splits)
    have dist: "distinct (inorder t)" using Cons.prems(1) by (simp add: krbt_def tree_ok_def)
    obtain xs ys where xy: "inorder t = xs @ a # ys" using a(1) by (metis set_inorder split_list)
    obtain h1 root1 t1 where r: "kapi_rb_erase h root a = Some (h1, root1)" "krbt h1 root1 t1" "inorder t1 = xs @ ys"
      using kapi_rb_erase_spec[OF Cons.prems(1) xy] by blast
    have "set_tree t1 = set_tree t - {a}" using dist unfolding set_inorder[symmetric] r(3) xy by auto
    moreover have "ordered (inorder t1)" unfolding r(3) using ordered_remove Cons.prems(2) unfolding xy by blast
    moreover have "set_tree t - {a} \<subseteq> carrier" using Cons.prems(3) by blast
    ultimately show ?thesis using Cons.IH[OF r(2)] a(2) Cons.prems(4) r(1) Del by auto
  qed
qed auto

end

text \<open>C12. The red-black tree of the K API is a list of nodes in the order of the caller's comparison.
  On a well-formed tree \<open>kapi_rb_insert\<close> ends and puts a new node behind the nodes that are not
  greater and before the greater ones; \<open>kapi_rb_erase\<close> ends and takes a node out of the list; the
  tree stays a red-black tree, and nothing but links and colours of its nodes (and of the new
  node) changes. \<open>kapi_rb_find\<close> returns a node equal to the key, or \<open>NULL\<close> if there is none.\<close>
theorem kapi_rb_refines_ordered_list:
  assumes "tree_order A cmp" "krbt h root t" "sorted_wrt (\<lambda>a b. cmp a b \<le> 0) (inorder t)" "set_tree t \<subseteq> A"
  shows "(\<forall>node. node \<in> A \<and> node \<noteq> 0 \<and> node \<notin> set_tree t \<longrightarrow>
      (\<exists>h' root' t' xs ys. kapi_rb_insert cmp h root node = Some (h', root') \<and> krbt h' root' t' \<and>
         inorder t = xs @ ys \<and> inorder t' = xs @ node # ys \<and> (\<forall>x\<in>set xs. cmp x node \<le> 0) \<and> (\<forall>y\<in>set ys. cmp node y < 0) \<and>
         (\<forall>a. info (h' a) = info (h a)) \<and> (\<forall>a. a \<notin> insert node (set_tree t) \<longrightarrow> h' a = h a))) \<and>
    (\<forall>xs z ys. inorder t = xs @ z # ys \<longrightarrow>
      (\<exists>h' root' t'. kapi_rb_erase h root z = Some (h', root') \<and> krbt h' root' t' \<and> inorder t' = xs @ ys \<and>
         (\<forall>a. info (h' a) = info (h a)) \<and> (\<forall>a. a \<notin> set_tree t \<longrightarrow> h' a = h a))) \<and>
    (\<forall>key. key \<in> A \<longrightarrow> (\<exists>a. kapi_rb_find cmp h root key = Some a \<and>
         (if a = 0 then \<forall>q\<in>set_tree t. cmp key q \<noteq> 0 else a \<in> set_tree t \<and> cmp key a = 0)))"
proof -
  have sh: "shape h 0 0 root t" using assms(2) by (simp add: krbt_def tree_ok_def)
  show ?thesis
  proof (intro conjI allI impI)
    fix node assume "node \<in> A \<and> node \<noteq> 0 \<and> node \<notin> set_tree t"
    then show "\<exists>h' root' t' xs ys. kapi_rb_insert cmp h root node = Some (h', root') \<and> krbt h' root' t' \<and>
         inorder t = xs @ ys \<and> inorder t' = xs @ node # ys \<and> (\<forall>x\<in>set xs. cmp x node \<le> 0) \<and> (\<forall>y\<in>set ys. cmp node y < 0) \<and>
         (\<forall>a. info (h' a) = info (h a)) \<and> (\<forall>a. a \<notin> insert node (set_tree t) \<longrightarrow> h' a = h a)"
      using tree_order.kapi_rb_insert_spec[OF assms(1-3), of node] assms(4) by blast
  next
    fix xs z ys assume "inorder t = xs @ z # ys"
    then show "\<exists>h' root' t'. kapi_rb_erase h root z = Some (h', root') \<and> krbt h' root' t' \<and> inorder t' = xs @ ys \<and>
         (\<forall>a. info (h' a) = info (h a)) \<and> (\<forall>a. a \<notin> set_tree t \<longrightarrow> h' a = h a)"
      by (rule kapi_rb_erase_spec[OF assms(2)])
  next
    fix key assume "key \<in> A"
    then show "\<exists>a. kapi_rb_find cmp h root key = Some a \<and>
         (if a = 0 then \<forall>q\<in>set_tree t. cmp key q \<noteq> 0 else a \<in> set_tree t \<and> cmp key a = 0)"
      unfolding kapi_rb_find_def using tree_order.kapi_find_spec[OF assms(1) sh _ assms(3)] assms(4) by blast
  qed
qed

lemma krbt_empty: "krbt h 0 Leaf"
  by (simp add: krbt_def tree_ok_def coloured_def)

theorem kapi_rb_refines_ordered_list_witness:
  "\<exists>h' root' t'. kapi_rb_insert (key_cmp (\<lambda>a. [ucast a]) 1) (\<lambda>_. \<lparr>rb_parent = 0, rb_left = 0, rb_right = 0, rb_color = 0\<rparr>) 0 0x100
      = Some (h', root') \<and> krbt h' root' t' \<and> inorder t' = [0x100]"
proof -
  let ?h = "\<lambda>_. \<lparr>rb_parent = 0, rb_left = 0, rb_right = 0, rb_color = 0\<rparr>"
  let ?A = "{a :: u64. length [ucast a :: u8] = 1}" and ?cmp = "key_cmp (\<lambda>a. [ucast a]) 1"
  have "tree_order ?A ?cmp" by (rule keyed.tree_order_axioms)
  note p = kapi_rb_refines_ordered_list[OF this krbt_empty[of ?h]]
  have "sorted_wrt (\<lambda>a b. ?cmp a b \<le> 0) (inorder (Leaf :: u64 tree))" "set_tree (Leaf :: u64 tree) \<subseteq> ?A" by simp_all
  note q = conjunct1[OF p[OF this], THEN spec, of "0x100"]
  have "(0x100 :: u64) \<in> ?A \<and> (0x100 :: u64) \<noteq> 0 \<and> (0x100 :: u64) \<notin> set_tree Leaf" by simp
  from mp[OF q this] show ?thesis by auto
qed

text \<open>C40. Any history of insertions and removals that starts with an empty root and is legal (a
  node is inserted when it is not in the tree and removed when it is) runs to its end. The
  tree then holds exactly the nodes of the history in order; its height is at most twice the
  binary logarithm of their number plus one; and \<open>kapi_rb_first\<close> followed by \<open>kapi_rb_next\<close>
  visits each of them once, in ascending order, and then gives \<open>NULL\<close>.\<close>
theorem kapi_rb_history_in_order:
  assumes "tree_order A cmp" "op_node ` set ops \<subseteq> A" "rb_members {} ops = Some S"
  shows "\<exists>h' root' t. rb_run cmp h 0 ops = Some (h', root') \<and> krbt h' root' t \<and> set (inorder t) = S \<and> distinct (inorder t) \<and>
    sorted_wrt (\<lambda>a b. cmp a b \<le> 0) (inorder t) \<and> 2 ^ height t \<le> (card S + 1) ^ 2 \<and>
    (\<forall>k \<le> card S. kapi_walk h' root' k = Some (if k < card S then inorder t ! k else 0))"
proof -
  obtain h' root' t where r: "rb_run cmp h 0 ops = Some (h', root')" "krbt h' root' t"
      "sorted_wrt (\<lambda>a b. cmp a b \<le> 0) (inorder t)" "set_tree t = S"
    using tree_order.rb_run_spec[OF assms(1) krbt_empty, of ops S h] assms(2,3) by auto
  have d: "distinct (inorder t)" using r(2) by (simp add: krbt_def tree_ok_def)
  have "card S = size t" using distinct_card[OF d] r(4) by simp
  moreover have "2 ^ height t \<le> (size t + 1) ^ 2" using r(2) rbt_height_size by (auto simp: krbt_def)
  ultimately show ?thesis
    using r d kapi_walk_spec[OF r(2)] by (intro exI[of _ h'] exI[of _ root'] exI[of _ t]) simp
qed

theorem kapi_rb_history_in_order_witness:
  "\<exists>h' root'. rb_run (key_cmp (\<lambda>a. [ucast a]) 1) (\<lambda>_. \<lparr>rb_parent = 0, rb_left = 0, rb_right = 0, rb_color = 0\<rparr>) 0
       [Ins 0x10, Ins 0x20, Ins 0x30, Del 0x20] = Some (h', root') \<and> kapi_walk h' root' 2 = Some 0"
proof -
  have "tree_order {a. length [ucast a :: u8] = 1} (key_cmp (\<lambda>a. [ucast a]) 1)" by (rule keyed.tree_order_axioms)
  moreover have "rb_members {} [Ins 0x10, Ins 0x20, Ins 0x30, Del 0x20] = Some {0x10, 0x30}" by auto
  moreover have "card {0x10, 0x30 :: u64} = 2" by simp
  ultimately show ?thesis
    using kapi_rb_history_in_order[of "{a. length [ucast a :: u8] = 1}" "key_cmp (\<lambda>a. [ucast a]) 1"
        "[Ins 0x10, Ins 0x20, Ins 0x30, Del 0x20]" "{0x10, 0x30}" "\<lambda>_. \<lparr>rb_parent = 0, rb_left = 0, rb_right = 0, rb_color = 0\<rparr>"]
    by force
qed

end
