(* ===== verification/Security.thy ===== *)
theory Security
  imports Prelude
begin

unbundle bit_operations_syntax

section \<open>Credentials, capabilities and address randomisation (\<open>arch/x86_64/security.c\<close>)\<close>

text \<open>
  The credentials of a process are the object its field \<open>cred\<close> points to: \<open>None\<close> is the
  null pointer, and a process argument is itself an option because the code checks it for
  null. Every process has an object of its own (\<open>security_init_cred\<close> and
  \<open>security_copy_cred\<close> allocate), so an operation on one process touches no other. What
  \<open>kzalloc\<close> answered is an argument. The static seed of the generator is threaded through
  the functions that draw from it. The accesses to control register 4 are not modelled.
\<close>

subsection \<open>Capability sets\<close>

abbreviation (input) CAP_SYS_ADMIN :: int where "CAP_SYS_ADMIN \<equiv> 21"
abbreviation (input) CAP_MAX :: int where "CAP_MAX \<equiv> 32"

type_synonym cap_set_t = u64

definition cap_test :: "cap_set_t \<Rightarrow> int \<Rightarrow> bool" where
  "cap_test s cap = (if cap < 0 \<or> CAP_MAX \<le> cap then False
     else s AND push_bit (nat (cap mod 64)) 1 \<noteq> 0)"

definition cap_set :: "cap_set_t \<Rightarrow> int \<Rightarrow> cap_set_t" where
  "cap_set s cap = (if cap < 0 \<or> CAP_MAX \<le> cap then s else s OR push_bit (nat (cap mod 64)) 1)"

definition cap_clear :: "cap_set_t \<Rightarrow> int \<Rightarrow> cap_set_t" where
  "cap_clear s cap = (if cap < 0 \<or> CAP_MAX \<le> cap then s
     else s AND NOT (push_bit (nat (cap mod 64)) 1))"

definition cap_clear_all :: cap_set_t where "cap_clear_all = 0"

definition cap_set_all :: cap_set_t where "cap_set_all = 0xFFFFFFFFFFFFFFFF"

subsection \<open>Credentials\<close>

record cred_t =
  uid :: u32
  gid :: u32
  euid :: u32
  egid :: u32
  suid :: u32
  sgid :: u32
  ruid :: u32
  rgid :: u32
  fsuid :: u32
  fsgid :: u32
  permitted :: cap_set_t
  effective :: cap_set_t
  inheritable :: cap_set_t
  ambient :: cap_set_t
  seccomp_mode :: u32

type_synonym proc_cred = "cred_t option"

definition security_init :: cred_t where
  "security_init =
     \<lparr>uid = 0, gid = 0, euid = 0, egid = 0, suid = 0, sgid = 0, ruid = 0, rgid = 0,
      fsuid = 0, fsgid = 0, permitted = cap_set_all, effective = cap_set_all,
      inheritable = cap_set_all, ambient = cap_set_all, seccomp_mode = 0\<rparr>"

abbreviation (input) creds :: "proc_cred option \<Rightarrow> cred_t option" where
  "creds p \<equiv> Option.bind p (\<lambda>c. c)"

definition security_check_cap :: "proc_cred option \<Rightarrow> int \<Rightarrow> int" where
  "security_check_cap p cap = (case creds p of None \<Rightarrow> - 1
     | Some c \<Rightarrow> if euid c = 0 then 0 else if cap_test (effective c) cap then 0 else - 1)"

definition security_setuid :: "proc_cred option \<Rightarrow> u32 \<Rightarrow> int \<times> proc_cred option" where
  "security_setuid p u = (case creds p of None \<Rightarrow> (- 1, p)
     | Some c \<Rightarrow>
         if euid c = 0 then
           let c1 = c\<lparr>uid := u, euid := u, suid := u\<rparr>;
               c2 = (if u \<noteq> 0 then c1\<lparr>effective := cap_clear_all, permitted := cap_clear_all\<rparr> else c1)
           in (0, Some (Some c2))
         else if ruid c = u \<or> suid c = u then (0, Some (Some (c\<lparr>euid := u\<rparr>)))
         else (- 1, p))"

definition security_setgid :: "proc_cred option \<Rightarrow> u32 \<Rightarrow> int \<times> proc_cred option" where
  "security_setgid p g = (case creds p of None \<Rightarrow> (- 1, p)
     | Some c \<Rightarrow>
         if euid c = 0 then (0, Some (Some (c\<lparr>gid := g, egid := g, sgid := g\<rparr>)))
         else if rgid c = g \<or> sgid c = g then (0, Some (Some (c\<lparr>egid := g\<rparr>)))
         else (- 1, p))"

abbreviation (input) SECCOMP_MODE_DISABLED :: u32 where "SECCOMP_MODE_DISABLED \<equiv> 0"
abbreviation (input) SECCOMP_MODE_STRICT :: u32 where "SECCOMP_MODE_STRICT \<equiv> 1"
abbreviation (input) SECCOMP_MODE_FILTER :: u32 where "SECCOMP_MODE_FILTER \<equiv> 2"

definition security_seccomp_set_mode :: "proc_cred option \<Rightarrow> u32 \<Rightarrow> int \<times> proc_cred option" where
  "security_seccomp_set_mode p mode = (case creds p of None \<Rightarrow> (- 1, p)
     | Some c \<Rightarrow>
         if SECCOMP_MODE_FILTER < mode then (- 1, p)
         else if security_check_cap p CAP_SYS_ADMIN \<noteq> 0 then (- 1, p)
         else (0, Some (Some (c\<lparr>seccomp_mode := mode\<rparr>))))"

definition security_seccomp_check :: "proc_cred option \<Rightarrow> u64 \<Rightarrow> int" where
  "security_seccomp_check p syscall_no = (case creds p of None \<Rightarrow> - 1
     | Some c \<Rightarrow>
         if seccomp_mode c = SECCOMP_MODE_DISABLED then 0
         else if seccomp_mode c = SECCOMP_MODE_STRICT then
           (if syscall_no = 0 \<or> syscall_no = 1 \<or> syscall_no = 60 \<or> syscall_no = 15 then 0 else - 1)
         else 0)"

text \<open>\<open>ok\<close> is what \<open>kzalloc\<close> answered; a failure leaves a null pointer behind.\<close>

definition security_init_cred :: "proc_cred option \<Rightarrow> cred_t \<Rightarrow> bool \<Rightarrow> proc_cred option" where
  "security_init_cred p init_cred ok = (case p of None \<Rightarrow> None
     | Some _ \<Rightarrow> if \<not> ok then Some None else Some (Some init_cred))"

definition security_copy_cred :: "proc_cred option \<Rightarrow> proc_cred option \<Rightarrow> bool \<Rightarrow> proc_cred option" where
  "security_copy_cred dst src ok = (case (dst, creds src) of
       (Some d, Some c) \<Rightarrow> (case d of
           None \<Rightarrow> if \<not> ok then Some None else Some (Some c)
         | Some _ \<Rightarrow> Some (Some c))
     | _ \<Rightarrow> dst)"

subsection \<open>Address space randomisation\<close>

abbreviation (input) ASLR_ENTROPY_BITS :: u64 where "ASLR_ENTROPY_BITS \<equiv> 16"

definition aslr_initial_seed :: u32 where "aslr_initial_seed = 0x12345678"

definition rand_next :: "u32 \<Rightarrow> u32" where
  "rand_next aslr_random_seed = aslr_random_seed * 1103515245 + 12345"

definition security_randomize_base :: "u64 \<Rightarrow> u64 \<Rightarrow> u32 \<Rightarrow> u64 \<times> u32" where
  "security_randomize_base base range_bits seed =
     (let range_bits = (if ASLR_ENTROPY_BITS < range_bits then ASLR_ENTROPY_BITS else range_bits);
          mask' = push_bit (unat range_bits) 1 - 1;
          seed' = rand_next seed;
          offset = (ucast seed' AND mask') * 4096
      in (base + offset, seed'))"

definition security_randomize_stack :: "u32 \<Rightarrow> u64 \<times> u32" where
  "security_randomize_stack seed = security_randomize_base 0x00007FFFFFF00000 ASLR_ENTROPY_BITS seed"

definition security_randomize_mmap :: "u32 \<Rightarrow> u64 \<times> u32" where
  "security_randomize_mmap seed = security_randomize_base 0x00007F0000000000 ASLR_ENTROPY_BITS seed"

subsection \<open>Histories of system calls that change credentials\<close>

datatype cred_op = Setuid u32 | Setgid u32 | Seccomp u32

fun cred_step :: "cred_op \<Rightarrow> proc_cred option \<Rightarrow> proc_cred option" where
  "cred_step (Setuid u) p = snd (security_setuid p u)"
| "cred_step (Setgid g) p = snd (security_setgid p g)"
| "cred_step (Seccomp m) p = snd (security_seccomp_set_mode p m)"

definition cred_run :: "cred_op list \<Rightarrow> proc_cred option \<Rightarrow> proc_cred option" where
  "cred_run ops p = fold cred_step ops p"

subsection \<open>Capability sets are sets\<close>

lemma cap_test_bit: "cap_test s cap \<longleftrightarrow> 0 \<le> cap \<and> cap < CAP_MAX \<and> bit s (nat cap)"
  by (auto simp: cap_test_def and_exp_eq_0_iff_not_bit mod_pos_pos_trivial)

lemma cap_test_set:
  "cap_test (cap_set s c) d \<longleftrightarrow> (if d = c \<and> 0 \<le> c \<and> c < CAP_MAX then True else cap_test s d)"
  by (auto simp: cap_test_bit cap_set_def bit_simps bit_1_iff mod_pos_pos_trivial)

lemma cap_test_clear: "cap_test (cap_clear s c) d \<longleftrightarrow> d \<noteq> c \<and> cap_test s d"
  by (auto simp: cap_test_bit cap_clear_def bit_simps bit_1_iff mod_pos_pos_trivial nat_eq_iff)

lemma cap_test_all: "cap_test cap_set_all c \<longleftrightarrow> 0 \<le> c \<and> c < CAP_MAX"
proof -
  have m: "cap_set_all = - 1" by (simp add: cap_set_all_def)
  show ?thesis unfolding m cap_test_bit by (auto simp: bit_minus_1_iff)
qed

lemma cap_test_none: "\<not> cap_test cap_clear_all c"
  by (simp add: cap_test_bit cap_clear_all_def)

subsection \<open>What a history of calls can reach\<close>

text \<open>
  The identities a process without privilege can move between: every call keeps the saved
  and real identities and the capabilities, and the effective identities stay among them.
\<close>

definition confined :: "cred_t \<Rightarrow> cred_t \<Rightarrow> bool" where
  "confined c d \<longleftrightarrow> uid d = uid c \<and> ruid d = ruid c \<and> suid d = suid c \<and>
     gid d = gid c \<and> rgid d = rgid c \<and> sgid d = sgid c \<and>
     permitted d = permitted c \<and> effective d = effective c \<and>
     euid d \<in> {euid c, ruid c, suid c} \<and> egid d \<in> {egid c, rgid c, sgid c} \<and>
     (cap_test (effective c) CAP_SYS_ADMIN \<or> seccomp_mode d = seccomp_mode c)"

lemma confined_refl: "confined c c"
  by (simp add: confined_def)

lemmas cred_call_defs = security_setuid_def security_setgid_def security_seccomp_set_mode_def
  security_check_cap_def

lemma confined_step:
  assumes "confined c d" "0 \<notin> {euid c, ruid c, suid c}"
  shows "\<exists>e. cred_step oper (Some (Some d)) = Some (Some e) \<and> confined c e"
proof -
  have z: "euid d \<noteq> 0" using assms by (auto simp: confined_def)
  show ?thesis
  proof (cases oper)
    case (Setuid u)
    then show ?thesis
      using assms(1) z by (cases "ruid d = u \<or> suid d = u"; simp add: confined_def cred_call_defs; metis)
  next
    case (Setgid g)
    then show ?thesis
      using assms(1) z by (cases "rgid d = g \<or> sgid d = g"; simp add: confined_def cred_call_defs; metis)
  next
    case (Seccomp m)
    then show ?thesis
      using assms(1) z
      by (cases "2 < m \<or> \<not> cap_test (effective d) CAP_SYS_ADMIN") (simp_all add: confined_def cred_call_defs)
  qed
qed

lemma confined_run:
  assumes "0 \<notin> {euid c, ruid c, suid c}" "confined c d"
  shows "\<exists>e. cred_run ops (Some (Some d)) = Some (Some e) \<and> confined c e"
  using assms(2)
proof (induction ops arbitrary: d)
  case Nil
  then show ?case by (simp add: cred_run_def)
next
  case (Cons oper ops)
  obtain e where e: "cred_step oper (Some (Some d)) = Some (Some e)" "confined c e"
    using confined_step[OF Cons.prems assms(1)] by blast
  from Cons.IH[OF e(2)] e(1) show ?case by (simp add: cred_run_def)
qed

text \<open>The real identities are never written.\<close>

lemma ruid_step: "\<exists>e. cred_step oper (Some (Some d)) = Some (Some e) \<and> ruid e = ruid d \<and> rgid e = rgid d"
  by (cases oper) (auto simp: cred_call_defs Let_def)

lemma ruid_run: "\<exists>e. cred_run ops (Some (Some d)) = Some (Some e) \<and> ruid e = ruid d \<and> rgid e = rgid d"
proof (induction ops arbitrary: d)
  case (Cons oper ops)
  obtain e where e: "cred_step oper (Some (Some d)) = Some (Some e)" "ruid e = ruid d" "rgid e = rgid d"
    using ruid_step by blast
  from Cons[of e] e show ?case by (simp add: cred_run_def)
qed (simp add: cred_run_def)

text \<open>
  C26. Confinement. A process none of whose effective, real and saved user identities is
  root never becomes root, whatever sequence of \<open>setuid\<close>, \<open>setgid\<close> and seccomp calls it
  makes: the identities it can take are the ones it had, every capability check answers as
  before, and without CAP_SYS_ADMIN the system calls it may make stay the same ones.
\<close>

theorem unprivileged_stays_confined:
  assumes "euid c \<noteq> 0" "ruid c \<noteq> 0" "suid c \<noteq> 0"
  shows "\<exists>d. cred_run ops (Some (Some c)) = Some (Some d) \<and>
     euid d \<in> {euid c, ruid c, suid c} \<and> euid d \<noteq> 0 \<and> egid d \<in> {egid c, rgid c, sgid c} \<and>
     (\<forall>cap. security_check_cap (Some (Some d)) cap = security_check_cap (Some (Some c)) cap) \<and>
     (security_check_cap (Some (Some c)) CAP_SYS_ADMIN \<noteq> 0 \<longrightarrow>
        (\<forall>n. security_seccomp_check (Some (Some d)) n = security_seccomp_check (Some (Some c)) n))"
proof -
  obtain d where d: "cred_run ops (Some (Some c)) = Some (Some d)" "confined c d"
    using confined_run[OF _ confined_refl, of c ops] assms by auto
  then have "euid d \<noteq> 0" using assms by (auto simp: confined_def)
  with d assms show ?thesis
    by (intro exI[of _ d]) (auto simp: confined_def security_check_cap_def security_seccomp_check_def)
qed

theorem unprivileged_stays_confined_witness:
  "let c = security_init\<lparr>uid := 7, euid := 7, ruid := 8, suid := 7, effective := 0, seccomp_mode := 1\<rparr> in
   \<exists>d. cred_run [Setuid 0, Seccomp 0, Setuid 8, Setgid 0, Setuid 0] (Some (Some c)) = Some (Some d) \<and>
     euid d \<noteq> 0 \<and> security_check_cap (Some (Some d)) 5 = - 1 \<and>
     security_seccomp_check (Some (Some d)) 2 = - 1"
proof -
  let ?c = "security_init\<lparr>uid := 7, euid := 7, ruid := 8, suid := 7, effective := 0, seccomp_mode := 1\<rparr>"
  have v: "security_check_cap (Some (Some ?c)) 5 = - 1" "security_seccomp_check (Some (Some ?c)) 2 = - 1"
    "security_check_cap (Some (Some ?c)) CAP_SYS_ADMIN = - 1"
    by (simp_all add: security_check_cap_def security_seccomp_check_def cap_test_bit)
  have "euid ?c \<noteq> 0" "ruid ?c \<noteq> 0" "suid ?c \<noteq> 0" by simp_all
  from unprivileged_stays_confined[OF this, of "[Setuid 0, Seccomp 0, Setuid 8, Setgid 0, Setuid 0]"]
  obtain d where "cred_run [Setuid 0, Seccomp 0, Setuid 8, Setgid 0, Setuid 0] (Some (Some ?c)) = Some (Some d)"
    "euid d \<noteq> 0" "\<forall>cap. security_check_cap (Some (Some d)) cap = security_check_cap (Some (Some ?c)) cap"
    "\<forall>n. security_seccomp_check (Some (Some d)) n = security_seccomp_check (Some (Some ?c)) n"
    unfolding v(3) by auto
  with v show ?thesis unfolding Let_def by metis
qed

text \<open>
  C33. Dropping root is never final. \<open>setuid\<close> does not write the real identity, which
  starts as root, so a process with the initial credentials gets root back whatever calls
  it made before: \<open>setuid(0)\<close> succeeds and every capability check passes afterwards.
\<close>

theorem dropped_root_comes_back:
  "\<exists>d e. security_init_cred (Some old) security_init True = Some (Some d) \<and>
     security_setuid (cred_run ops (Some (Some d))) 0 = (0, Some (Some e)) \<and>
     (\<forall>cap. security_check_cap (Some (Some e)) cap = 0)"
proof -
  obtain d where d: "cred_run ops (Some (Some security_init)) = Some (Some d)" "ruid d = 0"
    using ruid_run[of ops security_init] by (auto simp: security_init_def)
  then show ?thesis
    by (auto simp: security_init_cred_def security_setuid_def security_check_cap_def Let_def)
qed

subsection \<open>The generator\<close>

text \<open>
  The generator is affine, so its low bits repeat early: by doubling, \<open>2\<^sup>k\<close> draws
  add a multiple of \<open>2\<^sup>k\<close> to the seed.
\<close>

lemma affine_doubling:
  fixes f :: "int \<Rightarrow> int"
  assumes f: "\<And>s. f s = a * s + c" and "odd a"
  shows "\<exists>A C. odd A \<and> (\<forall>s. (f ^^ (2 ^ k)) s = A * s + C \<and> 2 ^ k dvd (A - 1) * s + C)"
proof (induction k)
  case 0
  then show ?case using assms by (intro exI[of _ a] exI[of _ c]) simp
next
  case (Suc k)
  then obtain A C where A: "odd A" "\<And>s. (f ^^ (2 ^ k)) s = A * s + C"
    and D: "\<And>s. 2 ^ k dvd (A - 1) * s + C" by blast
  have "(f ^^ (2 ^ Suc k)) s = A * A * s + (A * C + C)" for s
  proof -
    have "(f ^^ (2 ^ Suc k)) s = (f ^^ (2 ^ k)) ((f ^^ (2 ^ k)) s)"
      by (simp add: mult_2 funpow_add)
    then show ?thesis by (simp add: A(2) algebra_simps)
  qed
  moreover have "2 ^ Suc k dvd (A * A - 1) * s + (A * C + C)" for s
  proof -
    have "(A * A - 1) * s + (A * C + C) = (A + 1) * ((A - 1) * s + C)" by (simp add: algebra_simps)
    moreover have "2 dvd A + 1" using A(1) by simp
    ultimately show ?thesis using mult_dvd_mono[OF _ D[of s], of 2 "A + 1"] by simp
  qed
  ultimately show ?case using A(1) by (intro exI[of _ "A * A"] exI[of _ "A * C + C"]) simp
qed

text \<open>The generator computes on integers modulo \<open>2\<^sup>3\<^sup>2\<close>.\<close>

lemma rand_iter_int: "(rand_next ^^ n) (word_of_int s) = word_of_int (((\<lambda>s. 1103515245 * s + 12345) ^^ n) s)"
proof (induction n)
  case (Suc n)
  have "rand_next (word_of_int t) = word_of_int (1103515245 * t + 12345)" for t
    by (simp add: rand_next_def mult.commute)
  then show ?case using Suc by simp
qed simp

lemma take_bit_word_cong:
  assumes "take_bit k x = take_bit k y"
  shows "take_bit k (word_of_int x :: 'a::len word) = take_bit k (word_of_int y)"
proof (rule bit_word_eqI)
  fix n
  have "n < k \<Longrightarrow> bit x n = bit y n" using assms by (metis bit_take_bit_iff)
  then show "bit (take_bit k (word_of_int x :: 'a word)) n = bit (take_bit k (word_of_int y :: 'a word)) n"
    by (auto simp: bit_simps)
qed

lemma rand_period:
  "take_bit k ((rand_next ^^ (2 ^ k)) s) = take_bit k s"
proof -
  let ?f = "\<lambda>s. 1103515245 * s + 12345 :: int"
  obtain A C where A: "(?f ^^ (2 ^ k)) (uint s) = A * uint s + C" "2 ^ k dvd (A - 1) * uint s + C"
    using affine_doubling[of ?f 1103515245 12345 k] by auto
  have "(rand_next ^^ (2 ^ k)) s = word_of_int ((?f ^^ (2 ^ k)) (uint s))"
    using rand_iter_int[of "2 ^ k" "uint s"] by simp
  moreover have "take_bit k ((?f ^^ (2 ^ k)) (uint s)) = take_bit k (uint s)"
  proof -
    have "(A * uint s + C - uint s) mod 2 ^ k = 0"
      using A(2) by (simp add: algebra_simps)
    then show ?thesis
      unfolding A(1) take_bit_eq_mod by (metis mod_eq_dvd_iff dvd_eq_mod_eq_0)
  qed
  ultimately show ?thesis
    using take_bit_word_cong[of k _ "uint s", where 'a = 32] by simp
qed

text \<open>A draw, as arithmetic: the number of pages is the low bits of the generator.\<close>

lemma randomize_base_eq:
  "security_randomize_base b r s =
     (b + ucast (take_bit (min 16 (unat r)) (rand_next s)) * 4096, rand_next s)"
proof -
  let ?r = "if 16 < r then 16 else r"
  have "unat ?r = min 16 (unat r)" by (auto simp: word_less_nat_alt)
  moreover have "(ucast (rand_next s) AND (2 ^ n - 1) :: u64) = ucast (take_bit n (rand_next s))" for n
    by (rule bit_word_eqI) (auto simp: bit_simps simp flip: mask_eq_exp_minus_1)
  ultimately show ?thesis
    by (simp add: security_randomize_base_def Let_def del: unat_eq_0)
qed

text \<open>
  Address randomisation. A randomised base lies a whole number of pages, fewer than
  \<open>2\<^sup>k\<close>, above the base asked for, \<open>k\<close> being the number of random bits (16 at most). The
  draws repeat: \<open>2\<^sup>k\<close> draws later the base is the same, whatever
  the seed was.
\<close>

theorem aslr_draws_repeat:
  "fst (security_randomize_base b r ((rand_next ^^ (2 ^ min 16 (unat r))) s)) = fst (security_randomize_base b r s) \<and>
     (\<exists>p. p < 2 ^ min 16 (unat r) \<and> fst (security_randomize_base b r s) = b + of_nat p * 4096)"
proof -
  have "take_bit (min 16 (unat r)) (rand_next ((rand_next ^^ (2 ^ min 16 (unat r))) s)) = take_bit (min 16 (unat r)) (rand_next s)"
    using rand_period[of "min 16 (unat r)" "rand_next s"] by (simp add: funpow_swap1)
  moreover have "\<exists>p. p < 2 ^ min 16 (unat r) \<and> ucast (take_bit (min 16 (unat r)) (rand_next s)) = (of_nat p :: u64)"
  proof (intro exI conjI)
    have "unat (take_bit (min 16 (unat r)) (rand_next s)) = take_bit (min 16 (unat r)) (unat (rand_next s))"
      by (rule unsigned_take_bit_eq)
    then show "unat (take_bit (min 16 (unat r)) (rand_next s)) < 2 ^ min 16 (unat r)" by simp
    show "ucast (take_bit (min 16 (unat r)) (rand_next s)) = (of_nat (unat (take_bit (min 16 (unat r)) (rand_next s))) :: u64)"
      by simp
  qed
  ultimately show ?thesis by (auto simp: randomize_base_eq)
qed

text \<open>
  The stack starts 256 pages below the end of the lower half of the address space, so the
  very first draw leaves it.
\<close>

lemma randomize_stack_leaves_user_half:
  "fst (security_randomize_stack aslr_initial_seed) = 0x800009051000 \<and> (2 ^ 47 :: u64) \<le> 0x800009051000"
  by (simp add: security_randomize_stack_def security_randomize_base_def aslr_initial_seed_def
      rand_next_def Let_def)

end
