(* ===== verification/Lsm.thy ===== *)
theory Lsm
  imports Libc_String
begin

section \<open>Security modules (\<open>arch/x86_64/lsm.c\<close>)\<close>

text \<open>
  The list of registered modules and the chain of hooks that every security decision of
  the kernel runs. The linked list of modules is a list, head first; a module knows its
  table of hooks by address. The hooks are code of the modules: a hook is a function of
  its arguments and of a state \<open>'s\<close> of the modules, which it may change, but it does not
  register modules. Names are objects of bytes read with the library's \<open>strncmp\<close>; \<open>None\<close>
  is a read past the end of such an object. What \<open>kzalloc\<close> answered is an argument. The
  theory \<open>Lsm_Hooks\<close> holds the table of hooks and the functions the kernel calls.
\<close>

type_synonym 's check = "'s \<Rightarrow> int \<times> 's"

abbreviation (input) LSM_ORDER_FIRST :: int where "LSM_ORDER_FIRST \<equiv> 0"
abbreviation (input) LSM_ORDER_SECONDARY :: int where "LSM_ORDER_SECONDARY \<equiv> 1"
abbreviation (input) LSM_NAME_MAX :: nat where "LSM_NAME_MAX \<equiv> 32"

record lsm_module =
  lm_name :: "u8 list"
  lm_ops :: u64
  lm_order :: int
  lm_active :: int

record lsm_state =
  lsm_modules :: "lsm_module list"
  lsm_primary_ops :: u64
  lsm_initialized :: int

subsection \<open>The chains\<close>

text \<open>
  Every \<open>lsm_call_chain_X\<close> is the same loop over another hook: \<open>h\<close> reads the hook of a
  table and applies it to the arguments. The first non-zero answer ends the loop.
  \<open>task_free\<close> has no answer, and its loop calls every module.
\<close>

fun call_chain :: "(u64 \<Rightarrow> 's check option) \<Rightarrow> lsm_module list \<Rightarrow> 's check" where
  "call_chain h [] s = (0, s)"
| "call_chain h (m # mods) s =
     (if lm_active m \<noteq> 0 \<and> lm_ops m \<noteq> 0 then
        (case h (lm_ops m) of
           Some f \<Rightarrow> (let (rc, s') = f s in if rc \<noteq> 0 then (rc, s') else call_chain h mods s')
         | None \<Rightarrow> call_chain h mods s)
      else call_chain h mods s)"

fun notify_chain :: "(u64 \<Rightarrow> ('s \<Rightarrow> 's) option) \<Rightarrow> lsm_module list \<Rightarrow> 's \<Rightarrow> 's" where
  "notify_chain h [] s = s"
| "notify_chain h (m # mods) s =
     (if lm_active m \<noteq> 0 \<and> lm_ops m \<noteq> 0 then
        (case h (lm_ops m) of
           Some f \<Rightarrow> notify_chain h mods (f s)
         | None \<Rightarrow> notify_chain h mods s)
      else notify_chain h mods s)"

subsection \<open>Registration\<close>

definition lsm_init :: lsm_state where
  "lsm_init = \<lparr>lsm_modules = [], lsm_primary_ops = 0, lsm_initialized = 0\<rparr>"

text \<open>The scan for a name, which three functions share.\<close>

fun lsm_find :: "u8 list \<Rightarrow> lsm_module list \<Rightarrow> nat option option" where
  "lsm_find name [] = Some None"
| "lsm_find name (m # mods) = Option.bind (strncmp (lm_name m) name LSM_NAME_MAX) (\<lambda>r.
     if r = 0 then Some (Some 0) else map_option (map_option Suc) (lsm_find name mods))"

fun insert_secondary :: "lsm_module \<Rightarrow> lsm_module list \<Rightarrow> lsm_module list" where
  "insert_secondary m [] = [m]"
| "insert_secondary m (c # mods) =
     (if lm_order c = LSM_ORDER_FIRST then c # insert_secondary m mods else m # c # mods)"

definition lsm_register_security ::
  "u8 list option \<Rightarrow> u64 \<Rightarrow> bool \<Rightarrow> lsm_state \<Rightarrow> (int \<times> lsm_state) option" where
  "lsm_register_security name ops ok st =
     (case name of None \<Rightarrow> Some (- 1, st)
      | Some nm \<Rightarrow>
          if ops = 0 then Some (- 1, st)
          else Option.bind (lsm_find nm (lsm_modules st)) (\<lambda>found.
            if found \<noteq> None then Some (- 1, st)
            else if \<not> ok then Some (- 1, st)
            else Option.bind (bounded_copy (replicate 32 0) LSM_NAME_MAX nm) (\<lambda>nm'.
              if lsm_primary_ops st = 0 then
                let m = \<lparr>lm_name = nm', lm_ops = ops, lm_order = LSM_ORDER_FIRST, lm_active = 1\<rparr>
                in Some (0, st\<lparr>lsm_modules := m # lsm_modules st, lsm_primary_ops := ops,
                               lsm_initialized := 1\<rparr>)
              else
                let m = \<lparr>lm_name = nm', lm_ops = ops, lm_order = LSM_ORDER_SECONDARY, lm_active = 1\<rparr>
                in Some (0, st\<lparr>lsm_modules := insert_secondary m (lsm_modules st),
                               lsm_initialized := 1\<rparr>))))"

definition lsm_unregister_security :: "u8 list option \<Rightarrow> lsm_state \<Rightarrow> (int \<times> lsm_state) option" where
  "lsm_unregister_security name st =
     (case name of None \<Rightarrow> Some (- 1, st)
      | Some nm \<Rightarrow>
          Option.bind (lsm_find nm (lsm_modules st)) (\<lambda>found.
            case found of None \<Rightarrow> Some (- 1, st)
            | Some i \<Rightarrow>
                let mods = take i (lsm_modules st) @ drop (Suc i) (lsm_modules st);
                    primary = (if lm_ops (lsm_modules st ! i) = lsm_primary_ops st
                               then (case mods of [] \<Rightarrow> 0 | m # _ \<Rightarrow> lm_ops m)
                               else lsm_primary_ops st)
                in Some (0, st\<lparr>lsm_modules := mods, lsm_primary_ops := primary\<rparr>)))"

definition lsm_get_operations :: "u8 list option \<Rightarrow> lsm_state \<Rightarrow> u64 option" where
  "lsm_get_operations name st =
     (case name of None \<Rightarrow> Some 0
      | Some nm \<Rightarrow>
          Option.bind (lsm_find nm (lsm_modules st)) (\<lambda>found.
            case found of None \<Rightarrow> Some 0 | Some i \<Rightarrow> Some (lm_ops (lsm_modules st ! i))))"

subsection \<open>The table of modules\<close>

definition short_name :: "u8 list \<Rightarrow> bool" where
  "short_name n \<longleftrightarrow> terminated n \<and> length (cstr n) < LSM_NAME_MAX"

definition lsm_table :: "lsm_state \<Rightarrow> u8 list \<rightharpoonup> u64" where
  "lsm_table st = map_of (map (\<lambda>m. (cstr (lm_name m), lm_ops m)) (lsm_modules st))"

definition module_ok :: "lsm_module \<Rightarrow> bool" where
  "module_ok m \<longleftrightarrow> short_name (lm_name m) \<and> lm_ops m \<noteq> 0 \<and> lm_active m = 1 \<and>
     lm_order m \<in> {LSM_ORDER_FIRST, LSM_ORDER_SECONDARY}"

definition lsm_inv :: "lsm_state \<Rightarrow> bool" where
  "lsm_inv st \<longleftrightarrow> (\<forall>m \<in> set (lsm_modules st). module_ok m) \<and>
     distinct (map (\<lambda>m. cstr (lm_name m)) (lsm_modules st)) \<and>
     (lsm_primary_ops st = 0 \<longleftrightarrow> lsm_modules st = []) \<and>
     lsm_primary_ops st \<in> insert 0 (lm_ops ` set (lsm_modules st)) \<and>
     (\<forall>m \<in> set (tl (lsm_modules st)). lm_order m = LSM_ORDER_SECONDARY)"

lemma lsm_find_short:
  assumes "short_name n" "\<forall>m \<in> set mods. module_ok m"
  shows "lsm_find n mods = Some (find_idx (\<lambda>m. cstr (lm_name m) = cstr n) mods)"
  using assms(2)
proof (induction mods)
  case (Cons m mods)
  obtain r where "strncmp (lm_name m) n 32 = Some r" "r = 0 \<longleftrightarrow> cstr (lm_name m) = cstr n"
    using strncmp_terminated[of "lm_name m" n 32] assms(1) Cons.prems
    by (auto simp: short_name_def module_ok_def)
  with Cons show ?case by simp
qed simp

text \<open>A name of 32 characters or more is stored cut and never found again.\<close>

lemma lsm_find_long:
  assumes "terminated n" "LSM_NAME_MAX \<le> length (cstr n)" "\<forall>m \<in> set mods. module_ok m"
  shows "lsm_find n mods = Some None"
  using assms(3)
proof (induction mods)
  case (Cons m mods)
  have "length (take 32 (cstr (lm_name m))) < length (take 32 (cstr n))"
    using assms(2) Cons.prems by (simp add: module_ok_def short_name_def)
  then have "take 32 (cstr (lm_name m)) \<noteq> take 32 (cstr n)" by (metis less_irrefl)
  moreover obtain r where "strncmp (lm_name m) n 32 = Some r"
      "r = 0 \<longleftrightarrow> take 32 (cstr (lm_name m)) = take 32 (cstr n)"
    using strncmp_terminated[of "lm_name m" n 32] assms(1) Cons.prems
    by (auto simp: short_name_def module_ok_def)
  ultimately show ?case using Cons by simp
qed simp

lemma table_find:
  "lsm_table st k = map_option (\<lambda>i. lm_ops (lsm_modules st ! i)) (find_idx (\<lambda>m. cstr (lm_name m) = k) (lsm_modules st))"
proof -
  have "map_of (map (\<lambda>m. (cstr (lm_name m), lm_ops m)) mods) k =
      map_option (\<lambda>i. lm_ops (mods ! i)) (find_idx (\<lambda>m. cstr (lm_name m) = k) mods)" for mods
    by (induction mods) (auto simp: option.map_comp o_def)
  then show ?thesis by (simp add: lsm_table_def)
qed

lemma lsm_name_copy:
  assumes "terminated n"
  obtains n' where "bounded_copy (replicate 32 0) LSM_NAME_MAX n = Some n'" "cstr n' = take 31 (cstr n)"
    "terminated n'" "short_name n'"
proof -
  obtain d where d: "bounded_copy (replicate 32 0) LSM_NAME_MAX n = Some d" "length d = 32"
      "cstr d = take 31 (cstr n)"
    using bounded_copy_eq[OF assms, of 32 "replicate 32 0"] by auto
  have "terminated d"
  proof (rule ccontr)
    assume "\<not> terminated d"
    then have "cstr d = d" by (induction d) auto
    with d(2,3) have "length (take 31 (cstr n)) = 32" by simp
    then show False by simp
  qed
  with d show ?thesis by (intro that) (auto simp: short_name_def)
qed

lemma map_of_insert: "k \<notin> fst ` set (xs @ ys) \<Longrightarrow> map_of (xs @ (k, v) # ys) = (map_of (xs @ ys))(k \<mapsto> v)"
  by (induction xs) auto

lemma map_of_remove:
  "distinct (map fst xs) \<Longrightarrow> i < length xs \<Longrightarrow>
   map_of (take i xs @ drop (Suc i) xs) = (map_of xs)(fst (xs ! i) := None)"
proof (induction xs arbitrary: i)
  case (Cons x xs)
  show ?case
  proof (cases i)
    case 0
    with Cons.prems show ?thesis by (auto simp: fun_eq_iff map_of_eq_None_iff split: prod.splits)
  next
    case (Suc j)
    have "fst (xs ! j) \<in> fst ` set xs" using Suc Cons.prems by simp
    moreover have "fst x \<notin> fst ` set xs" using Cons.prems(1) by simp
    ultimately have "fst x \<noteq> fst (xs ! j)" by metis
    with Cons Suc show ?thesis by (auto simp: fun_eq_iff split: prod.splits)
  qed
qed simp

text \<open>Where a further module goes: behind the first one, or in front when that one is gone.\<close>

lemma insert_secondary_split:
  assumes "\<forall>c \<in> set (tl mods). lm_order c = LSM_ORDER_SECONDARY" "\<forall>c \<in> set mods. module_ok c"
    "lm_order m = LSM_ORDER_SECONDARY"
  obtains xs ys where "mods = xs @ ys" "insert_secondary m mods = xs @ m # ys"
    "\<forall>c \<in> set (tl (xs @ m # ys)). lm_order c = LSM_ORDER_SECONDARY"
proof (cases mods)
  case Nil
  with that[of "[]" "[]"] show ?thesis by simp
next
  case (Cons c cs)
  have cs: "insert_secondary m cs = m # cs" using assms(1) Cons by (cases cs) auto
  show ?thesis
  proof (cases "lm_order c = LSM_ORDER_FIRST")
    case True
    with that[of "[c]" cs] cs Cons assms show ?thesis by simp
  next
    case False
    with that[of "[]" mods] cs Cons assms show ?thesis by (auto simp: module_ok_def)
  qed
qed

lemma set_tl_subset: "set (tl xs) \<subseteq> set xs"
  by (cases xs) auto

lemma removed_mem: "i < length xs \<Longrightarrow> x \<in> set xs \<Longrightarrow> x \<noteq> xs ! i \<Longrightarrow> x \<in> set (take i xs @ drop (Suc i) xs)"
  by (drule id_take_nth_drop) (metis Un_iff set_ConsD set_append)

lemma lsm_get_operations_table:
  assumes "lsm_inv st" "short_name n"
  shows "lsm_get_operations (Some n) st = Some (case lsm_table st (cstr n) of None \<Rightarrow> 0 | Some ops \<Rightarrow> ops)"
  using assms lsm_find_short[of n "lsm_modules st"]
  by (auto simp: lsm_get_operations_def lsm_inv_def table_find split: option.splits)

lemma lsm_init_inv: "lsm_inv lsm_init" "lsm_table lsm_init = Map.empty"
  by (auto simp: lsm_inv_def lsm_init_def lsm_table_def)

lemma lsm_table_dom: "k \<in> dom (lsm_table st) \<longleftrightarrow> k \<in> (\<lambda>m. cstr (lm_name m)) ` set (lsm_modules st)"
  by (auto simp: lsm_table_def dom_map_of_conv_image_fst image_image)

lemma ran_lsm_table: "lsm_inv st \<Longrightarrow> ran (lsm_table st) = lm_ops ` set (lsm_modules st)"
  by (auto simp: lsm_table_def lsm_inv_def ran_distinct o_def image_image)

text \<open>Registration is an update of the table at a free name; everything else is refused.\<close>

lemma lsm_register_table:
  assumes inv: "lsm_inv st" and n: "short_name n"
  shows "\<exists>st'. lsm_register_security (Some n) ops ok st =
       Some (if ops = 0 \<or> cstr n \<in> dom (lsm_table st) \<or> \<not> ok then (- 1, st) else (0, st')) \<and>
     (ops \<noteq> 0 \<and> cstr n \<notin> dom (lsm_table st) \<and> ok \<longrightarrow>
        lsm_inv st' \<and> lsm_table st' = (lsm_table st)(cstr n \<mapsto> ops))"
proof (cases "ops = 0 \<or> cstr n \<in> dom (lsm_table st) \<or> \<not> ok")
  case True
  have "lsm_find n (lsm_modules st) = Some (find_idx (\<lambda>m. cstr (lm_name m) = cstr n) (lsm_modules st))"
    using inv n by (simp add: lsm_find_short lsm_inv_def)
  moreover have "find_idx (\<lambda>m. cstr (lm_name m) = cstr n) (lsm_modules st) \<noteq> None \<longleftrightarrow> cstr n \<in> dom (lsm_table st)"
    by (auto simp: table_find dom_def)
  ultimately show ?thesis
    using True by (auto simp: lsm_register_security_def)
next
  case False
  let ?k = "\<lambda>m. cstr (lm_name m)" and ?kv = "\<lambda>m. (cstr (lm_name m), lm_ops m)"
  have find: "lsm_find n (lsm_modules st) = Some None"
    using inv n False lsm_find_short[of n "lsm_modules st"] by (auto simp: lsm_inv_def table_find dom_def)
  obtain n' where n': "bounded_copy (replicate 32 0) LSM_NAME_MAX n = Some n'" "cstr n' = cstr n" "short_name n'"
    using lsm_name_copy[of n] n by (auto simp: short_name_def)
  have free: "cstr n \<notin> ?k ` set (lsm_modules st)" using False by (simp add: lsm_table_dom)
  show ?thesis
  proof (cases "lsm_primary_ops st = 0")
    case True
    then have "lsm_modules st = []" using inv by (simp add: lsm_inv_def)
    then show ?thesis
      using False find n' True
      by (auto simp: lsm_register_security_def lsm_inv_def lsm_table_def module_ok_def)
  next
    case prim: False
    define m where "m = \<lparr>lm_name = n', lm_ops = ops, lm_order = LSM_ORDER_SECONDARY, lm_active = 1\<rparr>"
    obtain xs ys where xy: "lsm_modules st = xs @ ys" "insert_secondary m (lsm_modules st) = xs @ m # ys"
        "\<forall>c \<in> set (tl (xs @ m # ys)). lm_order c = LSM_ORDER_SECONDARY"
      using insert_secondary_split[of "lsm_modules st" m] inv by (auto simp: lsm_inv_def m_def)
    let ?st = "st\<lparr>lsm_modules := xs @ m # ys, lsm_initialized := 1\<rparr>"
    have r: "lsm_register_security (Some n) ops ok st = Some (0, ?st)"
      using False find n' prim xy(2) by (simp add: lsm_register_security_def m_def)
    have "module_ok m" using n' False by (simp add: module_ok_def m_def)
    then have "lsm_inv ?st"
      using inv xy(1,3) prim free n'(2) by (auto simp: lsm_inv_def m_def)
    moreover have "lsm_table ?st = (lsm_table st)(cstr n \<mapsto> ops)"
      using map_of_insert[of "cstr n" "map ?kv xs" "map ?kv ys" ops] free n'(2) xy(1)
      by (auto simp: lsm_table_def m_def image_image image_Un)
    ultimately show ?thesis using r False by auto
  qed
qed

text \<open>Removal deletes the name from the table, and a primary module is never left dangling.\<close>

lemma lsm_unregister_table:
  assumes inv: "lsm_inv st" and n: "short_name n"
  shows "\<exists>rc st'. lsm_unregister_security (Some n) st = Some (rc, st') \<and>
     rc = (if cstr n \<in> dom (lsm_table st) then 0 else - 1) \<and>
     lsm_inv st' \<and> lsm_table st' = (lsm_table st)(cstr n := None)"
proof (cases "find_idx (\<lambda>m. cstr (lm_name m) = cstr n) (lsm_modules st)")
  case None
  then have "cstr n \<notin> dom (lsm_table st)" by (auto simp: table_find dom_def)
  moreover from this have "lsm_table st = (lsm_table st)(cstr n := None)" by (auto simp: fun_eq_iff)
  ultimately show ?thesis
    using None inv n lsm_find_short[of n "lsm_modules st"]
    by (auto simp: lsm_unregister_security_def lsm_inv_def)
next
  case (Some i)
  let ?kv = "\<lambda>m. (cstr (lm_name m), lm_ops m)" and ?m = "lsm_modules st"
  let ?mods = "take i ?m @ drop (Suc i) ?m"
  have i: "i < length ?m" "cstr (lm_name (?m ! i)) = cstr n" using Some by (auto dest: find_idxD)
  have dom: "cstr n \<in> dom (lsm_table st)"
    unfolding lsm_table_dom using i(2)[symmetric] nth_mem[OF i(1)] by (rule image_eqI)
  define p where "p = (if lm_ops (?m ! i) = lsm_primary_ops st
      then (case ?mods of [] \<Rightarrow> 0 | m # _ \<Rightarrow> lm_ops m) else lsm_primary_ops st)"
  let ?st = "st\<lparr>lsm_modules := ?mods, lsm_primary_ops := p\<rparr>"
  have r: "lsm_unregister_security (Some n) st = Some (0, ?st)"
    using Some inv n lsm_find_short[of n ?m]
    by (simp add: lsm_unregister_security_def lsm_inv_def p_def Let_def)
  have m: "?m = take i ?m @ ?m ! i # drop (Suc i) ?m" using i(1) by (simp add: id_take_nth_drop)
  have sub: "set ?mods \<subseteq> set ?m" by (auto dest: in_set_takeD in_set_dropD)
  have "set (tl ?mods) \<subseteq> set (tl ?m)"
    by (cases ?m; cases i) (auto dest: in_set_takeD in_set_dropD subsetD[OF set_tl_subset])
  moreover have "distinct (map (\<lambda>m. cstr (lm_name m)) ?mods)"
    using inv unfolding lsm_inv_def by (subst (asm) m) auto
  moreover have "p \<in> insert 0 (lm_ops ` set ?mods) \<and> (p = 0 \<longleftrightarrow> ?mods = [])"
  proof (cases "lm_ops (?m ! i) = lsm_primary_ops st")
    case True
    have "lm_ops c \<noteq> 0" if "c \<in> set ?mods" for c
      using that sub inv by (auto simp: lsm_inv_def module_ok_def)
    with True show ?thesis by (cases ?mods) (auto simp: p_def)
  next
    case False
    have "?m \<noteq> []" using i(1) by auto
    then have "lsm_primary_ops st \<noteq> 0" "lsm_primary_ops st \<in> lm_ops ` set ?m"
      using inv unfolding lsm_inv_def by auto
    then obtain c where c: "c \<in> set ?m" "lm_ops c = lsm_primary_ops st" by auto
    with False have "c \<in> set ?mods" by (intro removed_mem[OF i(1)]) auto
    with c(2) have "lsm_primary_ops st \<in> lm_ops ` set ?mods" by (metis image_eqI)
    with \<open>lsm_primary_ops st \<noteq> 0\<close> False show ?thesis by (cases "?mods = []") (simp_all add: p_def)
  qed
  ultimately have "lsm_inv ?st"
    using inv sub unfolding lsm_inv_def by auto
  moreover have "lsm_table ?st = (lsm_table st)(cstr n := None)"
    using map_of_remove[of "map ?kv ?m" i] inv i
    by (simp add: lsm_table_def lsm_inv_def take_map drop_map o_def)
  ultimately show ?thesis using r dom by auto
qed

subsection \<open>The chain\<close>

lemma call_chain_append:
  "call_chain h (xs @ ys) s = (let (rc, s') = call_chain h xs s in if rc \<noteq> 0 then (rc, s') else call_chain h ys s')"
  by (induction xs arbitrary: s) (auto split: option.splits prod.splits)

text \<open>
  A denial is the answer of one module; the modules before it granted, those after it were
  not asked.
\<close>

lemma call_chain_denied:
  assumes "call_chain h mods s = (rc, s')" "rc \<noteq> 0"
  shows "\<exists>xs m ys f s1. mods = xs @ m # ys \<and> call_chain h xs s = (0, s1) \<and> lm_active m \<noteq> 0 \<and>
     lm_ops m \<noteq> 0 \<and> h (lm_ops m) = Some f \<and> f s1 = (rc, s')"
  using assms(1)
proof (induction mods arbitrary: s)
  case Nil
  then show ?case using assms(2) by simp
next
  case (Cons m mods)
  show ?case
  proof (cases "lm_active m \<noteq> 0 \<and> lm_ops m \<noteq> 0 \<and> (\<exists>f. h (lm_ops m) = Some f \<and> fst (f s) \<noteq> 0)")
    case True
    with Cons.prems show ?thesis
      by (intro exI[of _ "[]"]) (auto split: prod.splits)
  next
    case False
    obtain rc1 s1 where c: "call_chain h [m] s = (rc1, s1)" by (cases "call_chain h [m] s")
    with False have "rc1 = 0" by (auto split: option.splits prod.splits if_splits)
    with c have s1: "call_chain h [m] s = (0, s1)" "call_chain h mods s1 = (rc, s')"
      using Cons.prems call_chain_append[of h "[m]" mods s] by auto
    from Cons.IH[OF s1(2)] obtain xs m' ys f s2 where r: "mods = xs @ m' # ys" "call_chain h xs s1 = (0, s2)"
        "lm_active m' \<noteq> 0" "lm_ops m' \<noteq> 0" "h (lm_ops m') = Some f" "f s2 = (rc, s')"
      by blast
    have "call_chain h (m # xs) s = (0, s2)"
      using call_chain_append[of h "[m]" xs s] s1(1) r(2) by simp
    with r show ?thesis by (intro exI[of _ "m # xs"]) auto
  qed
qed

text \<open>Hooks without a state: the chain grants when every module that has the hook grants.\<close>

lemma call_chain_pure:
  assumes "\<forall>m \<in> set mods. module_ok m"
  shows "fst (call_chain (\<lambda>ops. map_option Pair (ans ops)) mods s) = 0 \<longleftrightarrow>
     (\<forall>m \<in> set mods. ans (lm_ops m) \<in> {None, Some 0})"
  using assms by (induction mods) (auto simp: module_ok_def split: option.splits)

subsection \<open>Histories\<close>

datatype lsm_op = Register "u8 list" u64 bool | Unregister "u8 list"

fun lsm_step :: "lsm_op \<Rightarrow> lsm_state \<Rightarrow> lsm_state option" where
  "lsm_step (Register n ops ok) st = map_option snd (lsm_register_security (Some n) ops ok st)"
| "lsm_step (Unregister n) st = map_option snd (lsm_unregister_security (Some n) st)"

fun lsm_run :: "lsm_op list \<Rightarrow> lsm_state \<Rightarrow> lsm_state option" where
  "lsm_run [] st = Some st"
| "lsm_run (x # xs) st = Option.bind (lsm_step x st) (lsm_run xs)"

fun op_name :: "lsm_op \<Rightarrow> u8 list" where
  "op_name (Register n _ _) = n"
| "op_name (Unregister n) = n"

text \<open>What the same history does to a finite map from names to tables of hooks.\<close>

fun table_step :: "lsm_op \<Rightarrow> (u8 list \<rightharpoonup> u64) \<Rightarrow> (u8 list \<rightharpoonup> u64)" where
  "table_step (Register n ops ok) t =
     (if ops = 0 \<or> cstr n \<in> dom t \<or> \<not> ok then t else t(cstr n \<mapsto> ops))"
| "table_step (Unregister n) t = t(cstr n := None)"

lemma lsm_step_table:
  assumes "lsm_inv st" "short_name (op_name x)"
  shows "\<exists>st'. lsm_step x st = Some st' \<and> lsm_inv st' \<and> lsm_table st' = table_step x (lsm_table st)"
proof (cases x)
  case (Register n ops ok)
  then show ?thesis
    using lsm_register_table[OF assms(1), of n ops ok] assms by auto
next
  case (Unregister n)
  then show ?thesis
    using lsm_unregister_table[OF assms(1), of n] assms by auto
qed

lemma lsm_run_table:
  assumes "lsm_inv st" "\<forall>x \<in> set ops. short_name (op_name x)"
  shows "\<exists>st'. lsm_run ops st = Some st' \<and> lsm_inv st' \<and> lsm_table st' = fold table_step ops (lsm_table st)"
  using assms
proof (induction ops arbitrary: st)
  case (Cons x ops)
  obtain st1 where "lsm_step x st = Some st1" "lsm_inv st1" "lsm_table st1 = table_step x (lsm_table st)"
    using lsm_step_table[of st x] Cons.prems by auto
  with Cons.IH[of st1] Cons.prems show ?case by simp
qed auto

text \<open>
  C21. The security modules refine a table. After every history of registrations and
  removals with names of at most 31 characters, looking a name up finds what the same
  history leaves in a finite map (a second registration of a name is refused, a failed
  allocation changes nothing), and a decision of modules that only look at its arguments is
  to grant exactly when every module in that map that has the hook grants, whatever the
  order of registration was.
\<close>

theorem lsm_history_decides:
  assumes "\<forall>x \<in> set ops. short_name (op_name x)"
  shows "\<exists>st. lsm_run ops lsm_init = Some st \<and>
     (\<forall>n. short_name n \<longrightarrow> lsm_get_operations (Some n) st =
        Some (case fold table_step ops Map.empty (cstr n) of None \<Rightarrow> 0 | Some a \<Rightarrow> a)) \<and>
     (\<forall>ans (s :: 's). fst (call_chain (\<lambda>a. map_option Pair (ans a)) (lsm_modules st) s) = 0 \<longleftrightarrow>
        (\<forall>a \<in> ran (fold table_step ops Map.empty). ans a \<in> {None, Some 0}))"
proof -
  obtain st where st: "lsm_run ops lsm_init = Some st" "lsm_inv st" "lsm_table st = fold table_step ops Map.empty"
    using lsm_run_table[OF lsm_init_inv(1) assms] lsm_init_inv(2) by auto
  have "fst (call_chain (\<lambda>a. map_option Pair (ans a)) (lsm_modules st) s) = 0 \<longleftrightarrow>
      (\<forall>a \<in> ran (lsm_table st). ans a \<in> {None, Some 0})" for ans :: "u64 \<Rightarrow> int option" and s :: 's
    using call_chain_pure[of "lsm_modules st" ans s] st(2)
    by (simp add: ran_lsm_table) (simp add: lsm_inv_def)
  with st lsm_get_operations_table[OF st(2)] show ?thesis by auto
qed

theorem lsm_history_decides_witness:
  "\<exists>st. lsm_run [Register [97, 0] 5 True, Register [98, 0] 6 True, Register [97, 0] 7 True, Unregister [98, 0]]
       lsm_init = Some st \<and>
     lsm_get_operations (Some [97, 0]) st = Some 5 \<and> lsm_get_operations (Some [98, 0]) st = Some 0 \<and>
     fst (call_chain (\<lambda>a. map_option Pair (if a = 6 then Some (- 13) else Some 0)) (lsm_modules st) ()) = 0"
proof -
  let ?ops = "[Register [97, 0] 5 True, Register [98, 0] 6 True, Register [97, 0] 7 True, Unregister [98, 0]]"
  have "\<forall>x \<in> set ?ops. short_name (op_name x)" by (simp add: short_name_def)
  from lsm_history_decides[OF this, where 's = unit] obtain st where st: "lsm_run ?ops lsm_init = Some st"
    and get: "\<And>n. short_name n \<Longrightarrow> lsm_get_operations (Some n) st =
        Some (case fold table_step ?ops Map.empty (cstr n) of None \<Rightarrow> 0 | Some a \<Rightarrow> a)"
    and dec: "\<And>ans. fst (call_chain (\<lambda>a. map_option Pair (ans a)) (lsm_modules st) ()) = 0 \<longleftrightarrow>
        (\<forall>a \<in> ran (fold table_step ?ops Map.empty). ans a \<in> {None, Some 0})"
    by blast
  have t: "fold table_step ?ops Map.empty = [[97] \<mapsto> 5]" by (simp add: fun_eq_iff)
  show ?thesis
    using st get[of "[97, 0]"] get[of "[98, 0]"] dec[of "\<lambda>a. if a = 6 then Some (- 13) else Some 0"]
    unfolding t by (simp add: short_name_def)
qed

text \<open>
  Names of 32 characters or more escape the check for duplicates: the module is registered,
  every time, and can neither be looked up nor removed.
\<close>

lemma lsm_long_name_lost:
  assumes "lsm_inv st" "terminated n" "LSM_NAME_MAX \<le> length (cstr n)" "ops \<noteq> 0"
  shows "\<exists>st'. lsm_register_security (Some n) ops True st = Some (0, st')"
    "lsm_get_operations (Some n) st = Some 0" "lsm_unregister_security (Some n) st = Some (- 1, st)"
proof -
  have "lsm_find n (lsm_modules st) = Some None"
    using lsm_find_long[OF assms(2,3)] assms(1) by (simp add: lsm_inv_def)
  moreover obtain n' where "bounded_copy (replicate 32 0) LSM_NAME_MAX n = Some n'"
    using lsm_name_copy[OF assms(2)] by metis
  ultimately show "\<exists>st'. lsm_register_security (Some n) ops True st = Some (0, st')"
    "lsm_get_operations (Some n) st = Some 0" "lsm_unregister_security (Some n) st = Some (- 1, st)"
    using assms(4)
    by (simp_all add: lsm_register_security_def lsm_get_operations_def lsm_unregister_security_def Let_def)
qed

text \<open>
  Once the primary module is removed, the module promoted in its place keeps the secondary
  order, and the next registration goes in front of it.
\<close>

lemma promoted_module_not_first:
  "map_option (\<lambda>st. (lsm_primary_ops st, map lm_ops (lsm_modules st)))
     (lsm_run [Register [97, 0] 5 True, Register [98, 0] 6 True, Unregister [97, 0], Register [99, 0] 7 True]
        lsm_init) = Some (6, [7, 6])"
  by code_simp

end
