(* ===== verification/Lsm_Hooks.thy ===== *)
theory Lsm_Hooks
  imports Lsm
begin

section \<open>The security hooks (\<open>arch/x86_64/lsm.h\<close>, \<open>lsm.c\<close>)\<close>

text \<open>
  The table of hooks of a module and the functions \<open>security_X\<close> by which the rest of the
  kernel asks for a decision. \<open>lsm_ops\<close> is the memory that holds the tables; only the hooks
  that \<open>lsm.c\<close> forwards are fields of the record, and an absent hook is \<open>None\<close>. \<open>lsm.c\<close>
  writes the loop out once per hook, as \<open>lsm_call_chain_X\<close>, and \<open>security_X\<close> only calls it:
  here \<open>security_X\<close> is the loop of the theory \<open>Lsm\<close> at the hook \<open>X\<close>. Pointers and \<open>unsigned long\<close>
  arguments are words.
\<close>

record 's security_operations =
  inode_permission :: "(u64 \<Rightarrow> int \<Rightarrow> 's check) option"
  file_permission :: "(u64 \<Rightarrow> int \<Rightarrow> 's check) option"
  task_create :: "(u64 \<Rightarrow> 's check) option"
  task_free :: "(u64 \<Rightarrow> 's \<Rightarrow> 's) option"
  socket_bind :: "(u64 \<Rightarrow> u64 \<Rightarrow> int \<Rightarrow> 's check) option"
  socket_connect :: "(u64 \<Rightarrow> u64 \<Rightarrow> int \<Rightarrow> 's check) option"
  socket_accept :: "(u64 \<Rightarrow> u64 \<Rightarrow> 's check) option"
  socket_sendmsg :: "(u64 \<Rightarrow> u64 \<Rightarrow> int \<Rightarrow> 's check) option"
  socket_recvmsg :: "(u64 \<Rightarrow> u64 \<Rightarrow> int \<Rightarrow> int \<Rightarrow> 's check) option"
  inode_setxattr :: "(u64 \<Rightarrow> u64 \<Rightarrow> u64 \<Rightarrow> int \<Rightarrow> int \<Rightarrow> 's check) option"
  inode_getxattr :: "(u64 \<Rightarrow> u64 \<Rightarrow> 's check) option"
  inode_removexattr :: "(u64 \<Rightarrow> u64 \<Rightarrow> 's check) option"
  capability :: "(u64 \<Rightarrow> int \<Rightarrow> int \<Rightarrow> 's check) option"
  sysctl :: "(u64 \<Rightarrow> int \<Rightarrow> 's check) option"
  mmap_file :: "(u64 \<Rightarrow> u64 \<Rightarrow> u64 \<Rightarrow> u64 \<Rightarrow> 's check) option"
  file_lock :: "(u64 \<Rightarrow> u64 \<Rightarrow> 's check) option"
  kernfs_init :: "(u64 \<Rightarrow> 's check) option"
  kernfs_symlink :: "(u64 \<Rightarrow> u64 \<Rightarrow> 's check) option"
  bprm_check_security :: "(u64 \<Rightarrow> 's check) option"
  bprm_set_creds :: "(u64 \<Rightarrow> 's check) option"
  inode_create :: "(u64 \<Rightarrow> u64 \<Rightarrow> int \<Rightarrow> 's check) option"
  inode_link :: "(u64 \<Rightarrow> u64 \<Rightarrow> u64 \<Rightarrow> 's check) option"
  inode_unlink :: "(u64 \<Rightarrow> u64 \<Rightarrow> 's check) option"
  inode_mkdir :: "(u64 \<Rightarrow> u64 \<Rightarrow> int \<Rightarrow> 's check) option"
  inode_rmdir :: "(u64 \<Rightarrow> u64 \<Rightarrow> 's check) option"
  inode_rename :: "(u64 \<Rightarrow> u64 \<Rightarrow> u64 \<Rightarrow> u64 \<Rightarrow> 's check) option"
  inode_setattr :: "(u64 \<Rightarrow> int \<Rightarrow> 's check) option"
  inode_getattr :: "(u64 \<Rightarrow> 's check) option"
  file_open :: "(u64 \<Rightarrow> 's check) option"
  file_receive :: "(u64 \<Rightarrow> 's check) option"
  task_setuid :: "(u64 \<Rightarrow> u64 \<Rightarrow> 's check) option"
  task_setgid :: "(u64 \<Rightarrow> u64 \<Rightarrow> 's check) option"
  task_kill :: "(u64 \<Rightarrow> int \<Rightarrow> 's check) option"
  task_setnice :: "(u64 \<Rightarrow> int \<Rightarrow> 's check) option"
  task_setscheduler :: "(u64 \<Rightarrow> 's check) option"
  ipc_permission :: "(u64 \<Rightarrow> int \<Rightarrow> 's check) option"
  socket_listen :: "(u64 \<Rightarrow> int \<Rightarrow> 's check) option"
  socket_shutdown :: "(u64 \<Rightarrow> int \<Rightarrow> 's check) option"

type_synonym 's lsm_ops = "u64 \<Rightarrow> 's security_operations"

text \<open>The table without hooks that \<open>lsm_init\<close> clears.\<close>

definition lsm_default_ops :: "'s security_operations" where
  "lsm_default_ops = \<lparr>inode_permission = None, file_permission = None, task_create = None,
     task_free = None, socket_bind = None, socket_connect = None, socket_accept = None,
     socket_sendmsg = None, socket_recvmsg = None, inode_setxattr = None,
     inode_getxattr = None, inode_removexattr = None, capability = None, sysctl = None,
     mmap_file = None, file_lock = None, kernfs_init = None, kernfs_symlink = None,
     bprm_check_security = None, bprm_set_creds = None, inode_create = None,
     inode_link = None, inode_unlink = None, inode_mkdir = None, inode_rmdir = None,
     inode_rename = None, inode_setattr = None, inode_getattr = None, file_open = None,
     file_receive = None, task_setuid = None, task_setgid = None, task_kill = None,
     task_setnice = None, task_setscheduler = None, ipc_permission = None,
     socket_listen = None, socket_shutdown = None\<rparr>"

definition security_inode_permission :: "'s lsm_ops \<Rightarrow> lsm_state \<Rightarrow> u64 \<Rightarrow> int \<Rightarrow> 's check" where
  "security_inode_permission mem st inode mask' =
     call_chain (\<lambda>ops. map_option (\<lambda>f. f inode mask') (inode_permission (mem ops))) (lsm_modules st)"

definition security_file_permission :: "'s lsm_ops \<Rightarrow> lsm_state \<Rightarrow> u64 \<Rightarrow> int \<Rightarrow> 's check" where
  "security_file_permission mem st file' mask' =
     call_chain (\<lambda>ops. map_option (\<lambda>f. f file' mask') (file_permission (mem ops))) (lsm_modules st)"

definition security_task_create :: "'s lsm_ops \<Rightarrow> lsm_state \<Rightarrow> u64 \<Rightarrow> 's check" where
  "security_task_create mem st task =
     call_chain (\<lambda>ops. map_option (\<lambda>f. f task) (task_create (mem ops))) (lsm_modules st)"

definition security_task_free :: "'s lsm_ops \<Rightarrow> lsm_state \<Rightarrow> u64 \<Rightarrow> 's \<Rightarrow> 's" where
  "security_task_free mem st task =
     notify_chain (\<lambda>ops. map_option (\<lambda>f. f task) (task_free (mem ops))) (lsm_modules st)"

definition security_socket_bind :: "'s lsm_ops \<Rightarrow> lsm_state \<Rightarrow> u64 \<Rightarrow> u64 \<Rightarrow> int \<Rightarrow> 's check" where
  "security_socket_bind mem st sock addr addr_len =
     call_chain (\<lambda>ops. map_option (\<lambda>f. f sock addr addr_len) (socket_bind (mem ops))) (lsm_modules st)"

definition security_socket_connect :: "'s lsm_ops \<Rightarrow> lsm_state \<Rightarrow> u64 \<Rightarrow> u64 \<Rightarrow> int \<Rightarrow> 's check" where
  "security_socket_connect mem st sock addr addr_len =
     call_chain (\<lambda>ops. map_option (\<lambda>f. f sock addr addr_len) (socket_connect (mem ops))) (lsm_modules st)"

definition security_socket_accept :: "'s lsm_ops \<Rightarrow> lsm_state \<Rightarrow> u64 \<Rightarrow> u64 \<Rightarrow> 's check" where
  "security_socket_accept mem st sock newsock =
     call_chain (\<lambda>ops. map_option (\<lambda>f. f sock newsock) (socket_accept (mem ops))) (lsm_modules st)"

definition security_socket_sendmsg :: "'s lsm_ops \<Rightarrow> lsm_state \<Rightarrow> u64 \<Rightarrow> u64 \<Rightarrow> int \<Rightarrow> 's check" where
  "security_socket_sendmsg mem st sock msg sz =
     call_chain (\<lambda>ops. map_option (\<lambda>f. f sock msg sz) (socket_sendmsg (mem ops))) (lsm_modules st)"

definition security_socket_recvmsg :: "'s lsm_ops \<Rightarrow> lsm_state \<Rightarrow> u64 \<Rightarrow> u64 \<Rightarrow> int \<Rightarrow> int \<Rightarrow> 's check" where
  "security_socket_recvmsg mem st sock msg sz flags =
     call_chain (\<lambda>ops. map_option (\<lambda>f. f sock msg sz flags) (socket_recvmsg (mem ops))) (lsm_modules st)"

definition security_inode_setxattr :: "'s lsm_ops \<Rightarrow> lsm_state \<Rightarrow> u64 \<Rightarrow> u64 \<Rightarrow> u64 \<Rightarrow> int \<Rightarrow> int \<Rightarrow> 's check" where
  "security_inode_setxattr mem st dentry name value' sz flags =
     call_chain (\<lambda>ops. map_option (\<lambda>f. f dentry name value' sz flags) (inode_setxattr (mem ops))) (lsm_modules st)"

definition security_inode_getxattr :: "'s lsm_ops \<Rightarrow> lsm_state \<Rightarrow> u64 \<Rightarrow> u64 \<Rightarrow> 's check" where
  "security_inode_getxattr mem st dentry name =
     call_chain (\<lambda>ops. map_option (\<lambda>f. f dentry name) (inode_getxattr (mem ops))) (lsm_modules st)"

definition security_inode_removexattr :: "'s lsm_ops \<Rightarrow> lsm_state \<Rightarrow> u64 \<Rightarrow> u64 \<Rightarrow> 's check" where
  "security_inode_removexattr mem st dentry name =
     call_chain (\<lambda>ops. map_option (\<lambda>f. f dentry name) (inode_removexattr (mem ops))) (lsm_modules st)"

definition security_capability :: "'s lsm_ops \<Rightarrow> lsm_state \<Rightarrow> u64 \<Rightarrow> int \<Rightarrow> int \<Rightarrow> 's check" where
  "security_capability mem st task cap audit =
     call_chain (\<lambda>ops. map_option (\<lambda>f. f task cap audit) (capability (mem ops))) (lsm_modules st)"

definition security_sysctl :: "'s lsm_ops \<Rightarrow> lsm_state \<Rightarrow> u64 \<Rightarrow> int \<Rightarrow> 's check" where
  "security_sysctl mem st name oper =
     call_chain (\<lambda>ops. map_option (\<lambda>f. f name oper) (sysctl (mem ops))) (lsm_modules st)"

definition security_mmap_file :: "'s lsm_ops \<Rightarrow> lsm_state \<Rightarrow> u64 \<Rightarrow> u64 \<Rightarrow> u64 \<Rightarrow> u64 \<Rightarrow> 's check" where
  "security_mmap_file mem st file' reqprot prot flags =
     call_chain (\<lambda>ops. map_option (\<lambda>f. f file' reqprot prot flags) (mmap_file (mem ops))) (lsm_modules st)"

definition security_file_lock :: "'s lsm_ops \<Rightarrow> lsm_state \<Rightarrow> u64 \<Rightarrow> u64 \<Rightarrow> 's check" where
  "security_file_lock mem st file' fl =
     call_chain (\<lambda>ops. map_option (\<lambda>f. f file' fl) (file_lock (mem ops))) (lsm_modules st)"

definition security_kernfs_init :: "'s lsm_ops \<Rightarrow> lsm_state \<Rightarrow> u64 \<Rightarrow> 's check" where
  "security_kernfs_init mem st kn =
     call_chain (\<lambda>ops. map_option (\<lambda>f. f kn) (kernfs_init (mem ops))) (lsm_modules st)"

definition security_kernfs_symlink :: "'s lsm_ops \<Rightarrow> lsm_state \<Rightarrow> u64 \<Rightarrow> u64 \<Rightarrow> 's check" where
  "security_kernfs_symlink mem st parent kn =
     call_chain (\<lambda>ops. map_option (\<lambda>f. f parent kn) (kernfs_symlink (mem ops))) (lsm_modules st)"

definition security_bprm_check :: "'s lsm_ops \<Rightarrow> lsm_state \<Rightarrow> u64 \<Rightarrow> 's check" where
  "security_bprm_check mem st bprm =
     call_chain (\<lambda>ops. map_option (\<lambda>f. f bprm) (bprm_check_security (mem ops))) (lsm_modules st)"

definition security_bprm_set_creds :: "'s lsm_ops \<Rightarrow> lsm_state \<Rightarrow> u64 \<Rightarrow> 's check" where
  "security_bprm_set_creds mem st bprm =
     call_chain (\<lambda>ops. map_option (\<lambda>f. f bprm) (bprm_set_creds (mem ops))) (lsm_modules st)"

definition security_inode_create :: "'s lsm_ops \<Rightarrow> lsm_state \<Rightarrow> u64 \<Rightarrow> u64 \<Rightarrow> int \<Rightarrow> 's check" where
  "security_inode_create mem st dir dentry mode =
     call_chain (\<lambda>ops. map_option (\<lambda>f. f dir dentry mode) (inode_create (mem ops))) (lsm_modules st)"

definition security_inode_link :: "'s lsm_ops \<Rightarrow> lsm_state \<Rightarrow> u64 \<Rightarrow> u64 \<Rightarrow> u64 \<Rightarrow> 's check" where
  "security_inode_link mem st old_dentry dir new_dentry =
     call_chain (\<lambda>ops. map_option (\<lambda>f. f old_dentry dir new_dentry) (inode_link (mem ops))) (lsm_modules st)"

definition security_inode_unlink :: "'s lsm_ops \<Rightarrow> lsm_state \<Rightarrow> u64 \<Rightarrow> u64 \<Rightarrow> 's check" where
  "security_inode_unlink mem st dir dentry =
     call_chain (\<lambda>ops. map_option (\<lambda>f. f dir dentry) (inode_unlink (mem ops))) (lsm_modules st)"

definition security_inode_mkdir :: "'s lsm_ops \<Rightarrow> lsm_state \<Rightarrow> u64 \<Rightarrow> u64 \<Rightarrow> int \<Rightarrow> 's check" where
  "security_inode_mkdir mem st dir dentry mode =
     call_chain (\<lambda>ops. map_option (\<lambda>f. f dir dentry mode) (inode_mkdir (mem ops))) (lsm_modules st)"

definition security_inode_rmdir :: "'s lsm_ops \<Rightarrow> lsm_state \<Rightarrow> u64 \<Rightarrow> u64 \<Rightarrow> 's check" where
  "security_inode_rmdir mem st dir dentry =
     call_chain (\<lambda>ops. map_option (\<lambda>f. f dir dentry) (inode_rmdir (mem ops))) (lsm_modules st)"

definition security_inode_rename :: "'s lsm_ops \<Rightarrow> lsm_state \<Rightarrow> u64 \<Rightarrow> u64 \<Rightarrow> u64 \<Rightarrow> u64 \<Rightarrow> 's check" where
  "security_inode_rename mem st old_dir old_dentry new_dir new_dentry =
     call_chain (\<lambda>ops. map_option (\<lambda>f. f old_dir old_dentry new_dir new_dentry) (inode_rename (mem ops))) (lsm_modules st)"

definition security_inode_setattr :: "u64 \<Rightarrow> int \<Rightarrow> 's check" where
  "security_inode_setattr dentry iattr s = (0, s)"

definition security_inode_getattr :: "u64 \<Rightarrow> 's check" where
  "security_inode_getattr path s = (0, s)"

definition security_file_open :: "'s lsm_ops \<Rightarrow> lsm_state \<Rightarrow> u64 \<Rightarrow> 's check" where
  "security_file_open mem st file' =
     call_chain (\<lambda>ops. map_option (\<lambda>f. f file') (file_open (mem ops))) (lsm_modules st)"

definition security_file_receive :: "u64 \<Rightarrow> 's check" where
  "security_file_receive file' s = (0, s)"

definition security_task_setuid :: "'s lsm_ops \<Rightarrow> lsm_state \<Rightarrow> u64 \<Rightarrow> u64 \<Rightarrow> 's check" where
  "security_task_setuid mem st new_creds old_creds =
     call_chain (\<lambda>ops. map_option (\<lambda>f. f new_creds old_creds) (task_setuid (mem ops))) (lsm_modules st)"

definition security_task_setgid :: "'s lsm_ops \<Rightarrow> lsm_state \<Rightarrow> u64 \<Rightarrow> u64 \<Rightarrow> 's check" where
  "security_task_setgid mem st new_creds old_creds =
     call_chain (\<lambda>ops. map_option (\<lambda>f. f new_creds old_creds) (task_setgid (mem ops))) (lsm_modules st)"

definition security_task_kill :: "'s lsm_ops \<Rightarrow> lsm_state \<Rightarrow> u64 \<Rightarrow> int \<Rightarrow> 's check" where
  "security_task_kill mem st task sig =
     call_chain (\<lambda>ops. map_option (\<lambda>f. f task sig) (task_kill (mem ops))) (lsm_modules st)"

definition security_task_setnice :: "'s lsm_ops \<Rightarrow> lsm_state \<Rightarrow> u64 \<Rightarrow> int \<Rightarrow> 's check" where
  "security_task_setnice mem st task nice =
     call_chain (\<lambda>ops. map_option (\<lambda>f. f task nice) (task_setnice (mem ops))) (lsm_modules st)"

definition security_task_setscheduler :: "'s lsm_ops \<Rightarrow> lsm_state \<Rightarrow> u64 \<Rightarrow> 's check" where
  "security_task_setscheduler mem st task =
     call_chain (\<lambda>ops. map_option (\<lambda>f. f task) (task_setscheduler (mem ops))) (lsm_modules st)"

definition security_ipc_permission :: "'s lsm_ops \<Rightarrow> lsm_state \<Rightarrow> u64 \<Rightarrow> int \<Rightarrow> 's check" where
  "security_ipc_permission mem st ipc_perm flag =
     call_chain (\<lambda>ops. map_option (\<lambda>f. f ipc_perm flag) (ipc_permission (mem ops))) (lsm_modules st)"

definition security_socket_listen :: "'s lsm_ops \<Rightarrow> lsm_state \<Rightarrow> u64 \<Rightarrow> int \<Rightarrow> 's check" where
  "security_socket_listen mem st sock backlog =
     call_chain (\<lambda>ops. map_option (\<lambda>f. f sock backlog) (socket_listen (mem ops))) (lsm_modules st)"

definition security_socket_shutdown :: "'s lsm_ops \<Rightarrow> lsm_state \<Rightarrow> u64 \<Rightarrow> int \<Rightarrow> 's check" where
  "security_socket_shutdown mem st sock how =
     call_chain (\<lambda>ops. map_option (\<lambda>f. f sock how) (socket_shutdown (mem ops))) (lsm_modules st)"

subsection \<open>The contract of a security decision\<close>

text \<open>
  What every one of these functions promises: a denial comes from a registered module, and
  modules that only look at the arguments are all obeyed.
\<close>

locale security_decision =
  fixes ask :: "'s lsm_ops \<Rightarrow> lsm_state \<Rightarrow> 's check" and hook :: "'s security_operations \<Rightarrow> 's check option"
  assumes ask_chain: "ask mem st = call_chain (\<lambda>ops. hook (mem ops)) (lsm_modules st)"
begin

lemma denial_from_module:
  assumes "ask mem st s = (rc, s')" "rc \<noteq> 0"
  shows "\<exists>m \<in> set (lsm_modules st). \<exists>f s1. lm_active m \<noteq> 0 \<and> hook (mem (lm_ops m)) = Some f \<and> f s1 = (rc, s')"
  using call_chain_denied[OF assms(1)[unfolded ask_chain] assms(2)] by fastforce

lemma obeys_every_module:
  assumes "lsm_inv st" "\<And>a. hook (mem a) = map_option Pair (ans a)"
  shows "fst (ask mem st s) = 0 \<longleftrightarrow> (\<forall>a \<in> ran (lsm_table st). ans a \<in> {None, Some 0})"
  using call_chain_pure[of "lsm_modules st" ans s] assms
  by (simp add: ask_chain ran_lsm_table) (simp add: lsm_inv_def)

end

interpretation inode_permission: security_decision "\<lambda>mem st. security_inode_permission mem st inode mask'"
  "\<lambda>t. map_option (\<lambda>f. f inode mask') (inode_permission t)" for inode mask'
  by unfold_locales (simp add: security_inode_permission_def)

interpretation file_permission: security_decision "\<lambda>mem st. security_file_permission mem st file' mask'"
  "\<lambda>t. map_option (\<lambda>f. f file' mask') (file_permission t)" for file' mask'
  by unfold_locales (simp add: security_file_permission_def)

interpretation task_create: security_decision "\<lambda>mem st. security_task_create mem st task"
  "\<lambda>t. map_option (\<lambda>f. f task) (task_create t)" for task
  by unfold_locales (simp add: security_task_create_def)

interpretation socket_bind: security_decision "\<lambda>mem st. security_socket_bind mem st sock addr addr_len"
  "\<lambda>t. map_option (\<lambda>f. f sock addr addr_len) (socket_bind t)" for sock addr addr_len
  by unfold_locales (simp add: security_socket_bind_def)

interpretation socket_connect: security_decision "\<lambda>mem st. security_socket_connect mem st sock addr addr_len"
  "\<lambda>t. map_option (\<lambda>f. f sock addr addr_len) (socket_connect t)" for sock addr addr_len
  by unfold_locales (simp add: security_socket_connect_def)

interpretation socket_accept: security_decision "\<lambda>mem st. security_socket_accept mem st sock newsock"
  "\<lambda>t. map_option (\<lambda>f. f sock newsock) (socket_accept t)" for sock newsock
  by unfold_locales (simp add: security_socket_accept_def)

interpretation socket_sendmsg: security_decision "\<lambda>mem st. security_socket_sendmsg mem st sock msg sz"
  "\<lambda>t. map_option (\<lambda>f. f sock msg sz) (socket_sendmsg t)" for sock msg sz
  by unfold_locales (simp add: security_socket_sendmsg_def)

interpretation socket_recvmsg: security_decision "\<lambda>mem st. security_socket_recvmsg mem st sock msg sz flags"
  "\<lambda>t. map_option (\<lambda>f. f sock msg sz flags) (socket_recvmsg t)" for sock msg sz flags
  by unfold_locales (simp add: security_socket_recvmsg_def)

interpretation inode_setxattr: security_decision "\<lambda>mem st. security_inode_setxattr mem st dentry name value' sz flags"
  "\<lambda>t. map_option (\<lambda>f. f dentry name value' sz flags) (inode_setxattr t)" for dentry name value' sz flags
  by unfold_locales (simp add: security_inode_setxattr_def)

interpretation inode_getxattr: security_decision "\<lambda>mem st. security_inode_getxattr mem st dentry name"
  "\<lambda>t. map_option (\<lambda>f. f dentry name) (inode_getxattr t)" for dentry name
  by unfold_locales (simp add: security_inode_getxattr_def)

interpretation inode_removexattr: security_decision "\<lambda>mem st. security_inode_removexattr mem st dentry name"
  "\<lambda>t. map_option (\<lambda>f. f dentry name) (inode_removexattr t)" for dentry name
  by unfold_locales (simp add: security_inode_removexattr_def)

interpretation capability: security_decision "\<lambda>mem st. security_capability mem st task cap audit"
  "\<lambda>t. map_option (\<lambda>f. f task cap audit) (capability t)" for task cap audit
  by unfold_locales (simp add: security_capability_def)

interpretation sysctl: security_decision "\<lambda>mem st. security_sysctl mem st name oper"
  "\<lambda>t. map_option (\<lambda>f. f name oper) (sysctl t)" for name oper
  by unfold_locales (simp add: security_sysctl_def)

interpretation mmap_file: security_decision "\<lambda>mem st. security_mmap_file mem st file' reqprot prot flags"
  "\<lambda>t. map_option (\<lambda>f. f file' reqprot prot flags) (mmap_file t)" for file' reqprot prot flags
  by unfold_locales (simp add: security_mmap_file_def)

interpretation file_lock: security_decision "\<lambda>mem st. security_file_lock mem st file' fl"
  "\<lambda>t. map_option (\<lambda>f. f file' fl) (file_lock t)" for file' fl
  by unfold_locales (simp add: security_file_lock_def)

interpretation kernfs_init: security_decision "\<lambda>mem st. security_kernfs_init mem st kn"
  "\<lambda>t. map_option (\<lambda>f. f kn) (kernfs_init t)" for kn
  by unfold_locales (simp add: security_kernfs_init_def)

interpretation kernfs_symlink: security_decision "\<lambda>mem st. security_kernfs_symlink mem st parent kn"
  "\<lambda>t. map_option (\<lambda>f. f parent kn) (kernfs_symlink t)" for parent kn
  by unfold_locales (simp add: security_kernfs_symlink_def)

interpretation bprm_check: security_decision "\<lambda>mem st. security_bprm_check mem st bprm"
  "\<lambda>t. map_option (\<lambda>f. f bprm) (bprm_check_security t)" for bprm
  by unfold_locales (simp add: security_bprm_check_def)

interpretation bprm_set_creds: security_decision "\<lambda>mem st. security_bprm_set_creds mem st bprm"
  "\<lambda>t. map_option (\<lambda>f. f bprm) (bprm_set_creds t)" for bprm
  by unfold_locales (simp add: security_bprm_set_creds_def)

interpretation inode_create: security_decision "\<lambda>mem st. security_inode_create mem st dir dentry mode"
  "\<lambda>t. map_option (\<lambda>f. f dir dentry mode) (inode_create t)" for dir dentry mode
  by unfold_locales (simp add: security_inode_create_def)

interpretation inode_link: security_decision "\<lambda>mem st. security_inode_link mem st old_dentry dir new_dentry"
  "\<lambda>t. map_option (\<lambda>f. f old_dentry dir new_dentry) (inode_link t)" for old_dentry dir new_dentry
  by unfold_locales (simp add: security_inode_link_def)

interpretation inode_unlink: security_decision "\<lambda>mem st. security_inode_unlink mem st dir dentry"
  "\<lambda>t. map_option (\<lambda>f. f dir dentry) (inode_unlink t)" for dir dentry
  by unfold_locales (simp add: security_inode_unlink_def)

interpretation inode_mkdir: security_decision "\<lambda>mem st. security_inode_mkdir mem st dir dentry mode"
  "\<lambda>t. map_option (\<lambda>f. f dir dentry mode) (inode_mkdir t)" for dir dentry mode
  by unfold_locales (simp add: security_inode_mkdir_def)

interpretation inode_rmdir: security_decision "\<lambda>mem st. security_inode_rmdir mem st dir dentry"
  "\<lambda>t. map_option (\<lambda>f. f dir dentry) (inode_rmdir t)" for dir dentry
  by unfold_locales (simp add: security_inode_rmdir_def)

interpretation inode_rename: security_decision "\<lambda>mem st. security_inode_rename mem st old_dir old_dentry new_dir new_dentry"
  "\<lambda>t. map_option (\<lambda>f. f old_dir old_dentry new_dir new_dentry) (inode_rename t)" for old_dir old_dentry new_dir new_dentry
  by unfold_locales (simp add: security_inode_rename_def)

interpretation file_open: security_decision "\<lambda>mem st. security_file_open mem st file'"
  "\<lambda>t. map_option (\<lambda>f. f file') (file_open t)" for file'
  by unfold_locales (simp add: security_file_open_def)

interpretation task_setuid: security_decision "\<lambda>mem st. security_task_setuid mem st new_creds old_creds"
  "\<lambda>t. map_option (\<lambda>f. f new_creds old_creds) (task_setuid t)" for new_creds old_creds
  by unfold_locales (simp add: security_task_setuid_def)

interpretation task_setgid: security_decision "\<lambda>mem st. security_task_setgid mem st new_creds old_creds"
  "\<lambda>t. map_option (\<lambda>f. f new_creds old_creds) (task_setgid t)" for new_creds old_creds
  by unfold_locales (simp add: security_task_setgid_def)

interpretation task_kill: security_decision "\<lambda>mem st. security_task_kill mem st task sig"
  "\<lambda>t. map_option (\<lambda>f. f task sig) (task_kill t)" for task sig
  by unfold_locales (simp add: security_task_kill_def)

interpretation task_setnice: security_decision "\<lambda>mem st. security_task_setnice mem st task nice"
  "\<lambda>t. map_option (\<lambda>f. f task nice) (task_setnice t)" for task nice
  by unfold_locales (simp add: security_task_setnice_def)

interpretation task_setscheduler: security_decision "\<lambda>mem st. security_task_setscheduler mem st task"
  "\<lambda>t. map_option (\<lambda>f. f task) (task_setscheduler t)" for task
  by unfold_locales (simp add: security_task_setscheduler_def)

interpretation ipc_permission: security_decision "\<lambda>mem st. security_ipc_permission mem st ipc_perm flag"
  "\<lambda>t. map_option (\<lambda>f. f ipc_perm flag) (ipc_permission t)" for ipc_perm flag
  by unfold_locales (simp add: security_ipc_permission_def)

interpretation socket_listen: security_decision "\<lambda>mem st. security_socket_listen mem st sock backlog"
  "\<lambda>t. map_option (\<lambda>f. f sock backlog) (socket_listen t)" for sock backlog
  by unfold_locales (simp add: security_socket_listen_def)

interpretation socket_shutdown: security_decision "\<lambda>mem st. security_socket_shutdown mem st sock how"
  "\<lambda>t. map_option (\<lambda>f. f sock how) (socket_shutdown t)" for sock how
  by unfold_locales (simp add: security_socket_shutdown_def)

text \<open>
  C39. A further module only restricts. When the modules judge an access to an inode by its
  arguments alone, access after a successful registration under a name of at most 31 characters is granted exactly when it was granted
  before and the new module, if it has the hook, grants it too.
\<close>

theorem registration_only_restricts:
  assumes "lsm_inv st" "short_name n" "lsm_register_security (Some n) a True st = Some (0, st')"
    and "\<And>b. inode_permission (mem b) = map_option (\<lambda>p i k s. (p i k, s)) (perm b)"
  shows "fst (security_inode_permission mem st' inode k s) = 0 \<longleftrightarrow>
     fst (security_inode_permission mem st inode k s) = 0 \<and>
     (case perm a of None \<Rightarrow> True | Some p \<Rightarrow> p inode k = 0)"
proof -
  from lsm_register_table[OF assms(1,2), of a True] assms(3)
  have st': "lsm_inv st'" "lsm_table st' = (lsm_table st)(cstr n \<mapsto> a)" "cstr n \<notin> dom (lsm_table st)"
    by (auto split: if_splits)
  let ?ans = "\<lambda>b. map_option (\<lambda>p. p inode k) (perm b)"
  have h: "map_option (\<lambda>f. f inode k) (inode_permission (mem b)) = map_option Pair (?ans b)" for b
    by (cases "perm b") (auto simp: assms(4) fun_eq_iff)
  have "ran (lsm_table st') = insert a (ran (lsm_table st))"
    using st'(2,3) by (auto simp: dom_def)
  then show ?thesis
    unfolding inode_permission.obeys_every_module[OF st'(1) h] inode_permission.obeys_every_module[OF assms(1) h]
    by (auto split: option.splits)
qed

theorem registration_only_restricts_witness:
  "let mem = \<lambda>a. lsm_default_ops\<lparr>inode_permission :=
             Some (\<lambda>i k s. (if a = 5 \<and> k = 2 then - 13 else 0, s))\<rparr> in
   \<exists>st'. lsm_register_security (Some [97, 0]) 5 True lsm_init = Some (0, st') \<and>
     fst (security_inode_permission mem st' 1 2 ()) \<noteq> 0 \<and> fst (security_inode_permission mem st' 1 1 ()) = 0"
proof -
  let ?mem = "\<lambda>a :: u64. lsm_default_ops\<lparr>inode_permission :=
      Some (\<lambda>(i :: u64) (k :: int) (s :: unit). (if a = 5 \<and> k = 2 then - 13 else 0, s))\<rparr>"
  let ?perm = "\<lambda>a :: u64. Some (\<lambda>(i :: u64) (k :: int). if a = 5 \<and> k = 2 then - 13 else 0 :: int)"
  have n: "short_name [97, 0]" by (simp add: short_name_def)
  obtain st' where st': "lsm_register_security (Some [97, 0]) 5 True lsm_init = Some (0, st')"
    using lsm_register_table[OF lsm_init_inv(1) n, of 5 True] by (auto simp: lsm_init_inv(2))
  have "fst (security_inode_permission ?mem st' 1 k ()) = 0 \<longleftrightarrow>
      fst (security_inode_permission ?mem lsm_init 1 k ()) = 0 \<and>
      (case ?perm 5 of None \<Rightarrow> True | Some p \<Rightarrow> p 1 k = 0)" for k
    by (rule registration_only_restricts[OF lsm_init_inv(1) n st', of ?mem ?perm 1 k "()"]) simp
  from this[of 2] this[of 1] show ?thesis
    using st' by (simp add: Let_def security_inode_permission_def lsm_init_def)
qed

end
