(* ===== verification/Selinux.thy ===== *)
theory Selinux
  imports Libc_String
begin

unbundle bit_operations_syntax

section \<open>Type enforcement (\<open>arch/x86_64/selinux.c\<close>): policy, cache and hooks\<close>

text \<open>
  The access vector table (the policy), the cache of decisions in front of it and the
  hooks that ask it. The arrays of bucket lists are functions from the bucket number to the
  list, head first; the table of contexts is a function from security identifiers, all
  zero where nothing was stored. A pointer to a decision is an option, and a decision that
  the caller left uninitialised is an argument. What \<open>kzalloc\<close> answered is an argument. The
  theory \<open>Selinux_Context\<close> holds the identifiers and the text form of contexts.
\<close>

abbreviation (input) SELINUX_SID_MAX :: nat where "SELINUX_SID_MAX \<equiv> 4096"
abbreviation (input) SELINUX_AVC_SLOTS :: nat where "SELINUX_AVC_SLOTS \<equiv> 512"
abbreviation (input) SELINUX_AVD_MAX :: nat where "SELINUX_AVD_MAX \<equiv> 64"

abbreviation (input) SECINITSID_KERNEL :: nat where "SECINITSID_KERNEL \<equiv> 1"
abbreviation (input) SECINITSID_UNLABELED :: nat where "SECINITSID_UNLABELED \<equiv> 2"
abbreviation (input) SECINITSID_FILE :: nat where "SECINITSID_FILE \<equiv> 3"
abbreviation (input) SECINITSID_DIR :: nat where "SECINITSID_DIR \<equiv> 4"
abbreviation (input) SECINITSID_PROCESS :: nat where "SECINITSID_PROCESS \<equiv> 10"
abbreviation (input) SECINITSID_SOCKET :: nat where "SECINITSID_SOCKET \<equiv> 13"
abbreviation (input) SECINITSID_TCP_SOCKET :: nat where "SECINITSID_TCP_SOCKET \<equiv> 14"
abbreviation (input) SECINITSID_NODE :: nat where "SECINITSID_NODE \<equiv> 18"
abbreviation (input) SECINITSID_MAX :: nat where "SECINITSID_MAX \<equiv> 21"

abbreviation (input) SECCLASS_FILE :: u16 where "SECCLASS_FILE \<equiv> 1"
abbreviation (input) SECCLASS_DIR :: u16 where "SECCLASS_DIR \<equiv> 2"
abbreviation (input) SECCLASS_TCP_SOCKET :: u16 where "SECCLASS_TCP_SOCKET \<equiv> 6"
abbreviation (input) SECCLASS_SOCKET :: u16 where "SECCLASS_SOCKET \<equiv> 9"
abbreviation (input) SECCLASS_PROCESS :: u16 where "SECCLASS_PROCESS \<equiv> 10"
abbreviation (input) SECCLASS_SYSTEM :: u16 where "SECCLASS_SYSTEM \<equiv> 11"
abbreviation (input) SECCLASS_NODE :: u16 where "SECCLASS_NODE \<equiv> 15"

subsection \<open>State\<close>

record selinux_context =
  ctx_user :: "u8 list"
  ctx_role :: "u8 list"
  ctx_type :: "u8 list"
  ctx_level :: "u8 list"
  ctx_sid :: u32

record selinux_av_decision =
  avd_allowed :: u32
  avd_auditallow :: u32
  avd_auditdeny :: u32
  avd_seqno :: u32
  avd_decided :: u8
  avd_auditallow_decided :: u8
  avd_auditdeny_decided :: u8

record avtab_node =
  source_type :: u16
  target_type :: u16
  target_class :: u16
  nd_allowed :: u32
  nd_auditallow :: u32
  nd_auditdeny :: u32

record avc_entry =
  en_ssid :: u32
  en_tsid :: u32
  en_tclass :: u16
  en_allowed :: u32
  en_auditallow :: u32
  en_auditdeny :: u32
  en_seqno :: u32
  en_valid :: u8

type_synonym avc_cache_slot = "avc_entry list"

record selinux_state =
  contexts :: "nat \<Rightarrow> selinux_context"
  next_sid :: u32
  avtab_buckets :: "nat \<Rightarrow> avtab_node list"
  avtab_nentries :: u32
  policy_version :: u32
  policy_seqno :: u32
  enforcing :: int
  enabled :: int
  avc_seqno :: u32
  avc_cache :: "nat \<Rightarrow> avc_cache_slot list"

definition zero_context :: selinux_context where
  "zero_context = \<lparr>ctx_user = replicate 64 0, ctx_role = replicate 64 0, ctx_type = replicate 64 0,
     ctx_level = replicate 64 0, ctx_sid = 0\<rparr>"

definition zero_entry :: avc_entry where
  "zero_entry = \<lparr>en_ssid = 0, en_tsid = 0, en_tclass = 0, en_allowed = 0, en_auditallow = 0,
     en_auditdeny = 0, en_seqno = 0, en_valid = 0\<rparr>"

definition zero_avd :: selinux_av_decision where
  "zero_avd = \<lparr>avd_allowed = 0, avd_auditallow = 0, avd_auditdeny = 0, avd_seqno = 0, avd_decided = 0,
     avd_auditallow_decided = 0, avd_auditdeny_decided = 0\<rparr>"

subsection \<open>Initialisation\<close>

definition c_string :: "string \<Rightarrow> u8 list" where
  "c_string s = map of_char s @ [0]"

text \<open>The four \<open>strncpy\<close> calls and the assignment by which one initial context is filled.\<close>

definition init_context :: "nat \<Rightarrow> string \<Rightarrow> string \<Rightarrow> string \<Rightarrow> (nat \<Rightarrow> selinux_context) \<Rightarrow> (nat \<Rightarrow> selinux_context) option" where
  "init_context sid user role ty ctxs =
     Option.bind (strncpy (ctx_user (ctxs sid)) (c_string user) 63) (\<lambda>u.
     Option.bind (strncpy (ctx_role (ctxs sid)) (c_string role) 63) (\<lambda>r.
     Option.bind (strncpy (ctx_type (ctxs sid)) (c_string ty) 63) (\<lambda>t.
     Option.bind (strncpy (ctx_level (ctxs sid)) (c_string ''s0'') 63) (\<lambda>l.
       Some (ctxs(sid := \<lparr>ctx_user = u, ctx_role = r, ctx_type = t, ctx_level = l, ctx_sid = of_nat sid\<rparr>))))))"

definition selinux_sidtab_init :: "selinux_state option" where
  "selinux_sidtab_init =
     Option.bind (init_context SECINITSID_KERNEL ''system_u'' ''system_r'' ''kernel_t'' (\<lambda>_. zero_context)) (\<lambda>c.
     Option.bind (init_context SECINITSID_UNLABELED ''system_u'' ''object_r'' ''unlabeled_t'' c) (\<lambda>c.
     Option.bind (init_context SECINITSID_FILE ''system_u'' ''object_r'' ''file_t'' c) (\<lambda>c.
     Option.bind (init_context SECINITSID_DIR ''system_u'' ''object_r'' ''dir_t'' c) (\<lambda>c.
     Option.bind (init_context SECINITSID_PROCESS ''system_u'' ''system_r'' ''kernel_t'' c) (\<lambda>c.
     Option.bind (init_context SECINITSID_TCP_SOCKET ''system_u'' ''object_r'' ''tcp_socket_t'' c) (\<lambda>c.
     Option.bind (init_context SECINITSID_SOCKET ''system_u'' ''object_r'' ''socket_t'' c) (\<lambda>c.
       Some \<lparr>contexts = c, next_sid = of_nat SECINITSID_MAX, avtab_buckets = (\<lambda>_. []), avtab_nentries = 0,
             policy_version = 1, policy_seqno = 0, enforcing = 1, enabled = 1, avc_seqno = 0,
             avc_cache = (\<lambda>_. [])\<rparr>)))))))"

definition selinux_avtab_insert ::
  "u16 \<Rightarrow> u16 \<Rightarrow> u16 \<Rightarrow> u32 \<Rightarrow> u32 \<Rightarrow> u32 \<Rightarrow> bool \<Rightarrow> selinux_state \<Rightarrow> selinux_state" where
  "selinux_avtab_insert source target tclass allowed auditallow auditdeny ok st =
     (let idx = (unat source * 31 + unat target * 17 + unat tclass * 7) mod SELINUX_AVC_SLOTS
      in if \<not> ok then st
         else let node = \<lparr>source_type = source, target_type = target, target_class = tclass,
                nd_allowed = allowed, nd_auditallow = auditallow, nd_auditdeny = auditdeny\<rparr>
              in st\<lparr>avtab_buckets := (avtab_buckets st)(idx := node # avtab_buckets st idx),
                     avtab_nentries := avtab_nentries st + 1\<rparr>)"

abbreviation (input) FILE_READ :: u32 where "FILE_READ \<equiv> 0x0001"
abbreviation (input) FILE_WRITE :: u32 where "FILE_WRITE \<equiv> 0x0002"
abbreviation (input) FILE_CREATE :: u32 where "FILE_CREATE \<equiv> 0x0004"
abbreviation (input) FILE_GETATTR :: u32 where "FILE_GETATTR \<equiv> 0x0008"
abbreviation (input) FILE_UNLINK :: u32 where "FILE_UNLINK \<equiv> 0x0010"
abbreviation (input) FILE_APPEND :: u32 where "FILE_APPEND \<equiv> 0x0020"
abbreviation (input) FILE_RENAME :: u32 where "FILE_RENAME \<equiv> 0x0040"
abbreviation (input) FILE_LOCK :: u32 where "FILE_LOCK \<equiv> 0x0080"
abbreviation (input) FILE_EXECUTE :: u32 where "FILE_EXECUTE \<equiv> 0x0100"
abbreviation (input) FILE_MOUNTON :: u32 where "FILE_MOUNTON \<equiv> 0x0400"
abbreviation (input) DIR_READ :: u32 where "DIR_READ \<equiv> 0x0001"
abbreviation (input) DIR_WRITE :: u32 where "DIR_WRITE \<equiv> 0x0002"
abbreviation (input) DIR_CREATE :: u32 where "DIR_CREATE \<equiv> 0x0004"
abbreviation (input) DIR_GETATTR :: u32 where "DIR_GETATTR \<equiv> 0x0008"
abbreviation (input) DIR_REMOVE_NAME :: u32 where "DIR_REMOVE_NAME \<equiv> 0x0010"
abbreviation (input) DIR_ADD_NAME :: u32 where "DIR_ADD_NAME \<equiv> 0x0020"
abbreviation (input) DIR_SEARCH :: u32 where "DIR_SEARCH \<equiv> 0x0040"
abbreviation (input) DIR_LIST :: u32 where "DIR_LIST \<equiv> 0x0080"
abbreviation (input) DIR_RMDIR :: u32 where "DIR_RMDIR \<equiv> 0x0100"
abbreviation (input) TCP_SOCKET_BIND :: u32 where "TCP_SOCKET_BIND \<equiv> 0x0001"
abbreviation (input) TCP_SOCKET_CONNECT :: u32 where "TCP_SOCKET_CONNECT \<equiv> 0x0002"
abbreviation (input) TCP_SOCKET_LISTEN :: u32 where "TCP_SOCKET_LISTEN \<equiv> 0x0004"
abbreviation (input) TCP_SOCKET_ACCEPT :: u32 where "TCP_SOCKET_ACCEPT \<equiv> 0x0008"
abbreviation (input) TCP_SOCKET_SEND :: u32 where "TCP_SOCKET_SEND \<equiv> 0x0010"
abbreviation (input) TCP_SOCKET_RECV :: u32 where "TCP_SOCKET_RECV \<equiv> 0x0020"
abbreviation (input) TCP_SOCKET_READ :: u32 where "TCP_SOCKET_READ \<equiv> 0x0040"
abbreviation (input) TCP_SOCKET_WRITE :: u32 where "TCP_SOCKET_WRITE \<equiv> 0x0080"
abbreviation (input) TCP_SOCKET_SHUTDOWN :: u32 where "TCP_SOCKET_SHUTDOWN \<equiv> 0x0100"
abbreviation (input) TCP_SOCKET_NODE_BIND :: u32 where "TCP_SOCKET_NODE_BIND \<equiv> 0x0200"
abbreviation (input) PROCESS_FORK :: u32 where "PROCESS_FORK \<equiv> 0x0001"
abbreviation (input) PROCESS_TRANSITION :: u32 where "PROCESS_TRANSITION \<equiv> 0x0002"
abbreviation (input) PROCESS_SIGCHLD :: u32 where "PROCESS_SIGCHLD \<equiv> 0x0004"
abbreviation (input) PROCESS_SIGKILL :: u32 where "PROCESS_SIGKILL \<equiv> 0x0008"
abbreviation (input) PROCESS_SIGNAL :: u32 where "PROCESS_SIGNAL \<equiv> 0x0010"
abbreviation (input) PROCESS_GETATTR :: u32 where "PROCESS_GETATTR \<equiv> 0x0020"
abbreviation (input) PROCESS_SETSID :: u32 where "PROCESS_SETSID \<equiv> 0x0040"
abbreviation (input) PROCESS_EXECMEM :: u32 where "PROCESS_EXECMEM \<equiv> 0x0080"
abbreviation (input) PROCESS_DYNTRANSITION :: u32 where "PROCESS_DYNTRANSITION \<equiv> 0x0200"
abbreviation (input) SYSTEM_IPC_INFO :: u32 where "SYSTEM_IPC_INFO \<equiv> 0x0001"
abbreviation (input) SYSTEM_SYSLOG :: u32 where "SYSTEM_SYSLOG \<equiv> 0x0002"
abbreviation (input) SYSTEM_MODIFY :: u32 where "SYSTEM_MODIFY \<equiv> 0x0004"

text \<open>\<open>ok i\<close> is the answer of \<open>kzalloc\<close> for rule \<open>i\<close>.\<close>

definition selinux_load_default_policy :: "(nat \<Rightarrow> bool) \<Rightarrow> selinux_state \<Rightarrow> selinux_state" where
  "selinux_load_default_policy ok st0 =
     (let st1 = selinux_avtab_insert (of_nat SECINITSID_KERNEL) (of_nat SECINITSID_FILE) SECCLASS_FILE
            (FILE_READ OR FILE_WRITE OR FILE_GETATTR OR FILE_CREATE OR FILE_UNLINK OR FILE_APPEND OR
             FILE_RENAME OR FILE_LOCK OR FILE_EXECUTE OR FILE_MOUNTON) 0 (NOT 0) (ok 0) st0;
          st2 = selinux_avtab_insert (of_nat SECINITSID_KERNEL) (of_nat SECINITSID_DIR) SECCLASS_DIR
            (DIR_READ OR DIR_WRITE OR DIR_CREATE OR DIR_GETATTR OR DIR_REMOVE_NAME OR DIR_ADD_NAME OR
             DIR_SEARCH OR DIR_LIST OR DIR_RMDIR) 0 (NOT 0) (ok 1) st1;
          st3 = selinux_avtab_insert (of_nat SECINITSID_PROCESS) (of_nat SECINITSID_PROCESS) SECCLASS_PROCESS
            (PROCESS_FORK OR PROCESS_TRANSITION OR PROCESS_SIGCHLD OR PROCESS_SIGKILL OR PROCESS_SIGNAL OR
             PROCESS_GETATTR OR PROCESS_SETSID) 0 (NOT 0) (ok 2) st2;
          st4 = selinux_avtab_insert (of_nat SECINITSID_KERNEL) (of_nat SECINITSID_PROCESS) SECCLASS_PROCESS
            (PROCESS_FORK OR PROCESS_TRANSITION OR PROCESS_SIGCHLD OR PROCESS_SIGKILL OR PROCESS_SIGNAL OR
             PROCESS_GETATTR OR PROCESS_SETSID OR PROCESS_EXECMEM OR PROCESS_DYNTRANSITION) 0 (NOT 0) (ok 3) st3;
          st5 = selinux_avtab_insert (of_nat SECINITSID_KERNEL) (of_nat SECINITSID_TCP_SOCKET) SECCLASS_TCP_SOCKET
            (TCP_SOCKET_BIND OR TCP_SOCKET_CONNECT OR TCP_SOCKET_LISTEN OR TCP_SOCKET_ACCEPT OR TCP_SOCKET_SEND OR
             TCP_SOCKET_RECV OR TCP_SOCKET_READ OR TCP_SOCKET_WRITE OR TCP_SOCKET_SHUTDOWN OR TCP_SOCKET_NODE_BIND)
            0 (NOT 0) (ok 4) st4;
          st6 = selinux_avtab_insert (of_nat SECINITSID_KERNEL) (of_nat SECINITSID_SOCKET) SECCLASS_SOCKET
            (TCP_SOCKET_BIND OR TCP_SOCKET_CONNECT OR TCP_SOCKET_LISTEN OR TCP_SOCKET_ACCEPT OR TCP_SOCKET_SEND OR
             TCP_SOCKET_RECV OR TCP_SOCKET_READ OR TCP_SOCKET_WRITE OR TCP_SOCKET_SHUTDOWN) 0 (NOT 0) (ok 5) st5
      in selinux_avtab_insert (of_nat SECINITSID_KERNEL) (of_nat SECINITSID_KERNEL) SECCLASS_SYSTEM
           (SYSTEM_IPC_INFO OR SYSTEM_SYSLOG OR SYSTEM_MODIFY) 0 (NOT 0) (ok 6) st6)"

definition selinux_init :: "(nat \<Rightarrow> bool) \<Rightarrow> selinux_state option" where
  "selinux_init ok = map_option (selinux_load_default_policy ok) selinux_sidtab_init"

definition selinux_set_enforcing :: "int \<Rightarrow> selinux_state \<Rightarrow> selinux_state" where
  "selinux_set_enforcing val st = st\<lparr>enforcing := (if val \<noteq> 0 then 1 else 0)\<rparr>"

subsection \<open>Decisions\<close>

text \<open>
  The bucket of a query, computed with 32-bit arithmetic from identifiers; the table is
  filled with the same sum over 16-bit types.
\<close>

definition av_index :: "u32 \<Rightarrow> u32 \<Rightarrow> u16 \<Rightarrow> nat" where
  "av_index ssid tsid tclass = unat ((ssid * 31 + tsid * 17 + ucast tclass * 7) mod 512 :: u32)"

fun avtab_scan :: "u32 \<Rightarrow> u32 \<Rightarrow> u16 \<Rightarrow> avtab_node list \<Rightarrow> avtab_node option" where
  "avtab_scan ssid tsid tclass [] = None"
| "avtab_scan ssid tsid tclass (nd # nds) =
     (if ucast (source_type nd) = ssid \<and> ucast (target_type nd) = tsid \<and> target_class nd = tclass
      then Some nd else avtab_scan ssid tsid tclass nds)"

definition avtab_search :: "u32 \<Rightarrow> u32 \<Rightarrow> u16 \<Rightarrow> selinux_state \<Rightarrow> avtab_node option" where
  "avtab_search ssid tsid tclass st = avtab_scan ssid tsid tclass (avtab_buckets st (av_index ssid tsid tclass))"

definition selinux_compute_av ::
  "u32 \<Rightarrow> u32 \<Rightarrow> u16 \<Rightarrow> selinux_av_decision option \<Rightarrow> selinux_state \<Rightarrow> int \<times> selinux_av_decision option" where
  "selinux_compute_av ssid tsid tclass avd st = (case avd of None \<Rightarrow> (- 1, None)
     | Some _ \<Rightarrow>
         if ssid < of_nat SECINITSID_KERNEL \<or> of_nat SELINUX_SID_MAX \<le> ssid \<or>
            tsid < of_nat SECINITSID_KERNEL \<or> of_nat SELINUX_SID_MAX \<le> tsid
         then (0, Some (zero_avd\<lparr>avd_allowed := 0, avd_decided := 1\<rparr>))
         else (case avtab_search ssid tsid tclass st of
             Some nd \<Rightarrow> (0, Some (zero_avd\<lparr>avd_allowed := nd_allowed nd, avd_auditallow := nd_auditallow nd,
                 avd_auditdeny := nd_auditdeny nd, avd_seqno := policy_seqno st, avd_decided := 1,
                 avd_auditallow_decided := 1, avd_auditdeny_decided := 1\<rparr>))
           | None \<Rightarrow> (0, Some (zero_avd\<lparr>avd_allowed := 0, avd_decided := 0\<rparr>))))"

fun avc_scan :: "u32 \<Rightarrow> u32 \<Rightarrow> u16 \<Rightarrow> avc_cache_slot list \<Rightarrow> avc_entry option" where
  "avc_scan ssid tsid tclass [] = None"
| "avc_scan ssid tsid tclass (slot # slots) =
     (case find (\<lambda>e. en_valid e \<noteq> 0 \<and> en_ssid e = ssid \<and> en_tsid e = tsid \<and> en_tclass e = tclass) slot of
        Some e \<Rightarrow> Some e
      | None \<Rightarrow> avc_scan ssid tsid tclass slots)"

definition selinux_avc_lookup ::
  "u32 \<Rightarrow> u32 \<Rightarrow> u16 \<Rightarrow> selinux_av_decision option \<Rightarrow> selinux_state \<Rightarrow> int \<times> selinux_av_decision option" where
  "selinux_avc_lookup ssid tsid tclass avd st = (case avd of None \<Rightarrow> (- 1, None)
     | Some d \<Rightarrow> (case avc_scan ssid tsid tclass (avc_cache st (av_index ssid tsid tclass)) of
           Some e \<Rightarrow> (0, Some (d\<lparr>avd_allowed := en_allowed e, avd_auditallow := en_auditallow e,
               avd_auditdeny := en_auditdeny e, avd_seqno := en_seqno e, avd_decided := 1\<rparr>))
         | None \<Rightarrow> (- 1, Some d)))"

definition selinux_avc_insert ::
  "u32 \<Rightarrow> u32 \<Rightarrow> u16 \<Rightarrow> selinux_av_decision \<Rightarrow> bool \<Rightarrow> selinux_state \<Rightarrow> selinux_state" where
  "selinux_avc_insert ssid tsid tclass avd ok st =
     (let idx = av_index ssid tsid tclass in
      if \<not> ok then st
      else let slot = (replicate SELINUX_AVD_MAX zero_entry)[0 :=
             \<lparr>en_ssid = ssid, en_tsid = tsid, en_tclass = tclass, en_allowed = avd_allowed avd,
              en_auditallow = avd_auditallow avd, en_auditdeny = avd_auditdeny avd,
              en_seqno = avd_seqno avd, en_valid = 1\<rparr>]
           in st\<lparr>avc_cache := (avc_cache st)(idx := slot # avc_cache st idx)\<rparr>)"

definition selinux_avc_flush :: "selinux_state \<Rightarrow> selinux_state" where
  "selinux_avc_flush st = st\<lparr>avc_cache := fold (\<lambda>i c. c(i := [])) [0..<SELINUX_AVC_SLOTS] (avc_cache st)\<rparr>"

text \<open>\<open>avd\<close> is what the local variable held before: the C code does not initialise it.\<close>

definition selinux_avc_has_perm ::
  "u32 \<Rightarrow> u32 \<Rightarrow> u16 \<Rightarrow> u32 \<Rightarrow> selinux_av_decision \<Rightarrow> bool \<Rightarrow> selinux_state \<Rightarrow> int \<times> selinux_state" where
  "selinux_avc_has_perm ssid tsid tclass requested avd ok st =
     (let (rc, d1) = selinux_avc_lookup ssid tsid tclass (Some avd) st;
          (d, st') = (if rc = 0 then (d1, st)
             else let (rc2, d2) = selinux_compute_av ssid tsid tclass d1 st
                  in (d2, if rc2 = 0 then (case d2 of Some a \<Rightarrow> selinux_avc_insert ssid tsid tclass a ok st | None \<Rightarrow> st)
                          else st))
      in case d of None \<Rightarrow> (- 1, st')
         | Some a \<Rightarrow> if avd_allowed a AND requested = requested then (0, st')
                    else if enforcing st' = 0 then (0, st') else (- 1, st'))"

subsection \<open>Hooks\<close>

definition selinux_inode_perm ::
  "u32 \<Rightarrow> u32 \<Rightarrow> u16 \<Rightarrow> u32 \<Rightarrow> selinux_av_decision \<Rightarrow> bool \<Rightarrow> selinux_state \<Rightarrow> int \<times> selinux_state" where
  "selinux_inode_perm ssid tsid tclass msk =
     (let perms =
        (if tclass = SECCLASS_FILE then
           (if msk AND 1 \<noteq> 0 then FILE_READ else 0) OR (if msk AND 2 \<noteq> 0 then FILE_WRITE else 0) OR
           (if msk AND 4 \<noteq> 0 then FILE_EXECUTE else 0) OR FILE_GETATTR
         else if tclass = SECCLASS_DIR then
           (if msk AND 1 \<noteq> 0 then DIR_READ else 0) OR (if msk AND 2 \<noteq> 0 then DIR_WRITE else 0) OR
           (DIR_SEARCH OR DIR_GETATTR)
         else msk)
      in selinux_avc_has_perm ssid tsid tclass perms)"

type_synonym selinux_hook = "selinux_av_decision \<Rightarrow> bool \<Rightarrow> selinux_state \<Rightarrow> int \<times> selinux_state"

definition selinux_inode_permission :: "u64 \<Rightarrow> u32 \<Rightarrow> selinux_hook" where
  "selinux_inode_permission inode msk =
     selinux_inode_perm (of_nat SECINITSID_KERNEL) (of_nat SECINITSID_FILE) SECCLASS_FILE msk"

definition selinux_socket_bind :: "u64 \<Rightarrow> u64 \<Rightarrow> int \<Rightarrow> selinux_hook" where
  "selinux_socket_bind sock addr addr_len =
     selinux_avc_has_perm (of_nat SECINITSID_KERNEL) (of_nat SECINITSID_SOCKET) SECCLASS_SOCKET
       (TCP_SOCKET_BIND OR TCP_SOCKET_NODE_BIND)"

definition selinux_socket_connect :: "u64 \<Rightarrow> u64 \<Rightarrow> int \<Rightarrow> selinux_hook" where
  "selinux_socket_connect sock addr addr_len =
     selinux_avc_has_perm (of_nat SECINITSID_KERNEL) (of_nat SECINITSID_TCP_SOCKET) SECCLASS_TCP_SOCKET
       TCP_SOCKET_CONNECT"

definition selinux_socket_sendmsg :: "u64 \<Rightarrow> u64 \<Rightarrow> int \<Rightarrow> selinux_hook" where
  "selinux_socket_sendmsg sock msg sz =
     selinux_avc_has_perm (of_nat SECINITSID_KERNEL) (of_nat SECINITSID_TCP_SOCKET) SECCLASS_TCP_SOCKET
       TCP_SOCKET_SEND"

definition selinux_socket_recvmsg :: "u64 \<Rightarrow> u64 \<Rightarrow> int \<Rightarrow> int \<Rightarrow> selinux_hook" where
  "selinux_socket_recvmsg sock msg sz flags =
     selinux_avc_has_perm (of_nat SECINITSID_KERNEL) (of_nat SECINITSID_TCP_SOCKET) SECCLASS_TCP_SOCKET
       TCP_SOCKET_RECV"

definition selinux_task_create :: "u64 \<Rightarrow> selinux_hook" where
  "selinux_task_create task =
     selinux_avc_has_perm (of_nat SECINITSID_PROCESS) (of_nat SECINITSID_PROCESS) SECCLASS_PROCESS PROCESS_FORK"

definition selinux_task_setuid :: "u64 \<Rightarrow> u64 \<Rightarrow> selinux_hook" where
  "selinux_task_setuid new_creds old_creds =
     selinux_avc_has_perm (of_nat SECINITSID_KERNEL) (of_nat SECINITSID_PROCESS) SECCLASS_PROCESS
       PROCESS_DYNTRANSITION"

definition selinux_task_setgid :: "u64 \<Rightarrow> u64 \<Rightarrow> selinux_hook" where
  "selinux_task_setgid new_creds old_creds =
     selinux_avc_has_perm (of_nat SECINITSID_KERNEL) (of_nat SECINITSID_PROCESS) SECCLASS_PROCESS
       PROCESS_DYNTRANSITION"

definition selinux_task_kill :: "u64 \<Rightarrow> int \<Rightarrow> selinux_hook" where
  "selinux_task_kill task sig =
     selinux_avc_has_perm (of_nat SECINITSID_KERNEL) (of_nat SECINITSID_PROCESS) SECCLASS_PROCESS
       (PROCESS_SIGKILL OR PROCESS_SIGNAL)"

definition selinux_node_perm :: "u64 \<Rightarrow> int \<Rightarrow> u32 \<Rightarrow> selinux_hook" where
  "selinux_node_perm addr family ty =
     selinux_avc_has_perm (of_nat SECINITSID_KERNEL) (of_nat SECINITSID_NODE) SECCLASS_NODE 0x01"

subsection \<open>The policy\<close>

text \<open>What the policy allows a subject, read from the table without a cache.\<close>

definition policy_allowed :: "selinux_state \<Rightarrow> u32 \<Rightarrow> u32 \<Rightarrow> u16 \<Rightarrow> u32" where
  "policy_allowed st ssid tsid tclass =
     (if 1 \<le> ssid \<and> ssid < 4096 \<and> 1 \<le> tsid \<and> tsid < 4096
      then (case avtab_search ssid tsid tclass st of Some nd \<Rightarrow> nd_allowed nd | None \<Rightarrow> 0) else 0)"

lemma compute_av_allowed:
  "\<exists>d. selinux_compute_av ssid tsid tclass (Some avd) st = (0, Some d) \<and>
     avd_allowed d = policy_allowed st ssid tsid tclass"
  by (auto simp: selinux_compute_av_def policy_allowed_def zero_avd_def not_le not_less split: option.splits)

lemma av_index_types:
  "av_index (ucast src) (ucast tgt) cls = (unat src * 31 + unat tgt * 17 + unat cls * 7) mod 512"
  for src tgt cls :: u16
proof -
  have b: "unat src < 2 ^ 16" "unat tgt < 2 ^ 16" "unat cls < 2 ^ 16"
    using unsigned_less[of src] unsigned_less[of tgt] unsigned_less[of cls] by simp_all
  have u: "unat (ucast x :: u32) = unat x" for x :: u16
  proof -
    have "unat x < 65536" using unsigned_less[of x] by simp
    then show ?thesis by (simp add: unsigned_ucast_eq take_bit_nat_eq_self)
  qed
  have "unat (ucast src * 31 + ucast tgt * 17 + ucast cls * 7 :: u32) =
      unat src * 31 + unat tgt * 17 + unat cls * 7"
    using b by (simp add: unat_word_ariths u)
  then show ?thesis by (simp add: av_index_def unat_mod_distrib)
qed

text \<open>The table behaves as a map: a rule is found under its key and hides no other.\<close>

lemma avtab_search_insert:
  "avtab_search ssid tsid tclass (selinux_avtab_insert src tgt cls al aa ad True st) =
     (if ssid = ucast src \<and> tsid = ucast tgt \<and> tclass = cls
      then Some \<lparr>source_type = src, target_type = tgt, target_class = cls,
                 nd_allowed = al, nd_auditallow = aa, nd_auditdeny = ad\<rparr>
      else avtab_search ssid tsid tclass st)"
  by (auto simp: avtab_search_def selinux_avtab_insert_def Let_def av_index_types)

lemma avtab_insert_frame [simp]:
  "avc_cache (selinux_avtab_insert src tgt cls al aa ad ok st) = avc_cache st"
  "enforcing (selinux_avtab_insert src tgt cls al aa ad ok st) = enforcing st"
  "contexts (selinux_avtab_insert src tgt cls al aa ad ok st) = contexts st"
  "next_sid (selinux_avtab_insert src tgt cls al aa ad ok st) = next_sid st"
  by (simp_all add: selinux_avtab_insert_def Let_def)

lemma load_policy_frame [simp]:
  "avc_cache (selinux_load_default_policy ok st) = avc_cache st"
  "enforcing (selinux_load_default_policy ok st) = enforcing st"
  "contexts (selinux_load_default_policy ok st) = contexts st"
  "next_sid (selinux_load_default_policy ok st) = next_sid st"
  by (simp_all add: selinux_load_default_policy_def Let_def)

subsection \<open>The cache\<close>

definition avc_coherent :: "selinux_state \<Rightarrow> bool" where
  "avc_coherent st \<longleftrightarrow> (\<forall>i. \<forall>slot \<in> set (avc_cache st i). \<forall>e \<in> set slot. en_valid e \<noteq> 0 \<longrightarrow>
     en_allowed e = policy_allowed st (en_ssid e) (en_tsid e) (en_tclass e))"

lemma avc_scan_Some:
  assumes "avc_scan ssid tsid tclass slots = Some e"
  shows "\<exists>slot \<in> set slots. e \<in> set slot \<and> en_valid e \<noteq> 0 \<and> en_ssid e = ssid \<and> en_tsid e = tsid \<and> en_tclass e = tclass"
  using assms
proof (induction slots)
  case (Cons slot slots)
  then show ?case by (auto simp: find_Some_iff split: option.splits)
qed simp

lemma policy_allowed_cong:
  "avtab_buckets st' = avtab_buckets st \<Longrightarrow> policy_allowed st' = policy_allowed st"
  by (intro ext) (simp add: policy_allowed_def avtab_search_def)

lemma avc_insert_coherent:
  assumes "avc_coherent st" "avd_allowed a = policy_allowed st ssid tsid tclass"
  shows "avc_coherent (selinux_avc_insert ssid tsid tclass a ok st)"
proof -
  have p: "policy_allowed (selinux_avc_insert ssid tsid tclass a ok st) = policy_allowed st"
    by (rule policy_allowed_cong) (simp add: selinux_avc_insert_def Let_def)
  show ?thesis
    using assms unfolding avc_coherent_def p
    by (auto simp: selinux_avc_insert_def Let_def zero_entry_def dest!: subsetD[OF set_update_subset_insert])
qed

lemma avc_flush_coherent: "avc_coherent st \<Longrightarrow> avc_coherent (selinux_avc_flush st)"
proof -
  have p: "policy_allowed (selinux_avc_flush st) = policy_allowed st"
    by (rule policy_allowed_cong) (simp add: selinux_avc_flush_def)
  have "fold (\<lambda>i c. c(i := [])) xs c j = (if j \<in> set xs then [] else c j)" for xs and c :: "nat \<Rightarrow> avc_cache_slot list" and j
    by (induction xs arbitrary: c) auto
  then have "avc_cache (selinux_avc_flush st) j \<in> {[], avc_cache st j}" for j
    by (simp add: selinux_avc_flush_def)
  then show "avc_coherent st \<Longrightarrow> avc_coherent (selinux_avc_flush st)"
    unfolding avc_coherent_def p by (metis empty_iff empty_set insert_iff)
qed

text \<open>A decision is the policy's, whatever the cache holds and whatever the allocator answers.\<close>

lemma has_perm_decides:
  assumes "avc_coherent st"
  shows "\<exists>st'. selinux_avc_has_perm ssid tsid tclass requested avd ok st =
      (if policy_allowed st ssid tsid tclass AND requested = requested \<or> enforcing st = 0 then 0 else - 1, st') \<and>
     avc_coherent st' \<and> avtab_buckets st' = avtab_buckets st \<and> enforcing st' = enforcing st"
proof (cases "avc_scan ssid tsid tclass (avc_cache st (av_index ssid tsid tclass))")
  case (Some e)
  with avc_scan_Some[OF Some] assms have "en_allowed e = policy_allowed st ssid tsid tclass"
    unfolding avc_coherent_def by metis
  with Some assms show ?thesis
    by (intro exI[of _ st]) (simp add: selinux_avc_has_perm_def selinux_avc_lookup_def)
next
  case None
  obtain d where d: "selinux_compute_av ssid tsid tclass (Some avd) st = (0, Some d)"
      "avd_allowed d = policy_allowed st ssid tsid tclass"
    using compute_av_allowed by blast
  let ?st = "selinux_avc_insert ssid tsid tclass d ok st"
  have "enforcing ?st = enforcing st" "avtab_buckets ?st = avtab_buckets st"
    by (simp_all add: selinux_avc_insert_def Let_def)
  with None d avc_insert_coherent[OF assms d(2)] show ?thesis
    by (intro exI[of _ ?st]) (simp add: selinux_avc_has_perm_def selinux_avc_lookup_def)
qed

subsection \<open>Histories\<close>

datatype selinux_op =
    Query u32 u32 u16 u32 selinux_av_decision bool
  | Set_enforcing int
  | Flush

fun selinux_step :: "selinux_op \<Rightarrow> selinux_state \<Rightarrow> selinux_state" where
  "selinux_step (Query ssid tsid tclass requested avd ok) st =
     snd (selinux_avc_has_perm ssid tsid tclass requested avd ok st)"
| "selinux_step (Set_enforcing val) st = selinux_set_enforcing val st"
| "selinux_step Flush st = selinux_avc_flush st"

text \<open>The mode a history leaves.\<close>

fun mode_step :: "selinux_op \<Rightarrow> int \<Rightarrow> int" where
  "mode_step (Set_enforcing val) md = (if val \<noteq> 0 then 1 else 0)"
| "mode_step _ md = md"

lemma selinux_step_keeps:
  assumes "avc_coherent st"
  shows "avc_coherent (selinux_step x st) \<and> avtab_buckets (selinux_step x st) = avtab_buckets st \<and>
     enforcing (selinux_step x st) = mode_step x (enforcing st)"
proof (cases x)
  case (Query ssid tsid tclass requested avd ok)
  with has_perm_decides[OF assms, of ssid tsid tclass requested avd ok] show ?thesis by auto
next
  case (Set_enforcing val)
  have "policy_allowed (selinux_set_enforcing val st) = policy_allowed st"
    by (rule policy_allowed_cong) (simp add: selinux_set_enforcing_def)
  with Set_enforcing assms show ?thesis
    by (simp add: avc_coherent_def) (simp add: selinux_set_enforcing_def)
next
  case Flush
  with avc_flush_coherent[OF assms] show ?thesis by (simp add: selinux_avc_flush_def)
qed

lemma selinux_history_keeps:
  assumes "avc_coherent st"
  shows "avc_coherent (fold selinux_step ops st) \<and> avtab_buckets (fold selinux_step ops st) = avtab_buckets st \<and>
     enforcing (fold selinux_step ops st) = fold mode_step ops (enforcing st)"
  using assms
proof (induction ops arbitrary: st)
  case (Cons x ops)
  with selinux_step_keeps[OF Cons.prems, of x] show ?case by simp
qed simp

text \<open>The fields of a context are arrays of 64 bytes that end with a zero.\<close>

definition field_ok :: "u8 list \<Rightarrow> bool" where
  "field_ok f \<longleftrightarrow> length f = 64 \<and> f ! 63 = 0"

definition context_ok :: "selinux_context \<Rightarrow> bool" where
  "context_ok c \<longleftrightarrow> field_ok (ctx_user c) \<and> field_ok (ctx_role c) \<and> field_ok (ctx_type c) \<and> field_ok (ctx_level c)"

lemma strncpy_field:
  assumes "field_ok d"
  shows "\<exists>d'. strncpy d (c_string x) 63 = Some d' \<and> field_ok d'"
  using strncpy_eq[of "c_string x" 63 d] assms
  by (auto simp: c_string_def field_ok_def nth_append)

lemma init_context_total:
  assumes "\<forall>i. context_ok (c i)"
  shows "\<exists>c'. init_context sid u r t c = Some c' \<and> (\<forall>i. context_ok (c' i))"
proof -
  obtain u' r' t' l' where "strncpy (ctx_user (c sid)) (c_string u) 63 = Some u'" "field_ok u'"
      "strncpy (ctx_role (c sid)) (c_string r) 63 = Some r'" "field_ok r'"
      "strncpy (ctx_type (c sid)) (c_string t) 63 = Some t'" "field_ok t'"
      "strncpy (ctx_level (c sid)) (c_string ''s0'') 63 = Some l'" "field_ok l'"
    using strncpy_field assms unfolding context_ok_def by meson
  with assms show ?thesis by (auto simp: init_context_def context_ok_def)
qed

lemma init_context_bind:
  assumes "\<forall>i. context_ok (c i)" "\<And>c'. \<forall>i. context_ok (c' i) \<Longrightarrow> \<exists>st. f c' = Some st \<and> P st"
  shows "\<exists>st. Option.bind (init_context sid u r t c) f = Some st \<and> P st"
  using init_context_total[OF assms(1), of sid u r t] assms(2) by auto

lemma zero_context_ok: "context_ok zero_context"
  by (simp add: context_ok_def zero_context_def field_ok_def)

lemma selinux_init_total:
  "\<exists>st. selinux_init ok = Some st \<and> avc_coherent st \<and> enforcing st = 1 \<and> next_sid st = 21 \<and>
     (\<forall>i. context_ok (contexts st i))"
proof -
  have "\<exists>st. selinux_sidtab_init = Some st \<and> avc_cache st = (\<lambda>_. []) \<and> enforcing st = 1 \<and>
      next_sid st = 21 \<and> (\<forall>i. context_ok (contexts st i))"
    unfolding selinux_sidtab_init_def
    by (intro init_context_bind) (simp_all add: zero_context_ok)
  then show ?thesis
    by (auto simp: selinux_init_def avc_coherent_def)
qed

lemma query_after_history:
  assumes "selinux_init ok = Some st0"
  shows "fst (selinux_avc_has_perm ssid tsid tclass requested avd ok' (fold selinux_step ops st0)) =
       (if policy_allowed st0 ssid tsid tclass AND requested = requested \<or> fold mode_step ops 1 = 0
        then 0 else - 1)"
proof -
  have st0: "avc_coherent st0" "enforcing st0 = 1"
    using selinux_init_total[of ok] assms by auto
  let ?st = "fold selinux_step ops st0"
  have h: "avc_coherent ?st" "avtab_buckets ?st = avtab_buckets st0" "enforcing ?st = fold mode_step ops 1"
    using selinux_history_keeps[OF st0(1), of ops] st0(2) by auto
  have "policy_allowed ?st = policy_allowed st0" by (rule policy_allowed_cong) (rule h(2))
  with has_perm_decides[OF h(1), of ssid tsid tclass requested avd ok'] h(3) show ?thesis
    by auto
qed

text \<open>
  C15. The cache of decisions is transparent. After every history of queries, changes of
  mode and flushes since initialisation, with any answers of the allocator and any rubbish
  in the uninitialised decision, a query is granted exactly when the policy loaded at the
  start allows every requested permission, or the mode is permissive.
\<close>

theorem selinux_cache_transparent:
  "\<exists>st0. selinux_init ok = Some st0 \<and>
     fst (selinux_avc_has_perm ssid tsid tclass requested avd ok' (fold selinux_step ops st0)) =
       (if policy_allowed st0 ssid tsid tclass AND requested = requested \<or> fold mode_step ops 1 = 0
        then 0 else - 1)"
  using selinux_init_total[of ok] query_after_history by blast

text \<open>The default policy, as a table.\<close>

definition default_allowed :: "u32 \<Rightarrow> u32 \<Rightarrow> u16 \<Rightarrow> u32" where
  "default_allowed ssid tsid tclass =
     (if ssid = 1 \<and> tsid = 3 \<and> tclass = SECCLASS_FILE then 0x5FF
      else if ssid = 1 \<and> tsid = 4 \<and> tclass = SECCLASS_DIR then 0x1FF
      else if ssid = 10 \<and> tsid = 10 \<and> tclass = SECCLASS_PROCESS then 0x7F
      else if ssid = 1 \<and> tsid = 10 \<and> tclass = SECCLASS_PROCESS then 0x2FF
      else if ssid = 1 \<and> tsid = 14 \<and> tclass = SECCLASS_TCP_SOCKET then 0x3FF
      else if ssid = 1 \<and> tsid = 13 \<and> tclass = SECCLASS_SOCKET then 0x1FF
      else if ssid = 1 \<and> tsid = 1 \<and> tclass = SECCLASS_SYSTEM then 0x7 else 0)"

lemma default_policy_allowed:
  assumes "selinux_init (\<lambda>_. True) = Some st"
  shows "policy_allowed st ssid tsid tclass = default_allowed ssid tsid tclass"
proof -
  obtain st0 where st: "selinux_sidtab_init = Some st0" "st = selinux_load_default_policy (\<lambda>_. True) st0"
    using assms by (auto simp: selinux_init_def)
  have "avtab_buckets st0 = (\<lambda>_. [])"
    using st(1) by (auto simp: selinux_sidtab_init_def Option.bind_eq_Some_conv)
  then have e: "avtab_search ssid tsid tclass st0 = None" by (simp add: avtab_search_def)
  show ?thesis
    unfolding policy_allowed_def st(2) selinux_load_default_policy_def Let_def avtab_search_insert e
    by (auto simp: default_allowed_def)
qed

text \<open>
  What the hooks answer under the default policy, whatever happened since
  initialisation: access to inodes, connecting, sending, receiving, creating tasks, changing
  identities and killing are always granted; binding a socket and the check of a network
  node are always refused while the mode is enforcing.
\<close>

theorem selinux_default_hooks:
  "\<exists>st0. selinux_init (\<lambda>_. True) = Some st0 \<and>
     (let st = fold selinux_step ops st0; refused = (if fold mode_step ops 1 = 0 then 0 else - 1)
      in fst (selinux_inode_permission inode msk avd ok st) = 0 \<and>
         fst (selinux_socket_connect sock addr addr_len avd ok st) = 0 \<and>
         fst (selinux_socket_sendmsg sock msg sz avd ok st) = 0 \<and>
         fst (selinux_socket_recvmsg sock msg sz flags avd ok st) = 0 \<and>
         fst (selinux_task_create task avd ok st) = 0 \<and>
         fst (selinux_task_setuid new_creds old_creds avd ok st) = 0 \<and>
         fst (selinux_task_setgid new_creds old_creds avd ok st) = 0 \<and>
         fst (selinux_task_kill task sig avd ok st) = 0 \<and>
         fst (selinux_socket_bind sock addr addr_len avd ok st) = refused \<and>
         fst (selinux_node_perm addr family ty avd ok st) = refused)"
proof -
  obtain st0 where st0: "selinux_init (\<lambda>_. True) = Some st0"
    using selinux_init_total by blast
  note q = query_after_history[OF st0] default_policy_allowed[OF st0] default_allowed_def
  have "fst (selinux_inode_permission inode msk avd ok (fold selinux_step ops st0)) = 0"
    by (simp add: selinux_inode_permission_def selinux_inode_perm_def Let_def q)
  then show ?thesis
    using st0
    by (simp add: Let_def q selinux_socket_connect_def selinux_socket_sendmsg_def selinux_socket_recvmsg_def
        selinux_task_create_def selinux_task_setuid_def selinux_task_setgid_def selinux_task_kill_def
        selinux_socket_bind_def selinux_node_perm_def)
qed

end
