(* ===== verification/Selinux_Context.thy ===== *)
theory Selinux_Context
  imports Selinux
begin

section \<open>Security contexts (\<open>arch/x86_64/selinux.c\<close>): identifiers and text\<close>

text \<open>
  The table that gives a security identifier to every context, and the text form
  \<open>user:role:type:level\<close>. Strings are objects of bytes; \<open>None\<close> as a result is an access
  outside such an object, and a pointer that the code compares with null is an option.
\<close>

subsection \<open>Identifiers\<close>

text \<open>The comparison of the four fields, with the short cut of \<open>&&\<close>.\<close>

definition context_eq :: "selinux_context \<Rightarrow> selinux_context \<Rightarrow> bool option" where
  "context_eq c ctx =
     Option.bind (strncmp (ctx_user c) (ctx_user ctx) 64) (\<lambda>a. if a \<noteq> 0 then Some False else
     Option.bind (strncmp (ctx_role c) (ctx_role ctx) 64) (\<lambda>a. if a \<noteq> 0 then Some False else
     Option.bind (strncmp (ctx_type c) (ctx_type ctx) 64) (\<lambda>a. if a \<noteq> 0 then Some False else
     Option.bind (strncmp (ctx_level c) (ctx_level ctx) 64) (\<lambda>a. Some (a = 0)))))"

fun sid_scan :: "selinux_context \<Rightarrow> (nat \<Rightarrow> selinux_context) \<Rightarrow> nat list \<Rightarrow> nat option option" where
  "sid_scan ctx ctxs [] = Some None"
| "sid_scan ctx ctxs (i # is) = Option.bind (context_eq (ctxs i) ctx) (\<lambda>eq.
     if eq then Some (Some i) else sid_scan ctx ctxs is)"

definition selinux_context_to_sid ::
  "selinux_context option \<Rightarrow> u32 option \<Rightarrow> selinux_state \<Rightarrow> (int \<times> u32 option \<times> selinux_state) option" where
  "selinux_context_to_sid ctx sid st = (case (ctx, sid) of
       (Some c, Some _) \<Rightarrow>
         Option.bind (sid_scan c (contexts st) [1..<min (unat (next_sid st)) SELINUX_SID_MAX]) (\<lambda>found.
           case found of
             Some i \<Rightarrow> Some (0, Some (of_nat i), st)
           | None \<Rightarrow>
               if of_nat SELINUX_SID_MAX \<le> next_sid st then Some (- 1, sid, st)
               else let new_sid = next_sid st;
                        st1 = st\<lparr>next_sid := next_sid st + 1\<rparr>
                    in if new_sid < of_nat SELINUX_SID_MAX then
                         Some (0, Some new_sid,
                           st1\<lparr>contexts := (contexts st1)(unat new_sid := c\<lparr>ctx_sid := new_sid\<rparr>)\<rparr>)
                       else Some (- 1, sid, st1))
     | _ \<Rightarrow> Some (- 1, sid, st))"

definition selinux_sid_to_context ::
  "u32 \<Rightarrow> selinux_context option \<Rightarrow> selinux_state \<Rightarrow> int \<times> selinux_context option" where
  "selinux_sid_to_context sid ctx st = (case ctx of None \<Rightarrow> (- 1, None)
     | Some _ \<Rightarrow>
         if sid = 0 \<or> next_sid st \<le> sid \<or> of_nat SELINUX_SID_MAX \<le> sid then (- 1, ctx)
         else (0, Some (contexts st (unat sid))))"

subsection \<open>Text\<close>

text \<open>
  \<open>scan_field\<close> is the loop that stops at a colon or at the end of the string, \<open>scan_rest\<close>
  the one that stops at the end; both return what they passed and where they stopped. A
  field is copied into a cleared array and terminated.
\<close>

fun scan_field :: "u8 list \<Rightarrow> (u8 list \<times> u8 list) option" where
  "scan_field [] = None"
| "scan_field (c # p) =
     (if c \<noteq> 0 \<and> c \<noteq> 58 then map_option (\<lambda>(f, q). (c # f, q)) (scan_field p) else Some ([], c # p))"

fun scan_rest :: "u8 list \<Rightarrow> u8 list option" where
  "scan_rest [] = None"
| "scan_rest (c # p) = (if c \<noteq> 0 then map_option (\<lambda>f. c # f) (scan_rest p) else Some [])"

fun skip_colon :: "u8 list \<Rightarrow> u8 list" where
  "skip_colon [] = []"
| "skip_colon (c # p) = (if c = 58 then p else c # p)"

definition set_field :: "u8 list \<Rightarrow> u8 list" where
  "set_field f = (memcpy (replicate 64 0) 0 f 0 (length f))[length f := 0]"

definition selinux_parse_context ::
  "u8 list option \<Rightarrow> selinux_context option \<Rightarrow> (int \<times> selinux_context option) option" where
  "selinux_parse_context str ctx = (case (str, ctx) of
       (Some p0, Some _) \<Rightarrow>
         Option.bind (scan_field p0) (\<lambda>(user, p).
         if 64 \<le> length user then Some (- 1, Some zero_context)
         else let c1 = zero_context\<lparr>ctx_user := set_field user\<rparr> in
         Option.bind (scan_field (skip_colon p)) (\<lambda>(role, p).
         if 64 \<le> length role then Some (- 1, Some c1)
         else let c2 = c1\<lparr>ctx_role := set_field role\<rparr> in
         Option.bind (scan_field (skip_colon p)) (\<lambda>(ty, p).
         if 64 \<le> length ty then Some (- 1, Some c2)
         else let c3 = c2\<lparr>ctx_type := set_field ty\<rparr> in
         Option.bind (scan_rest (skip_colon p)) (\<lambda>level.
         let llen = (if 64 \<le> length level then 63 else length level) in
         Some (0, Some (c3\<lparr>ctx_level := set_field (take llen level)\<rparr>))))))
     | _ \<Rightarrow> Some (- 1, ctx))"

text \<open>\<open>put\<close> is a checked write of some bytes at an offset of the buffer.\<close>

definition put :: "u8 list \<Rightarrow> nat \<Rightarrow> u8 list \<Rightarrow> u8 list option" where
  "put d pos xs = (if pos + length xs \<le> length d then Some (take pos d @ xs @ drop (pos + length xs) d) else None)"

definition put_field :: "u8 list \<Rightarrow> nat \<Rightarrow> u8 list \<Rightarrow> nat \<Rightarrow> u8 list option" where
  "put_field b pos f len = Option.bind (put b pos (take len f)) (\<lambda>b. put b (pos + len) [58])"

definition selinux_context_to_string ::
  "selinux_context option \<Rightarrow> u8 list option \<Rightarrow> nat \<Rightarrow> (int \<times> u8 list option) option" where
  "selinux_context_to_string ctx buf sz = (case (ctx, buf) of
       (Some c, Some b0) \<Rightarrow>
         if sz = 0 then Some (- 1, buf)
         else Option.bind (strlen (ctx_user c)) (\<lambda>ulen.
         if sz < ulen + 3 then Some (- 1, Some b0)
         else Option.bind (put_field b0 0 (ctx_user c) ulen) (\<lambda>b1.
         let pos1 = ulen + 1 in
         Option.bind (strlen (ctx_role c)) (\<lambda>rlen.
         if sz < pos1 + rlen + 2 then Some (- 1, Some b1)
         else Option.bind (put_field b1 pos1 (ctx_role c) rlen) (\<lambda>b2.
         let pos2 = pos1 + rlen + 1 in
         Option.bind (strlen (ctx_type c)) (\<lambda>tlen.
         if sz < pos2 + tlen + 2 then Some (- 1, Some b2)
         else Option.bind (put_field b2 pos2 (ctx_type c) tlen) (\<lambda>b3.
         let pos3 = pos2 + tlen + 1 in
         Option.bind (strlen (ctx_level c)) (\<lambda>llen.
         if sz < pos3 + llen + 1 then map_option (\<lambda>b. (int pos3, Some b)) (put b3 pos3 [0])
         else Option.bind (put b3 pos3 (take llen (ctx_level c))) (\<lambda>b4.
         map_option (\<lambda>b. (int (pos3 + llen), Some b)) (put b4 (pos3 + llen) [0])))))))))
     | _ \<Rightarrow> Some (- 1, buf))"

subsection \<open>Equal contexts\<close>

definition same_context :: "selinux_context \<Rightarrow> selinux_context \<Rightarrow> bool" where
  "same_context c d \<longleftrightarrow> cstr (ctx_user c) = cstr (ctx_user d) \<and> cstr (ctx_role c) = cstr (ctx_role d) \<and>
     cstr (ctx_type c) = cstr (ctx_type d) \<and> cstr (ctx_level c) = cstr (ctx_level d)"

lemma field_terminated: "field_ok f \<Longrightarrow> terminated f"
  using nth_mem[of 63 f] by (simp add: field_ok_def)

lemma length_cstr_less: "terminated f \<Longrightarrow> length (cstr f) < length f"
  by (induction f) auto

lemma field_cstr: "field_ok f \<Longrightarrow> length (cstr f) \<le> 63"
  using length_cstr_less[of f] field_terminated[of f] by (simp add: field_ok_def)

lemma strncmp_field:
  assumes "field_ok f" "field_ok g"
  shows "\<exists>r. strncmp f g 64 = Some r \<and> (r = 0 \<longleftrightarrow> cstr f = cstr g)"
  using strncmp_terminated[of f g 64] assms field_cstr[of f] field_cstr[of g] field_terminated by simp

lemma context_eq_ok:
  assumes "context_ok c" "context_ok d"
  shows "context_eq c d = Some (same_context c d)"
proof -
  note ok = assms[unfolded context_ok_def]
  obtain a1 where "strncmp (ctx_user c) (ctx_user d) 64 = Some a1" "a1 = 0 \<longleftrightarrow> cstr (ctx_user c) = cstr (ctx_user d)"
    using strncmp_field ok by blast
  moreover obtain a2 where "strncmp (ctx_role c) (ctx_role d) 64 = Some a2" "a2 = 0 \<longleftrightarrow> cstr (ctx_role c) = cstr (ctx_role d)"
    using strncmp_field ok by blast
  moreover obtain a3 where "strncmp (ctx_type c) (ctx_type d) 64 = Some a3" "a3 = 0 \<longleftrightarrow> cstr (ctx_type c) = cstr (ctx_type d)"
    using strncmp_field ok by blast
  moreover obtain a4 where "strncmp (ctx_level c) (ctx_level d) 64 = Some a4" "a4 = 0 \<longleftrightarrow> cstr (ctx_level c) = cstr (ctx_level d)"
    using strncmp_field ok by blast
  ultimately show ?thesis by (simp add: context_eq_def same_context_def)
qed

lemma sid_scan_eq:
  assumes "\<forall>i. context_ok (ctxs i)" "context_ok ctx"
  shows "sid_scan ctx ctxs xs = Some (find (\<lambda>i. same_context (ctxs i) ctx) xs)"
  using assms by (induction xs) (simp_all add: context_eq_ok)

subsection \<open>The table of identifiers\<close>

definition sid_inv :: "selinux_state \<Rightarrow> bool" where
  "sid_inv st \<longleftrightarrow> (\<forall>i. context_ok (contexts st i)) \<and> 1 \<le> unat (next_sid st) \<and> unat (next_sid st) \<le> SELINUX_SID_MAX"

lemma find_upt_Some:
  assumes "find P [1..<n] = Some i"
  shows "1 \<le> i" "i < n" "P i" "1 \<le> j \<Longrightarrow> j < i \<Longrightarrow> \<not> P j"
proof -
  obtain k where k: "k < n - 1" "P (1 + k)" "i = 1 + k" "\<And>m. m < k \<Longrightarrow> \<not> P (1 + m)"
    using assms by (auto simp: find_Some_iff)
  then show "1 \<le> i" "i < n" "P i" by auto
  show "\<not> P j" if "1 \<le> j" "j < i" using k(3) k(4)[of "j - 1"] that by simp
qed

lemma find_upt_None: "find P [1..<n] = None \<Longrightarrow> 1 \<le> j \<Longrightarrow> j < n \<Longrightarrow> \<not> P j"
  by (auto simp: find_None_iff)

lemma unat_sid: "i \<le> 4096 \<Longrightarrow> unat (of_nat i :: u32) = i"
  by (simp add: unat_of_nat)

text \<open>The three outcomes of asking for an identifier: found, new, or the table is full.\<close>

lemma context_to_sid_cases:
  assumes "sid_inv st" "context_ok c"
  obtains
    (found) i where "1 \<le> i" "i < unat (next_sid st)" "same_context (contexts st i) c"
      "\<And>j. 1 \<le> j \<Longrightarrow> j < i \<Longrightarrow> \<not> same_context (contexts st j) c"
      "selinux_context_to_sid (Some c) (Some sd) st = Some (0, Some (of_nat i), st)"
  | (new) st' where "unat (next_sid st) < 4096" "\<forall>i. 1 \<le> i \<and> i < unat (next_sid st) \<longrightarrow> \<not> same_context (contexts st i) c"
      "st' = st\<lparr>next_sid := next_sid st + 1,
         contexts := (contexts st)(unat (next_sid st) := c\<lparr>ctx_sid := next_sid st\<rparr>)\<rparr>"
      "selinux_context_to_sid (Some c) (Some sd) st = Some (0, Some (next_sid st), st')"
  | (full) "unat (next_sid st) = 4096" "\<forall>i. 1 \<le> i \<and> i < unat (next_sid st) \<longrightarrow> \<not> same_context (contexts st i) c"
      "selinux_context_to_sid (Some c) (Some sd) st = Some (- 1, Some sd, st)"
proof -
  let ?n = "unat (next_sid st)"
  have n: "min ?n SELINUX_SID_MAX = ?n" using assms(1) by (simp add: sid_inv_def)
  have scan: "sid_scan c (contexts st) [1..<?n] = Some (find (\<lambda>i. same_context (contexts st i) c) [1..<?n])"
    using assms by (intro sid_scan_eq) (auto simp: sid_inv_def)
  show thesis
  proof (cases "find (\<lambda>i. same_context (contexts st i) c) [1..<?n]")
    case (Some i)
    show thesis
      by (rule found[OF find_upt_Some[OF Some]]) (use Some scan n in \<open>simp_all add: selinux_context_to_sid_def\<close>)
  next
    case None
    have no: "\<forall>i. 1 \<le> i \<and> i < ?n \<longrightarrow> \<not> same_context (contexts st i) c"
      using find_upt_None[OF None] by blast
    have le: "of_nat SELINUX_SID_MAX \<le> next_sid st \<longleftrightarrow> 4096 \<le> ?n"
      by (simp add: word_le_nat_alt)
    show thesis
    proof (cases "?n < 4096")
      case True
      with None scan n no le show thesis
        by (intro new) (auto simp: selinux_context_to_sid_def Let_def word_less_nat_alt)
    next
      case False
      with assms(1) have "?n = 4096" by (simp add: sid_inv_def)
      with None scan n no le show thesis
        by (intro full) (auto simp: selinux_context_to_sid_def)
    qed
  qed
qed

lemma sid_to_context_eq:
  assumes "sid_inv st"
  shows "selinux_sid_to_context sid (Some c0) st =
    (if 1 \<le> unat sid \<and> unat sid < unat (next_sid st) then (0, Some (contexts st (unat sid))) else (- 1, Some c0))"
  using assms
  by (auto simp: selinux_sid_to_context_def sid_inv_def word_le_nat_alt unat_eq_0 not_le Suc_le_eq)

lemma same_context_refl: "same_context c c"
  by (simp add: same_context_def)

lemma same_context_trans: "same_context a c \<Longrightarrow> same_context b c \<Longrightarrow> same_context a b"
  by (simp add: same_context_def)

text \<open>A state in which a context has the least identifier of all that match it answers with it.\<close>

lemma context_to_sid_again:
  assumes "sid_inv st" "context_ok c" "1 \<le> i" "i < unat (next_sid st)" "same_context (contexts st i) c"
    "\<And>j. 1 \<le> j \<Longrightarrow> j < i \<Longrightarrow> \<not> same_context (contexts st j) c"
  shows "selinux_context_to_sid (Some c) (Some s0) st = Some (0, Some (of_nat i), st)"
proof -
  let ?n = "unat (next_sid st)"
  have n: "min ?n SELINUX_SID_MAX = ?n" using assms(1) by (simp add: sid_inv_def)
  have "sid_scan c (contexts st) [1..<?n] = Some (find (\<lambda>i. same_context (contexts st i) c) [1..<?n])"
    using assms by (intro sid_scan_eq) (auto simp: sid_inv_def)
  moreover have "find (\<lambda>i. same_context (contexts st i) c) [1..<?n] = Some i"
    using assms(3-6) by (auto simp: find_Some_iff nth_upt intro!: exI[of _ "i - 1"])
  ultimately show ?thesis using n by (simp add: selinux_context_to_sid_def)
qed

text \<open>
  C30. Security identifiers name contexts. Asking for the identifier of a context never
  leaves the arrays; it fails only when all 4095 identifiers are taken by other contexts.
  Otherwise the identifier leads back to a context with the same user, role, type and level,
  asking again gives the same identifier and changes nothing, and every identifier given
  out before still names what it named.
\<close>

theorem sid_round_trip:
  assumes "sid_inv st" "context_ok c"
  shows "\<exists>rc sid st'. selinux_context_to_sid (Some c) (Some s0) st = Some (rc, Some sid, st') \<and> sid_inv st' \<and>
     (if rc = 0 then
        (\<exists>d. selinux_sid_to_context sid (Some c0) st' = (0, Some d) \<and> same_context d c) \<and>
        selinux_context_to_sid (Some c) (Some s1) st' = Some (0, Some sid, st') \<and>
        (\<forall>k. fst (selinux_sid_to_context k (Some c0) st) = 0 \<longrightarrow>
           selinux_sid_to_context k (Some c0) st' = selinux_sid_to_context k (Some c0) st)
      else rc = - 1 \<and> st' = st \<and> unat (next_sid st) = 4096 \<and>
        (\<forall>k d. selinux_sid_to_context k (Some c0) st = (0, Some d) \<longrightarrow> \<not> same_context d c))"
proof (cases rule: context_to_sid_cases[OF assms, where sd = s0, case_names found new full])
  case (found i)
  have i: "unat (of_nat i :: u32) = i"
    using found(2) assms(1) by (intro unat_sid) (simp add: sid_inv_def)
  have "selinux_context_to_sid (Some c) (Some s1) st = Some (0, Some (of_nat i), st)"
    using context_to_sid_again[OF assms found(1-4)] .
  with found i assms(1) show ?thesis by (auto simp: sid_to_context_eq)
next
  case (new st')
  let ?n = "unat (next_sid st)"
  have n1: "unat (next_sid st + 1) = ?n + 1" using new(1) by (subst unat_add_noof) simp_all
  then have inv: "sid_inv st'" using assms new(1,3) by (auto simp: sid_inv_def context_ok_def)
  have "1 \<le> ?n" using assms(1) by (simp add: sid_inv_def)
  moreover have "same_context (contexts st' ?n) c" using new(3) by (simp add: same_context_def)
  ultimately have again: "selinux_context_to_sid (Some c) (Some s1) st' = Some (0, Some (of_nat ?n), st')"
    using new(2,3) n1 by (intro context_to_sid_again[OF inv assms(2)]) auto
  have "fst (selinux_sid_to_context k (Some c0) st) = 0 \<Longrightarrow>
      selinux_sid_to_context k (Some c0) st' = selinux_sid_to_context k (Some c0) st" for k
    using new(3) n1 unfolding sid_to_context_eq[OF inv] sid_to_context_eq[OF assms(1)]
    by (auto split: if_splits)
  moreover have "selinux_sid_to_context (next_sid st) (Some c0) st' = (0, Some (contexts st' ?n))"
    using new(3) n1 \<open>1 \<le> ?n\<close> unfolding sid_to_context_eq[OF inv] by simp
  ultimately show ?thesis
    using new(4) inv again \<open>same_context (contexts st' ?n) c\<close> by (auto simp del: unat_eq_0)
next
  case full
  then show ?thesis
    using assms(1) by (auto simp: sid_to_context_eq split: if_splits)
qed

subsection \<open>The text form\<close>

lemma scan_field_eq:
  "0 \<notin> set f \<Longrightarrow> 58 \<notin> set f \<Longrightarrow> c = 0 \<or> c = 58 \<Longrightarrow> scan_field (f @ c # q) = Some (f, c # q)"
  by (induction f) auto

lemma scan_rest_eq: "0 \<notin> set f \<Longrightarrow> scan_rest (f @ 0 # q) = Some f"
  by (induction f) auto

lemma set_field_eq:
  assumes "length f \<le> 63" "0 \<notin> set f"
  shows "set_field f = f @ replicate (64 - length f) 0"
proof -
  have "memcpy (replicate 64 0) 0 f 0 (length f) = f @ replicate (64 - length f) 0"
    using assms by (simp add: memcpy_eq)
  moreover have "64 - length f = Suc (63 - length f)" using assms(1) by simp
  ultimately show ?thesis by (simp add: set_field_def)
qed

lemma cstr_set_field:
  assumes "length f \<le> 63" "0 \<notin> set f"
  shows "cstr (set_field f) = f"
proof -
  have k: "64 - length f = Suc (63 - length f)" using assms(1) by simp
  show ?thesis unfolding set_field_eq[OF assms] k using assms(2) by simp
qed

text \<open>A buffer whose first bytes are written and whose other bytes are as before.\<close>

definition written :: "u8 list \<Rightarrow> u8 list \<Rightarrow> u8 list" where
  "written xs b = xs @ drop (length xs) b"

lemma put_append:
  "length zs \<le> length ys \<Longrightarrow> put (xs @ ys) (length xs) zs = Some (xs @ zs @ drop (length zs) ys)"
  by (simp add: put_def)

lemma put_written:
  assumes "pos = length xs" "length (xs @ zs) \<le> length b"
  shows "put (written xs b) pos zs = Some (written (xs @ zs) b)"
proof -
  have "put (xs @ drop (length xs) b) (length xs) zs = Some (xs @ zs @ drop (length zs) (drop (length xs) b))"
    by (rule put_append) (use assms(2) in simp)
  moreover have "drop (length zs) (drop (length xs) b) = drop (length (xs @ zs)) b" by (simp add: add.commute)
  ultimately show ?thesis
    unfolding written_def assms(1) by (simp only: append_assoc)
qed

lemma take_cstr: "take (length (cstr f)) f = cstr f"
  unfolding cstr_def by (rule takeWhile_eq_take[symmetric])

lemma put_field_written:
  "pos = length xs \<Longrightarrow> length xs + length (cstr f) + 1 \<le> length b \<Longrightarrow>
   put_field (written xs b) pos f (length (cstr f)) = Some (written (xs @ cstr f @ [58]) b)"
  by (simp add: put_field_def take_cstr put_written)

text \<open>
  What the printer leaves in the buffer: the text, without the level when that does not
  fit, or a prefix of whole fields when it reports an error.
\<close>

lemma context_to_string_eq:
  assumes ok: "context_ok c" and sz: "sz \<le> length b" "0 < sz"
    and f: "u = cstr (ctx_user c)" "r = cstr (ctx_role c)" "t = cstr (ctx_type c)" "l = cstr (ctx_level c)"
  shows "selinux_context_to_string (Some c) (Some b) sz = Some
    (if sz < length u + 3 then (- 1, Some b)
     else if sz < length u + length r + 3 then (- 1, Some (written (u @ [58]) b))
     else if sz < length u + length r + length t + 4 then (- 1, Some (written (u @ 58 # r @ [58]) b))
     else if sz < length u + length r + length t + length l + 4
       then (int (length u + length r + length t + 3), Some (written (u @ 58 # r @ 58 # t @ [58, 0]) b))
     else (int (length u + length r + length t + length l + 3), Some (written (u @ 58 # r @ 58 # t @ 58 # l @ [0]) b)))"
proof -
  have len: "strlen (ctx_user c) = Some (length u)" "strlen (ctx_role c) = Some (length r)"
      "strlen (ctx_type c) = Some (length t)" "strlen (ctx_level c) = Some (length l)"
    using ok by (simp_all add: f context_ok_def field_terminated strlen_terminated)
  have w0: "b = written [] b" by (simp add: written_def)
  have w1: "put_field b 0 (ctx_user c) (length u) = Some (written (u @ [58]) b)" if "length u + 3 \<le> sz"
    using put_field_written[of 0 "[]" "ctx_user c" b] that sz by (simp add: f flip: w0)
  have w2: "put_field (written (u @ [58]) b) (length u + 1) (ctx_role c) (length r) = Some (written (u @ 58 # r @ [58]) b)"
    if "length u + length r + 3 \<le> sz"
    using put_field_written[of "length u + 1" "u @ [58]" "ctx_role c" b] that sz by (simp add: f)
  have w3: "put_field (written (u @ 58 # r @ [58]) b) (length u + length r + 2) (ctx_type c) (length t) =
      Some (written (u @ 58 # r @ 58 # t @ [58]) b)" if "length u + length r + length t + 4 \<le> sz"
    using put_field_written[of "length u + length r + 2" "u @ 58 # r @ [58]" "ctx_type c" b] that sz by (simp add: f)
  have w4: "put (written (u @ 58 # r @ 58 # t @ [58]) b) (length u + length r + length t + 3) [0] =
      Some (written (u @ 58 # r @ 58 # t @ [58, 0]) b)" if "length u + length r + length t + 4 \<le> sz"
    using put_written[of "length u + length r + length t + 3" "u @ 58 # r @ 58 # t @ [58]" "[0]" b] that sz by simp
  have w5: "put (written (u @ 58 # r @ 58 # t @ [58]) b) (length u + length r + length t + 3) (take (length l) (ctx_level c)) =
      Some (written (u @ 58 # r @ 58 # t @ 58 # l) b)"
    "put (written (u @ 58 # r @ 58 # t @ 58 # l) b) (length u + length r + length t + length l + 3) [0] =
      Some (written (u @ 58 # r @ 58 # t @ 58 # l @ [0]) b)"
    if "length u + length r + length t + length l + 4 \<le> sz"
    using put_written[of "length u + length r + length t + 3" "u @ 58 # r @ 58 # t @ [58]" l b]
      put_written[of "length u + length r + length t + length l + 3" "u @ 58 # r @ 58 # t @ 58 # l" "[0]" b] that sz
    by (simp_all add: f take_cstr)
  show ?thesis
    unfolding selinux_context_to_string_def
    using sz(2) w1 w2 w3 w4 w5
    by (auto simp: len Let_def not_less eval_nat_numeral add.commute add.left_commute)
qed

text \<open>Reading the text back gives the fields, whatever follows the terminator.\<close>

lemma parse_context_eq:
  assumes "context_ok c" "58 \<notin> set (cstr (ctx_user c) @ cstr (ctx_role c) @ cstr (ctx_type c))"
  shows "\<exists>d. selinux_parse_context
      (Some (cstr (ctx_user c) @ 58 # cstr (ctx_role c) @ 58 # cstr (ctx_type c) @ 58 # cstr (ctx_level c) @ 0 # rest))
      (Some c0) = Some (0, Some d) \<and> same_context d c"
proof -
  have len: "length (cstr (ctx_user c)) \<le> 63" "length (cstr (ctx_role c)) \<le> 63"
      "length (cstr (ctx_type c)) \<le> 63" "length (cstr (ctx_level c)) \<le> 63"
    using assms(1) by (simp_all add: context_ok_def field_cstr)
  then show ?thesis
    using assms(2)
    by (simp add: selinux_parse_context_def scan_field_eq scan_rest_eq same_context_def cstr_set_field)
qed

text \<open>
  The text form of a context. Printing into a buffer of which \<open>sz\<close> bytes may be used
  never touches the bytes behind them, and a non-negative result is the length of the
  terminated text it left. When the text fits and no field but the level contains a colon,
  reading it back gives a context with the same four strings.
\<close>

theorem context_text_round_trip:
  assumes "context_ok c" "sz \<le> length b"
  shows "\<exists>rc b'. selinux_context_to_string (Some c) (Some b) sz = Some (rc, Some b') \<and>
     length b' = length b \<and> drop sz b' = drop sz b \<and>
     (rc \<noteq> - 1 \<longrightarrow> rc = int (length (cstr b')) \<and> rc < int sz) \<and>
     (length (cstr (ctx_user c)) + length (cstr (ctx_role c)) + length (cstr (ctx_type c)) +
        length (cstr (ctx_level c)) + 4 \<le> sz \<and>
      58 \<notin> set (cstr (ctx_user c) @ cstr (ctx_role c) @ cstr (ctx_type c)) \<longrightarrow>
        (\<exists>d. selinux_parse_context (Some b') (Some c0) = Some (0, Some d) \<and> same_context d c))"
proof (cases "sz = 0")
  case True
  then show ?thesis by (simp add: selinux_context_to_string_def)
next
  case False
  define u r t l where f: "u = cstr (ctx_user c)" "r = cstr (ctx_role c)" "t = cstr (ctx_type c)" "l = cstr (ctx_level c)"
  have z: "0 \<notin> set u" "0 \<notin> set r" "0 \<notin> set t" "0 \<notin> set l" by (simp_all add: f)
  have c: "cstr (written (xs @ [0]) b) = xs" if "0 \<notin> set xs" for xs
    using that by (simp add: written_def)
  have d: "length (written xs b) = length b \<and> drop sz (written xs b) = drop sz b" if "length xs \<le> sz" for xs
    using that assms(2) by (simp add: written_def)
  have p: "\<exists>d. selinux_parse_context (Some (written (u @ 58 # r @ 58 # t @ 58 # l @ [0]) b)) (Some c0) =
      Some (0, Some d) \<and> same_context d c" if "58 \<notin> set (u @ r @ t)"
    using parse_context_eq[OF assms(1), of _ c0] that by (simp add: written_def f)
  have e: "selinux_context_to_string (Some c) (Some b) sz = Some
    (if sz < length u + 3 then (- 1, Some b)
     else if sz < length u + length r + 3 then (- 1, Some (written (u @ [58]) b))
     else if sz < length u + length r + length t + 4 then (- 1, Some (written (u @ 58 # r @ [58]) b))
     else if sz < length u + length r + length t + length l + 4
       then (int (length u + length r + length t + 3), Some (written (u @ 58 # r @ 58 # t @ [58, 0]) b))
     else (int (length u + length r + length t + length l + 3), Some (written (u @ 58 # r @ 58 # t @ 58 # l @ [0]) b)))"
    using context_to_string_eq[OF assms, of u r t l] False f by simp
  show ?thesis
    unfolding e f[symmetric]
    using z p d c[of "u @ 58 # r @ 58 # t @ [58]"] c[of "u @ 58 # r @ 58 # t @ 58 # l"]
    by auto
qed

lemma initial_sid_inv: "selinux_init ok = Some st \<Longrightarrow> sid_inv st"
  using selinux_init_total[of ok] by (auto simp: sid_inv_def)

lemma init_context_other: "init_context sid u r t c = Some c' \<Longrightarrow> i \<noteq> sid \<Longrightarrow> c' i = c i"
  by (auto simp: init_context_def Option.bind_eq_Some_conv)

lemma init_context_same:
  assumes "init_context sid u r t c = Some c'" "init_context sid2 u r t d = Some d'" "c sid = d sid2"
  shows "same_context (c' sid) (d' sid2)"
  using assms by (auto simp: init_context_def Option.bind_eq_Some_conv same_context_def)

text \<open>
  The initial context of processes repeats that of the kernel, so its identifier is lost on
  the way through the table.
\<close>

lemma process_sid_becomes_kernel:
  assumes "selinux_init ok = Some st"
  shows "\<exists>c. selinux_sid_to_context 10 (Some c0) st = (0, Some c) \<and>
     selinux_context_to_sid (Some c) (Some s0) st = Some (0, Some 1, st)"
proof -
  have inv: "sid_inv st" "unat (next_sid st) = 21"
    using initial_sid_inv[OF assms] selinux_init_total[of ok] assms by auto
  obtain st0 where st0: "selinux_sidtab_init = Some st0" "contexts st = contexts st0"
    using assms by (auto simp: selinux_init_def)
  from st0(1) obtain c1 c2 c3 c4 c5 c6 where c:
      "init_context 1 ''system_u'' ''system_r'' ''kernel_t'' (\<lambda>_. zero_context) = Some c1"
      "init_context 2 ''system_u'' ''object_r'' ''unlabeled_t'' c1 = Some c2"
      "init_context 3 ''system_u'' ''object_r'' ''file_t'' c2 = Some c3"
      "init_context 4 ''system_u'' ''object_r'' ''dir_t'' c3 = Some c4"
      "init_context 10 ''system_u'' ''system_r'' ''kernel_t'' c4 = Some c5"
      "init_context 14 ''system_u'' ''object_r'' ''tcp_socket_t'' c5 = Some c6"
      "init_context 13 ''system_u'' ''object_r'' ''socket_t'' c6 = Some (contexts st0)"
    by (auto simp: selinux_sidtab_init_def Option.bind_eq_Some_conv)
  have at: "contexts st0 10 = c5 10" "contexts st0 1 = c1 1" "c4 10 = zero_context"
    using init_context_other[OF c(7)] init_context_other[OF c(6)] init_context_other[OF c(5)] init_context_other[OF c(4)]
      init_context_other[OF c(3)] init_context_other[OF c(2)] init_context_other[OF c(1)] by simp_all
  then have "same_context (contexts st 1) (contexts st 10)"
    using init_context_same[OF c(1) c(5)] st0(2) by simp
  moreover have "context_ok (contexts st 10)" using inv(1) by (simp add: sid_inv_def)
  ultimately have "selinux_context_to_sid (Some (contexts st 10)) (Some s0) st = Some (0, Some (of_nat 1), st)"
    using inv by (intro context_to_sid_again) auto
  with inv show ?thesis by (auto simp: sid_to_context_eq)
qed

theorem sid_round_trip_witness:
  "\<exists>st sid st'. selinux_init (\<lambda>_. True) = Some st \<and>
     selinux_context_to_sid (Some (zero_context\<lparr>ctx_user := set_field [97]\<rparr>)) (Some 0) st = Some (0, Some sid, st') \<and>
     (\<exists>d. selinux_sid_to_context sid (Some zero_context) st' = (0, Some d) \<and> cstr (ctx_user d) = [97])"
proof -
  let ?c = "zero_context\<lparr>ctx_user := set_field [97]\<rparr>"
  obtain st where st: "selinux_init (\<lambda>_. True) = Some st" "next_sid st = 21"
    using selinux_init_total by blast
  have u: "set_field [97] = [97] @ replicate 63 0" "cstr (set_field [97]) = [97]"
    using set_field_eq[of "[97]"] cstr_set_field[of "[97]"] by simp_all
  have "context_ok ?c"
    using zero_context_ok by (simp add: context_ok_def u(1) field_ok_def)
  from sid_round_trip[OF initial_sid_inv[OF st(1)] this, of 0 zero_context 0] st(2)
  obtain sid st' d where "selinux_context_to_sid (Some ?c) (Some 0) st = Some (0, Some sid, st')"
      "selinux_sid_to_context sid (Some zero_context) st' = (0, Some d)" "same_context d ?c"
    by (auto split: if_splits)
  with st(1) u(2) show ?thesis by (auto simp: same_context_def)
qed

theorem context_text_round_trip_witness:
  "\<exists>b'. selinux_context_to_string (Some zero_context) (Some [9, 9, 9, 9, 7]) 4 = Some (3, Some b') \<and>
     drop 4 b' = [7] \<and>
     (\<exists>d. selinux_parse_context (Some b') (Some zero_context) = Some (0, Some d) \<and> same_context d zero_context)"
proof -
  have z: "cstr (replicate 64 0) = []" by (simp add: cstr_def takeWhile_replicate)
  have e: "selinux_context_to_string (Some zero_context) (Some [9, 9, 9, 9, 7]) 4 =
      Some (3, Some (written [58, 58, 58, 0] [9, 9, 9, 9, 7]))"
    using context_to_string_eq[OF zero_context_ok, of 4 "[9, 9, 9, 9, 7]" "[]" "[]" "[]" "[]"]
    by (simp add: zero_context_def z)
  then show ?thesis
    using context_text_round_trip[OF zero_context_ok, of 4 "[9, 9, 9, 9, 7]" zero_context]
    by (auto simp: zero_context_def z)
qed

end
