(* ===== verification/Buddy.thy ===== *)
theory Buddy
  imports Prelude
begin

unbundle bit_operations_syntax

section \<open>The buddy page allocator (\<open>arch/x86_64/buddy.c\<close>)\<close>

text \<open>
  A zone keeps an array of page structures, one per frame, and per order a doubly linked
  list of the free blocks of that size, threaded through the structures of their first
  frames. A pointer to a page structure is its index in the array, \<open>None\<close> is the null pointer,
  and the array is a function from indices. Frame numbers and orders are natural numbers
  (a frame number is an address divided by the page size); the counters keep their width.
  A result \<open>None\<close> of an operation is a read or write through a null pointer, or the endless
  loop of a search in a cyclic list.
\<close>

abbreviation (input) BUDDY_MAX_ORDER :: nat where "BUDDY_MAX_ORDER \<equiv> 11"
abbreviation (input) PAGE_FLAG_USED :: u32 where "PAGE_FLAG_USED \<equiv> 0x01"
abbreviation (input) PAGE_FLAG_SLAB :: u32 where "PAGE_FLAG_SLAB \<equiv> 0x04"

record page_t =
  pg_next :: "nat option"
  pg_prev :: "nat option"
  pg_order :: nat
  pg_flags :: u32
  pg_pfn :: nat

record buddy_zone =
  free_list :: "nat \<Rightarrow> nat option"
  free_count :: "nat \<Rightarrow> u64"
  pages :: "nat \<Rightarrow> page_t"
  total_pages :: nat
  used_pages :: u64
  reserved_pages :: nat
  base_pfn :: nat
  end_pfn :: nat

definition zero_page :: page_t where
  "zero_page = \<lparr>pg_next = None, pg_prev = None, pg_order = 0, pg_flags = 0, pg_pfn = 0\<rparr>"

definition upd_page :: "nat \<Rightarrow> (page_t \<Rightarrow> page_t) \<Rightarrow> buddy_zone \<Rightarrow> buddy_zone" where
  "upd_page i f z = z\<lparr>pages := (pages z)(i := f (pages z i))\<rparr>"

subsection \<open>Lists\<close>

definition upd_opt :: "nat option \<Rightarrow> (page_t \<Rightarrow> page_t) \<Rightarrow> buddy_zone \<Rightarrow> buddy_zone" where
  "upd_opt p f z = (case p of None \<Rightarrow> z | Some i \<Rightarrow> upd_page i f z)"

definition list_del :: "nat \<Rightarrow> buddy_zone \<Rightarrow> buddy_zone" where
  "list_del page z =
     (let z1 = upd_opt (pg_prev (pages z page)) (\<lambda>p. p\<lparr>pg_next := pg_next (pages z page)\<rparr>) z;
          z2 = upd_opt (pg_next (pages z1 page)) (\<lambda>p. p\<lparr>pg_prev := pg_prev (pages z1 page)\<rparr>) z1
      in upd_page page (\<lambda>p. p\<lparr>pg_next := None, pg_prev := None\<rparr>) z2)"

definition list_add :: "nat \<Rightarrow> nat \<Rightarrow> buddy_zone \<Rightarrow> buddy_zone" where
  "list_add order page z =
     (let z1 = upd_page page (\<lambda>p. p\<lparr>pg_next := free_list z order, pg_prev := None\<rparr>) z;
          z2 = upd_opt (free_list z1 order) (\<lambda>p. p\<lparr>pg_prev := Some page\<rparr>) z1
      in z2\<lparr>free_list := (free_list z2)(order := Some page),
            free_count := (free_count z2)(order := free_count z2 order + 1)\<rparr>)"

definition list_pop :: "nat \<Rightarrow> buddy_zone \<Rightarrow> nat option \<times> buddy_zone" where
  "list_pop order z = (case free_list z order of None \<Rightarrow> (None, z)
     | Some page \<Rightarrow>
         let nxt = pg_next (pages z page);
             z1 = z\<lparr>free_list := (free_list z)(order := nxt)\<rparr>;
             z2 = upd_opt nxt (\<lambda>p. p\<lparr>pg_prev := None\<rparr>) z1;
             z3 = upd_page page (\<lambda>p. p\<lparr>pg_next := None, pg_prev := None\<rparr>) z2
         in (Some page, z3\<lparr>free_count := (free_count z3)(order := free_count z3 order - 1)\<rparr>))"

definition buddy_pfn :: "nat \<Rightarrow> nat \<Rightarrow> nat" where
  "buddy_pfn pfn order = pfn XOR 2 ^ order"

partial_function (option) freelist_scan :: "buddy_zone \<Rightarrow> nat \<Rightarrow> nat option \<Rightarrow> bool option" where
  "freelist_scan z page p = (case p of None \<Rightarrow> Some False
     | Some i \<Rightarrow> if i = page then Some True else freelist_scan z page (pg_next (pages z i)))"

declare freelist_scan.simps [code]

definition in_freelist :: "buddy_zone \<Rightarrow> nat \<Rightarrow> nat \<Rightarrow> bool option" where
  "in_freelist z order page = freelist_scan z page (free_list z order)"

definition pfn_to_page :: "buddy_zone \<Rightarrow> nat \<Rightarrow> nat option" where
  "pfn_to_page z pfn = (if pfn < base_pfn z \<or> end_pfn z \<le> pfn then None else Some (pfn - base_pfn z))"

subsection \<open>Initialisation\<close>

fun init_order :: "nat \<Rightarrow> nat \<Rightarrow> nat" where
  "init_order free_pages 0 = 0"
| "init_order free_pages (Suc order) =
     (if 2 ^ Suc order > free_pages then init_order free_pages order else Suc order)"

function init_loop :: "nat \<Rightarrow> nat \<Rightarrow> buddy_zone \<Rightarrow> buddy_zone" where
  "init_loop free_start free_pages z =
     (if 0 < free_pages then
        let order = init_order free_pages BUDDY_MAX_ORDER;
            z' = list_add order free_start (upd_page free_start (\<lambda>p. p\<lparr>pg_order := order\<rparr>) z)
        in init_loop (free_start + 2 ^ order) (free_pages - 2 ^ order) z'
      else z)"
  by pat_completeness auto
termination by (relation "measure (\<lambda>(_, free_pages, _). free_pages)") auto

definition buddy_init :: "nat \<Rightarrow> nat \<Rightarrow> buddy_zone" where
  "buddy_init base_addr size_bytes =
     (let base = base_addr div 4096;
          en = base + size_bytes div 4096;
          total = en - base;
          array_pages = (total * 32 + 4096 - 1) div 4096;
          pgs = fold (\<lambda>i P. P(i := \<lparr>pg_next = None, pg_prev = None, pg_order = 0, pg_flags = 0, pg_pfn = base + i\<rparr>))
                  [0..<total] (\<lambda>_. zero_page)
      in init_loop array_pages (total - array_pages)
           \<lparr>free_list = (\<lambda>_. None), free_count = (\<lambda>_. 0), pages = pgs, total_pages = total,
            used_pages = of_nat array_pages, reserved_pages = array_pages, base_pfn = base, end_pfn = en\<rparr>)"

subsection \<open>Allocation and release\<close>

fun split_loop :: "nat \<Rightarrow> nat \<Rightarrow> nat \<Rightarrow> buddy_zone \<Rightarrow> buddy_zone option" where
  "split_loop page order 0 z = Some z"
| "split_loop page order (Suc cur) z =
     (if order < Suc cur then
        (case pfn_to_page z (buddy_pfn (pg_pfn (pages z page)) cur) of
           None \<Rightarrow> None
         | Some buddy \<Rightarrow>
             split_loop page order cur
               (list_add cur buddy (upd_page buddy (\<lambda>p. p\<lparr>pg_order := cur, pg_flags := 0\<rparr>) z)))
      else Some z)"

definition buddy_alloc_pages :: "nat \<Rightarrow> buddy_zone \<Rightarrow> (nat option \<times> buddy_zone) option" where
  "buddy_alloc_pages order z =
     (if BUDDY_MAX_ORDER < order then Some (None, z)
      else case find (\<lambda>cur. free_list z cur \<noteq> None) [order..<BUDDY_MAX_ORDER + 1] of
             None \<Rightarrow> Some (None, z)
           | Some cur \<Rightarrow>
               (case list_pop cur z of
                  (None, z1) \<Rightarrow> None
                | (Some page, z1) \<Rightarrow>
                    Option.bind (split_loop page order cur
                        (upd_page page (\<lambda>p. p\<lparr>pg_flags := pg_flags p OR PAGE_FLAG_USED\<rparr>) z1)) (\<lambda>z2.
                      Some (Some page, (upd_page page (\<lambda>p. p\<lparr>pg_order := order\<rparr>) z2)
                             \<lparr>used_pages := used_pages z2 + 2 ^ order\<rparr>))))"

text \<open>One turn after another of the loop that merges a block with its free buddy.\<close>

function merge_loop :: "nat \<Rightarrow> nat \<Rightarrow> buddy_zone \<Rightarrow> (nat \<times> nat \<times> buddy_zone) option" where
  "merge_loop page order z =
     (if BUDDY_MAX_ORDER \<le> order then Some (page, order, z)
      else case pfn_to_page z (buddy_pfn (pg_pfn (pages z page)) order) of
             None \<Rightarrow> None
           | Some buddy \<Rightarrow>
               if pg_pfn (pages z buddy) < base_pfn z \<or> end_pfn z \<le> pg_pfn (pages z buddy) then Some (page, order, z)
               else if pg_flags (pages z buddy) AND PAGE_FLAG_USED \<noteq> 0 then Some (page, order, z)
               else if pg_order (pages z buddy) \<noteq> order then Some (page, order, z)
               else Option.bind (in_freelist z order buddy) (\<lambda>b.
                 if \<not> b then Some (page, order, z)
                 else let z1 = list_del buddy z;
                          z2 = z1\<lparr>free_count := (free_count z1)(order := free_count z1 order - 1)\<rparr>
                      in merge_loop (if pg_pfn (pages z2 buddy) < pg_pfn (pages z2 page) then buddy else page)
                           (order + 1) z2))"
  by pat_completeness auto
termination by (relation "measure (\<lambda>(_, order, _). BUDDY_MAX_ORDER - order)") auto

definition buddy_free_pages :: "nat option \<Rightarrow> buddy_zone \<Rightarrow> buddy_zone option" where
  "buddy_free_pages pg z = (case pg of None \<Rightarrow> Some z
     | Some page \<Rightarrow>
         if pg_flags (pages z page) AND PAGE_FLAG_USED = 0 then Some z
         else let order = pg_order (pages z page);
                  z1 = upd_page page (\<lambda>p. p\<lparr>pg_flags := pg_flags p AND NOT PAGE_FLAG_USED\<rparr>) z;
                  z2 = z1\<lparr>used_pages := used_pages z1 - 2 ^ order\<rparr>
              in Option.bind (merge_loop page order z2) (\<lambda>(page, order, z3).
                   Some (list_add order page (upd_page page (\<lambda>p. p\<lparr>pg_order := order\<rparr>) z3))))"

fun order_for :: "nat \<Rightarrow> nat \<Rightarrow> nat \<Rightarrow> nat" where
  "order_for 0 n order = order"
| "order_for (Suc k) n order = (if 2 ^ order < n then order_for k n (Suc order) else order)"

definition buddy_alloc_pages_n :: "nat \<Rightarrow> buddy_zone \<Rightarrow> (nat option \<times> buddy_zone) option" where
  "buddy_alloc_pages_n n z =
     (if n = 0 then Some (None, z) else if 2 ^ BUDDY_MAX_ORDER < n then Some (None, z)
      else buddy_alloc_pages (order_for BUDDY_MAX_ORDER n 0) z)"

definition page_to_virt :: "nat \<Rightarrow> buddy_zone \<Rightarrow> nat" where
  "page_to_virt page z = pg_pfn (pages z page) * 4096"

definition virt_to_page :: "buddy_zone \<Rightarrow> nat \<Rightarrow> nat option" where
  "virt_to_page z virt = pfn_to_page z (virt div 4096)"

definition page_to_pfn :: "nat \<Rightarrow> buddy_zone \<Rightarrow> nat" where
  "page_to_pfn page z = pg_pfn (pages z page)"

definition buddy_get_stats :: "buddy_zone \<Rightarrow> nat \<times> u64 \<times> u64" where
  "buddy_get_stats z = (total_pages z,
     fold (\<lambda>i f. f + free_count z i * 2 ^ i) [0..<BUDDY_MAX_ORDER + 1] 0, used_pages z)"

definition alloc_pages_virt :: "nat \<Rightarrow> buddy_zone \<Rightarrow> (nat \<times> buddy_zone) option" where
  "alloc_pages_virt order z = Option.bind (buddy_alloc_pages order z) (\<lambda>(p, z').
     case p of None \<Rightarrow> Some (0, z') | Some i \<Rightarrow> Some (page_to_virt i z', z'))"

definition free_pages_virt :: "nat \<Rightarrow> buddy_zone \<Rightarrow> buddy_zone option" where
  "free_pages_virt virt z = (case virt_to_page z virt of None \<Rightarrow> Some z | Some p \<Rightarrow> buddy_free_pages (Some p) z)"

declare init_loop.simps [simp del] merge_loop.simps [simp del]

subsection \<open>Well-formed zones\<close>

text \<open>
  \<open>F\<close> lists the free blocks of every order by the index of their first frame. In a
  well-formed zone the linked lists are these, the blocks are aligned to their size, lie in
  the zone and are pairwise disjoint.
\<close>

fun links :: "(nat \<Rightarrow> page_t) \<Rightarrow> nat option \<Rightarrow> nat list \<Rightarrow> bool" where
  "links P h [] \<longleftrightarrow> h = None"
| "links P h (x # xs) \<longleftrightarrow> h = Some x \<and> links P (pg_next (P x)) xs"

abbreviation frames :: "nat \<Rightarrow> nat \<Rightarrow> nat set" where
  "frames order i \<equiv> {i..<i + 2 ^ order}"

definition block_ok :: "buddy_zone \<Rightarrow> nat \<Rightarrow> nat \<Rightarrow> bool" where
  "block_ok z order i \<longleftrightarrow> i + 2 ^ order \<le> total_pages z \<and> 2 ^ order dvd base_pfn z + i"

definition blocks :: "(nat \<Rightarrow> nat list) \<Rightarrow> (nat \<times> nat) set" where
  "blocks F = {(k, i). k \<le> BUDDY_MAX_ORDER \<and> i \<in> set (F k)}"

definition free_frames :: "(nat \<Rightarrow> nat list) \<Rightarrow> nat set" where
  "free_frames F = (\<Union>(k, i) \<in> blocks F. frames k i)"

definition apart :: "(nat \<Rightarrow> nat list) \<Rightarrow> bool" where
  "apart F \<longleftrightarrow> (\<forall>k \<le> BUDDY_MAX_ORDER. distinct (F k)) \<and>
     pairwise (\<lambda>(k, i) (l, j). frames k i \<inter> frames l j = {}) (blocks F)"

definition zone_inv :: "buddy_zone \<Rightarrow> (nat \<Rightarrow> nat list) \<Rightarrow> bool" where
  "zone_inv z F \<longleftrightarrow>
     (\<forall>k \<le> BUDDY_MAX_ORDER. links (pages z) (free_list z k) (F k) \<and> free_count z k = of_nat (length (F k))) \<and>
     (\<forall>k \<le> BUDDY_MAX_ORDER. \<forall>i \<in> set (F k). block_ok z k i) \<and> apart F \<and>
     end_pfn z = base_pfn z + total_pages z \<and> (\<forall>i < total_pages z. pg_pfn (pages z i) = base_pfn z + i)"

lemma links_cong: "(\<And>x. x \<in> set xs \<Longrightarrow> pg_next (P x) = pg_next (Q x)) \<Longrightarrow> links P h xs = links Q h xs"
  by (induction xs arbitrary: h) auto

lemma upd_page_simps [simp]:
  "free_list (upd_page i f z) = free_list z" "free_count (upd_page i f z) = free_count z"
  "total_pages (upd_page i f z) = total_pages z" "used_pages (upd_page i f z) = used_pages z"
  "base_pfn (upd_page i f z) = base_pfn z" "end_pfn (upd_page i f z) = end_pfn z"
  "reserved_pages (upd_page i f z) = reserved_pages z"
  "pages (upd_page i f z) j = (if j = i then f (pages z i) else pages z j)"
  by (auto simp: upd_page_def)

lemma upd_opt_simps [simp]:
  "free_list (upd_opt p f z) = free_list z" "free_count (upd_opt p f z) = free_count z"
  "total_pages (upd_opt p f z) = total_pages z" "used_pages (upd_opt p f z) = used_pages z"
  "base_pfn (upd_opt p f z) = base_pfn z" "end_pfn (upd_opt p f z) = end_pfn z"
  "reserved_pages (upd_opt p f z) = reserved_pages z"
  "pages (upd_opt p f z) j = (if p = Some j then f (pages z j) else pages z j)"
  by (auto simp: upd_opt_def split: option.splits)

text \<open>Only the successor links, the frame numbers and the heads and counts of the lists matter.\<close>

lemma zone_inv_cong:
  assumes "zone_inv z F" "free_list z' = free_list z" "free_count z' = free_count z"
    "total_pages z' = total_pages z" "base_pfn z' = base_pfn z" "end_pfn z' = end_pfn z"
    "\<And>j. pg_next (pages z' j) = pg_next (pages z j)" "\<And>j. pg_pfn (pages z' j) = pg_pfn (pages z j)"
  shows "zone_inv z' F"
  using assms links_cong[of _ "pages z'" "pages z"] by (simp add: zone_inv_def block_ok_def)

lemma block_in_free: "k \<le> BUDDY_MAX_ORDER \<Longrightarrow> i \<in> set (F k) \<Longrightarrow> frames k i \<subseteq> free_frames F"
  by (auto simp: free_frames_def blocks_def)

lemma head_in_free: "k \<le> BUDDY_MAX_ORDER \<Longrightarrow> i \<in> set (F k) \<Longrightarrow> i \<in> free_frames F"
  using block_in_free[of k i F] by auto

lemma blocks_cons: "k \<le> BUDDY_MAX_ORDER \<Longrightarrow> blocks (F(k := i # F k)) = insert (k, i) (blocks F)"
  by (auto simp: blocks_def split: if_splits)

lemma free_frames_cons:
  "k \<le> BUDDY_MAX_ORDER \<Longrightarrow> free_frames (F(k := i # F k)) = frames k i \<union> free_frames F"
  by (simp add: free_frames_def blocks_cons)

lemma apart_cons:
  assumes "apart F" "k \<le> BUDDY_MAX_ORDER" "frames k i \<inter> free_frames F = {}"
  shows "apart (F(k := i # F k))"
proof -
  have "i \<in> frames k i" by simp
  then have "i \<notin> set (F k)" using head_in_free[OF assms(2), of i F] assms(3) by blast
  moreover have "frames k i \<inter> frames l j = {}" if "(l, j) \<in> blocks F" for l j
    using assms(3) that unfolding free_frames_def by blast
  ultimately show ?thesis
    using assms(1,2) unfolding apart_def blocks_cons[OF assms(2)] pairwise_insert
    by (auto simp: Int_commute)
qed

lemma list_add_inv:
  assumes inv: "zone_inv z F" and k: "k \<le> BUDDY_MAX_ORDER" "block_ok z k i" "frames k i \<inter> free_frames F = {}"
  shows "zone_inv (list_add k i z) (F(k := i # F k))"
proof -
  let ?z = "list_add k i z"
  have "i \<in> frames k i" by simp
  with k(3) have i: "i \<notin> free_frames F" by blast
  have simps: "free_list ?z = (free_list z)(k := Some i)" "free_count ?z = (free_count z)(k := free_count z k + 1)"
      "total_pages ?z = total_pages z" "base_pfn ?z = base_pfn z" "end_pfn ?z = end_pfn z"
      "\<And>j. pg_next (pages ?z j) = (if j = i then free_list z k else pg_next (pages z j))"
      "\<And>j. pg_pfn (pages ?z j) = pg_pfn (pages z j)"
    by (auto simp: list_add_def Let_def)
  have old: "links (pages ?z) h (F l) = links (pages z) h (F l)" if "l \<le> BUDDY_MAX_ORDER" for h l
    using head_in_free[OF that] i by (intro links_cong) (auto simp: simps)
  have "apart (F(k := i # F k))"
    using inv k(1,3) by (intro apart_cons) (simp_all add: zone_inv_def)
  then show ?thesis
    using inv k old by (auto simp: zone_inv_def simps block_ok_def)
qed

lemma blocks_tl:
  assumes "apart F" "k \<le> BUDDY_MAX_ORDER" "F k = i # xs"
  shows "blocks F = insert (k, i) (blocks (F(k := xs)))" "(k, i) \<notin> blocks (F(k := xs))"
  using assms by (auto simp: blocks_def apart_def split: if_splits)

lemma apart_tl:
  assumes "apart F" "k \<le> BUDDY_MAX_ORDER" "F k = i # xs"
  shows "apart (F(k := xs))" "free_frames (F(k := xs)) = free_frames F - frames k i" "frames k i \<subseteq> free_frames F"
proof -
  note b = blocks_tl[OF assms]
  have "distinct (i # xs)" using assms unfolding apart_def by metis
  then show "apart (F(k := xs))"
    using assms(1) b(1) unfolding apart_def by (auto intro: pairwise_subset)
  have "frames k i \<inter> frames l j = {}" if "(l, j) \<in> blocks (F(k := xs))" for l j
    using assms(1) that b unfolding apart_def pairwise_def by fastforce
  then have "frames k i \<inter> free_frames (F(k := xs)) = {}" unfolding free_frames_def by blast
  moreover have "free_frames F = frames k i \<union> free_frames (F(k := xs))"
    unfolding free_frames_def b(1) by simp
  ultimately show "free_frames (F(k := xs)) = free_frames F - frames k i" by blast
  show "frames k i \<subseteq> free_frames F" using block_in_free[OF assms(2), of i F] assms(3) by simp
qed

lemma list_pop_inv:
  assumes inv: "zone_inv z F" and k: "k \<le> BUDDY_MAX_ORDER" "F k = i # xs"
  shows "\<exists>z'. list_pop k z = (Some i, z') \<and> zone_inv z' (F(k := xs)) \<and> total_pages z' = total_pages z \<and>
     base_pfn z' = base_pfn z \<and> used_pages z' = used_pages z"
proof -
  have h: "free_list z k = Some i" "links (pages z) (pg_next (pages z i)) xs"
    using inv k by (auto simp: zone_inv_def dest!: spec[of _ k])
  define z' where "z' = snd (list_pop k z)"
  have pop: "list_pop k z = (Some i, z')" using h(1) by (simp add: z'_def list_pop_def Let_def)
  have simps: "free_list z' = (free_list z)(k := pg_next (pages z i))" "free_count z' = (free_count z)(k := free_count z k - 1)"
      "total_pages z' = total_pages z" "base_pfn z' = base_pfn z" "end_pfn z' = end_pfn z" "used_pages z' = used_pages z"
      "\<And>j. pg_next (pages z' j) = (if j = i then None else pg_next (pages z j))"
      "\<And>j. pg_pfn (pages z' j) = pg_pfn (pages z j)"
    using h(1) by (auto simp: z'_def list_pop_def Let_def)
  have ap: "apart F" using inv by (simp add: zone_inv_def)
  note a = apart_tl[OF ap k]
  have "i \<in> frames k i" by simp
  then have i: "i \<notin> free_frames (F(k := xs))" using a(2) by blast
  have old: "links (pages z') h ((F(k := xs)) l) = links (pages z) h ((F(k := xs)) l)" if "l \<le> BUDDY_MAX_ORDER" for h l
    using head_in_free[OF that, of _ "F(k := xs)"] i by (intro links_cong) (auto simp: simps)
  have "zone_inv z' (F(k := xs))"
    using inv k h(2) a(1) old[of k] old by (auto simp: zone_inv_def simps block_ok_def)
  then show ?thesis using pop simps by blast
qed

subsection \<open>Allocation\<close>

text \<open>The buddy of the lower half of an aligned block is its upper half.\<close>

lemma buddy_pfn_upper:
  assumes "2 ^ Suc k dvd n"
  shows "buddy_pfn n k = n + 2 ^ k"
proof -
  have "n AND 2 ^ k = 0"
    using assms by (auto simp: and_exp_eq_0_iff_not_bit bit_iff_odd elim!: dvdE)
  then show ?thesis by (simp add: buddy_pfn_def disjunctive_add_eq_xor)
qed

lemma block_split:
  assumes "block_ok z (Suc k) i"
  shows "block_ok z k i" "block_ok z k (i + 2 ^ k)"
    "frames (Suc k) i = frames k i \<union> frames k (i + 2 ^ k)" "frames k i \<inter> frames k (i + 2 ^ k) = {}"
proof -
  have d: "2 ^ k dvd base_pfn z + i"
    using assms unfolding block_ok_def by (meson dvd_trans le_imp_power_dvd lessI less_imp_le)
  then have "2 ^ k dvd (base_pfn z + i) + 2 ^ k" by (rule dvd_add) simp
  with d assms show "block_ok z k i" "block_ok z k (i + 2 ^ k)"
    by (auto simp: block_ok_def add.assoc)
  show "frames (Suc k) i = frames k i \<union> frames k (i + 2 ^ k)" "frames k i \<inter> frames k (i + 2 ^ k) = {}"
    by auto
qed

lemma split_loop_inv:
  assumes "zone_inv z F" "block_ok z cur i" "frames cur i \<inter> free_frames F = {}" "order \<le> cur" "cur \<le> BUDDY_MAX_ORDER + 1"
  shows "\<exists>z' F'. split_loop i order cur z = Some z' \<and> zone_inv z' F' \<and>
     free_frames F' = free_frames F \<union> (frames cur i - frames order i) \<and> block_ok z' order i \<and>
     total_pages z' = total_pages z \<and> base_pfn z' = base_pfn z \<and> used_pages z' = used_pages z \<and>
     pg_flags (pages z' i) = pg_flags (pages z i)"
  using assms
proof (induction cur arbitrary: z F)
  case 0
  then show ?case by auto
next
  case (Suc k)
  show ?case
  proof (cases "order < Suc k")
    case False
    with Suc.prems have "order = Suc k" by simp
    then show ?thesis
      using Suc.prems by (intro exI[of _ z] exI[of _ F]) simp
  next
    case True
    let ?j = "i + 2 ^ k"
    note b = block_split[OF Suc.prems(2)]
    have pos: "0 < (2 :: nat) ^ k" by simp
    have "?j + 2 ^ k \<le> total_pages z" using b(2) by (simp add: block_ok_def)
    with pos have lt: "i < total_pages z" "?j < total_pages z" "?j \<noteq> i" by linarith+
    have "pg_pfn (pages z i) = base_pfn z + i" using Suc.prems(1) lt(1) by (simp add: zone_inv_def)
    then have "buddy_pfn (pg_pfn (pages z i)) k = base_pfn z + i + 2 ^ k"
      using buddy_pfn_upper[of k "base_pfn z + i"] Suc.prems(2) by (simp add: block_ok_def)
    then have j: "pfn_to_page z (buddy_pfn (pg_pfn (pages z i)) k) = Some ?j"
      using Suc.prems(1) lt(2) by (simp add: pfn_to_page_def zone_inv_def)
    define z1 where "z1 = upd_page ?j (\<lambda>p. p\<lparr>pg_order := k, pg_flags := 0\<rparr>) z"
    have z1: "zone_inv z1 F"
      by (rule zone_inv_cong[OF Suc.prems(1)]) (simp_all add: z1_def)
    have "frames k ?j \<inter> free_frames F = {}" using Suc.prems(3) b(3) by blast
    moreover have "block_ok z1 k ?j" using b(2) by (simp add: block_ok_def z1_def)
    ultimately have z2: "zone_inv (list_add k ?j z1) (F(k := ?j # F k))"
      using z1 Suc.prems(5) by (intro list_add_inv) auto
    have ff: "free_frames (F(k := ?j # F k)) = frames k ?j \<union> free_frames F"
      using Suc.prems(5) by (intro free_frames_cons) simp
    have d: "frames k i \<inter> free_frames (F(k := ?j # F k)) = {}"
      unfolding ff using Suc.prems(3) b(3,4) by blast
    have bo: "block_ok (list_add k ?j z1) k i"
      using b(1) by (simp add: block_ok_def list_add_def Let_def z1_def)
    have "order \<le> k" "k \<le> BUDDY_MAX_ORDER + 1" using True Suc.prems(5) by simp_all
    from Suc.IH[OF z2 bo d this] obtain z' F' where r: "split_loop i order k (list_add k ?j z1) = Some z'" "zone_inv z' F'"
        "free_frames F' = free_frames (F(k := ?j # F k)) \<union> (frames k i - frames order i)" "block_ok z' order i"
        "total_pages z' = total_pages (list_add k ?j z1)" "base_pfn z' = base_pfn (list_add k ?j z1)"
        "used_pages z' = used_pages (list_add k ?j z1)" "pg_flags (pages z' i) = pg_flags (pages (list_add k ?j z1) i)"
      by blast
    have sub: "frames order i \<subseteq> frames k i"
      using True power_increasing[of order k "2 :: nat"] by auto
    have "free_frames F' = free_frames F \<union> (frames (Suc k) i - frames order i)"
      unfolding r(3) ff b(3) using sub b(4) by blast
    moreover have "split_loop i order (Suc k) z = Some z'"
      using True j r(1) by (simp add: z1_def)
    ultimately show ?thesis
      using r lt(3) by (intro exI[of _ z'] exI[of _ F']) (simp add: list_add_def Let_def z1_def)
  qed
qed

text \<open>What one allocation does to the free frames.\<close>

lemma buddy_alloc_inv:
  assumes inv: "zone_inv z F" and o: "order \<le> BUDDY_MAX_ORDER"
  shows "if \<forall>k. order \<le> k \<and> k \<le> BUDDY_MAX_ORDER \<longrightarrow> F k = [] then buddy_alloc_pages order z = Some (None, z)
     else \<exists>i z' F'. buddy_alloc_pages order z = Some (Some i, z') \<and> zone_inv z' F' \<and>
       frames order i \<subseteq> free_frames F \<and> free_frames F' = free_frames F - frames order i \<and> block_ok z' order i \<and>
       total_pages z' = total_pages z \<and> base_pfn z' = base_pfn z \<and> used_pages z' = used_pages z + 2 ^ order \<and>
       pg_order (pages z' i) = order \<and> bit (pg_flags (pages z' i)) 0"
proof -
  have heads: "free_list z k = None \<longleftrightarrow> F k = []" if "k \<le> BUDDY_MAX_ORDER" for k
    using inv that by (cases "F k") (auto simp: zone_inv_def dest!: spec[of _ k])
  show ?thesis
  proof (cases "find (\<lambda>cur. free_list z cur \<noteq> None) [order..<BUDDY_MAX_ORDER + 1]")
    case None
    then have "\<forall>k. order \<le> k \<and> k \<le> BUDDY_MAX_ORDER \<longrightarrow> F k = []"
      using heads by (auto simp: find_None_iff)
    with None o show ?thesis by (simp add: buddy_alloc_pages_def)
  next
    case (Some cur)
    then obtain n where n: "n < 12 - order" "cur = order + n" "free_list z cur \<noteq> None"
      by (auto simp: find_Some_iff)
    from n(1,2) have c: "order \<le> cur" "cur \<le> BUDDY_MAX_ORDER" by linarith+
    with n(3) heads[of cur] have ne: "F cur \<noteq> []" by simp
    from ne obtain i xs where F: "F cur = i # xs" by (cases "F cur") auto
    obtain z1 where z1: "list_pop cur z = (Some i, z1)" "zone_inv z1 (F(cur := xs))"
        "total_pages z1 = total_pages z" "base_pfn z1 = base_pfn z" "used_pages z1 = used_pages z"
      using list_pop_inv[OF inv c(2) F] by blast
    have a: "free_frames (F(cur := xs)) = free_frames F - frames cur i" "frames cur i \<subseteq> free_frames F"
      using apart_tl(2,3)[of F cur i xs] inv c(2) F by (simp_all add: zone_inv_def)
    define z2 where "z2 = upd_page i (\<lambda>p. p\<lparr>pg_flags := pg_flags p OR PAGE_FLAG_USED\<rparr>) z1"
    have z2: "zone_inv z2 (F(cur := xs))" by (rule zone_inv_cong[OF z1(2)]) (simp_all add: z2_def)
    have "block_ok z cur i" using inv c(2) F by (simp add: zone_inv_def)
    then have "block_ok z2 cur i" using z1 by (simp add: block_ok_def z2_def)
    then obtain z3 F' where z3: "split_loop i order cur z2 = Some z3" "zone_inv z3 F'"
        "free_frames F' = free_frames (F(cur := xs)) \<union> (frames cur i - frames order i)" "block_ok z3 order i"
        "total_pages z3 = total_pages z2" "base_pfn z3 = base_pfn z2" "used_pages z3 = used_pages z2"
        "pg_flags (pages z3 i) = pg_flags (pages z2 i)"
      using split_loop_inv[OF z2, of cur i order] a(1) c by auto
    define z4 where "z4 = (upd_page i (\<lambda>p. p\<lparr>pg_order := order\<rparr>) z3)\<lparr>used_pages := used_pages z3 + 2 ^ order\<rparr>"
    have r: "buddy_alloc_pages order z = Some (Some i, z4)"
      using o Some z1(1) z3(1) by (simp add: buddy_alloc_pages_def z2_def z4_def)
    have z4: "zone_inv z4 F'" by (rule zone_inv_cong[OF z3(2)]) (simp_all add: z4_def)
    have sub: "frames order i \<subseteq> frames cur i"
      using c(1) power_increasing[of order cur "2 :: nat"] by auto
    then have "free_frames F' = free_frames F - frames order i" "frames order i \<subseteq> free_frames F"
      unfolding z3(3) a(1) using a(2) by blast+
    moreover have "bit (pg_flags (pages z1 i) OR 1) 0" unfolding bit_or_iff by simp
    then have "bit (pg_flags (pages z4 i)) 0" using z3(8) by (simp add: z4_def z2_def)
    moreover have "\<not> (\<forall>k. order \<le> k \<and> k \<le> BUDDY_MAX_ORDER \<longrightarrow> F k = [])" using c ne by blast
    ultimately show ?thesis
      using r z4 z3(4-7) z1(3-5) by (auto simp: z4_def z2_def block_ok_def)
  qed
qed

subsection \<open>Sequences of allocations\<close>

text \<open>Allocations of the given orders one after another; the blocks obtained, as pairs of order and first frame.\<close>

fun alloc_run :: "nat list \<Rightarrow> buddy_zone \<Rightarrow> ((nat \<times> nat) list \<times> buddy_zone) option" where
  "alloc_run [] z = Some ([], z)"
| "alloc_run (k # ks) z = Option.bind (buddy_alloc_pages k z) (\<lambda>(p, z1).
     Option.bind (alloc_run ks z1) (\<lambda>(bs, z2).
       Some ((case p of None \<Rightarrow> bs | Some i \<Rightarrow> (k, i) # bs), z2)))"

definition bytes_of :: "(nat \<times> nat) list \<Rightarrow> nat set" where
  "bytes_of bs = (\<Union>(k, i) \<in> set bs. frames k i)"

lemma alloc_run_inv:
  assumes "zone_inv z F"
  shows "\<exists>bs z' F'. alloc_run ks z = Some (bs, z') \<and> zone_inv z' F' \<and>
     bytes_of bs \<subseteq> free_frames F \<and> free_frames F' = free_frames F - bytes_of bs \<and>
     sorted_wrt (\<lambda>(k, i) (l, j). frames k i \<inter> frames l j = {}) bs \<and>
     (\<forall>(k, i) \<in> set bs. block_ok z k i) \<and> total_pages z' = total_pages z \<and> base_pfn z' = base_pfn z \<and>
     used_pages z' = used_pages z + (\<Sum>(k, i) \<leftarrow> bs. 2 ^ k)"
  using assms
proof (induction ks arbitrary: z F)
  case Nil
  then show ?case by (auto simp: bytes_of_def)
next
  case (Cons k ks)
  show ?case
  proof (cases "buddy_alloc_pages k z = Some (None, z)")
    case True
    then have e: "alloc_run (k # ks) z = alloc_run ks z" by (cases "alloc_run ks z") auto
    show ?thesis unfolding e by (rule Cons.IH[OF Cons.prems])
  next
    case False
    then have k: "k \<le> BUDDY_MAX_ORDER" by (auto simp: buddy_alloc_pages_def split: if_splits)
    obtain i z1 F1 where a: "buddy_alloc_pages k z = Some (Some i, z1)" "zone_inv z1 F1"
        "frames k i \<subseteq> free_frames F" "free_frames F1 = free_frames F - frames k i"
        "total_pages z1 = total_pages z" "base_pfn z1 = base_pfn z" "used_pages z1 = used_pages z + 2 ^ k"
        "block_ok z1 k i"
      using buddy_alloc_inv[OF Cons.prems k] False by (auto split: if_splits)
    obtain bs z' F' where r: "alloc_run ks z1 = Some (bs, z')" "zone_inv z' F'"
        "bytes_of bs \<subseteq> free_frames F1" "free_frames F' = free_frames F1 - bytes_of bs"
        "sorted_wrt (\<lambda>(k, i) (l, j). frames k i \<inter> frames l j = {}) bs"
        "total_pages z' = total_pages z1" "base_pfn z' = base_pfn z1"
        "used_pages z' = used_pages z1 + (\<Sum>(k, i) \<leftarrow> bs. 2 ^ k)" "\<forall>(k, i) \<in> set bs. block_ok z1 k i"
      using Cons.IH[OF a(2)] by blast
    have b: "bytes_of ((k, i) # bs) = frames k i \<union> bytes_of bs" by (auto simp: bytes_of_def)
    have "frames k i \<inter> frames l j = {}" if "(l, j) \<in> set bs" for l j
      using r(3) a(4) that unfolding bytes_of_def by blast
    then have "sorted_wrt (\<lambda>(k, i) (l, j). frames k i \<inter> frames l j = {}) ((k, i) # bs)"
      using r(5) by auto
    moreover have "bytes_of ((k, i) # bs) \<subseteq> free_frames F" "free_frames F' = free_frames F - bytes_of ((k, i) # bs)"
      unfolding b using a(3,4) r(3,4) by blast+
    moreover have "block_ok z1 = block_ok z" using a(5,6) by (simp add: fun_eq_iff block_ok_def)
    then have "\<forall>(k, i) \<in> set ((k, i) # bs). block_ok z k i" using r(9) a(8) by auto
    moreover have "alloc_run (k # ks) z = Some ((k, i) # bs, z')"
      using a(1) r(1) by simp
    ultimately show ?thesis
      using r(2,6-8) a(5-7) by (intro exI[of _ "(k, i) # bs"] exI[of _ z'] exI[of _ F']) (simp add: add.assoc)
  qed
qed

text \<open>While frames are free, single frames can be had.\<close>

lemma alloc_run_single_frames:
  assumes "zone_inv z F" "n \<le> card (free_frames F)"
  shows "\<exists>bs z'. alloc_run (replicate n 0) z = Some (bs, z') \<and> length bs = n"
  using assms
proof (induction n arbitrary: z F)
  case (Suc n)
  then have "free_frames F \<noteq> {}" by auto
  then have ne: "\<not> (\<forall>k. 0 \<le> k \<and> k \<le> BUDDY_MAX_ORDER \<longrightarrow> F k = [])"
    by (auto simp: free_frames_def blocks_def)
  obtain i z1 F1 where a: "buddy_alloc_pages 0 z = Some (Some i, z1)" "zone_inv z1 F1"
      "frames 0 i \<subseteq> free_frames F" "free_frames F1 = free_frames F - frames 0 i"
    using buddy_alloc_inv[OF Suc.prems(1) le0] unfolding if_not_P[OF ne] by blast
  have "card (free_frames F1) = card (free_frames F) - 1"
    using a(3,4) by (simp add: card_Diff_singleton_if)
  with Suc.prems(2) have "n \<le> card (free_frames F1)" by simp
  from Suc.IH[OF a(2) this] a(1) show ?case by auto
qed simp

subsection \<open>Statistics\<close>

lemma card_free_frames:
  assumes "apart F"
  shows "card (free_frames F) = (\<Sum>k \<in> {..BUDDY_MAX_ORDER}. length (F k) * 2 ^ k)"
proof -
  have b: "blocks F = (SIGMA k : {..BUDDY_MAX_ORDER}. set (F k))" by (auto simp: blocks_def)
  have "card (free_frames F) = (\<Sum>(k, i) \<in> blocks F. card (frames k i))"
    unfolding free_frames_def using assms
    by (subst card_UN_disjoint) (auto simp: apart_def pairwise_def b split_beta)
  also have "\<dots> = (\<Sum>k \<in> {..BUDDY_MAX_ORDER}. \<Sum>i \<in> set (F k). 2 ^ k)"
    unfolding b by (subst sum.Sigma[symmetric]) auto
  also have "\<dots> = (\<Sum>k \<in> {..BUDDY_MAX_ORDER}. length (F k) * 2 ^ k)"
    using assms by (intro sum.cong) (auto simp: apart_def distinct_card)
  finally show ?thesis .
qed

lemma fold_add_sum: "fold (\<lambda>i f. f + g i) xs (a :: 'a::comm_monoid_add) = a + (\<Sum>i \<leftarrow> xs. g i)"
  by (induction xs arbitrary: a) (simp_all add: add.assoc)

lemma stats_free:
  assumes "zone_inv z F"
  shows "fst (snd (buddy_get_stats z)) = of_nat (card (free_frames F))"
proof -
  have c: "free_count z k = of_nat (length (F k))" if "k \<le> BUDDY_MAX_ORDER" for k
    using assms that by (simp add: zone_inv_def)
  have "fst (snd (buddy_get_stats z)) = (\<Sum>k \<leftarrow> [0..<12]. free_count z k * 2 ^ k)"
    by (simp add: buddy_get_stats_def fold_add_sum del: upt.simps)
  also have "\<dots> = (\<Sum>k \<in> {..BUDDY_MAX_ORDER}. free_count z k * 2 ^ k)"
    by (subst sum_list_distinct_conv_sum_set) (auto intro: sum.cong)
  also have "\<dots> = of_nat (\<Sum>k \<in> {..BUDDY_MAX_ORDER}. length (F k) * 2 ^ k)"
    by (simp add: c)
  finally show ?thesis
    using card_free_frames[of F] assms by (simp add: zone_inv_def)
qed

subsection \<open>Initialisation\<close>

lemma init_order_le: "init_order f n \<le> n"
  by (induction n) auto

lemma init_order_fits: "0 < f \<Longrightarrow> 2 ^ init_order f n \<le> f"
  by (induction n) auto

lemma init_order_mono: "f \<le> g \<Longrightarrow> init_order f n \<le> init_order g n"
proof (induction n)
  case (Suc n)
  show ?case
  proof (cases "2 ^ Suc n \<le> g")
    case True
    then show ?thesis using init_order_le[of f "Suc n"] by simp
  next
    case False
    with Suc show ?thesis by simp
  qed
qed simp

lemma init_loop_inv:
  assumes "zone_inv z F" "s + f = total_pages z" "0 < f \<Longrightarrow> 2 ^ init_order f BUDDY_MAX_ORDER dvd base_pfn z + s"
    "{s..<s + f} \<inter> free_frames F = {}"
  shows "\<exists>F'. zone_inv (init_loop s f z) F' \<and> free_frames F' = free_frames F \<union> {s..<s + f} \<and>
     total_pages (init_loop s f z) = total_pages z \<and> base_pfn (init_loop s f z) = base_pfn z \<and>
     used_pages (init_loop s f z) = used_pages z \<and> reserved_pages (init_loop s f z) = reserved_pages z"
  using assms
proof (induction s f z arbitrary: F rule: init_loop.induct)
  case (1 s f z)
  show ?case
  proof (cases "0 < f")
    case False
    then have "init_loop s f z = z" by (subst init_loop.simps) simp
    with 1(2) False show ?thesis by (intro exI[of _ F]) simp
  next
    case True
    define k where "k = init_order f BUDDY_MAX_ORDER"
    define z1 where "z1 = upd_page s (\<lambda>p. p\<lparr>pg_order := k\<rparr>) z"
    have k: "k \<le> BUDDY_MAX_ORDER" "2 ^ k \<le> f"
      unfolding k_def using init_order_le init_order_fits[OF True] by auto
    have z1: "zone_inv z1 F" by (rule zone_inv_cong[OF 1(2)]) (simp_all add: z1_def)
    have split: "{s..<s + f} = frames k s \<union> {s + 2 ^ k..<s + f}" using k(2) by auto
    have "block_ok z1 k s" using 1(3,4) True k(2) by (auto simp: block_ok_def z1_def k_def)
    moreover have "frames k s \<inter> free_frames F = {}" using 1(5) split by blast
    ultimately have z2: "zone_inv (list_add k s z1) (F(k := s # F k))"
      using z1 k(1) by (intro list_add_inv) auto
    have ff: "free_frames (F(k := s # F k)) = frames k s \<union> free_frames F"
      using k(1) by (rule free_frames_cons)
    have same: "total_pages (list_add k s z1) = total_pages z" "base_pfn (list_add k s z1) = base_pfn z"
        "used_pages (list_add k s z1) = used_pages z" "reserved_pages (list_add k s z1) = reserved_pages z"
      by (simp_all add: list_add_def Let_def z1_def)
    have step: "init_loop s f z = init_loop (s + 2 ^ k) (f - 2 ^ k) (list_add k s z1)"
      using True by (subst init_loop.simps) (simp add: Let_def k_def z1_def)
    have "\<exists>F'. zone_inv (init_loop (s + 2 ^ k) (f - 2 ^ k) (list_add k s z1)) F' \<and>
        free_frames F' = free_frames (F(k := s # F k)) \<union> {s + 2 ^ k..<s + 2 ^ k + (f - 2 ^ k)} \<and>
        total_pages (init_loop (s + 2 ^ k) (f - 2 ^ k) (list_add k s z1)) = total_pages (list_add k s z1) \<and>
        base_pfn (init_loop (s + 2 ^ k) (f - 2 ^ k) (list_add k s z1)) = base_pfn (list_add k s z1) \<and>
        used_pages (init_loop (s + 2 ^ k) (f - 2 ^ k) (list_add k s z1)) = used_pages (list_add k s z1) \<and>
        reserved_pages (init_loop (s + 2 ^ k) (f - 2 ^ k) (list_add k s z1)) = reserved_pages (list_add k s z1)"
    proof (rule 1(1)[OF True k_def _ z2])
      show "list_add k s z1 = list_add k s (upd_page s (\<lambda>p. p\<lparr>pg_order := k\<rparr>) z)" by (simp add: z1_def)
      show "s + 2 ^ k + (f - 2 ^ k) = total_pages (list_add k s z1)" using 1(3) k(2) same by simp
      have "init_order (f - 2 ^ k) BUDDY_MAX_ORDER \<le> k" unfolding k_def by (rule init_order_mono) simp
      then have "2 ^ init_order (f - 2 ^ k) BUDDY_MAX_ORDER dvd (2 :: nat) ^ k" by (rule le_imp_power_dvd)
      moreover have "2 ^ k dvd base_pfn z + s" using 1(4) True by (simp add: k_def)
      ultimately have "2 ^ init_order (f - 2 ^ k) BUDDY_MAX_ORDER dvd (base_pfn z + s) + 2 ^ k"
        by (meson dvd_add dvd_trans)
      then show "2 ^ init_order (f - 2 ^ k) BUDDY_MAX_ORDER dvd base_pfn (list_add k s z1) + (s + 2 ^ k)"
        by (simp add: same add.assoc)
      show "{s + 2 ^ k..<s + 2 ^ k + (f - 2 ^ k)} \<inter> free_frames (F(k := s # F k)) = {}"
        unfolding ff using 1(5) split k(2) by auto
    qed
    moreover have "{s + 2 ^ k..<s + 2 ^ k + (f - 2 ^ k)} = {s + 2 ^ k..<s + f}" using k(2) by simp
    ultimately show ?thesis
      unfolding step ff same split by (simp add: Un_ac)
  qed
qed

text \<open>The frames the page structures of \<open>n\<close> frames take.\<close>

definition array_pages :: "nat \<Rightarrow> nat" where
  "array_pages n = (n * 32 + 4096 - 1) div 4096"

lemma array_pages_le: "array_pages n \<le> n"
  by (cases n) (auto simp: array_pages_def)

lemma fold_page_init:
  "pg_pfn (fold (\<lambda>i P. P(i := \<lparr>pg_next = None, pg_prev = None, pg_order = 0, pg_flags = 0, pg_pfn = b + i\<rparr>)) [0..<n] P i) =
     (if i < n then b + i else pg_pfn (P i))"
  by (induction n arbitrary: i) (auto simp: less_Suc_eq)

lemma card_bytes_of:
  assumes "sorted_wrt (\<lambda>(k, i) (l, j). frames k i \<inter> frames l j = {}) bs"
  shows "finite (bytes_of bs)" "card (bytes_of bs) = (\<Sum>(k, i) \<leftarrow> bs. 2 ^ k)"
proof -
  have "finite (bytes_of bs) \<and> card (bytes_of bs) = (\<Sum>(k, i) \<leftarrow> bs. 2 ^ k)"
    using assms
  proof (induction bs)
    case (Cons b bs)
    obtain k i where b: "b = (k, i)" by (cases b)
    have e: "bytes_of (b # bs) = frames k i \<union> bytes_of bs" by (auto simp: bytes_of_def b)
    have "frames k i \<inter> frames l j = {}" if "(l, j) \<in> set bs" for l j
      using Cons.prems that b by fastforce
    then have "frames k i \<inter> bytes_of bs = {}" unfolding bytes_of_def by blast
    moreover have "finite (bytes_of bs) \<and> card (bytes_of bs) = (\<Sum>(k, i) \<leftarrow> bs. 2 ^ k)"
      using Cons by simp
    ultimately show ?case unfolding e by (simp add: card_Un_disjoint b)
  qed (simp add: bytes_of_def)
  then show "finite (bytes_of bs)" "card (bytes_of bs) = (\<Sum>(k, i) \<leftarrow> bs. 2 ^ k)" by auto
qed

text \<open>A zone whose first frame behind the page structures is aligned to the largest block is well formed.\<close>

lemma buddy_init_inv:
  defines "n sz \<equiv> sz div 4096"
  assumes "2 ^ BUDDY_MAX_ORDER dvd base div 4096 + array_pages (n sz)"
  shows "\<exists>F. zone_inv (buddy_init base sz) F \<and> free_frames F = {array_pages (n sz)..<n sz} \<and>
     total_pages (buddy_init base sz) = n sz \<and> base_pfn (buddy_init base sz) = base div 4096 \<and>
     used_pages (buddy_init base sz) = of_nat (array_pages (n sz)) \<and>
     reserved_pages (buddy_init base sz) = array_pages (n sz)"
proof -
  let ?b = "base div 4096" and ?n = "n sz"
  define z where "z = \<lparr>free_list = (\<lambda>_. None), free_count = (\<lambda>_. 0),
      pages = fold (\<lambda>i P. P(i := \<lparr>pg_next = None, pg_prev = None, pg_order = 0, pg_flags = 0, pg_pfn = ?b + i\<rparr>))
                [0..<?n] (\<lambda>_. zero_page), total_pages = ?n,
      used_pages = of_nat (array_pages ?n), reserved_pages = array_pages ?n, base_pfn = ?b, end_pfn = ?b + ?n\<rparr>"
  have i: "buddy_init base sz = init_loop (array_pages ?n) (?n - array_pages ?n) z"
    by (simp add: buddy_init_def Let_def z_def n_def array_pages_def)
  have e: "free_frames (\<lambda>_. []) = {}" by (auto simp: free_frames_def blocks_def)
  have inv: "zone_inv z (\<lambda>_. [])"
    by (auto simp: zone_inv_def z_def apart_def blocks_def fold_page_init)
  have t: "total_pages z = ?n" "base_pfn z = ?b" "used_pages z = of_nat (array_pages ?n)"
      "reserved_pages z = array_pages ?n"
    by (simp_all add: z_def)
  have al: "2 ^ init_order f BUDDY_MAX_ORDER dvd base_pfn z + array_pages ?n" for f
    using dvd_trans[OF le_imp_power_dvd[OF init_order_le] assms(2)] by (simp add: z_def)
  have eq: "array_pages ?n + (?n - array_pages ?n) = total_pages z"
    using array_pages_le[of ?n] t(1) by simp
  have "{array_pages ?n..<array_pages ?n + (?n - array_pages ?n)} \<inter> free_frames (\<lambda>_. []) = {}" by (simp add: e)
  from init_loop_inv[OF inv eq al this] show ?thesis
    unfolding eq by (simp add: i t e)
qed

text \<open>
  C5. Allocated blocks never overlap. In a zone whose first frame behind the page
  structures is aligned to the largest block, every sequence of allocations, of any orders,
  runs to its end without touching a null pointer and returns blocks that are pairwise
  disjoint, aligned to their size, inside the zone and behind the page structures; the
  statistics add up to the size of the zone; and as many single frames can be had as there
  are frames behind the page structures.
\<close>

theorem buddy_blocks_never_overlap:
  assumes "2 ^ 11 dvd base div 4096 + array_pages (sz div 4096)"
  shows "\<exists>bs z. alloc_run ks (buddy_init base sz) = Some (bs, z) \<and>
     sorted_wrt (\<lambda>(k, i) (l, j). {i..<i + 2 ^ k} \<inter> {j..<j + 2 ^ l} = {}) bs \<and>
     (\<forall>(k, i) \<in> set bs. array_pages (sz div 4096) \<le> i \<and> i + 2 ^ k \<le> sz div 4096 \<and> 2 ^ k dvd base div 4096 + i) \<and>
     (case buddy_get_stats z of (total', free', used') \<Rightarrow> free' + used' = of_nat total') \<and>
     (ks = replicate n 0 \<and> n + array_pages (sz div 4096) \<le> sz div 4096 \<longrightarrow> length bs = n)"
proof -
  let ?z = "buddy_init base sz" and ?n = "sz div 4096"
  obtain F where F: "zone_inv ?z F" "free_frames F = {array_pages ?n..<?n}" "total_pages ?z = ?n"
      "base_pfn ?z = base div 4096" "used_pages ?z = of_nat (array_pages ?n)"
    using buddy_init_inv[OF assms] by blast
  obtain bs z F' where r: "alloc_run ks ?z = Some (bs, z)" "zone_inv z F'" "bytes_of bs \<subseteq> free_frames F"
      "free_frames F' = free_frames F - bytes_of bs"
      "sorted_wrt (\<lambda>(k, i) (l, j). frames k i \<inter> frames l j = {}) bs"
      "\<forall>(k, i) \<in> set bs. block_ok ?z k i" "total_pages z = total_pages ?z"
      "used_pages z = used_pages ?z + (\<Sum>(k, i) \<leftarrow> bs. 2 ^ k)"
    using alloc_run_inv[OF F(1), of ks] by blast
  have "array_pages ?n \<le> i \<and> i + 2 ^ k \<le> ?n \<and> 2 ^ k dvd base div 4096 + i" if "(k, i) \<in> set bs" for k i
  proof -
    have "i \<in> bytes_of bs" using that by (force simp: bytes_of_def)
    then have "array_pages ?n \<le> i" using r(3) F(2) by auto
    then show ?thesis using r(6) that F(3,4) by (auto simp: block_ok_def)
  qed
  moreover have "case buddy_get_stats z of (total', free', used') \<Rightarrow> free' + used' = of_nat total'"
  proof -
    note c = card_bytes_of[OF r(5)]
    have gen: "x = n - a - c \<Longrightarrow> c \<le> n - a \<Longrightarrow> a \<le> n \<Longrightarrow> x + (a + c) = n" for x n a c :: nat by simp
    have "card (free_frames F') = (?n - array_pages ?n) - card (bytes_of bs)"
      unfolding r(4) using card_Diff_subset[OF c(1) r(3)] F(2) by simp
    moreover have "card (bytes_of bs) \<le> ?n - array_pages ?n"
      using card_mono[OF _ r(3)] F(2) by simp
    ultimately have "card (free_frames F') + (array_pages ?n + card (bytes_of bs)) = ?n"
      using array_pages_le[of ?n] by (intro gen)
    then have "of_nat (card (free_frames F')) + (of_nat (array_pages ?n) + of_nat (card (bytes_of bs))) = (of_nat ?n :: u64)"
      by (metis of_nat_add)
    moreover have "used_pages z = of_nat (array_pages ?n) + of_nat (card (bytes_of bs))"
      unfolding r(8) F(5) c(2) by (induction bs) auto
    ultimately show ?thesis
      using stats_free[OF r(2)] r(7) F(3) by (simp add: buddy_get_stats_def)
  qed
  moreover have "length bs = n" if "ks = replicate n 0 \<and> n + array_pages ?n \<le> ?n"
    using alloc_run_single_frames[OF F(1), of n] that r(1) F(2) by auto
  ultimately show ?thesis
    using r(1,5) by (intro exI[of _ bs] exI[of _ z]) auto
qed

theorem buddy_blocks_never_overlap_witness:
  "\<exists>bs z. alloc_run [0, 3, 0] (buddy_init 0x7FF000 (9 * 4096)) = Some (bs, z) \<and>
     sorted_wrt (\<lambda>(k, i) (l, j). {i..<i + 2 ^ k} \<inter> {j..<j + 2 ^ l} = {}) bs \<and>
     (\<forall>(k, i) \<in> set bs. 1 \<le> i \<and> i + 2 ^ k \<le> 9)"
proof -
  have a: "array_pages (9 * 4096 div 4096) = 1" by (simp add: array_pages_def)
  have "2 ^ 11 dvd 0x7FF000 div 4096 + array_pages (9 * 4096 div 4096)" unfolding a by simp
  from buddy_blocks_never_overlap[OF this, of "[0, 3, 0]" 0]
  obtain bs z where "alloc_run [0, 3, 0] (buddy_init 0x7FF000 (9 * 4096)) = Some (bs, z)"
      "sorted_wrt (\<lambda>(k, i) (l, j). {i..<i + 2 ^ k} \<inter> {j..<j + 2 ^ l} = {}) bs"
      "\<forall>(k, i) \<in> set bs. 1 \<le> i \<and> i + 2 ^ k \<le> 9 * 4096 div 4096 \<and> 2 ^ k dvd 0x7FF000 div 4096 + i"
    unfolding a by blast
  then show ?thesis by (intro exI[of _ bs] exI[of _ z]) (simp add: split_beta)
qed

subsection \<open>What goes wrong\<close>

text \<open>The fields after the list operations, and the loops at numerals, so that \<open>simp\<close> runs the allocator.\<close>

lemma list_add_fields:
  "free_list (list_add k i z) = (free_list z)(k := Some i)"
  "free_count (list_add k i z) = (free_count z)(k := free_count z k + 1)"
  "base_pfn (list_add k i z) = base_pfn z" "end_pfn (list_add k i z) = end_pfn z"
  "reserved_pages (list_add k i z) = reserved_pages z"
  "pages (list_add k i z) j = (let p = pages z j; p1 = if j = i then p\<lparr>pg_next := free_list z k, pg_prev := None\<rparr> else p
      in if free_list z k = Some j then p1\<lparr>pg_prev := Some i\<rparr> else p1)"
  by (auto simp: list_add_def Let_def)

lemma list_del_fields:
  "free_list (list_del i z) = free_list z" "free_count (list_del i z) = free_count z"
  "base_pfn (list_del i z) = base_pfn z" "end_pfn (list_del i z) = end_pfn z"
  "reserved_pages (list_del i z) = reserved_pages z"
  by (auto simp: list_del_def Let_def)

lemma init_order_numeral:
  "init_order f (numeral k) = (if f < 2 ^ numeral k then init_order f (pred_numeral k) else numeral k)"
  by (simp add: numeral_eq_Suc)

lemma split_loop_numeral:
  "split_loop page order (numeral k) z =
     (if order < numeral k then
        (case pfn_to_page z (buddy_pfn (pg_pfn (pages z page)) (pred_numeral k)) of
           None \<Rightarrow> None
         | Some buddy \<Rightarrow>
             split_loop page order (pred_numeral k)
               (list_add (pred_numeral k) buddy
                 (upd_page buddy (\<lambda>p. p\<lparr>pg_order := pred_numeral k, pg_flags := 0\<rparr>) z)))
      else Some z)"
  by (simp add: numeral_eq_Suc)

lemma xor_values:
  "(257 :: nat) XOR Suc 0 = 256" "(256 :: nat) XOR Suc 0 = 257" "(256 :: nat) XOR 2 = 258"
  "(256 :: nat) XOR 4 = 260" "(256 :: nat) XOR 8 = 264"
  unfolding One_nat_def[symmetric] by simp_all

lemmas buddy_eval = buddy_alloc_pages_def buddy_free_pages_def list_pop_def list_del_def list_add_fields
  list_del_fields pfn_to_page_def buddy_pfn_def upt_conv_Cons Let_def xor_values split_loop_numeral
  numeral_2_eq_2[symmetric] merge_loop.simps in_freelist_def freelist_scan.simps

lemmas buddy_init_eval = buddy_init_def init_loop.simps list_add_fields upt_conv_Cons Let_def init_order_numeral

lemma zone_at_1M:
  "free_list (buddy_init 0x100000 (3 * 4096)) = (\<lambda>_. None)(Suc 0 := Some (Suc 0))"
  "base_pfn (buddy_init 0x100000 (3 * 4096)) = 256" "end_pfn (buddy_init 0x100000 (3 * 4096)) = 259"
  "reserved_pages (buddy_init 0x100000 (3 * 4096)) = 1"
  "pages (buddy_init 0x100000 (3 * 4096)) (Suc 0) =
     \<lparr>pg_next = None, pg_prev = None, pg_order = Suc 0, pg_flags = 0, pg_pfn = 257\<rparr>"
  "pages (buddy_init 0x100000 (3 * 4096)) 0 =
     \<lparr>pg_next = None, pg_prev = None, pg_order = 0, pg_flags = 0, pg_pfn = 256\<rparr>"
  by (simp_all add: buddy_init_eval)

lemma zone_below_1M:
  "free_list (buddy_init 0xFF000 (9 * 4096)) = (\<lambda>_. None)(3 := Some 1)"
  "base_pfn (buddy_init 0xFF000 (9 * 4096)) = 255" "end_pfn (buddy_init 0xFF000 (9 * 4096)) = 264"
  "pages (buddy_init 0xFF000 (9 * 4096)) (Suc 0) =
     \<lparr>pg_next = None, pg_prev = None, pg_order = 3, pg_flags = 0, pg_pfn = 256\<rparr>"
  "pages (buddy_init 0xFF000 (9 * 4096)) 2 =
     \<lparr>pg_next = None, pg_prev = None, pg_order = 0, pg_flags = 0, pg_pfn = 257\<rparr>"
  "pages (buddy_init 0xFF000 (9 * 4096)) 3 =
     \<lparr>pg_next = None, pg_prev = None, pg_order = 0, pg_flags = 0, pg_pfn = 258\<rparr>"
  "pages (buddy_init 0xFF000 (9 * 4096)) 5 =
     \<lparr>pg_next = None, pg_prev = None, pg_order = 0, pg_flags = 0, pg_pfn = 260\<rparr>"
  by (simp_all add: buddy_init_eval)

text \<open>
  Without that alignment the allocator hands out its own page structures: in a zone of
  three frames at 1 MiB the free block of two frames starts at an odd frame, its "buddy" is
  the frame of the page structures, and the second allocation returns it.
\<close>

theorem buddy_hands_out_page_structures:
  "map_option (\<lambda>(bs, z). (bs, reserved_pages z)) (alloc_run [0, 0] (buddy_init 0x100000 (3 * 4096))) =
     Some ([(0, 1), (0, 0)], 1)"
proof -
  define z0 where "z0 = buddy_init 0x100000 (3 * 4096)"
  show ?thesis unfolding z0_def[symmetric] by (simp add: buddy_eval zone_at_1M[folded z0_def])
qed

text \<open>
  Merging loses the list: \<open>__list_del\<close> does not move the head of the list, so a buddy that
  is the first free block of its order stays on that list although its frames are part of
  the merged block. After a release the allocator gives the same frame to two callers: the
  last two allocations are frame 2 and the four frames from 1 on.
\<close>

theorem buddy_free_hands_out_twice:
  "Option.bind (alloc_run [0, 2] (buddy_init 0xFF000 (9 * 4096))) (\<lambda>(bs, z1).
     Option.bind (buddy_free_pages (Some 1) z1) (\<lambda>z2.
       map_option (\<lambda>(cs, _). (bs, cs)) (alloc_run [0, 2] z2))) =
     Some ([(0, 1), (2, 5)], [(0, 2), (2, 1)])"
proof -
  define z0 where "z0 = buddy_init 0xFF000 (9 * 4096)"
  show ?thesis unfolding z0_def[symmetric] by (simp add: buddy_eval zone_below_1M[folded z0_def])
qed

text \<open>
  Releasing a block whose buddy lies outside the zone reads through the null pointer that
  \<open>pfn_to_page\<close> returned, because the range is checked only afterwards.
\<close>

lemma buddy_free_reads_null:
  "Option.bind (alloc_run [0] (buddy_init 0xFF000 (9 * 4096))) (\<lambda>(bs, z). buddy_free_pages (Some 1) z) = None"
proof -
  define z0 where "z0 = buddy_init 0xFF000 (9 * 4096)"
  show ?thesis unfolding z0_def[symmetric] by (simp add: buddy_eval zone_below_1M[folded z0_def])
qed

end
