(* ===== verification/Slab.thy ===== *)
theory Slab
  imports Buddy Libc_String
begin

unbundle bit_operations_syntax

section \<open>The slab allocator (\<open>arch/x86_64/slab.c\<close>)\<close>

text \<open>
  Objects of one size are cut from blocks of pages. The header of a slab (\<open>slab_t\<close>, 56
  bytes) lies at the end of the block it describes, and free objects hold the link to the
  next free object, so headers and objects share one memory: a function from addresses to
  the 64-bit words there. The words the code touches do not overlap as long as objects have
  at least 8 bytes and lie apart from the header or on multiples of 8. Addresses and words
  are natural numbers, 0 is the null pointer, and a 32-bit field is the low or the high
  half of its word; \<open>slab_t\<close> has \<open>next\<close> at 0, \<open>prev\<close> at 8, \<open>mem\<close> at 16, \<open>obj_size\<close> and \<open>obj_count\<close> at
  24, \<open>free_count\<close> and \<open>inuse\<close> at 32, \<open>free_list\<close> at 40 and \<open>state\<close> at 48. Pages come from the zone of
  the theory \<open>Buddy\<close>. The table of caches is a list, and a pointer to a cache is its index.
  A result \<open>None\<close> is an operation that does not return: a fault of the page allocator or an
  endless walk along a cyclic list.
\<close>

abbreviation (input) SLAB_FULL :: nat where "SLAB_FULL \<equiv> 0"
abbreviation (input) SLAB_PARTIAL :: nat where "SLAB_PARTIAL \<equiv> 1"
abbreviation (input) SLAB_EMPTY :: nat where "SLAB_EMPTY \<equiv> 2"
abbreviation (input) SLAB_MAX_CACHES :: nat where "SLAB_MAX_CACHES \<equiv> 64"
abbreviation (input) KMALLOC_SHIFT_HIGH :: nat where "KMALLOC_SHIFT_HIGH \<equiv> 11"

subsection \<open>Memory and headers\<close>

type_synonym memory = "nat \<Rightarrow> nat"

definition lo32 :: "nat \<Rightarrow> nat" where "lo32 w = w mod 2 ^ 32"
definition hi32 :: "nat \<Rightarrow> nat" where "hi32 w = w div 2 ^ 32 mod 2 ^ 32"
definition set_lo32 :: "nat \<Rightarrow> nat \<Rightarrow> nat" where "set_lo32 w v = w div 2 ^ 32 * 2 ^ 32 + v"

definition s_next :: "memory \<Rightarrow> nat \<Rightarrow> nat" where "s_next m s = m s"
definition s_prev :: "memory \<Rightarrow> nat \<Rightarrow> nat" where "s_prev m s = m (s + 8)"
definition s_mem :: "memory \<Rightarrow> nat \<Rightarrow> nat" where "s_mem m s = m (s + 16)"
definition s_obj_count :: "memory \<Rightarrow> nat \<Rightarrow> nat" where "s_obj_count m s = hi32 (m (s + 24))"
definition s_free_count :: "memory \<Rightarrow> nat \<Rightarrow> nat" where "s_free_count m s = lo32 (m (s + 32))"
definition s_free_list :: "memory \<Rightarrow> nat \<Rightarrow> nat" where "s_free_list m s = m (s + 40)"
definition s_state :: "memory \<Rightarrow> nat \<Rightarrow> nat" where "s_state m s = lo32 (m (s + 48))"

definition set_free_count :: "nat \<Rightarrow> nat \<Rightarrow> memory \<Rightarrow> memory" where
  "set_free_count s v m = m(s + 32 := set_lo32 (m (s + 32)) (v mod 2 ^ 32))"

definition set_state :: "nat \<Rightarrow> nat \<Rightarrow> memory \<Rightarrow> memory" where
  "set_state s v m = m(s + 48 := set_lo32 (m (s + 48)) v)"

record kmem_cache =
  kc_name :: "u8 list"
  kc_obj_size :: nat
  kc_align :: nat
  kc_objs_per_slab :: nat
  kc_slab_order :: nat
  full_slabs :: nat
  partial_slabs :: nat
  empty_slabs :: nat
  total_objs :: u64
  free_objs :: u64

datatype slab_list = Full | Partial | Empty

fun list_head :: "slab_list \<Rightarrow> kmem_cache \<Rightarrow> nat" where
  "list_head Full c = full_slabs c"
| "list_head Partial c = partial_slabs c"
| "list_head Empty c = empty_slabs c"

fun set_head :: "slab_list \<Rightarrow> nat \<Rightarrow> kmem_cache \<Rightarrow> kmem_cache" where
  "set_head Full s c = c\<lparr>full_slabs := s\<rparr>"
| "set_head Partial s c = c\<lparr>partial_slabs := s\<rparr>"
| "set_head Empty s c = c\<lparr>empty_slabs := s\<rparr>"

record slab_state =
  ss_mem :: memory
  ss_zone :: buddy_zone
  cache_table :: "kmem_cache list"
  kmalloc_caches :: "nat \<Rightarrow> nat option"

subsection \<open>Slabs\<close>

fun slab_order_loop :: "nat \<Rightarrow> nat \<Rightarrow> nat \<Rightarrow> nat" where
  "slab_order_loop 0 need order = order"
| "slab_order_loop (Suc k) need order =
     (if 4096 * 2 ^ order < need then slab_order_loop k need (Suc order) else order)"

definition slab_order :: "nat \<Rightarrow> nat \<Rightarrow> nat" where
  "slab_order obj_size objs_per_slab = slab_order_loop 11 (obj_size * objs_per_slab mod 2 ^ 32) 0"

definition free_slab_pages :: "nat \<Rightarrow> buddy_zone \<Rightarrow> buddy_zone option" where
  "free_slab_pages a z = (if a = 0 then Some z
     else case virt_to_page z a of None \<Rightarrow> Some z | Some p \<Rightarrow> buddy_free_pages (Some p) z)"

text \<open>The first \<open>n\<close> turns of the loop that links the free objects, with the last object linked.\<close>

fun chain_loop :: "nat \<Rightarrow> nat \<Rightarrow> nat \<Rightarrow> memory \<Rightarrow> memory \<times> nat" where
  "chain_loop a obj_size 0 m = (m, 0)"
| "chain_loop a obj_size (Suc i) m =
     (let (m', current) = chain_loop a obj_size i m in (m'(a + i * obj_size := current), a + i * obj_size))"

text \<open>The header and the chain of free objects of a new slab in the block at \<open>a\<close>.\<close>

definition slab_format :: "kmem_cache \<Rightarrow> nat \<Rightarrow> memory \<Rightarrow> nat \<times> memory" where
  "slab_format c a m =
     (let slab_size = 4096 * 2 ^ kc_slab_order c;
          s = a + slab_size - 56;
          m1 = m(s := 0, s + 8 := 0, s + 16 := 0, s + 24 := 0, s + 32 := 0, s + 40 := 0, s + 48 := 0);
          m2 = m1(s + 16 := a, s + 24 := kc_obj_size c + 2 ^ 32 * kc_objs_per_slab c,
                  s + 32 := kc_objs_per_slab c, s + 48 := SLAB_EMPTY);
          (m3, current) = chain_loop a (kc_obj_size c) (kc_objs_per_slab c) m2
      in (s, m3(s + 40 := current)))"

definition slab_create :: "kmem_cache \<Rightarrow> memory \<Rightarrow> buddy_zone \<Rightarrow> (nat \<times> memory \<times> buddy_zone) option" where
  "slab_create c m z = Option.bind (alloc_pages_virt (kc_slab_order c) z) (\<lambda>(a, z').
     if a = 0 then Some (0, m, z')
     else let (s, m') = slab_format c a m in Some (s, m', z'))"

definition slab_add :: "slab_list \<Rightarrow> nat \<Rightarrow> memory \<times> kmem_cache \<Rightarrow> memory \<times> kmem_cache" where
  "slab_add l s = (\<lambda>(m, c).
     let m1 = m(s := list_head l c, s + 8 := 0);
         m2 = (if list_head l c \<noteq> 0 then m1(list_head l c + 8 := s) else m1)
     in (m2, set_head l s c))"

definition slab_remove :: "slab_list \<Rightarrow> nat \<Rightarrow> memory \<times> kmem_cache \<Rightarrow> memory \<times> kmem_cache" where
  "slab_remove l s = (\<lambda>(m, c).
     let (m1, c1) = (if s_prev m s \<noteq> 0 then (m(s_prev m s := s_next m s), c)
                     else (m, set_head l (s_next m s) c));
         m2 = (if s_next m1 s \<noteq> 0 then m1(s_next m1 s + 8 := s_prev m1 s) else m1)
     in (m2(s := 0, s + 8 := 0), c1))"

definition slab_rehome :: "nat \<Rightarrow> memory \<times> kmem_cache \<Rightarrow> memory \<times> kmem_cache" where
  "slab_rehome s = (\<lambda>(m, c).
     let from' = (if s_state m s = SLAB_FULL then Full else if s_state m s = SLAB_PARTIAL then Partial else Empty);
         (m1, to') = (if s_free_count m s = 0 then (set_state s SLAB_FULL m, Full)
                      else if s_free_count m s = s_obj_count m s then (set_state s SLAB_EMPTY m, Empty)
                      else (set_state s SLAB_PARTIAL m, Partial))
     in if from' \<noteq> to' then slab_add to' s (slab_remove from' s (m1, c)) else (m1, c))"

subsection \<open>Caches\<close>

text \<open>The decimal digits of a number, last one first, as the \<open>do\<close> loop of \<open>slab_init\<close> leaves them.\<close>

function digits :: "nat \<Rightarrow> u8 list" where
  "digits n = of_nat (48 + n mod 10) # (if 0 < n div 10 then digits (n div 10) else [])"
  by pat_completeness auto
termination by (relation "measure id") auto

declare digits.simps [simp del]

definition cache_name :: "nat \<Rightarrow> u8 list" where
  "cache_name sz = [107, 109, 95] @ take 28 (rev (digits sz)) @ [0]"

definition kmem_cache_create ::
  "u8 list option \<Rightarrow> u32 \<Rightarrow> u32 \<Rightarrow> slab_state \<Rightarrow> (nat option \<times> slab_state) option" where
  "kmem_cache_create name sz align st =
     (if sz = 0 \<or> 4096 * 2 ^ BUDDY_MAX_ORDER < sz then Some (None, st)
      else let align = (if align = 0 then 8 else align);
               osz = (sz + align - 1) AND NOT (align - 1);
               osz = unat (if osz < 8 then 8 else osz)
           in if SLAB_MAX_CACHES \<le> length (cache_table st) then Some (None, st)
              else Option.bind (case name of None \<Rightarrow> Some (replicate 32 0)
                                | Some n \<Rightarrow> bounded_copy (replicate 32 0) 32 n) (\<lambda>nm.
                let objs = (if 4096 * 2 div osz < 1 then 1 else 4096 * 2 div osz)
                in Some (Some (length (cache_table st)),
                     st\<lparr>cache_table := cache_table st @
                       [\<lparr>kc_name = nm, kc_obj_size = osz, kc_align = unat align, kc_objs_per_slab = objs,
                         kc_slab_order = slab_order osz objs, full_slabs = 0, partial_slabs = 0,
                         empty_slabs = 0, total_objs = 0, free_objs = 0\<rparr>]\<rparr>)))"

fun slab_init_loop :: "nat list \<Rightarrow> slab_state \<Rightarrow> slab_state option" where
  "slab_init_loop [] st = Some st"
| "slab_init_loop (i # is) st =
     Option.bind (kmem_cache_create (Some (cache_name (2 ^ i))) (2 ^ i) (2 ^ i) st) (\<lambda>(p, st').
       slab_init_loop is (st'\<lparr>kmalloc_caches := (kmalloc_caches st')(i := p)\<rparr>))"

definition slab_init :: "slab_state \<Rightarrow> slab_state option" where
  "slab_init st = slab_init_loop [3..<KMALLOC_SHIFT_HIGH + 1] (st\<lparr>cache_table := []\<rparr>)"

partial_function (option) destroy_list :: "memory \<Rightarrow> nat \<Rightarrow> buddy_zone \<Rightarrow> buddy_zone option" where
  "destroy_list m s z = (if s = 0 then Some z
     else Option.bind (free_slab_pages (s_mem m s) z) (\<lambda>z'. destroy_list m (s_next m s) z'))"

definition kmem_cache_destroy :: "nat option \<Rightarrow> slab_state \<Rightarrow> slab_state option" where
  "kmem_cache_destroy cp st = (case cp of None \<Rightarrow> Some st
     | Some k \<Rightarrow>
         let c = cache_table st ! k; m = ss_mem st in
         Option.bind (destroy_list m (full_slabs c) (ss_zone st)) (\<lambda>z1.
         Option.bind (destroy_list m (partial_slabs c) z1) (\<lambda>z2.
         Option.bind (destroy_list m (empty_slabs c) z2) (\<lambda>z3.
           Some (st\<lparr>ss_zone := z3, cache_table := (cache_table st)[k :=
             c\<lparr>full_slabs := 0, partial_slabs := 0, empty_slabs := 0\<rparr>]\<rparr>)))))"

text \<open>The slab an allocation is served from, with the block it may take from the page allocator.\<close>

definition alloc_slab :: "memory \<Rightarrow> kmem_cache \<Rightarrow> buddy_zone \<Rightarrow> (nat \<times> memory \<times> kmem_cache \<times> buddy_zone) option" where
  "alloc_slab m c z =
     (if partial_slabs c \<noteq> 0 then Some (partial_slabs c, m, c, z)
      else if empty_slabs c \<noteq> 0 then
        let s = empty_slabs c; (m1, c1) = slab_add Partial s (slab_remove Empty s (m, c))
        in Some (s, m1, c1, z)
      else Option.bind (slab_create c m z) (\<lambda>(s, m1, z1).
        if s = 0 then Some (0, m1, c, z1)
        else let (m2, c2) = slab_add Partial s (m1, c) in Some (s, m2, c2, z1)))"

definition kmem_cache_alloc :: "nat option \<Rightarrow> slab_state \<Rightarrow> (nat \<times> slab_state) option" where
  "kmem_cache_alloc cp st = (case cp of None \<Rightarrow> Some (0, st)
     | Some k \<Rightarrow>
         Option.bind (alloc_slab (ss_mem st) (cache_table st ! k) (ss_zone st)) (\<lambda>(s, m, c, z).
         if s = 0 then Some (0, st\<lparr>ss_mem := m, ss_zone := z, cache_table := (cache_table st)[k := c]\<rparr>)
         else
           let obj = s_free_list m s;
               (m1, c1) = (if obj \<noteq> 0 then
                   let m' = m(s + 40 := m obj);
                       m'' = set_free_count s (s_free_count m' s + 2 ^ 32 - 1) m';
                       c' = c\<lparr>total_objs := total_objs c + 1, free_objs := free_objs c - 1\<rparr>
                   in slab_rehome s (m'', c')
                 else (m, c))
           in Some (obj, st\<lparr>ss_mem := m1, ss_zone := z, cache_table := (cache_table st)[k := c1]\<rparr>)))"

partial_function (option) find_slab :: "memory \<Rightarrow> nat \<Rightarrow> nat \<Rightarrow> nat \<Rightarrow> nat option" where
  "find_slab m order obj s = (if s = 0 then Some 0
     else if s_mem m s \<le> obj \<and> obj < s_mem m s + 4096 * 2 ^ order then Some s
     else find_slab m order obj (s_next m s))"

definition slab_of :: "memory \<Rightarrow> kmem_cache \<Rightarrow> nat \<Rightarrow> nat option" where
  "slab_of m c obj =
     Option.bind (find_slab m (kc_slab_order c) obj (full_slabs c)) (\<lambda>s1. if s1 \<noteq> 0 then Some s1 else
     Option.bind (find_slab m (kc_slab_order c) obj (partial_slabs c)) (\<lambda>s2. if s2 \<noteq> 0 then Some s2 else
     find_slab m (kc_slab_order c) obj (empty_slabs c)))"

definition kmem_cache_free :: "nat option \<Rightarrow> nat \<Rightarrow> slab_state \<Rightarrow> slab_state option" where
  "kmem_cache_free cp obj st = (case cp of None \<Rightarrow> Some st
     | Some k \<Rightarrow>
         if obj = 0 then Some st
         else let c = cache_table st ! k; m = ss_mem st in
           Option.bind (slab_of m c obj) (\<lambda>s.
             if s = 0 then Some st
             else let m1 = m(obj := s_free_list m s);
                      m2 = m1(s + 40 := obj);
                      m3 = set_free_count s (s_free_count m2 s + 1) m2;
                      c' = c\<lparr>total_objs := total_objs c - 1, free_objs := free_objs c + 1\<rparr>;
                      (m4, c4) = slab_rehome s (m3, c')
                  in Some (st\<lparr>ss_mem := m4, cache_table := (cache_table st)[k := c4]\<rparr>)))"

subsection \<open>General allocation\<close>

fun kmalloc_index :: "nat \<Rightarrow> nat \<Rightarrow> nat \<Rightarrow> nat" where
  "kmalloc_index 0 sz idx = idx"
| "kmalloc_index (Suc k) sz idx = (if 2 ^ idx < sz then kmalloc_index k sz (Suc idx) else idx)"

definition kmalloc :: "nat \<Rightarrow> slab_state \<Rightarrow> (nat \<times> slab_state) option" where
  "kmalloc sz st =
     (if sz = 0 then Some (0, st)
      else if 2 ^ KMALLOC_SHIFT_HIGH < sz then
        Option.bind (alloc_pages_virt (slab_order_loop 11 sz 0) (ss_zone st)) (\<lambda>(a, z).
          Some (a, st\<lparr>ss_zone := z\<rparr>))
      else (case kmalloc_caches st (kmalloc_index 8 sz 3) of
              Some k \<Rightarrow> kmem_cache_alloc (Some k) st
            | None \<Rightarrow> Some (0, st)))"

text \<open>\<open>memset\<close> on whole words: the last one is cleared up to the size only.\<close>

definition zero_bytes :: "nat \<Rightarrow> nat \<Rightarrow> memory \<Rightarrow> memory" where
  "zero_bytes a n m = (\<lambda>x. if a \<le> x \<and> x + 8 \<le> a + n then 0
     else if a \<le> x \<and> x < a + n then m x div 2 ^ (8 * (a + n - x)) * 2 ^ (8 * (a + n - x)) else m x)"

definition kzalloc :: "nat \<Rightarrow> slab_state \<Rightarrow> (nat \<times> slab_state) option" where
  "kzalloc sz st = Option.bind (kmalloc sz st) (\<lambda>(p, st').
     Some (p, if p \<noteq> 0 then st'\<lparr>ss_mem := zero_bytes p sz (ss_mem st')\<rparr> else st'))"

fun kfree_scan :: "nat \<Rightarrow> nat list \<Rightarrow> slab_state \<Rightarrow> slab_state option" where
  "kfree_scan p [] st = Some st"
| "kfree_scan p (k # ks) st = Option.bind (slab_of (ss_mem st) (cache_table st ! k) p) (\<lambda>s.
     if s \<noteq> 0 then kmem_cache_free (Some k) p st else kfree_scan p ks st)"

definition kfree :: "nat \<Rightarrow> slab_state \<Rightarrow> slab_state option" where
  "kfree p st = (if p = 0 then Some st
     else case virt_to_page (ss_zone st) p of None \<Rightarrow> Some st
       | Some pg \<Rightarrow>
           if pg_flags (pages (ss_zone st) pg) AND PAGE_FLAG_SLAB \<noteq> 0
           then kfree_scan p [0..<length (cache_table st)] st
           else map_option (\<lambda>z. st\<lparr>ss_zone := z\<rparr>) (free_pages_virt p (ss_zone st)))"

fun ksize_scan :: "nat \<Rightarrow> nat list \<Rightarrow> slab_state \<Rightarrow> nat option option" where
  "ksize_scan p [] st = Some None"
| "ksize_scan p (k # ks) st = Option.bind (slab_of (ss_mem st) (cache_table st ! k) p) (\<lambda>s.
     if s \<noteq> 0 then Some (Some (kc_obj_size (cache_table st ! k))) else ksize_scan p ks st)"

definition ksize :: "nat \<Rightarrow> slab_state \<Rightarrow> nat option" where
  "ksize p st = (if p = 0 then Some 0
     else case virt_to_page (ss_zone st) p of None \<Rightarrow> Some 0
       | Some pg \<Rightarrow>
           Option.bind (if pg_flags (pages (ss_zone st) pg) AND PAGE_FLAG_SLAB \<noteq> 0
                        then ksize_scan p [0..<length (cache_table st)] st else Some None) (\<lambda>r.
             case r of Some n \<Rightarrow> Some n
             | None \<Rightarrow> Some (4096 * 2 ^ min (pg_order (pages (ss_zone st) pg)) BUDDY_MAX_ORDER)))"

subsection \<open>A new slab\<close>

lemma slab_order_loop_numeral:
  "slab_order_loop (numeral k) need order =
     (if 4096 * 2 ^ order < need then slab_order_loop (pred_numeral k) need (Suc order) else order)"
  by (simp add: numeral_eq_Suc)

lemma chain_loop_current: "snd (chain_loop a os n m) = (if n = 0 then 0 else a + (n - 1) * os)"
  by (cases n) (simp_all add: split_beta)

lemma chain_loop_object:
  "0 < os \<Longrightarrow> i < n \<Longrightarrow> fst (chain_loop a os n m) (a + i * os) = (if i = 0 then 0 else a + (i - 1) * os)"
  by (induction n) (auto simp: split_beta chain_loop_current less_Suc_eq)

lemma chain_loop_other: "\<forall>i < n. x \<noteq> a + i * os \<Longrightarrow> fst (chain_loop a os n m) x = m x"
  by (induction n) (auto simp: split_beta)

lemma half_words:
  "v < 2 ^ 32 \<Longrightarrow> lo32 (set_lo32 w v) = v" "v < 2 ^ 32 \<Longrightarrow> lo32 v = v"
  "v < 2 ^ 32 \<Longrightarrow> n < 2 ^ 32 \<Longrightarrow> hi32 (v + 4294967296 * n) = n"
  by (simp_all add: lo32_def hi32_def set_lo32_def)

text \<open>
  A slab in service: it is the head of the partial list, its free objects are \<open>xs\<close>, chained
  through their first words and apart from the header, and while there are any the slab is
  its own neighbour in the list.
\<close>

fun free_chain :: "memory \<Rightarrow> nat \<Rightarrow> nat list \<Rightarrow> bool" where
  "free_chain m s [] \<longleftrightarrow> True"
| "free_chain m s (x # xs) \<longleftrightarrow> 0 < x \<and> x < s \<and> m x = (if xs = [] then 0 else hd xs) \<and> free_chain m s xs"

definition serving :: "memory \<Rightarrow> kmem_cache \<Rightarrow> nat \<Rightarrow> nat list \<Rightarrow> bool" where
  "serving m c s xs \<longleftrightarrow> partial_slabs c = s \<and> 0 < s \<and> free_chain m s xs \<and>
     s_free_list m s = (if xs = [] then 0 else hd xs) \<and>
     s_free_count m s = length xs \<and> length xs < s_obj_count m s \<and> s_obj_count m s < 2 ^ 32 \<and>
     (xs \<noteq> [] \<longrightarrow> s_state m s = SLAB_PARTIAL \<and> m s = s \<and> m (s + 8) = s \<and> full_slabs c = 0)"

lemma free_chain_cong:
  "(\<And>x. x < s \<Longrightarrow> m' x = m x) \<Longrightarrow> free_chain m' s xs = free_chain m s xs"
  by (induction xs) auto

lemmas header_defs = s_next_def s_prev_def s_mem_def s_obj_count_def s_free_count_def s_free_list_def s_state_def
  set_free_count_def set_state_def

lemma serving_alloc:
  assumes "serving (ss_mem st) (cache_table st ! k) s xs" "k < length (cache_table st)"
  shows "\<exists>st'. kmem_cache_alloc (Some k) st = Some (if xs = [] then 0 else hd xs, st') \<and>
     serving (ss_mem st') (cache_table st' ! k) s (tl xs) \<and> length (cache_table st') = length (cache_table st)"
proof (cases xs)
  case Nil
  then show ?thesis
    using assms by (auto simp: kmem_cache_alloc_def alloc_slab_def serving_def)
next
  case (Cons x ys)
  define m where "m = ss_mem st"
  define c where "c = cache_table st ! k"
  note sv = assms(1)[folded m_def c_def, unfolded serving_def Cons, simplified]
  have x: "0 < x" "x < s" "m x = (if ys = [] then 0 else hd ys)" "free_chain m s ys" using sv by auto
  define m1 where "m1 = set_free_count s (length ys) (m(s + 40 := m x))"
  define c1 where "c1 = c\<lparr>total_objs := total_objs c + 1, free_objs := free_objs c - 1\<rparr>"
  have len: "length ys < 2 ^ 32" using sv by simp
  have fcm: "s_free_count (m(s + 40 := m x)) s = Suc (length ys)" using sv by (simp add: header_defs)
  have fc: "set_free_count s (s_free_count (m(s + 40 := m x)) s + 2 ^ 32 - 1) (m(s + 40 := m x)) = m1"
    unfolding fcm m1_def by (simp add: set_free_count_def)
  have r: "kmem_cache_alloc (Some k) st = Some (x,
      st\<lparr>ss_mem := fst (slab_rehome s (m1, c1)), cache_table := (cache_table st)[k := snd (slab_rehome s (m1, c1))]\<rparr>)"
    using sv x(1) fc
    by (simp add: kmem_cache_alloc_def alloc_slab_def Let_def split_beta flip: m_def c_def c1_def)
  have m1: "s_state m1 s = SLAB_PARTIAL" "s_free_count m1 s = length ys" "s_obj_count m1 s = s_obj_count m s"
      "m1 s = s" "m1 (s + 8) = s" "s_free_list m1 s = (if ys = [] then 0 else hd ys)" "free_chain m1 s ys"
    using sv x(3) len free_chain_cong[of s m1 m ys] by (simp_all add: m1_def header_defs half_words)
  have "serving (fst (slab_rehome s (m1, c1))) (snd (slab_rehome s (m1, c1))) s ys"
  proof (cases "ys = []")
    case True
    have "slab_rehome s (m1, c1) = slab_add Full s (slab_remove Partial s (set_state s SLAB_FULL m1, c1))"
      using m1(1,2) True by (simp add: slab_rehome_def Let_def)
    then show ?thesis
      using True sv m1 by (simp add: slab_add_def slab_remove_def serving_def Let_def header_defs c1_def)
  next
    case False
    then have "slab_rehome s (m1, c1) = (set_state s SLAB_PARTIAL m1, c1)"
      using m1(1-3) sv by (simp add: slab_rehome_def Let_def)
    moreover have "free_chain (set_state s SLAB_PARTIAL m1) s ys"
      using m1(7) free_chain_cong[of s "set_state s SLAB_PARTIAL m1" m1 ys] by (simp add: set_state_def)
    ultimately show ?thesis
      using False sv m1 by (simp add: serving_def header_defs half_words c1_def)
  qed
  then show ?thesis
    using r assms(2) Cons by simp
qed

subsection \<open>The first slab of a cache\<close>

definition objects :: "nat \<Rightarrow> nat \<Rightarrow> nat \<Rightarrow> nat list" where
  "objects a os n = map (\<lambda>i. a + i * os) (rev [0..<n])"

lemma objects_simps [simp]: "objects a os 0 = []" "objects a os (Suc n) = (a + n * os) # objects a os n"
  "length (objects a os n) = n" "objects a os n = [] \<longleftrightarrow> n = 0"
  by (simp_all add: objects_def)

lemma objects_chain:
  assumes "\<And>i. i < n \<Longrightarrow> m (a + i * os) = (if i = 0 then 0 else a + (i - 1) * os) \<and> 0 < a + i * os \<and> a + i * os < s"
  shows "free_chain m s (objects a os n)"
  using assms
proof (induction n)
  case (Suc n)
  have "free_chain m s (objects a os n)" using Suc by simp
  moreover have "n \<noteq> 0 \<Longrightarrow> hd (objects a os n) = a + (n - 1) * os" by (cases n) simp_all
  ultimately show ?case using Suc.prems[of n] by auto
qed simp

text \<open>The cache leaves room for the header behind the objects of a slab.\<close>

definition roomy :: "kmem_cache \<Rightarrow> bool" where
  "roomy c \<longleftrightarrow> 8 \<le> kc_obj_size c \<and> kc_obj_size c < 2 ^ 32 \<and> 0 < kc_objs_per_slab c \<and> kc_objs_per_slab c < 2 ^ 32 \<and>
     kc_objs_per_slab c * kc_obj_size c + 56 \<le> 4096 * 2 ^ kc_slab_order c"

definition fresh :: "kmem_cache \<Rightarrow> bool" where
  "fresh c \<longleftrightarrow> full_slabs c = 0 \<and> partial_slabs c = 0 \<and> empty_slabs c = 0"

lemma slab_format_words:
  assumes "roomy c" "0 < a"
  defines "s \<equiv> a + 4096 * 2 ^ kc_slab_order c - 56" and "n \<equiv> kc_objs_per_slab c" and "os \<equiv> kc_obj_size c"
  shows "\<exists>m'. slab_format c a m = (s, m') \<and> m' (s + 16) = a \<and> m' (s + 24) = os + 2 ^ 32 * n \<and> m' (s + 32) = n \<and>
     m' (s + 40) = a + (n - 1) * os \<and> m' (s + 48) = SLAB_EMPTY \<and>
     (\<forall>i < n. m' (a + i * os) = (if i = 0 then 0 else a + (i - 1) * os) \<and> 0 < a + i * os \<and> a + i * os < s)"
proof -
  have lt: "a + i * os < s" if "i < n" for i
  proof -
    have "Suc i * os \<le> n * os" using that by (intro mult_le_mono1) simp
    moreover have "n * os + 56 \<le> 4096 * 2 ^ kc_slab_order c" "0 < os"
      using assms(1) by (simp_all add: roomy_def n_def os_def)
    ultimately show ?thesis by (simp add: s_def)
  qed
  define m2 where "m2 = (m(s := 0, s + 8 := 0, s + 16 := 0, s + 24 := 0, s + 32 := 0, s + 40 := 0, s + 48 := 0))
      (s + 16 := a, s + 24 := os + 2 ^ 32 * n, s + 32 := n, s + 48 := SLAB_EMPTY)"
  have m2v: "m2 (s + 16) = a" "m2 (s + 24) = os + 2 ^ 32 * n" "m2 (s + 32) = n" "m2 (s + 48) = SLAB_EMPTY"
    by (simp_all add: m2_def)
  define m3 where "m3 = fst (chain_loop a os n m2)"
  have pos: "0 < os" "0 < n" using assms(1) by (simp_all add: roomy_def os_def n_def)
  have "slab_format c a m = (s, m3(s + 40 := snd (chain_loop a os n m2)))"
    by (simp add: slab_format_def Let_def split_beta s_def n_def os_def m2_def m3_def)
  then have f: "slab_format c a m = (s, m3(s + 40 := a + (n - 1) * os))"
    using pos(2) by (simp add: chain_loop_current)
  have ne: "s + d \<noteq> a + i * os" if "i < n" for i d
    using lt[OF that] by simp
  then have hd: "m3 (s + d) = m2 (s + d)" for d
    unfolding m3_def by (intro chain_loop_other allI impI)
  have ob: "m3 (a + i * os) = (if i = 0 then 0 else a + (i - 1) * os)" if "i < n" for i
    unfolding m3_def by (rule chain_loop_object[OF pos(1) that])
  show ?thesis
    unfolding f using ob lt assms(2) ne[of _ 40, symmetric] by (intro exI[of _ "m3(s + 40 := a + (n - 1) * os)"]) (simp add: hd m2v)
qed

lemma first_alloc:
  assumes c: "c = cache_table st ! k" "k < length (cache_table st)" "roomy c" "fresh c"
    and al: "alloc_pages_virt (kc_slab_order c) (ss_zone st) = Some (a, z)" "0 < a"
  defines "s \<equiv> a + 4096 * 2 ^ kc_slab_order c - 56" and "n \<equiv> kc_objs_per_slab c" and "os \<equiv> kc_obj_size c"
  shows "\<exists>st'. kmem_cache_alloc (Some k) st = Some (a + (n - 1) * os, st') \<and>
     serving (ss_mem st') (cache_table st' ! k) s (objects a os (n - 1)) \<and>
     length (cache_table st') = length (cache_table st)"
proof -
  obtain m0 where m0: "slab_format c a (ss_mem st) = (s, m0)" "m0 (s + 16) = a" "m0 (s + 24) = os + 2 ^ 32 * n"
      "m0 (s + 32) = n" "m0 (s + 40) = a + (n - 1) * os" "m0 (s + 48) = SLAB_EMPTY"
      "\<And>i. i < n \<Longrightarrow> m0 (a + i * os) = (if i = 0 then 0 else a + (i - 1) * os) \<and> 0 < a + i * os \<and> a + i * os < s"
    using slab_format_words[OF c(3) al(2), of "ss_mem st"] unfolding s_def n_def os_def by blast
  have b: "0 < os" "os < 2 ^ 32" "0 < n" "n < 2 ^ 32" using c(3) by (simp_all add: roomy_def n_def os_def)
  have n1: "n - 1 \<noteq> n" using b(3) by simp
  define x where "x = a + (n - 1) * os"
  have x: "m0 x = (if n - 1 = 0 then 0 else a + (n - 1 - 1) * os)" "0 < x" "x < s"
    using m0(7)[of "n - 1"] b(3) by (simp_all add: x_def)
  have s0: "0 < s" using x(2,3) by simp
  define m1 where "m1 = m0(s := 0, s + 8 := 0)"
  define c1 where "c1 = c\<lparr>partial_slabs := s\<rparr>"
  define m2 where "m2 = set_free_count s (s_free_count (m1(s + 40 := m1 x)) s + 2 ^ 32 - 1) (m1(s + 40 := m1 x))"
  define c2 where "c2 = c1\<lparr>total_objs := total_objs c1 + 1, free_objs := free_objs c1 - 1\<rparr>"
  have "alloc_slab (ss_mem st) c (ss_zone st) = Some (s, m1, c1, z)"
    using c(4) al m0(1) s0
    by (simp add: alloc_slab_def slab_create_def slab_add_def fresh_def m1_def c1_def Let_def)
  moreover have "s_free_list m1 s = x" using m0(5) by (simp add: m1_def s_free_list_def x_def)
  ultimately have r: "kmem_cache_alloc (Some k) st = Some (x, st\<lparr>ss_mem := fst (slab_rehome s (m2, c2)),
      ss_zone := z, cache_table := (cache_table st)[k := snd (slab_rehome s (m2, c2))]\<rparr>)"
    using s0 x(2) c(1) by (simp add: kmem_cache_alloc_def Let_def split_beta m2_def c2_def)
  have "(4294967295 + n) mod 4294967296 = ((n - 1) + 4294967296) mod 4294967296"
    by (rule arg_cong[of _ _ "\<lambda>v. v mod 4294967296"]) (use b(3) in simp)
  also have "\<dots> = n - Suc 0" using b(4) by simp
  finally have dec: "(4294967295 + n) mod 4294967296 = n - Suc 0" .
  have m2: "m2 s = 0" "m2 (s + 8) = 0" "s_obj_count m2 s = n" "s_free_count m2 s = n - 1" "s_state m2 s = SLAB_EMPTY"
      "m2 (s + 40) = m0 x" "\<And>y. y < s \<Longrightarrow> m2 y = m0 y"
    using m0 b x(3) dec by (simp_all add: m2_def m1_def header_defs half_words)
  have ch: "free_chain m2 s (objects a os (n - 1))"
    using m0(7) m2(7) by (intro objects_chain) auto
  define to' where "to' = (if n - 1 = 0 then Full else Partial)"
  define m3 where "m3 = set_state s (if n - 1 = 0 then SLAB_FULL else SLAB_PARTIAL) m2"
  have "slab_rehome s (m2, c2) = slab_add to' s (slab_remove Empty s (m3, c2))"
    using m2(3-5) n1 by (simp add: slab_rehome_def Let_def to'_def m3_def)
  moreover have "serving (fst (slab_add to' s (slab_remove Empty s (m3, c2)))) (snd (slab_add to' s (slab_remove Empty s (m3, c2))))
      s (objects a os (n - 1))"
  proof -
    have m3: "m3 s = 0" "m3 (s + 8) = 0" "s_obj_count m3 s = n" "s_free_count m3 s = n - 1"
        "s_state m3 s = (if n - 1 = 0 then SLAB_FULL else SLAB_PARTIAL)" "m3 (s + 40) = m0 x" "\<And>y. y < s \<Longrightarrow> m3 y = m2 y"
      using m2 by (simp_all add: m3_def header_defs half_words)
    have rm: "slab_remove Empty s (m3, c2) = (m3(s := 0, s + 8 := 0), c2\<lparr>empty_slabs := 0\<rparr>)"
      using m3(1,2) by (simp add: slab_remove_def s_prev_def s_next_def)
    have hd: "n - 1 \<noteq> 0 \<Longrightarrow> hd (objects a os (n - 1)) = a + (n - 1 - 1) * os" by (cases "n - 1") simp_all
    show ?thesis
    proof (cases "n - 1 = 0")
      case True
      then show ?thesis
        unfolding rm using m3 x(1) s0 c(4) b(3,4)
        by (simp add: to'_def slab_add_def serving_def fresh_def c2_def c1_def header_defs)
    next
      case False
      have "free_chain (m3(s := s, s + 8 := s)) s (objects a os (n - 1))"
        using ch free_chain_cong[of s "m3(s := s, s + 8 := s)" m2 "objects a os (n - 1)"] m3(7) by simp
      moreover have "slab_add to' s (slab_remove Empty s (m3, c2)) =
          (m3(s := s, s + 8 := s), c2\<lparr>empty_slabs := 0, partial_slabs := s\<rparr>)"
        unfolding rm using False s0 by (simp add: to'_def slab_add_def c2_def c1_def Let_def fun_upd_twist)
      ultimately show ?thesis
        using False m3 x(1) hd s0 c(4) b(3,4) by (simp add: serving_def fresh_def c2_def c1_def header_defs)
    qed
  qed
  ultimately show ?thesis
    using r c(2) by (simp add: x_def)
qed

subsection \<open>A cache serves one slab only\<close>

fun cache_run :: "nat \<Rightarrow> nat \<Rightarrow> slab_state \<Rightarrow> (nat list \<times> slab_state) option" where
  "cache_run k 0 st = Some ([], st)"
| "cache_run k (Suc N) st = Option.bind (kmem_cache_alloc (Some k) st) (\<lambda>(p, st1).
     Option.bind (cache_run k N st1) (\<lambda>(ps, st2). Some (p # ps, st2)))"

lemma take_zeros: "j \<le> Suc N \<Longrightarrow> take j (0 # replicate N 0) = replicate j 0"
  by (metis min_absorb1 replicate_Suc take_replicate)

lemma serving_run:
  assumes "serving (ss_mem st) (cache_table st ! k) s xs" "k < length (cache_table st)"
  shows "\<exists>st'. cache_run k N st = Some (take N (xs @ replicate N 0), st')"
  using assms
proof (induction N arbitrary: st xs)
  case (Suc N)
  obtain st1 where st1: "kmem_cache_alloc (Some k) st = Some (if xs = [] then 0 else hd xs, st1)"
      "serving (ss_mem st1) (cache_table st1 ! k) s (tl xs)" "length (cache_table st1) = length (cache_table st)"
    using serving_alloc[OF Suc.prems] by blast
  from Suc.IH[OF st1(2)] st1(3) Suc.prems(2)
  obtain st2 where "cache_run k N st1 = Some (take N (tl xs @ replicate N 0), st2)" by auto
  then show ?case using st1(1) by (cases xs) (simp_all add: take_zeros)
qed simp

text \<open>
  A cache serves one slab only. When the objects leave room for the header, the first
  allocations from a fresh cache hand out every object of its first slab exactly once,
  highest address first; from then on the cache answers with a null pointer for ever, since
  the full slab stays the head of the partial list, although the page allocator is never
  asked again.
\<close>

theorem cache_serves_one_slab:
  assumes "k < length (cache_table st)" "roomy (cache_table st ! k)" "fresh (cache_table st ! k)"
    and "alloc_pages_virt (kc_slab_order (cache_table st ! k)) (ss_zone st) = Some (a, z)" "0 < a"
  shows "\<exists>st'. cache_run k N st =
     Some (take N (objects a (kc_obj_size (cache_table st ! k)) (kc_objs_per_slab (cache_table st ! k)) @ replicate N 0), st')"
proof (cases N)
  case (Suc M)
  let ?n = "kc_objs_per_slab (cache_table st ! k)" and ?os = "kc_obj_size (cache_table st ! k)"
  have n: "?n = Suc (?n - 1)" using assms(2) by (simp add: roomy_def)
  obtain st1 s where st1: "kmem_cache_alloc (Some k) st = Some (a + (?n - 1) * ?os, st1)"
      "serving (ss_mem st1) (cache_table st1 ! k) s (objects a ?os (?n - 1))" "length (cache_table st1) = length (cache_table st)"
    using first_alloc[OF refl assms] by blast
  obtain st2 where "cache_run k M st1 = Some (take M (objects a ?os (?n - 1) @ replicate M 0), st2)"
    using serving_run[OF st1(2), of M] st1(3) assms(1) by auto
  moreover have "objects a ?os ?n = (a + (?n - 1) * ?os) # objects a ?os (?n - 1)"
    using n by (metis objects_simps(2))
  ultimately show ?thesis using st1(1) Suc by (simp add: take_zeros)
qed simp

lemma first_block_at_1M:
  "\<exists>z. alloc_pages_virt 1 (buddy_init 0xFF000 (9 * 4096)) = Some (0x100000, z) \<and>
     base_pfn z = 255 \<and> end_pfn z = 264 \<and> pg_flags (pages z 2) = 0"
proof -
  define z0 where "z0 = buddy_init 0xFF000 (9 * 4096)"
  show ?thesis unfolding z0_def[symmetric]
    by (simp add: alloc_pages_virt_def page_to_virt_def buddy_eval zone_below_1M[folded z0_def])
qed

theorem cache_serves_one_slab_witness:
  "\<exists>st'. Option.bind (kmem_cache_create None 1000 8
        \<lparr>ss_mem = (\<lambda>_. 0), ss_zone = buddy_init 0xFF000 (9 * 4096), cache_table = [], kmalloc_caches = (\<lambda>_. None)\<rparr>)
      (\<lambda>(c, st). cache_run 0 10 st) =
     Some ([0x101B58, 0x101770, 0x101388, 0x100FA0, 0x100BB8, 0x1007D0, 0x1003E8, 0x100000, 0, 0], st')"
proof -
  obtain z where z: "alloc_pages_virt 1 (buddy_init 0xFF000 (9 * 4096)) = Some (0x100000, z)"
    using first_block_at_1M by blast
  obtain c st where st: "kmem_cache_create None 1000 8
        \<lparr>ss_mem = (\<lambda>_. 0), ss_zone = buddy_init 0xFF000 (9 * 4096), cache_table = [], kmalloc_caches = (\<lambda>_. None)\<rparr> =
      Some (Some 0, st)" "cache_table st = [c]" "ss_zone st = buddy_init 0xFF000 (9 * 4096)" "roomy c" "fresh c"
      "kc_slab_order c = 1" "kc_obj_size c = 1000" "kc_objs_per_slab c = 8"
    by (simp add: kmem_cache_create_def slab_order_def Let_def slab_order_loop_numeral roomy_def fresh_def)
  have zeros: "replicate 10 (0 :: nat) = [0, 0, 0, 0, 0, 0, 0, 0, 0, 0]" by (simp add: numeral_eq_Suc)
  have objs: "objects 0x100000 1000 8 = [0x101B58, 0x101770, 0x101388, 0x100FA0, 0x100BB8, 0x1007D0, 0x1003E8, 0x100000]"
    by (simp add: objects_def upt_conv_Cons)
  from cache_serves_one_slab[of 0 st "0x100000" z 10] z st(2-) st(1) objs zeros show ?thesis by simp
qed

subsection \<open>The smallest objects share their words with the header\<close>

text \<open>The header of a slab of 8-byte objects after the first allocation.\<close>

definition stuck :: "memory \<Rightarrow> kmem_cache \<Rightarrow> nat \<Rightarrow> nat \<Rightarrow> bool" where
  "stuck m c s f \<longleftrightarrow> partial_slabs c = s \<and> 0 < s \<and> m (s + 40) = s + 40 \<and> s_state m s = SLAB_PARTIAL \<and>
     s_obj_count m s = 0 \<and> s_free_count m s = f \<and> f < 2 ^ 32"

lemma stuck_alloc:
  assumes "stuck (ss_mem st) (cache_table st ! k) s (Suc f)" "0 < f" "k < length (cache_table st)"
  shows "\<exists>st'. kmem_cache_alloc (Some k) st = Some (s + 40, st') \<and>
     stuck (ss_mem st') (cache_table st' ! k) s f \<and> length (cache_table st') = length (cache_table st)"
proof -
  define m where "m = ss_mem st"
  define c where "c = cache_table st ! k"
  note sv = assms(1)[folded m_def c_def, unfolded stuck_def]
  define m1 where "m1 = set_free_count s f m"
  define c1 where "c1 = c\<lparr>total_objs := total_objs c + 1, free_objs := free_objs c - 1\<rparr>"
  have same: "m(s + 40 := m (s + 40)) = m" by simp
  have fc: "set_free_count s (s_free_count m s + 2 ^ 32 - 1) m = m1"
    using sv by (simp add: m1_def set_free_count_def)
  have m1: "s_state m1 s = SLAB_PARTIAL" "s_obj_count m1 s = 0" "s_free_count m1 s = f" "m1 (s + 40) = s + 40"
    using sv by (simp_all add: m1_def header_defs half_words)
  have rh: "slab_rehome s (m1, c1) = (set_state s SLAB_PARTIAL m1, c1)"
    using m1 assms(2) by (simp add: slab_rehome_def Let_def)
  have "s_free_list m s = s + 40" using sv by (simp add: s_free_list_def)
  then have "kmem_cache_alloc (Some k) st = Some (s + 40,
      st\<lparr>ss_mem := set_state s SLAB_PARTIAL m1, cache_table := (cache_table st)[k := c1]\<rparr>)"
    using sv fc rh same
    by (simp add: kmem_cache_alloc_def alloc_slab_def Let_def flip: m_def c_def c1_def)
  moreover have "stuck (set_state s SLAB_PARTIAL m1) c1 s f"
    using m1 sv by (simp add: stuck_def header_defs half_words c1_def)
  ultimately show ?thesis using assms(3) by simp
qed

lemma stuck_run:
  assumes "stuck (ss_mem st) (cache_table st ! k) s (N + f)" "0 < f" "k < length (cache_table st)"
  shows "\<exists>st'. cache_run k N st = Some (replicate N (s + 40), st')"
  using assms
proof (induction N arbitrary: st)
  case (Suc N)
  have "stuck (ss_mem st) (cache_table st ! k) s (Suc (N + f))" "0 < N + f" using Suc.prems by simp_all
  from stuck_alloc[OF this Suc.prems(3)] obtain st1 where
      "kmem_cache_alloc (Some k) st = Some (s + 40, st1)" "stuck (ss_mem st1) (cache_table st1 ! k) s (N + f)"
      "length (cache_table st1) = length (cache_table st)" by blast
  with Suc.IH[of st1] Suc.prems(2,3) show ?case by auto
qed simp

text \<open>The caches \<open>slab_init\<close> makes: the objects of a slab take the whole block.\<close>

definition kmalloc_cache :: "u8 list \<Rightarrow> nat \<Rightarrow> kmem_cache" where
  "kmalloc_cache nm i = \<lparr>kc_name = nm, kc_obj_size = 2 ^ i, kc_align = 2 ^ i, kc_objs_per_slab = 2 ^ (13 - i),
     kc_slab_order = 1, full_slabs = 0, partial_slabs = 0, empty_slabs = 0, total_objs = 0, free_objs = 0\<rparr>"

lemma first_small_alloc:
  assumes c: "cache_table st ! k = kmalloc_cache nm 3" "k < length (cache_table st)"
    and al: "alloc_pages_virt 1 (ss_zone st) = Some (a, z)" "0 < a" "a + 8192 \<le> 2 ^ 32"
  shows "\<exists>st'. kmem_cache_alloc (Some k) st = Some (a + 8184, st') \<and>
     stuck (ss_mem st') (cache_table st' ! k) (a + 8136) (a + 8159) \<and> ss_zone st' = z \<and> length (cache_table st') = length (cache_table st)"
proof -
  define s where "s = a + 8136"
  have al': "a + 8184 = s + 48" "a + 8159 = s + 23" "0 < s" "s + 56 \<le> 4294967296"
    using al(3) by (simp_all add: s_def)
  let ?c = "kmalloc_cache nm 3"
  obtain m2 where f: "slab_format ?c a (ss_mem st) = (s, (fst (chain_loop a 8 1024 m2))(s + 40 := snd (chain_loop a 8 1024 m2)))"
    by (simp add: slab_format_def kmalloc_cache_def Let_def split_beta s_def)
  define m3 where "m3 = fst (chain_loop a 8 1024 m2)"
  have cell: "m3 (a + i * 8) = (if i = 0 then 0 else a + (i - 1) * 8)" if "i < 1024" for i
    unfolding m3_def by (rule chain_loop_object) (use that in simp_all)
  have w: "m3 (s + 24) = s + 16" "m3 (s + 32) = s + 24" "m3 (s + 48) = s + 40"
    using cell[of 1020] cell[of 1021] cell[of 1023] by (simp_all add: s_def add.assoc)
  define m5 where "m5 = m3(s + 40 := s + 48, s := 0, s + 8 := 0)"
  define c1 where "c1 = ?c\<lparr>partial_slabs := s\<rparr>"
  define c2 where "c2 = c1\<lparr>total_objs := total_objs c1 + 1, free_objs := free_objs c1 - 1\<rparr>"
  have fm: "slab_format ?c a (ss_mem st) = (s, m3(s + 40 := s + 48))"
    using f by (simp add: m3_def chain_loop_current s_def add.commute)
  have as: "alloc_slab (ss_mem st) ?c (ss_zone st) = Some (s, m5, c1, z)"
    using al fm al'(3) by (simp add: alloc_slab_def slab_create_def slab_add_def kmalloc_cache_def Let_def m5_def c1_def)
  have m5: "m5 (s + 40) = s + 48" "m5 (s + 48) = s + 40" "m5 (s + 24) = s + 16" "m5 (s + 32) = s + 24"
      "m5 s = 0" "m5 (s + 8) = 0"
    using w by (simp_all add: m5_def)
  define m6 where "m6 = set_free_count s (s + 23) (m5(s + 40 := s + 40))"
  have "s_free_count (m5(s + 40 := s + 40)) s = s + 24"
    using m5(4) al'(4) by (simp add: s_free_count_def lo32_def)
  moreover have "(s + 24 + 2 ^ 32 - 1) mod 2 ^ 32 = (s + 23) mod 2 ^ 32"
    using mod_add_self2[of "s + 23" "2 ^ 32"] by simp
  ultimately have fc: "set_free_count s (s_free_count (m5(s + 40 := s + 40)) s + 2 ^ 32 - 1) (m5(s + 40 := s + 40)) = m6"
    by (simp only: m6_def set_free_count_def)
  have m6: "s_state m6 s = s + 40" "s_free_count m6 s = s + 23" "s_obj_count m6 s = 0"
      "m6 (s + 40) = s + 40" "m6 s = 0" "m6 (s + 8) = 0"
    using m5 al'(4) by (simp_all add: m6_def header_defs half_words lo32_def hi32_def set_lo32_def)
  define m7 where "m7 = set_state s SLAB_PARTIAL m6"
  have m7: "s_state m7 s = SLAB_PARTIAL" "s_free_count m7 s = s + 23" "s_obj_count m7 s = 0"
      "m7 (s + 40) = s + 40" "m7 s = 0" "m7 (s + 8) = 0"
    using m6 by (simp_all add: m7_def header_defs half_words)
  have "slab_rehome s (m6, c2) = slab_add Partial s (slab_remove Empty s (m7, c2))"
    using m6(1-3) by (simp add: slab_rehome_def Let_def m7_def)
  also have "slab_remove Empty s (m7, c2) = (m7(s := 0, s + 8 := 0), c2\<lparr>empty_slabs := 0\<rparr>)"
    using m7(5,6) by (simp add: slab_remove_def s_prev_def s_next_def)
  also have "slab_add Partial s \<dots> = (m7(s := s, s + 8 := s), c2\<lparr>empty_slabs := 0, partial_slabs := s\<rparr>)"
    using al'(3) by (simp add: slab_add_def c2_def c1_def Let_def fun_upd_twist)
  finally have rh: "slab_rehome s (m6, c2) = (m7(s := s, s + 8 := s), c2\<lparr>empty_slabs := 0, partial_slabs := s\<rparr>)" .
  have "stuck (m7(s := s, s + 8 := s)) (c2\<lparr>empty_slabs := 0, partial_slabs := s\<rparr>) s (s + 23)"
    using m7 al'(3,4) by (simp add: stuck_def header_defs)
  moreover have "kmem_cache_alloc (Some k) st = Some (s + 48, st\<lparr>ss_mem := m7(s := s, s + 8 := s),
      ss_zone := z, cache_table := (cache_table st)[k := c2\<lparr>empty_slabs := 0, partial_slabs := s\<rparr>]\<rparr>)"
    using as c(1) al'(3) fc rh m5(1,2) by (simp add: kmem_cache_alloc_def Let_def s_free_list_def c2_def)
  ultimately show ?thesis using c(2) unfolding al' s_def[symmetric] by simp
qed

subsection \<open>The caches of \<open>kmalloc\<close>\<close>

lemma kmalloc_cache_create:
  assumes "3 \<le> i" "i < 12" "length (cache_table st) < 64"
  shows "\<exists>nm. kmem_cache_create (Some (cache_name (2 ^ i))) (2 ^ i) (2 ^ i) st =
     Some (Some (length (cache_table st)), st\<lparr>cache_table := cache_table st @ [kmalloc_cache nm i]\<rparr>)"
proof -
  obtain nm where nm: "bounded_copy (replicate 32 0) 32 (cache_name (2 ^ i)) = Some nm"
    using bounded_copy_eq[of "cache_name (2 ^ i)" 32 "replicate 32 0"] by (auto simp: cache_name_def)
  have "i \<in> {3, 4, 5, 6, 7, 8, 9, 10, 11}" using assms(1,2) by auto
  then show ?thesis using nm assms(3)
    by (elim insertE emptyE; intro exI[of _ nm])
       (simp_all add: kmem_cache_create_def kmalloc_cache_def slab_order_def Let_def slab_order_loop_numeral)
qed

definition classes_ready :: "nat \<Rightarrow> slab_state \<Rightarrow> bool" where
  "classes_ready j st \<longleftrightarrow> length (cache_table st) = j - 3 \<and> (\<forall>i \<in> {3..<j}.
     kmalloc_caches st i = Some (i - 3) \<and> (\<exists>nm. cache_table st ! (i - 3) = kmalloc_cache nm i))"

lemma slab_init_loop_ready:
  assumes "classes_ready (12 - n) st" "n \<le> 9"
  shows "\<exists>st'. slab_init_loop [12 - n..<12] st = Some st' \<and> classes_ready 12 st' \<and> ss_zone st' = ss_zone st"
  using assms
proof (induction n arbitrary: st)
  case (Suc n)
  let ?j = "12 - Suc n"
  have j: "3 \<le> ?j" "?j < 12" "Suc ?j = 12 - n" using Suc.prems(2) by simp_all
  have len: "length (cache_table st) = ?j - 3" using Suc.prems(1) by (simp add: classes_ready_def)
  have "length (cache_table st) < 64" using len by simp
  from kmalloc_cache_create[OF j(1,2) this] obtain nm where nm: "kmem_cache_create (Some (cache_name (2 ^ ?j))) (2 ^ ?j) (2 ^ ?j) st =
      Some (Some (?j - 3), st\<lparr>cache_table := cache_table st @ [kmalloc_cache nm ?j]\<rparr>)"
    unfolding len by blast
  let ?st = "st\<lparr>cache_table := cache_table st @ [kmalloc_cache nm ?j], kmalloc_caches := (kmalloc_caches st)(?j := Some (?j - 3))\<rparr>"
  have "classes_ready (Suc ?j) ?st"
    using Suc.prems(1) j(1) len by (auto simp: classes_ready_def nth_append less_Suc_eq)
  with Suc.IH[of ?st] Suc.prems(2) obtain st' where
      "slab_init_loop [12 - n..<12] ?st = Some st'" "classes_ready 12 st'" "ss_zone st' = ss_zone st"
    unfolding j(3) by auto
  then show ?case using nm j(2,3) by (simp add: upt_conv_Cons)
qed simp

lemma slab_init_ready: "\<exists>st'. slab_init st = Some st' \<and> classes_ready 12 st' \<and> ss_zone st' = ss_zone st"
  using slab_init_loop_ready[of 9 "st\<lparr>cache_table := []\<rparr>"] by (simp add: slab_init_def classes_ready_def)

lemma slab_init_small:
  obtains st' nm where "slab_init st = Some st'" "ss_zone st' = ss_zone st" "length (cache_table st') = 9"
    "kmalloc_caches st' 3 = Some 0" "cache_table st' ! 0 = kmalloc_cache nm 3"
proof -
  obtain st' where r: "slab_init st = Some st'" "classes_ready 12 st'" "ss_zone st' = ss_zone st"
    using slab_init_ready by blast
  have three: "(3 :: nat) \<in> {3..<12}" by simp
  from that r bspec[OF conjunct2[OF r(2)[unfolded classes_ready_def]] three] show thesis
    by (auto simp: classes_ready_def simp del: atLeastLessThan_iff)
qed

fun kmalloc_run :: "nat list \<Rightarrow> slab_state \<Rightarrow> (nat list \<times> slab_state) option" where
  "kmalloc_run [] st = Some ([], st)"
| "kmalloc_run (n # ns) st = Option.bind (kmalloc n st) (\<lambda>(p, st1).
     Option.bind (kmalloc_run ns st1) (\<lambda>(ps, st2). Some (p # ps, st2)))"

lemma kmem_cache_alloc_frame:
  "kmem_cache_alloc (Some k) st = Some (p, st') \<Longrightarrow> kmalloc_caches st' = kmalloc_caches st"
  by (auto simp: kmem_cache_alloc_def Let_def split: bind_splits if_splits prod.splits)

lemma kmalloc_index_small: "n \<le> 8 \<Longrightarrow> kmalloc_index 8 n 3 = 3"
  using kmalloc_index.simps(2)[of 7 n 3] by simp

lemma kmalloc_run_small:
  assumes "kmalloc_caches st 3 = Some k" "\<forall>n \<in> set ns. 1 \<le> n \<and> n \<le> 8"
  shows "kmalloc_run ns st = cache_run k (length ns) st"
  using assms
proof (induction ns arbitrary: st)
  case (Cons n ns)
  have "kmalloc n st = kmem_cache_alloc (Some k) st"
    using Cons.prems by (simp add: kmalloc_def kmalloc_index_small)
  then show ?case
  proof (cases "kmem_cache_alloc (Some k) st")
    case (Some r)
    have "kmalloc_caches (snd r) 3 = Some k"
      using kmem_cache_alloc_frame[of k st "fst r" "snd r"] Some Cons.prems(1) by simp
    then have "kmalloc_run ns (snd r) = cache_run k (length ns) (snd r)" using Cons.IH Cons.prems(2) by simp
    then show ?thesis using \<open>kmalloc n st = _\<close> Some by (simp add: split_beta)
  qed simp
qed simp

text \<open>
  \<open>kmalloc\<close> hands out one object again and again. The header of a slab lies inside its last
  objects, and for objects of up to 8 bytes the word of the last object but one is the head
  of the free list itself: after \<open>slab_init\<close> the first request gets the last object of the
  block, and every one of the following requests gets the object at offset 8176.
\<close>

theorem kmalloc_small_repeats:
  assumes "alloc_pages_virt 1 (ss_zone st) = Some (a, z)" "0 < a" "a + 8192 \<le> 2 ^ 32"
    and "\<forall>n \<in> set ns. 1 \<le> n \<and> n \<le> 8" "length ns = Suc N" "N \<le> a"
  shows "\<exists>st' st''. slab_init st = Some st' \<and> kmalloc_run ns st' = Some ((a + 8184) # replicate N (a + 8176), st'')"
proof -
  obtain st' nm where st': "slab_init st = Some st'" "ss_zone st' = ss_zone st" "length (cache_table st') = 9"
      "kmalloc_caches st' 3 = Some 0" "cache_table st' ! 0 = kmalloc_cache nm 3"
    by (rule slab_init_small)
  have al: "alloc_pages_virt 1 (ss_zone st') = Some (a, z)" using assms(1) st'(2) by simp
  obtain st1 where st1: "kmem_cache_alloc (Some 0) st' = Some (a + 8184, st1)"
      "stuck (ss_mem st1) (cache_table st1 ! 0) (a + 8136) (a + 8159)" "length (cache_table st1) = length (cache_table st')"
    using first_small_alloc[OF st'(5) _ al assms(2,3)] st'(3) by auto
  have "a + 8159 = N + (a + 8159 - N)" "0 < a + 8159 - N" using assms(6) by simp_all
  with st1(2) obtain f where f: "stuck (ss_mem st1) (cache_table st1 ! 0) (a + 8136) (N + f)" "0 < f" by metis
  have "0 < length (cache_table st1)" using st1(3) st'(3) by simp
  from stuck_run[OF f this] st1(1) have "\<exists>st''. cache_run 0 (Suc N) st' = Some ((a + 8184) # replicate N (a + 8176), st'')"
    by (auto simp: add.assoc)
  then show ?thesis using st'(1) kmalloc_run_small[OF st'(4) assms(4)] assms(5) by auto
qed

theorem kmalloc_small_repeats_witness:
  "\<exists>st' st''. slab_init \<lparr>ss_mem = (\<lambda>_. 0), ss_zone = buddy_init 0xFF000 (9 * 4096), cache_table = [],
        kmalloc_caches = (\<lambda>_. None)\<rparr> = Some st' \<and>
     kmalloc_run [8, 5, 1] st' = Some ([0x101FF8, 0x101FF0, 0x101FF0], st'')"
proof -
  obtain z where z: "alloc_pages_virt 1 (buddy_init 0xFF000 (9 * 4096)) = Some (0x100000, z)"
    using first_block_at_1M by blast
  show ?thesis
    using kmalloc_small_repeats[of "\<lparr>ss_mem = (\<lambda>_. 0), ss_zone = buddy_init 0xFF000 (9 * 4096), cache_table = [],
        kmalloc_caches = (\<lambda>_. None)\<rparr>" "0x100000" z "[8, 5, 1]" "Suc (Suc 0)"] z by simp
qed

subsection \<open>Release\<close>

text \<open>
  No page is ever marked as part of a slab, so \<open>kfree\<close> never looks at the caches. An object in
  a frame that is not the first of its block is lost: nothing changes.
\<close>

lemma kfree_loses_object:
  assumes "virt_to_page (ss_zone st) p = Some pg" "pg_flags (pages (ss_zone st) pg) = 0"
  shows "kfree p st = Some st"
  using assms by (simp add: kfree_def free_pages_virt_def buddy_free_pages_def)

lemma kfree_after_kmalloc:
  "\<exists>st' st'' p. slab_init \<lparr>ss_mem = (\<lambda>_. 0), ss_zone = buddy_init 0xFF000 (9 * 4096), cache_table = [],
        kmalloc_caches = (\<lambda>_. None)\<rparr> = Some st' \<and>
     kmalloc 8 st' = Some (p, st'') \<and> p \<noteq> 0 \<and> kfree p st'' = Some st''"
proof -
  obtain z where z: "alloc_pages_virt 1 (buddy_init 0xFF000 (9 * 4096)) = Some (0x100000, z)"
      "base_pfn z = 255" "end_pfn z = 264" "pg_flags (pages z 2) = 0"
    using first_block_at_1M by blast
  define st where "st = \<lparr>ss_mem = (\<lambda>_. 0), ss_zone = buddy_init 0xFF000 (9 * 4096), cache_table = [],
        kmalloc_caches = (\<lambda>_. None)\<rparr>"
  have zone: "ss_zone st = buddy_init 0xFF000 (9 * 4096)" by (simp add: st_def)
  obtain st' nm where st': "slab_init st = Some st'" "ss_zone st' = buddy_init 0xFF000 (9 * 4096)"
      "length (cache_table st') = 9" "kmalloc_caches st' 3 = Some 0" "cache_table st' ! 0 = kmalloc_cache nm 3"
    by (rule slab_init_small[of st, unfolded zone])
  have al: "alloc_pages_virt 1 (ss_zone st') = Some (0x100000, z)" using z(1) st'(2) by simp
  obtain st'' where st'': "kmem_cache_alloc (Some 0) st' = Some (0x101FF8, st'')" "ss_zone st'' = z"
    using first_small_alloc[OF st'(5) _ al] st'(3) by auto
  have "kmalloc 8 st' = Some (0x101FF8, st'')"
    using st'(4) st''(1) by (simp add: kmalloc_def kmalloc_index_small)
  moreover have "kfree 0x101FF8 st'' = Some st''"
    by (rule kfree_loses_object[of _ _ 2]) (use st''(2) z in \<open>simp_all add: virt_to_page_def pfn_to_page_def\<close>)
  ultimately show ?thesis using st'(1) unfolding st_def by (intro exI[of _ st'] exI[of _ st''] exI[of _ "0x101FF8"]) simp
qed

end
