(* ===== verification/Pagecache.thy ===== *)
theory Pagecache
  imports Page_Table
begin

section \<open>The page cache\<close>

text \<open>
  \<open>arch/x86_64/pagecache.c\<close>: pages of files, found through a table of 1024 hash chains and
  threaded on a list of recent use. Entries and pages come from the memory pool. A pointer is
  an address (0 is the null pointer), entries live in a store, and the bytes of a page in a
  map from its address. The operations \<open>read\<close> and \<open>write\<close> of a file node are function pointers a file
  system installs: \<open>rd\<close> gives the bytes a read leaves in the page (\<open>None\<close> when the node has no
  such operation), \<open>hw\<close> says whether a node has a write operation, and what is written is
  collected in a log of node, offset and bytes. The lock is given up around a write; the
  walk is one step here. A result \<open>None\<close> is an access outside a page or an endless chain.
\<close>

record pagecache_entry =
  hash_next :: u64
  lru_prev :: u64
  lru_next :: u64
  pe_node :: u64
  pe_offset :: u64
  pe_page :: u64
  pe_flags :: u32
  pe_ref_count :: u32

record pagecache_state =
  hash_table :: "u64 list"
  lru_head :: u64
  lru_tail :: u64
  pc_total :: u64
  pc_dirty :: u64
  pc_entries :: "u64 \<Rightarrow> pagecache_entry"
  pc_data :: "u64 \<Rightarrow> u8 list"

abbreviation (input) PAGE_CACHE_HASH_SIZE :: nat where "PAGE_CACHE_HASH_SIZE \<equiv> 1024"
abbreviation (input) PCACHE_UPTODATE :: u32 where "PCACHE_UPTODATE \<equiv> 1"
abbreviation (input) PCACHE_DIRTY :: u32 where "PCACHE_DIRTY \<equiv> 2"
abbreviation (input) PCACHE_WRITEBACK :: u32 where "PCACHE_WRITEBACK \<equiv> 8"

definition pc_hash :: "u64 \<Rightarrow> u64 \<Rightarrow> nat" where
  "pc_hash node offset = unat ((node XOR offset) AND 1023)"

definition upd_entry :: "u64 \<Rightarrow> (pagecache_entry \<Rightarrow> pagecache_entry) \<Rightarrow> pagecache_state \<Rightarrow> pagecache_state" where
  "upd_entry e f st = st\<lparr>pc_entries := (pc_entries st)(e := f (pc_entries st e))\<rparr>"

subsection \<open>The list of recent use\<close>

definition lru_add :: "u64 \<Rightarrow> pagecache_state \<Rightarrow> pagecache_state" where
  "lru_add e st =
     (let s1 = upd_entry e (\<lambda>r. r\<lparr>lru_next := lru_head st, lru_prev := 0\<rparr>) st;
          s2 = (if lru_head st \<noteq> 0 then upd_entry (lru_head st) (\<lambda>r. r\<lparr>lru_prev := e\<rparr>) s1 else s1);
          s3 = s2\<lparr>lru_head := e\<rparr>
      in if lru_tail s3 = 0 then s3\<lparr>lru_tail := e\<rparr> else s3)"

definition lru_remove :: "u64 \<Rightarrow> pagecache_state \<Rightarrow> pagecache_state" where
  "lru_remove e st =
     (let r = pc_entries st e;
          s1 = (if lru_prev r \<noteq> 0 then upd_entry (lru_prev r) (\<lambda>q. q\<lparr>lru_next := lru_next r\<rparr>) st
                else st\<lparr>lru_head := lru_next r\<rparr>);
          r1 = pc_entries s1 e;
          s2 = (if lru_next r1 \<noteq> 0 then upd_entry (lru_next r1) (\<lambda>q. q\<lparr>lru_prev := lru_prev r1\<rparr>) s1
                else s1\<lparr>lru_tail := lru_prev r1\<rparr>)
      in upd_entry e (\<lambda>q. q\<lparr>lru_prev := 0, lru_next := 0\<rparr>) s2)"

definition lru_move_to_head :: "u64 \<Rightarrow> pagecache_state \<Rightarrow> pagecache_state" where
  "lru_move_to_head e st = lru_add e (lru_remove e st)"

subsection \<open>Lookup and reference counts\<close>

definition pagecache_init :: "pagecache_state \<Rightarrow> pagecache_state" where
  "pagecache_init st = st\<lparr>hash_table := replicate PAGE_CACHE_HASH_SIZE 0, lru_head := 0, lru_tail := 0,
     pc_total := 0, pc_dirty := 0\<rparr>"

partial_function (option) pc_scan :: "(u64 \<Rightarrow> pagecache_entry) \<Rightarrow> u64 \<Rightarrow> u64 \<Rightarrow> u64 \<Rightarrow> u64 option" where
  "pc_scan es node offset e = (if e = 0 then Some 0
     else if pe_node (es e) = node \<and> pe_offset (es e) = offset then Some e
     else pc_scan es node offset (hash_next (es e)))"

definition pagecache_find_page :: "u64 \<Rightarrow> u64 \<Rightarrow> pagecache_state \<Rightarrow> (u64 \<times> pagecache_state) option" where
  "pagecache_find_page node offset st =
     Option.bind (pc_scan (pc_entries st) node offset (hash_table st ! pc_hash node offset)) (\<lambda>e.
       if e = 0 then Some (0, st)
       else Some (e, lru_move_to_head e (upd_entry e (\<lambda>r. r\<lparr>pe_ref_count := pe_ref_count r + 1\<rparr>) st)))"

definition pagecache_get_page ::
  "(u64 \<Rightarrow> (u64 \<Rightarrow> u8 list \<Rightarrow> u8 list) option) \<Rightarrow> u64 \<Rightarrow> u64 \<Rightarrow> memory_state \<times> pagecache_state \<Rightarrow>
   (u64 \<times> memory_state \<times> pagecache_state) option" where
  "pagecache_get_page rd node offset = (\<lambda>(pool, st).
     Option.bind (pagecache_find_page node offset st) (\<lambda>(entry, st1).
       if entry \<noteq> 0 then Some (entry, pool, st1)
       else let (page, pool1) = memory_alloc pool 4096 in
         if page = 0 then Some (0, pool1, st1)
         else let (entry, pool2) = memory_alloc pool1 64 in
           if entry = 0 then Some (0, memory_free pool2 page, st1)
           else
             let h = pc_hash node offset;
                 s2 = upd_entry entry (\<lambda>_. \<lparr>hash_next = hash_table st1 ! h, lru_prev = 0, lru_next = 0, pe_node = node,
                        pe_offset = offset, pe_page = page, pe_flags = 0, pe_ref_count = 1\<rparr>) st1;
                 s3 = lru_add entry (s2\<lparr>hash_table := (hash_table s2)[h := entry]\<rparr>);
                 s4 = s3\<lparr>pc_total := pc_total s3 + 1\<rparr>
             in Some (entry, pool2,
                  if node \<noteq> 0 then
                    (case rd node of None \<Rightarrow> s4
                     | Some f \<Rightarrow> upd_entry entry (\<lambda>r. r\<lparr>pe_flags := pe_flags r OR PCACHE_UPTODATE\<rparr>)
                         (s4\<lparr>pc_data := (pc_data s4)(page := f offset (pc_data s4 page))\<rparr>))
                  else s4)))"

definition pagecache_put_page :: "u64 \<Rightarrow> pagecache_state \<Rightarrow> pagecache_state" where
  "pagecache_put_page e st = (if e = 0 then st
     else if 0 < pe_ref_count (pc_entries st e)
     then upd_entry e (\<lambda>r. r\<lparr>pe_ref_count := pe_ref_count r - 1\<rparr>) st else st)"

subsection \<open>Contents and dirty pages\<close>

definition pagecache_set_dirty :: "u64 \<Rightarrow> pagecache_state \<Rightarrow> pagecache_state" where
  "pagecache_set_dirty e st = (if e = 0 then st
     else if pe_flags (pc_entries st e) AND PCACHE_DIRTY = 0
     then (upd_entry e (\<lambda>r. r\<lparr>pe_flags := pe_flags r OR PCACHE_DIRTY\<rparr>) st)\<lparr>pc_dirty := pc_dirty st + 1\<rparr> else st)"

definition pagecache_clear_dirty :: "u64 \<Rightarrow> pagecache_state \<Rightarrow> pagecache_state" where
  "pagecache_clear_dirty e st = (if e = 0 then st
     else if pe_flags (pc_entries st e) AND PCACHE_DIRTY \<noteq> 0
     then (upd_entry e (\<lambda>r. r\<lparr>pe_flags := pe_flags r AND NOT PCACHE_DIRTY\<rparr>) st)\<lparr>pc_dirty := pc_dirty st - 1\<rparr> else st)"

definition clamp_len :: "u64 \<Rightarrow> u64 \<Rightarrow> u64" where
  "clamp_len off len = (if off + len > 4096 then 4096 - off else len)"

definition pagecache_read :: "u64 \<Rightarrow> u64 \<Rightarrow> u64 \<Rightarrow> pagecache_state \<Rightarrow> (int \<times> u8 list) option" where
  "pagecache_read e off len st =
     (if e = 0 \<or> pe_page (pc_entries st e) = 0 then Some (- 1, [])
      else if 4096 \<le> off then Some (- 1, [])
      else let n = unat (clamp_len off len); d = pc_data st (pe_page (pc_entries st e)) in
        if length d < unat off + n then None
        else Some (int n, take n (drop (unat off) d)))"

definition pagecache_write :: "u64 \<Rightarrow> u8 list \<Rightarrow> u64 \<Rightarrow> u64 \<Rightarrow> pagecache_state \<Rightarrow> (int \<times> pagecache_state) option" where
  "pagecache_write e buf off len st =
     (if e = 0 \<or> pe_page (pc_entries st e) = 0 then Some (- 1, st)
      else if 4096 \<le> off then Some (- 1, st)
      else let n = unat (clamp_len off len); p = pe_page (pc_entries st e); d = pc_data st p in
        if length d < unat off + n \<or> length buf < n then None
        else Some (int n, pagecache_set_dirty e
               (st\<lparr>pc_data := (pc_data st)(p := take (unat off) d @ take n buf @ drop (unat off + n) d)\<rparr>)))"

text \<open>The walk of one chain that \<open>pagecache_sync_node\<close> and \<open>pagecache_sync_all\<close> share; \<open>sel\<close> selects the nodes.\<close>

type_synonym sync_result = "int \<times> (u64 \<times> u64 \<times> u8 list) list \<times> pagecache_state"

definition sync_entry :: "(u64 \<Rightarrow> bool) \<Rightarrow> u64 \<Rightarrow> sync_result \<Rightarrow> sync_result" where
  "sync_entry hw e = (\<lambda>(n, out, st).
     let r = pc_entries st e;
         s1 = upd_entry e (\<lambda>q. q\<lparr>pe_flags := pe_flags q OR PCACHE_WRITEBACK\<rparr>) st;
         out1 = (if pe_node r \<noteq> 0 \<and> hw (pe_node r) then out @ [(pe_node r, pe_offset r, pc_data st (pe_page r))] else out);
         s2 = upd_entry e (\<lambda>q. q\<lparr>pe_flags := pe_flags q AND NOT (PCACHE_DIRTY OR PCACHE_WRITEBACK)\<rparr>) s1
     in (n + 1, out1, s2\<lparr>pc_dirty := pc_dirty s2 - 1\<rparr>))"

partial_function (option) sync_chain ::
  "(u64 \<Rightarrow> bool) \<Rightarrow> (u64 \<Rightarrow> bool) \<Rightarrow> u64 \<Rightarrow> sync_result \<Rightarrow> sync_result option" where
  "sync_chain sel hw e acc = (if e = 0 then Some acc
     else let r = pc_entries (snd (snd acc)) e;
              acc1 = (if sel (pe_node r) \<and> pe_flags r AND PCACHE_DIRTY \<noteq> 0 then sync_entry hw e acc else acc)
          in sync_chain sel hw (hash_next (pc_entries (snd (snd acc1)) e)) acc1)"

fun sync_table :: "(u64 \<Rightarrow> bool) \<Rightarrow> (u64 \<Rightarrow> bool) \<Rightarrow> nat list \<Rightarrow> sync_result \<Rightarrow> sync_result option" where
  "sync_table sel hw [] acc = Some acc"
| "sync_table sel hw (h # hs) acc =
     Option.bind (sync_chain sel hw (hash_table (snd (snd acc)) ! h) acc) (sync_table sel hw hs)"

definition pagecache_sync_node :: "(u64 \<Rightarrow> bool) \<Rightarrow> u64 \<Rightarrow> pagecache_state \<Rightarrow> sync_result option" where
  "pagecache_sync_node hw node st =
     (if node = 0 then Some (- 1, [], st)
      else sync_table (\<lambda>n. n = node) hw [0..<PAGE_CACHE_HASH_SIZE] (0, [], st))"

definition pagecache_sync_all :: "(u64 \<Rightarrow> bool) \<Rightarrow> pagecache_state \<Rightarrow> sync_result option" where
  "pagecache_sync_all hw st = sync_table (\<lambda>_. True) hw [0..<PAGE_CACHE_HASH_SIZE] (0, [], st)"

definition pagecache_get_stats :: "pagecache_state \<Rightarrow> u64 \<times> u64" where
  "pagecache_get_stats st = (pc_total st, pc_dirty st)"

subsection \<open>The list of recent use holds its entries in order\<close>

lemma upd_entry_simps [simp]:
  "hash_table (upd_entry e f st) = hash_table st" "lru_head (upd_entry e f st) = lru_head st"
  "lru_tail (upd_entry e f st) = lru_tail st" "pc_total (upd_entry e f st) = pc_total st"
  "pc_dirty (upd_entry e f st) = pc_dirty st" "pc_data (upd_entry e f st) = pc_data st"
  "pc_entries (upd_entry e f st) = (pc_entries st)(e := f (pc_entries st e))"
  by (simp_all add: upd_entry_def)

lemma lru_frame [simp]:
  "hash_table (lru_add e st) = hash_table st" "hash_table (lru_remove e st) = hash_table st"
  "pc_total (lru_add e st) = pc_total st" "pc_total (lru_remove e st) = pc_total st"
  "pc_dirty (lru_add e st) = pc_dirty st" "pc_dirty (lru_remove e st) = pc_dirty st"
  "pc_data (lru_add e st) = pc_data st" "pc_data (lru_remove e st) = pc_data st"
  by (simp_all add: lru_add_def lru_remove_def Let_def)

lemma lru_frame_entries [simp]:
  "hash_next (pc_entries (lru_add e st) x) = hash_next (pc_entries st x)"
  "hash_next (pc_entries (lru_remove e st) x) = hash_next (pc_entries st x)"
  "pe_node (pc_entries (lru_add e st) x) = pe_node (pc_entries st x)"
  "pe_node (pc_entries (lru_remove e st) x) = pe_node (pc_entries st x)"
  "pe_offset (pc_entries (lru_add e st) x) = pe_offset (pc_entries st x)"
  "pe_offset (pc_entries (lru_remove e st) x) = pe_offset (pc_entries st x)"
  "pe_page (pc_entries (lru_add e st) x) = pe_page (pc_entries st x)"
  "pe_page (pc_entries (lru_remove e st) x) = pe_page (pc_entries st x)"
  "pe_flags (pc_entries (lru_add e st) x) = pe_flags (pc_entries st x)"
  "pe_flags (pc_entries (lru_remove e st) x) = pe_flags (pc_entries st x)"
  by (auto simp: lru_add_def lru_remove_def Let_def)

fun lru_seg :: "(u64 \<Rightarrow> pagecache_entry) \<Rightarrow> u64 \<Rightarrow> u64 list \<Rightarrow> u64 \<Rightarrow> bool" where
  "lru_seg es p [] n \<longleftrightarrow> True"
| "lru_seg es p (x # xs) n \<longleftrightarrow> x \<noteq> 0 \<and> lru_prev (es x) = p \<and>
     lru_next (es x) = (if xs = [] then n else hd xs) \<and> lru_seg es x xs n"

definition lru_ok :: "pagecache_state \<Rightarrow> u64 list \<Rightarrow> bool" where
  "lru_ok st R \<longleftrightarrow> lru_seg (pc_entries st) 0 R 0 \<and> distinct R \<and>
     lru_head st = (if R = [] then 0 else hd R) \<and> lru_tail st = (if R = [] then 0 else last R)"

lemma lru_seg_append:
  "lru_seg es p (xs @ ys) n \<longleftrightarrow> lru_seg es p xs (if ys = [] then n else hd ys) \<and>
     lru_seg es (if xs = [] then p else last xs) ys n"
  by (induction xs arbitrary: p) (auto simp: hd_append)

lemma lru_seg_cong:
  "(\<And>x. x \<in> set xs \<Longrightarrow> lru_prev (es' x) = lru_prev (es x) \<and> lru_next (es' x) = lru_next (es x)) \<Longrightarrow>
   lru_seg es' p xs n = lru_seg es p xs n"
  by (induction xs arbitrary: p) auto

lemma lru_seg_nonzero: "lru_seg es p xs n \<Longrightarrow> 0 \<notin> set xs"
  by (induction xs arbitrary: p) auto

lemma lru_seg_last:
  assumes "lru_seg es p xs n" "xs \<noteq> []" "distinct xs"
    and "\<And>x. x \<in> set xs \<Longrightarrow> lru_prev (es' x) = lru_prev (es x)" "lru_next (es' (last xs)) = n'"
    and "\<And>x. x \<in> set xs \<Longrightarrow> x \<noteq> last xs \<Longrightarrow> lru_next (es' x) = lru_next (es x)"
  shows "lru_seg es' p xs n'"
  using assms
proof (induction xs arbitrary: p)
  case (Cons x xs)
  show ?case
  proof (cases xs)
    case (Cons y ys)
    then have "x \<noteq> last xs" using Cons.prems(3) by (metis distinct.simps(2) last_in_set list.distinct(1))
    then show ?thesis using Cons Cons.IH[of x] Cons.prems by auto
  qed (use Cons.prems in auto)
qed simp

lemma lru_seg_hd:
  assumes "lru_seg es p xs n" "distinct xs"
    and "\<And>x. x \<in> set xs \<Longrightarrow> lru_next (es' x) = lru_next (es x)" "xs \<noteq> [] \<Longrightarrow> lru_prev (es' (hd xs)) = p'"
    and "\<And>x. x \<in> set xs \<Longrightarrow> x \<noteq> hd xs \<Longrightarrow> lru_prev (es' x) = lru_prev (es x)"
  shows "lru_seg es' p' xs n"
proof (cases xs)
  case (Cons x ys)
  have "lru_seg es' x ys n = lru_seg es x ys n"
    by (rule lru_seg_cong) (use assms Cons in auto)
  then show ?thesis using assms Cons by auto
qed simp

lemma lru_remove_ok:
  assumes "lru_ok st (xs @ e # ys)"
  shows "lru_ok (lru_remove e st) (xs @ ys)"
proof -
  let ?es = "pc_entries st" and ?es' = "pc_entries (lru_remove e st)"
  let ?p = "if xs = [] then 0 else last xs" and ?n = "if ys = [] then 0 else hd ys"
  have sg: "lru_seg ?es 0 xs e" "lru_seg ?es e ys 0" "lru_prev (?es e) = ?p" "lru_next (?es e) = ?n" "e \<noteq> 0"
    and d: "distinct xs" "distinct ys" "e \<notin> set xs" "e \<notin> set ys" "set xs \<inter> set ys = {}"
    using assms by (auto simp: lru_ok_def lru_seg_append)
  have nz: "0 \<notin> set xs" "0 \<notin> set ys" using lru_seg_nonzero sg(1,2) by blast+
  have ends: "xs \<noteq> [] \<Longrightarrow> last xs \<in> set xs" "ys \<noteq> [] \<Longrightarrow> hd ys \<in> set ys" by simp_all
  have ne: "xs \<noteq> [] \<Longrightarrow> last xs \<noteq> e \<and> last xs \<noteq> 0" "ys \<noteq> [] \<Longrightarrow> hd ys \<noteq> e \<and> hd ys \<noteq> 0"
    using ends d(3,4) nz by metis+
  have cross: "xs \<noteq> [] \<Longrightarrow> last xs \<notin> set ys" "ys \<noteq> [] \<Longrightarrow> hd ys \<notin> set xs" using ends d(5) by blast+
  have prev: "lru_prev (?es' x) = (if x = e then 0 else if ys \<noteq> [] \<and> x = hd ys then ?p else lru_prev (?es x))" for x
    using sg(3-5) ne by (cases "xs = []"; cases "ys = []") (auto simp: lru_remove_def Let_def)
  have nxt: "lru_next (?es' x) = (if x = e then 0 else if xs \<noteq> [] \<and> x = last xs then ?n else lru_next (?es x))" for x
    using sg(3-5) ne by (cases "xs = []"; cases "ys = []") (auto simp: lru_remove_def Let_def)
  have "lru_seg ?es' 0 xs ?n"
  proof (cases "xs = []")
    case False
    show ?thesis
      by (rule lru_seg_last[OF sg(1) False d(1)]) (use False prev nxt d ends ne cross in auto)
  qed simp
  moreover have "lru_seg ?es' ?p ys 0"
    by (rule lru_seg_hd[OF sg(2) d(2)]) (use prev nxt d ends ne cross in auto)
  moreover have "lru_head (lru_remove e st) = (if xs @ ys = [] then 0 else hd (xs @ ys))"
    using assms sg(3-5) ne by (auto simp: lru_remove_def Let_def lru_ok_def hd_append)
  moreover have "lru_tail (lru_remove e st) = (if xs @ ys = [] then 0 else last (xs @ ys))"
    using assms sg(3-5) ne by (auto simp: lru_remove_def Let_def lru_ok_def)
  ultimately show ?thesis
    using d by (simp add: lru_ok_def lru_seg_append)
qed

lemma lru_add_ok:
  assumes "lru_ok st R" "e \<notin> set R" "e \<noteq> 0"
  shows "lru_ok (lru_add e st) (e # R)"
proof -
  let ?es = "pc_entries st" and ?es' = "pc_entries (lru_add e st)"
  have sg: "lru_seg ?es 0 R 0" "distinct R" using assms by (auto simp: lru_ok_def)
  have nz: "0 \<notin> set R" using lru_seg_nonzero sg(1) by blast
  have hd: "R \<noteq> [] \<Longrightarrow> hd R \<in> set R \<and> hd R \<noteq> e \<and> hd R \<noteq> 0" using assms(2) nz by (metis hd_in_set)
  have lh: "lru_head st = (if R = [] then 0 else hd R)" "lru_tail st = (if R = [] then 0 else last R)"
    using assms(1) by (auto simp: lru_ok_def)
  have prev: "lru_prev (?es' x) = (if x = e then 0 else if R \<noteq> [] \<and> x = hd R then e else lru_prev (?es x))" for x
    using lh hd by (auto simp: lru_add_def Let_def)
  have nxt: "lru_next (?es' x) = (if x = e then lru_head st else lru_next (?es x))" for x
    using lh hd by (auto simp: lru_add_def Let_def)
  have "lru_seg ?es' e R 0"
    by (rule lru_seg_hd[OF sg]) (use prev nxt assms(2) hd in auto)
  moreover have "R \<noteq> [] \<Longrightarrow> last R \<noteq> 0" using nz by (metis last_in_set)
  ultimately show ?thesis
    using assms(2,3) sg(2) prev nxt lh by (auto simp: lru_ok_def lru_add_def Let_def)
qed

lemma lru_ok_cong:
  assumes "lru_ok st R" "lru_head st' = lru_head st" "lru_tail st' = lru_tail st"
    and "\<And>x. lru_prev (pc_entries st' x) = lru_prev (pc_entries st x)"
    and "\<And>x. lru_next (pc_entries st' x) = lru_next (pc_entries st x)"
  shows "lru_ok st' R"
  using assms lru_seg_cong[of R "pc_entries st'" "pc_entries st" 0 0] by (simp add: lru_ok_def)

lemma lru_move_to_head_ok:
  assumes "lru_ok st R" "e \<in> set R"
  shows "lru_ok (lru_move_to_head e st) (e # remove1 e R)"
proof -
  obtain xs ys where R: "R = xs @ e # ys" "e \<notin> set xs" using split_list_first[OF assms(2)] by blast
  have "distinct R" "0 \<notin> set R" using assms(1) lru_seg_nonzero by (auto simp: lru_ok_def)
  then have "e \<notin> set (xs @ ys)" "e \<noteq> 0" "remove1 e R = xs @ ys" using R by (auto simp: remove1_append)
  then show ?thesis
    using lru_add_ok[OF lru_remove_ok[OF assms(1)[unfolded R(1)]]] by (simp add: lru_move_to_head_def)
qed

subsection \<open>Well-formed caches\<close>

text \<open>
  \<open>B h\<close> lists the chain of bucket \<open>h\<close> and \<open>R\<close> the entries by recent use. Every entry is in the
  bucket of its key, keys and pages are not shared, entries and pages are different pages of the
  pool in use, and the two counters count entries and dirty entries.
\<close>

fun pc_chain :: "(u64 \<Rightarrow> pagecache_entry) \<Rightarrow> u64 \<Rightarrow> u64 list \<Rightarrow> bool" where
  "pc_chain es e [] \<longleftrightarrow> e = 0"
| "pc_chain es e (x # xs) \<longleftrightarrow> e = x \<and> x \<noteq> 0 \<and> pc_chain es (hash_next (es x)) xs"

definition pc_key :: "pagecache_state \<Rightarrow> u64 \<Rightarrow> u64 \<times> u64" where
  "pc_key st x = (pe_node (pc_entries st x), pe_offset (pc_entries st x))"

definition pc_is_dirty :: "pagecache_state \<Rightarrow> u64 \<Rightarrow> bool" where
  "pc_is_dirty st x \<longleftrightarrow> pe_flags (pc_entries st x) AND PCACHE_DIRTY \<noteq> 0"

definition pc_bytes :: "pagecache_state \<Rightarrow> u64 \<Rightarrow> u8 list" where
  "pc_bytes st x = pc_data st (pe_page (pc_entries st x))"

definition pc_inv :: "memory_state \<Rightarrow> pagecache_state \<Rightarrow> (nat \<Rightarrow> u64 list) \<Rightarrow> u64 list \<Rightarrow> bool" where
  "pc_inv pool st B R \<longleftrightarrow> pool_inv pool \<and> length (hash_table st) = 1024 \<and>
     (\<forall>h < 1024. pc_chain (pc_entries st) (hash_table st ! h) (B h) \<and> distinct (B h) \<and>
        (\<forall>x \<in> set (B h). pc_hash (fst (pc_key st x)) (snd (pc_key st x)) = h)) \<and>
     lru_ok st R \<and> (\<Union>h < 1024. set (B h)) = set R \<and>
     inj_on (pc_key st) (set R) \<and> inj_on (\<lambda>x. pe_page (pc_entries st x)) (set R) \<and>
     (\<forall>x \<in> set R. owned pool x \<and> owned pool (pe_page (pc_entries st x))) \<and>
     (\<forall>p. length (pc_data st p) = 4096) \<and>
     pc_total st = of_nat (length R) \<and> pc_dirty st = of_nat (length (filter (pc_is_dirty st) R))"

text \<open>What the cache holds for a node and an offset.\<close>

definition pc_view :: "pagecache_state \<Rightarrow> u64 \<times> u64 \<Rightarrow> u8 list option" where
  "pc_view st k = (case pc_scan (pc_entries st) (fst k) (snd k) (hash_table st ! pc_hash (fst k) (snd k)) of
     None \<Rightarrow> None | Some e \<Rightarrow> if e = 0 then None else Some (pc_bytes st e))"

lemma pc_chain_cong:
  "(\<And>x. x \<in> set xs \<Longrightarrow> hash_next (es' x) = hash_next (es x)) \<Longrightarrow> pc_chain es' e xs = pc_chain es e xs"
  by (induction xs arbitrary: e) auto

lemma pc_scan_chain:
  assumes "pc_chain es e xs"
  shows "pc_scan es n off e = Some (case find (\<lambda>x. pe_node (es x) = n \<and> pe_offset (es x) = off) xs of None \<Rightarrow> 0 | Some x \<Rightarrow> x)"
  using assms by (induction xs arbitrary: e) (auto simp: pc_scan.simps)

lemma pc_hash_less [simp]: "pc_hash n off < 1024"
proof -
  have "(n XOR off) AND 1023 \<le> 1023" by (rule word_and_le1)
  then have "unat ((n XOR off) AND 1023) \<le> unat (1023 :: u64)" unfolding word_le_nat_alt .
  then show ?thesis by (simp add: pc_hash_def)
qed

lemma pc_bucket:
  assumes "pc_inv pool st B R"
  shows "h < 1024 \<Longrightarrow> pc_chain (pc_entries st) (hash_table st ! h) (B h)" "h < 1024 \<Longrightarrow> distinct (B h)"
    "h < 1024 \<Longrightarrow> x \<in> set (B h) \<Longrightarrow> x \<in> set R \<and> pc_hash (fst (pc_key st x)) (snd (pc_key st x)) = h"
    "x \<in> set R \<Longrightarrow> x \<in> set (B (pc_hash (fst (pc_key st x)) (snd (pc_key st x))))"
proof -
  have u: "(\<Union>h < 1024. set (B h)) = set R"
    and b: "\<And>h x. h < 1024 \<Longrightarrow> x \<in> set (B h) \<Longrightarrow> pc_hash (fst (pc_key st x)) (snd (pc_key st x)) = h"
    using assms by (auto simp: pc_inv_def)
  show "h < 1024 \<Longrightarrow> pc_chain (pc_entries st) (hash_table st ! h) (B h)" "h < 1024 \<Longrightarrow> distinct (B h)"
    using assms by (auto simp: pc_inv_def)
  show "h < 1024 \<Longrightarrow> x \<in> set (B h) \<Longrightarrow> x \<in> set R \<and> pc_hash (fst (pc_key st x)) (snd (pc_key st x)) = h"
    using b u by auto
  show "x \<in> set R \<Longrightarrow> x \<in> set (B (pc_hash (fst (pc_key st x)) (snd (pc_key st x))))"
    using b unfolding u[symmetric] by auto
qed

lemma pc_members:
  assumes "pc_inv pool st B R"
  shows "distinct R" "x \<in> set R \<Longrightarrow> x \<noteq> 0" "x \<in> set R \<Longrightarrow> owned pool x" "x \<in> set R \<Longrightarrow> owned pool (pe_page (pc_entries st x))"
    "x \<in> set R \<Longrightarrow> y \<in> set R \<Longrightarrow> pc_key st x = pc_key st y \<Longrightarrow> x = y"
    "x \<in> set R \<Longrightarrow> y \<in> set R \<Longrightarrow> pe_page (pc_entries st x) = pe_page (pc_entries st y) \<Longrightarrow> x = y"
    "x \<in> set R \<Longrightarrow> pe_page (pc_entries st x) \<noteq> 0" "length (pc_data st p) = 4096"
proof -
  have inv: "pool_inv pool" "lru_ok st R" using assms by (auto simp: pc_inv_def)
  show "distinct R" using inv(2) by (simp add: lru_ok_def)
  show "x \<in> set R \<Longrightarrow> x \<noteq> 0" using inv(2) lru_seg_nonzero by (auto simp: lru_ok_def)
  show "x \<in> set R \<Longrightarrow> owned pool x" "x \<in> set R \<Longrightarrow> owned pool (pe_page (pc_entries st x))"
    "length (pc_data st p) = 4096"
    using assms by (auto simp: pc_inv_def)
  then show "x \<in> set R \<Longrightarrow> pe_page (pc_entries st x) \<noteq> 0" using owned_range(2)[OF inv(1)] by blast
  show "x \<in> set R \<Longrightarrow> y \<in> set R \<Longrightarrow> pc_key st x = pc_key st y \<Longrightarrow> x = y"
    using assms unfolding pc_inv_def inj_on_def by blast
  show "x \<in> set R \<Longrightarrow> y \<in> set R \<Longrightarrow> pe_page (pc_entries st x) = pe_page (pc_entries st y) \<Longrightarrow> x = y"
    using assms unfolding pc_inv_def inj_on_def by blast
qed

lemma pc_scan_hit:
  assumes inv: "pc_inv pool st B R" and x: "x \<in> set R" "pc_key st x = (n, off)"
  shows "pc_scan (pc_entries st) n off (hash_table st ! pc_hash n off) = Some x"
proof -
  let ?P = "\<lambda>x. pe_node (pc_entries st x) = n \<and> pe_offset (pc_entries st x) = off"
  have b: "x \<in> set (B (pc_hash n off))" using pc_bucket(4)[OF inv x(1)] x(2) by simp
  then obtain y where y: "find ?P (B (pc_hash n off)) = Some y"
    using x(2) by (cases "find ?P (B (pc_hash n off))") (auto simp: find_None_iff pc_key_def)
  then have "y \<in> set (B (pc_hash n off))" "pc_key st y = (n, off)"
    by (auto simp: find_Some_iff pc_key_def)
  then have "y = x" using pc_members(5)[OF inv] pc_bucket(3)[OF inv pc_hash_less] x by metis
  then show ?thesis using pc_scan_chain[OF pc_bucket(1)[OF inv pc_hash_less]] y by simp
qed

lemma pc_scan_miss:
  assumes inv: "pc_inv pool st B R" and x: "\<And>x. x \<in> set R \<Longrightarrow> pc_key st x \<noteq> (n, off)"
  shows "pc_scan (pc_entries st) n off (hash_table st ! pc_hash n off) = Some 0"
proof -
  let ?P = "\<lambda>x. pe_node (pc_entries st x) = n \<and> pe_offset (pc_entries st x) = off"
  have "find ?P (B (pc_hash n off)) = None"
    using x pc_bucket(3)[OF inv pc_hash_less] by (auto simp: find_None_iff pc_key_def)
  then show ?thesis using pc_scan_chain[OF pc_bucket(1)[OF inv pc_hash_less]] by simp
qed

lemma pc_view_hit: "pc_inv pool st B R \<Longrightarrow> x \<in> set R \<Longrightarrow> pc_view st (pc_key st x) = Some (pc_bytes st x)"
  using pc_scan_hit[of pool st B R x "fst (pc_key st x)" "snd (pc_key st x)"] pc_members(2)
  by (simp add: pc_view_def)

lemma pc_view_miss: "pc_inv pool st B R \<Longrightarrow> (\<And>x. x \<in> set R \<Longrightarrow> pc_key st x \<noteq> k) \<Longrightarrow> pc_view st k = None"
  using pc_scan_miss[of pool st B R "fst k" "snd k"] by (simp add: pc_view_def)

text \<open>Two caches with the same entries, keys and bytes hold the same.\<close>

lemma pc_view_eqI:
  assumes "pc_inv pool st B R" "pc_inv pool' st' B' R'" "set R' = set R"
    and "\<And>x. x \<in> set R \<Longrightarrow> pc_key st' x = pc_key st x \<and> pc_bytes st' x = pc_bytes st x"
  shows "pc_view st' = pc_view st"
proof
  fix k
  show "pc_view st' k = pc_view st k"
  proof (cases "\<exists>x \<in> set R. pc_key st x = k")
    case True
    then obtain x where "x \<in> set R" "pc_key st x = k" by blast
    then show ?thesis using pc_view_hit[OF assms(1)] pc_view_hit[OF assms(2), of x] assms(3,4) by auto
  next
    case False
    then show ?thesis using pc_view_miss[OF assms(1)] pc_view_miss[OF assms(2)] assms(3,4) by metis
  qed
qed

lemma pc_inv_frame:
  assumes "pc_inv pool st B R" "hash_table st' = hash_table st"
    and "\<And>x. hash_next (pc_entries st' x) = hash_next (pc_entries st x)"
    and "\<And>x. pc_key st' x = pc_key st x" "\<And>x. pe_page (pc_entries st' x) = pe_page (pc_entries st x)"
    and "lru_ok st' R'" "mset R' = mset R" "pc_total st' = pc_total st" "\<And>p. length (pc_data st' p) = 4096"
    and "pc_dirty st' = of_nat (length (filter (pc_is_dirty st') R))"
  shows "pc_inv pool st' B R'"
proof -
  have sets: "set R' = set R" "length R' = length R" using assms(7) by (metis mset_eq_setD, metis mset_eq_length)
  have filt: "length (filter (pc_is_dirty st') R') = length (filter (pc_is_dirty st') R)"
    using assms(7) by (metis mset_filter size_mset)
  have chains: "pc_chain (pc_entries st') e xs = pc_chain (pc_entries st) e xs" for e xs
    by (rule pc_chain_cong) (simp add: assms(3))
  have keys: "pc_key st' = pc_key st" using assms(4) by blast
  show ?thesis
    using assms(1,2,5,6,8-10) unfolding pc_inv_def sets filt chains keys by simp
qed

lemma pc_inv_pool:
  "pc_inv pool st B R \<Longrightarrow> pool_inv pool' \<Longrightarrow> (\<And>u. owned pool u \<Longrightarrow> owned pool' u) \<Longrightarrow> pc_inv pool' st B R"
  by (simp add: pc_inv_def)

lemma pc_key_cong:
  "pe_node (pc_entries st' x) = pe_node (pc_entries st x) \<Longrightarrow> pe_offset (pc_entries st' x) = pe_offset (pc_entries st x) \<Longrightarrow>
   pc_key st' x = pc_key st x"
  by (simp add: pc_key_def)

lemma pagecache_find_page_hit:
  assumes inv: "pc_inv pool st B R" and e: "e \<in> set R" "pc_key st e = (n, off)"
  shows "\<exists>st'. pagecache_find_page n off st = Some (e, st') \<and> pc_inv pool st' B (e # remove1 e R) \<and>
     pc_view st' = pc_view st \<and> (\<forall>x. pc_key st' x = pc_key st x) \<and>
     (\<forall>x. pe_flags (pc_entries st' x) = pe_flags (pc_entries st x))"
proof -
  define s1 where "s1 = upd_entry e (\<lambda>r. r\<lparr>pe_ref_count := pe_ref_count r + 1\<rparr>) st"
  define s2 where "s2 = lru_move_to_head e s1"
  have find: "pagecache_find_page n off st = Some (e, s2)"
    using pc_scan_hit[OF inv e] pc_members(2)[OF inv e(1)] by (simp add: pagecache_find_page_def s1_def s2_def)
  have "lru_ok st R" using inv by (simp add: pc_inv_def)
  then have "lru_ok s1 R" by (rule lru_ok_cong) (simp_all add: s1_def)
  then have lru: "lru_ok s2 (e # remove1 e R)" unfolding s2_def by (rule lru_move_to_head_ok[OF _ e(1)])
  have same: "hash_next (pc_entries s2 x) = hash_next (pc_entries st x)" "pc_key s2 x = pc_key st x"
      "pe_page (pc_entries s2 x) = pe_page (pc_entries st x)" "pe_flags (pc_entries s2 x) = pe_flags (pc_entries st x)"
      "hash_table s2 = hash_table st" "pc_total s2 = pc_total st" "pc_data s2 = pc_data st" "pc_dirty s2 = pc_dirty st" for x
    by (simp_all add: s2_def s1_def lru_move_to_head_def pc_key_def)
  have dirty: "pc_is_dirty s2 = pc_is_dirty st" by (rule ext) (simp add: pc_is_dirty_def same)
  have inv2: "pc_inv pool s2 B (e # remove1 e R)"
    by (rule pc_inv_frame[OF inv]) (use same lru e(1) inv pc_members(8)[OF inv] dirty in \<open>simp_all add: pc_inv_def\<close>)
  moreover have "pc_view s2 = pc_view st"
    by (rule pc_view_eqI[OF inv inv2]) (use e(1) in \<open>auto simp: same pc_bytes_def pc_members(1)[OF inv]\<close>)
  ultimately show ?thesis using find same by blast
qed

lemma pagecache_find_page_miss:
  "pc_inv pool st B R \<Longrightarrow> (\<And>x. x \<in> set R \<Longrightarrow> pc_key st x \<noteq> (n, off)) \<Longrightarrow> pagecache_find_page n off st = Some (0, st)"
  by (simp add: pagecache_find_page_def pc_scan_miss)

lemma memory_alloc_small: "memory_alloc pool 64 = memory_alloc pool 4096"
  by (simp add: memory_alloc_def align_page_def)

lemma alloc_page:
  assumes "pool_inv pool" "memory_alloc pool 4096 = (t, pool')"
  shows "pool_inv pool'" "t = 0 \<Longrightarrow> pool' = pool" "t \<noteq> 0 \<Longrightarrow> owned pool' t"
    "owned pool u \<Longrightarrow> owned pool' u" "t \<noteq> 0 \<Longrightarrow> owned pool u \<Longrightarrow> u \<noteq> t"
  using alloc_table[of pool t pool'] alloc_table(4)[of pool t pool' t] assms by (auto simp: memory_alloc_aligned_def)

lemma alloc_page_undone:
  assumes "pool_inv pool" "memory_alloc pool 4096 = (t, pool')" "t \<noteq> 0"
  shows "pool_inv (memory_free pool' t)" "owned pool u \<Longrightarrow> owned (memory_free pool' t) u"
proof -
  have inv: "pool_inv pool'" by (rule alloc_page(1)[OF assms(1,2)])
  obtain i where i: "i < length (blocks pool)" "\<not> mb_used (blocks pool ! i)"
      "mb_used (blocks pool' ! i)" "mb_address (blocks pool' ! i) = t"
      "\<And>j. j < length (blocks pool) \<Longrightarrow> j \<noteq> i \<Longrightarrow> blocks pool' ! j = blocks pool ! j"
      "length (blocks pool') = length (blocks pool)"
    using memory_alloc_block[OF assms(1) _ assms(2,3)] by auto
  have i': "i < length (blocks pool')" using i(1,6) by simp
  note free = memory_free_inv[OF inv i' i(3), unfolded i(4)]
  show "pool_inv (memory_free pool' t)" by (rule free(1))
  have len: "length (blocks (memory_free pool' t)) = length (blocks pool')"
    by (simp add: memory_free_def split: option.splits)
  assume "owned pool u"
  then obtain j where j: "4096 dvd unat u" "j < length (blocks pool)" "mb_used (blocks pool ! j)"
      "blo (blocks pool ! j) \<le> unat u" "unat u + 4096 \<le> blo (blocks pool ! j) + bsz (blocks pool ! j)"
    by (auto simp: owned_def)
  then have "j \<noteq> i" using i(2) by blast
  then have "blocks (memory_free pool' t) ! j = blocks pool ! j" using free(4) i(5) j(2) by simp
  then show "owned (memory_free pool' t) u" unfolding owned_def using j len i(6) by (auto intro!: exI[of _ j])
qed

lemma pc_view_patch:
  assumes "pc_inv pool st B R" "pc_inv pool' st' B' R'" "set R' = set R" "e \<in> set R"
    and "\<And>x. x \<in> set R \<Longrightarrow> pc_key st' x = pc_key st x"
    and "\<And>x. x \<in> set R \<Longrightarrow> x \<noteq> e \<Longrightarrow> pc_bytes st' x = pc_bytes st x"
  shows "pc_view st' = (pc_view st)(pc_key st e \<mapsto> pc_bytes st' e)"
proof
  fix k
  show "pc_view st' k = ((pc_view st)(pc_key st e \<mapsto> pc_bytes st' e)) k"
  proof (cases "\<exists>x \<in> set R. pc_key st x = k")
    case True
    then obtain x where x: "x \<in> set R" "pc_key st x = k" by blast
    then have "x = e \<longleftrightarrow> k = pc_key st e" using pc_members(5)[OF assms(1)] assms(4) by blast
    then show ?thesis
      using x assms(3,5,6) pc_view_hit[OF assms(1) x(1)] pc_view_hit[OF assms(2), of x] by (cases "x = e") auto
  next
    case False
    then have "pc_view st k = None" "pc_view st' k = None"
      using pc_view_miss[OF assms(1)] pc_view_miss[OF assms(2)] assms(3,5) by metis+
    then show ?thesis using False assms(4) by auto
  qed
qed

subsection \<open>A page that is not in the cache\<close>

text \<open>The cache after a new entry \<open>e\<close> for the page \<open>p\<close> has been filled.\<close>

definition pc_inserted :: "u64 \<Rightarrow> u64 \<Rightarrow> u64 \<Rightarrow> u64 \<Rightarrow> pagecache_state \<Rightarrow> pagecache_state" where
  "pc_inserted e p n off st =
     (let s = lru_add e ((upd_entry e (\<lambda>_. \<lparr>hash_next = hash_table st ! pc_hash n off, lru_prev = 0, lru_next = 0, pe_node = n,
            pe_offset = off, pe_page = p, pe_flags = 0, pe_ref_count = 1\<rparr>) st)
          \<lparr>hash_table := (hash_table st)[pc_hash n off := e]\<rparr>)
      in s\<lparr>pc_total := pc_total s + 1\<rparr>)"

lemma pc_inserted_fields:
  "pc_total (pc_inserted e p n off st) = pc_total st + 1" "pc_dirty (pc_inserted e p n off st) = pc_dirty st"
  "pc_data (pc_inserted e p n off st) = pc_data st"
  "hash_table (pc_inserted e p n off st) = (hash_table st)[pc_hash n off := e]"
  "hash_next (pc_entries (pc_inserted e p n off st) x) = (if x = e then hash_table st ! pc_hash n off else hash_next (pc_entries st x))"
  "pc_key (pc_inserted e p n off st) x = (if x = e then (n, off) else pc_key st x)"
  "pe_page (pc_entries (pc_inserted e p n off st) x) = (if x = e then p else pe_page (pc_entries st x))"
  "pc_is_dirty (pc_inserted e p n off st) x = (x \<noteq> e \<and> pc_is_dirty st x)"
  by (simp_all add: pc_inserted_def Let_def pc_key_def pc_is_dirty_def)

lemma pc_inserted_bytes:
  "pc_bytes (pc_inserted e p n off st) x = pc_data st (if x = e then p else pe_page (pc_entries st x))"
  by (simp add: pc_bytes_def pc_inserted_fields)

lemma pc_inserted_inv:
  assumes inv: "pc_inv pool st B R" and new: "\<And>x. x \<in> set R \<Longrightarrow> pc_key st x \<noteq> (n, off)"
    and e: "owned pool e" "e \<notin> set R" and p: "owned pool p" "\<And>x. x \<in> set R \<Longrightarrow> pe_page (pc_entries st x) \<noteq> p"
  shows "pc_inv pool (pc_inserted e p n off st) (B(pc_hash n off := e # B (pc_hash n off))) (e # R)"
proof -
  let ?st = "pc_inserted e p n off st" and ?h = "pc_hash n off"
  let ?B = "B(?h := e # B ?h)"
  have pool: "pool_inv pool" "length (hash_table st) = 1024" and lru: "lru_ok st R"
    using inv by (auto simp: pc_inv_def)
  have e0: "e \<noteq> 0" using owned_range(2)[OF pool(1) e(1)] .
  have "lru_ok (pc_inserted e p n off st) (e # R)"
  proof -
    let ?s = "(upd_entry e (\<lambda>_. \<lparr>hash_next = hash_table st ! ?h, lru_prev = 0, lru_next = 0, pe_node = n,
            pe_offset = off, pe_page = p, pe_flags = 0, pe_ref_count = 1\<rparr>) st)\<lparr>hash_table := (hash_table st)[?h := e]\<rparr>"
    have "lru_seg (pc_entries ?s) 0 R 0 = lru_seg (pc_entries st) 0 R 0"
      by (rule lru_seg_cong) (use e(2) in auto)
    then have "lru_ok ?s R" using lru by (simp add: lru_ok_def)
    then have "lru_ok (lru_add e ?s) (e # R)" using e(2) e0 by (rule lru_add_ok)
    then show ?thesis by (rule lru_ok_cong) (simp_all add: pc_inserted_def Let_def)
  qed
  moreover have "pc_chain (pc_entries ?st) (hash_table ?st ! h) (?B h) \<and> distinct (?B h) \<and>
      (\<forall>x \<in> set (?B h). pc_hash (fst (pc_key ?st x)) (snd (pc_key ?st x)) = h)" if h: "h < 1024" for h
  proof -
    have notin: "e \<notin> set (B h)" using pc_bucket(3)[OF inv h] e(2) by blast
    have "pc_chain (pc_entries ?st) y (B h) = pc_chain (pc_entries st) y (B h)" for y
      by (rule pc_chain_cong) (use notin in \<open>auto simp: pc_inserted_fields\<close>)
    then show ?thesis
      using pc_bucket(1-3)[OF inv h] h notin e0 pool(2) by (auto simp: pc_inserted_fields)
  qed
  moreover have "(\<Union>h < 1024. set (?B h)) = set (e # R)"
  proof -
    have "(\<Union>h < 1024. set (?B h)) = insert e (\<Union>h < 1024. set (B h))"
    proof (intro equalityI subsetI)
      fix x assume "x \<in> insert e (\<Union>h < 1024. set (B h))"
      then consider "x = e" | h where "h < 1024" "x \<in> set (B h)" by auto
      then show "x \<in> (\<Union>h < 1024. set (?B h))"
      proof cases
        case 1
        then have "x \<in> set (?B ?h)" by simp
        then show ?thesis using pc_hash_less[of n off] by blast
      next
        case 2
        then have "x \<in> set (?B h)" by auto
        then show ?thesis using 2(1) by blast
      qed
    qed (auto split: if_splits)
    then show ?thesis using inv by (simp add: pc_inv_def)
  qed
  moreover have "inj_on (pc_key ?st) (set (e # R))"
    unfolding inj_on_def using pc_members(5)[OF inv] new e(2) by (simp add: pc_inserted_fields) metis
  moreover have "inj_on (\<lambda>x. pe_page (pc_entries ?st x)) (set (e # R))"
    using inv p(2) e(2) by (auto simp: pc_inv_def inj_on_def pc_inserted_fields)
  moreover have "\<forall>x \<in> set (e # R). owned pool x \<and> owned pool (pe_page (pc_entries ?st x))"
    using pc_members(3,4)[OF inv] e(1) p(1) by (auto simp: pc_inserted_fields)
  moreover have "filter (pc_is_dirty ?st) (e # R) = filter (pc_is_dirty st) R"
    using e(2) by (auto simp: pc_inserted_fields intro!: filter_cong)
  ultimately show ?thesis
    using inv pool unfolding pc_inv_def by (simp add: pc_inserted_fields)
qed

lemma pc_inserted_view:
  assumes inv: "pc_inv pool st B R" and inv': "pc_inv pool' (pc_inserted e p n off st) B' (e # R)" and e: "e \<notin> set R"
  shows "pc_view (pc_inserted e p n off st) = (pc_view st)((n, off) \<mapsto> pc_data st p)"
proof
  fix k
  let ?st = "pc_inserted e p n off st"
  show "pc_view ?st k = ((pc_view st)((n, off) \<mapsto> pc_data st p)) k"
  proof (cases "k = (n, off)")
    case True
    then show ?thesis using pc_view_hit[OF inv', of e] by (simp add: pc_inserted_fields pc_bytes_def)
  next
    case False
    show ?thesis
    proof (cases "\<exists>x \<in> set R. pc_key st x = k")
      case True
      then obtain x where x: "x \<in> set R" "pc_key st x = k" by blast
      then have "x \<noteq> e" using e by blast
      then show ?thesis
        using x False pc_view_hit[OF inv x(1)] pc_view_hit[OF inv', of x] by (simp add: pc_inserted_fields pc_bytes_def)
    next
      case no: False
      then have "pc_view st k = None" using pc_view_miss[OF inv] by blast
      moreover have "pc_view ?st k = None"
        using no False e by (intro pc_view_miss[OF inv']) (auto simp: pc_inserted_fields)
      ultimately show ?thesis using False by simp
    qed
  qed
qed

subsection \<open>The cache as a map\<close>

lemma pc_filled_inv:
  assumes inv: "pc_inv pool st B R" and "e \<in> set R" "\<And>p. length (D p) = 4096"
  shows "pc_inv pool (upd_entry e (\<lambda>r. r\<lparr>pe_flags := pe_flags r OR PCACHE_UPTODATE\<rparr>) (st\<lparr>pc_data := D\<rparr>)) B R"
proof (rule pc_inv_frame[OF inv])
  let ?s = "upd_entry e (\<lambda>r. r\<lparr>pe_flags := pe_flags r OR PCACHE_UPTODATE\<rparr>) (st\<lparr>pc_data := D\<rparr>)"
  have "(f OR 1) AND 2 = f AND 2" for f :: u32
    by (rule bit_word_eqI) (auto simp: bit_simps)
  then have "pc_is_dirty ?s = pc_is_dirty st" by (intro ext) (simp add: pc_is_dirty_def)
  then show "pc_dirty ?s = of_nat (length (filter (pc_is_dirty ?s) R))" using inv by (simp add: pc_inv_def)
  have "lru_ok st R" using inv by (simp add: pc_inv_def)
  then show "lru_ok ?s R" by (rule lru_ok_cong) simp_all
qed (simp_all add: pc_key_def assms(3))

text \<open>The read operation of a node fills the buffer it is given and nothing beyond.\<close>

definition fills_page :: "(u64 \<Rightarrow> (u64 \<Rightarrow> u8 list \<Rightarrow> u8 list) option) \<Rightarrow> u64 \<Rightarrow> bool" where
  "fills_page rd n \<longleftrightarrow> (\<forall>f off d. rd n = Some f \<longrightarrow> length (f off d) = length d)"

lemma pagecache_get_new:
  assumes inv: "pc_inv pool st B R" and new: "\<And>x. x \<in> set R \<Longrightarrow> pc_key st x \<noteq> (n, off)"
    and rd: "fills_page rd n"
  shows "\<exists>e pool' st' B' R'. pagecache_get_page rd n off (pool, st) = Some (e, pool', st') \<and> pc_inv pool' st' B' R' \<and>
     (e = 0 \<and> st' = st \<or>
      e \<noteq> 0 \<and> R' = e # R \<and> pc_key st' e = (n, off) \<and>
      (\<exists>d. pc_view st' = (pc_view st)((n, off) \<mapsto> (case if n = 0 then None else rd n of None \<Rightarrow> d | Some f \<Rightarrow> f off d))))"
proof -
  have pi: "pool_inv pool" using inv by (simp add: pc_inv_def)
  note find = pagecache_find_page_miss[OF inv new]
  obtain p pool1 where p: "memory_alloc pool 4096 = (p, pool1)" by fastforce
  note a1 = alloc_page[OF pi p]
  show ?thesis
  proof (cases "p = 0")
    case True
    then show ?thesis using find p a1(2) inv by (auto simp: pagecache_get_page_def)
  next
    case p0: False
    obtain e pool2 where e: "memory_alloc pool1 4096 = (e, pool2)" by fastforce
    note a2 = alloc_page[OF a1(1) e]
    show ?thesis
    proof (cases "e = 0")
      case True
      then have pool2: "pool2 = pool1" using a2(2) by simp
      have "pc_inv (memory_free pool1 p) st B R"
        by (rule pc_inv_pool[OF inv alloc_page_undone[OF pi p p0]])
      then show ?thesis using find p p0 e True pool2 by (auto simp: pagecache_get_page_def memory_alloc_small)
    next
      case e0: False
      have inv2: "pc_inv pool2 st B R"
        by (rule pc_inv_pool[OF inv a2(1)]) (use a1(4) a2(4) in blast)
      have own: "owned pool2 e" "owned pool2 p" using a1(3)[OF p0] a2(3)[OF e0] a2(4) by auto
      have fresh: "e \<notin> set R" "\<And>x. x \<in> set R \<Longrightarrow> pe_page (pc_entries st x) \<noteq> p"
        using a2(5)[OF e0] a1(4,5) p0 pc_members(3,4)[OF inv] by blast+
      note ins = pc_inserted_inv[OF inv2 new own(1) fresh(1) own(2) fresh(2)]
      have view: "pc_view (pc_inserted e p n off st) = (pc_view st)((n, off) \<mapsto> pc_data st p)"
        by (rule pc_inserted_view[OF inv2 ins fresh(1)])
      show ?thesis
      proof (cases "if n = 0 then None else rd n")
        case None
        then have "pagecache_get_page rd n off (pool, st) = Some (e, pool2, pc_inserted e p n off st)"
          using find p p0 e e0 by (auto simp: pagecache_get_page_def memory_alloc_small pc_inserted_def Let_def split: if_splits)
        then show ?thesis using ins view e0 None by (auto simp: pc_inserted_fields)
      next
        case (Some f)
        then have f: "n \<noteq> 0" "rd n = Some f" by (auto split: if_splits)
        define D where "D = (pc_data st)(p := f off (pc_data st p))"
        define s where "s = upd_entry e (\<lambda>r. r\<lparr>pe_flags := pe_flags r OR PCACHE_UPTODATE\<rparr>)
            ((pc_inserted e p n off st)\<lparr>pc_data := D\<rparr>)"
        have "length (D q) = 4096" for q using rd f(2) pc_members(8)[OF inv] by (simp add: D_def fills_page_def)
        then have invs: "pc_inv pool2 s (B(pc_hash n off := e # B (pc_hash n off))) (e # R)"
          unfolding s_def by (intro pc_filled_inv[OF ins]) simp_all
        have keys: "pc_key s x = pc_key (pc_inserted e p n off st) x"
            "pc_bytes s x = D (pe_page (pc_entries (pc_inserted e p n off st) x))" for x
          by (simp_all add: s_def pc_key_def pc_bytes_def)
        have "pc_view s = (pc_view (pc_inserted e p n off st))(pc_key (pc_inserted e p n off st) e \<mapsto> pc_bytes s e)"
          by (rule pc_view_patch[OF ins invs]) (use fresh in \<open>auto simp: keys D_def pc_inserted_bytes pc_inserted_fields\<close>)
        then have "pc_view s = (pc_view st)((n, off) \<mapsto> f off (pc_data st p))"
          by (simp add: view keys D_def pc_inserted_fields)
        moreover have "pagecache_get_page rd n off (pool, st) = Some (e, pool2, s)"
          using find p p0 e e0 f by (simp add: pagecache_get_page_def memory_alloc_small pc_inserted_def Let_def s_def D_def)
        ultimately show ?thesis using invs e0 Some keys by (fastforce simp: pc_inserted_fields)
      qed
    qed
  qed
qed

lemma pagecache_set_dirty_inv:
  assumes inv: "pc_inv pool st B R" and e: "e \<in> set R"
  shows "pc_inv pool (pagecache_set_dirty e st) B R" "pc_key (pagecache_set_dirty e st) x = pc_key st x"
    "pc_bytes (pagecache_set_dirty e st) x = pc_bytes st x" "pc_is_dirty (pagecache_set_dirty e st) x = (x = e \<or> pc_is_dirty st x)"
    "pe_page (pc_entries (pagecache_set_dirty e st) x) = pe_page (pc_entries st x)" "pc_data (pagecache_set_dirty e st) = pc_data st"
proof -
  let ?s = "pagecache_set_dirty e st"
  have e0: "e \<noteq> 0" by (rule pc_members(2)[OF inv e])
  have "(f OR 2) AND 2 = 2" for f :: u32 by (rule bit_word_eqI) (auto simp: bit_simps)
  then show dirty: "pc_is_dirty ?s x = (x = e \<or> pc_is_dirty st x)" for x
    using e0 by (auto simp: pagecache_set_dirty_def pc_is_dirty_def)
  show "pc_key ?s x = pc_key st x" "pc_bytes ?s x = pc_bytes st x"
    "pe_page (pc_entries ?s x) = pe_page (pc_entries st x)" "pc_data ?s = pc_data st"
    by (simp_all add: pagecache_set_dirty_def pc_key_def pc_bytes_def)
  show "pc_inv pool ?s B R"
  proof (cases "pc_is_dirty st e")
    case True
    then have "?s = st" by (simp add: pagecache_set_dirty_def pc_is_dirty_def)
    then show ?thesis using inv by simp
  next
    case False
    have s: "?s = (upd_entry e (\<lambda>r. r\<lparr>pe_flags := pe_flags r OR PCACHE_DIRTY\<rparr>) st)\<lparr>pc_dirty := pc_dirty st + 1\<rparr>"
      using False e0 by (simp add: pagecache_set_dirty_def pc_is_dirty_def)
    obtain xs ys where R: "R = xs @ e # ys" "e \<notin> set xs" using split_list_first[OF e] by blast
    then have "e \<notin> set ys" using pc_members(1)[OF inv] by simp
    then have "filter (pc_is_dirty ?s) xs = filter (pc_is_dirty st) xs" "filter (pc_is_dirty ?s) ys = filter (pc_is_dirty st) ys"
      using R(2) dirty by (auto intro!: filter_cong)
    then have len: "length (filter (pc_is_dirty ?s) R) = Suc (length (filter (pc_is_dirty st) R))"
      using R(1) False dirty by simp
    have lru: "lru_ok st R" using inv by (simp add: pc_inv_def)
    show ?thesis
    proof (rule pc_inv_frame[OF inv])
      show "pc_dirty ?s = of_nat (length (filter (pc_is_dirty ?s) R))"
        using len inv s by (simp add: pc_inv_def)
      show "lru_ok ?s R" using lru by (rule lru_ok_cong) (simp_all add: s)
    qed (use inv in \<open>simp_all add: s pc_key_def pc_inv_def\<close>)
  qed
qed

lemma clamp_len_eq: "unat off + unat len \<le> 4096 \<Longrightarrow> clamp_len off len = len"
proof -
  assume a: "unat off + unat len \<le> 4096"
  then have "unat (off + len) = unat off + unat len" by (simp add: unat_plus_if_size word_size)
  then have "\<not> 4096 < off + len" using a by (simp add: word_less_nat_alt)
  then show ?thesis by (simp add: clamp_len_def)
qed

lemma pagecache_write_view:
  assumes inv: "pc_inv pool st B R" and e: "e \<in> set R" and len: "off < 4096" "unat off + unat len \<le> 4096" "unat len \<le> length buf"
  shows "\<exists>st'. pagecache_write e buf off len st = Some (int (unat len), st') \<and> pc_inv pool st' B R \<and>
     pc_view st' = (pc_view st)(pc_key st e \<mapsto>
       take (unat off) (pc_bytes st e) @ take (unat len) buf @ drop (unat off + unat len) (pc_bytes st e)) \<and>
     pagecache_read e off len st' = Some (int (unat len), take (unat len) buf)"
proof -
  define p where "p = pe_page (pc_entries st e)"
  define d where "d = take (unat off) (pc_bytes st e) @ take (unat len) buf @ drop (unat off + unat len) (pc_bytes st e)"
  define s1 where "s1 = st\<lparr>pc_data := (pc_data st)(p := d)\<rparr>"
  have ld: "length (pc_data st q) = 4096" for q by (rule pc_members(8)[OF inv])
  have off: "\<not> 4096 \<le> off" using len(1) by (simp add: not_le)
  have e0: "e \<noteq> 0" "p \<noteq> 0" using pc_members(2,7)[OF inv e] by (simp_all add: p_def)
  have lend: "length d = 4096" using len(2,3) ld by (simp add: d_def pc_bytes_def)
  have inv1: "pc_inv pool s1 B R"
  proof (rule pc_inv_frame[OF inv])
    have "pc_is_dirty s1 = pc_is_dirty st" by (rule ext) (simp add: s1_def pc_is_dirty_def)
    then show "pc_dirty s1 = of_nat (length (filter (pc_is_dirty s1) R))" using inv by (simp add: s1_def pc_inv_def)
    have "lru_ok st R" using inv by (simp add: pc_inv_def)
    then show "lru_ok s1 R" by (rule lru_ok_cong) (simp_all add: s1_def)
  qed (use ld lend in \<open>simp_all add: s1_def pc_key_def\<close>)
  note sd = pagecache_set_dirty_inv[OF inv1 e]
  let ?s = "pagecache_set_dirty e s1"
  have key: "pc_key s1 x = pc_key st x" for x by (simp add: s1_def pc_key_def)
  have "pc_view ?s = (pc_view st)(pc_key st e \<mapsto> pc_bytes ?s e)"
    by (rule pc_view_patch[OF inv sd(1) refl e])
       (use sd(2,3) key pc_members(6)[OF inv _ e] in \<open>auto simp: s1_def pc_bytes_def p_def\<close>)
  moreover have "pc_bytes ?s e = d" by (simp add: sd(3)) (simp add: s1_def pc_bytes_def p_def)
  moreover have "pagecache_write e buf off len st = Some (int (unat len), ?s)"
    using e0 len ld clamp_len_eq[OF len(2)] by (simp add: pagecache_write_def Let_def s1_def d_def p_def pc_bytes_def off)
  moreover have "pagecache_read e off len ?s = Some (int (unat len), take (unat len) buf)"
  proof -
    have "take (unat len) (drop (unat off) d) = take (unat len) buf"
      using len(2,3) ld by (simp add: d_def pc_bytes_def)
    moreover have "pe_page (pc_entries ?s e) = p" "pc_data ?s p = d" by (simp_all add: sd(5,6)) (simp_all add: s1_def p_def)
    ultimately show ?thesis
      using e0 len lend clamp_len_eq[OF len(2)] by (simp add: pagecache_read_def Let_def off)
  qed
  ultimately show ?thesis using sd(1) unfolding d_def by metis
qed

definition pc_ok :: "memory_state \<Rightarrow> pagecache_state \<Rightarrow> bool" where
  "pc_ok pool st \<longleftrightarrow> (\<exists>B R. pc_inv pool st B R)"

lemma pagecache_init_ok:
  assumes "pool_inv pool" "\<And>p. length (pc_data st p) = 4096"
  shows "pc_ok pool (pagecache_init st)"
proof -
  have "pc_inv pool (pagecache_init st) (\<lambda>_. []) []"
    using assms by (simp add: pc_inv_def pagecache_init_def lru_ok_def)
  then show ?thesis unfolding pc_ok_def by blast
qed

lemma pagecache_get_cases:
  assumes inv: "pc_inv pool st B R" and rd: "fills_page rd n"
  obtains (hit) e st' B' R' where "pagecache_get_page rd n off (pool, st) = Some (e, pool, st')" "pc_inv pool st' B' R'"
      "e \<in> set R'" "pc_key st' e = (n, off)" "pc_view st (n, off) \<noteq> None" "pc_view st' = pc_view st"
    | (full) pool' B' R' where "pagecache_get_page rd n off (pool, st) = Some (0, pool', st)" "pc_inv pool' st B' R'"
      "pc_view st (n, off) = None"
    | (new) e pool' st' B' R' d where "pagecache_get_page rd n off (pool, st) = Some (e, pool', st')" "pc_inv pool' st' B' R'"
      "e \<in> set R'" "pc_key st' e = (n, off)" "pc_view st (n, off) = None"
      "pc_view st' = (pc_view st)((n, off) \<mapsto> (case if n = 0 then None else rd n of None \<Rightarrow> d | Some f \<Rightarrow> f off d))"
proof (cases "\<exists>x \<in> set R. pc_key st x = (n, off)")
  case True
  then obtain x where x: "x \<in> set R" "pc_key st x = (n, off)" by blast
  from pagecache_find_page_hit[OF inv x] obtain st' where st': "pagecache_find_page n off st = Some (x, st')"
      "pc_inv pool st' B (x # remove1 x R)" "pc_view st' = pc_view st" "\<forall>y. pc_key st' y = pc_key st y" by blast
  moreover have "pagecache_get_page rd n off (pool, st) = Some (x, pool, st')"
    using st'(1) pc_members(2)[OF inv x(1)] by (simp add: pagecache_get_page_def)
  moreover have "pc_view st (n, off) \<noteq> None" using pc_view_hit[OF inv x(1)] x(2) by simp
  ultimately show ?thesis using hit[of x st'] x(2) by simp
next
  case False
  then have no: "\<And>x. x \<in> set R \<Longrightarrow> pc_key st x \<noteq> (n, off)" by blast
  have none: "pc_view st (n, off) = None" by (rule pc_view_miss[OF inv no])
  from pagecache_get_new[OF inv no rd] obtain e pool' st' B' R' where g:
      "pagecache_get_page rd n off (pool, st) = Some (e, pool', st')" "pc_inv pool' st' B' R'"
      "e = 0 \<and> st' = st \<or> e \<noteq> 0 \<and> R' = e # R \<and> pc_key st' e = (n, off) \<and>
       (\<exists>d. pc_view st' = (pc_view st)((n, off) \<mapsto> (case if n = 0 then None else rd n of None \<Rightarrow> d | Some f \<Rightarrow> f off d)))"
    by blast
  from g(3) show ?thesis
  proof (elim disjE conjE exE)
    fix d assume a: "e \<noteq> 0" "R' = e # R" "pc_key st' e = (n, off)"
      "pc_view st' = (pc_view st)((n, off) \<mapsto> (case if n = 0 then None else rd n of None \<Rightarrow> d | Some f \<Rightarrow> f off d))"
    then have "e \<in> set R'" by simp
    then show ?thesis by (rule new[OF g(1,2) _ a(3) none a(4)])
  next
    assume a: "e = 0" "st' = st"
    from g(1,2) show ?thesis unfolding a by (rule full[OF _ _ none])
  qed
qed

text \<open>
  C24. The page cache is a map from file positions to pages. Asking for a page always returns;
  a page that is cached is found and nothing changes; otherwise the answer is a null pointer
  and nothing changes, or the page is added with the bytes the file's read operation gives.
  Writing through the entry changes exactly the written bytes of that one page, and reading
  them back gives what was written.
\<close>

theorem pagecache_refines_page_map:
  assumes "pc_ok pool st" and "fills_page rd n"
  shows "\<exists>e pool' st'. pagecache_get_page rd n off (pool, st) = Some (e, pool', st') \<and> pc_ok pool' st' \<and>
     (case pc_view st (n, off) of
        Some d \<Rightarrow> e \<noteq> 0 \<and> pc_view st' = pc_view st
      | None \<Rightarrow> e = 0 \<and> pc_view st' = pc_view st \<or>
          e \<noteq> 0 \<and> (\<exists>d. pc_view st' = (pc_view st)((n, off) \<mapsto> (case if n = 0 then None else rd n of None \<Rightarrow> d | Some f \<Rightarrow> f off d)))) \<and>
     (e \<noteq> 0 \<longrightarrow> (\<exists>d. pc_view st' (n, off) = Some d \<and>
        (\<forall>buf i len. i < 4096 \<and> unat i + unat len \<le> 4096 \<and> unat len \<le> length buf \<longrightarrow>
           (\<exists>st''. pagecache_write e buf i len st' = Some (int (unat len), st'') \<and> pc_ok pool' st'' \<and>
              pc_view st'' = (pc_view st')((n, off) \<mapsto> take (unat i) d @ take (unat len) buf @ drop (unat i + unat len) d) \<and>
              pagecache_read e i len st'' = Some (int (unat len), take (unat len) buf)))))"
proof -
  obtain B R where inv: "pc_inv pool st B R" using assms(1) by (auto simp: pc_ok_def)
  have rw: "e \<noteq> 0 \<and> (\<exists>d. pc_view s (n, off) = Some d \<and>
        (\<forall>buf i len. i < 4096 \<and> unat i + unat len \<le> 4096 \<and> unat len \<le> length buf \<longrightarrow>
           (\<exists>st''. pagecache_write e buf i len s = Some (int (unat len), st'') \<and> pc_ok pl st'' \<and>
              pc_view st'' = (pc_view s)((n, off) \<mapsto> take (unat i) d @ take (unat len) buf @ drop (unat i + unat len) d) \<and>
              pagecache_read e i len st'' = Some (int (unat len), take (unat len) buf))))"
    if "pc_inv pl s B' R'" "e \<in> set R'" "pc_key s e = (n, off)" for pl s B' R' e
    using pagecache_write_view[OF that(1,2)] pc_view_hit[OF that(1,2)] pc_members(2)[OF that(1,2)] that(3)
    unfolding pc_ok_def by metis
  show ?thesis
  proof (rule pagecache_get_cases[OF inv assms(2), of off])
    fix e st' B' R'
    assume hit: "pagecache_get_page rd n off (pool, st) = Some (e, pool, st')" "pc_inv pool st' B' R'"
      "e \<in> set R'" "pc_key st' e = (n, off)" "pc_view st (n, off) \<noteq> None" "pc_view st' = pc_view st"
    have "pc_ok pool st'" using hit(2) by (auto simp: pc_ok_def)
    then show ?thesis using hit(1,5,6) rw[OF hit(2-4)] by (intro exI[of _ e] exI[of _ pool] exI[of _ st']) auto
  next
    fix pool' B' R'
    assume full: "pagecache_get_page rd n off (pool, st) = Some (0, pool', st)" "pc_inv pool' st B' R'"
      "pc_view st (n, off) = None"
    have "pc_ok pool' st" using full(2) by (auto simp: pc_ok_def)
    then show ?thesis using full(1,3) by simp
  next
    fix e pool' st' B' R' d
    assume new: "pagecache_get_page rd n off (pool, st) = Some (e, pool', st')" "pc_inv pool' st' B' R'"
      "e \<in> set R'" "pc_key st' e = (n, off)" "pc_view st (n, off) = None"
      "pc_view st' = (pc_view st)((n, off) \<mapsto> (case if n = 0 then None else rd n of None \<Rightarrow> d | Some f \<Rightarrow> f off d))"
    have "pc_ok pool' st'" using new(2) by (auto simp: pc_ok_def)
    moreover have "\<exists>d. pc_view st' = (pc_view st)((n, off) \<mapsto> (case if n = 0 then None else rd n of None \<Rightarrow> d | Some f \<Rightarrow> f off d))"
      using new(6) by blast
    ultimately show ?thesis
      using new(1,5) rw[OF new(2-4)] by (intro exI[of _ e] exI[of _ pool'] exI[of _ st']) (simp only: option.case simp_thms)
  qed
qed

definition empty_cache :: pagecache_state where
  "empty_cache = pagecache_init \<lparr>hash_table = [], lru_head = 0, lru_tail = 0, pc_total = 0, pc_dirty = 0,
     pc_entries = (\<lambda>_. \<lparr>hash_next = 0, lru_prev = 0, lru_next = 0, pe_node = 0, pe_offset = 0, pe_page = 0,
       pe_flags = 0, pe_ref_count = 0\<rparr>), pc_data = (\<lambda>_. replicate 4096 0)\<rparr>"

lemma empty_cache_ok: "pc_ok boot_memory empty_cache"
  unfolding empty_cache_def by (rule pagecache_init_ok) (simp_all add: boot_memory_inv)

theorem pagecache_refines_page_map_witness:
  "\<exists>e pool' st' st''. pagecache_get_page (\<lambda>_. Some (\<lambda>_ d. replicate (length d) 7)) 1 0 (boot_memory, empty_cache) =
       Some (e, pool', st') \<and>
     (e \<noteq> 0 \<longrightarrow> pagecache_write e [1, 2, 3] 10 3 st' = Some (3, st'') \<and> pagecache_read e 10 3 st'' = Some (3, [1, 2, 3]))"
proof -
  have "fills_page (\<lambda>_. Some (\<lambda>_ d. replicate (length d) 7)) 1" by (simp add: fills_page_def)
  from pagecache_refines_page_map[OF empty_cache_ok this, of 0] obtain e pool' st' where
      g: "pagecache_get_page (\<lambda>_. Some (\<lambda>_ d. replicate (length d) 7)) 1 0 (boot_memory, empty_cache) = Some (e, pool', st')"
    and w: "e \<noteq> 0 \<longrightarrow> (\<forall>buf i len. i < 4096 \<and> unat i + unat len \<le> 4096 \<and> unat len \<le> length buf \<longrightarrow>
           (\<exists>st''. pagecache_write e buf i len st' = Some (int (unat len), st'') \<and>
              pagecache_read e i len st'' = Some (int (unat len), take (unat len) buf)))" by blast
  have "e \<noteq> 0 \<longrightarrow> (\<exists>st''. pagecache_write e [1, 2, 3] 10 3 st' = Some (3, st'') \<and>
      pagecache_read e 10 3 st'' = Some (3, [1, 2, 3]))"
    using w[THEN mp, THEN spec[of _ "[1, 2, 3]"], THEN spec[of _ 10], THEN spec[of _ 3]] by auto
  then show ?thesis using g by blast
qed

subsection \<open>Writing back\<close>

definition sync_one :: "(u64 \<Rightarrow> bool) \<Rightarrow> (u64 \<Rightarrow> bool) \<Rightarrow> u64 \<Rightarrow> sync_result \<Rightarrow> sync_result" where
  "sync_one sel hw e acc =
     (if sel (fst (pc_key (snd (snd acc)) e)) \<and> pc_is_dirty (snd (snd acc)) e then sync_entry hw e acc else acc)"

text \<open>The cache with the dirty entries of \<open>X\<close> cleaned, all else as it was.\<close>

definition pc_cleaned :: "u64 set \<Rightarrow> pagecache_state \<Rightarrow> pagecache_state \<Rightarrow> bool" where
  "pc_cleaned X st st' \<longleftrightarrow> hash_table st' = hash_table st \<and> lru_head st' = lru_head st \<and> lru_tail st' = lru_tail st \<and>
     pc_total st' = pc_total st \<and> pc_data st' = pc_data st \<and>
     (\<forall>x. hash_next (pc_entries st' x) = hash_next (pc_entries st x) \<and> lru_prev (pc_entries st' x) = lru_prev (pc_entries st x) \<and>
        lru_next (pc_entries st' x) = lru_next (pc_entries st x) \<and> pc_key st' x = pc_key st x \<and>
        pe_page (pc_entries st' x) = pe_page (pc_entries st x) \<and> (pc_is_dirty st' x \<longleftrightarrow> pc_is_dirty st x \<and> x \<notin> X))"

lemma sync_entry_cleaned:
  "\<exists>st'. sync_entry hw e (n, out, st) = (n + 1,
      if fst (pc_key st e) \<noteq> 0 \<and> hw (fst (pc_key st e)) then out @ [(fst (pc_key st e), snd (pc_key st e), pc_bytes st e)] else out, st') \<and>
     pc_cleaned {e} st st' \<and> pc_dirty st' = pc_dirty st - 1"
proof -
  have "((f OR 8) AND NOT (2 OR 8)) AND 2 = 0" for f :: u32
    by (rule bit_word_eqI) (auto simp: bit_simps)
  then show ?thesis
    by (simp add: sync_entry_def Let_def pc_cleaned_def pc_key_def pc_is_dirty_def pc_bytes_def)
qed

lemma sync_chain_fold:
  assumes "pc_chain (pc_entries st0) e xs" "\<And>x. hash_next (pc_entries (snd (snd acc)) x) = hash_next (pc_entries st0 x)"
  shows "sync_chain sel hw e acc = Some (fold (sync_one sel hw) xs acc)"
  using assms
proof (induction xs arbitrary: e acc)
  case Nil
  then show ?case by (simp add: sync_chain.simps)
next
  case (Cons x xs)
  obtain n out st where acc: "acc = (n, out, st)" by (cases acc)
  have "hash_next (pc_entries (snd (snd (sync_one sel hw x acc))) y) = hash_next (pc_entries st y)" for y
    by (simp add: sync_one_def acc sync_entry_def Let_def)
  then have nx: "hash_next (pc_entries (snd (snd (sync_one sel hw x acc))) y) = hash_next (pc_entries st0 y)" for y
    using Cons.prems(2) acc by simp
  have "sync_chain sel hw e acc =
      sync_chain sel hw (hash_next (pc_entries (snd (snd (sync_one sel hw x acc))) x)) (sync_one sel hw x acc)"
    using Cons.prems(1) by (subst sync_chain.simps) (simp add: Let_def sync_one_def pc_key_def pc_is_dirty_def)
  also have "\<dots> = Some (fold (sync_one sel hw) xs (sync_one sel hw x acc))"
    using Cons.prems(1) nx by (intro Cons.IH) simp_all
  finally show ?case by simp
qed

lemma pc_cleaned_trans: "pc_cleaned X st st' \<Longrightarrow> pc_cleaned Y st' st'' \<Longrightarrow> pc_cleaned (X \<union> Y) st st''"
  by (auto simp: pc_cleaned_def)

lemma pc_cleaned_bytes: "pc_cleaned X st st' \<Longrightarrow> pc_bytes st' x = pc_bytes st x"
  by (simp add: pc_cleaned_def pc_bytes_def)

definition sync_log :: "(u64 \<Rightarrow> bool) \<Rightarrow> pagecache_state \<Rightarrow> u64 list \<Rightarrow> (u64 \<times> u64 \<times> u8 list) list" where
  "sync_log hw st xs = map (\<lambda>x. (fst (pc_key st x), snd (pc_key st x), pc_bytes st x))
     (filter (\<lambda>x. fst (pc_key st x) \<noteq> 0 \<and> hw (fst (pc_key st x))) xs)"

lemma sync_fold:
  fixes sel :: "u64 \<Rightarrow> bool"
  defines "d \<equiv> \<lambda>st xs. filter (\<lambda>x. sel (fst (pc_key st x)) \<and> pc_is_dirty st x) xs"
  assumes "distinct xs"
  shows "\<exists>st'. fold (sync_one sel hw) xs (n, out, st) = (n + int (length (d st xs)), out @ sync_log hw st (d st xs), st') \<and>
     pc_cleaned (set (d st xs)) st st' \<and> pc_dirty st' = pc_dirty st - of_nat (length (d st xs))"
  using assms(2) unfolding d_def
proof (induction xs arbitrary: n out st)
  case Nil
  then show ?case by (simp add: sync_log_def pc_cleaned_def)
next
  case (Cons x xs)
  let ?D = "\<lambda>st. filter (\<lambda>x. sel (fst (pc_key st x)) \<and> pc_is_dirty st x) xs"
  have x: "x \<notin> set xs" "distinct xs" using Cons.prems by auto
  show ?case
  proof (cases "sel (fst (pc_key st x)) \<and> pc_is_dirty st x")
    case False
    then have "sync_one sel hw x (n, out, st) = (n, out, st)" by (auto simp: sync_one_def)
    then show ?thesis using Cons.IH[OF x(2), of n out st] False by auto
  next
    case True
    let ?o = "if fst (pc_key st x) \<noteq> 0 \<and> hw (fst (pc_key st x)) then out @ [(fst (pc_key st x), snd (pc_key st x), pc_bytes st x)] else out"
    obtain s1 where s1: "sync_one sel hw x (n, out, st) = (n + 1, ?o, s1)" "pc_cleaned {x} st s1" "pc_dirty s1 = pc_dirty st - 1"
      using sync_entry_cleaned[of hw x n out st] True by (auto simp: sync_one_def)
    have key: "pc_key s1 y = pc_key st y" "pc_bytes s1 y = pc_bytes st y" for y
      using s1(2) pc_cleaned_bytes[OF s1(2)] by (auto simp: pc_cleaned_def)
    have D: "?D s1 = ?D st"
      using s1(2) x(1) by (auto simp: pc_cleaned_def intro!: filter_cong)
    obtain s2 where s2: "fold (sync_one sel hw) xs (n + 1, ?o, s1) =
        (n + 1 + int (length (?D st)), ?o @ sync_log hw s1 (?D st), s2)"
        "pc_cleaned (set (?D st)) s1 s2" "pc_dirty s2 = pc_dirty s1 - of_nat (length (?D st))"
      using Cons.IH[OF x(2), of "n + 1" ?o s1] unfolding D by blast
    have "sync_log hw s1 (?D st) = sync_log hw st (?D st)" by (simp add: sync_log_def key)
    then have "?o @ sync_log hw s1 (?D st) = out @ sync_log hw st (x # ?D st)" by (simp add: sync_log_def)
    moreover have "pc_cleaned (set (x # ?D st)) st s2" using pc_cleaned_trans[OF s1(2) s2(2)] by simp
    ultimately show ?thesis using s1 s2 True by simp
  qed
qed

lemma sync_table_fold:
  assumes "\<And>h. h \<in> set hs \<Longrightarrow> pc_chain (pc_entries st0) (hash_table st0 ! h) (B h)"
    and "hash_table (snd (snd acc)) = hash_table st0"
    and "\<And>x. hash_next (pc_entries (snd (snd acc)) x) = hash_next (pc_entries st0 x)"
  shows "sync_table sel hw hs acc = Some (fold (sync_one sel hw) (concat (map B hs)) acc)"
  using assms
proof (induction hs arbitrary: acc)
  case (Cons h hs)
  have keep: "hash_table (snd (snd (sync_one sel hw x acc))) = hash_table (snd (snd acc)) \<and>
      hash_next (pc_entries (snd (snd (sync_one sel hw x acc))) y) = hash_next (pc_entries (snd (snd acc)) y)" for x y acc
    by (simp add: sync_one_def sync_entry_def Let_def split_beta)
  have "hash_table (snd (snd (fold (sync_one sel hw) xs acc))) = hash_table (snd (snd acc)) \<and>
      hash_next (pc_entries (snd (snd (fold (sync_one sel hw) xs acc))) y) = hash_next (pc_entries (snd (snd acc)) y)" for xs y acc
    by (induction xs arbitrary: acc) (simp_all add: keep)
  then have "sync_table sel hw hs (fold (sync_one sel hw) (B h) acc) =
      Some (fold (sync_one sel hw) (concat (map B hs)) (fold (sync_one sel hw) (B h) acc))"
    using Cons.prems by (intro Cons.IH) simp_all
  moreover have "sync_chain sel hw (hash_table (snd (snd acc)) ! h) acc = Some (fold (sync_one sel hw) (B h) acc)"
    using Cons.prems by (intro sync_chain_fold[of st0]) simp_all
  ultimately show ?case by simp
qed simp

lemma pc_all_entries:
  assumes inv: "pc_inv pool st B R"
  shows "distinct (concat (map B [0..<1024]))" "set (concat (map B [0..<1024])) = set R"
    "mset (concat (map B [0..<1024])) = mset R"
proof -
  have "n \<le> 1024 \<Longrightarrow> distinct (concat (map B [0..<n]))" for n
  proof (induction n)
    case (Suc n)
    have "set (B h) \<inter> set (B n) = {}" if "h < n" for h
      using pc_bucket(3)[OF inv, of h] pc_bucket(3)[OF inv, of n] that Suc.prems by fastforce
    then have "(\<Union>h < n. set (B h)) \<inter> set (B n) = {}" by blast
    then show ?case using Suc pc_bucket(2)[OF inv, of n] by (simp add: atLeast0LessThan)
  qed simp
  then show d: "distinct (concat (map B [0..<1024]))" by blast
  have "(\<Union>h < 1024. set (B h)) = set R" using inv by (simp add: pc_inv_def)
  then show s: "set (concat (map B [0..<1024])) = set R" by (simp add: atLeast0LessThan)
  then show "mset (concat (map B [0..<1024])) = mset R"
    using d pc_members(1)[OF inv] set_eq_iff_mset_eq_distinct by blast
qed

definition pc_dirty_key :: "pagecache_state \<Rightarrow> u64 \<times> u64 \<Rightarrow> bool" where
  "pc_dirty_key st k = (case pc_scan (pc_entries st) (fst k) (snd k) (hash_table st ! pc_hash (fst k) (snd k)) of
     None \<Rightarrow> False | Some e \<Rightarrow> e \<noteq> 0 \<and> pc_is_dirty st e)"

lemma pc_dirty_key_iff:
  assumes inv: "pc_inv pool st B R"
  shows "pc_dirty_key st k \<longleftrightarrow> (\<exists>x \<in> set R. pc_key st x = k \<and> pc_is_dirty st x)"
proof (cases "\<exists>x \<in> set R. pc_key st x = k")
  case True
  then obtain x where x: "x \<in> set R" "pc_key st x = k" by blast
  then have "pc_scan (pc_entries st) (fst k) (snd k) (hash_table st ! pc_hash (fst k) (snd k)) = Some x"
    using pc_scan_hit[OF inv x(1)] by (metis prod.collapse)
  then show ?thesis using x pc_members(2,5)[OF inv] by (auto simp: pc_dirty_key_def)
next
  case False
  then show ?thesis using pc_scan_miss[OF inv, of "fst k" "snd k"] by (auto simp: pc_dirty_key_def)
qed

lemma pc_cleaned_inv:
  assumes inv: "pc_inv pool st B R" and c: "pc_cleaned X st st'" "X \<subseteq> {x \<in> set R. pc_is_dirty st x}"
    and d: "pc_dirty st' = pc_dirty st - of_nat (card X)"
  shows "pc_inv pool st' B R"
proof (rule pc_inv_frame[OF inv])
  have "{x \<in> set R. pc_is_dirty st' x} = {x \<in> set R. pc_is_dirty st x} - X" using c(1) by (auto simp: pc_cleaned_def)
  moreover have "length (filter P R) = card {x \<in> set R. P x}" for P
    using distinct_card[of "filter P R"] pc_members(1)[OF inv] by simp
  moreover have "finite X" using c(2) finite_subset by fastforce
  ultimately have "length (filter (pc_is_dirty st') R) = length (filter (pc_is_dirty st) R) - card X"
    "card X \<le> length (filter (pc_is_dirty st) R)"
    using c(2) card_mono[OF _ c(2)] by (simp_all add: card_Diff_subset)
  then show "pc_dirty st' = of_nat (length (filter (pc_is_dirty st') R))"
    using d inv by (simp add: pc_inv_def)
  have "lru_ok st R" using inv by (simp add: pc_inv_def)
  then show "lru_ok st' R" by (rule lru_ok_cong) (use c(1) in \<open>simp_all add: pc_cleaned_def\<close>)
qed (use c(1) inv in \<open>simp_all add: pc_cleaned_def pc_inv_def\<close>)

lemma sync_table_spec:
  assumes inv: "pc_inv pool st B R"
  shows "\<exists>ds st'. sync_table sel hw [0..<1024] (0, [], st) = Some (int (length ds), sync_log hw st ds, st') \<and>
     distinct ds \<and> set ds = {x \<in> set R. sel (fst (pc_key st x)) \<and> pc_is_dirty st x} \<and>
     pc_inv pool st' B R \<and> pc_cleaned (set ds) st st'"
proof -
  note all = pc_all_entries[OF inv]
  define ds where "ds = filter (\<lambda>x. sel (fst (pc_key st x)) \<and> pc_is_dirty st x) (concat (map B [0..<1024]))"
  from sync_fold[OF all(1), of sel hw 0 "[]" st] obtain st' where st':
      "fold (sync_one sel hw) (concat (map B [0..<1024])) (0, [], st) = (int (length ds), sync_log hw st ds, st')"
      "pc_cleaned (set ds) st st'" "pc_dirty st' = pc_dirty st - of_nat (length ds)"
    unfolding ds_def by auto
  have "sync_table sel hw [0..<1024] (0, [], st) = Some (fold (sync_one sel hw) (concat (map B [0..<1024])) (0, [], st))"
    by (rule sync_table_fold[of _ st]) (use pc_bucket(1)[OF inv] in simp_all)
  moreover have ds: "distinct ds" "set ds = {x \<in> set R. sel (fst (pc_key st x)) \<and> pc_is_dirty st x}"
    using all(1) unfolding all(2)[symmetric] by (auto simp: ds_def)
  moreover have "pc_inv pool st' B R"
    by (rule pc_cleaned_inv[OF inv st'(2)]) (use ds st'(3) distinct_card[OF ds(1)] in auto)
  ultimately show ?thesis using st' by metis
qed

text \<open>Cleaning an entry by hand and dropping a reference keep the cache well formed.\<close>

lemma pagecache_clear_dirty_inv:
  assumes inv: "pc_inv pool st B R" and e: "e \<in> set R"
  shows "pc_inv pool (pagecache_clear_dirty e st) B R"
proof (cases "pc_is_dirty st e")
  case True
  have e0: "e \<noteq> 0" by (rule pc_members(2)[OF inv e])
  have "(f AND NOT 2) AND 2 = 0" for f :: u32 by (rule bit_word_eqI) (auto simp: bit_simps)
  then have "pc_cleaned {e} st (pagecache_clear_dirty e st)" "pc_dirty (pagecache_clear_dirty e st) = pc_dirty st - 1"
    using e0 True by (simp_all add: pagecache_clear_dirty_def pc_cleaned_def pc_key_def pc_is_dirty_def)
  then show ?thesis using e True by (intro pc_cleaned_inv[OF inv]) auto
next
  case False
  then show ?thesis using inv by (simp add: pagecache_clear_dirty_def pc_is_dirty_def)
qed

lemma pagecache_put_page_inv:
  assumes inv: "pc_inv pool st B R"
  shows "pc_inv pool (pagecache_put_page e st) B R"
proof -
  have lru: "lru_ok st R" using inv by (simp add: pc_inv_def)
  have d: "pc_is_dirty (pagecache_put_page e st) = pc_is_dirty st"
    by (rule ext) (simp add: pagecache_put_page_def pc_is_dirty_def)
  show ?thesis
    by (rule pc_inv_frame[OF inv]; (rule lru_ok_cong[OF lru])?)
       (use inv d in \<open>simp_all add: pagecache_put_page_def pc_key_def pc_inv_def\<close>)
qed

text \<open>
  \<open>pagecache_sync_all\<close> writes back every dirty page exactly once and with the bytes the cache
  holds, for every node that has a write operation; it returns their number, leaves no page
  dirty and changes nothing of what the cache holds.
\<close>

theorem pagecache_sync_writes_dirty_pages:
  assumes "pc_ok pool st"
  shows "\<exists>n out st'. pagecache_sync_all hw st = Some (n, out, st') \<and> pc_ok pool st' \<and> pc_view st' = pc_view st \<and>
     distinct out \<and> set out = {(a, off, d). a \<noteq> 0 \<and> hw a \<and> pc_dirty_key st (a, off) \<and> pc_view st (a, off) = Some d} \<and>
     of_int n = pc_dirty st \<and> pc_dirty st' = 0 \<and> (\<forall>k. \<not> pc_dirty_key st' k)"
proof -
  obtain B R where inv: "pc_inv pool st B R" using assms by (auto simp: pc_ok_def)
  from sync_table_spec[OF inv, of "\<lambda>_. True" hw] obtain ds st' where s:
      "pagecache_sync_all hw st = Some (int (length ds), sync_log hw st ds, st')" "distinct ds"
      "set ds = {x \<in> set R. pc_is_dirty st x}" "pc_inv pool st' B R" "pc_cleaned (set ds) st st'"
    by (auto simp: pagecache_sync_all_def)
  have clean: "\<not> pc_is_dirty st' x" if "x \<in> set R" for x using s(3,5) that by (auto simp: pc_cleaned_def)
  have "length ds = length (filter (pc_is_dirty st) R)"
    using distinct_card[OF s(2)] distinct_card[of "filter (pc_is_dirty st) R"] pc_members(1)[OF inv] s(3) by simp
  then have n: "of_int (int (length ds)) = pc_dirty st" using inv by (simp add: pc_inv_def)
  have "filter (pc_is_dirty st') R = []" using clean by (simp add: filter_empty_conv)
  then have z: "pc_dirty st' = 0" using s(4) by (simp add: pc_inv_def)
  have view: "pc_view st' = pc_view st"
    by (rule pc_view_eqI[OF inv s(4)]) (use s(5) pc_cleaned_bytes[OF s(5)] in \<open>auto simp: pc_cleaned_def\<close>)
  have "inj_on (\<lambda>x. (fst (pc_key st x), snd (pc_key st x), pc_bytes st x)) (set ds)"
    using pc_members(5)[OF inv] s(3) by (auto simp: inj_on_def prod_eq_iff)
  then have dl: "distinct (sync_log hw st ds)"
    using s(2) unfolding sync_log_def by (simp add: distinct_map inj_on_def)
  have "set (sync_log hw st ds) = {(a, off, d). a \<noteq> 0 \<and> hw a \<and> pc_dirty_key st (a, off) \<and> pc_view st (a, off) = Some d}"
  proof (intro equalityI subsetI)
    fix t assume "t \<in> set (sync_log hw st ds)"
    then obtain x where x: "x \<in> set R" "pc_is_dirty st x" "fst (pc_key st x) \<noteq> 0" "hw (fst (pc_key st x))"
        "t = (fst (pc_key st x), snd (pc_key st x), pc_bytes st x)" using s(3) by (auto simp: sync_log_def)
    then show "t \<in> {(a, off, d). a \<noteq> 0 \<and> hw a \<and> pc_dirty_key st (a, off) \<and> pc_view st (a, off) = Some d}"
      using pc_view_hit[OF inv x(1)] by (auto simp: pc_dirty_key_iff[OF inv])
  next
    fix t assume "t \<in> {(a, off, d). a \<noteq> 0 \<and> hw a \<and> pc_dirty_key st (a, off) \<and> pc_view st (a, off) = Some d}"
    then obtain a off d x where t: "t = (a, off, d)" "a \<noteq> 0" "hw a" "pc_view st (a, off) = Some d"
        "x \<in> set R" "pc_key st x = (a, off)" "pc_is_dirty st x" by (auto simp: pc_dirty_key_iff[OF inv])
    then have "d = pc_bytes st x" using pc_view_hit[OF inv t(5)] by simp
    then show "t \<in> set (sync_log hw st ds)" using t s(3) by (force simp: sync_log_def)
  qed
  moreover have "\<not> pc_dirty_key st' k" for k using clean by (auto simp: pc_dirty_key_iff[OF s(4)])
  ultimately show ?thesis using s(1,4) n z view dl by (auto simp: pc_ok_def)
qed

theorem pagecache_sync_writes_dirty_pages_witness:
  "\<exists>n out st'. pagecache_sync_all (\<lambda>_. True) empty_cache = Some (n, out, st') \<and> pc_dirty st' = 0"
  using pagecache_sync_writes_dirty_pages[OF empty_cache_ok, of "\<lambda>_. True"] by blast

text \<open>
  The range check of \<open>pagecache_read\<close> wraps around: a length close to \<open>2^64\<close> passes it and the copy
  runs past the page.
\<close>

lemma pagecache_read_past_page:
  assumes "pc_inv pool st B R" "e \<in> set R"
  shows "pagecache_read e 1 (- 1) st = None"
proof -
  have "clamp_len 1 (- 1) = - 1" by (simp add: clamp_len_def)
  moreover have "unat (- 1 :: u64) = 2 ^ 64 - 1" by (simp add: unsigned_minus_1_eq_mask mask_eq_exp_minus_1)
  ultimately show ?thesis
    using pc_members(2,7)[OF assms] pc_members(8)[OF assms(1)] by (auto simp: pagecache_read_def Let_def word_le_nat_alt)
qed

end
