(* ===== verification/Pagefault.thy ===== *)
theory Pagefault
  imports Page_Table Buddy Process
begin

unbundle bit_operations_syntax

section \<open>Page faults and copy on write\<close>

text \<open>
  \<open>arch/x86_64/pagefault.c\<close> over the page tables of the theory \<open>Page_Table\<close> and the frames of the theory
  \<open>Buddy\<close>. Frames and page tables are in the one memory \<open>pm_mem\<close>. The fields of \<open>processes[current_process]\<close> that
  the handler reads or writes are fields of the state; the register \<open>cr2\<close> is an argument. A result
  \<open>None\<close> is a fault inside the page allocator. The handler ends with the fault handled, the process
  killed or a panic.
\<close>

abbreviation (input) PAGE_USER :: u64 where "PAGE_USER \<equiv> 4"
abbreviation (input) PAGE_NO_EXEC :: u64 where "PAGE_NO_EXEC \<equiv> 0x8000000000000000"
abbreviation (input) PAGE_COW_FLAG :: u64 where "PAGE_COW_FLAG \<equiv> 0x200"
abbreviation (input) PF_PRESENT :: u64 where "PF_PRESENT \<equiv> 1"
abbreviation (input) PF_WRITE :: u64 where "PF_WRITE \<equiv> 2"
abbreviation (input) PF_USER :: u64 where "PF_USER \<equiv> 4"
abbreviation (input) USER_STACK_TOP :: u64 where "USER_STACK_TOP \<equiv> 0x00007FFFFFFFFFFF"
abbreviation (input) MAX_STACK_SIZE :: u64 where "MAX_STACK_SIZE \<equiv> 0x800000"

datatype pf_cause = PF_CAUSE_NOT_PRESENT | PF_CAUSE_COW | PF_CAUSE_PROTECTION | PF_CAUSE_STACK_EXPAND | PF_CAUSE_KERNEL

datatype pf_outcome = Handled | Killed | Panic

record pf_stats =
  total_faults :: u64
  cow_faults :: u64
  demand_paging :: u64
  stack_expands :: u64
  protection_faults :: u64
  kernel_faults :: u64

record vm_state =
  vm_pmap :: pmap_state
  vm_zone :: buddy_zone
  vm_rss :: u64
  vm_stack_top :: u64
  vm_stack_base :: u64
  vm_pstate :: u64
  vm_stats :: pf_stats

definition pagefault_init :: "vm_state \<Rightarrow> vm_state" where
  "pagefault_init st = st\<lparr>vm_stats := \<lparr>total_faults = 0, cow_faults = 0, demand_paging = 0, stack_expands = 0,
     protection_faults = 0, kernel_faults = 0\<rparr>\<rparr>"

subsection \<open>Frames\<close>

definition vm_mem :: "vm_state \<Rightarrow> u64 \<Rightarrow> u64" where
  "vm_mem st = pm_mem (vm_pmap st)"

definition set_mem :: "(u64 \<Rightarrow> u64) \<Rightarrow> vm_state \<Rightarrow> vm_state" where
  "set_mem m st = st\<lparr>vm_pmap := (vm_pmap st)\<lparr>pm_mem := m\<rparr>\<rparr>"

text \<open>\<open>alloc_pages_virt(0)\<close> and \<open>free_pages_virt\<close>, with addresses as words.\<close>

definition vm_alloc_page :: "vm_state \<Rightarrow> (u64 \<times> vm_state) option" where
  "vm_alloc_page st = Option.bind (alloc_pages_virt 0 (vm_zone st)) (\<lambda>(a, z). Some (of_nat a, st\<lparr>vm_zone := z\<rparr>))"

definition vm_free_page :: "u64 \<Rightarrow> vm_state \<Rightarrow> vm_state option" where
  "vm_free_page p st = map_option (\<lambda>z. st\<lparr>vm_zone := z\<rparr>) (free_pages_virt (unat p) (vm_zone st))"

definition vm_map_page :: "u64 \<Rightarrow> u64 \<Rightarrow> u64 \<Rightarrow> u64 \<Rightarrow> vm_state \<Rightarrow> int \<times> vm_state" where
  "vm_map_page pml4 vaddr paddr flags st =
     (let (r, pm) = pmap_map_page (vm_pmap st) pml4 vaddr paddr flags in (r, st\<lparr>vm_pmap := pm\<rparr>))"

subsection \<open>Copy on write\<close>

text \<open>The address of the last-level entry, found through present entries of the upper levels.\<close>

definition pte_slot :: "(u64 \<Rightarrow> u64) \<Rightarrow> u64 \<Rightarrow> u64 \<Rightarrow> u64 option" where
  "pte_slot m pml4 vaddr =
     (let e4 = m (slot pml4 (idx_pml4 vaddr)) in
      if e4 AND 1 = 0 then None
      else let e3 = m (slot (e4 AND NOT 0xFFF) (idx_pdpt vaddr)) in
        if e3 AND 1 = 0 then None
        else let e2 = m (slot (e3 AND NOT 0xFFF) (idx_pd vaddr)) in
          if e2 AND 1 = 0 then None
          else Some (slot (e2 AND NOT 0xFFF) (idx_pt vaddr)))"

definition cow_mark_page :: "u64 \<Rightarrow> u64 \<Rightarrow> vm_state \<Rightarrow> int \<times> vm_state" where
  "cow_mark_page pml4 vaddr st =
     (case pte_slot (vm_mem st) pml4 vaddr of
        None \<Rightarrow> (- 1, st)
      | Some p \<Rightarrow>
          if vm_mem st p AND 1 = 0 then (- 1, st)
          else (0, set_mem ((vm_mem st)(p := (vm_mem st p AND NOT PAGE_WRITABLE) OR PAGE_COW_FLAG)) st))"

definition cow_resolve_fault :: "u64 \<Rightarrow> vm_state \<Rightarrow> (int \<times> vm_state) option" where
  "cow_resolve_fault vaddr st =
     (case pte_slot (vm_mem st) (pm_cr3 (vm_pmap st)) vaddr of
        None \<Rightarrow> Some (- 1, st)
      | Some p \<Rightarrow>
          let old_pte = vm_mem st p in
          if old_pte AND PAGE_PRESENT = 0 then Some (- 1, st)
          else if old_pte AND PAGE_COW_FLAG = 0 then Some (- 1, st)
          else Option.bind (vm_alloc_page st) (\<lambda>(new_page, st1).
            if new_page = 0 then Some (- 1, st1)
            else
              let m1 = copy_page (vm_mem st1) new_page (old_pte AND NOT 0xFFF);
                  m2 = m1(p := new_page OR (old_pte AND 0xFFF));
                  m3 = m2(p := m2 p OR PAGE_WRITABLE);
                  m4 = m3(p := m3 p AND NOT PAGE_COW_FLAG);
                  st2 = set_mem m4 st1
              in Some (0, st2\<lparr>vm_rss := vm_rss st2 + 4096\<rparr>)))"

subsection \<open>Demand paging and the stack\<close>

definition demand_page_alloc :: "u64 \<Rightarrow> u64 \<Rightarrow> vm_state \<Rightarrow> (int \<times> vm_state) option" where
  "demand_page_alloc vaddr flags st =
     Option.bind (vm_alloc_page st) (\<lambda>(page, st1).
       if page = 0 then Some (- 1, st1)
       else let st2 = set_mem (clear_page (vm_mem st1) page) st1;
                (r, st3) = vm_map_page (pm_cr3 (vm_pmap st2)) vaddr page (flags OR PAGE_PRESENT) st2
            in if r \<noteq> 0 then map_option (\<lambda>st4. (- 1, st4)) (vm_free_page page st3)
               else Some (0, st3))"

definition stack_expand :: "u64 \<Rightarrow> u64 \<Rightarrow> u64 \<Rightarrow> vm_state \<Rightarrow> (int \<times> vm_state) option" where
  "stack_expand pml4 fault_addr stack_bottom st =
     (if fault_addr > USER_STACK_TOP then Some (- 1, st)
      else if USER_STACK_TOP - fault_addr > MAX_STACK_SIZE then Some (- 1, st)
      else if fault_addr \<ge> stack_bottom then Some (- 1, st)
      else
        let page_addr = fault_addr AND NOT 0xFFF;
            flags = PAGE_PRESENT OR PAGE_WRITABLE OR PAGE_USER
        in Option.bind (vm_alloc_page st) (\<lambda>(page, st1).
          if page = 0 then Some (- 1, st1)
          else let st2 = set_mem (clear_page (vm_mem st1) page) st1;
                   (r, st3) = vm_map_page pml4 page_addr page flags st2
               in if r \<noteq> 0 then map_option (\<lambda>st4. (- 1, st4)) (vm_free_page page st3)
                  else Some (0, st3)))"

subsection \<open>The handler\<close>

definition pf_classify :: "u64 \<Rightarrow> u64 \<Rightarrow> vm_state \<Rightarrow> pf_cause \<times> pf_stats" where
  "pf_classify error_code cr2 st =
     (let s = (vm_stats st)\<lparr>total_faults := total_faults (vm_stats st) + 1\<rparr>;
          user = (error_code AND PF_USER \<noteq> 0)
      in if error_code AND PF_PRESENT = 0 then
           (if user then
              (if cr2 > vm_stack_top st - MAX_STACK_SIZE \<and> cr2 \<le> USER_STACK_TOP
               then (PF_CAUSE_STACK_EXPAND, s\<lparr>stack_expands := stack_expands s + 1\<rparr>)
               else (PF_CAUSE_NOT_PRESENT, s\<lparr>demand_paging := demand_paging s + 1\<rparr>))
            else (PF_CAUSE_KERNEL, s\<lparr>kernel_faults := kernel_faults s + 1\<rparr>))
         else if error_code AND PF_WRITE \<noteq> 0 then (PF_CAUSE_COW, s\<lparr>cow_faults := cow_faults s + 1\<rparr>)
         else (PF_CAUSE_PROTECTION, s\<lparr>protection_faults := protection_faults s + 1\<rparr>))"

fun pf_resolve :: "pf_cause \<Rightarrow> bool \<Rightarrow> u64 \<Rightarrow> vm_state \<Rightarrow> (bool \<times> vm_state) option" where
  "pf_resolve PF_CAUSE_COW user cr2 st = map_option (\<lambda>(r, st'). (r = 0, st')) (cow_resolve_fault cr2 st)"
| "pf_resolve PF_CAUSE_NOT_PRESENT user cr2 st =
     (if user then map_option (\<lambda>(r, st'). (r = 0, st'))
                     (demand_page_alloc (cr2 AND NOT 0xFFF) (PAGE_PRESENT OR PAGE_USER) st)
      else Some (False, st))"
| "pf_resolve PF_CAUSE_STACK_EXPAND user cr2 st =
     map_option (\<lambda>(r, st'). if r = 0 then (True, st'\<lparr>vm_stack_base := cr2 AND NOT 0xFFF\<rparr>) else (False, st'))
       (stack_expand (pm_cr3 (vm_pmap st)) cr2 (vm_stack_base st) st)"
| "pf_resolve PF_CAUSE_KERNEL user cr2 st = Some (False, st)"
| "pf_resolve PF_CAUSE_PROTECTION user cr2 st = Some (False, st)"

definition pagefault_handler :: "u64 \<Rightarrow> u64 \<Rightarrow> vm_state \<Rightarrow> (pf_outcome \<times> vm_state) option" where
  "pagefault_handler error_code cr2 st =
     (let user = (error_code AND PF_USER \<noteq> 0); (cause, s) = pf_classify error_code cr2 st in
      Option.bind (pf_resolve cause user cr2 (st\<lparr>vm_stats := s\<rparr>)) (\<lambda>(handled, st1).
        if handled then Some (Handled, st1)
        else if user then Some (Killed, st1\<lparr>vm_pstate := PROCESS_DEAD\<rparr>)
        else Some (Panic, st1)))"

definition pf_get_stats :: "vm_state \<Rightarrow> pf_stats" where
  "pf_get_stats st = vm_stats st"

subsection \<open>Frames apart from page tables\<close>

text \<open>
  The page tables are those of the theory \<open>Page_Table\<close>, the zone is well formed and lies above 4 GiB, where the
  memory pool with the page tables never is, and below the highest physical address.
\<close>

definition vm_inv :: "vm_state \<Rightarrow> (nat \<Rightarrow> nat list) \<Rightarrow> bool" where
  "vm_inv st F \<longleftrightarrow> pt_ok (vm_pmap st) (pm_cr3 (vm_pmap st)) \<and> zone_inv (vm_zone st) F \<and>
     2 ^ 32 \<le> 4096 * base_pfn (vm_zone st) \<and> 4096 * end_pfn (vm_zone st) \<le> 2 ^ 52"

text \<open>The index of a frame in its zone, and the frames of a zone.\<close>

definition frame_idx :: "buddy_zone \<Rightarrow> u64 \<Rightarrow> nat" where
  "frame_idx z p = unat p div 4096 - base_pfn z"

definition zone_frame :: "u64 \<Rightarrow> bool" where
  "zone_frame p \<longleftrightarrow> 2 ^ 32 \<le> unat p \<and> unat p + 4096 \<le> 2 ^ 52 \<and> 4096 dvd unat p"

lemma set_mem_simps [simp]:
  "vm_mem (set_mem m st) = m" "vm_zone (set_mem m st) = vm_zone st" "pm_pool (vm_pmap (set_mem m st)) = pm_pool (vm_pmap st)"
  "pm_cr3 (vm_pmap (set_mem m st)) = pm_cr3 (vm_pmap st)" "vm_stats (set_mem m st) = vm_stats st"
  "vm_pmap (set_mem m st) = (vm_pmap st)\<lparr>pm_mem := m\<rparr>" "vm_rss (set_mem m st) = vm_rss st"
  "vm_stack_top (set_mem m st) = vm_stack_top st" "vm_stack_base (set_mem m st) = vm_stack_base st"
  "vm_pstate (set_mem m st) = vm_pstate st"
  by (simp_all add: set_mem_def vm_mem_def)

lemma vm_alloc_page_spec:
  assumes inv: "vm_inv st F"
  shows "\<exists>p z F'. vm_alloc_page st = Some (p, st\<lparr>vm_zone := z\<rparr>) \<and> vm_inv (st\<lparr>vm_zone := z\<rparr>) F' \<and> base_pfn z = base_pfn (vm_zone st) \<and>
     end_pfn z = end_pfn (vm_zone st) \<and>
     (if p = 0 then z = vm_zone st \<and> F' = F \<and> free_frames F = {}
      else zone_frame p \<and> frame_idx z p \<in> free_frames F \<and> free_frames F' = free_frames F - {frame_idx z p} \<and>
        unat p = 4096 * (base_pfn z + frame_idx z p))"
proof -
  have zi: "zone_inv (vm_zone st) F" using inv by (simp add: vm_inv_def)
  show ?thesis
  proof (cases "\<forall>k \<le> BUDDY_MAX_ORDER. F k = []")
    case True
    then have "buddy_alloc_pages 0 (vm_zone st) = Some (None, vm_zone st)"
      using buddy_alloc_inv[OF zi, of 0] by simp
    then have "vm_alloc_page st = Some (0, st\<lparr>vm_zone := vm_zone st\<rparr>)" by (simp add: vm_alloc_page_def alloc_pages_virt_def)
    moreover have "free_frames F = {}" using True by (auto simp: free_frames_def Buddy.blocks_def)
    ultimately show ?thesis using inv by fastforce
  next
    case False
    then have "\<not> (\<forall>k. 0 \<le> k \<and> k \<le> BUDDY_MAX_ORDER \<longrightarrow> F k = [])" by simp
    with buddy_alloc_inv[OF zi, of 0] obtain i z F' where a: "buddy_alloc_pages 0 (vm_zone st) = Some (Some i, z)" "zone_inv z F'"
        "frames 0 i \<subseteq> free_frames F" "free_frames F' = free_frames F - frames 0 i" "Buddy.block_ok z 0 i"
        "total_pages z = total_pages (vm_zone st)" "base_pfn z = base_pfn (vm_zone st)"
      by (auto split: if_splits)
    have i: "i < total_pages z" "frames 0 i = {i}" using a(5) by (auto simp: Buddy.block_ok_def)
    have ends: "end_pfn z = base_pfn z + total_pages z" "end_pfn z = end_pfn (vm_zone st)" "pg_pfn (pages z i) = base_pfn z + i"
      using a(2,6,7) zi i(1) by (auto simp: zone_inv_def)
    define p where "p = (of_nat (4096 * (base_pfn z + i)) :: u64)"
    have lim: "2 ^ 32 \<le> 4096 * (base_pfn z + i)" "4096 * (base_pfn z + i) + 4096 \<le> 2 ^ 52"
      using inv a(6,7) ends(1,2) i(1) by (auto simp: vm_inv_def)
    have up: "unat p = 4096 * (base_pfn z + i)"
      unfolding p_def unat_of_nat by (rule mod_less) (use lim(2) in simp)
    have p0: "p \<noteq> 0" using up lim(1) by (metis unat_0 not_numeral_le_zero power_0 zero_neq_numeral le_zero_eq power_not_zero)
    have "vm_alloc_page st = Some (p, st\<lparr>vm_zone := z\<rparr>)"
      using a(1) ends(3) by (simp add: vm_alloc_page_def alloc_pages_virt_def page_to_virt_def p_def mult.commute)
    moreover have "vm_inv (st\<lparr>vm_zone := z\<rparr>) F'" using inv a(2,7) ends(2) by (simp add: vm_inv_def)
    moreover have "zone_frame p" "frame_idx z p = i" using up lim by (simp_all add: zone_frame_def frame_idx_def)
    ultimately show ?thesis using a(3,4,7) ends(2) i(2) p0 up by (intro exI[of _ p] exI[of _ z] exI[of _ F']) simp
  qed
qed

text \<open>Changes of the memory outside the page tables leave every translation as it is.\<close>

lemma pt_walk_frame:
  assumes ok: "pt_ok st pml4" and m: "\<And>t j. owned (pm_pool st) t \<Longrightarrow> unat j < 512 \<Longrightarrow> m (slot t j) = pm_mem st (slot t j)"
    and p: "path p"
  shows "pt_walk m pml4 p = pt_walk (pm_mem st) pml4 p"
  using p
proof (induction p rule: rev_induct)
  case (snoc i p)
  then have p: "path p" "unat i < 512" by (simp_all add: path_snoc)
  show ?case
  proof (cases "pt_walk (pm_mem st) pml4 p")
    case None
    then show ?thesis using snoc.IH[OF p(1)] by (simp add: pt_walk_append)
  next
    case (Some t)
    then have "m (slot t i) = pm_mem st (slot t i)" using m pt_okD(2)[OF ok p(1)] p(2) by blast
    then show ?thesis using snoc.IH[OF p(1)] Some by (simp add: pt_walk_append)
  qed
qed simp

lemma pt_frame:
  assumes ok: "pt_ok st pml4" and m: "\<And>t j. owned (pm_pool st) t \<Longrightarrow> unat j < 512 \<Longrightarrow> m (slot t j) = pm_mem st (slot t j)"
  shows "pt_ok (st\<lparr>pm_mem := m\<rparr>) pml4" "pt_entry (st\<lparr>pm_mem := m\<rparr>) pml4 v = pt_entry st pml4 v"
proof -
  have w: "pt_walk m pml4 p = pt_walk (pm_mem st) pml4 p" if "path p" for p
    by (rule pt_walk_frame[OF ok _ that]) (rule m)
  show "pt_ok (st\<lparr>pm_mem := m\<rparr>) pml4"
    unfolding pt_ok_def
  proof (intro conjI allI impI)
    show "pool_inv (pm_pool (st\<lparr>pm_mem := m\<rparr>))" using pt_okD(1)[OF ok] by simp
    show "owned (pm_pool (st\<lparr>pm_mem := m\<rparr>)) t" if "path p \<and> pt_walk (pm_mem (st\<lparr>pm_mem := m\<rparr>)) pml4 p = Some t" for p t
      using that w[of p] pt_okD(2)[OF ok, of p t] by simp
    show "p = q" if "path p \<and> path q \<and> pt_walk (pm_mem (st\<lparr>pm_mem := m\<rparr>)) pml4 p = Some t \<and>
        pt_walk (pm_mem (st\<lparr>pm_mem := m\<rparr>)) pml4 q = Some t" for p q t
      by (rule pt_okD(3)[OF ok]) (use that w in auto)
    show "pm_mem (st\<lparr>pm_mem := m\<rparr>) (slot t i) AND PAGE_SIZE_2M = 0"
      if a: "path (p @ [i]) \<and> length p = 2 \<and> pt_walk (pm_mem (st\<lparr>pm_mem := m\<rparr>)) pml4 p = Some t \<and>
        present (pm_mem (st\<lparr>pm_mem := m\<rparr>) (slot t i))" for p t i
    proof -
      have p: "path p" "unat i < 512" using a by (simp_all add: path_snoc)
      have t: "pt_walk (pm_mem st) pml4 p = Some t" using a w[OF p(1)] by simp
      have "m (slot t i) = pm_mem st (slot t i)" using m pt_okD(2)[OF ok p(1) t] p(2) by blast
      then show ?thesis using a t pt_okD(4)[OF ok, of p i t] by simp
    qed
  qed
  show "pt_entry (st\<lparr>pm_mem := m\<rparr>) pml4 v = pt_entry st pml4 v"
    using w[of "dir_path v"] m pt_okD(2)[OF ok, of "dir_path v"] by (auto simp: pt_entry_def path_dir Let_def split: option.splits)
qed

lemma table_below_frame:
  assumes "pool_inv pool" "owned pool t" "unat j < 512" "zone_frame p"
  shows "unat (slot t j) < unat p"
proof -
  have "4096 dvd unat t" "unat t < 2 ^ 32" by (rule owned_range[OF assms(1,2)])+
  then show ?thesis using unat_slot[OF _ assms(3), of t] assms(3,4) by (auto simp: zone_frame_def elim!: dvdE)
qed

lemma frame_write_ok:
  assumes ok: "pt_ok st pml4" and p: "zone_frame p"
    and m: "\<And>a. unat a < unat p \<Longrightarrow> m a = pm_mem st a"
  shows "pt_ok (st\<lparr>pm_mem := m\<rparr>) pml4" "pt_entry (st\<lparr>pm_mem := m\<rparr>) pml4 v = pt_entry st pml4 v"
  by (rule pt_frame[OF ok], rule m, erule (1) table_below_frame[OF pt_okD(1)[OF ok] _ _ p])+

lemma clear_page_below: "unat a < unat p \<Longrightarrow> clear_page m p a = m a"
  and copy_page_below: "unat a < unat p \<Longrightarrow> copy_page m p q a = m a"
  by (simp_all add: clear_page_def copy_page_def)

subsection \<open>The entry the copy-on-write code finds\<close>

text \<open>
  \<open>pagefault.c\<close> takes the address out of an entry with the mask \<open>~0xFFF\<close>, the page table code with
  \<open>PTE_ADDR\<close>. The two agree on the upper levels, whose entries carry no flags above bit 51.
\<close>

definition plain :: "(u64 \<Rightarrow> u64) \<Rightarrow> u64 \<Rightarrow> bool" where
  "plain m pml4 \<longleftrightarrow> (\<forall>p t i. path (p @ [i]) \<and> pt_walk m pml4 p = Some t \<and> present (m (slot t i)) \<longrightarrow>
     m (slot t i) AND NOT 0xFFF = PTE_ADDR (m (slot t i)))"

lemma plainD:
  "plain m pml4 \<Longrightarrow> path (p @ [i]) \<Longrightarrow> pt_walk m pml4 p = Some t \<Longrightarrow> present (m (slot t i)) \<Longrightarrow>
   m (slot t i) AND NOT 0xFFF = PTE_ADDR (m (slot t i))"
  unfolding plain_def by blast

lemma pte_slot_walk:
  assumes "plain m pml4"
  shows "pte_slot m pml4 v = map_option (\<lambda>t. slot t (idx_pt v)) (pt_walk m pml4 (dir_path v))"
proof -
  have p: "path ([] @ [idx_pml4 v])" "path ([idx_pml4 v] @ [idx_pdpt v])" "path ([idx_pml4 v, idx_pdpt v] @ [idx_pd v])"
    using path_dir by simp_all
  have np: "e AND 1 = 0 \<longleftrightarrow> \<not> present e" for e by (simp add: present_def)
  show ?thesis
    using plainD[OF assms p(1)] plainD[OF assms p(2)] plainD[OF assms p(3)]
    by (auto simp: pte_slot_def Let_def np)
qed

lemma plain_frame:
  assumes "pt_ok st pml4" "plain (pm_mem st) pml4" "\<And>t j. owned (pm_pool st) t \<Longrightarrow> unat j < 512 \<Longrightarrow> m (slot t j) = pm_mem st (slot t j)"
  shows "plain m pml4"
  unfolding plain_def
proof (intro allI impI)
  fix p t i assume a: "path (p @ [i]) \<and> pt_walk m pml4 p = Some t \<and> present (m (slot t i))"
  have p: "path p" "unat i < 512" using a by (simp_all add: path_snoc)
  have t: "pt_walk (pm_mem st) pml4 p = Some t" using a pt_walk_frame[OF assms(1,3) p(1)] by simp
  have "m (slot t i) = pm_mem st (slot t i)" using assms(3) pt_okD(2)[OF assms(1) p(1) t] p(2) by blast
  then show "m (slot t i) AND NOT 0xFFF = PTE_ADDR (m (slot t i))" using a t plainD[OF assms(2), of p i t] by simp
qed

lemma plain_write:
  assumes ok: "pt_ok st pml4" and pl: "plain (pm_mem st) pml4" and w: "pt_walk (pm_mem st) pml4 (dir_path v) = Some pt"
  shows "plain ((pm_mem st)(slot pt (idx_pt v) := e)) pml4"
  unfolding plain_def
proof (intro allI impI)
  let ?m = "(pm_mem st)(slot pt (idx_pt v) := e)"
  fix p t i assume a: "path (p @ [i]) \<and> pt_walk ?m pml4 p = Some t \<and> present (?m (slot t i))"
  have p: "path p" "unat i < 512" "length p < 3" using a by (simp_all add: path_snoc)
  have t: "pt_walk (pm_mem st) pml4 p = Some t" using a write_walk[OF ok w p(1)] by simp
  have "slot t i \<noteq> slot pt (idx_pt v)"
    using pt_slot_inj[OF ok p(1) t p(2) path_dir(1) w idx_less(4)] p(3) by fastforce
  then show "?m (slot t i) AND NOT 0xFFF = PTE_ADDR (?m (slot t i))" using a t plainD[OF pl, of p i t] by simp
qed

lemma table_entry_plain:
  assumes "4096 dvd unat t" "unat t < 2 ^ 52"
  shows "(t OR 3) AND NOT 0xFFF = PTE_ADDR (t OR 3)"
proof -
  have "PTE_ADDR (t OR 3) = t" by (rule PTE_ADDR_table[OF assms low_flags])
  moreover have "(t OR 3) AND NOT 0xFFF = t"
  proof (rule bit_word_eqI)
    fix n assume "n < LENGTH(64)"
    moreover have "bit (0xFFF :: u64) n \<longleftrightarrow> n < 12"
      using bit_mask_iff[of 12 n, where 'a = u64] \<open>n < LENGTH(64)\<close> by (simp add: mask_eq_exp_minus_1)
    moreover have "bit (3 :: u64) n \<Longrightarrow> n < 12" using bit_mask_iff[of 2 n, where 'a = u64] by (simp add: mask_eq_exp_minus_1)
    ultimately show "bit ((t OR 3) AND NOT 0xFFF) n = bit t n"
      using aligned_bits[OF assms(1), of n] by (auto simp: bit_simps)
  qed
  ultimately show ?thesis by simp
qed

lemma plain_get_or_alloc:
  assumes ok: "pt_ok st pml4" and pl: "plain (pm_mem st) pml4"
    and p: "path (p @ [i])" "pt_walk (pm_mem st) pml4 p = Some u" and get: "pmap_get_or_alloc_table st (slot u i) = (t, st')"
  shows "plain (pm_mem st') pml4"
  using ok get
proof (cases rule: get_or_alloc_cases)
  case (new pool')
  have i: "path p" "unat i < 512" using p(1) by (simp_all add: path_snoc)
  note al = alloc_table[OF pt_okD(1)[OF ok] new(2)]
  have t: "4096 dvd unat t" "unat t < 2 ^ 52"
    using owned_range(1)[OF al(1) al(3)[OF new(3)]] owned_range(3)[OF al(1) al(3)[OF new(3)]] by simp_all
  let ?m = "hung (pm_mem st) u i t"
  have "plain ?m pml4"
    unfolding plain_def
  proof (intro allI impI)
    fix q w j assume a: "path (q @ [j]) \<and> pt_walk ?m pml4 q = Some w \<and> present (?m (slot w j))"
    have q: "path q" "unat j < 512" using a by (simp_all add: path_snoc)
    from a have "pt_walk (pm_mem st) pml4 q = Some w \<or> q = p @ [i] \<and> w = t"
      using hung_walk[OF ok new(2,3) i(1) p(2) i(2) new(1) q(1)] by simp
    then show "?m (slot w j) AND NOT 0xFFF = PTE_ADDR (?m (slot w j))"
    proof
      assume w: "pt_walk (pm_mem st) pml4 q = Some w"
      show ?thesis
      proof (cases "(q, j) = (p, i)")
        case True
        then have "w = u" using w p(2) by simp
        then show ?thesis using True hung_slot(2)[OF ok new(2,3) i(1) p(2) i(2)] table_entry_plain[OF t] by simp
      next
        case False
        then show ?thesis
          using hung_slot(1)[OF ok new(2,3) i(1) p(2) i(2) q(1) w q(2) False] a w plainD[OF pl, of q j w] by simp
      qed
    next
      assume "q = p @ [i] \<and> w = t"
      then show ?thesis using a hung_slot(3)[OF ok new(2,3) i(1) p(2) i(2) q(2)] by simp
    qed
  qed
  then show ?thesis using new(4) by simp
qed (use pl in simp_all)

text \<open>What the steps of \<open>pmap_map_page\<close> keep, the whole call keeps.\<close>

lemma pmap_map_page_keeps:
  assumes ok: "pt_ok st pml4" and Q: "Q st" and map: "pmap_map_page st pml4 v pa f = (r, st')"
    and step: "\<And>st p i u t st'. pt_ok st pml4 \<Longrightarrow> Q st \<Longrightarrow> path (p @ [i]) \<Longrightarrow> pt_walk (pm_mem st) pml4 p = Some u \<Longrightarrow>
      pmap_get_or_alloc_table st (slot u i) = (t, st') \<Longrightarrow> Q st'"
    and leaf: "\<And>st u e. pt_ok st pml4 \<Longrightarrow> Q st \<Longrightarrow> pt_walk (pm_mem st) pml4 (dir_path v) = Some u \<Longrightarrow>
      Q (st\<lparr>pm_mem := (pm_mem st)(slot u (idx_pt v) := e)\<rparr>)"
  shows "Q st'"
proof -
  have nz: "pml4 \<noteq> 0"
    using owned_range(2)[OF pt_okD(1)[OF ok] pt_okD(2)[OF ok path_dir(4)]] by simp
  have w0: "pt_walk (pm_mem st) pml4 [] = Some pml4" by simp
  have p: "path ([] @ [idx_pml4 v])" "path ([idx_pml4 v] @ [idx_pdpt v])" "path ([idx_pml4 v, idx_pdpt v] @ [idx_pd v])"
    using path_dir by simp_all
  obtain t1 st1 where g1: "pmap_get_or_alloc_table st (slot pml4 (idx_pml4 v)) = (t1, st1)" by fastforce
  obtain t2 st2 where g2: "pmap_get_or_alloc_table st1 (slot t1 (idx_pdpt v)) = (t2, st2)" by fastforce
  obtain t3 st3 where g3: "pmap_get_or_alloc_table st2 (slot t2 (idx_pd v)) = (t3, st3)" by fastforce
  note s1 = get_or_alloc_spec[OF ok p(1) w0 g1] and l1 = step[OF ok Q p(1) w0 g1]
  show ?thesis
  proof (cases "t1 = 0")
    case True
    then show ?thesis using map nz g1 l1 by (auto simp: pmap_map_page_def)
  next
    case t1: False
    have w1: "pt_walk (pm_mem st1) pml4 [idx_pml4 v] = Some t1" using s1(3)[OF t1] by (simp only: append.simps)
    note s2 = get_or_alloc_spec[OF s1(1) p(2) w1 g2] and l2 = step[OF s1(1) l1 p(2) w1 g2]
    show ?thesis
    proof (cases "t2 = 0")
      case True
      then show ?thesis using map nz g1 g2 t1 l2 by (auto simp: pmap_map_page_def)
    next
      case t2: False
      have w2: "pt_walk (pm_mem st2) pml4 [idx_pml4 v, idx_pdpt v] = Some t2" using s2(3)[OF t2] by (simp only: append.simps)
      note s3 = get_or_alloc_spec[OF s2(1) p(3) w2 g3] and l3 = step[OF s2(1) l2 p(3) w2 g3]
      have w3: "pt_walk (pm_mem st3) pml4 (dir_path v) = Some t3" if "t3 \<noteq> 0"
        using s3(3)[OF that] by (simp only: append.simps)
      show ?thesis
        using map nz g1 g2 g3 t1 t2 l3 leaf[OF s3(1) l3 w3]
        by (cases "t3 = 0") (auto simp: pmap_map_page_def)
    qed
  qed
qed

lemma plain_map_page:
  assumes ok: "pt_ok st pml4" and pl: "plain (pm_mem st) pml4" and map: "pmap_map_page st pml4 v pa f = (r, st')"
  shows "plain (pm_mem st') pml4"
  by (rule pmap_map_page_keeps[OF ok _ map, where Q = "\<lambda>s. plain (pm_mem s) pml4"])
    (auto intro: pl plain_get_or_alloc plain_write)

text \<open>Mapping a page leaves the frames alone.\<close>

lemma map_page_frames:
  assumes ok: "pt_ok st pml4" and map: "pmap_map_page st pml4 v pa f = (r, st')" and a: "2 ^ 32 \<le> unat a"
  shows "pm_mem st' a = pm_mem st a"
proof -
  have tab: "slot u i \<noteq> a" if "pt_ok s pml4" "path p" "pt_walk (pm_mem s) pml4 p = Some u" "unat i < 512" for s p u i
  proof
    assume "slot u i = a"
    moreover have u: "4096 dvd unat u" "unat u < 2 ^ 32" using owned_range[OF pt_okD(1)[OF that(1)] pt_okD(2)[OF that(1-3)]] by blast+
    ultimately have "2 ^ 32 \<le> unat u + 8 * unat i" using a unat_slot[OF u(1) that(4)] by simp
    then show False using u that(4) by (auto elim!: dvdE)
  qed
  show ?thesis
proof (rule pmap_map_page_keeps[OF ok _ map, where Q = "\<lambda>s. pm_mem s a = pm_mem st a"])
  fix s p i u t s'
  assume s: "pt_ok s pml4" "pm_mem s a = pm_mem st a" "path (p @ [i])" "pt_walk (pm_mem s) pml4 p = Some u"
    "pmap_get_or_alloc_table s (slot u i) = (t, s')"
  have p: "path p" "unat i < 512" using s(3) by (simp_all add: path_snoc)
  show "pm_mem s' a = pm_mem st a"
    using s(1,5)
  proof (cases rule: get_or_alloc_cases)
    case (new pool')
    note al = alloc_table[OF pt_okD(1)[OF s(1)] new(2)]
    have "4096 dvd unat t" "unat t < 2 ^ 32" using owned_range[OF al(1) al(3)[OF new(3)]] by blast+
    then have "\<not> unat a < unat t + 4096" using a by (auto elim!: dvdE)
    then have "clear_page (pm_mem s) t a = pm_mem s a" by (simp add: clear_page_def)
    moreover have "slot u i \<noteq> a" by (rule tab[OF s(1) p(1) s(4) p(2)])
    ultimately show ?thesis using new(1,2,3) s(2,5) by (auto simp: pmap_get_or_alloc_table_def)
  qed (use s in auto)
next
  fix s u e assume s: "pt_ok s pml4" "pm_mem s a = pm_mem st a" "pt_walk (pm_mem s) pml4 (dir_path v) = Some u"
  have "slot u (idx_pt v) \<noteq> a" by (rule tab[OF s(1) path_dir(1) s(3) idx_less(4)])
  then show "pm_mem (s\<lparr>pm_mem := (pm_mem s)(slot u (idx_pt v) := e)\<rparr>) a = pm_mem st a" using s(2) by simp
qed simp
qed

subsection \<open>Resolving a write to a shared page\<close>

definition vm_ok :: "vm_state \<Rightarrow> (nat \<Rightarrow> nat list) \<Rightarrow> bool" where
  "vm_ok st F \<longleftrightarrow> vm_inv st F \<and> plain (vm_mem st) (pm_cr3 (vm_pmap st))"

abbreviation vm_entry :: "vm_state \<Rightarrow> u64 \<Rightarrow> u64 option" where
  "vm_entry st v \<equiv> pt_entry (vm_pmap st) (pm_cr3 (vm_pmap st)) v"

lemma vm_entry_slot:
  assumes ok: "vm_ok st F" and e: "vm_entry st v = Some e"
  obtains t where "pt_walk (vm_mem st) (pm_cr3 (vm_pmap st)) (dir_path v) = Some t"
    "pte_slot (vm_mem st) (pm_cr3 (vm_pmap st)) v = Some (slot t (idx_pt v))" "vm_mem st (slot t (idx_pt v)) = e"
    "owned (pm_pool (vm_pmap st)) t" "present e"
proof -
  have pt: "pt_ok (vm_pmap st) (pm_cr3 (vm_pmap st))" using ok by (simp add: vm_ok_def vm_inv_def)
  obtain t where t: "pt_walk (vm_mem st) (pm_cr3 (vm_pmap st)) (dir_path v) = Some t"
      "vm_mem st (slot t (idx_pt v)) = e" "present e"
    using e by (auto simp: pt_entry_def vm_mem_def Let_def split: option.splits if_splits)
  moreover have "pte_slot (vm_mem st) (pm_cr3 (vm_pmap st)) v = Some (slot t (idx_pt v))"
    using ok t(1) by (simp add: vm_ok_def pte_slot_walk del: pt_walk.simps)
  moreover have "owned (pm_pool (vm_pmap st)) t"
    using pt_okD(2)[OF pt path_dir(1)] t(1) by (simp add: vm_mem_def del: pt_walk.simps)
  ultimately show ?thesis using that by blast
qed

text \<open>Writing one frame of the zone and then one entry keeps the tables and changes that entry only.\<close>

lemma vm_write_frame_entry:
  assumes ok: "vm_ok st F" and e: "vm_entry st v = Some e0" and p: "zone_frame p"
    and m: "\<And>a. unat a < unat p \<Longrightarrow> m a = vm_mem st a" and s: "pte_slot (vm_mem st) (pm_cr3 (vm_pmap st)) v = Some sl"
  shows "vm_ok (set_mem (m(sl := e)) st) F"
    "vm_entry (set_mem (m(sl := e)) st) w = (if same_page w v then if present e then Some e else None else vm_entry st w)"
proof -
  let ?c = "pm_cr3 (vm_pmap st)"
  have pt: "pt_ok (vm_pmap st) ?c" and pl: "plain (vm_mem st) ?c" using ok by (simp_all add: vm_ok_def vm_inv_def)
  obtain t where t: "pt_walk (vm_mem st) ?c (dir_path v) = Some t" "sl = slot t (idx_pt v)"
    using vm_entry_slot[OF ok e] s by (metis option.inject)
  have tab: "m (slot u j) = pm_mem (vm_pmap st) (slot u j)" if "owned (pm_pool (vm_pmap st)) u" "unat j < 512" for u j
    using m table_below_frame[OF pt_okD(1)[OF pt] that p] by (simp add: vm_mem_def)
  let ?s = "(vm_pmap st)\<lparr>pm_mem := m\<rparr>"
  have ok1: "pt_ok ?s ?c" by (rule pt_frame(1)[OF pt tab])
  have pl1: "plain (pm_mem ?s) ?c"
    using plain_frame[OF pt pl[unfolded vm_mem_def] tab] by simp
  have "pt_walk m ?c (dir_path v) = pt_walk (vm_mem st) ?c (dir_path v)"
    unfolding vm_mem_def by (rule pt_walk_frame[OF pt tab path_dir(1)])
  then have w: "pt_walk (pm_mem ?s) ?c (dir_path v) = Some t" using t(1) by simp
  show "vm_ok (set_mem (m(sl := e)) st) F"
    using write_ok[OF ok1 w, of e] plain_write[OF ok1 pl1 w, of e] ok t(2) by (simp add: vm_ok_def vm_inv_def)
  show "vm_entry (set_mem (m(sl := e)) st) w = (if same_page w v then if present e then Some e else None else vm_entry st w)"
    using write_entry[OF ok1 w, of e w] pt_frame(2)[OF pt tab, of w] t(2) by simp
qed

lemma cow_resolve_spec:
  assumes ok: "vm_ok st F" and e: "vm_entry st v = Some e" "e AND PAGE_COW_FLAG \<noteq> 0" and free: "free_frames F \<noteq> {}"
  shows "\<exists>st' F' p. cow_resolve_fault v st = Some (0, st') \<and> vm_ok st' F' \<and>
     zone_frame p \<and> frame_idx (vm_zone st) p \<in> free_frames F \<and> free_frames F' = free_frames F - {frame_idx (vm_zone st) p} \<and>
     vm_entry st' v = Some (((p OR (e AND 0xFFF)) OR PAGE_WRITABLE) AND NOT PAGE_COW_FLAG) \<and>
     (\<forall>i < 512. vm_mem st' (p + 8 * of_nat i) = vm_mem st ((e AND NOT 0xFFF) + 8 * of_nat i)) \<and>
     (\<forall>w. \<not> same_page w v \<longrightarrow> vm_entry st' w = vm_entry st w)"
proof -
  let ?c = "pm_cr3 (vm_pmap st)"
  have inv: "vm_inv st F" using ok by (simp add: vm_ok_def)
  obtain p z F' where a: "vm_alloc_page st = Some (p, st\<lparr>vm_zone := z\<rparr>)" "vm_inv (st\<lparr>vm_zone := z\<rparr>) F'"
      "base_pfn z = base_pfn (vm_zone st)" "p \<noteq> 0" "zone_frame p" "frame_idx z p \<in> free_frames F"
      "free_frames F' = free_frames F - {frame_idx z p}"
    using vm_alloc_page_spec[OF inv] free by (auto split: if_splits)
  let ?s1 = "st\<lparr>vm_zone := z\<rparr>"
  have mem: "vm_mem ?s1 = vm_mem st" "vm_pmap ?s1 = vm_pmap st" by (simp_all add: vm_mem_def)
  have ok1: "vm_ok ?s1 F'" using ok a(2) by (simp add: vm_ok_def vm_mem_def)
  obtain t where t: "pte_slot (vm_mem st) ?c v = Some (slot t (idx_pt v))" "vm_mem st (slot t (idx_pt v)) = e"
      "owned (pm_pool (vm_pmap st)) t" "present e"
    using vm_entry_slot[OF ok e(1)] by metis
  define sl where "sl = slot t (idx_pt v)"
  have low: "unat sl < unat p"
    unfolding sl_def using inv by (intro table_below_frame[OF _ t(3) idx_less(4) a(5)]) (auto simp: vm_inv_def dest: pt_okD(1))
  define m1 where "m1 = copy_page (vm_mem st) p ((e AND NOT 0xFFF))"
  define e' where "e' = ((p OR (e AND 0xFFF)) OR PAGE_WRITABLE) AND NOT PAGE_COW_FLAG"
  define st' where "st' = (set_mem (m1(sl := e')) ?s1)\<lparr>vm_rss := vm_rss st + 4096\<rparr>"
  have "e AND 1 \<noteq> 0" using t(4) by (simp add: present_def)
  then have run: "cow_resolve_fault v st = Some (0, st')"
    using a(1,4) e(2) t(1,2) mem(1) unfolding st'_def m1_def e'_def sl_def
    by (simp add: cow_resolve_fault_def Let_def)
  have "m1 x = vm_mem ?s1 x" if "unat x < unat p" for x
    using that by (simp add: m1_def mem copy_page_below)
  note wr = vm_write_frame_entry[OF ok1, of v e p m1 sl e', unfolded mem, OF e(1) a(5) this[unfolded mem] t(1)[folded sl_def]]
  have ok': "vm_ok st' F'" using wr(1) by (simp add: st'_def vm_ok_def vm_inv_def vm_mem_def)
  have ent: "vm_entry st' w = (if same_page w v then if present e' then Some e' else None else vm_entry st w)" for w
    using wr(2)[of w] by (simp add: st'_def)
  have "present e'"
  proof -
    have "bit e 0" using \<open>e AND 1 \<noteq> 0\<close> by (simp add: and_exp_eq_0_iff_not_bit[of e 0, simplified])
    then have "bit e' 0" by (simp add: e'_def bit_simps)
    then show ?thesis using and_exp_eq_0_iff_not_bit[of e' 0] by (simp add: present_def)
  qed
  moreover have "same_page v v" by (simp add: same_page_def)
  moreover have "vm_mem st' (p + 8 * of_nat i) = vm_mem st ((e AND NOT 0xFFF) + 8 * of_nat i)" if "i < 512" for i
  proof -
    have "unat (p + 8 * of_nat i) = unat p + 8 * i"
      using a(5) that by (simp add: zone_frame_def unat_word_ariths unat_of_nat)
    then have "sl \<noteq> p + 8 * of_nat i" "copy_page (vm_mem st) p ((e AND NOT 0xFFF)) (p + 8 * of_nat i) = vm_mem st ((e AND NOT 0xFFF) + 8 * of_nat i)"
      using low that by (auto simp: copy_page_def)
    then show ?thesis by (simp add: st'_def m1_def vm_mem_def)
  qed
  ultimately show ?thesis
    using run ok' ent a(3,5-7) by (intro exI[of _ st'] exI[of _ F'] exI[of _ p]) (simp add: frame_idx_def e'_def)
qed

text \<open>
  C25. Copy on write gives the writer a page of its own. If the entry of the faulting page is marked
  copy on write and has no flag above bit 51, resolving the fault succeeds as long as the zone has a free frame: the page
  is then mapped writable to a frame that was free, that frame holds the bytes of the shared page,
  and no other page is translated differently.
\<close>

theorem cow_gives_private_copy:
  assumes ok: "vm_ok st F" and e: "vm_entry st v = Some e" "e AND PAGE_COW_FLAG \<noteq> 0" "e AND NOT 0xFFF = PTE_ADDR e"
    and free: "free_frames F \<noteq> {}"
  shows "\<exists>st' F' p. cow_resolve_fault v st = Some (0, st') \<and> vm_ok st' F' \<and>
     zone_frame p \<and> frame_idx (vm_zone st) p \<in> free_frames F \<and> free_frames F' = free_frames F - {frame_idx (vm_zone st) p} \<and>
     vm_entry st' v = Some (((p OR (e AND 0xFFF)) OR PAGE_WRITABLE) AND NOT PAGE_COW_FLAG) \<and>
     (\<forall>i < 512. vm_mem st' (p + 8 * of_nat i) = vm_mem st (PTE_ADDR e + 8 * of_nat i)) \<and>
     (\<forall>w. \<not> same_page w v \<longrightarrow> vm_entry st' w = vm_entry st w)"
  using cow_resolve_spec[OF ok e(1,2) free] unfolding e(3) .

text \<open>
  The copy is taken from the wrong place when the entry forbids execution, as all entries of mappings
  without \<open>PROT_EXEC\<close> do: the mask keeps bit 63, and the new entry loses it.
\<close>

lemma cow_loses_no_exec:
  assumes ok: "vm_ok st F" and e: "vm_entry st v = Some e" "e AND PAGE_COW_FLAG \<noteq> 0" "bit e 63" and free: "free_frames F \<noteq> {}"
  shows "\<exists>st' p e'. cow_resolve_fault v st = Some (0, st') \<and> zone_frame p \<and> vm_mem st' p = vm_mem st (e AND NOT 0xFFF) \<and>
     bit (e AND NOT 0xFFF) 63 \<and> vm_entry st' v = Some e' \<and> \<not> bit e' 63"
proof -
  obtain st' F' p where s: "cow_resolve_fault v st = Some (0, st')" "zone_frame p"
      "vm_entry st' v = Some (((p OR (e AND 0xFFF)) OR PAGE_WRITABLE) AND NOT PAGE_COW_FLAG)"
      "\<forall>i < 512. vm_mem st' (p + 8 * of_nat i) = vm_mem st ((e AND NOT 0xFFF) + 8 * of_nat i)"
    using cow_resolve_spec[OF ok e(1,2) free] by blast
  have hi: "\<not> bit (0xFFF :: u64) 63" "\<not> bit (2 :: u64) 63" by simp_all
  have "unat p < 2 ^ 52" using s(2) by (simp add: zone_frame_def)
  then have "\<not> bit p 63" using small_bits[of p 52 63] by auto
  then have "\<not> bit (((p OR (e AND 0xFFF)) OR 2) AND NOT 0x200) 63" using hi by (simp add: bit_simps)
  moreover have "bit (e AND NOT 0xFFF) 63" using e(3) hi by (simp add: bit_simps)
  moreover have "vm_mem st' p = vm_mem st (e AND NOT 0xFFF)" using s(4)[rule_format, of 0] by simp
  ultimately show ?thesis using s(1-3) by blast
qed

subsection \<open>Demand paging\<close>

lemma vm_clear_frame:
  assumes ok: "vm_ok st F" and p: "zone_frame p"
  shows "vm_ok (set_mem (clear_page (vm_mem st) p) st) F" "vm_entry (set_mem (clear_page (vm_mem st) p) st) w = vm_entry st w"
proof -
  let ?c = "pm_cr3 (vm_pmap st)"
  have pt: "pt_ok (vm_pmap st) ?c" and pl: "plain (vm_mem st) ?c" using ok by (simp_all add: vm_ok_def vm_inv_def)
  have tab: "clear_page (vm_mem st) p (slot u j) = pm_mem (vm_pmap st) (slot u j)"
    if "owned (pm_pool (vm_pmap st)) u" "unat j < 512" for u j
    using clear_page_below[OF table_below_frame[OF pt_okD(1)[OF pt] that p]] by (simp add: vm_mem_def)
  show "vm_ok (set_mem (clear_page (vm_mem st) p) st) F"
    using pt_frame(1)[OF pt tab] plain_frame[OF pt pl[unfolded vm_mem_def] tab] ok by (simp add: vm_ok_def vm_inv_def)
  show "vm_entry (set_mem (clear_page (vm_mem st) p) st) w = vm_entry st w"
    using pt_frame(2)[OF pt tab, of w] by simp
qed

lemma pmap_map_page_cr3 [simp]: "pm_cr3 (snd (pmap_map_page st pml4 v pa f)) = pm_cr3 st"
proof -
  have "pm_cr3 (snd (pmap_get_or_alloc_table st x)) = pm_cr3 st" for st x
    by (simp add: pmap_get_or_alloc_table_def split: prod.splits)
  then show ?thesis by (simp add: pmap_map_page_def Let_def split_beta)
qed

lemma vm_map_page_spec:
  assumes ok: "vm_ok st F" and map: "vm_map_page (pm_cr3 (vm_pmap st)) v p f st = (r, st')"
  shows "vm_ok st' F" "r \<noteq> 0 \<Longrightarrow> vm_entry st' w = vm_entry st w"
    "r = 0 \<Longrightarrow> vm_entry st' w = (if same_page w v then Some (PTE_FLAGS p (f OR PAGE_PRESENT)) else vm_entry st w)"
    "pm_cr3 (vm_pmap st') = pm_cr3 (vm_pmap st)" "vm_zone st' = vm_zone st" "vm_stack_top st' = vm_stack_top st"
proof -
  let ?c = "pm_cr3 (vm_pmap st)"
  have pt: "pt_ok (vm_pmap st) ?c" and pl: "plain (vm_mem st) ?c" using ok by (simp_all add: vm_ok_def vm_inv_def)
  obtain pm where pm: "pmap_map_page (vm_pmap st) ?c v p f = (r, pm)" "st' = st\<lparr>vm_pmap := pm\<rparr>"
    using map by (auto simp: vm_map_page_def split: prod.splits)
  show c: "pm_cr3 (vm_pmap st') = ?c" using pmap_map_page_cr3[of "vm_pmap st" ?c v p f] pm by simp
  show "vm_zone st' = vm_zone st" "vm_stack_top st' = vm_stack_top st" using pm(2) by simp_all
  note sp = pmap_map_page_spec[OF pt pm(1)]
  show "vm_ok st' F"
    using sp(1) plain_map_page[OF pt pl[unfolded vm_mem_def] pm(1)] ok pm(2) c by (simp add: vm_ok_def vm_inv_def vm_mem_def)
  show "r \<noteq> 0 \<Longrightarrow> vm_entry st' w = vm_entry st w" using sp(2)[of w] pm(2) c by simp
  show "r = 0 \<Longrightarrow> vm_entry st' w = (if same_page w v then Some (PTE_FLAGS p (f OR PAGE_PRESENT)) else vm_entry st w)"
    using sp(3)[of w] pm(2) c by simp
qed

lemma demand_page_spec:
  assumes ok: "vm_ok st F" and run: "demand_page_alloc v f st = Some (0, st')"
  shows "\<exists>F' p. vm_ok st' F' \<and> zone_frame p \<and> frame_idx (vm_zone st) p \<in> free_frames F \<and>
     free_frames F' = free_frames F - {frame_idx (vm_zone st) p} \<and> vm_stack_top st' = vm_stack_top st \<and>
     (\<forall>w. vm_entry st' w = (if same_page w v then Some (p OR (f OR PAGE_PRESENT)) else vm_entry st w)) \<and>
     base_pfn (vm_zone st') = base_pfn (vm_zone st) \<and>
     (\<forall>a. 2 ^ 32 \<le> unat a \<longrightarrow> vm_mem st' a = (if unat p \<le> unat a \<and> unat a < unat p + 4096 then 0 else vm_mem st a))"
proof -
  have inv: "vm_inv st F" using ok by (simp add: vm_ok_def)
  obtain p z F' where a: "vm_alloc_page st = Some (p, st\<lparr>vm_zone := z\<rparr>)" "vm_inv (st\<lparr>vm_zone := z\<rparr>) F'"
      "base_pfn z = base_pfn (vm_zone st)" "p \<noteq> 0 \<Longrightarrow> zone_frame p \<and> frame_idx z p \<in> free_frames F \<and>
      free_frames F' = free_frames F - {frame_idx z p}"
    using vm_alloc_page_spec[OF inv] by metis
  have p0: "p \<noteq> 0" using run a(1) by (auto simp: demand_page_alloc_def)
  let ?s1 = "st\<lparr>vm_zone := z\<rparr>"
  have ok1: "vm_ok ?s1 F'" using ok a(2) by (simp add: vm_ok_def vm_mem_def)
  define s2 where "s2 = set_mem (clear_page (vm_mem ?s1) p) ?s1"
  have fr: "zone_frame p" using a(4)[OF p0] by blast
  note cl = vm_clear_frame[OF ok1 fr, folded s2_def]
  obtain r s3 where m: "vm_map_page (pm_cr3 (vm_pmap s2)) v p (f OR PAGE_PRESENT) s2 = (r, s3)" by fastforce
  note sp = vm_map_page_spec[OF cl(1) m]
  have r: "r = 0" "s3 = st'"
    using run a(1) p0 m by (auto simp: demand_page_alloc_def Let_def s2_def split: if_splits)
  have "vm_entry st' w = (if same_page w v then Some (p OR (f OR PAGE_PRESENT)) else vm_entry st w)" for w
    using sp(3)[OF r(1), of w] cl(2)[of w] r(2) by (simp add: PTE_FLAGS_def or.assoc)
  moreover have "vm_stack_top st' = vm_stack_top st" using sp(6) r(2) by (simp add: s2_def)
  moreover have "vm_mem st' a = (if unat p \<le> unat a \<and> unat a < unat p + 4096 then 0 else vm_mem st a)" if "2 ^ 32 \<le> unat a" for a
  proof -
    have "pt_ok (vm_pmap s2) (pm_cr3 (vm_pmap s2))" using cl(1) by (simp add: vm_ok_def vm_inv_def)
    moreover have "pmap_map_page (vm_pmap s2) (pm_cr3 (vm_pmap s2)) v p (f OR PAGE_PRESENT) = (r, vm_pmap s3)"
      using m by (auto simp: vm_map_page_def split: prod.splits)
    ultimately have "vm_mem s3 a = vm_mem s2 a" using map_page_frames[OF _ _ that] by (auto simp: vm_mem_def)
    then show ?thesis using r(2) by (simp add: s2_def clear_page_def vm_mem_def)
  qed
  moreover have "base_pfn (vm_zone st') = base_pfn (vm_zone st)" using sp(5) r(2) a(3) by (simp add: s2_def)
  ultimately show ?thesis using sp(1) r(2) a(3) a(4)[OF p0] unfolding frame_idx_def by (intro exI[of _ F'] exI[of _ p]) simp
qed

text \<open>
  A page that demand paging brought in can never be written: its entry is present but not
  writable and not marked copy on write, so the first write of the process faults again and the
  handler kills the process.
\<close>

theorem demand_paged_write_kills:
  assumes "vm_ok st F" and "err AND PF_PRESENT = 0" "err AND PF_USER \<noteq> 0"
    and "cr2 > USER_STACK_TOP \<or> cr2 \<le> vm_stack_top st - MAX_STACK_SIZE"
    and "pagefault_handler err cr2 st = Some (Handled, st1)"
  shows "\<exists>st2. pagefault_handler (PF_PRESENT OR PF_WRITE OR PF_USER) cr2 st1 = Some (Killed, st2) \<and> vm_pstate st2 = PROCESS_DEAD"
proof -
  let ?s = "st\<lparr>vm_stats := snd (pf_classify err cr2 st)\<rparr>" and ?v = "cr2 AND NOT 0xFFF"
  have ok: "vm_ok ?s F" using assms(1) by (simp add: vm_ok_def vm_inv_def vm_mem_def)
  have "fst (pf_classify err cr2 st) = PF_CAUSE_NOT_PRESENT"
    using assms(2-4) by (auto simp: pf_classify_def Let_def not_less not_le)
  then have "demand_page_alloc ?v (PAGE_PRESENT OR PAGE_USER) ?s = Some (0, st1)"
    using assms(3,5) by (auto simp: pagefault_handler_def split_beta split: bind_splits if_splits)
  from demand_page_spec[OF ok this] obtain F' p where d: "vm_ok st1 F'" "zone_frame p"
      "vm_entry st1 cr2 = (if same_page cr2 ?v then Some (p OR ((PAGE_PRESENT OR PAGE_USER) OR PAGE_PRESENT)) else vm_entry ?s cr2)"
    by blast
  have "same_page cr2 ?v" by (simp add: same_page_def and.assoc)
  then have e: "vm_entry st1 cr2 = Some (p OR 5)" using d(3) by simp
  have ncow: "(p OR 5) AND PAGE_COW_FLAG = 0"
  proof -
    have "\<not> bit p 9" using aligned_bits[of p 9] d(2) by (auto simp: zone_frame_def)
    then have "\<not> bit (p OR 5) 9" by (simp add: bit_simps)
    then show ?thesis using and_exp_eq_0_iff_not_bit[of "p OR 5" 9] by simp
  qed
  let ?t = "st1\<lparr>vm_stats := snd (pf_classify 7 cr2 st1)\<rparr>"
  obtain sl where sl: "pte_slot (vm_mem st1) (pm_cr3 (vm_pmap st1)) cr2 = Some sl" "vm_mem st1 sl = p OR 5"
    using vm_entry_slot[OF d(1) e] by metis
  then have "cow_resolve_fault cr2 ?t = Some (- 1, ?t)"
    using ncow by (simp add: cow_resolve_fault_def vm_mem_def Let_def)
  moreover have "fst (pf_classify 7 cr2 st1) = PF_CAUSE_COW" by (simp add: pf_classify_def Let_def)
  ultimately show ?thesis by (auto simp: pagefault_handler_def split_beta)
qed

subsection \<open>A first address space\<close>

lemma demand_page_succeeds:
  assumes ok: "vm_ok st F" and free: "free_frames F \<noteq> {}" and room: "pool_room (pm_pool (vm_pmap st)) (n + 3)"
  shows "\<exists>st'. demand_page_alloc v f st = Some (0, st') \<and> pool_room (pm_pool (vm_pmap st')) n"
proof -
  have inv: "vm_inv st F" using ok by (simp add: vm_ok_def)
  obtain p z F' where a: "vm_alloc_page st = Some (p, st\<lparr>vm_zone := z\<rparr>)" "vm_inv (st\<lparr>vm_zone := z\<rparr>) F'" "p \<noteq> 0" "zone_frame p"
    using vm_alloc_page_spec[OF inv] free by metis
  let ?s1 = "st\<lparr>vm_zone := z\<rparr>"
  have "vm_ok ?s1 F'" using ok a(2) by (simp add: vm_ok_def vm_mem_def)
  then have "vm_ok (set_mem (clear_page (vm_mem ?s1) p) ?s1) F'" using vm_clear_frame(1) a(4) by blast
  then have "pt_ok ((vm_pmap st)\<lparr>pm_mem := clear_page (vm_mem ?s1) p\<rparr>) (pm_cr3 (vm_pmap st))" by (simp add: vm_ok_def vm_inv_def)
  then have "fst (pmap_map_page ((vm_pmap st)\<lparr>pm_mem := clear_page (vm_mem ?s1) p\<rparr>) (pm_cr3 (vm_pmap st)) v p (f OR PAGE_PRESENT)) = 0 \<and>
      pool_room (pm_pool (snd (pmap_map_page ((vm_pmap st)\<lparr>pm_mem := clear_page (vm_mem ?s1) p\<rparr>) (pm_cr3 (vm_pmap st)) v p (f OR PAGE_PRESENT)))) n"
    using pmap_map_page_succeeds room by fastforce
  then show ?thesis using a(1,3) by (simp add: demand_page_alloc_def vm_map_page_def split_beta Let_def)
qed

lemma cow_mark_spec:
  assumes ok: "vm_ok st F" and e: "vm_entry st v = Some e"
  shows "\<exists>st'. cow_mark_page (pm_cr3 (vm_pmap st)) v st = (0, st') \<and> vm_ok st' F \<and> vm_zone st' = vm_zone st \<and>
     (\<forall>w. vm_entry st' w = (if same_page w v then Some ((e AND NOT PAGE_WRITABLE) OR PAGE_COW_FLAG) else vm_entry st w))"
proof -
  let ?e = "(e AND NOT PAGE_WRITABLE) OR PAGE_COW_FLAG"
  obtain sl where sl: "pte_slot (vm_mem st) (pm_cr3 (vm_pmap st)) v = Some sl" "vm_mem st sl = e" "present e"
    using vm_entry_slot[OF ok e] by metis
  have fr: "zone_frame (2 ^ 32)" by (simp add: zone_frame_def)
  note wr = vm_write_frame_entry[OF ok e fr refl sl(1), of ?e]
  have "bit e 0" using sl(3) and_exp_eq_0_iff_not_bit[of e 0] by (simp add: present_def)
  then have "bit ?e 0" by (simp add: bit_simps)
  then have "present ?e" using and_exp_eq_0_iff_not_bit[of ?e 0] by (simp add: present_def)
  moreover have "cow_mark_page (pm_cr3 (vm_pmap st)) v st = (0, set_mem ((vm_mem st)(sl := ?e)) st)"
    using sl by (simp add: cow_mark_page_def present_def)
  ultimately show ?thesis using wr by auto
qed

lemma frame_flags:
  assumes "zone_frame p" "f < 0x1000"
  shows "(p OR f) AND NOT 0xFFF = p" "PTE_ADDR (p OR f) = p"
proof -
  have f: "n < 12" if "bit f n" for n
    using small_bits[of f 12 n] assms(2) that by (simp add: word_less_nat_alt)
  have p: "4096 dvd unat p" "unat p < 2 ^ 52" using assms(1) by (auto simp: zone_frame_def)
  show "PTE_ADDR (p OR f) = p" using f by (intro PTE_ADDR_table[OF p]) blast
  show "(p OR f) AND NOT 0xFFF = p"
  proof (rule bit_word_eqI)
    fix n assume "n < LENGTH(64)"
    moreover have "bit (0xFFF :: u64) n \<longleftrightarrow> n < 12"
      using bit_mask_iff[of 12 n, where 'a = u64] \<open>n < LENGTH(64)\<close> by (simp add: mask_eq_exp_minus_1)
    ultimately show "bit ((p OR f) AND NOT 0xFFF) n = bit p n"
      using aligned_bits[OF p(1), of n] f[of n] by (auto simp: bit_simps)
  qed
qed

text \<open>The address space of the boot processor's page tables and a zone of eight free frames above 4 GiB.\<close>

definition boot_vm :: vm_state where
  "boot_vm = \<lparr>vm_pmap = boot_pmap\<lparr>pm_cr3 := 0x100000\<rparr>, vm_zone = buddy_init 0x1007FF000 (9 * 4096), vm_rss = 0,
     vm_stack_top = 0x7FFFFFFFF000, vm_stack_base = 0x7FFFFFFFE000, vm_pstate = PROCESS_RUNNING,
     vm_stats = \<lparr>total_faults = 0, cow_faults = 0, demand_paging = 0, stack_expands = 0, protection_faults = 0, kernel_faults = 0\<rparr>\<rparr>"

lemma pt_ok_set_cr3: "pt_ok (st\<lparr>pm_cr3 := c\<rparr>) pml4 = pt_ok st pml4"
  by (simp add: pt_ok_def)

lemma boot_vm_ok: "\<exists>F. vm_ok boot_vm F \<and> free_frames F = {1..<9}" "pool_room (pm_pool (vm_pmap boot_vm)) 3"
    "pool_room (pm_pool (vm_pmap boot_vm)) 9"
proof -
  have zero: "pm_mem boot_pmap = (\<lambda>_. 0)"
    by (rule ext) (simp add: boot_pmap_def pmap_create_def clear_page_def Let_def split: prod.splits)
  have pt: "pt_ok (vm_pmap boot_vm) (pm_cr3 (vm_pmap boot_vm))"
    using boot_pmap_ok(1) by (simp add: boot_vm_def pt_ok_set_cr3)
  have pl: "plain (vm_mem boot_vm) (pm_cr3 (vm_pmap boot_vm))"
    by (simp add: plain_def boot_vm_def vm_mem_def zero)
  have ar: "array_pages (9 * 4096 div 4096) = 1" by (simp add: array_pages_def)
  have "2 ^ BUDDY_MAX_ORDER dvd 0x1007FF000 div 4096 + array_pages (9 * 4096 div 4096)" unfolding ar by simp
  from buddy_init_inv[OF this] obtain F where F: "zone_inv (vm_zone boot_vm) F" "free_frames F = {1..<9}"
      "total_pages (vm_zone boot_vm) = 9" "base_pfn (vm_zone boot_vm) = 0x1007FF"
    unfolding ar by (auto simp: boot_vm_def)
  have "end_pfn (vm_zone boot_vm) = 0x100808" using F(1,3,4) by (simp add: zone_inv_def)
  then have "vm_ok boot_vm F" using pt pl F by (simp add: vm_ok_def vm_inv_def)
  then show "\<exists>F. vm_ok boot_vm F \<and> free_frames F = {1..<9}" using F(2) by blast
  show "pool_room (pm_pool (vm_pmap boot_vm)) 3" "pool_room (pm_pool (vm_pmap boot_vm)) 9"
    using boot_pmap_ok(2,3) by (simp_all add: boot_vm_def)
qed

theorem demand_paged_write_kills_witness:
  "\<exists>st1 st2. pagefault_handler 4 0x400000 boot_vm = Some (Handled, st1) \<and>
     pagefault_handler 7 0x400000 st1 = Some (Killed, st2)"
proof -
  obtain F where F: "vm_ok boot_vm F" "free_frames F \<noteq> {}" using boot_vm_ok(1) by auto
  let ?s = "boot_vm\<lparr>vm_stats := snd (pf_classify 4 0x400000 boot_vm)\<rparr>"
  have "vm_ok ?s F" using F(1) by (simp add: vm_ok_def vm_inv_def vm_mem_def)
  then obtain st1 where st1: "demand_page_alloc 0x400000 (PAGE_PRESENT OR PAGE_USER) ?s = Some (0, st1)"
    using demand_page_succeeds[OF _ F(2), of ?s 0 "0x400000" "PAGE_PRESENT OR PAGE_USER"] boot_vm_ok(2) by auto
  have st: "vm_stack_top boot_vm = 0x7FFFFFFFF000" by (simp add: boot_vm_def)
  then have "fst (pf_classify 4 0x400000 boot_vm) = PF_CAUSE_NOT_PRESENT" by (simp add: pf_classify_def Let_def)
  then have "pagefault_handler 4 0x400000 boot_vm = Some (Handled, st1)"
    using st1 by (simp add: pagefault_handler_def split_beta)
  moreover from demand_paged_write_kills[OF F(1) _ _ _ this] st
  have "\<exists>st2. pagefault_handler 7 0x400000 st1 = Some (Killed, st2)" by auto
  ultimately show ?thesis by blast
qed

theorem cow_gives_private_copy_witness:
  "\<exists>st0 st e st'. demand_page_alloc 0x400000 4 boot_vm = Some (0, st0) \<and> cow_mark_page (pm_cr3 (vm_pmap st0)) 0x400000 st0 = (0, st) \<and>
     vm_entry st 0x400000 = Some e \<and> cow_resolve_fault 0x400000 st = Some (0, st')"
proof -
  obtain F where F: "vm_ok boot_vm F" "free_frames F = {1..<9}" using boot_vm_ok(1) by auto
  obtain st0 where st0: "demand_page_alloc 0x400000 4 boot_vm = Some (0, st0)"
    using demand_page_succeeds[OF F(1), of 0] boot_vm_ok(2) F(2) by fastforce
  obtain F' p where d: "vm_ok st0 F'" "zone_frame p" "free_frames F' = {1..<9} - {frame_idx (vm_zone boot_vm) p}"
      "vm_entry st0 0x400000 = Some (p OR (4 OR PAGE_PRESENT))"
    using demand_page_spec[OF F(1) st0] unfolding F(2) by (auto simp: same_page_def)
  let ?e = "((p OR (4 OR PAGE_PRESENT)) AND NOT PAGE_WRITABLE) OR PAGE_COW_FLAG"
  obtain st where st: "cow_mark_page (pm_cr3 (vm_pmap st0)) 0x400000 st0 = (0, st)" "vm_ok st F'" "vm_entry st 0x400000 = Some ?e"
    using cow_mark_spec[OF d(1,4)] by (auto simp: same_page_def)
  have "4096 dvd unat p" using d(2) by (simp add: zone_frame_def)
  from aligned_bits[OF this, of 1] have p2: "p AND NOT 2 = p"
    by (intro bit_word_eqI) (auto simp: bit_simps bit_1_iff)
  have e: "?e = p OR 0x205" using p2 by (simp add: bit.conj_disj_distrib2 or.assoc)
  have free: "free_frames F' \<noteq> {}"
  proof
    assume "free_frames F' = {}"
    then have "{1..<9} \<subseteq> {frame_idx (vm_zone boot_vm) p}" unfolding d(3) by blast
    then have "1 \<in> {frame_idx (vm_zone boot_vm) p}" "2 \<in> {frame_idx (vm_zone boot_vm) p}" by (rule subsetD, simp)+
    then show False by simp
  qed
  have "?e AND NOT 0xFFF = PTE_ADDR ?e" unfolding e using frame_flags[OF d(2), of "0x205"] by simp
  moreover have "?e AND PAGE_COW_FLAG \<noteq> 0" by (simp add: bit.conj_disj_distrib2)
  ultimately obtain st' where "cow_resolve_fault 0x400000 st = Some (0, st')"
    using cow_gives_private_copy[OF st(2,3) _ _ free] by blast
  then show ?thesis using st0 st(1,3) by blast
qed

end
