(* ===== verification/Mmap.thy ===== *)
theory Mmap
  imports Pagecache Pagefault
begin

section \<open>Memory mappings\<close>

text \<open>
  \<open>arch/x86_64/mmap.c\<close>: the areas a process has mapped, in a table of 256 slots, with the page tables
  of the theory \<open>Page_Table\<close>, the frames of \<open>Buddy\<close> (both inside the state of \<open>Pagefault\<close>) and the page
  cache of \<open>Pagecache\<close>. A context is never the null pointer: callers pass an element of a static array.
  An index of \<open>-1\<close> is \<open>None\<close>. As in \<open>Pagecache\<close>, \<open>rd\<close> and \<open>hw\<close> stand for the operations of a file node
  and the writes of a node are collected in a log. A result \<open>None\<close> is a fault of the frame
  allocator or an endless loop.
\<close>

abbreviation (input) MAP_SHARED :: u32 where "MAP_SHARED \<equiv> 1"
abbreviation (input) MAP_PRIVATE :: u32 where "MAP_PRIVATE \<equiv> 2"
abbreviation (input) MAP_FIXED :: u32 where "MAP_FIXED \<equiv> 0x10"
abbreviation (input) MAP_ANONYMOUS :: u32 where "MAP_ANONYMOUS \<equiv> 0x20"
abbreviation (input) PROT_NONE :: u32 where "PROT_NONE \<equiv> 0"
abbreviation (input) PROT_READ :: u32 where "PROT_READ \<equiv> 1"
abbreviation (input) PROT_WRITE :: u32 where "PROT_WRITE \<equiv> 2"
abbreviation (input) PROT_EXEC :: u32 where "PROT_EXEC \<equiv> 4"
abbreviation (input) MMAP_FLAG_DIRTY :: u32 where "MMAP_FLAG_DIRTY \<equiv> 0x1000"
abbreviation (input) MMAP_FLAG_COW :: u32 where "MMAP_FLAG_COW \<equiv> 0x2000"
abbreviation (input) MMAP_FLAG_POPULATED :: u32 where "MMAP_FLAG_POPULATED \<equiv> 0x4000"
abbreviation (input) MMAP_MAX_AREAS :: nat where "MMAP_MAX_AREAS \<equiv> 256"
abbreviation (input) MMAP_SEARCH_START :: u64 where "MMAP_SEARCH_START \<equiv> 0x7F0000000000"
abbreviation (input) MMAP_MIN_ADDR :: u64 where "MMAP_MIN_ADDR \<equiv> 0x10000000"
abbreviation (input) PAGE_NO_EXEC :: u64 where "PAGE_NO_EXEC \<equiv> 0x8000000000000000"

record mmap_area =
  ma_start :: u64
  ma_length :: u64
  ma_prot :: u32
  ma_flags :: u32
  ma_offset :: u64
  ma_ref_count :: int
  ma_file :: u64
  ma_active :: bool

record mmap_context =
  mc_areas :: "mmap_area list"
  area_count :: int

record mm_state =
  mm_vm :: vm_state
  mm_pc :: pagecache_state
  mm_log :: "(u64 \<times> u64 \<times> u8 list) list"

definition zero_area :: mmap_area where
  "zero_area = \<lparr>ma_start = 0, ma_length = 0, ma_prot = 0, ma_flags = 0, ma_offset = 0, ma_ref_count = 0, ma_file = 0, ma_active = False\<rparr>"

definition page_align_down :: "u64 \<Rightarrow> u64" where
  "page_align_down a = a AND NOT (4096 - 1)"

definition prot_to_pte_flags :: "u32 \<Rightarrow> u64" where
  "prot_to_pte_flags prot =
     (let flags = PAGE_PRESENT OR PAGE_USER;
          flags1 = (if prot AND PROT_WRITE \<noteq> 0 then flags OR PAGE_WRITABLE else flags)
      in if prot AND PROT_EXEC = 0 then flags1 OR PAGE_NO_EXEC else flags1)"

definition mmap_alloc :: "memory_state \<Rightarrow> (u64 \<times> mmap_area) option \<times> memory_state" where
  "mmap_alloc pool = (let (p, pool1) = memory_alloc pool 56 in (if p \<noteq> 0 then Some (p, zero_area) else None, pool1))"

definition mmap_free :: "u64 \<Rightarrow> memory_state \<Rightarrow> memory_state" where
  "mmap_free area pool = (if area \<noteq> 0 then memory_free pool area else pool)"

definition mmap_context_init :: mmap_context where
  "mmap_context_init = \<lparr>mc_areas = replicate MMAP_MAX_AREAS zero_area, area_count = 0\<rparr>"

subsection \<open>Page loops\<close>

text \<open>The current page tables, and the operations on them in the state of this component.\<close>

abbreviation cr3 :: "vm_state \<Rightarrow> u64" where
  "cr3 vm \<equiv> pm_cr3 (vm_pmap vm)"

definition vm_unmap_page :: "u64 \<Rightarrow> u64 \<Rightarrow> vm_state \<Rightarrow> vm_state" where
  "vm_unmap_page pml4 v vm = vm\<lparr>vm_pmap := pmap_unmap_page (vm_pmap vm) pml4 v\<rparr>"

definition page_at :: "u64 \<Rightarrow> nat \<Rightarrow> u64" where
  "page_at base j = base + of_nat j * 4096"

text \<open>The addresses \<open>for (v = page_start; v < page_end; v += PAGE_SIZE)\<close> visits; both bounds are aligned.\<close>

definition page_range :: "u64 \<Rightarrow> u64 \<Rightarrow> u64 list" where
  "page_range s e = map (page_at s) [0..<(unat e - unat s) div 4096]"

text \<open>Cached pages of a file are marked dirty and written back.\<close>

fun mark_dirty :: "u64 \<Rightarrow> u64 list \<Rightarrow> pagecache_state \<Rightarrow> pagecache_state option" where
  "mark_dirty file [] pc = Some pc"
| "mark_dirty file (off # offs) pc =
     Option.bind (pagecache_find_page file off pc) (\<lambda>(pce, pc1).
       mark_dirty file offs (if pce \<noteq> 0 then pagecache_put_page pce (pagecache_set_dirty pce pc1) else pc1))"

definition mmap_writeback :: "(u64 \<Rightarrow> bool) \<Rightarrow> u64 \<Rightarrow> u64 list \<Rightarrow> mm_state \<Rightarrow> mm_state option" where
  "mmap_writeback hw file offs st =
     Option.bind (mark_dirty file offs (mm_pc st)) (\<lambda>pc.
     Option.bind (pagecache_sync_node hw file pc) (\<lambda>(_, out, pc1).
       Some (st\<lparr>mm_pc := pc1, mm_log := mm_log st @ out\<rparr>)))"

fun free_mapped :: "u64 list \<Rightarrow> vm_state \<Rightarrow> vm_state option" where
  "free_mapped [] vm = Some vm"
| "free_mapped (v # vs) vm =
     (let paddr = pmap_get_physical (vm_pmap vm) (cr3 vm) v in
      Option.bind (if paddr \<noteq> 0 then vm_free_page paddr vm else Some vm) (free_mapped vs))"

definition destroy_area :: "(u64 \<Rightarrow> bool) \<Rightarrow> mmap_area \<Rightarrow> mm_state \<Rightarrow> mm_state option" where
  "destroy_area hw area st =
     (let npages = unat (ma_length area div 4096);
          vs = map (page_at (ma_start area)) [0..<npages]
      in Option.bind
           (if ma_flags area AND MAP_SHARED \<noteq> 0 \<and> ma_flags area AND MMAP_FLAG_DIRTY \<noteq> 0 \<and> ma_file area \<noteq> 0
            then mmap_writeback hw (ma_file area) (map (page_at (ma_offset area)) [0..<npages]) st else Some st) (\<lambda>st1.
         let vm1 = fold (\<lambda>v vm. vm_unmap_page (cr3 vm) v vm) vs (mm_vm st1)
         in if ma_flags area AND MAP_ANONYMOUS \<noteq> 0 \<or> ma_flags area AND MAP_PRIVATE \<noteq> 0
            then map_option (\<lambda>vm2. st1\<lparr>mm_vm := vm2\<rparr>) (free_mapped vs vm1)
            else Some (st1\<lparr>mm_vm := vm1\<rparr>)))"

fun destroy_areas :: "(u64 \<Rightarrow> bool) \<Rightarrow> mmap_area list \<Rightarrow> mm_state \<Rightarrow> (mmap_area list \<times> mm_state) option" where
  "destroy_areas hw [] st = Some ([], st)"
| "destroy_areas hw (a # as) st =
     (if \<not> ma_active a then map_option (\<lambda>(as', st1). (a # as', st1)) (destroy_areas hw as st)
      else Option.bind (destroy_area hw a st) (\<lambda>st1.
        map_option (\<lambda>(as', st2). (zero_area # as', st2)) (destroy_areas hw as st1)))"

definition mmap_context_destroy :: "(u64 \<Rightarrow> bool) \<Rightarrow> mmap_context \<Rightarrow> mm_state \<Rightarrow> (mmap_context \<times> mm_state) option" where
  "mmap_context_destroy hw ctx st =
     map_option (\<lambda>(as, st1). (ctx\<lparr>mc_areas := as, area_count := 0\<rparr>, st1)) (destroy_areas hw (mc_areas ctx) st)"

subsection \<open>Searching the areas\<close>

definition overlaps :: "u64 \<Rightarrow> u64 \<Rightarrow> mmap_area \<Rightarrow> bool" where
  "overlaps addr len area \<longleftrightarrow> ma_active area \<and> addr < ma_start area + ma_length area \<and> addr + len > ma_start area"

function free_area_from :: "mmap_area list \<Rightarrow> u64 \<Rightarrow> u64 \<Rightarrow> u64" where
  "free_area_from areas len candidate =
     (if candidate \<ge> MMAP_MIN_ADDR + len then
        (case find (overlaps (candidate - len) len) areas of
           None \<Rightarrow> candidate - len
         | Some area \<Rightarrow> free_area_from areas len (ma_start area))
      else 0)"
  by pat_completeness auto
termination
  by (relation "measure (\<lambda>(_, _, c). unat c)") (auto simp: find_Some_iff overlaps_def word_less_nat_alt)

definition mmap_find_free_area :: "mmap_context \<Rightarrow> u64 \<Rightarrow> u64" where
  "mmap_find_free_area ctx len =
     (if len = 0 then 0 else free_area_from (mc_areas ctx) (align_page len) MMAP_SEARCH_START)"

definition mmap_check_overlap :: "mmap_context \<Rightarrow> u64 \<Rightarrow> u64 \<Rightarrow> bool" where
  "mmap_check_overlap ctx addr len = list_ex (overlaps addr len) (mc_areas ctx)"

definition mmap_find_covering_area :: "mmap_context \<Rightarrow> u64 \<Rightarrow> u64 \<Rightarrow> nat option" where
  "mmap_find_covering_area ctx addr len = find_idx (overlaps addr len) (mc_areas ctx)"

definition mmap_find_area_at :: "mmap_context \<Rightarrow> u64 \<Rightarrow> nat option" where
  "mmap_find_area_at ctx vaddr =
     find_idx (\<lambda>area. ma_active area \<and> vaddr \<ge> ma_start area \<and> vaddr < ma_start area + ma_length area) (mc_areas ctx)"

definition mmap_alloc_slot :: "mmap_context \<Rightarrow> nat option" where
  "mmap_alloc_slot ctx = find_idx (\<lambda>a. \<not> ma_active a) (mc_areas ctx)"

definition upd_area :: "nat \<Rightarrow> (mmap_area \<Rightarrow> mmap_area) \<Rightarrow> mmap_context \<Rightarrow> mmap_context" where
  "upd_area i f ctx = ctx\<lparr>mc_areas := (mc_areas ctx)[i := f (mc_areas ctx ! i)]\<rparr>"

subsection \<open>Unmapping\<close>

definition cut_area :: "nat \<Rightarrow> u64 \<Rightarrow> u64 \<Rightarrow> mmap_context \<Rightarrow> mmap_context" where
  "cut_area idx unmap_start unmap_end ctx =
     (let area = mc_areas ctx ! idx; area_end = ma_start area + ma_length area in
      if unmap_start = ma_start area \<and> unmap_end = area_end
      then (upd_area idx (\<lambda>_. zero_area) ctx)\<lparr>area_count := area_count ctx - 1\<rparr>
      else if unmap_start = ma_start area then
        (let removed = unmap_end - ma_start area in
         upd_area idx (\<lambda>a. a\<lparr>ma_start := ma_start a + removed, ma_length := ma_length a - removed,
           ma_offset := (if ma_offset a \<noteq> 0 then ma_offset a + removed else ma_offset a)\<rparr>) ctx)
      else if unmap_end = area_end then
        upd_area idx (\<lambda>a. a\<lparr>ma_length := ma_length a - (unmap_end - unmap_start)\<rparr>) ctx
      else
        let ctx1 = (case mmap_alloc_slot ctx of
              None \<Rightarrow> ctx
            | Some new_slot \<Rightarrow>
                (upd_area new_slot (\<lambda>t. t\<lparr>ma_start := unmap_end, ma_length := area_end - unmap_end,
                   ma_prot := ma_prot area, ma_flags := ma_flags area,
                   ma_offset := ma_offset area + (unmap_end - ma_start area), ma_file := ma_file area,
                   ma_ref_count := 1, ma_active := True\<rparr>) ctx)\<lparr>area_count := area_count ctx + 1\<rparr>)
        in upd_area idx (\<lambda>a. a\<lparr>ma_length := unmap_start - ma_start a\<rparr>) ctx1)"

definition munmap_one :: "(u64 \<Rightarrow> bool) \<Rightarrow> u64 \<Rightarrow> u64 \<Rightarrow> nat \<Rightarrow> mmap_context \<times> mm_state \<Rightarrow> (mmap_context \<times> mm_state) option" where
  "munmap_one hw addr len idx = (\<lambda>(ctx, st).
     let area = mc_areas ctx ! idx;
         area_end = ma_start area + ma_length area;
         unmap_start = (if addr > ma_start area then addr else ma_start area);
         unmap_end = (if addr + len < area_end then addr + len else area_end);
         pages = page_range (page_align_down unmap_start) (align_page unmap_end)
     in Option.bind
          (if ma_flags area AND MAP_SHARED \<noteq> 0 \<and> ma_flags area AND MMAP_FLAG_DIRTY \<noteq> 0 \<and> ma_file area \<noteq> 0
           then mmap_writeback hw (ma_file area) (map (\<lambda>v. ma_offset area + (v - ma_start area)) pages) st
           else Some st) (\<lambda>st1.
        Some (cut_area idx unmap_start unmap_end ctx,
              st1\<lparr>mm_vm := fold (\<lambda>v vm. vm_unmap_page (cr3 vm) v vm) pages (mm_vm st1)\<rparr>)))"

partial_function (option) munmap_loop ::
  "(u64 \<Rightarrow> bool) \<Rightarrow> u64 \<Rightarrow> u64 \<Rightarrow> bool \<Rightarrow> mmap_context \<times> mm_state \<Rightarrow> (bool \<times> mmap_context \<times> mm_state) option" where
  "munmap_loop hw addr len found_any s =
     (case mmap_find_covering_area (fst s) addr len of
        None \<Rightarrow> Some (found_any, s)
      | Some idx \<Rightarrow> Option.bind (munmap_one hw addr len idx s) (munmap_loop hw addr len True))"

definition mmap_do_munmap ::
  "(u64 \<Rightarrow> bool) \<Rightarrow> mmap_context \<Rightarrow> u64 \<Rightarrow> u64 \<Rightarrow> mm_state \<Rightarrow> (int \<times> mmap_context \<times> mm_state) option" where
  "mmap_do_munmap hw ctx addr len st =
     (if len = 0 then Some (- 1, ctx, st)
      else map_option (\<lambda>(found_any, s). (if found_any then 0 else - 1, s))
             (munmap_loop hw addr (align_page len) False (ctx, st)))"

subsection \<open>Mapping\<close>

fun mmap_rollback :: "u64 \<Rightarrow> nat list \<Rightarrow> vm_state \<Rightarrow> vm_state option" where
  "mmap_rollback base [] vm = Some vm"
| "mmap_rollback base (j # js) vm =
     (let va = page_at base j;
          pa = pmap_get_physical (vm_pmap vm) (cr3 vm) va;
          vm1 = vm_unmap_page (cr3 vm) va vm
      in Option.bind (if pa \<noteq> 0 then vm_free_page pa vm1 else Some vm1) (mmap_rollback base js))"

text \<open>
  The two loops that fill an area with cleared frames. The loop for anonymous areas stops when a
  page cannot be mapped (\<open>strict\<close>), the loop for shared areas without a file does not.
\<close>

fun mmap_populate :: "bool \<Rightarrow> u64 \<Rightarrow> u64 \<Rightarrow> nat list \<Rightarrow> vm_state \<Rightarrow> (bool \<times> vm_state) option" where
  "mmap_populate strict base flags [] vm = Some (True, vm)"
| "mmap_populate strict base flags (i # is) vm =
     Option.bind (vm_alloc_page vm) (\<lambda>(page, vm1).
       if page = 0 then map_option (Pair False) (mmap_rollback base [0..<i] vm1)
       else let vm2 = set_mem (clear_page (vm_mem vm1) page) vm1;
                (r, vm3) = vm_map_page (cr3 vm2) (page_at base i) page flags vm2
            in if strict \<and> r \<noteq> 0
               then Option.bind (vm_free_page page vm3) (\<lambda>vm4. map_option (Pair False) (mmap_rollback base [0..<i] vm4))
               else mmap_populate strict base flags is vm3)"

fun map_cached :: "u64 \<Rightarrow> u64 \<Rightarrow> u64 \<Rightarrow> u64 \<Rightarrow> nat list \<Rightarrow> mm_state \<Rightarrow> mm_state option" where
  "map_cached file offset base flags [] st = Some st"
| "map_cached file offset base flags (i # is) st =
     Option.bind (pagecache_find_page file (page_at offset i) (mm_pc st)) (\<lambda>(pce, pc1).
       map_cached file offset base flags is
         (if pce \<noteq> 0 then
            st\<lparr>mm_vm := snd (vm_map_page (cr3 (mm_vm st)) (page_at base i) (pe_page (pc_entries pc1 pce)) flags (mm_vm st)),
               mm_pc := pagecache_put_page pce pc1\<rparr>
          else st\<lparr>mm_pc := pc1\<rparr>))"

definition mmap_map_addr ::
  "(u64 \<Rightarrow> bool) \<Rightarrow> mmap_context \<Rightarrow> u64 \<Rightarrow> u64 \<Rightarrow> u32 \<Rightarrow> mm_state \<Rightarrow> (u64 \<times> mmap_context \<times> mm_state) option" where
  "mmap_map_addr hw ctx addr aligned_len flags st =
     (if addr \<noteq> 0 then
        (if flags AND MAP_FIXED \<noteq> 0 then map_option (\<lambda>(_, ctx1, st1). (addr, ctx1, st1)) (mmap_do_munmap hw ctx addr aligned_len st)
         else if mmap_check_overlap ctx addr aligned_len then Some (mmap_find_free_area ctx aligned_len, ctx, st)
         else Some (addr, ctx, st))
      else Some (mmap_find_free_area ctx aligned_len, ctx, st))"

definition mmap_bad_args :: "u64 \<Rightarrow> u64 \<Rightarrow> u32 \<Rightarrow> u32 \<Rightarrow> u64 \<Rightarrow> bool" where
  "mmap_bad_args addr len prot flags offset \<longleftrightarrow>
     len = 0 \<or> len > 0x10000000000 \<or>
     prot AND PROT_READ = 0 \<and> prot AND PROT_WRITE = 0 \<and> prot AND PROT_EXEC = 0 \<and> prot \<noteq> PROT_NONE \<or>
     flags AND MAP_SHARED \<noteq> 0 \<and> flags AND MAP_PRIVATE \<noteq> 0 \<or>
     flags AND MAP_ANONYMOUS = 0 \<and> offset AND (4096 - 1) \<noteq> 0 \<or>
     addr \<noteq> 0 \<and> addr AND (4096 - 1) \<noteq> 0"

text \<open>The pages of a new area at index \<open>new_slot\<close>, and the way back when frames run out.\<close>

definition mmap_fill :: "nat \<Rightarrow> u64 \<Rightarrow> u64 \<Rightarrow> u32 \<Rightarrow> u32 \<Rightarrow> u64 \<Rightarrow> mmap_context \<Rightarrow> mm_state \<Rightarrow>
    (u64 \<times> mmap_context \<times> mm_state) option" where
  "mmap_fill new_slot map_addr aligned_len prot flags offset ctx st =
     (let is = [0..<unat (aligned_len div 4096)];
          pte_flags = prot_to_pte_flags prot;
          area = mc_areas ctx ! new_slot;
          populate = (\<lambda>strict. map_option (\<lambda>(ok, vm).
            if ok then (map_addr, upd_area new_slot (\<lambda>a. a\<lparr>ma_flags := ma_flags a OR MMAP_FLAG_POPULATED\<rparr>) ctx, st\<lparr>mm_vm := vm\<rparr>)
            else (- 1, (upd_area new_slot (\<lambda>a. a\<lparr>ma_active := False\<rparr>) ctx)\<lparr>area_count := area_count ctx - 1\<rparr>, st\<lparr>mm_vm := vm\<rparr>))
            (mmap_populate strict map_addr pte_flags is (mm_vm st)))
      in if flags AND MAP_ANONYMOUS \<noteq> 0 then populate True
         else if flags AND MAP_PRIVATE \<noteq> 0
         then Some (map_addr, upd_area new_slot (\<lambda>a. a\<lparr>ma_flags := ma_flags a OR MMAP_FLAG_COW\<rparr>) ctx, st)
         else if flags AND MAP_SHARED \<noteq> 0 then
           (if ma_file area \<noteq> 0
            then map_option (\<lambda>st1. (map_addr, ctx, st1)) (map_cached (ma_file area) offset map_addr pte_flags is st)
            else populate False)
         else Some (map_addr, ctx, st))"

definition mmap_do_mmap ::
  "(u64 \<Rightarrow> bool) \<Rightarrow> mmap_context \<Rightarrow> u64 \<Rightarrow> u64 \<Rightarrow> u32 \<Rightarrow> u32 \<Rightarrow> int \<Rightarrow> u64 \<Rightarrow> mm_state \<Rightarrow> (u64 \<times> mmap_context \<times> mm_state) option" where
  "mmap_do_mmap hw ctx addr len prot flags fd offset st =
     (if mmap_bad_args addr len prot flags offset then Some (- 1, ctx, st)
      else let aligned_len = align_page len in
        Option.bind (mmap_map_addr hw ctx addr aligned_len flags st) (\<lambda>(map_addr, ctx1, st1).
          if map_addr = 0 then Some (- 1, ctx1, st1)
          else (case mmap_alloc_slot ctx1 of
              None \<Rightarrow> Some (- 1, ctx1, st1)
            | Some new_slot \<Rightarrow>
                let ctx2 = (upd_area new_slot (\<lambda>a. a\<lparr>ma_start := map_addr, ma_length := aligned_len, ma_prot := prot,
                      ma_flags := flags, ma_offset := offset, ma_ref_count := 1, ma_active := True, ma_file := 0\<rparr>) ctx1)
                      \<lparr>area_count := area_count ctx1 + 1\<rparr>
                in mmap_fill new_slot map_addr aligned_len prot flags offset ctx2 st1)))"

subsection \<open>Protection\<close>

definition reprotect :: "u64 \<Rightarrow> u64 \<Rightarrow> vm_state \<Rightarrow> vm_state" where
  "reprotect flags v vm =
     (let paddr = pmap_get_physical (vm_pmap vm) (cr3 vm) v in
      if paddr \<noteq> 0 then snd (vm_map_page (cr3 vm) v paddr flags (vm_unmap_page (cr3 vm) v vm)) else vm)"

fun mprotect_areas :: "u64 \<Rightarrow> u64 \<Rightarrow> u32 \<Rightarrow> mmap_area list \<Rightarrow> bool \<times> mmap_area list \<times> vm_state \<Rightarrow> bool \<times> mmap_area list \<times> vm_state" where
  "mprotect_areas addr len prot [] s = s"
| "mprotect_areas addr len prot (a # as) (modified, seen, vm) =
     (let area_end = ma_start a + ma_length a in
      if \<not> ma_active a \<or> addr \<ge> area_end \<or> addr + len \<le> ma_start a
      then mprotect_areas addr len prot as (modified, seen @ [a], vm)
      else
        let overlap_start = (if addr > ma_start a then addr else ma_start a);
            overlap_end = (if addr + len < area_end then addr + len else area_end);
            vs = page_range (page_align_down overlap_start) (align_page overlap_end)
        in mprotect_areas addr len prot as
             (True, seen @ [a\<lparr>ma_prot := prot\<rparr>], fold (reprotect (prot_to_pte_flags prot)) vs vm))"

definition mmap_do_mprotect ::
  "mmap_context \<Rightarrow> u64 \<Rightarrow> u64 \<Rightarrow> u32 \<Rightarrow> mm_state \<Rightarrow> int \<times> mmap_context \<times> mm_state" where
  "mmap_do_mprotect ctx addr len prot st =
     (if len = 0 then (- 1, ctx, st)
      else let (modified, as, vm) = mprotect_areas addr (align_page len) prot (mc_areas ctx) (False, [], mm_vm st)
           in (if modified then 0 else - 1, ctx\<lparr>mc_areas := as\<rparr>, st\<lparr>mm_vm := vm\<rparr>))"

subsection \<open>Page faults in an area\<close>

text \<open>The words of a cached page, whose bytes the page cache holds.\<close>

definition bytes_word :: "u8 list \<Rightarrow> u64" where
  "bytes_word bs = foldr (\<lambda>b w. push_bit 8 w OR ucast b) bs 0"

definition copy_bytes :: "(u64 \<Rightarrow> u64) \<Rightarrow> u64 \<Rightarrow> u8 list \<Rightarrow> u64 \<Rightarrow> u64" where
  "copy_bytes m dst d a = (if unat dst \<le> unat a \<and> unat a < unat dst + 4096
     then bytes_word (take 8 (drop (unat a - unat dst) d)) else m a)"

definition mm_get_page ::
  "(u64 \<Rightarrow> (u64 \<Rightarrow> u8 list \<Rightarrow> u8 list) option) \<Rightarrow> u64 \<Rightarrow> u64 \<Rightarrow> mm_state \<Rightarrow> (u64 \<times> mm_state) option" where
  "mm_get_page rd file off st =
     map_option (\<lambda>(pce, pool, pc). (pce, st\<lparr>mm_vm := (mm_vm st)\<lparr>vm_pmap := (vm_pmap (mm_vm st))\<lparr>pm_pool := pool\<rparr>\<rparr>, mm_pc := pc\<rparr>))
       (pagecache_get_page rd file off (pm_pool (vm_pmap (mm_vm st)), mm_pc st))"

definition fill_from_file ::
  "(u64 \<Rightarrow> (u64 \<Rightarrow> u8 list \<Rightarrow> u8 list) option) \<Rightarrow> u64 \<Rightarrow> u64 \<Rightarrow> u64 \<Rightarrow> mm_state \<Rightarrow> mm_state option" where
  "fill_from_file rd file off new_page st =
     Option.bind (mm_get_page rd file off st) (\<lambda>(pce, st1).
       if pce = 0 then Some st1
       else Some (st1\<lparr>mm_vm := set_mem (copy_bytes (vm_mem (mm_vm st1)) new_page (pc_data (mm_pc st1) (pe_page (pc_entries (mm_pc st1) pce)))) (mm_vm st1),
                      mm_pc := pagecache_put_page pce (mm_pc st1)\<rparr>))"

text \<open>A new frame is mapped at the page, or freed again.\<close>

definition fault_map :: "u64 \<Rightarrow> u64 \<Rightarrow> u64 \<Rightarrow> (mmap_area \<Rightarrow> mmap_area) \<Rightarrow> nat \<Rightarrow> mmap_context \<Rightarrow> mm_state \<Rightarrow>
    (int \<times> mmap_context \<times> mm_state) option" where
  "fault_map page_vaddr new_page flags upd idx ctx st =
     (let (r, vm1) = vm_map_page (cr3 (mm_vm st)) page_vaddr new_page flags (mm_vm st)
      in if r \<noteq> 0 then map_option (\<lambda>vm2. (- 1, ctx, st\<lparr>mm_vm := vm2\<rparr>)) (vm_free_page new_page vm1)
         else Some (0, upd_area idx upd ctx, st\<lparr>mm_vm := vm1\<rparr>))"

definition with_new_page ::
  "mmap_context \<Rightarrow> mm_state \<Rightarrow> (u64 \<Rightarrow> mm_state \<Rightarrow> (int \<times> mmap_context \<times> mm_state) option) \<Rightarrow> (int \<times> mmap_context \<times> mm_state) option" where
  "with_new_page ctx st k =
     Option.bind (vm_alloc_page (mm_vm st)) (\<lambda>(new_page, vm1).
       if new_page = 0 then Some (- 1, ctx, st\<lparr>mm_vm := vm1\<rparr>)
       else k new_page (st\<lparr>mm_vm := set_mem (clear_page (vm_mem vm1) new_page) vm1\<rparr>))"

definition mmap_page_fault_handler ::
  "(u64 \<Rightarrow> (u64 \<Rightarrow> u8 list \<Rightarrow> u8 list) option) \<Rightarrow> mmap_context \<Rightarrow> u64 \<Rightarrow> u64 \<Rightarrow> mm_state \<Rightarrow>
   (int \<times> mmap_context \<times> mm_state) option" where
  "mmap_page_fault_handler rd ctx vaddr error_code st =
     (case mmap_find_area_at ctx vaddr of
        None \<Rightarrow> Some (- 1, ctx, st)
      | Some idx \<Rightarrow>
          let area = mc_areas ctx ! idx;
              file_off = ma_offset area + (vaddr - ma_start area);
              page_vaddr = vaddr AND NOT (4096 - 1);
              pte_flags = prot_to_pte_flags (ma_prot area);
              populated = (\<lambda>a. a\<lparr>ma_flags := ma_flags a OR MMAP_FLAG_POPULATED\<rparr>)
          in if ma_flags area AND MAP_PRIVATE \<noteq> 0 then
               (if error_code AND PF_WRITE \<noteq> 0 then
                  with_new_page ctx st (\<lambda>new_page st1.
                    Option.bind
                      (if ma_file area \<noteq> 0 then fill_from_file rd (ma_file area) file_off new_page st1
                       else let old_paddr = pmap_get_physical (vm_pmap (mm_vm st1)) (cr3 (mm_vm st1)) page_vaddr in
                         if old_paddr \<noteq> 0
                         then Some (st1\<lparr>mm_vm := set_mem (copy_page (vm_mem (mm_vm st1)) new_page old_paddr) (mm_vm st1)\<rparr>)
                         else Some st1)
                      (fault_map page_vaddr new_page (pte_flags OR PAGE_WRITABLE)
                         (\<lambda>a. a\<lparr>ma_flags := ma_flags a OR (MMAP_FLAG_DIRTY OR MMAP_FLAG_POPULATED)\<rparr>) idx ctx))
                else
                  with_new_page ctx st (\<lambda>new_page st1.
                    Option.bind
                      (if ma_file area \<noteq> 0 then fill_from_file rd (ma_file area) file_off new_page st1 else Some st1)
                      (fault_map page_vaddr new_page ((pte_flags AND NOT PAGE_WRITABLE) OR PAGE_COW_FLAG) populated idx ctx)))
             else if ma_flags area AND MAP_SHARED \<noteq> 0 \<and> ma_file area \<noteq> 0 then
               Option.bind (mm_get_page rd (ma_file area) file_off st) (\<lambda>(pce, st1).
                 if pce = 0 then Some (- 1, ctx, st1)
                 else let (r, vm2) = vm_map_page (cr3 (mm_vm st1)) page_vaddr (pe_page (pc_entries (mm_pc st1) pce)) pte_flags (mm_vm st1);
                          st2 = st1\<lparr>mm_vm := vm2, mm_pc := pagecache_put_page pce (mm_pc st1)\<rparr>
                      in if r \<noteq> 0 then Some (- 1, ctx, st2) else Some (0, upd_area idx populated ctx, st2))
             else if ma_flags area AND MAP_ANONYMOUS \<noteq> 0 then
               with_new_page ctx st (\<lambda>new_page. fault_map page_vaddr new_page pte_flags populated idx ctx)
             else Some (- 1, ctx, st))"

subsection \<open>Inheriting areas\<close>

definition share_page :: "u64 \<Rightarrow> u64 \<Rightarrow> vm_state \<Rightarrow> vm_state" where
  "share_page flags v vm =
     (let paddr = pmap_get_physical (vm_pmap vm) (pmap_get (vm_pmap vm)) v in
      if paddr \<noteq> 0 then snd (vm_map_page (cr3 vm) v paddr flags vm) else vm)"

fun fork_areas :: "mmap_area list \<Rightarrow> mmap_context \<Rightarrow> vm_state \<Rightarrow> int \<times> mmap_context \<times> vm_state" where
  "fork_areas [] child vm = (0, child, vm)"
| "fork_areas (parea # ps) child vm =
     (if \<not> ma_active parea then fork_areas ps child vm
      else (case mmap_alloc_slot child of
          None \<Rightarrow> (- 1, child, vm)
        | Some cslot \<Rightarrow>
            let vs = map (page_at (ma_start parea)) [0..<unat (ma_length parea div 4096)];
                (carea, vm1) =
                  (if ma_flags parea AND MAP_SHARED \<noteq> 0
                   then (parea\<lparr>ma_ref_count := ma_ref_count parea + 1\<rparr>, fold (share_page (prot_to_pte_flags (ma_prot parea))) vs vm)
                   else (parea\<lparr>ma_ref_count := 1, ma_flags := ma_flags parea OR MMAP_FLAG_COW\<rparr>,
                         fold (\<lambda>v vm. snd (cow_mark_page (cr3 vm) v vm)) vs vm))
            in fork_areas ps ((upd_area cslot (\<lambda>_. carea) child)\<lparr>area_count := area_count child + 1\<rparr>) vm1))"

definition mmap_fork_inherit :: "mmap_context \<Rightarrow> mmap_context \<Rightarrow> vm_state \<Rightarrow> int \<times> mmap_context \<times> vm_state" where
  "mmap_fork_inherit parent child vm = fork_areas (mc_areas parent) child vm"


subsection \<open>The search for a free range finds the highest one\<close>

text \<open>The addresses of an area as natural numbers.\<close>

definition lo :: "mmap_area \<Rightarrow> nat" where "lo a = unat (ma_start a)"
definition hi :: "mmap_area \<Rightarrow> nat" where "hi a = unat (ma_start a) + unat (ma_length a)"

definition range_free :: "mmap_area list \<Rightarrow> nat \<Rightarrow> nat \<Rightarrow> bool" where
  "range_free areas s n \<longleftrightarrow> (\<forall>a \<in> set areas. ma_active a \<longrightarrow> s + n \<le> lo a \<or> hi a \<le> s)"

definition no_wrap :: "mmap_area list \<Rightarrow> bool" where
  "no_wrap areas \<longleftrightarrow> (\<forall>a \<in> set areas. ma_active a \<longrightarrow> hi a < 2 ^ 64)"

lemma overlaps_range:
  assumes "ma_active a \<Longrightarrow> hi a < 2 ^ 64" "unat s + unat n < 2 ^ 64"
  shows "overlaps s n a \<longleftrightarrow> ma_active a \<and> unat s < hi a \<and> lo a < unat s + unat n"
  using assms by (auto simp: overlaps_def lo_def hi_def word_less_nat_alt unat_add_noof)

lemma range_free_overlaps:
  assumes "no_wrap areas" "unat s + unat n < 2 ^ 64"
  shows "range_free areas (unat s) (unat n) \<longleftrightarrow> (\<forall>a \<in> set areas. \<not> overlaps s n a)"
  using assms overlaps_range[of _ s n] unfolding no_wrap_def range_free_def by (meson not_le)

definition free_starts :: "mmap_area list \<Rightarrow> nat \<Rightarrow> nat \<Rightarrow> nat set" where
  "free_starts areas n c = {s. 0x10000000 \<le> s \<and> s + n \<le> c \<and> range_free areas s n}"

lemma finite_free_starts [simp]: "finite (free_starts areas n c)"
  by (rule finite_subset[of _ "{..c}"]) (auto simp: free_starts_def)

declare free_area_from.simps [simp del]

lemma free_area_from_max:
  assumes "no_wrap areas" "unat len \<le> 2 ^ 41" "0 < unat len"
  shows "unat (free_area_from areas len c) =
    (if free_starts areas (unat len) (unat c) = {} then 0 else Max (free_starts areas (unat len) (unat c)))"
  using assms
proof (induction areas len c rule: free_area_from.induct)
  case (1 areas len c)
  have lm: "unat (0x10000000 + len) = 0x10000000 + unat len"
    using "1.prems"(2) by (subst unat_add_noof) auto
  show ?case
  proof (cases "0x10000000 + len \<le> c")
    case False
    then have "unat c < 0x10000000 + unat len" using lm by (simp add: word_le_nat_alt)
    then have "free_starts areas (unat len) (unat c) = {}" by (auto simp: free_starts_def)
    then show ?thesis using False by (simp add: free_area_from.simps)
  next
    case True
    then have le: "0x10000000 + unat len \<le> unat c" using lm by (simp add: word_le_nat_alt)
    then have t: "unat (c - len) = unat c - unat len" by (simp add: unat_sub word_le_nat_alt)
    have w: "unat (c - len) + unat len < 2 ^ 64" using le t unsigned_less[of c] by simp
    show ?thesis
    proof (cases "find (overlaps (c - len) len) areas")
      case None
      then have "range_free areas (unat c - unat len) (unat len)"
        using range_free_overlaps[OF "1.prems"(1) w] t by (simp add: find_None_iff)
      then have mem: "unat c - unat len \<in> free_starts areas (unat len) (unat c)" using le by (simp add: free_starts_def)
      have "Max (free_starts areas (unat len) (unat c)) = unat c - unat len"
        by (rule Max_eqI[OF finite_free_starts _ mem]) (auto simp: free_starts_def)
      then show ?thesis using None True mem t by (subst free_area_from.simps) auto
    next
      case (Some a)
      then have a: "a \<in> set areas" "overlaps (c - len) len a" by (auto simp: find_Some_iff)
      then have ov: "ma_active a" "unat c - unat len < hi a" "lo a < unat c"
        using overlaps_range[OF _ w, of a] "1.prems"(1) le t by (auto simp: no_wrap_def)
      have "free_starts areas (unat len) (unat c) = free_starts areas (unat len) (lo a)"
      proof (intro set_eqI iffI)
        fix s assume s: "s \<in> free_starts areas (unat len) (unat c)"
        then have "s + unat len \<le> lo a \<or> hi a \<le> s" using a(1) ov(1) by (auto simp: free_starts_def range_free_def)
        then show "s \<in> free_starts areas (unat len) (lo a)" using s ov(2) by (auto simp: free_starts_def)
      qed (use ov in \<open>auto simp: free_starts_def\<close>)
      then show ?thesis using "1.IH"[OF True Some "1.prems"] True Some by (subst free_area_from.simps) (simp add: lo_def)
    qed
  qed
qed

text \<open>
  The address \<open>mmap_find_free_area\<close> returns is the highest one below \<open>MMAP_SEARCH_START\<close> at which the
  length, rounded up to pages, fits without touching an area; it returns 0 exactly when the table leaves no such room.
\<close>

theorem find_free_area_is_highest:
  assumes "no_wrap (mc_areas ctx)" "len \<noteq> 0" "unat len \<le> 2 ^ 40"
  shows "unat (mmap_find_free_area ctx len) =
    (let S = {s. 0x10000000 \<le> s \<and> s + (unat len + 4095) div 4096 * 4096 \<le> 0x7F0000000000 \<and>
                 range_free (mc_areas ctx) s ((unat len + 4095) div 4096 * 4096)}
     in if S = {} then 0 else Max S)"
proof -
  have al: "unat (align_page len) = (unat len + 4095) div 4096 * 4096" by (rule unat_align_page) (use assms in simp)
  moreover have "0 < unat len" using assms(2) by (simp add: unat_gt_0)
  ultimately have n: "unat (align_page len) \<le> 2 ^ 41" "0 < unat (align_page len)" using assms(3) by (simp, linarith)
  have top: "unat (0x7F0000000000 :: u64) = 0x7F0000000000" by simp
  show ?thesis
    using free_area_from_max[OF assms(1) n, of "0x7F0000000000", unfolded free_starts_def al top] assms(2)
    by (simp only: mmap_find_free_area_def if_False Let_def)
qed

subsection \<open>Areas stay apart\<close>

definition area_ok :: "mmap_area \<Rightarrow> bool" where
  "area_ok a \<longleftrightarrow> (ma_active a \<longrightarrow> hi a < 2 ^ 64 \<and> lo a < hi a \<and> 4096 dvd lo a \<and> 4096 dvd hi a \<and> ma_file a = 0)"

definition areas_apart :: "mmap_area \<Rightarrow> mmap_area \<Rightarrow> bool" where
  "areas_apart a b \<longleftrightarrow> (ma_active a \<and> ma_active b \<longrightarrow> hi a \<le> lo b \<or> hi b \<le> lo a)"

definition ctx_ok :: "mmap_context \<Rightarrow> bool" where
  "ctx_ok ctx \<longleftrightarrow> length (mc_areas ctx) = 256 \<and> (\<forall>i<256. area_ok (mc_areas ctx ! i)) \<and>
     (\<forall>i<256. \<forall>j<256. i \<noteq> j \<longrightarrow> areas_apart (mc_areas ctx ! i) (mc_areas ctx ! j)) \<and>
     area_count ctx = int (card {i. i < 256 \<and> ma_active (mc_areas ctx ! i)})"

text \<open>The addresses that are mapped, with their protection and flags.\<close>

definition acover :: "mmap_area \<Rightarrow> (nat \<times> u32 \<times> u32) set" where
  "acover a = (if ma_active a then {lo a..<hi a} \<times> {(ma_prot a, ma_flags a)} else {})"

definition cover :: "mmap_context \<Rightarrow> (nat \<times> u32 \<times> u32) set" where
  "cover ctx = (\<Union>i<256. acover (mc_areas ctx ! i))"

definition put_area :: "nat \<Rightarrow> mmap_area \<Rightarrow> mmap_context \<Rightarrow> mmap_context" where
  "put_area i a ctx = ctx\<lparr>mc_areas := (mc_areas ctx)[i := a],
     area_count := area_count ctx + (if ma_active a then 1 else 0) - (if ma_active (mc_areas ctx ! i) then 1 else 0)\<rparr>"

lemma ctx_okD:
  assumes "ctx_ok ctx"
  shows "length (mc_areas ctx) = 256" "i < 256 \<Longrightarrow> area_ok (mc_areas ctx ! i)"
    "i < 256 \<Longrightarrow> j < 256 \<Longrightarrow> i \<noteq> j \<Longrightarrow> areas_apart (mc_areas ctx ! i) (mc_areas ctx ! j)"
    "area_count ctx = int (card {i. i < 256 \<and> ma_active (mc_areas ctx ! i)})" "no_wrap (mc_areas ctx)"
  using assms by (auto simp: ctx_ok_def no_wrap_def area_ok_def in_set_conv_nth)

lemma areas_apart_sym: "areas_apart a b = areas_apart b a"
  by (auto simp: areas_apart_def)

lemma put_area_nth: "length (mc_areas ctx) = 256 \<Longrightarrow> i < 256 \<Longrightarrow> mc_areas (put_area i a ctx) ! k = (if k = i then a else mc_areas ctx ! k)"
  by (simp add: put_area_def nth_list_update)

lemma card_put:
  assumes "finite A"
  shows "int (card (if b then insert i (A - {i}) else A - {i})) = int (card A) + (if b then 1 else 0) - (if i \<in> A then 1 else 0)"
  using assms card.remove[of A i] by (cases "i \<in> A") (auto simp: insert_absorb)

lemma put_area_ok:
  assumes ok: "ctx_ok ctx" and i: "i < 256" and a: "area_ok a"
    and apart: "\<And>k. k < 256 \<Longrightarrow> k \<noteq> i \<Longrightarrow> areas_apart a (mc_areas ctx ! k)"
  shows "ctx_ok (put_area i a ctx)"
proof -
  let ?A = "{k. k < 256 \<and> ma_active (mc_areas ctx ! k)}"
  note n = put_area_nth[OF ctx_okD(1)[OF ok] i]
  have "{k. k < 256 \<and> ma_active (mc_areas (put_area i a ctx) ! k)} = (if ma_active a then insert i (?A - {i}) else ?A - {i})"
    using i by (auto simp: n)
  moreover have "int (card (if ma_active a then insert i (?A - {i}) else ?A - {i})) = area_count (put_area i a ctx)"
    using card_put[of ?A "ma_active a" i] ctx_okD(4)[OF ok] i by (simp add: put_area_def)
  ultimately have "area_count (put_area i a ctx) = int (card {k. k < 256 \<and> ma_active (mc_areas (put_area i a ctx) ! k)})"
    by (simp only:)
  moreover have "areas_apart (mc_areas (put_area i a ctx) ! j) (mc_areas (put_area i a ctx) ! k)" if "j < 256" "k < 256" "j \<noteq> k" for j k
    using that apart[of j] apart[of k] ctx_okD(3)[OF ok that] by (auto simp: n areas_apart_sym)
  moreover have "length (mc_areas (put_area i a ctx)) = 256" using ctx_okD(1)[OF ok] by (simp add: put_area_def)
  moreover have "area_ok (mc_areas (put_area i a ctx) ! j)" if "j < 256" for j using a ctx_okD(2)[OF ok that] by (simp add: n)
  ultimately show ?thesis by (simp add: ctx_ok_def)
qed

lemma put_area_cover:
  assumes ok: "ctx_ok ctx" and i: "i < 256"
  shows "cover (put_area i a ctx) = {t \<in> cover ctx. \<not> (ma_active (mc_areas ctx ! i) \<and> fst t \<in> {lo (mc_areas ctx ! i)..<hi (mc_areas ctx ! i)})} \<union> acover a"
    (is "?l = ?r")
proof -
  note n = put_area_nth[OF ctx_okD(1)[OF ok] i]
  have "?l = (\<Union>k \<in> {..<256} - {i}. acover (mc_areas ctx ! k)) \<union> acover a"
    using i unfolding cover_def n by (auto split: if_splits)
  moreover have "(\<Union>k \<in> {..<256} - {i}. acover (mc_areas ctx ! k)) =
      {t \<in> cover ctx. \<not> (ma_active (mc_areas ctx ! i) \<and> fst t \<in> {lo (mc_areas ctx ! i)..<hi (mc_areas ctx ! i)})}"
  proof (intro set_eqI iffI)
    fix t assume "t \<in> (\<Union>k \<in> {..<256} - {i}. acover (mc_areas ctx ! k))"
    then obtain k where k: "k < 256" "k \<noteq> i" "t \<in> acover (mc_areas ctx ! k)" by auto
    then have "ma_active (mc_areas ctx ! k)" "fst t \<in> {lo (mc_areas ctx ! k)..<hi (mc_areas ctx ! k)}"
      by (auto simp: acover_def split: if_splits)
    moreover have "areas_apart (mc_areas ctx ! k) (mc_areas ctx ! i)" by (rule ctx_okD(3)[OF ok k(1) i k(2)])
    ultimately have "\<not> (ma_active (mc_areas ctx ! i) \<and> fst t \<in> {lo (mc_areas ctx ! i)..<hi (mc_areas ctx ! i)})"
      by (auto simp: areas_apart_def)
    then show "t \<in> {t \<in> cover ctx. \<not> (ma_active (mc_areas ctx ! i) \<and> fst t \<in> {lo (mc_areas ctx ! i)..<hi (mc_areas ctx ! i)})}"
      using k by (auto simp: cover_def)
  next
    fix t assume t: "t \<in> {t \<in> cover ctx. \<not> (ma_active (mc_areas ctx ! i) \<and> fst t \<in> {lo (mc_areas ctx ! i)..<hi (mc_areas ctx ! i)})}"
    then obtain k where k: "k < 256" "t \<in> acover (mc_areas ctx ! k)" by (auto simp: cover_def)
    then have "k \<noteq> i" using t by (auto simp: acover_def split: if_splits)
    then show "t \<in> (\<Union>k \<in> {..<256} - {i}. acover (mc_areas ctx ! k))" using k by auto
  qed
  ultimately show ?thesis by simp
qed

lemma zero_area_simps [simp]: "\<not> ma_active zero_area" "area_ok zero_area" "acover zero_area = {}" "areas_apart zero_area a"
  by (simp_all add: zero_area_def area_ok_def acover_def areas_apart_def)

lemma mmap_alloc_slot_Some: "ctx_ok ctx \<Longrightarrow> mmap_alloc_slot ctx = Some j \<Longrightarrow> j < 256 \<and> \<not> ma_active (mc_areas ctx ! j)"
  by (simp add: mmap_alloc_slot_def find_idx_Some ctx_okD(1))

subsection \<open>Cutting a range out of an area\<close>

text \<open>What remains of an area when \<open>[us, ue)\<close> is cut out: the part below and the part above.\<close>

definition area_head :: "u64 \<Rightarrow> mmap_area \<Rightarrow> mmap_area" where
  "area_head us a = a\<lparr>ma_length := us - ma_start a\<rparr>"

definition is_tail :: "u64 \<Rightarrow> mmap_area \<Rightarrow> mmap_area \<Rightarrow> bool" where
  "is_tail ue a t \<longleftrightarrow> ma_active t \<and> lo t = unat ue \<and> hi t = hi a \<and> ma_prot t = ma_prot a \<and> ma_flags t = ma_flags a \<and> ma_file t = ma_file a"

lemma area_head_simps [simp]:
  assumes "lo a \<le> unat us"
  shows "lo (area_head us a) = lo a" "hi (area_head us a) = unat us" "ma_active (area_head us a) = ma_active a"
    "ma_prot (area_head us a) = ma_prot a" "ma_flags (area_head us a) = ma_flags a" "ma_file (area_head us a) = ma_file a"
  using assms by (simp_all add: area_head_def lo_def hi_def unat_sub word_le_nat_alt)

lemma cut_area_cases:
  assumes ok: "ctx_ok ctx" and i: "i < 256" and act: "ma_active (mc_areas ctx ! i)"
    and us: "lo (mc_areas ctx ! i) \<le> unat us" and lt: "unat us < unat ue" and ue: "unat ue \<le> hi (mc_areas ctx ! i)"
  obtains "lo (mc_areas ctx ! i) = unat us" "unat ue = hi (mc_areas ctx ! i)" "cut_area i us ue ctx = put_area i zero_area ctx"
  | t where "lo (mc_areas ctx ! i) = unat us" "unat ue < hi (mc_areas ctx ! i)" "is_tail ue (mc_areas ctx ! i) t"
      "cut_area i us ue ctx = put_area i t ctx"
  | "lo (mc_areas ctx ! i) < unat us" "unat ue = hi (mc_areas ctx ! i)"
      "cut_area i us ue ctx = put_area i (area_head us (mc_areas ctx ! i)) ctx"
  | "lo (mc_areas ctx ! i) < unat us" "unat ue < hi (mc_areas ctx ! i)" "mmap_alloc_slot ctx = None"
      "cut_area i us ue ctx = put_area i (area_head us (mc_areas ctx ! i)) ctx"
  | t j where "lo (mc_areas ctx ! i) < unat us" "unat ue < hi (mc_areas ctx ! i)" "mmap_alloc_slot ctx = Some j" "j \<noteq> i"
      "is_tail ue (mc_areas ctx ! i) t"
      "cut_area i us ue ctx = put_area j t (put_area i (area_head us (mc_areas ctx ! i)) ctx)"
proof -
  let ?a = "mc_areas ctx ! i"
  have len: "length (mc_areas ctx) = 256" using ctx_okD(1)[OF ok] .
  have w: "hi ?a < 2 ^ 64" using ctx_okD(2)[OF ok i] act by (simp add: area_ok_def)
  then have e: "unat (ma_start ?a + ma_length ?a) = hi ?a" by (simp add: hi_def unat_add_noof)
  have s_iff: "us = ma_start ?a \<longleftrightarrow> lo ?a = unat us" by (auto simp: lo_def word_unat_eq_iff)
  have e_iff: "ue = ma_start ?a + ma_length ?a \<longleftrightarrow> unat ue = hi ?a" using e by (metis word_unat_eq_iff)
  have le: "ma_start ?a \<le> ue" using us lt by (simp add: word_le_nat_alt lo_def)
  have sub: "unat (ue - ma_start ?a) = unat ue - lo ?a" using le by (simp add: unat_sub lo_def)
  have zero: "ma_start ?a = us \<longleftrightarrow> us = ma_start ?a" by auto
  show thesis
  proof (cases "us = ma_start ?a")
    case True
    show ?thesis
    proof (cases "ue = ma_start ?a + ma_length ?a")
      case eT: True
      have "cut_area i us ue ctx = put_area i zero_area ctx"
        using True eT act by (simp add: cut_area_def Let_def put_area_def upd_area_def)
      with that(1) show ?thesis using True eT s_iff e_iff by blast
    next
      case False
      let ?t = "?a\<lparr>ma_start := ma_start ?a + (ue - ma_start ?a), ma_length := ma_length ?a - (ue - ma_start ?a),
           ma_offset := (if ma_offset ?a \<noteq> 0 then ma_offset ?a + (ue - ma_start ?a) else ma_offset ?a)\<rparr>"
      have lt2: "unat ue < hi ?a" using False e_iff ue by linarith
      have "unat (ma_length ?a - (ue - ma_start ?a)) = unat (ma_length ?a) - (unat ue - lo ?a)"
        using sub ue by (subst unat_sub) (auto simp: word_le_nat_alt lo_def hi_def)
      then have "is_tail ue ?a ?t" using act lt2 us lt by (simp add: is_tail_def lo_def hi_def)
      moreover have "cut_area i us ue ctx = put_area i ?t ctx"
        using True False act by (simp add: cut_area_def Let_def put_area_def upd_area_def)
      ultimately show ?thesis using that(2) True s_iff lt2 by blast
    qed
  next
    case False
    then have us2: "lo ?a < unat us" using s_iff us by linarith
    show ?thesis
    proof (cases "ue = ma_start ?a + ma_length ?a")
      case eT: True
      have "ma_length ?a - (ue - us) = us - ma_start ?a" using eT by simp
      then have "cut_area i us ue ctx = put_area i (area_head us ?a) ctx"
        using False eT act by (simp add: cut_area_def Let_def put_area_def upd_area_def area_head_def)
      with that(3) show ?thesis using us2 eT e_iff by blast
    next
      case eF: False
      have lt2: "unat ue < hi ?a" using eF e_iff ue by linarith
      show ?thesis
      proof (cases "mmap_alloc_slot ctx")
        case None
        have "cut_area i us ue ctx = put_area i (area_head us ?a) ctx"
          using False eF None act by (simp add: cut_area_def Let_def put_area_def upd_area_def area_head_def)
        with that(4) show ?thesis using us2 lt2 None by blast
      next
        case (Some j)
        from mmap_alloc_slot_Some[OF ok Some] have j: "j < 256" "\<not> ma_active (mc_areas ctx ! j)" by auto
        then have ji: "j \<noteq> i" using act by auto
        define t where "t = (mc_areas ctx ! j)\<lparr>ma_start := ue, ma_length := ma_start ?a + ma_length ?a - ue,
                   ma_prot := ma_prot ?a, ma_flags := ma_flags ?a,
                   ma_offset := ma_offset ?a + (ue - ma_start ?a), ma_file := ma_file ?a,
                   ma_ref_count := 1, ma_active := True\<rparr>"
        have "unat (ma_start ?a + ma_length ?a - ue) = hi ?a - unat ue"
          using e lt2 by (subst unat_sub) (auto simp: word_le_nat_alt)
        then have "is_tail ue ?a t" using lt2 by (simp add: is_tail_def t_def lo_def hi_def)
        moreover have "cut_area i us ue ctx = put_area j t (put_area i (area_head us ?a) ctx)"
          using False eF Some act j ji len i
          by (simp add: cut_area_def Let_def put_area_def upd_area_def area_head_def list_update_swap t_def)
        ultimately show ?thesis using that(5) us2 lt2 Some ji by blast
      qed
    qed
  qed
qed

lemma areas_apart_sub:
  assumes "areas_apart a b" "ma_active a" "lo a \<le> lo c" "hi c \<le> hi a"
  shows "areas_apart c b"
  using assms by (auto simp: areas_apart_def)

definition hit :: "nat \<Rightarrow> nat \<Rightarrow> mmap_area \<Rightarrow> bool" where
  "hit A B a \<longleftrightarrow> ma_active a \<and> A < hi a \<and> lo a < B"

lemma cut_area_spec:
  assumes ok: "ctx_ok ctx" and i: "i < 256" and h: "hit A B (mc_areas ctx ! i)" and AB: "A < B" "4096 dvd A" "4096 dvd B"
    and us: "unat us = max A (lo (mc_areas ctx ! i))" and ue: "unat ue = min B (hi (mc_areas ctx ! i))"
  shows "ctx_ok (cut_area i us ue ctx)"
    and "k < 256 \<Longrightarrow> hit A B (mc_areas (cut_area i us ue ctx) ! k) \<longleftrightarrow> k \<noteq> i \<and> hit A B (mc_areas ctx ! k)"
    and "k < 256 \<Longrightarrow> hit A B (mc_areas (cut_area i us ue ctx) ! k) \<Longrightarrow> mc_areas (cut_area i us ue ctx) ! k = mc_areas ctx ! k"
    and "(lo (mc_areas ctx ! i) < A \<and> B < hi (mc_areas ctx ! i) \<longrightarrow> mmap_alloc_slot ctx \<noteq> None) \<Longrightarrow>
      cover (cut_area i us ue ctx) = {t \<in> cover ctx. fst t \<notin> {max A (lo (mc_areas ctx ! i))..<min B (hi (mc_areas ctx ! i))}}"
proof -
  let ?a = "mc_areas ctx ! i"
  have act: "ma_active ?a" and le: "A < hi ?a" "lo ?a < B" using h by (auto simp: hit_def)
  have aok: "hi ?a < 2 ^ 64" "lo ?a < hi ?a" "4096 dvd lo ?a" "4096 dvd hi ?a" "ma_file ?a = 0"
    using ctx_okD(2)[OF ok i] act by (simp_all add: area_ok_def)
  have b: "lo ?a \<le> unat us" "unat us < unat ue" "unat ue \<le> hi ?a" using us ue le aok(2) AB(1) by auto
  have al: "4096 dvd unat us" "4096 dvd unat ue" using us ue aok(3,4) AB(2,3) by (auto simp: max_def min_def)
  note n = put_area_nth[OF ctx_okD(1)[OF ok] i]
  have ap: "areas_apart c (mc_areas ctx ! k)" if "k < 256" "k \<noteq> i" "lo ?a \<le> lo c" "hi c \<le> hi ?a" for c k
    using areas_apart_sub[OF ctx_okD(3)[OF ok i that(1)] act that(3,4)] that(2) by blast
  have hd_ok: "area_ok (area_head us ?a)" if "lo ?a < unat us"
    using that aok b al by (simp add: area_ok_def)
  have tl_ok: "area_ok t" if "is_tail ue ?a t" "unat ue < hi ?a" for t
    using that aok al by (simp add: area_ok_def is_tail_def)
  have cov: "acover ?a = {t \<in> cover ctx. fst t \<in> {lo ?a..<hi ?a}}"
  proof (intro set_eqI iffI)
    fix t assume "t \<in> acover ?a"
    then show "t \<in> {t \<in> cover ctx. fst t \<in> {lo ?a..<hi ?a}}" using act i by (auto simp: cover_def acover_def)
  next
    fix t assume t: "t \<in> {t \<in> cover ctx. fst t \<in> {lo ?a..<hi ?a}}"
    then obtain k where k: "k < 256" "t \<in> acover (mc_areas ctx ! k)" by (auto simp: cover_def)
    then have "ma_active (mc_areas ctx ! k)" "fst t \<in> {lo (mc_areas ctx ! k)..<hi (mc_areas ctx ! k)}"
      by (auto simp: acover_def split: if_splits)
    then have "\<not> areas_apart (mc_areas ctx ! k) ?a" using t act by (auto simp: areas_apart_def)
    then have "k = i" using ctx_okD(3)[OF ok k(1) i] by blast
    then show "t \<in> acover ?a" using k by simp
  qed
  have hd_split: "{t \<in> cover ctx. \<not> (ma_active ?a \<and> fst t \<in> {lo ?a..<hi ?a})} \<union> {t \<in> acover ?a. fst t < unat us} =
      {t \<in> cover ctx. fst t \<in> {lo ?a..<hi ?a} \<longrightarrow> fst t < unat us}"
    and tl_split: "{t \<in> cover ctx. \<not> (ma_active ?a \<and> fst t \<in> {lo ?a..<hi ?a})} \<union> {t \<in> acover ?a. unat ue \<le> fst t} =
      {t \<in> cover ctx. fst t \<in> {lo ?a..<hi ?a} \<longrightarrow> unat ue \<le> fst t}"
    using act unfolding cov by auto
  have hd_cov: "acover (area_head us ?a) = {t \<in> acover ?a. fst t < unat us}" if "lo ?a < unat us"
    using that b act by (auto simp: acover_def)
  have tl_cov: "acover t = {x \<in> acover ?a. unat ue \<le> fst x}" if "is_tail ue ?a t" for t
    using that b act by (auto simp: acover_def is_tail_def)
  have iv: "{max A (lo ?a)..<min B (hi ?a)} = {unat us..<unat ue}" using us ue by simp
  have "ctx_ok (cut_area i us ue ctx) \<and> (\<forall>k<256. hit A B (mc_areas (cut_area i us ue ctx) ! k) \<longleftrightarrow> k \<noteq> i \<and> hit A B (mc_areas ctx ! k)) \<and>
      (\<forall>k<256. hit A B (mc_areas (cut_area i us ue ctx) ! k) \<longrightarrow> mc_areas (cut_area i us ue ctx) ! k = mc_areas ctx ! k) \<and>
      ((lo ?a < A \<and> B < hi ?a \<longrightarrow> mmap_alloc_slot ctx \<noteq> None) \<longrightarrow> cover (cut_area i us ue ctx) = {t \<in> cover ctx. fst t \<notin> {unat us..<unat ue}})"
  proof (rule cut_area_cases[OF ok i act b])
    assume c: "lo ?a = unat us" "unat ue = hi ?a" "cut_area i us ue ctx = put_area i zero_area ctx"
    have "ctx_ok (put_area i zero_area ctx)" by (rule put_area_ok[OF ok i]) simp_all
    moreover have "cover (put_area i zero_area ctx) = {t \<in> cover ctx. fst t \<notin> {unat us..<unat ue}}"
      using put_area_cover[OF ok i, of zero_area] act c(1,2) by auto
    ultimately show ?thesis unfolding c(3) by (auto simp: n hit_def)
  next
    fix t assume c: "lo ?a = unat us" "unat ue < hi ?a" "is_tail ue ?a t" "cut_area i us ue ctx = put_area i t ctx"
    have "ctx_ok (put_area i t ctx)"
      using c(3) b by (intro put_area_ok[OF ok i tl_ok[OF c(3,2)]] ap) (auto simp: is_tail_def)
    moreover have "cover (put_area i t ctx) = {t \<in> cover ctx. fst t \<notin> {unat us..<unat ue}}"
      unfolding put_area_cover[OF ok i, of t] tl_cov[OF c(3)] tl_split using c(1,2) b by auto
    moreover have "\<not> hit A B t" using c(2,3) ue by (auto simp: hit_def is_tail_def)
    ultimately show ?thesis unfolding c(4) by (auto simp: n)
  next
    assume c: "lo ?a < unat us" "unat ue = hi ?a" "cut_area i us ue ctx = put_area i (area_head us ?a) ctx"
    have "ctx_ok (put_area i (area_head us ?a) ctx)"
      using b by (intro put_area_ok[OF ok i hd_ok[OF c(1)]] ap) auto
    moreover have "cover (put_area i (area_head us ?a) ctx) = {t \<in> cover ctx. fst t \<notin> {unat us..<unat ue}}"
      unfolding put_area_cover[OF ok i, of "area_head us ?a"] hd_cov[OF c(1)] hd_split using c(1,2) b by auto
    moreover have "\<not> hit A B (area_head us ?a)" using c(1) us by (auto simp: hit_def)
    ultimately show ?thesis unfolding c(3) by (auto simp: n)
  next
    assume c: "lo ?a < unat us" "unat ue < hi ?a" "mmap_alloc_slot ctx = None" "cut_area i us ue ctx = put_area i (area_head us ?a) ctx"
    have "ctx_ok (put_area i (area_head us ?a) ctx)"
      using b by (intro put_area_ok[OF ok i hd_ok[OF c(1)]] ap) auto
    moreover have "\<not> hit A B (area_head us ?a)" using c(1) us by (auto simp: hit_def)
    moreover have "lo ?a < A" "B < hi ?a" using c(1,2) us ue by auto
    ultimately show ?thesis unfolding c(4) using c(3) by (auto simp: n)
  next
    fix t j assume c: "lo ?a < unat us" "unat ue < hi ?a" "mmap_alloc_slot ctx = Some j" "j \<noteq> i" "is_tail ue ?a t"
      "cut_area i us ue ctx = put_area j t (put_area i (area_head us ?a) ctx)"
    have j: "j < 256" "\<not> ma_active (mc_areas ctx ! j)" using mmap_alloc_slot_Some[OF ok c(3)] by auto
    let ?c = "put_area i (area_head us ?a) ctx"
    have ok1: "ctx_ok ?c" using b by (intro put_area_ok[OF ok i hd_ok[OF c(1)]] ap) auto
    have nj: "\<not> ma_active (mc_areas ?c ! j)" using c(4) j by (simp add: n)
    have t_ap: "areas_apart t (mc_areas ?c ! k)" if "k < 256" "k \<noteq> j" for k
    proof (cases "k = i")
      case True
      then show ?thesis using c(1,5) b by (auto simp: n areas_apart_def is_tail_def)
    next
      case False
      then show ?thesis using ap[OF that(1) False, of t] c(5) b by (simp add: n is_tail_def)
    qed
    have "ctx_ok (put_area j t ?c)" by (rule put_area_ok[OF ok1 j(1) tl_ok[OF c(5,2)] t_ap])
    moreover have "cover (put_area j t ?c) = {t \<in> cover ctx. fst t \<notin> {unat us..<unat ue}}"
    proof -
      have "cover (put_area j t ?c) = cover ?c \<union> acover t" using put_area_cover[OF ok1 j(1), of t] nj by simp
      also have "cover ?c = {t \<in> cover ctx. fst t \<in> {lo ?a..<hi ?a} \<longrightarrow> fst t < unat us}"
        unfolding put_area_cover[OF ok i, of "area_head us ?a"] hd_cov[OF c(1)] hd_split ..
      finally have "cover (put_area j t ?c) =
          {t \<in> cover ctx. (fst t \<in> {lo ?a..<hi ?a} \<longrightarrow> fst t < unat us) \<or> fst t \<in> {lo ?a..<hi ?a} \<and> unat ue \<le> fst t}"
        unfolding tl_cov[OF c(5)] cov by blast
      moreover have "(x \<in> {lo ?a..<hi ?a} \<longrightarrow> x < unat us) \<or> x \<in> {lo ?a..<hi ?a} \<and> unat ue \<le> x \<longleftrightarrow> x \<notin> {unat us..<unat ue}" for x
        using b unfolding atLeastLessThan_iff by linarith
      ultimately show ?thesis by simp
    qed
    moreover have "\<not> hit A B (area_head us ?a)" "\<not> hit A B t" "\<not> hit A B (mc_areas ctx ! j)"
      using c(1,2,5) us ue j(2) by (auto simp: hit_def is_tail_def)
    ultimately show ?thesis unfolding c(6) using c(4) put_area_nth[OF ctx_okD(1)[OF ok1] j(1), of t] by (auto simp: n)
  qed
  then show "ctx_ok (cut_area i us ue ctx)"
    "k < 256 \<Longrightarrow> hit A B (mc_areas (cut_area i us ue ctx) ! k) \<longleftrightarrow> k \<noteq> i \<and> hit A B (mc_areas ctx ! k)"
    "k < 256 \<Longrightarrow> hit A B (mc_areas (cut_area i us ue ctx) ! k) \<Longrightarrow> mc_areas (cut_area i us ue ctx) ! k = mc_areas ctx ! k"
    "(lo ?a < A \<and> B < hi ?a \<longrightarrow> mmap_alloc_slot ctx \<noteq> None) \<Longrightarrow>
      cover (cut_area i us ue ctx) = {t \<in> cover ctx. fst t \<notin> {max A (lo ?a)..<min B (hi ?a)}}"
    unfolding iv by blast+
qed

lemma mmap_alloc_slot_None: "ctx_ok ctx \<Longrightarrow> mmap_alloc_slot ctx = None \<longleftrightarrow> (\<forall>k<256. ma_active (mc_areas ctx ! k))"
  by (auto simp: mmap_alloc_slot_def find_idx_None ctx_okD(1) all_set_conv_all_nth)

text \<open>An area that reaches beyond the range on both sides must be cut in two, which takes a slot; then it is the only one in the range.\<close>

definition inside :: "nat \<Rightarrow> nat \<Rightarrow> mmap_context \<Rightarrow> bool" where
  "inside A B ctx \<longleftrightarrow> (\<exists>k<256. hit A B (mc_areas ctx ! k) \<and> lo (mc_areas ctx ! k) < A \<and> B < hi (mc_areas ctx ! k))"

lemma inside_alone:
  assumes ok: "ctx_ok ctx" and k: "k < 256" "lo (mc_areas ctx ! k) < A" "B < hi (mc_areas ctx ! k)" "hit A B (mc_areas ctx ! k)"
    and i: "i < 256" "hit A B (mc_areas ctx ! i)"
  shows "i = k"
proof (rule ccontr)
  assume "i \<noteq> k"
  from ctx_okD(3)[OF ok i(1) k(1) this] k i(2) show False by (auto simp: areas_apart_def hit_def)
qed

subsection \<open>Unmapping removes a range\<close>

lemma vm_unmap_spec:
  assumes ok: "vm_ok vm F"
  shows "vm_ok (vm_unmap_page (cr3 vm) v vm) F" "cr3 (vm_unmap_page (cr3 vm) v vm) = cr3 vm"
    "vm_zone (vm_unmap_page (cr3 vm) v vm) = vm_zone vm"
    "vm_entry (vm_unmap_page (cr3 vm) v vm) w = (if same_page w v then None else vm_entry vm w)"
proof -
  have pt: "pt_ok (vm_pmap vm) (cr3 vm)" and pl: "plain (pm_mem (vm_pmap vm)) (cr3 vm)"
    using ok by (simp_all add: vm_ok_def vm_inv_def vm_mem_def)
  have nz: "cr3 vm \<noteq> 0"
    using owned_range(2)[OF pt_okD(1)[OF pt] pt_okD(2)[OF pt path_dir(4)]] by simp
  show c: "cr3 (vm_unmap_page (cr3 vm) v vm) = cr3 vm" "vm_zone (vm_unmap_page (cr3 vm) v vm) = vm_zone vm"
    by (simp_all add: vm_unmap_page_def pmap_unmap_page_def Let_def)
  have "plain (pm_mem (pmap_unmap_page (vm_pmap vm) (cr3 vm) v)) (cr3 vm)"
  proof (cases "pt_walk (pm_mem (vm_pmap vm)) (cr3 vm) (dir_path v)")
    case None
    then have "pmap_unmap_page (vm_pmap vm) (cr3 vm) v = vm_pmap vm"
      by (auto simp: pmap_unmap_page_def Let_def split: if_splits)
    then show ?thesis using pl by simp
  next
    case (Some pt)
    then have "pmap_unmap_page (vm_pmap vm) (cr3 vm) v = (vm_pmap vm)\<lparr>pm_mem := (pm_mem (vm_pmap vm))(slot pt (idx_pt v) := 0)\<rparr>"
      using nz by (auto simp: pmap_unmap_page_def Let_def split: if_splits)
    then show ?thesis using plain_write[OF assms(1)[unfolded vm_ok_def vm_inv_def, THEN conjunct1, THEN conjunct1] pl Some] by simp
  qed
  then show "vm_ok (vm_unmap_page (cr3 vm) v vm) F"
    using ok pmap_unmap_page_spec(1)[OF pt] c(1) by (simp add: vm_ok_def vm_inv_def vm_unmap_page_def vm_mem_def)
  show "vm_entry (vm_unmap_page (cr3 vm) v vm) w = (if same_page w v then None else vm_entry vm w)"
    using pmap_unmap_page_spec(2)[OF pt, of v w] c(1) by (simp add: vm_unmap_page_def)
qed

lemma unmap_fold_spec:
  assumes "vm_ok vm F"
  shows "let vm' = fold (\<lambda>v vm. vm_unmap_page (cr3 vm) v vm) vs vm in
    vm_ok vm' F \<and> cr3 vm' = cr3 vm \<and> vm_zone vm' = vm_zone vm \<and>
    (\<forall>w. vm_entry vm' w = (if \<exists>v \<in> set vs. same_page w v then None else vm_entry vm w))"
  using assms
proof (induction vs arbitrary: vm)
  case (Cons v vs)
  note u = vm_unmap_spec[OF Cons.prems, of v]
  show ?case using Cons.IH[OF u(1)] u(2,3) u(4) by (auto simp: Let_def)
qed simp

lemma same_page_div:
  assumes "unat v div 4096 = unat w div 4096"
  shows "same_page v w"
proof -
  have d: "drop_bit 12 v = drop_bit 12 w"
    using assms by (simp add: word_unat_eq_iff drop_bit_eq_div unat_div_distrib)
  have "bit v n = bit w n" if "12 \<le> n" for n
    using arg_cong[OF d, of "\<lambda>x. bit x (n - 12)"] that by (simp add: bit_drop_bit_eq)
  then show ?thesis by (simp add: same_page_bits)
qed

lemma unat_64: "unat (x :: u64) < 2 ^ 64"
  using unsigned_less[of x, where 'a = nat] by simp

lemma align_page_id:
  assumes "4096 dvd unat x"
  shows "align_page x = x"
proof -
  obtain k where k: "unat x = 4096 * k" using assms by (elim dvdE)
  with unat_64[of x] have "k < 2 ^ 52" by simp
  then have "unat x + 4095 < 2 ^ 64" using k by simp
  from unat_align_page[OF this] k have "unat (align_page x) = unat x" by simp
  then show ?thesis by (simp add: word_unat_eq_iff)
qed

lemma page_align_down_id:
  assumes "4096 dvd unat x"
  shows "page_align_down x = x"
proof -
  have m: "(4096 - 1 :: u64) = mask 12" by (simp add: mask_eq_exp_minus_1)
  obtain k where k: "unat x = 4096 * k" using assms by (elim dvdE)
  have "unat (x AND NOT (mask 12)) = unat x" using unat_and_not_mask[of 12 x] k by simp
  then show ?thesis unfolding page_align_down_def m by (simp only: word_unat_eq_iff)
qed

lemma unat_page_at:
  assumes "unat b + 4096 * j < 2 ^ 64"
  shows "unat (page_at b j) = unat b + 4096 * j"
proof -
  have "unat (of_nat j * 4096 :: u64) = 4096 * j"
    using assms unat_of_nat[of "j * 4096", where 'a = 64] by (simp add: mult.commute)
  then show ?thesis using assms by (simp add: page_at_def unat_add_noof)
qed

lemma page_range_pages:
  assumes al: "4096 dvd unat us" "4096 dvd unat ue"
  shows "(\<exists>v \<in> set (page_range us ue). same_page w v) \<longleftrightarrow> (\<exists>x \<in> {unat us..<unat ue}. same_page w (of_nat x))"
proof -
  obtain p q where p: "unat us = 4096 * p" and q: "unat ue = 4096 * q" using al by (elim dvdE)
  show ?thesis
proof
  assume "\<exists>v \<in> set (page_range us ue). same_page w v"
  then obtain k where k: "k < (unat ue - unat us) div 4096" "same_page w (page_at us k)" by (auto simp: page_range_def)
  have le: "unat us + 4096 * k < unat ue" using k(1) p q by simp
  then have u: "unat (page_at us k) = unat us + 4096 * k" using unat_64[of ue] by (intro unat_page_at) simp
  have "same_page w (of_nat (unat us + 4096 * k))" using k(2) unfolding u[symmetric] by simp
  then show "\<exists>x \<in> {unat us..<unat ue}. same_page w (of_nat x)" using le by (intro bexI[of _ "unat us + 4096 * k"]) simp_all
next
  assume "\<exists>x \<in> {unat us..<unat ue}. same_page w (of_nat x)"
  then obtain x where x: "unat us \<le> x" "x < unat ue" "same_page w (of_nat x)" by auto
  define d where "d = x div 4096"
  have d: "4096 * d \<le> x" "x < 4096 * d + 4096" unfolding d_def by simp_all
  define k where "k = d - p"
  have pd: "p \<le> d" "d < q" using x(1,2) d p q by simp_all
  have "(unat ue - unat us) div 4096 = q - p" unfolding p q by (simp flip: diff_mult_distrib2)
  then have k: "k < (unat ue - unat us) div 4096" "unat us + 4096 * k = 4096 * d" using pd p unfolding k_def by simp_all
  have x64: "x < 2 ^ 64" using x(2) unat_64[of ue] by simp
  then have ux: "unat (of_nat x :: u64) = x" using unat_of_nat[of x, where 'a = 64] by simp
  have u: "unat (page_at us k) = unat us + 4096 * k" using k(2) d(1) x64 by (intro unat_page_at) simp
  have "unat (of_nat x :: u64) div 4096 = unat (page_at us k) div 4096"
    unfolding ux u k(2) d_def by simp
  then have "same_page (of_nat x) (page_at us k)" by (rule same_page_div)
  then have "same_page w (page_at us k)" using x(3) by (simp add: same_page_def)
  then show "\<exists>v \<in> set (page_range us ue). same_page w v" using k(1) by (auto simp: page_range_def)
qed
qed

text \<open>The pages of a set of addresses have no entry any more; other pages keep theirs.\<close>

definition pages_gone :: "nat set \<Rightarrow> vm_state \<Rightarrow> vm_state \<Rightarrow> bool" where
  "pages_gone X vm vm' \<longleftrightarrow> (\<forall>w. vm_entry vm' w = (if \<exists>x \<in> X. same_page w (of_nat x) then None else vm_entry vm w))"

lemma pages_gone_trans: "pages_gone X vm vm' \<Longrightarrow> pages_gone Y vm' vm'' \<Longrightarrow> pages_gone (X \<union> Y) vm vm''"
  unfolding pages_gone_def by auto

lemma hit_covered: "(\<exists>k<256. hit A B (mc_areas ctx ! k)) \<longleftrightarrow> (\<exists>k<256. ma_active (mc_areas ctx ! k) \<and> A < hi (mc_areas ctx ! k) \<and> lo (mc_areas ctx ! k) < B)"
  by (simp add: hit_def)

text \<open>One round of the loop, on an area \<open>mmap_find_covering_area\<close> found.\<close>

lemma munmap_one_spec:
  assumes ok: "ctx_ok ctx" and i: "i < 256" and h: "hit (unat addr) (unat addr + unat len) (mc_areas ctx ! i)"
    and al: "4096 dvd unat addr" "4096 dvd unat len" "0 < unat len" and B: "unat addr + unat len < 2 ^ 64"
  shows "\<exists>ctx' st'. munmap_one hw addr len i (ctx, st) = Some (ctx', st') \<and> ctx_ok ctx' \<and>
     {k. k < 256 \<and> hit (unat addr) (unat addr + unat len) (mc_areas ctx' ! k)} =
       {k. k < 256 \<and> hit (unat addr) (unat addr + unat len) (mc_areas ctx ! k)} - {i} \<and>
     mm_pc st' = mm_pc st \<and> mm_log st' = mm_log st \<and>
     \<not> inside (unat addr) (unat addr + unat len) ctx' \<and>
     ((inside (unat addr) (unat addr + unat len) ctx \<longrightarrow> mmap_alloc_slot ctx \<noteq> None) \<longrightarrow>
        cover ctx' = {t \<in> cover ctx. fst t \<notin> {max (unat addr) (lo (mc_areas ctx ! i))..<min (unat addr + unat len) (hi (mc_areas ctx ! i))}}) \<and>
     (vm_ok (mm_vm st) F \<longrightarrow> vm_ok (mm_vm st') F \<and> vm_zone (mm_vm st') = vm_zone (mm_vm st) \<and>
        pages_gone {max (unat addr) (lo (mc_areas ctx ! i))..<min (unat addr + unat len) (hi (mc_areas ctx ! i))} (mm_vm st) (mm_vm st'))"
proof -
  let ?a = "mc_areas ctx ! i"
  have act: "ma_active ?a" "unat addr < hi ?a" "lo ?a < unat addr + unat len" using h by (auto simp: hit_def)
  have aok: "hi ?a < 2 ^ 64" "lo ?a < hi ?a" "4096 dvd lo ?a" "4096 dvd hi ?a" "ma_file ?a = 0"
    using ctx_okD(2)[OF ok i] act(1) by (simp_all add: area_ok_def)
  have e: "unat (ma_start ?a + ma_length ?a) = hi ?a" using aok(1) by (simp add: hi_def unat_add_noof)
  have f: "unat (addr + len) = unat addr + unat len" using B by (simp add: unat_add_noof)
  define us where "us = (if addr > ma_start ?a then addr else ma_start ?a)"
  define ue where "ue = (if addr + len < ma_start ?a + ma_length ?a then addr + len else ma_start ?a + ma_length ?a)"
  have us: "unat us = max (unat addr) (lo ?a)" by (auto simp: us_def lo_def word_less_nat_alt)
  have ue: "unat ue = min (unat addr + unat len) (hi ?a)" using e f by (auto simp: ue_def word_less_nat_alt)
  have AB: "unat addr < unat addr + unat len" "4096 dvd unat addr + unat len" using act al by auto
  have alu: "4096 dvd unat us" "4096 dvd unat ue" using us ue aok(3,4) al(1) AB(2) by (auto simp: max_def min_def)
  let ?st = "st\<lparr>mm_vm := fold (\<lambda>v vm. vm_unmap_page (cr3 vm) v vm) (page_range us ue) (mm_vm st)\<rparr>"
  have mv: "mm_vm ?st = fold (\<lambda>v vm. vm_unmap_page (cr3 vm) v vm) (page_range us ue) (mm_vm st)" by simp
  have run: "munmap_one hw addr len i (ctx, st) = Some (cut_area i us ue ctx, ?st)"
    using aok(5) page_align_down_id[OF alu(1)] align_page_id[OF alu(2)]
    by (simp add: munmap_one_def Let_def us_def[symmetric] ue_def[symmetric])
  note c = cut_area_spec[OF ok i h AB(1) al(1) AB(2) us ue]
  have "{k. k < 256 \<and> hit (unat addr) (unat addr + unat len) (mc_areas (cut_area i us ue ctx) ! k)} =
       {k. k < 256 \<and> hit (unat addr) (unat addr + unat len) (mc_areas ctx ! k)} - {i}" using c(2) by auto
  moreover have "vm_ok (mm_vm ?st) F \<and> vm_zone (mm_vm ?st) = vm_zone (mm_vm st) \<and>
        pages_gone {unat us..<unat ue} (mm_vm st) (mm_vm ?st)" if "vm_ok (mm_vm st) F"
    using unmap_fold_spec[OF that, of "page_range us ue"] unfolding page_range_pages[OF alu] Let_def pages_gone_def
    unfolding mv by blast
  moreover have "\<not> inside (unat addr) (unat addr + unat len) (cut_area i us ue ctx)"
    using c(2,3) inside_alone[OF ok _ _ _ _ i h] unfolding inside_def by metis
  moreover have "inside (unat addr) (unat addr + unat len) ctx" if "lo ?a < unat addr \<and> unat addr + unat len < hi ?a"
    using that i h unfolding inside_def by blast
  ultimately show ?thesis using run c(1,4) unfolding us ue by auto
qed

lemma find_covering_hit:
  assumes "ctx_ok ctx" "unat addr + unat len < 2 ^ 64"
  shows "mmap_find_covering_area ctx addr len = Some i \<Longrightarrow> i < 256 \<and> hit (unat addr) (unat addr + unat len) (mc_areas ctx ! i)"
    and "mmap_find_covering_area ctx addr len = None \<longleftrightarrow> (\<forall>k<256. \<not> hit (unat addr) (unat addr + unat len) (mc_areas ctx ! k))"
proof -
  have o: "overlaps addr len (mc_areas ctx ! k) \<longleftrightarrow> hit (unat addr) (unat addr + unat len) (mc_areas ctx ! k)" if "k < 256" for k
    using overlaps_range[OF _ assms(2), of "mc_areas ctx ! k"] ctx_okD(2)[OF assms(1) that] by (auto simp: hit_def area_ok_def)
  show "mmap_find_covering_area ctx addr len = Some i \<Longrightarrow> i < 256 \<and> hit (unat addr) (unat addr + unat len) (mc_areas ctx ! i)"
    using o by (auto simp: mmap_find_covering_area_def find_idx_Some ctx_okD(1)[OF assms(1)])
  show "mmap_find_covering_area ctx addr len = None \<longleftrightarrow> (\<forall>k<256. \<not> hit (unat addr) (unat addr + unat len) (mc_areas ctx ! k))"
    using o by (auto simp: mmap_find_covering_area_def find_idx_None ctx_okD(1)[OF assms(1)] all_set_conv_all_nth)
qed

lemma no_hit_cover:
  assumes "\<forall>k<256. \<not> hit A B (mc_areas ctx ! k)"
  shows "fst ` cover ctx \<inter> {A..<B} = {}"
  using assms by (force simp: cover_def acover_def hit_def split: if_splits)

lemma munmap_loop_spec:
  assumes al: "4096 dvd unat addr" "4096 dvd unat len" "0 < unat len" and B: "unat addr + unat len < 2 ^ 64" and "ctx_ok ctx"
  shows "\<exists>ctx' st'. munmap_loop hw addr len found (ctx, st) =
       Some (found \<or> (\<exists>k<256. hit (unat addr) (unat addr + unat len) (mc_areas ctx ! k)), ctx', st') \<and> ctx_ok ctx' \<and>
     (\<forall>k<256. \<not> hit (unat addr) (unat addr + unat len) (mc_areas ctx' ! k)) \<and>
     mm_pc st' = mm_pc st \<and> mm_log st' = mm_log st \<and>
     ((inside (unat addr) (unat addr + unat len) ctx \<longrightarrow> mmap_alloc_slot ctx \<noteq> None) \<longrightarrow>
        cover ctx' = {t \<in> cover ctx. fst t \<notin> {unat addr..<unat addr + unat len}}) \<and>
     ((inside (unat addr) (unat addr + unat len) ctx \<longrightarrow> mmap_alloc_slot ctx \<noteq> None) \<and> vm_ok (mm_vm st) F \<longrightarrow>
        vm_ok (mm_vm st') F \<and> vm_zone (mm_vm st') = vm_zone (mm_vm st) \<and>
        pages_gone (fst ` cover ctx \<inter> {unat addr..<unat addr + unat len}) (mm_vm st) (mm_vm st'))"
  using \<open>ctx_ok ctx\<close>
proof (induction "card {k. k < 256 \<and> hit (unat addr) (unat addr + unat len) (mc_areas ctx ! k)}" arbitrary: ctx st found)
  case 0
  then have none: "\<forall>k<256. \<not> hit (unat addr) (unat addr + unat len) (mc_areas ctx ! k)" by simp
  then have "mmap_find_covering_area ctx addr len = None" using find_covering_hit(2)[OF "0.prems" B] by blast
  moreover have "{t \<in> cover ctx. fst t \<notin> {unat addr..<unat addr + unat len}} = cover ctx" using no_hit_cover[OF none] by blast
  ultimately show ?case
    using none "0.prems" no_hit_cover[OF none] by (subst munmap_loop.simps) (auto simp: pages_gone_def)
next
  case (Suc n)
  let ?A = "unat addr" and ?B = "unat addr + unat len"
  have "{k. k < 256 \<and> hit ?A ?B (mc_areas ctx ! k)} \<noteq> {}" using Suc.hyps(2) by (metis card.empty Zero_not_Suc)
  then have ex: "\<exists>k<256. hit ?A ?B (mc_areas ctx ! k)" by blast
  then obtain i where f: "mmap_find_covering_area ctx addr len = Some i"
    using find_covering_hit(2)[OF Suc.prems B] by (cases "mmap_find_covering_area ctx addr len") auto
  from find_covering_hit(1)[OF Suc.prems B f] have i: "i < 256" "hit ?A ?B (mc_areas ctx ! i)" by auto
  let ?a = "mc_areas ctx ! i" and ?U = "{max ?A (lo (mc_areas ctx ! i))..<min ?B (hi (mc_areas ctx ! i))}"
  from munmap_one_spec[OF Suc.prems i al B, of hw st F] obtain ctx1 st1 where
    o: "munmap_one hw addr len i (ctx, st) = Some (ctx1, st1)" "ctx_ok ctx1"
      "{k. k < 256 \<and> hit ?A ?B (mc_areas ctx1 ! k)} = {k. k < 256 \<and> hit ?A ?B (mc_areas ctx ! k)} - {i}"
      "mm_pc st1 = mm_pc st" "mm_log st1 = mm_log st"
      "\<not> inside ?A ?B ctx1"
      "(inside ?A ?B ctx \<longrightarrow> mmap_alloc_slot ctx \<noteq> None) \<longrightarrow> cover ctx1 = {t \<in> cover ctx. fst t \<notin> ?U}"
      "vm_ok (mm_vm st) F \<longrightarrow> vm_ok (mm_vm st1) F \<and> vm_zone (mm_vm st1) = vm_zone (mm_vm st) \<and> pages_gone ?U (mm_vm st) (mm_vm st1)"
    by (elim exE conjE) (rule that; assumption)
  have "n = card {k. k < 256 \<and> hit ?A ?B (mc_areas ctx1 ! k)}" using Suc.hyps(2) i unfolding o(3) by simp
  from Suc.hyps(1)[OF this o(2), of True st1] obtain ctx2 st2 where
    r: "munmap_loop hw addr len True (ctx1, st1) = Some (True, ctx2, st2)" "ctx_ok ctx2" "mm_pc st2 = mm_pc st1" "mm_log st2 = mm_log st1"
      "\<forall>k<256. \<not> hit ?A ?B (mc_areas ctx2 ! k)"
      "(inside ?A ?B ctx1 \<longrightarrow> mmap_alloc_slot ctx1 \<noteq> None) \<longrightarrow> cover ctx2 = {t \<in> cover ctx1. fst t \<notin> {?A..<?B}}"
      "(inside ?A ?B ctx1 \<longrightarrow> mmap_alloc_slot ctx1 \<noteq> None) \<and> vm_ok (mm_vm st1) F \<longrightarrow> vm_ok (mm_vm st2) F \<and> vm_zone (mm_vm st2) = vm_zone (mm_vm st1) \<and>
        pages_gone (fst ` cover ctx1 \<inter> {?A..<?B}) (mm_vm st1) (mm_vm st2)"
    by auto
  have c1: "cover ctx1 = {t \<in> cover ctx. fst t \<notin> ?U}" if "inside ?A ?B ctx \<longrightarrow> mmap_alloc_slot ctx \<noteq> None" using o(7) that by blast
  have c2: "cover ctx2 = {t \<in> cover ctx1. fst t \<notin> {?A..<?B}}" using r(6) o(6) by blast
  have sub: "?U \<subseteq> {?A..<?B}" by auto
  have "cover ctx2 = {t \<in> cover ctx. fst t \<notin> {?A..<?B}}" if "inside ?A ?B ctx \<longrightarrow> mmap_alloc_slot ctx \<noteq> None"
    unfolding c2 c1[OF that] using sub by blast
  moreover have "vm_ok (mm_vm st2) F \<and> vm_zone (mm_vm st2) = vm_zone (mm_vm st) \<and>
      pages_gone (fst ` cover ctx \<inter> {?A..<?B}) (mm_vm st) (mm_vm st2)"
    if s: "inside ?A ?B ctx \<longrightarrow> mmap_alloc_slot ctx \<noteq> None" and vmok: "vm_ok (mm_vm st) F"
  proof -
    have v: "vm_ok (mm_vm st1) F" "vm_zone (mm_vm st1) = vm_zone (mm_vm st)" "pages_gone ?U (mm_vm st) (mm_vm st1)"
      using o(8) vmok by auto
    have rr: "vm_ok (mm_vm st2) F" "vm_zone (mm_vm st2) = vm_zone (mm_vm st1)"
        "pages_gone (fst ` cover ctx1 \<inter> {?A..<?B}) (mm_vm st1) (mm_vm st2)"
      using r(7) o(6) v(1) by auto
    have "x \<in> fst ` cover ctx" if "x \<in> ?U" for x
    proof -
      have "(x, ma_prot ?a, ma_flags ?a) \<in> acover ?a" using that i(2) by (auto simp: acover_def hit_def)
      then have "(x, ma_prot ?a, ma_flags ?a) \<in> cover ctx" using i(1) by (auto simp: cover_def)
      then show ?thesis by force
    qed
    moreover have "fst ` cover ctx1 = fst ` cover ctx - ?U" unfolding c1[OF s] by force
    ultimately have "?U \<union> (fst ` cover ctx1 \<inter> {?A..<?B}) = fst ` cover ctx \<inter> {?A..<?B}" using sub by blast
    then have "pages_gone (fst ` cover ctx \<inter> {?A..<?B}) (mm_vm st) (mm_vm st2)"
      using pages_gone_trans[OF v(3) rr(3)] by simp
    then show ?thesis using rr(1,2) v(2) by simp
  qed
  moreover have "munmap_loop hw addr len found (ctx, st) = Some (True, ctx2, st2)"
    using f o(1) r(1) by (subst munmap_loop.simps) simp
  ultimately show ?case using r(2-5) o(4,5) ex by auto
qed

lemma hit_iff_covered:
  assumes "ctx_ok ctx" "A < B"
  shows "(\<exists>k<256. hit A B (mc_areas ctx ! k)) \<longleftrightarrow> fst ` cover ctx \<inter> {A..<B} \<noteq> {}"
proof
  assume "\<exists>k<256. hit A B (mc_areas ctx ! k)"
  then obtain k where k: "k < 256" "hit A B (mc_areas ctx ! k)" by blast
  let ?x = "max A (lo (mc_areas ctx ! k))"
  have "(?x, ma_prot (mc_areas ctx ! k), ma_flags (mc_areas ctx ! k)) \<in> acover (mc_areas ctx ! k)" "?x \<in> {A..<B}"
    using k ctx_okD(2)[OF assms(1) k(1)] assms(2) by (auto simp: acover_def hit_def area_ok_def)
  then show "fst ` cover ctx \<inter> {A..<B} \<noteq> {}" using k(1) by (force simp: cover_def)
qed (use no_hit_cover in blast)

lemma mmap_do_munmap_loop:
  assumes ok: "ctx_ok ctx" and al: "4096 dvd unat addr" and len: "len \<noteq> 0" "unat len + 4095 < 2 ^ 64"
    and B: "unat addr + unat (align_page len) < 2 ^ 64"
  shows "\<exists>ctx' st'. mmap_do_munmap hw ctx addr len st =
       Some (if fst ` cover ctx \<inter> {unat addr..<unat addr + unat (align_page len)} = {} then - 1 else 0, ctx', st') \<and> ctx_ok ctx' \<and>
     (\<forall>k<256. \<not> hit (unat addr) (unat addr + unat (align_page len)) (mc_areas ctx' ! k)) \<and>
     mm_pc st' = mm_pc st \<and> mm_log st' = mm_log st \<and>
     ((inside (unat addr) (unat addr + unat (align_page len)) ctx \<longrightarrow> mmap_alloc_slot ctx \<noteq> None) \<longrightarrow>
        cover ctx' = {t \<in> cover ctx. fst t \<notin> {unat addr..<unat addr + unat (align_page len)}}) \<and>
     ((inside (unat addr) (unat addr + unat (align_page len)) ctx \<longrightarrow> mmap_alloc_slot ctx \<noteq> None) \<and> vm_ok (mm_vm st) F \<longrightarrow>
        vm_ok (mm_vm st') F \<and> vm_zone (mm_vm st') = vm_zone (mm_vm st) \<and>
        pages_gone (fst ` cover ctx \<inter> {unat addr..<unat addr + unat (align_page len)}) (mm_vm st) (mm_vm st'))"
proof -
  have pos: "0 < unat (align_page len)"
    using align_page_ge[OF len(2)] len(1) unat_gt_0[of len] by linarith
  have lt: "unat addr < unat addr + unat (align_page len)" using pos by simp
  from munmap_loop_spec[OF al align_page_dvd[OF len(2)] pos B ok, of hw False st F] obtain ctx' st' where
    r: "munmap_loop hw addr (align_page len) False (ctx, st) =
         Some (\<exists>k<256. hit (unat addr) (unat addr + unat (align_page len)) (mc_areas ctx ! k), ctx', st')" "ctx_ok ctx'"
      "\<forall>k<256. \<not> hit (unat addr) (unat addr + unat (align_page len)) (mc_areas ctx' ! k)"
      "mm_pc st' = mm_pc st" "mm_log st' = mm_log st"
      "(inside (unat addr) (unat addr + unat (align_page len)) ctx \<longrightarrow> mmap_alloc_slot ctx \<noteq> None) \<longrightarrow>
        cover ctx' = {t \<in> cover ctx. fst t \<notin> {unat addr..<unat addr + unat (align_page len)}}"
      "(inside (unat addr) (unat addr + unat (align_page len)) ctx \<longrightarrow> mmap_alloc_slot ctx \<noteq> None) \<and> vm_ok (mm_vm st) F \<longrightarrow>
        vm_ok (mm_vm st') F \<and> vm_zone (mm_vm st') = vm_zone (mm_vm st) \<and>
        pages_gone (fst ` cover ctx \<inter> {unat addr..<unat addr + unat (align_page len)}) (mm_vm st) (mm_vm st')"
    by (simp only: simp_thms) (elim exE conjE, rule that; assumption)
  have "mmap_do_munmap hw ctx addr len st =
      Some (if fst ` cover ctx \<inter> {unat addr..<unat addr + unat (align_page len)} = {} then - 1 else 0, ctx', st')"
    using r(1) len(1) unfolding hit_iff_covered[OF ok lt] by (simp add: mmap_do_munmap_def)
  then show ?thesis using r(2-7) by blast
qed

text \<open>
  C7. With a free slot in the table, \<open>mmap_do_munmap\<close> of a range that starts at a page and does not wrap around
  takes exactly the addresses of the range out of the map: the loop ends, addresses
  outside keep their protection and flags (also when an area is cut in two), the areas stay apart and counted, the pages of the addresses taken out have no page table entry
  any more while all others keep theirs, and the result says whether there was anything to
  unmap. No frame is given back: the zone is left as it was.
\<close>

theorem munmap_removes_range:
  assumes "ctx_ok ctx" "vm_ok (mm_vm st) F" "4096 dvd unat addr" "len \<noteq> 0" "unat len + 4095 < 2 ^ 64"
    and "unat addr + unat (align_page len) < 2 ^ 64" "mmap_alloc_slot ctx \<noteq> None"
  shows "\<exists>r ctx' st'. mmap_do_munmap hw ctx addr len st = Some (r, ctx', st') \<and>
     (r = 0 \<longleftrightarrow> fst ` cover ctx \<inter> {unat addr..<unat addr + unat (align_page len)} \<noteq> {}) \<and> ctx_ok ctx' \<and>
     cover ctx' = {t \<in> cover ctx. fst t \<notin> {unat addr..<unat addr + unat (align_page len)}} \<and>
     vm_ok (mm_vm st') F \<and> vm_zone (mm_vm st') = vm_zone (mm_vm st) \<and>
     pages_gone (fst ` cover ctx \<inter> {unat addr..<unat addr + unat (align_page len)}) (mm_vm st) (mm_vm st')"
  using mmap_do_munmap_loop[OF assms(1,3-6), of hw st F] assms(2,7) by (elim exE conjE) (auto split: if_splits)

end
