(* ===== verification/Mmap_Pages.thy ===== *)
theory Mmap_Pages
  imports Mmap
begin

section \<open>The frames behind memory mappings\<close>

text \<open>
  Properties of \<open>arch/x86_64/mmap.c\<close> that join the areas of the theory \<open>Mmap\<close> with the page tables and
  the frames: a new anonymous area gets cleared frames of its own, the areas of a context stay apart over every
  history of calls, and what the handler of page faults, \<open>mprotect\<close> and the end of a context do to pages.
\<close>

subsection \<open>Pages of one area are different pages\<close>

lemma same_page_mod: "same_page v w \<longleftrightarrow> unat v div 4096 mod 2 ^ 36 = unat w div 4096 mod 2 ^ 36"
proof -
  have t: "unat x div 4096 mod 2 ^ 36 = unat (take_bit 36 (drop_bit 12 x))" for x :: u64
    by (simp add: drop_bit_eq_div unat_div_distrib take_bit_eq_mod unat_mod_distrib)
  have b: "bit (take_bit 36 (drop_bit 12 x)) n \<longleftrightarrow> n < 36 \<and> bit x (12 + n)" for x :: u64 and n
    by (auto simp: bit_take_bit_iff bit_drop_bit_eq)
  have "same_page v w \<longleftrightarrow> take_bit 36 (drop_bit 12 v) = take_bit 36 (drop_bit 12 w)"
  proof
    assume s: "same_page v w"
    show "take_bit 36 (drop_bit 12 v) = take_bit 36 (drop_bit 12 w)"
      by (rule bit_word_eqI) (use s in \<open>auto simp: b same_page_bits\<close>)
  next
    assume e: "take_bit 36 (drop_bit 12 v) = take_bit 36 (drop_bit 12 w)"
    have "bit v n = bit w n" if "12 \<le> n" "n < 48" for n
    proof -
      have "n - 12 < 36" using that by linarith
      then show ?thesis using arg_cong[OF e, of "\<lambda>x. bit x (n - 12)"] that unfolding b by simp
    qed
    then show "same_page v w" by (simp add: same_page_bits)
  qed
  then show ?thesis unfolding t by (simp add: word_unat_eq_iff)
qed

lemma page_at_same:
  assumes "4096 dvd unat b" "unat b + 4096 * n \<le> 2 ^ 64" "n \<le> 2 ^ 36" "i < n" "j < n"
  shows "same_page (page_at b i) (page_at b j) \<longleftrightarrow> i = j"
proof -
  obtain q where q: "unat b = 4096 * q" using assms(1) by (elim dvdE)
  have d: "unat (page_at b k) div 4096 = q + k" if "k < n" for k
    using unat_page_at[of b k] assms(2) that q by simp
  have "k = l" if "l \<le> k" "(q + k) mod 2 ^ 36 = (q + l) mod 2 ^ 36" "k < n" for k l
  proof -
    have "2 ^ 36 dvd q + k - (q + l)" using that(1,2) mod_eq_dvd_iff_nat[of "q + l" "q + k" "2 ^ 36"] by simp
    then have "2 ^ 36 dvd k - l" by simp
    then show ?thesis using that(1,3) assms(3) by (metis diff_diff_cancel diff_less_mono2 diff_zero dvd_imp_le leD le_less_trans less_imp_diff_less less_le_trans zero_less_diff order_le_less)
  qed
  then have "(q + i) mod 2 ^ 36 = (q + j) mod 2 ^ 36 \<longleftrightarrow> i = j" using assms(4,5) by (metis nat_le_linear)
  then show ?thesis unfolding same_page_mod d[OF assms(4)] d[OF assms(5)] .
qed

subsection \<open>Filling an area\<close>

lemma populate_step:
  assumes "flags OR PAGE_PRESENT = flags" "mmap_populate True base flags (i # is) vm = Some (True, vm')"
  shows "\<exists>vm1. demand_page_alloc (page_at base i) flags vm = Some (0, vm1) \<and> mmap_populate True base flags is vm1 = Some (True, vm')"
  using assms by (auto simp: demand_page_alloc_def Let_def split: if_splits prod.splits Option.bind_splits)

lemma populate_step_back:
  assumes "flags OR PAGE_PRESENT = flags" "demand_page_alloc (page_at base i) flags vm = Some (0, vm1)"
  shows "mmap_populate True base flags (i # is) vm = mmap_populate True base flags is vm1"
  using assms by (auto simp: demand_page_alloc_def Let_def split: if_splits prod.splits Option.bind_splits)

definition in_frame :: "u64 \<Rightarrow> u64 \<Rightarrow> bool" where
  "in_frame p a \<longleftrightarrow> unat p \<le> unat a \<and> unat a < unat p + 4096"

lemma populate_spec:
  assumes "vm_ok vm F" and pf: "flags OR PAGE_PRESENT = flags" and "distinct is"
    and "\<forall>i \<in> set is. \<forall>j \<in> set is. same_page (page_at base i) (page_at base j) \<longrightarrow> i = j"
    and "mmap_populate True base flags is vm = Some (True, vm')"
  shows "\<exists>F' fr. vm_ok vm' F' \<and> base_pfn (vm_zone vm') = base_pfn (vm_zone vm) \<and>
     inj_on (\<lambda>i. frame_idx (vm_zone vm) (fr i)) (set is) \<and> (\<forall>i \<in> set is. zone_frame (fr i)) \<and>
     (\<lambda>i. frame_idx (vm_zone vm) (fr i)) ` set is \<subseteq> free_frames F \<and>
     free_frames F' = free_frames F - (\<lambda>i. frame_idx (vm_zone vm) (fr i)) ` set is \<and>
     (\<forall>i \<in> set is. vm_entry vm' (page_at base i) = Some (fr i OR flags)) \<and>
     (\<forall>w. (\<forall>i \<in> set is. \<not> same_page w (page_at base i)) \<longrightarrow> vm_entry vm' w = vm_entry vm w) \<and>
     (\<forall>a. 2 ^ 32 \<le> unat a \<longrightarrow> vm_mem vm' a = (if \<exists>i \<in> set is. in_frame (fr i) a then 0 else vm_mem vm a))"
  using assms(1,3,4,5)
proof (induction "is" arbitrary: vm F)
  case Nil
  then show ?case by auto
next
  case (Cons i "is")
  from populate_step[OF pf Cons.prems(4)] obtain vm1 where
    d: "demand_page_alloc (page_at base i) flags vm = Some (0, vm1)" and r: "mmap_populate True base flags is vm1 = Some (True, vm')" by blast
  from demand_page_spec[OF Cons.prems(1) d] obtain F1 p where
    s: "vm_ok vm1 F1" "zone_frame p" "frame_idx (vm_zone vm) p \<in> free_frames F" "free_frames F1 = free_frames F - {frame_idx (vm_zone vm) p}"
      "\<forall>w. vm_entry vm1 w = (if same_page w (page_at base i) then Some (p OR (flags OR PAGE_PRESENT)) else vm_entry vm w)"
      "base_pfn (vm_zone vm1) = base_pfn (vm_zone vm)"
      "\<forall>a. 2 ^ 32 \<le> unat a \<longrightarrow> vm_mem vm1 a = (if unat p \<le> unat a \<and> unat a < unat p + 4096 then 0 else vm_mem vm a)"
    by (elim exE conjE) (rule that; assumption)
  have ni: "i \<notin> set is" using Cons.prems(2) by simp
  have fi: "frame_idx (vm_zone vm1) = frame_idx (vm_zone vm)" using s(6) by (simp add: frame_idx_def fun_eq_iff)
  have dis: "distinct is" and sep: "\<forall>i \<in> set is. \<forall>j \<in> set is. same_page (page_at base i) (page_at base j) \<longrightarrow> i = j"
    using Cons.prems(2,3) by auto
  from Cons.IH[OF s(1) dis sep r] obtain F' fr where
    h: "vm_ok vm' F'" "base_pfn (vm_zone vm') = base_pfn (vm_zone vm1)"
      "inj_on (\<lambda>i. frame_idx (vm_zone vm) (fr i)) (set is)" "\<forall>i \<in> set is. zone_frame (fr i)"
      "(\<lambda>i. frame_idx (vm_zone vm) (fr i)) ` set is \<subseteq> free_frames F1"
      "free_frames F' = free_frames F1 - (\<lambda>i. frame_idx (vm_zone vm) (fr i)) ` set is"
      "\<forall>i \<in> set is. vm_entry vm' (page_at base i) = Some (fr i OR flags)"
      "\<forall>w. (\<forall>i \<in> set is. \<not> same_page w (page_at base i)) \<longrightarrow> vm_entry vm' w = vm_entry vm1 w"
      "\<forall>a. 2 ^ 32 \<le> unat a \<longrightarrow> vm_mem vm' a = (if \<exists>i \<in> set is. in_frame (fr i) a then 0 else vm_mem vm1 a)"
    unfolding fi by (elim exE conjE) (rule that; assumption)
  let ?fr = "fr(i := p)" and ?x = "\<lambda>i. frame_idx (vm_zone vm) (fr i)"
  have img: "(\<lambda>j. frame_idx (vm_zone vm) (?fr j)) ` set (i # is) = insert (frame_idx (vm_zone vm) p) (?x ` set is)"
    using ni by auto
  have new: "frame_idx (vm_zone vm) p \<notin> ?x ` set is" using h(5) s(4) by auto
  have inj: "inj_on (\<lambda>j. frame_idx (vm_zone vm) (?fr j)) (set (i # is))"
  proof -
    have "inj_on (\<lambda>j. frame_idx (vm_zone vm) (?fr j)) (set is) \<longleftrightarrow> inj_on ?x (set is)" by (rule inj_on_cong) (use ni in auto)
    moreover have "(\<lambda>j. frame_idx (vm_zone vm) (?fr j)) ` (set is - {i}) = ?x ` set is" using ni by auto
    ultimately show ?thesis using h(3) new unfolding list.set inj_on_insert by simp
  qed
  have ent: "vm_entry vm' (page_at base j) = Some (?fr j OR flags)" if "j \<in> set (i # is)" for j
  proof (cases "j = i")
    case True
    have "\<not> same_page (page_at base i) (page_at base k)" if "k \<in> set is" for k using Cons.prems(3) ni that by auto
    then have "vm_entry vm' (page_at base i) = vm_entry vm1 (page_at base i)" using h(8) by blast
    also have "\<dots> = Some (p OR flags)" using s(5) pf by (simp add: same_page_def)
    finally show ?thesis using True by simp
  qed (use h(7) that in auto)
  have rest: "vm_entry vm' w = vm_entry vm w" if "\<forall>j \<in> set (i # is). \<not> same_page w (page_at base j)" for w
    using h(8) s(5) that by simp
  have mem: "vm_mem vm' a = (if \<exists>j \<in> set (i # is). in_frame (?fr j) a then 0 else vm_mem vm a)" if "2 ^ 32 \<le> unat a" for a
  proof -
    have "(\<exists>j \<in> set (i # is). in_frame (?fr j) a) \<longleftrightarrow> in_frame p a \<or> (\<exists>j \<in> set is. in_frame (fr j) a)" using ni by auto
    moreover have "vm_mem vm1 a = (if in_frame p a then 0 else vm_mem vm a)" using s(7) that by (simp add: in_frame_def)
    moreover have "vm_mem vm' a = (if \<exists>i \<in> set is. in_frame (fr i) a then 0 else vm_mem vm1 a)" using h(9) that by blast
    ultimately show ?thesis by metis
  qed
  have "free_frames F' = free_frames F - (\<lambda>j. frame_idx (vm_zone vm) (?fr j)) ` set (i # is)"
    unfolding img using h(6) s(4) by blast
  moreover have "(\<lambda>j. frame_idx (vm_zone vm) (?fr j)) ` set (i # is) \<subseteq> free_frames F" unfolding img using h(5) s(3,4) by blast
  moreover have "\<forall>j \<in> set (i # is). zone_frame (?fr j)" using h(4) s(2) by simp
  moreover have "base_pfn (vm_zone vm') = base_pfn (vm_zone vm)" using h(2) s(6) by simp
  ultimately show ?case using h(1) inj ent rest mem by (intro exI[of _ F'] exI[of _ ?fr]) blast
qed

lemma populate_succeeds:
  assumes pf: "flags OR PAGE_PRESENT = flags" and "vm_ok vm F" "length is \<le> card (free_frames F)" "pool_room (pm_pool (vm_pmap vm)) (3 * length is + n)"
  shows "\<exists>vm'. mmap_populate True base flags is vm = Some (True, vm') \<and> pool_room (pm_pool (vm_pmap vm')) n"
  using assms(2-)
proof (induction "is" arbitrary: vm F)
  case (Cons i "is")
  have fin: "finite (free_frames F)" "free_frames F \<noteq> {}" using Cons.prems(2) by (auto intro: card_ge_0_finite)
  have "pool_room (pm_pool (vm_pmap vm)) (3 * length is + n + 3)" using Cons.prems(3) by (simp add: algebra_simps)
  from demand_page_succeeds[OF Cons.prems(1) fin(2) this] obtain vm1 where
    d: "demand_page_alloc (page_at base i) flags vm = Some (0, vm1)" "pool_room (pm_pool (vm_pmap vm1)) (3 * length is + n)" by blast
  from demand_page_spec[OF Cons.prems(1) d(1)] obtain F1 x where
    s: "vm_ok vm1 F1" "x \<in> free_frames F" "free_frames F1 = free_frames F - {x}" by blast
  have "length is \<le> card (free_frames F1)" using Cons.prems(2) s(2,3) fin(1) by simp
  from Cons.IH[OF s(1) this d(2)] populate_step_back[OF pf d(1), of "is"] show ?case by simp
qed simp

lemma prot_flags_present: "prot_to_pte_flags prot OR PAGE_PRESENT = prot_to_pte_flags prot"
  by (simp add: prot_to_pte_flags_def Let_def or.assoc)

subsection \<open>The address of a new area\<close>

lemma free_area_aligned:
  assumes "\<forall>a \<in> set areas. ma_active a \<longrightarrow> 4096 dvd lo a" "4096 dvd unat len" "4096 dvd unat c"
  shows "4096 dvd unat (free_area_from areas len c)"
  using assms
proof (induction areas len c rule: free_area_from.induct)
  case (1 areas len c)
  show ?case
  proof (cases "0x10000000 + len \<le> c")
    case True
    show ?thesis
    proof (cases "find (overlaps (c - len) len) areas")
      case None
      have "4096 dvd unat (c - len)"
      proof (cases "len \<le> c")
        case True
        then show ?thesis using "1.prems"(2,3) by (simp add: unat_sub)
      next
        case False
        have "unat (c - len) = unat c + (2 ^ 64 - unat len)" using False unat_64[of len] by (simp add: unat_sub_if_size word_size word_le_nat_alt)
        then show ?thesis using "1.prems"(2,3) unat_64[of len] by (simp add: dvd_diff_nat)
      qed
      then show ?thesis using None True by (subst free_area_from.simps) simp
    next
      case (Some a)
      then have "4096 dvd unat (ma_start a)" using "1.prems"(1) by (auto simp: find_Some_iff overlaps_def lo_def)
      then show ?thesis using "1.IH"[OF True Some "1.prems"(1,2)] Some True by (subst free_area_from.simps) simp
    qed
  qed (subst free_area_from.simps, simp)
qed

lemma align_page_bounds:
  assumes "unat len \<le> 2 ^ 40 + 4096" "len \<noteq> 0"
  shows "0 < unat (align_page len)" "unat (align_page len) \<le> 2 ^ 41" "align_page len \<noteq> 0" "unat (align_page len) + 4095 < 2 ^ 64"
proof -
  have l: "unat len + 4095 < 2 ^ 64" using assms(1) by simp
  have "unat (align_page len) \<le> unat len + 4095" unfolding unat_align_page[OF l] by simp
  then show "unat (align_page len) \<le> 2 ^ 41" "unat (align_page len) + 4095 < 2 ^ 64" using assms(1) by simp_all
  have "0 < unat len" using assms(2) by (simp add: unat_gt_0)
  then show "0 < unat (align_page len)" using align_page_ge[OF l] by linarith
  then show "align_page len \<noteq> 0" by auto
qed

lemma find_free_area_ok:
  assumes ok: "ctx_ok ctx" and len: "len \<noteq> 0" "unat len \<le> 2 ^ 40 + 4096" and nz: "mmap_find_free_area ctx (align_page len) \<noteq> 0"
  shows "4096 dvd unat (mmap_find_free_area ctx (align_page len))"
    "unat (mmap_find_free_area ctx (align_page len)) + unat (align_page len) < 2 ^ 64"
    "\<forall>k<256. \<not> hit (unat (mmap_find_free_area ctx (align_page len))) (unat (mmap_find_free_area ctx (align_page len)) + unat (align_page len)) (mc_areas ctx ! k)"
    "unat (mmap_find_free_area ctx (align_page len)) + unat (align_page len) \<le> 0x7F0000000000"
proof -
  let ?n = "align_page len"
  have l: "unat len + 4095 < 2 ^ 64" using len(2) by simp
  have al: "4096 dvd unat ?n" "align_page ?n = ?n" using align_page_dvd[OF l] align_page_id by auto
  have n: "0 < unat ?n" "unat ?n \<le> 2 ^ 41" using align_page_bounds[OF len(2,1)] by blast+
  have e: "mmap_find_free_area ctx ?n = free_area_from (mc_areas ctx) ?n 0x7F0000000000"
    using n(1) al(2) by (auto simp: mmap_find_free_area_def)
  have ar: "\<forall>a \<in> set (mc_areas ctx). ma_active a \<longrightarrow> 4096 dvd lo a"
    using ctx_okD(1,2)[OF ok] by (auto simp: in_set_conv_nth area_ok_def)
  show "4096 dvd unat (mmap_find_free_area ctx ?n)" unfolding e by (rule free_area_aligned[OF ar al(1)]) simp
  let ?S = "free_starts (mc_areas ctx) (unat ?n) (unat (0x7F0000000000 :: u64))"
  have m: "unat (mmap_find_free_area ctx ?n) = (if ?S = {} then 0 else Max ?S)"
    unfolding e by (rule free_area_from_max[OF ctx_okD(5)[OF ok] n(2,1)])
  then have "?S \<noteq> {}" using nz by (auto simp: unat_eq_0)
  then have "unat (mmap_find_free_area ctx ?n) \<in> ?S" using m Max_in[of ?S] by simp
  then have r: "unat (mmap_find_free_area ctx ?n) + unat ?n \<le> 0x7F0000000000" "range_free (mc_areas ctx) (unat (mmap_find_free_area ctx ?n)) (unat ?n)"
    by (auto simp: free_starts_def)
  then show "unat (mmap_find_free_area ctx ?n) + unat ?n < 2 ^ 64" "unat (mmap_find_free_area ctx ?n) + unat ?n \<le> 0x7F0000000000" by simp_all
  show "\<forall>k<256. \<not> hit (unat (mmap_find_free_area ctx ?n)) (unat (mmap_find_free_area ctx ?n) + unat ?n) (mc_areas ctx ! k)"
    using r(2) ctx_okD(1)[OF ok] unfolding range_free_def hit_def by (metis nth_mem not_le)
qed

lemma not_bad_args:
  assumes "\<not> mmap_bad_args addr len prot flags offset"
  shows "len \<noteq> 0" "unat len \<le> 2 ^ 40" "4096 dvd unat addr"
proof -
  show "len \<noteq> 0" "unat len \<le> 2 ^ 40" using assms by (auto simp: mmap_bad_args_def word_less_nat_alt)
  have "addr AND 0xFFF = 0" using assms by (auto simp: mmap_bad_args_def)
  moreover have "unat (addr AND (2 ^ 12 - 1)) = unat addr mod 2 ^ 12" by (rule unat_mod_pow2_mask) simp
  ultimately show "4096 dvd unat addr" by (simp add: dvd_eq_mod_eq_0)
qed

lemma map_addr_spec:
  assumes ok: "ctx_ok ctx" and nb: "\<not> mmap_bad_args addr len prot flags offset" and B: "unat addr + unat (align_page len) < 2 ^ 64"
  obtains m ctx1 st1 where "mmap_map_addr hw ctx addr (align_page len) flags st = Some (m, ctx1, st1)" "ctx_ok ctx1"
    "m \<noteq> 0 \<longrightarrow> 4096 dvd unat m" "m \<noteq> 0 \<longrightarrow> unat m + unat (align_page len) < 2 ^ 64"
    "m \<noteq> 0 \<longrightarrow> (\<forall>k<256. \<not> hit (unat m) (unat m + unat (align_page len)) (mc_areas ctx1 ! k))"
    "flags AND MAP_FIXED = 0 \<or> addr = 0 \<longrightarrow> ctx1 = ctx \<and> st1 = st"
proof -
  let ?n = "align_page len"
  note b = not_bad_args[OF nb]
  have l: "unat len + 4095 < 2 ^ 64" "unat len \<le> 2 ^ 40 + 4096" using b(2) by simp_all
  have al: "4096 dvd unat ?n" "align_page ?n = ?n" using align_page_dvd[OF l(1)] align_page_id by auto
  note n0 = align_page_bounds(3,4)[OF l(2) b(1)]
  note ff = find_free_area_ok(1-3)[OF ok b(1) l(2)]
  show thesis
  proof (cases "addr \<noteq> 0 \<and> flags AND MAP_FIXED \<noteq> 0")
    case True
    obtain ctx1 st1 r where mu: "mmap_do_munmap hw ctx addr ?n st = Some (r, ctx1, st1)" "ctx_ok ctx1"
        "\<forall>k<256. \<not> hit (unat addr) (unat addr + unat ?n) (mc_areas ctx1 ! k)"
      using mmap_do_munmap_loop[OF ok b(3) n0] B unfolding al(2) by blast
    show thesis by (rule that[of addr ctx1 st1]) (use True mu b(3) B in \<open>auto simp: mmap_map_addr_def\<close>)
  next
    case False
    let ?m = "if addr \<noteq> 0 \<and> \<not> mmap_check_overlap ctx addr ?n then addr else mmap_find_free_area ctx ?n"
    have m: "mmap_map_addr hw ctx addr ?n flags st = Some (?m, ctx, st)" using False by (auto simp: mmap_map_addr_def)
    have o: "\<forall>k<256. \<not> hit (unat addr) (unat addr + unat ?n) (mc_areas ctx ! k)" if "\<not> mmap_check_overlap ctx addr ?n"
      using that overlaps_range[OF _ B] ctx_okD(1,2)[OF ok] unfolding mmap_check_overlap_def list_ex_iff hit_def area_ok_def
      by (metis nth_mem)
    show thesis
      by (rule that[OF m ok]) (use ff o b(3) B in \<open>auto split: if_splits\<close>)
  qed
qed

subsection \<open>A new area\<close>

definition new_area :: "mmap_area \<Rightarrow> u64 \<Rightarrow> u64 \<Rightarrow> u32 \<Rightarrow> u32 \<Rightarrow> u64 \<Rightarrow> mmap_area" where
  "new_area a m n prot flags offset = a\<lparr>ma_start := m, ma_length := n, ma_prot := prot,
     ma_flags := flags, ma_offset := offset, ma_ref_count := 1, ma_active := True, ma_file := 0\<rparr>"

lemma new_area_simps [simp]:
  "ma_active (new_area a m n prot flags offset)" "lo (new_area a m n prot flags offset) = unat m"
  "hi (new_area a m n prot flags offset) = unat m + unat n" "ma_file (new_area a m n prot flags offset) = 0"
  "ma_flags (new_area a m n prot flags offset) = flags" "ma_prot (new_area a m n prot flags offset) = prot"
  by (simp_all add: new_area_def lo_def hi_def)

lemma lo_hi_upd [simp]:
  "lo (a\<lparr>ma_flags := f\<rparr>) = lo a" "hi (a\<lparr>ma_flags := f\<rparr>) = hi a" "lo (a\<lparr>ma_prot := p\<rparr>) = lo a" "hi (a\<lparr>ma_prot := p\<rparr>) = hi a"
  "lo (a\<lparr>ma_ref_count := c\<rparr>) = lo a" "hi (a\<lparr>ma_ref_count := c\<rparr>) = hi a"
  by (simp_all add: lo_def hi_def)

lemma put_area_new:
  assumes ok: "ctx_ok ctx" and j: "mmap_alloc_slot ctx = Some j" and m: "4096 dvd lo a" "4096 dvd hi a" "lo a < hi a" "hi a < 2 ^ 64" "ma_file a = 0"
    and free: "\<forall>k<256. \<not> hit (lo a) (hi a) (mc_areas ctx ! k)"
  shows "ctx_ok (put_area j a ctx)" "cover (put_area j a ctx) = cover ctx \<union> acover a"
proof -
  have j': "j < 256" "\<not> ma_active (mc_areas ctx ! j)" using mmap_alloc_slot_Some[OF ok j] by auto
  have "areas_apart a (mc_areas ctx ! k)" if "k < 256" for k
    using free that by (auto simp: areas_apart_def hit_def)
  then show "ctx_ok (put_area j a ctx)" using m by (intro put_area_ok[OF ok j'(1)]) (simp_all add: area_ok_def)
  show "cover (put_area j a ctx) = cover ctx \<union> acover a" using put_area_cover[OF ok j'(1), of a] j'(2) by simp
qed

lemma put_area_dead:
  assumes ok: "ctx_ok ctx" and j: "mmap_alloc_slot ctx = Some j" and a: "\<not> ma_active a"
  shows "ctx_ok (put_area j a ctx)" "cover (put_area j a ctx) = cover ctx"
  using mmap_alloc_slot_Some[OF ok j] put_area_cover[OF ok, of j a] a put_area_ok[OF ok, of j a]
  by (auto simp: area_ok_def areas_apart_def acover_def)

lemma upd_put_area:
  assumes "j < length (mc_areas ctx)"
  shows "ma_active (f a) = ma_active a \<Longrightarrow> upd_area j f (put_area j a ctx) = put_area j (f a) ctx"
    "ma_active a \<Longrightarrow> \<not> ma_active (f a) \<Longrightarrow>
     (upd_area j f (put_area j a ctx))\<lparr>area_count := area_count (put_area j a ctx) - 1\<rparr> = put_area j (f a) ctx"
  using assms by (simp_all add: upd_area_def put_area_def)

lemma mmap_fill_cases:
  assumes j: "j < length (mc_areas ctx)" and a: "a = new_area b m n prot flags offset"
    and run: "mmap_fill j m n prot flags offset (put_area j a ctx) st = Some (r, ctx', st')"
  obtains f where "r = m" "ctx' = put_area j (a\<lparr>ma_flags := f\<rparr>) ctx" | "r = - 1" "ctx' = put_area j (a\<lparr>ma_active := False\<rparr>) ctx"
proof -
  have nth: "mc_areas (put_area j a ctx) ! j = a" using j by (simp add: put_area_def)
  have fil: "ma_file a = 0" "ma_active a" unfolding a by simp_all
  have id: "put_area j a ctx = put_area j (a\<lparr>ma_flags := ma_flags a\<rparr>) ctx" by simp
  have up: "upd_area j (\<lambda>a. a\<lparr>ma_flags := ma_flags a OR f\<rparr>) (put_area j a ctx) = put_area j (a\<lparr>ma_flags := ma_flags a OR f\<rparr>) ctx" for f
    using upd_put_area(1)[OF j, of "\<lambda>a. a\<lparr>ma_flags := ma_flags a OR f\<rparr>" a] by simp
  have dn: "(upd_area j (\<lambda>a. a\<lparr>ma_active := False\<rparr>) (put_area j a ctx))\<lparr>area_count := area_count (put_area j a ctx) - 1\<rparr> =
      put_area j (a\<lparr>ma_active := False\<rparr>) ctx"
    using upd_put_area(2)[OF j, of a "\<lambda>a. a\<lparr>ma_active := False\<rparr>"] fil(2) by simp
  show thesis
    using run that(1)[of "ma_flags a OR MMAP_FLAG_POPULATED"] that(1)[of "ma_flags a OR MMAP_FLAG_COW"] that(1)[of "ma_flags a"] that(2)
    unfolding mmap_fill_def Let_def nth up dn by (auto simp: fil id[symmetric] split: if_splits)
qed

lemma mmap_do_mmap_steps:
  assumes ok: "ctx_ok ctx" and nb: "\<not> mmap_bad_args addr len prot flags offset" and m: "m \<noteq> 0"
    and ma: "mmap_map_addr hw ctx addr (align_page len) flags st = Some (m, ctx1, st1)" and ok1: "ctx_ok ctx1" and j: "mmap_alloc_slot ctx1 = Some j"
  shows "mmap_do_mmap hw ctx addr len prot flags fd offset st =
    mmap_fill j m (align_page len) prot flags offset (put_area j (new_area (mc_areas ctx1 ! j) m (align_page len) prot flags offset) ctx1) st1"
proof -
  have "\<not> ma_active (mc_areas ctx1 ! j)" using mmap_alloc_slot_Some[OF ok1 j] by blast
  then have "(upd_area j (\<lambda>a. a\<lparr>ma_start := m, ma_length := align_page len, ma_prot := prot,
        ma_flags := flags, ma_offset := offset, ma_ref_count := 1, ma_active := True, ma_file := 0\<rparr>) ctx1)\<lparr>area_count := area_count ctx1 + 1\<rparr> =
      put_area j (new_area (mc_areas ctx1 ! j) m (align_page len) prot flags offset) ctx1"
    by (simp add: upd_area_def put_area_def new_area_def)
  then show ?thesis using nb m ma j by (simp add: mmap_do_mmap_def Let_def)
qed

lemma mmap_do_mmap_ctx:
  assumes ok: "ctx_ok ctx" and B: "unat addr + unat (align_page len) < 2 ^ 64"
    and run: "mmap_do_mmap hw ctx addr len prot flags fd offset st = Some (r, ctx', st')"
  shows "ctx_ok ctx'"
proof (cases "mmap_bad_args addr len prot flags offset")
  case True
  then show ?thesis using run ok by (simp add: mmap_do_mmap_def)
next
  case False
  note b = not_bad_args[OF False]
  have l: "unat len \<le> 2 ^ 40 + 4096" "unat len + 4095 < 2 ^ 64" using b(2) by simp_all
  obtain m ctx1 st1 where
    m: "mmap_map_addr hw ctx addr (align_page len) flags st = Some (m, ctx1, st1)" "ctx_ok ctx1"
      "m \<noteq> 0 \<longrightarrow> 4096 dvd unat m" "m \<noteq> 0 \<longrightarrow> unat m + unat (align_page len) < 2 ^ 64"
      "m \<noteq> 0 \<longrightarrow> (\<forall>k<256. \<not> hit (unat m) (unat m + unat (align_page len)) (mc_areas ctx1 ! k))"
      "flags AND MAP_FIXED = 0 \<or> addr = 0 \<longrightarrow> ctx1 = ctx \<and> st1 = st"
    by (rule map_addr_spec[OF ok False B, where hw = hw and st = st])
  show ?thesis
  proof (cases "m = 0 \<or> mmap_alloc_slot ctx1 = None")
    case True
    then have "ctx' = ctx1" using run False m(1) True by (auto simp: mmap_do_mmap_def Let_def split: if_splits)
    then show ?thesis using m(2) by simp
  next
    case c: False
    then obtain j where j: "mmap_alloc_slot ctx1 = Some j" and m0: "m \<noteq> 0" by auto
    let ?a = "new_area (mc_areas ctx1 ! j) m (align_page len) prot flags offset"
    have jl: "j < length (mc_areas ctx1)" using mmap_alloc_slot_Some[OF m(2) j] ctx_okD(1)[OF m(2)] by simp
    have "4096 dvd unat m + unat (align_page len)" using m(3)[THEN mp, OF m0] align_page_dvd[OF l(2)] by simp
    then have good: "ctx_ok (put_area j (?a\<lparr>ma_flags := f\<rparr>) ctx1)" for f
      using m(3-5)[THEN mp, OF m0] align_page_bounds(1)[OF l(1) b(1)] by (intro put_area_new(1)[OF m(2) j]) simp_all
    have dead: "ctx_ok (put_area j (?a\<lparr>ma_active := False\<rparr>) ctx1)" by (rule put_area_dead(1)[OF m(2) j]) simp
    from run[unfolded mmap_do_mmap_steps[OF ok False m0 m(1,2) j]] show ?thesis
      by (rule mmap_fill_cases[OF jl refl]) (use good dead in auto)
  qed
qed

lemma mmap_fresh:
  assumes ok: "ctx_ok ctx" "vm_ok (mm_vm st) F" and nb: "\<not> mmap_bad_args addr len prot flags offset"
    and fl: "flags AND MAP_ANONYMOUS \<noteq> 0" "flags AND MAP_FIXED = 0 \<or> addr = 0" and B: "unat addr + unat (align_page len) < 2 ^ 64"
    and slot: "mmap_alloc_slot ctx \<noteq> None" "mmap_find_free_area ctx (align_page len) \<noteq> 0"
    and room: "unat (align_page len) div 4096 \<le> card (free_frames F)" "pool_room (pm_pool (vm_pmap (mm_vm st))) (3 * (unat (align_page len) div 4096) + k)"
  shows "\<exists>m ctx' st' F' fr. mmap_do_mmap hw ctx addr len prot flags fd offset st = Some (m, ctx', st') \<and> m \<noteq> - 1 \<and>
     fst ` cover ctx \<inter> {unat m..<unat m + unat (align_page len)} = {} \<and> ctx_ok ctx' \<and>
     cover ctx' = cover ctx \<union> {unat m..<unat m + unat (align_page len)} \<times> {(prot, flags OR MMAP_FLAG_POPULATED)} \<and>
     vm_ok (mm_vm st') F' \<and>
     inj_on (\<lambda>i. frame_idx (vm_zone (mm_vm st)) (fr i)) {0..<unat (align_page len) div 4096} \<and>
     (\<lambda>i. frame_idx (vm_zone (mm_vm st)) (fr i)) ` {0..<unat (align_page len) div 4096} \<subseteq> free_frames F \<and>
     free_frames F' = free_frames F - (\<lambda>i. frame_idx (vm_zone (mm_vm st)) (fr i)) ` {0..<unat (align_page len) div 4096} \<and>
     (\<forall>i < unat (align_page len) div 4096. zone_frame (fr i) \<and> vm_entry (mm_vm st') (page_at m i) = Some (fr i OR prot_to_pte_flags prot)) \<and>
     (\<forall>w. (\<forall>i < unat (align_page len) div 4096. \<not> same_page w (page_at m i)) \<longrightarrow> vm_entry (mm_vm st') w = vm_entry (mm_vm st) w) \<and>
     (\<forall>a. 2 ^ 32 \<le> unat a \<longrightarrow> vm_mem (mm_vm st') a =
        (if \<exists>i < unat (align_page len) div 4096. in_frame (fr i) a then 0 else vm_mem (mm_vm st) a)) \<and>
     base_pfn (vm_zone (mm_vm st')) = base_pfn (vm_zone (mm_vm st)) \<and> pool_room (pm_pool (vm_pmap (mm_vm st'))) k"
proof -
  let ?n = "align_page len" and ?np = "unat (align_page len) div 4096" and ?f = "prot_to_pte_flags prot"
  note b = not_bad_args[OF nb]
  have l: "unat len \<le> 2 ^ 40 + 4096" "unat len + 4095 < 2 ^ 64" using b(2) by simp_all
  note nn = align_page_bounds[OF l(1) b(1)]
  obtain np where np: "unat ?n = 4096 * np" using align_page_dvd[OF l(2)] by (elim dvdE)
  obtain m ctx1 st1 where
    m: "mmap_map_addr hw ctx addr ?n flags st = Some (m, ctx1, st1)" "ctx_ok ctx1"
      "m \<noteq> 0 \<longrightarrow> 4096 dvd unat m" "m \<noteq> 0 \<longrightarrow> unat m + unat ?n < 2 ^ 64"
      "m \<noteq> 0 \<longrightarrow> (\<forall>k<256. \<not> hit (unat m) (unat m + unat ?n) (mc_areas ctx1 ! k))"
      "flags AND MAP_FIXED = 0 \<or> addr = 0 \<longrightarrow> ctx1 = ctx \<and> st1 = st"
    by (rule map_addr_spec[OF ok(1) nb B, where hw = hw and st = st])
  have m0: "m \<noteq> 0" using m(1) slot(2) fl(2) by (auto simp: mmap_map_addr_def split: if_splits)
  note mm = m(3-5)[THEN mp, OF m0] and same = m(6)[THEN mp, OF fl(2)]
  obtain j where j: "mmap_alloc_slot ctx = Some j" using slot(1) by auto
  define a where "a = new_area (mc_areas ctx ! j) m ?n prot flags offset"
  have jl: "j < length (mc_areas ctx)" using mmap_alloc_slot_Some[OF ok(1) j] ctx_okD(1)[OF ok(1)] by simp
  have run: "mmap_do_mmap hw ctx addr len prot flags fd offset st = mmap_fill j m ?n prot flags offset (put_area j a ctx) st"
    using mmap_do_mmap_steps[OF ok(1) nb m0 _ ok(1) j] m(1) same unfolding a_def by blast
  have npd: "unat (?n div 4096) = ?np" by (simp add: unat_div_distrib)
  have "length [0..<?np] \<le> card (free_frames F)" "pool_room (pm_pool (vm_pmap (mm_vm st))) (3 * length [0..<?np] + k)" using room by simp_all
  from populate_succeeds[OF prot_flags_present ok(2) this] obtain vm' where
    vm': "mmap_populate True m ?f [0..<?np] (mm_vm st) = Some (True, vm')" "pool_room (pm_pool (vm_pmap vm')) k" by blast
  have sep: "\<forall>i \<in> set [0..<?np]. \<forall>k \<in> set [0..<?np]. same_page (page_at m i) (page_at m k) \<longrightarrow> i = k"
    using page_at_same[OF mm(1), of ?np] mm(2) nn(2) np by simp
  let ?a = "a\<lparr>ma_flags := flags OR MMAP_FLAG_POPULATED\<rparr>"
  have res: "mmap_do_mmap hw ctx addr len prot flags fd offset st = Some (m, put_area j ?a ctx, st\<lparr>mm_vm := vm'\<rparr>)"
    using fl(1) vm'(1) upd_put_area(1)[OF jl, of "\<lambda>a. a\<lparr>ma_flags := ma_flags a OR MMAP_FLAG_POPULATED\<rparr>" a]
    unfolding run mmap_fill_def npd Let_def by (simp add: a_def)
  have free: "\<forall>k<256. \<not> hit (unat m) (unat m + unat ?n) (mc_areas ctx ! k)" using mm(3) same by simp
  have "4096 dvd unat m + unat ?n" using mm(1) align_page_dvd[OF l(2)] by simp
  then have put: "ctx_ok (put_area j ?a ctx)" "cover (put_area j ?a ctx) = cover ctx \<union> acover ?a"
    using mm(1,2) nn(1) free by (intro put_area_new[OF ok(1) j]; simp add: a_def)+
  have cov: "acover ?a = {unat m..<unat m + unat ?n} \<times> {(prot, flags OR MMAP_FLAG_POPULATED)}"
    by (simp add: acover_def a_def)
  have m1: "m \<noteq> - 1" using mm(2) nn(1) by (auto simp: unsigned_minus_1_eq_mask mask_eq_exp_minus_1)
  from populate_spec[OF ok(2) prot_flags_present distinct_upt sep vm'(1)] obtain F' fr where
    h: "vm_ok vm' F'" "base_pfn (vm_zone vm') = base_pfn (vm_zone (mm_vm st))" "inj_on (\<lambda>i. frame_idx (vm_zone (mm_vm st)) (fr i)) (set [0..<?np])" "\<forall>i \<in> set [0..<?np]. zone_frame (fr i)"
     "(\<lambda>i. frame_idx (vm_zone (mm_vm st)) (fr i)) ` set [0..<?np] \<subseteq> free_frames F"
     "free_frames F' = free_frames F - (\<lambda>i. frame_idx (vm_zone (mm_vm st)) (fr i)) ` set [0..<?np]"
     "\<forall>i \<in> set [0..<?np]. vm_entry vm' (page_at m i) = Some (fr i OR ?f)"
     "\<forall>w. (\<forall>i \<in> set [0..<?np]. \<not> same_page w (page_at m i)) \<longrightarrow> vm_entry vm' w = vm_entry (mm_vm st) w"
     "\<forall>a. 2 ^ 32 \<le> unat a \<longrightarrow> vm_mem vm' a = (if \<exists>i \<in> set [0..<?np]. in_frame (fr i) a then 0 else vm_mem (mm_vm st) a)"
    by (elim exE conjE) (rule that; assumption)
  have e: "(\<exists>i \<in> set [0..<?np]. P i) = (\<exists>i < ?np. P i)" "(\<forall>i \<in> set [0..<?np]. P i) = (\<forall>i < ?np. P i)" for P by auto
  show ?thesis
    by (rule exI[of _ m], rule exI[of _ "put_area j ?a ctx"], rule exI[of _ "st\<lparr>mm_vm := vm'\<rparr>"], rule exI[of _ F'], rule exI[of _ fr])
      (use res m1 no_hit_cover[OF free] put cov h[unfolded e] vm'(2) in simp)
qed

text \<open>
  C6. With enough frames, table pages, address space and a free slot, an anonymous \<open>mmap_do_mmap\<close> without \<open>MAP_FIXED\<close>
  (or with no hint), of a hint and a length that do not wrap around, succeeds. It returns an address at which no area lay before, the area is added with its protection, the areas
  stay apart, and each of its pages maps a cleared frame of its own that was free, with the page table flags of
  the protection; all other pages and all other frames are as before.
\<close>

theorem mmap_maps_fresh_frames:
  assumes ok: "ctx_ok ctx" "vm_ok (mm_vm st) F" and nb: "\<not> mmap_bad_args addr len prot flags offset"
    and fl: "flags AND MAP_ANONYMOUS \<noteq> 0" "flags AND MAP_FIXED = 0 \<or> addr = 0" and B: "unat addr + unat (align_page len) < 2 ^ 64"
    and slot: "mmap_alloc_slot ctx \<noteq> None" "mmap_find_free_area ctx (align_page len) \<noteq> 0"
    and room: "unat (align_page len) div 4096 \<le> card (free_frames F)" "pool_room (pm_pool (vm_pmap (mm_vm st))) (3 * (unat (align_page len) div 4096))"
  shows "\<exists>m ctx' st' F' fr. mmap_do_mmap hw ctx addr len prot flags fd offset st = Some (m, ctx', st') \<and> m \<noteq> - 1 \<and>
     fst ` cover ctx \<inter> {unat m..<unat m + unat (align_page len)} = {} \<and> ctx_ok ctx' \<and>
     cover ctx' = cover ctx \<union> {unat m..<unat m + unat (align_page len)} \<times> {(prot, flags OR MMAP_FLAG_POPULATED)} \<and>
     vm_ok (mm_vm st') F' \<and>
     inj_on (\<lambda>i. frame_idx (vm_zone (mm_vm st)) (fr i)) {0..<unat (align_page len) div 4096} \<and>
     (\<lambda>i. frame_idx (vm_zone (mm_vm st)) (fr i)) ` {0..<unat (align_page len) div 4096} \<subseteq> free_frames F \<and>
     free_frames F' = free_frames F - (\<lambda>i. frame_idx (vm_zone (mm_vm st)) (fr i)) ` {0..<unat (align_page len) div 4096} \<and>
     (\<forall>i < unat (align_page len) div 4096. zone_frame (fr i) \<and> vm_entry (mm_vm st') (page_at m i) = Some (fr i OR prot_to_pte_flags prot)) \<and>
     (\<forall>w. (\<forall>i < unat (align_page len) div 4096. \<not> same_page w (page_at m i)) \<longrightarrow> vm_entry (mm_vm st') w = vm_entry (mm_vm st) w) \<and>
     (\<forall>a. 2 ^ 32 \<le> unat a \<longrightarrow> vm_mem (mm_vm st') a =
        (if \<exists>i < unat (align_page len) div 4096. in_frame (fr i) a then 0 else vm_mem (mm_vm st) a))"
proof -
  have "pool_room (pm_pool (vm_pmap (mm_vm st))) (3 * (unat (align_page len) div 4096) + 0)" using room(2) by simp
  from mmap_fresh[OF assms(1-9) this, of hw fd] show ?thesis by (elim exE conjE) (intro exI conjI; assumption)
qed

subsection \<open>Every history of calls keeps the areas apart\<close>

lemma ctx_ok_same:
  assumes "ctx_ok ctx" "length (mc_areas ctx') = 256" "area_count ctx' = area_count ctx"
    and "\<And>i. i < 256 \<Longrightarrow> lo (mc_areas ctx' ! i) = lo (mc_areas ctx ! i) \<and> hi (mc_areas ctx' ! i) = hi (mc_areas ctx ! i) \<and>
      ma_active (mc_areas ctx' ! i) = ma_active (mc_areas ctx ! i) \<and> ma_file (mc_areas ctx' ! i) = ma_file (mc_areas ctx ! i)"
  shows "ctx_ok ctx'"
proof -
  have "{i. i < 256 \<and> ma_active (mc_areas ctx' ! i)} = {i. i < 256 \<and> ma_active (mc_areas ctx ! i)}" using assms(4) by auto
  moreover have "area_ok (mc_areas ctx' ! i)" if "i < 256" for i using ctx_okD(2)[OF assms(1) that] assms(4)[OF that] by (simp add: area_ok_def)
  moreover have "areas_apart (mc_areas ctx' ! i) (mc_areas ctx' ! j)" if "i < 256" "j < 256" "i \<noteq> j" for i j
    using ctx_okD(3)[OF assms(1) that] assms(4)[OF that(1)] assms(4)[OF that(2)] by (simp add: areas_apart_def)
  ultimately show ?thesis using ctx_okD(4)[OF assms(1)] assms(2,3) by (simp add: ctx_ok_def)
qed

lemma ctx_ok_upd_flags:
  assumes "ctx_ok ctx"
  shows "ctx_ok (upd_area i (\<lambda>a. a\<lparr>ma_flags := f a\<rparr>) ctx)"
proof (cases "i < 256")
  case True
  then show ?thesis
    by (intro ctx_ok_same[OF assms]) (auto simp: upd_area_def ctx_okD(1)[OF assms] nth_list_update)
next
  case False
  then have "length (mc_areas ctx) \<le> i" using ctx_okD(1)[OF assms] by simp
  then show ?thesis using assms by (simp add: upd_area_def list_update_beyond)
qed

lemma ctx_init_ok: "ctx_ok mmap_context_init" "cover mmap_context_init = {}"
  by (auto simp: ctx_ok_def mmap_context_init_def area_ok_def areas_apart_def cover_def)

lemma mprotect_areas_list:
  "fst (mprotect_areas addr len prot as (md, seen, vm)) = (md \<or> (\<exists>a \<in> set as. overlaps addr len a))"
  "fst (snd (mprotect_areas addr len prot as (md, seen, vm))) = seen @ map (\<lambda>a. if overlaps addr len a then a\<lparr>ma_prot := prot\<rparr> else a) as"
  by (induction "as" arbitrary: md seen vm) (auto simp: Let_def overlaps_def not_le)

lemma mprotect_ctx:
  assumes ok: "ctx_ok ctx" and run: "mmap_do_mprotect ctx addr len prot st = (r, ctx', st')"
  shows "ctx_ok ctx'" "mc_areas ctx' = (if len = 0 then mc_areas ctx
     else map (\<lambda>a. if overlaps addr (align_page len) a then a\<lparr>ma_prot := prot\<rparr> else a) (mc_areas ctx))"
proof -
  show m: "mc_areas ctx' = (if len = 0 then mc_areas ctx
     else map (\<lambda>a. if overlaps addr (align_page len) a then a\<lparr>ma_prot := prot\<rparr> else a) (mc_areas ctx))"
    using run mprotect_areas_list(2)[of addr "align_page len" prot "mc_areas ctx" False "[]" "mm_vm st"]
    by (auto simp: mmap_do_mprotect_def split: if_splits prod.splits)
  have "area_count ctx' = area_count ctx" using run by (auto simp: mmap_do_mprotect_def split: if_splits prod.splits)
  then show "ctx_ok ctx'"
    by (intro ctx_ok_same[OF ok]) (auto simp: m ctx_okD(1)[OF ok])
qed

lemma fault_map_ctx:
  assumes "ctx_ok ctx" "fault_map v p fl (\<lambda>a. a\<lparr>ma_flags := f a\<rparr>) i ctx st = Some (r, ctx', st')"
  shows "ctx_ok ctx'"
  using assms ctx_ok_upd_flags[OF assms(1)] by (auto simp: fault_map_def split: prod.splits if_splits)

lemma with_new_page_ctx:
  assumes "ctx_ok ctx" "with_new_page ctx st k = Some (r, ctx', st')"
    and "\<And>p s. k p s = Some (r, ctx', st') \<Longrightarrow> ctx_ok ctx'"
  shows "ctx_ok ctx'"
  using assms by (auto simp: with_new_page_def split: Option.bind_splits if_splits)

lemma fault_handler_ctx:
  assumes ok: "ctx_ok ctx" and run: "mmap_page_fault_handler rd ctx vaddr err st = Some (r, ctx', st')"
  shows "ctx_ok ctx'"
proof -
  note fm = fault_map_ctx[OF ok] and up = ctx_ok_upd_flags[OF ok]
  have wn: "ctx_ok ctx'" if "with_new_page ctx st (\<lambda>p s. Option.bind (g p s) (fault_map v p fl (\<lambda>a. a\<lparr>ma_flags := f a\<rparr>) i ctx)) = Some (r, ctx', st')" for g v fl f i
    by (rule with_new_page_ctx[OF ok that]) (auto split: Option.bind_splits dest: fm)
  have wn1: "ctx_ok ctx'" if "with_new_page ctx st (\<lambda>p. fault_map v p fl (\<lambda>a. a\<lparr>ma_flags := f a\<rparr>) i ctx) = Some (r, ctx', st')" for v fl f i
    by (rule with_new_page_ctx[OF ok that]) (auto dest: fm)
  show ?thesis
    using run ok up unfolding mmap_page_fault_handler_def Let_def
    by (auto split: option.splits if_splits Option.bind_splits prod.splits dest: wn wn1)
qed

datatype mm_call =
    Do_mmap u64 u64 u32 u32 int u64
  | Do_munmap u64 u64
  | Do_mprotect u64 u64 u32
  | Page_fault u64 u64

fun mm_call_step :: "(u64 \<Rightarrow> bool) \<Rightarrow> (u64 \<Rightarrow> (u64 \<Rightarrow> u8 list \<Rightarrow> u8 list) option) \<Rightarrow> mm_call \<Rightarrow> mmap_context \<times> mm_state \<Rightarrow> (mmap_context \<times> mm_state) option" where
  "mm_call_step hw rd (Do_mmap addr len prot flags fd offset) (ctx, st) = map_option snd (mmap_do_mmap hw ctx addr len prot flags fd offset st)"
| "mm_call_step hw rd (Do_munmap addr len) (ctx, st) = map_option snd (mmap_do_munmap hw ctx addr len st)"
| "mm_call_step hw rd (Do_mprotect addr len prot) (ctx, st) = Some (snd (mmap_do_mprotect ctx addr len prot st))"
| "mm_call_step hw rd (Page_fault vaddr err) (ctx, st) = map_option snd (mmap_page_fault_handler rd ctx vaddr err st)"

text \<open>Calls whose range ends below \<open>2 ^ 64\<close>; the address of \<open>munmap\<close> is a multiple of the page size.\<close>

fun well_placed :: "mm_call \<Rightarrow> bool" where
  "well_placed (Do_mmap addr len prot flags fd offset) \<longleftrightarrow> unat addr + unat (align_page len) < 2 ^ 64"
| "well_placed (Do_munmap addr len) \<longleftrightarrow> 4096 dvd unat addr \<and> unat len + 4095 < 2 ^ 64 \<and> unat addr + unat (align_page len) < 2 ^ 64"
| "well_placed (Do_mprotect addr len prot) \<longleftrightarrow> True"
| "well_placed (Page_fault vaddr err) \<longleftrightarrow> True"

inductive mm_history :: "(u64 \<Rightarrow> bool) \<Rightarrow> (u64 \<Rightarrow> (u64 \<Rightarrow> u8 list \<Rightarrow> u8 list) option) \<Rightarrow> mmap_context \<times> mm_state \<Rightarrow> mm_call list \<Rightarrow> mmap_context \<times> mm_state \<Rightarrow> bool"
  for hw rd where
  "mm_history hw rd s [] s"
| "mm_history hw rd s cs s' \<Longrightarrow> well_placed c \<Longrightarrow> mm_call_step hw rd c s' = Some s'' \<Longrightarrow> mm_history hw rd s (cs @ [c]) s''"

lemma mm_call_step_ctx:
  assumes "ctx_ok ctx" "well_placed c" "mm_call_step hw rd c (ctx, st) = Some (ctx', st')"
  shows "ctx_ok ctx'"
proof (cases c)
  case (Do_mmap addr len prot flags fd offset)
  then show ?thesis using assms mmap_do_mmap_ctx[OF assms(1)] by auto
next
  case (Do_munmap addr len)
  show ?thesis
  proof (cases "len = 0")
    case False
    have "4096 dvd unat addr" "unat len + 4095 < 2 ^ 64" "unat addr + unat (align_page len) < 2 ^ 64" using assms(2) Do_munmap by auto
    from mmap_do_munmap_loop[OF assms(1) this(1) False this(2,3), of hw st undefined] show ?thesis
      using assms(3) Do_munmap by auto
  qed (use assms Do_munmap in \<open>auto simp: mmap_do_munmap_def\<close>)
next
  case (Do_mprotect addr len prot)
  then show ?thesis using assms mprotect_ctx(1)[OF assms(1)] by (metis mm_call_step.simps(3) option.inject prod.collapse snd_conv)
next
  case (Page_fault vaddr err)
  then show ?thesis using assms fault_handler_ctx[OF assms(1)] by auto
qed

text \<open>
  C19. Whatever sequence of \<open>mmap\<close>, \<open>munmap\<close>, \<open>mprotect\<close> and page faults a context goes through, with ranges that do not
  wrap around and page-aligned addresses of \<open>munmap\<close>, its active areas never overlap, they are whole non-empty pages, and
  \<open>area_count\<close> is their number.
\<close>

theorem mmap_areas_never_overlap:
  assumes "mm_history hw rd (mmap_context_init, st) cs (ctx, st')"
  shows "length (mc_areas ctx) = 256 \<and> area_count ctx = int (card {i. i < 256 \<and> ma_active (mc_areas ctx ! i)}) \<and>
     (\<forall>i<256. \<forall>j<256. i \<noteq> j \<and> ma_active (mc_areas ctx ! i) \<and> ma_active (mc_areas ctx ! j) \<longrightarrow>
        hi (mc_areas ctx ! i) \<le> lo (mc_areas ctx ! j) \<or> hi (mc_areas ctx ! j) \<le> lo (mc_areas ctx ! i)) \<and>
     (\<forall>i<256. ma_active (mc_areas ctx ! i) \<longrightarrow> lo (mc_areas ctx ! i) < hi (mc_areas ctx ! i) \<and>
        4096 dvd lo (mc_areas ctx ! i) \<and> 4096 dvd hi (mc_areas ctx ! i) \<and> hi (mc_areas ctx ! i) < 2 ^ 64)"
proof -
  have "ctx_ok (fst s')" if "mm_history hw rd s cs s'" "ctx_ok (fst s)" for s s'
    using that by (induction rule: mm_history.induct) (auto dest: mm_call_step_ctx)
  from this[OF assms] ctx_init_ok(1) have "ctx_ok ctx" by simp
  then show ?thesis by (simp add: ctx_ok_def area_ok_def areas_apart_def)
qed

subsection \<open>The end of a context\<close>

lemma free_mapped_none:
  assumes "vm_ok vm F" "\<forall>v \<in> set vs. vm_entry vm v = None"
  shows "free_mapped vs vm = Some vm"
  using assms
proof (induction vs)
  case (Cons v vs)
  have "pt_ok (vm_pmap vm) (cr3 vm)" using Cons.prems(1) by (simp add: vm_ok_def vm_inv_def)
  from pmap_get_physical_entry[OF this, of v] Cons show ?case by simp
qed simp

lemma area_page_list:
  assumes "hi a < 2 ^ 64"
  shows "map (page_at (ma_start a)) [0..<unat (ma_length a div 4096)] = page_range (ma_start a) (ma_start a + ma_length a)"
  using assms by (simp add: page_range_def hi_def unat_add_noof unat_div_distrib)

lemma destroy_area_spec:
  assumes ok: "area_ok a" "ma_active a" and vm: "vm_ok (mm_vm st) F"
  shows "\<exists>st'. destroy_area hw a st = Some st' \<and> vm_ok (mm_vm st') F \<and> vm_zone (mm_vm st') = vm_zone (mm_vm st) \<and>
    pages_gone {lo a..<hi a} (mm_vm st) (mm_vm st')"
proof -
  have a: "hi a < 2 ^ 64" "4096 dvd lo a" "4096 dvd hi a" "ma_file a = 0" using ok by (simp_all add: area_ok_def)
  have e: "unat (ma_start a + ma_length a) = hi a" using a(1) by (simp add: hi_def unat_add_noof)
  define vs where "vs = page_range (ma_start a) (ma_start a + ma_length a)"
  define vm' where "vm' = fold (\<lambda>v vm. vm_unmap_page (cr3 vm) v vm) vs (mm_vm st)"
  have u: "vm_ok vm' F" "vm_zone vm' = vm_zone (mm_vm st)" "\<forall>w. vm_entry vm' w = (if \<exists>v \<in> set vs. same_page w v then None else vm_entry (mm_vm st) w)"
    using unmap_fold_spec[OF vm, of vs, folded vm'_def] unfolding Let_def by blast+
  have "\<forall>v \<in> set vs. vm_entry vm' v = None" using u(3) by (auto simp: same_page_def)
  from free_mapped_none[OF u(1) this]
  have "destroy_area hw a st = Some (st\<lparr>mm_vm := vm'\<rparr>)"
    using a(4) unfolding destroy_area_def area_page_list[OF a(1)] vs_def[symmetric] Let_def by (simp add: vm'_def)
  moreover have "pages_gone {lo a..<hi a} (mm_vm st) vm'"
    using u(3) page_range_pages[of "ma_start a" "ma_start a + ma_length a"] a(2,3) unfolding pages_gone_def vs_def e lo_def by simp
  ultimately show ?thesis using u(1,2) by simp
qed

lemma destroy_areas_spec:
  assumes "\<forall>a \<in> set as. area_ok a" "vm_ok (mm_vm st) F"
  shows "\<exists>as' st'. destroy_areas hw as st = Some (as', st') \<and> length as' = length as \<and> (\<forall>a \<in> set as'. \<not> ma_active a) \<and>
    vm_ok (mm_vm st') F \<and> vm_zone (mm_vm st') = vm_zone (mm_vm st) \<and>
    pages_gone (\<Union>a \<in> {a \<in> set as. ma_active a}. {lo a..<hi a}) (mm_vm st) (mm_vm st')"
  using assms
proof (induction "as" arbitrary: st)
  case Nil
  then show ?case by (simp add: pages_gone_def)
next
  case (Cons a "as")
  show ?case
  proof (cases "ma_active a")
    case False
    have "{b \<in> set (a # as). ma_active b} = {b \<in> set as. ma_active b}" using False by auto
    then show ?thesis using Cons.IH[of st] Cons.prems False by fastforce
  next
    case True
    from Cons.prems(1) have ok: "area_ok a" "\<forall>b \<in> set as. area_ok b" by auto
    from destroy_area_spec[OF ok(1) True Cons.prems(2), of hw] obtain st1 where
      d: "destroy_area hw a st = Some st1" "vm_ok (mm_vm st1) F" "vm_zone (mm_vm st1) = vm_zone (mm_vm st)" "pages_gone {lo a..<hi a} (mm_vm st) (mm_vm st1)"
      by blast
    from Cons.IH[OF ok(2) d(2)] obtain as' st' where
      h: "destroy_areas hw as st1 = Some (as', st')" "length as' = length as" "\<forall>a \<in> set as'. \<not> ma_active a" "vm_ok (mm_vm st') F"
        "vm_zone (mm_vm st') = vm_zone (mm_vm st1)" "pages_gone (\<Union>a \<in> {a \<in> set as. ma_active a}. {lo a..<hi a}) (mm_vm st1) (mm_vm st')"
      by blast
    have "{b \<in> set (a # as). ma_active b} = insert a {b \<in> set as. ma_active b}" using True by auto
    then have "pages_gone (\<Union>b \<in> {b \<in> set (a # as). ma_active b}. {lo b..<hi b}) (mm_vm st) (mm_vm st')"
      using pages_gone_trans[OF d(4) h(6)] by simp
    then show ?thesis using True d h by simp
  qed
qed

lemma cover_addresses:
  assumes "ctx_ok ctx"
  shows "(\<Union>a \<in> {a \<in> set (mc_areas ctx). ma_active a}. {lo a..<hi a}) = fst ` cover ctx"
proof -
  have "set (mc_areas ctx) = (\<lambda>i. mc_areas ctx ! i) ` {..<256}"
    using ctx_okD(1)[OF assms] by (metis atLeast0LessThan set_map map_nth set_upt list.set_map)
  then show ?thesis by (force simp: cover_def acover_def image_iff split: if_splits)
qed

text \<open>
  \<open>mmap_context_destroy\<close> ends with no area left and no page of the context mapped, but it frees no frame:
  each page is unmapped before its physical address is looked up, the lookup finds nothing, and
  the frames of all anonymous and private areas are lost to the zone.
\<close>

theorem destroy_loses_frames:
  assumes "ctx_ok ctx" "vm_ok (mm_vm st) F"
  shows "\<exists>ctx' st'. mmap_context_destroy hw ctx st = Some (ctx', st') \<and> ctx_ok ctx' \<and> cover ctx' = {} \<and>
    vm_ok (mm_vm st') F \<and> vm_zone (mm_vm st') = vm_zone (mm_vm st) \<and> pages_gone (fst ` cover ctx) (mm_vm st) (mm_vm st')"
proof -
  have "\<forall>a \<in> set (mc_areas ctx). area_ok a" using ctx_okD(1,2)[OF assms(1)] by (auto simp: in_set_conv_nth)
  from destroy_areas_spec[OF this assms(2), of hw] obtain as' st' where
    h: "destroy_areas hw (mc_areas ctx) st = Some (as', st')" "length as' = length (mc_areas ctx)" "\<forall>a \<in> set as'. \<not> ma_active a" "vm_ok (mm_vm st') F"
      "vm_zone (mm_vm st') = vm_zone (mm_vm st)" "pages_gone (\<Union>a \<in> {a \<in> set (mc_areas ctx). ma_active a}. {lo a..<hi a}) (mm_vm st) (mm_vm st')"
    by blast
  have act: "\<not> ma_active (as' ! i)" if "i < 256" for i using h(2,3) ctx_okD(1)[OF assms(1)] that by simp
  note cover_addresses[OF assms(1)]
  moreover have "ctx_ok (ctx\<lparr>mc_areas := as', area_count := 0\<rparr>)"
    using act h(2) ctx_okD(1)[OF assms(1)] by (auto simp: ctx_ok_def area_ok_def areas_apart_def)
  moreover have "cover (ctx\<lparr>mc_areas := as', area_count := 0\<rparr>) = {}" using act by (auto simp: cover_def acover_def)
  ultimately show ?thesis using h(1,4-6) by (simp add: mmap_context_destroy_def)
qed

subsection \<open>Protection of mapped pages\<close>

lemma walk_map_page:
  assumes ok: "pt_ok st pml4" and w: "pt_walk (pm_mem st) pml4 (dir_path v) = Some t"
  shows "fst (pmap_map_page st pml4 v pa f) = 0"
proof -
  have nz: "u \<noteq> 0" if "path p" "pt_walk (pm_mem st) pml4 p = Some u" for p u
    using owned_range(2)[OF pt_okD(1)[OF ok] pt_okD(2)[OF ok that]] .
  have p0: "pml4 \<noteq> 0" by (rule nz[OF path_dir(4)]) simp
  let ?e4 = "pm_mem st (slot pml4 (idx_pml4 v))"
  let ?e3 = "pm_mem st (slot (PTE_ADDR ?e4) (idx_pdpt v))"
  let ?e2 = "pm_mem st (slot (PTE_ADDR ?e3) (idx_pd v))"
  have pr: "present ?e4" "present ?e3" "present ?e2" using w by (auto split: if_splits)
  have "PTE_ADDR ?e4 \<noteq> 0" by (rule nz[OF path_dir(3)[of v]]) (use pr in simp)
  moreover have "PTE_ADDR ?e3 \<noteq> 0" by (rule nz[OF path_dir(2)[of v]]) (use pr in simp)
  moreover have "PTE_ADDR ?e2 \<noteq> 0" by (rule nz[OF path_dir(1)[of v]]) (use pr in simp)
  ultimately show ?thesis using p0 pr by (simp add: pmap_map_page_def pmap_get_or_alloc_table_def)
qed

lemma unmap_walk:
  assumes ok: "pt_ok st pml4"
  shows "pt_walk (pm_mem (pmap_unmap_page st pml4 v)) pml4 (dir_path v) = pt_walk (pm_mem st) pml4 (dir_path v)"
proof (cases "pt_walk (pm_mem st) pml4 (dir_path v)")
  case None
  then have "pmap_unmap_page st pml4 v = st" by (auto simp: pmap_unmap_page_def Let_def split: if_splits)
  then show ?thesis by simp
next
  case (Some t)
  have nz: "pml4 \<noteq> 0"
    using owned_range(2)[OF pt_okD(1)[OF ok] pt_okD(2)[OF ok path_dir(4)]] by simp
  then have "pmap_unmap_page st pml4 v = st\<lparr>pm_mem := (pm_mem st)(slot t (idx_pt v) := 0)\<rparr>"
    using Some by (auto simp: pmap_unmap_page_def Let_def split: if_splits)
  then show ?thesis using write_walk[OF ok Some path_dir(1), of 0 v] by simp
qed

text \<open>What \<open>mprotect\<close> makes of a page table entry: the address stays, all flags are replaced.\<close>

definition reprotected :: "u64 \<Rightarrow> u64 \<Rightarrow> u64" where
  "reprotected flags e = (if PTE_ADDR e = 0 then e else PTE_ADDR e OR flags)"

lemma reprotect_spec:
  assumes ok: "vm_ok vm F" and v: "v AND 0xFFF = 0" and pf: "flags OR PAGE_PRESENT = flags"
  shows "vm_ok (reprotect flags v vm) F" "vm_zone (reprotect flags v vm) = vm_zone vm"
    "vm_entry (reprotect flags v vm) w = (if same_page w v then map_option (reprotected flags) (vm_entry vm w) else vm_entry vm w)"
proof -
  have pt: "pt_ok (vm_pmap vm) (cr3 vm)" using ok by (simp add: vm_ok_def vm_inv_def)
  have phys: "pmap_get_physical (vm_pmap vm) (cr3 vm) v = (case vm_entry vm v of None \<Rightarrow> 0 | Some e \<Rightarrow> PTE_ADDR e)"
    using pmap_get_physical_entry[OF pt, of v] v by (auto split: option.splits)
  have sp: "vm_entry vm w = vm_entry vm v" if "same_page w v" for w
    using that unfolding pt_entry_def same_page_idx by simp
  have "vm_ok (reprotect flags v vm) F \<and> vm_zone (reprotect flags v vm) = vm_zone vm \<and>
    vm_entry (reprotect flags v vm) w = (if same_page w v then map_option (reprotected flags) (vm_entry vm w) else vm_entry vm w)"
  proof (cases "pmap_get_physical (vm_pmap vm) (cr3 vm) v = 0")
    case True
    have "map_option (reprotected flags) (vm_entry vm v) = vm_entry vm v"
      using True phys by (cases "vm_entry vm v") (simp_all add: reprotected_def)
    then show ?thesis using ok True sp[of w] by (simp add: reprotect_def)
  next
    case False
    then obtain e where e: "vm_entry vm v = Some e" "pmap_get_physical (vm_pmap vm) (cr3 vm) v = PTE_ADDR e" "PTE_ADDR e \<noteq> 0"
      using phys by (auto split: option.splits)
    obtain t where w: "pt_walk (pm_mem (vm_pmap vm)) (cr3 vm) (dir_path v) = Some t"
      using e(1) unfolding pt_entry_def by (auto split: option.splits)
    let ?u = "vm_unmap_page (cr3 vm) v vm"
    note u = vm_unmap_spec[OF ok, of v]
    obtain r vm' where m: "vm_map_page (cr3 ?u) v (PTE_ADDR e) flags ?u = (r, vm')" by fastforce
    have "pt_ok (vm_pmap ?u) (cr3 vm)" using u(1,2) by (simp add: vm_ok_def vm_inv_def)
    moreover have "pt_walk (pm_mem (vm_pmap ?u)) (cr3 vm) (dir_path v) = Some t"
      using unmap_walk[OF pt, of v] w by (simp add: vm_unmap_page_def)
    ultimately have "r = 0" using walk_map_page[of "vm_pmap ?u" "cr3 vm" v t "PTE_ADDR e" flags] m u(2)
      by (auto simp: vm_map_page_def split: prod.splits)
    note sp2 = vm_map_page_spec[OF u(1) m]
    have rp: "reprotect flags v vm = vm'" using e(2,3) m u(2) by (simp add: reprotect_def)
    have "vm_entry vm' w = (if same_page w v then map_option (reprotected flags) (vm_entry vm w) else vm_entry vm w)"
      using sp2(3)[OF \<open>r = 0\<close>, of w] u(4)[of w] sp[of w] e pf by (simp add: PTE_FLAGS_def reprotected_def)
    then show ?thesis unfolding rp using sp2(1,5) u(3) by simp
  qed
  then show "vm_ok (reprotect flags v vm) F" "vm_zone (reprotect flags v vm) = vm_zone vm"
    "vm_entry (reprotect flags v vm) w = (if same_page w v then map_option (reprotected flags) (vm_entry vm w) else vm_entry vm w)" by blast+
qed

lemma prot_flags_addr: "PTE_ADDR (prot_to_pte_flags prot) = 0"
  by (simp add: PTE_ADDR_def prot_to_pte_flags_def Let_def)

lemma reprotected_twice:
  assumes "PTE_ADDR flags = 0"
  shows "reprotected flags (reprotected flags e) = reprotected flags e"
proof -
  have "PTE_ADDR (PTE_ADDR e OR flags) = PTE_ADDR e"
    using assms by (simp add: PTE_ADDR_def bit.conj_disj_distrib2 and.assoc)
  then show ?thesis by (simp add: reprotected_def)
qed

lemma reprotect_fold:
  assumes "vm_ok vm F" "\<forall>v \<in> set vs. v AND 0xFFF = 0" and pf: "flags OR PAGE_PRESENT = flags" "PTE_ADDR flags = 0"
  shows "let vm' = fold (reprotect flags) vs vm in vm_ok vm' F \<and> vm_zone vm' = vm_zone vm \<and>
    (\<forall>w. vm_entry vm' w = (if \<exists>v \<in> set vs. same_page w v then map_option (reprotected flags) (vm_entry vm w) else vm_entry vm w))"
  using assms(1,2)
proof (induction vs arbitrary: vm)
  case (Cons v vs)
  have v: "v AND 0xFFF = 0" "\<forall>v \<in> set vs. v AND 0xFFF = 0" using Cons.prems(2) by auto
  note r = reprotect_spec[OF Cons.prems(1) v(1) pf(1)]
  have tw: "map_option (reprotected flags) (map_option (reprotected flags) x) = map_option (reprotected flags) x" for x
    using reprotected_twice[OF pf(2)] by (cases x) simp_all
  from Cons.IH[OF r(1) v(2)] show ?case unfolding Let_def fold_simps r(2) r(3) by (auto simp: tw)
qed simp

lemma aligned_and: "4096 dvd unat (v :: u64) \<Longrightarrow> v AND 0xFFF = 0"
  using unat_mod_pow2_mask[of 12 v] by (simp add: dvd_eq_mod_eq_0 flip: unat_eq_0 del: unat_eq_0)

lemma page_range_aligned:
  assumes "4096 dvd unat us" "v \<in> set (page_range us ue)"
  shows "v AND 0xFFF = 0"
proof -
  obtain k where k: "k < (unat ue - unat us) div 4096" "v = page_at us k" using assms(2) by (auto simp: page_range_def)
  then have "4096 * k < unat ue - unat us" by simp
  then have "unat us + 4096 * k < 2 ^ 64" using unat_64[of ue] by simp
  from unat_page_at[OF this] show ?thesis using k(2) assms(1) by (intro aligned_and) simp
qed

definition pages_reprotected :: "u64 \<Rightarrow> nat set \<Rightarrow> vm_state \<Rightarrow> vm_state \<Rightarrow> bool" where
  "pages_reprotected flags X vm vm' \<longleftrightarrow> (\<forall>w. vm_entry vm' w =
     (if \<exists>x \<in> X. same_page w (of_nat x) then map_option (reprotected flags) (vm_entry vm w) else vm_entry vm w))"

lemma pages_reprotected_trans:
  assumes "PTE_ADDR flags = 0" "pages_reprotected flags X vm vm'" "pages_reprotected flags Y vm' vm''"
  shows "pages_reprotected flags (X \<union> Y) vm vm''"
proof -
  have tw: "map_option (reprotected flags) (map_option (reprotected flags) x) = map_option (reprotected flags) x" for x
    using reprotected_twice[OF assms(1)] by (cases x) simp_all
  show ?thesis using assms(2,3) unfolding pages_reprotected_def by (auto simp: tw)
qed

lemma mprotect_areas_vm:
  assumes al: "4096 dvd unat addr" "4096 dvd unat len" and B: "unat addr + unat len < 2 ^ 64"
    and "\<forall>a \<in> set as. area_ok a" "vm_ok vm F"
  shows "\<exists>vm'. snd (snd (mprotect_areas addr len prot as (md, seen, vm))) = vm' \<and> vm_ok vm' F \<and> vm_zone vm' = vm_zone vm \<and>
    pages_reprotected (prot_to_pte_flags prot) ((\<Union>a \<in> {a \<in> set as. ma_active a}. {lo a..<hi a}) \<inter> {unat addr..<unat addr + unat len}) vm vm'"
  using assms(4,5)
proof (induction "as" arbitrary: md seen vm)
  case Nil
  then show ?case by (simp add: pages_reprotected_def)
next
  case (Cons a "as")
  let ?A = "unat addr" and ?B = "unat addr + unat len" and ?f = "prot_to_pte_flags prot"
  have ok: "area_ok a" "\<forall>b \<in> set as. area_ok b" using Cons.prems(1) by auto
  show ?case
  proof (cases "overlaps addr len a")
    case False
    then have s: "\<not> ma_active a \<or> addr \<ge> ma_start a + ma_length a \<or> addr + len \<le> ma_start a" by (auto simp: overlaps_def not_less)
    have "\<not> (ma_active a \<and> ?A < hi a \<and> lo a < ?B)" using False overlaps_range[OF _ B, of a] ok(1) by (auto simp: area_ok_def)
    then have "(\<Union>b \<in> {b \<in> set (a # as). ma_active b}. {lo b..<hi b}) \<inter> {?A..<?B} = (\<Union>b \<in> {b \<in> set as. ma_active b}. {lo b..<hi b}) \<inter> {?A..<?B}"
      by (auto split: if_splits)
    then show ?thesis using Cons.IH[OF ok(2) Cons.prems(2), of md "seen @ [a]"] s by (simp add: Let_def)
  next
    case True
    then have act: "ma_active a" "?A < hi a" "lo a < ?B" using overlaps_range[OF _ B, of a] ok(1) by (auto simp: area_ok_def)
    have aok: "hi a < 2 ^ 64" "4096 dvd lo a" "4096 dvd hi a" using ok(1) act(1) by (simp_all add: area_ok_def)
    have e: "unat (ma_start a + ma_length a) = hi a" using aok(1) by (simp add: hi_def unat_add_noof)
    have f: "unat (addr + len) = ?B" using B by (simp add: unat_add_noof)
    define us where "us = (if addr > ma_start a then addr else ma_start a)"
    define ue where "ue = (if addr + len < ma_start a + ma_length a then addr + len else ma_start a + ma_length a)"
    have us: "unat us = max ?A (lo a)" by (auto simp: us_def lo_def word_less_nat_alt)
    have ue: "unat ue = min ?B (hi a)" using e f by (auto simp: ue_def word_less_nat_alt)
    have alu: "4096 dvd unat us" "4096 dvd unat ue" using us ue aok(2,3) al by (auto simp: max_def min_def)
    define vm1 where "vm1 = fold (reprotect ?f) (page_range us ue) vm"
    have r: "vm_ok vm1 F" "vm_zone vm1 = vm_zone vm"
        "\<forall>w. vm_entry vm1 w = (if \<exists>v \<in> set (page_range us ue). same_page w v then map_option (reprotected ?f) (vm_entry vm w) else vm_entry vm w)"
      using reprotect_fold[OF Cons.prems(2) _ prot_flags_present prot_flags_addr, of "page_range us ue"] page_range_aligned[OF alu(1)]
      unfolding Let_def vm1_def by blast+
    have pr: "pages_reprotected ?f {max ?A (lo a)..<min ?B (hi a)} vm vm1"
      using r(3) unfolding page_range_pages[OF alu] us ue pages_reprotected_def .
    have run: "mprotect_areas addr len prot (a # as) (md, seen, vm) = mprotect_areas addr len prot as (True, seen @ [a\<lparr>ma_prot := prot\<rparr>], vm1)"
    proof -
      have "ma_active a" "\<not> ma_start a + ma_length a \<le> addr" "\<not> addr + len \<le> ma_start a" using True by (auto simp: overlaps_def)
      then show ?thesis using page_align_down_id[OF alu(1)] align_page_id[OF alu(2)]
        by (simp add: Let_def us_def[symmetric] ue_def[symmetric] vm1_def)
    qed
    from Cons.IH[OF ok(2) r(1), of True "seen @ [a\<lparr>ma_prot := prot\<rparr>]"] obtain vm' where
      h: "snd (snd (mprotect_areas addr len prot as (True, seen @ [a\<lparr>ma_prot := prot\<rparr>], vm1))) = vm'" "vm_ok vm' F" "vm_zone vm' = vm_zone vm1"
        "pages_reprotected ?f ((\<Union>a \<in> {a \<in> set as. ma_active a}. {lo a..<hi a}) \<inter> {?A..<?B}) vm1 vm'" by blast
    have "{max ?A (lo a)..<min ?B (hi a)} \<union> (\<Union>a \<in> {a \<in> set as. ma_active a}. {lo a..<hi a}) \<inter> {?A..<?B} =
        (\<Union>b \<in> {b \<in> set (a # as). ma_active b}. {lo b..<hi b}) \<inter> {?A..<?B}"
    proof -
      have "{max ?A (lo a)..<min ?B (hi a)} = {lo a..<hi a} \<inter> {?A..<?B}"
        by (simp add: Int_atLeastLessThan max.commute min.commute)
      moreover have "{b \<in> set (a # as). ma_active b} = insert a {b \<in> set as. ma_active b}" using act(1) by auto
      ultimately show ?thesis by (simp only: UN_insert Int_Un_distrib2)
    qed
    then show ?thesis using pages_reprotected_trans[OF prot_flags_addr pr h(4)] h(1-3) r(2) unfolding run by simp
  qed
qed

lemma mprotect_pages:
  assumes ok: "ctx_ok ctx" "vm_ok (mm_vm st) F" and al: "4096 dvd unat addr" and len: "len \<noteq> 0" "unat len + 4095 < 2 ^ 64"
    and B: "unat addr + unat (align_page len) < 2 ^ 64"
  shows "\<exists>r ctx' st'. mmap_do_mprotect ctx addr len prot st = (r, ctx', st') \<and> ctx_ok ctx' \<and> fst ` cover ctx' = fst ` cover ctx \<and>
     (\<forall>i < 256. mc_areas ctx' ! i =
        (if hit (unat addr) (unat addr + unat (align_page len)) (mc_areas ctx ! i) then (mc_areas ctx ! i)\<lparr>ma_prot := prot\<rparr> else mc_areas ctx ! i)) \<and>
     (r = 0 \<longleftrightarrow> fst ` cover ctx \<inter> {unat addr..<unat addr + unat (align_page len)} \<noteq> {}) \<and>
     vm_ok (mm_vm st') F \<and> vm_zone (mm_vm st') = vm_zone (mm_vm st) \<and>
     (\<forall>w. vm_entry (mm_vm st') w =
        (if \<exists>x \<in> fst ` cover ctx \<inter> {unat addr..<unat addr + unat (align_page len)}. same_page w (of_nat x)
         then map_option (\<lambda>e. if PTE_ADDR e = 0 then e else PTE_ADDR e OR prot_to_pte_flags prot) (vm_entry (mm_vm st) w)
         else vm_entry (mm_vm st) w))"
proof -
  let ?n = "align_page len" and ?R = "{unat addr..<unat addr + unat (align_page len)}"
  obtain r ctx' st' where run: "mmap_do_mprotect ctx addr len prot st = (r, ctx', st')" by (metis prod_cases3)
  note c = mprotect_ctx[OF ok(1) run]
  have "0 < unat len" using len(1) by (simp add: unat_gt_0)
  then have pos: "unat addr < unat addr + unat ?n" using align_page_ge[OF len(2)] by simp
  have aok: "\<forall>a \<in> set (mc_areas ctx). area_ok a" using ctx_okD(1,2)[OF ok(1)] by (auto simp: in_set_conv_nth)
  obtain md as vm where m: "mprotect_areas addr ?n prot (mc_areas ctx) (False, [], mm_vm st) = (md, as, vm)" by (metis prod_cases3)
  from mprotect_areas_vm[OF al align_page_dvd[OF len(2)] B aok ok(2), of prot False "[]"] m
  have vm: "vm_ok vm F" "vm_zone vm = vm_zone (mm_vm st)" "pages_reprotected (prot_to_pte_flags prot) (fst ` cover ctx \<inter> ?R) (mm_vm st) vm"
    by (simp_all add: cover_addresses[OF ok(1)])
  have st': "mm_vm st' = vm" and r: "r = (if md then 0 else - 1)" using run m len(1) by (auto simp: mmap_do_mprotect_def)
  have "md \<longleftrightarrow> (\<exists>a \<in> set (mc_areas ctx). overlaps addr ?n a)"
    using mprotect_areas_list(1)[of addr ?n prot "mc_areas ctx" False "[]" "mm_vm st"] m by simp
  also have "\<dots> \<longleftrightarrow> (\<exists>k<256. hit (unat addr) (unat addr + unat ?n) (mc_areas ctx ! k))"
    using overlaps_range[OF _ B] ctx_okD(1,2)[OF ok(1)] by (fastforce simp: in_set_conv_nth area_ok_def hit_def)
  finally have md: "md \<longleftrightarrow> fst ` cover ctx \<inter> ?R \<noteq> {}" unfolding hit_iff_covered[OF ok(1) pos] .
  have "fst ` cover ctx' = fst ` cover ctx"
  proof -
    define g where "g = (\<lambda>a. if overlaps addr ?n a then a\<lparr>ma_prot := prot\<rparr> else a)"
    have g: "ma_active (g a) = ma_active a" "lo (g a) = lo a" "hi (g a) = hi a" for a by (simp_all add: g_def)
    have "{a \<in> set (mc_areas ctx'). ma_active a} = g ` {a \<in> set (mc_areas ctx). ma_active a}"
      using c(2) len(1) g(1) by (auto simp: g_def[symmetric])
    then show ?thesis unfolding cover_addresses[OF ok(1), symmetric] cover_addresses[OF c(1), symmetric] by (simp add: g)
  qed
  moreover have "r = 0 \<longleftrightarrow> fst ` cover ctx \<inter> ?R \<noteq> {}" using r md by (simp split: if_splits)
  moreover have "\<forall>i < 256. mc_areas ctx' ! i =
      (if hit (unat addr) (unat addr + unat ?n) (mc_areas ctx ! i) then (mc_areas ctx ! i)\<lparr>ma_prot := prot\<rparr> else mc_areas ctx ! i)"
  proof (intro allI impI)
    fix i :: nat assume i: "i < 256"
    have "overlaps addr ?n (mc_areas ctx ! i) \<longleftrightarrow> hit (unat addr) (unat addr + unat ?n) (mc_areas ctx ! i)"
      using overlaps_range[OF _ B, of "mc_areas ctx ! i"] ctx_okD(2)[OF ok(1)] i by (auto simp: area_ok_def hit_def overlaps_def)
    then show "mc_areas ctx' ! i =
        (if hit (unat addr) (unat addr + unat ?n) (mc_areas ctx ! i) then (mc_areas ctx ! i)\<lparr>ma_prot := prot\<rparr> else mc_areas ctx ! i)"
      using c(2) len(1) i ctx_okD(1)[OF ok(1)] by simp
  qed
  ultimately show ?thesis
    using run c(1) vm(1,2) vm(3)[unfolded pages_reprotected_def reprotected_def] unfolding st'[symmetric]
    by (intro exI[of _ r] exI[of _ ctx'] exI[of _ st'] conjI)
qed

text \<open>
  C36. \<open>mmap_do_mprotect\<close> of a range that starts at a page and does not wrap around gives every mapped page of the range that lies in an area
  the page table flags of the new protection and keeps the frame behind it; all other pages keep their entries, and
  no frame is taken or given back. Every area that the range touches records the new protection over its whole length, also
  outside the range; the other areas are untouched. The result says whether there was one.
\<close>

theorem mprotect_reprotects_pages:
  assumes ok: "ctx_ok ctx" "vm_ok (mm_vm st) F" and al: "4096 dvd unat addr" and len: "len \<noteq> 0" "unat len + 4095 < 2 ^ 64"
    and B: "unat addr + unat (align_page len) < 2 ^ 64"
  shows "\<exists>r ctx' st'. mmap_do_mprotect ctx addr len prot st = (r, ctx', st') \<and> ctx_ok ctx' \<and> fst ` cover ctx' = fst ` cover ctx \<and>
     (\<forall>i < 256. mc_areas ctx' ! i =
        (if hit (unat addr) (unat addr + unat (align_page len)) (mc_areas ctx ! i) then (mc_areas ctx ! i)\<lparr>ma_prot := prot\<rparr> else mc_areas ctx ! i)) \<and>
     (r = 0 \<longleftrightarrow> fst ` cover ctx \<inter> {unat addr..<unat addr + unat (align_page len)} \<noteq> {}) \<and>
     vm_ok (mm_vm st') F \<and> vm_zone (mm_vm st') = vm_zone (mm_vm st) \<and>
     (\<forall>w. vm_entry (mm_vm st') w =
        (if \<exists>x \<in> fst ` cover ctx \<inter> {unat addr..<unat addr + unat (align_page len)}. same_page w (of_nat x)
         then map_option (\<lambda>e. if PTE_ADDR e = 0 then e else PTE_ADDR e OR prot_to_pte_flags prot) (vm_entry (mm_vm st) w)
         else vm_entry (mm_vm st) w))"
  by (rule mprotect_pages[OF assms])

text \<open>
  The flags are replaced as a whole, so a page that two processes share copy on write becomes writable
  for both; and the protection recorded for an area changes over its whole length, also
  outside the range.
\<close>

lemma mprotect_drops_copy_on_write:
  assumes "ctx_ok ctx" "vm_ok (mm_vm st) F" "4096 dvd unat addr" "len \<noteq> 0" "unat len + 4095 < 2 ^ 64" "unat addr + unat (align_page len) < 2 ^ 64"
    and x: "x \<in> fst ` cover ctx" "unat addr \<le> x" "x < unat addr + unat (align_page len)"
    and e: "vm_entry (mm_vm st) (of_nat x) = Some e" "e AND PAGE_COW_FLAG \<noteq> 0" "PTE_ADDR e \<noteq> 0" and w: "prot AND PROT_WRITE \<noteq> 0"
  shows "\<exists>e'. vm_entry (mm_vm (snd (snd (mmap_do_mprotect ctx addr len prot st)))) (of_nat x) = Some e' \<and>
     PTE_ADDR e' = PTE_ADDR e \<and> e' AND PAGE_WRITABLE \<noteq> 0 \<and> e' AND PAGE_COW_FLAG = 0"
proof -
  let ?f = "prot_to_pte_flags prot"
  from mprotect_pages[OF assms(1-6), of prot] obtain r ctx' st' where
    m: "mmap_do_mprotect ctx addr len prot st = (r, ctx', st')"
      "\<forall>w. vm_entry (mm_vm st') w =
        (if \<exists>x \<in> fst ` cover ctx \<inter> {unat addr..<unat addr + unat (align_page len)}. same_page w (of_nat x)
         then map_option (\<lambda>e. if PTE_ADDR e = 0 then e else PTE_ADDR e OR ?f) (vm_entry (mm_vm st) w)
         else vm_entry (mm_vm st) w)" by (elim exE conjE) (rule that; assumption)
  have "\<exists>y \<in> fst ` cover ctx \<inter> {unat addr..<unat addr + unat (align_page len)}. same_page (of_nat x) (of_nat y)"
    using x by (intro bexI[of _ x]) (auto simp: same_page_def)
  then have "vm_entry (mm_vm st') (of_nat x) = Some (PTE_ADDR e OR ?f)" using m(2) e(1,3) by simp
  moreover have "PTE_ADDR (PTE_ADDR e OR ?f) = PTE_ADDR e"
    using prot_flags_addr[of prot] by (simp add: PTE_ADDR_def bit.conj_disj_distrib2 and.assoc)
  moreover have "(PTE_ADDR e OR ?f) AND PAGE_WRITABLE \<noteq> 0" "(PTE_ADDR e OR ?f) AND PAGE_COW_FLAG = 0"
    using w by (simp_all add: PTE_ADDR_def prot_to_pte_flags_def Let_def bit.conj_disj_distrib2 and.assoc)
  ultimately show ?thesis using m(1) by simp
qed

lemma mprotect_changes_whole_area:
  assumes "ctx_ok ctx" "len \<noteq> 0" "a \<in> set (mc_areas ctx)" "overlaps addr (align_page len) a" "lo a \<le> x" "x < hi a"
  shows "(x, prot, ma_flags a) \<in> cover (fst (snd (mmap_do_mprotect ctx addr len prot st)))"
proof -
  obtain r ctx' st' where run: "mmap_do_mprotect ctx addr len prot st = (r, ctx', st')" by (metis prod_cases3)
  note c = mprotect_ctx[OF assms(1) run]
  obtain i where i: "i < 256" "a = mc_areas ctx ! i" using assms(3) ctx_okD(1)[OF assms(1)] by (auto simp: in_set_conv_nth)
  have "mc_areas ctx' ! i = a\<lparr>ma_prot := prot\<rparr>" using c(2) i assms(2,4) ctx_okD(1)[OF assms(1)] by simp
  then have "(x, prot, ma_flags a) \<in> acover (mc_areas ctx' ! i)" using assms(4-6) by (auto simp: acover_def overlaps_def)
  then show ?thesis using run i(1) by (auto simp: cover_def)
qed

subsection \<open>A write to a private area\<close>

lemma vm_frame_write:
  assumes ok: "vm_ok st F" and p: "zone_frame p" and m: "\<And>a. unat a < unat p \<Longrightarrow> m a = vm_mem st a"
  shows "vm_ok (set_mem m st) F" "vm_entry (set_mem m st) w = vm_entry st w"
proof -
  let ?c = "cr3 st"
  have pt: "pt_ok (vm_pmap st) ?c" and pl: "plain (vm_mem st) ?c" using ok by (simp_all add: vm_ok_def vm_inv_def)
  have tab: "m (slot u j) = pm_mem (vm_pmap st) (slot u j)" if "owned (pm_pool (vm_pmap st)) u" "unat j < 512" for u j
    using m[OF table_below_frame[OF pt_okD(1)[OF pt] that p]] by (simp add: vm_mem_def)
  show "vm_ok (set_mem m st) F"
    using pt_frame(1)[OF pt tab] plain_frame[OF pt pl[unfolded vm_mem_def] tab] ok by (simp add: vm_ok_def vm_inv_def)
  show "vm_entry (set_mem m st) w = vm_entry st w" using pt_frame(2)[OF pt tab, of w] by simp
qed

text \<open>
  A write fault in a private area makes the page writable whatever the protection of the area is: a process
  can write to memory it mapped without \<open>PROT_WRITE\<close>, because the handler adds the writable flag to the flags of
  the protection and never compares the access with it.
\<close>

theorem private_write_fault_ignores_protection:
  assumes ok: "ctx_ok ctx" "vm_ok (mm_vm st) F" and free: "free_frames F \<noteq> {}" "pool_room (pm_pool (vm_pmap (mm_vm st))) 3"
    and i: "mmap_find_area_at ctx vaddr = Some i" "ma_flags (mc_areas ctx ! i) AND MAP_PRIVATE \<noteq> 0" and w: "err AND PF_WRITE \<noteq> 0"
  shows "\<exists>ctx' st' e. mmap_page_fault_handler rd ctx vaddr err st = Some (0, ctx', st') \<and>
     vm_entry (mm_vm st') vaddr = Some e \<and> e AND PAGE_WRITABLE \<noteq> 0"
proof -
  let ?a = "mc_areas ctx ! i" and ?v = "vaddr AND NOT (4096 - 1)"
  have "i < 256" "ma_active ?a" using i(1) ctx_okD(1)[OF ok(1)] by (auto simp: mmap_find_area_at_def find_idx_Some)
  then have fil: "ma_file ?a = 0" using ctx_okD(2)[OF ok(1)] by (simp add: area_ok_def)
  have inv: "vm_inv (mm_vm st) F" using ok(2) by (simp add: vm_ok_def)
  obtain p z F' where a: "vm_alloc_page (mm_vm st) = Some (p, (mm_vm st)\<lparr>vm_zone := z\<rparr>)" "vm_inv ((mm_vm st)\<lparr>vm_zone := z\<rparr>) F'" "p \<noteq> 0" "zone_frame p"
    using vm_alloc_page_spec[OF inv] free(1) by metis
  let ?s1 = "(mm_vm st)\<lparr>vm_zone := z\<rparr>"
  have ok1: "vm_ok ?s1 F'" using ok(2) a(2) by (simp add: vm_ok_def vm_mem_def)
  define s2 where "s2 = set_mem (clear_page (vm_mem ?s1) p) ?s1"
  have ok2: "vm_ok s2 F'" using vm_clear_frame(1)[OF ok1 a(4)] by (simp add: s2_def)
  define old where "old = pmap_get_physical (vm_pmap s2) (cr3 s2) ?v"
  define s3 where "s3 = (if old \<noteq> 0 then set_mem (copy_page (vm_mem s2) p old) s2 else s2)"
  have ok3: "vm_ok s3 F'" using ok2 vm_frame_write(1)[OF ok2 a(4), of "copy_page (vm_mem s2) p old"] by (simp add: s3_def copy_page_below)
  let ?f = "prot_to_pte_flags (ma_prot ?a) OR PAGE_WRITABLE"
  obtain r s4 where m: "vm_map_page (cr3 s3) ?v p ?f s3 = (r, s4)" by fastforce
  have "pool_room (pm_pool (vm_pmap s3)) (0 + 3)" using free(2) by (simp add: s3_def s2_def)
  moreover have "pt_ok (vm_pmap s3) (cr3 s3)" using ok3 by (simp add: vm_ok_def vm_inv_def)
  ultimately have "fst (pmap_map_page (vm_pmap s3) (cr3 s3) ?v p ?f) = 0" by (rule pmap_map_page_succeeds(1)[rotated])
  then have r: "r = 0" using m by (auto simp: vm_map_page_def split: prod.splits)
  have sp: "same_page vaddr ?v"
  proof -
    have "(4096 - 1 :: u64) = mask 12" by (simp add: mask_eq_exp_minus_1)
    then have "unat ?v = unat vaddr div 4096 * 4096" using unat_and_not_mask[of 12 vaddr] by simp
    then show ?thesis by (intro same_page_div) simp
  qed
  have "vm_entry s4 vaddr = Some (p OR (?f OR PAGE_PRESENT))" using vm_map_page_spec(3)[OF ok3 m r, of vaddr] sp by (simp add: PTE_FLAGS_def)
  moreover have "(p OR (?f OR PAGE_PRESENT)) AND PAGE_WRITABLE \<noteq> 0" by (simp add: bit.conj_disj_distrib2)
  moreover have "mmap_page_fault_handler rd ctx vaddr err st = Some (0, upd_area i (\<lambda>a. a\<lparr>ma_flags := ma_flags a OR (MMAP_FLAG_DIRTY OR MMAP_FLAG_POPULATED)\<rparr>) ctx, st\<lparr>mm_vm := s4\<rparr>)"
    using i w fil a(1,3) m[unfolded s3_def old_def s2_def] r unfolding mmap_page_fault_handler_def with_new_page_def fault_map_def Let_def
    by (simp split: if_splits)
  ultimately show ?thesis by auto
qed

text \<open>No address is refused: a process may ask for one of the kernel.\<close>

lemma mmap_accepts_kernel_address:
  "\<not> mmap_bad_args 0xFFFFFFFF80000000 4096 (PROT_READ OR PROT_WRITE) (MAP_PRIVATE OR MAP_ANONYMOUS) 0"
  "mmap_map_addr hw mmap_context_init 0xFFFFFFFF80000000 4096 (MAP_PRIVATE OR MAP_ANONYMOUS) st = Some (0xFFFFFFFF80000000, mmap_context_init, st)"
  by (simp_all add: mmap_bad_args_def mmap_map_addr_def mmap_check_overlap_def mmap_context_init_def overlaps_def zero_area_def list_ex_iff)

subsection \<open>Inheriting areas\<close>

definition inherited :: "u32 \<Rightarrow> u32" where
  "inherited f = (if f AND MAP_SHARED \<noteq> 0 then f else f OR MMAP_FLAG_COW)"

lemma slot_exists:
  assumes "ctx_ok ctx" "area_count ctx < 256"
  obtains j where "mmap_alloc_slot ctx = Some j"
proof (cases "mmap_alloc_slot ctx")
  case None
  then have "{i. i < 256 \<and> ma_active (mc_areas ctx ! i)} = {..<256}" using mmap_alloc_slot_None[OF assms(1)] by auto
  then show ?thesis using ctx_okD(4)[OF assms(1)] assms(2) by simp
qed

lemma fork_areas_spec:
  assumes "ctx_ok child" "\<forall>p \<in> set ps. area_ok p" "sorted_wrt areas_apart ps"
    and "\<forall>p \<in> set ps. \<forall>k<256. areas_apart p (mc_areas child ! k)" "area_count child + int (length (filter ma_active ps)) \<le> 256"
  shows "\<exists>child' vm'. fork_areas ps child vm = (0, child', vm') \<and> ctx_ok child' \<and>
    area_count child' = area_count child + int (length (filter ma_active ps)) \<and>
    cover child' = cover child \<union> (\<lambda>(x, p, f). (x, p, inherited f)) ` (\<Union>p \<in> set ps. acover p)"
  using assms
proof (induction ps arbitrary: child vm)
  case (Cons p ps)
  have ok: "area_ok p" "\<forall>q \<in> set ps. area_ok q" "sorted_wrt areas_apart ps" "\<forall>q \<in> set ps. areas_apart p q"
    using Cons.prems(2,3) by auto
  show ?case
  proof (cases "ma_active p")
    case False
    then have "acover p = {}" by (simp add: acover_def)
    then show ?thesis using Cons.IH[OF Cons.prems(1) ok(2,3), of vm] Cons.prems(4,5) False by simp
  next
    case True
    then have "area_count child < 256" using Cons.prems(5) by simp
    then obtain j where j: "mmap_alloc_slot child = Some j" by (rule slot_exists[OF Cons.prems(1)])
    note j' = mmap_alloc_slot_Some[OF Cons.prems(1) j]
    let ?vs = "map (page_at (ma_start p)) [0..<unat (ma_length p div 4096)]"
    define c where "c = (if ma_flags p AND MAP_SHARED \<noteq> 0 then p\<lparr>ma_ref_count := ma_ref_count p + 1\<rparr>
      else p\<lparr>ma_ref_count := 1, ma_flags := ma_flags p OR MMAP_FLAG_COW\<rparr>)"
    define vm1 where "vm1 = (if ma_flags p AND MAP_SHARED \<noteq> 0 then fold (share_page (prot_to_pte_flags (ma_prot p))) ?vs vm
      else fold (\<lambda>v vm. snd (cow_mark_page (cr3 vm) v vm)) ?vs vm)"
    have c: "ma_active c" "lo c = lo p" "hi c = hi p" "ma_prot c = ma_prot p" "ma_flags c = inherited (ma_flags p)" "ma_file c = ma_file p"
      using True by (simp_all add: c_def inherited_def lo_def hi_def)
    have "(upd_area j (\<lambda>_. c) child)\<lparr>area_count := area_count child + 1\<rparr> = put_area j c child"
      using j' c(1) by (simp add: upd_area_def put_area_def)
    then have run: "fork_areas (p # ps) child vm = fork_areas ps (put_area j c child) vm1"
      using True j by (cases "ma_flags p AND MAP_SHARED = 0") (simp_all add: c_def vm1_def Let_def)
    have free: "\<forall>k<256. \<not> hit (lo c) (hi c) (mc_areas child ! k)"
      using Cons.prems(4) True c(2,3) by (auto simp: areas_apart_def hit_def)
    have put: "ctx_ok (put_area j c child)" "cover (put_area j c child) = cover child \<union> acover c"
      using ok(1) True c free by (intro put_area_new[OF Cons.prems(1) j]; simp add: area_ok_def)+
    have cov: "acover c = (\<lambda>(x, p, f). (x, p, inherited f)) ` acover p"
      using True c by (auto simp: acover_def image_iff)
    have "areas_apart q (mc_areas (put_area j c child) ! k)" if "q \<in> set ps" "k < 256" for q k
      using that ok(4) Cons.prems(4) put_area_nth[OF ctx_okD(1)[OF Cons.prems(1)], of j c k] j' c(2,3) True
      by (auto simp: areas_apart_def)
    moreover have ac: "area_count (put_area j c child) = area_count child + 1" using j' c(1) by (simp add: put_area_def)
    ultimately show ?thesis
      using Cons.IH[OF put(1) ok(2,3), of vm1] Cons.prems(5) True unfolding run put(2) cov by (auto simp: image_Un)
  qed
qed simp

text \<open>
  A new context inherits every area of its parent, with the same addresses and protection: \<open>mmap_fork_inherit\<close> succeeds,
  counts the areas and keeps them apart; private areas are marked copy on write.
\<close>

theorem fork_inherits_areas:
  assumes "ctx_ok parent"
  shows "\<exists>child vm'. mmap_fork_inherit parent mmap_context_init vm = (0, child, vm') \<and> ctx_ok child \<and>
    area_count child = area_count parent \<and> cover child = (\<lambda>(x, p, f). (x, p, inherited f)) ` cover parent"
proof -
  have len: "length (mc_areas parent) = 256" using ctx_okD(1)[OF assms] .
  have aok: "\<forall>p \<in> set (mc_areas parent). area_ok p" using ctx_okD(2)[OF assms] len by (auto simp: in_set_conv_nth)
  have ap: "sorted_wrt areas_apart (mc_areas parent)" using ctx_okD(3)[OF assms] len by (auto simp: sorted_wrt_iff_nth_less)
  have n: "int (length (filter ma_active (mc_areas parent))) = area_count parent"
    using ctx_okD(4)[OF assms] by (simp add: length_filter_conv_card len)
  have "card {i. i < 256 \<and> ma_active (mc_areas parent ! i)} \<le> card {..<256 :: nat}" by (intro card_mono) auto
  then have le: "area_count mmap_context_init + int (length (filter ma_active (mc_areas parent))) \<le> 256"
    using n ctx_okD(4)[OF assms] by (simp add: mmap_context_init_def)
  have z: "area_count mmap_context_init = 0" by (simp add: mmap_context_init_def)
  have init: "\<forall>p \<in> set (mc_areas parent). \<forall>k<256. areas_apart p (mc_areas mmap_context_init ! k)"
    by (simp add: mmap_context_init_def areas_apart_def)
  have "set (mc_areas parent) = (\<lambda>i. mc_areas parent ! i) ` {..<256}"
    using len by (metis atLeast0LessThan set_map map_nth set_upt list.set_map)
  then have "(\<Union>p \<in> set (mc_areas parent). acover p) = cover parent" by (simp add: cover_def)
  with fork_areas_spec[OF ctx_init_ok(1) aok ap init le, of vm] show ?thesis
    using n z by (simp add: mmap_fork_inherit_def ctx_init_ok(2))
qed

subsection \<open>A process with one area\<close>

definition demo_ctx :: mmap_context where
  "demo_ctx = put_area 0 (new_area zero_area 0x400000 0x3000 PROT_READ (MAP_PRIVATE OR MAP_ANONYMOUS) 0) mmap_context_init"

definition demo_mm :: mm_state where
  "demo_mm = \<lparr>mm_vm = boot_vm, mm_pc = empty_cache, mm_log = []\<rparr>"

lemma init_slot: "mmap_alloc_slot mmap_context_init = Some 0"
  by (simp add: mmap_alloc_slot_def find_idx_Some mmap_context_init_def)

lemma demo_areas: "mc_areas demo_ctx = (replicate 256 zero_area)[0 := new_area zero_area 0x400000 0x3000 PROT_READ (MAP_PRIVATE OR MAP_ANONYMOUS) 0]"
  by (simp add: demo_ctx_def put_area_def mmap_context_init_def)

lemma demo_nth: "k < 256 \<Longrightarrow> mc_areas demo_ctx ! k = (if k = 0 then new_area zero_area 0x400000 0x3000 PROT_READ (MAP_PRIVATE OR MAP_ANONYMOUS) 0 else zero_area)"
  unfolding demo_areas by (simp add: nth_list_update)

lemma demo_set: "a \<in> set (mc_areas demo_ctx) \<Longrightarrow> a = new_area zero_area 0x400000 0x3000 PROT_READ (MAP_PRIVATE OR MAP_ANONYMOUS) 0 \<or> a = zero_area"
  using set_update_subset_insert[of "replicate 256 zero_area" 0] unfolding demo_areas by fastforce

lemma demo_ctx_ok: "ctx_ok demo_ctx" "cover demo_ctx = {0x400000..<0x403000} \<times> {(PROT_READ, MAP_PRIVATE OR MAP_ANONYMOUS)}"
proof -
  let ?a = "new_area zero_area 0x400000 0x3000 PROT_READ (MAP_PRIVATE OR MAP_ANONYMOUS) 0"
  have free: "\<forall>k<256. \<not> hit (lo ?a) (hi ?a) (mc_areas mmap_context_init ! k)" by (simp add: mmap_context_init_def hit_def)
  have "ctx_ok (put_area 0 ?a mmap_context_init)" "cover (put_area 0 ?a mmap_context_init) = cover mmap_context_init \<union> acover ?a"
    using free by (intro put_area_new[OF ctx_init_ok(1) init_slot]; simp)+
  then show "ctx_ok demo_ctx" "cover demo_ctx = {0x400000..<0x403000} \<times> {(PROT_READ, MAP_PRIVATE OR MAP_ANONYMOUS)}"
    by (simp_all add: demo_ctx_def ctx_init_ok(2) acover_def)
qed

lemma demo_slot: "mmap_alloc_slot demo_ctx \<noteq> None"
proof
  assume "mmap_alloc_slot demo_ctx = None"
  then have "ma_active (mc_areas demo_ctx ! 1)" using mmap_alloc_slot_None[OF demo_ctx_ok(1)] by simp
  then show False by (simp add: demo_nth)
qed

lemma align_4096: "align_page 4096 = 4096"
  by (simp add: align_page_def)

theorem munmap_removes_range_witness:
  "\<exists>ctx' st'. mmap_do_munmap (\<lambda>_. False) demo_ctx 0x401000 4096 demo_mm = Some (0, ctx', st') \<and>
     fst ` cover ctx' = {0x400000..<0x401000} \<union> {0x402000..<0x403000}"
proof -
  obtain F where F: "vm_ok (mm_vm demo_mm) F" using boot_vm_ok(1) by (auto simp: demo_mm_def)
  have p: "4096 dvd unat (0x401000 :: u64)" "(4096 :: u64) \<noteq> 0" "unat (4096 :: u64) + 4095 < 2 ^ 64"
      "unat (0x401000 :: u64) + unat (align_page 4096) < 2 ^ 64" by (simp_all add: align_4096)
  have n: "unat (0x401000 :: u64) = 0x401000" "0x401000 + unat (align_page 4096) = 0x402000" by (simp_all add: align_4096)
  from munmap_removes_range[OF demo_ctx_ok(1) F p demo_slot, of "\<lambda>_. False", unfolded n]
  obtain r ctx' st' where m: "mmap_do_munmap (\<lambda>_. False) demo_ctx 0x401000 4096 demo_mm = Some (r, ctx', st')"
      "r = 0 \<longleftrightarrow> fst ` cover demo_ctx \<inter> {0x401000..<0x402000} \<noteq> {}" "cover ctx' = {t \<in> cover demo_ctx. fst t \<notin> {0x401000..<0x402000}}"
    by (elim exE conjE) (rule that; assumption)
  have c: "fst ` cover demo_ctx = {0x400000..<0x403000}" by (simp add: demo_ctx_ok(2))
  have "0x401000 \<in> {0x400000..<0x403000} \<inter> {0x401000..<0x402000 :: nat}" by simp
  then have "r = 0" using m(2) unfolding c by blast
  moreover have "fst ` cover ctx' = fst ` cover demo_ctx - {0x401000..<0x402000}" unfolding m(3) by force
  moreover have "{0x400000..<0x403000} - {0x401000..<0x402000 :: nat} = {0x400000..<0x401000} \<union> {0x402000..<0x403000}" by auto
  ultimately show ?thesis using m(1) unfolding c by auto
qed

theorem find_free_area_is_highest_witness: "mmap_find_free_area demo_ctx 5000 = 0x7F0000000000 - 0x2000"
proof -
  have n: "(unat (5000 :: u64) + 4095) div 4096 * 4096 = 0x2000" by simp
  let ?S = "{s. 0x10000000 \<le> s \<and> s + 0x2000 \<le> 0x7F0000000000 \<and> range_free (mc_areas demo_ctx) s 0x2000}"
  have "\<forall>a \<in> set (mc_areas demo_ctx). ma_active a \<longrightarrow> hi a \<le> 0x403000" using demo_ctx_ok(1)[THEN ctx_okD(1)] demo_nth
    by (auto simp: in_set_conv_nth)
  then have "range_free (mc_areas demo_ctx) s 0x2000" if "0x10000000 \<le> s" for s using that by (fastforce simp: range_free_def)
  then have S: "?S = {0x10000000..0x7F0000000000 - 0x2000}" by auto
  have top: "Max {0x10000000..0x7F0000000000 - 0x2000 :: nat} = 0x7F0000000000 - 0x2000" by (rule Max_eqI) auto
  have ne: "{0x10000000..0x7F0000000000 - 0x2000 :: nat} \<noteq> {}" by simp
  have "unat (mmap_find_free_area demo_ctx 5000) = (if ?S = {} then 0 else Max ?S)"
    using find_free_area_is_highest[OF ctx_okD(5)[OF demo_ctx_ok(1)], of 5000, unfolded n Let_def] by simp
  then have "unat (mmap_find_free_area demo_ctx 5000) = unat (0x7F0000000000 - 0x2000 :: u64)" unfolding S using ne top by simp
  then show ?thesis by (simp only: word_unat_eq_iff)
qed

theorem mmap_maps_fresh_frames_witness:
  "\<exists>m ctx' st'. mmap_do_mmap (\<lambda>_. False) demo_ctx 0 4096 (PROT_READ OR PROT_WRITE) (MAP_PRIVATE OR MAP_ANONYMOUS) (- 1) 0 demo_mm = Some (m, ctx', st') \<and> m \<noteq> - 1"
proof -
  obtain F where F: "vm_ok (mm_vm demo_mm) F" "free_frames F = {1..<9}" using boot_vm_ok(1) by (auto simp: demo_mm_def)
  have bad: "\<not> mmap_bad_args 0 4096 (PROT_READ OR PROT_WRITE) (MAP_PRIVATE OR MAP_ANONYMOUS) 0" by (simp add: mmap_bad_args_def)
  have fl: "(MAP_PRIVATE OR MAP_ANONYMOUS) AND MAP_ANONYMOUS \<noteq> 0" "(MAP_PRIVATE OR MAP_ANONYMOUS) AND MAP_FIXED = 0 \<or> (0 :: u64) = 0" by simp_all
  have B: "unat (0 :: u64) + unat (align_page 4096) < 2 ^ 64" by (simp add: align_4096)
  have ff: "mmap_find_free_area demo_ctx (align_page 4096) \<noteq> 0"
  proof -
    have ov: "\<not> overlaps (0x7F0000000000 - 4096) 4096 a" if "a \<in> set (mc_areas demo_ctx)" for a
      using demo_set[OF that] by (auto simp: overlaps_def new_area_def)
    then have "find (overlaps (0x7F0000000000 - 4096) 4096) (mc_areas demo_ctx) = None" by (simp add: find_None_iff)
    then show ?thesis by (simp add: align_4096 mmap_find_free_area_def free_area_from.simps)
  qed
  have room: "unat (align_page 4096) div 4096 \<le> card (free_frames F)"
    "pool_room (pm_pool (vm_pmap (mm_vm demo_mm))) (3 * (unat (align_page 4096) div 4096))"
    using boot_vm_ok(2) by (simp_all add: align_4096 demo_mm_def F(2))
  from mmap_maps_fresh_frames[OF demo_ctx_ok(1) F(1) bad fl B demo_slot ff room, of "\<lambda>_. False" "- 1"] show ?thesis
    by (elim exE conjE) (intro exI conjI)
qed

theorem mprotect_reprotects_pages_witness:
  "\<exists>ctx' st'. mmap_do_mprotect demo_ctx 0x402000 4096 (PROT_READ OR PROT_WRITE) demo_mm = (0, ctx', st') \<and> fst ` cover ctx' = fst ` cover demo_ctx \<and>
     ma_prot (mc_areas ctx' ! 0) = PROT_READ OR PROT_WRITE"
proof -
  obtain F where F: "vm_ok (mm_vm demo_mm) F" using boot_vm_ok(1) by (auto simp: demo_mm_def)
  have p: "4096 dvd unat (0x402000 :: u64)" "(4096 :: u64) \<noteq> 0" "unat (4096 :: u64) + 4095 < 2 ^ 64"
      "unat (0x402000 :: u64) + unat (align_page 4096) < 2 ^ 64" by (simp_all add: align_4096)
  have n: "unat (0x402000 :: u64) = 0x402000" "0x402000 + unat (align_page 4096) = 0x403000" by (simp_all add: align_4096)
  have c: "fst ` cover demo_ctx = {0x400000..<0x403000}" by (simp add: demo_ctx_ok(2))
  have "0x402000 \<in> {0x400000..<0x403000} \<inter> {0x402000..<0x403000 :: nat}" by simp
  then have "fst ` cover demo_ctx \<inter> {0x402000..<0x403000} \<noteq> {}" unfolding c by blast
  moreover from mprotect_reprotects_pages[OF demo_ctx_ok(1) F p, of "PROT_READ OR PROT_WRITE", unfolded n] obtain r ctx' st' where
    m: "mmap_do_mprotect demo_ctx 0x402000 4096 (PROT_READ OR PROT_WRITE) demo_mm = (r, ctx', st')" "fst ` cover ctx' = fst ` cover demo_ctx"
      "\<forall>i < 256. mc_areas ctx' ! i = (if hit 0x402000 0x403000 (mc_areas demo_ctx ! i) then (mc_areas demo_ctx ! i)\<lparr>ma_prot := PROT_READ OR PROT_WRITE\<rparr> else mc_areas demo_ctx ! i)"
      "r = 0 \<longleftrightarrow> fst ` cover demo_ctx \<inter> {0x402000..<0x403000} \<noteq> {}"
    by (elim exE conjE) (rule that; assumption)
  ultimately have "r = 0" by blast
  moreover have "hit 0x402000 0x403000 (mc_areas demo_ctx ! 0)" by (simp add: demo_nth hit_def new_area_def lo_def hi_def)
  then have "ma_prot (mc_areas ctx' ! 0) = PROT_READ OR PROT_WRITE" using m(3) by simp
  ultimately show ?thesis using m(1,2) by blast
qed

theorem private_write_fault_ignores_protection_witness:
  "\<exists>ctx' st' e. mmap_page_fault_handler (\<lambda>_. None) demo_ctx 0x401008 7 demo_mm = Some (0, ctx', st') \<and>
     ma_prot (mc_areas demo_ctx ! 0) = PROT_READ \<and> vm_entry (mm_vm st') 0x401008 = Some e \<and> e AND PAGE_WRITABLE \<noteq> 0"
proof -
  obtain F where F: "vm_ok (mm_vm demo_mm) F" "free_frames F \<noteq> {}" using boot_vm_ok(1) by (auto simp: demo_mm_def)
  have "mmap_find_area_at demo_ctx 0x401008 = Some 0"
    using demo_nth[of 0] demo_ctx_ok(1)[THEN ctx_okD(1)] by (simp add: mmap_find_area_at_def find_idx_Some new_area_def)
  moreover have "ma_flags (mc_areas demo_ctx ! 0) AND MAP_PRIVATE \<noteq> 0" "ma_prot (mc_areas demo_ctx ! 0) = PROT_READ" by (simp_all add: demo_nth)
  moreover have "pool_room (pm_pool (vm_pmap (mm_vm demo_mm))) 3" using boot_vm_ok(2) by (simp add: demo_mm_def)
  ultimately show ?thesis
    using private_write_fault_ignores_protection[OF demo_ctx_ok(1) F, of "0x401008" 0 7 "\<lambda>_. None"] by simp
qed

theorem destroy_loses_frames_witness:
  "\<exists>ctx' st'. mmap_context_destroy (\<lambda>_. False) demo_ctx demo_mm = Some (ctx', st') \<and> cover ctx' = {} \<and> vm_zone (mm_vm st') = vm_zone (mm_vm demo_mm)"
proof -
  obtain F where F: "vm_ok (mm_vm demo_mm) F" using boot_vm_ok(1) by (auto simp: demo_mm_def)
  from destroy_loses_frames[OF demo_ctx_ok(1) F, of "\<lambda>_. False"] show ?thesis by blast
qed

theorem fork_inherits_areas_witness:
  "\<exists>child vm'. mmap_fork_inherit demo_ctx mmap_context_init boot_vm = (0, child, vm') \<and> fst ` cover child = {0x400000..<0x403000}"
proof -
  from fork_inherits_areas[OF demo_ctx_ok(1), of boot_vm] obtain child vm' where
    f: "mmap_fork_inherit demo_ctx mmap_context_init boot_vm = (0, child, vm')" "cover child = (\<lambda>(x, p, f). (x, p, inherited f)) ` cover demo_ctx" by blast
  have "fst ` cover child = fst ` cover demo_ctx" unfolding f(2) by force
  then show ?thesis using f(1) by (simp add: demo_ctx_ok(2))
qed

theorem mmap_areas_never_overlap_witness:
  "\<exists>ctx st'. mm_history (\<lambda>_. False) (\<lambda>_. None) (mmap_context_init, demo_mm) [Do_mprotect 0 4096 PROT_READ] (ctx, st') \<and>
     length (mc_areas ctx) = 256"
proof -
  obtain ctx st' where s: "mm_call_step (\<lambda>_. False) (\<lambda>_. None) (Do_mprotect 0 4096 PROT_READ) (mmap_context_init, demo_mm) = Some (ctx, st')"
    by (simp, metis surj_pair)
  have "mm_history (\<lambda>_. False) (\<lambda>_. None) (mmap_context_init, demo_mm) ([] @ [Do_mprotect 0 4096 PROT_READ]) (ctx, st')"
    by (rule mm_history.intros(2)[OF mm_history.intros(1)]) (use s in simp_all)
  then have "mm_history (\<lambda>_. False) (\<lambda>_. None) (mmap_context_init, demo_mm) [Do_mprotect 0 4096 PROT_READ] (ctx, st')" by simp
  with mmap_areas_never_overlap[OF this] show ?thesis by blast
qed

end
