(* ===== verification/Libc_Stdlib.thy ===== *)
theory Libc_Stdlib
  imports Mmap_Pages Libc_String
begin

section \<open>The kernel C library: heap, exit handlers and number conversion\<close>

text \<open>
  \<open>kernel/lib/libc/stdlib.c\<close>. The heap gives each block an anonymous mapping of its own in the static context
  \<open>libc_mmap_ctx\<close> and records it in \<open>alloc_table\<close>; \<open>malloc\<close>, \<open>free\<close>, \<open>calloc\<close> and \<open>realloc\<close> are modelled on the
  mappings of the theory \<open>Mmap\<close>, and a block's bytes are read and written through the page tables. \<open>None\<close> is a
  fault of the processor. Strings are byte lists as in \<open>Libc_String\<close>, and a signed integer that leaves its range is
  undefined behaviour, \<open>None\<close>. Handlers registered by \<open>atexit\<close> are a parameter.
\<close>

subsection \<open>The table of allocations\<close>

record alloc_entry =
  ae_addr :: u64
  ae_size :: u64
  ae_active :: bool

record libc_state =
  libc_mmap_ctx :: mmap_context
  libc_mmap_inited :: bool
  alloc_table :: "alloc_entry list"
  alloc_table_inited :: bool
  lc_mm :: mm_state

abbreviation (input) ALLOC_TABLE_MAX :: nat where "ALLOC_TABLE_MAX \<equiv> 256"

definition libc_mmap_init :: "libc_state \<Rightarrow> libc_state" where
  "libc_mmap_init st =
     (if libc_mmap_inited st then st else st\<lparr>libc_mmap_ctx := mmap_context_init, libc_mmap_inited := True\<rparr>)"

definition alloc_table_init :: "libc_state \<Rightarrow> libc_state" where
  "alloc_table_init st =
     (if alloc_table_inited st then st
      else st\<lparr>alloc_table := map (\<lambda>e. e\<lparr>ae_active := False\<rparr>) (alloc_table st), alloc_table_inited := True\<rparr>)"

definition alloc_table_insert :: "u64 \<Rightarrow> u64 \<Rightarrow> alloc_entry list \<Rightarrow> int \<times> alloc_entry list" where
  "alloc_table_insert addr sz tab =
     (case find_idx (\<lambda>e. \<not> ae_active e) tab of
        None \<Rightarrow> (- 1, tab)
      | Some i \<Rightarrow> (int i, tab[i := \<lparr>ae_addr = addr, ae_size = sz, ae_active = True\<rparr>]))"

definition alloc_table_find :: "u64 \<Rightarrow> alloc_entry list \<Rightarrow> int" where
  "alloc_table_find addr tab =
     (case find_idx (\<lambda>e. ae_active e \<and> ae_addr e = addr) tab of None \<Rightarrow> - 1 | Some i \<Rightarrow> int i)"

definition alloc_table_remove :: "int \<Rightarrow> alloc_entry list \<Rightarrow> alloc_entry list" where
  "alloc_table_remove idx tab =
     (if 0 \<le> idx \<and> idx < int ALLOC_TABLE_MAX then tab[nat idx := \<lparr>ae_addr = 0, ae_size = 0, ae_active = False\<rparr>] else tab)"

subsection \<open>Bytes behind the page tables\<close>

text \<open>Memory is the aligned words of the theory \<open>Page_Table\<close>; a byte is a part of its word, least significant first.\<close>

definition mem_byte :: "(u64 \<Rightarrow> u64) \<Rightarrow> u64 \<Rightarrow> u8" where
  "mem_byte m a = ucast (drop_bit (8 * unat (a AND 7)) (m (a AND NOT 7)))"

definition set_byte :: "(u64 \<Rightarrow> u64) \<Rightarrow> u64 \<Rightarrow> u8 \<Rightarrow> u64 \<Rightarrow> u64" where
  "set_byte m a b =
     (let w = a AND NOT 7; k = 8 * unat (a AND 7)
      in m(w := (m w AND NOT (push_bit k 0xFF)) OR push_bit k (ucast b)))"

text \<open>The processor's access to a virtual address: the page has to be mapped, and writable for a write.\<close>

definition phys :: "u64 \<Rightarrow> u64 \<Rightarrow> u64" where
  "phys e v = PTE_ADDR e OR (v AND 0xFFF)"

definition vm_load :: "u64 \<Rightarrow> vm_state \<Rightarrow> u8 option" where
  "vm_load v vm = map_option (\<lambda>e. mem_byte (vm_mem vm) (phys e v)) (vm_entry vm v)"

definition vm_store :: "u64 \<Rightarrow> u8 \<Rightarrow> vm_state \<Rightarrow> vm_state option" where
  "vm_store v b vm = Option.bind (vm_entry vm v) (\<lambda>e.
     if e AND PAGE_WRITABLE = 0 then None else Some (set_mem (set_byte (vm_mem vm) (phys e v) b) vm))"

text \<open>\<open>memset\<close> and \<open>memcpy\<close> of \<open>string.c\<close> at virtual addresses.\<close>

fun vm_memset :: "u64 \<Rightarrow> u8 \<Rightarrow> nat \<Rightarrow> vm_state \<Rightarrow> vm_state option" where
  "vm_memset p b 0 vm = Some vm"
| "vm_memset p b (Suc n) vm = Option.bind (vm_store p b vm) (vm_memset (p + 1) b n)"

fun vm_memcpy :: "u64 \<Rightarrow> u64 \<Rightarrow> nat \<Rightarrow> vm_state \<Rightarrow> vm_state option" where
  "vm_memcpy d s 0 vm = Some vm"
| "vm_memcpy d s (Suc n) vm =
     Option.bind (vm_load s vm) (\<lambda>b. Option.bind (vm_store d b vm) (vm_memcpy (d + 1) (s + 1) n))"

definition in_vm :: "(vm_state \<Rightarrow> vm_state option) \<Rightarrow> libc_state \<Rightarrow> libc_state option" where
  "in_vm f st = map_option (\<lambda>vm. st\<lparr>lc_mm := (lc_mm st)\<lparr>mm_vm := vm\<rparr>\<rparr>) (f (mm_vm (lc_mm st)))"

subsection \<open>The heap\<close>

text \<open>The predicate \<open>hw\<close> tells which files can be written, as in the theory \<open>Mmap\<close>; no block has a file.\<close>

definition malloc :: "(u64 \<Rightarrow> bool) \<Rightarrow> u64 \<Rightarrow> libc_state \<Rightarrow> (u64 \<times> libc_state) option" where
  "malloc hw sz st =
     (if sz = 0 then Some (0, st)
      else
        let st1 = libc_mmap_init (alloc_table_init st) in
        Option.bind (mmap_do_mmap hw (libc_mmap_ctx st1) 0 sz (PROT_READ OR PROT_WRITE) MAP_ANONYMOUS (- 1) 0 (lc_mm st1)) (\<lambda>(addr, ctx, mm).
          let st2 = st1\<lparr>libc_mmap_ctx := ctx, lc_mm := mm\<rparr> in
          if addr = - 1 \<or> addr = 0 then Some (0, st2)
          else let (i, tab) = alloc_table_insert addr sz (alloc_table st2) in
            if i < 0 then map_option (\<lambda>(_, ctx1, mm1). (0, st2\<lparr>libc_mmap_ctx := ctx1, lc_mm := mm1\<rparr>)) (mmap_do_munmap hw ctx addr sz mm)
            else Some (addr, st2\<lparr>alloc_table := tab\<rparr>)))"

definition free :: "(u64 \<Rightarrow> bool) \<Rightarrow> u64 \<Rightarrow> libc_state \<Rightarrow> libc_state option" where
  "free hw ptr st =
     (if ptr = 0 then Some st
      else
        let st1 = alloc_table_init st; idx = alloc_table_find ptr (alloc_table st1) in
        if idx < 0 then Some st1
        else
          let sz = ae_size (alloc_table st1 ! nat idx);
              st2 = libc_mmap_init (st1\<lparr>alloc_table := alloc_table_remove idx (alloc_table st1)\<rparr>)
          in map_option (\<lambda>(_, ctx, mm). st2\<lparr>libc_mmap_ctx := ctx, lc_mm := mm\<rparr>)
               (mmap_do_munmap hw (libc_mmap_ctx st2) ptr sz (lc_mm st2)))"

definition calloc :: "(u64 \<Rightarrow> bool) \<Rightarrow> u64 \<Rightarrow> u64 \<Rightarrow> libc_state \<Rightarrow> (u64 \<times> libc_state) option" where
  "calloc hw num sz st =
     (let total = num * sz in
      Option.bind (malloc hw total st) (\<lambda>(ptr, st1).
        if ptr \<noteq> 0 then map_option (Pair ptr) (in_vm (vm_memset ptr 0 (unat total)) st1) else Some (ptr, st1)))"

definition realloc :: "(u64 \<Rightarrow> bool) \<Rightarrow> u64 \<Rightarrow> u64 \<Rightarrow> libc_state \<Rightarrow> (u64 \<times> libc_state) option" where
  "realloc hw ptr sz st =
     (if ptr = 0 then malloc hw sz st
      else if sz = 0 then map_option (Pair 0) (free hw ptr st)
      else
        let idx = alloc_table_find ptr (alloc_table st) in
        if idx < 0 then Some (0, st)
        else
          let old_size = ae_size (alloc_table st ! nat idx) in
          Option.bind (malloc hw sz st) (\<lambda>(new_ptr, st1).
            if new_ptr = 0 then Some (0, st1)
            else Option.bind (in_vm (vm_memcpy new_ptr ptr (unat (if old_size < sz then old_size else sz))) st1)
                   (\<lambda>st2. map_option (Pair new_ptr) (free hw ptr st2))))"

subsection \<open>Exit handlers\<close>

record 'f exit_table =
  atexit_funcs :: "'f list"
  atexit_count :: nat

definition atexit :: "'f option \<Rightarrow> 'f exit_table \<Rightarrow> int \<times> 'f exit_table" where
  "atexit func t =
     (case func of
        None \<Rightarrow> (- 1, t)
      | Some f \<Rightarrow>
          if atexit_count t \<ge> 32 then (- 1, t)
          else (0, t\<lparr>atexit_funcs := (atexit_funcs t)[atexit_count t := f], atexit_count := atexit_count t + 1\<rparr>))"

text \<open>
  The loop of \<open>exit\<close>, before its system call: it reads the table again for each handler, and a handler acts on the
  table and on the rest of the state. Registered handlers are never null.
\<close>

fun exit_loop :: "('f \<Rightarrow> 'f exit_table \<times> 's \<Rightarrow> 'f exit_table \<times> 's) \<Rightarrow> nat \<Rightarrow> 'f exit_table \<times> 's \<Rightarrow> 'f exit_table \<times> 's" where
  "exit_loop run 0 s = s"
| "exit_loop run (Suc i) s = exit_loop run i (run (atexit_funcs (fst s) ! i) s)"

definition exit :: "('f \<Rightarrow> 'f exit_table \<times> 's \<Rightarrow> 'f exit_table \<times> 's) \<Rightarrow> 'f exit_table \<times> 's \<Rightarrow> 'f exit_table \<times> 's" where
  "exit run s = exit_loop run (atexit_count (fst s)) s"

subsection \<open>Numbers\<close>

definition fits :: "nat \<Rightarrow> int \<Rightarrow> bool" where
  "fits w x \<longleftrightarrow> - (2 ^ (w - 1)) \<le> x \<and> x < 2 ^ (w - 1)"

definition checked :: "nat \<Rightarrow> int \<Rightarrow> int option" where
  "checked w x = (if fits w x then Some x else None)"

definition abs_int :: "int \<Rightarrow> int option" where
  "abs_int n = (if n < 0 then checked 32 (- n) else Some n)"

definition labs :: "int \<Rightarrow> int option" where
  "labs n = (if n < 0 then checked 64 (- n) else Some n)"

definition llabs :: "int \<Rightarrow> int option" where
  "llabs n = (if n < 0 then checked 64 (- n) else Some n)"

definition blank :: "u8 \<Rightarrow> bool" where
  "blank c \<longleftrightarrow> c = 32 \<or> c = 9 \<or> c = 10 \<or> c = 13 \<or> c = 12 \<or> c = 11"

fun skip_blanks :: "u8 list \<Rightarrow> u8 list option" where
  "skip_blanks [] = None"
| "skip_blanks (c # s) = (if blank c then skip_blanks s else Some (c # s))"

fun take_sign :: "u8 list \<Rightarrow> (int \<times> u8 list) option" where
  "take_sign [] = None"
| "take_sign (c # s) = Some (if c = 45 then (- 1, s) else if c = 43 then (1, s) else (1, c # s))"

fun ato_loop :: "nat \<Rightarrow> u8 list \<Rightarrow> int \<Rightarrow> int option" where
  "ato_loop w [] result = None"
| "ato_loop w (c # s) result =
     (if 48 \<le> c \<and> c \<le> 57
      then Option.bind (checked w (result * 10)) (\<lambda>r. Option.bind (checked w (r + (uint c - 48))) (ato_loop w s))
      else Some result)"

definition ato :: "nat \<Rightarrow> u8 list option \<Rightarrow> int option" where
  "ato w str =
     (case str of
        None \<Rightarrow> Some 0
      | Some s \<Rightarrow> Option.bind (skip_blanks s) (\<lambda>s1. Option.bind (take_sign s1) (\<lambda>(sign, s2).
          Option.bind (ato_loop w s2 0) (\<lambda>result. checked w (sign * result)))))"

definition atoi :: "u8 list option \<Rightarrow> int option" where
  "atoi str = ato 32 str"

definition atol :: "u8 list option \<Rightarrow> int option" where
  "atol str = ato 64 str"

definition atoll :: "u8 list option \<Rightarrow> int option" where
  "atoll str = ato 64 str"

definition digit_of :: "u8 \<Rightarrow> int" where
  "digit_of c =
     (if 48 \<le> c \<and> c \<le> 57 then uint c - 48
      else if 97 \<le> c \<and> c \<le> 122 then uint c - 97 + 10
      else if 65 \<le> c \<and> c \<le> 90 then uint c - 65 + 10
      else - 1)"

text \<open>The prefix decides the base when it is 0; the character after a \<open>0\<close> is read when the base is 0 or 16.\<close>

definition take_prefix :: "int \<Rightarrow> u8 list \<Rightarrow> (int \<times> u8 list) option" where
  "take_prefix base s =
     (case s of
        [] \<Rightarrow> None
      | c # t \<Rightarrow>
          if (base = 0 \<or> base = 16) \<and> c = 48 then
            (case t of
               [] \<Rightarrow> None
             | x # u \<Rightarrow> if x = 120 \<or> x = 88 then Some (16, u) else if base = 0 then Some (8, t) else Some (base, s))
          else Some (if base = 0 then 10 else base, s))"

fun strtol_loop :: "int \<Rightarrow> u8 list \<Rightarrow> int \<Rightarrow> bool \<Rightarrow> (int \<times> bool \<times> u8 list) option" where
  "strtol_loop base [] result valid = None"
| "strtol_loop base (c # s) result valid =
     (if digit_of c < 0 \<or> digit_of c \<ge> base then Some (result, valid, c # s)
      else Option.bind (checked 64 (result * base)) (\<lambda>r. Option.bind (checked 64 (r + digit_of c)) (\<lambda>r'. strtol_loop base s r' True)))"

text \<open>The result and \<open>*endptr\<close>, an offset into the argument or null.\<close>

definition strtol :: "u8 list option \<Rightarrow> int \<Rightarrow> (int \<times> nat option) option" where
  "strtol str base =
     (case str of
        None \<Rightarrow> Some (0, None)
      | Some s0 \<Rightarrow>
          Option.bind (skip_blanks s0) (\<lambda>s1. Option.bind (take_sign s1) (\<lambda>(sign, s2).
          Option.bind (take_prefix base s2) (\<lambda>(base1, s3).
          Option.bind (strtol_loop base1 s3 0 False) (\<lambda>(result, valid, s4).
            map_option (\<lambda>r. (r, Some (if valid then length s0 - length s4 else 0))) (checked 64 (sign * result)))))))"

definition rand :: "u32 \<Rightarrow> int \<times> u32" where
  "rand rand_seed = (let seed = rand_seed * 1103515245 + 12345 in (sint (seed AND 0x7FFF), seed))"

definition srand :: "u32 \<Rightarrow> u32 \<Rightarrow> u32" where
  "srand seed rand_seed = seed"

subsection \<open>Mappings that stand for blocks\<close>

text \<open>The ranges of the areas of a context, each with its own end.\<close>

definition ranges :: "mmap_context \<Rightarrow> (nat \<times> nat) set" where
  "ranges ctx = (\<lambda>k. (lo (mc_areas ctx ! k), hi (mc_areas ctx ! k))) ` {k. k < 256 \<and> ma_active (mc_areas ctx ! k)}"

lemma ranges_init: "ranges mmap_context_init = {}"
  by (auto simp: ranges_def mmap_context_init_def)

lemma ranges_put_free:
  assumes ok: "ctx_ok ctx" and k: "k < 256" "\<not> ma_active (mc_areas ctx ! k)"
  shows "ranges (put_area k a ctx) = (if ma_active a then insert (lo a, hi a) (ranges ctx) else ranges ctx)"
  using k unfolding ranges_def put_area_nth[OF ctx_okD(1)[OF ok] k(1)] by auto

lemma image_minus_one: "(\<And>j. j \<in> A \<Longrightarrow> j \<noteq> k \<Longrightarrow> f j \<noteq> f k) \<Longrightarrow> f ` (A - {k}) = f ` A - {f k}"
  by auto

lemma ranges_put_dead:
  assumes ok: "ctx_ok ctx" and k: "k < 256" "ma_active (mc_areas ctx ! k)" and a: "\<not> ma_active a"
  shows "ranges (put_area k a ctx) = ranges ctx - {(lo (mc_areas ctx ! k), hi (mc_areas ctx ! k))}"
proof -
  have "(lo (mc_areas ctx ! j), hi (mc_areas ctx ! j)) \<noteq> (lo (mc_areas ctx ! k), hi (mc_areas ctx ! k))"
    if "j < 256" "ma_active (mc_areas ctx ! j)" "j \<noteq> k" for j
    using ctx_okD(3)[OF ok that(1) k(1) that(3)] ctx_okD(2)[OF ok k(1)] k(2) that(2) by (auto simp: areas_apart_def area_ok_def)
  then have m: "(\<lambda>j. (lo (mc_areas ctx ! j), hi (mc_areas ctx ! j))) ` ({j. j < 256 \<and> ma_active (mc_areas ctx ! j)} - {k}) =
      ranges ctx - {(lo (mc_areas ctx ! k), hi (mc_areas ctx ! k))}"
    unfolding ranges_def by (intro image_minus_one) auto
  have d: "{j. j < 256 \<and> ma_active (mc_areas (put_area k a ctx) ! j)} = {j. j < 256 \<and> ma_active (mc_areas ctx ! j)} - {k}"
    using a unfolding put_area_nth[OF ctx_okD(1)[OF ok] k(1)] by auto
  show ?thesis unfolding ranges_def[of "put_area k a ctx"] d m[symmetric] by (intro image_cong) (auto simp: put_area_nth[OF ctx_okD(1)[OF ok] k(1)])
qed

lemma ranges_apart:
  assumes ok: "ctx_ok ctx" and r: "(a, b) \<in> ranges ctx" "(c, d) \<in> ranges ctx" "a \<noteq> c"
  shows "b \<le> c \<or> d \<le> a"
proof -
  from r(1) obtain k where k: "k < 256" "ma_active (mc_areas ctx ! k)" "a = lo (mc_areas ctx ! k)" "b = hi (mc_areas ctx ! k)" by (auto simp: ranges_def)
  from r(2) obtain l where l: "l < 256" "ma_active (mc_areas ctx ! l)" "c = lo (mc_areas ctx ! l)" "d = hi (mc_areas ctx ! l)" by (auto simp: ranges_def)
  have "k \<noteq> l" using k l r(3) by auto
  from ctx_okD(3)[OF ok k(1) l(1) this] show ?thesis using k l by (auto simp: areas_apart_def)
qed

lemma mmap_block:
  assumes ok: "ctx_ok ctx" and run: "mmap_do_mmap hw ctx 0 sz prot flags fd off st = Some (r, ctx', st')"
  obtains (failed) "r = - 1" "ctx_ok ctx'" "ranges ctx' = ranges ctx"
  | (mapped) "r \<noteq> - 1" "r \<noteq> 0" "ctx_ok ctx'" "4096 dvd unat r" "sz \<noteq> 0" "unat sz \<le> 2 ^ 40" "unat r + unat (align_page sz) < 2 ^ 64"
      "ranges ctx' = insert (unat r, unat r + unat (align_page sz)) (ranges ctx)" "\<forall>(a, b) \<in> ranges ctx. b \<le> unat r \<or> unat r + unat (align_page sz) \<le> a"
      "unat r + unat (align_page sz) \<le> 0x7F0000000000"
proof (cases "mmap_bad_args 0 sz prot flags off")
  case True
  then show ?thesis using run failed ok by (simp add: mmap_do_mmap_def)
next
  case False
  note b = not_bad_args[OF False]
  have l: "unat sz \<le> 2 ^ 40 + 4096" "unat sz + 4095 < 2 ^ 64" using b(2) by simp_all
  note n = align_page_bounds[OF l(1) b(1)]
  have B: "unat (0 :: u64) + unat (align_page sz) < 2 ^ 64" using n(2) by simp
  obtain m ctx1 st1 where
    m: "mmap_map_addr hw ctx 0 (align_page sz) flags st = Some (m, ctx1, st1)" "ctx_ok ctx1"
      "m \<noteq> 0 \<longrightarrow> 4096 dvd unat m" "m \<noteq> 0 \<longrightarrow> unat m + unat (align_page sz) < 2 ^ 64"
      "m \<noteq> 0 \<longrightarrow> (\<forall>k<256. \<not> hit (unat m) (unat m + unat (align_page sz)) (mc_areas ctx1 ! k))"
      "flags AND MAP_FIXED = 0 \<or> (0 :: u64) = 0 \<longrightarrow> ctx1 = ctx \<and> st1 = st"
    by (rule map_addr_spec[OF ok False B, where hw = hw and st = st])
  have e: "ctx1 = ctx" "st1 = st" using m(6) by simp_all
  show ?thesis
  proof (cases "m = 0 \<or> mmap_alloc_slot ctx = None")
    case True
    then have "ctx' = ctx" "r = - 1" using run False m(1) e by (auto simp: mmap_do_mmap_def Let_def split: if_splits)
    then show ?thesis using failed ok by simp
  next
    case c: False
    then obtain j where j: "mmap_alloc_slot ctx = Some j" and m0: "m \<noteq> 0" by auto
    note j' = mmap_alloc_slot_Some[OF ok j, THEN conjunct1] mmap_alloc_slot_Some[OF ok j, THEN conjunct2]
    let ?a = "new_area (mc_areas ctx ! j) m (align_page sz) prot flags off"
    have jl: "j < length (mc_areas ctx)" using j'(1) ctx_okD(1)[OF ok] by simp
    note mm = m(3-5)[THEN mp, OF m0, unfolded e]
    have "m = mmap_find_free_area ctx (align_page sz)" using m(1) e by (auto simp: mmap_map_addr_def)
    then have top: "unat m + unat (align_page sz) \<le> 0x7F0000000000" using find_free_area_ok(4)[OF ok b(1) l(1)] m0 by simp
    have "4096 dvd unat m + unat (align_page sz)" using mm(1) align_page_dvd[OF l(2)] by simp
    then have good: "ctx_ok (put_area j (?a\<lparr>ma_flags := f\<rparr>) ctx)" for f
      using mm n(1) by (intro put_area_new(1)[OF ok j]) simp_all
    have dead: "ctx_ok (put_area j (?a\<lparr>ma_active := False\<rparr>) ctx)" by (rule put_area_dead(1)[OF ok j]) simp
    have m1: "m \<noteq> - 1" using mm(2) n(1) by (auto simp: unsigned_minus_1_eq_mask mask_eq_exp_minus_1)
    have apart: "\<forall>(a, b) \<in> ranges ctx. b \<le> unat m \<or> unat m + unat (align_page sz) \<le> a"
      using mm(3) by (force simp: ranges_def hit_def)
    from run[unfolded mmap_do_mmap_steps[OF ok False m0 m(1)[unfolded e] ok j]] show ?thesis
    proof (rule mmap_fill_cases[OF jl refl])
      fix f assume h: "r = m" "ctx' = put_area j (?a\<lparr>ma_flags := f\<rparr>) ctx"
      show ?thesis
        by (rule mapped) (use h m0 m1 good mm b(1,2) apart top ranges_put_free[OF ok j'] in simp_all)
    next
      assume h: "r = - 1" "ctx' = put_area j (?a\<lparr>ma_active := False\<rparr>) ctx"
      show ?thesis by (rule failed) (use h dead ranges_put_free[OF ok j'] in simp_all)
    qed
  qed
qed

lemma munmap_block:
  assumes ok: "ctx_ok ctx" and r: "(unat addr, unat addr + unat (align_page sz)) \<in> ranges ctx" and sz: "sz \<noteq> 0" "unat sz \<le> 2 ^ 40"
  obtains ctx' st' where "mmap_do_munmap hw ctx addr sz st = Some (0, ctx', st')" "ctx_ok ctx'"
    "ranges ctx' = ranges ctx - {(unat addr, unat addr + unat (align_page sz))}"
    "st' = st\<lparr>mm_vm := fold (\<lambda>v vm. vm_unmap_page (cr3 vm) v vm) (page_range addr (addr + align_page sz)) (mm_vm st)\<rparr>"
proof -
  let ?n = "align_page sz"
  have l: "unat sz \<le> 2 ^ 40 + 4096" "unat sz + 4095 < 2 ^ 64" using sz(2) by simp_all
  note n = align_page_bounds[OF l(1) sz(1)]
  from r obtain k where k: "k < 256" "ma_active (mc_areas ctx ! k)" "lo (mc_areas ctx ! k) = unat addr" "hi (mc_areas ctx ! k) = unat addr + unat ?n"
    unfolding ranges_def by auto
  let ?a = "mc_areas ctx ! k"
  have ak: "hi ?a < 2 ^ 64" "4096 dvd lo ?a" "ma_file ?a = 0" using ctx_okD(2)[OF ok k(1)] k(2) by (simp_all add: area_ok_def)
  have B: "unat addr + unat ?n < 2 ^ 64" using ak(1) k(4) by simp
  have hk: "hit (unat addr) (unat addr + unat ?n) ?a" using k n(1) by (simp add: hit_def)
  have only: "i = k" if "i < 256" "hit (unat addr) (unat addr + unat ?n) (mc_areas ctx ! i)" for i
    using ctx_okD(3)[OF ok that(1) k(1)] that(2) k by (fastforce simp: areas_apart_def hit_def)
  have st: "ma_start ?a = addr" "ma_length ?a = ?n" using k(3,4) by (simp_all add: lo_def hi_def word_unat_eq_iff)
  have f1: "mmap_find_covering_area ctx addr ?n = Some k"
    using find_covering_hit[OF ok B] only hk k(1) by (metis option.exhaust)
  let ?c = "put_area k zero_area ctx"
  have cut: "cut_area k addr (addr + ?n) ctx = ?c"
    using k(2) by (simp add: cut_area_def st put_area_def upd_area_def zero_area_def Let_def)
  have ok': "ctx_ok ?c" by (rule put_area_ok[OF ok k(1)]) (simp_all add: area_ok_def areas_apart_def zero_area_def)
  have "unat (addr + ?n) = unat addr + unat ?n" using B by (simp add: unat_add_noof)
  then have ali: "align_page (addr + ?n) = addr + ?n" "page_align_down addr = addr"
    using ak(2) k(3) align_page_dvd[OF l(2)] by (auto intro!: align_page_id page_align_down_id)
  define st1 where "st1 = st\<lparr>mm_vm := fold (\<lambda>v vm. vm_unmap_page (cr3 vm) v vm) (page_range addr (addr + ?n)) (mm_vm st)\<rparr>"
  have one: "munmap_one hw addr ?n k (ctx, st) = Some (?c, st1)"
    by (simp add: munmap_one_def Let_def st ak(3) cut ali st1_def)
  have "\<not> hit (unat addr) (unat addr + unat ?n) (mc_areas ?c ! i)" if "i < 256" for i
    using only[OF that] unfolding put_area_nth[OF ctx_okD(1)[OF ok] k(1)] by (auto simp: hit_def zero_area_def)
  then have f2: "mmap_find_covering_area ?c addr ?n = None" using find_covering_hit(2)[OF ok' B] by blast
  have "munmap_loop hw addr ?n True (?c, st1) = Some (True, ?c, st1)" by (subst munmap_loop.simps) (simp add: f2)
  then have "munmap_loop hw addr ?n False (ctx, st) = Some (True, ?c, st1)" using one by (subst munmap_loop.simps) (simp add: f1)
  then have "mmap_do_munmap hw ctx addr sz st = Some (0, ?c, st1)" using sz(1) by (simp add: mmap_do_munmap_def)
  moreover have "ranges ?c = ranges ctx - {(unat addr, unat addr + unat ?n)}"
    using ranges_put_dead[OF ok k(1,2), of zero_area] k(3,4) by (simp add: zero_area_def)
  ultimately show thesis using that[OF _ ok'] unfolding st1_def by blast
qed

subsection \<open>The table and the mappings agree\<close>

definition live :: "alloc_entry list \<Rightarrow> alloc_entry set" where
  "live tab = {e \<in> set tab. ae_active e}"

definition block :: "alloc_entry \<Rightarrow> nat \<times> nat" where
  "block e = (unat (ae_addr e), unat (ae_addr e) + unat (align_page (ae_size e)))"

definition entries_ok :: "alloc_entry list \<Rightarrow> bool" where
  "entries_ok tab \<longleftrightarrow> length tab = 256 \<and> (\<forall>i<256. ae_active (tab ! i) \<longrightarrow>
     ae_addr (tab ! i) \<noteq> 0 \<and> ae_size (tab ! i) \<noteq> 0 \<and> unat (ae_size (tab ! i)) \<le> 2 ^ 40 \<and>
     (\<forall>j<256. j \<noteq> i \<and> ae_active (tab ! j) \<longrightarrow> ae_addr (tab ! j) \<noteq> ae_addr (tab ! i)))"

definition heap_ok :: "libc_state \<Rightarrow> bool" where
  "heap_ok st \<longleftrightarrow> entries_ok (alloc_table st) \<and>
     (\<not> alloc_table_inited st \<or> \<not> libc_mmap_inited st \<longrightarrow> live (alloc_table st) = {}) \<and>
     (libc_mmap_inited st \<longrightarrow> ctx_ok (libc_mmap_ctx st) \<and> ranges (libc_mmap_ctx st) = block ` live (alloc_table st)) \<and>
     (\<forall>e \<in> live (alloc_table st). snd (block e) \<le> 0x7F0000000000)"

lemma live_nth: "e \<in> live tab \<longleftrightarrow> (\<exists>i<length tab. tab ! i = e \<and> ae_active e)"
  by (auto simp: live_def in_set_conv_nth)

lemma entries_okD:
  assumes "entries_ok tab"
  shows "length tab = 256" "e \<in> live tab \<Longrightarrow> ae_addr e \<noteq> 0 \<and> ae_size e \<noteq> 0 \<and> unat (ae_size e) \<le> 2 ^ 40"
    "e \<in> live tab \<Longrightarrow> f \<in> live tab \<Longrightarrow> ae_addr e = ae_addr f \<Longrightarrow> e = f"
proof -
  show l: "length tab = 256" using assms by (simp add: entries_ok_def)
  show "e \<in> live tab \<Longrightarrow> ae_addr e \<noteq> 0 \<and> ae_size e \<noteq> 0 \<and> unat (ae_size e) \<le> 2 ^ 40"
    using assms unfolding entries_ok_def live_nth l by metis
  show "e \<in> live tab \<Longrightarrow> f \<in> live tab \<Longrightarrow> ae_addr e = ae_addr f \<Longrightarrow> e = f"
    using assms unfolding entries_ok_def live_nth l by metis
qed

lemma entries_insert:
  assumes ok: "entries_ok tab" and i: "find_idx (\<lambda>e. \<not> ae_active e) tab = Some i"
    and e: "ae_active e" "ae_addr e \<noteq> 0" "ae_size e \<noteq> 0" "unat (ae_size e) \<le> 2 ^ 40" "\<forall>f \<in> live tab. ae_addr f \<noteq> ae_addr e"
  shows "entries_ok (tab[i := e])" "live (tab[i := e]) = insert e (live tab)"
proof -
  have i': "i < 256" "\<not> ae_active (tab ! i)" using i ok by (auto simp: find_idx_Some entries_ok_def)
  have l: "length tab = 256" using ok by (simp add: entries_ok_def)
  have f: "ae_addr (tab ! j) \<noteq> ae_addr e" if "j < 256" "ae_active (tab ! j)" for j
  proof -
    have "tab ! j \<in> live tab" using that l by (simp add: live_def)
    then show ?thesis using e(5) by blast
  qed
  show "entries_ok (tab[i := e])"
    using ok e f f[symmetric] i' unfolding entries_ok_def by (auto simp: nth_list_update)
  show "live (tab[i := e]) = insert e (live tab)" using i' e(1) l by (auto simp: live_nth nth_list_update)
qed

lemma entries_remove:
  assumes ok: "entries_ok tab" and i: "i < 256" "ae_active (tab ! i)" and d: "\<not> ae_active d"
  shows "entries_ok (tab[i := d])" "live (tab[i := d]) = live tab - {tab ! i}"
proof -
  have l: "length tab = 256" using ok by (simp add: entries_ok_def)
  show "entries_ok (tab[i := d])"
    using ok d i(1) l unfolding entries_ok_def by (auto simp: nth_list_update split: if_splits)
  have "tab ! j \<noteq> tab ! i" if "j < 256" "j \<noteq> i" "ae_active (tab ! j)" for j
    using ok i that unfolding entries_ok_def by metis
  then show "live (tab[i := d]) = live tab - {tab ! i}" using i d l by (auto simp: live_nth nth_list_update) metis+
qed

lemma heap_okD:
  assumes "heap_ok st"
  shows "entries_ok (alloc_table st)" "libc_mmap_inited st \<Longrightarrow> ctx_ok (libc_mmap_ctx st)"
    "libc_mmap_inited st \<Longrightarrow> ranges (libc_mmap_ctx st) = block ` live (alloc_table st)"
    "live (alloc_table st) \<noteq> {} \<Longrightarrow> alloc_table_inited st \<and> libc_mmap_inited st"
    "e \<in> live (alloc_table st) \<Longrightarrow> snd (block e) \<le> 0x7F0000000000"
  using assms by (auto simp: heap_ok_def)

lemma alloc_table_init_ok:
  assumes "heap_ok st"
  shows "heap_ok (alloc_table_init st)" "live (alloc_table (alloc_table_init st)) = live (alloc_table st)"
    "lc_mm (alloc_table_init st) = lc_mm st" "libc_mmap_ctx (alloc_table_init st) = libc_mmap_ctx st"
    "alloc_table_inited (alloc_table_init st)" "libc_mmap_inited (alloc_table_init st) = libc_mmap_inited st"
proof -
  show l: "live (alloc_table (alloc_table_init st)) = live (alloc_table st)"
    using assms by (auto simp: alloc_table_init_def heap_ok_def live_def)
  show "lc_mm (alloc_table_init st) = lc_mm st" "libc_mmap_ctx (alloc_table_init st) = libc_mmap_ctx st"
    "alloc_table_inited (alloc_table_init st)" "libc_mmap_inited (alloc_table_init st) = libc_mmap_inited st"
    by (simp_all add: alloc_table_init_def)
  have "entries_ok (alloc_table (alloc_table_init st))" using assms by (auto simp: alloc_table_init_def heap_ok_def entries_ok_def)
  then show "heap_ok (alloc_table_init st)" using assms l unfolding heap_ok_def by (simp add: alloc_table_init_def)
qed

lemma libc_mmap_init_ok:
  assumes "heap_ok st"
  shows "heap_ok (libc_mmap_init st)" "alloc_table (libc_mmap_init st) = alloc_table st" "lc_mm (libc_mmap_init st) = lc_mm st"
    "libc_mmap_inited (libc_mmap_init st)" "alloc_table_inited (libc_mmap_init st) = alloc_table_inited st"
    "libc_mmap_inited st \<Longrightarrow> libc_mmap_init st = st"
  using assms ctx_init_ok(1) ranges_init by (auto simp: libc_mmap_init_def heap_ok_def)

text \<open>What two blocks never do.\<close>

definition blocks_apart :: "alloc_entry \<Rightarrow> alloc_entry \<Rightarrow> bool" where
  "blocks_apart e f \<longleftrightarrow> snd (block e) \<le> fst (block f) \<or> snd (block f) \<le> fst (block e)"

lemma heap_ok_apart:
  assumes ok: "heap_ok st" and e: "e \<in> live (alloc_table st)" "f \<in> live (alloc_table st)" "e \<noteq> f"
  shows "blocks_apart e f"
proof -
  have i: "libc_mmap_inited st" using heap_okD(4)[OF ok] e(1) by blast
  have "block e \<in> ranges (libc_mmap_ctx st)" "block f \<in> ranges (libc_mmap_ctx st)" using heap_okD(3)[OF ok i] e(1,2) by simp_all
  moreover have "fst (block e) \<noteq> fst (block f)" using entries_okD(3)[OF heap_okD(1)[OF ok] e(1,2)] e(3) by (auto simp: block_def word_unat_eq_iff)
  ultimately show ?thesis
    using ranges_apart[OF heap_okD(2)[OF ok i], of "fst (block e)" "snd (block e)" "fst (block f)" "snd (block f)"]
    by (simp add: blocks_apart_def)
qed

lemma heap_ok_aligned:
  assumes ok: "heap_ok st" and e: "e \<in> live (alloc_table st)"
  shows "4096 dvd unat (ae_addr e)" "snd (block e) < 2 ^ 64"
proof -
  have i: "libc_mmap_inited st" using heap_okD(4)[OF ok] e(1) by blast
  have "block e \<in> ranges (libc_mmap_ctx st)" using heap_okD(3)[OF ok i] e by simp
  then obtain k where k: "k < 256" "ma_active (mc_areas (libc_mmap_ctx st) ! k)"
      "block e = (lo (mc_areas (libc_mmap_ctx st) ! k), hi (mc_areas (libc_mmap_ctx st) ! k))"
    by (auto simp: ranges_def)
  from ctx_okD(2)[OF heap_okD(2)[OF ok i] k(1)] k(2,3) show "4096 dvd unat (ae_addr e)" "snd (block e) < 2 ^ 64"
    by (auto simp: area_ok_def block_def)
qed

lemma malloc_spec:
  assumes ok: "heap_ok st" and run: "malloc hw sz st = Some (p, st')"
  shows "heap_ok st'" "p = 0 \<Longrightarrow> live (alloc_table st') = live (alloc_table st)"
    "p \<noteq> 0 \<Longrightarrow> live (alloc_table st') = insert \<lparr>ae_addr = p, ae_size = sz, ae_active = True\<rparr> (live (alloc_table st)) \<and>
       \<lparr>ae_addr = p, ae_size = sz, ae_active = True\<rparr> \<notin> live (alloc_table st)"
proof -
  let ?e = "\<lparr>ae_addr = p, ae_size = sz, ae_active = True\<rparr>"
  have "heap_ok st' \<and> (p = 0 \<longrightarrow> live (alloc_table st') = live (alloc_table st)) \<and>
      (p \<noteq> 0 \<longrightarrow> live (alloc_table st') = insert ?e (live (alloc_table st)) \<and> ?e \<notin> live (alloc_table st))"
  proof (cases "sz = 0")
    case True
    then show ?thesis using run ok by (simp add: malloc_def)
  next
    case False
    define st1 where "st1 = libc_mmap_init (alloc_table_init st)"
    note t = alloc_table_init_ok[OF ok] and c = libc_mmap_init_ok[OF alloc_table_init_ok(1)[OF ok], folded st1_def]
    have in1: "libc_mmap_inited st1" "alloc_table_inited st1" "live (alloc_table st1) = live (alloc_table st)" using c(2,4,5) t(2,5) by simp_all
    note h1 = heap_okD(2)[OF c(1) in1(1)] heap_okD(3)[OF c(1) in1(1), unfolded in1(3)]
    obtain addr ctx mm where m: "mmap_do_mmap hw (libc_mmap_ctx st1) 0 sz (PROT_READ OR PROT_WRITE) MAP_ANONYMOUS (- 1) 0 (lc_mm st1) = Some (addr, ctx, mm)"
      using run False by (auto simp: malloc_def Let_def st1_def Option.bind_eq_Some_conv)
    note r = run[unfolded malloc_def Let_def, folded st1_def, simplified m, simplified]
    show ?thesis using h1(1) m
    proof (cases rule: mmap_block)
      case failed
      then have "p = 0" "st' = st1\<lparr>libc_mmap_ctx := ctx, lc_mm := mm\<rparr>" using r False by simp_all
      then show ?thesis using failed c(1) in1 h1(2) heap_okD(5)[OF ok] by (simp add: heap_ok_def)
    next
      case mapped
      let ?f = "\<lparr>ae_addr = addr, ae_size = sz, ae_active = True\<rparr>"
      have fresh: "ae_addr e \<noteq> addr" if "e \<in> live (alloc_table st1)" for e
      proof
        assume a: "ae_addr e = addr"
        have "block e \<in> ranges (libc_mmap_ctx st1)" using h1(2) that in1(3) by simp
        then have "snd (block e) \<le> unat addr \<or> unat addr + unat (align_page sz) \<le> unat addr" using mapped(9) a by (fastforce simp: block_def)
        moreover have "0 < unat (align_page (ae_size e))" "0 < unat (align_page sz)"
          using entries_okD(2)[OF heap_okD(1)[OF c(1)] that] align_page_bounds(1)[of "ae_size e"] align_page_bounds(1)[of sz] mapped(5,6) by simp_all
        ultimately show False using a by (auto simp: block_def)
      qed
      have bf: "block ?f = (unat addr, unat addr + unat (align_page sz))" by (simp add: block_def)
      show ?thesis
      proof (cases "find_idx (\<lambda>e. \<not> ae_active e) (alloc_table st1)")
        case None
        then have i: "alloc_table_insert addr sz (alloc_table st1) = (- 1, alloc_table st1)" by (simp add: alloc_table_insert_def)
        have "(unat addr, unat addr + unat (align_page sz)) \<in> ranges ctx" using mapped(8) by simp
        then obtain ctx2 mm2 where
          u: "mmap_do_munmap hw ctx addr sz mm = Some (0, ctx2, mm2)" "ctx_ok ctx2"
            "ranges ctx2 = ranges ctx - {(unat addr, unat addr + unat (align_page sz))}"
          by (rule munmap_block[OF mapped(3) _ mapped(5,6), where hw = hw and st = mm]) (rule that; assumption)
        have "fst (block e) \<noteq> unat addr" if "e \<in> live (alloc_table st)" for e
          using fresh[of e] that in1(3) by (simp add: block_def word_unat_eq_iff)
        then have "(unat addr, unat addr + unat (align_page sz)) \<notin> ranges (libc_mmap_ctx st1)"
          unfolding h1(2) by (metis fst_conv imageE)
        then have "ranges ctx2 = ranges (libc_mmap_ctx st1)" using u(3) mapped(8) by simp
        moreover have "p = 0" "st' = st1\<lparr>libc_mmap_ctx := ctx2, lc_mm := mm2\<rparr>" using r False mapped(1,2) i u(1) by simp_all
        ultimately show ?thesis using c(1) u(2) in1 h1(2) by (simp add: heap_ok_def)
      next
        case (Some k)
        then have i: "alloc_table_insert addr sz (alloc_table st1) = (int k, (alloc_table st1)[k := ?f])" by (simp add: alloc_table_insert_def)
        have p: "p = addr" "st' = st1\<lparr>libc_mmap_ctx := ctx, lc_mm := mm, alloc_table := (alloc_table st1)[k := ?f]\<rparr>"
          using r False mapped(1,2) i by auto
        note ins = entries_insert[OF heap_okD(1)[OF c(1)] Some, of ?f, simplified, OF mapped(2,5), simplified, OF mapped(6)[simplified]]
        have "entries_ok ((alloc_table st1)[k := ?f])" "live ((alloc_table st1)[k := ?f]) = insert ?f (live (alloc_table st))"
          using ins fresh unfolding in1(3)[symmetric] by blast+
        moreover have "?f \<notin> live (alloc_table st)" using fresh in1(3) by force
        ultimately show ?thesis using p mapped(2,3,8,10) h1(2) in1 bf heap_okD(5)[OF ok] by (simp add: heap_ok_def)
      qed
    qed
  qed
  then show "heap_ok st'" "p = 0 \<Longrightarrow> live (alloc_table st') = live (alloc_table st)"
    "p \<noteq> 0 \<Longrightarrow> live (alloc_table st') = insert ?e (live (alloc_table st)) \<and> ?e \<notin> live (alloc_table st)" by blast+
qed

lemma alloc_table_find_live:
  assumes ok: "entries_ok tab"
  shows "alloc_table_find p tab < 0 \<longleftrightarrow> (\<forall>e \<in> live tab. ae_addr e \<noteq> p)"
    "0 \<le> alloc_table_find p tab \<Longrightarrow> nat (alloc_table_find p tab) < 256 \<and>
       tab ! nat (alloc_table_find p tab) \<in> live tab \<and> ae_addr (tab ! nat (alloc_table_find p tab)) = p"
proof -
  have g: "i < 256 \<and> tab ! i \<in> live tab \<and> ae_addr (tab ! i) = p" if "find_idx (\<lambda>e. ae_active e \<and> ae_addr e = p) tab = Some i" for i
    using that entries_okD(1)[OF ok] by (simp add: find_idx_Some live_def)
  then show "alloc_table_find p tab < 0 \<longleftrightarrow> (\<forall>e \<in> live tab. ae_addr e \<noteq> p)"
  proof (cases "find_idx (\<lambda>e. ae_active e \<and> ae_addr e = p) tab")
    case None
    then have "\<forall>e \<in> live tab. ae_addr e \<noteq> p" by (simp add: find_idx_None live_def)
    then show ?thesis using None by (simp add: alloc_table_find_def)
  qed (auto simp: alloc_table_find_def)
  show "0 \<le> alloc_table_find p tab \<Longrightarrow> nat (alloc_table_find p tab) < 256 \<and>
       tab ! nat (alloc_table_find p tab) \<in> live tab \<and> ae_addr (tab ! nat (alloc_table_find p tab)) = p"
    using g by (cases "find_idx (\<lambda>e. ae_active e \<and> ae_addr e = p) tab") (auto simp: alloc_table_find_def)
qed

lemma free_spec:
  assumes ok: "heap_ok st"
  obtains st' where "free hw p st = Some st'" "heap_ok st'" "live (alloc_table st') = {e \<in> live (alloc_table st). p = 0 \<or> ae_addr e \<noteq> p}"
    "\<forall>e \<in> live (alloc_table st). ae_addr e = p \<longrightarrow> mm_vm (lc_mm st') =
       fold (\<lambda>v vm. vm_unmap_page (cr3 vm) v vm) (page_range p (p + align_page (ae_size e))) (mm_vm (lc_mm st))"
proof (cases "p = 0")
  case True
  then show ?thesis using that[of st] ok entries_okD(2)[OF heap_okD(1)[OF ok]] by (auto simp: free_def)
next
  case p: False
  define st1 where "st1 = alloc_table_init st"
  note t = alloc_table_init_ok[OF ok, folded st1_def]
  let ?i = "alloc_table_find p (alloc_table st1)"
  note f = alloc_table_find_live[OF heap_okD(1)[OF t(1)], of p]
  show ?thesis
  proof (cases "?i < 0")
    case True
    then have "live (alloc_table st1) = {e \<in> live (alloc_table st). p = 0 \<or> ae_addr e \<noteq> p}" using f(1) t(2) by auto
    then show ?thesis using that[of st1] True p t(1,2) f(1) by (simp add: free_def Let_def st1_def)
  next
    case False
    let ?e = "alloc_table st1 ! nat ?i"
    have e: "nat ?i < 256" "?e \<in> live (alloc_table st1)" "ae_addr ?e = p" using f(2) False by auto
    have i: "libc_mmap_inited st1" "alloc_table_inited st1" using heap_okD(4)[OF t(1)] e(2) by blast+
    have act: "ae_active ?e" using e(2) by (simp add: live_def)
    note rm = entries_remove[OF heap_okD(1)[OF t(1)] e(1) act, of "\<lparr>ae_addr = 0, ae_size = 0, ae_active = False\<rparr>", simplified]
    have rem: "alloc_table_remove ?i (alloc_table st1) = (alloc_table st1)[nat ?i := \<lparr>ae_addr = 0, ae_size = 0, ae_active = False\<rparr>]"
      using False e(1) by (simp add: alloc_table_remove_def nat_less_iff)
    have sz: "ae_size ?e \<noteq> 0" "unat (ae_size ?e) \<le> 2 ^ 40" using entries_okD(2)[OF heap_okD(1)[OF t(1)] e(2)] by auto
    have be: "block ?e = (unat p, unat p + unat (align_page (ae_size ?e)))" using e(3) by (simp add: block_def)
    have "(unat p, unat p + unat (align_page (ae_size ?e))) \<in> ranges (libc_mmap_ctx st1)"
      using heap_okD(3)[OF t(1) i(1)] e(2) be by (metis imageI)
    then obtain ctx mm where
      u: "mmap_do_munmap hw (libc_mmap_ctx st1) p (ae_size ?e) (lc_mm st1) = Some (0, ctx, mm)" "ctx_ok ctx"
        "ranges ctx = ranges (libc_mmap_ctx st1) - {(unat p, unat p + unat (align_page (ae_size ?e)))}"
        "mm = (lc_mm st1)\<lparr>mm_vm := fold (\<lambda>v vm. vm_unmap_page (cr3 vm) v vm) (page_range p (p + align_page (ae_size ?e))) (mm_vm (lc_mm st1))\<rparr>"
      by (rule munmap_block[OF heap_okD(2)[OF t(1) i(1)] _ sz, where hw = hw and st = "lc_mm st1"]) (rule that; assumption)
    have inj: "block e' \<noteq> block ?e" if "e' \<in> live (alloc_table st1)" "e' \<noteq> ?e" for e'
      using entries_okD(3)[OF heap_okD(1)[OF t(1)] that(1) e(2)] that(2) by (auto simp: block_def word_unat_eq_iff)
    have "block ` live (alloc_table st1) - {block ?e} = block ` (live (alloc_table st1) - {?e})"
      by (rule image_minus_one[symmetric]) (use inj in blast)
    then have rg: "ranges ctx = block ` (live (alloc_table st1) - {?e})" using u(3) heap_okD(3)[OF t(1) i(1)] be by simp
    let ?st = "st1\<lparr>alloc_table := alloc_table_remove ?i (alloc_table st1), libc_mmap_ctx := ctx, lc_mm := mm\<rparr>"
    have eq: "x = ?e \<longleftrightarrow> ae_addr x = p" if "x \<in> live (alloc_table st1)" for x
      using entries_okD(3)[OF heap_okD(1)[OF t(1)] that e(2)] e(3) by metis
    have vm: "\<forall>x \<in> live (alloc_table st). ae_addr x = p \<longrightarrow> mm_vm mm =
       fold (\<lambda>v vm. vm_unmap_page (cr3 vm) v vm) (page_range p (p + align_page (ae_size x))) (mm_vm (lc_mm st))"
    proof (intro ballI impI)
      fix x assume "x \<in> live (alloc_table st)" "ae_addr x = p"
      then have "x = ?e" using eq t(2) by blast
      then show "mm_vm mm = fold (\<lambda>v vm. vm_unmap_page (cr3 vm) v vm) (page_range p (p + align_page (ae_size x))) (mm_vm (lc_mm st))"
        using u(4) t(3) by simp
    qed
    have "live (alloc_table st1) - {?e} = {e \<in> live (alloc_table st). p = 0 \<or> ae_addr e \<noteq> p}" using eq p t(2) by blast
    moreover have "libc_mmap_init (st1\<lparr>alloc_table := alloc_table_remove ?i (alloc_table st1)\<rparr>) = st1\<lparr>alloc_table := alloc_table_remove ?i (alloc_table st1)\<rparr>"
      using i(1) by (simp add: libc_mmap_init_def)
    ultimately show ?thesis
      using that[of ?st] p False u(1,2) rg i rm heap_okD(5)[OF ok] vm by (simp add: free_def Let_def st1_def[symmetric] rem heap_ok_def)
  qed
qed

lemma free_heap: "heap_ok st \<Longrightarrow> free hw p st = Some st' \<Longrightarrow> heap_ok st'"
  by (rule free_spec[of st hw p]) simp_all

lemma in_vm_keeps:
  assumes "in_vm f st = Some st'"
  shows "heap_ok st' = heap_ok st" "alloc_table st' = alloc_table st"
  using assms by (auto simp: in_vm_def heap_ok_def)

text \<open>The calls a program makes, with the result dropped.\<close>

datatype heap_call = Malloc u64 | Free u64 | Calloc u64 u64 | Realloc u64 u64

fun heap_step :: "(u64 \<Rightarrow> bool) \<Rightarrow> heap_call \<Rightarrow> libc_state \<Rightarrow> libc_state option" where
  "heap_step hw (Malloc sz) st = map_option snd (malloc hw sz st)"
| "heap_step hw (Free p) st = free hw p st"
| "heap_step hw (Calloc n sz) st = map_option snd (calloc hw n sz st)"
| "heap_step hw (Realloc p sz) st = map_option snd (realloc hw p sz st)"

inductive heap_history :: "(u64 \<Rightarrow> bool) \<Rightarrow> libc_state \<Rightarrow> heap_call list \<Rightarrow> libc_state \<Rightarrow> bool" for hw st0 where
  "heap_history hw st0 [] st0"
| "heap_history hw st0 cs st \<Longrightarrow> heap_step hw c st = Some st' \<Longrightarrow> heap_history hw st0 (cs @ [c]) st'"

text \<open>The static variables when the program starts, in whatever memory it starts in.\<close>

definition libc_start :: "mmap_context \<Rightarrow> mm_state \<Rightarrow> libc_state" where
  "libc_start ctx mm = \<lparr>libc_mmap_ctx = ctx, libc_mmap_inited = False,
     alloc_table = replicate 256 \<lparr>ae_addr = 0, ae_size = 0, ae_active = False\<rparr>, alloc_table_inited = False, lc_mm = mm\<rparr>"

lemma heap_start: "heap_ok (libc_start ctx mm)" "live (alloc_table (libc_start ctx mm)) = {}"
  by (auto simp: heap_ok_def libc_start_def entries_ok_def live_def)

lemma realloc_heap:
  assumes ok: "heap_ok st" and run: "realloc hw p sz st = Some (q, st')"
  shows "heap_ok st'"
proof -
  have m: "heap_ok st1" if "malloc hw sz st = Some (r, st1)" for r st1 using malloc_spec(1)[OF ok that] .
  have f: "heap_ok st2" if "heap_ok st1" "free hw p st1 = Some st2" for st1 st2
    by (rule free_heap[OF that])
  let ?i = "alloc_table_find p (alloc_table st)"
  have c: "heap_ok st3" if "in_vm g st1 = Some st2" "heap_ok st1" "free hw p st2 = Some st3" for g st1 st2 st3
    using f[OF _ that(3)] in_vm_keeps(1)[OF that(1)] that(2) by blast
  consider "p = 0" | "p \<noteq> 0" "sz = 0" | "p \<noteq> 0" "sz \<noteq> 0" "?i < 0" | "p \<noteq> 0" "sz \<noteq> 0" "\<not> ?i < 0" by blast
  then show ?thesis
  proof cases
    case 4
    from run obtain r st1 where r: "malloc hw sz st = Some (r, st1)"
      by (simp only: realloc_def Let_def 4 if_False) (auto simp: Option.bind_eq_Some_conv)
    from run[unfolded realloc_def Let_def] 4 r show ?thesis
      using m[OF r] c[OF _ m[OF r]] by (auto simp: Option.bind_eq_Some_conv split: if_splits)
  qed (use run ok m f in \<open>auto simp: realloc_def Let_def\<close>)
qed

lemma heap_step_ok:
  assumes "heap_ok st" "heap_step hw c st = Some st'"
  shows "heap_ok st'"
proof (cases c)
  case (Malloc sz)
  then show ?thesis using assms malloc_spec(1) by fastforce
next
  case (Free p)
  then show ?thesis using assms free_heap by simp
next
  case (Calloc n sz)
  then show ?thesis
    using assms malloc_spec(1)[OF assms(1)] in_vm_keeps(1) by (auto simp: calloc_def Let_def Option.bind_eq_Some_conv split: if_splits)
next
  case (Realloc p sz)
  then show ?thesis using assms realloc_heap by fastforce
qed

lemma heap_history_ok: "heap_history hw st0 cs st \<Longrightarrow> heap_ok st0 \<Longrightarrow> heap_ok st"
  by (induction rule: heap_history.induct) (auto intro: heap_step_ok)

text \<open>
  C20. Whatever calls of \<open>malloc\<close>, \<open>free\<close>, \<open>calloc\<close> and \<open>realloc\<close> a program has made, and whichever of them failed, two
  different live blocks have disjoint ranges of whole pages; each starts at a page, none is null or runs past the
  end of the address space, and the areas of \<open>libc_mmap_ctx\<close> are exactly the live blocks, so no address space is lost.
\<close>

theorem heap_blocks_disjoint:
  assumes "heap_history hw (libc_start ctx mm) cs st"
  shows "(\<forall>e \<in> live (alloc_table st). \<forall>f \<in> live (alloc_table st). e \<noteq> f \<longrightarrow> blocks_apart e f) \<and>
     (\<forall>e \<in> live (alloc_table st). ae_addr e \<noteq> 0 \<and> 4096 dvd unat (ae_addr e) \<and> unat (ae_addr e) + unat (ae_size e) < 2 ^ 64) \<and>
     (libc_mmap_inited st \<longrightarrow> ranges (libc_mmap_ctx st) = block ` live (alloc_table st))"
proof -
  have ok: "heap_ok st" by (rule heap_history_ok[OF assms heap_start(1)])
  have "unat (ae_addr e) + unat (ae_size e) < 2 ^ 64" if "e \<in> live (alloc_table st)" for e
  proof -
    have "unat (ae_size e) + 4095 < 2 ^ 64" using entries_okD(2)[OF heap_okD(1)[OF ok] that] by simp
    from align_page_ge[OF this] heap_ok_aligned(2)[OF ok that] show ?thesis by (simp add: block_def)
  qed
  then show ?thesis
    using heap_ok_apart[OF ok] heap_ok_aligned(1)[OF ok] entries_okD(2)[OF heap_okD(1)[OF ok]] heap_okD(3)[OF ok] by blast
qed

subsection \<open>Bytes of a block\<close>

lemma bit_mem_byte: "bit (mem_byte m a) n \<longleftrightarrow> n < 8 \<and> bit (m (a AND NOT 7)) (8 * unat (a AND 7) + n)"
  by (auto simp: mem_byte_def bit_simps)

lemma low_bits: "unat ((a :: u64) AND 7) < 8"
proof -
  have "unat (a AND (2 ^ 3 - 1)) = unat a mod 2 ^ 3" by (rule unat_mod_pow2_mask) simp
  then show ?thesis by simp
qed

lemma word_split: "(a :: u64) AND NOT 7 = c AND NOT 7 \<Longrightarrow> a AND 7 = c AND 7 \<Longrightarrow> a = c"
proof -
  have "x = (x AND NOT 7) OR (x AND 7)" for x :: u64
    unfolding bit.conj_disj_distrib[symmetric] by simp
  then show "(a :: u64) AND NOT 7 = c AND NOT 7 \<Longrightarrow> a AND 7 = c AND 7 \<Longrightarrow> a = c" by metis
qed

lemma bit_FF: "bit (0xFF :: u64) n \<longleftrightarrow> n < 8"
proof -
  have m: "(0xFF :: u64) = mask 8" by (simp add: mask_eq_exp_minus_1)
  show ?thesis unfolding m by (auto simp: bit_simps)
qed

lemma mem_byte_set_byte: "mem_byte (set_byte m a b) c = (if c = a then b else mem_byte m c)"
proof -
  let ?w = "a AND NOT 7" and ?k = "unat (a AND 7)" and ?j = "unat (c AND 7)"
  note l = low_bits[of a] low_bits[of c]
  have in_word: "bit (set_byte m a b ?w) i \<longleftrightarrow> (if 8 * ?k \<le> i \<and> i < 8 * ?k + 8 then bit b (i - 8 * ?k) else bit (m ?w) i)" if "i < 64" for i
  proof -
    have b8: "bit b j \<Longrightarrow> j < 8" for j using bit_imp_le_length[of b j] by simp
    have w: "set_byte m a b ?w = (m ?w AND NOT (push_bit (8 * ?k) 0xFF)) OR push_bit (8 * ?k) (ucast b)" by (simp add: set_byte_def Let_def)
    have "bit (set_byte m a b ?w) i \<longleftrightarrow> (bit (m ?w) i \<and> \<not> (8 * ?k \<le> i \<and> i - 8 * ?k < 8)) \<or> (8 * ?k \<le> i \<and> bit b (i - 8 * ?k))"
      unfolding w bit_or_iff bit_and_iff bit_not_iff_eq bit_push_bit_iff bit_FF bit_unsigned_iff possible_bit_word using that by auto
    then show ?thesis using b8[of "i - 8 * ?k"] by auto
  qed
  show ?thesis
  proof (cases "c AND NOT 7 = ?w")
    case True
    show ?thesis
    proof (rule bit_word_eqI)
      fix n assume "n < LENGTH(8)"
      then have n: "n < 8" by simp
      have i: "8 * ?j + n < 64" using n l(2) by linarith
      have "bit (mem_byte (set_byte m a b) c) n = bit (set_byte m a b ?w) (8 * ?j + n)" using n True by (simp add: bit_mem_byte)
      moreover have "8 * ?k \<le> 8 * ?j + n \<and> 8 * ?j + n < 8 * ?k + 8 \<longleftrightarrow> ?j = ?k" using n by presburger
      moreover have "?j = ?k \<longleftrightarrow> c = a" using word_split[OF True] by (metis word_unat_eq_iff)
      moreover have "bit (mem_byte m c) n = bit (m ?w) (8 * ?j + n)" using n True by (simp add: bit_mem_byte)
      ultimately show "bit (mem_byte (set_byte m a b) c) n = bit (if c = a then b else mem_byte m c) n" unfolding in_word[OF i] by auto
    qed
  next
    case False
    then have "c \<noteq> a" by auto
    moreover have "set_byte m a b (c AND NOT 7) = m (c AND NOT 7)" using False by (simp add: set_byte_def Let_def)
    ultimately show ?thesis by (simp add: mem_byte_def)
  qed
qed

text \<open>The page table flags of a block, and a page of a block with its frame.\<close>

abbreviation (input) HEAP_FLAGS :: u64 where "HEAP_FLAGS \<equiv> prot_to_pte_flags 3"

definition rw_page :: "vm_state \<Rightarrow> u64 \<Rightarrow> u64 \<Rightarrow> bool" where
  "rw_page vm v fr \<longleftrightarrow> zone_frame fr \<and> vm_entry vm v = Some (fr OR HEAP_FLAGS)"

lemma heap_flags: "HEAP_FLAGS = 0x8000000000000007"
  unfolding prot_to_pte_flags_def Let_def by simp

lemma bit_heap_flags: "bit HEAP_FLAGS n \<longleftrightarrow> n < 3 \<or> n = 63"
proof -
  have m: "HEAP_FLAGS = mask 3 OR push_bit 63 (mask 1)" unfolding heap_flags by (simp add: mask_eq_exp_minus_1 push_bit_eq_mult)
  show ?thesis unfolding m bit_or_iff bit_mask_iff bit_push_bit_iff possible_bit_word by auto
qed

lemma frame_phys:
  assumes "zone_frame fr"
  shows "phys (fr OR HEAP_FLAGS) v = fr OR (v AND 0xFFF)" "unat (fr OR (v AND 0xFFF)) = unat fr + unat v mod 4096" "(fr OR HEAP_FLAGS) AND PAGE_WRITABLE \<noteq> 0"
proof -
  have f: "4096 dvd unat fr" "unat fr < 2 ^ 52" using assms by (auto simp: zone_frame_def)
  have "PTE_ADDR (fr OR HEAP_FLAGS) = fr" by (rule PTE_ADDR_table[OF f]) (auto simp: bit_heap_flags)
  then show "phys (fr OR HEAP_FLAGS) v = fr OR (v AND 0xFFF)" by (simp add: phys_def)
  have m: "unat (v AND (2 ^ 12 - 1)) = unat v mod 2 ^ 12" by (rule unat_mod_pow2_mask) simp
  obtain q where q: "unat fr = 4096 * q" using f(1) by (elim dvdE)
  have "fr AND (v AND 0xFFF) = 0"
  proof -
    have "unat (fr AND (2 ^ 12 - 1)) = unat fr mod 2 ^ 12" by (rule unat_mod_pow2_mask) simp
    then have "unat (fr AND 0xFFF) = 0" using q by simp
    then have "fr AND 0xFFF = 0" by (simp only: unat_eq_0)
    then show ?thesis using and.left_commute[of fr v "0xFFF"] by simp
  qed
  then have "fr OR (v AND 0xFFF) = fr + (v AND 0xFFF)" by (simp add: disjunctive_add_eq_or)
  then show "unat (fr OR (v AND 0xFFF)) = unat fr + unat v mod 4096" using m f(2) by (simp add: unat_add_noof)
  have "bit ((fr OR HEAP_FLAGS) AND push_bit 1 (mask 1)) 1" unfolding bit_or_iff bit_and_iff bit_heap_flags bit_push_bit_iff bit_mask_iff possible_bit_word by simp
  moreover have "push_bit 1 (mask 1) = (PAGE_WRITABLE :: u64)" by (simp add: mask_eq_exp_minus_1)
  ultimately have "bit ((fr OR HEAP_FLAGS) AND PAGE_WRITABLE) 1" by (simp only:)
  then show "(fr OR HEAP_FLAGS) AND PAGE_WRITABLE \<noteq> 0" by (metis bit_0_eq bot_apply bot_bool_def)
qed

lemma unat_word_addr: "unat ((x :: u64) AND NOT 7) = 8 * (unat x div 8)"
proof -
  have "(x AND NOT 7) AND (x AND 7) = 0" by (rule bit_word_eqI) (unfold bit_and_iff bit_not_iff_eq, simp)
  then have "(x AND NOT 7) + (x AND 7) = (x AND NOT 7) OR (x AND 7)" by (simp only: disjunctive_add_eq_or)
  also have "\<dots> = x" unfolding bit.conj_disj_distrib[symmetric] by simp
  finally have e: "x = (x AND NOT 7) + (x AND 7)" by simp
  have m: "unat (x AND 7) = unat x mod 8" using unat_mod_pow2_mask[of 3 x] by simp
  have "(x AND 7) \<le> x" by (rule word_and_le2)
  moreover have "x AND NOT 7 = x - (x AND 7)" using e by (metis add_diff_cancel_right')
  ultimately have "unat (x AND NOT 7) = unat x - unat x mod 8" using m by (simp only: unat_sub)
  then show ?thesis by (simp add: minus_mod_eq_mult_div)
qed

definition same_vm :: "vm_state \<Rightarrow> vm_state \<Rightarrow> bool" where
  "same_vm vm vm' \<longleftrightarrow> (\<forall>w. vm_entry vm' w = vm_entry vm w) \<and> vm_zone vm' = vm_zone vm \<and> pm_pool (vm_pmap vm') = pm_pool (vm_pmap vm)"

lemma vm_store_spec:
  assumes ok: "vm_ok vm F" and pg: "rw_page vm v fr"
  obtains vm' where "vm_store v b vm = Some vm'" "vm_ok vm' F" "same_vm vm vm'"
    "\<forall>a. mem_byte (vm_mem vm') a = (if a = fr OR (v AND 0xFFF) then b else mem_byte (vm_mem vm) a)"
proof -
  have fr: "zone_frame fr" and e: "vm_entry vm v = Some (fr OR HEAP_FLAGS)" using pg by (simp_all add: rw_page_def)
  let ?x = "fr OR (v AND 0xFFF)"
  let ?m = "set_byte (vm_mem vm) ?x b"
  obtain q where q: "unat fr = 4096 * q" using fr by (auto simp: zone_frame_def elim: dvdE)
  have "unat fr \<le> unat (?x AND NOT 7)" unfolding unat_word_addr frame_phys(2)[OF fr] q by simp
  then have keep: "?m a = vm_mem vm a" if "unat a < unat fr" for a using that by (auto simp: set_byte_def Let_def)
  note w = vm_frame_write[OF ok fr keep]
  have "vm_store v b vm = Some (set_mem ?m vm)" using e frame_phys(1,3)[OF fr] by (simp add: vm_store_def)
  then show thesis using w by (intro that[of "set_mem ?m vm"]) (simp_all add: same_vm_def mem_byte_set_byte)
qed

lemma same_vm_trans: "same_vm a b \<Longrightarrow> same_vm b c \<Longrightarrow> same_vm a c"
  by (simp add: same_vm_def)

lemma same_vm_refl: "same_vm a a"
  by (simp add: same_vm_def)

lemma rw_page_same: "same_vm vm vm' \<Longrightarrow> rw_page vm' v fr = rw_page vm v fr"
  by (simp add: rw_page_def same_vm_def)

text \<open>A sequence of stores to pages of frames that the bytes read do not lie in.\<close>

lemma memcpy_spec:
  assumes "vm_ok vm F" "\<forall>i<n. rw_page vm (d + of_nat i) (fd i)" "\<forall>i<n. rw_page vm (s + of_nat i) (fs i)"
    and "inj_on (\<lambda>i. fd i OR ((d + of_nat i) AND 0xFFF)) {..<n}"
    and "\<forall>i<n. \<forall>j<n. fs i OR ((s + of_nat i) AND 0xFFF) \<noteq> fd j OR ((d + of_nat j) AND 0xFFF)"
  shows "\<exists>vm'. vm_memcpy d s n vm = Some vm' \<and> vm_ok vm' F \<and> same_vm vm vm' \<and>
    (\<forall>i<n. mem_byte (vm_mem vm') (fd i OR ((d + of_nat i) AND 0xFFF)) = mem_byte (vm_mem vm) (fs i OR ((s + of_nat i) AND 0xFFF))) \<and>
    (\<forall>a. (\<forall>i<n. a \<noteq> fd i OR ((d + of_nat i) AND 0xFFF)) \<longrightarrow> mem_byte (vm_mem vm') a = mem_byte (vm_mem vm) a)"
  using assms
proof (induction n arbitrary: vm d s fd fs)
  case 0
  then show ?case by (simp add: same_vm_refl)
next
  case (Suc n)
  let ?D = "\<lambda>i. fd i OR ((d + of_nat i) AND 0xFFF)" and ?S = "\<lambda>i. fs i OR ((s + of_nat i) AND 0xFFF)"
  have p0: "rw_page vm d (fd 0)" "rw_page vm s (fs 0)" using Suc.prems(2,3)[rule_format, of 0] by simp_all
  have ld: "vm_load s vm = Some (mem_byte (vm_mem vm) (?S 0))"
    using p0(2) frame_phys(1)[of "fs 0" s] by (simp add: rw_page_def vm_load_def)
  obtain vm1 where st: "vm_store d (mem_byte (vm_mem vm) (?S 0)) vm = Some vm1" "vm_ok vm1 F" "same_vm vm vm1"
      "\<forall>a. mem_byte (vm_mem vm1) a = (if a = fd 0 OR (d AND 0xFFF) then mem_byte (vm_mem vm) (?S 0) else mem_byte (vm_mem vm) a)"
    by (rule vm_store_spec[OF Suc.prems(1) p0(1)])
  have sh: "x + 1 + of_nat i = x + of_nat (Suc i)" for x :: u64 and i by (simp add: algebra_simps)
  have "\<forall>i<n. rw_page vm1 (d + 1 + of_nat i) (fd (Suc i))" "\<forall>i<n. rw_page vm1 (s + 1 + of_nat i) (fs (Suc i))"
    unfolding rw_page_same[OF st(3)] sh using Suc.prems(2,3) by (simp_all del: of_nat_Suc)
  moreover have "inj_on (\<lambda>i. fd (Suc i) OR ((d + 1 + of_nat i) AND 0xFFF)) {..<n}"
    unfolding sh using Suc.prems(4) by (auto simp: inj_on_def simp del: of_nat_Suc)
  moreover have "\<forall>i<n. \<forall>j<n. fs (Suc i) OR ((s + 1 + of_nat i) AND 0xFFF) \<noteq> fd (Suc j) OR ((d + 1 + of_nat j) AND 0xFFF)"
    unfolding sh using Suc.prems(5) by (simp del: of_nat_Suc)
  ultimately obtain vm' where r: "vm_memcpy (d + 1) (s + 1) n vm1 = Some vm'" "vm_ok vm' F" "same_vm vm1 vm'"
      "\<forall>i<n. mem_byte (vm_mem vm') (?D (Suc i)) = mem_byte (vm_mem vm1) (?S (Suc i))"
      "\<forall>a. (\<forall>i<n. a \<noteq> ?D (Suc i)) \<longrightarrow> mem_byte (vm_mem vm') a = mem_byte (vm_mem vm1) a"
    using Suc.IH[OF st(2), of "d + 1" "\<lambda>i. fd (Suc i)" "s + 1" "\<lambda>i. fs (Suc i)"] unfolding sh by blast
  have d0: "fd 0 OR (d AND 0xFFF) = ?D 0" by simp
  have m1: "mem_byte (vm_mem vm1) a = (if a = ?D 0 then mem_byte (vm_mem vm) (?S 0) else mem_byte (vm_mem vm) a)" for a
    using st(4) unfolding d0 by blast
  have c0: "mem_byte (vm_mem vm') (?D 0) = mem_byte (vm_mem vm) (?S 0)"
  proof -
    have "?D 0 \<noteq> ?D (Suc i)" if "i < n" for i using inj_onD[OF Suc.prems(4), of 0 "Suc i"] that by auto
    then show ?thesis using r(5) m1[of "?D 0"] by simp
  qed
  have "mem_byte (vm_mem vm') (?D i) = mem_byte (vm_mem vm) (?S i)" if i: "i < Suc n" for i
  proof (cases i)
    case (Suc j)
    then have "mem_byte (vm_mem vm') (?D i) = mem_byte (vm_mem vm1) (?S i)" using r(4) i by simp
    moreover have "?S i \<noteq> ?D 0" using Suc.prems(5) i by blast
    ultimately show ?thesis unfolding m1 by simp
  qed (use c0 in simp)
  moreover have "mem_byte (vm_mem vm') a = mem_byte (vm_mem vm) a" if a: "\<forall>i<Suc n. a \<noteq> ?D i" for a
  proof -
    have "\<forall>i<n. a \<noteq> ?D (Suc i)" using a by blast
    then have "mem_byte (vm_mem vm') a = mem_byte (vm_mem vm1) a" using r(5) by blast
    moreover have "a \<noteq> ?D 0" using a by blast
    ultimately show ?thesis unfolding m1 by simp
  qed
  ultimately show ?case using ld st(1) r(1,2) same_vm_trans[OF st(3) r(3)] by (intro exI[of _ vm']) simp
qed

lemma memset_spec:
  assumes "vm_ok vm F" "\<forall>i<n. rw_page vm (d + of_nat i) (fd i)"
  shows "\<exists>vm'. vm_memset d b n vm = Some vm' \<and> vm_ok vm' F \<and> same_vm vm vm' \<and>
    (\<forall>a. mem_byte (vm_mem vm') a = (if \<exists>i<n. a = fd i OR ((d + of_nat i) AND 0xFFF) then b else mem_byte (vm_mem vm) a))"
  using assms
proof (induction n arbitrary: vm d fd)
  case 0
  then show ?case by (simp add: same_vm_refl)
next
  case (Suc n)
  let ?D = "\<lambda>i. fd i OR ((d + of_nat i) AND 0xFFF)"
  have p0: "rw_page vm d (fd 0)" using Suc.prems(2)[rule_format, of 0] by simp
  obtain vm1 where st: "vm_store d b vm = Some vm1" "vm_ok vm1 F" "same_vm vm vm1"
      "\<forall>a. mem_byte (vm_mem vm1) a = (if a = fd 0 OR (d AND 0xFFF) then b else mem_byte (vm_mem vm) a)"
    by (rule vm_store_spec[OF Suc.prems(1) p0(1)])
  have sh: "x + 1 + of_nat i = x + of_nat (Suc i)" for x :: u64 and i by (simp add: algebra_simps)
  have "\<forall>i<n. rw_page vm1 (d + 1 + of_nat i) (fd (Suc i))" unfolding rw_page_same[OF st(3)] sh using Suc.prems(2) by (simp del: of_nat_Suc)
  then obtain vm' where r: "vm_memset (d + 1) b n vm1 = Some vm'" "vm_ok vm' F" "same_vm vm1 vm'"
      "\<forall>a. mem_byte (vm_mem vm') a = (if \<exists>i<n. a = ?D (Suc i) then b else mem_byte (vm_mem vm1) a)"
    using Suc.IH[OF st(2), of "d + 1" "\<lambda>i. fd (Suc i)"] unfolding sh by blast
  have d0: "fd 0 OR (d AND 0xFFF) = ?D 0" by simp
  have "mem_byte (vm_mem vm') a = (if \<exists>i<Suc n. a = ?D i then b else mem_byte (vm_mem vm) a)" for a
    unfolding r(4)[rule_format] st(4)[rule_format] d0 Ex_less_Suc2 by auto
  then show ?case using st(1) r(1,2) same_vm_trans[OF st(3) r(3)] by (intro exI[of _ vm']) simp
qed

subsection \<open>What the calls do to memory\<close>

lemma vm_unmap_keeps:
  assumes ok: "vm_ok vm F"
  shows "pm_pool (vm_pmap (vm_unmap_page (cr3 vm) v vm)) = pm_pool (vm_pmap vm)"
    "2 ^ 32 \<le> unat a \<Longrightarrow> vm_mem (vm_unmap_page (cr3 vm) v vm) a = vm_mem vm a"
proof -
  have pt: "pt_ok (vm_pmap vm) (cr3 vm)" using ok by (simp add: vm_ok_def vm_inv_def)
  show "pm_pool (vm_pmap (vm_unmap_page (cr3 vm) v vm)) = pm_pool (vm_pmap vm)" by (simp add: vm_unmap_page_def pmap_unmap_page_def Let_def)
  assume a: "2 ^ 32 \<le> unat a"
  show "vm_mem (vm_unmap_page (cr3 vm) v vm) a = vm_mem vm a"
  proof (cases "pt_walk (pm_mem (vm_pmap vm)) (cr3 vm) (dir_path v)")
    case None
    then have "pmap_unmap_page (vm_pmap vm) (cr3 vm) v = vm_pmap vm" by (auto simp: pmap_unmap_page_def Let_def split: if_splits)
    then show ?thesis by (simp add: vm_mem_def vm_unmap_page_def)
  next
    case (Some t)
    have "owned (pm_pool (vm_pmap vm)) t" by (rule pt_okD(2)[OF pt path_dir(1) Some])
    moreover have "zone_frame 0x100000000" by (simp add: zone_frame_def)
    moreover have "unat (idx_pt v) < 512" by (rule idx_less)
    ultimately have "unat (slot t (idx_pt v)) < unat a" using table_below_frame[OF pt_okD(1)[OF pt], of t "idx_pt v" "0x100000000"] a by simp
    then have "a \<noteq> slot t (idx_pt v)" by auto
    moreover have "cr3 vm = 0 \<or> pmap_unmap_page (vm_pmap vm) (cr3 vm) v = (vm_pmap vm)\<lparr>pm_mem := (pm_mem (vm_pmap vm))(slot t (idx_pt v) := 0)\<rparr>"
      using Some by (auto simp: pmap_unmap_page_def Let_def split: if_splits)
    ultimately show ?thesis by (auto simp: vm_mem_def vm_unmap_page_def pmap_unmap_page_def)
  qed
qed

lemma unmap_fold_pool:
  "vm_ok vm F \<Longrightarrow> pm_pool (vm_pmap (fold (\<lambda>v vm. vm_unmap_page (cr3 vm) v vm) vs vm)) = pm_pool (vm_pmap vm)"
  by (induction vs arbitrary: vm) (simp_all add: vm_unmap_spec(1) vm_unmap_keeps(1))

lemma unmap_fold_mem:
  "vm_ok vm F \<Longrightarrow> 2 ^ 32 \<le> unat a \<Longrightarrow> vm_mem (fold (\<lambda>v vm. vm_unmap_page (cr3 vm) v vm) vs vm) a = vm_mem vm a"
  by (induction vs arbitrary: vm) (simp_all add: vm_unmap_spec(1) vm_unmap_keeps(2))

lemma same_page_low:
  assumes "unat v < 2 ^ 47" "unat w < 2 ^ 47"
  shows "same_page v w \<longleftrightarrow> unat v div 4096 = unat w div 4096"
  using assms unfolding same_page_mod by simp

lemma entry_same_page: "same_page v w \<Longrightarrow> vm_entry vm v = vm_entry vm w"
  unfolding pt_entry_def same_page_idx by simp

lemma in_frame_phys: "zone_frame fr \<Longrightarrow> in_frame fr ((fr OR (v AND 0xFFF)) AND NOT 7)"
  unfolding in_frame_def unat_word_addr frame_phys(2) by (auto simp: zone_frame_def elim!: dvdE)

lemma in_frame_inj: "zone_frame f \<Longrightarrow> zone_frame g \<Longrightarrow> in_frame f a \<Longrightarrow> in_frame g a \<Longrightarrow> f = g"
proof -
  assume h: "zone_frame f" "zone_frame g" "in_frame f a" "in_frame g a"
  obtain i where i: "unat f = 4096 * i" using h(1) by (auto simp: zone_frame_def)
  obtain j where j: "unat g = 4096 * j" using h(2) by (auto simp: zone_frame_def)
  have "i = j" using h(3,4) unfolding in_frame_def i j by linarith
  then show "f = g" using i j by (simp add: word_unat_eq_iff)
qed

lemma heap_slot:
  assumes ok: "heap_ok st" and i: "libc_mmap_inited st" and e: "e \<in> set (alloc_table st)" "\<not> ae_active e"
  shows "mmap_alloc_slot (libc_mmap_ctx st) \<noteq> None"
proof
  let ?c = "libc_mmap_ctx st"
  let ?f = "\<lambda>k. (lo (mc_areas ?c ! k), hi (mc_areas ?c ! k))"
  assume "mmap_alloc_slot ?c = None"
  then have all: "\<forall>k<256. ma_active (mc_areas ?c ! k)" using mmap_alloc_slot_None[OF heap_okD(2)[OF ok i]] by blast
  have "inj_on ?f {..<256}"
  proof (rule inj_onI)
    fix k l assume h: "k \<in> {..<256 :: nat}" "l \<in> {..<256 :: nat}" "?f k = ?f l"
    show "k = l"
    proof (rule ccontr)
      assume "k \<noteq> l"
      then show False using ctx_okD(2,3)[OF heap_okD(2)[OF ok i]] h all by (fastforce simp: areas_apart_def area_ok_def)
    qed
  qed
  then have "card (?f ` {..<256}) = 256" by (simp add: card_image)
  moreover have "ranges ?c = ?f ` {..<256}" using all by (auto simp: ranges_def)
  ultimately have "card (block ` live (alloc_table st)) = 256" using heap_okD(3)[OF ok i] by simp
  moreover have "card (block ` live (alloc_table st)) \<le> card (live (alloc_table st))" by (rule card_image_le) (simp add: live_def)
  moreover have "card (live (alloc_table st)) < card (set (alloc_table st))" by (rule psubset_card_mono) (use e in \<open>auto simp: live_def\<close>)
  moreover have "card (set (alloc_table st)) \<le> 256" using card_length[of "alloc_table st"] entries_okD(1)[OF heap_okD(1)[OF ok]] by simp
  ultimately show False by simp
qed

text \<open>The frame of a byte of a block is not free; then new blocks leave it alone.\<close>

definition backed :: "vm_state \<Rightarrow> (nat \<Rightarrow> nat list) \<Rightarrow> alloc_entry \<Rightarrow> bool" where
  "backed vm F e \<longleftrightarrow> (\<forall>x < unat (ae_size e). \<exists>fr. rw_page vm (ae_addr e + of_nat x) fr \<and> frame_idx (vm_zone vm) fr \<notin> free_frames F)"

definition byte_of :: "vm_state \<Rightarrow> alloc_entry \<Rightarrow> nat \<Rightarrow> u8 option" where
  "byte_of vm e x = vm_load (ae_addr e + of_nat x) vm"

definition heap_vm :: "libc_state \<Rightarrow> vm_state" where
  "heap_vm st = mm_vm (lc_mm st)"

text \<open>The resources a block of some size needs: table entry, address range, frames and table pages.\<close>

definition heap_room :: "libc_state \<Rightarrow> (nat \<Rightarrow> nat list) \<Rightarrow> u64 \<Rightarrow> nat \<Rightarrow> bool" where
  "heap_room st F sz k \<longleftrightarrow> sz \<noteq> 0 \<and> unat sz \<le> 2 ^ 40 \<and> (\<exists>e \<in> set (alloc_table st). \<not> ae_active e) \<and>
     mmap_find_free_area (libc_mmap_ctx (libc_mmap_init st)) (align_page sz) \<noteq> 0 \<and>
     unat (align_page sz) div 4096 \<le> card (free_frames F) \<and>
     pool_room (pm_pool (vm_pmap (heap_vm st))) (3 * (unat (align_page sz) div 4096) + k)"

lemma malloc_maps:
  assumes ok: "heap_ok st" "vm_ok (heap_vm st) F" and room: "heap_room st F sz k"
  shows "\<exists>q st' F' fr. malloc hw sz st = Some (q, st') \<and> q \<noteq> 0 \<and> vm_ok (heap_vm st') F' \<and>
     inj_on (\<lambda>i. frame_idx (vm_zone (heap_vm st)) (fr i)) {0..<unat (align_page sz) div 4096} \<and>
     (\<lambda>i. frame_idx (vm_zone (heap_vm st)) (fr i)) ` {0..<unat (align_page sz) div 4096} \<subseteq> free_frames F \<and>
     free_frames F' = free_frames F - (\<lambda>i. frame_idx (vm_zone (heap_vm st)) (fr i)) ` {0..<unat (align_page sz) div 4096} \<and>
     (\<forall>i < unat (align_page sz) div 4096. rw_page (heap_vm st') (page_at q i) (fr i)) \<and>
     (\<forall>w. (\<forall>i < unat (align_page sz) div 4096. \<not> same_page w (page_at q i)) \<longrightarrow> vm_entry (heap_vm st') w = vm_entry (heap_vm st) w) \<and>
     (\<forall>a. 2 ^ 32 \<le> unat a \<longrightarrow> vm_mem (heap_vm st') a =
        (if \<exists>i < unat (align_page sz) div 4096. in_frame (fr i) a then 0 else vm_mem (heap_vm st) a)) \<and>
     base_pfn (vm_zone (heap_vm st')) = base_pfn (vm_zone (heap_vm st)) \<and> pool_room (pm_pool (vm_pmap (heap_vm st'))) k"
proof -
  have sz: "sz \<noteq> 0" "unat sz \<le> 2 ^ 40" using room by (simp_all add: heap_room_def)
  define st1 where "st1 = libc_mmap_init (alloc_table_init st)"
  note t = alloc_table_init_ok[OF ok(1)] and c = libc_mmap_init_ok[OF alloc_table_init_ok(1)[OF ok(1)], folded st1_def]
  have mm: "lc_mm st1 = lc_mm st" using c(3) t(3) by simp
  have cx: "libc_mmap_ctx st1 = libc_mmap_ctx (libc_mmap_init st)" using t(4,6) by (simp add: st1_def libc_mmap_init_def)
  obtain e0 where e0: "e0 \<in> set (alloc_table st)" "\<not> ae_active e0" using room by (auto simp: heap_room_def)
  have "\<exists>e \<in> set (alloc_table st1). \<not> ae_active e"
    using e0 c(2) by (cases "alloc_table_inited st") (force simp: alloc_table_init_def)+
  then obtain e where e: "e \<in> set (alloc_table st1)" "\<not> ae_active e" by blast
  then obtain j where j: "find_idx (\<lambda>e. \<not> ae_active e) (alloc_table st1) = Some j" using find_idx_None[of "\<lambda>e. \<not> ae_active e" "alloc_table st1"] by (metis option.exhaust)
  have nb: "\<not> mmap_bad_args 0 sz (PROT_READ OR PROT_WRITE) MAP_ANONYMOUS 0" using sz by (simp add: mmap_bad_args_def word_less_nat_alt)
  have B: "unat (0 :: u64) + unat (align_page sz) < 2 ^ 64" using align_page_bounds(2)[of sz] sz by simp
  have r: "mmap_find_free_area (libc_mmap_ctx st1) (align_page sz) \<noteq> 0" "unat (align_page sz) div 4096 \<le> card (free_frames F)"
      "pool_room (pm_pool (vm_pmap (mm_vm (lc_mm st1)))) (3 * (unat (align_page sz) div 4096) + k)"
    using room by (simp_all add: heap_room_def cx heap_vm_def mm)
  have fl: "MAP_ANONYMOUS AND MAP_ANONYMOUS \<noteq> (0 :: u32)" "MAP_ANONYMOUS AND MAP_FIXED = (0 :: u32) \<or> (0 :: u64) = 0" by simp_all
  have vok: "vm_ok (mm_vm (lc_mm st1)) F" using ok(2) mm by (simp add: heap_vm_def)
  from mmap_fresh[OF heap_okD(2)[OF c(1) c(4)] vok nb fl B heap_slot[OF c(1) c(4) e] r, of hw "- 1"]
  obtain m ctx' st2 F' fr where
    h: "mmap_do_mmap hw (libc_mmap_ctx st1) 0 sz (PROT_READ OR PROT_WRITE) MAP_ANONYMOUS (- 1) 0 (lc_mm st1) = Some (m, ctx', st2)" "m \<noteq> - 1"
     "vm_ok (mm_vm st2) F'" "inj_on (\<lambda>i. frame_idx (vm_zone (mm_vm (lc_mm st1))) (fr i)) {0..<unat (align_page sz) div 4096}"
     "(\<lambda>i. frame_idx (vm_zone (mm_vm (lc_mm st1))) (fr i)) ` {0..<unat (align_page sz) div 4096} \<subseteq> free_frames F"
     "free_frames F' = free_frames F - (\<lambda>i. frame_idx (vm_zone (mm_vm (lc_mm st1))) (fr i)) ` {0..<unat (align_page sz) div 4096}"
     "\<forall>i < unat (align_page sz) div 4096. zone_frame (fr i) \<and> vm_entry (mm_vm st2) (page_at m i) = Some (fr i OR prot_to_pte_flags (PROT_READ OR PROT_WRITE))"
     "\<forall>w. (\<forall>i < unat (align_page sz) div 4096. \<not> same_page w (page_at m i)) \<longrightarrow> vm_entry (mm_vm st2) w = vm_entry (mm_vm (lc_mm st1)) w"
     "\<forall>a. 2 ^ 32 \<le> unat a \<longrightarrow> vm_mem (mm_vm st2) a =
        (if \<exists>i < unat (align_page sz) div 4096. in_frame (fr i) a then 0 else vm_mem (mm_vm (lc_mm st1)) a)"
     "base_pfn (vm_zone (mm_vm st2)) = base_pfn (vm_zone (mm_vm (lc_mm st1)))" "pool_room (pm_pool (vm_pmap (mm_vm st2))) k"
    by (elim exE conjE) (rule that; assumption)
  have m0: "m \<noteq> 0" using heap_okD(2)[OF c(1) c(4)] h(1) by (cases rule: mmap_block) (use h(2) in simp_all)
  let ?st = "st1\<lparr>libc_mmap_ctx := ctx', lc_mm := st2, alloc_table := (alloc_table st1)[j := \<lparr>ae_addr = m, ae_size = sz, ae_active = True\<rparr>]\<rparr>"
  have run: "malloc hw sz st = Some (m, ?st)"
    using sz(1) h(1,2) m0 j by (simp add: malloc_def Let_def st1_def[symmetric] alloc_table_insert_def)
  have v: "heap_vm ?st = mm_vm st2" "heap_vm st = mm_vm (lc_mm st1)" by (simp_all add: heap_vm_def mm)
  have p3: "(PROT_READ OR PROT_WRITE :: u32) = 3" by simp
  show ?thesis
    by (rule exI[of _ m], rule exI[of _ ?st], rule exI[of _ F'], rule exI[of _ fr], intro conjI)
      (rule run m0 | unfold v rw_page_def | rule h(3-6) h(7)[unfolded p3] h(8-11))+
qed

lemma block_byte:
  assumes ok: "heap_ok st" and e: "e \<in> live (alloc_table st)" and x: "x < unat (ae_size e)"
  shows "unat (ae_addr e + of_nat x) = unat (ae_addr e) + x" "unat (ae_addr e) + x < snd (block e)" "unat (ae_addr e) + x < 2 ^ 47"
    "x div 4096 < unat (align_page (ae_size e)) div 4096" "same_page (ae_addr e + of_nat x) (page_at (ae_addr e) (x div 4096))"
proof -
  note b = entries_okD(2)[OF heap_okD(1)[OF ok] e]
  have l: "unat (ae_size e) + 4095 < 2 ^ 64" using b by simp
  note g = align_page_ge[OF l] and top = heap_okD(5)[OF ok e]
  obtain n where n: "unat (align_page (ae_size e)) = 4096 * n" using align_page_dvd[OF l] by (elim dvdE)
  obtain q where q: "unat (ae_addr e) = 4096 * q" using heap_ok_aligned(1)[OF ok e] by (elim dvdE)
  show lt: "unat (ae_addr e) + x < snd (block e)" using g x by (simp add: block_def)
  then show "unat (ae_addr e) + x < 2 ^ 47" using top by simp
  then have u: "unat (of_nat x :: u64) = x" using unat_of_nat[of x, where 'a = 64] by simp
  show v: "unat (ae_addr e + of_nat x) = unat (ae_addr e) + x" using lt top u by (simp add: unat_add_noof)
  show i: "x div 4096 < unat (align_page (ae_size e)) div 4096" using g x n by simp
  have p: "unat (page_at (ae_addr e) (x div 4096)) = unat (ae_addr e) + 4096 * (x div 4096)" using lt top by (intro unat_page_at) simp
  show "same_page (ae_addr e + of_nat x) (page_at (ae_addr e) (x div 4096))"
    by (rule same_page_div) (unfold v p q, simp)
qed

lemma other_page:
  assumes ok: "heap_ok st" and e: "e \<in> live (alloc_table st)" "f \<in> live (alloc_table st)" "e \<noteq> f"
    and x: "x < unat (ae_size e)" and w: "fst (block f) \<le> unat w" "unat w < snd (block f)"
  shows "\<not> same_page (ae_addr e + of_nat x) w"
proof -
  note b = block_byte[OF ok e(1) x]
  have dv: "4096 dvd snd (block g)" "4096 dvd fst (block g)" if "g \<in> live (alloc_table st)" for g
  proof -
    have "unat (ae_size g) + 4095 < 2 ^ 64" using entries_okD(2)[OF heap_okD(1)[OF ok] that] by simp
    from align_page_dvd[OF this] heap_ok_aligned(1)[OF ok that] show "4096 dvd snd (block g)" "4096 dvd fst (block g)" by (simp_all add: block_def)
  qed
  have w47: "unat w < 2 ^ 47" using w(2) heap_okD(5)[OF ok e(2)] by simp
  have bd: "fst (block e) \<le> unat (ae_addr e) + x" "unat (ae_addr e) + x < snd (block e)" using b(2) by (simp_all add: block_def)
  have "(unat (ae_addr e) + x) div 4096 \<noteq> unat w div 4096"
  proof -
    obtain s where s: "snd (block e) = 4096 * s" using dv(1)[OF e(1)] by (elim dvdE)
    obtain t where t: "snd (block f) = 4096 * t" using dv(1)[OF e(2)] by (elim dvdE)
    obtain s' where s': "fst (block e) = 4096 * s'" using dv(2)[OF e(1)] by (elim dvdE)
    obtain t' where t': "fst (block f) = 4096 * t'" using dv(2)[OF e(2)] by (elim dvdE)
    have "(unat (ae_addr e) + x) div 4096 < s" "s' \<le> (unat (ae_addr e) + x) div 4096" "unat w div 4096 < t" "t' \<le> unat w div 4096"
      using bd w unfolding s t s' t' by simp_all
    moreover have "s \<le> t' \<or> t \<le> s'" using heap_ok_apart[OF ok e] unfolding blocks_apart_def s t s' t' by simp
    ultimately show ?thesis by linarith
  qed
  then show ?thesis unfolding same_page_low[OF b(3)[folded b(1)] w47] b(1) .
qed

lemma page_in_block:
  assumes ok: "heap_ok st" and e: "e \<in> live (alloc_table st)" and i: "i < unat (align_page (ae_size e)) div 4096"
  shows "fst (block e) \<le> unat (page_at (ae_addr e) i)" "unat (page_at (ae_addr e) i) < snd (block e)"
proof -
  have l: "unat (ae_size e) + 4095 < 2 ^ 64" using entries_okD(2)[OF heap_okD(1)[OF ok] e] by simp
  obtain n where n: "unat (align_page (ae_size e)) = 4096 * n" using align_page_dvd[OF l] by (elim dvdE)
  have "unat (page_at (ae_addr e) i) = unat (ae_addr e) + 4096 * i" using heap_okD(5)[OF ok e] i n by (intro unat_page_at) (simp add: block_def)
  then show "fst (block e) \<le> unat (page_at (ae_addr e) i)" "unat (page_at (ae_addr e) i) < snd (block e)" using i n by (simp_all add: block_def)
qed

lemma vm_load_page: "rw_page vm v fr \<Longrightarrow> vm_load v vm = Some (mem_byte (vm_mem vm) (fr OR (v AND 0xFFF)))"
  using frame_phys(1)[of fr v] by (simp add: rw_page_def vm_load_def)

text \<open>
  A new block: its frames are new, its bytes are 0, and other blocks keep their bytes. The last facts say that the
  bytes of the new block lie apart from one another and from those of every other block.
\<close>

lemma malloc_block:
  assumes ok: "heap_ok st" "vm_ok (heap_vm st) F" and room: "heap_room st F sz k"
  obtains q st' F' fr where "malloc hw sz st = Some (q, st')" "q \<noteq> 0" "heap_ok st'" "vm_ok (heap_vm st') F'"
    "live (alloc_table st') = insert \<lparr>ae_addr = q, ae_size = sz, ae_active = True\<rparr> (live (alloc_table st))"
    "\<lparr>ae_addr = q, ae_size = sz, ae_active = True\<rparr> \<notin> live (alloc_table st)"
    "backed (heap_vm st') F' \<lparr>ae_addr = q, ae_size = sz, ae_active = True\<rparr>"
    "\<forall>x < unat sz. byte_of (heap_vm st') \<lparr>ae_addr = q, ae_size = sz, ae_active = True\<rparr> x = Some 0"
    "\<forall>f \<in> live (alloc_table st). backed (heap_vm st) F f \<longrightarrow> backed (heap_vm st') F' f \<and>
       (\<forall>x < unat (ae_size f). byte_of (heap_vm st') f x = byte_of (heap_vm st) f x)"
    "pool_room (pm_pool (vm_pmap (heap_vm st'))) k"
    "\<forall>x < unat sz. rw_page (heap_vm st') (q + of_nat x) (fr (x div 4096))"
    "inj_on (\<lambda>x. fr (x div 4096) OR ((q + of_nat x) AND 0xFFF)) {..<unat sz}"
    "\<forall>f \<in> live (alloc_table st). backed (heap_vm st) F f \<longrightarrow> (\<forall>x < unat (ae_size f). \<exists>g. rw_page (heap_vm st') (ae_addr f + of_nat x) g \<and>
       (\<forall>y < unat sz. g OR ((ae_addr f + of_nat x) AND 0xFFF) \<noteq> fr (y div 4096) OR ((q + of_nat y) AND 0xFFF)))"
    "card (free_frames F') + unat (align_page sz) div 4096 = card (free_frames F)"
proof -
  let ?np = "unat (align_page sz) div 4096"
  from malloc_maps[OF ok room, of hw] obtain q st' F' fr where
    h: "malloc hw sz st = Some (q, st')" "q \<noteq> 0" "vm_ok (heap_vm st') F'"
     "inj_on (\<lambda>i. frame_idx (vm_zone (heap_vm st)) (fr i)) {0..<?np}"
     "(\<lambda>i. frame_idx (vm_zone (heap_vm st)) (fr i)) ` {0..<?np} \<subseteq> free_frames F"
     "free_frames F' = free_frames F - (\<lambda>i. frame_idx (vm_zone (heap_vm st)) (fr i)) ` {0..<?np}"
     "\<forall>i < ?np. rw_page (heap_vm st') (page_at q i) (fr i)"
     "\<forall>w. (\<forall>i < ?np. \<not> same_page w (page_at q i)) \<longrightarrow> vm_entry (heap_vm st') w = vm_entry (heap_vm st) w"
     "\<forall>a. 2 ^ 32 \<le> unat a \<longrightarrow> vm_mem (heap_vm st') a = (if \<exists>i < ?np. in_frame (fr i) a then 0 else vm_mem (heap_vm st) a)"
     "base_pfn (vm_zone (heap_vm st')) = base_pfn (vm_zone (heap_vm st))" "pool_room (pm_pool (vm_pmap (heap_vm st'))) k"
    by (elim exE conjE) (rule that; assumption)
  let ?e = "\<lparr>ae_addr = q, ae_size = sz, ae_active = True\<rparr>" and ?idx = "frame_idx (vm_zone (heap_vm st))"
  have idx: "frame_idx (vm_zone (heap_vm st')) = ?idx" using h(10) by (simp add: frame_idx_def fun_eq_iff)
  have ok': "heap_ok st'" by (rule malloc_spec(1)[OF ok(1) h(1)])
  have lv: "live (alloc_table st') = insert ?e (live (alloc_table st))" "?e \<notin> live (alloc_table st)" using malloc_spec(3)[OF ok(1) h(1,2)] by blast+
  have el: "?e \<in> live (alloc_table st')" using lv by simp
  have bb: "x div 4096 < ?np" "same_page (q + of_nat x) (page_at q (x div 4096))" "unat (q + of_nat x) = unat q + x" if "x < unat sz" for x
    using block_byte(1,4,5)[OF ok' el, of x] that by simp_all
  have rw: "rw_page (heap_vm st') (q + of_nat x) (fr (x div 4096))" if "x < unat sz" for x
    using h(7)[rule_format, OF bb(1)[OF that]] entry_same_page[OF bb(2)[OF that]] by (simp add: rw_page_def)
  have zf: "zone_frame (fr i)" if "i < ?np" for i using h(7) that by (simp add: rw_page_def)
  have f32: "2 ^ 32 \<le> unat ((g OR (v AND 0xFFF)) AND NOT 7)" if "zone_frame g" for g v
    using in_frame_phys[OF that, of v] that by (simp add: in_frame_def zone_frame_def)
  have zero: "byte_of (heap_vm st') ?e x = Some 0" if "x < unat sz" for x
  proof -
    let ?a = "fr (x div 4096) OR ((q + of_nat x) AND 0xFFF)"
    note i = bb(1)[OF that]
    have "vm_mem (heap_vm st') (?a AND NOT 7) = 0"
      using h(9)[rule_format, OF f32[OF zf[OF i]]] in_frame_phys[OF zf[OF i]] i by auto
    then show ?thesis unfolding byte_of_def by (simp add: vm_load_page[OF rw[OF that]] mem_byte_def)
  qed
  have old: "rw_page (heap_vm st') (ae_addr f + of_nat x) g \<and> ?idx g \<notin> free_frames F' \<and> byte_of (heap_vm st') f x = byte_of (heap_vm st) f x \<and>
      (\<forall>y < unat sz. g OR ((ae_addr f + of_nat x) AND 0xFFF) \<noteq> fr (y div 4096) OR ((q + of_nat y) AND 0xFFF))"
    if f: "f \<in> live (alloc_table st)" and x: "x < unat (ae_size f)" and g: "rw_page (heap_vm st) (ae_addr f + of_nat x) g" "?idx g \<notin> free_frames F" for f x g
  proof -
    let ?v = "ae_addr f + of_nat x"
    have zg: "zone_frame g" using g(1) by (simp add: rw_page_def)
    have fl: "f \<in> live (alloc_table st')" "f \<noteq> ?e" using f lv by auto
    have "\<not> same_page ?v (page_at q i)" if "i < ?np" for i
      using other_page[OF ok' fl(1) el fl(2) x page_in_block[OF ok' el, of i]] that by simp
    then have en: "vm_entry (heap_vm st') ?v = vm_entry (heap_vm st) ?v" using h(8) by blast
    then have r: "rw_page (heap_vm st') ?v g" using g(1) by (simp add: rw_page_def)
    have ne: "g \<noteq> fr i" if "i < ?np" for i
    proof -
      have "?idx (fr i) \<in> free_frames F" using h(5) that by (auto simp: image_subset_iff)
      then show ?thesis using g(2) by blast
    qed
    have nf: "\<not> in_frame (fr i) ((g OR (?v AND 0xFFF)) AND NOT 7)" if "i < ?np" for i
      using in_frame_inj[OF zg zf[OF that] in_frame_phys[OF zg]] ne[OF that] by blast
    have "vm_mem (heap_vm st') ((g OR (?v AND 0xFFF)) AND NOT 7) = vm_mem (heap_vm st) ((g OR (?v AND 0xFFF)) AND NOT 7)"
      using h(9)[rule_format, OF f32[OF zg]] nf by auto
    then have "byte_of (heap_vm st') f x = byte_of (heap_vm st) f x"
      unfolding byte_of_def vm_load_page[OF r] vm_load_page[OF g(1)] by (simp add: mem_byte_def)
    moreover have "g OR (?v AND 0xFFF) \<noteq> fr (y div 4096) OR ((q + of_nat y) AND 0xFFF)" if "y < unat sz" for y
      using in_frame_phys[OF zf[OF bb(1)[OF that]], of "q + of_nat y"] nf[OF bb(1)[OF that]] by auto
    ultimately show ?thesis using r g(2) h(6) by blast
  qed
  have inj: "inj_on (\<lambda>x. fr (x div 4096) OR ((q + of_nat x) AND 0xFFF)) {..<unat sz}"
  proof (rule inj_onI)
    fix x y assume xy: "x \<in> {..<unat sz}" "y \<in> {..<unat sz}"
      and eq: "fr (x div 4096) OR ((q + of_nat x) AND 0xFFF) = fr (y div 4096) OR ((q + of_nat y) AND 0xFFF)"
    have l: "x < unat sz" "y < unat sz" using xy by simp_all
    note i = bb(1)[OF l(1)] bb(1)[OF l(2)]
    have fe: "fr (x div 4096) = fr (y div 4096)"
      using in_frame_inj[OF zf[OF i(1)] zf[OF i(2)] in_frame_phys[OF zf[OF i(1)]]] in_frame_phys[OF zf[OF i(2)], of "q + of_nat y"] eq by metis
    then have d: "x div 4096 = y div 4096" using inj_onD[OF h(4)] i by simp
    obtain a where a: "unat q = 4096 * a" using heap_ok_aligned(1)[OF ok' el] by (auto elim: dvdE)
    have "unat (q + of_nat x) mod 4096 = unat (q + of_nat y) mod 4096"
      using arg_cong[OF eq, of unat] unfolding frame_phys(2)[OF zf[OF i(1)]] frame_phys(2)[OF zf[OF i(2)]] fe by simp
    then have "x mod 4096 = y mod 4096" unfolding bb(3)[OF l(1)] bb(3)[OF l(2)] a by simp
    then show "x = y" using d by (metis div_mult_mod_eq)
  qed
  have bk: "backed (heap_vm st') F' ?e"
  proof -
    have "?idx (fr i) \<notin> free_frames F'" if "i < ?np" for i unfolding h(6) using that by auto
    then have "rw_page (heap_vm st') (q + of_nat x) (fr (x div 4096)) \<and> ?idx (fr (x div 4096)) \<notin> free_frames F'" if "x < unat sz" for x
      using rw[OF that] bb(1)[OF that] by blast
    then show ?thesis unfolding backed_def idx alloc_entry.simps by blast
  qed
  have "0 < ?np" using bb(1)[of 0] room by (simp add: heap_room_def unat_gt_0)
  then have "finite (free_frames F)" "card (free_frames F) \<ge> ?np" using room by (auto simp: heap_room_def intro: card_ge_0_finite)
  moreover have "card ((\<lambda>i. ?idx (fr i)) ` {0..<?np}) = ?np" using card_image[OF h(4)] by simp
  ultimately have cd: "card (free_frames F') + ?np = card (free_frames F)" unfolding h(6) using card_Diff_subset[OF _ h(5)] by simp
  have all: "backed (heap_vm st') F' f \<and> (\<forall>x < unat (ae_size f). byte_of (heap_vm st') f x = byte_of (heap_vm st) f x)"
    if "f \<in> live (alloc_table st)" "backed (heap_vm st) F f" for f
    using that(2) old[OF that(1)] unfolding backed_def idx by blast
  have apart: "\<exists>g. rw_page (heap_vm st') (ae_addr f + of_nat x) g \<and>
       (\<forall>y < unat sz. g OR ((ae_addr f + of_nat x) AND 0xFFF) \<noteq> fr (y div 4096) OR ((q + of_nat y) AND 0xFFF))"
    if "f \<in> live (alloc_table st)" "backed (heap_vm st) F f" "x < unat (ae_size f)" for f x
    using that(2,3) old[OF that(1,3)] unfolding backed_def by blast
  show thesis
    by (rule that[of q st' F' fr]) (use h(1,2,3,11) ok' lv zero bk all rw inj apart cd in blast)+
qed

text \<open>A freed block is no longer mapped, other blocks keep their bytes, and the zone of frames is as it was.\<close>

lemma free_block:
  assumes ok: "heap_ok st" "vm_ok (heap_vm st) F" and e: "e \<in> live (alloc_table st)"
  obtains st' where "free hw (ae_addr e) st = Some st'" "heap_ok st'" "live (alloc_table st') = live (alloc_table st) - {e}"
    "vm_ok (heap_vm st') F" "vm_zone (heap_vm st') = vm_zone (heap_vm st)" "\<forall>x < unat (ae_size e). byte_of (heap_vm st') e x = None"
    "\<forall>f \<in> live (alloc_table st). f \<noteq> e \<and> backed (heap_vm st) F f \<longrightarrow> backed (heap_vm st') F f \<and>
       (\<forall>x < unat (ae_size f). byte_of (heap_vm st') f x = byte_of (heap_vm st) f x)"
proof -
  let ?p = "ae_addr e" and ?n = "align_page (ae_size e)"
  have nz: "?p \<noteq> 0" using entries_okD(2)[OF heap_okD(1)[OF ok(1)] e] by blast
  obtain st' where f: "free hw ?p st = Some st'" "heap_ok st'" "live (alloc_table st') = {f \<in> live (alloc_table st). ?p = 0 \<or> ae_addr f \<noteq> ?p}"
      "\<forall>f \<in> live (alloc_table st). ae_addr f = ?p \<longrightarrow> mm_vm (lc_mm st') =
         fold (\<lambda>v vm. vm_unmap_page (cr3 vm) v vm) (page_range ?p (?p + align_page (ae_size f))) (mm_vm (lc_mm st))"
    by (rule free_spec[OF ok(1), where hw = hw and p = ?p])
  have lv: "live (alloc_table st') = live (alloc_table st) - {e}"
    using f(3) nz entries_okD(3)[OF heap_okD(1)[OF ok(1)] _ e] e by blast
  have vm: "heap_vm st' = fold (\<lambda>v vm. vm_unmap_page (cr3 vm) v vm) (page_range ?p (?p + ?n)) (heap_vm st)"
    using f(4) e by (simp add: heap_vm_def)
  note u = unmap_fold_spec[OF ok(2), of "page_range ?p (?p + ?n)", unfolded Let_def, folded vm]
  have l: "unat (ae_size e) + 4095 < 2 ^ 64" using entries_okD(2)[OF heap_okD(1)[OF ok(1)] e] by simp
  have e64: "unat (?p + ?n) = unat ?p + unat ?n" using heap_ok_aligned(2)[OF ok(1) e] by (simp add: unat_add_noof block_def)
  have dv: "4096 dvd unat ?p" "4096 dvd unat (?p + ?n)" using heap_ok_aligned(1)[OF ok(1) e] align_page_dvd[OF l] unfolding e64 by simp_all
  have ent: "vm_entry (heap_vm st') w = (if \<exists>x \<in> {unat ?p..<unat ?p + unat ?n}. same_page w (of_nat x) then None else vm_entry (heap_vm st) w)" for w
  proof -
    have "vm_entry (heap_vm st') w = (if \<exists>v \<in> set (page_range ?p (?p + ?n)). same_page w v then None else vm_entry (heap_vm st) w)" using u by blast
    then show ?thesis unfolding page_range_pages[OF dv, of w] e64 .
  qed
  have bk: "{unat ?p..<unat ?p + unat ?n} = {fst (block e)..<snd (block e)}" by (simp add: block_def)
  have gone: "byte_of (heap_vm st') e x = None" if "x < unat (ae_size e)" for x
  proof -
    note b = block_byte[OF ok(1) e that]
    have "of_nat (unat ?p + x) = ?p + of_nat x" by simp
    then have "same_page (?p + of_nat x) (of_nat (unat ?p + x))" by (simp add: same_page_def)
    moreover have "unat ?p + x \<in> {unat ?p..<unat ?p + unat ?n}" using b(2) by (simp add: block_def)
    ultimately have "\<exists>y \<in> {unat ?p..<unat ?p + unat ?n}. same_page (?p + of_nat x) (of_nat y)" by (rule bexI)
    then have "vm_entry (heap_vm st') (?p + of_nat x) = None" using ent[of "?p + of_nat x"] by (simp only: if_True)
    then show ?thesis by (simp add: byte_of_def vm_load_def)
  qed
  have keep: "rw_page (heap_vm st') (ae_addr f + of_nat x) g \<and> byte_of (heap_vm st') f x = byte_of (heap_vm st) f x"
    if fl: "f \<in> live (alloc_table st)" "f \<noteq> e" and x: "x < unat (ae_size f)" and g: "rw_page (heap_vm st) (ae_addr f + of_nat x) g" for f x g
  proof -
    let ?v = "ae_addr f + of_nat x"
    have zg: "zone_frame g" using g by (simp add: rw_page_def)
    have "\<not> same_page ?v (of_nat y)" if y: "y \<in> {fst (block e)..<snd (block e)}" for y
    proof -
      have "y < 2 ^ 64" using y heap_ok_aligned(2)[OF ok(1) e] by simp
      then have "unat (of_nat y :: u64) = y" using unat_of_nat[of y, where 'a = 64] by simp
      then show ?thesis using other_page[OF ok(1) fl(1) e fl(2) x, of "of_nat y"] y by simp
    qed
    then have "vm_entry (heap_vm st') ?v = vm_entry (heap_vm st) ?v" using ent[of ?v] unfolding bk by simp
    then have r: "rw_page (heap_vm st') ?v g" using g by (simp add: rw_page_def)
    have "2 ^ 32 \<le> unat ((g OR (?v AND 0xFFF)) AND NOT 7)" using in_frame_phys[OF zg, of ?v] zg by (simp add: in_frame_def zone_frame_def)
    then have "vm_mem (heap_vm st') ((g OR (?v AND 0xFFF)) AND NOT 7) = vm_mem (heap_vm st) ((g OR (?v AND 0xFFF)) AND NOT 7)"
      using unmap_fold_mem[OF ok(2)] unfolding vm by blast
    then show ?thesis using r unfolding byte_of_def vm_load_page[OF r] vm_load_page[OF g] by (simp add: mem_byte_def)
  qed
  have z: "vm_zone (heap_vm st') = vm_zone (heap_vm st)" using u by blast
  have all: "backed (heap_vm st') F f \<and> (\<forall>x < unat (ae_size f). byte_of (heap_vm st') f x = byte_of (heap_vm st) f x)"
    if "f \<in> live (alloc_table st)" "f \<noteq> e" "backed (heap_vm st) F f" for f
    using that(3) keep[OF that(1,2)] unfolding backed_def z by blast
  show thesis by (rule that[OF f(1,2) lv _ z]) (use u gone all in blast)+
qed

text \<open>A copy into a cleared block: the bytes of the source up to the end of the shorter one, and every byte of another page.\<close>

lemma memcpy_block:
  fixes q p :: u64 and fr :: "nat \<Rightarrow> u64"
  defines "D \<equiv> \<lambda>x. fr (x div 4096) OR ((q + of_nat x) AND 0xFFF)"
  assumes ok: "vm_ok vm1 F" and w: "\<forall>x < N. rw_page vm1 (q + of_nat x) (fr (x div 4096))" and inj: "inj_on D {..<N}"
    and z: "\<forall>x < N. vm_load (q + of_nat x) vm1 = Some 0"
    and s: "\<forall>x < S. \<exists>g. rw_page vm1 (p + of_nat x) g \<and> (\<forall>y < N. g OR ((p + of_nat x) AND 0xFFF) \<noteq> D y)"
  obtains vm2 where "vm_memcpy q p (min S N) vm1 = Some vm2" "vm_ok vm2 F" "same_vm vm1 vm2"
    "\<forall>x < N. vm_load (q + of_nat x) vm2 = (if x < S then vm_load (p + of_nat x) vm1 else Some 0)"
    "\<forall>v g. rw_page vm1 v g \<and> (\<forall>y < N. g OR (v AND 0xFFF) \<noteq> D y) \<longrightarrow> vm_load v vm2 = vm_load v vm1"
proof -
  let ?n = "min S N"
  obtain G where G: "\<And>x. x < S \<Longrightarrow> rw_page vm1 (p + of_nat x) (G x) \<and> (\<forall>y < N. G x OR ((p + of_nat x) AND 0xFFF) \<noteq> D y)" using s by metis
  have "\<forall>i<?n. rw_page vm1 (q + of_nat i) (fr (i div 4096))" "\<forall>i<?n. rw_page vm1 (p + of_nat i) (G i)"
    "inj_on D {..<?n}" "\<forall>i<?n. \<forall>j<?n. G i OR ((p + of_nat i) AND 0xFFF) \<noteq> D j"
    using w G inj_on_subset[OF inj, of "{..<?n}"] by auto
  from memcpy_spec[OF ok this[unfolded D_def]] obtain vm2 where
    c: "vm_memcpy q p ?n vm1 = Some vm2" "vm_ok vm2 F" "same_vm vm1 vm2"
      "\<forall>i<?n. mem_byte (vm_mem vm2) (D i) = mem_byte (vm_mem vm1) (G i OR ((p + of_nat i) AND 0xFFF))"
      "\<forall>a. (\<forall>i<?n. a \<noteq> D i) \<longrightarrow> mem_byte (vm_mem vm2) a = mem_byte (vm_mem vm1) a"
    unfolding D_def by blast
  have rw2: "rw_page vm2 v g = rw_page vm1 v g" for v g by (rule rw_page_same[OF c(3)])
  have new: "vm_load (q + of_nat x) vm2 = (if x < S then vm_load (p + of_nat x) vm1 else Some 0)" if x: "x < N" for x
  proof -
    have r: "rw_page vm1 (q + of_nat x) (fr (x div 4096))" using w x by blast
    have l: "vm_load (q + of_nat x) vm2 = Some (mem_byte (vm_mem vm2) (D x))" unfolding D_def by (rule vm_load_page) (use r rw2 in simp)
    show ?thesis
    proof (cases "x < S")
      case True
      then show ?thesis using c(4) x l vm_load_page[of vm1 "p + of_nat x" "G x"] G[OF True] by simp
    next
      case False
      have "D x \<noteq> D i" if "i < ?n" for i using inj_onD[OF inj, of x i] x that False by auto
      then have "mem_byte (vm_mem vm2) (D x) = mem_byte (vm_mem vm1) (D x)" using c(5) by blast
      then show ?thesis using z x vm_load_page[OF r] False l unfolding D_def by simp
    qed
  qed
  have oth: "vm_load v vm2 = vm_load v vm1" if g: "rw_page vm1 v g" "\<forall>y < N. g OR (v AND 0xFFF) \<noteq> D y" for v g
    using vm_load_page[OF g(1)] vm_load_page[of vm2 v g] rw2 g c(5) by simp
  show thesis by (rule that[OF c(1-3)]) (use new oth in blast)+
qed

text \<open>The first half of \<open>realloc\<close>: the new block, filled from the old one, beside all the blocks there were.\<close>

lemma malloc_copied:
  assumes ok: "heap_ok st" "vm_ok (heap_vm st) F" and e: "e \<in> live (alloc_table st)" and bk: "\<forall>f \<in> live (alloc_table st). backed (heap_vm st) F f"
    and room: "heap_room st F sz 0"
  obtains q st1 st2 F1 where "malloc hw sz st = Some (q, st1)" "q \<noteq> 0"
    "in_vm (vm_memcpy q (ae_addr e) (min (unat (ae_size e)) (unat sz))) st1 = Some st2" "heap_ok st2" "vm_ok (heap_vm st2) F1"
    "live (alloc_table st2) = insert \<lparr>ae_addr = q, ae_size = sz, ae_active = True\<rparr> (live (alloc_table st))"
    "\<lparr>ae_addr = q, ae_size = sz, ae_active = True\<rparr> \<notin> live (alloc_table st)"
    "\<forall>f \<in> live (alloc_table st2). backed (heap_vm st2) F1 f"
    "\<forall>x < unat sz. vm_load (q + of_nat x) (heap_vm st2) = (if x < unat (ae_size e) then vm_load (ae_addr e + of_nat x) (heap_vm st) else Some 0)"
    "\<forall>f \<in> live (alloc_table st). \<forall>x < unat (ae_size f). vm_load (ae_addr f + of_nat x) (heap_vm st2) = vm_load (ae_addr f + of_nat x) (heap_vm st)"
proof -
  obtain q st1 F1 fr where
    m: "malloc hw sz st = Some (q, st1)" "q \<noteq> 0" "heap_ok st1" "vm_ok (heap_vm st1) F1"
      "live (alloc_table st1) = insert \<lparr>ae_addr = q, ae_size = sz, ae_active = True\<rparr> (live (alloc_table st))"
      "\<lparr>ae_addr = q, ae_size = sz, ae_active = True\<rparr> \<notin> live (alloc_table st)"
      "backed (heap_vm st1) F1 \<lparr>ae_addr = q, ae_size = sz, ae_active = True\<rparr>"
      "\<forall>x < unat sz. byte_of (heap_vm st1) \<lparr>ae_addr = q, ae_size = sz, ae_active = True\<rparr> x = Some 0"
      "\<forall>f \<in> live (alloc_table st). backed (heap_vm st) F f \<longrightarrow> backed (heap_vm st1) F1 f \<and>
         (\<forall>x < unat (ae_size f). byte_of (heap_vm st1) f x = byte_of (heap_vm st) f x)"
      "pool_room (pm_pool (vm_pmap (heap_vm st1))) 0"
      "\<forall>x < unat sz. rw_page (heap_vm st1) (q + of_nat x) (fr (x div 4096))"
      "inj_on (\<lambda>x. fr (x div 4096) OR ((q + of_nat x) AND 0xFFF)) {..<unat sz}"
      "\<forall>f \<in> live (alloc_table st). backed (heap_vm st) F f \<longrightarrow> (\<forall>x < unat (ae_size f). \<exists>g. rw_page (heap_vm st1) (ae_addr f + of_nat x) g \<and>
         (\<forall>y < unat sz. g OR ((ae_addr f + of_nat x) AND 0xFFF) \<noteq> fr (y div 4096) OR ((q + of_nat y) AND 0xFFF)))"
    by (rule malloc_block[OF ok room, where hw = hw]) (rule that; assumption)
  let ?e = "\<lparr>ae_addr = q, ae_size = sz, ae_active = True\<rparr>"
  have z: "\<forall>x < unat sz. vm_load (q + of_nat x) (heap_vm st1) = Some 0" using m(8) by (simp add: byte_of_def)
  have s: "\<forall>x < unat (ae_size f). \<exists>g. rw_page (heap_vm st1) (ae_addr f + of_nat x) g \<and>
      (\<forall>y < unat sz. g OR ((ae_addr f + of_nat x) AND 0xFFF) \<noteq> fr (y div 4096) OR ((q + of_nat y) AND 0xFFF))"
    and old: "\<forall>x < unat (ae_size f). vm_load (ae_addr f + of_nat x) (heap_vm st1) = vm_load (ae_addr f + of_nat x) (heap_vm st)"
    if "f \<in> live (alloc_table st)" for f
    using m(9,13) bk that unfolding byte_of_def by blast+
  obtain vm2 where c: "vm_memcpy q (ae_addr e) (min (unat (ae_size e)) (unat sz)) (heap_vm st1) = Some vm2" "vm_ok vm2 F1" "same_vm (heap_vm st1) vm2"
    "\<forall>x < unat sz. vm_load (q + of_nat x) vm2 = (if x < unat (ae_size e) then vm_load (ae_addr e + of_nat x) (heap_vm st1) else Some 0)"
    "\<forall>v g. rw_page (heap_vm st1) v g \<and> (\<forall>y < unat sz. g OR (v AND 0xFFF) \<noteq> fr (y div 4096) OR ((q + of_nat y) AND 0xFFF)) \<longrightarrow> vm_load v vm2 = vm_load v (heap_vm st1)"
    by (rule memcpy_block[OF m(4,11,12) z s[OF e]])
  define st2 where "st2 = st1\<lparr>lc_mm := (lc_mm st1)\<lparr>mm_vm := vm2\<rparr>\<rparr>"
  have iv: "in_vm (vm_memcpy q (ae_addr e) (min (unat (ae_size e)) (unat sz))) st1 = Some st2" using c(1) by (simp add: in_vm_def heap_vm_def st2_def)
  have v2: "heap_vm st2 = vm2" "alloc_table st2 = alloc_table st1" "heap_ok st2" using in_vm_keeps[OF iv] m(3) by (simp_all add: st2_def heap_vm_def)
  have b2: "backed vm2 F1 f = backed (heap_vm st1) F1 f" for f
    using c(3) unfolding backed_def rw_page_same[OF c(3)] by (simp add: same_vm_def)
  have new: "\<forall>x < unat sz. vm_load (q + of_nat x) vm2 = (if x < unat (ae_size e) then vm_load (ae_addr e + of_nat x) (heap_vm st) else Some 0)"
    using c(4) old[OF e] by simp
  have oth: "\<forall>x < unat (ae_size f). vm_load (ae_addr f + of_nat x) vm2 = vm_load (ae_addr f + of_nat x) (heap_vm st)" if "f \<in> live (alloc_table st)" for f
  proof (intro allI impI)
    fix x assume x: "x < unat (ae_size f)"
    from s[OF that] x c(5) have "vm_load (ae_addr f + of_nat x) vm2 = vm_load (ae_addr f + of_nat x) (heap_vm st1)" by blast
    then show "vm_load (ae_addr f + of_nat x) vm2 = vm_load (ae_addr f + of_nat x) (heap_vm st)" using old[OF that] x by simp
  qed
  have "\<forall>f \<in> live (alloc_table st2). backed (heap_vm st2) F1 f" using m(7,9) bk unfolding v2 b2 m(5) by blast
  then show thesis by (rule that[OF m(1,2) iv v2(3) c(2)[folded v2(1)] m(5)[folded v2(2)] m(6)]) (use new oth v2(1) in auto)
qed

text \<open>
  C9. With room for the new block, \<open>realloc\<close> of a live block to another size succeeds. The new block replaces the old
  one in the table; its first bytes are those of the old block, up to the smaller of the two sizes, and the bytes
  after them are 0; the old address is no longer mapped, and the bytes of every other block are as before.
\<close>

theorem realloc_keeps_contents:
  assumes ok: "heap_ok st" "vm_ok (heap_vm st) F" and e: "e \<in> live (alloc_table st)" and bk: "\<forall>f \<in> live (alloc_table st). backed (heap_vm st) F f"
    and room: "heap_room st F sz 0"
  shows "\<exists>q st' F'. realloc hw (ae_addr e) sz st = Some (q, st') \<and> q \<noteq> 0 \<and> heap_ok st' \<and> vm_ok (heap_vm st') F' \<and>
     live (alloc_table st') = insert \<lparr>ae_addr = q, ae_size = sz, ae_active = True\<rparr> (live (alloc_table st) - {e}) \<and>
     (\<forall>f \<in> live (alloc_table st'). backed (heap_vm st') F' f) \<and>
     (\<forall>x < unat sz. vm_load (q + of_nat x) (heap_vm st') =
        (if x < unat (ae_size e) then vm_load (ae_addr e + of_nat x) (heap_vm st) else Some 0)) \<and>
     (\<forall>x < unat (ae_size e). vm_load (ae_addr e + of_nat x) (heap_vm st') = None) \<and>
     (\<forall>f \<in> live (alloc_table st) - {e}. \<forall>x < unat (ae_size f).
        vm_load (ae_addr f + of_nat x) (heap_vm st') = vm_load (ae_addr f + of_nat x) (heap_vm st))"
proof -
  let ?p = "ae_addr e" and ?n = "min (unat (ae_size e)) (unat sz)"
  obtain q st1 st2 F1 where m: "malloc hw sz st = Some (q, st1)" "q \<noteq> 0" "in_vm (vm_memcpy q ?p ?n) st1 = Some st2" "heap_ok st2" "vm_ok (heap_vm st2) F1"
    "live (alloc_table st2) = insert \<lparr>ae_addr = q, ae_size = sz, ae_active = True\<rparr> (live (alloc_table st))"
    "\<lparr>ae_addr = q, ae_size = sz, ae_active = True\<rparr> \<notin> live (alloc_table st)"
    "\<forall>f \<in> live (alloc_table st2). backed (heap_vm st2) F1 f"
    "\<forall>x < unat sz. vm_load (q + of_nat x) (heap_vm st2) = (if x < unat (ae_size e) then vm_load (?p + of_nat x) (heap_vm st) else Some 0)"
    "\<forall>f \<in> live (alloc_table st). \<forall>x < unat (ae_size f). vm_load (ae_addr f + of_nat x) (heap_vm st2) = vm_load (ae_addr f + of_nat x) (heap_vm st)"
    by (rule malloc_copied[OF ok e bk room, where hw = hw]) (rule that; assumption)
  let ?e = "\<lparr>ae_addr = q, ae_size = sz, ae_active = True\<rparr>"
  have e2: "e \<in> live (alloc_table st2)" using e m(6) by simp
  obtain st3 where f: "free hw ?p st2 = Some st3" "heap_ok st3" "live (alloc_table st3) = live (alloc_table st2) - {e}"
    "vm_ok (heap_vm st3) F1" "vm_zone (heap_vm st3) = vm_zone (heap_vm st2)" "\<forall>x < unat (ae_size e). byte_of (heap_vm st3) e x = None"
    "\<forall>f \<in> live (alloc_table st2). f \<noteq> e \<and> backed (heap_vm st2) F1 f \<longrightarrow> backed (heap_vm st3) F1 f \<and>
       (\<forall>x < unat (ae_size f). byte_of (heap_vm st3) f x = byte_of (heap_vm st2) f x)"
    by (rule free_block[OF m(4,5) e2, where hw = hw])
  have i: "\<not> alloc_table_find ?p (alloc_table st) < 0" "alloc_table st ! nat (alloc_table_find ?p (alloc_table st)) = e"
    using alloc_table_find_live[OF heap_okD(1)[OF ok(1)], of ?p] entries_okD(3)[OF heap_okD(1)[OF ok(1)] _ e] e by (blast, metis not_less)
  have nz: "?p \<noteq> 0" "sz \<noteq> 0" using entries_okD(2)[OF heap_okD(1)[OF ok(1)] e] room by (simp_all add: heap_room_def)
  have mn: "unat (if ae_size e < sz then ae_size e else sz) = ?n" by (simp add: word_less_nat_alt min_def)
  have run: "realloc hw ?p sz st = Some (q, st3)"
    using nz i m(1-3) f(1) mn by (simp add: realloc_def Let_def)
  have ne: "?e \<noteq> e" using m(7) e by auto
  have lv: "live (alloc_table st3) = insert ?e (live (alloc_table st) - {e})" using f(3) m(6) ne by auto
  have F3: "backed (heap_vm st3) F1 f" "\<And>x. x < unat (ae_size f) \<Longrightarrow> vm_load (ae_addr f + of_nat x) (heap_vm st3) = vm_load (ae_addr f + of_nat x) (heap_vm st2)"
    if "f \<in> live (alloc_table st2)" "f \<noteq> e" for f
    using f(7) m(8) that unfolding byte_of_def by blast+
  have new: "vm_load (q + of_nat x) (heap_vm st3) = (if x < unat (ae_size e) then vm_load (?p + of_nat x) (heap_vm st) else Some 0)" if "x < unat sz" for x
    using F3(2)[of ?e x] m(6,9) that ne by simp
  have oth: "vm_load (ae_addr f + of_nat x) (heap_vm st3) = vm_load (ae_addr f + of_nat x) (heap_vm st)"
    if "f \<in> live (alloc_table st) - {e}" "x < unat (ae_size f)" for f x
    using F3(2)[of f x] m(6,10) that by simp
  have "\<forall>f \<in> live (alloc_table st3). backed (heap_vm st3) F1 f" using F3(1) f(3) by blast
  moreover have "\<forall>x < unat (ae_size e). vm_load (?p + of_nat x) (heap_vm st3) = None" using f(6) by (simp add: byte_of_def)
  ultimately show ?thesis
    using run m(2) f(2,4) lv new oth by (intro exI[of _ q] exI[of _ st3] exI[of _ F1]) blast
qed

text \<open>The product of \<open>calloc\<close> wraps: a block of one page for more than four thousand million pages.\<close>

lemma calloc_wraps:
  assumes "heap_ok st" "vm_ok (heap_vm st) F" "heap_room st F 4096 0"
  shows "\<exists>q st'. calloc hw (2 ^ 52 + 1) 4096 st = Some (q, st') \<and> q \<noteq> 0 \<and> \<lparr>ae_addr = q, ae_size = 4096, ae_active = True\<rparr> \<in> live (alloc_table st')"
proof -
  obtain q st1 F1 fr where m: "malloc hw 4096 st = Some (q, st1)" "q \<noteq> 0" "vm_ok (heap_vm st1) F1"
      "live (alloc_table st1) = insert \<lparr>ae_addr = q, ae_size = 4096, ae_active = True\<rparr> (live (alloc_table st))"
      "\<forall>x < unat (4096 :: u64). rw_page (heap_vm st1) (q + of_nat x) (fr (x div 4096))"
    by (rule malloc_block[OF assms, where hw = hw]) (rule that; assumption)
  from memset_spec[OF m(3,5), of 0] obtain vm where "vm_memset q 0 (unat (4096 :: u64)) (heap_vm st1) = Some vm" by blast
  then obtain st2 where s: "in_vm (vm_memset q 0 (unat (4096 :: u64))) st1 = Some st2" by (simp add: in_vm_def heap_vm_def)
  have t: "(2 ^ 52 + 1) * 4096 = (4096 :: u64)" by simp
  have "calloc hw (2 ^ 52 + 1) 4096 st = Some (q, st2)" unfolding calloc_def Let_def t using m(1,2) s by simp
  then show ?thesis using m(2,4) in_vm_keeps(2)[OF s] by auto
qed

text \<open>\<open>malloc\<close> and \<open>free\<close> of a block leave the table as it was, but the frames of the block stay in use.\<close>

lemma malloc_free_loses_frames:
  assumes "heap_ok st" "vm_ok (heap_vm st) F" "heap_room st F sz 0"
  shows "\<exists>q st1 st2 F'. malloc hw sz st = Some (q, st1) \<and> free hw q st1 = Some st2 \<and> live (alloc_table st2) = live (alloc_table st) \<and>
    vm_ok (heap_vm st2) F' \<and> card (free_frames F') + unat (align_page sz) div 4096 = card (free_frames F)"
proof -
  obtain q st1 F1 fr where m: "malloc hw sz st = Some (q, st1)" "q \<noteq> 0" "heap_ok st1" "vm_ok (heap_vm st1) F1"
      "live (alloc_table st1) = insert \<lparr>ae_addr = q, ae_size = sz, ae_active = True\<rparr> (live (alloc_table st))"
      "\<lparr>ae_addr = q, ae_size = sz, ae_active = True\<rparr> \<notin> live (alloc_table st)"
      "card (free_frames F1) + unat (align_page sz) div 4096 = card (free_frames F)"
    by (rule malloc_block[OF assms, where hw = hw]) (rule that; assumption)
  let ?e = "\<lparr>ae_addr = q, ae_size = sz, ae_active = True\<rparr>"
  have e: "?e \<in> live (alloc_table st1)" using m(5) by simp
  obtain st2 where f: "free hw (ae_addr ?e) st1 = Some st2" "live (alloc_table st2) = live (alloc_table st1) - {?e}" "vm_ok (heap_vm st2) F1"
    by (rule free_block[OF m(3,4) e, where hw = hw]) (rule that; assumption)
  have "live (alloc_table st2) = live (alloc_table st)" using f(2) m(5,6) by simp
  then show ?thesis using m(1,7) f(1,3) by auto
qed

subsection \<open>Reading numbers\<close>

text \<open>The value of digits.\<close>

definition digits_val :: "int \<Rightarrow> u8 list \<Rightarrow> int \<Rightarrow> int" where
  "digits_val base ds r = foldl (\<lambda>r c. r * base + digit_of c) r ds"

lemma digits_val_ge:
  assumes "1 \<le> base" "\<forall>c \<in> set ds. 0 \<le> digit_of c" "0 \<le> r"
  shows "r \<le> digits_val base ds r"
  using assms(2,3)
proof (induction ds arbitrary: r)
  case (Cons c ds)
  have "r \<le> r * base" using assms(1) Cons.prems(2) mult_left_mono[of 1 base r] by simp
  then have "r \<le> r * base + digit_of c" "0 \<le> r * base + digit_of c" using Cons.prems by simp_all
  then show ?case using Cons.IH[of "r * base + digit_of c"] Cons.prems(1) by (simp add: digits_val_def)
qed (simp add: digits_val_def)

lemma strtol_loop_digits:
  assumes "1 \<le> base" "\<forall>c \<in> set ds. 0 \<le> digit_of c \<and> digit_of c < base" "digit_of c0 < 0 \<or> base \<le> digit_of c0" "0 \<le> r" "digits_val base ds r < 2 ^ 63"
  shows "strtol_loop base (ds @ c0 # rest) r valid = Some (digits_val base ds r, valid \<or> ds \<noteq> [], c0 # rest)"
  using assms(2,4,5)
proof (induction ds arbitrary: r valid)
  case Nil
  then show ?case using assms(3) by (auto simp: digits_val_def)
next
  case (Cons c ds)
  let ?r = "r * base + digit_of c"
  have c: "0 \<le> digit_of c" "digit_of c < base" using Cons.prems(1) by simp_all
  have "0 \<le> r * base" using assms(1) Cons.prems(2) by simp
  moreover have "?r \<le> digits_val base ds ?r" using digits_val_ge[OF assms(1), of ds ?r] Cons.prems(1) c \<open>0 \<le> r * base\<close> by simp
  moreover have v: "digits_val base (c # ds) r = digits_val base ds ?r" by (simp add: digits_val_def)
  ultimately have "checked 64 (r * base) = Some (r * base)" "checked 64 ?r = Some ?r" using Cons.prems(3) c(1) by (simp_all add: checked_def fits_def)
  then show ?case using Cons.IH[of ?r True] Cons.prems \<open>0 \<le> r * base\<close> c v by simp
qed

lemma digit_range: "0 \<le> digit_of c \<longleftrightarrow> 48 \<le> c \<and> c \<le> 57 \<or> 97 \<le> c \<and> c \<le> 122 \<or> 65 \<le> c \<and> c \<le> 90"
  by (auto simp: digit_of_def word_le_def)

lemma digit_decimal: "0 \<le> digit_of c \<and> digit_of c < 10 \<longleftrightarrow> 48 \<le> c \<and> c \<le> 57"
  by (auto simp: digit_of_def word_le_def)

lemma digit_x: "digit_of 120 = 33" "digit_of 88 = 33" "digit_of 48 = 0"
  by (simp_all add: digit_of_def)

lemma skip_blanks_app: "\<forall>c \<in> set ws. blank c \<Longrightarrow> skip_blanks (ws @ s) = skip_blanks s"
  by (induction ws) auto

text \<open>
  C37. \<open>strtol\<close> with a base from 2 to 36 reads blanks, an optional sign and digits of the base up to the first
  character that is none: it returns the number the digits write in that base, negated after a minus sign, and
  \<open>*endptr\<close> is just behind the digits, provided the number is below \<open>2 ^ 63\<close>
  and the text is not, at base 16, a lone 0 followed by x (which \<open>strtol\<close> takes for a prefix).
\<close>

theorem strtol_reads_number:
  assumes ws: "\<forall>c \<in> set ws. blank c" and sg: "sg = [] \<or> sg = [43] \<or> sg = [45]" and base: "2 \<le> base" "base \<le> 36"
    and ds: "ds \<noteq> []" "\<forall>c \<in> set ds. 0 \<le> digit_of c \<and> digit_of c < base" and stop: "digit_of c0 < 0 \<or> base \<le> digit_of c0"
    and hex: "\<not> (base = 16 \<and> ds = [48] \<and> (c0 = 120 \<or> c0 = 88))" and val: "digits_val base ds 0 < 2 ^ 63"
  shows "strtol (Some (ws @ sg @ ds @ c0 # rest)) base =
     Some ((if sg = [45] then - digits_val base ds 0 else digits_val base ds 0), Some (length ws + length sg + length ds))"
proof -
  obtain d ds' where d: "ds = d # ds'" using ds(1) by (cases ds) auto
  have dd: "0 \<le> digit_of d" using ds(2) d by simp
  then have nb: "\<not> blank d" "d \<noteq> 45" "d \<noteq> 43" unfolding digit_range by (auto simp: blank_def)
  have sb: "skip_blanks (ws @ sg @ ds @ c0 # rest) = Some (sg @ ds @ c0 # rest)"
    using sg nb d by (auto simp: skip_blanks_app[OF ws] blank_def)
  have ts: "take_sign (sg @ ds @ c0 # rest) = Some (if sg = [45] then - 1 else 1, ds @ c0 # rest)"
    using sg nb d by auto
  have tp: "take_prefix base (ds @ c0 # rest) = Some (base, ds @ c0 # rest)"
  proof (cases "base = 16 \<and> d = 48")
    case True
    obtain x u where x: "ds' @ c0 # rest = x # u" by (cases ds') auto
    have "x \<noteq> 120 \<and> x \<noteq> 88"
      using hex True ds(2) d x digit_x by (cases ds') auto
    then show ?thesis using True d x by (simp add: take_prefix_def)
  qed (use d base in \<open>auto simp: take_prefix_def\<close>)
  have lp: "strtol_loop base (ds @ c0 # rest) 0 False = Some (digits_val base ds 0, True, c0 # rest)"
    using strtol_loop_digits[OF _ ds(2) stop _ val, of rest False] base ds(1) by simp
  have "0 \<le> digits_val base ds 0" using digits_val_ge[of base ds 0] ds(2) base by simp
  then have ck: "checked 64 ((if sg = [45] then - 1 else 1) * digits_val base ds 0) = Some (if sg = [45] then - digits_val base ds 0 else digits_val base ds 0)"
    using val by (simp add: checked_def fits_def)
  show ?thesis unfolding strtol_def by (simp add: sb ts tp lp ck)
qed

theorem strtol_reads_number_witness:
  "strtol (Some ([32, 9] @ [45] @ [49, 102, 65] @ 103 # [0])) 16 = Some (- 506, Some 6) \<and> digits_val 16 [49, 102, 65] 0 = 506"
proof -
  have v: "digits_val 16 [49, 102, 65] 0 = 506" by code_simp
  have "\<forall>c \<in> set [32, 9]. blank c" "\<forall>c \<in> set [49, 102, 65]. 0 \<le> digit_of c \<and> digit_of c < 16" "digit_of 103 < 0 \<or> 16 \<le> digit_of 103" by code_simp+
  then show ?thesis using strtol_reads_number[of "[32, 9]" "[45]" 16 "[49, 102, 65]" 103 "[0]"] v by simp
qed

text \<open>With base 10 \<open>strtol\<close> and \<open>atol\<close> agree, on every string and on every overflow.\<close>

lemma ato_loop_strtol: "ato_loop 64 s r = map_option fst (strtol_loop 10 s r v)"
proof (induction s arbitrary: r v)
  case (Cons c s)
  have d: "digit_of c < 0 \<or> digit_of c \<ge> 10 \<longleftrightarrow> \<not> (48 \<le> c \<and> c \<le> 57)" using digit_decimal[of c] by linarith
  have e: "digit_of c = uint c - 48" if "48 \<le> c \<and> c \<le> 57" using that by (simp add: digit_of_def)
  show ?case using Cons.IH[of _ True] e unfolding ato_loop.simps strtol_loop.simps d
    by (cases "checked 64 (r * 10)"; cases "checked 64 (r * 10 + (uint c - 48))") (auto simp: checked_def split: if_splits)
qed simp

lemma atol_strtol: "atol str = map_option fst (strtol str 10)"
proof (cases str)
  case (Some s)
  have p: "take_prefix 10 t = Some (10, t)" if "t \<noteq> []" for t using that by (cases t) (auto simp: take_prefix_def)
  have l: "ato_loop 64 t 0 = Option.bind (take_prefix 10 t) (\<lambda>(b, u). map_option fst (strtol_loop b u 0 False))" for t
    using ato_loop_strtol[of t 0 False] p by (cases t) (auto simp: take_prefix_def)
  show ?thesis unfolding Some atol_def ato_def strtol_def option.simps l
    by (auto simp: Option.bind_map_option option.map_comp comp_def split: Option.bind_splits option.splits prod.splits intro!: option.expand)
qed (simp add: atol_def ato_def strtol_def)

text \<open>
  The smallest \<open>int\<close> cannot be read: its digits overflow before the sign is applied. With base 0, a lone \<open>0\<close> is
  taken for a prefix and reported as no number, and so is the \<open>0\<close> of \<open>0x\<close> that no digit follows.
\<close>

lemma atoi_min: "atoi (Some [45, 50, 49, 52, 55, 52, 56, 51, 54, 52, 56, 0]) = None"
  by code_simp

lemma strtol_zero_base_0: "strtol (Some [48, 0]) 0 = Some (0, Some 0)" "strtol (Some [48, 120, 0]) 16 = Some (0, Some 0)"
  by code_simp+

subsection \<open>Exit handlers run in reverse\<close>

lemma exit_loop_rev:
  assumes "\<And>f t s. fst (run f (t, s)) = t" "i \<le> length (atexit_funcs t)"
  shows "exit_loop run i (t, s) = fold run (rev (take i (atexit_funcs t))) (t, s)"
  using assms(2)
proof (induction i arbitrary: s)
  case (Suc i)
  obtain s' where s': "run (atexit_funcs t ! i) (t, s) = (t, s')" using assms(1) by (metis prod.collapse)
  then show ?case using Suc by (simp add: take_Suc_conv_app_nth)
qed simp

lemma atexit_registers:
  assumes "atexit_count t \<le> 32" "length (atexit_funcs t) = 32" "atexit (Some f) t = (r, t')"
  shows "r = (if atexit_count t = 32 then - 1 else 0)" "length (atexit_funcs t') = 32" "atexit_count t' \<le> 32"
    "take (atexit_count t') (atexit_funcs t') = take (atexit_count t) (atexit_funcs t) @ (if r = 0 then [f] else [])"
  using assms by (auto simp: atexit_def take_Suc_conv_app_nth split: if_splits)

lemma exit_reverses_atexit:
  assumes "\<And>f t s. fst (run f (t, s)) = t" "atexit_count t \<le> 32" "length (atexit_funcs t) = 32"
  shows "exit run (t, s) = fold run (rev (take (atexit_count t) (atexit_funcs t))) (t, s)"
  unfolding exit_def using exit_loop_rev[of run "atexit_count t" t s] assms by simp

subsection \<open>A heap with two blocks\<close>

lemma small_block_room:
  assumes ok: "heap_ok st" and one: "live (alloc_table st) \<subseteq> {e}" "unat (ae_size e) \<le> 4096" and sz: "0 < unat sz" "unat sz \<le> 4096"
    and room: "1 \<le> card (free_frames F)" "pool_room (pm_pool (vm_pmap (heap_vm st))) (3 + k)"
  shows "heap_room st F sz k"
proof -
  let ?c = "libc_mmap_ctx (libc_mmap_init st)"
  note c = libc_mmap_init_ok[OF ok]
  have ctx: "ctx_ok ?c" "ranges ?c = block ` live (alloc_table st)" using heap_okD(2,3)[OF c(1) c(4)] c(2) by simp_all
  have al: "unat (align_page x) = 4096" if "0 < unat x" "unat x \<le> 4096" for x :: u64
  proof -
    have "(unat x + 4095) div 4096 = 1" using that by simp
    moreover have "unat x + 4095 < 2 ^ 64" using that by simp
    ultimately show ?thesis using unat_align_page[of x] by simp
  qed
  then have a: "unat (align_page sz) = 4096" using sz by blast
  have e: "align_page sz = 4096" using a by (simp add: word_unat_eq_iff)
  have nf: "mmap_find_free_area ?c (align_page sz) \<noteq> 0"
  proof -
    define s where "s = (if fst (block e) < 0x10001000 \<and> 0x10000000 < snd (block e) then 0x20000000 else 0x10000000 :: nat)"
    have one': "f = e" if "f \<in> live (alloc_table st)" for f using one(1) that by blast
    have be: "snd (block e) = fst (block e) + 4096" if "e \<in> live (alloc_table st)"
      using al[of "ae_size e"] one(2) entries_okD(2)[OF heap_okD(1)[OF ok] that] by (simp add: block_def unat_gt_0)
    have sep: "s + 4096 \<le> fst (block f) \<or> snd (block f) \<le> s" if "f \<in> live (alloc_table st)" for f
      using one'[OF that] be that unfolding s_def by (auto split: if_splits)
    have "range_free (mc_areas ?c) s 4096" unfolding range_free_def
    proof (intro ballI impI)
      fix a assume a: "a \<in> set (mc_areas ?c)" "ma_active a"
      then obtain i where "i < 256" "mc_areas ?c ! i = a" using ctx_okD(1)[OF ctx(1)] by (metis in_set_conv_nth)
      then have "(lo a, hi a) \<in> ranges ?c" using a(2) by (auto simp: ranges_def)
      then obtain f where "f \<in> live (alloc_table st)" "block f = (lo a, hi a)" unfolding ctx(2) by (metis imageE)
      then show "s + 4096 \<le> lo a \<or> hi a \<le> s" using sep[of f] by simp
    qed
    then have s: "s \<in> free_starts (mc_areas ?c) 4096 0x7F0000000000" by (simp add: free_starts_def s_def)
    have "unat (free_area_from (mc_areas ?c) 4096 0x7F0000000000) = Max (free_starts (mc_areas ?c) 4096 0x7F0000000000)"
      using free_area_from_max[OF ctx_okD(5)[OF ctx(1)], of 4096 "0x7F0000000000"] s by auto
    moreover have "s \<le> Max (free_starts (mc_areas ?c) 4096 0x7F0000000000)" by (rule Max_ge[OF _ s]) simp
    moreover have "0 < s" by (simp add: s_def)
    ultimately show ?thesis unfolding e by (auto simp: mmap_find_free_area_def align_4096)
  qed
  have "\<exists>x \<in> set (alloc_table st). \<not> ae_active x"
  proof (rule ccontr)
    assume "\<not> ?thesis"
    then have act: "ae_active (alloc_table st ! i)" if "i < 256" for i using that entries_okD(1)[OF heap_okD(1)[OF ok]] by auto
    then have "alloc_table st ! 0 = e" "alloc_table st ! 1 = e"
      using one(1) entries_okD(1)[OF heap_okD(1)[OF ok]] by (auto simp: live_def subset_iff)
    then show False using heap_okD(1)[OF ok] act[of 0] act[of 1] unfolding entries_ok_def by (metis one_less_numeral_iff semiring_norm(76) zero_less_numeral zero_neq_one)
  qed
  then show ?thesis using nf room sz a by (auto simp: heap_room_def unat_gt_0)
qed

lemma two_blocks:
  obtains F q1 st1 F1 q2 st2 where
    "malloc (\<lambda>_. False) 100 (libc_start mmap_context_init demo_mm) = Some (q1, st1)" "q1 \<noteq> 0" "heap_ok st1" "vm_ok (heap_vm st1) F1"
    "live (alloc_table st1) = {\<lparr>ae_addr = q1, ae_size = 100, ae_active = True\<rparr>}" "backed (heap_vm st1) F1 \<lparr>ae_addr = q1, ae_size = 100, ae_active = True\<rparr>"
    "heap_room st1 F1 5 3" "malloc (\<lambda>_. False) 5 st1 = Some (q2, st2)"
    "live (alloc_table st2) = {\<lparr>ae_addr = q2, ae_size = 5, ae_active = True\<rparr>, \<lparr>ae_addr = q1, ae_size = 100, ae_active = True\<rparr>}"
    "heap_room st1 F1 200 0"
proof -
  let ?s = "libc_start mmap_context_init demo_mm"
  obtain F where F: "vm_ok (heap_vm ?s) F" "free_frames F = {1..<9}" using boot_vm_ok(1) by (auto simp: heap_vm_def libc_start_def demo_mm_def)
  have pr: "pool_room (pm_pool (vm_pmap (heap_vm ?s))) 9" using boot_vm_ok(3) by (simp add: heap_vm_def libc_start_def demo_mm_def)
  have r0: "heap_room ?s F 100 6"
    by (rule small_block_room[OF heap_start(1), of _ _ "\<lparr>ae_addr = 0, ae_size = 0, ae_active = False\<rparr>"]) (use F(2) pr heap_start(2) in simp_all)
  obtain q1 st1 F1 fr where m: "malloc (\<lambda>_. False) 100 ?s = Some (q1, st1)" "q1 \<noteq> 0" "heap_ok st1" "vm_ok (heap_vm st1) F1"
      "live (alloc_table st1) = insert \<lparr>ae_addr = q1, ae_size = 100, ae_active = True\<rparr> (live (alloc_table ?s))"
      "backed (heap_vm st1) F1 \<lparr>ae_addr = q1, ae_size = 100, ae_active = True\<rparr>" "pool_room (pm_pool (vm_pmap (heap_vm st1))) 6"
      "card (free_frames F1) + unat (align_page (100 :: u64)) div 4096 = card (free_frames F)"
    by (rule malloc_block[OF heap_start(1) F(1) r0, where hw = "\<lambda>_. False"]) (rule that; assumption)
  have lv: "live (alloc_table st1) = {\<lparr>ae_addr = q1, ae_size = 100, ae_active = True\<rparr>}" using m(5) heap_start(2) by simp
  have cd: "1 \<le> card (free_frames F1)" using m(8) F(2) by (simp add: align_page_def)
  have r1: "heap_room st1 F1 5 3" "heap_room st1 F1 200 3"
    by (rule small_block_room[OF m(3), of "\<lparr>ae_addr = q1, ae_size = 100, ae_active = True\<rparr>"], use lv cd m(7) in simp_all)+
  obtain q2 st2 where m2: "malloc (\<lambda>_. False) 5 st1 = Some (q2, st2)"
      "live (alloc_table st2) = insert \<lparr>ae_addr = q2, ae_size = 5, ae_active = True\<rparr> (live (alloc_table st1))"
    by (rule malloc_block[OF m(3,4) r1(1), where hw = "\<lambda>_. False"]) (rule that; assumption)
  have "heap_room st1 F1 200 0" using r1(2) by (auto simp: heap_room_def pool_room_def)
  then show thesis using that[OF m(1-4) lv m(6) r1(1) m2(1)] m2(2) lv by simp
qed

theorem heap_blocks_disjoint_witness:
  "\<exists>st p q. heap_history (\<lambda>_. False) (libc_start mmap_context_init demo_mm) [Malloc 100, Malloc 5] st \<and>
     live (alloc_table st) = {\<lparr>ae_addr = q, ae_size = 5, ae_active = True\<rparr>, \<lparr>ae_addr = p, ae_size = 100, ae_active = True\<rparr>} \<and>
     blocks_apart \<lparr>ae_addr = q, ae_size = 5, ae_active = True\<rparr> \<lparr>ae_addr = p, ae_size = 100, ae_active = True\<rparr>"
proof -
  obtain q1 st1 q2 st2 where b: "malloc (\<lambda>_. False) 100 (libc_start mmap_context_init demo_mm) = Some (q1, st1)" "malloc (\<lambda>_. False) 5 st1 = Some (q2, st2)"
    "live (alloc_table st2) = {\<lparr>ae_addr = q2, ae_size = 5, ae_active = True\<rparr>, \<lparr>ae_addr = q1, ae_size = 100, ae_active = True\<rparr>}"
    by (rule two_blocks) (rule that; assumption)
  have "heap_history (\<lambda>_. False) (libc_start mmap_context_init demo_mm) (([] @ [Malloc 100]) @ [Malloc 5]) st2"
    by (rule heap_history.intros(2), rule heap_history.intros(2), rule heap_history.intros(1)) (use b(1,2) in auto)
  then have h: "heap_history (\<lambda>_. False) (libc_start mmap_context_init demo_mm) [Malloc 100, Malloc 5] st2" by simp
  from heap_blocks_disjoint[OF h] b(3) have "blocks_apart \<lparr>ae_addr = q2, ae_size = 5, ae_active = True\<rparr> \<lparr>ae_addr = q1, ae_size = 100, ae_active = True\<rparr>" by simp
  then show ?thesis using h b(3) by blast
qed

theorem realloc_keeps_contents_witness:
  "\<exists>st p q st'. p \<noteq> 0 \<and> live (alloc_table st) = {\<lparr>ae_addr = p, ae_size = 100, ae_active = True\<rparr>} \<and>
     realloc (\<lambda>_. False) p 200 st = Some (q, st') \<and> vm_load (q + 7) (heap_vm st') = vm_load (p + 7) (heap_vm st)"
proof -
  obtain q1 st1 F1 where b: "q1 \<noteq> 0" "heap_ok st1" "vm_ok (heap_vm st1) F1"
    "live (alloc_table st1) = {\<lparr>ae_addr = q1, ae_size = 100, ae_active = True\<rparr>}" "backed (heap_vm st1) F1 \<lparr>ae_addr = q1, ae_size = 100, ae_active = True\<rparr>"
    "heap_room st1 F1 200 0"
    by (rule two_blocks) (rule that; assumption)
  have e: "\<lparr>ae_addr = q1, ae_size = 100, ae_active = True\<rparr> \<in> live (alloc_table st1)" "\<forall>f \<in> live (alloc_table st1). backed (heap_vm st1) F1 f"
    using b(4,5) by simp_all
  from realloc_keeps_contents[OF b(2,3) e b(6), of "\<lambda>_. False"] obtain q st' where
    r: "realloc (\<lambda>_. False) (ae_addr \<lparr>ae_addr = q1, ae_size = 100, ae_active = True\<rparr>) 200 st1 = Some (q, st')"
      "\<forall>x < unat (200 :: u64). vm_load (q + of_nat x) (heap_vm st') = (if x < unat (ae_size \<lparr>ae_addr = q1, ae_size = 100, ae_active = True\<rparr>)
         then vm_load (ae_addr \<lparr>ae_addr = q1, ae_size = 100, ae_active = True\<rparr> + of_nat x) (heap_vm st1) else Some 0)"
    by (elim exE conjE) (rule that; assumption)
  have "vm_load (q + 7) (heap_vm st') = vm_load (q1 + 7) (heap_vm st1)" using r(2)[rule_format, of 7] by simp
  then show ?thesis using b(1,4) r(1) by auto
qed

end
