(* ===== verification/Net.thy ===== *)
theory Net
  imports Byte_Queue Memory_Pool
begin

section \<open>The network stack\<close>

text \<open>
  \<open>arch/x86_64/net.c\<close>: Ethernet frames, ARP, IP, ICMP echo, UDP with the DHCP client, TCP and the socket calls. A
  packet is the list of bytes from its pointer to the end of the buffer it lies in; a read past the end or a copy
  beyond a buffer is undefined behaviour, \<open>None\<close>. Numbers are stored little-endian, as the processor does, after
  the conversions \<open>htons\<close> and \<open>htonl\<close> of the source. The driver's transmit function and what it returns is a
  parameter of the state; the frames given to it are a log. Packets are allocated from the pool of \<open>Memory_Pool\<close>.
\<close>

subsection \<open>Numbers in packets\<close>

definition htons :: "u16 \<Rightarrow> u16" where
  "htons v = drop_bit 8 v OR push_bit 8 v"

definition ntohs :: "u16 \<Rightarrow> u16" where
  "ntohs v = htons v"

definition htonl :: "u32 \<Rightarrow> u32" where
  "htonl v = (drop_bit 24 v AND 0xFF) OR (drop_bit 8 v AND 0xFF00) OR (push_bit 8 v AND 0xFF0000) OR (push_bit 24 v AND 0xFF000000)"

definition ntohl :: "u32 \<Rightarrow> u32" where
  "ntohl v = htonl v"

definition le16 :: "u16 \<Rightarrow> u8 list" where
  "le16 v = [ucast v, ucast (drop_bit 8 v)]"

definition le32 :: "u32 \<Rightarrow> u8 list" where
  "le32 v = [ucast v, ucast (drop_bit 8 v), ucast (drop_bit 16 v), ucast (drop_bit 24 v)]"

definition rd8 :: "u8 list \<Rightarrow> nat \<Rightarrow> u8 option" where
  "rd8 b off = (if off < length b then Some (b ! off) else None)"

definition word16 :: "u8 \<Rightarrow> u8 \<Rightarrow> u16" where
  "word16 b0 b1 = ucast b0 OR push_bit 8 (ucast b1)"

definition rd16 :: "u8 list \<Rightarrow> nat \<Rightarrow> u16 option" where
  "rd16 b off = (if off + 2 \<le> length b then Some (word16 (b ! off) (b ! (off + 1))) else None)"

definition rd32 :: "u8 list \<Rightarrow> nat \<Rightarrow> u32 option" where
  "rd32 b off = (if off + 4 \<le> length b then Some (ucast (word16 (b ! off) (b ! (off + 1))) OR push_bit 16 (ucast (word16 (b ! (off + 2)) (b ! (off + 3))))) else None)"

definition rdn :: "u8 list \<Rightarrow> nat \<Rightarrow> nat \<Rightarrow> u8 list option" where
  "rdn b off n = (if off + n \<le> length b then Some (take n (drop off b)) else None)"

text \<open>The value of a C \<open>int\<close> after a conversion from a length.\<close>

definition to_int :: "nat \<Rightarrow> int" where
  "to_int n = sint (of_nat n :: u32)"

subsection \<open>State\<close>

abbreviation (input) ETH_ALEN :: nat where "ETH_ALEN \<equiv> 6"
abbreviation (input) ETH_TYPE_IP :: u16 where "ETH_TYPE_IP \<equiv> 0x0800"
abbreviation (input) ETH_TYPE_ARP :: u16 where "ETH_TYPE_ARP \<equiv> 0x0806"
abbreviation (input) IP_PROTO_ICMP :: u8 where "IP_PROTO_ICMP \<equiv> 1"
abbreviation (input) IP_PROTO_TCP :: u8 where "IP_PROTO_TCP \<equiv> 6"
abbreviation (input) IP_PROTO_UDP :: u8 where "IP_PROTO_UDP \<equiv> 17"
abbreviation (input) ARP_CACHE_SIZE :: nat where "ARP_CACHE_SIZE \<equiv> 32"
abbreviation (input) TCP_RX_BUF_SIZE :: nat where "TCP_RX_BUF_SIZE \<equiv> 32768"
abbreviation (input) UDP_RX_BUF_SIZE :: nat where "UDP_RX_BUF_SIZE \<equiv> 8192"
abbreviation (input) TCP_MSS :: nat where "TCP_MSS \<equiv> 1460"
abbreviation (input) TCP_FLAG_FIN :: u8 where "TCP_FLAG_FIN \<equiv> 0x01"
abbreviation (input) TCP_FLAG_SYN :: u8 where "TCP_FLAG_SYN \<equiv> 0x02"
abbreviation (input) TCP_FLAG_PSH :: u8 where "TCP_FLAG_PSH \<equiv> 0x08"
abbreviation (input) TCP_FLAG_ACK :: u8 where "TCP_FLAG_ACK \<equiv> 0x10"
abbreviation (input) TCP_CLOSED :: int where "TCP_CLOSED \<equiv> 0"
abbreviation (input) TCP_SYN_SENT :: int where "TCP_SYN_SENT \<equiv> 1"
abbreviation (input) TCP_SYN_RECV :: int where "TCP_SYN_RECV \<equiv> 2"
abbreviation (input) TCP_ESTABLISHED :: int where "TCP_ESTABLISHED \<equiv> 3"
abbreviation (input) TCP_FIN_WAIT1 :: int where "TCP_FIN_WAIT1 \<equiv> 4"
abbreviation (input) TCP_CLOSE_WAIT :: int where "TCP_CLOSE_WAIT \<equiv> 6"
abbreviation (input) TCP_LAST_ACK :: int where "TCP_LAST_ACK \<equiv> 8"
abbreviation (input) TCP_LISTEN :: int where "TCP_LISTEN \<equiv> 10"
abbreviation (input) SOCK_STREAM :: int where "SOCK_STREAM \<equiv> 1"
abbreviation (input) SOCK_DGRAM :: int where "SOCK_DGRAM \<equiv> 2"
abbreviation (input) AF_INET :: int where "AF_INET \<equiv> 2"

record arp_entry =
  ar_ip :: u32
  ar_mac :: "u8 list"

text \<open>The fields of \<open>tcp_socket_t\<close> and \<open>udp_socket_t\<close> that the code uses.\<close>

record tcp_socket =
  ts_state :: int
  ts_local_ip :: u32
  ts_local_port :: u16
  ts_remote_ip :: u32
  ts_remote_port :: u16
  snd_una :: u32
  snd_nxt :: u32
  rcv_nxt :: u32
  snd_wnd :: u16
  rcv_wnd :: u16
  ts_rx_buf :: "u8 list"
  ts_rx_head :: u32
  ts_rx_tail :: u32

record udp_socket =
  us_local_ip :: u32
  us_local_port :: u16
  us_bound :: bool
  us_rx_buf :: "u8 list"
  us_rx_head :: u32
  us_rx_tail :: u32
  peer_ip :: u32
  peer_port :: u16
  has_data :: bool
  waiter_pid :: u64

text \<open>The union of \<open>socket_t\<close>: one pointer, to a TCP or a UDP socket.\<close>

datatype sock_ptr = NoSock | TcpSock nat | UdpSock nat

record socket =
  sk_domain :: int
  sk_type :: int
  sk_protocol :: int
  sk_ptr :: sock_ptr

record net_state =
  local_mac :: "u8 list"
  local_ip :: u32
  gateway_ip :: u32
  netmask :: u32
  net_configured :: bool
  dhcp_xid :: u32
  dhcp_server_ip :: u32
  arp_cache :: "arp_entry list"
  arp_count :: nat
  sockets :: "socket list"
  tcp_socks :: "tcp_socket list"
  udp_socks :: "udp_socket list"
  tcp_next_seq :: u32
  netdev_tx :: "(u8 list \<Rightarrow> int) option"
  tx_log :: "u8 list list"
  net_pool :: memory_state
  net_woken :: "u64 list"

definition zero_tcp :: tcp_socket where
  "zero_tcp = \<lparr>ts_state = TCP_CLOSED, ts_local_ip = 0, ts_local_port = 0, ts_remote_ip = 0, ts_remote_port = 0, snd_una = 0, snd_nxt = 0,
     rcv_nxt = 0, snd_wnd = 0, rcv_wnd = 0, ts_rx_buf = replicate TCP_RX_BUF_SIZE 0, ts_rx_head = 0, ts_rx_tail = 0\<rparr>"

definition zero_udp :: udp_socket where
  "zero_udp = \<lparr>us_local_ip = 0, us_local_port = 0, us_bound = False, us_rx_buf = replicate UDP_RX_BUF_SIZE 0, us_rx_head = 0, us_rx_tail = 0,
     peer_ip = 0, peer_port = 0, has_data = False, waiter_pid = 0\<rparr>"

definition zero_socket :: socket where
  "zero_socket = \<lparr>sk_domain = 0, sk_type = 0, sk_protocol = 0, sk_ptr = NoSock\<rparr>"

definition upd_tcp :: "nat \<Rightarrow> (tcp_socket \<Rightarrow> tcp_socket) \<Rightarrow> net_state \<Rightarrow> net_state" where
  "upd_tcp i f st = st\<lparr>tcp_socks := (tcp_socks st)[i := f (tcp_socks st ! i)]\<rparr>"

definition upd_udp :: "nat \<Rightarrow> (udp_socket \<Rightarrow> udp_socket) \<Rightarrow> net_state \<Rightarrow> net_state" where
  "upd_udp i f st = st\<lparr>udp_socks := (udp_socks st)[i := f (udp_socks st ! i)]\<rparr>"

definition upd_sock :: "nat \<Rightarrow> (socket \<Rightarrow> socket) \<Rightarrow> net_state \<Rightarrow> net_state" where
  "upd_sock i f st = st\<lparr>sockets := (sockets st)[i := f (sockets st ! i)]\<rparr>"

definition net_alloc :: "nat \<Rightarrow> net_state \<Rightarrow> u64 \<times> net_state" where
  "net_alloc n st = (let (p, pool) = memory_alloc (net_pool st) (of_nat n) in (p, st\<lparr>net_pool := pool\<rparr>))"

definition net_free :: "u64 \<Rightarrow> net_state \<Rightarrow> net_state" where
  "net_free p st = st\<lparr>net_pool := memory_free (net_pool st) p\<rparr>"

subsection \<open>Configuration\<close>

text \<open>
  \<open>octet << shift\<close> is undefined for a negative shift, and \<open>octet\<close> is a signed integer; the bits it loses on the
  left are those the compiler drops.
\<close>

fun parse_ip_loop :: "u8 list \<Rightarrow> u32 \<Rightarrow> int \<Rightarrow> int \<Rightarrow> u32 option" where
  "parse_ip_loop [] ip octet shift = None"
| "parse_ip_loop (c # s) ip octet shift =
     (if c \<noteq> 0 \<and> 48 \<le> c \<and> c \<le> 57 then
        (if octet * 10 + (uint c - 48) < 2 ^ 31 then parse_ip_loop s ip (octet * 10 + (uint c - 48)) shift else None)
      else if shift < 0 then None
      else if c = 46 then parse_ip_loop s (ip OR push_bit (nat shift) (word_of_int octet)) 0 (shift - 8)
      else Some (ip OR push_bit (nat shift) (word_of_int octet)))"

definition parse_ip_addr :: "u8 list \<Rightarrow> u32 option" where
  "parse_ip_addr str = parse_ip_loop str 0 0 24"

definition hex_digit :: "u8 \<Rightarrow> nat option" where
  "hex_digit c =
     (if 48 \<le> c \<and> c \<le> 57 then Some (unat c - 48)
      else if 97 \<le> c \<and> c \<le> 102 then Some (unat c - 97 + 10)
      else if 65 \<le> c \<and> c \<le> 70 then Some (unat c - 65 + 10)
      else None)"

fun parse_hex :: "nat \<Rightarrow> u8 list \<Rightarrow> nat \<Rightarrow> (nat \<times> u8 list) option" where
  "parse_hex 0 s b = Some (b, s)"
| "parse_hex (Suc n) [] b = None"
| "parse_hex (Suc n) (c # s) b =
     (case hex_digit c of None \<Rightarrow> Some (b, c # s) | Some d \<Rightarrow> parse_hex n s (b * 16 + d))"

fun parse_mac_loop :: "nat \<Rightarrow> u8 list \<Rightarrow> u8 list option" where
  "parse_mac_loop 0 s = Some []"
| "parse_mac_loop (Suc n) s =
     Option.bind (parse_hex 2 s 0) (\<lambda>(b, s1).
       case s1 of
         [] \<Rightarrow> None
       | c # s2 \<Rightarrow> map_option ((#) (of_nat b)) (parse_mac_loop n (if c = 58 \<or> c = 45 then s2 else s1)))"

definition parse_mac_addr :: "u8 list \<Rightarrow> u8 list option" where
  "parse_mac_addr str = parse_mac_loop ETH_ALEN str"

text \<open>The keys of the configuration text, and the skip to the end of a word.\<close>

definition key_ip :: "u8 list" where "key_ip = [73, 80, 61]"
definition key_gateway :: "u8 list" where "key_gateway = [71, 65, 84, 69, 87, 65, 89, 61]"
definition key_netmask :: "u8 list" where "key_netmask = [78, 69, 84, 77, 65, 83, 75, 61]"
definition key_mac :: "u8 list" where "key_mac = [77, 65, 67, 61]"

definition skip_while :: "(u8 \<Rightarrow> bool) \<Rightarrow> u8 list \<Rightarrow> u8 list" where
  "skip_while P s = dropWhile P s"

definition config_key :: "u8 list \<Rightarrow> net_state \<Rightarrow> (u8 list \<times> net_state) option" where
  "config_key p st =
     Option.bind (strncmp p (key_ip @ [0]) 3) (\<lambda>r1.
       if r1 = 0 then map_option (\<lambda>ip. (drop 3 p, st\<lparr>local_ip := ip\<rparr>)) (parse_ip_addr (drop 3 p))
       else Option.bind (strncmp p (key_gateway @ [0]) 8) (\<lambda>r2.
         if r2 = 0 then map_option (\<lambda>ip. (drop 8 p, st\<lparr>gateway_ip := ip\<rparr>)) (parse_ip_addr (drop 8 p))
         else Option.bind (strncmp p (key_netmask @ [0]) 8) (\<lambda>r3.
           if r3 = 0 then map_option (\<lambda>ip. (drop 8 p, st\<lparr>netmask := ip\<rparr>)) (parse_ip_addr (drop 8 p))
           else Option.bind (strncmp p (key_mac @ [0]) 4) (\<lambda>r4.
             if r4 = 0 then map_option (\<lambda>m. (drop 4 p, st\<lparr>local_mac := m\<rparr>)) (parse_mac_addr (drop 4 p))
             else Some (p, st)))))"

partial_function (option) config_loop :: "u8 list \<Rightarrow> net_state \<Rightarrow> net_state option" where
  "config_loop p st =
     (case p of
        [] \<Rightarrow> None
      | c # _ \<Rightarrow>
          if c = 0 then Some st
          else Option.bind (config_key (skip_while (\<lambda>c. c = 32 \<or> c = 9) p) st) (\<lambda>(p1, st1).
            config_loop (skip_while (\<lambda>c. c \<noteq> 0 \<and> c \<noteq> 32 \<and> c \<noteq> 9 \<and> c \<noteq> 10) p1) st1))"

definition net_config_load :: "u8 list option \<Rightarrow> net_state \<Rightarrow> net_state option" where
  "net_config_load config_data st =
     (case config_data of
        None \<Rightarrow> Some st
      | Some p \<Rightarrow> map_option (\<lambda>st1. st1\<lparr>net_configured := True\<rparr>) (config_loop p st))"

subsection \<open>Sending\<close>

definition net_tx_frame :: "u8 list \<Rightarrow> net_state \<Rightarrow> int \<times> net_state" where
  "net_tx_frame data st =
     (case netdev_tx st of None \<Rightarrow> (- 1, st) | Some tx \<Rightarrow> (tx data, st\<lparr>tx_log := tx_log st @ [data]\<rparr>))"

definition net_register_tx :: "(u8 list \<Rightarrow> int) option \<Rightarrow> net_state \<Rightarrow> net_state" where
  "net_register_tx tx_func st = st\<lparr>netdev_tx := tx_func\<rparr>"

definition eth_header :: "u8 list \<Rightarrow> u8 list \<Rightarrow> u16 \<Rightarrow> u8 list" where
  "eth_header dst src etype = dst @ src @ le16 (htons etype)"

definition ip_header :: "u16 \<Rightarrow> u8 \<Rightarrow> u32 \<Rightarrow> u32 \<Rightarrow> u16 \<Rightarrow> u8 list" where
  "ip_header tlen proto src dst checksum =
     [0x45, 0] @ le16 (htons tlen) @ le16 0 @ le16 0 @ [64, proto] @ le16 checksum @ le32 (htonl src) @ le32 (htonl dst)"

fun sum_words :: "u8 list \<Rightarrow> u32 \<Rightarrow> u32" where
  "sum_words (b0 # b1 # bs) s = sum_words bs (s + ucast (word16 b0 b1))"
| "sum_words [b] s = s + ucast b"
| "sum_words [] s = s"

function fold_sum :: "u32 \<Rightarrow> u32" where
  "fold_sum s = (if drop_bit 16 s \<noteq> 0 then fold_sum ((s AND 0xFFFF) + drop_bit 16 s) else s)"
  by pat_completeness auto

definition carry_sum :: "u32 \<Rightarrow> nat" where
  "carry_sum s = unat s mod 65536 + unat s div 65536"

lemma unat_carry: "unat ((s AND 0xFFFF) + drop_bit 16 s) = carry_sum s"
proof -
  have a: "unat (s AND 0xFFFF) = unat s mod 65536" using unat_mod_pow2_mask[of 16 s] by simp
  have d: "unat (drop_bit 16 s) = unat s div 65536" by (simp add: drop_bit_eq_div unat_div_distrib)
  have "unat s div 65536 < 65536" using unsigned_less[of s, where 'a = nat] by simp
  then have "unat (s AND 0xFFFF) + unat (drop_bit 16 s) < 2 ^ 32" unfolding a d by simp
  then show ?thesis using a d by (simp add: unat_add_noof carry_sum_def)
qed

lemma high_part: "drop_bit 16 (s :: u32) \<noteq> 0 \<longleftrightarrow> 65536 \<le> unat s"
proof -
  have "unat (drop_bit 16 s) = unat s div 65536" by (simp add: drop_bit_eq_div unat_div_distrib)
  then show ?thesis by (metis Euclidean_Rings.div_eq_0_iff linorder_not_less unat_eq_0 zero_neq_numeral)
qed

termination fold_sum
proof (relation "measure unat")
  fix s :: u32 assume "drop_bit 16 s \<noteq> 0"
  then have g: "65536 \<le> unat s" by (simp add: high_part)
  then have "0 < unat s div 65536" by (simp add: div_greater_zero_iff)
  moreover have "unat s = 65536 * (unat s div 65536) + unat s mod 65536" by simp
  ultimately have "carry_sum s < unat s" unfolding carry_sum_def by linarith
  then show "((s AND 0xFFFF) + drop_bit 16 s, s) \<in> measure unat" using unat_carry[of s] by simp
qed simp

declare fold_sum.simps [simp del]

definition ip_checksum :: "u8 list \<Rightarrow> u16" where
  "ip_checksum data = ucast (NOT (fold_sum (sum_words data 0)))"

definition arp_packet :: "u16 \<Rightarrow> u8 list \<Rightarrow> u32 \<Rightarrow> u8 list \<Rightarrow> u32 \<Rightarrow> u8 list" where
  "arp_packet opcode sender_mac sender_ip target_mac target_ip =
     le16 (htons 1) @ le16 (htons ETH_TYPE_IP) @ [6, 4] @ le16 (htons opcode) @ sender_mac @ le32 sender_ip @ target_mac @ le32 target_ip"

definition arp_send_request :: "u32 \<Rightarrow> net_state \<Rightarrow> net_state" where
  "arp_send_request target_ip st =
     snd (net_tx_frame (eth_header (replicate ETH_ALEN 0xFF) (local_mac st) ETH_TYPE_ARP @
       arp_packet 1 (local_mac st) (htonl (local_ip st)) (replicate ETH_ALEN 0) (htonl target_ip)) st)"

definition arp_lookup :: "u32 \<Rightarrow> net_state \<Rightarrow> u8 list option \<times> net_state" where
  "arp_lookup ip st =
     (let ip1 = (if ip AND netmask st \<noteq> local_ip st AND netmask st then gateway_ip st else ip) in
      case find (\<lambda>e. ar_ip e = ip1) (take (arp_count st) (arp_cache st)) of
        Some e \<Rightarrow> (Some (ar_mac e), st)
      | None \<Rightarrow> (None, arp_send_request ip1 st))"

text \<open>\<open>total\<close> is a 16-bit number: when it wraps, the packet is too small for what is copied into it.\<close>

definition ip_send_packet :: "u32 \<Rightarrow> u8 \<Rightarrow> u8 list \<Rightarrow> u16 \<Rightarrow> net_state \<Rightarrow> net_state option" where
  "ip_send_packet dst_ip proto data len st =
     (let total = 20 + len;
          (packet, st1) = net_alloc (14 + unat total) st
      in if packet = 0 then Some st1
         else let (dst_mac, st2) = arp_lookup dst_ip st1 in
           case dst_mac of
             None \<Rightarrow> Some (net_free packet st2)
           | Some mac \<Rightarrow>
               if unat total < 20 + unat len then None
               else Option.bind (rdn data 0 (unat len)) (\<lambda>d.
                 let checksum = ip_checksum (ip_header total proto (local_ip st2) dst_ip 0);
                     frame = eth_header mac (local_mac st2) ETH_TYPE_IP @ ip_header total proto (local_ip st2) dst_ip checksum @ d
                 in Some (net_free packet (snd (net_tx_frame frame st2)))))"

text \<open>The pattern of the three senders above IP: allocate, fill, send, free.\<close>

definition send_over_ip :: "u32 \<Rightarrow> u8 \<Rightarrow> (u16 \<Rightarrow> u8 list \<Rightarrow> u8 list) \<Rightarrow> u16 \<Rightarrow> u8 list \<Rightarrow> u16 \<Rightarrow> net_state \<Rightarrow> (bool \<times> net_state) option" where
  "send_over_ip dst_ip proto header hlen data len st =
     (let total = hlen + len;
          (packet, st1) = net_alloc (unat total) st
      in if packet = 0 then Some (False, st1)
         else if unat total < unat hlen + unat len then None
         else Option.bind (rdn data 0 (unat len)) (\<lambda>d.
           Option.bind (ip_send_packet dst_ip proto (header total d) total st1) (\<lambda>st2.
             Some (True, net_free packet st2))))"

definition icmp_header :: "u8 \<Rightarrow> u16 \<Rightarrow> u16 \<Rightarrow> u16 \<Rightarrow> u8 list" where
  "icmp_header itype checksum ident seq = [itype, 0] @ le16 checksum @ le16 (htons ident) @ le16 (htons seq)"

definition icmp_send_echo_reply :: "u32 \<Rightarrow> u16 \<Rightarrow> u16 \<Rightarrow> u8 list \<Rightarrow> u16 \<Rightarrow> net_state \<Rightarrow> net_state option" where
  "icmp_send_echo_reply dst_ip ident seq data len st =
     map_option snd (send_over_ip dst_ip IP_PROTO_ICMP
       (\<lambda>total d. icmp_header 0 (ip_checksum (icmp_header 0 0 ident seq @ d)) ident seq @ d) 8 data len st)"

definition udp_header :: "u16 \<Rightarrow> u16 \<Rightarrow> u16 \<Rightarrow> u8 list" where
  "udp_header src_port dst_port len = le16 (htons src_port) @ le16 (htons dst_port) @ le16 (htons len) @ le16 0"

definition udp_send_packet :: "u32 \<Rightarrow> u16 \<Rightarrow> u16 \<Rightarrow> u8 list \<Rightarrow> u16 \<Rightarrow> net_state \<Rightarrow> net_state option" where
  "udp_send_packet dst_ip src_port dst_port data len st =
     map_option snd (send_over_ip dst_ip IP_PROTO_UDP (\<lambda>total d. udp_header src_port dst_port total @ d) 8 data len st)"

definition tcp_header :: "u16 \<Rightarrow> u16 \<Rightarrow> u32 \<Rightarrow> u32 \<Rightarrow> u8 \<Rightarrow> u16 \<Rightarrow> u8 list" where
  "tcp_header src_port dst_port seq ack flags window =
     le16 (htons src_port) @ le16 (htons dst_port) @ le32 (htonl seq) @ le32 (htonl ack) @ [0x50, flags] @
     le16 (htons window) @ le16 0 @ le16 0"

definition tcp_advance :: "u8 \<Rightarrow> u16 \<Rightarrow> tcp_socket \<Rightarrow> tcp_socket" where
  "tcp_advance flags len s =
     s\<lparr>snd_nxt := snd_nxt s + (if flags AND TCP_FLAG_SYN \<noteq> 0 then 1 else 0) + (if flags AND TCP_FLAG_FIN \<noteq> 0 then 1 else 0) + ucast len\<rparr>"

definition tcp_send_packet :: "nat \<Rightarrow> u8 \<Rightarrow> u8 list \<Rightarrow> u16 \<Rightarrow> net_state \<Rightarrow> net_state option" where
  "tcp_send_packet i flags data len st =
     (let sock = tcp_socks st ! i in
      Option.bind (send_over_ip (ts_remote_ip sock) IP_PROTO_TCP
          (\<lambda>total d. tcp_header (ts_local_port sock) (ts_remote_port sock) (snd_nxt sock) (rcv_nxt sock) flags (rcv_wnd sock) @ d) 20 data len st)
        (\<lambda>(sent, st1). Some (if sent then upd_tcp i (tcp_advance flags len) st1 else st1)))"

subsection \<open>The DHCP client\<close>

text \<open>A \<open>dhcp_packet_t\<close> has 552 bytes, the last 312 of them options; unset fields are 0.\<close>

definition dhcp_packet :: "u32 \<Rightarrow> u8 list \<Rightarrow> u8 list \<Rightarrow> u8 list" where
  "dhcp_packet xid mac options =
     [1, 1, 6, 0] @ le32 (htonl xid) @ le16 0 @ le16 (htons 0x8000) @ replicate 16 0 @ mac @ replicate (16 - length mac) 0 @
     replicate 192 0 @ le32 (htonl 0x63825363) @ options @ replicate (312 - length options) 0"

definition dhcp_frame :: "net_state \<Rightarrow> u32 \<Rightarrow> u8 list \<Rightarrow> u8 list" where
  "dhcp_frame st xid options =
     eth_header (replicate ETH_ALEN 0xFF) (local_mac st) ETH_TYPE_IP @
     ip_header 580 IP_PROTO_UDP 0 0xFFFFFFFF (ip_checksum (ip_header 580 IP_PROTO_UDP 0 0xFFFFFFFF 0)) @
     udp_header 68 67 560 @ dhcp_packet xid (local_mac st) options"

definition dhcp_send_discover :: "u64 \<Rightarrow> net_state \<Rightarrow> net_state" where
  "dhcp_send_discover tsc st =
     (let xid = ucast tsc; st1 = st\<lparr>dhcp_xid := xid\<rparr>
      in snd (net_tx_frame (dhcp_frame st1 xid [53, 1, 1, 255]) st1))"

definition be32 :: "u32 \<Rightarrow> u8 list" where
  "be32 v = [ucast (drop_bit 24 v), ucast (drop_bit 16 v), ucast (drop_bit 8 v), ucast v]"

definition dhcp_send_request :: "u32 \<Rightarrow> u32 \<Rightarrow> net_state \<Rightarrow> net_state" where
  "dhcp_send_request req_ip server_ip st =
     snd (net_tx_frame (dhcp_frame st (dhcp_xid st) ([53, 1, 3, 50, 4] @ be32 req_ip @ [54, 4] @ be32 server_ip @ [255])) st)"

text \<open>The loop over the options; \<open>opts\<close> runs to the end of the frame, \<open>opt_len\<close> is what the length field claims.\<close>

function dhcp_options :: "u8 list \<Rightarrow> nat \<Rightarrow> nat \<Rightarrow> int \<Rightarrow> u32 \<Rightarrow> (int \<times> u32) option" where
  "dhcp_options opts opt_len i msg_type server_id =
     (if i < opt_len then
        Option.bind (rd8 opts i) (\<lambda>opt.
          if opt = 255 then Some (msg_type, server_id)
          else if opt = 0 then dhcp_options opts opt_len (i + 1) msg_type server_id
          else if i + 1 \<ge> opt_len then Some (msg_type, server_id)
          else Option.bind (rd8 opts (i + 1)) (\<lambda>olen.
            if i + 2 + unat olen > opt_len then Some (msg_type, server_id)
            else if opt = 53 \<and> olen = 1 then
              Option.bind (rd8 opts (i + 2)) (\<lambda>v. dhcp_options opts opt_len (i + 2 + unat olen) (uint v) server_id)
            else if opt = 54 \<and> olen = 4 then
              Option.bind (rd32 opts (i + 2)) (\<lambda>v. dhcp_options opts opt_len (i + 2 + unat olen) msg_type (htonl v))
            else dhcp_options opts opt_len (i + 2 + unat olen) msg_type server_id))
      else Some (msg_type, server_id))"
  by pat_completeness auto

termination dhcp_options
  by (relation "measure (\<lambda>(opts, opt_len, i, _). opt_len - i)") auto

declare dhcp_options.simps [simp del]

text \<open>The message type, with the offered address and the server.\<close>

definition dhcp_parse_response :: "u8 list \<Rightarrow> nat \<Rightarrow> (int \<times> u32 \<times> u32) option" where
  "dhcp_parse_response dhcp len =
     (if len < 552 then Some (- 1, 0, 0)
      else Option.bind (rd8 dhcp 0) (\<lambda>op.
        if op \<noteq> 2 then Some (- 1, 0, 0)
        else Option.bind (rd32 dhcp 236) (\<lambda>cookie.
          if ntohl cookie \<noteq> 0x63825363 then Some (- 1, 0, 0)
          else Option.bind (rd32 dhcp 16) (\<lambda>yiaddr.
            let offered_ip = ntohl yiaddr in
            if offered_ip = 0 then Some (- 1, 0, 0)
            else Option.bind (dhcp_options (drop 240 dhcp) (len - 240) 0 (- 1) 0) (\<lambda>(msg_type, server_id).
              if msg_type < 0 then Some (- 1, 0, 0) else Some (msg_type, offered_ip, server_id))))))"

subsection \<open>Receiving\<close>

definition arp_learn :: "u32 \<Rightarrow> u8 list \<Rightarrow> net_state \<Rightarrow> net_state" where
  "arp_learn ip mac st =
     (case find_idx (\<lambda>e. ar_ip e = ip) (take (arp_count st) (arp_cache st)) of
        Some i \<Rightarrow> st\<lparr>arp_cache := (arp_cache st)[i := (arp_cache st ! i)\<lparr>ar_mac := mac\<rparr>]\<rparr>
      | None \<Rightarrow>
          if arp_count st < ARP_CACHE_SIZE
          then st\<lparr>arp_cache := (arp_cache st)[arp_count st := \<lparr>ar_ip = ip, ar_mac = mac\<rparr>], arp_count := arp_count st + 1\<rparr>
          else st)"

text \<open>The length of the packet is not looked at.\<close>

definition arp_handle_packet :: "u8 list \<Rightarrow> net_state \<Rightarrow> net_state option" where
  "arp_handle_packet arp st =
     Option.bind (rd16 arp 6) (\<lambda>opcode. Option.bind (rd32 arp 14) (\<lambda>sender_ip.
       if ntohs opcode = 1 then
         Option.bind (rd32 arp 24) (\<lambda>target_ip.
           if ntohl target_ip = local_ip st then
             Option.bind (rdn arp 8 ETH_ALEN) (\<lambda>sender_mac.
               Some (snd (net_tx_frame (eth_header sender_mac (local_mac st) ETH_TYPE_ARP @
                 arp_packet 2 (local_mac st) (htonl (local_ip st)) sender_mac sender_ip) st)))
           else Some st)
       else if ntohs opcode = 2 then
         Option.bind (rdn arp 8 ETH_ALEN) (\<lambda>sender_mac. Some (arp_learn (ntohl sender_ip) sender_mac st))
       else Some st))"

definition icmp_handle_packet :: "u8 list \<Rightarrow> u8 list \<Rightarrow> u16 \<Rightarrow> net_state \<Rightarrow> net_state option" where
  "icmp_handle_packet ip icmp len st =
     (if unat len < 8 then Some st
      else Option.bind (rd8 icmp 0) (\<lambda>itype.
        if itype = 8 then
          Option.bind (rd16 icmp 4) (\<lambda>ident. Option.bind (rd16 icmp 6) (\<lambda>seq. Option.bind (rd32 ip 12) (\<lambda>src_ip.
            icmp_send_echo_reply (ntohl src_ip) (ntohs ident) (ntohs seq) (drop 8 icmp) (len - 8) st)))
        else Some st))"

text \<open>A copy into a circular buffer, byte by byte, and the room that is left in it.\<close>

definition ring_put :: "u8 list \<Rightarrow> u32 \<Rightarrow> u8 list \<Rightarrow> u8 list" where
  "ring_put buf tail data = fold (\<lambda>i b. b[unat ((tail + of_nat i) mod of_nat (length buf)) := data ! i]) [0..<length data] buf"

definition rx_room :: "nat \<Rightarrow> u32 \<Rightarrow> u32 \<Rightarrow> u16 \<Rightarrow> u32" where
  "rx_room sz tail head len = (let avail = of_nat sz - (tail - head) in if avail > ucast len then ucast len else avail)"

definition udp_deliver :: "nat \<Rightarrow> u32 \<Rightarrow> u16 \<Rightarrow> u8 list \<Rightarrow> u16 \<Rightarrow> net_state \<Rightarrow> net_state option" where
  "udp_deliver i src_ip src_port data data_len st =
     (let s = udp_socks st ! i;
          avail = rx_room UDP_RX_BUF_SIZE (us_rx_tail s) (us_rx_head s) data_len
      in Option.bind (rdn data 0 (unat avail)) (\<lambda>d.
           let st1 = upd_udp i (\<lambda>s. s\<lparr>us_rx_buf := ring_put (us_rx_buf s) (us_rx_tail s) d, us_rx_tail := us_rx_tail s + avail,
                 peer_ip := src_ip, peer_port := src_port, has_data := True\<rparr>) st
           in Some (if waiter_pid s \<noteq> 0
                    then (upd_udp i (\<lambda>s. s\<lparr>waiter_pid := 0\<rparr>) st1)\<lparr>net_woken := net_woken st1 @ [waiter_pid s]\<rparr> else st1)))"

definition udp_handle_packet :: "u8 list \<Rightarrow> u8 list \<Rightarrow> u16 \<Rightarrow> net_state \<Rightarrow> net_state option" where
  "udp_handle_packet ip udp len st =
     (if unat len < 8 then Some st
      else Option.bind (rd16 udp 2) (\<lambda>dport. Option.bind (rd16 udp 0) (\<lambda>sport. Option.bind (rd32 ip 12) (\<lambda>sip.
        Option.bind (rd16 udp 4) (\<lambda>ulen.
          let dst_port = ntohs dport; src_port = ntohs sport; src_ip = ntohl sip; data_len = ntohs ulen - 8; data = drop 8 udp
          in if src_port = 67 \<and> dst_port = 68 \<and> \<not> net_configured st then
               Option.bind (dhcp_parse_response data (unat data_len)) (\<lambda>(msg_type, offered_ip, server_ip).
                 Some (if msg_type = 2 then dhcp_send_request offered_ip server_ip (st\<lparr>dhcp_server_ip := server_ip\<rparr>)
                       else if msg_type = 5 then st\<lparr>local_ip := offered_ip, net_configured := True\<rparr>
                       else st))
             else (case find_idx (\<lambda>s. us_bound s \<and> us_local_port s = dst_port) (udp_socks st) of
                 None \<Rightarrow> Some st
               | Some i \<Rightarrow> udp_deliver i src_ip src_port data data_len st))))))"

definition tcp_find_socket :: "u16 \<Rightarrow> u32 \<Rightarrow> u16 \<Rightarrow> tcp_socket list \<Rightarrow> nat option" where
  "tcp_find_socket local_port remote_ip remote_port socks =
     find_idx (\<lambda>s. ts_state s \<noteq> TCP_CLOSED \<and> ts_local_port s = local_port \<and>
       (if ts_state s = TCP_SYN_RECV \<or> ts_state s = TCP_ESTABLISHED then ts_remote_ip s = remote_ip \<and> ts_remote_port s = remote_port
        else ts_state s = TCP_LISTEN)) socks"

definition tcp_listen_syn :: "u16 \<Rightarrow> u32 \<Rightarrow> u16 \<Rightarrow> u32 \<Rightarrow> u8 list \<Rightarrow> net_state \<Rightarrow> net_state option" where
  "tcp_listen_syn dst_port src_ip src_port seq tcp st =
     (case find_idx (\<lambda>s. ts_state s = TCP_CLOSED) (tcp_socks st) of
        None \<Rightarrow> Some st
      | Some i \<Rightarrow> Option.bind (rd16 tcp 14) (\<lambda>window.
          tcp_send_packet i (TCP_FLAG_SYN OR TCP_FLAG_ACK) [] 0
            (upd_tcp i (\<lambda>_. zero_tcp\<lparr>ts_state := TCP_SYN_RECV, ts_local_ip := local_ip st, ts_local_port := dst_port,
               ts_remote_ip := src_ip, ts_remote_port := src_port, rcv_nxt := seq + 1, snd_nxt := tcp_next_seq st,
               snd_una := tcp_next_seq st, rcv_wnd := of_nat TCP_RX_BUF_SIZE, snd_wnd := ntohs window\<rparr>)
             (st\<lparr>tcp_next_seq := tcp_next_seq st + 1\<rparr>))))"

definition tcp_receive :: "nat \<Rightarrow> u32 \<Rightarrow> u8 list \<Rightarrow> u16 \<Rightarrow> net_state \<Rightarrow> net_state option" where
  "tcp_receive i seq payload payload_len st =
     (let s = tcp_socks st ! i;
          avail = rx_room TCP_RX_BUF_SIZE (ts_rx_tail s) (ts_rx_head s) payload_len
      in Option.bind (rdn payload 0 (unat avail)) (\<lambda>d.
           tcp_send_packet i TCP_FLAG_ACK [] 0
             (upd_tcp i (\<lambda>s. s\<lparr>ts_rx_buf := ring_put (ts_rx_buf s) (ts_rx_tail s) d, ts_rx_tail := ts_rx_tail s + avail,
                rcv_nxt := seq + ucast payload_len\<rparr>) st)))"

definition tcp_handle_packet :: "u8 list \<Rightarrow> u8 list \<Rightarrow> u16 \<Rightarrow> net_state \<Rightarrow> net_state option" where
  "tcp_handle_packet ip tcp len st =
     (if unat len < 20 then Some st
      else Option.bind (rd16 tcp 2) (\<lambda>dport. Option.bind (rd16 tcp 0) (\<lambda>sport. Option.bind (rd32 ip 12) (\<lambda>sip.
        Option.bind (rd32 tcp 4) (\<lambda>sq. Option.bind (rd32 tcp 8) (\<lambda>ak. Option.bind (rd8 tcp 13) (\<lambda>flags.
        Option.bind (rd8 tcp 12) (\<lambda>doff.
          let dst_port = ntohs dport; src_port = ntohs sport; src_ip = ntohl sip; seq = ntohl sq; ack = ntohl ak;
              data_offset = 4 * unat (drop_bit 4 doff AND 0x0F);
              payload_len = len - of_nat data_offset;
              payload = drop data_offset tcp
          in case tcp_find_socket dst_port src_ip src_port (tcp_socks st) of
               None \<Rightarrow> Some st
             | Some i \<Rightarrow>
                 let s = tcp_socks st ! i in
                 if ts_state s = TCP_LISTEN then
                   (if flags AND TCP_FLAG_SYN \<noteq> 0 then tcp_listen_syn dst_port src_ip src_port seq tcp st else Some st)
                 else if ts_state s = TCP_SYN_SENT then
                   (if flags AND (TCP_FLAG_SYN OR TCP_FLAG_ACK) = TCP_FLAG_SYN OR TCP_FLAG_ACK \<and> ack = snd_nxt s
                    then tcp_send_packet i TCP_FLAG_ACK [] 0 (upd_tcp i (\<lambda>s. s\<lparr>ts_state := TCP_ESTABLISHED, rcv_nxt := seq + 1\<rparr>) st)
                    else Some st)
                 else if ts_state s = TCP_SYN_RECV then
                   Some (if flags AND TCP_FLAG_ACK \<noteq> 0 then upd_tcp i (\<lambda>s. s\<lparr>ts_state := TCP_ESTABLISHED\<rparr>) st else st)
                 else if ts_state s = TCP_ESTABLISHED then
                   (if flags AND TCP_FLAG_FIN \<noteq> 0 then
                      Option.bind (tcp_send_packet i TCP_FLAG_ACK [] 0 (upd_tcp i (\<lambda>s. s\<lparr>rcv_nxt := seq + 1\<rparr>) st))
                        (\<lambda>st1. Some (upd_tcp i (\<lambda>s. s\<lparr>ts_state := TCP_CLOSE_WAIT\<rparr>) st1))
                    else if payload_len > 0 then tcp_receive i seq payload payload_len st
                    else Some st)
                 else if ts_state s = TCP_CLOSE_WAIT then
                   (if flags AND TCP_FLAG_FIN \<noteq> 0 then tcp_send_packet i TCP_FLAG_ACK [] 0 st else Some st)
                 else if ts_state s = TCP_LAST_ACK then
                   Some (if flags AND TCP_FLAG_ACK \<noteq> 0 then upd_tcp i (\<lambda>s. s\<lparr>ts_state := TCP_CLOSED\<rparr>) st else st)
                 else Some st))))))))"

definition ip_handle_packet :: "u8 list \<Rightarrow> nat \<Rightarrow> net_state \<Rightarrow> net_state option" where
  "ip_handle_packet ip len st =
     (if len < 20 then Some st
      else Option.bind (rd8 ip 0) (\<lambda>version_ihl.
        if version_ihl AND 0xF0 \<noteq> 0x40 then Some st
        else Option.bind (rd16 ip 2) (\<lambda>tl.
          let total_len = ntohs tl in
          if unat total_len > len then Some st
          else Option.bind (rd32 ip 16) (\<lambda>dst_ip.
            let dst = ntohl dst_ip in
            if dst \<noteq> local_ip st \<and> dst \<noteq> 0xFFFFFFFF then Some st
            else Option.bind (rd8 ip 9) (\<lambda>proto.
              let hl = 4 * unat (version_ihl AND 0x0F); payload = drop hl ip; payload_len = total_len - of_nat hl in
              if proto = IP_PROTO_ICMP then icmp_handle_packet ip payload payload_len st
              else if proto = IP_PROTO_UDP then udp_handle_packet ip payload payload_len st
              else if proto = IP_PROTO_TCP then tcp_handle_packet ip payload payload_len st
              else Some st)))))"

definition net_rx_frame :: "u8 list \<Rightarrow> net_state \<Rightarrow> net_state option" where
  "net_rx_frame data st =
     (if length data < 14 then Some st
      else Option.bind (rd16 data 12) (\<lambda>etype.
        if ntohs etype = ETH_TYPE_ARP then arp_handle_packet (drop 14 data) st
        else if ntohs etype = ETH_TYPE_IP then ip_handle_packet (drop 14 data) (length data - 14) st
        else Some st))"

definition generate_mac_from_cpuid :: "u32 \<Rightarrow> u32 \<Rightarrow> u32 \<Rightarrow> u32 \<Rightarrow> u8 list" where
  "generate_mac_from_cpuid eax ebx ecx edx =
     [0x02, ucast (eax AND 0xFF), ucast (drop_bit 8 eax AND 0xFF), ucast (ebx AND 0xFF), ucast (drop_bit 8 ebx AND 0xFF), ucast ((ecx XOR edx) AND 0xFF)]"

definition net_init :: "u64 \<Rightarrow> u64 \<Rightarrow> u32 \<Rightarrow> u32 \<Rightarrow> u32 \<Rightarrow> u32 \<Rightarrow> net_state \<Rightarrow> net_state" where
  "net_init tsc1 tsc2 eax ebx ecx edx st =
     (let st1 = st\<lparr>arp_cache := replicate ARP_CACHE_SIZE \<lparr>ar_ip = 0, ar_mac = replicate ETH_ALEN 0\<rparr>, sockets := replicate 128 zero_socket,
            tcp_socks := replicate 64 zero_tcp, udp_socks := replicate 32 zero_udp, arp_count := 0, tcp_next_seq := ucast tsc1,
            local_mac := generate_mac_from_cpuid eax ebx ecx edx\<rparr>
      in if net_configured st1 then st1 else dhcp_send_discover tsc2 st1)"

subsection \<open>Sockets\<close>

text \<open>
  The TCP and the UDP pointer of \<open>socket_t\<close> are one field, and most calls test and use the TCP one whatever the type
  of the socket is. Both structures begin with a 32-bit field, the state of a TCP socket and the local address of
  a UDP socket, which is what such a call reads and writes; a use of later fields through the wrong pointer is
  \<open>None\<close>.
\<close>

definition first_word :: "sock_ptr \<Rightarrow> net_state \<Rightarrow> int" where
  "first_word p st = (case p of NoSock \<Rightarrow> 0 | TcpSock i \<Rightarrow> ts_state (tcp_socks st ! i) | UdpSock i \<Rightarrow> sint (us_local_ip (udp_socks st ! i)))"

definition set_first_word :: "sock_ptr \<Rightarrow> int \<Rightarrow> net_state \<Rightarrow> net_state" where
  "set_first_word p v st =
     (case p of
        NoSock \<Rightarrow> st
      | TcpSock i \<Rightarrow> upd_tcp i (\<lambda>s. s\<lparr>ts_state := v\<rparr>) st
      | UdpSock i \<Rightarrow> upd_udp i (\<lambda>s. s\<lparr>us_local_ip := word_of_int v\<rparr>) st)"

definition sys_socket :: "int \<Rightarrow> int \<Rightarrow> int \<Rightarrow> net_state \<Rightarrow> int \<times> net_state" where
  "sys_socket domain stype protocol st =
     (if domain \<noteq> AF_INET then (- 1, st)
      else case find_idx (\<lambda>s. sk_domain s = 0) (sockets st) of
        None \<Rightarrow> (- 1, st)
      | Some fd \<Rightarrow>
          let set = (\<lambda>p. upd_sock fd (\<lambda>_. \<lparr>sk_domain = domain, sk_type = stype, sk_protocol = protocol, sk_ptr = p\<rparr>)) in
          if stype = SOCK_STREAM then
            (case find_idx (\<lambda>s. ts_state s = TCP_CLOSED) (tcp_socks st) of
               None \<Rightarrow> (- 1, upd_sock fd (\<lambda>_. zero_socket) st)
             | Some i \<Rightarrow> (int fd, set (TcpSock i) (upd_tcp i (\<lambda>_. zero_tcp) st)))
          else if stype = SOCK_DGRAM then
            (case find_idx (\<lambda>s. \<not> us_bound s) (udp_socks st) of
               None \<Rightarrow> (- 1, upd_sock fd (\<lambda>_. zero_socket) st)
             | Some i \<Rightarrow> (int fd, set (UdpSock i) (upd_udp i (\<lambda>_. zero_udp) st)))
          else (int fd, set NoSock st))"

definition bad_fd :: "int \<Rightarrow> bool" where
  "bad_fd fd \<longleftrightarrow> fd < 0 \<or> fd \<ge> 128"

definition sys_bind :: "int \<Rightarrow> u16 \<Rightarrow> u32 \<Rightarrow> net_state \<Rightarrow> int \<times> net_state" where
  "sys_bind sockfd sin_port sin_addr st =
     (if bad_fd sockfd then (- 1, st)
      else let sock = sockets st ! nat sockfd in
        if sk_domain sock = 0 then (- 1, st)
        else (0, case sk_ptr sock of
            TcpSock i \<Rightarrow> if sk_type sock = SOCK_STREAM then upd_tcp i (\<lambda>s. s\<lparr>ts_local_ip := ntohl sin_addr, ts_local_port := ntohs sin_port\<rparr>) st else st
          | UdpSock i \<Rightarrow> if sk_type sock = SOCK_DGRAM then upd_udp i (\<lambda>s. s\<lparr>us_local_ip := ntohl sin_addr, us_local_port := ntohs sin_port, us_bound := True\<rparr>) st else st
          | NoSock \<Rightarrow> st))"

definition sys_listen :: "int \<Rightarrow> int \<Rightarrow> net_state \<Rightarrow> int \<times> net_state" where
  "sys_listen sockfd backlog st =
     (if bad_fd sockfd then (- 1, st)
      else let p = sk_ptr (sockets st ! nat sockfd) in
        if p = NoSock then (- 1, st) else (0, set_first_word p TCP_LISTEN st))"

text \<open>The peer is the port and the address written to \<open>addr\<close>.\<close>

definition sys_accept :: "int \<Rightarrow> net_state \<Rightarrow> int \<times> (u16 \<times> u32) option \<times> net_state" where
  "sys_accept sockfd st =
     (if bad_fd sockfd then (- 1, None, st)
      else let p = sk_ptr (sockets st ! nat sockfd) in
        if p = NoSock \<or> first_word p st \<noteq> TCP_LISTEN then (- 1, None, st)
        else case find_idx (\<lambda>s. ts_state s = TCP_SYN_RECV) (tcp_socks st) of
          None \<Rightarrow> (- 1, None, st)
        | Some i \<Rightarrow>
            (case find_idx (\<lambda>s. sk_domain s = 0) (sockets st) of
               None \<Rightarrow> (- 1, None, st)
             | Some new_fd \<Rightarrow>
                 (int new_fd, Some (htons (ts_remote_port (tcp_socks st ! i)), htonl (ts_remote_ip (tcp_socks st ! i))),
                  upd_tcp i (\<lambda>s. s\<lparr>ts_state := TCP_ESTABLISHED\<rparr>)
                    (upd_sock new_fd (\<lambda>_. zero_socket\<lparr>sk_domain := AF_INET, sk_type := SOCK_STREAM, sk_ptr := TcpSock i\<rparr>) st))))"

definition sys_connect :: "int \<Rightarrow> u16 \<Rightarrow> u32 \<Rightarrow> net_state \<Rightarrow> (int \<times> net_state) option" where
  "sys_connect sockfd sin_port sin_addr st =
     (if bad_fd sockfd then Some (- 1, st)
      else case sk_ptr (sockets st ! nat sockfd) of
        NoSock \<Rightarrow> Some (- 1, st)
      | UdpSock i \<Rightarrow> None
      | TcpSock i \<Rightarrow>
          map_option (Pair 0) (tcp_send_packet i TCP_FLAG_SYN [] 0
            (upd_tcp i (\<lambda>s. s\<lparr>ts_remote_ip := ntohl sin_addr, ts_remote_port := ntohs sin_port, ts_local_ip := local_ip st,
               ts_local_port := (if ts_local_port s = 0 then ucast (0xC000 + tcp_next_seq st mod 0x4000) else ts_local_port s),
               snd_nxt := tcp_next_seq st, snd_una := tcp_next_seq st, rcv_wnd := of_nat TCP_RX_BUF_SIZE, ts_state := TCP_SYN_SENT\<rparr>)
             (st\<lparr>tcp_next_seq := tcp_next_seq st + 1\<rparr>))))"

function send_chunks :: "nat \<Rightarrow> u8 list \<Rightarrow> net_state \<Rightarrow> net_state option" where
  "send_chunks i buf st =
     (if buf = [] then Some st
      else let chunk = min (length buf) TCP_MSS in
        Option.bind (tcp_send_packet i (TCP_FLAG_ACK OR TCP_FLAG_PSH) (take chunk buf) (of_nat chunk) st) (send_chunks i (drop chunk buf)))"
  by pat_completeness auto

termination send_chunks
  by (relation "measure (\<lambda>(i, buf, st). length buf)") (auto simp: min_def)

declare send_chunks.simps [simp del]

text \<open>The buffer is a list of \<open>len\<close> bytes.\<close>

definition sys_send :: "int \<Rightarrow> u8 list \<Rightarrow> net_state \<Rightarrow> (int \<times> net_state) option" where
  "sys_send sockfd buf st =
     (if bad_fd sockfd then Some (- 1, st)
      else let p = sk_ptr (sockets st ! nat sockfd) in
        if p = NoSock \<or> first_word p st \<noteq> TCP_ESTABLISHED then Some (- 1, st)
        else (case p of
            TcpSock i \<Rightarrow> map_option (Pair (to_int (length buf))) (send_chunks i buf st)
          | _ \<Rightarrow> None))"

definition sys_recv :: "int \<Rightarrow> nat \<Rightarrow> net_state \<Rightarrow> (int \<times> u8 list \<times> net_state) option" where
  "sys_recv sockfd len st =
     (if bad_fd sockfd then Some (- 1, [], st)
      else case sk_ptr (sockets st ! nat sockfd) of
        NoSock \<Rightarrow> Some (- 1, [], st)
      | UdpSock i \<Rightarrow> None
      | TcpSock i \<Rightarrow>
          let s = tcp_socks st ! i;
              avail = (let a = ts_rx_tail s - ts_rx_head s in if unat a > len then of_nat len else a)
          in Some (to_int (unat avail), ring_read (ts_rx_buf s) (unat (ts_rx_head s)) (unat avail),
               upd_tcp i (\<lambda>s. s\<lparr>ts_rx_head := ts_rx_head s + avail\<rparr>) st))"

text \<open>The length argument of \<open>sys_sendto\<close> is cut to 16 bits for the packet, and returned whole.\<close>

definition sys_sendto :: "int \<Rightarrow> u8 list \<Rightarrow> nat \<Rightarrow> u16 \<Rightarrow> u32 \<Rightarrow> net_state \<Rightarrow> (int \<times> net_state) option" where
  "sys_sendto sockfd buf len sin_port sin_addr st =
     (if bad_fd sockfd then Some (- 1, st)
      else case sk_ptr (sockets st ! nat sockfd) of
        NoSock \<Rightarrow> Some (- 1, st)
      | TcpSock i \<Rightarrow> map_option (Pair (to_int len))
          (udp_send_packet (ntohl sin_addr) (ucast (ts_local_ip (tcp_socks st ! i))) (ntohs sin_port) buf (of_nat len) st)
      | UdpSock i \<Rightarrow> map_option (Pair (to_int len))
          (udp_send_packet (ntohl sin_addr) (us_local_port (udp_socks st ! i)) (ntohs sin_port) buf (of_nat len) st))"

definition sys_recvfrom :: "int \<Rightarrow> nat \<Rightarrow> net_state \<Rightarrow> (int \<times> u8 list \<times> (u16 \<times> u32) option \<times> net_state) option" where
  "sys_recvfrom sockfd len st =
     (if bad_fd sockfd then Some (- 1, [], None, st)
      else case sk_ptr (sockets st ! nat sockfd) of
        NoSock \<Rightarrow> Some (- 1, [], None, st)
      | TcpSock i \<Rightarrow> None
      | UdpSock i \<Rightarrow>
          let s = udp_socks st ! i;
              avail = (let a = us_rx_tail s - us_rx_head s in if unat a > len then of_nat len else a)
          in Some (to_int (unat avail), ring_read (us_rx_buf s) (unat (us_rx_head s)) (unat avail),
               Some (htons (peer_port s), htonl (peer_ip s)),
               upd_udp i (\<lambda>s. s\<lparr>us_rx_head := us_rx_head s + avail,
                 has_data := (if us_rx_head s + avail = us_rx_tail s then False else has_data s)\<rparr>) st))"

definition sys_shutdown :: "int \<Rightarrow> int \<Rightarrow> net_state \<Rightarrow> (int \<times> net_state) option" where
  "sys_shutdown sockfd how st =
     (if bad_fd sockfd then Some (- 1, st)
      else let p = sk_ptr (sockets st ! nat sockfd) in
        if p = NoSock then Some (- 1, st)
        else if first_word p st \<noteq> TCP_ESTABLISHED then Some (0, st)
        else (case p of
            TcpSock i \<Rightarrow> map_option (Pair 0) (tcp_send_packet i (TCP_FLAG_FIN OR TCP_FLAG_ACK) [] 0 (set_first_word p TCP_FIN_WAIT1 st))
          | _ \<Rightarrow> None))"

definition sys_close_socket :: "int \<Rightarrow> net_state \<Rightarrow> (int \<times> net_state) option" where
  "sys_close_socket sockfd st =
     (if bad_fd sockfd then Some (- 1, st)
      else let p = sk_ptr (sockets st ! nat sockfd) in
        Option.bind
          (if p \<noteq> NoSock then
             Option.bind (if first_word p st = TCP_ESTABLISHED \<or> first_word p st = TCP_CLOSE_WAIT then map_option snd (sys_shutdown sockfd 0 st) else Some st)
               (\<lambda>st1. Some (upd_sock (nat sockfd) (\<lambda>s. s\<lparr>sk_ptr := NoSock\<rparr>) (set_first_word p TCP_CLOSED st1)))
           else Some st) (\<lambda>st2.
        let st3 = (case sk_ptr (sockets st2 ! nat sockfd) of UdpSock i \<Rightarrow> upd_udp i (\<lambda>s. s\<lparr>us_bound := False\<rparr>) st2 | _ \<Rightarrow> st2)
        in Some (0, upd_sock (nat sockfd) (\<lambda>_. zero_socket) st3)))"

end
