(* ===== verification/Net_Stream.thy ===== *)
theory Net_Stream
  imports Net
begin

section \<open>What the network stack delivers\<close>

text \<open>
  Properties of the theory \<open>Net\<close>: checksums verify, bytes sent on a TCP connection arrive in order at the other
  machine, an echo request is answered, and which connections, sockets and configurations never work.
\<close>

subsection \<open>Numbers survive the wire\<close>

lemma ntohs_htons [simp]: "ntohs (htons v) = v"
proof (rule bit_word_eqI)
  fix n assume "n < LENGTH(16)"
  then show "bit (ntohs (htons v)) n = bit v n"
    unfolding ntohs_def htons_def by (cases "n < 8") (simp_all add: bit_simps not_less)
qed

lemma bit_byte_masks:
  "bit (0xFF :: u32) n \<longleftrightarrow> n < 8" "bit (0xFF00 :: u32) n \<longleftrightarrow> 8 \<le> n \<and> n < 16"
  "bit (0xFF0000 :: u32) n \<longleftrightarrow> 16 \<le> n \<and> n < 24" "bit (0xFF000000 :: u32) n \<longleftrightarrow> 24 \<le> n \<and> n < 32"
proof -
  have m: "(0xFF :: u32) = mask 8" "(0xFF00 :: u32) = push_bit 8 (mask 8)" "(0xFF0000 :: u32) = push_bit 16 (mask 8)" "(0xFF000000 :: u32) = push_bit 24 (mask 8)"
    by (simp_all add: mask_eq_exp_minus_1 push_bit_eq_mult)
  show "bit (0xFF :: u32) n \<longleftrightarrow> n < 8" "bit (0xFF00 :: u32) n \<longleftrightarrow> 8 \<le> n \<and> n < 16"
    "bit (0xFF0000 :: u32) n \<longleftrightarrow> 16 \<le> n \<and> n < 24" "bit (0xFF000000 :: u32) n \<longleftrightarrow> 24 \<le> n \<and> n < 32"
    unfolding m by (auto simp: bit_simps)
qed

lemma bit_htonl: "bit (htonl v) n \<longleftrightarrow>
   (if n < 8 then bit v (n + 24) else if n < 16 then bit v (n + 8) else if n < 24 then bit v (n - 8) else n < 32 \<and> bit v (n - 24))"
  unfolding htonl_def bit_or_iff bit_and_iff bit_byte_masks bit_push_bit_iff bit_drop_bit_eq possible_bit_word comp_def
  by (auto simp: add.commute dest: bit_imp_le_length)

lemma ntohl_htonl [simp]: "ntohl (htonl v) = v"
  by (rule bit_word_eqI) (auto simp: ntohl_def bit_htonl)

lemma word16_le [simp]: "word16 (ucast v) (ucast (drop_bit 8 v)) = v"
  by (rule bit_word_eqI) (auto simp: word16_def bit_simps)

lemma word32_le [simp]:
  "ucast (word16 (ucast v) (ucast (drop_bit 8 v))) OR push_bit 16 (ucast (word16 (ucast (drop_bit 16 v)) (ucast (drop_bit 24 v)))) = (v :: u32)"
proof (rule bit_word_eqI)
  fix n assume n: "n < LENGTH(32)"
  have "16 + (n - 16) = n" if "16 \<le> n" using that by simp
  then show "bit (ucast (word16 (ucast v) (ucast (drop_bit 8 v))) OR push_bit 16 (ucast (word16 (ucast (drop_bit 16 v)) (ucast (drop_bit 24 v)))) :: u32) n = bit v n"
    using n by (cases "n < 16"; cases "n < 24") (auto simp: word16_def bit_simps)
qed

lemma length_headers [simp]:
  "length (le16 v) = 2" "length (le32 w) = 4" "length (ip_header tlen pr src dst ck) = 20" "length (icmp_header t c i s) = 8"
  "length (udp_header sp dp l) = 8" "length (tcp_header sp dp sq ak fl wn) = 20"
  "length (eth_header dm sm et) = length dm + length sm + 2"
  by (simp_all add: le16_def le32_def ip_header_def icmp_header_def udp_header_def tcp_header_def eth_header_def)

text \<open>Reading behind a prefix of known length.\<close>

lemma rd_append:
  "n = length xs + off \<Longrightarrow> rd8 (xs @ ys) n = rd8 ys off" "n = length xs + off \<Longrightarrow> rd16 (xs @ ys) n = rd16 ys off"
  "n = length xs + off \<Longrightarrow> rd32 (xs @ ys) n = rd32 ys off"
  by (auto simp: rd8_def rd16_def rd32_def nth_append add.assoc)

lemma rd_le [simp]: "rd16 (le16 v @ ys) 0 = Some v" "rd32 (le32 w @ ys) 0 = Some w"
  by (simp_all add: rd16_def rd32_def le16_def le32_def)

lemma ip_fields [simp]:
  "rd8 (ip_header tlen pr src dst ck @ d) 0 = Some 0x45" "rd16 (ip_header tlen pr src dst ck @ d) 2 = Some (htons tlen)"
  "rd8 (ip_header tlen pr src dst ck @ d) 9 = Some pr" "rd32 (ip_header tlen pr src dst ck @ d) 12 = Some (htonl src)"
  "rd32 (ip_header tlen pr src dst ck @ d) 16 = Some (htonl dst)"
  by (simp_all add: ip_header_def le16_def le32_def rd8_def rd16_def rd32_def)

lemma tcp_fields [simp]:
  "rd16 (tcp_header sp dp sq ak fl wn @ d) 0 = Some (htons sp)" "rd16 (tcp_header sp dp sq ak fl wn @ d) 2 = Some (htons dp)"
  "rd32 (tcp_header sp dp sq ak fl wn @ d) 4 = Some (htonl sq)" "rd32 (tcp_header sp dp sq ak fl wn @ d) 8 = Some (htonl ak)"
  "rd8 (tcp_header sp dp sq ak fl wn @ d) 12 = Some 0x50" "rd8 (tcp_header sp dp sq ak fl wn @ d) 13 = Some fl"
  "rd16 (tcp_header sp dp sq ak fl wn @ d) 14 = Some (htons wn)"
  by (simp_all add: tcp_header_def le16_def le32_def rd8_def rd16_def rd32_def)

lemma icmp_fields [simp]:
  "rd8 (icmp_header t c i q @ d) 0 = Some t" "rd16 (icmp_header t c i q @ d) 4 = Some (htons i)" "rd16 (icmp_header t c i q @ d) 6 = Some (htons q)"
  by (simp_all add: icmp_header_def le16_def rd8_def rd16_def)

lemma udp_fields [simp]:
  "rd16 (udp_header sp dp l @ d) 0 = Some (htons sp)" "rd16 (udp_header sp dp l @ d) 2 = Some (htons dp)" "rd16 (udp_header sp dp l @ d) 4 = Some (htons l)"
  by (simp_all add: udp_header_def le16_def rd16_def)

lemma eth_fields:
  assumes "length dm = 6" "length sm = 6"
  shows "rd16 (eth_header dm sm et @ d) 12 = Some (htons et)" "drop 14 (eth_header dm sm et @ d) = d"
  using assms rd_append(2)[of 12 "dm @ sm" 0 "le16 (htons et) @ d"] by (simp_all add: eth_header_def)

subsection \<open>Checksums verify\<close>

text \<open>Folding the carries gives the representative of the sum modulo 65535, which is 0 only for 0.\<close>

lemma carry_mod: "carry_sum s mod 65535 = unat s mod 65535" "0 < unat s \<Longrightarrow> 0 < carry_sum s"
proof -
  have d: "unat s = 65536 * (unat s div 65536) + unat s mod 65536" by simp
  then have e: "unat s = 65535 * (unat s div 65536) + carry_sum s" unfolding carry_sum_def by linarith
  show "carry_sum s mod 65535 = unat s mod 65535" using arg_cong[OF e, of "\<lambda>x. x mod 65535"] by simp
  show "0 < carry_sum s" if "0 < unat s" using that e d unfolding carry_sum_def by linarith
qed

lemma fold_sum_repr: "unat (fold_sum s) < 65536 \<and> unat (fold_sum s) mod 65535 = unat s mod 65535 \<and> (0 < unat s \<longrightarrow> 0 < unat (fold_sum s))"
proof (induction s rule: fold_sum.induct)
  case (1 s)
  show ?case
  proof (cases "drop_bit 16 s \<noteq> 0")
    case True
    then show ?thesis using "1.IH"[OF True] carry_mod[of s] unat_carry[of s] by (subst (1 2 3) fold_sum.simps) simp
  next
    case False
    then show ?thesis using high_part[of s] by (subst (1 2 3) fold_sum.simps) simp
  qed
qed

fun wsum :: "u8 list \<Rightarrow> nat" where
  "wsum (b0 # b1 # bs) = unat (word16 b0 b1) + wsum bs"
| "wsum [b] = unat b"
| "wsum [] = 0"

lemma unat_16 [simp]: "unat (x :: u16) < 65536" "unat (x :: u16) \<le> 65535"
  using unsigned_less[of x, where 'a = nat] by simp_all

lemma wsum_le: "wsum bs \<le> 65535 * ((length bs + 1) div 2)"
proof (induction bs rule: wsum.induct)
  case (1 b0 b1 bs)
  have "(length (b0 # b1 # bs) + 1) div 2 = (length bs + 1) div 2 + 1" by simp
  then show ?case using 1 unat_16(2)[of "word16 b0 b1"] by (simp del: unat_16)
next
  case (2 b)
  then show ?case using unsigned_less[of b, where 'a = nat] by simp
qed simp

lemma unat_sum_words: "unat s + wsum bs < 2 ^ 32 \<Longrightarrow> unat (sum_words bs s) = unat s + wsum bs"
proof (induction bs s rule: sum_words.induct)
  case (1 b0 b1 bs s)
  have u: "unat (ucast (word16 b0 b1) :: u32) = unat (word16 b0 b1)" by (simp add: unsigned_ucast_eq take_bit_nat_eq_self_iff less_trans[OF unat_16(1)])
  have "unat (s + ucast (word16 b0 b1)) = unat s + unat (word16 b0 b1)" using "1.prems" u by (subst unat_add_noof) simp_all
  then show ?case using "1.IH" "1.prems" by simp
next
  case (2 b s)
  have "unat (ucast b :: u32) = unat b" using unsigned_less[of b, where 'a = nat] by (simp add: unsigned_ucast_eq take_bit_nat_eq_self_iff)
  then show ?case using 2 by (simp add: unat_add_noof)
qed simp

lemma unat_checksum:
  assumes "wsum bs < 2 ^ 32"
  shows "unat (ip_checksum bs) = 65535 - unat (fold_sum (sum_words bs 0))"
proof -
  let ?f = "fold_sum (sum_words bs 0)"
  have l: "unat ?f < 65536" using fold_sum_repr by blast
  have "ucast (NOT ?f) = NOT (ucast ?f :: u16)" by (rule bit_word_eqI) (simp add: bit_simps)
  moreover have "unat (ucast ?f :: u16) = unat ?f" using l by (simp add: unsigned_ucast_eq take_bit_nat_eq_self_iff)
  moreover have "unat (NOT x) = 65535 - unat x" for x :: u16
  proof -
    have "NOT x = - 1 - x" by (simp add: not_eq_complement)
    moreover have "unat (- 1 - x) = unat (- 1 :: u16) - unat x" by (rule unat_sub) (simp add: word_le_nat_alt unsigned_minus_1_eq_mask mask_eq_exp_minus_1)
    ultimately show ?thesis by (simp add: unsigned_minus_1_eq_mask mask_eq_exp_minus_1)
  qed
  ultimately show ?thesis by (simp add: ip_checksum_def)
qed

lemma checksum_verifies:
  assumes s: "wsum bs' = wsum bs + unat (ip_checksum bs)" and b: "wsum bs + 65535 < 2 ^ 32"
  shows "ip_checksum bs' = 0"
proof -
  let ?f = "fold_sum (sum_words bs 0)"
  have u: "unat (sum_words bs 0) = wsum bs" using unat_sum_words[of 0 bs] b by simp
  have f: "unat ?f < 65536" "unat ?f mod 65535 = wsum bs mod 65535" using fold_sum_repr[of "sum_words bs 0"] u by simp_all
  have c: "unat (ip_checksum bs) = 65535 - unat ?f" using b by (intro unat_checksum) simp
  have "wsum bs' \<le> wsum bs + 65535" using s c by simp
  then have l: "wsum bs' < 2 ^ 32" using b by simp
  then have u': "unat (sum_words bs' 0) = wsum bs'" using unat_sum_words[of 0 bs'] by simp
  have "(wsum bs + (65535 - unat ?f)) mod 65535 = (unat ?f + (65535 - unat ?f)) mod 65535" using f(2) by (metis mod_add_left_eq)
  then have z: "wsum bs' mod 65535 = 0" using s c f(1) by simp
  have pos: "0 < wsum bs'"
  proof (cases "wsum bs = 0")
    case True
    then have "sum_words bs 0 = 0" using u by (simp add: unat_eq_0)
    then have "?f = 0" by (simp add: fold_sum.simps[of 0])
    then show ?thesis using s c by simp
  qed (use s in simp)
  let ?g = "fold_sum (sum_words bs' 0)"
  have g: "unat ?g < 65536" "unat ?g mod 65535 = 0" "0 < unat ?g" using fold_sum_repr[of "sum_words bs' 0"] u' z pos by simp_all
  obtain k where k: "unat ?g = 65535 * k" using g(2) by (metis mod_0_imp_dvd dvdE)
  then have "k = 1" using g(1,3) by simp
  then have "unat ?g = 65535" using k by simp
  then have "unat (ip_checksum bs') = 0" using unat_checksum[OF l] by simp
  then show ?thesis by simp
qed

lemma ip_header_checksum: "ip_checksum (ip_header tlen pr src dst (ip_checksum (ip_header tlen pr src dst 0))) = 0"
proof (rule checksum_verifies)
  let ?h = "ip_header tlen pr src dst"
  have w: "wsum (?h ck) = wsum (?h 0) + unat ck" for ck
    by (simp add: ip_header_def le16_def le32_def word16_le[of ck, unfolded word16_def] word16_def)
  show "wsum (?h (ip_checksum (?h 0))) = wsum (?h 0) + unat (ip_checksum (?h 0))" by (rule w)
  show "wsum (?h 0) + 65535 < 2 ^ 32" using wsum_le[of "?h 0"] by simp
qed

lemma icmp_checksum:
  assumes "length d \<le> 65527"
  shows "ip_checksum (icmp_header t (ip_checksum (icmp_header t 0 i q @ d)) i q @ d) = 0"
proof (rule checksum_verifies)
  let ?h = "\<lambda>ck. icmp_header t ck i q @ d"
  have w: "wsum (?h ck) = wsum (?h 0) + unat ck" for ck
    by (simp add: icmp_header_def le16_def word16_le[of ck, unfolded word16_def] word16_def)
  show "wsum (?h (ip_checksum (?h 0))) = wsum (?h 0) + unat (ip_checksum (?h 0))" by (rule w)
  show "wsum (?h 0) + 65535 < 2 ^ 32" using wsum_le[of "?h 0"] assms by simp
qed

subsection \<open>Receive buffers are bounded queues\<close>

lemma pow_32:
  assumes "k < 32"
  shows "(2 :: nat) ^ k < 2 ^ 32" "(2 :: nat) ^ k dvd 2 ^ 32" "unat (2 ^ k :: u32) = 2 ^ k"
  using assms unat_exp[of k, where 'a = 32] power_strict_increasing[of k 32 "2 :: nat"] le_imp_power_dvd[of k 32 "2 :: nat"] by simp_all

lemma ring_idx:
  assumes "k < 32"
  shows "unat ((t + of_nat i) mod 2 ^ k :: u32) = (unat t + i) mod 2 ^ k"
proof -
  have "unat (t + of_nat i) = (unat t + i) mod 2 ^ 32" by (simp add: unat_word_ariths unsigned_of_nat mod_add_right_eq take_bit_eq_mod)
  then show ?thesis using pow_32[OF assms] by (simp only: unat_mod_distrib mod_mod_cancel)
qed

lemma add_mod_inj:
  assumes "(a + j) mod n = (a + m) mod n" "j < n" "m < (n :: nat)"
  shows "j = m"
proof -
  have "x = y" if "y \<le> x" "x < n" "(a + x) mod n = (a + y) mod n" for x y
  proof -
    have "n dvd (a + x) - (a + y)" using that(1,3) by (subst mod_eq_dvd_iff_nat[symmetric]) simp_all
    then have "n dvd x - y" by simp
    moreover have "x - y < n" using that(2) by simp
    ultimately have "x - y = 0" using nat_dvd_not_less by blast
    then show ?thesis using that(1) by simp
  qed
  then show ?thesis using assms by (metis nat_le_linear)
qed

lemma ring_put_upto:
  fixes t :: u32
  assumes l: "length buf = 2 ^ k" "k < 32" and m: "m \<le> 2 ^ k" and j: "j < 2 ^ k"
  shows "length (fold (\<lambda>i b. b[unat ((t + of_nat i) mod of_nat (length buf)) := data ! i]) [0..<m] buf) = 2 ^ k \<and>
    fold (\<lambda>i b. b[unat ((t + of_nat i) mod of_nat (length buf)) := data ! i]) [0..<m] buf ! ((unat t + j) mod 2 ^ k) =
    (if j < m then data ! j else buf ! ((unat t + j) mod 2 ^ k))"
  using m
proof (induction m)
  case (Suc m)
  have e: "(unat t + j) mod 2 ^ k = (unat t + m) mod 2 ^ k \<longleftrightarrow> j = m"
    using add_mod_inj[of "unat t" j "2 ^ k" m] j Suc.prems by auto
  have r: "unat ((t + of_nat i) mod of_nat (length buf)) = (unat t + i) mod 2 ^ k" for i using ring_idx[OF l(2), of t i] l(1) by simp
  show ?case using Suc e unfolding upt_Suc_append[OF le0] fold_append fold.simps comp_def id_def r by (auto simp: nth_list_update)
qed (use l in simp)

lemma ring_put_write:
  assumes l: "length buf = 2 ^ k" "k < 32" and n: "length data \<le> 2 ^ k"
  shows "ring_put buf t data = ring_write buf (unat t mod 2 ^ k) data (length data)"
proof (rule nth_equalityI)
  show "length (ring_put buf t data) = length (ring_write buf (unat t mod 2 ^ k) data (length data))"
    using ring_put_upto[OF l n, of 0 t data] l unfolding ring_put_def by simp
  fix i assume "i < length (ring_put buf t data)"
  then have i: "i < 2 ^ k" using ring_put_upto[OF l n, of 0 t data] unfolding ring_put_def by simp
  let ?s = "unat t mod 2 ^ k"
  have s: "?s < 2 ^ k" by simp
  define j where "j = (2 ^ k + i - ?s) mod 2 ^ k"
  have j: "j < 2 ^ k" by (simp add: j_def)
  have "(unat t + j) mod 2 ^ k = (?s + (2 ^ k + i - ?s)) mod 2 ^ k" unfolding j_def by (simp add: mod_add_left_eq mod_add_right_eq)
  then have p: "(unat t + j) mod 2 ^ k = i" using s i by simp
  have p': "(?s + j) mod length buf = i" using p l(1) by (simp add: mod_add_left_eq)
  have "ring_put buf t data ! i = (if j < length data then data ! j else buf ! i)"
    using ring_put_upto[OF l n j, of t data] unfolding p ring_put_def by blast
  also have "\<dots> = ring_write buf ?s data (length data) ! i"
    using nth_ring_write[of ?s buf "length data" data j] s n j l(1) unfolding p' by simp
  finally show "ring_put buf t data ! i = ring_write buf ?s data (length data) ! i" .
qed

text \<open>A ring of \<open>2 ^ k\<close> bytes between two free-running 32-bit indices.\<close>

definition ring_ok :: "nat \<Rightarrow> u8 list \<Rightarrow> u32 \<Rightarrow> u32 \<Rightarrow> bool" where
  "ring_ok k buf h t \<longleftrightarrow> length buf = 2 ^ k \<and> unat (t - h) \<le> 2 ^ k"

definition ring_bytes :: "u8 list \<Rightarrow> u32 \<Rightarrow> u32 \<Rightarrow> u8 list" where
  "ring_bytes buf h t = ring_read buf (unat h) (unat (t - h))"

lemma unat_32: "unat (x :: u32) < 2 ^ 32"
  using unsigned_less[of x, where 'a = nat] by simp

lemma unat_rx_room:
  assumes "unat (t - h) \<le> 2 ^ k" "k < 32"
  shows "unat (rx_room (2 ^ k) t h len) = min (unat len) (2 ^ k - unat (t - h))"
proof -
  have p: "unat (of_nat (2 ^ k) :: u32) = 2 ^ k" using pow_32(3)[OF assms(2)] by simp
  have "t - h \<le> of_nat (2 ^ k)" using assms(1) p by (simp add: word_le_nat_alt)
  then have s: "unat (of_nat (2 ^ k) - (t - h)) = 2 ^ k - unat (t - h)" using p by (simp only: unat_sub)
  have u: "unat (ucast len :: u32) = unat len" using less_trans[OF unat_16(1)[of len], of "2 ^ 32"] by (simp add: unsigned_ucast_eq take_bit_nat_eq_self_iff)
  show ?thesis unfolding rx_room_def Let_def by (simp only: word_less_nat_alt s u min_def if_distrib[of unat] not_le[symmetric]) auto
qed

lemma ring_enq:
  assumes ok: "ring_ok k buf h t" "k < 32" and n: "length d \<le> 2 ^ k - unat (t - h)" and a: "unat a = length d"
  shows "ring_ok k (ring_put buf t d) h (t + a)" "ring_bytes (ring_put buf t d) h (t + a) = ring_bytes buf h t @ d"
proof -
  have l: "length buf = 2 ^ k" and c: "unat (t - h) \<le> 2 ^ k" using ok(1) by (simp_all add: ring_ok_def)
  have nd: "length d \<le> 2 ^ k" using n by simp
  note k32 = pow_32(1,2)[OF ok(2)]
  have cnt: "unat (t + a - h) = unat (t - h) + length d"
  proof -
    have e: "t + a - h = (t - h) + a" by simp
    have "unat (t - h) + unat a < 2 ^ LENGTH(32)" using n a c k32(1) by simp
    then have "unat ((t - h) + a) = unat (t - h) + unat a" by (rule unat_add_noof)
    then show ?thesis unfolding e using a by simp
  qed
  have pos: "unat t mod 2 ^ k = (unat h + unat (t - h)) mod length buf"
  proof -
    have "unat t = unat (h + (t - h))" by simp
    also have "\<dots> = (unat h + unat (t - h)) mod 2 ^ 32" by (simp only: unat_word_ariths) simp
    finally have "unat t mod 2 ^ k = (unat h + unat (t - h)) mod 2 ^ 32 mod 2 ^ k" by simp
    also have "\<dots> = (unat h + unat (t - h)) mod 2 ^ k" using k32(2) by (simp only: mod_mod_cancel)
    finally show ?thesis using l by simp
  qed
  have w: "ring_put buf t d = ring_write buf ((unat h + unat (t - h)) mod length buf) d (length d)"
    unfolding ring_put_write[OF l ok(2) nd] pos ..
  show "ring_ok k (ring_put buf t d) h (t + a)" using l n c cnt unfolding ring_ok_def w by simp
  show "ring_bytes (ring_put buf t d) h (t + a) = ring_bytes buf h t @ d"
    unfolding ring_bytes_def cnt w using ring_read_write[of buf "unat (t - h)" "length d" d "unat h"] l n c by simp
qed

lemma ring_deq:
  assumes ok: "ring_ok k buf h t" "k < 32" and a: "unat a \<le> unat (t - h)"
  shows "ring_ok k buf (h + a) t" "ring_bytes buf (h + a) t = drop (unat a) (ring_bytes buf h t)"
    "ring_read buf (unat h) (unat a) = take (unat a) (ring_bytes buf h t)"
proof -
  have l: "length buf = 2 ^ k" and c: "unat (t - h) \<le> 2 ^ k" using ok(1) by (simp_all add: ring_ok_def)
  have cnt: "unat (t - (h + a)) = unat (t - h) - unat a"
  proof -
    have "t - (h + a) = (t - h) - a" by simp
    moreover have "a \<le> t - h" using a by (simp add: word_le_nat_alt)
    ultimately show ?thesis by (simp only: unat_sub)
  qed
  show "ring_ok k buf (h + a) t" using l c cnt by (simp add: ring_ok_def)
  have "ring_read buf (unat (h + a)) n = ring_read buf (unat h + unat a) n" for n
  proof -
    have "unat (h + a) mod length buf = (unat h + unat a) mod length buf"
      unfolding unat_word_ariths l using pow_32(2)[OF ok(2)] by (simp add: mod_mod_cancel)
    then show ?thesis using ring_read_mod[of buf "unat (h + a)" n] ring_read_mod[of buf "unat h + unat a" n] by metis
  qed
  then show "ring_bytes buf (h + a) t = drop (unat a) (ring_bytes buf h t)"
    unfolding ring_bytes_def cnt by (simp add: drop_ring_read)
  show "ring_read buf (unat h) (unat a) = take (unat a) (ring_bytes buf h t)" unfolding ring_bytes_def using a by (simp add: take_ring_read)
qed

text \<open>The receive buffers of TCP and UDP sockets as queues; a request is below \<open>2 ^ 16\<close>.\<close>

definition tcp_rx_ok :: "tcp_socket \<Rightarrow> bool" where
  "tcp_rx_ok s \<longleftrightarrow> ring_ok 15 (ts_rx_buf s) (ts_rx_head s) (ts_rx_tail s)"

definition tcp_rx_bytes :: "tcp_socket \<Rightarrow> u8 list" where
  "tcp_rx_bytes s = ring_bytes (ts_rx_buf s) (ts_rx_head s) (ts_rx_tail s)"

definition tcp_rx_put :: "tcp_socket \<Rightarrow> u8 list \<Rightarrow> nat \<times> tcp_socket" where
  "tcp_rx_put s xs =
     (let a = rx_room TCP_RX_BUF_SIZE (ts_rx_tail s) (ts_rx_head s) (of_nat (length xs))
      in (unat a, s\<lparr>ts_rx_buf := ring_put (ts_rx_buf s) (ts_rx_tail s) (take (unat a) xs), ts_rx_tail := ts_rx_tail s + a\<rparr>))"

definition rx_count :: "u32 \<Rightarrow> u32 \<Rightarrow> nat \<Rightarrow> u32" where
  "rx_count t h len = (let a = t - h in if unat a > len then of_nat len else a)"

definition tcp_rx_get :: "tcp_socket \<Rightarrow> nat \<Rightarrow> u8 list \<times> tcp_socket" where
  "tcp_rx_get s n =
     (let a = rx_count (ts_rx_tail s) (ts_rx_head s) n
      in (ring_read (ts_rx_buf s) (unat (ts_rx_head s)) (unat a), s\<lparr>ts_rx_head := ts_rx_head s + a\<rparr>))"

definition udp_rx_ok :: "udp_socket \<Rightarrow> bool" where
  "udp_rx_ok s \<longleftrightarrow> ring_ok 13 (us_rx_buf s) (us_rx_head s) (us_rx_tail s)"

definition udp_rx_bytes :: "udp_socket \<Rightarrow> u8 list" where
  "udp_rx_bytes s = ring_bytes (us_rx_buf s) (us_rx_head s) (us_rx_tail s)"

definition udp_rx_put :: "udp_socket \<Rightarrow> u8 list \<Rightarrow> nat \<times> udp_socket" where
  "udp_rx_put s xs =
     (let a = rx_room UDP_RX_BUF_SIZE (us_rx_tail s) (us_rx_head s) (of_nat (length xs))
      in (unat a, s\<lparr>us_rx_buf := ring_put (us_rx_buf s) (us_rx_tail s) (take (unat a) xs), us_rx_tail := us_rx_tail s + a\<rparr>))"

definition udp_rx_get :: "udp_socket \<Rightarrow> nat \<Rightarrow> u8 list \<times> udp_socket" where
  "udp_rx_get s n =
     (let a = rx_count (us_rx_tail s) (us_rx_head s) n
      in (ring_read (us_rx_buf s) (unat (us_rx_head s)) (unat a), s\<lparr>us_rx_head := us_rx_head s + a\<rparr>))"

lemma unat_rx_count: "unat (rx_count t h n) = min n (unat (t - h))"
proof (cases "unat (t - h) > n")
  case True
  then have "n < 2 ^ 32" using unat_32[of "t - h"] by simp
  then show ?thesis using True unat_of_nat[of n, where 'a = 32] by (simp add: rx_count_def)
qed (simp add: rx_count_def Let_def)

lemma length_ring_bytes [simp]: "length (ring_bytes b h t) = unat (t - h)"
  by (simp add: ring_bytes_def)

lemma unat_of_nat_16: "n < 65536 \<Longrightarrow> unat (of_nat n :: u16) = n"
  using unat_of_nat[of n, where 'a = 16] by simp

lemma ring_put_get:
  assumes ok: "ring_ok k b h t" "k < 32" and n: "length xs < 65536"
  defines "a \<equiv> rx_room (2 ^ k) t h (of_nat (length xs))"
  shows "unat a = min (length xs) (2 ^ k - unat (t - h))" "ring_ok k (ring_put b t (take (unat a) xs)) h (t + a)"
    "ring_bytes (ring_put b t (take (unat a) xs)) h (t + a) = ring_bytes b h t @ take (unat a) xs"
proof -
  show u: "unat a = min (length xs) (2 ^ k - unat (t - h))"
    using unat_rx_room[OF _ ok(2), of t h "of_nat (length xs)"] ok(1) unat_of_nat_16[OF n] by (simp add: a_def ring_ok_def)
  have l: "length (take (unat a) xs) \<le> 2 ^ k - unat (t - h)" "unat a = length (take (unat a) xs)" using u by simp_all
  show "ring_ok k (ring_put b t (take (unat a) xs)) h (t + a)" "ring_bytes (ring_put b t (take (unat a) xs)) h (t + a) = ring_bytes b h t @ take (unat a) xs"
    by (rule ring_enq[OF ok l])+
qed

lemma ring_get:
  assumes ok: "ring_ok k b h t" "k < 32"
  shows "ring_read b (unat h) (unat (rx_count t h n)) = take n (ring_bytes b h t)" "ring_ok k b (h + rx_count t h n) t"
    "ring_bytes b (h + rx_count t h n) t = drop n (ring_bytes b h t)"
proof -
  have a: "unat (rx_count t h n) \<le> unat (t - h)" unfolding unat_rx_count by simp
  note d = ring_deq[OF ok a]
  have e: "take (min n (unat (t - h))) (ring_bytes b h t) = take n (ring_bytes b h t)"
    "drop (min n (unat (t - h))) (ring_bytes b h t) = drop n (ring_bytes b h t)" by (simp_all add: min_def)
  show "ring_read b (unat h) (unat (rx_count t h n)) = take n (ring_bytes b h t)" using d(3) e(1) by (simp only: unat_rx_count)
  show "ring_ok k b (h + rx_count t h n) t" by (rule d(1))
  show "ring_bytes b (h + rx_count t h n) t = drop n (ring_bytes b h t)" using d(2) e(2) by (simp only: unat_rx_count)
qed

lemma rings: "2 ^ 15 = (32768 :: nat)" "2 ^ 13 = (8192 :: nat)" "(15 :: nat) < 32" "(13 :: nat) < 32"
  by simp_all

interpretation tcpq: byte_queue tcp_rx_ok tcp_rx_bytes "\<lambda>_. TCP_RX_BUF_SIZE" 65536 tcp_rx_put tcp_rx_get
proof
  fix q :: tcp_socket and xs :: "u8 list" and n :: nat
  assume ok: "tcp_rx_ok q"
  note r = ok[unfolded tcp_rx_ok_def]
  show "length (tcp_rx_bytes q) \<le> 32768" using r by (simp add: tcp_rx_bytes_def ring_ok_def)
  show "fst (tcp_rx_get q n) = take n (tcp_rx_bytes q)" "tcp_rx_bytes (snd (tcp_rx_get q n)) = drop n (tcp_rx_bytes q)" "tcp_rx_ok (snd (tcp_rx_get q n))"
    using ring_get[OF r rings(3), of n] by (simp_all add: tcp_rx_get_def tcp_rx_bytes_def tcp_rx_ok_def Let_def)
  assume n: "length xs < 65536"
  note p = ring_put_get[OF r rings(3) n, unfolded rings(1)]
  show "fst (tcp_rx_put q xs) = min (length xs) (32768 - length (tcp_rx_bytes q))"
    "tcp_rx_bytes (snd (tcp_rx_put q xs)) = tcp_rx_bytes q @ take (fst (tcp_rx_put q xs)) xs" "tcp_rx_ok (snd (tcp_rx_put q xs))"
    using p by (simp_all add: tcp_rx_put_def tcp_rx_bytes_def tcp_rx_ok_def Let_def)
qed

interpretation udpq: byte_queue udp_rx_ok udp_rx_bytes "\<lambda>_. UDP_RX_BUF_SIZE" 65536 udp_rx_put udp_rx_get
proof
  fix q :: udp_socket and xs :: "u8 list" and n :: nat
  assume ok: "udp_rx_ok q"
  note r = ok[unfolded udp_rx_ok_def]
  show "length (udp_rx_bytes q) \<le> 8192" using r by (simp add: udp_rx_bytes_def ring_ok_def)
  show "fst (udp_rx_get q n) = take n (udp_rx_bytes q)" "udp_rx_bytes (snd (udp_rx_get q n)) = drop n (udp_rx_bytes q)" "udp_rx_ok (snd (udp_rx_get q n))"
    using ring_get[OF r rings(4), of n] by (simp_all add: udp_rx_get_def udp_rx_bytes_def udp_rx_ok_def Let_def)
  assume n: "length xs < 65536"
  note p = ring_put_get[OF r rings(4) n, unfolded rings(2)]
  show "fst (udp_rx_put q xs) = min (length xs) (8192 - length (udp_rx_bytes q))"
    "udp_rx_bytes (snd (udp_rx_put q xs)) = udp_rx_bytes q @ take (fst (udp_rx_put q xs)) xs" "udp_rx_ok (snd (udp_rx_put q xs))"
    using p by (simp_all add: udp_rx_put_def udp_rx_bytes_def udp_rx_ok_def Let_def)
qed

subsection \<open>What is sent\<close>

definition next_hop :: "u32 \<Rightarrow> net_state \<Rightarrow> u32" where
  "next_hop ip st = (if ip AND netmask st \<noteq> local_ip st AND netmask st then gateway_ip st else ip)"

definition resolved :: "net_state \<Rightarrow> u32 \<Rightarrow> u8 list \<Rightarrow> bool" where
  "resolved st ip m \<longleftrightarrow> (\<exists>e. find (\<lambda>e. ar_ip e = next_hop ip st) (take (arp_count st) (arp_cache st)) = Some e \<and> ar_mac e = m) \<and> netdev_tx st \<noteq> None"

definition ip_frame :: "net_state \<Rightarrow> u8 list \<Rightarrow> u32 \<Rightarrow> u8 \<Rightarrow> u8 list \<Rightarrow> u8 list" where
  "ip_frame st m dst proto d =
     eth_header m (local_mac st) ETH_TYPE_IP @
     ip_header (20 + of_nat (length d)) proto (local_ip st) dst (ip_checksum (ip_header (20 + of_nat (length d)) proto (local_ip st) dst 0)) @ d"

text \<open>Sending changes the log and the pool only.\<close>

definition sent_to :: "net_state \<Rightarrow> u8 list list \<Rightarrow> net_state \<Rightarrow> bool" where
  "sent_to st fs st' \<longleftrightarrow> (\<exists>pool. st' = st\<lparr>tx_log := tx_log st @ fs, net_pool := pool\<rparr>)"

lemma sent_refl: "sent_to st [] st"
proof -
  have "st = st\<lparr>tx_log := tx_log st @ [], net_pool := net_pool st\<rparr>" by simp
  then show ?thesis unfolding sent_to_def by blast
qed

lemma sent_trans: "sent_to st fs st1 \<Longrightarrow> sent_to st1 gs st2 \<Longrightarrow> sent_to st (fs @ gs) st2"
proof -
  assume "sent_to st fs st1" "sent_to st1 gs st2"
  then obtain p q where "st1 = st\<lparr>tx_log := tx_log st @ fs, net_pool := p\<rparr>" "st2 = st1\<lparr>tx_log := tx_log st1 @ gs, net_pool := q\<rparr>"
    by (auto simp: sent_to_def)
  then have "st2 = st\<lparr>tx_log := tx_log st @ fs @ gs, net_pool := q\<rparr>" by simp
  then show "sent_to st (fs @ gs) st2" unfolding sent_to_def by blast
qed

lemma sent_tx: "sent_to st (if netdev_tx st = None then [] else [f]) (snd (net_tx_frame f st))"
proof (cases "netdev_tx st")
  case (Some tx)
  have "sent_to st [f] (st\<lparr>tx_log := tx_log st @ [f]\<rparr>)" unfolding sent_to_def by (rule exI[of _ "net_pool st"]) simp
  then show ?thesis using Some by (simp add: net_tx_frame_def)
qed (use sent_refl in \<open>simp add: net_tx_frame_def\<close>)

lemma sent_alloc: "net_alloc n st = (p, st') \<Longrightarrow> sent_to st [] st'"
  by (auto simp: net_alloc_def sent_to_def split: prod.splits)

lemma sent_free: "sent_to st [] (net_free p st)"
  by (auto simp: net_free_def sent_to_def)

lemma sent_fields:
  "sent_to st fs st' \<Longrightarrow> local_mac st' = local_mac st \<and> local_ip st' = local_ip st \<and> tcp_socks st' = tcp_socks st \<and> udp_socks st' = udp_socks st \<and>
    sockets st' = sockets st \<and> netdev_tx st' = netdev_tx st \<and> tx_log st' = tx_log st @ fs \<and> arp_cache st' = arp_cache st \<and> arp_count st' = arp_count st \<and>
    netmask st' = netmask st \<and> gateway_ip st' = gateway_ip st \<and> tcp_next_seq st' = tcp_next_seq st \<and> net_configured st' = net_configured st"
  by (auto simp: sent_to_def)

lemma resolved_sent: "sent_to st fs st' \<Longrightarrow> resolved st' ip m = resolved st ip m"
  using sent_fields[of st fs st'] by (simp add: resolved_def next_hop_def)

lemma ip_frame_sent: "sent_to st fs st' \<Longrightarrow> ip_frame st' m dst proto d = ip_frame st m dst proto d"
  using sent_fields[of st fs st'] by (simp add: ip_frame_def)

lemma arp_lookup_sent:
  "resolved st ip m \<Longrightarrow> arp_lookup ip st = (Some m, st)" "\<exists>fs. sent_to st fs (snd (arp_lookup ip st))"
proof -
  show "resolved st ip m \<Longrightarrow> arp_lookup ip st = (Some m, st)"
    by (auto simp: resolved_def next_hop_def arp_lookup_def Let_def)
  show "\<exists>fs. sent_to st fs (snd (arp_lookup ip st))"
    using sent_refl sent_tx unfolding arp_lookup_def arp_send_request_def Let_def by (auto split: option.splits)
qed

lemma ip_send_spec:
  assumes len: "unat len = length d" "length d < 65516"
  shows "\<exists>st' fs. ip_send_packet dst proto d len st = Some st' \<and> sent_to st fs st' \<and>
    (resolved st dst m \<longrightarrow> fs = [] \<or> fs = [ip_frame st m dst proto d])"
proof -
  have t: "unat (20 + len) = 20 + unat len" using len by (simp add: unat_add_noof)
  obtain p st1 where a: "net_alloc (14 + unat (20 + len)) st = (p, st1)" by fastforce
  note s1 = sent_alloc[OF a]
  obtain mo st2 where l: "arp_lookup dst st1 = (mo, st2)" by fastforce
  obtain gs where s2: "sent_to st1 gs st2" using arp_lookup_sent(2)[of st1 dst] l by auto
  have rd: "rdn d 0 (unat len) = Some d" using len by (simp add: rdn_def)
  have lenw: "of_nat (length d) = len" unfolding len(1)[symmetric] by simp
  note r = ip_send_packet_def[of dst proto d len st, unfolded Let_def a prod.case l]
  consider "p = 0" | "p \<noteq> 0" "mo = None" | m' where "p \<noteq> 0" "mo = Some m'" by (cases mo) auto
  then show ?thesis
  proof cases
    case 1
    then show ?thesis using r s1 by auto
  next
    case 2
    have "sent_to st ([] @ gs @ []) (net_free p st2)" by (rule sent_trans[OF s1 sent_trans[OF s2 sent_free]])
    moreover have "\<not> resolved st dst m" using arp_lookup_sent(1)[of st1 dst m] resolved_sent[OF s1] l 2 by auto
    ultimately show ?thesis using r 2 by auto
  next
    case 3
    let ?f = "ip_frame st2 m' dst proto d"
    have f: "sent_to st ([] @ gs @ (if netdev_tx st2 = None then [] else [?f]) @ []) (net_free p (snd (net_tx_frame ?f st2)))"
      by (rule sent_trans[OF s1 sent_trans[OF s2 sent_trans[OF sent_tx sent_free]]])
    have "gs = [] \<and> m' = m" if "resolved st dst m"
    proof -
      have "arp_lookup dst st1 = (Some m, st1)" using arp_lookup_sent(1) resolved_sent[OF s1] that by blast
      then have "st2 = st1" "m' = m" using l 3 by auto
      then show ?thesis using sent_fields[OF s2] by simp
    qed
    moreover have "?f = ip_frame st m' dst proto d" using ip_frame_sent[OF sent_trans[OF s1 s2]] by simp
    moreover have "ip_send_packet dst proto d len st = Some (net_free p (snd (net_tx_frame ?f st2)))"
      using r 3 t rd by (simp add: ip_frame_def lenw)
    ultimately show ?thesis using f
      by (intro exI[of _ "net_free p (snd (net_tx_frame ?f st2))"] exI[of _ "gs @ (if netdev_tx st2 = None then [] else [?f])"]) auto
  qed
qed

definition tcp_segment :: "tcp_socket \<Rightarrow> u8 \<Rightarrow> u8 list \<Rightarrow> u8 list" where
  "tcp_segment s flags d = tcp_header (ts_local_port s) (ts_remote_port s) (snd_nxt s) (rcv_nxt s) flags (rcv_wnd s) @ d"

lemma send_over_ip_spec:
  assumes len: "unat len = length d" "unat hlen + length d < 65516" and h: "length (header (hlen + len) d) = unat hlen + length d"
  shows "\<exists>b st' fs. send_over_ip dst proto header hlen d len st = Some (b, st') \<and> sent_to st fs st' \<and>
    (resolved st dst m \<longrightarrow> fs = [] \<or> b \<and> fs = [ip_frame st m dst proto (header (hlen + len) d)])"
proof -
  have t: "unat (hlen + len) = unat hlen + unat len" using len by (simp add: unat_add_noof)
  obtain p st1 where a: "net_alloc (unat (hlen + len)) st = (p, st1)" by fastforce
  note s1 = sent_alloc[OF a]
  have rd: "rdn d 0 (unat len) = Some d" using len by (simp add: rdn_def)
  have "unat (hlen + len) = length (header (hlen + len) d)" "length (header (hlen + len) d) < 65516" using t h len by simp_all
  from ip_send_spec[OF this, of dst proto st1 m] obtain st2 fs where
    i: "ip_send_packet dst proto (header (hlen + len) d) (hlen + len) st1 = Some st2" "sent_to st1 fs st2"
      "resolved st1 dst m \<longrightarrow> fs = [] \<or> fs = [ip_frame st1 m dst proto (header (hlen + len) d)]" by blast
  note r = send_over_ip_def[of dst proto header hlen d len st, unfolded Let_def a prod.case]
  show ?thesis
  proof (cases "p = 0")
    case True
    then show ?thesis using r s1 by auto
  next
    case False
    have "sent_to st ([] @ fs @ []) (net_free p st2)" by (rule sent_trans[OF s1 sent_trans[OF i(2) sent_free]])
    moreover have "send_over_ip dst proto header hlen d len st = Some (True, net_free p st2)" using r False t rd i(1) len(1) by simp
    ultimately show ?thesis using i(3) resolved_sent[OF s1] ip_frame_sent[OF s1] by auto
  qed
qed

text \<open>A TCP segment: sockets other than its own are untouched, and its own advances if the segment was made.\<close>

lemma tcp_send_spec:
  assumes len: "unat len = length d" "length d < 65496"
  shows "\<exists>b st1 fs. tcp_send_packet i flags d len st = Some (if b then upd_tcp i (tcp_advance flags len) st1 else st1) \<and> sent_to st fs st1 \<and>
    (resolved st (ts_remote_ip (tcp_socks st ! i)) m \<longrightarrow>
       fs = [] \<or> b \<and> fs = [ip_frame st m (ts_remote_ip (tcp_socks st ! i)) IP_PROTO_TCP (tcp_segment (tcp_socks st ! i) flags d)])"
proof -
  let ?s = "tcp_socks st ! i"
  let ?h = "\<lambda>total d. tcp_header (ts_local_port ?s) (ts_remote_port ?s) (snd_nxt ?s) (rcv_nxt ?s) flags (rcv_wnd ?s) @ d"
  have "unat (20 :: u16) + length d < 65516" "length (?h (20 + len) d) = unat (20 :: u16) + length d" using len by simp_all
  from send_over_ip_spec[OF len(1) this(1), of ?h, OF this(2), of "ts_remote_ip ?s" IP_PROTO_TCP st m] obtain b st1 fs where
    o: "send_over_ip (ts_remote_ip ?s) IP_PROTO_TCP ?h 20 d len st = Some (b, st1)" "sent_to st fs st1"
      "resolved st (ts_remote_ip ?s) m \<longrightarrow> fs = [] \<or> b \<and> fs = [ip_frame st m (ts_remote_ip ?s) IP_PROTO_TCP (?h (20 + len) d)]" by blast
  have "tcp_send_packet i flags d len st = Some (if b then upd_tcp i (tcp_advance flags len) st1 else st1)"
    using o(1) by (simp add: tcp_send_packet_def Let_def)
  then show ?thesis using o(2,3) unfolding tcp_segment_def by blast
qed

subsection \<open>What is received\<close>

lemma rx_ip_frame:
  fixes proto :: u8
  assumes m: "length m = 6" "length (local_mac A) = 6" and d: "length d < 65516" and dst: "dst = local_ip B \<or> dst = 0xFFFFFFFF"
  defines "ip \<equiv> ip_header (20 + of_nat (length d)) proto (local_ip A) dst (ip_checksum (ip_header (20 + of_nat (length d)) proto (local_ip A) dst 0)) @ d"
  shows "net_rx_frame (ip_frame A m dst proto d) B =
    (if proto = IP_PROTO_ICMP then icmp_handle_packet ip d (of_nat (length d)) B
     else if proto = IP_PROTO_UDP then udp_handle_packet ip d (of_nat (length d)) B
     else if proto = IP_PROTO_TCP then tcp_handle_packet ip d (of_nat (length d)) B
     else Some B)"
proof -
  let ?f = "ip_frame A m dst proto d"
  have f: "?f = eth_header m (local_mac A) ETH_TYPE_IP @ ip" by (simp add: ip_frame_def ip_def)
  have l: "length ?f = 34 + length d" using m by (simp add: f ip_def)
  have e: "rd16 ?f 12 = Some (htons ETH_TYPE_IP)" "drop 14 ?f = ip" unfolding f by (rule eth_fields[OF m])+
  have t: "unat (20 + of_nat (length d) :: u16) = 20 + length d" using d unat_of_nat_16[of "length d"] by (simp add: unat_add_noof)
  have dr: "drop 20 ip = d" by (simp add: ip_def)
  have dn: "\<not> (dst \<noteq> local_ip B \<and> dst \<noteq> 0xFFFFFFFF)" using dst by blast
  have "net_rx_frame ?f B = ip_handle_packet ip (20 + length d) B" using l e by (simp add: net_rx_frame_def)
  also have "\<dots> = (if proto = IP_PROTO_ICMP then icmp_handle_packet ip d (of_nat (length d)) B
     else if proto = IP_PROTO_UDP then udp_handle_packet ip d (of_nat (length d)) B
     else if proto = IP_PROTO_TCP then tcp_handle_packet ip d (of_nat (length d)) B else Some B)"
    using t dn dr unfolding ip_handle_packet_def Let_def by (simp add: ip_def) blast
  finally show ?thesis .
qed

definition view :: "tcp_socket \<Rightarrow> int \<times> u16 \<times> u32 \<times> u16" where
  "view s = (ts_state s, ts_local_port s, ts_remote_ip s, ts_remote_port s)"

lemma tcp_find_view: "map view xs = map view ys \<Longrightarrow> tcp_find_socket p ip q xs = tcp_find_socket p ip q ys"
proof -
  assume h: "map view xs = map view ys"
  let ?P = "\<lambda>(st, lp, rip, rp). st \<noteq> TCP_CLOSED \<and> lp = p \<and> (if st = TCP_SYN_RECV \<or> st = TCP_ESTABLISHED then rip = ip \<and> rp = q else st = TCP_LISTEN)"
  have eq: "tcp_find_socket p ip q zs = find_idx ?P (map view zs)" for zs unfolding tcp_find_socket_def find_idx_map view_def prod.case by (rule refl)
  show ?thesis unfolding eq h by (rule refl)
qed

lemma upd_tcp_simps [simp]:
  "tcp_socks (upd_tcp i f st) = (tcp_socks st)[i := f (tcp_socks st ! i)]" "sockets (upd_tcp i f st) = sockets st"
  "udp_socks (upd_tcp i f st) = udp_socks st" "local_ip (upd_tcp i f st) = local_ip st" "local_mac (upd_tcp i f st) = local_mac st"
  "netdev_tx (upd_tcp i f st) = netdev_tx st" "tx_log (upd_tcp i f st) = tx_log st" "arp_cache (upd_tcp i f st) = arp_cache st"
  "arp_count (upd_tcp i f st) = arp_count st" "netmask (upd_tcp i f st) = netmask st" "gateway_ip (upd_tcp i f st) = gateway_ip st"
  "net_configured (upd_tcp i f st) = net_configured st" "tcp_next_seq (upd_tcp i f st) = tcp_next_seq st"
  by (simp_all add: upd_tcp_def)

lemma tcp_advance_simps [simp]:
  "view (tcp_advance fl n s) = view s" "tcp_rx_bytes (tcp_advance fl n s) = tcp_rx_bytes s" "tcp_rx_ok (tcp_advance fl n s) = tcp_rx_ok s"
  "ts_state (tcp_advance fl n s) = ts_state s" "ts_remote_ip (tcp_advance fl n s) = ts_remote_ip s"
  "ts_remote_port (tcp_advance fl n s) = ts_remote_port s" "ts_local_port (tcp_advance fl n s) = ts_local_port s"
  by (simp_all add: tcp_advance_def view_def tcp_rx_bytes_def tcp_rx_ok_def)

lemma map_update_same: "f y = f (xs ! i) \<Longrightarrow> map f (xs[i := y]) = map f xs"
  by (metis list_update_id map_update)

text \<open>A bare segment changes no socket but its own, and of that only the sequence number.\<close>

lemma tcp_send_bare:
  obtains st' where "tcp_send_packet i flags [] 0 st = Some st'" "local_ip st' = local_ip st" "sockets st' = sockets st" "udp_socks st' = udp_socks st"
    "map view (tcp_socks st') = map view (tcp_socks st)" "tcp_socks st' = (tcp_socks st)[i := tcp_socks st' ! i]"
    "tcp_rx_bytes (tcp_socks st' ! i) = tcp_rx_bytes (tcp_socks st ! i)" "tcp_rx_ok (tcp_socks st' ! i) = tcp_rx_ok (tcp_socks st ! i)"
    "net_configured st' = net_configured st" "tcp_next_seq st' = tcp_next_seq st"
proof -
  from tcp_send_spec[of 0 "[]" i flags st "[]"] obtain b st1 fs where
    t: "tcp_send_packet i flags [] 0 st = Some (if b then upd_tcp i (tcp_advance flags 0) st1 else st1)" "sent_to st fs st1" by auto
  note f = sent_fields[OF t(2)]
  show thesis
  proof (cases b)
    case True
    show ?thesis
    proof (cases "i < length (tcp_socks st)")
      case i: True
      show ?thesis by (rule that[OF t(1)]) (use True f i in \<open>simp_all add: map_update_same\<close>)
    next
      case i: False
      show ?thesis by (rule that[OF t(1)]) (use True f i in \<open>simp_all add: list_update_beyond\<close>)
    qed
  next
    case False
    show ?thesis by (rule that[OF t(1)]) (use False f in \<open>simp_all\<close>)
  qed
qed

lemma tcp_data_received:
  assumes find: "tcp_find_socket dp (local_ip A) sp (tcp_socks B) = Some j" and est: "ts_state (tcp_socks B ! j) = TCP_ESTABLISHED"
    and rx: "tcp_rx_ok (tcp_socks B ! j)" "length (tcp_rx_bytes (tcp_socks B ! j)) + length d \<le> TCP_RX_BUF_SIZE"
    and d: "d \<noteq> []" "length d \<le> TCP_MSS" and fl: "fl AND TCP_FLAG_FIN = 0" and dst: "dst = local_ip B"
    and m: "length m = 6" "length (local_mac A) = 6"
  obtains B' where "net_rx_frame (ip_frame A m dst IP_PROTO_TCP (tcp_header sp dp sq ak fl wn @ d)) B = Some B'" "local_ip B' = local_ip B" "sockets B' = sockets B"
    "map view (tcp_socks B') = map view (tcp_socks B)" "tcp_rx_ok (tcp_socks B' ! j)"
    "tcp_rx_bytes (tcp_socks B' ! j) = tcp_rx_bytes (tcp_socks B ! j) @ d"
proof -
  have j: "j < length (tcp_socks B)" using find by (auto simp: tcp_find_socket_def find_idx_Some)
  let ?seg = "tcp_header sp dp sq ak fl wn @ d" and ?s = "tcp_socks B ! j"
  let ?ip = "ip_header (20 + of_nat (length ?seg)) IP_PROTO_TCP (local_ip A) dst (ip_checksum (ip_header (20 + of_nat (length ?seg)) IP_PROTO_TCP (local_ip A) dst 0)) @ ?seg"
  have ls: "length ?seg < 65516" using d by simp
  have "net_rx_frame (ip_frame A m dst IP_PROTO_TCP ?seg) B = tcp_handle_packet ?ip ?seg (of_nat (length ?seg)) B"
    by (subst rx_ip_frame[OF m ls]) (use dst in simp_all)
  also have "\<dots> = tcp_receive j sq d (of_nat (length d)) B"
  proof -
    have u: "unat (of_nat (length ?seg) :: u16) = 20 + length d" using unat_of_nat_16[of "length ?seg"] d by simp
    have pl: "of_nat (length ?seg) - (20 :: u16) = of_nat (length d)" by simp
    have gt: "(of_nat (length d) :: u16) > 0" using d unat_of_nat_16[of "length d"] by (simp add: word_less_nat_alt)
    have dr: "drop 20 ?seg = d" by simp
    show ?thesis unfolding tcp_handle_packet_def Let_def
      using u find est fl gt dr pl by (simp del: drop_append)
  qed
  finally have run: "net_rx_frame (ip_frame A m dst IP_PROTO_TCP ?seg) B = tcp_receive j sq d (of_nat (length d)) B" .
  obtain B' where "tcp_receive j sq d (of_nat (length d)) B = Some B'" "local_ip B' = local_ip B" "sockets B' = sockets B"
    "map view (tcp_socks B') = map view (tcp_socks B)" "tcp_rx_ok (tcp_socks B' ! j)" "tcp_rx_bytes (tcp_socks B' ! j) = tcp_rx_bytes ?s @ d"
  proof -
    have n: "length d < 65536" using d by simp
    have full: "fst (tcp_rx_put ?s d) = length d" using tcpq.enq_count[OF rx(1) n] rx(2) by simp
    then have av: "unat (rx_room TCP_RX_BUF_SIZE (ts_rx_tail ?s) (ts_rx_head ?s) (of_nat (length d))) = length d" by (simp add: tcp_rx_put_def Let_def)
    let ?B = "upd_tcp j (\<lambda>s. s\<lparr>ts_rx_buf := ring_put (ts_rx_buf s) (ts_rx_tail s) d,
        ts_rx_tail := ts_rx_tail s + rx_room TCP_RX_BUF_SIZE (ts_rx_tail ?s) (ts_rx_head ?s) (of_nat (length d)), rcv_nxt := sq + ucast (of_nat (length d) :: u16)\<rparr>) B"
    have run: "tcp_receive j sq d (of_nat (length d)) B = tcp_send_packet j TCP_FLAG_ACK [] 0 ?B"
      using av by (simp add: tcp_receive_def Let_def rdn_def)
    have sB: "tcp_socks ?B ! j = (snd (tcp_rx_put ?s d))\<lparr>rcv_nxt := sq + ucast (of_nat (length d) :: u16)\<rparr>"
      using j av by (simp add: tcp_rx_put_def Let_def)
    have vw: "map view (tcp_socks ?B) = map view (tcp_socks B)" by (simp add: map_update_same view_def)
    have rb: "tcp_rx_bytes (tcp_socks ?B ! j) = tcp_rx_bytes ?s @ d" "tcp_rx_ok (tcp_socks ?B ! j)"
      using tcpq.enq_contents[OF rx(1) n] tcpq.enq_invar[OF rx(1) n] full unfolding sB by (simp_all add: tcp_rx_bytes_def tcp_rx_ok_def)
    obtain B' where "tcp_send_packet j TCP_FLAG_ACK [] 0 ?B = Some B'" "local_ip B' = local_ip ?B" "sockets B' = sockets ?B"
      "map view (tcp_socks B') = map view (tcp_socks ?B)" "tcp_rx_bytes (tcp_socks B' ! j) = tcp_rx_bytes (tcp_socks ?B ! j)"
      "tcp_rx_ok (tcp_socks B' ! j) = tcp_rx_ok (tcp_socks ?B ! j)"
      by (rule tcp_send_bare[where i = j and flags = TCP_FLAG_ACK and st = ?B]) (rule that; assumption)
    then show thesis using that[of B'] run vw rb by (simp del: upd_tcp_simps(1) add: upd_tcp_simps(2,4))
  qed
  then show thesis using that[of B'] run by simp
qed

subsection \<open>A stream from one host to another\<close>

fun net_rx_all :: "u8 list list \<Rightarrow> net_state \<Rightarrow> net_state option" where
  "net_rx_all [] st = Some st"
| "net_rx_all (f # fs) st = Option.bind (net_rx_frame f st) (net_rx_all fs)"

text \<open>The frames carry the data, cut into segments, between the ports of the socket.\<close>

fun carries :: "net_state \<Rightarrow> u8 list \<Rightarrow> int \<times> u16 \<times> u32 \<times> u16 \<Rightarrow> u8 list list \<Rightarrow> u8 list \<Rightarrow> bool" where
  "carries A m v [] d \<longleftrightarrow> d = []"
| "carries A m (s, lp, ip, rp) (f # fs) d \<longleftrightarrow> (\<exists>sq ak wn c d'.
     f = ip_frame A m ip IP_PROTO_TCP (tcp_header lp rp sq ak (TCP_FLAG_ACK OR TCP_FLAG_PSH) wn @ c) \<and>
     c \<noteq> [] \<and> length c \<le> TCP_MSS \<and> d = c @ d' \<and> carries A m (s, lp, ip, rp) fs d')"

lemma carries_Cons:
  assumes "c \<noteq> []" "length c \<le> TCP_MSS" "carries A m v fs d'" "v = (s, lp, ip, rp)"
  shows "carries A m v (ip_frame A m ip IP_PROTO_TCP (tcp_header lp rp sq ak (TCP_FLAG_ACK OR TCP_FLAG_PSH) wn @ c) # fs) (c @ d')"
  using assms unfolding assms(4) carries.simps by blast

definition segments :: "u8 list \<Rightarrow> nat" where
  "segments d = (length d + 1459) div 1460"

lemma segments_drop: "d \<noteq> [] \<Longrightarrow> segments d = Suc (segments (drop (min (length d) TCP_MSS) d))"
  by (cases "length d \<le> 1460") (auto simp: segments_def min_def neq_Nil_conv div_if)

lemma carries_cong: "local_mac A' = local_mac A \<Longrightarrow> local_ip A' = local_ip A \<Longrightarrow> carries A' m v fs d = carries A m v fs d"
  by (induction A m v fs d rule: carries.induct) (auto simp: ip_frame_def)

lemma send_chunks_spec:
  assumes "i < length (tcp_socks st)"
  shows "\<exists>st' fs. send_chunks i d st = Some st' \<and> tx_log st' = tx_log st @ fs \<and>
    (resolved st (ts_remote_ip (tcp_socks st ! i)) m \<longrightarrow> length fs \<le> segments d \<and>
      (length fs = segments d \<longrightarrow> carries st m (view (tcp_socks st ! i)) fs d))"
  using assms
proof (induction i d st rule: send_chunks.induct)
  case (1 i d st)
  show ?case
  proof (cases "d = []")
    case True
    then show ?thesis by (auto simp: send_chunks.simps segments_def)
  next
    case False
    let ?n = "min (length d) TCP_MSS" and ?s = "tcp_socks st ! i" and ?fl = "TCP_FLAG_ACK OR TCP_FLAG_PSH"
    have n: "unat (of_nat ?n :: u16) = length (take ?n d)" "length (take ?n d) < 65496"
      using unat_of_nat_16[of ?n] by simp_all
    from tcp_send_spec[OF n, of i ?fl st m] obtain b st1 gs where
      t: "tcp_send_packet i ?fl (take ?n d) (of_nat ?n) st = Some (if b then upd_tcp i (tcp_advance ?fl (of_nat ?n)) st1 else st1)" "sent_to st gs st1"
        "resolved st (ts_remote_ip ?s) m \<longrightarrow>
         gs = [] \<or> b \<and> gs = [ip_frame st m (ts_remote_ip ?s) IP_PROTO_TCP (tcp_segment ?s ?fl (take ?n d))]" by blast
    define st2 where "st2 = (if b then upd_tcp i (tcp_advance ?fl (of_nat ?n)) st1 else st1)"
    note t1 = t(1)[folded st2_def]
    have f: "local_mac st2 = local_mac st" "local_ip st2 = local_ip st" "tx_log st2 = tx_log st @ gs" "length (tcp_socks st2) = length (tcp_socks st)"
      "view (tcp_socks st2 ! i) = view ?s" "ts_remote_ip (tcp_socks st2 ! i) = ts_remote_ip ?s"
      "resolved st2 ip m = resolved st ip m" for ip
      using sent_fields[OF t(2)] 1(2) by (simp_all add: st2_def resolved_def next_hop_def)
    have i2: "i < length (tcp_socks st2)" using 1(2) f(4) by simp
    from 1(1)[OF False refl t1 this] obtain st' fs where
      r: "send_chunks i (drop ?n d) st2 = Some st'" "tx_log st' = tx_log st2 @ fs"
        "resolved st (ts_remote_ip ?s) m \<longrightarrow> length fs \<le> segments (drop ?n d) \<and>
          (length fs = segments (drop ?n d) \<longrightarrow> carries st m (view ?s) fs (drop ?n d))"
      unfolding f(5-7) carries_cong[OF f(1,2)] by blast
    have "send_chunks i d st = Some st'" using False t1 r(1) by (simp add: send_chunks.simps[of i d st] Let_def)
    moreover have "tx_log st' = tx_log st @ gs @ fs" using r(2) f(3) by simp
    moreover have "length (gs @ fs) \<le> segments d \<and> (length (gs @ fs) = segments d \<longrightarrow> carries st m (view ?s) (gs @ fs) d)"
      if res: "resolved st (ts_remote_ip ?s) m"
    proof -
      have sg: "segments d = Suc (segments (drop ?n d))" by (rule segments_drop[OF False])
      have h: "length fs \<le> segments (drop ?n d)" "length fs = segments (drop ?n d) \<longrightarrow> carries st m (view ?s) fs (drop ?n d)" using r(3) res by auto
      from t(3) res consider "gs = []" | "gs = [ip_frame st m (ts_remote_ip ?s) IP_PROTO_TCP (tcp_segment ?s ?fl (take ?n d))]" by blast
      then show ?thesis
      proof cases
        case 1
        then show ?thesis using sg h by simp
      next
        case 2
        have "carries st m (view ?s) (gs @ fs) d" if "carries st m (view ?s) fs (drop ?n d)"
        proof -
          have "take ?n d \<noteq> []" "length (take ?n d) \<le> TCP_MSS" using False by simp_all
          from carries_Cons[OF this that view_def] show ?thesis unfolding 2 tcp_segment_def append_Cons append_Nil append_take_drop_id .
        qed
        then show ?thesis using sg h 2 by simp
      qed
    qed
    ultimately show ?thesis by blast
  qed
qed

lemma carries_delivered:
  assumes "carries A m v fs d" "v = (s, lp, ip, rp)" "length m = 6" "length (local_mac A) = 6" "ip = local_ip B"
    "tcp_find_socket rp (local_ip A) lp (tcp_socks B) = Some j" "ts_state (tcp_socks B ! j) = TCP_ESTABLISHED"
    "tcp_rx_ok (tcp_socks B ! j)" "length (tcp_rx_bytes (tcp_socks B ! j)) + length d \<le> TCP_RX_BUF_SIZE"
  shows "\<exists>B'. net_rx_all fs B = Some B' \<and> sockets B' = sockets B \<and> tcp_rx_ok (tcp_socks B' ! j) \<and>
    tcp_rx_bytes (tcp_socks B' ! j) = tcp_rx_bytes (tcp_socks B ! j) @ d"
  using assms
proof (induction fs arbitrary: d B)
  case (Cons f fs)
  from Cons.prems(1,2) obtain sq ak wn c d' where
    f: "f = ip_frame A m ip IP_PROTO_TCP (tcp_header lp rp sq ak (TCP_FLAG_ACK OR TCP_FLAG_PSH) wn @ c)" "c \<noteq> []" "length c \<le> TCP_MSS"
      "d = c @ d'" "carries A m v fs d'" by auto
  have fin: "(TCP_FLAG_ACK OR TCP_FLAG_PSH) AND TCP_FLAG_FIN = 0" by simp
  have room: "length (tcp_rx_bytes (tcp_socks B ! j)) + length c \<le> TCP_RX_BUF_SIZE" using Cons.prems(9) f(4) by simp
  have j: "j < length (tcp_socks B)" using Cons.prems(6) by (auto simp: tcp_find_socket_def find_idx_Some)
  obtain B1 where b: "net_rx_frame f B = Some B1" "local_ip B1 = local_ip B" "sockets B1 = sockets B"
    "map view (tcp_socks B1) = map view (tcp_socks B)" "tcp_rx_ok (tcp_socks B1 ! j)"
    "tcp_rx_bytes (tcp_socks B1 ! j) = tcp_rx_bytes (tcp_socks B ! j) @ c"
    by (rule tcp_data_received[OF Cons.prems(6-8) room f(2,3) fin Cons.prems(5,3,4), where sq = sq and ak = ak and wn = wn, folded f(1)])
      (rule that; assumption)
  have "length (tcp_socks B1) = length (tcp_socks B)" using b(4) map_eq_imp_length_eq by blast
  then have "view (tcp_socks B1 ! j) = view (tcp_socks B ! j)" using arg_cong[OF b(4), of "\<lambda>l. l ! j"] j by simp
  then have "ts_state (tcp_socks B1 ! j) = TCP_ESTABLISHED" using Cons.prems(7) by (simp add: view_def)
  moreover have "tcp_find_socket rp (local_ip A) lp (tcp_socks B1) = Some j" using Cons.prems(6) tcp_find_view[OF b(4)] by simp
  ultimately have "\<exists>B'. net_rx_all fs B1 = Some B' \<and> sockets B' = sockets B1 \<and> tcp_rx_ok (tcp_socks B' ! j) \<and>
      tcp_rx_bytes (tcp_socks B' ! j) = tcp_rx_bytes (tcp_socks B1 ! j) @ d'"
    using Cons.IH[of d' B1] Cons.prems f b by simp
  then show ?case using b f(4) by auto
qed auto

lemma to_int_small: "n < 2147483648 \<Longrightarrow> to_int n = int n"
  by (simp add: to_int_def sint_uint unsigned_of_nat signed_take_bit_int_eq_self take_bit_nat_eq_self)

lemma sys_recv_bytes:
  assumes "\<not> bad_fd fd" "sk_ptr (sockets st ! nat fd) = TcpSock i" "tcp_rx_ok (tcp_socks st ! i)" "n < 65536"
  shows "\<exists>st'. sys_recv fd n st = Some (int (min n (length (tcp_rx_bytes (tcp_socks st ! i)))), take n (tcp_rx_bytes (tcp_socks st ! i)), st')"
proof -
  let ?s = "tcp_socks st ! i"
  let ?a = "rx_count (ts_rx_tail ?s) (ts_rx_head ?s) n"
  have g: "ring_read (ts_rx_buf ?s) (unat (ts_rx_head ?s)) (unat ?a) = take n (tcp_rx_bytes ?s)"
    using tcpq.deq_data[OF assms(3,4)] by (simp add: tcp_rx_get_def Let_def)
  then have "unat ?a = min n (length (tcp_rx_bytes ?s))" by (metis length_ring_read length_take min.commute)
  moreover have "length (tcp_rx_bytes ?s) \<le> 32768" using tcpq.bounded[OF assms(3)] .
  ultimately have "int (unat ?a) = int (min n (length (tcp_rx_bytes ?s)))" "to_int (unat ?a) = int (unat ?a)" by (simp_all add: to_int_small)
  moreover have "sys_recv fd n st = Some (to_int (unat ?a), take n (tcp_rx_bytes ?s), upd_tcp i (\<lambda>s. s\<lparr>ts_rx_head := ts_rx_head s + ?a\<rparr>) st)"
    unfolding g[symmetric] using assms(1,2) by (simp add: sys_recv_def Let_def rx_count_def)
  ultimately show ?thesis by auto
qed

text \<open>C3. A stream crosses the wire. When every segment of a \<open>sys_send\<close> was transmitted (the next hop resolved and no allocation
  failed) and the frames are handed in order to the host they are addressed to, whose established socket for that connection has room, then a
  \<open>sys_recv\<close> there returns the bytes the socket already held followed by the bytes sent, and \<open>sys_send\<close> returned their number.\<close>

theorem tcp_stream_delivered:
  assumes A: "\<not> bad_fd fa" "sk_ptr (sockets A ! nat fa) = TcpSock i" "i < length (tcp_socks A)" "sa = tcp_socks A ! i" "ts_state sa = TCP_ESTABLISHED"
    and link: "resolved A (ts_remote_ip sa) m" "length m = 6" "length (local_mac A) = 6"
    and B: "\<not> bad_fd fb" "sk_ptr (sockets B ! nat fb) = TcpSock j" "sb = tcp_socks B ! j" "ts_state sb = TCP_ESTABLISHED"
    and conn: "ts_remote_ip sa = local_ip B" "tcp_find_socket (ts_remote_port sa) (local_ip A) (ts_local_port sa) (tcp_socks B) = Some j"
    and room: "tcp_rx_ok sb" "length (tcp_rx_bytes sb) + length d \<le> TCP_RX_BUF_SIZE"
    and sent: "sys_send fa d A = Some (r, A')" "length (tx_log A') = length (tx_log A) + segments d"
  shows "r = int (length d) \<and> (\<exists>B'. net_rx_all (drop (length (tx_log A)) (tx_log A')) B = Some B' \<and>
    (\<forall>n < 65536. \<exists>B''. sys_recv fb n B' = Some (int (min n (length (tcp_rx_bytes sb @ d))), take n (tcp_rx_bytes sb @ d), B'')))"
proof -
  have c: "map_option (Pair (to_int (length d))) (send_chunks i d A) = Some (r, A')" using sent(1) A by (simp add: sys_send_def first_word_def)
  from send_chunks_spec[OF A(3), of d m, folded A(4)] obtain fs where
    s: "send_chunks i d A = Some A'" "tx_log A' = tx_log A @ fs" "length fs = segments d \<longrightarrow> carries A m (view sa) fs d"
    using c link(1) by auto
  have r: "r = int (length d)" using c s(1) room(2) to_int_small[of "length d"] by simp
  have "carries A m (view sa) fs d" using s sent(2) by simp
  from carries_delivered[OF this view_def link(2,3) conn B(4)[unfolded B(3)] room[unfolded B(3)]] obtain B' where
    b: "net_rx_all fs B = Some B'" "sockets B' = sockets B" "tcp_rx_ok (tcp_socks B' ! j)" "tcp_rx_bytes (tcp_socks B' ! j) = tcp_rx_bytes sb @ d"
    using B(3) by blast
  have "\<exists>B''. sys_recv fb n B' = Some (int (min n (length (tcp_rx_bytes sb @ d))), take n (tcp_rx_bytes sb @ d), B'')" if n: "n < 65536" for n
    using sys_recv_bytes[OF B(1) _ b(3) n] B(2) b(2,4) by simp
  then show ?thesis using r b(1) s(2) by simp
qed

text \<open>Two hosts of one network with a connection between them.\<close>

definition free_pool :: memory_state where
  "free_pool = \<lparr>blocks = replicate 3 \<lparr>mb_address = 0, mb_size = 0, mb_used = False, mb_order = 0\<rparr>, total_size = 0, used_size = 0, alloc_count = 0,
     free_count = 0, memory_start = 0x200000,
     kernel_vma = \<lparr>regions = [], vma_count = 0, heap_start = 0, heap_end = 0, stack_top = 0\<rparr>\<rparr>"

definition host :: "u8 \<Rightarrow> u8 \<Rightarrow> socket list \<Rightarrow> tcp_socket list \<Rightarrow> udp_socket list \<Rightarrow> net_state" where
  "host own peer ss ts us =
     \<lparr>local_mac = [2, 0, 0, 0, 0, own], local_ip = 0xC0A80000 + ucast own, gateway_ip = 0xC0A80001, netmask = 0xFFFFFF00, net_configured = True,
      dhcp_xid = 0, dhcp_server_ip = 0, arp_cache = [\<lparr>ar_ip = 0xC0A80000 + ucast peer, ar_mac = [2, 0, 0, 0, 0, peer]\<rparr>], arp_count = 1,
      sockets = ss, tcp_socks = ts, udp_socks = us, tcp_next_seq = 7, netdev_tx = Some (\<lambda>_. 0), tx_log = [], net_pool = free_pool, net_woken = []\<rparr>"

definition connected :: "u8 \<Rightarrow> u16 \<Rightarrow> u16 \<Rightarrow> u8 list \<Rightarrow> tcp_socket" where
  "connected peer lp rp buf = \<lparr>ts_state = TCP_ESTABLISHED, ts_local_ip = 0, ts_local_port = lp, ts_remote_ip = 0xC0A80000 + ucast peer,
     ts_remote_port = rp, snd_una = 0, snd_nxt = 0, rcv_nxt = 0, snd_wnd = 0, rcv_wnd = 0, ts_rx_buf = buf, ts_rx_head = 0, ts_rx_tail = 0\<rparr>"

definition tcp_fd :: "nat \<Rightarrow> socket" where
  "tcp_fd i = \<lparr>sk_domain = AF_INET, sk_type = SOCK_STREAM, sk_protocol = 0, sk_ptr = TcpSock i\<rparr>"

lemma stream_send_run:
  "\<exists>A'. sys_send 0 [104, 105] (host 10 20 [tcp_fd 0] [connected 20 1000 80 []] []) = Some (2, A') \<and> length (tx_log A') = 1"
proof -
  have "map_option (\<lambda>(r, A'). (r, length (tx_log A'))) (sys_send 0 [104, 105] (host 10 20 [tcp_fd 0] [connected 20 1000 80 []] [])) = Some (2, 1)"
    by code_simp
  then show ?thesis by auto
qed

theorem tcp_stream_delivered_witness:
  "\<exists>A' B' B''. sys_send 0 [104, 105] (host 10 20 [tcp_fd 0] [connected 20 1000 80 []] []) = Some (2, A') \<and>
    net_rx_all (tx_log A') (host 20 10 [tcp_fd 0] [connected 10 80 1000 (replicate 32768 0)] []) = Some B' \<and>
    sys_recv 0 100 B' = Some (2, [104, 105], B'')"
proof -
  let ?A = "host 10 20 [tcp_fd 0] [connected 20 1000 80 []] []" and ?B = "host 20 10 [tcp_fd 0] [connected 10 80 1000 (replicate 32768 0)] []"
  obtain A' where s: "sys_send 0 [104, 105] ?A = Some (2, A')" "length (tx_log A') = 1" using stream_send_run by blast
  have rx: "tcp_rx_bytes (connected 10 80 1000 (replicate 32768 0)) = []" "tcp_rx_ok (connected 10 80 1000 (replicate 32768 0))"
    by (simp_all add: tcp_rx_bytes_def tcp_rx_ok_def connected_def ring_ok_def ring_bytes_def)
  have e: "tx_log ?A = []" "tcp_rx_bytes (tcp_socks ?B ! 0) = []" using rx by (simp_all add: host_def)
  have "2 = int (length [104 :: u8, 105]) \<and> (\<exists>B'. net_rx_all (drop (length (tx_log ?A)) (tx_log A')) ?B = Some B' \<and>
    (\<forall>n < 65536. \<exists>B''. sys_recv 0 n B' = Some (int (min n (length (tcp_rx_bytes (tcp_socks ?B ! 0) @ [104, 105]))), take n (tcp_rx_bytes (tcp_socks ?B ! 0) @ [104, 105]), B'')))"
    by (rule tcp_stream_delivered[where i = 0 and j = 0 and m = "[2, 0, 0, 0, 0, 20]", OF _ _ _ refl])
      (use s rx in \<open>simp_all add: bad_fd_def host_def tcp_fd_def connected_def resolved_def next_hop_def tcp_find_socket_def segments_def\<close>)
  then obtain B' where b: "net_rx_all (tx_log A') ?B = Some B'"
      "\<forall>n < 65536. \<exists>B''. sys_recv 0 n B' = Some (int (min n (length [104 :: u8, 105])), take n [104, 105], B'')"
    unfolding e append_Nil list.size(3) drop_0 by blast
  have "(100 :: nat) < 65536" by simp
  from b(2)[rule_format, OF this] show ?thesis using s(1) b(1) by auto
qed

end
