(* ===== verification/Net_Sockets.thy ===== *)
theory Net_Sockets
  imports Net_Stream
begin

text \<open>
  The network stack over every history of received frames and socket calls: the invariant of its tables, and
  the life of a connection. The frames are arbitrary bytes. Also echo replies, and the departures that the model shows:
  connections that are never established, sockets that are shared, and a configuration text that is never read to its end.
\<close>

subsection \<open>What every call keeps\<close>

lemma sent_after_alloc:
  assumes "net_alloc n st = (p, st1)" "sent_to st1 fs st2"
  shows "\<exists>fs. sent_to st fs (net_free q st2)"
  using sent_trans[OF sent_alloc[OF assms(1)] sent_trans[OF assms(2) sent_free]] by blast

lemma ip_send_sent: "ip_send_packet dst proto d len st = Some st' \<Longrightarrow> \<exists>fs. sent_to st fs st'"
proof -
  assume r: "ip_send_packet dst proto d len st = Some st'"
  obtain p st1 where a: "net_alloc (14 + unat (20 + len)) st = (p, st1)" by fastforce
  obtain mo st2 where l: "arp_lookup dst st1 = (mo, st2)" by fastforce
  obtain gs where s2: "sent_to st1 gs st2" using arp_lookup_sent(2)[of st1 dst] l by auto
  note r = r[unfolded ip_send_packet_def Let_def a prod.case l]
  show ?thesis
  proof (cases "p = 0")
    case True
    then show ?thesis using r sent_alloc[OF a] by auto
  next
    case p: False
    show ?thesis
    proof (cases mo)
      case None
      then show ?thesis using r p sent_after_alloc[OF a s2] by auto
    next
      case (Some m)
      then obtain f where "st' = net_free p (snd (net_tx_frame f st2))" using r p by (auto split: if_splits bind_splits)
      then show ?thesis using sent_after_alloc[OF a sent_trans[OF s2 sent_tx]] by auto
    qed
  qed
qed

lemma send_over_ip_sent: "send_over_ip dst proto h hl d len st = Some (b, st') \<Longrightarrow> \<exists>fs. sent_to st fs st'"
proof -
  assume r: "send_over_ip dst proto h hl d len st = Some (b, st')"
  obtain p st1 where a: "net_alloc (unat (hl + len)) st = (p, st1)" by fastforce
  note r = r[unfolded send_over_ip_def Let_def a prod.case]
  show ?thesis
  proof (cases "p = 0")
    case True
    then show ?thesis using r sent_alloc[OF a] by auto
  next
    case False
    then obtain x st2 where "ip_send_packet dst proto x (hl + len) st1 = Some st2" "st' = net_free p st2" using r by (auto split: if_splits bind_splits)
    then show ?thesis using sent_after_alloc[OF a] ip_send_sent by blast
  qed
qed

lemma tcp_send_only:
  "tcp_send_packet i fl d len st = Some st' \<Longrightarrow> \<exists>st1 fs. sent_to st fs st1 \<and> (st' = st1 \<or> st' = upd_tcp i (tcp_advance fl len) st1)"
  by (auto simp: tcp_send_packet_def Let_def split: bind_splits if_splits dest!: send_over_ip_sent)

lemma length_rdn: "rdn d k n = Some x \<Longrightarrow> length x = n"
  by (auto simp: rdn_def split: if_splits)

lemma tcp_send_state:
  assumes "tcp_send_packet i fl d len st = Some st'" "i < length (tcp_socks st)"
  shows "length (tcp_socks st') = length (tcp_socks st)" "ts_state (tcp_socks st' ! i) = ts_state (tcp_socks st ! i)"
  using tcp_send_only[OF assms(1)] sent_fields assms(2) by fastforce+

subsection \<open>Received frames\<close>

text \<open>The changes that a received frame can make to a TCP socket: the state machine of \<open>tcp_handle_packet\<close>.\<close>

inductive tcp_move :: "tcp_socket \<Rightarrow> tcp_socket \<Rightarrow> bool" where
  advance: "tcp_move s (tcp_advance fl n s)"
| syn: "ts_state s = TCP_CLOSED \<Longrightarrow> tcp_move s (zero_tcp\<lparr>ts_state := TCP_SYN_RECV, ts_local_ip := ip, ts_local_port := lp, ts_remote_ip := rip,
    ts_remote_port := rp, rcv_nxt := rn, snd_nxt := sn, snd_una := su, rcv_wnd := rw, snd_wnd := sw\<rparr>)"
| established: "ts_state s = TCP_SYN_RECV \<Longrightarrow> tcp_move s (s\<lparr>ts_state := TCP_ESTABLISHED\<rparr>)"
| payload: "ts_state s = TCP_ESTABLISHED \<Longrightarrow> a = rx_room TCP_RX_BUF_SIZE (ts_rx_tail s) (ts_rx_head s) n \<Longrightarrow> length d = unat a \<Longrightarrow>
    tcp_move s (s\<lparr>ts_rx_buf := ring_put (ts_rx_buf s) (ts_rx_tail s) d, ts_rx_tail := ts_rx_tail s + a, rcv_nxt := rn\<rparr>)"
| acked: "ts_state s = TCP_ESTABLISHED \<Longrightarrow> tcp_move s (s\<lparr>rcv_nxt := rn\<rparr>)"
| peer_closed: "ts_state s = TCP_ESTABLISHED \<Longrightarrow> tcp_move s (s\<lparr>ts_state := TCP_CLOSE_WAIT\<rparr>)"

text \<open>
  An invariant of the host under received frames: it need only be kept by transmissions, the client of DHCP, the ARP
  cache, a delivered datagram and the moves of TCP sockets.
\<close>

locale rx_invariant =
  fixes I :: "net_state \<Rightarrow> bool"
  assumes sent: "I st \<Longrightarrow> sent_to st fs st' \<Longrightarrow> I st'"
    and config: "I st \<Longrightarrow> I (st\<lparr>dhcp_server_ip := srv\<rparr>)" "I st \<Longrightarrow> I (st\<lparr>local_ip := ip, net_configured := True\<rparr>)" "I st \<Longrightarrow> I (st\<lparr>tcp_next_seq := v\<rparr>)"
    and learn: "I st \<Longrightarrow> length mac = ETH_ALEN \<Longrightarrow> I (arp_learn ip mac st)"
    and datagram: "I st \<Longrightarrow> i < length (udp_socks st) \<Longrightarrow> udp_deliver i ip sp d n st = Some st' \<Longrightarrow> I st'"
    and move: "I st \<Longrightarrow> i < length (tcp_socks st) \<Longrightarrow> tcp_move (tcp_socks st ! i) (f (tcp_socks st ! i)) \<Longrightarrow> I (upd_tcp i f st)"
begin

lemma tx: "I st \<Longrightarrow> I (snd (net_tx_frame f st))"
  by (rule sent[OF _ sent_tx])

lemma over_ip: "I st \<Longrightarrow> send_over_ip dst proto h hl d len st = Some (b, st') \<Longrightarrow> I st'"
  using send_over_ip_sent sent by blast

lemma segment:
  assumes "I st" "i < length (tcp_socks st)" "tcp_send_packet i fl d len st = Some st'"
  shows "I st'"
proof -
  from tcp_send_only[OF assms(3)] obtain st1 fs where s: "sent_to st fs st1" "st' = st1 \<or> st' = upd_tcp i (tcp_advance fl len) st1" by blast
  have "I st1" "i < length (tcp_socks st1)" using sent[OF assms(1) s(1)] sent_fields[OF s(1)] assms(2) by simp_all
  then show ?thesis using s(2) move[of st1 i "tcp_advance fl len"] tcp_move.advance by auto
qed

lemma arp: "I st \<Longrightarrow> arp_handle_packet d st = Some st' \<Longrightarrow> I st'"
  by (auto simp: arp_handle_packet_def rdn_def intro: tx learn split: bind_splits if_splits)

lemma icmp: "I st \<Longrightarrow> icmp_handle_packet ip d n st = Some st' \<Longrightarrow> I st'"
  by (auto simp: icmp_handle_packet_def icmp_send_echo_reply_def intro: over_ip split: bind_splits if_splits)

lemma udp: "I st \<Longrightarrow> udp_handle_packet ip d n st = Some st' \<Longrightarrow> I st'"
  by (auto simp: udp_handle_packet_def Let_def dhcp_send_request_def intro!: tx config intro: datagram
      dest: find_idxD(1) split: bind_splits if_splits option.splits)

lemma listen_syn: "I st \<Longrightarrow> tcp_listen_syn dp ip sp sq d st = Some st' \<Longrightarrow> I st'"
proof -
  assume st: "I st" and r: "tcp_listen_syn dp ip sp sq d st = Some st'"
  show ?thesis
  proof (cases "find_idx (\<lambda>s. ts_state s = TCP_CLOSED) (tcp_socks st)")
    case None
    then show ?thesis using r st by (simp add: tcp_listen_syn_def)
  next
    case (Some i)
    note i = find_idxD(1,2)[OF Some]
    let ?st = "st\<lparr>tcp_next_seq := tcp_next_seq st + 1\<rparr>"
    from r Some obtain f where f: "tcp_send_packet i (TCP_FLAG_SYN OR TCP_FLAG_ACK) [] 0 (upd_tcp i f ?st) = Some st'" "tcp_move (tcp_socks ?st ! i) (f (tcp_socks ?st ! i))"
      using tcp_move.syn[OF i(2)] by (auto simp: tcp_listen_syn_def split: bind_splits)
    have "I (upd_tcp i f ?st)" using move[of ?st i f] config(3)[OF st] f(2) i(1) by simp
    then show ?thesis using segment[OF _ _ f(1)] i(1) by simp
  qed
qed

lemma receive:
  assumes "I st" "i < length (tcp_socks st)" "ts_state (tcp_socks st ! i) = TCP_ESTABLISHED" "tcp_receive i sq d n st = Some st'"
  shows "I st'"
proof -
  let ?a = "rx_room TCP_RX_BUF_SIZE (ts_rx_tail (tcp_socks st ! i)) (ts_rx_head (tcp_socks st ! i)) n"
  from assms(4) obtain x where x: "length x = unat ?a" "tcp_send_packet i TCP_FLAG_ACK [] 0
      (upd_tcp i (\<lambda>s. s\<lparr>ts_rx_buf := ring_put (ts_rx_buf s) (ts_rx_tail s) x, ts_rx_tail := ts_rx_tail s + ?a, rcv_nxt := sq + ucast n\<rparr>) st) = Some st'"
    by (auto simp: tcp_receive_def Let_def split: bind_splits dest: length_rdn)
  show ?thesis by (rule segment[OF move _ x(2)]) (use assms(1,2) tcp_move.payload[OF assms(3) refl x(1)] in simp_all)
qed

lemma finished:
  assumes "I st" "i < length (tcp_socks st)" "ts_state (tcp_socks st ! i) = TCP_ESTABLISHED"
    "tcp_send_packet i TCP_FLAG_ACK [] 0 (upd_tcp i (\<lambda>s. s\<lparr>rcv_nxt := rn\<rparr>) st) = Some st1"
  shows "I (upd_tcp i (\<lambda>s. s\<lparr>ts_state := TCP_CLOSE_WAIT\<rparr>) st1)"
proof -
  let ?st = "upd_tcp i (\<lambda>s. s\<lparr>rcv_nxt := rn\<rparr>) st"
  have i: "i < length (tcp_socks ?st)" using assms(2) by simp
  have "I ?st" by (rule move) (use assms tcp_move.acked in auto)
  then have "I st1" by (rule segment[OF _ i assms(4)])
  moreover have "i < length (tcp_socks st1)" "ts_state (tcp_socks st1 ! i) = TCP_ESTABLISHED" using tcp_send_state[OF assms(4) i] assms(2,3) by simp_all
  ultimately show ?thesis using move tcp_move.peer_closed by simp
qed

lemma tcp: "I st \<Longrightarrow> tcp_handle_packet ip d n st = Some st' \<Longrightarrow> I st'"
proof -
  assume st: "I st" and r: "tcp_handle_packet ip d n st = Some st'"
  show ?thesis
  proof (cases "unat n < 20")
    case True
    then show ?thesis using r st by (simp add: tcp_handle_packet_def)
  next
    case False
    from r False obtain dport sport sip sq ak flags doff where rd: "rd16 d 2 = Some dport" "rd16 d 0 = Some sport" "rd32 ip 12 = Some sip"
      "rd32 d 4 = Some sq" "rd32 d 8 = Some ak" "rd8 d 13 = Some flags" "rd8 d 12 = Some doff"
      by (auto simp: tcp_handle_packet_def split: bind_splits)
    note r = r[unfolded tcp_handle_packet_def Let_def rd bind.bind_lunit if_not_P[OF False]]
    show ?thesis
    proof (cases "tcp_find_socket (ntohs dport) (ntohl sip) (ntohs sport) (tcp_socks st)")
      case None
      then show ?thesis using r st by simp
    next
      case (Some i)
      have i: "i < length (tcp_socks st)" "ts_state (tcp_socks st ! i) \<in> {TCP_SYN_RECV, TCP_ESTABLISHED, TCP_LISTEN}"
        using find_idxD(1,2)[OF Some[unfolded tcp_find_socket_def]] by (auto split: if_splits)
      then consider "ts_state (tcp_socks st ! i) = TCP_SYN_RECV" | "ts_state (tcp_socks st ! i) = TCP_ESTABLISHED" | "ts_state (tcp_socks st ! i) = TCP_LISTEN"
        by auto
      then show ?thesis
      proof cases
        case 1
        then show ?thesis using r Some st move[OF st i(1), of "\<lambda>s. s\<lparr>ts_state := TCP_ESTABLISHED\<rparr>"] tcp_move.established by (auto split: if_splits)
      next
        case 2
        then show ?thesis using r Some st receive[OF st i(1) 2] finished[OF st i(1) 2] by (auto split: if_splits bind_splits)
      next
        case 3
        then show ?thesis using r Some st listen_syn[OF st] by (auto split: if_splits)
      qed
    qed
  qed
qed

lemma ip: "I st \<Longrightarrow> ip_handle_packet d n st = Some st' \<Longrightarrow> I st'"
  by (auto simp: ip_handle_packet_def Let_def intro: icmp udp tcp split: bind_splits if_splits)

lemma frame: "I st \<Longrightarrow> net_rx_frame f st = Some st' \<Longrightarrow> I st'"
  by (auto simp: net_rx_frame_def intro: arp ip split: bind_splits if_splits)

lemma frames: "I st \<Longrightarrow> net_rx_all fs st = Some st' \<Longrightarrow> I st'"
  by (induction fs arbitrary: st) (auto split: bind_splits dest: frame)

end

subsection \<open>The tables over every history\<close>

definition ptr_ok :: "sock_ptr \<Rightarrow> bool" where
  "ptr_ok p = (case p of NoSock \<Rightarrow> True | TcpSock i \<Rightarrow> i < 64 | UdpSock i \<Rightarrow> i < 32)"

text \<open>
  The tables keep their sizes, the cache counts entries it has, every receive buffer holds at most its size, and a socket
  of the descriptor table points into the table of its protocol.
\<close>

definition net_ok :: "net_state \<Rightarrow> bool" where
  "net_ok st \<longleftrightarrow> length (sockets st) = 128 \<and> length (tcp_socks st) = 64 \<and> length (udp_socks st) = 32 \<and> length (arp_cache st) = ARP_CACHE_SIZE \<and>
     arp_count st \<le> ARP_CACHE_SIZE \<and> (\<forall>e \<in> set (arp_cache st). length (ar_mac e) = ETH_ALEN) \<and>
     (\<forall>s \<in> set (tcp_socks st). tcp_rx_ok s) \<and> (\<forall>s \<in> set (udp_socks st). udp_rx_ok s) \<and> (\<forall>s \<in> set (sockets st). ptr_ok (sk_ptr s))"

lemma all_update:
  assumes "\<forall>x \<in> set xs. P x" "i < length xs \<Longrightarrow> P (xs ! i) \<Longrightarrow> P y"
  shows "\<forall>x \<in> set (xs[i := y]). P x"
proof (cases "i < length xs")
  case True
  then show ?thesis using assms set_update_subset_insert[of xs i y] by auto
qed (use assms(1) in \<open>simp add: list_update_beyond\<close>)

lemma net_ok_fields:
  "net_ok st \<Longrightarrow> sockets st' = sockets st \<Longrightarrow> tcp_socks st' = tcp_socks st \<Longrightarrow> udp_socks st' = udp_socks st \<Longrightarrow> arp_cache st' = arp_cache st \<Longrightarrow>
   arp_count st' = arp_count st \<Longrightarrow> net_ok st'"
  by (simp add: net_ok_def)

lemma net_ok_upd_tcp:
  assumes "net_ok st" "\<And>s. s = tcp_socks st ! i \<Longrightarrow> tcp_rx_ok s \<Longrightarrow> tcp_rx_ok (f s)"
  shows "net_ok (upd_tcp i f st)"
proof -
  have "\<forall>s \<in> set ((tcp_socks st)[i := f (tcp_socks st ! i)]). tcp_rx_ok s" by (rule all_update) (use assms in \<open>simp_all add: net_ok_def\<close>)
  then show ?thesis using assms(1) by (simp add: net_ok_def upd_tcp_def)
qed

lemma net_ok_upd_udp:
  assumes "net_ok st" "\<And>s. s = udp_socks st ! i \<Longrightarrow> udp_rx_ok s \<Longrightarrow> udp_rx_ok (f s)"
  shows "net_ok (upd_udp i f st)"
proof -
  have "\<forall>s \<in> set ((udp_socks st)[i := f (udp_socks st ! i)]). udp_rx_ok s" by (rule all_update) (use assms in \<open>simp_all add: net_ok_def\<close>)
  then show ?thesis using assms(1) by (simp add: net_ok_def upd_udp_def)
qed

lemma net_ok_upd_sock:
  assumes "net_ok st" "\<And>s. s = sockets st ! i \<Longrightarrow> ptr_ok (sk_ptr s) \<Longrightarrow> ptr_ok (sk_ptr (f s))"
  shows "net_ok (upd_sock i f st)"
proof -
  have "\<forall>s \<in> set ((sockets st)[i := f (sockets st ! i)]). ptr_ok (sk_ptr s)" by (rule all_update) (use assms in \<open>simp_all add: net_ok_def\<close>)
  then show ?thesis using assms(1) by (simp add: net_ok_def upd_sock_def)
qed

lemma zero_rx_ok [simp]: "tcp_rx_ok zero_tcp" "udp_rx_ok zero_udp"
  by (simp_all add: tcp_rx_ok_def udp_rx_ok_def zero_tcp_def zero_udp_def ring_ok_def)

lemma rx_put_ok:
  assumes "ring_ok k buf h t" "k < 32" "a = rx_room (2 ^ k) t h n" "length d = unat a"
  shows "ring_ok k (ring_put buf t d) h (t + a)"
proof (rule ring_enq(1)[OF assms(1,2)])
  have "unat (t - h) \<le> 2 ^ k" using assms(1) by (simp add: ring_ok_def)
  then show "length d \<le> 2 ^ k - unat (t - h)" using unat_rx_room[OF _ assms(2), of t h n] assms(3,4) by simp
qed (use assms(4) in simp)

lemma tcp_move_ok: "tcp_move s s' \<Longrightarrow> tcp_rx_ok s \<Longrightarrow> tcp_rx_ok s'"
proof (induction rule: tcp_move.induct)
  case (payload s a n d rn)
  then show ?case using rx_put_ok[of 15 "ts_rx_buf s" "ts_rx_head s" "ts_rx_tail s" a n d] by (simp add: tcp_rx_ok_def)
qed (simp_all add: tcp_rx_ok_def tcp_advance_def zero_tcp_def ring_ok_def)

lemma udp_deliver_ok:
  assumes ok: "net_ok st" and i: "i < length (udp_socks st)" and r: "udp_deliver i ip sp d n st = Some st'"
  shows "net_ok st'"
proof -
  let ?s = "udp_socks st ! i"
  define a where "a = rx_room UDP_RX_BUF_SIZE (us_rx_tail ?s) (us_rx_head ?s) n"
  obtain x where x: "rdn d 0 (unat a) = Some x" using r by (auto simp: udp_deliver_def Let_def a_def split: bind_splits)
  let ?f = "\<lambda>s. s\<lparr>us_rx_buf := ring_put (us_rx_buf s) (us_rx_tail s) x, us_rx_tail := us_rx_tail s + a, peer_ip := ip, peer_port := sp, has_data := True\<rparr>"
  have "udp_rx_ok (?f ?s)" if "udp_rx_ok ?s"
    using rx_put_ok[of 13 "us_rx_buf ?s" "us_rx_head ?s" "us_rx_tail ?s" a n x] that length_rdn[OF x] by (simp add: udp_rx_ok_def a_def)
  then have o1: "net_ok (upd_udp i ?f st)" by (intro net_ok_upd_udp[OF ok]) simp
  then have "net_ok (upd_udp i (\<lambda>s. s\<lparr>waiter_pid := 0\<rparr>) (upd_udp i ?f st))" by (rule net_ok_upd_udp) (simp add: udp_rx_ok_def)
  then have o2: "net_ok ((upd_udp i (\<lambda>s. s\<lparr>waiter_pid := 0\<rparr>) (upd_udp i ?f st))\<lparr>net_woken := w\<rparr>)" for w by (rule net_ok_fields) simp_all
  have "st' = upd_udp i ?f st \<or> (\<exists>w. st' = (upd_udp i (\<lambda>s. s\<lparr>waiter_pid := 0\<rparr>) (upd_udp i ?f st))\<lparr>net_woken := w\<rparr>)"
    using r unfolding udp_deliver_def Let_def a_def[symmetric] x bind.bind_lunit by (auto split: if_splits)
  then show ?thesis using o1 o2 by blast
qed

lemma arp_learn_ok:
  assumes "net_ok st" "length mac = ETH_ALEN"
  shows "net_ok (arp_learn ip mac st)"
proof -
  have u: "\<forall>e \<in> set ((arp_cache st)[i := e']). length (ar_mac e) = ETH_ALEN" if "ar_mac e' = mac" for i e'
    by (rule all_update) (use assms that in \<open>simp_all add: net_ok_def\<close>)
  show ?thesis
  proof (cases "find_idx (\<lambda>e. ar_ip e = ip) (take (arp_count st) (arp_cache st))")
    case None
    then show ?thesis using assms(1) u[of "\<lparr>ar_ip = ip, ar_mac = mac\<rparr>" "arp_count st"] by (simp add: net_ok_def arp_learn_def)
  next
    case (Some i)
    then show ?thesis using assms(1) u[of "(arp_cache st ! i)\<lparr>ar_mac := mac\<rparr>" i] by (simp add: net_ok_def arp_learn_def)
  qed
qed

interpretation tables: rx_invariant net_ok
proof
  fix st fs st' assume "net_ok st" "sent_to st fs st'"
  then show "net_ok st'" using sent_fields[of st fs st'] net_ok_fields[of st st'] by simp
next
  fix st :: net_state and srv ip v assume "net_ok st"
  then show "net_ok (st\<lparr>dhcp_server_ip := srv\<rparr>)" "net_ok (st\<lparr>local_ip := ip, net_configured := True\<rparr>)" "net_ok (st\<lparr>tcp_next_seq := v\<rparr>)"
    by (simp_all add: net_ok_def)
next
  fix st :: net_state and i f assume "net_ok st" "tcp_move (tcp_socks st ! i) (f (tcp_socks st ! i))"
  then show "net_ok (upd_tcp i f st)" using net_ok_upd_tcp[of st i f] tcp_move_ok by blast
qed (use arp_learn_ok udp_deliver_ok in auto)

text \<open>The socket calls.\<close>

lemma sock_ptr_ok: "net_ok st \<Longrightarrow> \<not> bad_fd fd \<Longrightarrow> ptr_ok (sk_ptr (sockets st ! nat fd))"
proof -
  assume "net_ok st" "\<not> bad_fd fd"
  then have "nat fd < length (sockets st)" "\<forall>s \<in> set (sockets st). ptr_ok (sk_ptr s)" by (auto simp: net_ok_def bad_fd_def)
  then show ?thesis by simp
qed

lemma tcp_fd_valid: "net_ok st \<Longrightarrow> \<not> bad_fd fd \<Longrightarrow> sk_ptr (sockets st ! nat fd) = TcpSock i \<Longrightarrow> i < length (tcp_socks st)"
  using sock_ptr_ok[of st fd] by (simp add: ptr_ok_def net_ok_def)




















subsection \<open>Which steps are defined\<close>



























lemma net_init_ok: "net_ok (net_init tsc1 tsc2 a b c d st)"
proof -
  let ?st = "st\<lparr>arp_cache := replicate ARP_CACHE_SIZE \<lparr>ar_ip = 0, ar_mac = replicate ETH_ALEN 0\<rparr>, sockets := replicate 128 zero_socket,
    tcp_socks := replicate 64 zero_tcp, udp_socks := replicate 32 zero_udp, arp_count := 0, tcp_next_seq := ucast tsc1,
    local_mac := generate_mac_from_cpuid a b c d\<rparr>"
  have ok: "net_ok ?st" by (simp add: net_ok_def zero_socket_def ptr_ok_def)
  moreover have "net_ok (?st\<lparr>dhcp_xid := x\<rparr>)" for x using ok by (rule net_ok_fields) simp_all
  ultimately show ?thesis using tables.tx unfolding net_init_def dhcp_send_discover_def Let_def by simp
qed



subsection \<open>Connections\<close>

text \<open>What frames did to the sockets, from a given state on.\<close>

definition rx_moves :: "net_state \<Rightarrow> net_state \<Rightarrow> bool" where
  "rx_moves st0 st \<longleftrightarrow> sockets st = sockets st0 \<and> length (tcp_socks st) = length (tcp_socks st0) \<and>
     (\<forall>i < length (tcp_socks st0). tcp_move\<^sup>*\<^sup>* (tcp_socks st0 ! i) (tcp_socks st ! i))"

lemma rx_moves_fields: "rx_moves st0 st \<Longrightarrow> sockets st' = sockets st \<Longrightarrow> tcp_socks st' = tcp_socks st \<Longrightarrow> rx_moves st0 st'"
  by (simp add: rx_moves_def)

interpretation moves: rx_invariant "rx_moves st0" for st0
proof
  fix st fs st' assume "rx_moves st0 st" "sent_to st fs st'"
  then show "rx_moves st0 st'" using sent_fields[of st fs st'] rx_moves_fields[of st0 st st'] by simp
next
  fix st :: net_state and srv ip v assume "rx_moves st0 st"
  then show "rx_moves st0 (st\<lparr>dhcp_server_ip := srv\<rparr>)" "rx_moves st0 (st\<lparr>local_ip := ip, net_configured := True\<rparr>)" "rx_moves st0 (st\<lparr>tcp_next_seq := v\<rparr>)"
    by (simp_all add: rx_moves_def)
next
  fix st mac ip assume "rx_moves st0 st"
  then show "rx_moves st0 (arp_learn ip mac st)" by (rule rx_moves_fields) (simp_all add: arp_learn_def split: option.split)
next
  fix st st' i ip sp d n assume "rx_moves st0 st" "udp_deliver i ip sp d n st = Some st'"
  then show "rx_moves st0 st'" using rx_moves_fields[of st0 st st'] by (auto simp: udp_deliver_def Let_def upd_udp_def split: bind_splits if_splits)
next
  fix st i f assume "rx_moves st0 st" "i < length (tcp_socks st)" "tcp_move (tcp_socks st ! i) (f (tcp_socks st ! i))"
  then show "rx_moves st0 (upd_tcp i f st)" unfolding rx_moves_def by (auto simp: nth_list_update intro: rtranclp.rtrancl_into_rtrancl)
qed

lemma syn_sent_deaf: "tcp_move\<^sup>*\<^sup>* s s' \<Longrightarrow> ts_state s = TCP_SYN_SENT \<Longrightarrow> ts_state s' = TCP_SYN_SENT"
  by (induction rule: rtranclp_induct) (auto elim: tcp_move.cases)

lemma sys_connect_syn_sent:
  assumes ok: "net_ok st" and r: "sys_connect fd port addr st = Some (0, st1)"
  obtains i where "\<not> bad_fd fd" "sk_ptr (sockets st1 ! nat fd) = TcpSock i" "i < length (tcp_socks st1)" "ts_state (tcp_socks st1 ! i) = TCP_SYN_SENT"
proof -
  from r obtain i where fd: "\<not> bad_fd fd" "sk_ptr (sockets st ! nat fd) = TcpSock i"
    by (auto simp: sys_connect_def split: if_splits sock_ptr.splits)
  have i: "i < length (tcp_socks st)" by (rule tcp_fd_valid[OF ok fd])
  let ?st = "st\<lparr>tcp_next_seq := tcp_next_seq st + 1\<rparr>"
  from r fd obtain f where f: "tcp_send_packet i TCP_FLAG_SYN [] 0 (upd_tcp i f ?st) = Some st1" "\<And>s. ts_state (f s) = TCP_SYN_SENT"
    by (auto simp: sys_connect_def)
  have "sockets st1 = sockets st" using tcp_send_only[OF f(1)] sent_fields by fastforce
  then show thesis using that[of i] fd i tcp_send_state[OF f(1)] f(2) by simp
qed

text \<open>C32. An outgoing connection is never established. After \<open>sys_connect\<close> succeeded, whatever frames arrive, the answer of the peer
  among them, \<open>sys_send\<close> on that descriptor fails: \<open>tcp_find_socket\<close> matches no socket in the state \<open>TCP_SYN_SENT\<close>.\<close>

theorem connect_never_established:
  assumes "net_ok st" "sys_connect fd port addr st = Some (0, st1)" "net_rx_all fs st1 = Some st2"
  shows "sys_send fd d st2 = Some (- 1, st2)"
proof -
  obtain i where i: "\<not> bad_fd fd" "sk_ptr (sockets st1 ! nat fd) = TcpSock i" "i < length (tcp_socks st1)" "ts_state (tcp_socks st1 ! i) = TCP_SYN_SENT"
    by (rule sys_connect_syn_sent[OF assms(1,2)]) (rule that; assumption)
  have "rx_moves st1 st1" by (simp add: rx_moves_def)
  then have "rx_moves st1 st2" by (rule moves.frames[OF _ assms(3)])
  then have "sockets st2 = sockets st1" "ts_state (tcp_socks st2 ! i) = TCP_SYN_SENT" using i syn_sent_deaf by (auto simp: rx_moves_def)
  then show ?thesis using i by (simp add: sys_send_def first_word_def)
qed

lemma find_syn_sent: "ts_state s = TCP_SYN_SENT \<Longrightarrow> tcp_find_socket p ip q ((replicate n zero_tcp)[0 := s]) = None"
  using set_update_subset_insert[of "replicate n zero_tcp" 0 s] by (auto simp: tcp_find_socket_def find_idx_None zero_tcp_def)

lemma syn_ack_ignored:
  assumes "tcp_find_socket dp (local_ip A) sp (tcp_socks B) = None" "length m = 6" "length (local_mac A) = 6"
  shows "net_rx_frame (ip_frame A m (local_ip B) IP_PROTO_TCP (tcp_header sp dp sq ak fl wn)) B = Some B"
proof -
  have l: "length (tcp_header sp dp sq ak fl wn) < 65516" by simp
  have f: "rd16 (tcp_header sp dp sq ak fl wn) 2 = Some (htons dp)" "rd16 (tcp_header sp dp sq ak fl wn) 0 = Some (htons sp)"
    "rd32 (tcp_header sp dp sq ak fl wn) 4 = Some (htonl sq)" "rd32 (tcp_header sp dp sq ak fl wn) 8 = Some (htonl ak)"
    "rd8 (tcp_header sp dp sq ak fl wn) 13 = Some fl" "rd8 (tcp_header sp dp sq ak fl wn) 12 = Some 0x50"
    by (simp_all add: tcp_header_def le16_def le32_def rd8_def rd16_def rd32_def)
  show ?thesis by (subst rx_ip_frame[OF assms(2,3) l]) (use assms(1) f in \<open>simp_all add: tcp_handle_packet_def Let_def\<close>)
qed

theorem connect_never_established_witness:
  "\<exists>st st1 fs st2. sys_connect 0 (htons 80) (htonl 0xC0A80014) st = Some (0, st1) \<and> fs \<noteq> [] \<and> net_rx_all fs st1 = Some st2 \<and> sys_send 0 [104, 105] st2 = Some (- 1, st2)"
proof -
  let ?st0 = "net_init 5 6 1 2 3 4 (host 10 20 [] [] [])"
  define st where "st = upd_sock 0 (\<lambda>_. tcp_fd 0) ?st0"
  have ok: "net_ok st" unfolding st_def by (rule net_ok_upd_sock[OF net_init_ok]) (simp add: tcp_fd_def ptr_ok_def)
  have st: "tcp_socks st = replicate 64 zero_tcp" "sk_ptr (sockets st ! 0) = TcpSock 0" "local_ip st = 0xC0A8000A"
    by (simp_all add: st_def net_init_def host_def upd_sock_def tcp_fd_def Let_def)
  define f where "f = (\<lambda>s :: tcp_socket. s\<lparr>ts_remote_ip := 0xC0A80014, ts_remote_port := 80, ts_local_ip := local_ip st,
    ts_local_port := (if ts_local_port s = 0 then ucast (0xC000 + tcp_next_seq st mod 0x4000) else ts_local_port s),
    snd_nxt := tcp_next_seq st, snd_una := tcp_next_seq st, rcv_wnd := of_nat TCP_RX_BUF_SIZE, ts_state := TCP_SYN_SENT\<rparr>)"
  have c: "ts_state (f s) = TCP_SYN_SENT" "sys_connect 0 (htons 80) (htonl 0xC0A80014) st =
      map_option (Pair 0) (tcp_send_packet 0 TCP_FLAG_SYN [] 0 (upd_tcp 0 f (st\<lparr>tcp_next_seq := tcp_next_seq st + 1\<rparr>)))" for s
    using st unfolding f_def by (simp_all add: sys_connect_def bad_fd_def)
  let ?st = "upd_tcp 0 f (st\<lparr>tcp_next_seq := tcp_next_seq st + 1\<rparr>)" and ?A = "host 20 10 [] [] []"
  obtain st1 where s: "tcp_send_packet 0 TCP_FLAG_SYN [] 0 ?st = Some st1" "map view (tcp_socks st1) = map view (tcp_socks ?st)"
    by (rule tcp_send_bare[where i = 0 and flags = TCP_FLAG_SYN and st = ?st]) (rule that; assumption)
  have "tcp_find_socket dp ip sp (tcp_socks st1) = None" for dp ip sp
    unfolding tcp_find_view[OF s(2)] using find_syn_sent[OF c(1)] st(1) by simp
  then have "net_rx_all [ip_frame ?A [2, 0, 0, 0, 0, 10] (local_ip st1) IP_PROTO_TCP (tcp_header 80 0xC006 1 8 (TCP_FLAG_SYN OR TCP_FLAG_ACK) 1000)] st1 = Some st1"
    by (simp add: syn_ack_ignored host_def)
  moreover have "sys_connect 0 (htons 80) (htonl 0xC0A80014) st = Some (0, st1)" using c(2) s(1) by simp
  ultimately show ?thesis using connect_never_established[OF ok] by blast
qed

text \<open>
  \<open>sys_accept\<close> looks for a handshake that is not finished: once the peer's last segment has arrived the connection is in
  the state \<open>TCP_ESTABLISHED\<close>, and it is never handed out.
\<close>

lemma accept_misses_finished:
  assumes "\<forall>s \<in> set (tcp_socks st). ts_state s \<noteq> TCP_SYN_RECV"
  shows "sys_accept fd st = (- 1, None, st)"
proof -
  have "find_idx (\<lambda>s. ts_state s = TCP_SYN_RECV) (tcp_socks st) = None" using assms by (simp add: find_idx_None)
  then show ?thesis by (simp add: sys_accept_def Let_def)
qed

text \<open>A second stream socket takes the TCP socket of the first, which is still \<open>TCP_CLOSED\<close>.\<close>

lemma stream_sockets_shared:
  assumes "sys_socket AF_INET SOCK_STREAM p st = (a, st1)" "sys_socket AF_INET SOCK_STREAM q st1 = (b, st2)" "0 \<le> a" "0 \<le> b" "net_ok st"
  shows "a \<noteq> b \<and> (\<exists>i. sk_ptr (sockets st2 ! nat a) = TcpSock i \<and> sk_ptr (sockets st2 ! nat b) = TcpSock i)"
proof -
  from assms(1,3) obtain k i where k: "find_idx (\<lambda>s. sk_domain s = 0) (sockets st) = Some k" "find_idx (\<lambda>s. ts_state s = TCP_CLOSED) (tcp_socks st) = Some i"
    "a = int k" "st1 = upd_sock k (\<lambda>_. \<lparr>sk_domain = AF_INET, sk_type = SOCK_STREAM, sk_protocol = p, sk_ptr = TcpSock i\<rparr>) (upd_tcp i (\<lambda>_. zero_tcp) st)"
    by (auto simp: sys_socket_def Let_def split: option.splits)
  note f = find_idxD[OF k(2)]
  have "find_idx (\<lambda>s. ts_state s = TCP_CLOSED) (tcp_socks st1) = Some i"
    unfolding find_idx_Some using f by (auto simp: k(4) upd_sock_def nth_list_update zero_tcp_def)
  with assms(2,4) obtain l where l: "find_idx (\<lambda>s. sk_domain s = 0) (sockets st1) = Some l" "b = int l"
    "sockets st2 = (sockets st1)[l := \<lparr>sk_domain = AF_INET, sk_type = SOCK_STREAM, sk_protocol = q, sk_ptr = TcpSock i\<rparr>]"
    by (auto simp: sys_socket_def Let_def upd_sock_def split: option.splits)
  have kl: "k < length (sockets st)" "l < length (sockets st1)" "sk_domain (sockets st1 ! l) = 0" using find_idxD(1,2) k(1) l(1) by blast+
  then have "l \<noteq> k" by (auto simp: k(4) upd_sock_def)
  then show ?thesis using kl by (auto simp: k(3,4) l(2,3) upd_sock_def nth_list_update)
qed

text \<open>Closing a datagram socket leaves it bound: the pointer is cleared before the branch that unbinds it looks at it.\<close>

lemma udp_close_stays_bound:
  assumes "\<not> bad_fd fd" "sk_ptr (sockets st ! nat fd) = UdpSock i" "nat fd < length (sockets st)" "i < length (udp_socks st)"
    "us_bound (udp_socks st ! i)" "sint (us_local_ip (udp_socks st ! i)) \<notin> {TCP_ESTABLISHED, TCP_CLOSE_WAIT}"
  shows "\<exists>st'. sys_close_socket fd st = Some (0, st') \<and> us_bound (udp_socks st' ! i) \<and> us_local_port (udp_socks st' ! i) = us_local_port (udp_socks st ! i) \<and>
    us_local_ip (udp_socks st' ! i) = 0"
  using assms by (simp add: sys_close_socket_def Let_def first_word_def set_first_word_def upd_udp_def upd_sock_def)

subsection \<open>Echo requests are answered\<close>

lemma ip_frame_checksum:
  assumes "length m = 6" "length (local_mac st) = 6"
  shows "ip_checksum (take 20 (drop 14 (ip_frame st m dst proto d))) = 0"
proof -
  have "take 20 (ip_header a b c e g @ x) = ip_header a b c e g" for a b c e g x by (simp add: ip_header_def le16_def le32_def)
  then show ?thesis unfolding ip_frame_def eth_fields(2)[OF assms] using ip_header_checksum by simp
qed

text \<open>The two allocations for a packet of \<open>n\<close> bytes above IP: the packet, and the frame around it.\<close>

definition packet_memory :: "nat \<Rightarrow> net_state \<Rightarrow> bool" where
  "packet_memory n st \<longleftrightarrow> (let (p, st1) = net_alloc n st in p \<noteq> 0 \<and> fst (net_alloc (34 + n) st1) \<noteq> 0)"

lemma ip_send_resolved:
  assumes len: "unat len = length d" "length d < 65516" and res: "resolved st dst m"
  shows "\<exists>st'. ip_send_packet dst proto d len st = Some st' \<and>
    sent_to st (if fst (net_alloc (34 + length d) st) = 0 then [] else [ip_frame st m dst proto d]) st'"
proof -
  have t: "unat (20 + len) = 20 + unat len" using len by (simp add: unat_add_noof)
  obtain p st1 where a: "net_alloc (34 + length d) st = (p, st1)" by fastforce
  note s1 = sent_alloc[OF a]
  have l: "arp_lookup dst st1 = (Some m, st1)" using arp_lookup_sent(1) resolved_sent[OF s1] res by blast
  have rd: "rdn d 0 (unat len) = Some d" using len by (simp add: rdn_def)
  have lenw: "of_nat (length d) = len" unfolding len(1)[symmetric] by simp
  have n: "14 + unat (20 + len) = 34 + length d" using t len by simp
  note r = ip_send_packet_def[of dst proto d len st, unfolded Let_def n a prod.case l]
  have tx: "netdev_tx st1 \<noteq> None" using res sent_fields[OF s1] by (simp add: resolved_def)
  let ?f = "ip_frame st1 m dst proto d"
  have "ip_send_packet dst proto d len st = Some (if p = 0 then st1 else net_free p (snd (net_tx_frame ?f st1)))"
    using r t rd by (simp add: ip_frame_def lenw)
  moreover have "sent_to st ([] @ [?f] @ []) (net_free p (snd (net_tx_frame ?f st1)))"
    using sent_trans[OF s1 sent_trans[OF sent_tx sent_free], of ?f p] tx by simp
  ultimately show ?thesis using s1 a ip_frame_sent[OF s1] by auto
qed

lemma send_over_ip_resolved:
  assumes len: "unat len = length d" "unat hl + length d < 65516" and h: "length (h (hl + len) d) = unat hl + length d" and res: "resolved st dst m"
  shows "\<exists>b st'. send_over_ip dst proto h hl d len st = Some (b, st') \<and>
    sent_to st (if packet_memory (unat hl + length d) st then [ip_frame st m dst proto (h (hl + len) d)] else []) st'"
proof -
  have t: "unat (hl + len) = unat hl + length d" using len by (simp add: unat_add_noof)
  obtain p st1 where a: "net_alloc (unat hl + length d) st = (p, st1)" by fastforce
  note s1 = sent_alloc[OF a]
  have rd: "rdn d 0 (unat len) = Some d" using len by (simp add: rdn_def)
  have l: "unat (hl + len) = length (h (hl + len) d)" "length (h (hl + len) d) < 65516" "resolved st1 dst m" using t h len resolved_sent[OF s1] res by simp_all
  let ?fs = "if fst (net_alloc (34 + (unat hl + length d)) st1) = 0 then [] else [ip_frame st1 m dst proto (h (hl + len) d)]"
  from ip_send_resolved[OF l, of proto] obtain st2 where i: "ip_send_packet dst proto (h (hl + len) d) (hl + len) st1 = Some st2" "sent_to st1 ?fs st2"
    unfolding h by blast
  note r = send_over_ip_def[of dst proto h hl d len st, unfolded Let_def t a prod.case]
  have "sent_to st ([] @ ?fs @ []) (net_free p st2)" by (rule sent_trans[OF s1 sent_trans[OF i(2) sent_free]])
  moreover have "send_over_ip dst proto h hl d len st = Some (if p = 0 then (False, st1) else (True, net_free p st2))" using r rd i(1) len(1) by simp
  ultimately show ?thesis using s1 a ip_frame_sent[OF s1] by (cases "p = 0") (auto simp: packet_memory_def)
qed

text \<open>C35. A ping is answered. An echo request from a host whose address is resolved makes the stack transmit exactly one frame when the
  memory pool has room for the packet and for the frame around it, and none otherwise. The frame is an echo reply to the sender with the
  identifier, the sequence number and the data of the request; its ICMP checksum and its IP header checksum verify.\<close>

theorem ping_answered:
  assumes m: "length m = 6" "length (local_mac A) = 6" and d: "length d < 65508"
    and req: "f = ip_frame A m (local_ip B) IP_PROTO_ICMP (icmp_header 8 ck ident sq @ d)"
    and res: "resolved B (local_ip A) m'" "length m' = 6" "length (local_mac B) = 6"
  shows "\<exists>B' c. net_rx_frame f B = Some B' \<and>
    tx_log B' = tx_log B @ (if packet_memory (8 + length d) B then [ip_frame B m' (local_ip A) IP_PROTO_ICMP (icmp_header 0 c ident sq @ d)] else []) \<and>
    ip_checksum (icmp_header 0 c ident sq @ d) = 0 \<and>
    ip_checksum (take 20 (drop 14 (ip_frame B m' (local_ip A) IP_PROTO_ICMP (icmp_header 0 c ident sq @ d)))) = 0"
proof -
  let ?ic = "icmp_header 8 ck ident sq @ d" and ?c = "ip_checksum (icmp_header 0 0 ident sq @ d)"
  let ?h = "\<lambda>total d. icmp_header 0 (ip_checksum (icmp_header 0 0 ident sq @ d)) ident sq @ d"
  have l: "length ?ic = 8 + length d" by (simp add: icmp_header_def le16_def)
  have l': "length ?ic < 65516" using l d by simp
  have u: "unat (of_nat (length ?ic) :: u16) = 8 + length d" "unat (of_nat (length d) :: u16) = length d"
    using unat_of_nat_16[of "length ?ic"] unat_of_nat_16[of "length d"] l d by simp_all
  have s: "of_nat (length ?ic) - (8 :: u16) = of_nat (length d)" unfolding l by simp
  have dr: "drop 8 ?ic = d" by (simp add: icmp_header_def le16_def)
  have run: "net_rx_frame f B = icmp_send_echo_reply (local_ip A) ident sq d (of_nat (length d)) B"
    unfolding req by (subst rx_ip_frame[OF m l']) (use u dr s in \<open>simp_all add: icmp_handle_packet_def del: drop_append\<close>)
  have h: "length (?h (8 + of_nat (length d)) d) = unat (8 :: u16) + length d" "unat (8 :: u16) + length d < 65516"
    using d by (simp_all add: icmp_header_def le16_def)
  obtain b B' where o: "send_over_ip (local_ip A) IP_PROTO_ICMP ?h 8 d (of_nat (length d)) B = Some (b, B')"
    "sent_to B (if packet_memory (unat (8 :: u16) + length d) B then [ip_frame B m' (local_ip A) IP_PROTO_ICMP (?h (8 + of_nat (length d)) d)] else []) B'"
    using send_over_ip_resolved[OF u(2) h(2), of ?h, OF h(1) res(1), of IP_PROTO_ICMP] by blast
  have "tx_log B' = tx_log B @ (if packet_memory (8 + length d) B then [ip_frame B m' (local_ip A) IP_PROTO_ICMP (icmp_header 0 ?c ident sq @ d)] else [])"
    using sent_fields[OF o(2)] by simp
  moreover have "ip_checksum (icmp_header 0 ?c ident sq @ d) = 0" by (rule icmp_checksum) (use d in simp)
  moreover note ip_frame_checksum[OF res(2,3)]
  ultimately show ?thesis using run o(1) by (intro exI[of _ B'] exI[of _ ?c]) (simp add: icmp_send_echo_reply_def)
qed

lemma host_packet_memory: "packet_memory 11 (host 10 20 [] [] [])"
  by code_simp

theorem ping_answered_witness:
  "\<exists>B' c. net_rx_frame (ip_frame (host 20 10 [] [] []) [2, 0, 0, 0, 0, 10] 0xC0A8000A IP_PROTO_ICMP (icmp_header 8 0 1 7 @ [1, 2, 3])) (host 10 20 [] [] []) = Some B' \<and>
    tx_log B' = [ip_frame (host 10 20 [] [] []) [2, 0, 0, 0, 0, 20] 0xC0A80014 IP_PROTO_ICMP (icmp_header 0 c 1 7 @ [1, 2, 3])] \<and>
    ip_checksum (icmp_header 0 c 1 7 @ [1, 2, 3]) = 0"
proof -
  let ?A = "host 20 10 [] [] []" and ?B = "host 10 20 [] [] []"
  have h: "local_ip ?A = 0xC0A80014" "local_ip ?B = 0xC0A8000A" "tx_log ?B = []" by (simp_all add: host_def)
  have n: "8 + length [1, 2, 3 :: u8] = 11" by simp
  have "length [2, 0, 0, 0, 0, 10 :: u8] = 6" "length (local_mac ?A) = 6" "length [1, 2, 3 :: u8] < 65508"
    "resolved ?B (local_ip ?A) [2, 0, 0, 0, 0, 20]" "length [2, 0, 0, 0, 0, 20 :: u8] = 6" "length (local_mac ?B) = 6"
    by (simp_all add: host_def resolved_def next_hop_def)
  from ping_answered[OF this(1-3) refl this(4-6), where ck = 0 and ident = 1 and sq = 7] host_packet_memory
  show ?thesis unfolding h n append_Nil by auto
qed

subsection \<open>The configuration text\<close>

text \<open>
  The loop of \<open>net_config_load\<close> skips blanks and tabs in front of a key and everything up to the next blank, tab or newline
  behind it; nothing moves it over a newline.
\<close>

lemma cstr_skip: "(\<And>c. P c \<Longrightarrow> c \<noteq> 0 \<and> c \<noteq> 10) \<Longrightarrow> 10 \<in> set (cstr p) \<longleftrightarrow> 10 \<in> set (cstr (skip_while P p))"
  unfolding skip_while_def by (induction p) auto

lemma strncmp_prefix: "strncmp p q n = Some 0 \<Longrightarrow> 0 \<notin> set (take n q) \<Longrightarrow> take n p = take n q \<and> n \<le> length p"
proof (induction p q n rule: strncmp.induct)
  case (2 a p b q n)
  then show ?case by (auto split: if_splits)
qed auto

lemma cstr_drop:
  assumes "take n p = k" "n \<le> length p" "0 \<notin> set k" "10 \<notin> set k"
  shows "10 \<in> set (cstr p) \<longleftrightarrow> 10 \<in> set (cstr (drop n p))"
proof -
  have "p = k @ drop n p" using assms(1) by (metis append_take_drop_id)
  moreover have "10 \<in> set (cstr (k @ r)) \<longleftrightarrow> 10 \<in> set (cstr r)" for r using assms(3,4) by (induction k) auto
  ultimately show ?thesis by metis
qed

lemma config_key_keeps: "config_key p st = Some (p1, st1) \<Longrightarrow> 10 \<in> set (cstr p) \<longleftrightarrow> 10 \<in> set (cstr p1)"
proof -
  assume r: "config_key p st = Some (p1, st1)"
  have k: "10 \<in> set (cstr p) \<longleftrightarrow> 10 \<in> set (cstr (drop (length key) p))" if "strncmp p (key @ [0]) (length key) = Some 0" "0 \<notin> set key" "10 \<notin> set key" for key
    using strncmp_prefix[OF that(1)] that(2,3) by (intro cstr_drop[where k = key]) simp_all
  have l: "length key_ip = 3" "length key_gateway = 8" "length key_netmask = 8" "length key_mac = 4"
    and n: "0 \<notin> set key_ip" "10 \<notin> set key_ip" "0 \<notin> set key_gateway" "10 \<notin> set key_gateway" "0 \<notin> set key_netmask" "10 \<notin> set key_netmask"
      "0 \<notin> set key_mac" "10 \<notin> set key_mac"
    by (simp_all add: key_ip_def key_gateway_def key_netmask_def key_mac_def)
  note keys = k[OF _ n(1,2)] k[OF _ n(3,4)] k[OF _ n(5,6)] k[OF _ n(7,8)]
  show ?thesis using r keys[unfolded l] unfolding config_key_def by (auto split: bind_splits if_splits)
qed

lemma config_loop_no_newline: "config_loop p st = Some st' \<Longrightarrow> 10 \<notin> set (cstr p)"
proof -
  assume r: "config_loop p st = Some st'"
  show ?thesis
  proof (rule config_loop.raw_induct[where P = "\<lambda>p st st'. 10 \<notin> set (cstr p)", OF _ r])
    fix loop p st st'
    assume IH: "\<And>p st st'. loop p st = Some st' \<Longrightarrow> 10 \<notin> set (cstr p)"
      and r: "(case p of [] \<Rightarrow> None | c # _ \<Rightarrow> if c = 0 then Some st
        else Option.bind (config_key (skip_while (\<lambda>c. c = 32 \<or> c = 9) p) st) (\<lambda>(p1, st1).
          loop (skip_while (\<lambda>c. c \<noteq> 0 \<and> c \<noteq> 32 \<and> c \<noteq> 9 \<and> c \<noteq> 10) p1) st1)) = Some st'"
    let ?p = "skip_while (\<lambda>c. c = 32 \<or> c = 9) p" and ?P = "\<lambda>c :: u8. c \<noteq> 0 \<and> c \<noteq> 32 \<and> c \<noteq> 9 \<and> c \<noteq> 10"
    show "10 \<notin> set (cstr p)"
    proof (cases "\<exists>q. p = 0 # q")
      case False
      then obtain p1 st1 where k: "config_key ?p st = Some (p1, st1)" "loop (skip_while ?P p1) st1 = Some st'"
        using r by (auto split: bind_splits list.splits if_splits)
      have b: "10 \<in> set (cstr p) \<longleftrightarrow> 10 \<in> set (cstr ?p)" by (rule cstr_skip) auto
      have "10 \<notin> set (cstr (skip_while ?P p1))" by (rule IH[OF k(2)])
      then show ?thesis using cstr_skip[of ?P p1] config_key_keeps[OF k(1)] b by auto
    qed auto
  qed
qed

lemma config_newline_hangs: "10 \<in> set (cstr t) \<Longrightarrow> net_config_load (Some t) st = None"
  using config_loop_no_newline[of t st] by (cases "config_loop t st") (auto simp: net_config_load_def)

end
