(* ===== verification/Spec2Isabelle.thy ===== *)
theory Spec2Isabelle
  imports Libc_String Memory_Pool Kfifo Fifo_Pipe Ipc_Sysv Futex Ipc_Message Route Vlan Idr Cpumask Kapi_Sort Timer_Wheel Signal Libc_Time Page_Table Cfs Kapi_Rbtree Security Lsm_Hooks Selinux_Context Slab Libc_Stdlib Net_Sockets
begin

text \<open>
  A verification library for the Kenux kernel (\<open>src/kernel\<close>, \<open>src/include\<close>). The kernel is written in C
  for one x86-64 machine: a cooperative process table, wait queues with the primitives and the
  inter-process communication built on them, a page-granular memory pool with page tables, timers,
  signals, an internet protocol stack with sockets, routing and VLAN tables, a fair scheduler, a C library, and
  the ``K API'', a layer of containers and helpers for drivers.

  \<^bold>\<open>How the code is modelled.\<close> A structure is a \<open>record\<close> with the fields of the source, an array a list
  of the same length, an integer a word of its width (\<open>u8\<close> to \<open>u64\<close> of \<open>Prelude\<close>), so that overflow
  is that of the code; a C \<open>int\<close> that only carries a small result is an \<open>int\<close>. A pointer that the
  code only compares with \<open>NULL\<close> is an option; pointers that are stored are addresses (\<open>u64\<close>, 0 is
  \<open>NULL\<close>), with a store from addresses to nodes where structures are linked (\<open>wait_nodes\<close>, the heap of
  \<open>Rbtree\<close>, the page frames of \<open>Page_Table\<close>). One C function is one definition from the state to the
  result and the new state. What an allocator answers is an argument of the caller's definition. A critical
  section between \<open>spin_lock\<close> and \<open>spin_unlock\<close> is one step; a function that calls \<open>process_yield\<close> in a
  loop is split there, into the part before the yield and the part after it, so that other
  steps can come between. An access outside an object, where the code could make one, is \<open>None\<close>.

  \<^bold>\<open>Loops.\<close> A loop over a bounded index is structural recursion or a \<open>function\<close> with a measure. A loop
  that follows pointers is a \<open>partial_function\<close> in the option monad, \<open>None\<close> meaning that it never ends,
  and the theorems state the \<open>Some\<close>. Only \<open>fifo_read\<close> and \<open>fifo_write\<close> carry fuel, because for requests
  of a multiple of \<open>2^32\<close> bytes the read loop does not advance: two units of fuel are enough for every
  request that ends, as the loop body either finishes the transfer, leaves the ring full or
  empty, or waits, and the theorems give the result for every fuel from 2 up.

  \<^bold>\<open>The theories,\<close> from the bottom up.

  \<^item> \<open>Prelude\<close>: machine types, the collection \<open>ring_simps\<close> of index arithmetic, and lemmas on words, list
    updates and searches (\<open>find_idx\<close>) that the components share.

  \<^item> \<open>Libc_String\<close> (\<open>lib/libc/string.c\<close>): the block and string functions on byte lists, reads past an
    object being \<open>None\<close>. \<open>memmove\<close> copies overlapping blocks; \<open>strstr\<close> finds the first occurrence;
    \<open>bounded_copy\<close> is the idiom by which the kernel fills name fields.
  \<^item> \<open>Libc_Time\<close> (\<open>lib/libc/time.c\<close>): the clock chip, calendar conversions and \<open>strftime\<close>, which never
    writes past its limit. \<open>mktime\<close> is shown equal to the count of seconds since 1970.

  \<^item> \<open>Memory_Pool\<close> (\<open>arch/x86_64/memory.c\<close>, \<open>memory_*\<close>, \<open>vma_*\<close>): the block table. Its invariant says that
    blocks are disjoint, page aligned and below the break, and that \<open>used_size\<close> is what is in use; allocation
    returns memory that overlaps nothing in use.
  \<^item> \<open>Page_Table\<close> (\<open>pmap_*\<close> of the same file): four levels of tables in pages of the pool. The tables
    refine a partial map from virtual to physical pages.
  \<^item> \<open>Buddy\<close>, \<open>Slab\<close> (\<open>arch/x86_64/buddy.c\<close>, \<open>slab.c\<close>): the page allocator with its lists through the page
    structures, and the object allocator over it, whose headers and free objects share one memory of
    words. On an aligned zone the blocks the page allocator gives out are disjoint and inside the zone; releases
    and the placement of the slab headers break this, which is shown on the same definitions.
  \<^item> \<open>Pagecache\<close> (\<open>arch/x86_64/pagecache.c\<close>): hash chains and the list of recent use over pages of the pool; the cache
    refines a map from file and offset to bytes, and write-back writes each dirty page once.
  \<^item> \<open>Pagefault\<close> (\<open>arch/x86_64/pagefault.c\<close>): the state joins page tables and frames in one memory of words
    (\<open>vm_ok\<close>); a copy-on-write fault gives a page a frame of its own with the old contents.
  \<^item> \<open>Mmap\<close>, \<open>Mmap_Pages\<close> (\<open>arch/x86_64/mmap.c\<close>): the table of mapped areas over the three theories before. \<open>cover\<close> is the
    set of mapped addresses with their protection: \<open>munmap\<close> removes a range from it, an anonymous \<open>mmap\<close> adds a free
    range backed by cleared frames of its own, and no history of calls makes areas overlap.
  \<^item> \<open>Libc_Stdlib\<close> (\<open>lib/libc/stdlib.c\<close>): the heap over these mappings, with the bytes of a block read and written
    through the page tables: live blocks are disjoint over every history of calls, and \<open>realloc\<close> keeps their
    contents. Also exit handlers and number conversion; \<open>strtol\<close> reads what digits write.

  \<^item> \<open>Process\<close> (\<open>kernel/process.c\<close>): the process table and the round-robin \<open>process_yield\<close>, which
    keeps the table well formed and lets no ready process wait longer than one round.
  \<^item> \<open>Timer\<close>, \<open>Timer_Wheel\<close> (\<open>kernel/timer.c\<close>): the wheel of four levels and the sorted list of high
    resolution timers; a one-shot timer within the first level fires exactly once and on its tick.
  \<^item> \<open>Wait_Queue\<close> (\<open>kernel/wait.c\<close>): doubly linked nodes on the stacks of the waiters. The predicate
    \<open>wq_list\<close> relates the links to the list of waiters, and waking refines removal from that list.
  \<^item> \<open>Sync\<close> (\<open>kernel/sync.c\<close>): mutex, semaphore, condition variable, completion and barrier
    over \<open>Wait_Queue\<close> and \<open>Process\<close>. The mutex is also run as a step relation of all processes
    (\<open>mutex_step\<close>), with mutual exclusion by rule induction.
  \<^item> \<open>Signal\<close> (\<open>kernel/signal.c\<close>): dispositions, masks, pending sets and queues, frames, as a step
    relation (\<open>signal_step\<close>) with the invariant that a process never blocks \<open>SIGKILL\<close> or \<open>SIGSTOP\<close>.

  \<^item> \<open>Byte_Queue\<close>: the interface of a byte ring as a locale, with the client's lemma that any
    interleaving of puts and gets delivers the bytes in order. It is interpreted for \<open>Kfifo\<close>
    (\<open>api/kapi_kfifo.c\<close>, free-running 32-bit indices) and \<open>Fifo_Pipe\<close> (\<open>kernel/fifo.c\<close>, over \<open>Wait_Queue\<close>).
  \<^item> \<open>Ipc_Sysv\<close>, \<open>Futex\<close>, \<open>Ipc_Message\<close> (\<open>kernel/ipc.c\<close>): shared memory, message queues and semaphores,
    whose three tables interpret one locale \<open>key_table\<close>; the futex hash queues, which refine a list of waiters
    per address; the ring of kernel messages.

  \<^item> \<open>Rbtree\<close>, \<open>Cfs\<close> (\<open>arch/x86_64/cfs.c\<close>): the red-black tree with parent pointers and a sentinel, related to
    trees of \<open>HOL-Library.Tree\<close> by a shape predicate with contexts (one-hole trees), and the fair run queue over
    it, which refines an ordered list; insertion keeps the height logarithmic.
  \<^item> \<open>Kapi_Rbtree\<close> (\<open>api/kapi_rbtree.c\<close>): the second red-black tree, with null leaves; any history of
    insertions and removals refines an ordered list.

  \<^item> \<open>Security\<close> (\<open>arch/x86_64/security.c\<close>): credentials, capabilities and address randomisation; a process
    without privilege never gains one.
  \<^item> \<open>Lsm\<close>, \<open>Lsm_Hooks\<close> (\<open>arch/x86_64/lsm.c\<close>): registration of security modules and the chain of their answers; every
    \<open>security_*\<close> function interprets one locale \<open>security_decision\<close>, in which a further module can only refuse more.
  \<^item> \<open>Selinux\<close>, \<open>Selinux_Context\<close> (\<open>arch/x86_64/selinux.c\<close>): the access vector table, the cache of decisions,
    which never changes an answer, and the two-way maps between identifiers, contexts and their text.

  \<^item> \<open>Route\<close>, \<open>Vlan\<close> (\<open>arch/x86_64/route.c\<close>, \<open>vlan.c\<close>): longest-prefix lookup in tables kept sorted; tags
    put on a frame by \<open>vlan_tx\<close> and taken off by \<open>vlan_rx\<close>.

  \<^item> \<open>Net\<close> (\<open>arch/x86_64/net.c\<close>): Ethernet, ARP, IP, ICMP, UDP, TCP, the DHCP client and the socket calls, on the bytes of
    frames; what the driver is given is a log (\<open>tx_log\<close>), what it delivers is any list of bytes, and a read past a frame
    is \<open>None\<close>. \<open>Net_Stream\<close>: checksums verify, the receive buffers interpret the locale of \<open>Byte_Queue\<close>, and bytes
    sent by one host are the bytes another one reads. \<open>Net_Sockets\<close>: the locale \<open>rx_invariant\<close> reduces what holds under received
    frames to a few kinds of change; it is interpreted for the invariant of the tables and for the moves
    of a TCP socket, from which it follows that outgoing connections are never established. Steps outside defined behaviour are
    \<open>None\<close>; the invariant holds along every defined sequence, and the next step of a listed set of proper ones is always defined.

  \<^item> \<open>Bitmap\<close>, \<open>Idr\<close>, \<open>Cpumask\<close>, \<open>Kapi_Sort\<close> (\<open>include/kapi_bitmap.h\<close>, \<open>api/kapi_idr.c\<close>, \<open>api/kapi_cpumask.c\<close>,
    \<open>api/kapi_sort.c\<close>): searches by word equal to searches by bit; identifiers never handed out twice
    (locale \<open>id_table\<close>); masks refine sets of CPUs; the three sorts sort for every comparison that
    satisfies the locale \<open>comparator\<close>, and end (the insertion sort for elements that fit into its buffer).

  \<^bold>\<open>What the theorems show.\<close> Each component has an invariant kept by all its operations, and its main
  theorem relates the operations to a mathematical object: a list (queues, rings, run queue), a map (page tables,
  identifiers, keys), a set (masks), the order of a sort. Where the code departs from what it
  is meant to do, the departure is a lemma on the same definitions, for instance
  \<open>cfs_task_init_empties_queue\<close>, \<open>signal_queue_stuck\<close>, \<open>zeller_wday_off_by_one\<close>,
  \<open>pmap_unmap_page_writes_2M_page\<close>, \<open>futex_wait_frees_twice\<close>, \<open>requeued_waiter_freed_while_queued\<close>, \<open>insertsort_overruns_tmp\<close>,
  \<open>buddy_free_hands_out_twice\<close>,
  \<open>kmalloc_small_repeats\<close>, \<open>dropped_root_comes_back\<close>, \<open>private_write_fault_ignores_protection\<close>,
  \<open>destroy_loses_frames\<close>, \<open>demand_paged_write_kills\<close>, \<open>connect_never_established\<close>, \<open>stream_sockets_shared\<close>,
  \<open>config_newline_hangs\<close>.

  \<^bold>\<open>Not modelled.\<close> The boot code, interrupt and descriptor set-up, device drivers (disk, network, display,
  USB, buses), power management and spinlocks are writes to hardware registers or instructions whose effect is not in
  the sources. Program loading, the on-disk file systems and swap read formats through those drivers. Floating-point mathematics and the shell are left out for the same
  reason: their meaning is in the hardware or on the console. The system call layer and the K API wrappers
  forward to the functions modelled here. Interrupts that would preempt a critical section and the
  interleaving of several processors inside one are outside the step granularity chosen above. Timer callbacks that start or
  cancel timers are outside the model of the wheel.
\<close>

end
